(* ===== verification/Prelude.thy ===== *)
theory Prelude
  imports
    Main
    "HOL-Library.Char_ord"
    "HOL-Library.List_Lexorder"
    "HOL-Library.Product_Lexorder"
    "HOL-Library.Sublist"
    "HOL-Library.Word"
begin

text \<open>
  Shared vocabulary of the development: the errors the C++ code can end in, the
  result type of an operation that can fail, decimal numerals as
  \<open>std::to_string\<close> prints and \<open>std::stoll\<close> reads them, substring search, and
  the interfaces (locales) that several components rely on.
\<close>

named_theorems result_simps \<open>unfolding of the result operations\<close>
named_theorems char_simps \<open>facts about the character classes the parsers test\<close>

section \<open>Errors and results\<close>

text \<open>
  What a call can end in instead of a value. \<open>Runtime_error\<close> is the exception
  that \<open>SW_RUNTIME_ERROR\<close> builds, \<open>Logic_error\<close> is \<open>std::logic_error\<close>,
  \<open>Out_of_range\<close> and \<open>Length_error\<close> are the exceptions of the standard
  library's conversions and containers, \<open>Unimplemented\<close> is
  \<open>SW_UNIMPLEMENTED\<close>, \<open>Undefined\<close> stands for undefined behaviour (an access
  outside an array, a signed overflow) and \<open>Diverges\<close> for a call that does
  not return.
\<close>

datatype cpp_error =
    Runtime_error string
  | Logic_error string
  | Out_of_range
  | Length_error
  | Unimplemented
  | Undefined
  | Diverges

type_synonym 'a result = "cpp_error + 'a"

definition bind_result :: "'a result \<Rightarrow> ('a \<Rightarrow> 'b result) \<Rightarrow> 'b result" where
  "bind_result r f = (case r of Inl e \<Rightarrow> Inl e | Inr x \<Rightarrow> f x)"

lemma bind_result_simps [simp, result_simps]:
  "bind_result (Inl e) f = Inl e"
  "bind_result (Inr x) f = f x"
  by (simp_all add: bind_result_def)

lemma bind_result_Inr_iff [result_simps]:
  "bind_result r f = Inr y \<longleftrightarrow> (\<exists>x. r = Inr x \<and> f x = Inr y)"
  by (cases r) auto

lemma bind_result_Inl_iff [result_simps]:
  "bind_result r f = Inl e \<longleftrightarrow> r = Inl e \<or> (\<exists>x. r = Inr x \<and> f x = Inl e)"
  by (cases r) auto

lemma bind_result_cong [fundef_cong]:
  "r = r' \<Longrightarrow> (\<And>x. r' = Inr x \<Longrightarrow> f x = g x) \<Longrightarrow> bind_result r f = bind_result r' g"
  by (cases r') auto

text \<open>\<open>map\<close> with a function that can fail, from left to right.\<close>

fun map_result :: "('a \<Rightarrow> 'b result) \<Rightarrow> 'a list \<Rightarrow> 'b list result" where
  "map_result f [] = Inr []"
| "map_result f (x # xs) =
     bind_result (f x) (\<lambda>y. bind_result (map_result f xs) (\<lambda>ys. Inr (y # ys)))"

lemma map_result_cong [fundef_cong]:
  "xs = ys \<Longrightarrow> (\<And>x. x \<in> set ys \<Longrightarrow> f x = g x) \<Longrightarrow> map_result f xs = map_result g ys"
proof (induction ys arbitrary: xs)
  case (Cons y ys)
  have "map_result f ys = map_result g ys"
    using Cons.prems by (intro Cons.IH) auto
  then show ?case
    using Cons.prems by simp
qed simp

lemma map_result_Inr_length: "map_result f xs = Inr ys \<Longrightarrow> length ys = length xs"
  by (induction xs arbitrary: ys) (auto simp: bind_result_Inr_iff)

lemma map_result_total: "(\<And>x. x \<in> set xs \<Longrightarrow> f x = Inr (g x)) \<Longrightarrow> map_result f xs = Inr (map g xs)"
  by (induction xs) auto

section \<open>Decimal numerals\<close>

definition digit_char :: "nat \<Rightarrow> char" where
  "digit_char d = char_of (48 + d)"

definition digit_value :: "char \<Rightarrow> nat" where
  "digit_value c = of_char c - 48"

definition is_digit :: "char \<Rightarrow> bool" where
  "is_digit c \<longleftrightarrow> 48 \<le> (of_char c :: nat) \<and> (of_char c :: nat) \<le> 57"

lemma of_char_digit_char [char_simps]: "d < 10 \<Longrightarrow> (of_char (digit_char d) :: nat) = 48 + d"
  by (simp add: digit_char_def)

lemma is_digit_digit_char [char_simps]: "d < 10 \<Longrightarrow> is_digit (digit_char d)"
  by (simp add: is_digit_def of_char_digit_char)

lemma digit_value_digit_char [char_simps]: "d < 10 \<Longrightarrow> digit_value (digit_char d) = d"
  by (simp add: digit_value_def of_char_digit_char)

fun nat_to_string :: "nat \<Rightarrow> string" where
  "nat_to_string n =
     (if n < 10 then [digit_char n]
      else nat_to_string (n div 10) @ [digit_char (n mod 10)])"

declare nat_to_string.simps [simp del]

text \<open>\<open>std::to_string\<close> of a signed integer.\<close>

definition to_string :: "int \<Rightarrow> string" where
  "to_string n = (if n < 0 then CHR ''-'' # nat_to_string (nat (- n)) else nat_to_string (nat n))"

definition digits_value :: "string \<Rightarrow> nat" where
  "digits_value s = foldl (\<lambda>a c. 10 * a + digit_value c) 0 s"

lemma nat_to_string_nonempty [simp]: "nat_to_string n \<noteq> []"
  by (subst nat_to_string.simps) simp

lemma nat_to_string_digits: "c \<in> set (nat_to_string n) \<Longrightarrow> is_digit c"
proof (induction n arbitrary: c rule: nat_to_string.induct)
  case (1 n)
  show ?case
  proof (cases "n < 10")
    case True
    with "1.prems" show ?thesis
      by (subst (asm) nat_to_string.simps) (simp add: is_digit_digit_char)
  next
    case False
    with "1.prems" "1.IH" show ?thesis
      by (subst (asm) nat_to_string.simps) (auto simp: is_digit_digit_char)
  qed
qed

lemma list_all_nat_to_string [simp]: "list_all is_digit (nat_to_string n)"
  by (simp add: list_all_iff nat_to_string_digits)

lemma digits_value_snoc [simp]: "digits_value (s @ [c]) = 10 * digits_value s + digit_value c"
  by (simp add: digits_value_def)

lemma digits_value_nat_to_string [simp]: "digits_value (nat_to_string n) = n"
proof (induction n rule: nat_to_string.induct)
  case (1 n)
  show ?case
  proof (cases "n < 10")
    case True
    then show ?thesis
      by (subst nat_to_string.simps) (simp add: digits_value_def digit_value_digit_char)
  next
    case False
    with "1.IH" show ?thesis
      by (subst nat_to_string.simps) (simp add: digit_value_digit_char)
  qed
qed

lemma to_string_nonempty [simp]: "to_string n \<noteq> []"
  by (simp add: to_string_def)

lemma to_string_digits: "0 \<le> n \<Longrightarrow> list_all is_digit (to_string n)"
  by (simp add: to_string_def)

lemma digits_value_to_string: "0 \<le> n \<Longrightarrow> int (digits_value (to_string n)) = n"
  by (simp add: to_string_def)

lemma nat_to_string_inject: "nat_to_string m = nat_to_string n \<longleftrightarrow> m = n"
  by (metis digits_value_nat_to_string)

lemma digit_head: "nat_to_string n \<noteq> CHR ''-'' # s"
  using nat_to_string_digits [of "CHR ''-''" n] by (auto simp: is_digit_def)

lemma to_string_inject: "to_string i = to_string j \<longleftrightarrow> i = j"
  using digit_head by (auto simp: to_string_def nat_to_string_inject) metis+

text \<open>The bounds of the 64-bit and 32-bit signed integers of the code.\<close>

definition int64_max :: int where
  "int64_max = 9223372036854775807"

definition int64_min :: int where
  "int64_min = - 9223372036854775808"

definition int32_max :: int where
  "int32_max = 2147483647"

text \<open>
  \<open>std::stoll\<close> and \<open>std::stoi\<close> on a string of digits (the only strings the code
  passes to them): the value, or \<open>std::out_of_range\<close> when it does not fit.
\<close>

definition stoll :: "string \<Rightarrow> int result" where
  "stoll s = (if int (digits_value s) \<le> int64_max then Inr (int (digits_value s)) else Inl Out_of_range)"

definition stoi :: "string \<Rightarrow> int result" where
  "stoi s = (if int (digits_value s) \<le> int32_max then Inr (int (digits_value s)) else Inl Out_of_range)"

lemma stoll_to_string: "0 \<le> n \<Longrightarrow> n \<le> int64_max \<Longrightarrow> stoll (to_string n) = Inr n"
  by (simp add: stoll_def digits_value_to_string)

lemma stoi_to_string: "0 \<le> n \<Longrightarrow> n \<le> int32_max \<Longrightarrow> stoi (to_string n) = Inr n"
  by (simp add: stoi_def digits_value_to_string)

lemma stoll_nonneg: "stoll s = Inr n \<Longrightarrow> 0 \<le> n \<and> n \<le> int64_max"
  by (auto simp: stoll_def split: if_splits)

section \<open>Character classes\<close>

definition is_alnum :: "char \<Rightarrow> bool" where
  "is_alnum c \<longleftrightarrow> is_digit c
     \<or> (65 \<le> (of_char c :: nat) \<and> (of_char c :: nat) \<le> 90)
     \<or> (97 \<le> (of_char c :: nat) \<and> (of_char c :: nat) \<le> 122)"

definition is_space :: "char \<Rightarrow> bool" where
  "is_space c \<longleftrightarrow> (of_char c :: nat) = 32 \<or> (9 \<le> (of_char c :: nat) \<and> (of_char c :: nat) \<le> 13)"

lemma is_digit_not_special [char_simps]:
  "is_digit c \<Longrightarrow> c \<noteq> CHR ''.''"
  "is_digit c \<Longrightarrow> c \<noteq> CHR ''-''"
  "is_digit c \<Longrightarrow> \<not> is_space c"
  by (auto simp: is_digit_def is_space_def)

lemma is_digit_alnum [char_simps]: "is_digit c \<Longrightarrow> is_alnum c"
  by (simp add: is_alnum_def)

lemma is_alnum_not_special [char_simps]:
  "is_alnum c \<Longrightarrow> c \<noteq> CHR ''.''"
  "is_alnum c \<Longrightarrow> c \<noteq> CHR ''-''"
  "is_alnum c \<Longrightarrow> \<not> is_space c"
  by (auto simp: is_alnum_def is_digit_def is_space_def)

text \<open>The newline character.\<close>

definition NL :: char where
  "NL = char_of (10 :: nat)"

lemma NL_char: "NL = CHR 0x0A"
  by code_simp

section \<open>Substring search\<close>

text \<open>\<open>std::string::find\<close>: the position of the first occurrence, if any.\<close>

fun str_find :: "string \<Rightarrow> string \<Rightarrow> nat option" where
  "str_find pat [] = (if pat = [] then Some 0 else None)"
| "str_find pat (c # s) =
     (if prefix pat (c # s) then Some 0 else map_option Suc (str_find pat s))"

lemma str_find_Some:
  "str_find pat s = Some i \<Longrightarrow> i + length pat \<le> length s \<and> take (length pat) (drop i s) = pat"
proof (induction s arbitrary: i)
  case Nil
  then show ?case by (simp split: if_splits)
next
  case (Cons c s)
  show ?case
  proof (cases "prefix pat (c # s)")
    case True
    with Cons.prems show ?thesis
      by (auto simp: prefix_def append_eq_conv_conj [symmetric] dest: arg_cong [of _ _ length])
  next
    case False
    with Cons.prems Cons.IH show ?thesis by auto
  qed
qed

lemma str_find_None_single: "str_find [d] s = None \<longleftrightarrow> d \<notin> set s"
  by (induction s) auto

lemma str_find_single_append: "d \<notin> set s \<Longrightarrow> str_find [d] (s @ d # t) = Some (length s)"
  by (induction s) auto

text \<open>Joining pieces with a separator.\<close>

fun join :: "'a list \<Rightarrow> 'a list list \<Rightarrow> 'a list" where
  "join sep [] = []"
| "join sep [x] = x"
| "join sep (x # y # xs) = x @ sep @ join sep (y # xs)"

lemma join_Cons: "xs \<noteq> [] \<Longrightarrow> join sep (x # xs) = x @ sep @ join sep xs"
  by (cases xs) auto

lemma join_eq_Nil_iff: "join sep xs = [] \<longleftrightarrow> xs = [] \<or> xs = [[]] \<or> (sep = [] \<and> (\<forall>x\<in>set xs. x = []))"
  by (induction sep xs rule: join.induct) auto

lemma concat_map_sep_join:
  "xs \<noteq> [] \<Longrightarrow> concat (map (\<lambda>x. x @ sep) xs) = join sep xs @ sep"
  by (induction sep xs rule: join.induct) auto

lemma take_concat_map_sep:
  "take (length (concat (map (\<lambda>x. x @ sep) xs)) - length sep) (concat (map (\<lambda>x. x @ sep) xs)) = join sep xs"
  by (cases "xs = []") (simp_all add: concat_map_sep_join)

lemma set_join: "set (join sep xs) \<subseteq> set sep \<union> (\<Union>x\<in>set xs. set x)"
  by (induction sep xs rule: join.induct) auto

section \<open>Sorted maps\<close>

text \<open>
  \<open>std::map\<close> as the list of its entries in the order of the keys. \<open>emplace\<close> (and \<open>insert\<close>)
  leaves an existing entry as it is; \<open>map_at\<close> is \<open>operator[]\<close>, which creates the entry with a
  default value, followed by a change of the value.
\<close>

abbreviation sorted_keys :: "('k::linorder \<times> 'v) list \<Rightarrow> bool" where
  "sorted_keys q \<equiv> sorted_wrt (<) (map fst q)"

fun emplace :: "'k::linorder \<Rightarrow> 'v \<Rightarrow> ('k \<times> 'v) list \<Rightarrow> ('k \<times> 'v) list" where
  "emplace k v [] = [(k, v)]"
| "emplace k v ((k', v') # q) =
     (if k < k' then (k, v) # (k', v') # q
      else if k = k' then (k', v') # q
      else (k', v') # emplace k v q)"

lemma keys_emplace: "fst ` set (emplace k v q) = insert k (fst ` set q)"
  by (induction q rule: emplace.induct) auto

lemma emplace_occupied: "sorted_keys q \<Longrightarrow> k \<in> fst ` set q \<Longrightarrow> emplace k v q = q"
  by (induction k v q rule: emplace.induct) auto

lemma set_emplace: "set (emplace k v q) \<subseteq> insert (k, v) (set q)"
  by (induction k v q rule: emplace.induct) auto

lemma emplace_not_Nil [simp]: "emplace k v q \<noteq> []"
  by (cases q) (auto split: if_splits)

lemma sorted_emplace:
  "sorted_keys q \<Longrightarrow> sorted_keys (emplace k v q)"
proof (induction k v q rule: emplace.induct)
  case (2 k v k' v' q)
  have "fst ` set (emplace k v q) = insert k (fst ` set q)" by (rule keys_emplace)
  with 2 show ?case by auto
qed simp

lemma distinct_emplace:
  "distinct (map (\<lambda>x. f (snd x)) q) \<Longrightarrow> f v \<notin> (\<lambda>x. f (snd x)) ` set q \<Longrightarrow>
    distinct (map (\<lambda>x. f (snd x)) (emplace k v q))"
proof (induction k v q rule: emplace.induct)
  case (2 k v k' v' q)
  then show ?case using set_emplace [of k v q] by force
qed simp

fun map_at :: "'k::linorder \<Rightarrow> 'v \<Rightarrow> ('v \<Rightarrow> 'v) \<Rightarrow> ('k \<times> 'v) list \<Rightarrow> ('k \<times> 'v) list" where
  "map_at k d f [] = [(k, f d)]"
| "map_at k d f ((k', v) # q) =
     (if k < k' then (k, f d) # (k', v) # q
      else if k = k' then (k', f v) # q
      else (k', v) # map_at k d f q)"

lemma map_of_below: "sorted_keys ((k', v) # q) \<Longrightarrow> k \<le> k' \<Longrightarrow> map_of q k = None"
  by (force simp: map_of_eq_None_iff)

lemma map_of_emplace:
  "sorted_keys q \<Longrightarrow> map_of (emplace k v q) = (if k \<in> dom (map_of q) then map_of q else (map_of q)(k \<mapsto> v))"
proof (induction k v q rule: emplace.induct)
  case (2 k v k' v' q)
  then show ?case using map_of_below [of k' v' q k] by (cases k k' rule: linorder_cases) (auto simp: fun_eq_iff)
qed simp

lemma map_of_map_at:
  "sorted_keys q \<Longrightarrow>
    map_of (map_at k d f q) = (map_of q)(k \<mapsto> f (case map_of q k of Some v \<Rightarrow> v | None \<Rightarrow> d))"
proof (induction k d f q rule: map_at.induct)
  case (2 k d f k' v q)
  then show ?case using map_of_below [of k' v q k] by (cases k k' rule: linorder_cases) (auto simp: fun_eq_iff)
qed simp

lemma keys_map_at: "fst ` set (map_at k d f q) = insert k (fst ` set q)"
  by (induction k d f q rule: map_at.induct) auto

lemma sorted_map_at: "sorted_keys q \<Longrightarrow> sorted_keys (map_at k d f q)"
proof (induction k d f q rule: map_at.induct)
  case (2 k d f k' v q)
  have "fst ` set (map_at k d f q) = insert k (fst ` set q)" by (rule keys_map_at)
  with 2 show ?case by auto
qed simp

section \<open>Interfaces\<close>

text \<open>
  An order given by its \<open>less\<close> and \<open>equal\<close> operations, as a C++ class offers
  it: \<open>lt\<close> is a strict weak order whose equivalence is \<open>eq\<close>. Clients that
  sort or compare by these operations rely on nothing else.
\<close>

locale weak_order =
  fixes lt :: "'v \<Rightarrow> 'v \<Rightarrow> bool"
    and eq :: "'v \<Rightarrow> 'v \<Rightarrow> bool"
  assumes eq_refl: "eq x x"
    and eq_sym: "eq x y \<Longrightarrow> eq y x"
    and eq_trans: "eq x y \<Longrightarrow> eq y z \<Longrightarrow> eq x z"
    and lt_not_eq: "lt x y \<Longrightarrow> \<not> eq x y"
    and lt_asym: "lt x y \<Longrightarrow> \<not> lt y x"
    and lt_trans: "lt x y \<Longrightarrow> lt y z \<Longrightarrow> lt x z"
    and lt_eq_trans: "lt x y \<Longrightarrow> eq y z \<Longrightarrow> lt x z"
    and eq_lt_trans: "eq x y \<Longrightarrow> lt y z \<Longrightarrow> lt x z"
    and trichotomy: "lt x y \<or> eq x y \<or> lt y x"
begin

lemma lt_irrefl: "\<not> lt x x"
  using eq_refl lt_not_eq by blast

lemma not_lt_iff: "\<not> lt x y \<longleftrightarrow> lt y x \<or> eq x y"
  using trichotomy lt_asym lt_not_eq eq_sym by blast

lemma le_trans: "\<not> lt y x \<Longrightarrow> \<not> lt z y \<Longrightarrow> \<not> lt z x"
  using not_lt_iff lt_trans lt_eq_trans eq_lt_trans eq_sym eq_trans by metis

lemma le_lt_trans: "\<not> lt y x \<Longrightarrow> lt y z \<Longrightarrow> lt x z"
  using not_lt_iff lt_trans eq_lt_trans eq_sym by metis

lemma lt_le_trans: "lt x y \<Longrightarrow> \<not> lt z y \<Longrightarrow> lt x z"
  using not_lt_iff lt_trans lt_eq_trans eq_sym by metis

lemma eq_lt_cong: "eq x x' \<Longrightarrow> eq y y' \<Longrightarrow> lt x y \<longleftrightarrow> lt x' y'"
  using lt_eq_trans eq_lt_trans eq_sym by metis

lemma antisym: "\<not> lt x y \<Longrightarrow> \<not> lt y x \<Longrightarrow> eq x y"
  using trichotomy by blast

text \<open>
  Finitely many values can be ranked by numbers, so that a fact about their order
  becomes one of arithmetic.
\<close>

lemma ranked:
  assumes "finite S"
  shows "\<exists>k :: 'v \<Rightarrow> nat. \<forall>x\<in>S. \<forall>y\<in>S. (lt x y \<longleftrightarrow> k x < k y) \<and> (eq x y \<longleftrightarrow> k x = k y)"
proof -
  define k where "k x = card {y \<in> S. lt y x}" for x
  have fin: "finite {y \<in> S. lt y x}" for x
    using assms by simp
  have less: "k x < k y" if "x \<in> S" "lt x y" for x y
  proof -
    have "{z \<in> S. lt z x} \<subset> {z \<in> S. lt z y}"
      using that lt_trans lt_irrefl by blast
    then show ?thesis
      unfolding k_def by (rule psubset_card_mono [OF fin])
  qed
  have same: "k x = k y" if "eq x y" for x y
  proof -
    have "lt z x \<longleftrightarrow> lt z y" for z
      using that lt_eq_trans eq_sym by blast
    then show ?thesis
      by (simp add: k_def)
  qed
  have "(lt x y \<longleftrightarrow> k x < k y) \<and> (eq x y \<longleftrightarrow> k x = k y)" if "x \<in> S" "y \<in> S" for x y
    using less [OF that(1), of y] less [OF that(2), of x] same [of x y] trichotomy [of x y]
      lt_not_eq [of x y] lt_not_eq [of y x] eq_sym [of x y] lt_asym [of x y]
    by linarith
  then show ?thesis by blast
qed

lemma rankedE:
  assumes "finite S"
  obtains k :: "'v \<Rightarrow> nat" where
    "\<And>x y. x \<in> S \<Longrightarrow> y \<in> S \<Longrightarrow> lt x y \<longleftrightarrow> k x < k y"
    "\<And>x y. x \<in> S \<Longrightarrow> y \<in> S \<Longrightarrow> eq x y \<longleftrightarrow> k x = k y"
  using ranked [OF assms] by blast

lemma ranked3:
  obtains k :: "'v \<Rightarrow> nat" where
    "\<And>x y. x \<in> {a, b, c} \<Longrightarrow> y \<in> {a, b, c} \<Longrightarrow> lt x y \<longleftrightarrow> k x < k y"
    "\<And>x y. x \<in> {a, b, c} \<Longrightarrow> y \<in> {a, b, c} \<Longrightarrow> eq x y \<longleftrightarrow> k x = k y"
  by (rule rankedE [of "{a, b, c}"]) simp_all

end

text \<open>
  A pair of a printer and a parser (an encoder and a decoder): on the values the
  format can represent, the parser undoes the printer.
\<close>

locale codec =
  fixes enc :: "'a \<Rightarrow> 'b"
    and dec :: "'b \<Rightarrow> 'a result"
    and valid :: "'a \<Rightarrow> bool"
  assumes dec_enc: "valid x \<Longrightarrow> dec (enc x) = Inr x"
begin

lemma enc_inj: "valid x \<Longrightarrow> valid y \<Longrightarrow> enc x = enc y \<Longrightarrow> x = y"
  using dec_enc by (metis Inr_inject)

lemma enc_inj_on: "inj_on enc {x. valid x}"
  using enc_inj by (auto intro: inj_onI)

lemma dec_canonical: "dec s = Inr x \<Longrightarrow> valid x \<Longrightarrow> dec (enc x) = dec s"
  using dec_enc by simp

end

end
