(* ===== verification/Version.thy ===== *)
theory Version
  imports Prelude
begin

text \<open>
  \<open>primitives::version::Version\<close> (version.h, version.cpp): the extra part of a
  version and its order, version numbers, comparison, access, increment and
  decrement, printing and the hash. A version is a list of numbers and an extra
  part; comparisons pad the shorter list of numbers with zeros.
\<close>

section \<open>Extra parts\<close>

text \<open>
  \<open>detail::Extra::Value\<close>: a variant of a string and a number. A variant compares
  its index first, so a string is smaller than a number.
\<close>

datatype extra_value = EStr string | ENum int

instantiation extra_value :: linorder
begin

fun less_extra_value :: "extra_value \<Rightarrow> extra_value \<Rightarrow> bool" where
  "less_extra_value (EStr s) (EStr t) \<longleftrightarrow> s < t"
| "less_extra_value (EStr s) (ENum n) \<longleftrightarrow> True"
| "less_extra_value (ENum m) (EStr t) \<longleftrightarrow> False"
| "less_extra_value (ENum m) (ENum n) \<longleftrightarrow> m < n"

definition less_eq_extra_value :: "extra_value \<Rightarrow> extra_value \<Rightarrow> bool" where
  "less_eq_extra_value x y \<longleftrightarrow> x < y \<or> x = y"

instance
proof
  fix x y z :: extra_value
  show "x < y \<longleftrightarrow> x \<le> y \<and> \<not> y \<le> x"
    by (cases x; cases y) (auto simp: less_eq_extra_value_def)
  show "x \<le> x"
    by (simp add: less_eq_extra_value_def)
  show "x \<le> z" if "x \<le> y" "y \<le> z"
    using that by (cases x; cases y; cases z) (auto simp: less_eq_extra_value_def)
  show "x = y" if "x \<le> y" "y \<le> x"
    using that by (cases x; cases y) (auto simp: less_eq_extra_value_def)
  show "x \<le> y \<or> y \<le> x"
    by (cases x; cases y) (auto simp: less_eq_extra_value_def)
qed

end

text \<open>\<open>detail::Extra\<close>: the list of its values.\<close>

datatype extra = Extra (extra_values: "extra_value list")

definition extra_empty :: "extra \<Rightarrow> bool" where
  "extra_empty e \<longleftrightarrow> extra_values e = []"

definition extra_push_back :: "extra \<Rightarrow> extra_value \<Rightarrow> extra" where
  "extra_push_back e v = Extra (extra_values e @ [v])"

definition extra_append :: "extra \<Rightarrow> extra \<Rightarrow> extra" where
  "extra_append e rhs = Extra (extra_values e @ extra_values rhs)"

text \<open>
  \<open>Extra::operator<\<close>: a version without extra part (a release) is greater than
  the same version with one, so the empty extra part is the greatest.
\<close>

definition extra_less :: "extra \<Rightarrow> extra \<Rightarrow> bool" where
  "extra_less l rhs =
     (if extra_values l = [] \<and> extra_values rhs = [] then False
      else if extra_values rhs = [] then True
      else if extra_values l = [] then False
      else extra_values l < extra_values rhs)"

instantiation extra :: linorder
begin

definition less_extra :: "extra \<Rightarrow> extra \<Rightarrow> bool" where
  "less_extra = extra_less"

definition less_eq_extra :: "extra \<Rightarrow> extra \<Rightarrow> bool" where
  "less_eq_extra x y \<longleftrightarrow> x < y \<or> x = y"

instance
proof
  fix x y z :: extra
  note defs = less_eq_extra_def less_extra_def extra_less_def
  show "x < y \<longleftrightarrow> x \<le> y \<and> \<not> y \<le> x"
    by (cases x; cases y) (auto simp: defs split: if_splits)
  show "x \<le> x"
    by (simp add: less_eq_extra_def)
  show "x \<le> z" if "x \<le> y" "y \<le> z"
    using that by (cases x; cases y; cases z) (auto simp: defs split: if_splits)
  show "x = y" if "x \<le> y" "y \<le> x"
    using that by (cases x; cases y) (auto simp: defs split: if_splits)
  show "x \<le> y \<or> y \<le> x"
    by (cases x; cases y) (auto simp: defs split: if_splits)
qed

end

text \<open>\<open>Extra::print\<close>: every value with a dot after it, less the last dot.\<close>

fun extra_value_print :: "extra_value \<Rightarrow> string" where
  "extra_value_print (EStr s) = s"
| "extra_value_print (ENum n) = to_string n"

definition extra_print :: "extra \<Rightarrow> string" where
  "extra_print e =
     (let s = concat (map (\<lambda>v. extra_value_print v @ ''.'') (extra_values e))
      in if s \<noteq> [] then take (length s - 1) s else s)"

lemma extra_print_join: "extra_print e = join ''.'' (map extra_value_print (extra_values e))"
  using take_concat_map_sep [of "''.''" "map extra_value_print (extra_values e)"]
  by (simp add: extra_print_def Let_def comp_def)

section \<open>Versions\<close>

record version =
  numbers :: "int list"
  vextra :: extra

definition mk_version :: "int list \<Rightarrow> version" where
  "mk_version ns = \<lparr>numbers = ns, vextra = Extra []\<rparr>"

text \<open>\<open>Version(const Version \&, const Extra \&)\<close>.\<close>

definition version_with_extra :: "version \<Rightarrow> extra \<Rightarrow> version" where
  "version_with_extra v e = v\<lparr>vextra := e\<rparr>"

lemma version_eqI: "numbers v = numbers w \<Longrightarrow> vextra v = vextra w \<Longrightarrow> v = (w :: version)"
  by simp

definition max_number :: int where
  "max_number = 999999999"

definition version_min :: version where
  "version_min = mk_version [0]"

definition version_max :: version where
  "version_max = mk_version [max_number + 1]"

definition default_level :: nat where
  "default_level = 3"

definition get_level :: "version \<Rightarrow> nat" where
  "get_level v = length (numbers v)"

text \<open>
  \<open>Version::getRealLevel\<close>: the loop runs over the numbers from the last one and
  lowers the level at each zero.
\<close>

fun real_level_loop :: "int list \<Rightarrow> nat \<Rightarrow> nat" where
  "real_level_loop [] l = l"
| "real_level_loop (n # ns) l = (if n \<noteq> 0 then l else real_level_loop ns (l - 1))"

definition get_real_level :: "version \<Rightarrow> nat" where
  "get_real_level v = real_level_loop (rev (numbers v)) (get_level v)"

text \<open>
  \<open>Version::get\<close>: zero past the last number; level 0 would read before the
  array.
\<close>

definition version_get :: "version \<Rightarrow> nat \<Rightarrow> int result" where
  "version_get v level =
     (if level > get_level v then Inr 0
      else if level = 0 then Inl Undefined
      else Inr (numbers v ! (level - 1)))"

definition get_major :: "version \<Rightarrow> int result" where
  "get_major v = version_get v 1"

definition get_minor :: "version \<Rightarrow> int result" where
  "get_minor v = version_get v 2"

definition get_patch :: "version \<Rightarrow> int result" where
  "get_patch v = version_get v 3"

definition get_tweak :: "version \<Rightarrow> int result" where
  "get_tweak v = version_get v 4"

definition has_extra :: "version \<Rightarrow> bool" where
  "has_extra v \<longleftrightarrow> \<not> extra_empty (vextra v)"

definition is_pre_release :: "version \<Rightarrow> bool" where
  "is_pre_release v = has_extra v"

definition is_release :: "version \<Rightarrow> bool" where
  "is_release v \<longleftrightarrow> \<not> is_pre_release v"

definition check_validity :: "version \<Rightarrow> unit result" where
  "check_validity v =
     (if list_ex (\<lambda>n. n < 0) (numbers v) then Inl (Runtime_error ''Version number cannot be less than 0'')
      else if list_all (\<lambda>n. n = 0) (numbers v) then Inl (Runtime_error ''Version number cannot be 0'')
      else Inr ())"

text \<open>\<open>std::vector::resize\<close>: cut off, or filled up with zeros.\<close>

definition resize_numbers :: "nat \<Rightarrow> int list \<Rightarrow> int list" where
  "resize_numbers n xs = take n xs @ replicate (n - length xs) 0"

definition set_first_version :: "version \<Rightarrow> version" where
  "set_first_version v =
     (let l = default_level;
          ns = (if length (numbers v) < l then resize_numbers l (numbers v) else numbers v)
      in if list_all (\<lambda>n. n = 0) ns then v\<lparr>numbers := ns[length ns - 1 := 1]\<rparr>
         else v\<lparr>numbers := ns\<rparr>)"

text \<open>
  \<open>Version::getMatchingLevel\<close> starts with \<open>SW_UNIMPLEMENTED\<close>, so the loop
  after it is never reached.
\<close>

definition get_matching_level :: "version \<Rightarrow> version \<Rightarrow> nat result" where
  "get_matching_level v w = Inl Unimplemented"

subsection \<open>Comparison\<close>

text \<open>
  \<open>Version::cmp\<close>: versions of different levels are padded to the longer one and
  compared again; the comparison itself is that of the tuples
  \<open>std::tie(numbers, extra)\<close>, lexicographic in the two components.
\<close>

definition version_cmp ::
  "version \<Rightarrow> version \<Rightarrow> (int list \<times> extra \<Rightarrow> int list \<times> extra \<Rightarrow> bool) \<Rightarrow> bool" where
  "version_cmp v1 v2 f =
     (if get_level v1 \<noteq> get_level v2 then
        let sz = max (length (numbers v1)) (length (numbers v2))
        in f (resize_numbers sz (numbers v1), vextra v1) (resize_numbers sz (numbers v2), vextra v2)
      else f (numbers v1, vextra v1) (numbers v2, vextra v2))"

definition version_lt :: "version \<Rightarrow> version \<Rightarrow> bool" where
  "version_lt v w = version_cmp v w (\<lambda>a b. a < b)"

definition version_gt :: "version \<Rightarrow> version \<Rightarrow> bool" where
  "version_gt v w = version_cmp v w (\<lambda>a b. b < a)"

definition version_le :: "version \<Rightarrow> version \<Rightarrow> bool" where
  "version_le v w = version_cmp v w (\<lambda>a b. a \<le> b)"

definition version_ge :: "version \<Rightarrow> version \<Rightarrow> bool" where
  "version_ge v w = version_cmp v w (\<lambda>a b. b \<le> a)"

definition version_eq :: "version \<Rightarrow> version \<Rightarrow> bool" where
  "version_eq v w = version_cmp v w (\<lambda>a b. a = b)"

text \<open>
  The comparison at any common length: \<open>version_key n v\<close> pads the numbers to
  \<open>n\<close>, and the length does not matter once it covers both versions.
\<close>

definition version_key :: "nat \<Rightarrow> version \<Rightarrow> int list \<times> extra" where
  "version_key n v = (resize_numbers n (numbers v), vextra v)"

lemma length_resize [simp]: "length (resize_numbers n xs) = n"
  by (simp add: resize_numbers_def)

lemma resize_same [simp]: "length xs = n \<Longrightarrow> resize_numbers n xs = xs"
  by (auto simp: resize_numbers_def)

lemma resize_extend:
  "length xs \<le> m \<Longrightarrow> m \<le> n \<Longrightarrow> resize_numbers n xs = resize_numbers m xs @ replicate (n - m) 0"
  by (simp add: resize_numbers_def replicate_add [symmetric])

lemma lex_append_same: "length xs = length ys \<Longrightarrow> xs @ zs < ys @ (zs :: int list) \<longleftrightarrow> xs < ys"
  by (induction xs ys rule: list_induct2) auto

lemma version_key_less_extend:
  assumes "get_level v \<le> m" "get_level w \<le> m" "m \<le> n"
  shows "version_key n v < version_key n w \<longleftrightarrow> version_key m v < version_key m w"
proof -
  have "resize_numbers n (numbers v) = resize_numbers m (numbers v) @ replicate (n - m) 0"
    "resize_numbers n (numbers w) = resize_numbers m (numbers w) @ replicate (n - m) 0"
    using assms by (auto simp: get_level_def intro: resize_extend)
  then show ?thesis
    by (auto simp: version_key_def less_prod_def lex_append_same order.order_iff_strict)
qed

lemma version_key_eq_extend:
  assumes "get_level v \<le> m" "get_level w \<le> m" "m \<le> n"
  shows "version_key n v = version_key n w \<longleftrightarrow> version_key m v = version_key m w"
proof -
  have "resize_numbers n (numbers v) = resize_numbers m (numbers v) @ replicate (n - m) 0"
    "resize_numbers n (numbers w) = resize_numbers m (numbers w) @ replicate (n - m) 0"
    using assms by (auto simp: get_level_def intro: resize_extend)
  then show ?thesis
    by (auto simp: version_key_def)
qed

lemma version_cmp_key:
  "version_cmp v w f =
     f (version_key (max (get_level v) (get_level w)) v) (version_key (max (get_level v) (get_level w)) w)"
proof (cases "get_level v = get_level w")
  case True
  then have "resize_numbers (get_level v) (numbers v) = numbers v"
    "resize_numbers (get_level v) (numbers w) = numbers w"
    by (simp_all add: get_level_def)
  with True show ?thesis
    by (simp add: version_cmp_def version_key_def)
next
  case False
  then show ?thesis
    by (simp add: version_cmp_def version_key_def Let_def get_level_def)
qed

lemma version_lt_key:
  assumes "get_level v \<le> n" "get_level w \<le> n"
  shows "version_lt v w \<longleftrightarrow> version_key n v < version_key n w"
  using assms version_key_less_extend [of v "max (get_level v) (get_level w)" w n]
  by (simp add: version_lt_def version_cmp_key)

lemma version_eq_key:
  assumes "get_level v \<le> n" "get_level w \<le> n"
  shows "version_eq v w \<longleftrightarrow> version_key n v = version_key n w"
  using assms version_key_eq_extend [of v "max (get_level v) (get_level w)" w n]
  by (simp add: version_eq_def version_cmp_key)

lemma version_le_not_lt: "version_le v w \<longleftrightarrow> \<not> version_lt w v"
  by (simp add: version_le_def version_lt_def version_cmp_key max.commute not_less)

lemma version_ge_not_lt: "version_ge v w \<longleftrightarrow> \<not> version_lt v w"
  by (simp add: version_ge_def version_lt_def version_cmp_key not_less)

lemma version_gt_lt: "version_gt v w \<longleftrightarrow> version_lt w v"
  by (simp add: version_gt_def version_lt_def version_cmp_key max.commute)

lemmas version_order_simps = version_le_not_lt version_ge_not_lt version_gt_lt

text \<open>The versions provide the order interface the range component uses.\<close>

interpretation vo: weak_order version_lt version_eq
proof
  fix x y z :: version
  define n where "n = max (get_level x) (max (get_level y) (get_level z))"
  have n: "get_level x \<le> n" "get_level y \<le> n" "get_level z \<le> n"
    by (simp_all add: n_def)
  note keys = version_lt_key [where n = n] version_eq_key [where n = n] n
  show "version_eq x x" by (simp add: keys)
  show "version_eq x y \<Longrightarrow> version_eq y x" by (simp add: keys)
  show "version_eq x y \<Longrightarrow> version_eq y z \<Longrightarrow> version_eq x z" by (simp add: keys)
  show "version_lt x y \<Longrightarrow> \<not> version_eq x y" by (auto simp: keys)
  show "version_lt x y \<Longrightarrow> \<not> version_lt y x" by (auto simp: keys)
  show "version_lt x y \<Longrightarrow> version_lt y z \<Longrightarrow> version_lt x z"
    unfolding keys(1) [OF n(1) n(2)] keys(1) [OF n(2) n(3)] keys(1) [OF n(1) n(3)] by (rule less_trans)
  show "version_lt x y \<Longrightarrow> version_eq y z \<Longrightarrow> version_lt x z" by (simp add: keys)
  show "version_eq x y \<Longrightarrow> version_lt y z \<Longrightarrow> version_lt x z" by (simp add: keys)
  show "version_lt x y \<or> version_eq x y \<or> version_lt y x" by (auto simp: keys)
qed

section \<open>What the order means\<close>

text \<open>
  C15: The five comparison operators agree with one order: \<open>version_lt\<close> is
  irreflexive and transitive, exactly one of less, equal and greater holds for any two
  versions, and the other operators are the usual combinations of these.
\<close>

theorem version_order_laws:
  "\<not> version_lt v v
   \<and> (version_lt u v \<and> version_lt v w \<longrightarrow> version_lt u w)
   \<and> (version_lt v w \<or> version_eq v w \<or> version_lt w v)
   \<and> \<not> (version_lt v w \<and> version_eq v w) \<and> \<not> (version_lt v w \<and> version_lt w v)
   \<and> (version_gt v w \<longleftrightarrow> version_lt w v)
   \<and> (version_le v w \<longleftrightarrow> version_lt v w \<or> version_eq v w)
   \<and> (version_ge v w \<longleftrightarrow> version_lt w v \<or> version_eq w v)"
  using vo.lt_irrefl [of v] vo.lt_trans [of u v w] vo.trichotomy [of v w] vo.lt_not_eq [of v w]
    vo.lt_asym [of v w] vo.not_lt_iff [of w v] vo.not_lt_iff [of v w] vo.eq_sym [of v w] vo.eq_sym [of w v]
  by (auto simp: version_order_simps)

lemma version_order_laws_witness:
  "version_lt (mk_version [1]) (mk_version [1, 2]) \<and> version_lt (mk_version [1, 2]) (mk_version [2])
   \<and> version_lt (mk_version [1]) (mk_version [2])"
proof -
  have "version_lt (mk_version [1]) (mk_version [1, 2])" "version_lt (mk_version [1, 2]) (mk_version [2])"
    by code_simp+
  then show ?thesis
    using version_order_laws [of "mk_version [1, 2]" "mk_version [1]" "mk_version [2]"] by simp
qed

text \<open>
  C1: The order is that of the numbers, missing numbers counting as zero; between
  versions with the same numbers a pre-release is below the release, and two
  pre-releases compare by their extra parts, a string before a number.
\<close>

theorem version_lt_meaning:
  assumes "get_level v \<le> n" "get_level w \<le> n"
  shows "version_lt v w \<longleftrightarrow>
    resize_numbers n (numbers v) < resize_numbers n (numbers w)
    \<or> resize_numbers n (numbers v) = resize_numbers n (numbers w)
      \<and> is_pre_release v
      \<and> (is_release w \<or> extra_values (vextra v) < extra_values (vextra w))"
proof -
  have "vextra v < vextra w \<longleftrightarrow> is_pre_release v
      \<and> (is_release w \<or> extra_values (vextra v) < extra_values (vextra w))"
    by (auto simp: less_extra_def extra_less_def is_pre_release_def is_release_def has_extra_def
        extra_empty_def)
  then show ?thesis
    using version_lt_key [OF assms] by (auto simp: version_key_def less_prod_def order.order_iff_strict)
qed

lemma version_lt_meaning_witness:
  "version_lt \<lparr>numbers = [1, 0], vextra = Extra [EStr ''rc'']\<rparr> (mk_version [1])"
  using version_lt_meaning [of "\<lparr>numbers = [1, 0], vextra = Extra [EStr ''rc'']\<rparr>" 2 "mk_version [1]"]
  by (simp add: get_level_def mk_version_def resize_numbers_def is_pre_release_def is_release_def
      has_extra_def extra_empty_def numeral_2_eq_2)

end
