(* ===== verification/VersionOps.thy ===== *)
theory VersionOps
  imports Version
begin

text \<open>
  The operations of \<open>Version\<close> that change or print it: increment and decrement
  (version.cpp, \<open>incrementVersion\<close>, \<open>decrementVersion\<close>), \<open>printVersion\<close> and the
  \<open>toString\<close> family, and \<open>getHash\<close>. Increment and decrement are read as
  counting in base \<open>max_number + 1\<close>.
\<close>

section \<open>Increment and decrement\<close>

text \<open>
  The loops walk from the last number towards the first one, so they are
  recursions on the reversed list. Leaving the array at its front, and an
  overflow of the 64-bit number, are undefined behaviour.
\<close>

fun inc_loop :: "int list \<Rightarrow> int list result" where
  "inc_loop [] = Inl Undefined"
| "inc_loop (n # ns) =
     (if n = max_number then bind_result (inc_loop ns) (\<lambda>r. Inr (0 # r))
      else if n = int64_max then Inl Undefined
      else Inr ((n + 1) # ns))"

fun dec_loop :: "int list \<Rightarrow> int list result" where
  "dec_loop [] = Inl Undefined"
| "dec_loop (n # ns) =
     (if n = 0 then bind_result (dec_loop ns) (\<lambda>r. Inr (max_number # r))
      else if n = int64_min then Inl Undefined
      else Inr ((n - 1) # ns))"

definition increment_version :: "version \<Rightarrow> version result" where
  "increment_version v =
     (if version_eq v version_max then Inr v
      else bind_result (inc_loop (rev (numbers v))) (\<lambda>ns. Inr (v\<lparr>numbers := rev ns\<rparr>)))"

definition decrement_version :: "version \<Rightarrow> version result" where
  "decrement_version v =
     (if version_eq v version_min then Inr v
      else bind_result (dec_loop (rev (numbers v))) (\<lambda>ns. Inr (v\<lparr>numbers := rev ns\<rparr>)))"

text \<open>The operators: the prefix ones return the new version, the postfix ones the old.\<close>

definition pre_inc :: "version \<Rightarrow> (version \<times> version) result" where
  "pre_inc v = bind_result (increment_version v) (\<lambda>w. Inr (w, w))"

definition post_inc :: "version \<Rightarrow> (version \<times> version) result" where
  "post_inc v = bind_result (increment_version v) (\<lambda>w. Inr (v, w))"

definition pre_dec :: "version \<Rightarrow> (version \<times> version) result" where
  "pre_dec v = bind_result (decrement_version v) (\<lambda>w. Inr (w, w))"

definition post_dec :: "version \<Rightarrow> (version \<times> version) result" where
  "post_dec v = bind_result (decrement_version v) (\<lambda>w. Inr (v, w))"

subsection \<open>Numbers as a counter in base \<open>max_number + 1\<close>\<close>

definition number_ok :: "int \<Rightarrow> bool" where
  "number_ok n \<longleftrightarrow> 0 \<le> n \<and> n \<le> max_number"

fun rev_value :: "int list \<Rightarrow> int" where
  "rev_value [] = 0"
| "rev_value (n # ns) = n + (max_number + 1) * rev_value ns"

definition numbers_value :: "int list \<Rightarrow> int" where
  "numbers_value ns = rev_value (rev ns)"

lemma rev_value_nonneg: "list_all number_ok ns \<Longrightarrow> 0 \<le> rev_value ns"
  by (induction ns) (auto simp: number_ok_def max_number_def)

lemma rev_value_append:
  "rev_value (xs @ ys) = rev_value xs + (max_number + 1) ^ length xs * rev_value ys"
  by (induction xs) (auto simp: algebra_simps)

lemma numbers_value_Cons:
  "numbers_value (n # ns) = n * (max_number + 1) ^ length ns + numbers_value ns"
  by (simp add: numbers_value_def rev_value_append)

lemma numbers_value_replicate_0: "numbers_value (replicate n 0) = 0"
proof -
  have "rev_value (replicate n 0) = 0" by (induction n) auto
  then show ?thesis by (simp add: numbers_value_def)
qed

lemma numbers_value_bound:
  "list_all number_ok ns \<Longrightarrow> 0 \<le> numbers_value ns \<and> numbers_value ns < (max_number + 1) ^ length ns"
proof (induction ns)
  case Nil
  then show ?case by (simp add: numbers_value_def)
next
  case (Cons n ns)
  then have IH: "0 \<le> numbers_value ns" "numbers_value ns < (max_number + 1) ^ length ns"
    and n: "0 \<le> n" "n \<le> max_number"
    by (auto simp: number_ok_def)
  define B where "B = (max_number + 1) ^ length ns"
  have B: "0 \<le> B"
    by (simp add: B_def max_number_def)
  have "n * B \<le> max_number * B" "0 \<le> n * B"
    using n B by (auto intro: mult_right_mono)
  moreover have "numbers_value (n # ns) = n * B + numbers_value ns"
    "(max_number + 1) ^ length (n # ns) = max_number * B + B"
    by (simp_all add: numbers_value_Cons B_def algebra_simps)
  ultimately show ?case
    using IH unfolding B_def [symmetric] by linarith
qed

lemma numbers_less_iff_value:
  "length xs = length ys \<Longrightarrow> list_all number_ok xs \<Longrightarrow> list_all number_ok ys \<Longrightarrow>
     xs < ys \<longleftrightarrow> numbers_value xs < numbers_value ys"
proof (induction xs ys rule: list_induct2)
  case Nil
  then show ?case by simp
next
  case (Cons x xs y ys)
  let ?B = "(max_number + 1) ^ length ys"
  have bx: "0 \<le> numbers_value xs" "numbers_value xs < ?B"
    and by': "0 \<le> numbers_value ys" "numbers_value ys < ?B"
    using Cons.prems numbers_value_bound [of xs] numbers_value_bound [of ys] Cons.hyps by auto
  have lt: "a * ?B + p < b * ?B + q" if "a < b" "p < ?B" "0 \<le> q" for a b p q :: int
  proof -
    have "(a + 1) * ?B \<le> b * ?B"
      using that(1) by (intro mult_right_mono) (auto simp: max_number_def)
    then show ?thesis using that(2,3) by (simp add: distrib_right)
  qed
  have val: "numbers_value (x # xs) = x * ?B + numbers_value xs"
    "numbers_value (y # ys) = y * ?B + numbers_value ys"
    by (simp_all add: numbers_value_Cons Cons.hyps)
  show ?case
  proof (cases x y rule: linorder_cases)
    case less
    then show ?thesis
      using lt [of x y "numbers_value xs" "numbers_value ys"] bx by' by (simp add: val)
  next
    case equal
    then show ?thesis using Cons by (simp add: numbers_value_Cons)
  next
    case greater
    then show ?thesis
      using lt [of y x "numbers_value ys" "numbers_value xs"] bx by' by (simp add: val)
  qed
qed

lemma inc_loop_value:
  "list_all number_ok ns \<Longrightarrow> \<not> list_all (\<lambda>n. n = max_number) ns \<Longrightarrow>
     \<exists>r. inc_loop ns = Inr r \<and> rev_value r = rev_value ns + 1 \<and> length r = length ns \<and> list_all number_ok r"
  by (induction ns) (auto simp: number_ok_def max_number_def int64_max_def)

lemma dec_loop_value:
  "list_all number_ok ns \<Longrightarrow> \<not> list_all (\<lambda>n. n = 0) ns \<Longrightarrow>
     \<exists>r. dec_loop ns = Inr r \<and> rev_value r = rev_value ns - 1 \<and> length r = length ns \<and> list_all number_ok r"
  by (induction ns) (auto simp: number_ok_def max_number_def int64_min_def)

lemma dec_inc_loop:
  "list_all number_ok ns \<Longrightarrow> inc_loop ns = Inr r \<Longrightarrow> dec_loop r = Inr ns"
  by (induction ns arbitrary: r)
    (auto simp: number_ok_def max_number_def int64_max_def int64_min_def bind_result_Inr_iff split: if_splits)

lemma inc_dec_loop:
  "list_all number_ok ns \<Longrightarrow> dec_loop ns = Inr r \<Longrightarrow> inc_loop r = Inr ns"
  by (induction ns arbitrary: r)
    (auto simp: number_ok_def max_number_def int64_max_def int64_min_def bind_result_Inr_iff split: if_splits)

text \<open>A version whose numbers are within the limits the code sets.\<close>

definition version_ok :: "version \<Rightarrow> bool" where
  "version_ok v \<longleftrightarrow> numbers v \<noteq> [] \<and> list_all number_ok (numbers v)"

lemma version_okD: "version_ok v \<Longrightarrow> list_all number_ok (rev (numbers v)) \<and> numbers v \<noteq> []"
  by (simp add: version_ok_def)

lemma eq_replicate_iff: "xs = replicate (length xs) a \<longleftrightarrow> list_all (\<lambda>m. m = a) xs"
  by (induction xs) auto

lemma version_eq_singleton:
  assumes "numbers v \<noteq> []"
  shows "version_eq v (mk_version [n]) \<longleftrightarrow>
    hd (numbers v) = n \<and> list_all (\<lambda>m. m = 0) (tl (numbers v)) \<and> vextra v = Extra []"
proof -
  obtain x xs where v: "numbers v = x # xs"
    using assms by (cases "numbers v") auto
  have "resize_numbers (Suc (length xs)) [n] = n # replicate (length xs) 0"
    by (simp add: resize_numbers_def)
  moreover have "resize_numbers (Suc (length xs)) (x # xs) = x # xs"
    by simp
  ultimately show ?thesis
    using version_eq_key [of v "Suc (length xs)" "mk_version [n]"] v
    by (simp add: get_level_def mk_version_def version_key_def eq_replicate_iff)
qed

lemma version_ok_not_max: "version_ok v \<Longrightarrow> \<not> version_eq v version_max"
  by (auto simp: version_max_def version_eq_singleton version_ok_def number_ok_def
    neq_Nil_conv max_number_def)

lemma increment_version_ok:
  assumes "version_ok v" "numbers v \<noteq> replicate (get_level v) max_number"
  shows "\<exists>w. increment_version v = Inr w \<and> version_ok w \<and> get_level w = get_level v
    \<and> vextra w = vextra v \<and> numbers_value (numbers w) = numbers_value (numbers v) + 1"
proof -
  have "\<not> list_all (\<lambda>n. n = max_number) (rev (numbers v))"
    using assms(2) by (auto simp: list_all_iff get_level_def intro: replicate_eqI)
  then obtain r where r: "inc_loop (rev (numbers v)) = Inr r" "rev_value r = rev_value (rev (numbers v)) + 1"
    "length r = length (rev (numbers v))" "list_all number_ok r"
    using inc_loop_value version_okD [OF assms(1)] by blast
  then have "r \<noteq> []" using assms(1) by (auto simp: version_ok_def)
  with r show ?thesis
    using version_ok_not_max [OF assms(1)]
    by (simp add: increment_version_def version_ok_def get_level_def numbers_value_def)
qed

lemma decrement_version_ok:
  assumes "version_ok v" "numbers v \<noteq> replicate (get_level v) 0"
  shows "\<exists>w. decrement_version v = Inr w \<and> version_ok w \<and> get_level w = get_level v
    \<and> vextra w = vextra v \<and> numbers_value (numbers w) = numbers_value (numbers v) - 1"
proof -
  have nz: "\<not> list_all (\<lambda>n. n = 0) (rev (numbers v))"
    using assms(2) by (auto simp: list_all_iff get_level_def intro: replicate_eqI)
  then obtain r where r: "dec_loop (rev (numbers v)) = Inr r" "rev_value r = rev_value (rev (numbers v)) - 1"
    "length r = length (rev (numbers v))" "list_all number_ok r"
    using dec_loop_value version_okD [OF assms(1)] by blast
  then have "r \<noteq> []" using assms(1) by (auto simp: version_ok_def)
  moreover have "\<not> version_eq v version_min"
    using nz assms(1) by (cases "numbers v") (auto simp: version_min_def version_eq_singleton version_ok_def)
  ultimately show ?thesis
    using r by (simp add: decrement_version_def version_ok_def get_level_def numbers_value_def)
qed

text \<open>Comparison of releases of one level is comparison of their values.\<close>

lemma version_lt_value:
  assumes "version_ok v" "version_ok w" "get_level v = get_level w" "vextra v = vextra w"
  shows "version_lt v w \<longleftrightarrow> numbers_value (numbers v) < numbers_value (numbers w)"
proof -
  have "version_lt v w \<longleftrightarrow> numbers v < numbers w"
    using assms(3,4) version_lt_key [of v "get_level v" w]
    by (simp add: version_key_def get_level_def less_prod_def order.order_iff_strict)
  then show ?thesis
    using assms numbers_less_iff_value [of "numbers v" "numbers w"] by (simp add: version_ok_def get_level_def)
qed

text \<open>
  C14: Incrementing a version with numbers in range gives its immediate successor:
  the result has the same level and extra part, is greater, and every version of that
  level and extra part that is greater than the old one is not below the new one.
\<close>

theorem increment_successor:
  assumes "version_ok v" "numbers v \<noteq> replicate (get_level v) max_number"
  shows "\<exists>w. increment_version v = Inr w \<and> version_ok w \<and> get_level w = get_level v
    \<and> vextra w = vextra v \<and> version_lt v w
    \<and> (\<forall>u. version_ok u \<and> get_level u = get_level v \<and> vextra u = vextra v \<and> version_lt v u
          \<longrightarrow> version_le w u)"
proof -
  obtain w where w: "increment_version v = Inr w" "version_ok w" "get_level w = get_level v"
    "vextra w = vextra v" "numbers_value (numbers w) = numbers_value (numbers v) + 1"
    using increment_version_ok [OF assms] by blast
  have "version_le w u"
    if "version_ok u" "get_level u = get_level v" "vextra u = vextra v" "version_lt v u" for u
    using that w assms(1) by (simp add: version_le_not_lt version_lt_value)
  moreover have "version_lt v w"
    using w assms(1) by (simp add: version_lt_value)
  ultimately show ?thesis using w by blast
qed

lemma increment_successor_witness:
  "\<exists>w. increment_version (mk_version [1, max_number]) = Inr w \<and> version_lt (mk_version [1, max_number]) w"
  using increment_successor [of "mk_version [1, max_number]"]
  by (auto simp: version_ok_def number_ok_def mk_version_def get_level_def max_number_def numeral_2_eq_2)

lemma not_eq_min:
  "version_ok v \<Longrightarrow> numbers v \<noteq> replicate (get_level v) 0 \<Longrightarrow> \<not> version_eq v version_min"
  by (auto simp: version_min_def version_eq_singleton version_ok_def get_level_def
      eq_replicate_iff neq_Nil_conv)

lemma decrement_after_increment:
  assumes "version_ok v" "numbers v \<noteq> replicate (get_level v) max_number"
  shows "bind_result (increment_version v) decrement_version = Inr v"
proof -
  obtain w where w: "increment_version v = Inr w" "version_ok w" "get_level w = get_level v"
    "numbers_value (numbers w) = numbers_value (numbers v) + 1"
    using increment_version_ok [OF assms] by blast
  have "0 \<le> numbers_value (numbers v)"
    using numbers_value_bound assms by (simp add: version_ok_def)
  then have "numbers w \<noteq> replicate (get_level w) 0"
    using w(4) by (auto simp: numbers_value_replicate_0)
  then have nmin: "\<not> version_eq w version_min"
    using w(2) by (rule not_eq_min [rotated])
  obtain r where r: "inc_loop (rev (numbers v)) = Inr r" "w = v\<lparr>numbers := rev r\<rparr>"
    using w(1) version_ok_not_max [OF assms(1)]
    by (auto simp: increment_version_def bind_result_Inr_iff)
  then have "dec_loop r = Inr (rev (numbers v))"
    using version_okD [OF assms(1)] dec_inc_loop by blast
  with w(1) r(2) nmin show ?thesis
    by (simp add: decrement_version_def)
qed

lemma increment_after_decrement:
  assumes "version_ok v" "numbers v \<noteq> replicate (get_level v) 0"
  shows "bind_result (decrement_version v) increment_version = Inr v"
proof -
  obtain w where w: "decrement_version v = Inr w" "version_ok w"
    using decrement_version_ok [OF assms] by blast
  obtain r where r: "dec_loop (rev (numbers v)) = Inr r" "w = v\<lparr>numbers := rev r\<rparr>"
    using w(1) not_eq_min [OF assms]
    by (auto simp: decrement_version_def bind_result_Inr_iff)
  then have "inc_loop r = Inr (rev (numbers v))"
    using version_okD [OF assms(1)] inc_dec_loop by blast
  with w r(2) version_ok_not_max [OF w(2)] show ?thesis
    by (simp add: increment_version_def)
qed

text \<open>
  Decrement undoes increment, and increment undoes decrement, on the versions
  where the operation is not at the end of its range.
\<close>

theorem decrement_increment_inverse:
  assumes "version_ok v"
  shows "(numbers v \<noteq> replicate (get_level v) max_number \<longrightarrow>
      bind_result (increment_version v) decrement_version = Inr v)
    \<and> (numbers v \<noteq> replicate (get_level v) 0 \<longrightarrow>
      bind_result (decrement_version v) increment_version = Inr v)"
  using assms decrement_after_increment increment_after_decrement by blast

lemma decrement_increment_inverse_witness:
  "bind_result (increment_version (mk_version [1, max_number])) decrement_version
     = Inr (mk_version [1, max_number])
   \<and> bind_result (decrement_version (mk_version [1, 0])) increment_version = Inr (mk_version [1, 0])"
  using decrement_increment_inverse [of "mk_version [1, max_number]"]
    decrement_increment_inverse [of "mk_version [1, 0]"]
  by (simp add: version_ok_def number_ok_def mk_version_def get_level_def max_number_def numeral_2_eq_2)

text \<open>
  Where the increment is undefined behaviour: on a version other than
  \<open>Version::max()\<close>, exactly when every number is the greatest one (the loop then
  walks off the front of the array; this includes the version with no numbers) or the
  last number that is not the greatest one is the greatest 64-bit integer.
\<close>

theorem increment_undefined_iff:
  "increment_version v = Inl Undefined \<longleftrightarrow>
     \<not> version_eq v version_max
     \<and> (list_all (\<lambda>n. n = max_number) (numbers v)
        \<or> hd (dropWhile (\<lambda>n. n = max_number) (rev (numbers v))) = int64_max)"
proof -
  have "inc_loop ns = Inl Undefined \<longleftrightarrow>
      list_all (\<lambda>n. n = max_number) ns \<or> hd (dropWhile (\<lambda>n. n = max_number) ns) = int64_max" for ns
    by (induction ns) (auto simp: bind_result_Inl_iff)
  then show ?thesis
    by (auto simp: increment_version_def bind_result_Inl_iff)
qed

end
