(* ===== verification/VersionParse.thy ===== *)
theory VersionParse
  imports VersionOps
begin

text \<open>
  Printing a version (\<open>printVersion\<close>, the \<open>toString\<close> family) and reading one back: the
  two Ragel machines of version.rl, as the automata Ragel generates from them, and the
  constructors \<open>Version(const std::string \&)\<close> and \<open>Extra(const std::string \&)\<close> that
  call them. \<open>pystring::strip\<close> belongs to a library outside the repository; it is the
  parameter \<open>strip\<close> of the constructors, and \<open>strip_law\<close> states what its
  documentation promises.
\<close>

section \<open>Printing\<close>

text \<open>
  \<open>Version::printVersion\<close>: the numbers up to the real level, then zeros up to the
  requested level, each followed by the delimiter, less the last delimiter.
\<close>

definition print_version :: "string \<Rightarrow> nat \<Rightarrow> version \<Rightarrow> string" where
  "print_version delim level v =
     (let until = get_real_level v;
          s = concat (map (\<lambda>n. to_string n @ delim) (take until (numbers v)))
              @ concat (map (\<lambda>n. to_string 0 @ delim) [until..<level])
      in if s \<noteq> [] then take (length s - length delim) s else s)"

definition to_string_delim_level :: "string \<Rightarrow> nat \<Rightarrow> version \<Rightarrow> string" where
  "to_string_delim_level delim level v =
     (let s = print_version delim level v
      in if \<not> extra_empty (vextra v) then s @ ''-'' @ extra_print (vextra v) else s)"

definition to_string_delim :: "string \<Rightarrow> version \<Rightarrow> string" where
  "to_string_delim delim v = to_string_delim_level delim (get_level v) v"

definition to_string_level :: "nat \<Rightarrow> version \<Rightarrow> string" where
  "to_string_level level v = to_string_delim_level ''.'' level v"

definition version_to_string :: "version \<Rightarrow> string" where
  "version_to_string v = to_string_delim ''.'' v"

text \<open>\<open>toString(delimeter, v)\<close>: as many numbers as another version has.\<close>

definition to_string_like :: "string \<Rightarrow> version \<Rightarrow> version \<Rightarrow> string" where
  "to_string_like delim w v = to_string_delim_level delim (get_level w) v"

lemma real_level_loop_eq:
  "real_level_loop ns (length ns) = length (dropWhile (\<lambda>n. n = 0) ns)"
  by (induction ns) auto

lemma get_real_level_eq:
  "get_real_level v = length (dropWhile (\<lambda>n. n = 0) (rev (numbers v)))"
  using real_level_loop_eq [of "rev (numbers v)"] by (simp add: get_real_level_def get_level_def)

lemma real_level_le [simp]: "get_real_level v \<le> length (numbers v)"
  by (metis get_real_level_eq length_dropWhile_le length_rev)

lemma take_real_level_zeros:
  "take (get_real_level v) (numbers v) @ replicate (length (numbers v) - get_real_level v) 0 = numbers v"
proof -
  let ?r = "rev (numbers v)"
  have "?r = takeWhile (\<lambda>n. n = 0) ?r @ dropWhile (\<lambda>n. n = 0) ?r"
    by simp
  then have "numbers v = rev (dropWhile (\<lambda>n. n = 0) ?r) @ rev (takeWhile (\<lambda>n. n = 0) ?r)"
    by (metis rev_append rev_rev_ident)
  moreover have "rev (takeWhile (\<lambda>n. n = 0) ?r) = replicate (length (takeWhile (\<lambda>n. n = 0) ?r)) 0"
    by (metis (full_types) length_rev replicate_eqI set_rev set_takeWhileD)
  moreover have "length (takeWhile (\<lambda>n. n = 0) ?r) = length (numbers v) - get_real_level v"
    by (metis add_diff_cancel_right' get_real_level_eq length_append length_rev takeWhile_dropWhile_id)
  ultimately show ?thesis
    by (metis append_eq_conv_conj get_real_level_eq length_rev)
qed

text \<open>What \<open>printVersion\<close> prints, for any level.\<close>

lemma print_version_join:
  "print_version delim level v =
     join delim (map to_string (take (get_real_level v) (numbers v) @ replicate (level - get_real_level v) 0))"
proof -
  have "map (\<lambda>n. to_string 0 @ delim) [m..<l] = map (\<lambda>x. x @ delim) (map to_string (replicate (l - m) 0))" for m l
    by (simp add: list_eq_iff_nth_eq)
  then show ?thesis
    using take_concat_map_sep [of delim
        "map to_string (take (get_real_level v) (numbers v) @ replicate (level - get_real_level v) 0)"]
    by (auto simp: print_version_def Let_def comp_def)
qed

lemma print_version_own_level:
  "print_version delim (get_level v) v = join delim (map to_string (numbers v))"
  by (simp only: print_version_join get_level_def take_real_level_zeros)

section \<open>Parsing\<close>

text \<open>
  The machine \<open>Version\<close>: a number, then any number of a dot and a number. The start
  state expects a digit, the other state is inside a number and keeps what it has read of
  it; leaving a number (at a dot or at the end of the input) converts it with
  \<open>std::stoll\<close> and appends it. The result is the flag \<open>ok\<close> and the numbers.
\<close>

fun number_start :: "string \<Rightarrow> int list \<Rightarrow> (bool \<times> int list) result"
  and number_rest :: "string \<Rightarrow> string \<Rightarrow> int list \<Rightarrow> (bool \<times> int list) result" where
  "number_start [] ns = Inr (False, ns)"
| "number_start (c # s) ns = (if is_digit c then number_rest s [c] ns else Inr (False, ns))"
| "number_rest [] buf ns = bind_result (stoll buf) (\<lambda>n. Inr (True, ns @ [n]))"
| "number_rest (c # s) buf ns =
     (if is_digit c then number_rest s (buf @ [c]) ns
      else if c = CHR ''.'' then bind_result (stoll buf) (\<lambda>n. number_start s (ns @ [n]))
      else Inr (False, ns))"

definition version_parse :: "version \<Rightarrow> string \<Rightarrow> (bool \<times> version) result" where
  "version_parse v s =
     (if length s > 8192 then Inr (False, v)
      else bind_result (number_start s (numbers v)) (\<lambda>(ok, ns). Inr (ok, v\<lparr>numbers := ns\<rparr>)))"

text \<open>
  The machine \<open>VersionExtra\<close>: parts of letters, digits and underscores, separated by
  dots. A part that \<open>std::from_chars\<close> reads completely as a 64-bit number is a number,
  every other part a string.
\<close>

definition extra_char :: "char \<Rightarrow> bool" where
  "extra_char c \<longleftrightarrow> is_alnum c \<or> c = CHR ''_''"

definition add_extra :: "string \<Rightarrow> extra_value" where
  "add_extra s =
     (if list_all is_digit s \<and> int (digits_value s) \<le> int64_max then ENum (int (digits_value s))
      else EStr s)"

fun extra_start :: "string \<Rightarrow> extra_value list \<Rightarrow> bool \<times> extra_value list"
  and extra_rest :: "string \<Rightarrow> string \<Rightarrow> extra_value list \<Rightarrow> bool \<times> extra_value list" where
  "extra_start [] vs = (False, vs)"
| "extra_start (c # s) vs = (if extra_char c then extra_rest s [c] vs else (False, vs))"
| "extra_rest [] buf vs = (True, vs @ [add_extra buf])"
| "extra_rest (c # s) buf vs =
     (if extra_char c then extra_rest s (buf @ [c]) vs
      else if c = CHR ''.'' then extra_start s (vs @ [add_extra buf])
      else (False, vs))"

definition extra_parse :: "string \<Rightarrow> bool \<times> extra" where
  "extra_parse s =
     (if length s > 8192 then (False, Extra [])
      else (case extra_start s [] of (ok, vs) \<Rightarrow> (ok, Extra vs)))"

text \<open>\<open>Extra(const std::string \&)\<close>.\<close>

definition extra_of_string :: "(string \<Rightarrow> string) \<Rightarrow> string \<Rightarrow> extra result" where
  "extra_of_string strip s =
     (if s = [] then Inl (Runtime_error ''Empty extra'')
      else (case extra_parse (strip s) of
              (True, e) \<Rightarrow> Inr e
            | (False, _) \<Rightarrow> Inl (Runtime_error (''Invalid version extra: '' @ s))))"

text \<open>
  \<open>Version(const std::string \&)\<close>: everything after the first hyphen is the extra part.
\<close>

definition version_of_string :: "(string \<Rightarrow> string) \<Rightarrow> string \<Rightarrow> version result" where
  "version_of_string strip s =
     (let ps = strip s
      in bind_result
           (case str_find ''-'' ps of
              Some p \<Rightarrow> bind_result (extra_of_string strip (drop (p + 1) ps)) (\<lambda>e. Inr (e, take p ps))
            | None \<Rightarrow> Inr (Extra [], ps))
           (\<lambda>(e, ps). bind_result (version_parse \<lparr>numbers = [], vextra = e\<rparr> ps)
             (\<lambda>(ok, v). if ok then Inr v else Inl (Runtime_error (''Invalid version: '' @ s)))))"

text \<open>\<open>Version(const char *)\<close> and \<open>Extra(const char *)\<close>, with \<open>None\<close> for a null pointer.\<close>

definition version_of_c_string :: "(string \<Rightarrow> string) \<Rightarrow> string option \<Rightarrow> version result" where
  "version_of_c_string strip p =
     (case p of None \<Rightarrow> Inl (Runtime_error ''Empty string'') | Some s \<Rightarrow> version_of_string strip s)"

definition extra_of_c_string :: "(string \<Rightarrow> string) \<Rightarrow> string option \<Rightarrow> extra result" where
  "extra_of_c_string strip p =
     (case p of None \<Rightarrow> Inl (Runtime_error ''Empty extra'') | Some s \<Rightarrow> extra_of_string strip s)"

text \<open>What \<open>pystring::strip\<close> promises: it removes white space at both ends only.\<close>

definition strip_law :: "(string \<Rightarrow> string) \<Rightarrow> bool" where
  "strip_law strip \<longleftrightarrow>
     (\<forall>s. s = [] \<or> (\<not> is_space (hd s) \<and> \<not> is_space (last s)) \<longrightarrow> strip s = s)
     \<and> (\<forall>s. length (strip s) \<le> length s)"

definition strip_ws :: "string \<Rightarrow> string" where
  "strip_ws s = rev (dropWhile is_space (rev (dropWhile is_space s)))"

lemma strip_law_strip_ws: "strip_law strip_ws"
proof -
  have "strip_ws s = s" if "s = [] \<or> (\<not> is_space (hd s) \<and> \<not> is_space (last s))" for s
  proof (cases "s = []")
    case False
    then have "dropWhile is_space s = s" "dropWhile is_space (rev s) = rev s"
      using that by (auto simp: dropWhile_eq_self_iff hd_rev)
    then show ?thesis by (simp add: strip_ws_def)
  qed (simp add: strip_ws_def)
  moreover have "length (strip_ws s) \<le> length s" for s
    by (metis length_dropWhile_le length_rev order_trans strip_ws_def)
  ultimately show ?thesis by (auto simp: strip_law_def)
qed

section \<open>Numbers: the parser undoes the printer\<close>

definition int64_nonneg :: "int \<Rightarrow> bool" where
  "int64_nonneg n \<longleftrightarrow> 0 \<le> n \<and> n \<le> int64_max"

lemma stoll_int64: "stoll s = Inr n \<Longrightarrow> int64_nonneg n"
  using stoll_nonneg by (simp add: int64_nonneg_def)

lemma number_rest_digits:
  "list_all is_digit ds \<Longrightarrow> number_rest (ds @ s) buf ns = number_rest s (buf @ ds) ns"
  by (induction ds arbitrary: buf) auto

lemma number_start_digits:
  assumes "list_all is_digit ds" "ds \<noteq> []"
  shows "number_start (ds @ s) ns = number_rest s ds ns"
  using assms by (cases ds) (auto simp: number_rest_digits)

lemma number_start_join:
  "ns \<noteq> [] \<Longrightarrow> list_all int64_nonneg ns \<Longrightarrow>
     number_start (join ''.'' (map to_string ns)) acc = Inr (True, acc @ ns)"
proof (induction ns arbitrary: acc)
  case (Cons n ns)
  then have n: "list_all is_digit (to_string n)" "stoll (to_string n) = Inr n"
    by (auto simp: int64_nonneg_def to_string_digits stoll_to_string)
  show ?case
  proof (cases "ns = []")
    case True
    then show ?thesis
      using n number_start_digits [of "to_string n" "[]" acc] by simp
  next
    case False
    then have "join ''.'' (map to_string (n # ns)) = to_string n @ CHR ''.'' # join ''.'' (map to_string ns)"
      by (simp add: join_Cons)
    then show ?thesis
      using n number_start_digits [of "to_string n" _ acc] False Cons
      by (simp add: is_digit_def)
  qed
qed simp

text \<open>Everything the machine accepts is a list of numbers it has converted.\<close>

lemma number_machine_valid:
  "number_start s ns = Inr (True, ns') \<Longrightarrow> \<exists>ms. ns' = ns @ ms \<and> ms \<noteq> [] \<and> list_all int64_nonneg ms"
  "number_rest s buf ns = Inr (True, ns') \<Longrightarrow> \<exists>ms. ns' = ns @ ms \<and> ms \<noteq> [] \<and> list_all int64_nonneg ms"
proof (induction s ns and s buf ns rule: number_start_number_rest.induct)
  case (3 buf ns)
  then show ?case
    by (auto simp: bind_result_Inr_iff dest: stoll_int64)
next
  case (4 c s buf ns)
  then show ?case
    by (fastforce simp: bind_result_Inr_iff split: if_splits dest: stoll_int64)
qed (auto split: if_splits)

definition print_numbers :: "int list \<Rightarrow> string" where
  "print_numbers ns = print_version ''.'' (length ns) (mk_version ns)"

definition parse_numbers :: "string \<Rightarrow> int list result" where
  "parse_numbers s =
     bind_result (number_start s []) (\<lambda>(ok, ns). if ok then Inr ns else Inl (Runtime_error s))"

interpretation nc: codec print_numbers parse_numbers "\<lambda>ns. ns \<noteq> [] \<and> list_all int64_nonneg ns"
proof
  fix ns :: "int list"
  assume "ns \<noteq> [] \<and> list_all int64_nonneg ns"
  then show "parse_numbers (print_numbers ns) = Inr ns"
    using print_version_own_level [of "''.''" "mk_version ns"] number_start_join [of ns "[]"]
    by (simp add: parse_numbers_def print_numbers_def mk_version_def get_level_def)
qed

section \<open>Extra parts: the parser undoes the printer\<close>

text \<open>The values a parsed extra part can hold.\<close>

fun extra_value_canonical :: "extra_value \<Rightarrow> bool" where
  "extra_value_canonical (ENum n) \<longleftrightarrow> int64_nonneg n"
| "extra_value_canonical (EStr s) \<longleftrightarrow> s \<noteq> [] \<and> list_all extra_char s \<and> add_extra s = EStr s"

definition extra_canonical :: "extra \<Rightarrow> bool" where
  "extra_canonical e \<longleftrightarrow> extra_values e \<noteq> [] \<and> list_all extra_value_canonical (extra_values e)"

lemma add_extra_print: "extra_value_canonical v \<Longrightarrow> add_extra (extra_value_print v) = v"
  by (cases v) (auto simp: add_extra_def int64_nonneg_def to_string_digits digits_value_to_string)

lemma extra_value_print_chars:
  "extra_value_canonical v \<Longrightarrow> list_all extra_char (extra_value_print v) \<and> extra_value_print v \<noteq> []"
  by (cases v)
    (auto simp: int64_nonneg_def extra_char_def list_all_iff char_simps dest: to_string_digits)

lemma extra_rest_chars:
  "list_all extra_char cs \<Longrightarrow> extra_rest (cs @ s) buf vs = extra_rest s (buf @ cs) vs"
  by (induction cs arbitrary: buf) auto

lemma extra_start_chars:
  assumes "list_all extra_char cs" "cs \<noteq> []"
  shows "extra_start (cs @ s) vs = extra_rest s cs vs"
  using assms by (cases cs) (auto simp: extra_rest_chars)

lemma extra_start_join:
  "vs \<noteq> [] \<Longrightarrow> list_all extra_value_canonical vs \<Longrightarrow>
     extra_start (join ''.'' (map extra_value_print vs)) acc = (True, acc @ vs)"
proof (induction vs arbitrary: acc)
  case (Cons v vs)
  then have v: "list_all extra_char (extra_value_print v)" "extra_value_print v \<noteq> []"
    "add_extra (extra_value_print v) = v"
    by (auto simp: extra_value_print_chars add_extra_print)
  show ?case
  proof (cases "vs = []")
    case True
    then show ?thesis
      using v extra_start_chars [of "extra_value_print v" "[]" acc] by simp
  next
    case False
    then have "join ''.'' (map extra_value_print (v # vs))
        = extra_value_print v @ CHR ''.'' # join ''.'' (map extra_value_print vs)"
      by (simp add: join_Cons)
    then show ?thesis
      using v extra_start_chars [of "extra_value_print v" _ acc] False Cons
      by (simp add: extra_char_def is_alnum_def is_digit_def)
  qed
qed simp

lemma add_extra_canonical: "buf \<noteq> [] \<Longrightarrow> list_all extra_char buf \<Longrightarrow> extra_value_canonical (add_extra buf)"
  by (auto simp: add_extra_def int64_nonneg_def)

lemma extra_machine_valid:
  "extra_start s vs = (True, vs') \<Longrightarrow>
     \<exists>ws. vs' = vs @ ws \<and> ws \<noteq> [] \<and> list_all extra_value_canonical ws"
  "extra_rest s buf vs = (True, vs') \<Longrightarrow> buf \<noteq> [] \<Longrightarrow> list_all extra_char buf \<Longrightarrow>
     \<exists>ws. vs' = vs @ ws \<and> ws \<noteq> [] \<and> list_all extra_value_canonical ws"
  by (induction s vs and s buf vs rule: extra_start_extra_rest.induct)
    (auto split: if_splits simp: add_extra_canonical)

text \<open>
  Printing never makes a part longer: leading zeros of a number are lost. So what was
  within the length limit of the machines stays within it.
\<close>

lemma length_nat_to_string: "n < 10 ^ k \<Longrightarrow> 0 < k \<Longrightarrow> length (nat_to_string n) \<le> k"
proof (induction n arbitrary: k rule: nat_to_string.induct)
  case (1 n)
  show ?case
  proof (cases "n < 10")
    case True
    then show ?thesis using "1.prems" by (subst nat_to_string.simps) simp
  next
    case False
    with "1.prems" obtain j where j: "k = Suc j" "0 < j"
      by (cases k; cases "k - 1") auto
    then have "n div 10 < 10 ^ j"
      using "1.prems" by (simp add: less_mult_imp_div_less mult.commute)
    with "1.IH" [OF False, of j] j False show ?thesis
      by (subst nat_to_string.simps) simp
  qed
qed

lemma digits_value_bound: "list_all is_digit s \<Longrightarrow> digits_value s < 10 ^ length s"
proof (induction s rule: rev_induct)
  case (snoc c s)
  then have "digit_value c < 10" "digits_value s < 10 ^ length s"
    by (auto simp: digit_value_def is_digit_def)
  then show ?case by simp
qed (simp add: digits_value_def)

lemma length_to_string_digits:
  "list_all is_digit s \<Longrightarrow> s \<noteq> [] \<Longrightarrow> length (to_string (int (digits_value s))) \<le> length s"
  using digits_value_bound length_nat_to_string by (simp add: to_string_def)

lemma length_join: "length (join sep xs) = sum_list (map length xs) + (length xs - 1) * length sep"
  by (induction sep xs rule: join.induct) auto

lemma number_machine_length:
  "number_start s ns = Inr (True, ns @ ms) \<Longrightarrow> length (join ''.'' (map to_string ms)) \<le> length s"
  "number_rest s buf ns = Inr (True, ns @ ms) \<Longrightarrow> buf \<noteq> [] \<Longrightarrow> list_all is_digit buf \<Longrightarrow>
     length (join ''.'' (map to_string ms)) \<le> length buf + length s"
proof (induction s ns and s buf ns arbitrary: ms and ms rule: number_start_number_rest.induct)
  case (2 c s ns)
  then show ?case by (fastforce split: if_splits)
next
  case (3 buf ns)
  then show ?case
    by (auto simp: bind_result_Inr_iff stoll_def length_to_string_digits split: if_splits)
next
  case (4 c s buf ns)
  show ?case
  proof (cases "is_digit c")
    case True
    then show ?thesis using "4.IH"(1) [of ms] "4.prems" by simp
  next
    case False
    with "4.prems"(1) obtain n where n: "c = CHR ''.''" "stoll buf = Inr n"
      "number_start s (ns @ [n]) = Inr (True, ns @ ms)"
      by (auto simp: bind_result_Inr_iff split: if_splits)
    from number_machine_valid(1) [OF n(3)] obtain ks where ks: "ms = n # ks" "ks \<noteq> []"
      by auto
    have "length (join ''.'' (map to_string ks)) \<le> length s"
      using "4.IH"(2) [OF False n(1), of n ks] n(2,3) ks(1) by simp
    moreover have "length (to_string n) \<le> length buf"
      using n(2) "4.prems"(2,3) length_to_string_digits by (auto simp: stoll_def split: if_splits)
    ultimately show ?thesis using ks by (simp add: join_Cons)
  qed
qed (auto split: if_splits)

lemma length_add_extra:
  "list_all extra_char buf \<Longrightarrow> buf \<noteq> [] \<Longrightarrow> length (extra_value_print (add_extra buf)) \<le> length buf"
  by (auto simp: add_extra_def length_to_string_digits)

lemma extra_machine_length:
  "extra_start s vs = (True, vs @ ws) \<Longrightarrow> length (join ''.'' (map extra_value_print ws)) \<le> length s"
  "extra_rest s buf vs = (True, vs @ ws) \<Longrightarrow> buf \<noteq> [] \<Longrightarrow> list_all extra_char buf \<Longrightarrow>
     length (join ''.'' (map extra_value_print ws)) \<le> length buf + length s"
proof (induction s vs and s buf vs arbitrary: ws and ws rule: extra_start_extra_rest.induct)
  case (2 c s vs)
  then show ?case by (fastforce split: if_splits)
next
  case (3 buf vs)
  then show ?case by (auto simp: length_add_extra)
next
  case (4 c s buf vs)
  show ?case
  proof (cases "extra_char c")
    case True
    then show ?thesis using "4.IH"(1) [of ws] "4.prems" by simp
  next
    case False
    with "4.prems"(1) have c: "c = CHR ''.''" "extra_start s (vs @ [add_extra buf]) = (True, vs @ ws)"
      by (auto split: if_splits)
    from extra_machine_valid(1) [OF c(2)] obtain us where us: "ws = add_extra buf # us" "us \<noteq> []"
      by auto
    have "length (join ''.'' (map extra_value_print us)) \<le> length s"
      using "4.IH"(2) [OF False c(1), of us] c(2) us(1) by simp
    moreover have "length (extra_value_print (add_extra buf)) \<le> length buf"
      using "4.prems"(2,3) by (rule length_add_extra [rotated])
    ultimately show ?thesis using us by (simp add: join_Cons)
  qed
qed (auto split: if_splits)

section \<open>Versions: the parser undoes the printer\<close>

definition version_printable :: "version \<Rightarrow> bool" where
  "version_printable v \<longleftrightarrow>
     numbers v \<noteq> [] \<and> list_all int64_nonneg (numbers v)
     \<and> length (join ''.'' (map to_string (numbers v))) \<le> 8192
     \<and> (extra_values (vextra v) = []
        \<or> extra_canonical (vextra v) \<and> length (extra_print (vextra v)) \<le> 8192)"

lemma version_numbers_chars:
  assumes "list_all int64_nonneg ns" "c \<in> set (join ''.'' (map to_string ns))"
  shows "is_digit c \<or> c = CHR ''.''"
  using assms set_join [of "''.''" "map to_string ns"] to_string_digits
  by (fastforce simp: list_all_iff int64_nonneg_def)

lemma extra_print_chars:
  assumes "extra_canonical e" "c \<in> set (extra_print e)"
  shows "extra_char c \<or> c = CHR ''.''"
  using assms set_join [of "''.''" "map extra_value_print (extra_values e)"] extra_value_print_chars
  by (fastforce simp: list_all_iff extra_canonical_def extra_print_join)

lemma strip_id: "strip_law strip \<Longrightarrow> (\<And>c. c \<in> set s \<Longrightarrow> \<not> is_space c) \<Longrightarrow> strip s = s"
  by (cases "s = []") (auto simp: strip_law_def)

lemma not_space_chars [char_simps]:
  "extra_char c \<Longrightarrow> \<not> is_space c" "\<not> is_space CHR ''.''" "\<not> is_space CHR ''-''"
  by (auto simp: extra_char_def is_alnum_def is_digit_def is_space_def)

lemma extra_print_no_space: "extra_canonical e \<Longrightarrow> c \<in> set (extra_print e) \<Longrightarrow> \<not> is_space c"
  by (metis extra_print_chars not_space_chars(1,2))

lemma extra_of_string_print:
  assumes "strip_law strip" "extra_canonical e" "length (extra_print e) \<le> 8192"
  shows "extra_of_string strip (extra_print e) = Inr e"
proof -
  have "strip (extra_print e) = extra_print e"
    using assms(1,2) by (auto intro!: strip_id dest: extra_print_chars simp: char_simps)
  moreover have "extra_print e \<noteq> []"
    using assms(2) extra_value_print_chars
    by (auto simp: extra_print_join extra_canonical_def join_eq_Nil_iff)
  ultimately show ?thesis
    using assms extra_start_join [of "extra_values e" "[]"]
    by (simp add: extra_of_string_def extra_parse_def extra_print_join extra_canonical_def)
qed

lemma version_print_parse_aux:
  assumes "strip_law strip" "version_printable v"
  shows "version_of_string strip (version_to_string v) = Inr v"
proof -
  let ?ns = "join ''.'' (map to_string (numbers v))"
  have chars: "\<And>c. c \<in> set ?ns \<Longrightarrow> is_digit c \<or> c = CHR ''.''"
    using assms(2) version_numbers_chars by (auto simp: version_printable_def)
  have no_space: "\<And>c. c \<in> set ?ns \<Longrightarrow> \<not> is_space c"
    using chars by (metis is_digit_not_special(3) not_space_chars(2))
  have no_hyphen: "CHR ''-'' \<notin> set ?ns"
    using chars by (force simp: is_digit_def)
  have parse: "version_parse \<lparr>numbers = [], vextra = vextra v\<rparr> ?ns = Inr (True, v)"
    using assms(2) number_start_join [of "numbers v" "[]"]
    by (simp add: version_parse_def version_printable_def)
  show ?thesis
  proof (cases "extra_values (vextra v) = []")
    case True
    then have ps: "version_to_string v = ?ns" and e: "vextra v = Extra []"
      by (auto simp: version_to_string_def to_string_delim_def to_string_delim_level_def
          print_version_own_level extra_empty_def extra.expand)
    have "strip ?ns = ?ns"
      using assms(1) no_space by (rule strip_id)
    then show ?thesis
      using ps e parse no_hyphen str_find_None_single [of "CHR ''-''" ?ns]
      by (simp add: version_of_string_def Let_def)
  next
    case False
    then have ps: "version_to_string v = ?ns @ CHR ''-'' # extra_print (vextra v)"
      by (simp add: version_to_string_def to_string_delim_def to_string_delim_level_def
          print_version_own_level extra_empty_def Let_def)
    have e: "extra_canonical (vextra v)" "length (extra_print (vextra v)) \<le> 8192"
      using assms(2) False by (auto simp: version_printable_def)
    have "strip (version_to_string v) = version_to_string v"
      using assms(1) no_space extra_print_no_space [OF e(1)]
      by (auto intro!: strip_id simp: char_simps ps)
    then show ?thesis
      using ps parse no_hyphen extra_of_string_print [OF assms(1) e]
      by (simp add: version_of_string_def Let_def str_find_single_append)
  qed
qed

text \<open>
  C2: Reading back a printed version gives the version: for numbers that are 64-bit
  integers and not negative, an extra part as the parser builds them (or none) and a text
  within the parser's limit of 8192 characters for each of the two parts.
\<close>

theorem version_print_parse:
  assumes "strip_law strip" "version_printable v"
  shows "version_of_string strip (version_to_string v) = Inr v"
  using assms by (rule version_print_parse_aux)

lemma version_print_parse_witness:
  "version_of_string strip_ws (version_to_string
       \<lparr>numbers = [1, 20, 0], vextra = Extra [EStr ''rc'', ENum 2]\<rparr>)
     = Inr \<lparr>numbers = [1, 20, 0], vextra = Extra [EStr ''rc'', ENum 2]\<rparr>"
proof (rule version_print_parse [OF strip_law_strip_ws])
  show "version_printable \<lparr>numbers = [1, 20, 0], vextra = Extra [EStr ''rc'', ENum 2]\<rparr>"
    by code_simp
qed

lemma extra_of_string_valid:
  assumes "extra_of_string strip s = Inr e"
  shows "extra_canonical e \<and> length (extra_print e) \<le> 8192"
proof -
  obtain vs where vs: "extra_start (strip s) [] = (True, vs)" "e = Extra vs" "length (strip s) \<le> 8192"
    using assms by (auto simp: extra_of_string_def extra_parse_def split: if_splits prod.splits bool.splits)
  then show ?thesis
    using extra_machine_valid(1) [OF vs(1)] extra_machine_length(1) [of "strip s" "[]" vs]
    by (auto simp: extra_canonical_def extra_print_join)
qed

text \<open>Every version the constructor accepts can be printed and read back.\<close>

lemma version_of_string_printable:
  assumes "version_of_string strip s = Inr v"
  shows "version_printable v"
proof -
  obtain e ps where e: "e = Extra [] \<or> extra_canonical e \<and> length (extra_print e) \<le> 8192"
    and parse: "version_parse \<lparr>numbers = [], vextra = e\<rparr> ps = Inr (True, v)"
    using assms
    by (auto simp: version_of_string_def Let_def bind_result_Inr_iff split: option.splits if_splits
        dest!: extra_of_string_valid)
  from parse obtain ns where ns: "number_start ps [] = Inr (True, ns)" "length ps \<le> 8192"
    "v = \<lparr>numbers = ns, vextra = e\<rparr>"
    by (auto simp: version_parse_def bind_result_Inr_iff split: if_splits)
  then show ?thesis
    using e number_machine_valid(1) [OF ns(1)] number_machine_length(1) [of ps "[]" ns]
    by (auto simp: version_printable_def)
qed

text \<open>
  Printing normalises: what the constructor accepts prints to a text that the
  constructor accepts with the same result, whatever the input looked like (leading zeros,
  white space around it).
\<close>

theorem version_parse_print_parse:
  assumes "strip_law strip" "version_of_string strip s = Inr v"
  shows "version_of_string strip (version_to_string v) = version_of_string strip s"
proof -
  have printable: "version_printable v"
    using assms(2) by (rule version_of_string_printable)
  show ?thesis
    using version_print_parse_aux [OF assms(1) printable] assms(2) by simp
qed

lemma version_parse_print_parse_witness:
  "version_of_string strip_ws ''01.2-rc.007'' = Inr \<lparr>numbers = [1, 2], vextra = Extra [EStr ''rc'', ENum 7]\<rparr>
   \<and> version_of_string strip_ws (version_to_string \<lparr>numbers = [1, 2], vextra = Extra [EStr ''rc'', ENum 7]\<rparr>)
     = version_of_string strip_ws ''01.2-rc.007''"
proof -
  have "version_of_string strip_ws ''01.2-rc.007'' = Inr \<lparr>numbers = [1, 2], vextra = Extra [EStr ''rc'', ENum 7]\<rparr>"
    by code_simp
  with version_parse_print_parse [OF strip_law_strip_ws this] show ?thesis by simp
qed

end
