(* ===== verification/VersionFormat.thy ===== *)
theory VersionFormat
  imports VersionParse
begin

text \<open>
  \<open>Version::format\<close> and \<open>Version::getHash\<close> (version.cpp). The letters for a number
  (\<open>create_latin_replacements\<close>) enumerate the words over an alphabet of 26 letters, the
  shorter words first. \<open>fmt::format\<close> and \<open>boost::hash_combine\<close> belong to libraries
  outside the repository and are parameters.
\<close>

section \<open>Letters for a number\<close>

text \<open>
  The first loop finds the number of letters. \<open>p\<close> is a 64-bit power of 26, whose
  overflow would be undefined; the guard \<open>0 < p\<close> always holds (\<open>p\<close> starts at 26).
\<close>

function latin_width :: "int \<Rightarrow> int \<Rightarrow> nat \<Rightarrow> (int \<times> nat) result" where
  "latin_width n p c =
     (if 0 < p \<and> p \<le> n then
        (if p * 26 > int64_max then Inl Undefined else latin_width (n - p) (p * 26) (Suc c))
      else Inr (n, c))"
  by pat_completeness auto
termination
  by (relation "measure (\<lambda>(n, p, c). nat n)") auto

declare latin_width.simps [simp del]

definition latin_char :: "char \<Rightarrow> int \<Rightarrow> char" where
  "latin_char base k = char_of (nat ((int (of_char base) + k) mod 256))"

text \<open>The second loop writes the digits in base 26, the last one first.\<close>

function latin_digits :: "char \<Rightarrow> int \<Rightarrow> string" where
  "latin_digits base n =
     (if 26 \<le> n then latin_char base (n mod 26) # latin_digits base (n div 26) else [latin_char base n])"
  by pat_completeness auto
termination
  by (relation "measure (\<lambda>(base, n). nat n)") auto

declare latin_digits.simps [simp del]

definition create_latin_replacements :: "char \<Rightarrow> int \<Rightarrow> string result" where
  "create_latin_replacements base n =
     bind_result (latin_width n 26 1) (\<lambda>(n, c).
       let s = rev (latin_digits base n)
       in Inr (if length s < c then replicate (c - length s) base @ s else s))"

definition create_latin_replacements_capital :: "int \<Rightarrow> string result" where
  "create_latin_replacements_capital n = create_latin_replacements CHR ''A'' n"

section \<open>The arguments of the format\<close>

text \<open>
  \<open>get_optional_number\<close>: the number at a level, if it or a later one is not zero.
\<close>

definition get_optional_number :: "version \<Rightarrow> nat \<Rightarrow> int option" where
  "get_optional_number v level =
     (if level > get_level v then None
      else if list_ex (\<lambda>n. n \<noteq> 0) (drop (level - 1) (numbers v)) then Some (numbers v ! (level - 1))
      else None)"

definition get_optional :: "int option \<Rightarrow> string" where
  "get_optional n = (case n of Some k \<Rightarrow> ''.'' @ to_string k | None \<Rightarrow> '''')"

text \<open>\<open>VAR_OPT\<close>: a dot and the replacement when the optional number is there.\<close>

definition optional_replacement :: "int option \<Rightarrow> (int \<Rightarrow> string result) \<Rightarrow> int \<Rightarrow> string result" where
  "optional_replacement on f n =
     (if on \<noteq> None then bind_result (f n) (\<lambda>s. Inr (''.'' @ s)) else Inr '''')"

datatype fmt_arg = FInt int | FStr string

definition format_args :: "version \<Rightarrow> (string \<times> fmt_arg) list result" where
  "format_args v =
     bind_result (get_major v) (\<lambda>M. bind_result (get_minor v) (\<lambda>m.
     bind_result (get_patch v) (\<lambda>p. bind_result (get_tweak v) (\<lambda>t.
     let mon = get_optional_number v 2; pon = get_optional_number v 3; ton = get_optional_number v 4;
         small = create_latin_replacements CHR ''a''; cap = create_latin_replacements_capital
     in bind_result (map_result cap [M, m, p, t]) (\<lambda>caps.
        bind_result (map_result small [M, m, p, t]) (\<lambda>smalls.
        bind_result (map_result (\<lambda>(on, n). optional_replacement on cap n) [(mon, m), (pon, p), (ton, t)]) (\<lambda>ocaps.
        bind_result (map_result (\<lambda>(on, n). optional_replacement on small n) [(mon, m), (pon, p), (ton, t)]) (\<lambda>osmalls.
        Inr (zip [''M'', ''m'', ''p'', ''t''] (map FInt [M, m, p, t])
             @ zip [''ML'', ''mL'', ''pL'', ''tL''] (map FStr caps)
             @ zip [''Ml'', ''ml'', ''pl'', ''tl''] (map FStr smalls)
             @ zip [''mo'', ''po'', ''to''] (map (FStr \<circ> get_optional) [mon, pon, ton])
             @ zip [''mLo'', ''pLo'', ''tLo''] (map FStr ocaps)
             @ zip [''mlo'', ''plo'', ''tlo''] (map FStr osmalls)
             @ [(''e'', FStr (extra_print (vextra v))), (''v'', FStr (version_to_string v)),
                (''Mm'', FStr (to_string_level 2 v))])))))))))"

definition version_format ::
  "(string \<Rightarrow> (string \<times> fmt_arg) list \<Rightarrow> string result) \<Rightarrow> version \<Rightarrow> string \<Rightarrow> string result" where
  "version_format fmt v s = bind_result (format_args v) (fmt s)"

text \<open>\<open>Version::getHash\<close>: only the numbers are hashed, one after the other.\<close>

definition get_hash :: "('h \<Rightarrow> int \<Rightarrow> 'h) \<Rightarrow> 'h \<Rightarrow> version \<Rightarrow> 'h" where
  "get_hash hash_combine zero v = foldl hash_combine zero (numbers v)"

section \<open>The letters determine the number\<close>

definition latin_digit :: "char \<Rightarrow> char \<Rightarrow> int" where
  "latin_digit base c = int (of_char c) - int (of_char base)"

text \<open>A word of \<open>c\<close> letters comes after all the shorter ones.\<close>

definition latin_value :: "char \<Rightarrow> string \<Rightarrow> int" where
  "latin_value base s =
     (\<Sum>i = 1..<length s. 26 ^ i) + foldl (\<lambda>a c. 26 * a + latin_digit base c) 0 s"

text \<open>The alphabets the code uses start at \<open>a\<close> or \<open>A\<close>; any base with 25 successors does.\<close>

definition latin_base :: "char \<Rightarrow> bool" where
  "latin_base base \<longleftrightarrow> (of_char base :: nat) \<le> 230"

lemma latin_digit_char:
  assumes "latin_base base" "0 \<le> k" "k < 26"
  shows "latin_digit base (latin_char base k) = k"
proof -
  have "(int (of_char base) + k) mod 256 = int (of_char base) + k"
    using assms by (intro mod_pos_pos_trivial) (auto simp: latin_base_def)
  moreover have "(of_char (char_of (nat (int (of_char base) + k))) :: nat) = nat (int (of_char base) + k)"
    using assms by (simp add: latin_base_def take_bit_eq_mod nat_less_iff)
  ultimately show ?thesis
    using assms by (simp add: latin_digit_def latin_char_def)
qed

lemma latin_width_spec:
  "latin_width n (26 ^ c) c = Inr (m, d) \<Longrightarrow> 0 \<le> n \<Longrightarrow> 0 < c \<Longrightarrow>
     c \<le> d \<and> 0 \<le> m \<and> m < 26 ^ d \<and> n = (\<Sum>i = c..<d. 26 ^ i) + m"
proof (induction "nat n" arbitrary: n c rule: less_induct)
  case less
  show ?case
  proof (cases "(26 :: int) ^ c \<le> n")
    case True
    then have step: "latin_width (n - 26 ^ c) (26 ^ Suc c) (Suc c) = Inr (m, d)"
      using less.prems(1) by (subst (asm) latin_width.simps) (simp split: if_splits add: mult.commute)
    have "nat (n - 26 ^ c) < nat n"
      using True less.prems(2) zero_less_power [of "26 :: int" c] by linarith
    from less.hyps [OF this step] True show ?thesis
      by (auto simp: sum.atLeast_Suc_lessThan)
  next
    case False
    then show ?thesis
      using less.prems by (subst (asm) latin_width.simps) auto
  qed
qed

text \<open>The digit loop: the value of its output, read from the last digit on, and its length.\<close>

lemma latin_digits_value:
  assumes "latin_base base"
  shows "0 \<le> n \<Longrightarrow> foldr (\<lambda>c a. 26 * a + latin_digit base c) (latin_digits base n) 0 = n"
proof (induction "nat n" arbitrary: n rule: less_induct)
  case less
  show ?case
  proof (cases "26 \<le> n")
    case True
    then have "foldr (\<lambda>c a. 26 * a + latin_digit base c) (latin_digits base (n div 26)) 0 = n div 26"
      by (intro less.hyps) auto
    with True show ?thesis
      by (subst latin_digits.simps) (simp add: latin_digit_char [OF assms])
  next
    case False
    with less.prems show ?thesis
      by (subst latin_digits.simps) (simp add: latin_digit_char [OF assms])
  qed
qed

lemma div_26_less: "n < 26 * k \<Longrightarrow> n div 26 < (k :: int)"
  by presburger

lemma latin_digits_length: "0 \<le> n \<Longrightarrow> n < 26 ^ d \<Longrightarrow> 0 < d \<Longrightarrow> length (latin_digits base n) \<le> d"
proof (induction d arbitrary: n)
  case (Suc d)
  show ?case
  proof (cases "26 \<le> n")
    case True
    then have d: "0 < d"
      using Suc.prems(2) by (cases d) auto
    have "n div 26 < 26 ^ d"
      using Suc.prems(2) div_26_less by simp
    with True d Suc.IH [of "n div 26"] show ?thesis
      by (subst latin_digits.simps) simp
  next
    case False
    then show ?thesis by (subst latin_digits.simps) simp
  qed
qed simp

lemma foldl_latin_rev:
  "foldl (\<lambda>a c. 26 * a + latin_digit base c) 0 (rev s) = foldr (\<lambda>c a. 26 * a + latin_digit base c) s 0"
  by (simp add: foldl_conv_foldr)

lemma foldl_latin_replicate:
  "foldl (\<lambda>a c. 26 * a + latin_digit base c) 0 (replicate k base) = 0"
  by (induction k) (auto simp: latin_digit_def)

lemma create_latin_value:
  assumes "latin_base base" "0 \<le> n" "create_latin_replacements base n = Inr s"
  shows "latin_value base s = n"
proof -
  obtain m d where width: "latin_width n (26 ^ 1) 1 = Inr (m, d)"
    and s: "s = (if length (rev (latin_digits base m)) < d
      then replicate (d - length (latin_digits base m)) base @ rev (latin_digits base m)
      else rev (latin_digits base m))"
    using assms(3) by (auto simp: create_latin_replacements_def bind_result_Inr_iff Let_def)
  have m: "1 \<le> d" "0 \<le> m" "m < 26 ^ d" "n = (\<Sum>i = 1..<d. 26 ^ i) + m"
    using latin_width_spec [OF width assms(2)] by auto
  have len: "length (latin_digits base m) \<le> d"
    using m by (intro latin_digits_length) auto
  then have eq: "s = replicate (d - length (latin_digits base m)) base @ rev (latin_digits base m)"
    by (auto simp: s)
  then have "length s = d" using len by simp
  moreover have "foldl (\<lambda>a c. 26 * a + latin_digit base c) 0 s = m"
    using latin_digits_value [OF assms(1) m(2)] by (simp add: eq foldl_latin_replicate foldl_latin_rev)
  ultimately show ?thesis using m(4) by (simp add: latin_value_def)
qed

text \<open>The loop never overflows on a number that a version may hold.\<close>

lemma latin_width_total:
  "n \<le> max_number \<Longrightarrow> 0 < p \<Longrightarrow> \<exists>r. latin_width n p c = Inr r"
proof (induction "nat n" arbitrary: n p c rule: less_induct)
  case less
  show ?case
  proof (cases "p \<le> n")
    case True
    then have "\<exists>r. latin_width (n - p) (p * 26) (Suc c) = Inr r"
      using less.prems by (intro less.hyps) auto
    moreover have "\<not> p * 26 > int64_max"
      using True less.prems by (simp add: max_number_def int64_max_def)
    ultimately show ?thesis
      using less.prems by (subst latin_width.simps) auto
  next
    case False
    then show ?thesis by (subst latin_width.simps) auto
  qed
qed

lemma create_latin_total: "n \<le> max_number \<Longrightarrow> \<exists>s. create_latin_replacements base n = Inr s"
  using latin_width_total [of n 26 1]
  by (auto simp: create_latin_replacements_def bind_result_Inr_iff Let_def)

text \<open>
  The letters are a code for the numbers: the decoder of \<open>latin_value\<close> recovers the
  number from its letters.
\<close>

interpretation lc: codec "create_latin_replacements base" "\<lambda>r. bind_result r (\<lambda>s. Inr (latin_value base s))"
  "\<lambda>n. latin_base base \<and> number_ok n" for base
proof
  fix n
  assume n: "latin_base base \<and> number_ok n"
  then obtain s where s: "create_latin_replacements base n = Inr s"
    using create_latin_total by (auto simp: number_ok_def)
  with n show "bind_result (create_latin_replacements base n) (\<lambda>s. Inr (latin_value base s)) = Inr n"
    using create_latin_value by (auto simp: number_ok_def)
qed

text \<open>
  The letter replacements of two numbers that a version may hold are defined, and
  equal only if the numbers are equal: the word of a number determines it.
\<close>

theorem latin_replacements_injective:
  assumes "number_ok m" "number_ok n"
  shows "(\<exists>s. create_latin_replacements CHR ''a'' m = Inr s \<and> latin_value CHR ''a'' s = m)
    \<and> (create_latin_replacements CHR ''a'' m = create_latin_replacements CHR ''a'' n \<longleftrightarrow> m = n)
    \<and> (create_latin_replacements_capital m = create_latin_replacements_capital n \<longleftrightarrow> m = n)"
proof -
  have base: "latin_base CHR ''a''" "latin_base CHR ''A''"
    by (simp_all add: latin_base_def)
  then show ?thesis
    using assms lc.enc_inj [of "CHR ''a''" m n] lc.enc_inj [of "CHR ''A''" m n]
      lc.dec_enc [of "CHR ''a''" m]
    by (auto simp: create_latin_replacements_capital_def bind_result_Inr_iff)
qed

lemma latin_replacements_injective_witness:
  "create_latin_replacements CHR ''a'' 27 = Inr ''ab''
   \<and> create_latin_replacements CHR ''a'' 27 \<noteq> create_latin_replacements CHR ''a'' 1"
proof -
  have "create_latin_replacements CHR ''a'' 27 = Inr ''ab''"
    by code_simp
  then show ?thesis
    using latin_replacements_injective [of 27 1] by (simp add: number_ok_def max_number_def)
qed

section \<open>The format arguments\<close>

lemma real_level_last:
  assumes "0 < get_real_level v"
  shows "numbers v ! (get_real_level v - 1) \<noteq> 0"
proof -
  let ?d = "dropWhile (\<lambda>n. n = 0) (rev (numbers v))"
  have ne: "?d \<noteq> []"
    using assms by (auto simp: get_real_level_eq)
  have "take (length ?d) (numbers v) = rev ?d"
    by (metis append_eq_conv_conj length_rev rev_append rev_rev_ident takeWhile_dropWhile_id)
  then have "numbers v ! (length ?d - 1) = rev ?d ! (length ?d - 1)"
    using ne by (metis diff_less length_greater_0_conv less_numeral_extra(1) nth_take)
  also have "\<dots> = hd ?d"
    using ne by (simp add: rev_nth hd_conv_nth)
  finally show ?thesis
    using hd_dropWhile [OF ne] by (simp add: get_real_level_eq)
qed

lemma real_level_gt_iff: "k < get_real_level v \<longleftrightarrow> list_ex (\<lambda>n. n \<noteq> 0) (drop k (numbers v))"
proof
  assume k: "k < get_real_level v"
  define i where "i = get_real_level v - 1 - k"
  have "get_real_level v \<le> length (numbers v)"
    by simp
  then have i: "k + i = get_real_level v - 1" "i < length (drop k (numbers v))"
    using k unfolding i_def length_drop by linarith+
  have "drop k (numbers v) ! i \<noteq> 0"
    using real_level_last [of v] k i by simp
  then show "list_ex (\<lambda>n. n \<noteq> 0) (drop k (numbers v))"
    using i(2) unfolding list_ex_length by blast
next
  assume ex: "list_ex (\<lambda>n. n \<noteq> 0) (drop k (numbers v))"
  show "k < get_real_level v"
  proof (rule ccontr)
    assume "\<not> k < get_real_level v"
    then have "drop k (numbers v) = drop (k - get_real_level v)
        (drop (get_real_level v) (numbers v))"
      by simp
    also have "drop (get_real_level v) (numbers v) = replicate (length (numbers v) - get_real_level v) 0"
      using take_real_level_zeros [of v] by (metis append_take_drop_id same_append_eq)
    finally have "drop k (numbers v) = drop (k - get_real_level v)
        (replicate (length (numbers v) - get_real_level v) 0)" .
    with ex show False by (auto simp: list_ex_iff)
  qed
qed

lemma get_optional_number_eq:
  assumes "0 < level"
  shows "get_optional_number v level
     = (if level \<le> get_real_level v then Some (numbers v ! (level - 1)) else None)"
proof -
  have "list_ex (\<lambda>n. n \<noteq> 0) (drop (level - 1) (numbers v)) \<longleftrightarrow> level \<le> get_real_level v"
    using real_level_gt_iff [of "level - 1" v] assms by auto
  moreover have "level \<le> get_real_level v \<Longrightarrow> level \<le> length (numbers v)"
    using order_trans [OF _ real_level_le] by blast
  ultimately show ?thesis
    by (auto simp: get_optional_number_def get_level_def)
qed

lemma map_result_total_ex: "(\<And>x. x \<in> set xs \<Longrightarrow> \<exists>y. f x = Inr y) \<Longrightarrow> \<exists>ys. map_result f xs = Inr ys"
  by (induction xs) force+

lemma version_get_number:
  "list_all number_ok (numbers v) \<Longrightarrow> 0 < k \<Longrightarrow>
     \<exists>n. version_get v k = Inr n \<and> n \<le> max_number \<and> n = (if k \<le> get_level v then numbers v ! (k - 1) else 0)"
  by (auto simp: version_get_def number_ok_def list_all_length get_level_def max_number_def)

lemma format_args_total:
  assumes "list_all number_ok (numbers v)"
  shows "\<exists>args. format_args v = Inr args
    \<and> map_of args ''M'' = Some (FInt (if 1 \<le> get_level v then numbers v ! 0 else 0))
    \<and> map_of args ''mo'' = Some (FStr (get_optional (get_optional_number v 2)))
    \<and> map_of args ''po'' = Some (FStr (get_optional (get_optional_number v 3)))
    \<and> map_of args ''to'' = Some (FStr (get_optional (get_optional_number v 4)))
    \<and> map_of args ''v'' = Some (FStr (version_to_string v))"
proof -
  obtain M m p t where get: "version_get v 1 = Inr M" "version_get v 2 = Inr m"
      "version_get v 3 = Inr p" "version_get v 4 = Inr t"
    and le: "M \<le> max_number" "m \<le> max_number" "p \<le> max_number" "t \<le> max_number"
    and M: "M = (if 1 \<le> get_level v then numbers v ! 0 else 0)"
    using version_get_number [OF assms, of 1] version_get_number [OF assms, of 2]
      version_get_number [OF assms, of 3] version_get_number [OF assms, of 4] by auto
  have total: "\<exists>s. create_latin_replacements b k = Inr s" if "k \<in> {M, m, p, t}" for b k
    using that le by (auto intro: create_latin_total)
  have optional: "\<exists>s. optional_replacement on (create_latin_replacements b) k = Inr s"
    if "k \<in> {M, m, p, t}" for on b k
    using total [OF that, of b] by (auto simp: optional_replacement_def)
  define ons where "ons = [(get_optional_number v 2, m), (get_optional_number v 3, p), (get_optional_number v 4, t)]"
  have "\<exists>caps. map_result (create_latin_replacements b) [M, m, p, t] = Inr caps" for b
    by (rule map_result_total_ex) (auto intro: total)
  moreover have "\<exists>os. map_result (\<lambda>(on, n). optional_replacement on (create_latin_replacements b) n) ons = Inr os" for b
    by (rule map_result_total_ex) (auto simp: ons_def intro: optional)
  ultimately obtain caps smalls ocaps osmalls where r:
    "map_result (create_latin_replacements CHR ''A'') [M, m, p, t] = Inr caps"
    "map_result (create_latin_replacements CHR ''a'') [M, m, p, t] = Inr smalls"
    "map_result (\<lambda>(on, n). optional_replacement on (create_latin_replacements CHR ''A'') n) ons = Inr ocaps"
    "map_result (\<lambda>(on, n). optional_replacement on (create_latin_replacements CHR ''a'') n) ons = Inr osmalls"
    by meson
  have cap: "create_latin_replacements_capital = create_latin_replacements CHR ''A''"
    by (simp add: create_latin_replacements_capital_def fun_eq_iff)
  have len: "length caps = 4" "length smalls = 4" "length ocaps = 3" "length osmalls = 3"
    using r [THEN map_result_Inr_length] by (simp_all add: ons_def)
  then obtain c1 c2 c3 c4 s1 s2 s3 s4 o1 o2 o3 p1 p2 p3 where lists:
    "caps = [c1, c2, c3, c4]" "smalls = [s1, s2, s3, s4]" "ocaps = [o1, o2, o3]" "osmalls = [p1, p2, p3]"
    by (auto simp: eval_nat_numeral length_Suc_conv)
  have "map_result create_latin_replacements_capital [M, m, p, t] = Inr caps"
    "map_result (\<lambda>(on, n). optional_replacement on create_latin_replacements_capital n) ons = Inr ocaps"
    using r by (simp_all only: cap)
  then show ?thesis
    using get r M
    by (simp del: map_result.simps add: format_args_def get_major_def get_minor_def get_patch_def get_tweak_def
        Let_def ons_def [symmetric] lists)
qed

lemma take_resize_numbers: "k \<le> n \<Longrightarrow> k \<le> length xs \<Longrightarrow> take k (resize_numbers n xs) = take k xs"
  by (simp add: resize_numbers_def)

lemma take_map_nth: "n \<le> length xs \<Longrightarrow> take n xs = map ((!) xs) [0..<n]"
  by (auto intro: nth_equalityI)

lemma join_optional_numbers:
  "to_string (if 1 \<le> get_level v then numbers v ! 0 else 0)
     @ get_optional (get_optional_number v 2) @ get_optional (get_optional_number v 3)
     @ get_optional (get_optional_number v 4)
   = join ''.'' (map to_string (take (max 1 (min 4 (get_real_level v))) (resize_numbers 4 (numbers v))))"
proof -
  have le: "get_real_level v \<le> length (numbers v)"
    by simp
  consider "get_real_level v \<le> 1" | "get_real_level v = 2" | "get_real_level v = 3" | "4 \<le> get_real_level v"
    by linarith
  then show ?thesis
  proof cases
    case 1
    then have "max 1 (min 4 (get_real_level v)) = 1" by simp
    moreover have "take 1 (resize_numbers 4 (numbers v)) = [if 1 \<le> get_level v then numbers v ! 0 else 0]"
      by (cases "numbers v") (auto simp: resize_numbers_def get_level_def numeral_eq_Suc)
    ultimately show ?thesis
      using 1 by (simp add: get_optional_number_eq get_optional_def)
  next
    case 2
    then have tk: "take 2 (numbers v) = [numbers v ! 0, numbers v ! 1]"
      using le by (simp add: take_map_nth numeral_eq_Suc)
    have lev: "max 1 (min 4 (get_real_level v)) = 2"
      using 2 by simp
    have rs: "take 2 (resize_numbers 4 (numbers v)) = take 2 (numbers v)"
      using 2 le by (intro take_resize_numbers) auto
    show ?thesis
      unfolding lev rs tk using 2 le by (simp add: get_optional_number_eq get_optional_def get_level_def)
  next
    case 3
    then have tk: "take 3 (numbers v) = [numbers v ! 0, numbers v ! 1, numbers v ! 2]"
      using le by (simp add: take_map_nth numeral_eq_Suc)
    have lev: "max 1 (min 4 (get_real_level v)) = 3"
      using 3 by simp
    have rs: "take 3 (resize_numbers 4 (numbers v)) = take 3 (numbers v)"
      using 3 le by (intro take_resize_numbers) auto
    show ?thesis
      unfolding lev rs tk using 3 le by (simp add: get_optional_number_eq get_optional_def get_level_def)
  next
    case 4
    then have le4: "4 \<le> length (numbers v)"
      using le by linarith
    then have tk: "take 4 (numbers v) = [numbers v ! 0, numbers v ! 1, numbers v ! 2, numbers v ! 3]"
      by (simp add: take_map_nth numeral_eq_Suc)
    have lev: "max 1 (min 4 (get_real_level v)) = 4"
      using 4 by simp
    have rs: "take 4 (resize_numbers 4 (numbers v)) = take 4 (numbers v)"
      using le4 by (intro take_resize_numbers) auto
    show ?thesis
      unfolding lev rs tk using 4 le4 by (simp add: get_optional_number_eq get_optional_def get_level_def)
  qed
qed

text \<open>
  The arguments of a format are defined for every version whose numbers are within
  the limit, and the format \<open>{M}{mo}{po}{to}\<close> prints the first four numbers without the
  trailing zeros (but always the major number).
\<close>

theorem format_optional_numbers:
  assumes "list_all number_ok (numbers v)"
  shows "\<exists>args M mo po to. format_args v = Inr args
    \<and> map_of args ''M'' = Some (FInt M) \<and> map_of args ''mo'' = Some (FStr mo)
    \<and> map_of args ''po'' = Some (FStr po) \<and> map_of args ''to'' = Some (FStr to)
    \<and> map_of args ''v'' = Some (FStr (version_to_string v))
    \<and> to_string M @ mo @ po @ to
      = join ''.'' (map to_string (take (max 1 (min 4 (get_real_level v))) (resize_numbers 4 (numbers v))))"
  using format_args_total [OF assms] join_optional_numbers [of v] by blast

lemma format_optional_numbers_witness:
  "\<exists>args. format_args (mk_version [1, 2, 0]) = Inr args
     \<and> map_of args ''v'' = Some (FStr (version_to_string (mk_version [1, 2, 0])))"
  using format_optional_numbers [of "mk_version [1, 2, 0]"]
  by (auto simp: number_ok_def mk_version_def max_number_def)

text \<open>
  The hash ignores the extra part, and versions of the same level that compare equal
  hash alike; but \<open>1\<close> and \<open>1.0\<close> compare equal and hash alike only if hashing one
  more zero changes nothing.
\<close>

theorem get_hash_equal_versions:
  "(version_eq v w \<and> get_level v = get_level w \<longrightarrow> get_hash c z v = get_hash c z w)
   \<and> get_hash c z (version_with_extra v e) = get_hash c z v
   \<and> version_eq (mk_version [1]) (mk_version [1, 0])
   \<and> (get_hash c z (mk_version [1]) = get_hash c z (mk_version [1, 0]) \<longleftrightarrow> c (c z 1) 0 = c z 1)"
proof -
  have "numbers v = numbers w" if "version_eq v w" "get_level v = get_level w"
    using that by (simp add: version_eq_def version_cmp_def)
  moreover have "version_eq (mk_version [1]) (mk_version [1, 0])"
    by code_simp
  ultimately show ?thesis
    by (auto simp: get_hash_def version_with_extra_def mk_version_def)
qed

lemma get_hash_equal_versions_witness:
  "get_hash (\<lambda>h n. 31 * h + n) 7 (mk_version [1, 2]) = get_hash (\<lambda>h n. 31 * h + n) (7 :: int) (mk_version [1, 2])
   \<and> get_hash (\<lambda>h n. 31 * h + n) (7 :: int) (mk_version [1]) \<noteq> get_hash (\<lambda>h n. 31 * h + n) 7 (mk_version [1, 0])"
  using get_hash_equal_versions [of "mk_version [1, 2]" "mk_version [1, 2]" "\<lambda>h n. 31 * h + n" "7 :: int" "Extra []"]
  by (simp add: vo.eq_refl)

end
