(* ===== verification/VersionRange.thy ===== *)
theory VersionRange
  imports VersionFormat
begin

text \<open>
  \<open>VersionRange\<close> (version_range.h, version_range.cpp): a range is a vector of
  intervals of versions, each side of an interval open or closed. The theory
  holds the interval operations, the union and intersection of ranges as the
  code computes them in its vector, printing, and what a range contains.
\<close>

section \<open>Interval sides\<close>

text \<open>\<open>detail::RangePair::Side\<close>; \<open>strong\<close> is the field \<open>strong_relation\<close>.\<close>

record side =
  side_v :: version
  strong :: bool

text \<open>The comparisons of two sides, as those of the tuples \<open>std::tie(v, strong_relation)\<close>.\<close>

definition side_eq :: "side \<Rightarrow> side \<Rightarrow> bool" where
  "side_eq a b \<longleftrightarrow> version_eq (side_v a) (side_v b) \<and> strong a = strong b"

definition side_lt :: "side \<Rightarrow> side \<Rightarrow> bool" where
  "side_lt a b \<longleftrightarrow> version_lt (side_v a) (side_v b)
     \<or> (\<not> version_lt (side_v b) (side_v a) \<and> \<not> strong a \<and> strong b)"

definition side_lt_version :: "side \<Rightarrow> version \<Rightarrow> bool" where
  "side_lt_version s w = (if strong s then version_lt (side_v s) w else version_le (side_v s) w)"

definition side_gt_version :: "side \<Rightarrow> version \<Rightarrow> bool" where
  "side_gt_version s w = (if strong s then version_gt (side_v s) w else version_ge (side_v s) w)"

text \<open>\<open>std::max\<close> and \<open>std::min\<close> return the first argument when the two are equivalent.\<close>

definition side_max :: "side \<Rightarrow> side \<Rightarrow> side" where
  "side_max a b = (if side_lt a b then b else a)"

definition side_min :: "side \<Rightarrow> side \<Rightarrow> side" where
  "side_min a b = (if side_lt b a then b else a)"

text \<open>\<open>VersionRangePairStringRepresentationType\<close>.\<close>

datatype repr = SameDefaultLevel | SameRealLevel | IndividualRealLevel

fun side_to_string :: "repr \<Rightarrow> side \<Rightarrow> string" where
  "side_to_string SameDefaultLevel s = to_string_level default_level (side_v s)"
| "side_to_string SameRealLevel s = to_string_level (get_real_level (side_v s)) (side_v s)"
| "side_to_string IndividualRealLevel s = to_string_level (get_real_level (side_v s)) (side_v s)"

section \<open>Intervals\<close>

record range_pair =
  first :: side
  second :: side

definition get_first :: "range_pair \<Rightarrow> version" where
  "get_first p = side_v (first p)"

definition get_second :: "range_pair \<Rightarrow> version" where
  "get_second p = side_v (second p)"

definition pair_of_sides :: "side \<Rightarrow> side \<Rightarrow> range_pair" where
  "pair_of_sides l r = \<lparr>first = l, second = r\<rparr>"

definition pair_to_string_interval :: "range_pair \<Rightarrow> string" where
  "pair_to_string_interval p =
     (if strong (first p) then ''('' else ''['')
     @ side_to_string SameDefaultLevel (first p) @ '', '' @ side_to_string SameDefaultLevel (second p)
     @ (if strong (second p) then '')'' else '']'')"

text \<open>The public constructor checks that the interval contains something.\<close>

definition mk_range_pair :: "version \<Rightarrow> bool \<Rightarrow> version \<Rightarrow> bool \<Rightarrow> range_pair result" where
  "mk_range_pair v1 strong1 v2 strong2 =
     (let p = \<lparr>first = \<lparr>side_v = v1, strong = strong1\<rparr>, second = \<lparr>side_v = v2, strong = strong2\<rparr>\<rparr>
      in if version_gt (get_first p) (get_second p)
         then Inl (Runtime_error (''Left version must be <= than right: '' @ pair_to_string_interval p))
         else if version_eq (get_first p) (get_second p) \<and> (strong1 \<or> strong2)
         then Inl (Runtime_error (''Pair does not contain any versions: '' @ pair_to_string_interval p))
         else Inr p)"

definition pair_contains :: "range_pair \<Rightarrow> version \<Rightarrow> bool" where
  "pair_contains p v \<longleftrightarrow> side_lt_version (first p) v \<and> side_gt_version (second p) v"

definition pair_and :: "range_pair \<Rightarrow> range_pair \<Rightarrow> range_pair option" where
  "pair_and p q =
     (let f = side_max (first p) (first q);
          s = side_min (second p) (second q)
      in if version_lt (side_v f) (side_v s)
            \<or> version_eq (side_v f) (side_v s) \<and> (\<not> strong f \<and> \<not> strong s)
         then Some (pair_of_sides f s) else None)"

definition pair_or :: "range_pair \<Rightarrow> range_pair \<Rightarrow> range_pair option" where
  "pair_or p q =
     (let f = side_max (first p) (first q);
          s = side_min (second p) (second q)
      in if version_lt (side_v f) (side_v s)
            \<or> version_eq (side_v f) (side_v s) \<and> (\<not> strong f \<or> \<not> strong s)
         then Some (pair_of_sides (side_min (first p) (first q)) (side_max (second p) (second q)))
         else None)"

definition pair_eq :: "range_pair \<Rightarrow> range_pair \<Rightarrow> bool" where
  "pair_eq p q \<longleftrightarrow> side_eq (first p) (first q) \<and> side_eq (second p) (second q)"

definition pair_to_version :: "range_pair \<Rightarrow> version option" where
  "pair_to_version p = (if \<not> version_eq (get_first p) (get_second p) then None else Some (get_first p))"

definition pair_hash :: "('h \<Rightarrow> 'h \<Rightarrow> 'h) \<Rightarrow> ('h \<Rightarrow> int \<Rightarrow> 'h) \<Rightarrow> 'h \<Rightarrow> range_pair \<Rightarrow> 'h" where
  "pair_hash combine_hash combine zero p =
     combine_hash (combine_hash zero (get_hash combine zero (get_first p))) (get_hash combine zero (get_second p))"

definition pair_to_string :: "repr \<Rightarrow> range_pair \<Rightarrow> string" where
  "pair_to_string t p =
     (let print_left = version_gt (side_v (first p)) version_min;
          print_right = version_lt (side_v (second p)) version_max
      in if print_left \<and> print_right \<and> \<not> strong (first p) \<and> \<not> strong (second p)
            \<and> version_eq (side_v (first p)) (side_v (second p))
         then ''='' @ side_to_string t (first p)
         else
           let s = (if print_left
                    then ''>'' @ (if \<not> strong (first p) then ''='' else []) @ side_to_string t (first p) else [])
                 @ (if print_left \<and> print_right then '' '' else [])
                 @ (if print_right
                    then ''<'' @ (if \<not> strong (second p) then ''='' else []) @ side_to_string t (second p) else [])
           in if s = [] then ''*'' else s)"

section \<open>Ranges\<close>

type_synonym range = "range_pair list"

definition range_empty :: range where
  "range_empty = []"

definition range_size :: "range \<Rightarrow> nat" where
  "range_size r = length r"

definition range_is_empty :: "range \<Rightarrow> bool" where
  "range_is_empty r \<longleftrightarrow> r = []"

definition range_contains :: "range \<Rightarrow> version \<Rightarrow> bool" where
  "range_contains r v = list_ex (\<lambda>p. pair_contains p v) r"

definition range_eq :: "range \<Rightarrow> range \<Rightarrow> bool" where
  "range_eq r r' = list_all2 pair_eq r r'"

text \<open>
  \<open>VersionRange::operator|=(const RangePair \&)\<close>. \<open>or_search\<close> is the loop while
  \<open>added\<close> is false, \<open>or_merge prev rest\<close> the loop afterwards with \<open>prev\<close> the
  element before the iterator. The search returns the new vector and the final
  value of \<open>added\<close>; the insertion before an element leaves the loop without
  setting it.
\<close>

fun or_merge :: "range_pair \<Rightarrow> range \<Rightarrow> range" where
  "or_merge prev [] = [prev]"
| "or_merge prev (i # is) =
     (if version_lt (get_second prev) (get_first i) then prev # i # is
      else case pair_or prev i of
        Some u \<Rightarrow> or_merge u is
      | None \<Rightarrow> prev # or_merge i is)"

fun or_search :: "range \<Rightarrow> range_pair \<Rightarrow> range \<times> bool" where
  "or_search [] p = ([], False)"
| "or_search (i # is) p =
     (if version_lt (get_second i) (get_first p) then
        (case or_search is p of (r, added) \<Rightarrow> (i # r, added))
      else if version_gt (get_first i) (get_second p) then (p # i # is, False)
      else case pair_or i p of
        Some u \<Rightarrow> (or_merge u is, True)
      | None \<Rightarrow> (i # or_merge p is, True))"

definition range_or_pair :: "range \<Rightarrow> range_pair \<Rightarrow> range" where
  "range_or_pair r p = (case or_search r p of (r', added) \<Rightarrow> if \<not> added then r' @ [p] else r')"

definition range_or :: "range \<Rightarrow> range \<Rightarrow> range" where
  "range_or r r' = foldl range_or_pair r r'"

definition range_and :: "range \<Rightarrow> range \<Rightarrow> range" where
  "range_and r r' =
     foldl (\<lambda>vr p. foldl (\<lambda>vr q. case pair_and p q of Some x \<Rightarrow> range_or_pair vr x | None \<Rightarrow> vr) vr r')
       [] r"

definition range_contains_range :: "range \<Rightarrow> range \<Rightarrow> bool" where
  "range_contains_range r r' = range_eq (range_and r r') r'"

definition range_to_version :: "range \<Rightarrow> version option" where
  "range_to_version r = (if range_size r \<noteq> 1 then None else pair_to_version (hd r))"

definition range_to_string_repr :: "repr \<Rightarrow> range \<Rightarrow> string" where
  "range_to_string_repr t r =
     (let s = concat (map (\<lambda>p. pair_to_string t p @ '' || '') r)
      in if s \<noteq> [] then take (length s - 4) s else s)"

definition range_to_string :: "range \<Rightarrow> string" where
  "range_to_string r = range_to_string_repr SameDefaultLevel r"

definition range_hash :: "('h \<Rightarrow> 'h \<Rightarrow> 'h) \<Rightarrow> ('h \<Rightarrow> int \<Rightarrow> 'h) \<Rightarrow> 'h \<Rightarrow> range \<Rightarrow> 'h" where
  "range_hash combine_hash combine zero r =
     foldl (\<lambda>h p. combine_hash h (pair_hash combine_hash combine zero p)) zero r"

subsection \<open>From strings\<close>

text \<open>
  The generated parser is the parameter \<open>parser\<close>: the error message, or the
  range it leaves in its result storage, if any. \<open>strip\<close> is
  \<open>preprocess_input\<close>.
\<close>

definition range_parse_into :: "(string \<Rightarrow> string + range option) \<Rightarrow> string \<Rightarrow> string + range" where
  "range_parse_into parser s =
     (if length s > 32 * 1024 then Inl ''Range string length must be less than 32K''
      else case parser s of
        Inl e \<Rightarrow> Inl e
      | Inr None \<Rightarrow> Inl ''parser error: empty result''
      | Inr (Some r) \<Rightarrow> Inr r)"

definition range_of_string ::
  "(string \<Rightarrow> string + range option) \<Rightarrow> (string \<Rightarrow> string) \<Rightarrow> string \<Rightarrow> range result" where
  "range_of_string parser strip s =
     (let i = strip s;
          parsed = (\<lambda>t. case range_parse_into parser t of
              Inl e \<Rightarrow> Inl (Runtime_error (''Invalid version range: '' @ t @ '', error: '' @ e))
            | Inr r \<Rightarrow> Inr r)
      in if i = [] then parsed (strip ''*'') else parsed i)"

definition range_of_c_string ::
  "(string \<Rightarrow> string + range option) \<Rightarrow> (string \<Rightarrow> string) \<Rightarrow> string option \<Rightarrow> range result" where
  "range_of_c_string parser strip s =
     (case s of None \<Rightarrow> Inl (Runtime_error ''Empty version range'')
      | Some s \<Rightarrow> range_of_string parser strip s)"

text \<open>
  \<open>VersionRange::parse(const std::string \&)\<close> returns nothing on a parse error,
  but the \<open>"*"\<close> of an empty input goes through the throwing constructor.
\<close>

definition range_parse ::
  "(string \<Rightarrow> string + range option) \<Rightarrow> (string \<Rightarrow> string) \<Rightarrow> string \<Rightarrow> range option result" where
  "range_parse parser strip s =
     (let i = strip s
      in if i = [] then bind_result (range_of_c_string parser strip (Some ''*'')) (\<lambda>r. Inr (Some r))
         else case range_parse_into parser i of Inl e \<Rightarrow> Inr None | Inr r \<Rightarrow> Inr (Some r))"

section \<open>What an interval contains\<close>

lemma side_lt_version_iff:
  "side_lt_version s v \<longleftrightarrow> (if strong s then version_lt (side_v s) v else \<not> version_lt v (side_v s))"
  by (simp add: side_lt_version_def version_order_simps)

lemma side_gt_version_iff:
  "side_gt_version s v \<longleftrightarrow> (if strong s then version_lt v (side_v s) else \<not> version_lt (side_v s) v)"
  by (simp add: side_gt_version_def version_order_simps)

text \<open>The greater of two lower sides is the intersection of what they admit, the smaller the union.\<close>

lemma side_max_lower:
  "side_lt_version (side_max a b) v \<longleftrightarrow> side_lt_version a v \<and> side_lt_version b v"
proof -
  obtain k where "\<And>x y. x \<in> {side_v a, side_v b, v} \<Longrightarrow> y \<in> {side_v a, side_v b, v} \<Longrightarrow> version_lt x y \<longleftrightarrow> k x < (k y :: nat)"
    "\<And>x y. x \<in> {side_v a, side_v b, v} \<Longrightarrow> y \<in> {side_v a, side_v b, v} \<Longrightarrow> version_eq x y \<longleftrightarrow> k x = k y"
    using vo.ranked3 by blast
  then show ?thesis
    by (auto simp: side_max_def side_lt_def side_lt_version_iff)
qed

lemma side_min_lower:
  "side_lt_version (side_min a b) v \<longleftrightarrow> side_lt_version a v \<or> side_lt_version b v"
proof -
  obtain k where "\<And>x y. x \<in> {side_v a, side_v b, v} \<Longrightarrow> y \<in> {side_v a, side_v b, v} \<Longrightarrow> version_lt x y \<longleftrightarrow> k x < (k y :: nat)"
    "\<And>x y. x \<in> {side_v a, side_v b, v} \<Longrightarrow> y \<in> {side_v a, side_v b, v} \<Longrightarrow> version_eq x y \<longleftrightarrow> k x = k y"
    using vo.ranked3 by blast
  then show ?thesis
    by (auto simp: side_min_def side_lt_def side_lt_version_iff)
qed

text \<open>
  The code uses the same order for the upper sides, where it is right only
  between sides of different versions or of the same strength.
\<close>

definition sides_agree :: "side \<Rightarrow> side \<Rightarrow> bool" where
  "sides_agree a b \<longleftrightarrow> (version_eq (side_v a) (side_v b) \<longrightarrow> strong a = strong b)"

lemma side_min_upper:
  assumes "sides_agree a b"
  shows "side_gt_version (side_min a b) v \<longleftrightarrow> side_gt_version a v \<and> side_gt_version b v"
proof -
  obtain k where "\<And>x y. x \<in> {side_v a, side_v b, v} \<Longrightarrow> y \<in> {side_v a, side_v b, v} \<Longrightarrow> version_lt x y \<longleftrightarrow> k x < (k y :: nat)"
    "\<And>x y. x \<in> {side_v a, side_v b, v} \<Longrightarrow> y \<in> {side_v a, side_v b, v} \<Longrightarrow> version_eq x y \<longleftrightarrow> k x = k y"
    using vo.ranked3 by blast
  then show ?thesis
    using assms by (auto simp: side_min_def side_lt_def side_gt_version_iff sides_agree_def)
qed

lemma side_max_upper:
  assumes "sides_agree a b"
  shows "side_gt_version (side_max a b) v \<longleftrightarrow> side_gt_version a v \<or> side_gt_version b v"
proof -
  obtain k where "\<And>x y. x \<in> {side_v a, side_v b, v} \<Longrightarrow> y \<in> {side_v a, side_v b, v} \<Longrightarrow> version_lt x y \<longleftrightarrow> k x < (k y :: nat)"
    "\<And>x y. x \<in> {side_v a, side_v b, v} \<Longrightarrow> y \<in> {side_v a, side_v b, v} \<Longrightarrow> version_eq x y \<longleftrightarrow> k x = k y"
    using vo.ranked3 by blast
  then show ?thesis
    using assms by (auto simp: side_max_def side_lt_def side_gt_version_iff sides_agree_def)
qed

lemma side_min_cases: "side_min a b = a \<or> side_min a b = b"
  by (simp add: side_min_def)

lemma side_max_cases: "side_max a b = a \<or> side_max a b = b"
  by (simp add: side_max_def)

text \<open>Between two sides there is nothing when the lower one is not below the upper one.\<close>

lemma sides_empty:
  assumes "\<not> (version_lt (side_v f) (side_v s) \<or> version_eq (side_v f) (side_v s) \<and> \<not> strong f \<and> \<not> strong s)"
  shows "\<not> (side_lt_version f v \<and> side_gt_version s v)"
proof -
  obtain k where "\<And>x y. x \<in> {side_v f, side_v s, v} \<Longrightarrow> y \<in> {side_v f, side_v s, v} \<Longrightarrow> version_lt x y \<longleftrightarrow> k x < (k y :: nat)"
    "\<And>x y. x \<in> {side_v f, side_v s, v} \<Longrightarrow> y \<in> {side_v f, side_v s, v} \<Longrightarrow> version_eq x y \<longleftrightarrow> k x = k y"
    using vo.ranked3 by blast
  then show ?thesis
    using assms by (auto simp: side_lt_version_iff side_gt_version_iff)
qed

lemma sides_cover:
  assumes "version_lt (side_v f) (side_v s) \<or> version_eq (side_v f) (side_v s) \<and> (\<not> strong f \<or> \<not> strong s)"
  shows "side_lt_version f v \<or> side_gt_version s v"
proof -
  obtain k where "\<And>x y. x \<in> {side_v f, side_v s, v} \<Longrightarrow> y \<in> {side_v f, side_v s, v} \<Longrightarrow> version_lt x y \<longleftrightarrow> k x < (k y :: nat)"
    "\<And>x y. x \<in> {side_v f, side_v s, v} \<Longrightarrow> y \<in> {side_v f, side_v s, v} \<Longrightarrow> version_eq x y \<longleftrightarrow> k x = k y"
    using vo.ranked3 by blast
  then show ?thesis
    using assms by (auto simp: side_lt_version_iff side_gt_version_iff)
qed

definition option_contains :: "range_pair option \<Rightarrow> version \<Rightarrow> bool" where
  "option_contains o1 v = (case o1 of Some p \<Rightarrow> pair_contains p v | None \<Rightarrow> False)"

lemma pair_and_contains:
  assumes "sides_agree (second p) (second q)"
  shows "option_contains (pair_and p q) v \<longleftrightarrow> pair_contains p v \<and> pair_contains q v"
proof -
  have both: "side_lt_version (side_max (first p) (first q)) v \<and> side_gt_version (side_min (second p) (second q)) v
      \<longleftrightarrow> pair_contains p v \<and> pair_contains q v"
    using side_max_lower side_min_upper [OF assms] by (auto simp: pair_contains_def)
  show ?thesis
  proof (cases "pair_and p q")
    case None
    then have "\<not> (side_lt_version (side_max (first p) (first q)) v
        \<and> side_gt_version (side_min (second p) (second q)) v)"
      by (intro sides_empty) (auto simp: pair_and_def Let_def split: if_splits)
    with None both show ?thesis by (simp add: option_contains_def)
  next
    case (Some r)
    with both show ?thesis
      by (auto simp: option_contains_def pair_and_def Let_def pair_of_sides_def pair_contains_def split: if_splits)
  qed
qed

lemma pair_or_contains:
  assumes "sides_agree (second p) (second q)" "pair_or p q = Some u"
  shows "pair_contains u v \<longleftrightarrow> pair_contains p v \<or> pair_contains q v"
proof -
  let ?f = "side_max (first p) (first q)" and ?s = "side_min (second p) (second q)"
  have cover: "side_lt_version ?f v \<or> side_gt_version ?s v"
    using assms(2) by (intro sides_cover) (auto simp: pair_or_def Let_def split: if_splits)
  have "pair_contains u v \<longleftrightarrow> side_lt_version (side_min (first p) (first q)) v
      \<and> side_gt_version (side_max (second p) (second q)) v"
    using assms(2) by (auto simp: pair_or_def Let_def pair_of_sides_def pair_contains_def split: if_splits)
  with cover show ?thesis
    unfolding pair_contains_def side_min_lower side_max_lower side_min_upper [OF assms(1)]
      side_max_upper [OF assms(1)]
    by blast
qed

section \<open>What union and intersection contain\<close>

text \<open>
  The upper sides of the intervals at hand agree when no two of them close the
  same version differently; ranges built from caret, tilde, hyphen and plain
  versions only have open upper sides.
\<close>

definition uppers :: "range \<Rightarrow> side set" where
  "uppers r = second ` set r"

definition uppers_agree :: "side set \<Rightarrow> bool" where
  "uppers_agree S \<longleftrightarrow> (\<forall>a\<in>S. \<forall>b\<in>S. sides_agree a b)"

lemma uppers_simps [simp]:
  "uppers [] = {}" "uppers (p # r) = insert (second p) (uppers r)" "uppers (r @ r') = uppers r \<union> uppers r'"
  by (auto simp: uppers_def)

lemma uppers_agree_mono: "uppers_agree S \<Longrightarrow> T \<subseteq> S \<Longrightarrow> uppers_agree T"
  by (auto simp: uppers_agree_def)

lemma uppers_agreeD: "uppers_agree S \<Longrightarrow> a \<in> S \<Longrightarrow> b \<in> S \<Longrightarrow> sides_agree a b"
  by (simp add: uppers_agree_def)

lemma range_contains_simps [simp]:
  "range_contains [] v = False"
  "range_contains (p # r) v \<longleftrightarrow> pair_contains p v \<or> range_contains r v"
  "range_contains (r @ r') v \<longleftrightarrow> range_contains r v \<or> range_contains r' v"
  by (simp_all add: range_contains_def)

lemma pair_or_upper: "pair_or p q = Some u \<Longrightarrow> second u = second p \<or> second u = second q"
  using side_max_cases [of "second p" "second q"] by (auto simp: pair_or_def Let_def pair_of_sides_def split: if_splits)

lemma pair_and_upper: "pair_and p q = Some u \<Longrightarrow> second u = second p \<or> second u = second q"
  using side_min_cases [of "second p" "second q"] by (auto simp: pair_and_def Let_def pair_of_sides_def split: if_splits)

lemma or_merge_upper: "uppers (or_merge p is) \<subseteq> insert (second p) (uppers is)"
proof (induction p "is" rule: or_merge.induct)
  case (2 prev i "is")
  show ?case
  proof (cases "pair_or prev i")
    case None
    with 2 show ?thesis by auto
  next
    case (Some u)
    with 2 pair_or_upper [OF Some] show ?thesis by auto
  qed
qed simp

lemma or_merge_contains:
  "uppers_agree (insert (second p) (uppers is)) \<Longrightarrow>
     range_contains (or_merge p is) v \<longleftrightarrow> pair_contains p v \<or> range_contains is v"
proof (induction p "is" rule: or_merge.induct)
  case (2 prev i "is")
  show ?case
  proof (cases "pair_or prev i")
    case None
    moreover have "uppers_agree (insert (second i) (uppers is))"
      by (rule uppers_agree_mono [OF "2.prems"]) auto
    ultimately show ?thesis
      using 2 by auto
  next
    case (Some u)
    then have "uppers_agree (insert (second u) (uppers is))"
      using pair_or_upper [OF Some] by (intro uppers_agree_mono [OF "2.prems"]) auto
    moreover have "sides_agree (second prev) (second i)"
      by (rule uppers_agreeD [OF "2.prems"]) auto
    ultimately show ?thesis
      using 2 Some pair_or_contains [OF _ Some] by auto
  qed
qed simp

lemma or_search_upper: "uppers (fst (or_search r p)) \<subseteq> insert (second p) (uppers r)"
proof (induction r)
  case (Cons i r)
  show ?case
  proof (cases "pair_or i p")
    case None
    with Cons or_merge_upper [of p r] show ?thesis by (auto split: prod.splits)
  next
    case (Some u)
    with Cons or_merge_upper [of u r] pair_or_upper [OF Some] show ?thesis
      by (auto split: prod.splits)
  qed
qed simp

lemma or_search_contains:
  "uppers_agree (insert (second p) (uppers r)) \<Longrightarrow>
     (range_contains (fst (or_search r p)) v \<or> pair_contains p v \<longleftrightarrow> range_contains r v \<or> pair_contains p v)
     \<and> (snd (or_search r p) \<longrightarrow> pair_contains p v \<longrightarrow> range_contains (fst (or_search r p)) v)"
proof (induction r)
  case (Cons i r)
  have tail: "uppers_agree (insert (second p) (uppers r))"
    by (rule uppers_agree_mono [OF Cons.prems]) auto
  show ?case
  proof (cases "pair_or i p")
    case None
    then show ?thesis
      using Cons.IH [OF tail] or_merge_contains [OF tail, of v]
      by (cases "or_search r p") (simp split: if_split; blast)
  next
    case (Some u)
    then have "uppers_agree (insert (second u) (uppers r))"
      using pair_or_upper [OF Some] by (intro uppers_agree_mono [OF Cons.prems]) auto
    then have "range_contains (or_merge u r) v \<longleftrightarrow> pair_contains u v \<or> range_contains r v"
      by (rule or_merge_contains)
    moreover have "sides_agree (second i) (second p)"
      by (rule uppers_agreeD [OF Cons.prems]) auto
    then have "pair_contains u v \<longleftrightarrow> pair_contains i v \<or> pair_contains p v"
      using Some by (rule pair_or_contains)
    ultimately show ?thesis
      using Some Cons.IH [OF tail]
      by (cases "or_search r p") (simp split: if_split; blast)
  qed
qed simp

lemma range_or_pair_contains:
  assumes "uppers_agree (insert (second p) (uppers r))"
  shows "range_contains (range_or_pair r p) v \<longleftrightarrow> range_contains r v \<or> pair_contains p v"
  using or_search_contains [OF assms, of v]
  by (auto simp: range_or_pair_def split: prod.splits)

lemma range_or_pair_upper: "uppers (range_or_pair r p) \<subseteq> insert (second p) (uppers r)"
  using or_search_upper [of r p] by (auto simp: range_or_pair_def split: prod.splits)

text \<open>
  C4: The union of two ranges contains exactly the versions that one of the ranges
  contains, whatever the order and overlaps of their intervals, as long as the upper
  sides agree.
\<close>

theorem range_or_contains:
  "uppers_agree (uppers r \<union> uppers r') \<Longrightarrow>
     range_contains (range_or r r') v \<longleftrightarrow> range_contains r v \<or> range_contains r' v"
  unfolding range_or_def
proof (induction r' arbitrary: r)
  case (Cons p r')
  have "uppers_agree (insert (second p) (uppers r))"
    by (rule uppers_agree_mono [OF Cons.prems]) auto
  moreover have "uppers_agree (uppers (range_or_pair r p) \<union> uppers r')"
    using range_or_pair_upper [of r p] by (intro uppers_agree_mono [OF Cons.prems]) auto
  ultimately show ?case
    using Cons.IH range_or_pair_contains by auto
qed simp

text \<open>Concrete intervals for the witnesses.\<close>

definition interval :: "int list \<Rightarrow> bool \<Rightarrow> int list \<Rightarrow> bool \<Rightarrow> range_pair" where
  "interval a sa b sb = \<lparr>first = \<lparr>side_v = mk_version a, strong = sa\<rparr>,
                         second = \<lparr>side_v = mk_version b, strong = sb\<rparr>\<rparr>"

lemma sides_agree_code: "list_all (\<lambda>a. list_all (\<lambda>b. version_eq (side_v a) (side_v b) \<longrightarrow> strong a = strong b) S) S
    \<Longrightarrow> uppers_agree (set S)"
  by (simp add: uppers_agree_def sides_agree_def list_all_iff)

lemma range_or_contains_witness:
  "range_contains (range_or [interval [1] False [2] True] [interval [1,5] True [3] True]) (mk_version [2])"
proof -
  have "uppers_agree (set [second (interval [1] False [2] True), second (interval [1,5] True [3] True)])"
    by (rule sides_agree_code) code_simp
  then have agree: "uppers_agree (uppers [interval [1] False [2] True] \<union> uppers [interval [1,5] True [3] True])"
    by (simp add: insert_commute)
  have "range_contains [interval [1,5] True [3] True] (mk_version [2])"
    by code_simp
  then show ?thesis
    using range_or_contains [OF agree, of "mk_version [2]"] by blast
qed

lemma range_and_row:
  "uppers_agree (insert (second p) (uppers vr \<union> uppers r')) \<Longrightarrow>
     (let vr' = foldl (\<lambda>vr q. case pair_and p q of Some x \<Rightarrow> range_or_pair vr x | None \<Rightarrow> vr) vr r'
      in (range_contains vr' v \<longleftrightarrow> range_contains vr v \<or> pair_contains p v \<and> range_contains r' v)
         \<and> uppers vr' \<subseteq> insert (second p) (uppers vr \<union> uppers r'))"
proof (induction r' arbitrary: vr)
  case (Cons q r')
  define vr1 where "vr1 = (case pair_and p q of Some x \<Rightarrow> range_or_pair vr x | None \<Rightarrow> vr)"
  have pq: "sides_agree (second p) (second q)"
    by (rule uppers_agreeD [OF Cons.prems]) auto
  have up: "uppers vr1 \<subseteq> insert (second p) (insert (second q) (uppers vr))"
    unfolding vr1_def
    using pair_and_upper [of p q] range_or_pair_upper [of vr "the (pair_and p q)"]
    by (cases "pair_and p q") auto
  have vr1: "range_contains vr1 v \<longleftrightarrow> range_contains vr v \<or> pair_contains p v \<and> pair_contains q v"
  proof (cases "pair_and p q")
    case (Some x)
    then have "uppers_agree (insert (second x) (uppers vr))"
      using pair_and_upper [OF Some] by (intro uppers_agree_mono [OF Cons.prems]) auto
    from range_or_pair_contains [OF this] show ?thesis
      using pair_and_contains [OF pq, of v] Some by (simp add: vr1_def option_contains_def)
  qed (use pair_and_contains [OF pq, of v] in \<open>auto simp: vr1_def option_contains_def\<close>)
  have "uppers_agree (insert (second p) (uppers vr1 \<union> uppers r'))"
    using up by (intro uppers_agree_mono [OF Cons.prems]) auto
  from Cons.IH [OF this] vr1 up show ?case
    by (auto simp: Let_def vr1_def [symmetric])
qed auto

text \<open>
  C5: The intersection of two ranges contains exactly the versions that both ranges
  contain, as long as the upper sides agree.
\<close>

theorem range_and_contains:
  assumes "uppers_agree (uppers r \<union> uppers r')"
  shows "range_contains (range_and r r') v \<longleftrightarrow> range_contains r v \<and> range_contains r' v"
proof -
  let ?row = "\<lambda>vr p. foldl (\<lambda>vr q. case pair_and p q of Some x \<Rightarrow> range_or_pair vr x | None \<Rightarrow> vr) vr r'"
  have "range_contains (foldl ?row vr r) v
      \<longleftrightarrow> range_contains vr v \<or> range_contains r v \<and> range_contains r' v"
    if "uppers_agree (uppers vr \<union> uppers r \<union> uppers r')" for vr
    using that
  proof (induction r arbitrary: vr)
    case (Cons p r)
    have "uppers_agree (insert (second p) (uppers vr \<union> uppers r'))"
      by (rule uppers_agree_mono [OF Cons.prems]) auto
    note row = range_and_row [OF this, of v, unfolded Let_def]
    then have "uppers_agree (uppers (?row vr p) \<union> uppers r \<union> uppers r')"
      by (intro uppers_agree_mono [OF Cons.prems]) auto
    from Cons.IH [OF this] row show ?case by auto
  qed simp
  from this [of "[]"] assms show ?thesis
    by (simp add: range_and_def)
qed

lemma range_and_contains_witness:
  "range_contains (range_and [interval [1] False [2] True] [interval [1,5] True [3] True]) (mk_version [1,6])
   \<and> \<not> range_contains (range_and [interval [1] False [2] True] [interval [1,5] True [3] True]) (mk_version [2])"
proof -
  have "uppers_agree (set [second (interval [1] False [2] True), second (interval [1,5] True [3] True)])"
    by (rule sides_agree_code) code_simp
  then have agree: "uppers_agree (uppers [interval [1] False [2] True] \<union> uppers [interval [1,5] True [3] True])"
    by (simp add: insert_commute)
  have "range_contains [interval [1,5] True [3] True] (mk_version [1,6])"
    "range_contains [interval [1] False [2] True] (mk_version [1,6])"
    "\<not> range_contains [interval [1] False [2] True] (mk_version [2])"
    by code_simp+
  then show ?thesis
    using range_and_contains [OF agree, of "mk_version [1,6]"] range_and_contains [OF agree, of "mk_version [2]"]
    by blast
qed

text \<open>
  An intersection or union of two intervals with the same lower side that end at
  the same version, one including it and one not, keeps the wrong end: the
  intersection includes that version and the union does not, in either order.
\<close>

theorem pair_mixed_ends:
  fixes lo :: side and hi :: version
  defines "p \<equiv> \<lparr>first = lo, second = \<lparr>side_v = hi, strong = False\<rparr>\<rparr>"
    and "q \<equiv> \<lparr>first = lo, second = \<lparr>side_v = hi, strong = True\<rparr>\<rparr>"
  assumes "version_lt (side_v lo) hi"
  shows "pair_and p q = Some p \<and> pair_and q p = Some p \<and> pair_or p q = Some q \<and> pair_or q p = Some q
    \<and> pair_contains p hi \<and> \<not> pair_contains q hi"
  using assms(3) vo.lt_irrefl vo.lt_asym [OF assms(3)]
  by (simp add: p_def q_def pair_and_def pair_or_def Let_def pair_of_sides_def side_max_def side_min_def
      side_lt_def pair_contains_def side_lt_version_iff side_gt_version_iff)

lemma pair_mixed_ends_witness:
  "pair_and (interval [1] False [2] True) (interval [1] False [2] False) = Some (interval [1] False [2] False)"
proof -
  have "version_lt (mk_version [1]) (mk_version [2])"
    by code_simp
  then show ?thesis
    using pair_mixed_ends [of "\<lparr>side_v = mk_version [1], strong = False\<rparr>" "mk_version [2]"]
    by (simp add: interval_def)
qed

section \<open>The order of the intervals in the vector\<close>

text \<open>
  The header calls the vector "always sorted with less". \<open>separated\<close> is that
  order: every interval ends before the next ones begin.
\<close>

definition pair_below :: "range_pair \<Rightarrow> range_pair \<Rightarrow> bool" where
  "pair_below p q \<longleftrightarrow> version_lt (get_second p) (get_first q)"

definition separated :: "range \<Rightarrow> bool" where
  "separated r = sorted_wrt pair_below r"

text \<open>The interval is one the public constructor accepts.\<close>

definition pair_ok :: "range_pair \<Rightarrow> bool" where
  "pair_ok p \<longleftrightarrow> version_lt (get_first p) (get_second p)
     \<or> version_eq (get_first p) (get_second p) \<and> \<not> strong (first p) \<and> \<not> strong (second p)"

lemma mk_range_pair_ok:
  "mk_range_pair a sa b sb = Inr p \<longleftrightarrow>
     p = \<lparr>first = \<lparr>side_v = a, strong = sa\<rparr>, second = \<lparr>side_v = b, strong = sb\<rparr>\<rparr> \<and> pair_ok p"
  using vo.trichotomy [of a b] vo.lt_asym [of a b] vo.lt_not_eq [of b a] vo.lt_not_eq [of a b] vo.eq_sym [of a b]
  by (auto simp: mk_range_pair_def Let_def pair_ok_def get_first_def get_second_def version_order_simps)

lemma pair_ok_ordered: "pair_ok p \<Longrightarrow> \<not> version_lt (get_second p) (get_first p)"
  using vo.lt_asym [of "get_first p" "get_second p"] vo.lt_not_eq [of "get_second p" "get_first p"]
    vo.eq_sym [of "get_first p" "get_second p"]
  by (auto simp: pair_ok_def)

text \<open>Two intervals meet when neither is below the other and they do not just touch with open sides.\<close>

definition pair_meets :: "range_pair \<Rightarrow> range_pair \<Rightarrow> bool" where
  "pair_meets p q \<longleftrightarrow> (\<exists>u. pair_or p q = Some u)"

lemma or_search_gap:
  assumes "list_all (\<lambda>i. pair_below i p) before" "pair_below p i"
    "\<not> pair_below i p"
  shows "or_search (before @ i # after) p = (before @ p # i # after, False)"
  using assms(1)
proof (induction before)
  case Nil
  with assms(2,3) show ?case
    by (simp add: pair_below_def version_order_simps)
qed (simp add: pair_below_def)

text \<open>
  Adding an interval that lies below some interval of the range and meets none,
  with the range in order, puts it into the vector twice, once at its place and once at
  the end, so that the vector is in order no more.
\<close>

theorem range_or_pair_gap:
  assumes "separated (before @ i # after)" "pair_ok i" "pair_ok p"
    "list_all (\<lambda>j. pair_below j p) before" "pair_below p i"
  shows "range_or_pair (before @ i # after) p = before @ p # i # after @ [p]
    \<and> range_size (range_or_pair (before @ i # after) p) = range_size (before @ i # after) + 2
    \<and> \<not> separated (range_or_pair (before @ i # after) p)"
proof -
  have ord: "\<not> version_lt (get_second p) (get_first p)" "\<not> version_lt (get_second i) (get_first i)"
    using assms(2,3) pair_ok_ordered by simp_all
  then have "\<not> pair_below i p"
    using assms(5) vo.le_lt_trans [OF ord(1)] vo.lt_le_trans [of _ _ "get_second i"] vo.lt_asym ord(2)
    unfolding pair_below_def by blast
  then have eq: "range_or_pair (before @ i # after) p = before @ p # i # after @ [p]"
    using or_search_gap [OF assms(4,5)] by (simp add: range_or_pair_def)
  moreover have "\<not> separated (before @ p # i # after @ [p])"
    using ord(1) by (auto simp: separated_def sorted_wrt_append pair_below_def)
  ultimately show ?thesis
    by (simp add: range_size_def)
qed

lemma range_or_pair_gap_witness:
  "range_or_pair [interval [3] True [4] True] (interval [0] True [1] True)
     = [interval [0] True [1] True, interval [3] True [4] True, interval [0] True [1] True]"
proof -
  have "separated ([] @ interval [3] True [4] True # [])" "pair_ok (interval [3] True [4] True)"
    "pair_ok (interval [0] True [1] True)" "list_all (\<lambda>j. pair_below j (interval [0] True [1] True)) []"
    "pair_below (interval [0] True [1] True) (interval [3] True [4] True)"
    by code_simp+
  from range_or_pair_gap [OF this] show ?thesis by simp
qed

lemma pair_below_trans: "pair_below p q \<Longrightarrow> pair_ok q \<Longrightarrow> pair_below q r \<Longrightarrow> pair_below p r"
  unfolding pair_below_def
  using pair_ok_ordered [of q] vo.lt_le_trans [of "get_second p" "get_first q" "get_second q"]
    vo.lt_trans [of "get_second p" "get_second q" "get_first r"] by blast

lemma pair_meets_iff:
  "pair_meets p q \<longleftrightarrow>
     (let f = side_max (first p) (first q); s = side_min (second p) (second q)
      in version_lt (side_v f) (side_v s) \<or> version_eq (side_v f) (side_v s) \<and> (\<not> strong f \<or> \<not> strong s))"
  by (simp add: pair_meets_def pair_or_def Let_def)

text \<open>
  Sides have ranks as well: twice the rank of the version, and one more for a
  strong side. Facts about a few intervals become arithmetic on the ranks.
\<close>

definition rank_rel :: "(side \<Rightarrow> nat) \<Rightarrow> side \<Rightarrow> side \<Rightarrow> bool" where
  "rank_rel k a b \<longleftrightarrow> (side_lt a b \<longleftrightarrow> k a < k b)
     \<and> (version_lt (side_v a) (side_v b) \<longleftrightarrow> k a div 2 < k b div 2)
     \<and> (version_eq (side_v a) (side_v b) \<longleftrightarrow> k a div 2 = k b div 2)
     \<and> (strong a \<longleftrightarrow> odd (k a)) \<and> (strong b \<longleftrightarrow> odd (k b))"

lemma sides_ranked:
  assumes "finite S"
  shows "\<exists>k. \<forall>a\<in>S. \<forall>b\<in>S. rank_rel k a b"
proof -
  have "finite (side_v ` S)" using assms by simp
  then obtain h :: "version \<Rightarrow> nat" where
    h: "\<forall>x\<in>side_v ` S. \<forall>y\<in>side_v ` S. (version_lt x y \<longleftrightarrow> h x < h y) \<and> (version_eq x y \<longleftrightarrow> h x = h y)"
    using vo.ranked by blast
  define k where "k a = 2 * h (side_v a) + (if strong a then 1 else 0)" for a :: side
  have "rank_rel k a b" if "a \<in> S" "b \<in> S" for a b
  proof -
    have "version_lt (side_v a) (side_v b) \<longleftrightarrow> h (side_v a) < h (side_v b)"
      "version_lt (side_v b) (side_v a) \<longleftrightarrow> h (side_v b) < h (side_v a)"
      "version_eq (side_v a) (side_v b) \<longleftrightarrow> h (side_v a) = h (side_v b)"
      using h that by blast+
    then show ?thesis
      by (auto simp: rank_rel_def side_lt_def k_def)
  qed
  then show ?thesis by blast
qed

definition rank_meets :: "nat \<Rightarrow> nat \<Rightarrow> bool" where
  "rank_meets f s \<longleftrightarrow> f div 2 < s div 2 \<or> f div 2 = s div 2 \<and> (even f \<or> even s)"

definition rank_ok :: "nat \<Rightarrow> nat \<Rightarrow> bool" where
  "rank_ok f s \<longleftrightarrow> f div 2 < s div 2 \<or> f div 2 = s div 2 \<and> even f \<and> even s"

definition pair_ranks :: "(side \<Rightarrow> nat) \<Rightarrow> range_pair \<Rightarrow> range_pair \<Rightarrow> bool" where
  "pair_ranks k p q \<longleftrightarrow>
     (pair_below p q \<longleftrightarrow> k (second p) div 2 < k (first q) div 2)
     \<and> (pair_meets p q \<longleftrightarrow> rank_meets (max (k (first p)) (k (first q))) (min (k (second p)) (k (second q))))
     \<and> (pair_ok p \<longleftrightarrow> rank_ok (k (first p)) (k (second p)))
     \<and> (\<forall>u. pair_or p q = Some u \<longrightarrow>
          k (first u) = min (k (first p)) (k (first q)) \<and> k (second u) = max (k (second p)) (k (second q)))"

lemma rank_side_max: "rank_rel k a b \<Longrightarrow> k (side_max a b) = max (k a) (k b)"
  by (auto simp: rank_rel_def side_max_def max_def)

lemma rank_side_min: "rank_rel k b a \<Longrightarrow> k (side_min a b) = min (k a) (k b)"
  by (auto simp: rank_rel_def side_min_def min_def)

lemma pairs_ranked:
  assumes "finite P"
  shows "\<exists>k. \<forall>p\<in>P. \<forall>q\<in>P. pair_ranks k p q"
proof -
  let ?S = "first ` P \<union> second ` P"
  have "finite ?S" using assms by simp
  then obtain k where k: "\<And>a b. a \<in> ?S \<Longrightarrow> b \<in> ?S \<Longrightarrow> rank_rel k a b"
    using sides_ranked [of ?S] by blast
  have "pair_ranks k p q" if "p \<in> P" "q \<in> P" for p q
  proof -
    have mem: "first p \<in> ?S" "first q \<in> ?S" "second p \<in> ?S" "second q \<in> ?S"
      using that by auto
    let ?f = "side_max (first p) (first q)" and ?s = "side_min (second p) (second q)"
    have "?f \<in> ?S" "?s \<in> ?S"
      using mem side_max_cases [of "first p" "first q"] side_min_cases [of "second p" "second q"] by metis+
    from k [OF this] have "pair_meets p q \<longleftrightarrow> rank_meets (k ?f) (k ?s)"
      by (auto simp: pair_meets_iff rank_meets_def rank_rel_def Let_def)
    moreover have "pair_below p q \<longleftrightarrow> k (second p) div 2 < k (first q) div 2"
      using k [OF mem(3,2)] by (simp add: pair_below_def get_first_def get_second_def rank_rel_def)
    moreover have "pair_ok p \<longleftrightarrow> rank_ok (k (first p)) (k (second p))"
      using k [OF mem(1,3)] by (simp add: pair_ok_def get_first_def get_second_def rank_rel_def rank_ok_def)
    moreover note rank_side_max [OF k [OF mem(1,2)]] rank_side_min [OF k [OF mem(4,3)]]
      rank_side_max [OF k [OF mem(3,4)]] rank_side_min [OF k [OF mem(2,1)]]
    ultimately show ?thesis
      by (auto simp: pair_ranks_def pair_or_def Let_def pair_of_sides_def split: if_splits)
  qed
  then show ?thesis by blast
qed

lemma pair_meets_sym:
  assumes "pair_meets p q" shows "pair_meets q p"
proof -
  obtain k where "pair_ranks k p q" "pair_ranks k q p"
    using pairs_ranked [of "{p, q}"] by auto
  with assms show ?thesis
    by (simp add: pair_ranks_def max.commute min.commute)
qed

lemma rank_meets_antimono:
  assumes "rank_meets f s" "f' \<le> f" shows "rank_meets f' s"
proof -
  have "f' = f" if "even f" "f' div 2 = f div 2"
    using that assms(2) by (auto elim!: evenE)
  moreover have "f' div 2 \<le> f div 2"
    using assms(2) by (rule div_le_mono)
  ultimately show ?thesis
    using assms(1) unfolding rank_meets_def by (metis le_less_trans nat_less_le)
qed

lemma below_not_meets:
  assumes "pair_below p q" shows "\<not> pair_meets p q"
proof -
  obtain k where k: "pair_ranks k p q"
    using pairs_ranked [of "{p, q}"] by auto
  have "\<not> rank_meets m n" if "b div 2 < c div 2" "c \<le> m" "n \<le> b" for b c m n
    using that div_le_mono [of c m 2] div_le_mono [of n b 2] by (simp add: rank_meets_def)
  from this [of "k (second p)" "k (first q)" "max (k (first p)) (k (first q))" "min (k (second p)) (k (second q))"]
  show ?thesis
    using k assms by (simp add: pair_ranks_def)
qed

text \<open>The step of the merging loop: what the merged interval meets.\<close>

lemma pair_or_step:
  assumes "pair_or p q = Some u \<or> pair_or q p = Some u" "pair_below q r" "pair_below p r \<or> pair_meets p r"
  shows "pair_below u r \<or> pair_meets u r"
proof -
  obtain k where k: "pair_ranks k p q" "pair_ranks k q p" "pair_ranks k q r" "pair_ranks k p r" "pair_ranks k u r"
    using pairs_ranked [of "{p, q, r, u}"] by auto
  have u: "k (first u) = min (k (first p)) (k (first q)) \<and> k (second u) = max (k (second p)) (k (second q))"
    using assms(1)
  proof
    assume "pair_or p q = Some u"
    with k(1) show ?thesis by (simp add: pair_ranks_def)
  next
    assume "pair_or q p = Some u"
    with k(2) show ?thesis by (simp add: pair_ranks_def max.commute min.commute)
  qed
  have below: "pair_below p r \<longleftrightarrow> k (second p) div 2 < k (first r) div 2"
    "k (second q) div 2 < k (first r) div 2" "pair_below u r \<longleftrightarrow> k (second u) div 2 < k (first r) div 2"
    using k assms(2) by (simp_all add: pair_ranks_def)
  show ?thesis
  proof (cases "pair_below p r")
    case True
    with below u show ?thesis by (simp add: max_def)
  next
    case False
    with assms(3) have "rank_meets (max (k (first p)) (k (first r))) (min (k (second p)) (k (second r)))"
      using k(4) by (simp add: pair_ranks_def)
    then have "rank_meets (max (k (first u)) (k (first r))) (min (k (second p)) (k (second r)))"
      by (rule rank_meets_antimono) (simp add: u max_def)
    moreover have "\<not> k (second p) \<le> k (second q)"
      using False below div_le_mono [of "k (second p)" "k (second q)" 2] by linarith
    ultimately show ?thesis
      using k(5) u by (simp add: pair_ranks_def max_def)
  qed
qed

lemma pair_or_first: "pair_or p q = Some u \<Longrightarrow> first u = first p \<or> first u = first q"
  using side_min_cases [of "first p" "first q"]
  by (auto simp: pair_or_def Let_def pair_of_sides_def split: if_splits)

lemma pair_or_ok:
  assumes "pair_or p q = Some u" "pair_ok p" "pair_ok q"
  shows "pair_ok u"
proof -
  obtain k where k: "pair_ranks k p q" "pair_ranks k q q" "pair_ranks k u u"
    using pairs_ranked [of "{p, q, u}"] by auto
  have u: "k (first u) = min (k (first p)) (k (first q))" "k (second u) = max (k (second p)) (k (second q))"
    using k(1) assms(1) by (simp_all add: pair_ranks_def)
  have ok: "rank_ok (k (first p)) (k (second p))" "rank_ok (k (first q)) (k (second q))"
    using k assms(2,3) by (simp_all add: pair_ranks_def)
  have div: "k (first u) div 2 \<le> k (first p) div 2" "k (first u) div 2 \<le> k (first q) div 2"
    "k (second p) div 2 \<le> k (second u) div 2" "k (second q) div 2 \<le> k (second u) div 2"
    unfolding u by (rule div_le_mono; simp)+
  have "rank_ok (k (first u)) (k (second u))"
  proof (cases "k (first u) div 2 < k (second u) div 2")
    case False
    with div ok have "even (k (first p))" "even (k (second p))" "even (k (first q))" "even (k (second q))"
      "k (first u) div 2 = k (second u) div 2"
      unfolding rank_ok_def by linarith+
    with u show ?thesis
      by (auto simp: rank_ok_def min_def max_def)
  qed (simp add: rank_ok_def)
  with k(3) show ?thesis by (simp add: pair_ranks_def)
qed

lemma or_merge_above:
  "pair_below z p \<Longrightarrow> list_all (pair_below z) is \<Longrightarrow> list_all (pair_below z) (or_merge p is)"
proof (induction p "is" rule: or_merge.induct)
  case (2 prev i "is")
  show ?case
  proof (cases "pair_or prev i")
    case (Some u)
    then have "pair_below z u"
      using pair_or_first [OF Some] 2 by (auto simp: pair_below_def get_first_def)
    with Some 2 show ?thesis by simp
  qed (use 2 in simp)
qed simp

lemma or_merge_separated:
  assumes "separated is" "list_all pair_ok is" "pair_ok p"
    "list_all (\<lambda>i. pair_below p i \<or> pair_meets p i) is"
  shows "separated (or_merge p is) \<and> list_all pair_ok (or_merge p is)"
  using assms
proof (induction p "is" rule: or_merge.induct)
  case (2 prev i "is")
  show ?case
  proof (cases "pair_below prev i")
    case True
    with 2 show ?thesis
      using pair_below_trans [OF True]
      by (auto simp: separated_def pair_below_def [symmetric] list_all_iff)
  next
    case False
    with 2 obtain u where u: "pair_or prev i = Some u"
      by (auto simp: pair_meets_def)
    have "list_all (\<lambda>j. pair_below u j \<or> pair_meets u j) is"
      using 2 u pair_or_step [of prev i u] by (auto simp: list_all_iff separated_def)
    moreover have "pair_ok u"
      using pair_or_ok [OF u] 2 by simp
    ultimately show ?thesis
      using 2 False u by (simp add: pair_below_def separated_def)
  qed
qed (simp add: separated_def)

lemma or_search_above:
  "pair_below z p \<Longrightarrow> list_all (pair_below z) r \<Longrightarrow> list_all (pair_below z) (fst (or_search r p))"
proof (induction r)
  case (Cons i r)
  show ?case
  proof (cases "pair_or i p")
    case None
    then show ?thesis
      using Cons or_merge_above [of z p r] by (cases "or_search r p") auto
  next
    case (Some u)
    then have "pair_below z u"
      using pair_or_first [OF Some] Cons.prems by (auto simp: pair_below_def get_first_def)
    then show ?thesis
      using Some Cons or_merge_above [of z u r] by (cases "or_search r p") auto
  qed
qed simp

lemma or_search_all_below: "list_all (\<lambda>i. pair_below i p) r \<Longrightarrow> or_search r p = (r, False)"
  by (induction r) (auto simp: pair_below_def)

lemma or_search_separated:
  assumes "separated r" "list_all pair_ok r" "pair_ok p"
    "list_all (\<lambda>i. pair_below i p \<or> pair_below p i \<or> pair_meets i p) r"
    "list_ex (\<lambda>i. pair_meets i p) r"
  shows "snd (or_search r p) \<and> separated (fst (or_search r p)) \<and> list_all pair_ok (fst (or_search r p))"
  using assms
proof (induction r)
  case (Cons i r)
  show ?case
  proof (cases "pair_below i p")
    case True
    then have "list_ex (\<lambda>i. pair_meets i p) r"
      using Cons.prems(5) below_not_meets by auto
    then have "snd (or_search r p) \<and> separated (fst (or_search r p)) \<and> list_all pair_ok (fst (or_search r p))"
      using Cons by (simp add: separated_def)
    moreover have "list_all (pair_below i) (fst (or_search r p))"
      using True Cons.prems(1) by (intro or_search_above) (simp_all add: separated_def list_all_iff)
    ultimately show ?thesis
      using True Cons.prems(2) by (cases "or_search r p") (simp add: pair_below_def separated_def list_all_iff)
  next
    case False
    have "\<not> pair_below p i"
    proof
      assume below: "pair_below p i"
      have "pair_below p j" if "j \<in> set (i # r)" for j
        using that pair_below_trans [OF below, of j] below Cons.prems(1,2) by (auto simp: separated_def)
      then have "\<not> pair_meets j p" if "j \<in> set (i # r)" for j
        using that below_not_meets pair_meets_sym by blast
      with Cons.prems(5) show False by (auto simp: list_ex_iff)
    qed
    with False Cons.prems(4) obtain u where u: "pair_or i p = Some u"
      by (auto simp: pair_meets_def)
    have step: "pair_below u j \<or> pair_meets u j" if "j \<in> set r" for j
    proof -
      have j: "pair_below i j" "pair_below j p \<or> pair_below p j \<or> pair_meets j p"
        using that Cons.prems(1,4) by (auto simp: separated_def list_all_iff)
      have "\<not> pair_below j p"
        using False pair_below_trans [OF j(1)] Cons.prems(2) that by (auto simp: list_all_iff)
      with j show ?thesis
        using u pair_meets_sym [of j p] pair_or_step [of p i u j] by blast
    qed
    have "separated (or_merge u r) \<and> list_all pair_ok (or_merge u r)"
      using Cons.prems step pair_or_ok [OF u]
      by (intro or_merge_separated) (auto simp: separated_def list_all_iff)
    with u False \<open>\<not> pair_below p i\<close> show ?thesis
      by (simp add: pair_below_def version_order_simps)
  qed
qed simp

text \<open>
  C37: Adding an interval to an ordered range keeps the range ordered when the
  interval lies above all intervals of the range, or when it overlaps one of them and
  does not merely touch another one with two open sides; overlapping intervals are
  merged into one.
\<close>

theorem range_or_pair_separated:
  assumes "separated r" "list_all pair_ok r" "pair_ok p"
    "list_all (\<lambda>i. pair_below i p) r
     \<or> list_ex (\<lambda>i. pair_meets i p) r \<and> list_all (\<lambda>i. pair_below i p \<or> pair_below p i \<or> pair_meets i p) r"
  shows "separated (range_or_pair r p) \<and> list_all pair_ok (range_or_pair r p)"
  using assms(4)
proof
  assume below: "list_all (\<lambda>i. pair_below i p) r"
  then show ?thesis
    using assms(1-3) or_search_all_below [OF below]
    by (simp add: range_or_pair_def separated_def sorted_wrt_append list_all_iff)
next
  assume "list_ex (\<lambda>i. pair_meets i p) r \<and> list_all (\<lambda>i. pair_below i p \<or> pair_below p i \<or> pair_meets i p) r"
  with or_search_separated [OF assms(1-3)] show ?thesis
    by (cases "or_search r p") (simp add: range_or_pair_def)
qed

lemma range_or_pair_separated_witness:
  "separated (range_or_pair [interval [1] False [2] True, interval [3] True [4] True] (interval [1,5] True [5] False))"
proof -
  let ?r = "[interval [1] False [2] True, interval [3] True [4] True]" and ?p = "interval [1,5] True [5] False"
  have "separated ?r" "list_all pair_ok ?r" "pair_ok ?p"
    "list_all (\<lambda>i. pair_or i ?p \<noteq> None) ?r"
    by code_simp+
  moreover from this(4) have "list_all (\<lambda>i. pair_meets i ?p) ?r"
    by (auto simp: pair_meets_def)
  ultimately show ?thesis
    using range_or_pair_separated [of ?r ?p] by simp
qed

end
