(* ===== verification/RangeActions.thy ===== *)
theory RangeActions
  imports VersionRange
begin

text \<open>
  The semantic actions of the range grammar (range.yy): how a parsed version
  pattern becomes an interval. A star or an x in a pattern adds no number to
  the version, so that \<open>1.2.*\<close> arrives as the numbers 1 and 2 and \<open>*\<close> as none.
\<close>

section \<open>Version patterns\<close>

text \<open>\<open>basic_version\<close>: \<open>None\<close> is the number ANY of a star or an x.\<close>

definition basic_version :: "int option list \<Rightarrow> version" where
  "basic_version parts = foldl (\<lambda>v n. case n of None \<Rightarrow> v | Some n \<Rightarrow> v\<lparr>numbers := numbers v @ [n]\<rparr>)
     (mk_version []) parts"

definition pattern_with_extra :: "version \<Rightarrow> extra \<Rightarrow> version result" where
  "pattern_with_extra v e =
     (if version_eq v version_min then Inl (Runtime_error ''Cannot set extra part on zero version'')
      else Inr (v\<lparr>vextra := e\<rparr>))"

lemma basic_version_numbers: "basic_version parts = mk_version (List.map_filter id parts)"
proof -
  have "foldl (\<lambda>v n. case n of None \<Rightarrow> v | Some n \<Rightarrow> v\<lparr>numbers := numbers v @ [n]\<rparr>) v parts
      = v\<lparr>numbers := numbers v @ List.map_filter id parts\<rparr>" for v :: version
    by (induction parts arbitrary: v) (auto simp: map_filter_simps split: option.splits)
  then show ?thesis
    by (simp add: basic_version_def mk_version_def)
qed

section \<open>Single ranges\<close>

text \<open>Every action builds an empty range and adds the interval to it.\<close>

definition single_range :: "version \<Rightarrow> bool \<Rightarrow> version \<Rightarrow> bool \<Rightarrow> range result" where
  "single_range v1 strong1 v2 strong2 =
     bind_result (mk_range_pair v1 strong1 v2 strong2) (\<lambda>p. Inr (range_or_pair range_empty p))"

definition plain_range :: "version \<Rightarrow> range result" where
  "plain_range v =
     (if numbers v = [] then single_range version_min True version_max True
      else bind_result (increment_version (mk_version (numbers v))) (\<lambda>v2. single_range v False v2 True))"

text \<open>The loop of \<open>caret\<close>: keep the numbers up to the first one that is not zero.\<close>

fun caret_loop :: "int list \<Rightarrow> int list" where
  "caret_loop [] = []"
| "caret_loop (n # ns) = (if n = 0 then n # caret_loop ns else [n])"

definition caret_range :: "version \<Rightarrow> range result" where
  "caret_range v =
     (let v2 = mk_version (numbers v);
          v2 = (if version_gt v2 (mk_version [0]) then mk_version (caret_loop (numbers v2)) else v2)
      in bind_result (increment_version v2) (\<lambda>v2. single_range v False v2 True))"

definition tilde_range :: "version \<Rightarrow> range result" where
  "tilde_range v =
     (let v2 = mk_version (numbers v);
          v2 = (if get_level v2 > 2 then mk_version (resize_numbers 2 (numbers v2)) else v2)
      in bind_result (increment_version v2) (\<lambda>v2. single_range v False v2 True))"

definition hyphen_range :: "version \<Rightarrow> version \<Rightarrow> range result" where
  "hyphen_range v1 v2 = bind_result (increment_version v2) (\<lambda>v2. single_range v1 False v2 True)"

text \<open>The two brackets: \<open>True\<close> stands for OPEN.\<close>

definition interval_range :: "bool \<Rightarrow> version option \<Rightarrow> version option \<Rightarrow> bool \<Rightarrow> range result" where
  "interval_range l v1 v2 r =
     (case (v1, v2) of
        (Some v1, Some v2) \<Rightarrow> single_range v1 l v2 r
      | (Some v, None) \<Rightarrow> single_range v l version_max True
      | (None, Some v) \<Rightarrow> single_range version_min True v r
      | (None, None) \<Rightarrow> Inl (Runtime_error ''syntax error''))"

datatype compare_op = LT | LE | GT | GE | EQ | NE

fun compare_range :: "compare_op \<Rightarrow> version \<Rightarrow> range result" where
  "compare_range LT v = single_range (mk_version [0]) True v True"
| "compare_range LE v = single_range (mk_version [0]) True v False"
| "compare_range GT v = single_range v True (mk_version [max_number + 1]) True"
| "compare_range GE v = single_range v False (mk_version [max_number + 1]) True"
| "compare_range EQ v = single_range v False v False"
| "compare_range NE v =
     bind_result (mk_range_pair version_min True v True) (\<lambda>p.
     bind_result (mk_range_pair v True version_max True) (\<lambda>q.
       Inr (range_or_pair (range_or_pair range_empty p) q)))"

text \<open>\<open>range_set_and\<close> and \<open>range_set_or\<close>: the operators of a range expression.\<close>

definition range_set_and :: "range list \<Rightarrow> range" where
  "range_set_and rs = foldl range_and (hd rs) (tl rs)"

definition range_set_or :: "range list \<Rightarrow> range" where
  "range_set_or rs = foldl range_or (hd rs) (tl rs)"

section \<open>What the operators mean\<close>

lemma range_or_pair_empty: "range_or_pair range_empty p = [p]"
  by (simp add: range_or_pair_def range_empty_def)

lemma single_range_contains:
  "single_range a sa b sb = Inr r \<Longrightarrow>
     range_contains r v \<longleftrightarrow> (if sa then version_lt a v else version_le a v)
       \<and> (if sb then version_lt v b else version_le v b)"
  by (auto simp: single_range_def bind_result_Inr_iff range_or_pair_empty mk_range_pair_ok
      pair_contains_def side_lt_version_def side_gt_version_def version_order_simps)

lemma single_range_defined:
  "version_lt a b \<Longrightarrow> \<exists>r. single_range a sa b sb = Inr r"
  using vo.lt_asym [of a b] vo.lt_not_eq [of a b]
  by (auto simp: single_range_def mk_range_pair_def Let_def get_first_def get_second_def version_order_simps)

text \<open>The open end of the number line lies above every version with numbers in range.\<close>

lemma number_ok_below_max:
  assumes "version_ok v" shows "version_lt v version_max"
proof -
  obtain n ns where ns: "numbers v = n # ns" "number_ok n"
    using assms by (cases "numbers v") (auto simp: version_ok_def)
  have "version_key (Suc (length ns)) v < version_key (Suc (length ns)) version_max"
    using ns by (simp add: version_key_def version_max_def mk_version_def resize_numbers_def less_prod_def
        number_ok_def max_number_def)
  then show ?thesis
    using ns(1) by (subst version_lt_key [where n = "Suc (length ns)"])
      (auto simp: get_level_def version_max_def mk_version_def)
qed

fun compare_holds :: "compare_op \<Rightarrow> version \<Rightarrow> version \<Rightarrow> bool" where
  "compare_holds LT w v = version_lt w v"
| "compare_holds LE w v = version_le w v"
| "compare_holds GT w v = version_gt w v"
| "compare_holds GE w v = version_ge w v"
| "compare_holds EQ w v = version_eq w v"
| "compare_holds NE w v = (\<not> version_eq w v)"

text \<open>
  For a version above zero, each comparison operator of the range grammar builds a
  range that contains, of the versions above zero with numbers in range, exactly those
  that compare so.
\<close>

theorem compare_range_meaning:
  assumes "version_ok v" "version_ok w" "version_lt version_min v" "version_lt version_min w"
  shows "\<exists>r. compare_range op v = Inr r \<and> (range_contains r w \<longleftrightarrow> compare_holds op w v)"
proof -
  have max: "version_lt v version_max" "version_lt w version_max"
    using assms(1,2) number_ok_below_max by auto
  note ends = version_min_def [symmetric] version_max_def [symmetric]
  note single = single_range_contains [of _ _ _ _ _ w]
  have eq: "version_eq w v \<longleftrightarrow> \<not> version_lt v w \<and> \<not> version_lt w v"
    using vo.antisym vo.lt_not_eq vo.eq_sym by blast
  show ?thesis
  proof (cases op)
    case EQ
    have "single_range v False v False = Inr [\<lparr>first = \<lparr>side_v = v, strong = False\<rparr>, second = \<lparr>side_v = v, strong = False\<rparr>\<rparr>]"
      using vo.lt_irrefl [of v]
      by (simp add: single_range_def mk_range_pair_def Let_def get_first_def get_second_def
          version_order_simps range_or_pair_empty)
    with EQ show ?thesis
      using single by (fastforce simp: eq version_order_simps)
  next
    case NE
    let ?p = "\<lparr>first = \<lparr>side_v = version_min, strong = True\<rparr>, second = \<lparr>side_v = v, strong = True\<rparr>\<rparr>"
    let ?q = "\<lparr>first = \<lparr>side_v = v, strong = True\<rparr>, second = \<lparr>side_v = version_max, strong = True\<rparr>\<rparr>"
    have "mk_range_pair version_min True v True = Inr ?p" "mk_range_pair v True version_max True = Inr ?q"
      using assms(3) max(1) by (simp_all add: mk_range_pair_ok pair_ok_def get_first_def get_second_def)
    moreover have "uppers_agree (insert (second ?q) (uppers [?p]))"
      by (auto simp: uppers_agree_def sides_agree_def)
    from range_or_pair_contains [OF this, of w]
    have "range_contains (range_or_pair [?p] ?q) w \<longleftrightarrow> compare_holds NE w v"
      using assms(4) max(2) by (auto simp: pair_contains_def side_lt_version_iff side_gt_version_iff eq)
    ultimately show ?thesis
      using NE by (simp add: range_or_pair_empty)
  next
    case LT
    obtain r where "single_range version_min True v True = Inr r"
      using single_range_defined [OF assms(3)] by blast
    with single [OF this] LT assms(4) show ?thesis by (simp add: ends)
  next
    case LE
    obtain r where "single_range version_min True v False = Inr r"
      using single_range_defined [OF assms(3)] by blast
    with single [OF this] LE assms(4) show ?thesis by (simp add: ends)
  next
    case GT
    obtain r where "single_range v True version_max True = Inr r"
      using single_range_defined [OF max(1)] by blast
    with single [OF this] GT max(2) show ?thesis by (simp add: ends version_order_simps)
  next
    case GE
    obtain r where "single_range v False version_max True = Inr r"
      using single_range_defined [OF max(1)] by blast
    with single [OF this] GE max(2) show ?thesis by (simp add: ends version_order_simps)
  qed
qed

lemma compare_range_meaning_witness:
  "\<exists>r. compare_range NE (mk_version [1, 2]) = Inr r \<and> range_contains r (mk_version [1, 3])"
proof -
  have "version_ok (mk_version [1, 2])" "version_ok (mk_version [1, 3])"
    "version_lt version_min (mk_version [1, 2])" "version_lt version_min (mk_version [1, 3])"
    "compare_holds NE (mk_version [1, 3]) (mk_version [1, 2])"
    by code_simp+
  then show ?thesis
    using compare_range_meaning [of "mk_version [1, 2]" "mk_version [1, 3]" NE] by blast
qed

section \<open>Compatible versions: caret, tilde and plain patterns\<close>

lemma lex_append_iff:
  "length xs = length ys \<Longrightarrow> xs @ us < ys @ (vs :: int list) \<longleftrightarrow> xs < ys \<or> xs = ys \<and> us < vs"
  by (induction xs ys rule: list_induct2) auto

lemma not_less_zeros: "list_all (\<lambda>n. 0 \<le> n) us \<Longrightarrow> \<not> us < replicate (length us) (0 :: int)"
  by (induction us) auto

lemma resize_split: "k \<le> n \<Longrightarrow> resize_numbers n xs = resize_numbers k xs @ drop k (resize_numbers n xs)"
proof -
  assume "k \<le> n"
  then have "take k (resize_numbers n xs) = resize_numbers k xs"
    by (cases "k \<le> length xs") (auto simp: resize_numbers_def min_def)
  then show ?thesis
    by (metis append_take_drop_id)
qed

text \<open>
  Increasing the last of the first \<open>k\<close> numbers gives the upper end of the versions
  that share these numbers.
\<close>

lemma successor_prefix:
  assumes "version_ok w" "is_release w" "0 < k" "get_level w \<le> n" "get_level v \<le> n" "k \<le> n"
    and a: "resize_numbers k (numbers v) = p @ [m]"
  shows "version_le v w \<and> version_lt w (mk_version (p @ [m + 1]))
    \<longleftrightarrow> version_le v w \<and> resize_numbers k (numbers w) = resize_numbers k (numbers v)"
proof -
  define q l where "q = butlast (resize_numbers k (numbers w))" and "l = last (resize_numbers k (numbers w))"
  have w: "resize_numbers k (numbers w) = q @ [l]"
    using assms(3) by (simp add: q_def l_def append_butlast_last_id length_0_conv [symmetric] del: length_0_conv)
  have len: "length p = length q" "Suc (length p) = k"
    using length_resize [of k "numbers v"] length_resize [of k "numbers w"] a w by simp_all
  define wr where "wr = drop k (resize_numbers n (numbers w))"
  have wn: "resize_numbers n (numbers w) = q @ l # wr"
    using resize_split [OF assms(6), of "numbers w"] w by (simp add: wr_def)
  have "list_all (\<lambda>n. 0 \<le> n) (resize_numbers n (numbers w))"
    using assms(1) by (auto simp: resize_numbers_def version_ok_def number_ok_def list_all_iff dest: in_set_takeD)
  then have nonneg: "list_all (\<lambda>n. 0 \<le> n) wr"
    by (auto simp: wr_def list_all_iff dest: in_set_dropD)
  have "length wr = n - k"
    by (simp add: wr_def)
  then have upper: "resize_numbers n (p @ [m + 1]) = p @ (m + 1) # replicate (length wr) 0"
    using len assms(6) by (simp add: resize_numbers_def)
  have "vextra w = Extra []"
    using assms(2) by (cases "vextra w") (auto simp: is_release_def is_pre_release_def has_extra_def extra_empty_def)
  then have "version_lt w (mk_version (p @ [m + 1])) \<longleftrightarrow> q @ l # wr < p @ (m + 1) # replicate (length wr) 0"
    using len assms(6) by (subst version_lt_key [OF assms(4)])
      (auto simp: get_level_def version_key_def mk_version_def less_prod_def wn upper)
  also have "\<dots> \<longleftrightarrow> q < p \<or> q = p \<and> l \<le> m"
    using len not_less_zeros [OF nonneg] by (auto simp: lex_append_iff)
  finally have lt: "version_lt w (mk_version (p @ [m + 1])) \<longleftrightarrow> q < p \<or> q = p \<and> l \<le> m" .
  have "\<not> (q < p \<or> q = p \<and> l < m)" if "version_le v w"
  proof
    assume "q < p \<or> q = p \<and> l < m"
    then have "resize_numbers n (numbers w) < resize_numbers n (numbers v)"
      using resize_split [OF assms(6), of "numbers v"] len unfolding wn a
      by (metis append_Cons append_Nil append_assoc lex_append_iff Cons_less_Cons)
    then have "version_lt w v"
      using version_lt_key [OF assms(4,5)] by (simp add: version_key_def less_prod_def)
    with that show False by (simp add: version_order_simps)
  qed
  with lt show ?thesis
    using a w len by auto
qed

lemma increment_no_carry:
  assumes "number_ok m" "m < max_number" "list_all number_ok p"
  shows "increment_version (mk_version (p @ [m])) = Inr (mk_version (p @ [m + 1]))"
proof -
  have "version_ok (mk_version (p @ [m]))"
    using assms by (simp add: version_ok_def mk_version_def)
  then show ?thesis
    using assms version_ok_not_max
    by (simp add: increment_version_def mk_version_def number_ok_def max_number_def int64_max_def)
qed

lemma prefix_range:
  assumes v: "version_ok v" "0 < k" "k \<le> get_level v" and last: "numbers v ! (k - 1) < max_number"
    and w: "version_ok w" "is_release w"
  shows "\<exists>r. bind_result (increment_version (mk_version (take k (numbers v)))) (\<lambda>v2. single_range v False v2 True) = Inr r
    \<and> (range_contains r w \<longleftrightarrow> version_le v w \<and> resize_numbers k (numbers w) = take k (numbers v))"
proof -
  define p m where "p = take (k - 1) (numbers v)" and "m = numbers v ! (k - 1)"
  have take: "take k (numbers v) = p @ [m]"
    using v(2,3) take_Suc_conv_app_nth [of "k - 1" "numbers v"] by (simp add: p_def m_def get_level_def)
  have "list_all number_ok (take k (numbers v))"
    using v(1) by (auto simp: version_ok_def list_all_iff dest: in_set_takeD)
  then have inc: "increment_version (mk_version (take k (numbers v))) = Inr (mk_version (p @ [m + 1]))"
    using last unfolding take by (intro increment_no_carry) (simp_all add: m_def)
  define n where "n = max (get_level v) (get_level w)"
  have n: "get_level v \<le> n" "get_level w \<le> n" "k \<le> n"
    using v(3) by (auto simp: n_def)
  have resize: "resize_numbers k (numbers v) = p @ [m]"
    using take v(3) by (simp add: resize_numbers_def get_level_def)
  have len: "Suc (length p) = k"
    using length_resize [of k "numbers v"] resize by simp
  have "resize_numbers n (numbers v) < resize_numbers n (p @ [m + 1])"
  proof -
    have "resize_numbers n (numbers v) = (p @ [m]) @ drop k (resize_numbers n (numbers v))"
      using resize_split [OF n(3), of "numbers v"] by (simp only: resize)
    moreover have "resize_numbers n (p @ [m + 1]) = (p @ [m + 1]) @ replicate (n - k) 0"
      using len n(3) by (simp add: resize_numbers_def)
    moreover have "p @ [m] < p @ [m + 1]"
      by (simp add: lex_append_iff)
    ultimately show ?thesis
      using lex_append_iff [of "p @ [m]" "p @ [m + 1]"] by (metis length_append_singleton)
  qed
  then have "version_lt v (mk_version (p @ [m + 1]))"
    using len n by (subst version_lt_key [where n = n])
      (auto simp: version_key_def less_prod_def mk_version_def get_level_def)
  then obtain r where r: "single_range v False (mk_version (p @ [m + 1])) True = Inr r"
    using single_range_defined by blast
  have "range_contains r w \<longleftrightarrow> version_le v w \<and> version_lt w (mk_version (p @ [m + 1]))"
    using single_range_contains [OF r] by simp
  also have "\<dots> \<longleftrightarrow> version_le v w \<and> resize_numbers k (numbers w) = take k (numbers v)"
    using successor_prefix [OF w v(2) n(2,1,3) resize] resize take by simp
  finally show ?thesis
    using inc r by auto
qed

lemma caret_loop_prefix: "caret_loop ns = take (length (caret_loop ns)) ns \<and> length (caret_loop ns) \<le> length ns"
  by (induction ns) auto

lemma caret_loop_zeros: "list_all (\<lambda>n. n = 0) ns \<Longrightarrow> caret_loop ns = ns"
  by (induction ns) auto

text \<open>
  Of the released versions, \<open>^v\<close> admits those from \<open>v\<close> on that share its
  numbers up to the first one that is not zero, \<open>~v\<close> those that share its first two
  numbers, and a plain \<open>v\<close> those that share all its numbers, provided the last shared
  number can be increased.
\<close>

theorem compatible_ranges:
  assumes "version_ok v" "version_ok w" "is_release w" "list_all (\<lambda>n. n < max_number) (numbers v)"
  shows "\<exists>c t p. caret_range v = Inr c \<and> tilde_range v = Inr t \<and> plain_range v = Inr p
    \<and> (let k = length (caret_loop (numbers v))
       in range_contains c w \<longleftrightarrow> version_le v w \<and> resize_numbers k (numbers w) = take k (numbers v))
    \<and> (let k = min 2 (get_level v)
       in range_contains t w \<longleftrightarrow> version_le v w \<and> resize_numbers k (numbers w) = take k (numbers v))
    \<and> (range_contains p w \<longleftrightarrow> version_le v w \<and> resize_numbers (get_level v) (numbers w) = numbers v)"
proof -
  have ne: "numbers v \<noteq> []" "0 < get_level v"
    using assms(1) by (auto simp: version_ok_def get_level_def)
  have small: "numbers v ! (k - 1) < max_number" if "0 < k" "k \<le> get_level v" for k
    using assms(4) that by (simp add: list_all_length get_level_def)
  note range = prefix_range [OF assms(1) _ _ small assms(2,3)]
  let ?kc = "length (caret_loop (numbers v))" and ?kt = "min 2 (get_level v)"
  have kc: "0 < ?kc" "?kc \<le> get_level v" "take ?kc (numbers v) = caret_loop (numbers v)"
    using ne caret_loop_prefix [of "numbers v"] by (cases "numbers v"; auto simp: get_level_def)+
  have "caret_loop (numbers v) = numbers v" if "\<not> version_gt (mk_version (numbers v)) (mk_version [0])"
  proof (rule caret_loop_zeros, rule ccontr)
    assume "\<not> list_all (\<lambda>n. n = 0) (numbers v)"
    then have "\<not> version_eq (mk_version (numbers v)) (mk_version [0])"
      using ne version_eq_singleton [of "mk_version (numbers v)" 0]
      by (cases "numbers v") (auto simp: mk_version_def)
    moreover have "\<not> version_lt (mk_version (numbers v)) (mk_version [0])"
      using ne assms(1) not_less_zeros [of "numbers v"]
      by (subst version_lt_key [where n = "get_level v"])
        (auto simp: version_key_def mk_version_def get_level_def resize_numbers_def less_prod_def
          version_ok_def number_ok_def list_all_iff Suc_le_eq replicate_Suc [symmetric] simp del: replicate_Suc)
    ultimately show False
      using that vo.trichotomy by (auto simp: version_order_simps)
  qed
  then have c: "caret_range v = bind_result (increment_version (mk_version (take ?kc (numbers v)))) (\<lambda>v2. single_range v False v2 True)"
    using kc(3) by (auto simp: caret_range_def Let_def mk_version_def)
  have t: "tilde_range v = bind_result (increment_version (mk_version (take ?kt (numbers v)))) (\<lambda>v2. single_range v False v2 True)"
    by (auto simp: tilde_range_def Let_def mk_version_def get_level_def resize_numbers_def min_def)
  have p: "plain_range v = bind_result (increment_version (mk_version (take (get_level v) (numbers v)))) (\<lambda>v2. single_range v False v2 True)"
    using ne by (simp add: plain_range_def get_level_def)
  have kt: "0 < ?kt" "?kt \<le> get_level v" using ne by auto
  from range [OF kc(1,2) kc(1,2)] range [OF kt kt] range [OF ne(2) order_refl ne(2) order_refl]
  show ?thesis
    unfolding c t p Let_def by (auto simp: get_level_def)
qed

lemma compatible_ranges_witness:
  "\<exists>c. caret_range (mk_version [0, 2, 5]) = Inr c
     \<and> range_contains c (mk_version [0, 2, 7]) \<and> \<not> range_contains c (mk_version [0, 3])"
proof -
  have ok: "version_ok (mk_version [0, 2, 5])" "version_ok (mk_version [0, 2, 7])" "version_ok (mk_version [0, 3])"
    "is_release (mk_version [0, 2, 7])" "is_release (mk_version [0, 3])"
    "list_all (\<lambda>n. n < max_number) (numbers (mk_version [0, 2, 5]))"
    by code_simp+
  have cmp: "version_le (mk_version [0, 2, 5]) (mk_version [0, 2, 7])"
    "length (caret_loop (numbers (mk_version [0, 2, 5]))) = 2"
    "resize_numbers 2 (numbers (mk_version [0, 2, 7])) = take 2 (numbers (mk_version [0, 2, 5]))"
    "resize_numbers 2 (numbers (mk_version [0, 3])) \<noteq> take 2 (numbers (mk_version [0, 2, 5]))"
    by code_simp+
  show ?thesis
    using compatible_ranges [OF ok(1,2,4,6)] compatible_ranges [OF ok(1,3,5,6)] cmp
    by (auto simp: Let_def)
qed

text \<open>
  A pattern without any number, such as \<open>*\<close> or \<open>x\<close>, is fine on its own but
  makes \<open>^\<close>, \<open>~\<close> and the right side of a hyphen range step in front of an empty
  array of numbers.
\<close>

theorem star_patterns:
  "basic_version [None] = mk_version []
   \<and> (\<exists>r. plain_range (basic_version [None]) = Inr r)
   \<and> caret_range (basic_version [None]) = Inl Undefined
   \<and> tilde_range (basic_version [None]) = Inl Undefined
   \<and> hyphen_range v (basic_version [None]) = Inl Undefined"
proof -
  have star: "basic_version [None] = mk_version []"
    by (simp add: basic_version_def)
  have "increment_version (mk_version []) = Inl Undefined"
    by code_simp
  moreover have "\<not> version_gt (mk_version []) (mk_version [0])" "version_lt version_min version_max"
    by code_simp+
  ultimately show ?thesis
    unfolding star using single_range_defined [of version_min version_max]
    by (simp add: plain_range_def caret_range_def tilde_range_def hyphen_range_def mk_version_def Let_def get_level_def)
qed

end
