(* ===== verification/Emitter.thy ===== *)
theory Emitter
  imports Prelude
begin

text \<open>
  \<open>primitives::Emitter\<close> and \<open>primitives::CppEmitter\<close> (emitter.h): a buffer of
  indented lines, where a line can itself be an emitter that its creator goes on
  filling, rendered to text on demand.
\<close>

section \<open>Splitting a text at its newlines\<close>

text \<open>
  \<open>detail::splitWithIndent\<close>: the scan from the last newline found. With an empty
  newline string it finds the same position for ever.
\<close>

function split_with_indent :: "string \<Rightarrow> string \<Rightarrow> string list result" where
  "split_with_indent nl tx =
     (case str_find nl tx of
        None \<Rightarrow> Inr [tx]
      | Some p \<Rightarrow>
          if nl = [] then Inl Diverges
          else bind_result (split_with_indent nl (drop (p + length nl) tx))
                 (\<lambda>rest. Inr (take p tx # rest)))"
  by pat_completeness auto
termination
proof (relation "measure (\<lambda>(nl, tx). length tx)", goal_cases)
  case (2 nl tx p)
  then have "p + length nl \<le> length tx"
    using str_find_Some by blast
  with 2 show ?case by (cases nl) auto
qed simp

declare split_with_indent.simps [simp del]

lemma str_find_Nil_pat [simp]: "str_find [] s = Some 0"
  by (cases s) auto

lemma split_with_indent_Nil: "split_with_indent [] tx = Inl Diverges"
  by (subst split_with_indent.simps) simp

lemma str_find_take: "str_find pat s = Some i \<Longrightarrow> pat \<noteq> [] \<Longrightarrow> str_find pat (take i s) = None"
proof (induction s arbitrary: i)
  case (Cons c s)
  then obtain j where j: "i = Suc j" "str_find pat s = Some j" if "i \<noteq> 0"
    by (auto split: if_splits)
  show ?case
  proof (cases i)
    case (Suc k)
    with j have "str_find pat s = Some k" by simp
    with Cons have "str_find pat (take k s) = None" by simp
    moreover have "\<not> prefix pat (c # take k s)"
    proof
      assume "prefix pat (c # take k s)"
      then have "prefix pat (c # s)"
        by (metis append_Cons append_take_drop_id prefix_def append_assoc)
      with Cons.prems Suc show False by simp
    qed
    ultimately show ?thesis using Suc by simp
  qed (use Cons.prems in simp)
qed simp

lemma split_with_indent_pieces:
  "nl \<noteq> [] \<Longrightarrow> \<exists>ps. split_with_indent nl tx = Inr ps \<and> ps \<noteq> [] \<and> join nl ps = tx
     \<and> list_all (\<lambda>p. str_find nl p = None) ps"
proof (induction nl tx rule: split_with_indent.induct)
  case (1 nl tx)
  show ?case
  proof (cases "str_find nl tx")
    case None
    then show ?thesis
      by (subst split_with_indent.simps) simp
  next
    case (Some p)
    from "1.IH" [OF Some "1.prems" "1.prems"] obtain ps where
      ps: "split_with_indent nl (drop (p + length nl) tx) = Inr ps" "ps \<noteq> []"
        "join nl ps = drop (p + length nl) tx" "list_all (\<lambda>p. str_find nl p = None) ps"
      by blast
    have "take p tx @ nl @ drop (p + length nl) tx = tx"
      using str_find_Some [OF Some] by (metis append_take_drop_id drop_drop add.commute)
    moreover have "split_with_indent nl tx = Inr (take p tx # ps)"
      using Some ps(1) "1.prems" by (subst split_with_indent.simps) simp
    ultimately show ?thesis
      using ps(2-4) str_find_take [OF Some "1.prems"] by (simp add: join_Cons)
  qed
qed

text \<open>
  Splitting a text at a non-empty newline ends, and the pieces contain no newline
  and, joined by newlines, are the text; with an empty newline it never returns.
\<close>

theorem split_with_indent_join:
  "split_with_indent [] tx = Inl Diverges
   \<and> (nl \<noteq> [] \<longrightarrow> (\<exists>ps. split_with_indent nl tx = Inr ps \<and> join nl ps = tx
        \<and> list_all (\<lambda>p. str_find nl p = None) ps))"
  using split_with_indent_Nil split_with_indent_pieces by blast

lemma split_with_indent_join_witness:
  "\<exists>ps. split_with_indent ''\<newline>'' ''a\<newline>b'' = Inr ps \<and> join ''\<newline>'' ps = ''a\<newline>b''"
  using split_with_indent_join [of "''a\<newline>b''" "''\<newline>''"] by auto

lemma split_with_indent_single:
  "c \<notin> set p \<Longrightarrow> split_with_indent [c] p = Inr [p]"
  "c \<notin> set p \<Longrightarrow> split_with_indent [c] (p @ c # tx) =
     bind_result (split_with_indent [c] tx) (\<lambda>ps. Inr (p # ps))"
  using str_find_None_single [of c p] str_find_single_append [of c p tx]
  by (subst split_with_indent.simps; simp)+

lemma split_with_indent_joined:
  "ps \<noteq> [] \<Longrightarrow> (\<And>p. p \<in> set ps \<Longrightarrow> c \<notin> set p) \<Longrightarrow> split_with_indent [c] (join [c] ps) = Inr ps"
  by (induction "[c]" ps rule: join.induct) (simp_all add: split_with_indent_single)

section \<open>Lines and emitters\<close>

text \<open>
  A line is a \<open>detail::Line\<close> or a \<open>detail::EmitterLine\<close>, which inherits the text
  of a line but shows the text of its emitter. The indentation count is the
  code's \<open>int\<close>, taken as unbounded.
\<close>

datatype line =
    PlainLine (line_indents: int) (own_text: string)
  | InlineLine (line_indents: int) (own_text: string) (inline_emitter: emitter)
and emitter =
    Emitter (lines: "line list") (n_indents: int) (indent: string) (newline: string)

definition emitter_new :: "string \<Rightarrow> string \<Rightarrow> emitter" where
  "emitter_new ind nl = Emitter [] 0 ind nl"

definition emitter_default :: emitter where
  "emitter_default = emitter_new ''    '' ''\<newline>''"

definition emitter_empty :: "emitter \<Rightarrow> bool" where
  "emitter_empty e \<longleftrightarrow> lines e = []"

definition set_lines :: "line list \<Rightarrow> emitter \<Rightarrow> emitter" where
  "set_lines ls e = Emitter ls (n_indents e) (indent e) (newline e)"

definition set_n_indents :: "int \<Rightarrow> emitter \<Rightarrow> emitter" where
  "set_n_indents n e = Emitter (lines e) n (indent e) (newline e)"

definition emitter_clear :: "emitter \<Rightarrow> emitter" where
  "emitter_clear e = set_lines [] e"

lemma emitter_sel_simps [simp]:
  "lines (set_lines ls e) = ls" "n_indents (set_lines ls e) = n_indents e"
  "indent (set_lines ls e) = indent e" "newline (set_lines ls e) = newline e"
  "lines (set_n_indents n e) = lines e" "n_indents (set_n_indents n e) = n"
  "indent (set_n_indents n e) = indent e" "newline (set_n_indents n e) = newline e"
  by (simp_all add: set_lines_def set_n_indents_def)

fun line_set_text :: "string \<Rightarrow> line \<Rightarrow> line" where
  "line_set_text t (PlainLine n _) = PlainLine n t"
| "line_set_text t (InlineLine n _ e) = InlineLine n t e"

fun line_set_indents :: "int \<Rightarrow> line \<Rightarrow> line" where
  "line_set_indents n (PlainLine _ t) = PlainLine n t"
| "line_set_indents n (InlineLine _ t e) = InlineLine n t e"

fun line_empty :: "line \<Rightarrow> bool" where
  "line_empty (PlainLine n t) = False"
| "line_empty (InlineLine n t e) = emitter_empty e"

subsection \<open>Rendering\<close>

text \<open>
  \<open>Line::getText\<close>, \<open>EmitterLine::getText\<close>, \<open>Emitter::getStrings\<close> and
  \<open>Emitter::getText\<close>. The text of an inline emitter loses its last newline; when
  the text is shorter than that the unsigned size wraps around and the string
  refuses to grow.
\<close>

definition repeat_text :: "int \<Rightarrow> string \<Rightarrow> string" where
  "repeat_text n s = concat (replicate (nat n) s)"

fun line_get_text :: "line \<Rightarrow> string result"
  and emitter_get_text :: "emitter \<Rightarrow> string result"
  and emitter_get_strings :: "emitter \<Rightarrow> string list result"
  and lines_get_strings :: "string \<Rightarrow> string \<Rightarrow> line list \<Rightarrow> string list result" where
  "line_get_text (PlainLine n t) = Inr t"
| "line_get_text (InlineLine n t e) =
     bind_result (emitter_get_strings e) (\<lambda>ss.
       if length (concat ss) < length (newline e) then Inl Length_error
       else Inr (take (length (concat ss) - length (newline e)) (concat ss)))"
| "emitter_get_text (Emitter ls n ind nl) =
     bind_result (lines_get_strings ind nl ls) (\<lambda>ss. Inr (concat ss))"
| "emitter_get_strings (Emitter ls n ind nl) = lines_get_strings ind nl ls"
| "lines_get_strings ind nl [] = Inr []"
| "lines_get_strings ind nl (l # ls) =
     (if line_empty l then lines_get_strings ind nl ls
      else bind_result (line_get_text l) (\<lambda>t.
        let space = (if t \<noteq> [] then repeat_text (line_indents l) ind else [])
        in bind_result (split_with_indent nl t) (\<lambda>ps.
           bind_result (lines_get_strings ind nl ls) (\<lambda>rest.
             Inr (map (\<lambda>p. space @ p @ nl) ps @ rest)))))"

lemma emitter_get_text_strings: "emitter_get_text e = bind_result (emitter_get_strings e) (\<lambda>ss. Inr (concat ss))"
  by (cases e) simp

lemma emitter_get_strings_lines: "emitter_get_strings e = lines_get_strings (indent e) (newline e) (lines e)"
  by (cases e) simp

section \<open>Operations\<close>

definition add_line_ptr :: "line \<Rightarrow> emitter \<Rightarrow> emitter" where
  "add_line_ptr l e = set_lines (lines e @ [l]) e"

definition add_line_with_abs_indent :: "string \<Rightarrow> int \<Rightarrow> emitter \<Rightarrow> emitter result" where
  "add_line_with_abs_indent t k e =
     bind_result (split_with_indent (newline e) t) (\<lambda>ps.
       Inr (foldl (\<lambda>e p. add_line_ptr (PlainLine k p) e) e ps))"

definition add_line_with_indent :: "string \<Rightarrow> emitter \<Rightarrow> emitter result" where
  "add_line_with_indent t e = add_line_with_abs_indent t (n_indents e) e"

definition add_line_without_indent :: "string \<Rightarrow> emitter \<Rightarrow> emitter result" where
  "add_line_without_indent t e = add_line_with_abs_indent t 0 e"

definition add_line :: "string \<Rightarrow> emitter \<Rightarrow> emitter result" where
  "add_line t e = (if t = [] then add_line_without_indent t e else add_line_with_indent t e)"

text \<open>
  A negative number of lines to remove would fill the vector with null lines,
  which the next access dereferences.
\<close>

definition remove_lines :: "int \<Rightarrow> emitter \<Rightarrow> emitter result" where
  "remove_lines n e =
     (let k = max 0 (int (length (lines e)) - n)
      in if k > int (length (lines e)) then Inl Undefined
         else Inr (set_lines (take (nat k) (lines e)) e))"

definition remove_line :: "emitter \<Rightarrow> emitter result" where
  "remove_line e = remove_lines 1 e"

definition update_last :: "(line \<Rightarrow> line) \<Rightarrow> emitter \<Rightarrow> emitter" where
  "update_last f e = set_lines (butlast (lines e) @ [f (last (lines e))]) e"

definition add_text :: "string \<Rightarrow> emitter \<Rightarrow> emitter result" where
  "add_text s e =
     bind_result (if lines e = [] then add_line [] e else Inr e) (\<lambda>e.
       let e = (if s \<noteq> [] \<and> line_indents (last (lines e)) = 0
                then update_last (line_set_indents (n_indents e)) e else e)
       in bind_result (line_get_text (last (lines e))) (\<lambda>t.
            Inr (update_last (line_set_text (t @ s)) e)))"

text \<open>
  \<open>createInlineEmitter\<close> returns a reference to the new emitter; \<open>with_inline\<close> is a
  call on such a reference, the emitter of line \<open>i\<close>. \<open>addEmitter\<close> moves an
  emitter in.
\<close>

definition add_emitter :: "emitter \<Rightarrow> emitter \<Rightarrow> emitter" where
  "add_emitter inner e = add_line_ptr (InlineLine (n_indents e) [] inner) e"

definition create_inline_emitter :: "string \<Rightarrow> string \<Rightarrow> emitter \<Rightarrow> emitter \<times> nat" where
  "create_inline_emitter ind nl e = (add_emitter (emitter_new ind nl) e, length (lines e))"

definition with_inline :: "nat \<Rightarrow> (emitter \<Rightarrow> emitter result) \<Rightarrow> emitter \<Rightarrow> emitter result" where
  "with_inline i f e =
     (if i < length (lines e) then
        (case lines e ! i of
           InlineLine n t inner \<Rightarrow>
             bind_result (f inner) (\<lambda>inner. Inr (set_lines ((lines e)[i := InlineLine n t inner]) e))
         | PlainLine n t \<Rightarrow> Inl Undefined)
      else Inl Undefined)"

definition increase_indent :: "int \<Rightarrow> emitter \<Rightarrow> emitter" where
  "increase_indent n e = set_n_indents (n_indents e + n) e"

definition decrease_indent :: "int \<Rightarrow> emitter \<Rightarrow> emitter" where
  "decrease_indent n e = set_n_indents (n_indents e - n) e"

definition increase_indent_with :: "string \<Rightarrow> int \<Rightarrow> emitter \<Rightarrow> emitter result" where
  "increase_indent_with s n e = bind_result (add_line s e) (\<lambda>e. Inr (increase_indent n e))"

definition decrease_indent_with :: "string \<Rightarrow> int \<Rightarrow> emitter \<Rightarrow> emitter result" where
  "decrease_indent_with s n e = add_line s (decrease_indent n e)"

definition trim_end :: "nat \<Rightarrow> emitter \<Rightarrow> emitter result" where
  "trim_end n e =
     (if lines e = [] then Inr e
      else bind_result (line_get_text (last (lines e))) (\<lambda>t.
        let sz = length t; n = (if n > sz then sz else n)
        in Inr (update_last (line_set_text (take (sz - n) t)) e)))"

text \<open>
  \<open>emptyLines\<close>: the loop counts the empty lines at the end, asking inline
  emitters for their text even when they have no line. \<open>lines.resize\<close> with a
  count below zero is an unsigned wrap-around.
\<close>

fun count_empty :: "line list \<Rightarrow> nat result" where
  "count_empty [] = Inr 0"
| "count_empty (l # ls) =
     bind_result (line_get_text l) (\<lambda>t.
       if t = [] then bind_result (count_empty ls) (\<lambda>k. Inr (Suc k)) else Inr 0)"

fun add_empty_lines :: "nat \<Rightarrow> emitter \<Rightarrow> emitter result" where
  "add_empty_lines 0 e = Inr e"
| "add_empty_lines (Suc k) e = bind_result (add_line [] e) (add_empty_lines k)"

definition empty_lines :: "int \<Rightarrow> emitter \<Rightarrow> emitter result" where
  "empty_lines n e =
     bind_result (count_empty (rev (lines e))) (\<lambda>k.
       if int k < n then add_empty_lines (nat (n - int k)) e
       else if int k > n then
         (if int k - n > int (length (lines e)) then Inl Length_error
          else Inr (set_lines (take (length (lines e) - nat (int k - n)) (lines e)) e))
       else Inr e)"

text \<open>\<open>operator+=\<close>: every line of the other emitter becomes a plain line.\<close>

fun append_lines :: "line list \<Rightarrow> emitter \<Rightarrow> emitter result" where
  "append_lines [] e = Inr e"
| "append_lines (l # ls) e =
     (if line_empty l then append_lines ls e
      else bind_result (line_get_text l) (\<lambda>t.
        append_lines ls (add_line_ptr (PlainLine (line_indents l + n_indents e) t) e)))"

definition emitter_append :: "emitter \<Rightarrow> emitter \<Rightarrow> emitter result" where
  "emitter_append e rhs = append_lines (lines rhs) e"

section \<open>The C++ emitter\<close>

record cpp_emitter =
  base :: emitter
  namespaces :: "string list"

definition cpp_lift :: "(emitter \<Rightarrow> emitter result) \<Rightarrow> cpp_emitter \<Rightarrow> cpp_emitter result" where
  "cpp_lift f c = bind_result (f (base c)) (\<lambda>e. Inr (c\<lparr>base := e\<rparr>))"

definition begin_block :: "string \<Rightarrow> bool \<Rightarrow> cpp_emitter \<Rightarrow> cpp_emitter result" where
  "begin_block s in_indent =
     cpp_lift (\<lambda>e. bind_result (if s \<noteq> [] then add_line s e else Inr e) (\<lambda>e.
       bind_result (add_line ''{'' e) (\<lambda>e. Inr (if in_indent then increase_indent 1 e else e))))"

definition end_block :: "bool \<Rightarrow> cpp_emitter \<Rightarrow> cpp_emitter result" where
  "end_block semicolon =
     cpp_lift (\<lambda>e. bind_result (empty_lines 0 (decrease_indent 1 e))
       (add_line (if semicolon then ''};'' else ''}'')))"

definition begin_function :: "string \<Rightarrow> cpp_emitter \<Rightarrow> cpp_emitter result" where
  "begin_function s = begin_block s True"

definition end_function :: "cpp_emitter \<Rightarrow> cpp_emitter result" where
  "end_function c = bind_result (end_block False c) (cpp_lift (add_line []))"

definition begin_namespace :: "string \<Rightarrow> cpp_emitter \<Rightarrow> cpp_emitter result" where
  "begin_namespace s c =
     bind_result (cpp_lift (add_line_without_indent (''namespace '' @ s)) c) (\<lambda>c.
     bind_result (cpp_lift (add_line_without_indent ''{'') c) (\<lambda>c.
     bind_result (cpp_lift (add_line []) c) (\<lambda>c.
       Inr (c\<lparr>namespaces := s # namespaces c\<rparr>))))"

definition end_namespace :: "string \<Rightarrow> cpp_emitter \<Rightarrow> cpp_emitter result" where
  "end_namespace ns c =
     (let (s, c) = (if namespaces c \<noteq> [] \<and> ns = []
                    then (hd (namespaces c), c\<lparr>namespaces := tl (namespaces c)\<rparr>) else (ns, c))
      in bind_result (cpp_lift (add_line_without_indent (''} // namespace '' @ s)) c)
           (cpp_lift (add_line [])))"

definition ifdef :: "string \<Rightarrow> cpp_emitter \<Rightarrow> cpp_emitter result" where
  "ifdef s = cpp_lift (add_line_without_indent (''#ifdef '' @ s))"

definition endif :: "cpp_emitter \<Rightarrow> cpp_emitter result" where
  "endif = cpp_lift (add_line_without_indent ''#endif'')"

definition cpp_clear :: "cpp_emitter \<Rightarrow> cpp_emitter" where
  "cpp_clear c = c\<lparr>base := emitter_clear (base c), namespaces := []\<rparr>"

section \<open>What the rendering shows\<close>

lemma lines_get_strings_append:
  "lines_get_strings ind nl (ls @ ls') =
     bind_result (lines_get_strings ind nl ls) (\<lambda>ss. bind_result (lines_get_strings ind nl ls') (\<lambda>ss'. Inr (ss @ ss')))"
proof (induction ls)
  case Nil
  then show ?case by (cases "lines_get_strings ind nl ls'") simp_all
next
  case (Cons l ls)
  show ?case
    by (cases "line_get_text l"; cases "lines_get_strings ind nl ls"; cases "lines_get_strings ind nl ls'";
        cases "split_with_indent nl (projr (line_get_text l))") (simp_all add: Cons Let_def)
qed

lemma split_with_indent_no_sep:
  "split_with_indent [c] t = Inr ps \<Longrightarrow> p \<in> set ps \<Longrightarrow> c \<notin> set p"
  using split_with_indent_pieces [of "[c]" t] str_find_None_single by (fastforce simp: list_all_iff)

lemma repeat_text_set: "set (repeat_text n s) \<subseteq> set s"
  by (auto simp: repeat_text_def split: if_splits)

text \<open>With a one-character newline, every rendered string ends with the only newline in it.\<close>

lemma lines_get_strings_form:
  "lines_get_strings ind [c] ls = Inr ss \<Longrightarrow> c \<notin> set ind \<Longrightarrow> s \<in> set ss \<Longrightarrow>
     \<exists>p. s = p @ [c] \<and> c \<notin> set p"
proof (induction ls arbitrary: ss)
  case (Cons l ls)
  show ?case
  proof (cases "line_empty l")
    case False
    with Cons.prems(1) obtain t ps rest where
      t: "split_with_indent [c] t = Inr ps" "lines_get_strings ind [c] ls = Inr rest"
        "ss = map (\<lambda>p. (if t \<noteq> [] then repeat_text (line_indents l) ind else []) @ p @ [c]) ps @ rest"
      by (auto simp: bind_result_Inr_iff Let_def)
    show ?thesis
    proof (cases "s \<in> set rest")
      case False
      with t Cons.prems(3) obtain p where
        p: "p \<in> set ps" "s = (if t \<noteq> [] then repeat_text (line_indents l) ind else []) @ p @ [c]"
        by auto
      then have "c \<notin> set ((if t \<noteq> [] then repeat_text (line_indents l) ind else []) @ p)"
        using split_with_indent_no_sep [OF t(1) p(1)] repeat_text_set Cons.prems(2) by auto
      with p(2) show ?thesis by (metis append_assoc)
    qed (use Cons t in blast)
  qed (use Cons in simp)
qed simp

lemma line_text_of_strings:
  assumes "emitter_get_strings inner = Inr ss" "newline inner = [c]" "c \<notin> set (indent inner)" "ss \<noteq> []"
  shows "line_get_text (InlineLine k t inner) = Inr (join [c] (map butlast ss))
    \<and> split_with_indent [c] (join [c] (map butlast ss)) = Inr (map butlast ss)
    \<and> (\<forall>s\<in>set ss. s = butlast s @ [c])"
proof -
  have form: "s = butlast s @ [c]" "c \<notin> set (butlast s)" if "s \<in> set ss" for s
    using lines_get_strings_form [of "indent inner" c "lines inner" ss s] assms that
    by (auto simp: emitter_get_strings_lines)
  then have "map (\<lambda>s. s @ [c]) (map butlast ss) = ss"
    by (simp add: map_idI)
  then have conc: "concat ss = join [c] (map butlast ss) @ [c]"
    using concat_map_sep_join [of "map butlast ss" "[c]"] assms(4) by simp
  have "line_get_text (InlineLine k t inner) = Inr (join [c] (map butlast ss))"
    unfolding line_get_text.simps assms(1,2) bind_result_simps conc by simp
  moreover have "split_with_indent [c] (join [c] (map butlast ss)) = Inr (map butlast ss)"
    using assms(4) form(2) by (intro split_with_indent_joined) auto
  ultimately show ?thesis
    using form(1) by blast
qed

text \<open>
  An emitter added to another one is rendered at its place: its strings follow
  those before it, each with the indentation of the outer emitter in front, except that
  a single empty line stays empty. An emitter without lines shows nothing, and one whose
  lines are all such emitters makes the rendering fail.
\<close>

theorem add_emitter_rendering:
  assumes "newline e = [c]" "newline inner = [c]" "c \<notin> set (indent inner)"
    and "emitter_get_strings e = Inr os" "emitter_get_strings inner = Inr ss"
  shows "emitter_get_strings (add_emitter inner e) =
    (if emitter_empty inner then Inr os
     else if ss = [] then Inl Length_error
     else if ss = [[c]] then Inr (os @ ss)
     else Inr (os @ map (\<lambda>s. repeat_text (n_indents e) (indent e) @ s) ss))"
proof -
  let ?l = "InlineLine (n_indents e) [] inner"
  have outer: "lines_get_strings (indent e) [c] (lines e) = Inr os"
    using assms(1,4) by (simp add: emitter_get_strings_lines)
  have split: "emitter_get_strings (add_emitter inner e) =
      bind_result (lines_get_strings (indent e) [c] [?l]) (\<lambda>ss'. Inr (os @ ss'))"
    using assms(1) outer
    by (simp add: emitter_get_strings_lines add_emitter_def add_line_ptr_def lines_get_strings_append)
  consider "emitter_empty inner" | "\<not> emitter_empty inner" "ss = []" | "\<not> emitter_empty inner" "ss \<noteq> []"
    by blast
  then show ?thesis
  proof cases
    case 3
    note inl = line_text_of_strings [OF assms(5,2,3) 3(2), of "n_indents e" "[]"]
    have "join [c] (map butlast ss) = [] \<longleftrightarrow> ss = [[c]]"
      using inl 3(2) by (auto simp: join_eq_Nil_iff map_eq_Cons_conv)
    moreover have "map (\<lambda>p. sp @ p @ [c]) (map butlast ss) = map (\<lambda>s. sp @ s) ss" for sp
      using inl by (auto intro!: map_cong)
    ultimately show ?thesis
      using inl 3 unfolding split by (auto simp: Let_def simp del: map_map)
  qed (use assms split in simp_all)
qed

lemma add_emitter_rendering_witness:
  "emitter_get_strings (add_emitter (Emitter [PlainLine 0 ''a'', PlainLine 1 ''b''] 0 ''  '' ''|'') (Emitter [] 2 ''-'' ''|''))
     = Inr [''--a|'', ''--  b|'']"
proof -
  let ?inner = "Emitter [PlainLine 0 ''a'', PlainLine 1 ''b''] 0 ''  '' ''|''" and ?outer = "Emitter [] 2 ''-'' ''|''"
  have "newline ?outer = [CHR ''|'']" "newline ?inner = [CHR ''|'']" "CHR ''|'' \<notin> set (indent ?inner)"
    "emitter_get_strings ?outer = Inr []" "emitter_get_strings ?inner = Inr [''a|'', ''  b|'']"
    "\<not> emitter_empty ?inner" "repeat_text (n_indents ?outer) (indent ?outer) = ''--''"
    by code_simp+
  from add_emitter_rendering [OF this(1-5)] this(6,7) show ?thesis
    by simp
qed

section \<open>Adding lines, empty lines and blocks\<close>

lemma foldl_add_lines: "foldl (\<lambda>e p. add_line_ptr (PlainLine k p) e) e ps = set_lines (lines e @ map (PlainLine k) ps) e"
proof (induction ps arbitrary: e)
  case Nil
  then show ?case by (cases e) (simp add: set_lines_def)
next
  case (Cons p ps)
  then show ?case by (simp add: add_line_ptr_def set_lines_def)
qed

lemma add_line_single:
  assumes "newline e = [c]" "c \<notin> set t"
  shows "add_line_with_abs_indent t k e = Inr (set_lines (lines e @ [PlainLine k t]) e)"
  using split_with_indent_single(1) [OF assms(2)] assms(1)
  by (simp add: add_line_with_abs_indent_def add_line_ptr_def)

lemma add_line_one:
  assumes "newline e = [c]" "c \<notin> set t"
  shows "add_line t e = Inr (set_lines (lines e @ [PlainLine (if t = [] then 0 else n_indents e) t]) e)"
  using add_line_single [OF assms]
  by (cases "t = []") (simp_all add: add_line_def add_line_with_indent_def add_line_without_indent_def)

lemma add_empty_lines_eq:
  "newline e = [c] \<Longrightarrow> add_empty_lines k e = Inr (set_lines (lines e @ replicate k (PlainLine 0 [])) e)"
proof (induction k arbitrary: e)
  case 0
  then show ?case by (cases e) (simp add: set_lines_def)
next
  case (Suc k)
  then show ?case
    using add_line_one [OF Suc.prems, of "[]"] by (simp add: set_lines_def replicate_append_same)
qed

definition line_blank :: "line \<Rightarrow> bool" where
  "line_blank l \<longleftrightarrow> line_get_text l = Inr []"

definition no_inline :: "line list \<Rightarrow> bool" where
  "no_inline ls = list_all (\<lambda>l. \<exists>n t. l = PlainLine n t) ls"

lemma count_empty_plain: "no_inline ls \<Longrightarrow> count_empty ls = Inr (length (takeWhile line_blank ls))"
  by (induction ls) (auto simp: no_inline_def line_blank_def)

text \<open>
  On an emitter of plain lines \<open>emptyLines(n)\<close> leaves exactly \<open>n\<close> empty lines at the
  end, after the same lines up to the last one with text.
\<close>

theorem empty_lines_exact:
  assumes "no_inline (lines e)" "newline e = [c]" "0 \<le> n"
  shows "\<exists>e' blanks. empty_lines n e = Inr e'
    \<and> lines e' = rev (dropWhile line_blank (rev (lines e))) @ blanks
    \<and> list_all line_blank blanks \<and> int (length blanks) = n"
proof -
  define kept tr where "kept = rev (dropWhile line_blank (rev (lines e)))"
    and "tr = rev (takeWhile line_blank (rev (lines e)))"
  have ls: "lines e = kept @ tr"
    unfolding kept_def tr_def by (metis rev_append rev_rev_ident takeWhile_dropWhile_id)
  have blank: "list_all line_blank tr"
    by (auto simp: tr_def list_all_iff dest: set_takeWhileD)
  have "count_empty (rev (lines e)) = Inr (length tr)"
    using assms(1) by (subst count_empty_plain) (simp_all add: no_inline_def tr_def)
  then have eq: "empty_lines n e =
      (if int (length tr) < n then add_empty_lines (nat (n - int (length tr))) e
       else if int (length tr) > n then Inr (set_lines (take (length (lines e) - nat (int (length tr) - n)) (lines e)) e)
       else Inr e)"
    using assms(3) ls by (simp add: empty_lines_def)
  consider "int (length tr) < n" | "int (length tr) > n" | "int (length tr) = n" by linarith
  then show ?thesis
  proof cases
    case 1
    with eq blank show ?thesis
      unfolding kept_def [symmetric]
      using add_empty_lines_eq [OF assms(2)] ls
      by (auto intro!: exI [of _ "tr @ replicate (nat (n - int (length tr))) (PlainLine 0 [])"]
          simp: list_all_iff line_blank_def)
  next
    case 2
    then have "length (lines e) - nat (int (length tr) - n) = length kept + nat n"
      using ls assms(3) by simp
    with 2 eq blank assms(3) show ?thesis
      unfolding kept_def [symmetric]
      using ls by (auto intro!: exI [of _ "take (nat n) tr"] simp: list_all_iff dest: in_set_takeD)
  next
    case 3
    with eq blank ls show ?thesis
      unfolding kept_def [symmetric] by auto
  qed
qed

lemma empty_lines_exact_witness:
  "\<exists>e' blanks. empty_lines 1 (Emitter [PlainLine 0 ''a'', PlainLine 0 [], PlainLine 0 []] 0 '' '' ''|'') = Inr e'
     \<and> lines e' = [PlainLine 0 ''a''] @ blanks \<and> length blanks = 1"
proof -
  let ?e = "Emitter [PlainLine 0 ''a'', PlainLine 0 [], PlainLine 0 []] 0 '' '' ''|''"
  have "rev (dropWhile line_blank (rev (lines ?e))) = [PlainLine 0 ''a'']"
    by (simp add: line_blank_def)
  then show ?thesis
    using empty_lines_exact [of ?e "CHR ''|''" 1] by (auto simp: no_inline_def)
qed

text \<open>
  A block puts its head and an opening brace at the current indentation, its body
  one level deeper, and the closing brace at the old indentation, which is restored.
\<close>

theorem block_layout:
  assumes "newline (base c) = ''\<newline>''"
    and "s \<noteq> []" "list_all (\<lambda>t. t \<noteq> [] \<and> CHR ''\<newline>'' \<notin> set t) (s # body)"
  shows "\<exists>c'. bind_result (begin_block s True c) (\<lambda>c.
      bind_result (cpp_lift (\<lambda>e. foldl (\<lambda>r t. bind_result r (add_line t)) (Inr e) body) c) (end_block semicolon)) = Inr c'
    \<and> lines (base c') = lines (base c)
        @ [PlainLine (n_indents (base c)) s, PlainLine (n_indents (base c)) ''{'']
        @ map (PlainLine (n_indents (base c) + 1)) body
        @ [PlainLine (n_indents (base c)) (if semicolon then ''};'' else ''}'')]
    \<and> n_indents (base c') = n_indents (base c) \<and> namespaces c' = namespaces c"
proof -
  define k where "k = n_indents (base c)"
  define e1 where "e1 = set_n_indents (k + 1) (set_lines (lines (base c) @ [PlainLine k s, PlainLine k ''{'']) (base c))"
  have nl: "newline e1 = ''\<newline>''" using assms(1) by (simp add: e1_def)
  have head: "begin_block s True c = Inr (c\<lparr>base := e1\<rparr>)"
    using assms add_line_one [OF assms(1), of s] add_line_one [of _ "CHR ''\<newline>''" "''{''"]
    by (simp add: begin_block_def cpp_lift_def increase_indent_def e1_def k_def set_lines_def set_n_indents_def)
  have "foldl (\<lambda>r t. bind_result r (add_line t)) (Inr e) body = Inr (set_lines (lines e @ map (PlainLine (n_indents e)) body) e)"
    if "newline e = ''\<newline>''" for e
    using assms(3) that
  proof (induction body arbitrary: e)
    case Nil
    then show ?case by (cases e) (simp add: set_lines_def)
  next
    case (Cons t body)
    then show ?case
      using add_line_one [of e "CHR ''\<newline>''" t] by (simp add: set_lines_def)
  qed
  from this [OF nl] have body: "foldl (\<lambda>r t. bind_result r (add_line t)) (Inr e1) body
      = Inr (set_lines (lines e1 @ map (PlainLine (k + 1)) body) e1)"
    by (simp add: e1_def)
  define e2 where "e2 = set_lines (lines e1 @ map (PlainLine (k + 1)) body) e1"
  have last: "\<exists>n t ls. lines e2 = ls @ [PlainLine n t] \<and> t \<noteq> []"
    using assms(3) by (cases body rule: rev_cases) (auto simp: e2_def e1_def)
  then have "empty_lines 0 (decrease_indent 1 e2) = Inr (decrease_indent 1 e2)"
    by (auto simp: empty_lines_def decrease_indent_def)
  then have "end_block semicolon (c\<lparr>base := e2\<rparr>) =
      Inr (c\<lparr>base := set_lines (lines e2 @ [PlainLine k (if semicolon then ''};'' else ''}'')]) (decrease_indent 1 e2)\<rparr>)"
    using add_line_one [of "decrease_indent 1 e2" "CHR ''\<newline>''" "if semicolon then ''};'' else ''}''"] nl
    by (auto simp: end_block_def cpp_lift_def decrease_indent_def e2_def e1_def)
  then show ?thesis
    unfolding head using body by (simp add: cpp_lift_def e2_def e1_def decrease_indent_def k_def)
qed

lemma block_layout_witness:
  "\<exists>c'. bind_result (begin_block ''f()'' True \<lparr>base = emitter_default, namespaces = []\<rparr>) (\<lambda>c.
      bind_result (cpp_lift (\<lambda>e. foldl (\<lambda>r t. bind_result r (add_line t)) (Inr e) [''x;'']) c) (end_block False)) = Inr c'
    \<and> lines (base c') = [PlainLine 0 ''f()'', PlainLine 0 ''{'', PlainLine 1 ''x;'', PlainLine 0 ''}'']"
proof -
  let ?c = "\<lparr>base = emitter_default, namespaces = []\<rparr>"
  have "newline (base ?c) = ''\<newline>''" "''f()'' \<noteq> []"
    "list_all (\<lambda>t. t \<noteq> [] \<and> CHR ''\<newline>'' \<notin> set t) (''f()'' # [''x;''])"
    "lines (base ?c) = []" "n_indents (base ?c) = 0"
    by code_simp+
  from block_layout [OF this(1-3), where semicolon = False] this(4,5) show ?thesis by auto
qed

text \<open>
  Text added after an inline emitter is lost, the rendering does not change; and
  asking for empty lines after an inline emitter that has no line yet fails.
\<close>

theorem inline_line_pitfalls:
  assumes "lines e = ls @ [InlineLine k t inner]" "k \<noteq> 0 \<or> n_indents e = 0 \<or> s = []"
  shows "(\<forall>e'. add_text s e = Inr e' \<longrightarrow> emitter_get_text e' = emitter_get_text e)
    \<and> (emitter_empty inner \<and> newline inner \<noteq> [] \<longrightarrow> empty_lines n e = Inl Length_error)"
proof -
  have same: "lines_get_strings ind nl [InlineLine k t' inner] = lines_get_strings ind nl [InlineLine k t inner]" for t' ind nl
    by (simp cong: if_cong)
  have id: "update_last (line_set_indents (n_indents e)) e = e" if "s \<noteq> []" "k = 0"
    using that assms by (cases e) (simp add: update_last_def set_lines_def)
  have "emitter_get_text e' = emitter_get_text e" if "add_text s e = Inr e'" for e'
  proof -
    have "(if s \<noteq> [] \<and> line_indents (last (lines e)) = 0 then update_last (line_set_indents (n_indents e)) e else e) = e"
      using assms(1) id by simp
    with that assms(1) have "bind_result (line_get_text (last (lines e))) (\<lambda>t. Inr (update_last (line_set_text (t @ s)) e)) = Inr e'"
      by (simp add: add_text_def Let_def)
    then obtain t' where "e' = update_last (line_set_text t') e"
      unfolding bind_result_Inr_iff by blast
    then show ?thesis
      using assms(1)
      by (simp only: emitter_get_text_strings emitter_get_strings_lines update_last_def lines_get_strings_append
          emitter_sel_simps butlast_snoc last_snoc line_set_text.simps same [of _ _ t'])
  qed
  moreover have "empty_lines n e = Inl Length_error" if "emitter_empty inner" "newline inner \<noteq> []"
    using that assms(1) by (simp add: empty_lines_def emitter_empty_def emitter_get_strings_lines)
  ultimately show ?thesis by blast
qed

lemma inline_line_pitfalls_witness:
  "empty_lines 1 (fst (create_inline_emitter ''  '' ''|'' (emitter_new ''  '' ''|''))) = Inl Length_error"
proof -
  let ?e = "fst (create_inline_emitter ''  '' ''|'' (emitter_new ''  '' ''|''))"
  have "lines ?e = [] @ [InlineLine 0 [] (emitter_new ''  '' ''|'')]"
    "(0 :: int) \<noteq> 0 \<or> n_indents ?e = 0 \<or> ([] :: string) = []" "emitter_empty (emitter_new ''  '' ''|'')"
    "newline (emitter_new ''  '' ''|'') \<noteq> []"
    by code_simp+
  from inline_line_pitfalls [OF this(1,2)] this(3,4) show ?thesis by blast
qed

end
