(* ===== verification/BinaryStream.thy ===== *)
theory BinaryStream
  imports Prelude
begin

text \<open>
  \<open>primitives::BinaryStream\<close> (emitter.h): a cursor over a buffer of bytes. A
  stream made from another one shares its buffer, so the buffers live in a heap
  and a stream holds the number of its buffer. Positions and sizes are the
  code's \<open>size_t\<close>, 64-bit words that wrap around.
\<close>

type_synonym byte = "8 word"
type_synonym size_t = "64 word"
type_synonym buffers = "byte list list"

text \<open>
  The pointer \<open>ptr\<close> is always the start of the buffer plus \<open>index_\<close>. \<open>st_buf\<close> is
  \<open>None\<close> for a default-constructed stream.
\<close>

record stream =
  st_buf :: "nat option"
  st_index :: size_t
  st_data_offset :: size_t
  st_size :: size_t
  st_end :: size_t

definition not_initialized :: cpp_error where
  "not_initialized = Logic_error ''BinaryContext: not initialized''"

definition out_of_range :: cpp_error where
  "out_of_range = Logic_error ''BinaryContext: out of range''"

definition too_much_data :: cpp_error where
  "too_much_data = Logic_error ''BinaryContext: too much data''"

definition alloc :: "byte list \<Rightarrow> buffers \<Rightarrow> buffers \<times> nat" where
  "alloc b h = (h @ [b], length h)"

definition buffer_size :: "byte list \<Rightarrow> size_t" where
  "buffer_size b = word_of_nat (length b)"

section \<open>Position\<close>

text \<open>\<open>skip(int)\<close>: the 32-bit argument is sign-extended before it is added.\<close>

definition skip :: "32 word \<Rightarrow> stream \<Rightarrow> stream result" where
  "skip n s =
     (if st_buf s = None then Inl not_initialized
      else Inr (s\<lparr>st_index := st_index s + scast n, st_data_offset := st_data_offset s + scast n\<rparr>))"

definition reset :: "stream \<Rightarrow> stream" where
  "reset s = s\<lparr>st_index := 0, st_data_offset := 0\<rparr>"

definition seek :: "size_t \<Rightarrow> stream \<Rightarrow> stream result" where
  "seek n s = skip (ucast n) (reset s)"

definition has :: "size_t \<Rightarrow> stream \<Rightarrow> bool" where
  "has n s \<longleftrightarrow> st_index s + n \<le> st_end s"

definition eof :: "stream \<Rightarrow> bool" where
  "eof s \<longleftrightarrow> st_index s = st_end s"

definition check_index :: "32 word \<Rightarrow> stream \<Rightarrow> bool" where
  "check_index i s \<longleftrightarrow> st_index s = scast i"

definition stream_empty :: "stream \<Rightarrow> bool" where
  "stream_empty s \<longleftrightarrow> st_size s = 0"

definition stream_buf :: "buffers \<Rightarrow> stream \<Rightarrow> byte list result" where
  "stream_buf h s = (case st_buf s of None \<Rightarrow> Inl not_initialized | Some i \<Rightarrow> Inr (h ! i))"

section \<open>Construction\<close>

definition stream_new :: stream where
  "stream_new = \<lparr>st_buf = None, st_index = 0, st_data_offset = 0, st_size = 0, st_end = 0\<rparr>"

text \<open>\<open>BinaryStream(size_t)\<close> only reserves memory: size and end stay zero.\<close>

definition stream_reserve :: "size_t \<Rightarrow> buffers \<Rightarrow> buffers \<times> stream" where
  "stream_reserve n h = (let (h, i) = alloc [] h in (h, stream_new\<lparr>st_buf := Some i\<rparr>))"

definition stream_of_string :: "byte list \<Rightarrow> buffers \<Rightarrow> buffers \<times> stream" where
  "stream_of_string b h =
     (let (h, i) = alloc b h
      in (h, stream_new\<lparr>st_buf := Some i, st_size := buffer_size b, st_end := buffer_size b\<rparr>))"

definition stream_of_vector :: "byte list \<Rightarrow> size_t \<Rightarrow> buffers \<Rightarrow> buffers \<times> stream" where
  "stream_of_vector b off h =
     (let (h, i) = alloc b h
      in (h, stream_new\<lparr>st_buf := Some i, st_data_offset := off, st_size := buffer_size b, st_end := buffer_size b\<rparr>))"

text \<open>
  \<open>BinaryStream(const BinaryStream \&, size_t)\<close> takes the next bytes of the other
  stream, which moves behind them; neither constructor of a part checks its
  bounds.
\<close>

definition sub_stream :: "stream \<Rightarrow> size_t \<Rightarrow> (stream \<times> stream) result" where
  "sub_stream s n =
     bind_result (skip (ucast n) s) (\<lambda>s'.
       Inr (s\<lparr>st_size := n, st_end := st_index s + n\<rparr>, s'))"

definition sub_stream_at :: "stream \<Rightarrow> size_t \<Rightarrow> size_t \<Rightarrow> stream result" where
  "sub_stream_at s n off =
     (if st_buf s = None then Inl Undefined
      else Inr \<lparr>st_buf = st_buf s, st_index = off, st_data_offset = off, st_size = n, st_end = off + n\<rparr>)"

section \<open>Reading and writing\<close>

definition read_bytes :: "buffers \<Rightarrow> size_t \<Rightarrow> size_t \<Rightarrow> stream \<Rightarrow> (byte list \<times> stream) result" where
  "read_bytes h n off s =
     (case st_buf s of
        None \<Rightarrow> Inl not_initialized
      | Some i \<Rightarrow>
          if st_index s \<ge> st_end s then Inl out_of_range
          else if st_index s + off + n > st_end s then Inl too_much_data
          else if unat (st_index s) + unat off + unat n > length (h ! i) then Inl Undefined
          else bind_result (skip (ucast (n + off)) s) (\<lambda>s'.
                 Inr (take (unat n) (drop (unat (st_index s) + unat off) (h ! i)), s')))"

text \<open>\<open>std::vector::resize\<close> on the shared buffer, which can also cut it.\<close>

definition resize_buffer :: "nat \<Rightarrow> byte list \<Rightarrow> byte list" where
  "resize_buffer n b = take n b @ replicate (n - length b) 0"

definition overwrite :: "nat \<Rightarrow> byte list \<Rightarrow> byte list \<Rightarrow> byte list" where
  "overwrite i src b = take i b @ src @ drop (i + length src) b"

definition write_bytes :: "buffers \<Rightarrow> byte list \<Rightarrow> stream \<Rightarrow> (buffers \<times> stream) result" where
  "write_bytes h src s =
     (let n = buffer_size src;
          (h, s) = (case st_buf s of
             None \<Rightarrow> (let (h, i) = alloc (replicate (length src) 0) h
                      in (h, s\<lparr>st_buf := Some i, st_size := n, st_end := n\<rparr>))
           | Some i \<Rightarrow> (h, s));
          i = the (st_buf s)
      in if st_index s > st_end s then Inl out_of_range
         else let (h, s) =
             (if st_index s + n > st_end s then
                let b = resize_buffer (unat (st_index s + n)) (h ! i)
                in (h[i := b], s\<lparr>st_size := buffer_size b, st_end := buffer_size b\<rparr>)
              else (h, s))
           in if unat (st_index s) + length src > length (h ! i) then Inl Undefined
              else bind_result (skip (ucast n) s) (\<lambda>s'. Inr (h[i := overwrite (unat (st_index s)) src (h ! i)], s')))"

text \<open>
  The typed versions multiply the number of elements by their size \<open>sz\<close>. A
  written string has a zero byte at its end.
\<close>

definition read_elems :: "buffers \<Rightarrow> size_t \<Rightarrow> size_t \<Rightarrow> stream \<Rightarrow> (byte list \<times> stream) result" where
  "read_elems h n sz s = read_bytes h (n * sz) 0 s"

definition readfrom_elems :: "buffers \<Rightarrow> size_t \<Rightarrow> size_t \<Rightarrow> size_t \<Rightarrow> stream \<Rightarrow> (byte list \<times> stream) result" where
  "readfrom_elems h n sz off s = read_bytes h (n * sz) off s"

definition write_string :: "buffers \<Rightarrow> byte list \<Rightarrow> stream \<Rightarrow> (buffers \<times> stream) result" where
  "write_string h src s = write_bytes h (src @ [0]) s"

text \<open>
  \<open>read(std::string \&)\<close> follows the pointer to the next zero byte without looking
  at the end of the stream; past the end of the buffer this is undefined.
\<close>

fun until_zero :: "byte list \<Rightarrow> byte list result" where
  "until_zero [] = Inl Undefined"
| "until_zero (b # bs) = (if b = 0 then Inr [] else bind_result (until_zero bs) (\<lambda>r. Inr (b # r)))"

definition read_string :: "buffers \<Rightarrow> stream \<Rightarrow> (byte list \<times> stream) result" where
  "read_string h s =
     (case st_buf s of
        None \<Rightarrow> Inl Undefined
      | Some i \<Rightarrow> bind_result (until_zero (drop (unat (st_index s)) (h ! i))) (\<lambda>str.
          bind_result (skip (ucast (buffer_size str + 1)) s) (\<lambda>s'. Inr (str, s'))))"

text \<open>
  \<open>read_vector\<close>: \<open>ld\<close> is the element's own \<open>load\<close>; a negative count cannot be
  reserved.
\<close>

fun read_vector_loop :: "(stream \<Rightarrow> ('a \<times> stream) result) \<Rightarrow> nat \<Rightarrow> stream \<Rightarrow> ('a list \<times> stream) result" where
  "read_vector_loop ld 0 s = Inr ([], s)"
| "read_vector_loop ld (Suc k) s =
     bind_result (ld s) (\<lambda>(t, s). bind_result (read_vector_loop ld k s) (\<lambda>(ts, s). Inr (t # ts, s)))"

definition read_vector :: "(stream \<Rightarrow> ('a \<times> stream) result) \<Rightarrow> 32 word \<Rightarrow> stream \<Rightarrow> ('a list \<times> stream) result" where
  "read_vector ld n s = (if sint n < 0 then Inl Length_error else read_vector_loop ld (nat (sint n)) s)"

fun word_of_bytes :: "byte list \<Rightarrow> size_t" where
  "word_of_bytes [] = 0"
| "word_of_bytes (b # bs) = ucast b + 256 * word_of_bytes bs"

definition read_sized_vector ::
  "buffers \<Rightarrow> size_t \<Rightarrow> (stream \<Rightarrow> ('a \<times> stream) result) \<Rightarrow> stream \<Rightarrow> ('a list \<times> stream) result" where
  "read_sized_vector h sz ld s =
     bind_result (read_elems h 1 sz s) (\<lambda>(bs, s). read_vector ld (ucast (word_of_bytes bs)) s)"

text \<open>\<open>load\<close> takes the contents of a file, \<open>save\<close> gives the bytes it writes.\<close>

definition load :: "('f \<Rightarrow> byte list result) \<Rightarrow> 'f \<Rightarrow> buffers \<Rightarrow> (buffers \<times> stream) result" where
  "load read_file fn h = bind_result (read_file fn) (\<lambda>b. Inr (stream_of_string b h))"

definition save :: "buffers \<Rightarrow> stream \<Rightarrow> byte list result" where
  "save h s =
     (case st_buf s of
        None \<Rightarrow> Inl Undefined
      | Some i \<Rightarrow> if unat (st_data_offset s) > length (h ! i) then Inl Undefined
                  else Inr (take (unat (st_data_offset s)) (h ! i)))"

section \<open>Words as numbers\<close>

lemma unat_less_uint: "unat (n :: 'a::len word) < k \<Longrightarrow> uint n < int k"
  by (metis of_nat_less_iff uint_nat)

lemma int_of_size: 
  assumes "unat (n :: size_t) < 2 ^ 31" shows "(scast (ucast n :: 32 word) :: size_t) = n"
proof -
  have u: "uint n < 2147483648" "0 \<le> uint n"
    using unat_less_uint [of n "2 ^ 31"] assms by simp_all
  then have "uint (ucast n :: 32 word) = uint n"
    by (simp add: unsigned_ucast_eq take_bit_int_eq_self_iff)
  then have "sint (ucast n :: 32 word) = uint n"
    using u(1) by (simp add: sint_uint signed_take_bit_int_eq_self_iff) (insert u(2), linarith)
  then show ?thesis by (simp add: scast_eq)
qed

lemma unat_plus: "unat (x :: size_t) + unat y < 2 ^ 64 \<Longrightarrow> unat (x + y) = unat x + unat y"
  by (subst unat_add_lem [symmetric]) simp

lemma unat_buffer_size: "length b < 2 ^ 64 \<Longrightarrow> unat (buffer_size b) = length b"
  by (simp add: buffer_size_def unat_of_nat take_bit_nat_eq_self)

lemma skip_small: "unat n < 2 ^ 31 \<Longrightarrow> st_buf s \<noteq> None \<Longrightarrow>
    skip (ucast n) s = Inr (s\<lparr>st_index := st_index s + n, st_data_offset := st_data_offset s + n\<rparr>)"
  by (simp add: skip_def int_of_size)

section \<open>Reading stays inside the buffer\<close>

text \<open>A stream whose end lies inside its buffer.\<close>

definition stream_ok :: "buffers \<Rightarrow> nat \<Rightarrow> stream \<Rightarrow> bool" where
  "stream_ok h i s \<longleftrightarrow> st_buf s = Some i \<and> i < length h
     \<and> unat (st_end s) \<le> length (h ! i) \<and> length (h ! i) < 2 ^ 63"

text \<open>
  A read from a stream that ends inside its buffer, with a position, offset and size
  that do not add up beyond 64 bits, either reports why it cannot read or returns the
  bytes at that place and moves behind them. An offset that wraps the sum around passes
  the check and reads outside the buffer.
\<close>

theorem read_bytes_safe:
  assumes "stream_ok h i s"
  shows "(unat (st_index s) + unat off + unat n < 2 ^ 64 \<longrightarrow>
      read_bytes h n off s =
        (if unat (st_index s) \<ge> unat (st_end s) then Inl out_of_range
         else if unat (st_index s) + unat off + unat n > unat (st_end s) then Inl too_much_data
         else bind_result (skip (ucast (n + off)) s) (\<lambda>s'.
           Inr (take (unat n) (drop (unat (st_index s) + unat off) (h ! i)), s'))))
    \<and> (st_index s < st_end s \<and> n \<noteq> 0 \<and> unat n \<le> 2 ^ 63 \<longrightarrow> read_bytes h n (- n) s = Inl Undefined)"
proof (intro conjI impI)
  assume sum: "unat (st_index s) + unat off + unat n < 2 ^ 64"
  have "unat (st_index s + off) = unat (st_index s) + unat off"
    using sum by (intro unat_plus) simp
  then have "unat (st_index s + off + n) = unat (st_index s) + unat off + unat n"
    using sum unat_plus [of "st_index s + off" n] by simp
  then show "read_bytes h n off s =
        (if unat (st_index s) \<ge> unat (st_end s) then Inl out_of_range
         else if unat (st_index s) + unat off + unat n > unat (st_end s) then Inl too_much_data
         else bind_result (skip (ucast (n + off)) s) (\<lambda>s'.
           Inr (take (unat n) (drop (unat (st_index s) + unat off) (h ! i)), s')))"
    using assms by (auto simp: read_bytes_def stream_ok_def word_le_nat_alt word_less_nat_alt)
next
  assume n: "st_index s < st_end s \<and> n \<noteq> 0 \<and> unat n \<le> 2 ^ 63"
  then have "unat (- n) + unat n = 2 ^ 64"
    using unat_sub_if_size [of 0 n] by (simp add: word_size unat_eq_0 order_less_imp_le)
  then have "length (h ! i) < unat (st_index s) + unat (- n) + unat n"
    using assms by (simp add: stream_ok_def)
  then show "read_bytes h n (- n) s = Inl Undefined"
    using n assms by (auto simp: read_bytes_def stream_ok_def)
qed

lemma read_bytes_safe_witness:
  "read_bytes [[1, 2, 3]] 1 (- 1) \<lparr>st_buf = Some 0, st_index = 0, st_data_offset = 0, st_size = 3, st_end = 3\<rparr>
     = Inl Undefined"
proof -
  let ?s = "\<lparr>st_buf = Some 0, st_index = 0, st_data_offset = 0, st_size = 3, st_end = 3\<rparr> :: stream"
  have "stream_ok [[1, 2, 3]] 0 ?s" "st_index ?s < st_end ?s \<and> (1 :: size_t) \<noteq> 0 \<and> unat (1 :: size_t) \<le> 2 ^ 63"
    by (simp_all add: stream_ok_def)
  then show ?thesis
    using read_bytes_safe [of "[[1, 2, 3]]" 0 ?s 0 1] by blast
qed

section \<open>Writing\<close>

lemma length_overwrite: "i + length src \<le> length b \<Longrightarrow> length (overwrite i src b) = length b"
  by (simp add: overwrite_def)

lemma overwrite_read: "i + length src \<le> length b \<Longrightarrow> take (length src) (drop i (overwrite i src b)) = src"
  by (simp add: overwrite_def)

lemma overwrite_resize:
  "i \<le> length b \<Longrightarrow> length b \<le> i + length src \<Longrightarrow>
     overwrite i src (resize_buffer (i + length src) b) = take i b @ src"
  by (auto simp: overwrite_def resize_buffer_def)

text \<open>The stream sees its whole buffer, and positions fit the \<open>int\<close> that moves them.\<close>

definition whole_stream :: "buffers \<Rightarrow> nat \<Rightarrow> stream \<Rightarrow> bool" where
  "whole_stream h i s \<longleftrightarrow> st_buf s = Some i \<and> i < length h
     \<and> unat (st_end s) = length (h ! i) \<and> unat (st_index s) \<le> length (h ! i)"

lemma write_bytes_whole:
  assumes "whole_stream h i s" "unat (st_index s) + length src < 2 ^ 31" "length (h ! i) < 2 ^ 31"
  shows "\<exists>s'. write_bytes h src s = Inr (h[i := take (unat (st_index s)) (h ! i) @ src
        @ drop (unat (st_index s) + length src) (h ! i)], s')
    \<and> st_buf s' = Some i \<and> unat (st_index s') = unat (st_index s) + length src
    \<and> unat (st_end s') = max (length (h ! i)) (unat (st_index s) + length src)"
proof -
  let ?k = "unat (st_index s)" and ?n = "buffer_size src"
  have n: "unat ?n = length src"
    using assms(2) by (intro unat_buffer_size) simp
  have k: "unat (st_index s + ?n) = ?k + length src"
    using assms(2) unat_plus [of "st_index s" ?n] n by simp
  have s: "st_buf s = Some i" "i < length h" "unat (st_end s) = length (h ! i)" "?k \<le> length (h ! i)"
    using assms(1) by (simp_all add: whole_stream_def)
  have skip: "skip (ucast ?n) t = Inr (t\<lparr>st_index := st_index t + ?n, st_data_offset := st_data_offset t + ?n\<rparr>)"
    if "st_buf t = Some i" for t
    using skip_small [of ?n t] that n assms(2) by simp
  show ?thesis
  proof (cases "?k + length src \<le> length (h ! i)")
    case True
    then have "\<not> st_index s + ?n > st_end s" "\<not> st_index s > st_end s"
      using s k by (simp_all add: word_less_nat_alt)
    then show ?thesis
      using True s k skip [of s] n by (simp add: write_bytes_def Let_def overwrite_def max_def)
  next
    case False
    define b where "b = resize_buffer (?k + length src) (h ! i)"
    have "st_index s + ?n > st_end s" "\<not> st_index s > st_end s"
      using False s k by (simp_all add: word_less_nat_alt)
    moreover have "length b = ?k + length src" "overwrite ?k src b = take ?k (h ! i) @ src"
      using False s(4) overwrite_resize [of ?k "h ! i" src] by (simp_all add: b_def resize_buffer_def)
    moreover have "unat (buffer_size b) = length b"
      using assms(2) \<open>length b = _\<close> by (intro unat_buffer_size) simp
    ultimately show ?thesis
      using False s k skip n by (simp add: write_bytes_def Let_def b_def [symmetric] max_def)
  qed
qed

text \<open>
  Writing bytes at any position of a stream over a whole buffer puts them there,
  growing the buffer as needed and changing nothing else; after seeking back, reading as
  many bytes returns them and leaves the stream where the write did.
\<close>

theorem write_read_bytes:
  assumes "whole_stream h i s" "unat (st_index s) + length src < 2 ^ 31" "length (h ! i) < 2 ^ 31" "src \<noteq> []"
  shows "\<exists>h' s' s''. write_bytes h src s = Inr (h', s')
    \<and> h' = h[i := take (unat (st_index s)) (h ! i) @ src @ drop (unat (st_index s) + length src) (h ! i)]
    \<and> whole_stream h' i s'
    \<and> bind_result (seek (st_index s) s') (read_bytes h' (buffer_size src) 0) = Inr (src, s'')
    \<and> st_index s'' = st_index s'"
proof -
  let ?k = "unat (st_index s)"
  let ?b = "take ?k (h ! i) @ src @ drop (?k + length src) (h ! i)"
  obtain s' where w: "write_bytes h src s = Inr (h[i := ?b], s')" "st_buf s' = Some i"
    "unat (st_index s') = ?k + length src" "unat (st_end s') = max (length (h ! i)) (?k + length src)"
    using write_bytes_whole [OF assms(1-3)] by blast
  have s: "i < length h" "?k \<le> length (h ! i)"
    using assms(1) by (simp_all add: whole_stream_def)
  have len: "length ?b = max (length (h ! i)) (?k + length src)"
    using s(2) by auto
  have whole: "whole_stream (h[i := ?b]) i s'"
    using w s len by (simp add: whole_stream_def)
  have n: "unat (buffer_size src) = length src"
    using assms(2) by (intro unat_buffer_size) simp
  define t where "t = s'\<lparr>st_index := st_index s, st_data_offset := st_index s\<rparr>"
  have seek: "seek (st_index s) s' = Inr t"
    using skip_small [of "st_index s" "reset s'"] w(2) assms(2) by (simp add: seek_def reset_def t_def)
  have ok: "stream_ok (h[i := ?b]) i t"
    using w s len assms(2,3) by (simp add: stream_ok_def t_def)
  have "read_bytes (h[i := ?b]) (buffer_size src) 0 t = bind_result (skip (ucast (buffer_size src)) t) (\<lambda>s'. Inr (src, s'))"
    using read_bytes_safe [OF ok, of 0 "buffer_size src"] n w(4) s assms(2,4) by (simp add: t_def)
  also have "\<dots> = Inr (src, t\<lparr>st_index := st_index t + buffer_size src, st_data_offset := st_data_offset t + buffer_size src\<rparr>)"
    using skip_small [of "buffer_size src" t] n assms(2) w(2) by (simp add: t_def)
  finally have read: "read_bytes (h[i := ?b]) (buffer_size src) 0 t =
      Inr (src, t\<lparr>st_index := st_index t + buffer_size src, st_data_offset := st_data_offset t + buffer_size src\<rparr>)" .
  have "st_index t + buffer_size src = st_index s'"
    using w(3) n assms(2) unat_plus [of "st_index s" "buffer_size src"] by (simp add: t_def word_unat_eq_iff)
  with w(1) whole seek read show ?thesis by simp
qed

lemma write_read_bytes_witness:
  "\<exists>s' s''. write_bytes [[1, 2, 3]] [7, 8, 9] \<lparr>st_buf = Some 0, st_index = 2, st_data_offset = 2, st_size = 3, st_end = 3\<rparr>
       = Inr ([[1, 2, 7, 8, 9]], s')
     \<and> bind_result (seek 2 s') (read_bytes [[1, 2, 7, 8, 9]] 3 0) = Inr ([7, 8, 9], s'')"
proof -
  let ?s = "\<lparr>st_buf = Some 0, st_index = 2, st_data_offset = 2, st_size = 3, st_end = 3\<rparr> :: stream"
  have "whole_stream [[1, 2, 3]] 0 ?s" "unat (st_index ?s) + length [7, 8, 9 :: byte] < 2 ^ 31"
    "length ([[1, 2, 3 :: byte]] ! 0) < 2 ^ 31" "[7, 8, 9 :: byte] \<noteq> []"
    by (simp_all add: whole_stream_def)
  from write_read_bytes [OF this] show ?thesis
    by (auto simp: buffer_size_def)
qed

text \<open>
  Writing more bytes into a part of a stream than the part holds cuts the buffer it
  shares right behind them when the buffer went on; the stream it was taken from keeps
  its old end, and reading its rest leaves the buffer.
\<close>

theorem sub_stream_write_cuts:
  assumes "whole_stream h i s" "length (h ! i) < 2 ^ 31"
    and "unat n < length src" "unat off + length src < length (h ! i)"
    and "sub_stream_at s n off = Inr sub"
  shows "\<exists>sub'. write_bytes h src sub = Inr (h[i := take (unat off) (h ! i) @ src], sub')
    \<and> (\<forall>m. unat (st_index s) + unat m \<le> length (h ! i) \<and> unat (st_index s) + unat m > unat off + length src
         \<and> m \<noteq> 0 \<longrightarrow> read_bytes (h[i := take (unat off) (h ! i) @ src]) m 0 s = Inl Undefined)"
proof -
  let ?k = "unat off" and ?n = "buffer_size src"
  have s: "st_buf s = Some i" "i < length h" "unat (st_end s) = length (h ! i)"
    using assms(1) by (simp_all add: whole_stream_def)
  have sub: "sub = \<lparr>st_buf = Some i, st_index = off, st_data_offset = off, st_size = n, st_end = off + n\<rparr>"
    using assms(5) s(1) by (simp add: sub_stream_at_def)
  have n: "unat ?n = length src"
    using assms(2,4) by (intro unat_buffer_size) simp
  have sums: "unat (off + ?n) = ?k + length src" "unat (off + n) = ?k + unat n"
    using n assms(2-4) unat_plus [of off ?n] unat_plus [of off n] by simp_all
  have cmp: "off + ?n > off + n" "\<not> off > off + n"
    using sums assms(3) by (simp_all add: word_less_nat_alt)
  define b where "b = resize_buffer (?k + length src) (h ! i)"
  have b: "length b = ?k + length src" "overwrite ?k src b = take ?k (h ! i) @ src"
    using assms(4) by (simp_all add: b_def resize_buffer_def overwrite_def min_def)
  have "write_bytes h src sub = Inr (h[i := take ?k (h ! i) @ src],
      sub\<lparr>st_index := off + ?n, st_data_offset := off + ?n, st_size := buffer_size b, st_end := buffer_size b\<rparr>)"
    using s(2) cmp sums(1) b n skip_small [of ?n] assms(2,4)
    by (simp add: write_bytes_def Let_def sub b_def [symmetric])
  moreover have "read_bytes (h[i := take ?k (h ! i) @ src]) m 0 s = Inl Undefined"
    if "unat (st_index s) + unat m \<le> length (h ! i)" "unat (st_index s) + unat m > ?k + length src" "m \<noteq> 0" for m
  proof -
    have "unat (st_index s + m) = unat (st_index s) + unat m"
      using that(1) assms(2) by (intro unat_plus) simp
    moreover have "0 < unat m"
      using that(3) by (simp add: unat_gt_0)
    ultimately show ?thesis
      using that s assms(4) by (simp add: read_bytes_def word_le_nat_alt word_less_nat_alt)
  qed
  ultimately show ?thesis by blast
qed

lemma sub_stream_write_cuts_witness:
  "\<exists>sub'. write_bytes [[1, 2, 3, 4]] [7, 8] \<lparr>st_buf = Some 0, st_index = 0, st_data_offset = 0, st_size = 1, st_end = 1\<rparr>
     = Inr ([[7, 8]], sub')"
proof -
  let ?s = "\<lparr>st_buf = Some 0, st_index = 0, st_data_offset = 0, st_size = 4, st_end = 4\<rparr> :: stream"
  have "whole_stream [[1, 2, 3, 4]] 0 ?s" "length ([[1, 2, 3, 4 :: byte]] ! 0) < 2 ^ 31"
    "unat (1 :: size_t) < length [7, 8 :: byte]" "unat (0 :: size_t) + length [7, 8 :: byte] < length ([[1, 2, 3, 4 :: byte]] ! 0)"
    "sub_stream_at ?s 1 0 = Inr \<lparr>st_buf = Some 0, st_index = 0, st_data_offset = 0, st_size = 1, st_end = 1\<rparr>"
    by (simp_all add: whole_stream_def sub_stream_at_def)
  from sub_stream_write_cuts [OF this] show ?thesis by auto
qed

lemma until_zero_string: "0 \<notin> set src \<Longrightarrow> until_zero (src @ 0 # rest) = Inr src"
  by (induction src) auto

text \<open>
  A string without a zero byte that was written into a stream over a whole buffer is
  read back from the same position, and the stream then stands behind its end mark.
\<close>

theorem write_read_string:
  assumes "whole_stream h i s" "unat (st_index s) + length str + 1 < 2 ^ 31" "length (h ! i) < 2 ^ 31" "0 \<notin> set str"
  shows "\<exists>h' s' s''. write_string h str s = Inr (h', s')
    \<and> bind_result (seek (st_index s) s') (read_string h') = Inr (str, s'') \<and> st_index s'' = st_index s'"
proof -
  let ?k = "unat (st_index s)"
  let ?b = "take ?k (h ! i) @ (str @ [0]) @ drop (?k + length (str @ [0])) (h ! i)"
  obtain s' where w: "write_bytes h (str @ [0]) s = Inr (h[i := ?b], s')" "st_buf s' = Some i"
    "unat (st_index s') = ?k + length (str @ [0])"
    using write_bytes_whole [of h i s "str @ [0]"] assms by auto
  have s: "i < length h" "?k \<le> length (h ! i)"
    using assms(1) by (simp_all add: whole_stream_def)
  define t where "t = s'\<lparr>st_index := st_index s, st_data_offset := st_index s\<rparr>"
  have seek: "seek (st_index s) s' = Inr t"
    using skip_small [of "st_index s" "reset s'"] w(2) assms(2) by (simp add: seek_def reset_def t_def)
  have n: "unat (buffer_size str + 1) = length str + 1"
    using assms(2) unat_buffer_size [of str] unat_plus [of "buffer_size str" 1] by simp
  have "drop ?k ?b = str @ 0 # drop (?k + length (str @ [0])) (h ! i)"
    using s(2) by simp
  then have "until_zero (drop (unat (st_index t)) (h[i := ?b] ! i)) = Inr str"
    using s(1) until_zero_string [OF assms(4)] by (simp add: t_def)
  then have "read_string (h[i := ?b]) t = Inr (str, t\<lparr>st_index := st_index t + (buffer_size str + 1),
      st_data_offset := st_data_offset t + (buffer_size str + 1)\<rparr>)"
    using skip_small [of "buffer_size str + 1" t] n assms(2) w(2) by (simp add: read_string_def t_def)
  moreover have "st_index t + (buffer_size str + 1) = st_index s'"
    using w(3) n assms(2) unat_plus [of "st_index s" "buffer_size str + 1"] by (simp add: t_def word_unat_eq_iff)
  ultimately show ?thesis
    using w(1) seek by (auto simp: write_string_def)
qed

lemma write_read_string_witness:
  "\<exists>h' s' s''. write_string [[]] [104, 105] \<lparr>st_buf = Some 0, st_index = 0, st_data_offset = 0, st_size = 0, st_end = 0\<rparr> = Inr (h', s')
    \<and> bind_result (seek 0 s') (read_string h') = Inr ([104, 105], s'')"
proof -
  let ?s = "\<lparr>st_buf = Some 0, st_index = 0, st_data_offset = 0, st_size = 0, st_end = 0\<rparr> :: stream"
  have "whole_stream [[]] 0 ?s" "unat (st_index ?s) + length [104, 105 :: byte] + 1 < 2 ^ 31"
    "length ([[] :: byte list] ! 0) < 2 ^ 31" "0 \<notin> set [104, 105 :: byte]"
    by (simp_all add: whole_stream_def)
  from write_read_string [OF this] show ?thesis by auto
qed

end
