(* ===== verification/Crc32.thy ===== *)
theory Crc32
  imports Prelude
begin

text \<open>
  \<open>primitives::templates2::crc32\<close> (crc32.h): the table-driven checksum, and the
  bitwise division by the polynomial that the table stands for.
\<close>

unbundle bit_operations_syntax

section \<open>The code\<close>

definition crc32_table :: "32 word list" where
  "crc32_table = [
    0x00000000, 0x04c11db7, 0x09823b6e, 0x0d4326d9, 0x130476dc, 0x17c56b6b, 0x1a864db2, 0x1e475005,
    0x2608edb8, 0x22c9f00f, 0x2f8ad6d6, 0x2b4bcb61, 0x350c9b64, 0x31cd86d3, 0x3c8ea00a, 0x384fbdbd,
    0x4c11db70, 0x48d0c6c7, 0x4593e01e, 0x4152fda9, 0x5f15adac, 0x5bd4b01b, 0x569796c2, 0x52568b75,
    0x6a1936c8, 0x6ed82b7f, 0x639b0da6, 0x675a1011, 0x791d4014, 0x7ddc5da3, 0x709f7b7a, 0x745e66cd,
    0x9823b6e0, 0x9ce2ab57, 0x91a18d8e, 0x95609039, 0x8b27c03c, 0x8fe6dd8b, 0x82a5fb52, 0x8664e6e5,
    0xbe2b5b58, 0xbaea46ef, 0xb7a96036, 0xb3687d81, 0xad2f2d84, 0xa9ee3033, 0xa4ad16ea, 0xa06c0b5d,
    0xd4326d90, 0xd0f37027, 0xddb056fe, 0xd9714b49, 0xc7361b4c, 0xc3f706fb, 0xceb42022, 0xca753d95,
    0xf23a8028, 0xf6fb9d9f, 0xfbb8bb46, 0xff79a6f1, 0xe13ef6f4, 0xe5ffeb43, 0xe8bccd9a, 0xec7dd02d,
    0x34867077, 0x30476dc0, 0x3d044b19, 0x39c556ae, 0x278206ab, 0x23431b1c, 0x2e003dc5, 0x2ac12072,
    0x128e9dcf, 0x164f8078, 0x1b0ca6a1, 0x1fcdbb16, 0x018aeb13, 0x054bf6a4, 0x0808d07d, 0x0cc9cdca,
    0x7897ab07, 0x7c56b6b0, 0x71159069, 0x75d48dde, 0x6b93dddb, 0x6f52c06c, 0x6211e6b5, 0x66d0fb02,
    0x5e9f46bf, 0x5a5e5b08, 0x571d7dd1, 0x53dc6066, 0x4d9b3063, 0x495a2dd4, 0x44190b0d, 0x40d816ba,
    0xaca5c697, 0xa864db20, 0xa527fdf9, 0xa1e6e04e, 0xbfa1b04b, 0xbb60adfc, 0xb6238b25, 0xb2e29692,
    0x8aad2b2f, 0x8e6c3698, 0x832f1041, 0x87ee0df6, 0x99a95df3, 0x9d684044, 0x902b669d, 0x94ea7b2a,
    0xe0b41de7, 0xe4750050, 0xe9362689, 0xedf73b3e, 0xf3b06b3b, 0xf771768c, 0xfa325055, 0xfef34de2,
    0xc6bcf05f, 0xc27dede8, 0xcf3ecb31, 0xcbffd686, 0xd5b88683, 0xd1799b34, 0xdc3abded, 0xd8fba05a,
    0x690ce0ee, 0x6dcdfd59, 0x608edb80, 0x644fc637, 0x7a089632, 0x7ec98b85, 0x738aad5c, 0x774bb0eb,
    0x4f040d56, 0x4bc510e1, 0x46863638, 0x42472b8f, 0x5c007b8a, 0x58c1663d, 0x558240e4, 0x51435d53,
    0x251d3b9e, 0x21dc2629, 0x2c9f00f0, 0x285e1d47, 0x36194d42, 0x32d850f5, 0x3f9b762c, 0x3b5a6b9b,
    0x0315d626, 0x07d4cb91, 0x0a97ed48, 0x0e56f0ff, 0x1011a0fa, 0x14d0bd4d, 0x19939b94, 0x1d528623,
    0xf12f560e, 0xf5ee4bb9, 0xf8ad6d60, 0xfc6c70d7, 0xe22b20d2, 0xe6ea3d65, 0xeba91bbc, 0xef68060b,
    0xd727bbb6, 0xd3e6a601, 0xdea580d8, 0xda649d6f, 0xc423cd6a, 0xc0e2d0dd, 0xcda1f604, 0xc960ebb3,
    0xbd3e8d7e, 0xb9ff90c9, 0xb4bcb610, 0xb07daba7, 0xae3afba2, 0xaafbe615, 0xa7b8c0cc, 0xa379dd7b,
    0x9b3660c6, 0x9ff77d71, 0x92b45ba8, 0x9675461f, 0x8832161a, 0x8cf30bad, 0x81b02d74, 0x857130c3,
    0x5d8a9099, 0x594b8d2e, 0x5408abf7, 0x50c9b640, 0x4e8ee645, 0x4a4ffbf2, 0x470cdd2b, 0x43cdc09c,
    0x7b827d21, 0x7f436096, 0x7200464f, 0x76c15bf8, 0x68860bfd, 0x6c47164a, 0x61043093, 0x65c52d24,
    0x119b4be9, 0x155a565e, 0x18197087, 0x1cd86d30, 0x029f3d35, 0x065e2082, 0x0b1d065b, 0x0fdc1bec,
    0x3793a651, 0x3352bbe6, 0x3e119d3f, 0x3ad08088, 0x2497d08d, 0x2056cd3a, 0x2d15ebe3, 0x29d4f654,
    0xc5a92679, 0xc1683bce, 0xcc2b1d17, 0xc8ea00a0, 0xd6ad50a5, 0xd26c4d12, 0xdf2f6bcb, 0xdbee767c,
    0xe3a1cbc1, 0xe760d676, 0xea23f0af, 0xeee2ed18, 0xf0a5bd1d, 0xf464a0aa, 0xf9278673, 0xfde69bc4,
    0x89b8fd09, 0x8d79e0be, 0x803ac667, 0x84fbdbd0, 0x9abc8bd5, 0x9e7d9662, 0x933eb0bb, 0x97ffad0c,
    0xafb010b1, 0xab710d06, 0xa6322bdf, 0xa2f33668, 0xbcb4666d, 0xb8757bda, 0xb5365d03, 0xb1f740b4
  ]"

text \<open>One turn of the loop: the top byte selects the table entry.\<close>

definition crc32_step :: "32 word \<Rightarrow> 8 word \<Rightarrow> 32 word" where
  "crc32_step crc b = push_bit 8 crc XOR crc32_table ! unat ((drop_bit 24 crc XOR ucast b) AND 255)"

definition crc32 :: "8 word list \<Rightarrow> 32 word \<Rightarrow> 32 word" where
  "crc32 buf init = foldl crc32_step init buf"

section \<open>The polynomial\<close>

text \<open>Shift out the top bit and subtract the polynomial when it was set.\<close>

definition poly_step :: "32 word \<Rightarrow> 32 word" where
  "poly_step c = push_bit 1 c XOR (if bit c 31 then 0x04c11db7 else 0)"

definition poly_byte :: "32 word \<Rightarrow> 8 word \<Rightarrow> 32 word" where
  "poly_byte crc b = (poly_step ^^ 8) (crc XOR push_bit 24 (ucast b))"

lemma poly_step_xor: "poly_step (a XOR b) = poly_step a XOR poly_step b"
  by (auto simp: poly_step_def bit_xor_iff push_bit_xor xor.assoc xor.left_commute)

lemma poly_steps_xor: "(poly_step ^^ n) (a XOR b) = (poly_step ^^ n) a XOR (poly_step ^^ n) b"
  by (induction n) (simp_all add: poly_step_xor)

lemma poly_step_low: "\<not> bit c 31 \<Longrightarrow> poly_step c = push_bit 1 c"
  by (simp add: poly_step_def)

lemma poly_steps_8: "(poly_step ^^ 8) c =
    poly_step (poly_step (poly_step (poly_step (poly_step (poly_step (poly_step (poly_step c)))))))"
  by (simp add: numeral_nat)

text \<open>A value without its upper \<open>n\<close> bits is only shifted by \<open>n\<close> steps.\<close>

lemma poly_steps_low: "(\<And>k. k < n \<Longrightarrow> \<not> bit c (31 - k)) \<Longrightarrow> n \<le> 31 \<Longrightarrow> (poly_step ^^ n) c = push_bit n c"
proof (induction n)
  case (Suc n)
  then have "(poly_step ^^ n) c = push_bit n c"
    by simp
  moreover have "\<not> bit (push_bit n c) 31"
    using Suc.prems(1) [of n] Suc.prems(2) by (simp add: bit_push_bit_iff)
  ultimately show ?case
    using poly_step_low [of "push_bit n c"] by (simp add: push_bit_push_bit del: push_bit_Suc)
qed simp

section \<open>The table\<close>

text \<open>Every entry follows from the one at half its index.\<close>

lemma crc32_table_rule:
  "crc32_table = concat (map (\<lambda>x. [poly_step x, poly_step x XOR 0x04c11db7]) (take 128 crc32_table))"
  by (simp add: crc32_table_def poly_step_def push_bit_eq_mult bit_numeral_word_iff)

lemma nth_concat_pairs:
  "j < length xs \<Longrightarrow> concat (map (\<lambda>x. [f x, g x]) xs) ! (2 * j) = f (xs ! j)
     \<and> concat (map (\<lambda>x. [f x, g x]) xs) ! Suc (2 * j) = g (xs ! j)"
proof (induction xs arbitrary: j)
  case (Cons x xs)
  then show ?case by (cases j) auto
qed simp

lemma crc32_table_nth:
  assumes "j < 128"
  shows "crc32_table ! (2 * j) = poly_step (crc32_table ! j)"
    "crc32_table ! Suc (2 * j) = poly_step (crc32_table ! j) XOR 0x04c11db7"
proof -
  have len: "length (take 128 crc32_table) = 128"
    by (simp add: crc32_table_def)
  note nth = nth_concat_pairs [of j "take 128 crc32_table" poly_step "\<lambda>x. poly_step x XOR 0x04c11db7",
      unfolded len, OF assms]
  show "crc32_table ! (2 * j) = poly_step (crc32_table ! j)"
    using nth assms by (subst crc32_table_rule) simp
  show "crc32_table ! Suc (2 * j) = poly_step (crc32_table ! j) XOR 0x04c11db7"
    using nth assms by (subst crc32_table_rule) simp
qed

definition top_byte :: "nat \<Rightarrow> 32 word" where
  "top_byte i = push_bit 24 (word_of_nat i)"

lemma top_byte_double:
  assumes "j < 128"
  shows "top_byte (2 * j) = poly_step (top_byte j)" "top_byte (Suc (2 * j)) = poly_step (top_byte j) XOR top_byte 1"
proof -
  have "\<not> bit j 7"
    using assms by (simp add: bit_iff_odd)
  then have "\<not> bit (top_byte j) 31"
    by (simp add: top_byte_def bit_push_bit_iff bit_of_nat_iff)
  then have step: "poly_step (top_byte j) = push_bit 1 (top_byte j)"
    by (rule poly_step_low)
  show even: "top_byte (2 * j) = poly_step (top_byte j)"
    unfolding step by (simp add: top_byte_def push_bit_eq_mult)
  have "(of_nat (Suc (2 * j)) :: 32 word) = of_nat (2 * j) XOR 1"
    by (rule bit_word_eqI) (auto simp: bit_of_nat_iff bit_xor_iff bit_1_iff bit_double_iff even_bit_succ_iff)
  then have "top_byte (Suc (2 * j)) = top_byte (2 * j) XOR top_byte 1"
    unfolding top_byte_def by (simp only: push_bit_xor of_nat_1)
  then show "top_byte (Suc (2 * j)) = poly_step (top_byte j) XOR top_byte 1"
    by (simp only: even)
qed

lemma crc32_table_poly: "i < 256 \<Longrightarrow> crc32_table ! i = (poly_step ^^ 8) (top_byte i)"
proof (induction i rule: less_induct)
  case (less i)
  have one: "(poly_step ^^ 8) (top_byte 1) = 0x04c11db7"
    by (simp add: top_byte_def poly_steps_8 poly_step_def push_bit_eq_mult bit_numeral_word_iff)
  show ?case
  proof (cases "i = 0")
    case True
    then show ?thesis
      using poly_step_low [of 0] by (simp add: crc32_table_def top_byte_def poly_steps_8)
  next
    case False
    obtain j where j: "i = 2 * j \<or> i = Suc (2 * j)"
      by (metis evenE oddE Suc_eq_plus1)
    then have "j < 128" "crc32_table ! j = (poly_step ^^ 8) (top_byte j)"
      using less False by auto
    moreover have "poly_step ((poly_step ^^ 8) c) = (poly_step ^^ 8) (poly_step c)" for c
      by (simp add: funpow_swap1)
    ultimately show ?thesis
      using j one by (auto simp: crc32_table_nth top_byte_double poly_steps_xor)
  qed
qed

section \<open>The checksum\<close>

lemma mask_byte: "x AND 255 = take_bit 8 (x :: 32 word)"
  by (simp add: take_bit_eq_mask mask_eq_exp_minus_1)

lemma unat_mask_byte: "unat (take_bit 8 x :: 32 word) < 256"
  unfolding unsigned_take_bit_eq by (simp add: take_bit_eq_mod)

lemma crc32_step_poly: "crc32_step crc b = poly_byte crc b"
proof -
  define i where "i = take_bit 8 (drop_bit 24 crc XOR ucast b)"
  have "crc XOR push_bit 24 (ucast b) = push_bit 24 i XOR take_bit 24 crc"
    by (rule bit_word_eqI)
      (auto simp: i_def bit_xor_iff bit_push_bit_iff bit_take_bit_iff bit_drop_bit_eq bit_simps
        dest: bit_imp_le_length)
  moreover have "push_bit 24 i = top_byte (unat i)"
    by (simp add: top_byte_def)
  moreover have "(poly_step ^^ 8) (take_bit 24 crc) = push_bit 8 (take_bit 24 crc)"
    by (rule poly_steps_low) (auto simp: bit_take_bit_iff)
  moreover have "push_bit 8 (take_bit 24 crc) = push_bit 8 crc"
    by (rule bit_word_eqI) (auto simp: bit_push_bit_iff bit_take_bit_iff dest: bit_imp_le_length)
  ultimately have "poly_byte crc b = crc32_table ! unat i XOR push_bit 8 crc"
    using crc32_table_poly [of "unat i"] unat_mask_byte [of "drop_bit 24 crc XOR ucast b"]
    by (simp add: poly_byte_def poly_steps_xor i_def [symmetric] del: take_bit_xor)
  then show ?thesis
    unfolding crc32_step_def mask_byte i_def [symmetric] by (simp add: xor.commute)
qed

text \<open>
  C18: The table-driven checksum is the remainder of the bitwise division by the
  polynomial 0x04c11db7, eight steps for every byte, for every buffer and start value.
\<close>

theorem crc32_polynomial: "crc32 buf init = foldl poly_byte init buf"
  unfolding crc32_def
  by (rule arg_cong [where f = "\<lambda>f. foldl f init buf"]) (simp add: fun_eq_iff crc32_step_poly)

lemma xor_cancel: "x XOR z = y XOR z \<Longrightarrow> x = (y :: 'a::len word)"
proof -
  assume "x XOR z = y XOR z"
  then have "(x XOR z) XOR z = (y XOR z) XOR z" by (rule arg_cong)
  then show "x = y" by (simp add: xor.assoc)
qed

text \<open>A step loses nothing: the polynomial's lowest bit tells whether it was subtracted.\<close>

lemma poly_step_0: "poly_step c = 0 \<Longrightarrow> c = 0"
proof -
  assume zero: "poly_step c = 0"
  have one: "bit (0x04c11db7 :: 32 word) 0"
    by (simp add: bit_0)
  have "bit (poly_step c) 0 \<longleftrightarrow> bit c 31"
    using one by (cases "bit c 31") (simp_all only: poly_step_def bit_xor_iff bit_push_bit_iff bit_0_eq
        if_True if_False xor.right_neutral bot_apply bot_bool_def, simp_all)
  with zero have top: "\<not> bit c 31" by simp
  then have shifted: "push_bit 1 c = 0"
    using zero poly_step_low [OF top] by metis
  have "\<not> bit c n" if "n < 31" for n
  proof -
    have "bit (push_bit 1 c) (Suc n) \<longleftrightarrow> bit c n"
      using that by (simp only: bit_push_bit_iff) simp
    with shifted show ?thesis by simp
  qed
  with top have "\<not> bit c n" if "n < 32" for n
    using that by (cases "n = 31") auto
  then show ?thesis
    by (intro bit_word_eqI) simp
qed

lemma poly_steps_inj: "(poly_step ^^ n) a = (poly_step ^^ n) b \<Longrightarrow> a = b"
proof (induction n)
  case (Suc n)
  then have "poly_step ((poly_step ^^ n) a XOR (poly_step ^^ n) b) = 0"
    by (simp add: poly_step_xor)
  then have "(poly_step ^^ n) a XOR (poly_step ^^ n) b = 0"
    by (rule poly_step_0)
  then have "(poly_step ^^ n) a = (poly_step ^^ n) b"
    using xor_cancel [of "(poly_step ^^ n) a" "(poly_step ^^ n) b" "(poly_step ^^ n) b"] by simp
  then show ?case by (rule Suc.IH)
qed simp

lemma crc32_step_inj:
  "crc32_step a b = crc32_step a' b \<Longrightarrow> a = a'"
  "crc32_step a b = crc32_step a b' \<Longrightarrow> b = b'"
proof -
  assume "crc32_step a b = crc32_step a' b"
  then have "a XOR push_bit 24 (ucast b) = a' XOR push_bit 24 (ucast b)"
    unfolding crc32_step_poly poly_byte_def by (rule poly_steps_inj)
  then show "a = a'"
    by (rule xor_cancel)
next
  assume "crc32_step a b = crc32_step a b'"
  then have "a XOR push_bit 24 (ucast b) = a XOR push_bit 24 (ucast b')"
    unfolding crc32_step_poly poly_byte_def by (rule poly_steps_inj)
  then have eq: "push_bit 24 (ucast b) = (push_bit 24 (ucast b') :: 32 word)"
    using xor_cancel [of _ a] by (simp add: xor.commute)
  have "bit b n \<longleftrightarrow> bit b' n" if "n < 8" for n
  proof -
    have "bit (push_bit 24 (ucast c) :: 32 word) (24 + n) \<longleftrightarrow> bit c n" for c :: "8 word"
      using that by (simp add: bit_push_bit_iff bit_ucast_iff)
    with eq show ?thesis by metis
  qed
  then show "b = b'"
    by (intro bit_word_eqI) simp
qed

lemma crc32_init_inj: "crc32 buf a = crc32 buf a' \<Longrightarrow> a = a'"
  unfolding crc32_def by (induction buf arbitrary: a a') (auto dest: crc32_step_inj)

text \<open>
  A buffer in which one byte was changed has a different checksum.
\<close>

theorem crc32_detects_byte:
  assumes "b \<noteq> b'"
  shows "crc32 (xs @ b # ys) init \<noteq> crc32 (xs @ b' # ys) init"
proof
  assume "crc32 (xs @ b # ys) init = crc32 (xs @ b' # ys) init"
  then have "crc32 ys (crc32_step (crc32 xs init) b) = crc32 ys (crc32_step (crc32 xs init) b')"
    by (simp add: crc32_def)
  then have "crc32_step (crc32 xs init) b = crc32_step (crc32 xs init) b'"
    by (rule crc32_init_inj)
  with assms show False
    by (auto dest: crc32_step_inj)
qed

lemma crc32_detects_byte_witness: "crc32 [1, 2, 3] 0 \<noteq> crc32 [1, 5, 3] 0"
  using crc32_detects_byte [of 2 5 "[1]" "[3]" 0] by simp

end
