(* ===== verification/BaseN.thy ===== *)
theory BaseN
  imports Prelude
begin

text \<open>
  \<open>base_raw\<close> (templates2/base64.h), the encoder and decoder behind base16, base32,
  base62 and base64, and the string helpers of templates2/string.h. The template
  arguments are a record; the block converter \<open>b2\<close> keeps its data array and count,
  and writes through an output pointer that is an index into the output string.
\<close>

unbundle bit_operations_syntax

section \<open>Parameters\<close>

type_synonym u8 = "8 word"

record base =
  alphabet :: string
  padding :: char
  with_pad :: bool

text \<open>\<open>n_bits\<close> is the number of zero bits of the next power of two of the alphabet size.\<close>

fun ceil_log2 :: "nat \<Rightarrow> nat" where
  "ceil_log2 n = (if n \<le> 1 then 0 else Suc (ceil_log2 ((n + 1) div 2)))"

declare ceil_log2.simps [simp del]

definition divceil :: "nat \<Rightarrow> nat \<Rightarrow> nat" where
  "divceil x y = (x + y - 1) div y"

definition byte_bits :: nat where
  "byte_bits = 8"

definition n_bits :: "base \<Rightarrow> nat" where
  "n_bits c = ceil_log2 (length (alphabet c))"

definition block_lcm :: "base \<Rightarrow> nat" where
  "block_lcm c = lcm byte_bits (n_bits c)"

definition decoded_block_size :: "base \<Rightarrow> nat" where
  "decoded_block_size c = block_lcm c div byte_bits"

definition encoded_block_size :: "base \<Rightarrow> nat" where
  "encoded_block_size c = block_lcm c div n_bits c"

definition encoded_size :: "base \<Rightarrow> nat \<Rightarrow> nat" where
  "encoded_size c n = divceil n (decoded_block_size c) * encoded_block_size c"

definition decoded_size :: "base \<Rightarrow> nat \<Rightarrow> nat" where
  "decoded_size c n = divceil n (encoded_block_size c) * decoded_block_size c"

definition byte_of_char :: "char \<Rightarrow> u8" where
  "byte_of_char ch = word_of_nat (of_char ch)"

text \<open>
  The alphabet is a character array with a zero byte behind its last character;
  the decoding table has 128 entries, zero where the alphabet has no such character.
\<close>

definition alphabet_at :: "base \<Rightarrow> nat \<Rightarrow> char result" where
  "alphabet_at c i =
     (if i < length (alphabet c) then Inr (alphabet c ! i)
      else if i = length (alphabet c) then Inr (char_of (0 :: nat)) else Inl Undefined)"

fun last_index :: "char \<Rightarrow> string \<Rightarrow> nat \<Rightarrow> nat \<Rightarrow> nat" where
  "last_index ch [] i found = found"
| "last_index ch (a # as) i found = last_index ch as (Suc i) (if a = ch then i else found)"

definition decode_char :: "base \<Rightarrow> char \<Rightarrow> u8 result" where
  "decode_char c ch =
     (if (of_char ch :: nat) \<ge> 128 then Inl Undefined
      else Inr (word_of_nat (last_index ch (alphabet c) 0 0)))"

section \<open>Bits of a block\<close>

text \<open>\<open>get_bits\<close>: the \<open>n_bits\<close> bits of the block from bit \<open>start\<close>, the high bits of a byte first.\<close>

definition get_bits :: "nat \<Rightarrow> u8 list \<Rightarrow> nat \<Rightarrow> u8" where
  "get_bits n d start =
     (let b1 = start div byte_bits; b2 = (start + n - 1) div byte_bits
      in if b1 = b2 then
           let offset = byte_bits - start mod byte_bits
           in take_bit n (drop_bit (offset - n) (d ! b1))
         else
           let bits1 = byte_bits - start mod byte_bits; bits2 = n - bits1
           in push_bit bits2 (take_bit bits1 (d ! b1)) OR drop_bit (byte_bits - bits2) (d ! b2))"

text \<open>
  Or-ing a byte into the output. The string's terminating zero may be written,
  with a zero only; anything else is outside.
\<close>

definition or_at :: "nat \<Rightarrow> u8 \<Rightarrow> u8 list \<Rightarrow> u8 list result" where
  "or_at i v out =
     (if i < length out then Inr (out[i := out ! i OR v])
      else if i = length out \<and> v = 0 then Inr out
      else Inl Undefined)"

definition set_bits :: "nat \<Rightarrow> u8 \<Rightarrow> nat \<Rightarrow> nat \<Rightarrow> u8 list \<Rightarrow> u8 list result" where
  "set_bits n v start p out =
     (let b1 = start div byte_bits; b2 = (start + n) div byte_bits
      in if b1 = b2 then
           let bits1 = byte_bits - start mod byte_bits - n
           in or_at (p + b1) (push_bit bits1 v) out
         else
           let bits1 = byte_bits - start mod byte_bits; bits2 = n - bits1
           in bind_result (or_at (p + b1) (drop_bit bits2 v) out)
                (or_at (p + b2) (push_bit (byte_bits - bits2) v)))"

section \<open>Encoding\<close>

text \<open>
  The converter: its data array (its first contents do not matter, it is filled
  before it is read) and the number of elements in it.
\<close>

record 'a conv =
  cdata :: "'a list"
  csz :: nat

text \<open>The first loop of \<open>finish\<close> for encoding writes \<open>k\<close> characters, the second one padding.\<close>

function enc_chars :: "base \<Rightarrow> u8 list \<Rightarrow> nat \<Rightarrow> nat \<Rightarrow> nat \<Rightarrow> string \<Rightarrow> (string \<times> nat \<times> nat) result" where
  "enc_chars c d real i p out =
     (if i < real * byte_bits \<and> 0 < n_bits c then
        bind_result (alphabet_at c (unat (get_bits (n_bits c) d i))) (\<lambda>ch.
          if p < length out then enc_chars c d real (i + n_bits c) (Suc p) (out[p := ch])
          else Inl Undefined)
      else Inr (out, p, i))"
  by pat_completeness auto
termination
  by (relation "measure (\<lambda>(c, d, real, i, p, out). real * byte_bits - i)") (auto simp: byte_bits_def)

function enc_padding :: "base \<Rightarrow> nat \<Rightarrow> nat \<Rightarrow> string \<Rightarrow> string result" where
  "enc_padding c i p out =
     (if i < decoded_block_size c * byte_bits \<and> 0 < n_bits c then
        if p < length out then enc_padding c (i + n_bits c) (Suc p) (out[p := padding c]) else Inl Undefined
      else Inr out)"
  by pat_completeness auto
termination
  by (relation "measure (\<lambda>(c, i, p, out). decoded_block_size c * byte_bits - i)") auto

declare enc_chars.simps [simp del] enc_padding.simps [simp del]

definition enc_finish :: "base \<Rightarrow> u8 conv \<times> string \<times> nat \<Rightarrow> (u8 conv \<times> string \<times> nat) result" where
  "enc_finish c = (\<lambda>(cv, out, p).
     if csz cv = 0 then Inr (cv, out, p)
     else
       let n = decoded_block_size c;
           real = (if csz cv mod n = 0 then n else csz cv mod n);
           d = (if csz cv mod n = 0 then cdata cv else take (csz cv mod n) (cdata cv) @ replicate (n - csz cv mod n) 0)
       in bind_result (enc_chars c d real 0 p out) (\<lambda>(out, p, i).
          bind_result (enc_padding c i p out) (\<lambda>out. Inr (\<lparr>cdata = d, csz = 0\<rparr>, out, p))))"

definition enc_add :: "base \<Rightarrow> u8 \<Rightarrow> u8 conv \<times> string \<times> nat \<Rightarrow> (u8 conv \<times> string \<times> nat) result" where
  "enc_add c x = (\<lambda>(cv, out, p).
     let n = decoded_block_size c;
         cv = \<lparr>cdata = (cdata cv)[csz cv mod n := x], csz = csz cv + 1\<rparr>
     in if csz cv mod n = 0 then enc_finish c (cv, out, p) else Inr (cv, out, p))"

fun enc_all :: "base \<Rightarrow> u8 list \<Rightarrow> u8 conv \<times> string \<times> nat \<Rightarrow> (u8 conv \<times> string \<times> nat) result" where
  "enc_all c [] s = Inr s"
| "enc_all c (x # xs) s = bind_result (enc_add c x s) (enc_all c xs)"

definition encode :: "base \<Rightarrow> u8 list \<Rightarrow> string result" where
  "encode c xs =
     (if xs = [] then Inr []
      else
        let out = replicate (encoded_size c (length xs)) (char_of (0 :: nat));
            cv = \<lparr>cdata = replicate (decoded_block_size c) 0, csz = 0\<rparr>
        in bind_result (enc_all c xs (cv, out, 0)) (\<lambda>s.
           bind_result (enc_finish c s) (\<lambda>(cv, out, p).
             Inr (if with_pad c then out else take p out))))"

section \<open>Decoding\<close>

fun dec_chars :: "base \<Rightarrow> string \<Rightarrow> nat \<Rightarrow> nat \<Rightarrow> int \<Rightarrow> u8 list \<Rightarrow> (u8 list \<times> int) result" where
  "dec_chars c [] start p outsz out = Inr (out, outsz)"
| "dec_chars c (ch # cs) start p outsz out =
     bind_result (decode_char c ch) (\<lambda>v.
     bind_result (set_bits (n_bits c) v start p out)
       (dec_chars c cs (start + n_bits c) p (if ch = padding c then outsz - 1 else outsz)))"

text \<open>
  The output pointer moves by the number of bytes minus one for every padding
  character, which can be backwards; before the start of the string it is
  undefined to use it again.
\<close>

definition dec_finish :: "base \<Rightarrow> char conv \<times> u8 list \<times> int \<Rightarrow> (char conv \<times> u8 list \<times> int) result" where
  "dec_finish c = (\<lambda>(cv, out, p).
     if csz cv = 0 then Inr (cv, out, p)
     else if p < 0 then Inl Undefined
     else
       let n = encoded_block_size c;
           d = (if csz cv mod n = 0 then cdata cv
                else take (csz cv mod n) (cdata cv) @ replicate (n - csz cv mod n) (padding c))
       in bind_result (dec_chars c d 0 (nat p) (int (decoded_block_size c)) out) (\<lambda>(out, outsz).
            Inr (\<lparr>cdata = d, csz = 0\<rparr>, out, p + outsz)))"

definition dec_add :: "base \<Rightarrow> char \<Rightarrow> char conv \<times> u8 list \<times> int \<Rightarrow> (char conv \<times> u8 list \<times> int) result" where
  "dec_add c x = (\<lambda>(cv, out, p).
     let n = encoded_block_size c;
         cv = \<lparr>cdata = (cdata cv)[csz cv mod n := x], csz = csz cv + 1\<rparr>
     in if csz cv mod n = 0 then dec_finish c (cv, out, p) else Inr (cv, out, p))"

fun dec_all :: "base \<Rightarrow> string \<Rightarrow> char conv \<times> u8 list \<times> int \<Rightarrow> (char conv \<times> u8 list \<times> int) result" where
  "dec_all c [] s = Inr s"
| "dec_all c (x # xs) s = bind_result (dec_add c x s) (dec_all c xs)"

definition base_name :: "base \<Rightarrow> string" where
  "base_name c = ''base'' @ nat_to_string (length (alphabet c))"

text \<open>
  \<open>decode<IgnoreNonAlphabetChars>\<close>. A final pointer before the start makes the
  unsigned new length larger than any string.
\<close>

definition decode :: "base \<Rightarrow> bool \<Rightarrow> string \<Rightarrow> u8 list result" where
  "decode c ignore xs =
     (if length xs mod encoded_block_size c \<noteq> 0 \<and> with_pad c \<and> \<not> ignore
      then Inl (Runtime_error (''bad '' @ base_name c @ '': incorrect length''))
      else if xs = [] then Inr []
      else
        let out = replicate (decoded_size c (length xs)) 0;
            cv = \<lparr>cdata = replicate (encoded_block_size c) (padding c), csz = 0\<rparr>;
            ys = (if ignore then filter (\<lambda>ch. ch \<in> set (alphabet c) \<or> ch = padding c) xs else xs)
        in bind_result (dec_all c ys (cv, out, 0)) (\<lambda>s.
           bind_result (dec_finish c s) (\<lambda>(cv, out, p).
             if p < 0 then Inl Length_error
             else Inr (take (nat p) out @ replicate (nat p - length out) 0))))"

section \<open>The bases\<close>

definition base16 :: base where
  "base16 = \<lparr>alphabet = ''0123456789ABCDEF'', padding = CHR ''='', with_pad = True\<rparr>"

definition base32 :: base where
  "base32 = \<lparr>alphabet = ''ABCDEFGHIJKLMNOPQRSTUVWXYZ234567'', padding = CHR ''='', with_pad = True\<rparr>"

definition base32extended_hex :: base where
  "base32extended_hex = \<lparr>alphabet = ''0123456789ABCDEFGHIJKLMNOPQRSTUV'', padding = CHR ''='', with_pad = True\<rparr>"

definition base62 :: base where
  "base62 = \<lparr>alphabet = ''ABCDEFGHIJKLMNOPQRSTUVWXYZabcdefghijklmnopqrstuvwxyz0123456789'',
             padding = CHR ''='', with_pad = True\<rparr>"

definition base64 :: base where
  "base64 = \<lparr>alphabet = ''ABCDEFGHIJKLMNOPQRSTUVWXYZabcdefghijklmnopqrstuvwxyz0123456789+/'',
             padding = CHR ''='', with_pad = True\<rparr>"

definition base64url :: "bool \<Rightarrow> base" where
  "base64url pad = \<lparr>alphabet = ''ABCDEFGHIJKLMNOPQRSTUVWXYZabcdefghijklmnopqrstuvwxyz0123456789-_'',
             padding = CHR ''='', with_pad = pad\<rparr>"

section \<open>Text between two marks\<close>

text \<open>
  \<open>find_text_between\<close>: \<open>find_from\<close> is \<open>find\<close> with a start position. The end mark
  is searched from the start of the begin mark; one inside it makes the length of
  the fragment wrap around, and the fragment is then the whole rest of the text.
\<close>

definition find_from :: "string \<Rightarrow> string \<Rightarrow> nat \<Rightarrow> nat option" where
  "find_from pat s pos =
     (if pos > length s then None else map_option (\<lambda>i. pos + i) (str_find pat (drop pos s)))"

function find_text_between :: "string \<Rightarrow> string \<Rightarrow> string \<Rightarrow> nat \<Rightarrow> string list result" where
  "find_text_between tx fr to start =
     (case find_from fr tx start of
        None \<Rightarrow> Inr []
      | Some pos \<Rightarrow>
          (case find_from to tx pos of
             None \<Rightarrow> Inr []
           | Some pose \<Rightarrow>
               bind_result (find_text_between tx fr to (pos + 1)) (\<lambda>rest.
                 let b = pos + length fr;
                     frag = (if pose < b then drop b tx else take (pose - b) (drop b tx))
                 in Inr (frag # rest))))"
  by pat_completeness auto
termination
proof (relation "measure (\<lambda>(tx, fr, to, start). Suc (length tx) - start)", goal_cases)
  case (2 tx fr to start pos pose)
  then show ?case by (auto simp: find_from_def split: if_splits)
qed simp

section \<open>Base64: blocks of three bytes and four characters\<close>

definition base64_like :: "base \<Rightarrow> bool" where
  "base64_like c \<longleftrightarrow> length (alphabet c) = 64 \<and> distinct (alphabet c) \<and> padding c \<notin> set (alphabet c)
     \<and> list_all (\<lambda>ch. (of_char ch :: nat) < 128) (padding c # alphabet c) \<and> with_pad c"

lemma base64_like_bases: "base64_like base64" "base64_like (base64url True)"
  by (simp_all add: base64_like_def base64_def base64url_def)

lemma base64_sizes:
  assumes "base64_like c"
  shows "n_bits c = 6" "decoded_block_size c = 3" "encoded_block_size c = 4"
proof -
  show n: "n_bits c = 6"
    using assms by (simp add: base64_like_def n_bits_def ceil_log2.simps)
  have "lcm 8 (6 :: nat) = 24"
    by code_simp
  then show "decoded_block_size c = 3" "encoded_block_size c = 4"
    using n by (simp_all add: decoded_block_size_def encoded_block_size_def block_lcm_def byte_bits_def)
qed

text \<open>The four groups of six bits of a block, and the bytes that four groups make.\<close>

definition sextets :: "u8 \<Rightarrow> u8 \<Rightarrow> u8 \<Rightarrow> u8 list" where
  "sextets a b d = [take_bit 6 (drop_bit 2 a), push_bit 4 (take_bit 2 a) OR drop_bit 4 b,
                    push_bit 2 (take_bit 4 b) OR drop_bit 6 d, take_bit 6 d]"

lemma get_bits_sextets:
  "get_bits 6 [a, b, d] 0 = sextets a b d ! 0" "get_bits 6 [a, b, d] 6 = sextets a b d ! 1"
  "get_bits 6 [a, b, d] 12 = sextets a b d ! 2" "get_bits 6 [a, b, d] 18 = sextets a b d ! 3"
  by (simp_all add: get_bits_def Let_def byte_bits_def sextets_def)

lemma sextets_less: "s \<in> set (sextets a b d) \<Longrightarrow> unat s < 64"
proof -
  assume "s \<in> set (sextets a b d)"
  then have "s = take_bit 6 s"
    by (auto simp: sextets_def intro!: bit_word_eqI)
      (auto simp: bit_simps dest: bit_imp_le_length)
  then have "unat s = take_bit 6 (unat s)"
    by (metis unsigned_take_bit_eq)
  then show ?thesis
    using take_bit_nat_less_exp [of 6 "unat s"] by simp
qed

lemma Suc_Suc_diff_2: "\<not> n < 2 \<Longrightarrow> Suc (Suc (n - 2)) = n" "2 \<le> n \<Longrightarrow> Suc (Suc (n - 2)) = n"
  by simp_all

lemma bytes_of_sextets:
  "push_bit 2 (sextets a b d ! 0) OR drop_bit 4 (sextets a b d ! 1) = a"
  "push_bit 4 (sextets a b d ! 1) OR drop_bit 2 (sextets a b d ! 2) = b"
  "push_bit 6 (sextets a b d ! 2) OR sextets a b d ! 3 = d"
proof -
  show "push_bit 2 (sextets a b d ! 0) OR drop_bit 4 (sextets a b d ! 1) = a"
    by (rule bit_word_eqI; auto simp: sextets_def bit_or_iff bit_push_bit_iff bit_take_bit_iff bit_drop_bit_eq
      Suc_Suc_diff_2 dest: bit_imp_le_length)
  show "push_bit 4 (sextets a b d ! 1) OR drop_bit 2 (sextets a b d ! 2) = b"
    by (rule bit_word_eqI, rename_tac n, case_tac "n < 4"; auto simp: sextets_def bit_or_iff bit_push_bit_iff bit_take_bit_iff bit_drop_bit_eq
      Suc_Suc_diff_2 dest: bit_imp_le_length)
  show "push_bit 6 (sextets a b d ! 2) OR sextets a b d ! 3 = d"
    by (rule bit_word_eqI; auto simp: sextets_def bit_or_iff bit_push_bit_iff bit_take_bit_iff bit_drop_bit_eq
      Suc_Suc_diff_2 dest: bit_imp_le_length)
qed

text \<open>The reference: RFC 4648 on whole blocks.\<close>

definition sextet_char :: "base \<Rightarrow> u8 \<Rightarrow> char" where
  "sextet_char c s = alphabet c ! unat s"

fun rfc_encode :: "base \<Rightarrow> u8 list \<Rightarrow> string" where
  "rfc_encode c [] = []"
| "rfc_encode c [a] = map (sextet_char c) (take 2 (sextets a 0 0)) @ [padding c, padding c]"
| "rfc_encode c [a, b] = map (sextet_char c) (take 3 (sextets a b 0)) @ [padding c]"
| "rfc_encode c (a # b # d # xs) = map (sextet_char c) (sextets a b d) @ rfc_encode c xs"

lemma divceil_block: "0 < k \<Longrightarrow> divceil (k + n) k = Suc (divceil n k)"
proof -
  assume "0 < k"
  then have eq: "k + n + k - 1 = (n + k - 1) + k" by simp
  show ?thesis
    unfolding divceil_def eq using \<open>0 < k\<close> div_add_self2 [of k "n + k - 1"] by linarith
qed

lemma divceil_Suc3: "divceil (Suc (Suc (Suc n))) 3 = Suc (divceil n 3)"
  using divceil_block [of 3 n] by (simp add: numeral_3_eq_3)

lemma length_rfc_encode: "length (rfc_encode c xs) = divceil (length xs) 3 * 4"
proof (induction c xs rule: rfc_encode.induct)
  case (4 c a b d xs)
  then show ?case by (simp add: sextets_def divceil_Suc3)
qed (simp_all add: sextets_def divceil_def)

subsection \<open>The encoder\<close>

lemma alphabet_at_sextet:
  "base64_like c \<Longrightarrow> s \<in> set (sextets a b d) \<Longrightarrow> alphabet_at c (unat s) = Inr (sextet_char c s)"
  using sextets_less by (simp add: alphabet_at_def base64_like_def sextet_char_def)

lemma enc_chars_block:
  assumes c: "base64_like c" and real: "0 < real" "real \<le> 3"
  shows "enc_chars c [a, b, d] real 0 (length w) (w @ x0 # x1 # x2 # x3 # rest) =
    Inr (w @ map (sextet_char c) (take (real + 1) (sextets a b d)) @ drop (real + 1) [x0, x1, x2, x3] @ rest,
         length w + real + 1, 6 * (real + 1))"
proof -
  note at = alphabet_at_sextet [OF c, of _ a b d]
  have mem: "sextets a b d ! k \<in> set (sextets a b d)" if "k < 4" for k
    using that by (intro nth_mem) (simp add: sextets_def)
  have ch: "alphabet_at c (unat (sextets a b d ! k)) = Inr (sextet_char c (sextets a b d ! k))" if "k < 4" for k
    using at [OF mem [OF that]] .
  have sx: "sextets a b d = [sextets a b d ! 0, sextets a b d ! 1, sextets a b d ! 2, sextets a b d ! 3]"
    by (simp add: sextets_def)
  consider "real = 1" | "real = 2" | "real = 3" using real by linarith
  then show ?thesis
    by cases (subst sx, simp add: enc_chars.simps base64_sizes [OF c] byte_bits_def get_bits_sextets ch
        list_update_append nth_append take_Cons' drop_Cons')+
qed

lemma enc_padding_block:
  assumes "base64_like c" "0 < real" "real \<le> 3"
  shows "enc_padding c (6 * (real + 1)) (length w) (w @ replicate (3 - real) z @ rest) =
    Inr (w @ replicate (3 - real) (padding c) @ rest)"
proof -
  consider "real = 1" | "real = 2" | "real = 3" using assms by linarith
  then show ?thesis
    by cases (simp_all add: enc_padding.simps base64_sizes [OF assms(1)] byte_bits_def
        list_update_append nth_append numeral_2_eq_2)
qed

lemma enc_padding_done: "base64_like c \<Longrightarrow> enc_padding c 24 p out = Inr out"
  by (simp add: enc_padding.simps base64_sizes byte_bits_def)

lemma enc_all_block:
  assumes c: "base64_like c" and cv: "csz cv = 0" "length (cdata cv) = 3"
  shows "enc_all c (a # b # d # xs) (cv, w @ replicate (4 + r) z, length w) =
    enc_all c xs (\<lparr>cdata = [a, b, d], csz = 0\<rparr>, (w @ map (sextet_char c) (sextets a b d)) @ replicate r z,
      length (w @ map (sextet_char c) (sextets a b d)))"
proof -
  obtain x y u where "cdata cv = [x, y, u]"
    using cv(2) by (auto simp: length_Suc_conv numeral_3_eq_3)
  moreover have "replicate (4 + r) z = z # z # z # z # replicate r z"
    by (simp add: numeral_eq_Suc)
  moreover have "length (sextets a b d) = 4"
    by (simp add: sextets_def)
  ultimately show ?thesis
    using cv(1) enc_chars_block [OF c, of 3 a b d w z z z z "replicate r z"]
    by (simp add: enc_add_def enc_finish_def Let_def base64_sizes [OF c] enc_padding_done [OF c] add.commute)
qed

lemma enc_tail:
  assumes c: "base64_like c" and cv: "csz cv = 0" "length (cdata cv) = 3"
  shows "\<exists>cv' p. bind_result (enc_all c [a] (cv, w @ replicate 4 z, length w)) (enc_finish c)
      = Inr (cv', w @ rfc_encode c [a], p)"
    "\<exists>cv' p. bind_result (enc_all c [a, b] (cv, w @ replicate 4 z, length w)) (enc_finish c)
      = Inr (cv', w @ rfc_encode c [a, b], p)"
proof -
  obtain x y u where d: "cdata cv = [x, y, u]"
    using cv(2) by (auto simp: length_Suc_conv numeral_3_eq_3)
  have four: "replicate 4 z = [z, z, z, z]"
    by (simp add: numeral_eq_Suc)
  have "length (sextets a 0 0) = 4" "length (sextets a b 0) = 4"
    by (simp_all add: sextets_def)
  then have tails: "enc_chars c [a, 0, 0] 1 0 (length w) (w @ [z, z, z, z])
      = Inr (w @ map (sextet_char c) (take 2 (sextets a 0 0)) @ [z, z], length w + 2, 12)"
    "enc_padding c 12 (length w + 2) (w @ map (sextet_char c) (take 2 (sextets a 0 0)) @ [z, z])
      = Inr (w @ rfc_encode c [a])"
    "enc_chars c [a, b, 0] 2 0 (length w) (w @ [z, z, z, z])
      = Inr (w @ map (sextet_char c) (take 3 (sextets a b 0)) @ [z], length w + 3, 18)"
    "enc_padding c 18 (length w + 3) (w @ map (sextet_char c) (take 3 (sextets a b 0)) @ [z])
      = Inr (w @ rfc_encode c [a, b])"
    using enc_chars_block [OF c, of 1 a 0 0 w z z z z "[]"] enc_chars_block [OF c, of 2 a b 0 w z z z z "[]"]
      enc_padding_block [OF c, of 1 "w @ map (sextet_char c) (take 2 (sextets a 0 0))" z "[]"]
      enc_padding_block [OF c, of 2 "w @ map (sextet_char c) (take 3 (sextets a b 0))" z "[]"]
    by (simp_all add: numeral_2_eq_2 numeral_3_eq_3)
  have zeros: "replicate 2 (0 :: u8) = [0, 0]"
    by (simp add: numeral_2_eq_2)
  have "bind_result (enc_all c [a] (cv, w @ replicate 4 z, length w)) (enc_finish c)
      = Inr (\<lparr>cdata = [a, 0, 0], csz = 0\<rparr>, w @ rfc_encode c [a], length w + 2)"
    using d cv(1) tails(1,2) four zeros
    by (simp add: enc_add_def enc_finish_def Let_def base64_sizes [OF c] del: rfc_encode.simps)
  moreover have "bind_result (enc_all c [a, b] (cv, w @ replicate 4 z, length w)) (enc_finish c)
      = Inr (\<lparr>cdata = [a, b, 0], csz = 0\<rparr>, w @ rfc_encode c [a, b], length w + 3)"
    using d cv(1) tails(3) [unfolded numeral_2_eq_2] tails(4) four
    by (simp add: enc_add_def enc_finish_def Let_def base64_sizes [OF c] del: rfc_encode.simps)
  ultimately show "\<exists>cv' p. bind_result (enc_all c [a] (cv, w @ replicate 4 z, length w)) (enc_finish c)
      = Inr (cv', w @ rfc_encode c [a], p)"
    "\<exists>cv' p. bind_result (enc_all c [a, b] (cv, w @ replicate 4 z, length w)) (enc_finish c)
      = Inr (cv', w @ rfc_encode c [a, b], p)"
    by blast+
qed

lemma enc_all_encode:
  "base64_like c \<Longrightarrow> csz cv = 0 \<Longrightarrow> length (cdata cv) = 3 \<Longrightarrow>
    \<exists>cv' p. bind_result (enc_all c xs (cv, w @ replicate (divceil (length xs) 3 * 4) z, length w)) (enc_finish c)
      = Inr (cv', w @ rfc_encode c xs, p)"
proof (induction c xs arbitrary: cv w rule: rfc_encode.induct)
  case (1 c)
  then show ?case by (simp add: enc_finish_def divceil_def)
next
  case (2 c a)
  then show ?case using enc_tail(1) [of c cv a w z] by (simp add: divceil_def)
next
  case (3 c a b)
  then show ?case using enc_tail(2) [of c cv a b w z] by (simp add: divceil_def)
next
  case (4 c a b d xs)
  let ?w = "w @ map (sextet_char c) (sextets a b d)"
  have "replicate (divceil (length (a # b # d # xs)) 3 * 4) z = replicate (4 + divceil (length xs) 3 * 4) z"
    by (simp add: divceil_Suc3)
  then have "enc_all c (a # b # d # xs) (cv, w @ replicate (divceil (length (a # b # d # xs)) 3 * 4) z, length w)
      = enc_all c xs (\<lparr>cdata = [a, b, d], csz = 0\<rparr>, ?w @ replicate (divceil (length xs) 3 * 4) z, length ?w)"
    using enc_all_block [OF "4.prems"] by simp
  moreover obtain cv' p where "bind_result (enc_all c xs (\<lparr>cdata = [a, b, d], csz = 0\<rparr>,
      ?w @ replicate (divceil (length xs) 3 * 4) z, length ?w)) (enc_finish c) = Inr (cv', ?w @ rfc_encode c xs, p)"
    using "4.IH" [of "\<lparr>cdata = [a, b, d], csz = 0\<rparr>" ?w] "4.prems"(1) by auto
  ultimately show ?case
    by simp
qed

text \<open>
  For an alphabet of 64 characters with padding the streaming encoder, which collects
  a block, extracts its bits and writes through a pointer, is the encoding of RFC 4648.
\<close>

theorem encode_rfc4648:
  assumes "base64_like c"
  shows "encode c xs = Inr (rfc_encode c xs)"
proof (cases "xs = []")
  case False
  let ?s = "(\<lparr>cdata = replicate 3 0, csz = 0\<rparr>, replicate (divceil (length xs) 3 * 4) (char_of (0 :: nat)), 0)"
  obtain cv p where "bind_result (enc_all c xs ?s) (enc_finish c) = Inr (cv, rfc_encode c xs, p)"
    using enc_all_encode [OF assms, of "\<lparr>cdata = replicate 3 0, csz = 0\<rparr>" xs "[]" "char_of (0 :: nat)"] by auto
  then obtain s where "enc_all c xs ?s = Inr s" "enc_finish c s = Inr (cv, rfc_encode c xs, p)"
    unfolding bind_result_Inr_iff by blast
  then show ?thesis
    using False assms by (simp add: encode_def Let_def encoded_size_def base64_sizes base64_like_def)
qed (simp add: encode_def)

lemma encode_rfc4648_witness: "encode base64 [77, 97] = Inr ''TWE=''"
proof -
  have "rfc_encode base64 [77, 97] = ''TWE=''"
    by (simp add: sextets_def sextet_char_def base64_def)
  then show ?thesis
    using encode_rfc4648 [OF base64_like_bases(1), of "[77, 97]"] by simp
qed

subsection \<open>The decoder\<close>

lemma last_index_notin: "ch \<notin> set as \<Longrightarrow> last_index ch as i f = f"
  by (induction as arbitrary: i) auto

lemma last_index_nth: "distinct as \<Longrightarrow> k < length as \<Longrightarrow> last_index (as ! k) as i f = i + k"
proof (induction as arbitrary: i f k)
  case (Cons a as)
  then show ?case
    by (cases k) (auto simp: last_index_notin)
qed simp

lemma decode_sextet_char:
  assumes "base64_like c" "unat s < 64"
  shows "decode_char c (sextet_char c s) = Inr s" "sextet_char c s \<noteq> padding c"
proof -
  have mem: "sextet_char c s \<in> set (alphabet c)"
    using assms by (auto simp: sextet_char_def base64_like_def)
  then show "sextet_char c s \<noteq> padding c"
    using assms(1) by (auto simp: base64_like_def)
  show "decode_char c (sextet_char c s) = Inr s"
    using mem assms last_index_nth [of "alphabet c" "unat s" 0 0]
    by (auto simp: decode_char_def sextet_char_def base64_like_def list_all_iff not_le)
qed

lemma decode_padding: "base64_like c \<Longrightarrow> decode_char c (padding c) = Inr 0"
  by (simp add: decode_char_def base64_like_def last_index_notin)

lemma push_bit_all: "push_bit 8 (v :: u8) = 0"
  by (rule bit_word_eqI) (simp add: bit_push_bit_iff)

lemma or_at_nth: "or_at (length w + k) v (w @ xs) =
    (if k < length xs then Inr (w @ xs[k := xs ! k OR v])
     else if k = length xs \<and> v = 0 then Inr (w @ xs) else Inl Undefined)"
  by (simp add: or_at_def nth_append list_update_append)

text \<open>Four characters over zero bytes make the three bytes of their groups.\<close>

lemma dec_chars_block:
  assumes "base64_like c" "decode_char c c0 = Inr s0" "decode_char c c1 = Inr s1" "decode_char c c2 = Inr s2"
    "decode_char c c3 = Inr s3"
  shows "dec_chars c [c0, c1, c2, c3] 0 (length w) n (w @ replicate (3 + r) 0) =
    Inr (w @ [push_bit 2 s0 OR drop_bit 4 s1, push_bit 4 s1 OR drop_bit 2 s2, push_bit 6 s2 OR s3] @ replicate r 0,
         n - int (length (filter (\<lambda>ch. ch = padding c) [c0, c1, c2, c3])))"
proof -
  have zeros: "replicate (3 + r) (0 :: u8) = 0 # 0 # 0 # replicate r 0"
    by (simp add: numeral_3_eq_3)
  have or3: "or_at (length w + 3) 0 (w @ x # y # z # replicate r 0) = Inr (w @ x # y # z # replicate r 0)" for x y z
    unfolding or_at_nth by (cases r) (simp_all add: numeral_3_eq_3)
  note at = or_at_nth [of w 0, unfolded add_0_right] or_at_nth [of w "Suc 0", unfolded add_Suc_right add_0_right] or_at_nth [of w "Suc (Suc 0)", unfolded add_Suc_right add_0_right]
  have set: "set_bits 6 v 0 (length w) out = or_at (length w) (push_bit 2 v) out"
    "set_bits 6 v 6 (length w) out = bind_result (or_at (length w) (drop_bit 4 v) out) (or_at (Suc (length w)) (push_bit 4 v))"
    "set_bits 6 v 12 (length w) out = bind_result (or_at (Suc (length w)) (drop_bit 2 v) out) (or_at (length w + 2) (push_bit 6 v))"
    "set_bits 6 v 18 (length w) out = bind_result (or_at (length w + 2) v out) (or_at (length w + 3) 0)" for v out
    by (simp_all add: set_bits_def Let_def byte_bits_def push_bit_all)
  define sub where "sub ch k = (if ch = padding c then k - 1 else k)" for ch and k :: int
  have "dec_chars c [c0, c1, c2, c3] 0 (length w) n (w @ replicate (3 + r) 0) =
      Inr (w @ [push_bit 2 s0 OR drop_bit 4 s1, push_bit 4 s1 OR drop_bit 2 s2, push_bit 6 s2 OR s3] @ replicate r 0,
         sub c3 (sub c2 (sub c1 (sub c0 n))))"
    unfolding zeros
    by (simp add: assms base64_sizes [OF assms(1)] set at or3 or.commute or.left_commute sub_def [symmetric])
  moreover have "sub c3 (sub c2 (sub c1 (sub c0 n))) = n - int (length (filter (\<lambda>ch. ch = padding c) [c0, c1, c2, c3]))"
    by (simp add: sub_def)
  ultimately show ?thesis by simp
qed

lemma dec_all_block:
  assumes "base64_like c" "csz cv = 0" "length (cdata cv) = 4"
  shows "dec_all c (c0 # c1 # c2 # c3 # cs) (cv, out, int k) =
    bind_result (dec_chars c [c0, c1, c2, c3] 0 k 3 out) (\<lambda>(out, n).
      dec_all c cs (\<lparr>cdata = [c0, c1, c2, c3], csz = 0\<rparr>, out, int k + n))"
proof -
  obtain x y u v where "cdata cv = [x, y, u, v]"
    using assms(3) by (auto simp: length_Suc_conv numeral_eq_Suc)
  then show ?thesis
    using assms(2)
    by (cases "dec_chars c [c0, c1, c2, c3] 0 k 3 out")
      (auto simp: dec_add_def dec_finish_def Let_def base64_sizes [OF assms(1)] split: prod.splits)
qed

lemma dec_all_encoded:
  "base64_like c \<Longrightarrow> csz cv = 0 \<Longrightarrow> length (cdata cv) = 4 \<Longrightarrow>
    \<exists>cv' rest. dec_all c (rfc_encode c xs) (cv, w @ replicate (divceil (length xs) 3 * 3) 0, int (length w))
      = Inr (cv', w @ xs @ rest, int (length w + length xs)) \<and> csz cv' = 0"
proof (induction c xs arbitrary: cv w rule: rfc_encode.induct)
  case (1 c)
  then show ?case by (simp add: divceil_def)
next
  case (2 c a)
  note code = decode_sextet_char [OF "2.prems"(1) sextets_less [of _ a 0 0]]
  let ?s = "sextets a 0 0"
  have "dec_chars c (rfc_encode c [a]) 0 (length w) 3 (w @ replicate (3 + 0) 0)
      = Inr (w @ [a, push_bit 4 (?s ! 1), 0], 1)"
    using dec_chars_block [OF "2.prems"(1) code(1) code(1) decode_padding decode_padding, of "?s ! 0" "?s ! 1" w 3 0]
      code(2) bytes_of_sextets(1) [of a 0 0] "2.prems"(1)
    by (simp add: sextets_def)
  then show ?case
    using "2.prems" dec_all_block [OF "2.prems"] by (simp add: divceil_def sextets_def add.commute)
next
  case (3 c a b)
  note code = decode_sextet_char [OF "3.prems"(1) sextets_less [of _ a b 0]]
  let ?s = "sextets a b 0"
  have "dec_chars c (rfc_encode c [a, b]) 0 (length w) 3 (w @ replicate (3 + 0) 0)
      = Inr (w @ [a, b, push_bit 6 (?s ! 2)], 2)"
    using dec_chars_block [OF "3.prems"(1) code(1) code(1) code(1) decode_padding, of "?s ! 0" "?s ! 1" "?s ! 2" w 3 0]
      code(2) bytes_of_sextets [of a b 0] "3.prems"(1)
    by (simp add: sextets_def)
  then show ?case
    using "3.prems" dec_all_block [OF "3.prems"] by (simp add: divceil_def sextets_def add.commute)
next
  case (4 c a b d xs)
  note code = decode_sextet_char [OF "4.prems"(1) sextets_less [of _ a b d]]
  let ?s = "sextets a b d" and ?n = "divceil (length xs) 3 * 3"
  have "dec_chars c (map (sextet_char c) ?s) 0 (length w) 3 (w @ replicate (3 + ?n) 0)
      = Inr (w @ [a, b, d] @ replicate ?n 0, 3)"
    using dec_chars_block [OF "4.prems"(1) code(1) code(1) code(1) code(1), of "?s ! 0" "?s ! 1" "?s ! 2" "?s ! 3" w 3 ?n]
      code(2) bytes_of_sextets [of a b d]
    by (simp add: sextets_def)
  moreover obtain cv' rest where "dec_all c (rfc_encode c xs) (\<lparr>cdata = map (sextet_char c) ?s, csz = 0\<rparr>,
      (w @ [a, b, d]) @ replicate ?n 0, int (length (w @ [a, b, d])))
      = Inr (cv', (w @ [a, b, d]) @ xs @ rest, int (length (w @ [a, b, d]) + length xs)) \<and> csz cv' = 0"
    using "4.IH" [of "\<lparr>cdata = map (sextet_char c) ?s, csz = 0\<rparr>" "w @ [a, b, d]"] "4.prems"(1)
    by (auto simp: sextets_def)
  ultimately show ?case
    using "4.prems" dec_all_block [OF "4.prems"] by (simp add: divceil_Suc3 sextets_def add.commute)
qed

lemma divceil_mult: "0 < k \<Longrightarrow> divceil (n * k) k = n"
proof -
  assume k: "0 < k"
  have "n * k + k - 1 = k - 1 + n * k"
    using k by simp
  then have "(n * k + k - 1) div k = (k - 1 + n * k) div k"
    by (rule arg_cong)
  also have "\<dots> = n"
    using k by (subst div_mult_self1) simp_all
  finally show ?thesis
    by (simp add: divceil_def)
qed

lemma decode_rfc_encode:
  assumes "base64_like c"
  shows "decode c False (rfc_encode c xs) = Inr xs"
proof (cases "xs = []")
  case True
  then show ?thesis
    by (simp add: decode_def)
next
  case False
  have "0 < divceil (length xs) 3"
    using False by (cases xs) (simp_all add: divceil_def)
  then have len: "rfc_encode c xs \<noteq> []" "length (rfc_encode c xs) mod 4 = 0"
    "decoded_size c (length (rfc_encode c xs)) = divceil (length xs) 3 * 3"
    by (simp_all add: length_rfc_encode decoded_size_def base64_sizes [OF assms] divceil_mult flip: length_greater_0_conv)
  obtain cv' rest where "dec_all c (rfc_encode c xs) (\<lparr>cdata = replicate 4 (padding c), csz = 0\<rparr>,
      replicate (divceil (length xs) 3 * 3) 0, 0) = Inr (cv', xs @ rest, int (length xs))" "csz cv' = 0"
    using dec_all_encoded [OF assms, of "\<lparr>cdata = replicate 4 (padding c), csz = 0\<rparr>" xs "[]"] by auto
  with len show ?thesis
    by (simp add: decode_def Let_def base64_sizes [OF assms] dec_finish_def)
qed

text \<open>Encoder and decoder of the two padded alphabets of 64 characters are a codec.\<close>

interpretation b64: codec "rfc_encode base64" "decode base64 False" "\<lambda>xs. True"
  by unfold_locales (simp add: decode_rfc_encode base64_like_bases)

interpretation b64url: codec "rfc_encode (base64url True)" "decode (base64url True) False" "\<lambda>xs. True"
  by unfold_locales (simp add: decode_rfc_encode base64_like_bases)

text \<open>
  C17: Decoding what was encoded gives the bytes back, for base64 and for its padded
  variant for URLs, and different bytes have different encodings.
\<close>

theorem base64_roundtrip:
  "bind_result (encode base64 xs) (decode base64 False) = Inr xs
   \<and> bind_result (encode (base64url True) xs) (decode (base64url True) False) = Inr xs
   \<and> (encode base64 xs = encode base64 ys \<longrightarrow> xs = ys)"
  using encode_rfc4648 base64_like_bases b64.dec_enc b64url.dec_enc b64.enc_inj by auto

lemma base64_roundtrip_witness: "encode base64 [1] = encode base64 [1] \<and> [1 :: u8] = [1]"
  using base64_roundtrip [of "[1]" "[1]"] by blast

section \<open>Where the other bases go wrong\<close>

text \<open>
  The decoder takes one byte off for every padding character, which is right for
  base64 only: base32 has six of them after one byte.
\<close>

lemma base32_padding:
  "bind_result (encode base32 [77]) (decode base32 False) = Inl Length_error"
  "bind_result (encode base32 [77, 97]) (decode base32 False) = Inr [77]"
  "bind_result (encode base32 [77, 97, 110]) (decode base32 False) = Inr [77, 97]"
  "bind_result (encode base32 [77, 97, 110, 32]) (decode base32 False) = Inr [77, 97, 110, 32]"
  by code_simp+

text \<open>Six bits can select more characters than the 62 there are.\<close>

lemma base62_alphabet: "encode base62 [255, 255, 255] = Inl Undefined"
  by code_simp

text \<open>An end mark that begins inside the begin mark gives the rest of the text.\<close>

lemma find_text_between_overlap: "find_text_between ''<a>x<'' ''<a>'' ''>'' 0 = Inr [''x<'']"
  by code_simp

end
