(* ===== verification/Csv.thy ===== *)
theory Csv
  imports Prelude
begin

text \<open>
  \<open>primitives::csv::Parser\<close> (csv.h): a recursive-descent parser for one line of
  comma-separated values, with its one-symbol lexer.
\<close>

section \<open>The lexer\<close>

datatype token = Delimeter | Eol | Quote | Escape | Character

text \<open>
  The three special characters, and the byte that lies behind the terminating
  zero of the string, which the last step of the parser looks at.
\<close>

record dialect =
  delimeter :: char
  quote :: char
  escape :: char
  beyond :: char

text \<open>
  The parser's pointer and symbol: \<open>rest\<close> is the text from the pointer on with its
  terminating zero, \<open>prev\<close> the character before the pointer. Moving a pointer that
  is already behind the zero is undefined.
\<close>

record parser =
  prev :: char
  rest :: string
  sym :: token

definition NUL :: char where
  "NUL = char_of (0 :: nat)"

definition token_of :: "dialect \<Rightarrow> char \<Rightarrow> token" where
  "token_of d c =
     (if c = NUL then Eol
      else if c = delimeter d then Delimeter
      else if c = quote d then Quote
      else if c = escape d then Escape
      else Character)"

definition token_at :: "dialect \<Rightarrow> string \<Rightarrow> token" where
  "token_at d r = token_of d (case r of [] \<Rightarrow> beyond d | c # _ \<Rightarrow> c)"

definition nextsym :: "dialect \<Rightarrow> parser \<Rightarrow> parser result" where
  "nextsym d s =
     (case rest s of
        [] \<Rightarrow> Inl Undefined
      | c # r \<Rightarrow> Inr \<lparr>prev = c, rest = r, sym = token_at d r\<rparr>)"

definition accept :: "dialect \<Rightarrow> token \<Rightarrow> parser \<Rightarrow> (bool \<times> parser) result" where
  "accept d t s =
     (if sym s = t then bind_result (nextsym d s) (\<lambda>s. Inr (True, s)) else Inr (False, s))"

fun token_number :: "token \<Rightarrow> nat" where
  "token_number Delimeter = 0"
| "token_number Eol = 1"
| "token_number Quote = 2"
| "token_number Escape = 3"
| "token_number Character = 4"

definition expect :: "dialect \<Rightarrow> token \<Rightarrow> parser \<Rightarrow> parser result" where
  "expect d t s =
     bind_result (accept d t s) (\<lambda>(ok, s).
       if ok then Inr s
       else Inl (Runtime_error (''Unexpected token: '' @ nat_to_string (token_number (sym s)))))"

text \<open>
  \<open>accept_quoted_symbol\<close>: an escape, or a quote when both are the same, followed
  by a quote; otherwise the pointer goes back.
\<close>

definition accept_quoted_symbol :: "dialect \<Rightarrow> parser \<Rightarrow> (bool \<times> parser) result" where
  "accept_quoted_symbol d s =
     (let tok_escape = (if quote d = escape d then Quote else Escape)
      in if sym s \<noteq> tok_escape then Inr (False, s)
         else bind_result (nextsym d s) (\<lambda>s'.
           if sym s' \<noteq> Quote then Inr (False, s)
           else bind_result (nextsym d s') (\<lambda>s''. Inr (True, s''))))"

section \<open>The grammar\<close>

lemma nextsym_shorter: "nextsym d s = Inr s' \<Longrightarrow> length (rest s') < length (rest s)"
  by (auto simp: nextsym_def split: list.splits)

lemma accept_shorter: "accept d t s = Inr (True, s') \<Longrightarrow> length (rest s') < length (rest s)"
  using nextsym_shorter by (auto simp: accept_def bind_result_Inr_iff split: if_splits)

lemma accept_same: "accept d t s = Inr (False, s') \<Longrightarrow> s' = s"
  by (auto simp: accept_def bind_result_Inr_iff split: if_splits)

lemma accept_quoted_shorter: "accept_quoted_symbol d s = Inr (True, s') \<Longrightarrow> length (rest s') < length (rest s)"
  by (auto simp: accept_quoted_symbol_def bind_result_Inr_iff Let_def split: if_splits dest!: nextsym_shorter)

lemma accept_quoted_same: "accept_quoted_symbol d s = Inr (False, s') \<Longrightarrow> s' = s"
  by (auto simp: accept_quoted_symbol_def bind_result_Inr_iff Let_def split: if_splits)

type_synonym column = "string option"

function normal_loop :: "dialect \<Rightarrow> string \<Rightarrow> parser \<Rightarrow> (string \<times> parser) result" where
  "normal_loop d buf s =
     bind_result (accept d Character s) (\<lambda>(ok, s).
       if ok then normal_loop d (buf @ [prev s]) s else Inr (buf, s))"
  by pat_completeness auto
termination
  by (relation "measure (\<lambda>(d, buf, s). length (rest s))") (auto dest: accept_shorter)

text \<open>\<open>normal_field\<close>: a field without any character is no value.\<close>

definition normal_field :: "dialect \<Rightarrow> parser \<Rightarrow> (column \<times> parser) result" where
  "normal_field d s =
     bind_result (normal_loop d [] s) (\<lambda>(buf, s). Inr (if buf \<noteq> [] then Some buf else None, s))"

definition quoted_char :: "dialect \<Rightarrow> parser \<Rightarrow> (bool \<times> parser) result" where
  "quoted_char d s =
     bind_result (accept d Character s) (\<lambda>(ok, s). if ok then Inr (True, s) else
     bind_result (accept d Delimeter s) (\<lambda>(ok, s). if ok then Inr (True, s) else
     accept_quoted_symbol d s))"

lemma quoted_char_shorter: "quoted_char d s = Inr (True, s') \<Longrightarrow> length (rest s') < length (rest s)"
  by (auto simp: quoted_char_def bind_result_Inr_iff split: if_splits
      dest!: accept_shorter accept_same accept_quoted_shorter)

function quoted_loop :: "dialect \<Rightarrow> string \<Rightarrow> parser \<Rightarrow> (string \<times> parser) result" where
  "quoted_loop d buf s =
     bind_result (quoted_char d s) (\<lambda>(ok, s).
       if ok then quoted_loop d (buf @ [prev s]) s else Inr (buf, s))"
  by pat_completeness auto
termination
  by (relation "measure (\<lambda>(d, buf, s). length (rest s))") (auto dest: quoted_char_shorter)

declare normal_loop.simps [simp del] quoted_loop.simps [simp del]

definition quoted_field :: "dialect \<Rightarrow> parser \<Rightarrow> (column \<times> parser) result" where
  "quoted_field d s = bind_result (quoted_loop d [] s) (\<lambda>(buf, s). Inr (Some buf, s))"

definition field :: "dialect \<Rightarrow> parser \<Rightarrow> (column \<times> parser) result" where
  "field d s =
     bind_result (accept d Quote s) (\<lambda>(ok, s).
       if ok then bind_result (quoted_field d s) (\<lambda>(c, s).
              bind_result (expect d Quote s) (\<lambda>s. Inr (c, s)))
       else normal_field d s)"

lemma normal_loop_le: "normal_loop d buf s = Inr (buf', s') \<Longrightarrow> length (rest s') \<le> length (rest s)"
proof (induction d buf s rule: normal_loop.induct)
  case (1 d buf s)
  show ?case
    using 1 accept_shorter [of d Character s] accept_same [of d Character s]
    by (subst (asm) normal_loop.simps [of d buf s]) (fastforce simp: bind_result_Inr_iff split: if_splits)
qed

lemma quoted_char_same: "quoted_char d s = Inr (False, s') \<Longrightarrow> s' = s"
  by (auto simp: quoted_char_def bind_result_Inr_iff split: if_splits dest!: accept_same accept_quoted_same)

lemma quoted_loop_le: "quoted_loop d buf s = Inr (buf', s') \<Longrightarrow> length (rest s') \<le> length (rest s)"
proof (induction d buf s rule: quoted_loop.induct)
  case (1 d buf s)
  show ?case
    using 1 quoted_char_shorter [of d s] quoted_char_same [of d s]
    by (subst (asm) quoted_loop.simps [of d buf s]) (fastforce simp: bind_result_Inr_iff split: if_splits)
qed

lemma field_le: "field d s = Inr (c, s') \<Longrightarrow> length (rest s') \<le> length (rest s)"
proof -
  assume "field d s = Inr (c, s')"
  then obtain ok s1 where s1: "accept d Quote s = Inr (ok, s1)"
    "(if ok then bind_result (quoted_field d s1) (\<lambda>(c, s). bind_result (expect d Quote s) (\<lambda>s. Inr (c, s)))
      else normal_field d s1) = Inr (c, s')"
    unfolding field_def bind_result_Inr_iff by auto
  show ?thesis
  proof (cases ok)
    case True
    with s1 obtain c2 s2 where "quoted_field d s1 = Inr (c2, s2)" "expect d Quote s2 = Inr s'"
      by (auto simp: bind_result_Inr_iff)
    then have "length (rest s2) \<le> length (rest s1)" "length (rest s') \<le> length (rest s2)"
      by (auto simp: quoted_field_def expect_def bind_result_Inr_iff split: if_splits
          dest!: quoted_loop_le accept_shorter)
    with s1 True accept_shorter show ?thesis by fastforce
  next
    case False
    with s1 show ?thesis
      by (auto simp: normal_field_def bind_result_Inr_iff dest!: normal_loop_le accept_same)
  qed
qed

function fields_loop :: "dialect \<Rightarrow> column list \<Rightarrow> parser \<Rightarrow> (column list \<times> parser) result" where
  "fields_loop d cols s =
     bind_result (accept d Delimeter s) (\<lambda>(ok, s').
       if ok then bind_result (field d s') (\<lambda>(c, s''). fields_loop d (cols @ [c]) s'')
       else Inr (cols, s'))"
  by pat_completeness auto
termination
  by (relation "measure (\<lambda>(d, cols, s). length (rest s))")
    (auto dest!: accept_shorter field_le)

declare fields_loop.simps [simp del]

definition fields :: "dialect \<Rightarrow> parser \<Rightarrow> (column list \<times> parser) result" where
  "fields d s = bind_result (field d s) (\<lambda>(c, s). fields_loop d [c] s)"

definition parser_init :: "dialect \<Rightarrow> string \<Rightarrow> parser" where
  "parser_init d s = \<lparr>prev = NUL, rest = s @ [NUL], sym = token_at d (s @ [NUL])\<rparr>"

definition parse_line :: "dialect \<Rightarrow> string \<Rightarrow> column list result" where
  "parse_line d s =
     bind_result (fields d (parser_init d s)) (\<lambda>(cols, s).
     bind_result (expect d Eol s) (\<lambda>_. Inr cols))"

section \<open>The parser stays inside the string\<close>

text \<open>The pointer is at most on the terminating zero and the symbol belongs to it.\<close>

definition parser_ok :: "dialect \<Rightarrow> parser \<Rightarrow> bool" where
  "parser_ok d s \<longleftrightarrow> (\<exists>r. rest s = r @ [NUL]) \<and> sym s = token_at d (rest s)"

definition with_beyond :: "char \<Rightarrow> dialect \<Rightarrow> dialect" where
  "with_beyond b d = d\<lparr>beyond := b\<rparr>"

lemma with_beyond_simps [simp]:
  "delimeter (with_beyond b d) = delimeter d" "quote (with_beyond b d) = quote d"
  "escape (with_beyond b d) = escape d" "token_of (with_beyond b d) c = token_of d c"
  by (simp_all add: with_beyond_def token_of_def)

lemma token_at_beyond: "r \<noteq> [] \<Longrightarrow> token_at (with_beyond b d) r = token_at d r"
  by (cases r) (simp_all add: token_at_def)

lemma token_at_Cons [simp]: "token_at d (c # r) = token_of d c"
  by (simp add: token_at_def)

lemma nextsym_ok:
  assumes "parser_ok d s" "sym s \<noteq> Eol"
  shows "\<exists>s'. nextsym d s = Inr s' \<and> nextsym (with_beyond b d) s = Inr s' \<and> parser_ok d s'"
proof -
  obtain r where r: "rest s = r @ [NUL]" "sym s = token_at d (rest s)"
    using assms(1) by (auto simp: parser_ok_def)
  then obtain c r' where "r = c # r'"
    using assms(2) by (cases r) (auto simp: token_of_def)
  then show ?thesis
    using r by (auto simp: nextsym_def parser_ok_def token_at_beyond)
qed

lemma accept_ok:
  assumes "parser_ok d s" "t \<noteq> Eol"
  shows "\<exists>ok s'. accept d t s = Inr (ok, s') \<and> accept (with_beyond b d) t s = Inr (ok, s') \<and> parser_ok d s'"
  using nextsym_ok [OF assms(1), of b] assms by (auto simp: accept_def ex_bool_eq)

lemma accept_quoted_ok:
  assumes "parser_ok d s"
  shows "\<exists>ok s'. accept_quoted_symbol d s = Inr (ok, s') \<and> accept_quoted_symbol (with_beyond b d) s = Inr (ok, s')
    \<and> parser_ok d s'"
proof (cases "sym s = (if quote d = escape d then Quote else Escape)")
  case True
  then obtain s' where s': "nextsym d s = Inr s'" "nextsym (with_beyond b d) s = Inr s'" "parser_ok d s'"
    using nextsym_ok [OF assms, of b] by (auto split: if_splits)
  show ?thesis
  proof (cases "sym s' = Quote")
    case True
    then show ?thesis
      using s' nextsym_ok [OF s'(3), of b] assms by (auto simp: accept_quoted_symbol_def Let_def)
  qed (use True s' assms in \<open>auto simp: accept_quoted_symbol_def Let_def\<close>)
qed (use assms in \<open>auto simp: accept_quoted_symbol_def Let_def\<close>)

lemma normal_loop_ok:
  "parser_ok d s \<Longrightarrow> \<exists>buf' s'. normal_loop d buf s = Inr (buf', s')
     \<and> normal_loop (with_beyond b d) buf s = Inr (buf', s') \<and> parser_ok d s'"
proof (induction d buf s rule: normal_loop.induct)
  case (1 d buf s)
  obtain ok s' where s': "accept d Character s = Inr (ok, s')" "accept (with_beyond b d) Character s = Inr (ok, s')"
    "parser_ok d s'"
    using accept_ok [OF "1.prems", of Character b] by auto
  show ?case
    using s' "1.IH" [OF s'(1) refl] by (cases ok) (auto simp: normal_loop.simps [of _ _ s])
qed

lemma quoted_char_ok:
  assumes "parser_ok d s"
  shows "\<exists>ok s'. quoted_char d s = Inr (ok, s') \<and> quoted_char (with_beyond b d) s = Inr (ok, s') \<and> parser_ok d s'"
proof -
  obtain ok1 s1 where s1: "accept d Character s = Inr (ok1, s1)" "accept (with_beyond b d) Character s = Inr (ok1, s1)"
    "parser_ok d s1"
    using accept_ok [OF assms, of Character b] by auto
  obtain ok2 s2 where s2: "accept d Delimeter s1 = Inr (ok2, s2)" "accept (with_beyond b d) Delimeter s1 = Inr (ok2, s2)"
    "parser_ok d s2"
    using accept_ok [OF s1(3), of Delimeter b] by auto
  show ?thesis
    using s1 s2 accept_quoted_ok [OF s2(3), of b] by (cases ok1; cases ok2) (auto simp: quoted_char_def)
qed

lemma quoted_loop_ok:
  "parser_ok d s \<Longrightarrow> \<exists>buf' s'. quoted_loop d buf s = Inr (buf', s')
     \<and> quoted_loop (with_beyond b d) buf s = Inr (buf', s') \<and> parser_ok d s'"
proof (induction d buf s rule: quoted_loop.induct)
  case (1 d buf s)
  obtain ok s' where s': "quoted_char d s = Inr (ok, s')" "quoted_char (with_beyond b d) s = Inr (ok, s')"
    "parser_ok d s'"
    using quoted_char_ok [OF "1.prems", of b] by auto
  show ?case
    using s' "1.IH" [OF s'(1) refl] by (cases ok) (auto simp: quoted_loop.simps [of _ _ s])
qed

text \<open>A step succeeds inside the string, or reports an unexpected token.\<close>

definition same_ok :: "dialect \<Rightarrow> ('a \<times> parser) result \<Rightarrow> ('a \<times> parser) result \<Rightarrow> bool" where
  "same_ok d r r' \<longleftrightarrow> r' = r \<and> (case r of Inr (x, s) \<Rightarrow> parser_ok d s | Inl e \<Rightarrow> (\<exists>m. e = Runtime_error m))"

lemma field_ok:
  assumes "parser_ok d s"
  shows "same_ok d (field d s) (field (with_beyond b d) s)"
proof -
  obtain ok s1 where s1: "accept d Quote s = Inr (ok, s1)" "accept (with_beyond b d) Quote s = Inr (ok, s1)" "parser_ok d s1"
    using accept_ok [OF assms, of Quote b] by auto
  show ?thesis
  proof (cases ok)
    case True
    obtain buf s2 where s2: "quoted_loop d [] s1 = Inr (buf, s2)" "quoted_loop (with_beyond b d) [] s1 = Inr (buf, s2)"
      "parser_ok d s2"
      using quoted_loop_ok [OF s1(3), of "[]" b] by auto
    obtain ok3 s3 where "accept d Quote s2 = Inr (ok3, s3)" "accept (with_beyond b d) Quote s2 = Inr (ok3, s3)"
      "parser_ok d s3"
      using accept_ok [OF s2(3), of Quote b] by auto
    with s1 s2 True show ?thesis
      by (cases ok3) (auto simp: field_def quoted_field_def expect_def same_ok_def)
  next
    case False
    with s1 normal_loop_ok [OF s1(3), of "[]" b] show ?thesis
      by (auto simp: field_def normal_field_def same_ok_def)
  qed
qed

lemma fields_loop_ok: "parser_ok d s \<Longrightarrow> same_ok d (fields_loop d cols s) (fields_loop (with_beyond b d) cols s)"
proof (induction d cols s rule: fields_loop.induct)
  case (1 d cols s)
  obtain ok s1 where s1: "accept d Delimeter s = Inr (ok, s1)" "accept (with_beyond b d) Delimeter s = Inr (ok, s1)"
    "parser_ok d s1"
    using accept_ok [OF "1.prems", of Delimeter b] by auto
  show ?case
  proof (cases ok)
    case True
    note f = field_ok [OF s1(3), of b]
    show ?thesis
    proof (cases "field d s1")
      case (Inl e)
      with f s1 True show ?thesis by (auto simp: same_ok_def fields_loop.simps [of _ _ s])
    next
      case (Inr cs)
      obtain c s2 where "cs = (c, s2)" by (cases cs)
      with Inr f s1 True "1.IH" [OF s1(1) refl True] show ?thesis
        by (auto simp: same_ok_def fields_loop.simps [of _ _ s])
    qed
  qed (use s1 in \<open>auto simp: same_ok_def fields_loop.simps [of _ _ s]\<close>)
qed

text \<open>
  Every line is parsed to its columns or refused with an exception: the pointer never
  moves past the byte behind the terminating zero, the only byte outside the string that
  is looked at, and the result does not depend on that byte.
\<close>

theorem parse_line_safe:
  "parse_line (with_beyond b d) s = parse_line d s
   \<and> ((\<exists>cols. parse_line d s = Inr cols) \<or> (\<exists>m. parse_line d s = Inl (Runtime_error m)))"
proof -
  let ?p = "parser_init d s"
  have init: "parser_ok d ?p" "parser_init (with_beyond b d) s = ?p"
    by (simp_all add: parser_ok_def parser_init_def token_at_beyond)
  note f = field_ok [OF init(1), of b]
  have all: "same_ok d (fields d ?p) (fields (with_beyond b d) ?p)"
  proof (cases "field d ?p")
    case (Inl e)
    with f show ?thesis by (auto simp: same_ok_def fields_def)
  next
    case (Inr cs)
    obtain c s2 where cs: "cs = (c, s2)" by (cases cs)
    with Inr f have "parser_ok d s2" by (simp add: same_ok_def)
    from fields_loop_ok [OF this, of "[c]" b] cs Inr f show ?thesis
      by (auto simp: same_ok_def fields_def)
  qed
  show ?thesis
  proof (cases "fields d ?p")
    case (Inl e)
    with all init(2) show ?thesis by (auto simp: same_ok_def parse_line_def)
  next
    case (Inr cs)
    obtain cols s2 where cs: "cs = (cols, s2)" by (cases cs)
    with Inr all have ok: "parser_ok d s2" "fields (with_beyond b d) ?p = Inr (cols, s2)"
      by (auto simp: same_ok_def)
    then obtain c r where "rest s2 = c # r"
      by (cases "rest s2") (auto simp: parser_ok_def)
    then show ?thesis
      using Inr cs ok init(2)
      by (auto simp: parse_line_def expect_def accept_def nextsym_def)
  qed
qed

section \<open>Round trip\<close>

text \<open>
  A writer for the format the parser reads: values in quotes with every quote
  escaped, and nothing for a missing value.
\<close>

fun escape_text :: "dialect \<Rightarrow> string \<Rightarrow> string" where
  "escape_text d [] = []"
| "escape_text d (c # cs) = (if c = quote d then [escape d, c] else [c]) @ escape_text d cs"

fun column_text :: "dialect \<Rightarrow> column \<Rightarrow> string" where
  "column_text d None = []"
| "column_text d (Some x) = [quote d] @ escape_text d x @ [quote d]"

definition line_text :: "dialect \<Rightarrow> column list \<Rightarrow> string" where
  "line_text d cols = join [delimeter d] (map (column_text d) cols)"

definition dialect_ok :: "dialect \<Rightarrow> bool" where
  "dialect_ok d \<longleftrightarrow> NUL \<notin> {delimeter d, quote d, escape d} \<and> delimeter d \<notin> {quote d, escape d}"

fun column_ok :: "dialect \<Rightarrow> column \<Rightarrow> bool" where
  "column_ok d None = True"
| "column_ok d (Some x) \<longleftrightarrow> NUL \<notin> set x \<and> (escape d = quote d \<or> escape d \<notin> set x)"

lemma tokens:
  assumes "dialect_ok d"
  shows "token_of d (delimeter d) = Delimeter" "token_of d (quote d) = Quote" "token_of d NUL = Eol"
    "escape d \<noteq> quote d \<Longrightarrow> token_of d (escape d) = Escape"
  using assms by (auto simp: token_of_def dialect_ok_def)

text \<open>A parser in front of a text, with the symbol of its first character.\<close>

definition at_text :: "dialect \<Rightarrow> char \<Rightarrow> string \<Rightarrow> parser" where
  "at_text d p r = \<lparr>prev = p, rest = r, sym = token_at d r\<rparr>"

lemma at_text_simps [simp]:
  "sym (at_text d p (c # r)) = token_of d c"
  "prev (at_text d p r) = p"
  "nextsym d (at_text d p (c # r)) = Inr (at_text d c r)"
  by (simp_all add: at_text_def nextsym_def)

lemma accept_at_text [simp]:
  "accept d t (at_text d p (c # r)) =
     (if token_of d c = t then Inr (True, at_text d c r) else Inr (False, at_text d p (c # r)))"
  by (simp add: accept_def)

lemma quoted_loop_char:
  assumes "dialect_ok d" "c \<noteq> NUL" "c \<noteq> quote d" "escape d = quote d \<or> c \<noteq> escape d"
  shows "quoted_loop d buf (at_text d p (c # r)) = quoted_loop d (buf @ [c]) (at_text d c r)"
proof -
  have "token_of d c = Character \<or> token_of d c = Delimeter"
    using assms by (auto simp: token_of_def dialect_ok_def)
  then have "quoted_char d (at_text d p (c # r)) = Inr (True, at_text d c r)"
    by (auto simp: quoted_char_def)
  then show ?thesis
    by (simp add: quoted_loop.simps [of d buf "at_text d p (c # r)"])
qed

lemma quoted_loop_quote:
  assumes "dialect_ok d"
  shows "quoted_loop d buf (at_text d p (escape d # quote d # r)) = quoted_loop d (buf @ [quote d]) (at_text d (quote d) r)"
proof -
  have "token_of d (escape d) = (if quote d = escape d then Quote else Escape)"
    using tokens [OF assms] by auto
  then have "quoted_char d (at_text d p (escape d # quote d # r)) = Inr (True, at_text d (quote d) r)"
    using tokens [OF assms] by (auto simp: quoted_char_def accept_quoted_symbol_def Let_def)
  then show ?thesis
    by (simp add: quoted_loop.simps [of d buf "at_text d p (escape d # quote d # r)"])
qed

lemma quoted_loop_end:
  assumes "dialect_ok d" "token_of d c \<noteq> Quote"
  shows "quoted_loop d buf (at_text d p (quote d # c # r)) = Inr (buf, at_text d p (quote d # c # r))"
proof -
  have "quoted_char d (at_text d p (quote d # c # r)) = Inr (False, at_text d p (quote d # c # r))"
    using tokens [OF assms(1)] assms(2) by (auto simp: quoted_char_def accept_quoted_symbol_def Let_def)
  then show ?thesis
    by (simp add: quoted_loop.simps [of d buf "at_text d p (quote d # c # r)"])
qed

lemma quoted_loop_text:
  "dialect_ok d \<Longrightarrow> column_ok d (Some x) \<Longrightarrow> token_of d c \<noteq> Quote \<Longrightarrow>
     \<exists>p'. quoted_loop d buf (at_text d p (escape_text d x @ quote d # c # r))
       = Inr (buf @ x, at_text d p' (quote d # c # r))"
proof (induction x arbitrary: buf p)
  case Nil
  then show ?case using quoted_loop_end by auto
next
  case (Cons a x)
  have ok: "column_ok d (Some x)" using Cons.prems(2) by auto
  show ?case
  proof (cases "a = quote d")
    case True
    then show ?thesis
      using quoted_loop_quote [OF Cons.prems(1), of buf p] Cons.IH [OF Cons.prems(1) ok Cons.prems(3), of "buf @ [a]" a]
      by simp
  next
    case False
    then show ?thesis
      using quoted_loop_char [OF Cons.prems(1), of a buf p] Cons.prems(2)
        Cons.IH [OF Cons.prems(1) ok Cons.prems(3), of "buf @ [a]" a]
      by auto
  qed
qed

lemma field_text:
  assumes "dialect_ok d" "column_ok d col" "token_of d c = Delimeter \<or> token_of d c = Eol"
  shows "\<exists>p'. field d (at_text d p (column_text d col @ c # r)) = Inr (col, at_text d p' (c # r))"
proof (cases col)
  case None
  with assms(3) show ?thesis
    by (auto simp: field_def normal_field_def normal_loop.simps)
next
  case (Some x)
  obtain p' where "quoted_loop d [] (at_text d (quote d) (escape_text d x @ quote d # c # r))
      = Inr (x, at_text d p' (quote d # c # r))"
    using quoted_loop_text [OF assms(1), of x c "[]" "quote d" r] assms Some by auto
  then show ?thesis
    using tokens [OF assms(1)] Some by (auto simp: field_def quoted_field_def expect_def)
qed

lemma fields_loop_text:
  "dialect_ok d \<Longrightarrow> (\<forall>col\<in>set cols. column_ok d col) \<Longrightarrow>
     \<exists>p'. fields_loop d acc (at_text d p (concat (map (\<lambda>col. delimeter d # column_text d col) cols) @ [NUL]))
       = Inr (acc @ cols, at_text d p' [NUL])"
proof (induction cols arbitrary: acc p)
  case Nil
  then show ?case
    using tokens [of d] by (auto simp: fields_loop.simps)
next
  case (Cons col cols)
  let ?tail = "concat (map (\<lambda>col. delimeter d # column_text d col) cols) @ [NUL]"
  obtain c r where c: "?tail = c # r" "token_of d c = Delimeter \<or> token_of d c = Eol"
    using tokens [OF Cons.prems(1)] by (cases cols) auto
  obtain p' where "field d (at_text d (delimeter d) (column_text d col @ c # r)) = Inr (col, at_text d p' (c # r))"
    using field_text [OF Cons.prems(1) _ c(2), of col "delimeter d" r] Cons.prems(2) by auto
  then have "fields_loop d acc (at_text d p (delimeter d # column_text d col @ ?tail))
      = fields_loop d (acc @ [col]) (at_text d p' ?tail)"
    using tokens [OF Cons.prems(1)] unfolding c(1) by (simp add: fields_loop.simps [of d acc])
  then show ?case
    using Cons.IH [OF Cons.prems(1), of "acc @ [col]" p'] Cons.prems(2) by auto
qed

lemma join_Cons_concat: "join [s] (x # xs) = x @ concat (map (\<lambda>y. s # y) xs)"
  by (induction xs arbitrary: x) auto

lemma parse_written_line:
  assumes "dialect_ok d" "cols \<noteq> []" "\<forall>col\<in>set cols. column_ok d col"
  shows "parse_line d (line_text d cols) = Inr cols"
proof -
  obtain col cs where cols: "cols = col # cs"
    using assms(2) by (cases cols) auto
  let ?tail = "concat (map (\<lambda>col. delimeter d # column_text d col) cs) @ [NUL]"
  have whole: "line_text d cols @ [NUL] = column_text d col @ ?tail"
    by (simp add: line_text_def cols join_Cons_concat comp_def)
  obtain c r where c: "?tail = c # r" "token_of d c = Delimeter \<or> token_of d c = Eol"
    using tokens [OF assms(1)] by (cases cs) auto
  obtain p' where f: "field d (at_text d NUL (column_text d col @ c # r)) = Inr (col, at_text d p' (c # r))"
    using field_text [OF assms(1) _ c(2), of col NUL r] assms(3) cols by auto
  obtain p'' where "fields_loop d [col] (at_text d p' ?tail) = Inr (cols, at_text d p'' [NUL])"
    using fields_loop_text [OF assms(1), of cs "[col]" p'] assms(3) cols by auto
  moreover have "parser_init d (line_text d cols) = at_text d NUL (column_text d col @ c # r)"
    using whole c(1) by (simp add: parser_init_def at_text_def)
  ultimately show ?thesis
    using f c(1) tokens [OF assms(1)] by (simp add: parse_line_def fields_def expect_def)
qed

text \<open>Writer and parser are a codec for every dialect.\<close>

interpretation csv: codec "line_text d" "parse_line d"
    "\<lambda>cols. dialect_ok d \<and> cols \<noteq> [] \<and> (\<forall>col\<in>set cols. column_ok d col)" for d
  by unfold_locales (simp add: parse_written_line)

text \<open>
  C34: Columns written with quotes and escaped quotes, missing values as nothing, are
  read back unchanged, both when quotes are doubled and when they are escaped by another
  character that the values do not contain; different columns give different lines.
\<close>

theorem parse_line_text:
  assumes "dialect_ok d" "cols \<noteq> []" "\<forall>col\<in>set cols. column_ok d col"
  shows "parse_line d (line_text d cols) = Inr cols
    \<and> (cols' \<noteq> [] \<and> (\<forall>col\<in>set cols'. column_ok d col) \<and> line_text d cols' = line_text d cols \<longrightarrow> cols' = cols)"
  using csv.dec_enc csv.enc_inj assms by auto

lemma parse_line_text_witness:
  "parse_line \<lparr>delimeter = CHR '','', quote = CHR 0x22, escape = CHR 0x22, beyond = CHR ''z''\<rparr>
     (CHR 0x22 # ''a'' @ [CHR 0x22, CHR 0x22] @ '',b'' @ [CHR 0x22] @ '','') = Inr [Some (''a'' @ [CHR 0x22] @ '',b''), None]"
proof -
  let ?d = "\<lparr>delimeter = CHR '','', quote = CHR 0x22, escape = CHR 0x22, beyond = CHR ''z''\<rparr>"
  let ?cols = "[Some (''a'' @ [CHR 0x22] @ '',b''), None]"
  have "dialect_ok ?d" "?cols \<noteq> []" "\<forall>col\<in>set ?cols. column_ok ?d col"
    "line_text ?d ?cols = CHR 0x22 # ''a'' @ [CHR 0x22, CHR 0x22] @ '',b'' @ [CHR 0x22] @ '',''"
    by code_simp+
  from parse_line_text [OF this(1-3), of ?cols] this(4) show ?thesis by simp
qed

end
