(* ===== verification/Patch.thy ===== *)
theory Patch
  imports Prelude
begin

text \<open>
  \<open>primitives::patch\<close> (patch.cpp): applying a unified diff to a text. The
  iterator over the lines of the diff is the list of the lines still to come;
  the pair of a success flag and a text or message is kept as it is.
\<close>

type_synonym lines = "string list"

definition CR :: char where
  "CR = char_of (13 :: nat)"

section \<open>One hunk\<close>

text \<open>\<open>add_line\<close>: the text and the index of the next new line.\<close>

definition add_line_text :: "string \<Rightarrow> string \<times> int \<Rightarrow> string \<times> int" where
  "add_line_text s = (\<lambda>(r, ni). (r @ s @ [NL], ni + 1))"

text \<open>
  \<open>patch_hunk\<close>: \<open>oi\<close> is the index of the next old line, \<open>os\<close> and \<open>ns\<close> the old and
  new lines the hunk still has. An old line past the end is read without a check.
\<close>

fun patch_hunk ::
  "lines \<Rightarrow> lines \<Rightarrow> nat \<Rightarrow> int \<Rightarrow> int \<Rightarrow> int \<Rightarrow> string \<Rightarrow> ((bool \<times> string) \<times> lines \<times> nat \<times> int) result" where
  "patch_hunk ls [] oi ni os ns r =
     Inr (if os = 0 \<and> ns = 0 then (True, r) else (False, ''bad hunk info''), [], oi, ni)"
| "patch_hunk ls (l # i) oi ni os ns r =
     (if l = [] then patch_hunk ls i oi ni os ns r
      else if os = 0 \<and> ns = 0 then Inr ((True, r), l # i, oi, ni)
      else if os < 0 \<or> ns < 0 then Inr ((False, ''bad hunk info''), l # i, oi, ni)
      else if hd l = CHR '' '' then
        (if oi \<ge> length ls then Inl Undefined
         else if ls ! oi \<noteq> tl l then Inr ((False, ''context lines do not match''), l # i, oi, ni)
         else case add_line_text (ls ! oi) (r, ni) of (r, ni) \<Rightarrow> patch_hunk ls i (Suc oi) ni (os - 1) (ns - 1) r)
      else if hd l = CHR ''+'' then
        (case add_line_text (tl l) (r, ni) of (r, ni) \<Rightarrow> patch_hunk ls i oi ni os (ns - 1) r)
      else if hd l = CHR ''-'' then
        (if oi \<ge> length ls then Inl Undefined
         else if ls ! oi \<noteq> tl l then Inr ((False, ''context lines do not match''), l # i, oi, ni)
         else patch_hunk ls i (Suc oi) ni (os - 1) ns r)
      else Inr ((False, ''bad symbol '' @ [hd l] @ '', os = '' @ to_string os @ '', ns = '' @ to_string ns),
                l # i, oi, ni))"

section \<open>One file\<close>

text \<open>
  The header of a hunk, \<open>@@ -(\d+),(\d+) \+(\d+),(\d+) @@.*\<close> on the whole line;
  the dot does not match a line terminator.
\<close>

definition match_digits :: "string \<Rightarrow> (string \<times> string) option" where
  "match_digits s = (let d = takeWhile is_digit s in if d = [] then None else Some (d, drop (length d) s))"

definition match_text :: "string \<Rightarrow> string \<Rightarrow> string option" where
  "match_text t s = (if prefix t s then Some (drop (length t) s) else None)"

definition match_hunk :: "string \<Rightarrow> (string \<times> string \<times> string \<times> string) option" where
  "match_hunk s =
     Option.bind (match_text ''@@ -'' s) (\<lambda>s.
     Option.bind (match_digits s) (\<lambda>(d1, s).
     Option.bind (match_text '','' s) (\<lambda>s.
     Option.bind (match_digits s) (\<lambda>(d2, s).
     Option.bind (match_text '' +'' s) (\<lambda>s.
     Option.bind (match_digits s) (\<lambda>(d3, s).
     Option.bind (match_text '','' s) (\<lambda>s.
     Option.bind (match_digits s) (\<lambda>(d4, s).
     Option.bind (match_text '' @@'' s) (\<lambda>s.
       if CR \<in> set s \<or> NL \<in> set s then None else Some (d1, d2, d3, d4))))))))))"

text \<open>
  Copying the lines up to the hunk: the first line of the hunk is compared as an
  unsigned number, so that line 0 of a header, one less than the first line, is a
  number no index reaches before it leaves the lines.
\<close>

definition copy_to_hunk :: "lines \<Rightarrow> int \<Rightarrow> nat \<Rightarrow> string \<times> int \<Rightarrow> (nat \<times> string \<times> int) result" where
  "copy_to_hunk ls ol oi rn =
     (if ol < 0 \<or> oi < nat ol \<and> length ls < nat ol then Inl Undefined
      else Inr (max oi (nat ol), foldl (\<lambda>rn l. add_line_text l rn) rn (drop oi (take (nat ol) ls))))"

lemma patch_hunk_le: "patch_hunk ls i oi ni os ns r = Inr (res, i', oi', ni') \<Longrightarrow> length i' \<le> length i"
  by (induction ls i oi ni os ns r rule: patch_hunk.induct)
    (auto simp: add_line_text_def split: if_splits)

text \<open>\<open>patch_file\<close>; \<open>git\<close> tells whether \<open>PatchOption::Git\<close> is set.\<close>

function patch_file ::
  "lines \<Rightarrow> bool \<Rightarrow> lines \<Rightarrow> nat \<Rightarrow> int \<Rightarrow> string \<Rightarrow> ((bool \<times> string) \<times> nat) result" where
  "patch_file ls git [] oi ni r = Inr ((True, r), oi)"
| "patch_file ls git (l # i) oi ni r =
     (if l = [] then patch_file ls git i oi ni r
      else if hd l = CHR ''+'' then
        (if prefix ''+++'' l then patch_file ls git i oi ni r else Inr ((False, ''+ is out of hunk''), oi))
      else if hd l = CHR ''-'' then
        (if prefix ''---'' l then patch_file ls git i oi ni r else Inr ((False, ''- is out of hunk''), oi))
      else if hd l = CHR ''@'' then
        (case match_hunk l of
           None \<Rightarrow> Inr ((False, ''bad hunk description''), oi)
         | Some (d1, d2, d3, d4) \<Rightarrow>
             bind_result (stoi d1) (\<lambda>ol. bind_result (stoi d2) (\<lambda>os.
             bind_result (stoi d3) (\<lambda>nl. bind_result (stoi d4) (\<lambda>ns.
             bind_result (copy_to_hunk ls (ol - 1) oi (r, ni)) (\<lambda>(oi, r, ni).
               if nl - 1 \<noteq> ni then Inr ((False, ''nl is wrong: '' @ to_string nl), oi)
               else bind_result (patch_hunk ls i oi ni os ns []) (\<lambda>(res, i', oi, ni).
                 if \<not> fst res then
                   Inr ((False, ''bad hunk '' @ to_string nl @ '': '' @ snd res), oi)
                 else patch_file ls git i' oi ni (r @ snd res))))))))
      else if (hd l = CHR ''d'' \<or> hd l = CHR ''i'') \<and> git then Inr ((True, r), oi)
      else Inr ((False, ''unknown action''), oi))"
  by pat_completeness auto
termination
  by (relation "measure (\<lambda>(ls, git, i, oi, ni, r). length i)")
    (auto dest!: patch_hunk_le)

section \<open>A whole text\<close>

text \<open>\<open>prepare_lines\<close>: \<open>split\<close> is \<open>boost::split\<close> at newlines; trailing carriage returns go.\<close>

definition strip_cr :: "string \<Rightarrow> string" where
  "strip_cr l = rev (dropWhile (\<lambda>c. c = CR) (rev l))"

definition prepare_lines :: "(string \<Rightarrow> lines) \<Rightarrow> string \<Rightarrow> lines" where
  "prepare_lines split s = map strip_cr (split s)"

definition patch_text :: "(string \<Rightarrow> lines) \<Rightarrow> string \<Rightarrow> lines \<Rightarrow> bool \<Rightarrow> (bool \<times> string) result" where
  "patch_text split t i git =
     (let ls = prepare_lines split t
      in bind_result (patch_file ls git i 0 0 []) (\<lambda>(res, oi).
        if \<not> fst res then Inr (False, ''bad file: '' @ snd res)
        else
          let s = snd res @ concat (map (\<lambda>l. l @ [NL]) (drop oi ls))
          in Inr (True, if s \<noteq> [] then take (length s - 1) s else s)))"

definition patch :: "(string \<Rightarrow> lines) \<Rightarrow> string \<Rightarrow> string \<Rightarrow> bool \<Rightarrow> (bool \<times> string) result" where
  "patch split t unidiff git = patch_text split t (prepare_lines split unidiff) git"

text \<open>The version for a directory is not implemented.\<close>

definition patch_directory :: "string \<Rightarrow> string \<Rightarrow> bool \<Rightarrow> bool result" where
  "patch_directory root_dir unidiff git = Inl (Runtime_error ''not tested'')"

section \<open>Edits\<close>

text \<open>What the lines of a hunk mean.\<close>

datatype edit = Keep string | Add string | Del string

fun edit_line :: "edit \<Rightarrow> string" where
  "edit_line (Keep l) = CHR '' '' # l"
| "edit_line (Add l) = CHR ''+'' # l"
| "edit_line (Del l) = CHR ''-'' # l"

fun old_side :: "edit list \<Rightarrow> lines" where
  "old_side [] = []"
| "old_side (Keep l # es) = l # old_side es"
| "old_side (Add l # es) = old_side es"
| "old_side (Del l # es) = l # old_side es"

fun new_side :: "edit list \<Rightarrow> lines" where
  "new_side [] = []"
| "new_side (Keep l # es) = l # new_side es"
| "new_side (Add l # es) = l # new_side es"
| "new_side (Del l # es) = new_side es"

definition lines_text :: "lines \<Rightarrow> string" where
  "lines_text ls = concat (map (\<lambda>l. l @ [NL]) ls)"

lemma lines_text_simps [simp]:
  "lines_text [] = []" "lines_text (l # ls) = l @ NL # lines_text ls"
  "lines_text (ls @ ls') = lines_text ls @ lines_text ls'"
  by (simp_all add: lines_text_def)

lemma edit_line_nonempty [simp]: "edit_line e \<noteq> []"
  by (cases e) auto

lemma patch_hunk_done: "patch_hunk ls i oi ni 0 0 r = Inr ((True, r), dropWhile (\<lambda>l. l = []) i, oi, ni)"
  by (induction i) auto

lemma sides_zero: "es \<noteq> [] \<Longrightarrow> \<not> (length (old_side es) = 0 \<and> length (new_side es) = 0)"
  by (cases es; cases "hd es") auto

lemma prefix_drop_Cons:
  "prefix (x # xs) (drop n ls) \<Longrightarrow> n < length ls \<and> ls ! n = x \<and> prefix xs (drop (Suc n) ls)"
  by (cases "n < length ls") (auto simp: Cons_nth_drop_Suc [symmetric])

lemma patch_hunk_edits:
  "prefix (old_side es) (drop oi ls) \<Longrightarrow>
     patch_hunk ls (map edit_line es @ i) oi ni (int (length (old_side es))) (int (length (new_side es))) r =
     Inr ((True, r @ lines_text (new_side es)), dropWhile (\<lambda>l. l = []) i,
          oi + length (old_side es), ni + int (length (new_side es)))"
proof (induction es arbitrary: oi ni r)
  case Nil
  then show ?case by (simp add: patch_hunk_done)
next
  case (Cons e es)
  show ?case
  proof (cases e)
    case (Keep l)
    with Cons prefix_drop_Cons [of l "old_side es" oi ls] show ?thesis
      by (simp add: add_line_text_def)
  next
    case (Add l)
    with Cons show ?thesis by (simp add: add_line_text_def)
  next
    case (Del l)
    with Cons prefix_drop_Cons [of l "old_side es" oi ls] show ?thesis
      by simp
  qed
qed

text \<open>
  When a hunk is accepted, the lines it consumed (empty ones aside) are context,
  added and removed lines whose old side stands in the file at the current position and
  has the announced length; the text produced is their new side, of the announced length.
\<close>

theorem patch_hunk_sound:
  assumes "patch_hunk ls i oi ni os ns r = Inr ((True, r'), i', oi', ni')"
  shows "\<exists>es. filter (\<lambda>l. l \<noteq> []) i = map edit_line es @ filter (\<lambda>l. l \<noteq> []) i'
    \<and> prefix (old_side es) (drop oi ls) \<and> os = int (length (old_side es)) \<and> ns = int (length (new_side es))
    \<and> oi' = oi + length (old_side es) \<and> ni' = ni + int (length (new_side es)) \<and> r' = r @ lines_text (new_side es)"
  using assms
proof (induction ls i oi ni os ns r rule: patch_hunk.induct)
  case (1 ls oi ni os ns r)
  then show ?case
    by (intro exI [of _ "[]"]) (auto split: if_splits)
next
  case (2 ls l i oi ni os ns r)
  consider "l = []" | "l \<noteq> []" "os = 0 \<and> ns = 0"
    | (keep) t where "l = CHR '' '' # t" "\<not> (os = 0 \<and> ns = 0)" "\<not> (os < 0 \<or> ns < 0)" "oi < length ls" "ls ! oi = t"
    | (add) t where "l = CHR ''+'' # t" "\<not> (os = 0 \<and> ns = 0)" "\<not> (os < 0 \<or> ns < 0)"
    | (del) t where "l = CHR ''-'' # t" "\<not> (os = 0 \<and> ns = 0)" "\<not> (os < 0 \<or> ns < 0)" "oi < length ls" "ls ! oi = t"
    using "2.prems" by (cases l) (auto split: if_splits)
  then show ?case
  proof cases
    case 1
    with 2 show ?thesis by simp
  next
    case 2
    with "2.prems" show ?thesis
      by (intro exI [of _ "[]"]) auto
  next
    case keep
    then obtain es where "filter (\<lambda>l. l \<noteq> []) i = map edit_line es @ filter (\<lambda>l. l \<noteq> []) i'"
      "prefix (old_side es) (drop (Suc oi) ls)" "os - 1 = int (length (old_side es))" "ns - 1 = int (length (new_side es))"
      "oi' = Suc oi + length (old_side es)" "ni' = ni + 1 + int (length (new_side es))"
      "r' = (r @ t @ [NL]) @ lines_text (new_side es)"
      using 2 by (auto simp: add_line_text_def)
    with keep show ?thesis
      by (intro exI [of _ "Keep t # es"]) (auto simp: Cons_nth_drop_Suc [symmetric])
  next
    case add
    then obtain es where "filter (\<lambda>l. l \<noteq> []) i = map edit_line es @ filter (\<lambda>l. l \<noteq> []) i'"
      "prefix (old_side es) (drop oi ls)" "os = int (length (old_side es))" "ns - 1 = int (length (new_side es))"
      "oi' = oi + length (old_side es)" "ni' = ni + 1 + int (length (new_side es))"
      "r' = (r @ t @ [NL]) @ lines_text (new_side es)"
      using 2 by (auto simp: add_line_text_def)
    with add show ?thesis
      by (intro exI [of _ "Add t # es"]) auto
  next
    case del
    then obtain es where "filter (\<lambda>l. l \<noteq> []) i = map edit_line es @ filter (\<lambda>l. l \<noteq> []) i'"
      "prefix (old_side es) (drop (Suc oi) ls)" "os - 1 = int (length (old_side es))" "ns = int (length (new_side es))"
      "oi' = Suc oi + length (old_side es)" "ni' = ni + int (length (new_side es))"
      "r' = r @ lines_text (new_side es)"
      using 2 by auto
    with del show ?thesis
      by (intro exI [of _ "Del t # es"]) (auto simp: Cons_nth_drop_Suc [symmetric])
  qed
qed

lemma patch_hunk_sound_witness:
  "\<exists>es. filter (\<lambda>l. l \<noteq> []) ['' a'', ''-b'', ''+c''] = map edit_line es \<and> prefix (old_side es) [''a'', ''b'']"
proof -
  have "patch_hunk [''a'', ''b''] ['' a'', ''-b'', ''+c''] 0 0 2 2 [] = Inr ((True, ''a'' @ [NL] @ ''c'' @ [NL]), [], 2, 2)"
    by (simp add: add_line_text_def)
  from patch_hunk_sound [OF this] obtain es where
    "filter (\<lambda>l. l \<noteq> []) ['' a'', ''-b'', ''+c''] = map edit_line es @ filter (\<lambda>l. l \<noteq> []) []"
    "prefix (old_side es) (drop 0 [''a'', ''b''])"
    by blast
  then have "filter (\<lambda>l. l \<noteq> []) ['' a'', ''-b'', ''+c''] = map edit_line es \<and> prefix (old_side es) [''a'', ''b'']"
    by (simp only: append_Nil2 drop_0 filter.simps(1))
  then show ?thesis by blast
qed

section \<open>Diffs\<close>

text \<open>
  A diff as a list of hunks, each after a gap of unchanged lines; \<open>k\<close> and \<open>n\<close> count the
  old and new lines before.
\<close>

definition hunk_header :: "nat \<Rightarrow> nat \<Rightarrow> nat \<Rightarrow> nat \<Rightarrow> string" where
  "hunk_header ol os nl ns =
     ''@@ -'' @ nat_to_string ol @ '','' @ nat_to_string os @ '' +'' @ nat_to_string nl @ '','' @ nat_to_string ns @ '' @@''"

fun diff_of :: "(lines \<times> edit list) list \<Rightarrow> nat \<Rightarrow> nat \<Rightarrow> lines" where
  "diff_of [] k n = []"
| "diff_of ((gap, es) # segs) k n =
     hunk_header (k + length gap + 1) (length (old_side es)) (n + length gap + 1) (length (new_side es))
     # map edit_line es
     @ diff_of segs (k + length gap + length (old_side es)) (n + length gap + length (new_side es))"

definition old_of :: "(lines \<times> edit list) list \<Rightarrow> lines" where
  "old_of segs = concat (map (\<lambda>(gap, es). gap @ old_side es) segs)"

definition new_of :: "(lines \<times> edit list) list \<Rightarrow> lines" where
  "new_of segs = concat (map (\<lambda>(gap, es). gap @ new_side es) segs)"

lemma segs_simps [simp]:
  "old_of [] = []" "old_of ((gap, es) # segs) = gap @ old_side es @ old_of segs"
  "new_of [] = []" "new_of ((gap, es) # segs) = gap @ new_side es @ new_of segs"
  by (simp_all add: old_of_def new_of_def)

lemma match_digits_append:
  "list_all is_digit d \<Longrightarrow> d \<noteq> [] \<Longrightarrow> \<not> is_digit c \<Longrightarrow> match_digits (d @ c # s) = Some (d, c # s)"
proof -
  assume d: "list_all is_digit d" "d \<noteq> []" "\<not> is_digit c"
  then have "takeWhile is_digit (d @ c # s) = d"
    by (simp add: takeWhile_append2 list_all_iff)
  with d show ?thesis
    by (simp add: match_digits_def Let_def)
qed

lemma match_hunk_header:
  "match_hunk (hunk_header ol os nl ns) =
     Some (nat_to_string ol, nat_to_string os, nat_to_string nl, nat_to_string ns)"
proof -
  have sep: "\<not> is_digit (CHR '','')" "\<not> is_digit (CHR '' '')" "prefix ''@@ -'' (''@@ -'' @ s)"
    "prefix '' @@'' '' @@''" for s
    by (simp_all add: is_digit_def)
  note digits = match_digits_append [OF list_all_nat_to_string nat_to_string_nonempty sep(1)]
    match_digits_append [OF list_all_nat_to_string nat_to_string_nonempty sep(2)]
  show ?thesis
    by (simp add: match_hunk_def hunk_header_def match_text_def digits)
qed

lemma hunk_header_first: "hunk_header ol os nl ns \<noteq> []" "hd (hunk_header ol os nl ns) = CHR ''@''"
  by (simp_all add: hunk_header_def)

lemma stoi_nat: "int k \<le> int32_max \<Longrightarrow> stoi (nat_to_string k) = Inr (int k)"
  by (simp add: stoi_def)

lemma foldl_add_line: "foldl (\<lambda>rn l. add_line_text l rn) (r, ni) ls = (r @ lines_text ls, ni + int (length ls))"
  by (induction ls arbitrary: r ni) (simp_all add: add_line_text_def)

lemma copy_gap:
  assumes "prefix gap (drop k ls)"
  shows "copy_to_hunk ls (int (k + length gap)) k (r, ni) = Inr (k + length gap, r @ lines_text gap, ni + int (length gap))"
proof -
  obtain post where post: "drop k ls = gap @ post"
    using assms by (auto simp: prefix_def)
  then have "drop k (take (k + length gap) ls) = gap"
    by (simp add: drop_take)
  moreover have "gap \<noteq> [] \<Longrightarrow> k + length gap \<le> length ls"
    using arg_cong [OF post, of length] by (cases gap) auto
  ultimately show ?thesis
    by (auto simp: copy_to_hunk_def foldl_add_line nat_int_add)
qed

lemma diff_of_dropWhile:
  "dropWhile (\<lambda>l. l = []) (diff_of segs k n @ replicate m []) = (if segs = [] then [] else diff_of segs k n @ replicate m [])"
  by (cases "(segs, k, n)" rule: diff_of.cases) (auto simp: hunk_header_def)

lemma patch_file_blank: "patch_file ls git (replicate m []) oi ni r = Inr ((True, r), oi)"
  by (induction m) auto

lemma prefix_dropE:
  assumes "prefix (xs @ ys) (drop k ls)"
  shows "prefix xs (drop k ls)" "prefix ys (drop (k + length xs) ls)"
proof -
  obtain zs where "drop k ls = xs @ ys @ zs"
    using assms by (auto simp: prefix_def)
  moreover from this have "drop (k + length xs) ls = ys @ zs"
    by (metis add.commute append_eq_conv_conj drop_drop)
  ultimately show "prefix xs (drop k ls)" "prefix ys (drop (k + length xs) ls)"
    by auto
qed

lemma patch_file_diff:
  "prefix (old_of segs) (drop k ls) \<Longrightarrow>
   int (k + length (old_of segs)) < int32_max \<Longrightarrow> int (n + length (new_of segs)) < int32_max \<Longrightarrow>
     patch_file ls git (diff_of segs k n @ replicate m []) k (int n) r =
     Inr ((True, r @ lines_text (new_of segs)), k + length (old_of segs))"
proof (induction segs k n arbitrary: r rule: diff_of.induct)
  case (1 k n)
  then show ?case by (simp add: patch_file_blank)
next
  case (2 gap es segs k n)
  let ?k = "k + length gap" and ?n = "n + length gap"
  let ?k' = "?k + length (old_side es)" and ?n' = "?n + length (new_side es)"
  have pre: "prefix gap (drop k ls)" "prefix (old_side es) (drop ?k ls)" "prefix (old_of segs) (drop ?k' ls)"
    using prefix_dropE [of gap "old_side es @ old_of segs" k ls] prefix_dropE [of "old_side es" "old_of segs" ?k ls] "2.prems"(1)
    by simp_all
  have copy: "copy_to_hunk ls (int (?k + 1) - 1) k (r, int n) = Inr (?k, r @ lines_text gap, int ?n)"
    using copy_gap [OF pre(1), of r "int n"] by simp
  have small: "int (?k + 1) \<le> int32_max" "int (length (old_side es)) \<le> int32_max"
    "int (?n + 1) \<le> int32_max" "int (length (new_side es)) \<le> int32_max"
    "int (?k' + length (old_of segs)) < int32_max" "int (?n' + length (new_of segs)) < int32_max"
    using "2.prems"(2,3) by simp_all
  let ?rest = "diff_of segs ?k' ?n' @ replicate m []"
  have hunk: "patch_hunk ls (map edit_line es @ ?rest) ?k (int ?n) (int (length (old_side es))) (int (length (new_side es))) []
      = Inr ((True, lines_text (new_side es)), (if segs = [] then [] else ?rest), ?k', int ?n')"
    using patch_hunk_edits [OF pre(2), of ?rest "int ?n" "[]"] diff_of_dropWhile [of segs ?k' ?n' m] by simp
  have rest: "patch_file ls git (if segs = [] then [] else ?rest) ?k' (int ?n') (r @ lines_text gap @ lines_text (new_side es))
      = Inr ((True, r @ lines_text gap @ lines_text (new_side es) @ lines_text (new_of segs)), ?k' + length (old_of segs))"
    using "2.IH" [OF pre(3) small(5,6)] by simp
  define K N where "K = ?k" and "N = ?n"
  let ?h = "hunk_header (Suc K) (length (old_side es)) (Suc N) (length (new_side es))"
  have "patch_file ls git (?h # map edit_line es @ ?rest) k (int n) r =
      Inr ((True, r @ lines_text gap @ lines_text (new_side es) @ lines_text (new_of segs)), ?k' + length (old_of segs))"
    using copy hunk rest small(1-4) unfolding K_def [symmetric] N_def [symmetric]
    by (simp add: hunk_header_first match_hunk_header stoi_nat)
  then show ?case
    by (simp add: K_def N_def add.assoc)
qed

lemma patch_file_heads:
  "list_all (\<lambda>h. prefix ''+++'' h \<or> prefix ''---'' h) heads \<Longrightarrow>
     patch_file ls git (heads @ i) oi ni r = patch_file ls git i oi ni r"
proof (induction heads)
  case (Cons h heads)
  then have "h \<noteq> []" "hd h = CHR ''+'' \<and> prefix ''+++'' h \<or> hd h = CHR ''-'' \<and> prefix ''---'' h"
    by (auto simp: prefix_def)
  with Cons show ?case by auto
qed simp

lemma take_lines_text: "(if lines_text ls \<noteq> [] then take (length (lines_text ls) - 1) (lines_text ls) else lines_text ls) = join [NL] ls"
  using take_concat_map_sep [of "[NL]" ls] by (auto simp: lines_text_def)

text \<open>
  C6: A diff applies: when the text is made of the old sides of the hunks and the gaps
  between them, and the diff consists of file heads and these hunks with their line numbers
  and counts, the result is the text with the new sides in their places, and nothing else
  changed. The counts stay inside \<open>int\<close>.
\<close>

theorem patch_applies:
  assumes "prepare_lines split t = old_of segs @ post"
    and "prepare_lines split d = heads @ diff_of segs 0 0 @ replicate m []"
    and "list_all (\<lambda>h. prefix ''+++'' h \<or> prefix ''---'' h) heads"
    and "int (length (old_of segs)) < int32_max" "int (length (new_of segs)) < int32_max"
  shows "patch split t d git = Inr (True, join [NL] (new_of segs @ post))"
proof -
  have "patch_file (old_of segs @ post) git (heads @ diff_of segs 0 0 @ replicate m []) 0 0 [] =
      Inr ((True, lines_text (new_of segs)), length (old_of segs))"
    using patch_file_diff [of segs 0 "old_of segs @ post" 0 git m "[]"] assms(3-5)
    by (simp add: patch_file_heads)
  then have "patch split t d git = (let s = lines_text (new_of segs @ post)
      in Inr (True, if s \<noteq> [] then take (length s - 1) s else s))"
    by (simp add: patch_def patch_text_def assms(1,2) lines_text_def [of post] Let_def)
  then show ?thesis
    by (simp only: Let_def take_lines_text)
qed

fun split_at_newlines :: "string \<Rightarrow> lines" where
  "split_at_newlines [] = [[]]"
| "split_at_newlines (c # s) =
     (if c = NL then [] # split_at_newlines s
      else case split_at_newlines s of l # ls \<Rightarrow> (c # l) # ls | [] \<Rightarrow> [[c]])"

lemma patch_applies_witness:
  "patch split_at_newlines (''a'' @ [CR, NL] @ ''b'' @ [NL] @ ''c'')
     (''--- f'' @ [NL] @ ''+++ f'' @ [NL] @ ''@@ -2,1 +2,2 @@'' @ [NL] @ ''-b'' @ [NL] @ ''+x'' @ [NL] @ ''+y'' @ [NL]) False =
   Inr (True, ''a'' @ [NL] @ ''x'' @ [NL] @ ''y'' @ [NL] @ ''c'')"
proof -
  let ?t = "''a'' @ [CR, NL] @ ''b'' @ [NL] @ ''c''"
  let ?d = "''--- f'' @ [NL] @ ''+++ f'' @ [NL] @ ''@@ -2,1 +2,2 @@'' @ [NL] @ ''-b'' @ [NL] @ ''+x'' @ [NL] @ ''+y'' @ [NL]"
  let ?segs = "[([''a''], [Del ''b'', Add ''x'', Add ''y''])]"
  have t: "prepare_lines split_at_newlines ?t = old_of ?segs @ [''c'']"
    by code_simp
  have d: "prepare_lines split_at_newlines ?d = [''--- f'', ''+++ f''] @ diff_of ?segs 0 0 @ replicate 1 []"
    by code_simp
  show ?thesis
    using patch_applies [OF t d, of False] by (simp add: int32_max_def)
qed

text \<open>
  A hunk whose old side starts at line 0, as standard diffs announce a new file, is not
  applied: its first line minus one, as an unsigned number, makes the copying loop read past
  the lines of the text, whatever the text is.
\<close>

theorem patch_line_zero:
  assumes "int os \<le> int32_max" "int nl \<le> int32_max" "int ns \<le> int32_max"
  shows "patch_file ls git (hunk_header 0 os nl ns # i) oi ni r = Inl Undefined"
  using assms stoi_nat [of 0]
  by (simp add: hunk_header_first match_hunk_header stoi_nat copy_to_hunk_def)

lemma patch_line_zero_witness:
  "patch_file [[]] False [''@@ -0,0 +1,1 @@'', ''+a''] 0 0 [] = Inl Undefined"
proof -
  have "''@@ -0,0 +1,1 @@'' = hunk_header 0 0 1 1"
    by code_simp
  then show ?thesis
    using patch_line_zero [of 0 1 1 "[[]]" False "[''+a'']" 0 0 "[]"] by (simp add: int32_max_def)
qed

end
