(* ===== verification/Executor.thy ===== *)
theory Executor
  imports Prelude "HOL-Library.Multiset"
begin

text \<open>
  \<open>Executor\<close> (executor.h): a pool of threads, each with a task queue of its own.
  \<open>TaskQueue\<close>'s operations are functions; whether a \<open>try_to_lock\<close> succeeds is an
  argument of them. The threads, the callers of \<open>push\<close>, \<open>wait\<close> and \<open>stop\<close> are one
  step relation, a step being what one thread does under one lock or with one atomic
  variable. A call has its caller, outside the executor or a task of a worker, and a task does nothing
  else, and does not end, before its call has returned. A wait on a condition variable goes on when its predicate
  holds under the lock: \<open>TaskQueue\<close> notifies after each change of the queue, of which only its own thread waits in \<open>pop\<close>,
  and \<open>wait\<close> notifies while it holds \<open>m_wait\<close>. What the callers handed in and what became of it is recorded beside the
  state of the code, to say that nothing is lost or run twice.
\<close>

section \<open>Task queues\<close>

record 'a task_queue =
  tasks :: "'a list"
  queue_done :: bool

definition try_push :: "bool \<Rightarrow> 'a \<Rightarrow> 'a task_queue \<Rightarrow> bool \<times> 'a task_queue" where
  "try_push locked t q =
     (if queue_done q then (False, q)
      else if \<not> locked then (False, q)
      else (True, q\<lparr>tasks := tasks q @ [t]\<rparr>))"

definition try_pop :: "bool \<Rightarrow> 'a task_queue \<Rightarrow> 'a option \<times> 'a task_queue" where
  "try_pop locked q =
     (if \<not> locked \<or> tasks q = [] \<or> queue_done q then (None, q)
      else (Some (hd (tasks q)), q\<lparr>tasks := tl (tasks q)\<rparr>))"

definition push_queue :: "'a \<Rightarrow> 'a task_queue \<Rightarrow> 'a task_queue" where
  "push_queue t q = (if queue_done q then q else q\<lparr>tasks := tasks q @ [t]\<rparr>)"

text \<open>\<open>pop\<close> waits, the outer \<open>None\<close>, while the queue is empty and not done.\<close>

definition pop_queue :: "'a task_queue \<Rightarrow> ('a option \<times> 'a task_queue) option" where
  "pop_queue q =
     (if tasks q = [] \<and> \<not> queue_done q then None
      else if tasks q = [] \<or> queue_done q then Some (None, q)
      else Some (Some (hd (tasks q)), q\<lparr>tasks := tl (tasks q)\<rparr>))"

definition set_queue_done :: "'a task_queue \<Rightarrow> 'a task_queue" where
  "set_queue_done q = q\<lparr>queue_done := True\<rparr>"

definition queue_empty :: "'a task_queue \<Rightarrow> bool" where
  "queue_empty q \<longleftrightarrow> tasks q = []"

lemma try_push_cases:
  "try_push locked t q = (b, q') \<Longrightarrow>
     (b \<longleftrightarrow> locked \<and> \<not> queue_done q) \<and> q' = (if b then q\<lparr>tasks := tasks q @ [t]\<rparr> else q)"
  by (auto simp: try_push_def split: if_splits)

lemma try_pop_Some:
  "try_pop locked q = (Some t, q') \<longleftrightarrow>
     locked \<and> \<not> queue_done q \<and> \<not> queue_done q' \<and> tasks q = t # tasks q'"
  by (cases q; cases "tasks q"; cases q') (auto simp: try_pop_def split: if_splits)

lemma pop_queue_Some:
  "pop_queue q = Some (Some t, q') \<longleftrightarrow>
     \<not> queue_done q \<and> \<not> queue_done q' \<and> tasks q = t # tasks q'"
  by (cases q; cases "tasks q"; cases q') (auto simp: pop_queue_def split: if_splits)

lemma pop_queue_None: "pop_queue q = Some (None, q') \<longleftrightarrow> queue_done q \<and> q' = q"
  by (auto simp: pop_queue_def)

section \<open>The executor\<close>

datatype wait_status = Running | AllowIncoming | BlockIncoming | RejectIncoming

text \<open>
  Where a worker thread is: at the test of its loop, at the \<open>n\<close>-th attempt of
  \<open>try_pop\<close>, in \<open>pop\<close> of its own queue, behind \<open>get_task\<close> with its result, running a
  task (the last of the list; the ones before it are tasks run while it waits for a
  future or for the executor), past its loop, or in a call of an empty function.
\<close>

datatype 'a worker_pc =
    Loop
  | Spin nat
  | Block
  | Fetched "'a option"
  | Run "'a list"
  | Exited
  | Terminated

record 'a thread =
  q :: "'a task_queue"
  busy :: bool
  pc :: "'a worker_pc"

text \<open>
  Where a call comes from: outside the executor, or the task of worker \<open>i\<close> that runs when \<open>d\<close>
  tasks are running there.
\<close>

type_synonym caller = "(nat \<times> nat) option"

text \<open>A call of \<open>push\<close>: before its tests, between them, waiting for \<open>Running\<close>, and at the \<open>n\<close>-th queue from index \<open>i\<close>.\<close>

datatype 'a pushing =
    Enter 'a
  | Checked 'a
  | Blocked 'a
  | Trying 'a "64 word" nat

text \<open>The \<open>wait\<close> that holds \<open>m_wait\<close>, in its first or its second loop.\<close>

datatype wait_pc = Wait_queues nat | Wait_busy nat

type_synonym waiting_call = "caller \<times> wait_pc"

text \<open>
  The state. \<open>parked\<close> are the calls of \<open>wait\<close> that did not get \<open>m_wait\<close> at once and wait for it;
  \<open>awaits\<close> are the tasks in \<open>SharedState::wait\<close>, each with the task whose future it waits for.
\<close>

record 'a executor =
  thread_pool :: "'a thread list"
  index :: "64 word"
  stopped :: bool
  waiting :: wait_status
  waiter :: "waiting_call option"
  stopping :: "nat option"
  pushes :: "(caller \<times> 'a pushing) multiset"
  parked :: "caller multiset"
  awaits :: "((nat \<times> nat) \<times> 'a) multiset"
  submitted :: "'a multiset"
  finished :: "'a multiset"
  dropped :: "'a multiset"
  rejected :: "'a multiset"

definition nthreads :: "'a executor \<Rightarrow> nat" where
  "nthreads s = length (thread_pool s)"

definition modify :: "nat \<Rightarrow> ('b \<Rightarrow> 'b) \<Rightarrow> 'b list \<Rightarrow> 'b list" where
  "modify i f xs = xs[i := f (xs ! i)]"

definition set_q :: "nat \<Rightarrow> 'a task_queue \<Rightarrow> 'a executor \<Rightarrow> 'a executor" where
  "set_q i x s = s\<lparr>thread_pool := modify i (q_update (\<lambda>_. x)) (thread_pool s)\<rparr>"

definition set_busy :: "nat \<Rightarrow> bool \<Rightarrow> 'a executor \<Rightarrow> 'a executor" where
  "set_busy i x s = s\<lparr>thread_pool := modify i (busy_update (\<lambda>_. x)) (thread_pool s)\<rparr>"

definition set_pc :: "nat \<Rightarrow> 'a worker_pc \<Rightarrow> 'a executor \<Rightarrow> 'a executor" where
  "set_pc i x s = s\<lparr>thread_pool := modify i (pc_update (\<lambda>_. x)) (thread_pool s)\<rparr>"

definition queues :: "'a executor \<Rightarrow> 'a task_queue list" where
  "queues s = map q (thread_pool s)"

definition busys :: "'a executor \<Rightarrow> bool list" where
  "busys s = map busy (thread_pool s)"

definition pcs :: "'a executor \<Rightarrow> 'a worker_pc list" where
  "pcs s = map pc (thread_pool s)"

definition new_executor :: "nat \<Rightarrow> 'a executor" where
  "new_executor n =
     \<lparr>thread_pool = replicate n \<lparr>q = \<lparr>tasks = [], queue_done = False\<rparr>, busy = False, pc = Loop\<rparr>,
      index = 0, stopped = False, waiting = Running, waiter = None, stopping = None,
      pushes = {#}, parked = {#}, awaits = {#}, submitted = {#}, finished = {#}, dropped = {#}, rejected = {#}\<rparr>"

text \<open>
  Whether the task that runs on worker \<open>i\<close>, the first of the tasks there, is in a call of \<open>push\<close>, of
  \<open>wait\<close>, or of the wait for a future.
\<close>

definition in_call :: "'a executor \<Rightarrow> nat \<Rightarrow> 'a list \<Rightarrow> bool" where
  "in_call s i ts \<longleftrightarrow>
     (\<exists>x. (Some (i, length ts), x) \<in># pushes s) \<or> Some (i, length ts) \<in># parked s
     \<or> (\<exists>u. ((i, length ts), u) \<in># awaits s) \<or> (\<exists>p. waiter s = Some (Some (i, length ts), p))"

text \<open>A caller that has the control, and one that can begin a call.\<close>

definition caller_ready :: "'a executor \<Rightarrow> caller \<Rightarrow> bool" where
  "caller_ready s self =
     (case self of None \<Rightarrow> True
      | Some (i, d) \<Rightarrow> i < nthreads s \<and> (case pcs s ! i of Run ts \<Rightarrow> length ts = d | _ \<Rightarrow> False))"

definition may_call :: "'a executor \<Rightarrow> caller \<Rightarrow> bool" where
  "may_call s self =
     (case self of None \<Rightarrow> True
      | Some (i, d) \<Rightarrow> i < nthreads s
          \<and> (case pcs s ! i of Run ts \<Rightarrow> ts \<noteq> [] \<and> length ts = d \<and> \<not> in_call s i ts | _ \<Rightarrow> False))"

text \<open>
  The future of a task is set at the end of the task, before the worker clears its flag: from the
  moment on at which the task can end.
\<close>

definition future_set :: "'a executor \<Rightarrow> 'a \<Rightarrow> bool" where
  "future_set s t \<longleftrightarrow> t \<in># finished s
     \<or> (\<exists>j ts. j < nthreads s \<and> pcs s ! j = Run (t # ts) \<and> \<not> in_call s j (t # ts))"

definition queue_at :: "'a executor \<Rightarrow> 64 word \<Rightarrow> nat \<Rightarrow> nat" where
  "queue_at s i n = unat (i + of_nat n) mod nthreads s"

text \<open>
  The calls that the environment and the tasks begin. A task may begin one whenever it is in none; \<open>nest\<close>
  says whether tasks wait, for the executor or for futures. A \<open>try_to_lock\<close> of \<open>m_wait\<close> may fail
  at any time.
\<close>

inductive call_step :: "bool \<Rightarrow> 'a executor \<Rightarrow> 'a executor \<Rightarrow> bool" for nest :: bool where
  call_push: "may_call s self \<Longrightarrow>
    call_step nest s (s\<lparr>pushes := add_mset (self, Enter t) (pushes s), submitted := add_mset t (submitted s)\<rparr>)"
| call_wait: "waiter s = None \<Longrightarrow> may_call s self \<Longrightarrow> self \<noteq> None \<longrightarrow> nest \<Longrightarrow>
    call_step nest s (s\<lparr>waiting := p, waiter := Some (self, Wait_queues 0)\<rparr>)"
| call_wait_again: "may_call s self \<Longrightarrow> self \<noteq> None \<longrightarrow> nest \<Longrightarrow>
    call_step nest s (s\<lparr>parked := add_mset self (parked s)\<rparr>)"
| call_await: "nest \<Longrightarrow> may_call s (Some c) \<Longrightarrow> call_step nest s (s\<lparr>awaits := add_mset (c, u) (awaits s)\<rparr>)"
| call_stop: "stopping s = None \<Longrightarrow> call_step nest s (s\<lparr>stopped := True, stopping := Some 0\<rparr>)"

text \<open>
  The steps of a worker: \<open>run\<close>, \<open>run_task\<close>, \<open>get_task\<close>, \<open>try_pop\<close> and, for a task that waits for a
  future, \<open>try_run_one\<close>, which runs another task meanwhile, and the end of that wait. A task ends
  when it is in no call. A \<open>try_to_lock\<close> may fail at any time.
\<close>

inductive worker_step :: "bool \<Rightarrow> 'a executor \<Rightarrow> 'a executor \<Rightarrow> bool" for nest :: bool where
  loop_go: "i < nthreads s \<Longrightarrow> pcs s ! i = Loop \<Longrightarrow> \<not> stopped s \<Longrightarrow> worker_step nest s (set_pc i (Spin 0) s)"
| loop_end: "i < nthreads s \<Longrightarrow> pcs s ! i = Loop \<Longrightarrow> stopped s \<Longrightarrow> worker_step nest s (set_pc i Exited s)"
| spin_end: "i < nthreads s \<Longrightarrow> pcs s ! i = Spin n \<Longrightarrow> n = nthreads s * 4 \<Longrightarrow> worker_step nest s (set_pc i Block s)"
| spin_miss: "i < nthreads s \<Longrightarrow> pcs s ! i = Spin n \<Longrightarrow> n \<noteq> nthreads s * 4 \<Longrightarrow>
    try_pop locked (queues s ! ((i + n) mod nthreads s)) = (None, x) \<Longrightarrow> worker_step nest s (set_pc i (Spin (Suc n)) s)"
| spin_hit: "i < nthreads s \<Longrightarrow> pcs s ! i = Spin n \<Longrightarrow> n \<noteq> nthreads s * 4 \<Longrightarrow>
    try_pop True (queues s ! ((i + n) mod nthreads s)) = (Some t, x) \<Longrightarrow>
    worker_step nest s (set_pc i (Fetched (Some t)) (set_busy i True (set_q ((i + n) mod nthreads s) x s)))"
| pop_task: "i < nthreads s \<Longrightarrow> pcs s ! i = Block \<Longrightarrow> pop_queue (queues s ! i) = Some (Some t, x) \<Longrightarrow>
    worker_step nest s (set_pc i (Fetched (Some t)) (set_busy i True (set_q i x s)))"
| pop_nothing: "i < nthreads s \<Longrightarrow> pcs s ! i = Block \<Longrightarrow> pop_queue (queues s ! i) = Some (None, x) \<Longrightarrow>
    worker_step nest s (set_pc i (Fetched None) s)"
| check_stopped: "i < nthreads s \<Longrightarrow> pcs s ! i = Fetched r \<Longrightarrow> stopped s \<Longrightarrow>
    worker_step nest s (set_pc i Exited (s\<lparr>dropped := dropped s + mset (case r of None \<Rightarrow> [] | Some t \<Rightarrow> [t])\<rparr>))"
| check_run: "i < nthreads s \<Longrightarrow> pcs s ! i = Fetched (Some t) \<Longrightarrow> \<not> stopped s \<Longrightarrow> worker_step nest s (set_pc i (Run [t]) s)"
| check_empty: "i < nthreads s \<Longrightarrow> pcs s ! i = Fetched None \<Longrightarrow> \<not> stopped s \<Longrightarrow> worker_step nest s (set_pc i Terminated s)"
| finish: "i < nthreads s \<Longrightarrow> pcs s ! i = Run (t # ts) \<Longrightarrow> \<not> in_call s i (t # ts) \<Longrightarrow>
    worker_step nest s (set_pc i (if ts = [] then Loop else Run ts) (set_busy i False (s\<lparr>finished := add_mset t (finished s)\<rparr>)))"
| run_one: "nest \<Longrightarrow> i < nthreads s \<Longrightarrow> pcs s ! i = Run (t # ts) \<Longrightarrow> ((i, length (t # ts)), u) \<in># awaits s \<Longrightarrow>
    n < nthreads s * 4 \<Longrightarrow> try_pop True (queues s ! ((i + n) mod nthreads s)) = (Some t', x) \<Longrightarrow>
    worker_step nest s (set_pc i (Run (t' # t # ts)) (set_busy i True (set_q ((i + n) mod nthreads s) x s)))"
| await_end: "awaits s = add_mset (c, u) A \<Longrightarrow> caller_ready s (Some c) \<Longrightarrow> future_set s u \<or> stopped s \<Longrightarrow>
    worker_step nest s (s\<lparr>awaits := A\<rparr>)"

text \<open>The steps of the calls of \<open>push\<close>.\<close>

inductive push_step :: "'a executor \<Rightarrow> 'a executor \<Rightarrow> bool" where
  push_reject: "pushes s = add_mset (self, Enter t) P \<Longrightarrow> waiting s = RejectIncoming \<Longrightarrow>
    push_step s (s\<lparr>pushes := P, rejected := add_mset t (rejected s)\<rparr>)"
| push_check: "pushes s = add_mset (self, Enter t) P \<Longrightarrow> waiting s \<noteq> RejectIncoming \<Longrightarrow>
    push_step s (s\<lparr>pushes := add_mset (self, Checked t) P\<rparr>)"
| push_block: "pushes s = add_mset (self, Checked t) P \<Longrightarrow> waiting s = BlockIncoming \<Longrightarrow>
    push_step s (s\<lparr>pushes := add_mset (self, Blocked t) P\<rparr>)"
| push_enter: "pushes s = add_mset (self, Checked t) P \<Longrightarrow> waiting s \<noteq> BlockIncoming \<Longrightarrow>
    push_step s (s\<lparr>pushes := add_mset (self, Trying t (index s) 0) P, index := index s + 1\<rparr>)"
| push_unblock: "pushes s = add_mset (self, Blocked t) P \<Longrightarrow> waiting s = Running \<Longrightarrow> waiter s = None \<Longrightarrow>
    push_step s (s\<lparr>pushes := add_mset (self, Trying t (index s) 0) P, index := index s + 1\<rparr>)"
| push_try: "pushes s = add_mset (self, Trying t i n) P \<Longrightarrow> n < nthreads s \<Longrightarrow>
    try_push locked t (queues s ! queue_at s i n) = (True, x) \<Longrightarrow>
    push_step s (set_q (queue_at s i n) x (s\<lparr>pushes := P\<rparr>))"
| push_next: "pushes s = add_mset (self, Trying t i n) P \<Longrightarrow> n < nthreads s \<Longrightarrow>
    try_push locked t (queues s ! queue_at s i n) = (False, x) \<Longrightarrow>
    push_step s (s\<lparr>pushes := add_mset (self, Trying t i (Suc n)) P\<rparr>)"
| push_last: "pushes s = add_mset (self, Trying t i n) P \<Longrightarrow> n = nthreads s \<Longrightarrow> 0 < nthreads s \<Longrightarrow>
    push_step s (set_q (queue_at s i 0) (push_queue t (queues s ! queue_at s i 0))
      (s\<lparr>pushes := P, dropped := dropped s + (if queue_done (queues s ! queue_at s i 0) then {#t#} else {#})\<rparr>))"

text \<open>
  The steps of \<open>wait\<close>. A call by a task takes part in the work of the queues; where its
  inner loop stands in the threads is not kept. A call that waits for \<open>m_wait\<close> returns when it gets it.
\<close>

inductive wait_step :: "'a executor \<Rightarrow> 'a executor \<Rightarrow> bool" where
  wait_return: "parked s = add_mset self W \<Longrightarrow> waiter s = None \<Longrightarrow> wait_step s (s\<lparr>parked := W\<rparr>)"
| wait_queue: "waiter s = Some (self, Wait_queues k) \<Longrightarrow> caller_ready s self \<Longrightarrow> k < nthreads s \<Longrightarrow>
    queue_empty (queues s ! k) \<or> stopped s \<Longrightarrow> wait_step s (s\<lparr>waiter := Some (self, Wait_queues (Suc k))\<rparr>)"
| wait_help: "waiter s = Some (Some (i, d), Wait_queues k) \<Longrightarrow> caller_ready s (Some (i, d)) \<Longrightarrow> k < nthreads s \<Longrightarrow>
    j < nthreads s \<Longrightarrow> try_pop True (queues s ! j) = (Some t, x) \<Longrightarrow> pcs s ! i = Run ts \<Longrightarrow>
    wait_step s (set_pc i (Run (t # ts)) (set_busy i True (set_q j x s)))"
| wait_free: "waiter s = Some (self, Wait_queues k) \<Longrightarrow> caller_ready s self \<Longrightarrow> k = nthreads s \<Longrightarrow>
    wait_step s ((case self of None \<Rightarrow> s | Some (i, d) \<Rightarrow> set_busy i False s)\<lparr>waiter := Some (self, Wait_busy 0)\<rparr>)"
| wait_worker: "waiter s = Some (self, Wait_busy k) \<Longrightarrow> k < nthreads s \<Longrightarrow>
    \<not> busys s ! k \<or> stopped s \<Longrightarrow> wait_step s (s\<lparr>waiter := Some (self, Wait_busy (Suc k))\<rparr>)"
| wait_end: "waiter s = Some (self, Wait_busy k) \<Longrightarrow> k = nthreads s \<Longrightarrow>
    wait_step s (s\<lparr>waiting := Running, waiter := None\<rparr>)"

text \<open>The steps of \<open>stop\<close>.\<close>

inductive stop_step :: "'a executor \<Rightarrow> 'a executor \<Rightarrow> bool" where
  stop_queue: "stopping s = Some k \<Longrightarrow> k < nthreads s \<Longrightarrow>
    stop_step s ((set_q k (set_queue_done (queues s ! k)) s)\<lparr>stopping := Some (Suc k)\<rparr>)"
| stop_end: "stopping s = Some k \<Longrightarrow> k = nthreads s \<Longrightarrow> stop_step s (s\<lparr>stopping := None\<rparr>)"

text \<open>All steps: those that carry on what was begun, and the beginnings of calls.\<close>

inductive move_step :: "bool \<Rightarrow> 'a executor \<Rightarrow> 'a executor \<Rightarrow> bool" for nest :: bool where
  worker: "worker_step nest s s' \<Longrightarrow> move_step nest s s'"
| push: "push_step s s' \<Longrightarrow> move_step nest s s'"
| wait: "wait_step s s' \<Longrightarrow> move_step nest s s'"
| stop: "stop_step s s' \<Longrightarrow> move_step nest s s'"

inductive exec_step :: "bool \<Rightarrow> 'a executor \<Rightarrow> 'a executor \<Rightarrow> bool" for nest :: bool where
  call: "call_step nest s s' \<Longrightarrow> exec_step nest s s'"
| move: "move_step nest s s' \<Longrightarrow> exec_step nest s s'"

lemmas do_loop_go = worker_step.loop_go [THEN move_step.worker]
lemmas do_loop_end = worker_step.loop_end [THEN move_step.worker]
lemmas do_spin_end = worker_step.spin_end [THEN move_step.worker]
lemmas do_spin_miss = worker_step.spin_miss [THEN move_step.worker]
lemmas do_spin_hit = worker_step.spin_hit [THEN move_step.worker]
lemmas do_pop_task = worker_step.pop_task [THEN move_step.worker]
lemmas do_pop_nothing = worker_step.pop_nothing [THEN move_step.worker]
lemmas do_check_stopped = worker_step.check_stopped [THEN move_step.worker]
lemmas do_check_run = worker_step.check_run [THEN move_step.worker]
lemmas do_check_empty = worker_step.check_empty [THEN move_step.worker]
lemmas do_finish = worker_step.finish [THEN move_step.worker]
lemmas do_run_one = worker_step.run_one [THEN move_step.worker]
lemmas do_await_end = worker_step.await_end [THEN move_step.worker]
lemmas do_push_reject = push_step.push_reject [THEN move_step.push]
lemmas do_push_check = push_step.push_check [THEN move_step.push]
lemmas do_push_block = push_step.push_block [THEN move_step.push]
lemmas do_push_enter = push_step.push_enter [THEN move_step.push]
lemmas do_push_unblock = push_step.push_unblock [THEN move_step.push]
lemmas do_push_try = push_step.push_try [THEN move_step.push]
lemmas do_push_next = push_step.push_next [THEN move_step.push]
lemmas do_push_last = push_step.push_last [THEN move_step.push]
lemmas do_wait_return = wait_step.wait_return [THEN move_step.wait]
lemmas do_wait_queue = wait_step.wait_queue [THEN move_step.wait]
lemmas do_wait_help = wait_step.wait_help [THEN move_step.wait]
lemmas do_wait_free = wait_step.wait_free [THEN move_step.wait]
lemmas do_wait_worker = wait_step.wait_worker [THEN move_step.wait]
lemmas do_wait_end = wait_step.wait_end [THEN move_step.wait]
lemmas do_stop_queue = stop_step.stop_queue [THEN move_step.stop]
lemmas do_stop_end = stop_step.stop_end [THEN move_step.stop]
lemmas do_call_push = call_step.call_push [THEN exec_step.call]
lemmas do_call_wait = call_step.call_wait [THEN exec_step.call]
lemmas do_call_wait_again = call_step.call_wait_again [THEN exec_step.call]
lemmas do_call_await = call_step.call_await [THEN exec_step.call]
lemmas do_call_stop = call_step.call_stop [THEN exec_step.call]

lemma exec_step_cases:
  assumes "exec_step nest s s'"
  obtains (call) "call_step nest s s'" | (worker) "worker_step nest s s'" | (push) "push_step s s'" | (wait) "wait_step s s'"
    | (stop) "stop_step s s'"
  using assms by (auto elim!: exec_step.cases move_step.cases)

section \<open>What is where\<close>

lemma length_modify [simp]: "length (modify i f xs) = length xs"
  by (simp add: modify_def)

lemma map_modify: "map g (modify i f xs) = (if i < length xs then (map g xs)[i := g (f (xs ! i))] else map g xs)"
  by (cases "i < length xs") (simp_all add: modify_def map_update not_less list_update_beyond)

lemma executor_views [simp]:
  "nthreads (set_q i x s) = nthreads s" "nthreads (set_busy i b s) = nthreads s" "nthreads (set_pc i p s) = nthreads s"
  "queues (set_q i x s) = (queues s)[i := x]" "queues (set_busy i b s) = queues s" "queues (set_pc i p s) = queues s"
  "busys (set_q i x s) = busys s" "busys (set_busy i b s) = (busys s)[i := b]" "busys (set_pc i p s) = busys s"
  "pcs (set_q i x s) = pcs s" "pcs (set_busy i b s) = pcs s" "pcs (set_pc i p s) = (pcs s)[i := p]"
  "length (queues s) = nthreads s" "length (busys s) = nthreads s" "length (pcs s) = nthreads s"
  by (simp_all add: nthreads_def queues_def busys_def pcs_def set_q_def set_busy_def set_pc_def map_modify)
    (metis list_update_id list_update_beyond length_map map_update not_le nth_map)+

lemma executor_fields [simp]:
  "index (set_q i x s) = index s" "index (set_busy i b s) = index s" "index (set_pc i p s) = index s"
  "stopped (set_q i x s) = stopped s" "stopped (set_busy i b s) = stopped s" "stopped (set_pc i p s) = stopped s"
  "waiting (set_q i x s) = waiting s" "waiting (set_busy i b s) = waiting s" "waiting (set_pc i p s) = waiting s"
  "waiter (set_q i x s) = waiter s" "waiter (set_busy i b s) = waiter s" "waiter (set_pc i p s) = waiter s"
  "stopping (set_q i x s) = stopping s" "stopping (set_busy i b s) = stopping s" "stopping (set_pc i p s) = stopping s"
  "pushes (set_q i x s) = pushes s" "pushes (set_busy i b s) = pushes s" "pushes (set_pc i p s) = pushes s"
  "submitted (set_q i x s) = submitted s" "submitted (set_busy i b s) = submitted s" "submitted (set_pc i p s) = submitted s"
  "finished (set_q i x s) = finished s" "finished (set_busy i b s) = finished s" "finished (set_pc i p s) = finished s"
  "dropped (set_q i x s) = dropped s" "dropped (set_busy i b s) = dropped s" "dropped (set_pc i p s) = dropped s"
  "rejected (set_q i x s) = rejected s" "rejected (set_busy i b s) = rejected s" "rejected (set_pc i p s) = rejected s"
  "parked (set_q i x s) = parked s" "parked (set_busy i b s) = parked s" "parked (set_pc i p s) = parked s"
  "awaits (set_q i x s) = awaits s" "awaits (set_busy i b s) = awaits s" "awaits (set_pc i p s) = awaits s"
  by (simp_all add: set_q_def set_busy_def set_pc_def)

lemma executor_other [simp]:
  "nthreads (index_update f0 s) = nthreads s" "nthreads (stopped_update f1 s) = nthreads s" "nthreads (waiting_update f2 s) = nthreads s" "nthreads (waiter_update f3 s) = nthreads s" "nthreads (stopping_update f4 s) = nthreads s"
  "nthreads (pushes_update f5 s) = nthreads s" "nthreads (submitted_update f6 s) = nthreads s" "nthreads (finished_update f7 s) = nthreads s" "nthreads (dropped_update f8 s) = nthreads s" "nthreads (rejected_update f9 s) = nthreads s" "nthreads (parked_update g0 s) = nthreads s" "nthreads (awaits_update g1 s) = nthreads s"
  "queues (index_update f0 s) = queues s" "queues (stopped_update f1 s) = queues s" "queues (waiting_update f2 s) = queues s" "queues (waiter_update f3 s) = queues s" "queues (stopping_update f4 s) = queues s"
  "queues (pushes_update f5 s) = queues s" "queues (submitted_update f6 s) = queues s" "queues (finished_update f7 s) = queues s" "queues (dropped_update f8 s) = queues s" "queues (rejected_update f9 s) = queues s" "queues (parked_update g0 s) = queues s" "queues (awaits_update g1 s) = queues s"
  "busys (index_update f0 s) = busys s" "busys (stopped_update f1 s) = busys s" "busys (waiting_update f2 s) = busys s" "busys (waiter_update f3 s) = busys s" "busys (stopping_update f4 s) = busys s"
  "busys (pushes_update f5 s) = busys s" "busys (submitted_update f6 s) = busys s" "busys (finished_update f7 s) = busys s" "busys (dropped_update f8 s) = busys s" "busys (rejected_update f9 s) = busys s" "busys (parked_update g0 s) = busys s" "busys (awaits_update g1 s) = busys s"
  "pcs (index_update f0 s) = pcs s" "pcs (stopped_update f1 s) = pcs s" "pcs (waiting_update f2 s) = pcs s" "pcs (waiter_update f3 s) = pcs s" "pcs (stopping_update f4 s) = pcs s"
  "pcs (pushes_update f5 s) = pcs s" "pcs (submitted_update f6 s) = pcs s" "pcs (finished_update f7 s) = pcs s" "pcs (dropped_update f8 s) = pcs s" "pcs (rejected_update f9 s) = pcs s" "pcs (parked_update g0 s) = pcs s" "pcs (awaits_update g1 s) = pcs s"
  by (simp_all add: nthreads_def queues_def busys_def pcs_def)

fun held_pc :: "'a worker_pc \<Rightarrow> 'a multiset" where
  "held_pc (Fetched (Some t)) = {#t#}"
| "held_pc (Run ts) = mset ts"
| "held_pc p = {#}"

fun pushed_task :: "'a pushing \<Rightarrow> 'a" where
  "pushed_task (Enter t) = t"
| "pushed_task (Checked t) = t"
| "pushed_task (Blocked t) = t"
| "pushed_task (Trying t i n) = t"

definition queued :: "'a executor \<Rightarrow> 'a multiset" where
  "queued s = sum_list (map (\<lambda>x. mset (tasks x)) (queues s))"

definition held :: "'a executor \<Rightarrow> 'a multiset" where
  "held s = sum_list (map held_pc (pcs s))"

definition pending :: "'a executor \<Rightarrow> 'a multiset" where
  "pending s = image_mset (\<lambda>x. pushed_task (snd x)) (pushes s)"

lemma sum_list_update_mset:
  fixes f :: "'b \<Rightarrow> 'a multiset"
  shows "i < length xs \<Longrightarrow> sum_list (map f (xs[i := x])) + f (xs ! i) = sum_list (map f xs) + f x"
proof (induction xs arbitrary: i)
  case (Cons y xs)
  then show ?case
    by (cases i) (auto simp: ac_simps)
qed simp

lemma held_set_pc: "i < nthreads s \<Longrightarrow> held (set_pc i p s) + held_pc (pcs s ! i) = held s + held_pc p"
  using sum_list_update_mset [of i "pcs s" held_pc p] by (simp add: held_def)

lemma queued_pop:
  "i < nthreads s \<Longrightarrow> tasks (queues s ! i) = t # tasks x \<Longrightarrow> queued s = add_mset t (queued (set_q i x s))"
  using sum_list_update_mset [of i "queues s" "\<lambda>x. mset (tasks x)" x] by (simp add: queued_def)

lemma queued_set:
  "i < nthreads s \<Longrightarrow> mset (tasks x) = mset (tasks (queues s ! i)) + m \<Longrightarrow> queued (set_q i x s) = queued s + m"
  using sum_list_update_mset [of i "queues s" "\<lambda>x. mset (tasks x)" x] by (simp add: queued_def ac_simps)

lemma views_cong:
  "queues s = queues s' \<Longrightarrow> queued s = queued s'" "pcs s = pcs s' \<Longrightarrow> held s = held s'"
  "pushes s = pushes s' \<Longrightarrow> pending s = pending s'"
  by (simp_all add: queued_def held_def pending_def)

definition conserved :: "'a executor \<Rightarrow> bool" where
  "conserved s \<longleftrightarrow> submitted s = pending s + queued s + held s + finished s + dropped s + rejected s"

definition stop_ok :: "'a executor \<Rightarrow> bool" where
  "stop_ok s \<longleftrightarrow>
     (dropped s \<noteq> {#} \<longrightarrow> stopped s) \<and> (stopping s \<noteq> None \<longrightarrow> stopped s)
     \<and> (\<forall>i<nthreads s. queue_done (queues s ! i) \<longrightarrow> stopped s)
     \<and> (\<forall>i<nthreads s. pcs s ! i = Fetched None \<longrightarrow> stopped s)
     \<and> (\<forall>i<nthreads s. pcs s ! i \<noteq> Terminated)"

lemma queue_at_less: "0 < nthreads s \<Longrightarrow> queue_at s i n < nthreads s"
  by (simp add: queue_at_def)

lemma contents_other [simp]:
  "queued (index_update f0 s) = queued s" "queued (stopped_update f1 s) = queued s" "queued (waiting_update f2 s) = queued s" "queued (waiter_update f3 s) = queued s" "queued (stopping_update f4 s) = queued s"
  "queued (pushes_update f5 s) = queued s" "queued (submitted_update f6 s) = queued s" "queued (finished_update f7 s) = queued s" "queued (dropped_update f8 s) = queued s" "queued (rejected_update f9 s) = queued s" "queued (parked_update g0 s) = queued s" "queued (awaits_update g1 s) = queued s"
  "held (index_update f0 s) = held s" "held (stopped_update f1 s) = held s" "held (waiting_update f2 s) = held s" "held (waiter_update f3 s) = held s" "held (stopping_update f4 s) = held s"
  "held (pushes_update f5 s) = held s" "held (submitted_update f6 s) = held s" "held (finished_update f7 s) = held s" "held (dropped_update f8 s) = held s" "held (rejected_update f9 s) = held s" "held (parked_update g0 s) = held s" "held (awaits_update g1 s) = held s"
  "pending (index_update f0 s) = pending s" "pending (stopped_update f1 s) = pending s" "pending (waiting_update f2 s) = pending s" "pending (waiter_update f3 s) = pending s" "pending (stopping_update f4 s) = pending s"
  "pending (submitted_update f6 s) = pending s" "pending (finished_update f7 s) = pending s" "pending (dropped_update f8 s) = pending s" "pending (rejected_update f9 s) = pending s" "pending (parked_update g0 s) = pending s" "pending (awaits_update g1 s) = pending s"
  "queued (set_pc i p s) = queued s" "queued (set_busy i b s) = queued s"
  "held (set_q i x s) = held s" "held (set_busy i b s) = held s"
  "pending (set_q i x s) = pending s" "pending (set_pc i p s) = pending s" "pending (set_busy i b s) = pending s"
  by (simp_all add: queued_def held_def pending_def)


lemma held_same: "i < nthreads s \<Longrightarrow> held_pc p = held_pc (pcs s ! i) \<Longrightarrow> held (set_pc i p s) = held s"
  using held_set_pc [of i s p] by simp

lemma mod_nthreads: "i < nthreads s \<Longrightarrow> k mod nthreads s < nthreads s"
  by simp

lemma pending_remove:
  "pushes s = add_mset p P \<Longrightarrow> pending s = add_mset (pushed_task (snd p)) (pending (s\<lparr>pushes := P\<rparr>))"
  by (simp add: pending_def)

lemma pending_set: "pending (s\<lparr>pushes := add_mset p P\<rparr>) = add_mset (pushed_task (snd p)) (pending (s\<lparr>pushes := P\<rparr>))"
  by (simp add: pending_def)

lemmas conserved_simps = conserved_def pending_remove pending_set held_same ac_simps

lemma conserved_call: "call_step nest s s' \<Longrightarrow> conserved s \<Longrightarrow> conserved s'"
  by (induction rule: call_step.induct) (auto simp: conserved_def pending_def)

lemma conserved_worker: "worker_step nest s s' \<Longrightarrow> conserved s \<Longrightarrow> conserved s'"
proof (induction rule: worker_step.induct)
  case (spin_hit i s n t x)
  let ?j = "(i + n) mod nthreads s"
  have "queued s = add_mset t (queued (set_q ?j x s))"
    using spin_hit by (intro queued_pop) (auto simp: try_pop_Some)
  moreover have "held (set_pc i (Fetched (Some t)) (set_busy i True (set_q ?j x s))) = add_mset t (held s)"
    using held_set_pc [of i "set_busy i True (set_q ?j x s)" "Fetched (Some t)"] spin_hit by simp
  ultimately show ?case
    using spin_hit by (simp add: conserved_def)
next
  case (pop_task i s t x)
  have "queued s = add_mset t (queued (set_q i x s))"
    using pop_task by (intro queued_pop) (auto simp: pop_queue_Some)
  moreover have "held (set_pc i (Fetched (Some t)) (set_busy i True (set_q i x s))) = add_mset t (held s)"
    using held_set_pc [of i "set_busy i True (set_q i x s)" "Fetched (Some t)"] pop_task by simp
  ultimately show ?case
    using pop_task by (simp add: conserved_def)
next
  case (run_one i s t ts u n t' x)
  let ?j = "(i + n) mod nthreads s"
  have "queued s = add_mset t' (queued (set_q ?j x s))"
    using run_one by (intro queued_pop) (auto simp: try_pop_Some)
  moreover have "held (set_pc i (Run (t' # t # ts)) (set_busy i True (set_q ?j x s))) = add_mset t' (held s)"
    using held_set_pc [of i "set_busy i True (set_q ?j x s)" "Run (t' # t # ts)"] run_one by simp
  ultimately show ?case
    using run_one by (simp add: conserved_def)
next
  case (check_stopped i s r)
  then show ?case
    using held_set_pc [of i "s\<lparr>dropped := dropped s + mset (case r of None \<Rightarrow> [] | Some t \<Rightarrow> [t])\<rparr>" Exited]
    by (cases r) (simp_all add: conserved_def)
next
  case (finish i s t ts)
  let ?s = "set_busy i False (s\<lparr>finished := add_mset t (finished s)\<rparr>)"
  let ?p = "if ts = [] then Loop else Run ts"
  have "held_pc ?p = mset ts"
    by simp
  with finish have "add_mset t (held (set_pc i ?p ?s)) = held s"
    using held_set_pc [of i ?s ?p] by simp
  with finish show ?case
    by (simp add: conserved_def)
qed (auto simp: conserved_simps split: option.splits)

lemma conserved_push: "push_step s s' \<Longrightarrow> conserved s \<Longrightarrow> conserved s'"
proof (induction rule: push_step.induct)
  case (push_try s self t i n P locked x)
  have "queued (set_q (queue_at s i n) x (s\<lparr>pushes := P\<rparr>)) = queued s + {#t#}"
    using push_try queued_set [of "queue_at s i n" "s\<lparr>pushes := P\<rparr>" x "{#t#}"]
    by (auto simp: queue_at_less dest: try_push_cases)
  with push_try pending_remove [OF push_try(1)] show ?case
    by (simp add: conserved_def)
next
  case (push_last s self t i n P)
  let ?d = "queue_done (queues s ! queue_at s i 0)"
  have "queued (set_q (queue_at s i 0) (push_queue t (queues s ! queue_at s i 0)) s) = queued s + (if ?d then {#} else {#t#})"
    using push_last by (intro queued_set) (auto simp: queue_at_less push_queue_def)
  moreover have "queued (set_q (queue_at s i 0) x (s\<lparr>pushes := P, dropped := D\<rparr>)) = queued (set_q (queue_at s i 0) x s)" for x D
    by (simp add: queued_def)
  ultimately show ?case
    using push_last(4) pending_remove [OF push_last(1)] by (simp add: conserved_def)
qed (auto simp: conserved_simps split: option.splits)

lemma conserved_wait: "wait_step s s' \<Longrightarrow> conserved s \<Longrightarrow> conserved s'"
proof (induction rule: wait_step.induct)
  case (wait_help s i d k j t x ts)
  have "i < nthreads s"
    using wait_help by (simp add: caller_ready_def)
  have "queued s = add_mset t (queued (set_q j x s))"
    using wait_help by (intro queued_pop) (auto simp: try_pop_Some)
  moreover have "held (set_pc i (Run (t # ts)) (set_busy i True (set_q j x s))) = add_mset t (held s)"
    using held_set_pc [of i "set_busy i True (set_q j x s)" "Run (t # ts)"] wait_help \<open>i < nthreads s\<close> by simp
  ultimately show ?case
    using wait_help by (simp add: conserved_def)
qed (auto simp: conserved_simps split: option.splits)

lemma conserved_stop: "stop_step s s' \<Longrightarrow> conserved s \<Longrightarrow> conserved s'"
proof (induction rule: stop_step.induct)
  case (stop_queue s k)
  have "queued (set_q k (set_queue_done (queues s ! k)) s) = queued s + {#}"
    using stop_queue by (intro queued_set) (auto simp: set_queue_done_def)
  with stop_queue show ?case
    by (simp add: conserved_def)
qed (auto simp: conserved_simps split: option.splits)

lemma conserved_step: "exec_step nest s s' \<Longrightarrow> conserved s \<Longrightarrow> conserved s'"
  by (erule exec_step_cases) (auto dest: conserved_call conserved_worker conserved_push conserved_wait conserved_stop)

lemmas stop_ok_simps = stop_ok_def nth_list_update try_pop_Some pop_queue_Some pop_queue_None set_queue_done_def
  caller_ready_def

lemma stop_ok_call: "call_step nest s s' \<Longrightarrow> stop_ok s \<Longrightarrow> stop_ok s'"
  by (induction rule: call_step.induct) (auto simp: stop_ok_simps)

lemma stop_ok_worker: "worker_step nest s s' \<Longrightarrow> stop_ok s \<Longrightarrow> stop_ok s'"
  by (induction rule: worker_step.induct) (auto simp: stop_ok_simps split: option.splits if_splits)

lemma stop_ok_push: "push_step s s' \<Longrightarrow> stop_ok s \<Longrightarrow> stop_ok s'"
proof (induction rule: push_step.induct)
  case (push_try s self t i n P locked x)
  then have "queue_done x \<longleftrightarrow> queue_done (queues s ! queue_at s i n)"
    by (auto dest: try_push_cases)
  moreover have "queue_at s i n < nthreads s"
    using push_try by (simp add: queue_at_less)
  ultimately show ?case
    using push_try by (auto simp: stop_ok_def nth_list_update)
next
  case (push_last s self t i n P)
  have "queue_at s i 0 < nthreads s"
    using push_last by (simp add: queue_at_less)
  with push_last show ?case
    by (auto simp: stop_ok_def nth_list_update push_queue_def)
qed (auto simp: stop_ok_simps split: option.splits if_splits)

lemma stop_ok_wait: "wait_step s s' \<Longrightarrow> stop_ok s \<Longrightarrow> stop_ok s'"
  by (induction rule: wait_step.induct) (auto simp: stop_ok_simps split: option.splits if_splits)

lemma stop_ok_stop: "stop_step s s' \<Longrightarrow> stop_ok s \<Longrightarrow> stop_ok s'"
  by (induction rule: stop_step.induct) (auto simp: stop_ok_simps split: option.splits if_splits)

lemma stop_ok_step: "exec_step nest s s' \<Longrightarrow> stop_ok s \<Longrightarrow> stop_ok s'"
  by (erule exec_step_cases) (auto dest: stop_ok_call stop_ok_worker stop_ok_push stop_ok_wait stop_ok_stop)

inductive reachable :: "bool \<Rightarrow> nat \<Rightarrow> 'a executor \<Rightarrow> bool" for nest :: bool and n :: nat where
  start: "reachable nest n (new_executor n)"
| step: "reachable nest n s \<Longrightarrow> exec_step nest s s' \<Longrightarrow> reachable nest n s'"

lemma new_executor_views [simp]:
  "nthreads (new_executor n) = n" "queues (new_executor n) = replicate n \<lparr>tasks = [], queue_done = False\<rparr>"
  "busys (new_executor n) = replicate n False" "pcs (new_executor n) = replicate n Loop"
  by (simp_all add: nthreads_def queues_def busys_def pcs_def new_executor_def)

lemma conserved_new: "conserved (new_executor n)"
proof -
  have "queued (new_executor n :: 'a executor) = {#}" "held (new_executor n :: 'a executor) = {#}"
    by (induction n) (simp_all add: queued_def held_def)
  then show ?thesis
    by (simp add: conserved_def pending_def) (simp add: new_executor_def)
qed

lemma stop_ok_new: "stop_ok (new_executor n)"
  by (simp add: stop_ok_def) (simp add: new_executor_def)

lemma reachable_conserved: "reachable nest n s \<Longrightarrow> conserved s"
  by (induction rule: reachable.induct) (auto intro: conserved_new conserved_step)

lemma reachable_stop_ok: "reachable nest n s \<Longrightarrow> stop_ok s"
  by (induction rule: reachable.induct) (auto intro: stop_ok_new stop_ok_step)

lemma nthreads_step: "exec_step nest s s' \<Longrightarrow> nthreads s' = nthreads s"
  by (auto elim!: exec_step_cases call_step.cases worker_step.cases push_step.cases wait_step.cases stop_step.cases split: option.splits)

lemma reachable_nthreads: "reachable nest n s \<Longrightarrow> nthreads s = n"
  by (induction rule: reachable.induct) (auto dest: nthreads_step)

text \<open>
  C7: Nothing that was pushed is lost or run twice: at every moment the tasks handed in are
  the ones whose \<open>push\<close> is not finished, in a queue, in the hands of a worker, finished,
  refused with an exception, and dropped; a task is dropped only after \<open>stop\<close>, and no worker
  calls the empty function that \<open>get_task\<close> returns for a finished queue.
\<close>

theorem tasks_conserved:
  assumes "reachable nest n s"
  shows "submitted s = pending s + queued s + held s + finished s + dropped s + rejected s
    \<and> (\<not> stopped s \<longrightarrow> dropped s = {#}) \<and> (\<forall>i<n. pcs s ! i \<noteq> Terminated)"
  using reachable_conserved [OF assms] reachable_stop_ok [OF assms] reachable_nthreads [OF assms]
  by (auto simp: conserved_def stop_ok_def)

lemma tasks_conserved_witness:
  "\<exists>s :: nat executor. reachable False 4 s \<and> submitted s = {#7#}
     \<and> pending s + queued s + held s + finished s + dropped s + rejected s = {#7#}"
proof -
  let ?s0 = "new_executor 4 :: nat executor"
  let ?s1 = "?s0\<lparr>pushes := add_mset (None, Enter 7) (pushes ?s0), submitted := add_mset 7 (submitted ?s0)\<rparr>"
  have "reachable False 4 ?s1"
    by (rule reachable.step [OF reachable.start do_call_push]) (simp add: may_call_def)
  moreover have "submitted ?s1 = {#7#}"
    by (simp add: new_executor_def)
  ultimately show ?thesis
    using tasks_conserved [of False 4 ?s1] by metis
qed

section \<open>Waiting\<close>

fun is_trying :: "'a pushing \<Rightarrow> bool" where
  "is_trying (Trying t i n) = True"
| "is_trying p = False"

text \<open>A worker is marked busy exactly while it has a task, if tasks do not wait themselves.\<close>

definition busy_ok :: "'a executor \<Rightarrow> bool" where
  "busy_ok s \<longleftrightarrow> stopped s \<or>
     (\<forall>i<nthreads s. (busys s ! i \<longleftrightarrow> held_pc (pcs s ! i) \<noteq> {#}) \<and> (\<forall>ts. pcs s ! i = Run ts \<longrightarrow> length ts = 1))
     \<and> (\<forall>self p. waiter s = Some (self, p) \<longrightarrow> self = None)"

lemma busy_ok_call: "call_step False s s' \<Longrightarrow> busy_ok s \<Longrightarrow> busy_ok s'"
proof (induction rule: call_step.induct)
  case (call_wait s self p)
  then show ?case by (cases self) (auto simp: busy_ok_def)
qed (auto simp: busy_ok_def)

lemma busy_ok_worker: "worker_step False s s' \<Longrightarrow> busy_ok s \<Longrightarrow> busy_ok s'"
  by (induction rule: worker_step.induct) (auto simp: busy_ok_def nth_list_update)

lemma busy_ok_push: "push_step s s' \<Longrightarrow> busy_ok s \<Longrightarrow> busy_ok s'"
  by (induction rule: push_step.induct) (auto simp: busy_ok_def)

lemma busy_ok_wait: "wait_step s s' \<Longrightarrow> busy_ok s \<Longrightarrow> busy_ok s'"
  by (induction rule: wait_step.induct) (auto simp: busy_ok_def split: option.splits)

lemma busy_ok_stop: "stop_step s s' \<Longrightarrow> busy_ok s \<Longrightarrow> busy_ok s'"
  by (induction rule: stop_step.induct) (auto simp: busy_ok_def)

lemma busy_ok_step: "exec_step False s s' \<Longrightarrow> busy_ok s \<Longrightarrow> busy_ok s'"
  by (erule exec_step_cases) (auto dest: busy_ok_call busy_ok_worker busy_ok_push busy_ok_wait busy_ok_stop)

lemma reachable_busy_ok: "reachable False n s \<Longrightarrow> busy_ok s"
proof (induction rule: reachable.induct)
  case start
  have "waiter (new_executor n :: 'a executor) = None"
    by (simp add: new_executor_def)
  then show ?case
    by (simp add: busy_ok_def)
qed (rule busy_ok_step)

text \<open>What a \<open>wait\<close> from outside that blocks new tasks has established where it stands.\<close>

definition wait_ok :: "'a executor \<Rightarrow> bool" where
  "wait_ok s \<longleftrightarrow> stopped s \<or>
     waiting s = BlockIncoming \<and> (\<forall>p\<in>#pushes s. \<not> is_trying (snd p)) \<and>
     ((\<exists>k. waiter s = Some (None, Wait_queues k) \<and> (\<forall>i<nthreads s. i < k \<longrightarrow> tasks (queues s ! i) = []))
      \<or> (\<exists>k. waiter s = Some (None, Wait_busy k) \<and> (\<forall>i<nthreads s. tasks (queues s ! i) = [])
          \<and> (\<forall>i<nthreads s. i < k \<longrightarrow> held_pc (pcs s ! i) = {#})))"

lemma wait_ok_call: "call_step False s s' \<Longrightarrow> wait_ok s \<Longrightarrow> wait_ok s'"
  by (induction rule: call_step.induct) (auto simp: wait_ok_def)

lemma wait_ok_worker: "worker_step False s s' \<Longrightarrow> busy_ok s \<Longrightarrow> wait_ok s \<Longrightarrow> wait_ok s'"
proof (induction rule: worker_step.induct)
  case (check_run i s t)
  then show ?case
    by (auto simp: wait_ok_def nth_list_update) fastforce
qed (auto simp: wait_ok_def busy_ok_def nth_list_update try_pop_Some pop_queue_Some)

lemma wait_ok_push: "push_step s s' \<Longrightarrow> wait_ok s \<Longrightarrow> wait_ok s'"
  by (induction rule: push_step.induct) (auto simp: wait_ok_def)

lemma wait_ok_wait: "wait_step s s' \<Longrightarrow> waiter s' \<noteq> None \<Longrightarrow> busy_ok s \<Longrightarrow> wait_ok s \<Longrightarrow> wait_ok s'"
proof (induction rule: wait_step.induct)
  case (wait_queue s self k)
  then show ?case
    by (auto simp: wait_ok_def queue_empty_def less_Suc_eq)
next
  case (wait_free s self k)
  then show ?case
    by (auto simp: wait_ok_def split: option.splits)
qed (auto simp: wait_ok_def less_Suc_eq busy_ok_def)

lemma wait_ok_stop: "stop_step s s' \<Longrightarrow> wait_ok s \<Longrightarrow> wait_ok s'"
  by (induction rule: stop_step.induct) (auto simp: wait_ok_def nth_list_update set_queue_done_def)

lemma wait_ok_step:
  "exec_step False s s' \<Longrightarrow> waiter s' \<noteq> None \<Longrightarrow> busy_ok s \<Longrightarrow> wait_ok s \<Longrightarrow> wait_ok s'"
  by (erule exec_step_cases) (auto dest: wait_ok_call wait_ok_worker wait_ok_push wait_ok_wait wait_ok_stop)

lemma wait_path:
  "(\<lambda>s s'. exec_step False s s' \<and> waiter s' \<noteq> None)\<^sup>*\<^sup>* s1 s2 \<Longrightarrow> reachable False n s1 \<Longrightarrow> wait_ok s1 \<Longrightarrow>
     reachable False n s2 \<and> wait_ok s2"
  by (induction rule: rtranclp_induct) (auto intro: reachable.step wait_ok_step dest: reachable_busy_ok)

lemma sum_list_mset_empty: "sum_list (map f xs) = {#} \<longleftrightarrow> (\<forall>i<length xs. f (xs ! i) = {#})"
  by (induction xs) (auto simp: less_Suc_eq_0_disj)

text \<open>
  C21: \<open>wait\<close> from outside the executor does what its name says, if no task waits itself
  and no \<open>push\<close> is under way when it starts: when it has looked through the queues and the
  busy flags, one after the other while everything else goes on, no task is in a queue or
  in the hands of a worker any more, and all tasks handed in are finished, except the ones
  whose \<open>push\<close> is blocked by the wait.
\<close>

theorem wait_finishes:
  assumes "reachable False n s1" and "waiter s1 = Some (None, Wait_queues 0)" and "waiting s1 = BlockIncoming"
    and "\<forall>p\<in>#pushes s1. \<not> is_trying (snd p)"
    and "(\<lambda>s s'. exec_step False s s' \<and> waiter s' \<noteq> None)\<^sup>*\<^sup>* s1 s2"
    and "waiter s2 = Some (None, Wait_busy n)" and "\<not> stopped s2"
  shows "queued s2 = {#} \<and> held s2 = {#} \<and> submitted s2 = pending s2 + finished s2 + rejected s2"
proof -
  have "wait_ok s1"
    using assms(2-4) by (simp add: wait_ok_def)
  with wait_path [OF assms(5,1)] have s2: "reachable False n s2" "wait_ok s2"
    by auto
  then have "queued s2 = {#}" "held s2 = {#}"
    using assms(6,7) reachable_nthreads [OF s2(1)]
    by (auto simp: wait_ok_def queued_def held_def sum_list_mset_empty)
  moreover have "conserved s2" "stop_ok s2"
    using s2 by (auto intro: reachable_conserved reachable_stop_ok)
  ultimately show ?thesis
    using assms(7) by (auto simp: conserved_def stop_ok_def)
qed


section \<open>Coming to rest\<close>

text \<open>No step carries on what was begun.\<close>

definition at_rest :: "bool \<Rightarrow> 'a executor \<Rightarrow> bool" where
  "at_rest nest s \<longleftrightarrow> (\<forall>s'. \<not> move_step nest s s')"

text \<open>
  What holds of the calls: \<open>waiting_\<close> is reset when no \<open>wait\<close> holds \<open>m_wait\<close>; a worker that is past its loop was
  stopped, and one that is marked busy has a task; the caller of the \<open>wait\<close> is a task that is
  still there, in no other call, and in the second loop of the \<open>wait\<close> nothing runs above it and its
  worker is not marked busy.
\<close>

definition workers_ok :: "'a executor \<Rightarrow> bool" where
  "workers_ok s \<longleftrightarrow> (\<forall>i<nthreads s. pcs s ! i \<noteq> Run [] \<and> (pcs s ! i = Exited \<longrightarrow> stopped s)
     \<and> (busys s ! i \<longrightarrow> stopped s \<or> held_pc (pcs s ! i) \<noteq> {#}))"

fun loop_index :: "wait_pc \<Rightarrow> nat" where
  "loop_index (Wait_queues k) = k"
| "loop_index (Wait_busy k) = k"

lemma may_call_Some:
  "may_call s (Some (i, d)) \<longleftrightarrow>
     i < nthreads s \<and> (\<exists>ts. pcs s ! i = Run ts \<and> ts \<noteq> [] \<and> length ts = d \<and> \<not> in_call s i ts)"
  by (auto simp: may_call_def split: worker_pc.splits)

definition waiter_ok :: "'a executor \<Rightarrow> bool" where
  "waiter_ok s \<longleftrightarrow> (case waiter s of
     None \<Rightarrow> waiting s = Running
   | Some (self, p) \<Rightarrow>
       loop_index p \<le> nthreads s
       \<and> (\<forall>i d. self = Some (i, d) \<longrightarrow> i < nthreads s \<and> (\<forall>u. ((i, d), u) \<notin># awaits s)
           \<and> (\<exists>ts. pcs s ! i = Run ts \<and> 0 < d \<and> d \<le> length ts \<and> (\<forall>k. p = Wait_busy k \<longrightarrow> length ts = d \<and> \<not> busys s ! i))))"

definition calls_ok :: "bool \<Rightarrow> 'a executor \<Rightarrow> bool" where
  "calls_ok nest s \<longleftrightarrow> (\<forall>c t i n. (c, Trying t i n) \<in># pushes s \<longrightarrow> n \<le> nthreads s)
     \<and> (awaits s \<noteq> {#} \<longrightarrow> nest) \<and> (\<forall>c. Some c \<in># parked s \<longrightarrow> nest)
     \<and> (\<forall>c p. waiter s = Some (Some c, p) \<longrightarrow> nest)"

lemma workers_ok_step:
  "call_step nest s s' \<Longrightarrow> workers_ok s \<Longrightarrow> workers_ok s'" "worker_step nest s s' \<Longrightarrow> workers_ok s \<Longrightarrow> workers_ok s'"
  "push_step s s' \<Longrightarrow> workers_ok s \<Longrightarrow> workers_ok s'" "wait_step s s' \<Longrightarrow> workers_ok s \<Longrightarrow> workers_ok s'"
  "stop_step s s' \<Longrightarrow> workers_ok s \<Longrightarrow> workers_ok s'"
  by (erule call_step.cases worker_step.cases push_step.cases wait_step.cases stop_step.cases;
      auto simp: workers_ok_def nth_list_update caller_ready_def split: option.splits if_splits)+

lemma calls_ok_step:
  "call_step nest s s' \<Longrightarrow> calls_ok nest s \<Longrightarrow> calls_ok nest s'" "worker_step nest s s' \<Longrightarrow> calls_ok nest s \<Longrightarrow> calls_ok nest s'"
  "push_step s s' \<Longrightarrow> calls_ok nest s \<Longrightarrow> calls_ok nest s'" "wait_step s s' \<Longrightarrow> calls_ok nest s \<Longrightarrow> calls_ok nest s'"
  "stop_step s s' \<Longrightarrow> calls_ok nest s \<Longrightarrow> calls_ok nest s'"
  by (erule call_step.cases worker_step.cases push_step.cases wait_step.cases stop_step.cases;
      auto simp: calls_ok_def split: option.splits if_splits)+

lemma waiter_ok_call: "call_step nest s s' \<Longrightarrow> waiter_ok s \<Longrightarrow> waiter_ok s'"
proof (induction rule: call_step.induct)
  case (call_wait s self p)
  then show ?case
    by (auto simp: waiter_ok_def may_call_Some in_call_def)
next
  case (call_await s c u)
  then show ?case
    by (cases c) (auto simp: waiter_ok_def may_call_Some in_call_def split: option.splits)
qed (auto simp: waiter_ok_def split: option.splits)

lemma waiter_ok_worker: "worker_step nest s s' \<Longrightarrow> workers_ok s \<Longrightarrow> waiter_ok s \<Longrightarrow> waiter_ok s'"
proof (induction rule: worker_step.induct)
  case (finish i s t ts)
  show ?case
  proof (cases "\<exists>d p. waiter s = Some (Some (i, d), p)")
    case True
    then obtain d p where w: "waiter s = Some (Some (i, d), p)" by blast
    then have "d \<le> length ts" "0 < d"
      using finish by (auto simp: waiter_ok_def in_call_def le_Suc_eq)
    moreover from this have "ts \<noteq> []" by auto
    moreover have "\<forall>k. p \<noteq> Wait_busy k"
      using finish w by (auto simp: waiter_ok_def in_call_def)
    ultimately show ?thesis
      using finish w by (auto simp: waiter_ok_def nth_list_update)
  qed (use finish in \<open>auto simp: waiter_ok_def nth_list_update split: option.splits\<close>)
next
  case (run_one i s t ts u n t' x)
  then show ?case
    by (auto simp: waiter_ok_def nth_list_update split: option.splits)
qed (auto simp: waiter_ok_def nth_list_update split: option.splits)

lemma waiter_ok_push: "push_step s s' \<Longrightarrow> waiter_ok s \<Longrightarrow> waiter_ok s'"
  by (induction rule: push_step.induct) (auto simp: waiter_ok_def split: option.splits)

lemma waiter_ok_wait: "wait_step s s' \<Longrightarrow> waiter_ok s \<Longrightarrow> waiter_ok s'"
  by (induction rule: wait_step.induct)
    (auto simp: waiter_ok_def nth_list_update caller_ready_def split: option.splits)

lemma waiter_ok_stop: "stop_step s s' \<Longrightarrow> waiter_ok s \<Longrightarrow> waiter_ok s'"
  by (induction rule: stop_step.induct) (auto simp: waiter_ok_def split: option.splits)

lemma reachable_ok: "reachable nest n s \<Longrightarrow> workers_ok s \<and> waiter_ok s \<and> calls_ok nest s"
proof (induction rule: reachable.induct)
  case start
  have "pushes (new_executor n :: 'a executor) = {#}" "parked (new_executor n :: 'a executor) = {#}"
    "awaits (new_executor n :: 'a executor) = {#}" "waiter (new_executor n :: 'a executor) = None"
    "waiting (new_executor n :: 'a executor) = Running"
    by (simp_all add: new_executor_def)
  then show ?case
    by (simp add: workers_ok_def waiter_ok_def calls_ok_def)
next
  case (step s s')
  then show ?case
    by (elim conjE, erule_tac exec_step_cases)
      (auto intro: workers_ok_step calls_ok_step waiter_ok_call waiter_ok_worker waiter_ok_push waiter_ok_wait waiter_ok_stop)
qed

text \<open>Where a worker and a call can be at rest.\<close>

lemma worker_at_rest:
  assumes "at_rest nest s" "\<not> stopped s" "stop_ok s" "workers_ok s" "i < nthreads s"
  shows "pcs s ! i = Block \<and> tasks (queues s ! i) = [] \<or> (\<exists>ts. pcs s ! i = Run ts \<and> ts \<noteq> [] \<and> in_call s i ts)"
proof -
  have no: "\<not> move_step nest s s'" for s'
    using assms(1) by (simp add: at_rest_def)
  have n: "pcs s ! i \<noteq> Terminated" "pcs s ! i \<noteq> Exited" "pcs s ! i \<noteq> Run []" "pcs s ! i \<noteq> Fetched None"
    using assms(2-5) by (auto simp: stop_ok_def workers_ok_def)
  show ?thesis
  proof (cases "pcs s ! i")
    case Loop
    then show ?thesis using no do_loop_go [of i s nest] assms(2,5) by blast
  next
    case (Spin k)
    then show ?thesis
      using no do_spin_end [of i s k nest] do_spin_miss [of i s k False _ nest] assms(5)
      by (cases "k = nthreads s * 4") (auto simp: try_pop_def)
  next
    case Block
    then show ?thesis
      using no do_pop_task [of i s _ _ nest] do_pop_nothing [of i s _ nest] assms(5)
      by (cases "pop_queue (queues s ! i)") (fastforce simp: pop_queue_def split: if_splits)+
  next
    case (Fetched r)
    then show ?thesis using no do_check_run [of i s _ nest] assms(2,5) n(4) by (cases r) auto
  next
    case (Run ts)
    then show ?thesis using no do_finish [of i s _ _ nest] assms(5) n(3) by (cases ts) auto
  qed (use n in auto)
qed

lemma pushes_at_rest:
  assumes "at_rest nest s" "calls_ok nest s" "0 < nthreads s" "(self, x) \<in># pushes s"
  shows "(\<exists>t. x = Blocked t) \<and> (waiting s = Running \<longrightarrow> waiter s \<noteq> None)"
proof -
  have no: "\<not> move_step nest s s'" for s'
    using assms(1) by (simp add: at_rest_def)
  from assms(4) obtain P where P: "pushes s = add_mset (self, x) P"
    by (blast dest: multi_member_split)
  show ?thesis
  proof (cases x)
    case (Enter t)
    then show ?thesis
      using no do_push_reject [of s self t P nest] do_push_check [of s self t P nest] P by blast
  next
    case (Checked t)
    then show ?thesis
      using no do_push_block [of s self t P nest] do_push_enter [of s self t P nest] P by blast
  next
    case (Blocked t)
    then show ?thesis using no do_push_unblock [of s self t P nest] P by blast
  next
    case (Trying t i n)
    then have "n \<le> nthreads s" using assms(2,4) by (auto simp: calls_ok_def)
    moreover obtain b q where "try_push True t (queues s ! queue_at s i n) = (b, q)" by fastforce
    ultimately show ?thesis
      using no do_push_try [of s self t i n P True q nest] do_push_next [of s self t i n P True q nest]
        do_push_last [of s self t i n P nest] assms(3) P Trying by (cases "n = nthreads s"; cases b) auto
  qed
qed

text \<open>A queue that holds a task is found by \<open>try_run_one\<close>.\<close>

lemma queue_found:
  fixes i j n :: nat
  assumes "i < n" "j < n"
  shows "\<exists>k<n * 4. (i + k) mod n = j"
proof (cases "i \<le> j")
  case True
  then show ?thesis using assms by (intro exI [of _ "j - i"]) auto
next
  case False
  then show ?thesis using assms by (intro exI [of _ "n + j - i"]) auto
qed

lemma awaits_at_rest:
  assumes "at_rest nest s" "\<not> stopped s" "stop_ok s" "calls_ok nest s" "i < nthreads s" "pcs s ! i = Run (t # ts)"
    "((i, length (t # ts)), u) \<in># awaits s"
  shows "\<not> future_set s u \<and> queued s = {#}"
proof -
  have no: "\<not> move_step nest s s'" for s'
    using assms(1) by (simp add: at_rest_def)
  from assms(7) obtain A where "awaits s = add_mset ((i, length (t # ts)), u) A"
    by (blast dest: multi_member_split)
  then have "\<not> future_set s u"
    using no do_await_end [of s "(i, length (t # ts))" u A nest] assms(5,6) by (auto simp: caller_ready_def)
  moreover have "tasks (queues s ! j) = []" if j: "j < nthreads s" for j
  proof (rule ccontr)
    assume "tasks (queues s ! j) \<noteq> []"
    then obtain t' x where "try_pop True (queues s ! j) = (Some t', x)"
      using assms(2,3) j by (auto simp: try_pop_def stop_ok_def)
    moreover obtain k where "k < nthreads s * 4" "(i + k) mod nthreads s = j"
      using queue_found [OF assms(5) j] by blast
    moreover have nest using assms(4,7) by (auto simp: calls_ok_def)
    ultimately show False
      using no do_run_one [of nest i s t ts u k t' x] assms(5-7) by blast
  qed
  then have "queued s = {#}" by (simp add: queued_def sum_list_mset_empty)
  ultimately show ?thesis by simp
qed

lemma parked_at_rest:
  assumes "at_rest nest s" "self \<in># parked s"
  shows "waiter s \<noteq> None"
proof -
  from assms(2) obtain W where "parked s = add_mset self W"
    by (blast dest: multi_member_split)
  then show ?thesis
    using do_wait_return [of s self W nest] assms(1) unfolding at_rest_def by blast
qed

text \<open>The \<open>wait\<close> is at rest only where it waits for the flag of another worker, for its queue, or for tasks above its caller.\<close>

lemma waiter_at_rest:
  assumes "at_rest nest s" "\<not> stopped s" "stop_ok s" "waiter_ok s" "waiter s = Some (self, p)"
  shows "\<exists>k<nthreads s. p = Wait_busy k \<and> busys s ! k \<or> p = Wait_queues k \<and> self = None \<and> tasks (queues s ! k) \<noteq> []
    \<or> (\<exists>d ts. self = Some (k, d) \<and> pcs s ! k = Run ts \<and> d < length ts)"
proof -
  have no: "\<not> move_step nest s s'" for s'
    using assms(1) by (simp add: at_rest_def)
  have k: "loop_index p \<le> nthreads s"
    using assms(4,5) by (simp add: waiter_ok_def)
  show ?thesis
  proof (cases p)
    case (Wait_busy k)
    then have "k < nthreads s \<and> busys s ! k"
      using no do_wait_worker [of s self k nest] do_wait_end [of s self k nest] k assms(5)
      by (cases "k = nthreads s") auto
    with Wait_busy show ?thesis by blast
  next
    case (Wait_queues k)
    show ?thesis
    proof (cases "caller_ready s self")
      case True
      then have q: "k < nthreads s" "tasks (queues s ! k) \<noteq> []"
        using no do_wait_queue [of s self k nest] do_wait_free [of s self k nest] Wait_queues k assms(5)
        by (cases "k = nthreads s"; auto simp: queue_empty_def)+
      have "self = None"
      proof (rule ccontr)
        assume "self \<noteq> None"
        then obtain i d where self: "self = Some (i, d)" by auto
        obtain t x where "try_pop True (queues s ! k) = (Some t, x)"
          using assms(2,3) q by (auto simp: try_pop_def stop_ok_def)
        moreover obtain ts where "pcs s ! i = Run ts"
          using True self by (auto simp: caller_ready_def split: worker_pc.splits)
        ultimately show False
          using no do_wait_help [of s i d k k t x _ nest] True q(1) Wait_queues assms(5) self by blast
      qed
      with q Wait_queues show ?thesis by blast
    next
      case False
      then obtain i d where "self = Some (i, d)" by (auto simp: caller_ready_def split: option.splits)
      then show ?thesis
        using False assms(4,5) by (fastforce simp: waiter_ok_def caller_ready_def)
    qed
  qed
qed

text \<open>
  A task held up in its call: a \<open>push\<close> or a second \<open>wait\<close> while a \<open>wait\<close> is under way, or the wait for a
  future that is not set, with nothing in the queues to do meanwhile.
\<close>

definition held_up :: "'a executor \<Rightarrow> nat \<Rightarrow> 'a list \<Rightarrow> bool" where
  "held_up s i ts \<longleftrightarrow>
     waiter s \<noteq> None \<and> ((\<exists>t. (Some (i, length ts), Blocked t) \<in># pushes s) \<or> Some (i, length ts) \<in># parked s)
     \<or> (\<exists>u. ((i, length ts), u) \<in># awaits s \<and> \<not> future_set s u \<and> queued s = {#})"

lemma held_up_push:
  assumes "calls_ok False s" "held_up s i ts"
  shows "\<exists>t. (Some (i, length ts), Blocked t) \<in># pushes s"
  using assms by (auto simp: calls_ok_def held_up_def)

lemma run_at_rest:
  assumes r: "at_rest nest s" "\<not> stopped s" "reachable nest n s" "0 < n" and i: "i < n" "pcs s ! i = Run ts"
  shows "held_up s i ts \<or> (\<exists>k. waiter s = Some (Some (i, length ts), Wait_busy k) \<and> \<not> busys s ! i)"
proof -
  have ok: "stop_ok s" "workers_ok s" "waiter_ok s" "calls_ok nest s" "nthreads s = n"
    using r(3) reachable_ok reachable_stop_ok reachable_nthreads by blast+
  then have ts: "ts \<noteq> []" "in_call s i ts"
    using worker_at_rest [OF r(1,2), of i] i by auto
  from ts(2) consider x where "(Some (i, length ts), x) \<in># pushes s" | "Some (i, length ts) \<in># parked s"
    | u where "((i, length ts), u) \<in># awaits s" | p where "waiter s = Some (Some (i, length ts), p)"
    unfolding in_call_def by blast
  then show ?thesis
  proof cases
    case 1
    then have "\<exists>t. x = Blocked t" "waiting s = Running \<longrightarrow> waiter s \<noteq> None"
      using pushes_at_rest [OF r(1) ok(4)] r(4) ok(5) by blast+
    moreover have "waiter s = None \<longrightarrow> waiting s = Running"
      using ok(3) by (auto simp: waiter_ok_def)
    ultimately show ?thesis using 1 unfolding held_up_def by blast
  next
    case 2
    then show ?thesis using parked_at_rest [OF r(1)] unfolding held_up_def by blast
  next
    case 3
    obtain t ts' where "ts = t # ts'" using ts(1) by (cases ts) auto
    then have "\<not> future_set s u \<and> queued s = {#}"
      using awaits_at_rest [OF r(1,2) ok(1,4)] i ok(5) 3 by blast
    with 3 show ?thesis unfolding held_up_def by blast
  next
    case 4
    with waiter_at_rest [OF r(1,2) ok(1,3) 4] i have "\<exists>k. p = Wait_busy k" by auto
    with 4 ok(3) show ?thesis by (auto simp: waiter_ok_def)
  qed
qed

text \<open>A worker that holds up the \<open>wait\<close>.\<close>

lemma waiter_held_up:
  assumes r: "at_rest nest s" "\<not> stopped s" "reachable nest n s" "0 < n" and w: "waiter s = Some (self, p)"
  shows "\<exists>i<n. \<exists>ts. pcs s ! i = Run ts \<and> held_up s i ts"
proof -
  have ok: "stop_ok s" "workers_ok s" "waiter_ok s" "nthreads s = n"
    using r(3) reachable_ok reachable_stop_ok reachable_nthreads by blast+
  obtain k where k: "k < n" and
    cases: "p = Wait_busy k \<and> busys s ! k \<or> p = Wait_queues k \<and> self = None \<and> tasks (queues s ! k) \<noteq> []
      \<or> (\<exists>d ts. self = Some (k, d) \<and> pcs s ! k = Run ts \<and> d < length ts)"
    using waiter_at_rest [OF r(1,2) ok(1,3) w] ok(4) by blast
  have "pcs s ! k \<noteq> Block \<or> tasks (queues s ! k) \<noteq> []"
    using cases ok(2,4) k r(2) by (auto simp: workers_ok_def)
  then obtain ts where ts: "pcs s ! k = Run ts"
    using worker_at_rest [OF r(1,2) ok(1,2)] k ok(4) by blast
  have "held_up s k ts"
    using run_at_rest [OF r k ts] w cases ts by auto
  with k ts show ?thesis by blast
qed

lemma all_at_rest:
  assumes r: "at_rest nest s" "\<not> stopped s" "reachable nest n s" "0 < n"
    and w: "waiter s = None" and no: "\<And>i ts. i < n \<Longrightarrow> pcs s ! i \<noteq> Run ts"
  shows "pushes s = {#} \<and> parked s = {#} \<and> queued s = {#} \<and> held s = {#}"
proof -
  have ok: "stop_ok s" "workers_ok s" "waiter_ok s" "calls_ok nest s" "nthreads s = n"
    using r(3) reachable_ok reachable_stop_ok reachable_nthreads by blast+
  have "waiting s = Running" using ok(3) w by (simp add: waiter_ok_def)
  then have "x \<notin># pushes s" for x
    using pushes_at_rest [OF r(1) ok(4), of "fst x" "snd x"] r(4) ok(5) w by auto
  then have "pushes s = {#}" by (simp add: multiset_eq_iff count_eq_zero_iff)
  moreover have "x \<notin># parked s" for x
    using parked_at_rest [OF r(1)] w by blast
  then have "parked s = {#}" by (simp add: multiset_eq_iff count_eq_zero_iff)
  moreover have "pcs s ! i = Block \<and> tasks (queues s ! i) = []" if "i < n" for i
    using worker_at_rest [OF r(1,2) ok(1,2)] no [OF that] that ok(5) by blast
  then have "queued s = {#}" "held s = {#}"
    using ok(5) by (simp_all add: queued_def held_def sum_list_mset_empty)
  ultimately show ?thesis by simp
qed

text \<open>
  C20: When an executor that is not stopped has come to rest, which means that nothing that was begun goes on by
  itself any more, then each worker sleeps on its own empty queue or runs a task that is held up in a call of its
  own or is itself the caller of the \<open>wait\<close>. And all is done: no \<open>push\<close> and no \<open>wait\<close> is under way, no task is in a
  queue or with a worker, and every task handed in was finished or rejected. The one exception is that some worker
  is held up: its task pushes, or calls \<open>wait\<close> a second time, while a \<open>wait\<close> is under way, or waits for a future that is not
  set while the queues are empty. If tasks do not wait, it is the \<open>push\<close>.
\<close>

theorem executor_at_rest:
  assumes "reachable nest n s" and "0 < n" and "at_rest nest s" and "\<not> stopped s"
  shows "(\<forall>i<n. pcs s ! i = Block \<and> tasks (queues s ! i) = []
      \<or> (\<exists>ts. pcs s ! i = Run ts \<and> (held_up s i ts \<or> (\<exists>k. waiter s = Some (Some (i, length ts), Wait_busy k)))))
    \<and> (waiter s = None \<and> pushes s = {#} \<and> parked s = {#} \<and> queued s = {#} \<and> held s = {#} \<and> submitted s = finished s + rejected s
    \<or> (\<exists>i<n. \<exists>ts. pcs s ! i = Run ts \<and> held_up s i ts
        \<and> (\<not> nest \<longrightarrow> (\<exists>t. (Some (i, length ts), Blocked t) \<in># pushes s))))"
    (is "?workers \<and> ?rest")
proof -
  have push: "held_up s i ts \<Longrightarrow> \<not> nest \<longrightarrow> (\<exists>t. (Some (i, length ts), Blocked t) \<in># pushes s)" for i ts
    using held_up_push [of s i ts] reachable_ok [OF assms(1)] by (cases nest) auto
  have ?workers
  proof (intro allI impI)
    fix i assume i: "i < n"
    then show "pcs s ! i = Block \<and> tasks (queues s ! i) = []
        \<or> (\<exists>ts. pcs s ! i = Run ts \<and> (held_up s i ts \<or> (\<exists>k. waiter s = Some (Some (i, length ts), Wait_busy k))))"
      using worker_at_rest [OF assms(3,4)] run_at_rest [OF assms(3,4,1,2) i]
        reachable_ok [OF assms(1)] reachable_stop_ok [OF assms(1)] reachable_nthreads [OF assms(1)] by blast
  qed
  moreover consider (waiter) "waiter s \<noteq> None" | (runs) i ts where "waiter s = None" "i < n" "pcs s ! i = Run ts"
    | (rests) "waiter s = None" "\<And>i ts. i < n \<Longrightarrow> pcs s ! i \<noteq> Run ts"
    by blast
  then have ?rest
  proof cases
    case waiter
    then show ?thesis using waiter_held_up [OF assms(3,4,1,2)] push by fast
  next
    case (runs i ts)
    then have "held_up s i ts" using run_at_rest [OF assms(3,4,1,2)] by fastforce
    with runs push show ?thesis by blast
  next
    case rests
    then have "pushes s = {#}" "parked s = {#}" "queued s = {#}" "held s = {#}"
      using all_at_rest [OF assms(3,4,1,2)] by blast+
    moreover have "conserved s" "stop_ok s"
      using assms(1) by (auto intro: reachable_conserved reachable_stop_ok)
    ultimately show ?thesis
      using rests assms(4) by (auto simp: conserved_def stop_ok_def pending_def)
  qed
  ultimately show ?thesis by blast
qed

section \<open>Examples\<close>

text \<open>States of an executor with one thread that is not stopped, and its steps.\<close>

definition solo ::
  "nat list \<Rightarrow> bool \<Rightarrow> nat worker_pc \<Rightarrow> waiting_call option \<Rightarrow> wait_status \<Rightarrow> (caller \<times> nat pushing) multiset \<Rightarrow> 64 word
     \<Rightarrow> nat multiset \<Rightarrow> nat multiset \<Rightarrow> ((nat \<times> nat) \<times> nat) multiset \<Rightarrow> nat executor" where
  "solo ts b p w wa P i S F A =
     \<lparr>thread_pool = [\<lparr>q = \<lparr>tasks = ts, queue_done = False\<rparr>, busy = b, pc = p\<rparr>],
      index = i, stopped = False, waiting = wa, waiter = w, stopping = None,
      pushes = P, parked = {#}, awaits = A, submitted = S, finished = F, dropped = {#}, rejected = {#}\<rparr>"

lemma solo_views [simp]:
  "nthreads (solo ts b p w wa P i S F A) = 1" "queues (solo ts b p w wa P i S F A) = [\<lparr>tasks = ts, queue_done = False\<rparr>]"
  "busys (solo ts b p w wa P i S F A) = [b]" "pcs (solo ts b p w wa P i S F A) = [p]"
  "stopped (solo ts b p w wa P i S F A) = False" "waiting (solo ts b p w wa P i S F A) = wa"
  "waiter (solo ts b p w wa P i S F A) = w" "pushes (solo ts b p w wa P i S F A) = P" "index (solo ts b p w wa P i S F A) = i"
  "submitted (solo ts b p w wa P i S F A) = S" "finished (solo ts b p w wa P i S F A) = F"
  "awaits (solo ts b p w wa P i S F A) = A" "parked (solo ts b p w wa P i S F A) = {#}" "stopping (solo ts b p w wa P i S F A) = None"
  by (simp_all add: solo_def nthreads_def queues_def busys_def pcs_def)

lemma solo_set [simp]:
  "set_q 0 \<lparr>tasks = ts', queue_done = False\<rparr> (solo ts b p w wa P i S F A) = solo ts' b p w wa P i S F A"
  "set_busy 0 b' (solo ts b p w wa P i S F A) = solo ts b' p w wa P i S F A"
  "set_pc 0 p' (solo ts b p w wa P i S F A) = solo ts b p' w wa P i S F A"
  "solo ts b p w wa P i S F A \<lparr>waiter := w'\<rparr> = solo ts b p w' wa P i S F A"
  "solo ts b p w wa P i S F A \<lparr>waiting := wa'\<rparr> = solo ts b p w wa' P i S F A"
  "solo ts b p w wa P i S F A \<lparr>pushes := P'\<rparr> = solo ts b p w wa P' i S F A"
  "solo ts b p w wa P i S F A \<lparr>index := i'\<rparr> = solo ts b p w wa P i' S F A"
  "solo ts b p w wa P i S F A \<lparr>submitted := S'\<rparr> = solo ts b p w wa P i S' F A"
  "solo ts b p w wa P i S F A \<lparr>finished := F'\<rparr> = solo ts b p w wa P i S F' A"
  "solo ts b p w wa P i S F A \<lparr>awaits := A'\<rparr> = solo ts b p w wa P i S F A'"
  by (simp_all add: solo_def set_q_def set_busy_def set_pc_def modify_def)

lemma solo_new: "new_executor 1 = solo [] False Loop None Running {#} 0 {#} {#} {#}"
  by (simp add: solo_def new_executor_def)

lemma reachable_move: "reachable nest n s \<Longrightarrow> move_step nest s s' \<Longrightarrow> reachable nest n s'"
  by (blast intro: reachable.step exec_step.move)

lemma solo_start: "reachable nest 1 (solo [] False Loop None Running {#} 0 {#} {#} {#})"
  unfolding solo_new [symmetric] by (rule reachable.start)

lemma solo_push:
  assumes "reachable nest 1 (solo ts b p None Running {#} i S F A)"
  shows "reachable nest 1 (solo (ts @ [t]) b p None Running {#} (i + 1) (add_mset t S) F A)"
proof -
  let ?s = "\<lambda>x. solo ts b p None Running {#(None, x)#} i (add_mset t S) F A"
  let ?s' = "solo ts b p None Running {#(None, Trying t i 0)#} (i + 1) (add_mset t S) F A"
  have "reachable nest 1 (?s (Enter t))"
    using reachable.step [OF assms do_call_push [of _ None nest t]] by (simp add: may_call_def)
  moreover have "move_step nest (?s (Enter t)) (?s (Checked t))"
    using do_push_check [of "?s (Enter t)" None t "{#}" nest] by simp
  moreover have "move_step nest (?s (Checked t)) ?s'"
    using do_push_enter [of "?s (Checked t)" None t "{#}" nest] by simp
  moreover have "move_step nest ?s' (solo (ts @ [t]) b p None Running {#} (i + 1) (add_mset t S) F A)"
    using do_push_try [of ?s' None t i 0 "{#}" True "\<lparr>tasks = ts @ [t], queue_done = False\<rparr>" nest]
    by (simp add: queue_at_def try_push_def)
  ultimately show ?thesis
    by (blast intro: reachable_move)
qed

lemma solo_take:
  assumes "reachable nest 1 (solo (t # ts) b Loop w wa P i S F A)"
  shows "reachable nest 1 (solo ts True (Run [t]) w wa P i S F A)"
proof -
  let ?s = "solo (t # ts) b (Spin 0) w wa P i S F A"
  let ?s' = "solo ts True (Fetched (Some t)) w wa P i S F A"
  have "move_step nest (solo (t # ts) b Loop w wa P i S F A) ?s"
    using do_loop_go [of 0 "solo (t # ts) b Loop w wa P i S F A" nest] by simp
  moreover have "move_step nest ?s ?s'"
    using do_spin_hit [of 0 ?s 0 t "\<lparr>tasks = ts, queue_done = False\<rparr>" nest] by (simp add: try_pop_def)
  moreover have "move_step nest ?s' (solo ts True (Run [t]) w wa P i S F A)"
    using do_check_run [of 0 ?s' t nest] by simp
  ultimately show ?thesis
    using assms by (blast intro: reachable_move)
qed

lemma solo_wait_start:
  assumes "reachable nest 1 (solo ts b p None Running P i S F A)"
  shows "reachable nest 1 (solo ts b p (Some (None, Wait_queues 0)) BlockIncoming P i S F A)"
  using reachable.step [OF assms do_call_wait [of _ None nest BlockIncoming]]
  by (simp add: may_call_def)

text \<open>The wait with an empty queue and a worker that is not busy.\<close>

lemma solo_wait_queues:
  "move_step nest (solo [] b p (Some (None, Wait_queues 0)) wa P i S F A) (solo [] b p (Some (None, Wait_queues 1)) wa P i S F A)"
  "move_step nest (solo [] b p (Some (None, Wait_queues 1)) wa P i S F A) (solo [] b p (Some (None, Wait_busy 0)) wa P i S F A)"
  "move_step nest (solo ts False p (Some (None, Wait_busy 0)) wa P i S F A) (solo ts False p (Some (None, Wait_busy 1)) wa P i S F A)"
  using do_wait_queue [of "solo [] b p (Some (None, Wait_queues 0)) wa P i S F A" None 0 nest]
    do_wait_free [of "solo [] b p (Some (None, Wait_queues 1)) wa P i S F A" None 1 nest]
    do_wait_worker [of "solo ts False p (Some (None, Wait_busy 0)) wa P i S F A" None 0 nest]
  by (simp_all add: caller_ready_def queue_empty_def)

lemma solo_finish:
  assumes "w = None \<or> (\<exists>x. w = Some (None, x))" "\<forall>u. ((0, length (t # r)), u) \<notin># A"
  shows "move_step nest (solo ts b (Run (t # r)) w wa {#} i S F A)
    (solo ts False (if r = [] then Loop else Run r) w wa {#} i S (add_mset t F) A)"
  using do_finish [of 0 "solo ts b (Run (t # r)) w wa {#} i S F A" t r nest] assms
  by (auto simp: in_call_def)

lemma solo_await:
  assumes "reachable True 1 (solo ts b (Run [t]) (Some (None, w)) wa {#} i S F {#})"
  shows "reachable True 1 (solo ts b (Run [t]) (Some (None, w)) wa {#} i S F {#((0, 1), u)#})"
  using reachable.step [OF assms do_call_await [of True _ "(0, 1)" u]] by (simp add: may_call_def in_call_def)

lemma solo_nested:
  assumes "((0, length (t # r)), u) \<in># A"
  shows "move_step True (solo (t' # ts) b (Run (t # r)) w wa {#} i S F A) (solo ts True (Run (t' # t # r)) w wa {#} i S F A)"
  using do_run_one [of True 0 "solo (t' # ts) b (Run (t # r)) w wa {#} i S F A" t r u 0 t' "\<lparr>tasks = ts, queue_done = False\<rparr>"] assms
  by (simp add: try_pop_def)

lemma wait_finishes_witness:
  "\<exists>s. reachable False 1 s \<and> queued s = {#} \<and> held s = {#} \<and> submitted s = {#7 :: nat#} \<and> finished s = {#7#}"
proof -
  let ?w = "\<lambda>p. Some (None, p)"
  let ?s = "\<lambda>b p w F. solo [] b p (?w w) BlockIncoming {#} 1 {#7#} F {#}"
  have one: "reachable False 1 (solo [7] False Loop None Running {#} 1 {#7#} {#} {#})"
    using solo_push [OF solo_start, of False 7] by simp
  have two: "reachable False 1 (?s True (Run [7]) (Wait_queues 0) {#})"
    using solo_wait_start [OF solo_take [OF one]] .
  have steps: "exec_step False (?s True (Run [7]) (Wait_queues 0) {#}) (?s True (Run [7]) (Wait_queues 1) {#})"
    "exec_step False (?s True (Run [7]) (Wait_queues 1) {#}) (?s True (Run [7]) (Wait_busy 0) {#})"
    "exec_step False (?s True (Run [7]) (Wait_busy 0) {#}) (?s False Loop (Wait_busy 0) {#7#})"
    "exec_step False (?s False Loop (Wait_busy 0) {#7#}) (?s False Loop (Wait_busy 1) {#7#})"
    using solo_finish [of "?w (Wait_busy 0)" 7 "[]" "{#}" False "[]" True] by (simp_all add: exec_step.move solo_wait_queues [simplified])
  define R where "R = (\<lambda>s s' :: nat executor. exec_step False s s' \<and> waiter s' \<noteq> None)"
  with steps have "R (?s True (Run [7]) (Wait_queues 0) {#}) (?s True (Run [7]) (Wait_queues 1) {#})"
    "R (?s True (Run [7]) (Wait_queues 1) {#}) (?s True (Run [7]) (Wait_busy 0) {#})"
    "R (?s True (Run [7]) (Wait_busy 0) {#}) (?s False Loop (Wait_busy 0) {#7#})"
    "R (?s False Loop (Wait_busy 0) {#7#}) (?s False Loop (Wait_busy 1) {#7#})"
    by simp_all
  then have "R\<^sup>*\<^sup>* (?s True (Run [7]) (Wait_queues 0) {#}) (?s False Loop (Wait_busy 1) {#7#})"
    by (meson r_into_rtranclp rtranclp_trans)
  then have path: "(\<lambda>s s'. exec_step False s s' \<and> waiter s' \<noteq> None)\<^sup>*\<^sup>* (?s True (Run [7]) (Wait_queues 0) {#}) (?s False Loop (Wait_busy 1) {#7#})"
    unfolding R_def .
  have "queued (?s False Loop (Wait_busy 1) {#7#}) = {#} \<and> held (?s False Loop (Wait_busy 1) {#7#}) = {#}"
    using wait_finishes [OF two _ _ _ path] by simp
  moreover have "reachable False 1 (?s False Loop (Wait_busy 1) {#7#})"
    using path two by (induction rule: rtranclp_induct) (auto intro: reachable.step)
  ultimately show ?thesis
    by (intro exI [of _ "?s False Loop (Wait_busy 1) {#7#}"]) simp
qed

text \<open>
  If tasks wait for futures, \<open>wait\<close> can return too early: a task run by \<open>try_run_one\<close> on
  behalf of a waiting task clears the busy flag of the thread, on which the waiting task
  still runs. Here task 1 is not finished when the wait for it is about to return.
\<close>

theorem wait_nested_early:
  "\<exists>s. reachable True 1 s \<and> \<not> stopped s \<and> waiter s = Some (None, Wait_busy (nthreads s)) \<and> waiting s = BlockIncoming
     \<and> submitted s = {#1, 2 :: nat#} \<and> finished s = {#2#} \<and> held s = {#1#}"
proof -
  let ?s = "\<lambda>ts b r w F A. solo ts b (Run r) (Some (None, w)) BlockIncoming {#} 2 {#2, 1#} F A"
  let ?A = "{#((0, 1), 2)#}"
  have "reachable True 1 (solo [1] False Loop None Running {#} 1 {#1#} {#} {#})"
    using solo_push [OF solo_start, of True 1] by simp
  from solo_push [OF this, of 2] have "reachable True 1 (solo [1, 2] False Loop None Running {#} 2 {#2, 1#} {#} {#})"
    by simp
  from solo_wait_start [OF solo_take [OF this]] have "reachable True 1 (?s [2] True [1] (Wait_queues 0) {#} ?A)"
    by (rule solo_await)
  from reachable_move [OF this solo_nested] have "reachable True 1 (?s [] True [2, 1] (Wait_queues 0) {#} ?A)"
    by simp
  from reachable_move [OF this solo_finish] have "reachable True 1 (?s [] False [1] (Wait_queues 0) {#2#} ?A)"
    by simp
  from reachable_move [OF this solo_wait_queues(1)] have "reachable True 1 (?s [] False [1] (Wait_queues 1) {#2#} ?A)" .
  from reachable_move [OF this solo_wait_queues(2)] have "reachable True 1 (?s [] False [1] (Wait_busy 0) {#2#} ?A)" .
  from reachable_move [OF this solo_wait_queues(3)] have "reachable True 1 (?s [] False [1] (Wait_busy 1) {#2#} ?A)" .
  then show ?thesis
    by (intro exI [of _ "?s [] False [1] (Wait_busy 1) {#2#} ?A"]) (auto simp: held_def)
qed

text \<open>
  A task that calls \<open>push\<close> while \<open>wait\<close> is under way comes to rest there: it locks the mutex that \<open>wait\<close> keeps,
  and \<open>wait\<close> waits until the thread of the task is not busy.
\<close>

lemma push_during_wait_hangs:
  "\<exists>s. reachable False 1 s \<and> at_rest False s \<and> \<not> stopped s \<and> waiter s = Some (None, Wait_busy 0)
     \<and> pcs s ! 0 = Run [7 :: nat] \<and> pushes s = {#(Some (0, 1), Blocked 8)#}"
proof -
  let ?s = "\<lambda>P w S. solo [] True (Run [7]) (Some (None, w)) BlockIncoming P 1 S {#} {#}"
  let ?P = "\<lambda>x. {#(Some (0, 1), x)#}"
  let ?h = "?s (?P (Blocked 8)) (Wait_busy 0) {#8, 7#}"
  have "reachable False 1 (solo [7] False Loop None Running {#} 1 {#7#} {#} {#})"
    using solo_push [OF solo_start, of False 7] by simp
  from solo_wait_start [OF solo_take [OF this]] have "reachable False 1 (?s {#} (Wait_queues 0) {#7#})" .
  from reachable.step [OF this do_call_push [of _ "Some (0, 1)" False 8]]
  have "reachable False 1 (?s (?P (Enter 8)) (Wait_queues 0) {#8, 7#})"
    by (simp add: may_call_def in_call_def)
  from reachable_move [OF this do_push_check [of _ "Some (0, 1)" 8 "{#}"]]
  have "reachable False 1 (?s (?P (Checked 8)) (Wait_queues 0) {#8, 7#})"
    by simp
  from reachable_move [OF this do_push_block [of _ "Some (0, 1)" 8 "{#}"]]
  have "reachable False 1 (?s (?P (Blocked 8)) (Wait_queues 0) {#8, 7#})"
    by simp
  from reachable_move [OF reachable_move [OF this solo_wait_queues(1)] solo_wait_queues(2)]
  have "reachable False 1 ?h" .
  moreover have "at_rest False ?h"
    unfolding at_rest_def
    by (auto elim!: move_step.cases worker_step.cases push_step.cases wait_step.cases stop_step.cases simp: in_call_def)
  ultimately show ?thesis
    by (intro exI [of _ ?h]) simp
qed

lemma solo_blocked:
  assumes "reachable nest 1 (solo [] b Loop None Running {#} i S F {#})"
  shows "reachable nest 1 (solo [] b Block None Running {#} i S F {#})"
proof -
  let ?s = "\<lambda>p. solo [] b p None Running {#} i S F {#}"
  have spin: "reachable nest 1 (?s (Spin n))" if "n \<le> 4" for n
    using that
  proof (induction n)
    case 0
    then show ?case
      using reachable_move [OF assms do_loop_go [of 0 "?s Loop" nest]] by simp
  next
    case (Suc n)
    then show ?case
      using reachable_move [OF _ do_spin_miss [of 0 "?s (Spin n)" n False _ nest], of 1] by (simp add: try_pop_def)
  qed
  from reachable_move [OF spin [of 4] do_spin_end [of 0 "?s (Spin 4)" 4 nest]] show ?thesis
    by simp
qed

lemma executor_at_rest_witness:
  "reachable False 1 (solo [] False Block None Running {#} 1 {#7#} {#7#} {#})
     \<and> submitted (solo [] False Block None Running {#} 1 {#7#} {#7#} {#}) = finished (solo [] False Block None Running {#} 1 {#7#} {#7#} {#})"
proof -
  let ?s = "\<lambda>ts b p F. solo ts b p None Running {#} 1 {#7#} F {#}"
  have "reachable False 1 (?s [7] False Loop {#})"
    using solo_push [OF solo_start, of False 7] by simp
  from reachable_move [OF solo_take [OF this] solo_finish] have "reachable False 1 (?s [] False Loop {#7#})"
    by simp
  then have r: "reachable False 1 (?s [] False Block {#7#})"
    by (rule solo_blocked)
  have "at_rest False (?s [] False Block {#7#})"
    unfolding at_rest_def
    by (auto elim!: move_step.cases worker_step.cases push_step.cases wait_step.cases stop_step.cases
        simp: pop_queue_def split: if_splits)
  from executor_at_rest [OF r _ this] r show ?thesis
    by (auto simp: solo_def)
qed

end
