(* ===== verification/Futures.thy ===== *)
theory Futures
  imports Prelude
begin

text \<open>
  Futures (executor.h): the shared states behind them, the callbacks a state runs when it
  is set, and \<open>whenAll\<close> and \<open>whenAny\<close>, which wait for several futures. A shared state is
  the index of its record in a store; so is a counter that callbacks share. Results are
  numbers; a result that was never assigned is \<open>None\<close>. An operation is what its thread
  does while it holds the locks of the states.
\<close>

section \<open>Shared states\<close>

datatype callback =
    Count_down nat nat nat
  | Any_of nat nat
  | Push_task nat

record shared =
  is_set :: bool
  result_data :: "nat option"
  eptr :: "cpp_error option"
  callbacks :: "callback list"

record store =
  states :: "shared list"
  counters :: "nat list"
  pushed :: "nat list"

definition new_shared :: shared where
  "new_shared = \<lparr>is_set = False, result_data = None, eptr = None, callbacks = []\<rparr>"

text \<open>\<open>makeSharedState\<close>: the new state and its index.\<close>

definition make_shared :: "store \<Rightarrow> nat \<times> store" where
  "make_shared st = (length (states st), st\<lparr>states := states st @ [new_shared]\<rparr>)"

definition update_state :: "nat \<Rightarrow> (shared \<Rightarrow> shared) \<Rightarrow> store \<Rightarrow> store" where
  "update_state s f st = st\<lparr>states := (states st)[s := f (states st ! s)]\<rparr>"

definition is_open :: "store \<Rightarrow> nat \<Rightarrow> bool" where
  "is_open st s \<longleftrightarrow> s < length (states st) \<and> \<not> is_set (states st ! s)"

text \<open>
  What remains to be done by the thread that set a state: callbacks to call, and the
  assignment of the index in the callback of \<open>whenAny\<close>, which comes after \<open>setExecuted\<close>
  and so after all callbacks of the state it sets. The callbacks of a state that is set
  are called once and cleared.
\<close>

datatype work = Call callback | Store_index nat nat

definition mark_set :: "nat \<Rightarrow> store \<Rightarrow> store" where
  "mark_set s = update_state s (\<lambda>x. x\<lparr>is_set := True, callbacks := []\<rparr>)"

fun work_step :: "work \<Rightarrow> work list \<Rightarrow> store \<Rightarrow> work list \<times> store" where
  "work_step (Call (Push_task t)) ws st = (ws, st\<lparr>pushed := pushed st @ [t]\<rparr>)"
| "work_step (Call (Count_down s m c)) ws st =
     (let n = counters st ! c; st' = st\<lparr>counters := (counters st)[c := n + 1]\<rparr>
      in if n = m \<and> is_open st s then (map Call (callbacks (states st ! s)) @ ws, mark_set s st') else (ws, st'))"
| "work_step (Call (Any_of s i)) ws st =
     (if is_open st s then (map Call (callbacks (states st ! s)) @ Store_index s i # ws, mark_set s st) else (ws, st))"
| "work_step (Store_index s i) ws st = (ws, update_state s (\<lambda>x. x\<lparr>result_data := Some i\<rparr>) st)"

definition open_count :: "store \<Rightarrow> nat" where
  "open_count st = length (filter (\<lambda>x. \<not> is_set x) (states st))"

lemma open_count_le: "open_count st = card {s. is_open st s}"
  unfolding open_count_def is_open_def by (simp add: length_filter_conv_card)

lemma length_states [simp]:
  "length (states (update_state s f st)) = length (states st)" "length (states (mark_set s st)) = length (states st)"
  by (simp_all add: update_state_def mark_set_def)

lemma nth_update:
  "states (update_state s f st) ! s' = (if s' = s \<and> s < length (states st) then f (states st ! s) else states st ! s')"
  by (cases "s < length (states st)") (auto simp: update_state_def nth_list_update list_update_beyond not_less)

lemma is_open_mark [simp]: "is_open (mark_set s st) s' \<longleftrightarrow> is_open st s' \<and> s' \<noteq> s"
  by (auto simp: is_open_def mark_set_def nth_update)

lemma counters_unchanged [simp]: "counters (update_state s f st) = counters st" "counters (mark_set s st) = counters st"
  by (simp_all add: update_state_def mark_set_def)

lemma nth_mark: "x \<noteq> s \<Longrightarrow> states (mark_set s st) ! x = states st ! x"
  by (simp add: mark_set_def nth_update)

lemma is_open_counters [simp]: "is_open (st\<lparr>counters := C\<rparr>) s' \<longleftrightarrow> is_open st s'"
  by (simp add: is_open_def)

lemma is_open_pushed [simp]: "is_open (st\<lparr>pushed := P\<rparr>) s' \<longleftrightarrow> is_open st s'"
  by (simp add: is_open_def)

lemma is_open_update: "(\<And>x. is_set (f x) \<longleftrightarrow> is_set x) \<Longrightarrow> is_open (update_state s f st) s' \<longleftrightarrow> is_open st s'"
  by (simp add: is_open_def nth_update)

lemma finite_open: "finite {s. is_open st s}"
  by (rule finite_subset [of _ "{..<length (states st)}"]) (auto simp: is_open_def)

lemma mark_set_less: "is_open st s \<Longrightarrow> open_count (mark_set s st) < open_count st"
proof -
  assume "is_open st s"
  then have "{s'. is_open (mark_set s st) s'} \<subset> {s'. is_open st s'}"
    by auto
  then show ?thesis
    unfolding open_count_le by (rule psubset_card_mono [OF finite_open])
qed

lemma open_count_other [simp]:
  "open_count (st\<lparr>counters := C\<rparr>) = open_count st" "open_count (st\<lparr>pushed := P\<rparr>) = open_count st"
  "open_count (update_state s (\<lambda>x. x\<lparr>result_data := Some i\<rparr>) st) = open_count st"
  by (simp_all add: open_count_le is_open_update)

lemma work_step_less:
  "open_count (snd (work_step w ws st)) < open_count st
   \<or> open_count (snd (work_step w ws st)) = open_count st \<and> fst (work_step w ws st) = ws"
proof (induction w ws st rule: work_step.induct)
  case (2 s m c ws st)
  show ?case
    using mark_set_less [of "st\<lparr>counters := (counters st)[c := counters st ! c + 1]\<rparr>" s] by (auto simp: Let_def)
next
  case (3 s i ws st)
  show ?case
    using mark_set_less [of st s] by simp
qed simp_all

function run_work :: "work list \<Rightarrow> store \<Rightarrow> store" where
  "run_work [] st = st"
| "run_work (w # ws) st = (case work_step w ws st of (ws', st') \<Rightarrow> run_work ws' st')"
  by pat_completeness auto

termination
proof (relation "measures [\<lambda>(ws, st). open_count st, \<lambda>(ws, st). length ws]", goal_cases)
  case (2 w ws st x ws')
  then show ?case
    using work_step_less [of w ws st] by (auto split: prod.splits)
qed simp

text \<open>\<open>setExecuted\<close> with \<open>notice\<close>, and what a \<open>PackagedTask\<close> does with its result.\<close>

definition set_executed :: "nat \<Rightarrow> store \<Rightarrow> bool \<times> store" where
  "set_executed s st =
     (if is_open st s then (True, run_work (map Call (callbacks (states st ! s))) (mark_set s st)) else (False, st))"

definition run_packaged :: "nat \<Rightarrow> nat result \<Rightarrow> store \<Rightarrow> store" where
  "run_packaged s r st =
     snd (set_executed s (update_state s (\<lambda>x. case r of
       Inl e \<Rightarrow> x\<lparr>eptr := Some e\<rparr> | Inr v \<Rightarrow> x\<lparr>result_data := Some v\<rparr>) st))"

text \<open>\<open>get\<close> blocks (\<open>None\<close>) until the state is set.\<close>

definition future_get :: "store \<Rightarrow> nat \<Rightarrow> nat result option" where
  "future_get st s =
     (if is_open st s then None
      else case eptr (states st ! s) of
        Some e \<Rightarrow> Some (Inl e)
      | None \<Rightarrow> Some (case result_data (states st ! s) of None \<Rightarrow> Inl Undefined | Some v \<Rightarrow> Inr v))"

definition future_then :: "nat \<Rightarrow> nat \<Rightarrow> store \<Rightarrow> store" where
  "future_then s t st =
     (if \<not> is_open st s then st\<lparr>pushed := pushed st @ [t]\<rparr>
      else update_state s (\<lambda>x. x\<lparr>callbacks := callbacks x @ [Push_task t]\<rparr>) st)"

section \<open>Waiting for several futures\<close>

definition add_callback :: "nat \<Rightarrow> callback \<Rightarrow> store \<Rightarrow> store" where
  "add_callback f cb = update_state f (\<lambda>x. x\<lparr>callbacks := callbacks x @ [cb]\<rparr>)"

text \<open>\<open>whenAll\<close>: the index of its state and the store.\<close>

definition when_all :: "nat list \<Rightarrow> store \<Rightarrow> nat \<times> store" where
  "when_all fs st =
     (case make_shared st of (s, st1) \<Rightarrow>
        if list_all (\<lambda>f. \<not> is_open st f) fs then (s, mark_set s st1)
        else
          let c = length (counters st1); st2 = st1\<lparr>counters := counters st1 @ [0]\<rparr>
          in (s, fold (\<lambda>f. add_callback f (Count_down s (length fs - 1) c)) fs st2))"

definition first_set :: "nat list \<Rightarrow> store \<Rightarrow> nat option" where
  "first_set fs st = find (\<lambda>i. \<not> is_open st (fs ! i)) [0..<length fs]"

text \<open>\<open>whenAny\<close>; for no futures at all the state is set without an index.\<close>

definition when_any :: "nat list \<Rightarrow> store \<Rightarrow> nat \<times> store" where
  "when_any fs st =
     (case make_shared st of (s, st1) \<Rightarrow>
        if fs = [] then (s, mark_set s st1)
        else case first_set fs st of
          Some i \<Rightarrow> (s, mark_set s (update_state s (\<lambda>x. x\<lparr>result_data := Some i\<rparr>) st1))
        | None \<Rightarrow> (s, fold (\<lambda>i. add_callback (fs ! i) (Any_of s i)) [0..<length fs] st1))"

text \<open>\<open>waitAndGet\<close> and \<open>waitAndGetAllExceptions\<close>; \<open>None\<close> while a future is not set.\<close>

fun get_all :: "store \<Rightarrow> nat list \<Rightarrow> unit result" where
  "get_all st [] = Inr ()"
| "get_all st (f # fs) = (case eptr (states st ! f) of Some e \<Rightarrow> Inl e | None \<Rightarrow> get_all st fs)"

definition wait_and_get :: "store \<Rightarrow> nat list \<Rightarrow> unit result option" where
  "wait_and_get st fs = (if list_all (\<lambda>f. \<not> is_open st f) fs then Some (get_all st fs) else None)"

definition wait_and_get_all_exceptions :: "store \<Rightarrow> nat list \<Rightarrow> cpp_error list option" where
  "wait_and_get_all_exceptions st fs =
     (if list_all (\<lambda>f. \<not> is_open st f) fs
      then Some (concat (map (\<lambda>f. case eptr (states st ! f) of Some e \<Rightarrow> [e] | None \<Rightarrow> []) fs))
      else None)"

section \<open>Completion\<close>

text \<open>Futures finish one after the other.\<close>

definition complete :: "nat list \<Rightarrow> store \<Rightarrow> store" where
  "complete fs st = fold (\<lambda>f st. snd (set_executed f st)) fs st"

text \<open>Callbacks point to states and counters that exist.\<close>

fun callback_ok :: "store \<Rightarrow> callback \<Rightarrow> bool" where
  "callback_ok st (Count_down s m c) \<longleftrightarrow> s < length (states st) \<and> c < length (counters st)"
| "callback_ok st (Any_of s i) \<longleftrightarrow> s < length (states st)"
| "callback_ok st (Push_task t) \<longleftrightarrow> True"

definition store_ok :: "store \<Rightarrow> bool" where
  "store_ok st \<longleftrightarrow> (\<forall>x\<in>set (states st). \<forall>cb\<in>set (callbacks x). callback_ok st cb)"

lemma work_step_closes: "is_open (snd (work_step w ws st)) x \<Longrightarrow> is_open st x"
  by (induction w ws st rule: work_step.induct) (auto simp: Let_def is_open_update split: if_splits)

lemma run_work_closes: "is_open (run_work ws st) x \<Longrightarrow> is_open st x"
proof (induction ws st rule: run_work.induct)
  case (2 w ws st)
  then show ?case
    using work_step_closes [of w ws st x] by (auto split: prod.splits)
qed simp

lemma set_executed_closes: "is_open (snd (set_executed f st)) x \<Longrightarrow> is_open st x \<and> x \<noteq> f"
  using run_work_closes [of "map Call (callbacks (states st ! f))" "mark_set f st" x]
  by (auto simp: set_executed_def split: if_splits)

lemma complete_closes: "is_open (complete fs st) x \<Longrightarrow> is_open st x \<and> x \<notin> set fs"
  by (induction fs arbitrary: st) (auto simp: complete_def dest: set_executed_closes)

text \<open>
  The callbacks that count for one \<open>whenAll\<close>, with its state \<open>s\<close>, its last number \<open>m\<close> and
  its counter \<open>c\<close>: only these touch \<open>s\<close> and \<open>c\<close>.
\<close>

fun foreign :: "nat \<Rightarrow> nat \<Rightarrow> callback \<Rightarrow> bool" where
  "foreign s c (Count_down s' m' c') \<longleftrightarrow> s' \<noteq> s \<and> c' \<noteq> c"
| "foreign s c (Any_of s' i) \<longleftrightarrow> s' \<noteq> s"
| "foreign s c (Push_task t) \<longleftrightarrow> True"

fun fits :: "nat \<Rightarrow> nat \<Rightarrow> nat \<Rightarrow> work \<Rightarrow> bool" where
  "fits s m c (Call cb) \<longleftrightarrow> cb = Count_down s m c \<or> foreign s c cb"
| "fits s m c (Store_index s' i) \<longleftrightarrow> True"

definition open_of :: "store \<Rightarrow> nat list \<Rightarrow> nat" where
  "open_of st fs = card {f \<in> set fs. is_open st f}"

definition counting :: "nat list \<Rightarrow> nat \<Rightarrow> nat \<Rightarrow> nat \<Rightarrow> nat \<Rightarrow> work list \<Rightarrow> store \<Rightarrow> bool" where
  "counting fs s m c k ws st \<longleftrightarrow>
     s < length (states st) \<and> c < length (counters st) \<and> s \<notin> set fs \<and> list_all (fits s m c) ws
     \<and> (\<forall>x. is_open st x \<longrightarrow> list_all (\<lambda>cb. fits s m c (Call cb)) (callbacks (states st ! x))
          \<and> count_list (callbacks (states st ! x)) (Count_down s m c) = (if x \<in> set fs then 1 else 0))
     \<and> counters st ! c + count_list ws (Call (Count_down s m c)) + open_of st fs = k
     \<and> (is_open st s \<longleftrightarrow> counters st ! c \<le> m)"

lemma count_list_Call: "count_list (map Call cbs) (Call cb) = count_list cbs cb"
  by (induction cbs) auto

lemma open_of_mark: "is_open st x \<Longrightarrow> open_of st fs = open_of (mark_set x st) fs + (if x \<in> set fs then 1 else 0)"
proof (cases "x \<in> set fs")
  case True
  assume "is_open st x"
  with True have "{f \<in> set fs. is_open st f} = insert x {f \<in> set fs. is_open (mark_set x st) f}"
    by auto
  then show ?thesis
    using True by (simp add: open_of_def)
next
  case False
  then have "{f \<in> set fs. is_open st f} = {f \<in> set fs. is_open (mark_set x st) f}"
    by auto
  then show ?thesis
    using False by (simp add: open_of_def)
qed

lemma open_of_cong: "(\<And>x. is_open st x \<longleftrightarrow> is_open st' x) \<Longrightarrow> open_of st fs = open_of st' fs"
  by (simp add: open_of_def)

text \<open>Setting another state moves its callbacks to the work.\<close>

lemma counting_mark:
  assumes "counting fs s m c k ws st" and "is_open st x" and "x \<noteq> s"
  shows "counting fs s m c k (map Call (callbacks (states st ! x)) @ ws) (mark_set x st)"
proof -
  have "list_all (fits s m c) (map Call (callbacks (states st ! x)))"
    "count_list (map Call (callbacks (states st ! x))) (Call (Count_down s m c)) = (if x \<in> set fs then 1 else 0)"
    using assms by (auto simp: counting_def list.pred_map comp_def count_list_Call)
  with assms open_of_mark [OF assms(2), of fs] show ?thesis
    by (auto simp: counting_def nth_mark)
qed

lemma counting_step: "counting fs s m c k (w # ws) st \<Longrightarrow> case_prod (counting fs s m c k) (work_step w ws st)"
proof (induction w ws st rule: work_step.induct)
  case (1 t ws st)
  then show ?case
    by (auto simp: counting_def open_of_def)
next
  case (2 s' m' c' ws st)
  let ?st = "st\<lparr>counters := (counters st)[c' := counters st ! c' + 1]\<rparr>"
  show ?case
  proof (cases "c' = c")
    case True
    with 2 have eq: "s' = s" "m' = m" "c < length (counters st)"
      by (auto simp: counting_def)
    show ?thesis
    proof (cases "counters st ! c = m")
      case m: True
      then have "is_open st s" "s \<notin> set fs"
        using 2 by (auto simp: counting_def)
      moreover from this have "list_all (fits s m c) (map Call (callbacks (states st ! s)))"
        "count_list (map Call (callbacks (states st ! s))) (Call (Count_down s m c)) = 0"
        using 2 by (auto simp: counting_def list.pred_map comp_def count_list_Call)
      moreover have "open_of (mark_set s ?st) fs = open_of st fs"
        using \<open>s \<notin> set fs\<close> by (auto simp: open_of_def intro!: arg_cong [of _ _ card])
      ultimately show ?thesis
        using 2 True eq m by (auto simp: counting_def nth_mark)
    next
      case False
      with 2 True eq show ?thesis
        by (auto simp: counting_def open_of_def)
    qed
  next
    case False
    with 2 have ne: "s' \<noteq> s" "c' \<noteq> c"
      by (auto simp: counting_def)
    then have st: "counting fs s m c k ws ?st"
      using 2 by (auto simp: counting_def open_of_def)
    show ?thesis
      using counting_mark [OF st _ ne(1)] st by (auto simp: Let_def)
  qed
next
  case (3 s' i ws st)
  then have ne: "s' \<noteq> s" and st: "counting fs s m c k ws st"
    by (auto simp: counting_def)
  have "counting fs s m c k (map Call (callbacks (states st ! s')) @ Store_index s' i # ws) (mark_set s' st)" if "is_open st s'"
    using counting_mark [OF _ that ne, of fs m c k "Store_index s' i # ws"] st by (simp add: counting_def)
  with st show ?case
    by auto
next
  case (4 s' i ws st)
  then show ?case
    by (auto simp: counting_def is_open_update nth_update open_of_def)
qed

lemma counting_run: "counting fs s m c k ws st \<Longrightarrow> counting fs s m c k [] (run_work ws st)"
proof (induction ws st rule: run_work.induct)
  case (2 w ws st)
  then show ?case
    using counting_step [of fs s m c k w ws st] by (auto split: prod.splits)
qed simp

lemma counting_complete:
  "counting fs s m c k [] st \<Longrightarrow> s \<notin> set order \<Longrightarrow> counting fs s m c k [] (complete order st)"
proof (induction order arbitrary: st)
  case (Cons f order)
  have "counting fs s m c k [] (snd (set_executed f st))"
  proof (cases "is_open st f")
    case True
    with Cons.prems counting_mark [of fs s m c k "[]" st f] show ?thesis
      by (auto simp: set_executed_def intro: counting_run)
  next
    case False
    with Cons.prems show ?thesis by (simp add: set_executed_def)
  qed
  with Cons show ?case
    by (simp add: complete_def)
qed (simp add: complete_def)

lemma fold_callbacks:
  "length (states (fold (\<lambda>f. add_callback f cb) fs st)) = length (states st)"
  "counters (fold (\<lambda>f. add_callback f cb) fs st) = counters st"
  "is_open (fold (\<lambda>f. add_callback f cb) fs st) x \<longleftrightarrow> is_open st x"
  by (induction fs arbitrary: st) (auto simp: add_callback_def is_open_update)

lemma nth_fold_callbacks:
  "distinct fs \<Longrightarrow> states (fold (\<lambda>f. add_callback f cb) fs st) ! x =
     (if x \<in> set fs \<and> x < length (states st) then (states st ! x)\<lparr>callbacks := callbacks (states st ! x) @ [cb]\<rparr>
      else states st ! x)"
  by (induction fs arbitrary: st) (auto simp: add_callback_def nth_update)

lemma callback_foreign:
  "callback_ok st cb \<Longrightarrow> length (states st) \<le> s \<Longrightarrow> length (counters st) \<le> c \<Longrightarrow> foreign s c cb \<and> cb \<noteq> Count_down s m c"
  by (cases cb) auto

lemma foreign_count: "list_all (foreign s c) cbs \<Longrightarrow> count_list cbs (Count_down s m c) = 0"
  by (induction cbs) auto

lemma when_all_counting:
  assumes "store_ok st" "distinct fs" "\<forall>f\<in>set fs. f < length (states st)" "\<exists>f\<in>set fs. is_open st f"
    and "when_all fs st = (s, st1)"
  shows "\<exists>c. counting fs s (length fs - 1) c (open_of st fs) [] st1 \<and> open_of st1 fs = open_of st fs"
proof -
  let ?s = "length (states st)" and ?c = "length (counters st)" and ?m = "length fs - 1"
  let ?st2 = "st\<lparr>states := states st @ [new_shared], counters := counters st @ [0]\<rparr>"
  have s: "s = ?s" "st1 = fold (\<lambda>f. add_callback f (Count_down ?s ?m ?c)) fs ?st2"
    using assms(4,5) by (auto simp: when_all_def make_shared_def list_all_iff Let_def split: if_splits)
  have op: "is_open st1 x \<longleftrightarrow> is_open st x \<or> x = ?s" for x
  proof -
    have "is_open st1 x \<longleftrightarrow> is_open ?st2 x"
      by (simp add: s fold_callbacks(3))
    also have "\<dots> \<longleftrightarrow> is_open st x \<or> x = ?s"
      by (auto simp: is_open_def nth_append new_shared_def)
    finally show ?thesis .
  qed
  have old: "list_all (foreign ?s ?c) (callbacks (states st ! x))" if "x < ?s" for x
    using assms(1) nth_mem [OF that] callback_foreign [of st _ ?s ?c] unfolding store_ok_def list_all_iff by blast
  have cb: "list_all (\<lambda>cb. fits ?s ?m ?c (Call cb)) (callbacks (states st1 ! x))
      \<and> count_list (callbacks (states st1 ! x)) (Count_down ?s ?m ?c) = (if x \<in> set fs then 1 else 0)" if "is_open st1 x" for x
  proof (cases "x = ?s")
    case True
    moreover from this have "x \<notin> set fs"
      using assms(3) by auto
    ultimately show ?thesis
      by (simp add: s nth_fold_callbacks [OF assms(2)] new_shared_def)
  next
    case False
    with that have "is_open st x"
      by (simp add: op)
    then have "x < ?s"
      by (simp add: is_open_def)
    with old [of x] foreign_count [OF old] show ?thesis
      by (auto simp: s nth_fold_callbacks [OF assms(2)] nth_append list_all_iff)
  qed
  have notin: "?s \<notin> set fs"
    using assms(3) by auto
  then have "{f \<in> set fs. is_open st1 f} = {f \<in> set fs. is_open st f}"
    by (auto simp: op)
  then have "open_of st1 fs = open_of st fs"
    by (simp add: open_of_def)
  moreover have "length (states st1) = Suc ?s" "counters st1 = counters st @ [0]"
    by (simp_all add: s fold_callbacks)
  ultimately show ?thesis
    using cb notin op by (intro exI [of _ ?c]) (simp add: counting_def s(1))
qed

lemma open_of_all:
  assumes "distinct fs" "fs \<noteq> []"
  shows "open_of st fs \<le> length fs" "open_of st fs = length fs \<longleftrightarrow> (\<forall>f\<in>set fs. is_open st f)"
    "open_of st fs = 0 \<longleftrightarrow> (\<forall>f\<in>set fs. \<not> is_open st f)"
proof -
  have le: "card {f \<in> set fs. is_open st f} \<le> card (set fs)"
    by (intro card_mono) auto
  have "card {f \<in> set fs. is_open st f} = card (set fs) \<longleftrightarrow> {f \<in> set fs. is_open st f} = set fs"
    by (metis (no_types, lifting) List.finite_set card_subset_eq mem_Collect_eq subsetI)
  with le show "open_of st fs \<le> length fs" "open_of st fs = length fs \<longleftrightarrow> (\<forall>f\<in>set fs. is_open st f)"
    "open_of st fs = 0 \<longleftrightarrow> (\<forall>f\<in>set fs. \<not> is_open st f)"
    by (auto simp: open_of_def distinct_card [OF assms(1)])
qed

text \<open>
  C8: When the future of \<open>whenAll\<close> is set, in every order in which futures finish: if none
  of its futures was finished at the call, exactly when all of them are; if all were, at
  once; but if some were finished and some were not, never: the callbacks added to the
  finished ones are not called, and the counter does not reach its last number.
\<close>

theorem when_all_completes:
  assumes "store_ok st" and "distinct fs" and "fs \<noteq> []" and "\<forall>f\<in>set fs. f < length (states st)"
    and "when_all fs st = (s, st1)" and "s \<notin> set order"
  shows "is_open (complete order st1) s \<longleftrightarrow>
    (\<exists>f\<in>set fs. is_open st f) \<and> ((\<exists>f\<in>set fs. \<not> is_open st f) \<or> (\<exists>f\<in>set fs. is_open (complete order st1) f))"
proof (cases "\<exists>f\<in>set fs. is_open st f")
  case True
  from when_all_counting [OF assms(1,2,4) True assms(5)] obtain c
    where "counting fs s (length fs - 1) c (open_of st fs) [] st1" by blast
  from counting_complete [OF this assms(6)]
  have "counters (complete order st1) ! c + open_of (complete order st1) fs = open_of st fs"
    "is_open (complete order st1) s \<longleftrightarrow> counters (complete order st1) ! c \<le> length fs - 1"
    by (simp_all add: counting_def)
  moreover have "length fs > 0"
    using assms(3) by simp
  ultimately have "is_open (complete order st1) s \<longleftrightarrow> open_of st fs < length fs \<or> 0 < open_of (complete order st1) fs"
    using open_of_all(1) [OF assms(2,3), of st] by (cases fs) auto
  with True show ?thesis
    using open_of_all [OF assms(2,3), of st] open_of_all(3) [OF assms(2,3), of "complete order st1"] by auto
next
  case False
  then have "\<not> is_open st1 s"
    using assms(5) by (auto simp: when_all_def make_shared_def list_all_iff split: if_splits)
  with False show ?thesis
    using complete_closes [of order st1 s] by blast
qed

text \<open>One finished future and one that is not: the future of \<open>whenAll\<close> stays open.\<close>

definition one_finished :: store where
  "one_finished =
     \<lparr>states = [\<lparr>is_set = True, result_data = Some 5, eptr = None, callbacks = []\<rparr>, new_shared], counters = [], pushed = []\<rparr>"

lemma when_all_completes_witness:
  "is_open (complete [1] (snd (when_all [0, 1] one_finished))) 2 \<and> \<not> is_open (complete [1] (snd (when_all [0, 1] one_finished))) 1"
proof -
  have "fst (when_all [0, 1] one_finished) = 2"
    by code_simp
  then have call: "when_all [0, 1] one_finished = (2, snd (when_all [0, 1] one_finished))"
    by (metis prod.collapse)
  have "store_ok one_finished" "is_open one_finished 1" "\<not> is_open one_finished 0" "length (states one_finished) = 2"
    by (simp_all add: store_ok_def one_finished_def new_shared_def is_open_def)
  then show ?thesis
    using when_all_completes [OF _ _ _ _ call, of "[1]"] complete_closes [of "[1]" "snd (when_all [0, 1] one_finished)" 1]
    by auto
qed

section \<open>The first to finish\<close>

lemma first_set_Some: "first_set fs st = Some i \<Longrightarrow> i < length fs \<and> \<not> is_open st (fs ! i) \<and> (\<forall>j<i. is_open st (fs ! j))"
  by (auto simp: first_set_def find_Some_iff nth_upt)

lemma first_set_None: "first_set fs st = None \<longleftrightarrow> (\<forall>f\<in>set fs. is_open st f)"
  by (auto simp: first_set_def find_None_iff set_conv_nth)

lemma fold_any:
  "length (states (fold (\<lambda>i. add_callback (fs ! i) (Any_of s i)) is st)) = length (states st)"
  "is_open (fold (\<lambda>i. add_callback (fs ! i) (Any_of s i)) is st) x \<longleftrightarrow> is_open st x"
  "result_data (states (fold (\<lambda>i. add_callback (fs ! i) (Any_of s i)) is st) ! x) = result_data (states st ! x)"
  "eptr (states (fold (\<lambda>i. add_callback (fs ! i) (Any_of s i)) is st) ! x) = eptr (states st ! x)"
  "\<forall>i\<in>set is. fs ! i \<noteq> x \<Longrightarrow>
     callbacks (states (fold (\<lambda>i. add_callback (fs ! i) (Any_of s i)) is st) ! x) = callbacks (states st ! x)"
  by (induction "is" arbitrary: st) (auto simp: add_callback_def is_open_update nth_update)

text \<open>
  When a future of \<open>whenAny\<close> was finished at the call, the index of the first such one
  is its result. Otherwise the callback of the first future to finish sets the state, runs
  its callbacks and only then stores the index: until then, and for no futures at all,
  \<open>get\<close> returns a value nothing has assigned; afterwards it returns the index.
\<close>

theorem when_any_result:
  assumes "when_any fs st = (s, st1)" and "\<forall>f\<in>set fs. f < length (states st)"
  shows "(\<forall>i. first_set fs st = Some i \<longrightarrow> i < length fs \<and> future_get st1 s = Some (Inr i))
    \<and> (fs = [] \<longrightarrow> future_get st1 s = Some (Inl Undefined))
    \<and> (\<forall>i<length fs. first_set fs st = None \<longrightarrow> future_get st1 s = None
         \<and> (case work_step (Call (Any_of s i)) [] st1 of (ws, st2) \<Rightarrow>
              future_get st2 s = Some (Inl Undefined) \<and> Store_index s i \<in> set ws)
         \<and> future_get (run_work [Call (Any_of s i)] st1) s = Some (Inr i))"
proof (intro conjI allI impI)
  fix i
  assume i: "first_set fs st = Some i"
  then show "i < length fs" by (auto dest: first_set_Some)
  then have "fs \<noteq> []" by auto
  with i assms have "s = length (states st)"
    "st1 = mark_set s (update_state s (\<lambda>x. x\<lparr>result_data := Some i\<rparr>) (st\<lparr>states := states st @ [new_shared]\<rparr>))"
    by (auto simp: when_any_def make_shared_def)
  then show "future_get st1 s = Some (Inr i)"
    by (simp add: future_get_def is_open_update) (simp add: mark_set_def nth_update new_shared_def)
next
  assume "fs = []"
  with assms have "s = length (states st)" "st1 = mark_set s (st\<lparr>states := states st @ [new_shared]\<rparr>)"
    by (auto simp: when_any_def make_shared_def)
  then show "future_get st1 s = Some (Inl Undefined)"
    by (simp add: future_get_def) (simp add: mark_set_def nth_update new_shared_def)
next
  fix i
  assume i: "i < length fs" "first_set fs st = None"
  let ?st = "st\<lparr>states := states st @ [new_shared]\<rparr>"
  have s: "s = length (states st)" "st1 = fold (\<lambda>i. add_callback (fs ! i) (Any_of s i)) [0..<length fs] ?st"
    using assms i by (cases fs; auto simp: when_any_def make_shared_def)+
  have op: "is_open st1 s" "result_data (states st1 ! s) = None" "eptr (states st1 ! s) = None"
    unfolding s(2) fold_any by (simp_all add: s(1) is_open_def new_shared_def)
  show "future_get st1 s = None"
    using op by (simp add: future_get_def)
  show "case work_step (Call (Any_of s i)) [] st1 of (ws, st2) \<Rightarrow>
      future_get st2 s = Some (Inl Undefined) \<and> Store_index s i \<in> set ws"
    using op by (auto simp: future_get_def mark_set_def nth_update is_open_def)
  have "callbacks (states st1 ! s) = []"
    unfolding s(2) using assms(2) by (subst fold_any(5)) (auto simp: s(1) new_shared_def all_set_conv_all_nth)
  then show "future_get (run_work [Call (Any_of s i)] st1) s = Some (Inr i)"
    using op by (auto simp: future_get_def is_open_update) (auto simp: mark_set_def nth_update is_open_def)
qed

lemma when_any_result_witness:
  "future_get (snd (when_any [0, 1] one_finished)) 2 = Some (Inr 0)"
proof -
  have "fst (when_any [0, 1] one_finished) = 2" "first_set [0, 1] one_finished = Some 0"
    by code_simp+
  moreover have "\<forall>f\<in>set [0, 1]. f < length (states one_finished)"
    by (simp add: one_finished_def)
  ultimately show ?thesis
    using when_any_result [of "[0, 1]" one_finished 2 "snd (when_any [0, 1] one_finished)"] by (metis prod.collapse)
qed

end
