(* ===== verification/Effects.thy ===== *)
theory Effects
  imports Prelude
begin

text \<open>
  Operations on a world that can throw: a function from the world to a result and the world
  after it. An exception leaves the world as it was at the throw.
\<close>

type_synonym ('w, 'a) io = "'w \<Rightarrow> 'a result \<times> 'w"

definition io_return :: "'a \<Rightarrow> ('w, 'a) io" where
  "io_return x = (\<lambda>w. (Inr x, w))"

definition io_throw :: "cpp_error \<Rightarrow> ('w, 'a) io" where
  "io_throw e = (\<lambda>w. (Inl e, w))"

definition io_bind :: "('w, 'a) io \<Rightarrow> ('a \<Rightarrow> ('w, 'b) io) \<Rightarrow> ('w, 'b) io" where
  "io_bind m f = (\<lambda>w. case m w of (Inl e, w) \<Rightarrow> (Inl e, w) | (Inr x, w) \<Rightarrow> f x w)"

definition is_exception :: "cpp_error \<Rightarrow> bool" where
  "is_exception e \<longleftrightarrow> e \<noteq> Undefined \<and> e \<noteq> Diverges"

text \<open>An undefined or endless operation is no exception and is not caught.\<close>

definition io_catch :: "('w, 'a) io \<Rightarrow> (cpp_error \<Rightarrow> ('w, 'a) io) \<Rightarrow> ('w, 'a) io" where
  "io_catch m h = (\<lambda>w. case m w of
     (Inl e, w) \<Rightarrow> if is_exception e then h e w else (Inl e, w)
   | (Inr x, w) \<Rightarrow> (Inr x, w))"

fun io_seq :: "('w, unit) io list \<Rightarrow> ('w, unit) io" where
  "io_seq [] = io_return ()"
| "io_seq (m # ms) = io_bind m (\<lambda>_. io_seq ms)"

definition lift_result :: "'a result \<Rightarrow> ('w, 'a) io" where
  "lift_result r = (\<lambda>w. (r, w))"

lemma io_bind_cases:
  "m w = (Inl e, w') \<Longrightarrow> io_bind m f w = (Inl e, w')"
  "m w = (Inr x, w') \<Longrightarrow> io_bind m f w = f x w'"
  by (simp_all add: io_bind_def)

lemma io_return_apply [simp]: "io_return x w = (Inr x, w)"
  by (simp add: io_return_def)

lemma io_bind_Inr:
  "io_bind m f w = (Inr y, w'') \<longleftrightarrow> (\<exists>x w'. m w = (Inr x, w') \<and> f x w' = (Inr y, w''))"
  by (cases "m w") (auto simp: io_bind_def split: sum.splits)

text \<open>An operation that keeps an invariant of the world.\<close>

definition keeps :: "('w \<Rightarrow> bool) \<Rightarrow> ('w, 'a) io \<Rightarrow> bool" where
  "keeps I m \<longleftrightarrow> (\<forall>w. I w \<longrightarrow> I (snd (m w)))"

lemma keeps_bind: "keeps I m \<Longrightarrow> (\<And>x. keeps I (f x)) \<Longrightarrow> keeps I (io_bind m f)"
  by (fastforce simp: keeps_def io_bind_def split: prod.splits sum.splits)

lemma keeps_catch: "keeps I m \<Longrightarrow> (\<And>e. keeps I (h e)) \<Longrightarrow> keeps I (io_catch m h)"
  by (fastforce simp: keeps_def io_catch_def split: prod.splits sum.splits)

lemma keeps_pure: "keeps I (io_return x)" "keeps I (io_throw e)" "keeps I (lift_result r)"
  by (simp_all add: keeps_def io_return_def io_throw_def lift_result_def)

lemma keeps_seq: "(\<And>m. m \<in> set ms \<Longrightarrow> keeps I m) \<Longrightarrow> keeps I (io_seq ms)"
  by (induction ms) (auto intro: keeps_bind keeps_pure)

end
