(* ===== verification/Source.thy ===== *)
theory Source
  imports Effects "HOL-Library.AList"
begin

text \<open>
  The package sources of source.cpp: their validity, the documents (JSON, YAML) they are
  read from and written to, how they are printed and hashed, and how they are downloaded.
  A document library is a record of the operations the code calls; the file system, the
  network and the version control programs are a record of operations on a world.
\<close>

section \<open>URLs\<close>

definition is_url :: "string \<Rightarrow> bool" where
  "is_url s \<longleftrightarrow> prefix ''http://'' s \<or> prefix ''https://'' s \<or> prefix ''ftp://'' s \<or> prefix ''git://'' s"

definition bad_url_chars :: string where
  "bad_url_chars = map char_of ([39, 34, 96, 92, 124, 59, 36, 32, 64, 33, 35, 94, 42, 40, 41, 60, 62, 91, 93, 44] :: nat list)"

definition valid_source_url :: "string \<Rightarrow> bool" where
  "valid_source_url url \<longleftrightarrow>
     url \<noteq> [] \<and> is_url url \<and> list_all (\<lambda>c. c \<notin> set bad_url_chars) url \<and> str_find ''&&'' url = None
     \<and> \<not> prefix ''file:'' url \<and> list_all (\<lambda>c. (of_char c :: nat) \<le> 127) url"

definition check_source_url :: "string \<Rightarrow> unit result" where
  "check_source_url url = (if valid_source_url url then Inr () else Inl (Runtime_error (''Bad source url: '' @ url)))"

section \<open>Sources\<close>

datatype source_type =
  Type_empty | Type_git | Type_hg | Type_bzr | Type_fossil | Type_cvs | Type_svn | Type_remote | Type_files

fun type_to_string :: "source_type \<Rightarrow> string" where
  "type_to_string Type_empty = ''empty''"
| "type_to_string Type_git = ''git''"
| "type_to_string Type_hg = ''hg''"
| "type_to_string Type_bzr = ''bzr''"
| "type_to_string Type_fossil = ''fossil''"
| "type_to_string Type_cvs = ''cvs''"
| "type_to_string Type_svn = ''svn''"
| "type_to_string Type_remote = ''remote''"
| "type_to_string Type_files = ''files''"

definition type_from_string :: "string \<Rightarrow> source_type result" where
  "type_from_string t =
     (if t = ''empty'' then Inr Type_empty
      else if t = ''git'' then Inr Type_git
      else if t = ''hg'' then Inr Type_hg
      else if t = ''bzr'' then Inr Type_bzr
      else if t = ''fossil'' then Inr Type_fossil
      else if t = ''cvs'' then Inr Type_cvs
      else if t = ''svn'' then Inr Type_svn
      else if t = ''remote'' then Inr Type_remote
      else if t = ''files'' then Inr Type_files
      else Inl (Runtime_error (''Bad source: '' @ t)))"

record source_url =
  url :: string

record git = source_url +
  tag :: string
  branch :: string
  commit :: string
  try_v_tag_prefix :: bool

record hg = git +
  revision :: int

record bzr = source_url +
  bzr_tag :: string
  bzr_revision :: int

record cvs = source_url +
  cvs_tag :: string
  cvs_branch :: string
  cvs_revision :: string
  cvs_module :: string

record svn = source_url +
  svn_tag :: string
  svn_branch :: string
  svn_revision :: int

text \<open>\<open>Fossil\<close> adds no member to \<open>Git\<close>; the set of URLs is the sorted list of its elements.\<close>

datatype source =
    EmptySource
  | Git git
  | Mercurial hg
  | Bazaar bzr
  | Fossil git
  | Cvs cvs
  | Svn svn
  | RemoteFile source_url
  | RemoteFiles "string list"

fun get_type :: "source \<Rightarrow> source_type" where
  "get_type EmptySource = Type_empty"
| "get_type (Git s) = Type_git"
| "get_type (Mercurial s) = Type_hg"
| "get_type (Bazaar s) = Type_bzr"
| "get_type (Fossil s) = Type_fossil"
| "get_type (Cvs s) = Type_cvs"
| "get_type (Svn s) = Type_svn"
| "get_type (RemoteFile s) = Type_remote"
| "get_type (RemoteFiles us) = Type_files"

definition get_string :: "source \<Rightarrow> string" where
  "get_string s = type_to_string (get_type s)"

section \<open>Validity\<close>

text \<open>The arguments of the variadic \<open>checkOne\<close>: a number is empty if it is -1.\<close>

datatype check_arg = Number int | String string

fun arg_is_empty :: "check_arg \<Rightarrow> bool" where
  "arg_is_empty (Number i) \<longleftrightarrow> i = -1"
| "arg_is_empty (String s) \<longleftrightarrow> s = []"

fun check_not_empty :: "check_arg list \<Rightarrow> nat" where
  "check_not_empty [] = 0"
| "check_not_empty (a # as) = (if arg_is_empty a then 0 else 1) + check_not_empty as"

definition check_one :: "string \<Rightarrow> check_arg list \<Rightarrow> unit result" where
  "check_one name as =
     (let n = check_not_empty as
      in if n = 0 then Inl (Runtime_error (''No '' @ name @ '' sources available''))
         else if n > 1 then Inl (Runtime_error (''Only one '' @ name @ '' source must be specified''))
         else Inr ())"

definition git_check_valid :: "string \<Rightarrow> 'a git_scheme \<Rightarrow> unit result" where
  "git_check_valid name s = check_one name [String (tag s), String (branch s), String (commit s)]"

definition hg_check_valid :: "hg \<Rightarrow> unit result" where
  "hg_check_valid s = check_one ''hg'' [String (tag s), String (branch s), String (commit s), Number (revision s)]"

definition bzr_check_valid :: "bzr \<Rightarrow> unit result" where
  "bzr_check_valid s = check_one ''bzr'' [String (bzr_tag s), Number (bzr_revision s)]"

definition cvs_check_valid :: "cvs \<Rightarrow> unit result" where
  "cvs_check_valid s =
     (if cvs_module s = [] then Inl (Runtime_error ''cvs: empty module'')
      else check_one ''cvs'' [String (cvs_tag s), String (cvs_branch s), String (cvs_revision s)])"

definition svn_check_valid :: "svn \<Rightarrow> unit result" where
  "svn_check_valid s = check_one ''svn'' [String (svn_tag s), String (svn_branch s), Number (svn_revision s)]"

text \<open>What the constructor of a source checks. The constructor of \<open>Git\<close> runs inside the one of \<open>Fossil\<close>.\<close>

fun check_valid :: "source \<Rightarrow> unit result" where
  "check_valid (Git s) = git_check_valid ''git'' s"
| "check_valid (Mercurial s) = hg_check_valid s"
| "check_valid (Bazaar s) = bzr_check_valid s"
| "check_valid (Fossil s) = git_check_valid ''git'' s"
| "check_valid (Cvs s) = cvs_check_valid s"
| "check_valid (Svn s) = svn_check_valid s"
| "check_valid s = Inr ()"

text \<open>The constructors from members.\<close>

definition checked :: "source \<Rightarrow> source result" where
  "checked s = bind_result (check_valid s) (\<lambda>_. Inr s)"

definition new_git :: "string \<Rightarrow> string \<Rightarrow> string \<Rightarrow> string \<Rightarrow> source result" where
  "new_git u t b c = checked (Git \<lparr>url = u, tag = t, branch = b, commit = c, try_v_tag_prefix = False\<rparr>)"

definition new_hg :: "string \<Rightarrow> string \<Rightarrow> string \<Rightarrow> string \<Rightarrow> int \<Rightarrow> source result" where
  "new_hg u t b c r =
     checked (Mercurial \<lparr>url = u, tag = t, branch = b, commit = c, try_v_tag_prefix = False, revision = r\<rparr>)"

definition new_bzr :: "string \<Rightarrow> string \<Rightarrow> int \<Rightarrow> source result" where
  "new_bzr u t r = checked (Bazaar \<lparr>url = u, bzr_tag = t, bzr_revision = r\<rparr>)"

definition new_cvs :: "string \<Rightarrow> string \<Rightarrow> string \<Rightarrow> string \<Rightarrow> string \<Rightarrow> source result" where
  "new_cvs u m t b r =
     checked (Cvs \<lparr>url = u, cvs_tag = t, cvs_branch = b, cvs_revision = r, cvs_module = m\<rparr>)"

definition new_svn :: "string \<Rightarrow> string \<Rightarrow> string \<Rightarrow> int \<Rightarrow> source result" where
  "new_svn u t b r = checked (Svn \<lparr>url = u, svn_tag = t, svn_branch = b, svn_revision = r\<rparr>)"

definition string_set :: "string list \<Rightarrow> string list" where
  "string_set us = sort (remdups us)"

definition new_remote_files :: "string list \<Rightarrow> source" where
  "new_remote_files us = RemoteFiles (string_set us)"

section \<open>Documents\<close>

text \<open>
  The operations of \<open>nlohmann::json\<close> and \<open>YAML::Node\<close> that the code uses: the empty
  node, the number of members, whether a node is an object and its first member, finding
  and setting a member, appending to a sequence, its items, and conversions.
\<close>

record 'n doc =
  new_doc :: 'n
  doc_size :: "'n \<Rightarrow> nat"
  doc_is_map :: "'n \<Rightarrow> bool"
  doc_first :: "'n \<Rightarrow> string \<times> 'n"
  doc_find :: "'n \<Rightarrow> string \<Rightarrow> 'n option"
  doc_set :: "string \<Rightarrow> 'n \<Rightarrow> 'n \<Rightarrow> 'n"
  doc_push :: "'n \<Rightarrow> 'n \<Rightarrow> 'n"
  doc_items :: "'n \<Rightarrow> 'n list option"
  doc_of_string :: "string \<Rightarrow> 'n"
  doc_to_string :: "'n \<Rightarrow> string result"
  doc_of_int :: "int \<Rightarrow> 'n"
  doc_to_int :: "'n \<Rightarrow> int result"

text \<open>What is documented of them, for nodes made by setting members of the empty node.\<close>

locale document =
  fixes D :: "'n doc"
  assumes find_new: "doc_find D (new_doc D) k = None"
    and find_set: "n = new_doc D \<or> doc_is_map D n \<Longrightarrow>
      doc_find D (doc_set D k v n) k' = (if k' = k then Some v else doc_find D n k')"
    and map_set: "n = new_doc D \<or> doc_is_map D n \<Longrightarrow> doc_is_map D (doc_set D k v n)"
    and size_set: "doc_size D (doc_set D k v (new_doc D)) = 1"
    and first_set: "doc_first D (doc_set D k v (new_doc D)) = (k, v)"
    and items_new: "doc_items D (new_doc D) = None"
    and items_map: "doc_is_map D n \<Longrightarrow> doc_items D n = None"
    and items_push: "doc_items D n = Some vs \<or> n = new_doc D \<and> vs = [] \<Longrightarrow> doc_items D (doc_push D n v) = Some (vs @ [v])"
    and of_string: "doc_to_string D (doc_of_string D s) = Inr s"
    and of_int: "doc_to_int D (doc_of_int D i) = Inr i"

subsection \<open>Reading\<close>

text \<open>\<open>JSON_GET_STRING\<close>, \<open>JSON_GET_INT\<close> and \<open>YAML_EXTRACT_AUTO\<close>: a member that is not there keeps its value.\<close>

definition get_string_member :: "'n doc \<Rightarrow> 'n \<Rightarrow> string \<Rightarrow> string \<Rightarrow> string result" where
  "get_string_member D n k x = (case doc_find D n k of None \<Rightarrow> Inr x | Some v \<Rightarrow> doc_to_string D v)"

definition get_int_member :: "'n doc \<Rightarrow> 'n \<Rightarrow> string \<Rightarrow> int \<Rightarrow> int result" where
  "get_int_member D n k x = (case doc_find D n k of None \<Rightarrow> Inr x | Some v \<Rightarrow> doc_to_int D v)"

definition load_source_url :: "'n doc \<Rightarrow> 'n \<Rightarrow> source_url result" where
  "load_source_url D n = bind_result (get_string_member D n ''url'' []) (\<lambda>u. Inr \<lparr>url = u\<rparr>)"

definition load_git :: "'n doc \<Rightarrow> 'n \<Rightarrow> git result" where
  "load_git D n =
     bind_result (load_source_url D n) (\<lambda>s.
     bind_result (get_string_member D n ''tag'' []) (\<lambda>t.
     bind_result (get_string_member D n ''branch'' []) (\<lambda>b.
     bind_result (get_string_member D n ''commit'' []) (\<lambda>c.
       Inr \<lparr>url = url s, tag = t, branch = b, commit = c, try_v_tag_prefix = False\<rparr>))))"

text \<open>The member \<open>revision\<close> of \<open>Hg\<close> has no initial value; the check reads it.\<close>

definition load_hg :: "'n doc \<Rightarrow> 'n \<Rightarrow> hg result" where
  "load_hg D n =
     bind_result (load_git D n) (\<lambda>g.
       case doc_find D n ''revision'' of
         None \<Rightarrow> Inl Undefined
       | Some v \<Rightarrow> bind_result (doc_to_int D v) (\<lambda>r. Inr (git.extend g \<lparr>revision = r\<rparr>)))"

definition load_bzr :: "'n doc \<Rightarrow> 'n \<Rightarrow> bzr result" where
  "load_bzr D n =
     bind_result (load_source_url D n) (\<lambda>s.
     bind_result (get_string_member D n ''tag'' []) (\<lambda>t.
     bind_result (get_int_member D n ''revision'' (- 1)) (\<lambda>r.
       Inr \<lparr>url = url s, bzr_tag = t, bzr_revision = r\<rparr>)))"

definition load_cvs :: "'n doc \<Rightarrow> 'n \<Rightarrow> cvs result" where
  "load_cvs D n =
     bind_result (load_source_url D n) (\<lambda>s.
     bind_result (get_string_member D n ''tag'' []) (\<lambda>t.
     bind_result (get_string_member D n ''branch'' []) (\<lambda>b.
     bind_result (get_string_member D n ''revision'' []) (\<lambda>r.
     bind_result (get_string_member D n ''module'' []) (\<lambda>m.
       Inr \<lparr>url = url s, cvs_tag = t, cvs_branch = b, cvs_revision = r, cvs_module = m\<rparr>)))))"

definition load_svn :: "'n doc \<Rightarrow> 'n \<Rightarrow> svn result" where
  "load_svn D n =
     bind_result (load_source_url D n) (\<lambda>s.
     bind_result (get_string_member D n ''tag'' []) (\<lambda>t.
     bind_result (get_string_member D n ''branch'' []) (\<lambda>b.
     bind_result (get_int_member D n ''revision'' (- 1)) (\<lambda>r.
       Inr \<lparr>url = url s, svn_tag = t, svn_branch = b, svn_revision = r\<rparr>))))"

text \<open>A JSON sequence of strings, from the member \<open>url\<close>; without the member the access is undefined.\<close>

definition load_files_json :: "'n doc \<Rightarrow> 'n \<Rightarrow> string list result" where
  "load_files_json D n =
     (case doc_find D n ''url'' of
        None \<Rightarrow> Inl Undefined
      | Some v \<Rightarrow>
          (case doc_items D v of
             None \<Rightarrow> Inl (Runtime_error ''type must be array'')
           | Some vs \<Rightarrow> bind_result (map_result (doc_to_string D) vs) (\<lambda>us. Inr (string_set us))))"

text \<open>\<open>get_sequence\<close> of a YAML node: a scalar, a sequence, or nothing.\<close>

definition load_files_yaml :: "'n doc \<Rightarrow> ('n \<Rightarrow> bool) \<Rightarrow> 'n \<Rightarrow> string list result" where
  "load_files_yaml D is_scalar n =
     (if is_scalar n then bind_result (doc_to_string D n) (\<lambda>u. Inr (string_set [u]))
      else case doc_items D n of
             None \<Rightarrow> Inr []
           | Some vs \<Rightarrow> bind_result (map_result (doc_to_string D) vs) (\<lambda>us. Inr (string_set us)))"

text \<open>The constructor that the type of the document selects; \<open>files\<close> is the one of \<open>RemoteFiles\<close>.\<close>

fun load_as :: "('n \<Rightarrow> string list result) \<Rightarrow> 'n doc \<Rightarrow> source_type \<Rightarrow> 'n \<Rightarrow> source result" where
  "load_as files D Type_empty n = Inr EmptySource"
| "load_as files D Type_git n = bind_result (load_git D n) (\<lambda>s. checked (Git s))"
| "load_as files D Type_hg n = bind_result (load_hg D n) (\<lambda>s. checked (Mercurial s))"
| "load_as files D Type_bzr n = bind_result (load_bzr D n) (\<lambda>s. checked (Bazaar s))"
| "load_as files D Type_fossil n = bind_result (load_git D n) (\<lambda>s. checked (Fossil s))"
| "load_as files D Type_cvs n = bind_result (load_cvs D n) (\<lambda>s. checked (Cvs s))"
| "load_as files D Type_svn n = bind_result (load_svn D n) (\<lambda>s. checked (Svn s))"
| "load_as files D Type_remote n = bind_result (load_source_url D n) (\<lambda>s. Inr (RemoteFile s))"
| "load_as files D Type_files n = bind_result (files n) (\<lambda>us. Inr (RemoteFiles us))"

definition load_json :: "'n doc \<Rightarrow> 'n \<Rightarrow> source result" where
  "load_json D j =
     (if doc_size D j \<noteq> 1 then Inl (Runtime_error ''Bad json source (0 or >1 objects)'')
      else if \<not> doc_is_map D j then Inl (Runtime_error ''Bad yaml source (not an object)'')
      else case doc_first D j of (k, v) \<Rightarrow>
        bind_result (type_from_string k) (\<lambda>t. load_as (load_files_json D) D t v))"

definition load_yaml :: "'n doc \<Rightarrow> ('n \<Rightarrow> bool) \<Rightarrow> 'n \<Rightarrow> source result" where
  "load_yaml D is_scalar root =
     (if doc_size D root \<noteq> 1 then Inl (Runtime_error ''Bad yaml source (0 or >1 objects)'')
      else if \<not> doc_is_map D root then Inl (Runtime_error ''Bad yaml source (not a map object)'')
      else case doc_first D root of (k, v) \<Rightarrow>
        bind_result (type_from_string k) (\<lambda>t. load_as (load_files_yaml D is_scalar) D t v))"

subsection \<open>Writing\<close>

definition add_not_empty :: "'n doc \<Rightarrow> string \<Rightarrow> string \<Rightarrow> 'n \<Rightarrow> 'n" where
  "add_not_empty D k x n = (if x \<noteq> [] then doc_set D k (doc_of_string D x) n else n)"

definition add_not_minus_one :: "'n doc \<Rightarrow> string \<Rightarrow> int \<Rightarrow> 'n \<Rightarrow> 'n" where
  "add_not_minus_one D k x n = (if x \<noteq> - 1 then doc_set D k (doc_of_int D x) n else n)"

definition save_url_json :: "'n doc \<Rightarrow> 'a source_url_scheme \<Rightarrow> 'n \<Rightarrow> 'n" where
  "save_url_json D s j = doc_set D ''url'' (doc_of_string D (url s)) j"

definition save_git_json :: "'n doc \<Rightarrow> 'a git_scheme \<Rightarrow> 'n \<Rightarrow> 'n" where
  "save_git_json D s j =
     add_not_empty D ''commit'' (commit s) (add_not_empty D ''branch'' (branch s) (add_not_empty D ''tag'' (tag s) (save_url_json D s j)))"

definition push_member :: "'n doc \<Rightarrow> string \<Rightarrow> string \<Rightarrow> 'n \<Rightarrow> 'n" where
  "push_member D k u j =
     doc_set D k (doc_push D (case doc_find D j k of None \<Rightarrow> new_doc D | Some n \<Rightarrow> n) (doc_of_string D u)) j"

definition json_hg :: "'n doc \<Rightarrow> hg \<Rightarrow> 'n \<Rightarrow> 'n" where
  [simp]: "json_hg D s j =
     add_not_minus_one D ''revision'' (revision s) (save_git_json D s j)"

definition json_bzr :: "'n doc \<Rightarrow> bzr \<Rightarrow> 'n \<Rightarrow> 'n" where
  [simp]: "json_bzr D s j =
     add_not_minus_one D ''revision'' (bzr_revision s) (add_not_empty D ''tag'' (bzr_tag s) (save_url_json D s j))"

definition json_cvs :: "'n doc \<Rightarrow> cvs \<Rightarrow> 'n \<Rightarrow> 'n" where
  [simp]: "json_cvs D s j =
     add_not_empty D ''module'' (cvs_module s) (add_not_empty D ''revision'' (cvs_revision s)
       (add_not_empty D ''branch'' (cvs_branch s) (add_not_empty D ''tag'' (cvs_tag s) (save_url_json D s j))))"

definition json_svn :: "'n doc \<Rightarrow> svn \<Rightarrow> 'n \<Rightarrow> 'n" where
  [simp]: "json_svn D s j =
     add_not_minus_one D ''revision'' (svn_revision s)
       (add_not_empty D ''branch'' (svn_branch s) (add_not_empty D ''tag'' (svn_tag s) (save_url_json D s j)))"

definition json_files :: "'n doc \<Rightarrow> string list \<Rightarrow> 'n \<Rightarrow> 'n" where
  [simp]: "json_files D us j =
     foldl (\<lambda>j u. push_member D ''url'' u j) j us"

fun save1_json :: "'n doc \<Rightarrow> source \<Rightarrow> 'n \<Rightarrow> 'n" where
  "save1_json D EmptySource j = j"
| "save1_json D (Git s) j = save_git_json D s j"
| "save1_json D (Mercurial s) j = json_hg D s j"
| "save1_json D (Bazaar s) j = json_bzr D s j"
| "save1_json D (Fossil s) j = save_git_json D s j"
| "save1_json D (Cvs s) j = json_cvs D s j"
| "save1_json D (Svn s) j = json_svn D s j"
| "save1_json D (RemoteFile s) j = save_url_json D s j"
| "save1_json D (RemoteFiles us) j = json_files D us j"

definition save_json :: "'n doc \<Rightarrow> source \<Rightarrow> 'n \<Rightarrow> 'n" where
  "save_json D s j =
     doc_set D (get_string s) (save1_json D s (case doc_find D j (get_string s) of None \<Rightarrow> new_doc D | Some n \<Rightarrow> n)) j"

text \<open>
  In YAML a member node that nothing was assigned to does not become part of its map; it
  is \<open>None\<close> here until the first assignment.
\<close>

definition yaml_set :: "'n doc \<Rightarrow> string \<Rightarrow> 'n \<Rightarrow> 'n option \<Rightarrow> 'n option" where
  "yaml_set D k v n = Some (doc_set D k v (case n of None \<Rightarrow> new_doc D | Some n \<Rightarrow> n))"

definition yaml_set_not_empty :: "'n doc \<Rightarrow> string \<Rightarrow> string \<Rightarrow> 'n option \<Rightarrow> 'n option" where
  "yaml_set_not_empty D k x n = (if x \<noteq> [] then yaml_set D k (doc_of_string D x) n else n)"

definition yaml_set_not_minus_one :: "'n doc \<Rightarrow> string \<Rightarrow> int \<Rightarrow> 'n option \<Rightarrow> 'n option" where
  "yaml_set_not_minus_one D k x n = (if x \<noteq> - 1 then yaml_set D k (doc_of_int D x) n else n)"

definition save_url_yaml :: "'n doc \<Rightarrow> 'a source_url_scheme \<Rightarrow> 'n option \<Rightarrow> 'n option" where
  "save_url_yaml D s n = yaml_set_not_empty D ''url'' (url s) n"

definition save_git_yaml :: "'n doc \<Rightarrow> 'a git_scheme \<Rightarrow> 'n option \<Rightarrow> 'n option" where
  "save_git_yaml D s n =
     yaml_set_not_empty D ''commit'' (commit s)
       (yaml_set_not_empty D ''branch'' (branch s) (yaml_set_not_empty D ''tag'' (tag s) (save_url_yaml D s n)))"

definition yaml_hg :: "'n doc \<Rightarrow> hg \<Rightarrow> 'n option \<Rightarrow> 'n option" where
  [simp]: "yaml_hg D s n =
     yaml_set_not_minus_one D ''revision'' (revision s) (save_git_yaml D s n)"

definition yaml_bzr :: "'n doc \<Rightarrow> bzr \<Rightarrow> 'n option \<Rightarrow> 'n option" where
  [simp]: "yaml_bzr D s n =
     yaml_set_not_minus_one D ''revision'' (bzr_revision s) (yaml_set_not_empty D ''tag'' (bzr_tag s) (save_url_yaml D s n))"

definition yaml_cvs :: "'n doc \<Rightarrow> cvs \<Rightarrow> 'n option \<Rightarrow> 'n option" where
  [simp]: "yaml_cvs D s n =
     yaml_set_not_empty D ''module'' (cvs_module s) (yaml_set_not_empty D ''revision'' (cvs_revision s)
       (yaml_set_not_empty D ''branch'' (cvs_branch s) (yaml_set_not_empty D ''tag'' (cvs_tag s) (save_url_yaml D s n))))"

definition yaml_svn :: "'n doc \<Rightarrow> svn \<Rightarrow> 'n option \<Rightarrow> 'n option" where
  [simp]: "yaml_svn D s n =
     yaml_set_not_minus_one D ''revision'' (svn_revision s)
       (yaml_set_not_empty D ''branch'' (svn_branch s) (yaml_set_not_empty D ''tag'' (svn_tag s) (save_url_yaml D s n)))"

definition yaml_files :: "'n doc \<Rightarrow> string list \<Rightarrow> 'n option \<Rightarrow> 'n option" where
  [simp]: "yaml_files D us n =
     foldl (\<lambda>n u. Some (push_member D ''files'' u (case n of None \<Rightarrow> new_doc D | Some n \<Rightarrow> n))) n us"

fun save1_yaml :: "'n doc \<Rightarrow> source \<Rightarrow> 'n option \<Rightarrow> 'n option" where
  "save1_yaml D EmptySource n = n"
| "save1_yaml D (Git s) n = save_git_yaml D s n"
| "save1_yaml D (Mercurial s) n = yaml_hg D s n"
| "save1_yaml D (Bazaar s) n = yaml_bzr D s n"
| "save1_yaml D (Fossil s) n = save_git_yaml D s n"
| "save1_yaml D (Cvs s) n = yaml_cvs D s n"
| "save1_yaml D (Svn s) n = yaml_svn D s n"
| "save1_yaml D (RemoteFile s) n = save_url_yaml D s n"
| "save1_yaml D (RemoteFiles us) n = yaml_files D us n"

definition save_yaml :: "'n doc \<Rightarrow> source \<Rightarrow> 'n \<Rightarrow> 'n" where
  "save_yaml D s root =
     (case save1_yaml D s (doc_find D root (get_string s)) of
        None \<Rightarrow> root
      | Some n \<Rightarrow> doc_set D (get_string s) n root)"

section \<open>Printing\<close>

text \<open>\<open>STRING_PRINT\<close> makes the name of the member a string literal twice, so that it is printed in quotes.\<close>

definition string_print :: "string \<Rightarrow> string \<Rightarrow> string" where
  "string_print k v = CHR 0x22 # k @ CHR 0x22 # '': '' @ v @ [NL]"

definition print_not_empty :: "string \<Rightarrow> string \<Rightarrow> string" where
  "print_not_empty k v = (if v \<noteq> [] then string_print k v else [])"

definition print_not_minus_one :: "string \<Rightarrow> int \<Rightarrow> string" where
  "print_not_minus_one k v = (if v \<noteq> - 1 then string_print k (to_string v) else [])"

definition print_git :: "'a git_scheme \<Rightarrow> string" where
  "print_git s = string_print ''url'' (url s) @
     (if tag s \<noteq> [] then string_print ''tag'' (tag s)
      else if branch s \<noteq> [] then string_print ''branch'' (branch s)
      else print_not_empty ''commit'' (commit s))"

definition print_hg :: "hg \<Rightarrow> string" where
  [simp]: "print_hg s =
     print_git s @ print_not_minus_one ''revision'' (revision s)"

definition print_bzr :: "bzr \<Rightarrow> string" where
  [simp]: "print_bzr s =
     string_print ''url'' (url s) @
     (if bzr_tag s \<noteq> [] then string_print ''tag'' (bzr_tag s) else print_not_minus_one ''revision'' (bzr_revision s))"

definition print_cvs :: "cvs \<Rightarrow> string" where
  [simp]: "print_cvs s =
     string_print ''url'' (url s) @
     (if cvs_tag s \<noteq> [] then string_print ''tag'' (cvs_tag s)
      else if cvs_branch s \<noteq> [] then string_print ''branch'' (cvs_branch s)
      else print_not_empty ''revision'' (cvs_revision s)) @
     print_not_empty ''module'' (cvs_module s)"

definition print_svn :: "svn \<Rightarrow> string" where
  [simp]: "print_svn s =
     string_print ''url'' (url s) @
     (if svn_tag s \<noteq> [] then string_print ''tag'' (svn_tag s)
      else if svn_branch s \<noteq> [] then string_print ''branch'' (svn_branch s)
      else print_not_minus_one ''revision'' (svn_revision s))"

definition print_files :: "string list \<Rightarrow> string" where
  [simp]: "print_files us =
     concat (map (\<lambda>u. ''url: '' @ u @ [NL]) us)"

fun print1 :: "source \<Rightarrow> string" where
  "print1 EmptySource = []"
| "print1 (Git s) = print_git s"
| "print1 (Mercurial s) = print_hg s"
| "print1 (Bazaar s) = print_bzr s"
| "print1 (Fossil s) = print_git s"
| "print1 (Cvs s) = print_cvs s"
| "print1 (Svn s) = print_svn s"
| "print1 (RemoteFile s) = string_print ''url'' (url s)"
| "print1 (RemoteFiles us) = print_files us"

definition print_source :: "source \<Rightarrow> string" where
  "print_source s = get_string s @ '':'' @ [NL] @ print1 s"

definition shorten_hash :: "string \<Rightarrow> nat \<Rightarrow> string" where
  "shorten_hash d n = (if length d \<le> n then d else take n d)"

text \<open>\<open>blake2b_512\<close> of the cryptographic library is an argument.\<close>

definition source_hash :: "(string \<Rightarrow> string) \<Rightarrow> source \<Rightarrow> string" where
  "source_hash blake2b_512 s = shorten_hash (blake2b_512 (print_source s)) 12"

section \<open>Keys and values\<close>

definition kv_add :: "string \<Rightarrow> string \<Rightarrow> (string \<times> string) list \<Rightarrow> (string \<times> string) list" where
  "kv_add k v m = (if v \<noteq> [] then m @ [(k, v)] else m)"

definition kv_add_number :: "string \<Rightarrow> int \<Rightarrow> (string \<times> string) list \<Rightarrow> (string \<times> string) list" where
  "kv_add_number k v m = (if v \<noteq> - 1 then m @ [(k, to_string v)] else m)"

definition kv_url :: "'a source_url_scheme \<Rightarrow> string \<Rightarrow> (string \<times> string) list \<Rightarrow> (string \<times> string) list" where
  [simp]: "kv_url s name m = kv_add ''Url'' (url s) (kv_add ''Source'' name m)"

definition kv_git :: "'a git_scheme \<Rightarrow> string \<Rightarrow> (string \<times> string) list \<Rightarrow> (string \<times> string) list" where
  "kv_git s name m = kv_add ''Commit'' (commit s) (kv_add ''Branch'' (branch s) (kv_add ''Tag'' (tag s) (kv_url s name m)))"

definition kv_hg :: "hg \<Rightarrow> (string \<times> string) list \<Rightarrow> (string \<times> string) list" where
  [simp]: "kv_hg s m =
     kv_add_number ''Revision'' (revision s) (kv_git s ''hg'' m)"

definition kv_bzr :: "bzr \<Rightarrow> (string \<times> string) list \<Rightarrow> (string \<times> string) list" where
  [simp]: "kv_bzr s m =
     kv_add_number ''Revision'' (bzr_revision s) (kv_add ''Tag'' (bzr_tag s)
     (kv_url s ''bzr'' m))"

definition kv_cvs :: "cvs \<Rightarrow> (string \<times> string) list \<Rightarrow> (string \<times> string) list" where
  [simp]: "kv_cvs s m =
     kv_add ''Module'' (cvs_module s) (kv_add ''Revision'' (cvs_revision s) (kv_add ''Branch'' (cvs_branch s)
     (kv_add ''Tag'' (cvs_tag s) (kv_url s ''cvs'' m))))"

definition kv_svn :: "svn \<Rightarrow> (string \<times> string) list \<Rightarrow> (string \<times> string) list" where
  [simp]: "kv_svn s m =
     kv_add_number ''Revision'' (svn_revision s) (kv_add ''Branch'' (svn_branch s)
     (kv_add ''Tag'' (svn_tag s) (kv_url s ''svn'' m)))"

definition kv_files :: "string list \<Rightarrow> (string \<times> string) list \<Rightarrow> (string \<times> string) list" where
  [simp]: "kv_files us m =
     foldl (\<lambda>m u. kv_add ''Url'' u m) (kv_add ''Source'' ''files'' m) us"

fun save1_kv :: "source \<Rightarrow> (string \<times> string) list \<Rightarrow> (string \<times> string) list" where
  "save1_kv EmptySource m = kv_add ''Source'' ''empty'' m"
| "save1_kv (Git s) m = kv_git s ''git'' m"
| "save1_kv (Mercurial s) m = kv_hg s m"
| "save1_kv (Bazaar s) m = kv_bzr s m"
| "save1_kv (Fossil s) m = kv_git s ''fossil'' m"
| "save1_kv (Cvs s) m = kv_cvs s m"
| "save1_kv (Svn s) m = kv_svn s m"
| "save1_kv (RemoteFile s) m = kv_url s ''remote'' m"
| "save1_kv (RemoteFiles us) m = kv_files us m"

definition print_kv :: "source \<Rightarrow> (string \<times> string) list" where
  "print_kv s = save1_kv s []"

section \<open>Formatting\<close>

definition apply_git :: "(string \<Rightarrow> string) \<Rightarrow> 'a git_scheme \<Rightarrow> 'a git_scheme" where
  "apply_git f s = s\<lparr>url := f (url s), tag := f (tag s), branch := f (branch s)\<rparr>"

definition apply_bzr :: "(string \<Rightarrow> string) \<Rightarrow> bzr \<Rightarrow> source" where
  [simp]: "apply_bzr f s =
     Bazaar (s\<lparr>url := f (url s), bzr_tag := f (bzr_tag s)\<rparr>)"

definition apply_cvs :: "(string \<Rightarrow> string) \<Rightarrow> cvs \<Rightarrow> source" where
  [simp]: "apply_cvs f s =
     Cvs (s\<lparr>url := f (url s), cvs_tag := f (cvs_tag s), cvs_branch := f (cvs_branch s), cvs_revision := f (cvs_revision s)\<rparr>)"

definition apply_svn :: "(string \<Rightarrow> string) \<Rightarrow> svn \<Rightarrow> source" where
  [simp]: "apply_svn f s =
     Svn (s\<lparr>url := f (url s), svn_tag := f (svn_tag s), svn_branch := f (svn_branch s)\<rparr>)"

definition apply_files :: "(string \<Rightarrow> string) \<Rightarrow> string list \<Rightarrow> source" where
  [simp]: "apply_files f us =
     RemoteFiles (string_set (map f us))"

fun apply_source :: "(string \<Rightarrow> string) \<Rightarrow> source \<Rightarrow> source" where
  "apply_source f EmptySource = EmptySource"
| "apply_source f (Git s) = Git (apply_git f s)"
| "apply_source f (Mercurial s) = Mercurial (apply_git f s)"
| "apply_source f (Bazaar s) = apply_bzr f s"
| "apply_source f (Fossil s) = Fossil (apply_git f s)"
| "apply_source f (Cvs s) = apply_cvs f s"
| "apply_source f (Svn s) = apply_svn f s"
| "apply_source f (RemoteFile s) = RemoteFile (s\<lparr>url := f (url s)\<rparr>)"
| "apply_source f (RemoteFiles us) = apply_files f us"

section \<open>Downloading\<close>

text \<open>The file system, the network, the unpacker and the programs; \<open>remove_quiet\<close> ignores its error.\<close>

record 'w env =
  create_directories :: "string \<Rightarrow> ('w, unit) io"
  download_file :: "string \<Rightarrow> string \<Rightarrow> int \<Rightarrow> ('w, unit) io"
  unpack_file :: "string \<Rightarrow> string \<Rightarrow> ('w, unit) io"
  remove_file :: "string \<Rightarrow> ('w, unit) io"
  remove_quiet :: "string \<Rightarrow> 'w \<Rightarrow> 'w"
  file_exists :: "string \<Rightarrow> 'w \<Rightarrow> bool"
  execute :: "string \<Rightarrow> string list \<Rightarrow> ('w, unit) io"
  path_join :: "string \<Rightarrow> string \<Rightarrow> string"
  file_name :: "string \<Rightarrow> string"
  is_absolute :: "string \<Rightarrow> bool"

definition download_file_checked :: "'w env \<Rightarrow> string \<Rightarrow> string \<Rightarrow> int \<Rightarrow> ('w, unit) io" where
  "download_file_checked E u fn max_size =
     io_bind (lift_result (check_source_url u)) (\<lambda>_. download_file E u fn max_size)"

definition download_and_unpack :: "'w env \<Rightarrow> string \<Rightarrow> string \<Rightarrow> string \<Rightarrow> int \<Rightarrow> ('w, unit) io" where
  "download_and_unpack E u fn unpack_dir max_size =
     (let fn = (if is_absolute E fn then fn else path_join E unpack_dir fn)
      in io_bind (download_file_checked E u fn max_size) (\<lambda>_ w.
           case unpack_file E fn unpack_dir w of (r, w) \<Rightarrow> (r, remove_quiet E fn w)))"

text \<open>\<open>downloadRepository\<close>: \<open>n\<close> tries are left; \<open>eptr\<close> is the first exception.\<close>

fun download_tries :: "nat \<Rightarrow> cpp_error option \<Rightarrow> ('w, unit) io \<Rightarrow> ('w, unit) io" where
  "download_tries 0 eptr f w = (Inr (), w)"
| "download_tries (Suc n) eptr f w =
     (case f w of
        (Inr _, w) \<Rightarrow> (Inr (), w)
      | (Inl e, w) \<Rightarrow>
          if \<not> is_exception e then (Inl e, w)
          else
            let eptr = (case eptr of None \<Rightarrow> e | Some e0 \<Rightarrow> e0)
            in if n = 0 then (Inl eptr, w) else download_tries n (Some eptr) f w)"

definition download_repository :: "('w, unit) io \<Rightarrow> ('w, unit) io" where
  "download_repository f = download_tries 3 None f"

text \<open>\<open>Git::download2\<close>: an archive from GitHub first, the git program if that fails.\<close>

definition github_archive :: "'a git_scheme \<Rightarrow> string \<Rightarrow> string \<times> string" where
  "github_archive s tg =
     (let u = (if suffix ''.git'' (url s) then take (length (url s) - 4) (url s) else url s) @ ''/archive/''
      in if tg \<noteq> [] then (u @ tg @ ''.tar.gz'', ''1.tar.gz'')
         else if branch s \<noteq> [] then (u @ branch s @ ''.zip'', ''1.zip'')
         else if commit s \<noteq> [] then (u @ commit s @ ''.zip'', ''1.zip'')
         else (u, []))"

definition git_commands :: "'a git_scheme \<Rightarrow> string \<Rightarrow> string list list" where
  "git_commands s tg =
     [[''git'', ''init''], [''git'', ''remote'', ''add'', ''origin'', url s]] @
     (if tg \<noteq> [] then
        [[''git'', ''fetch'', ''--depth'', ''1'', ''origin'', ''refs/tags/'' @ tg], [''git'', ''reset'', ''--hard'', ''FETCH_HEAD'']]
      else if branch s \<noteq> [] then
        [[''git'', ''fetch'', ''--depth'', ''1'', ''origin'', branch s], [''git'', ''reset'', ''--hard'', ''FETCH_HEAD'']]
      else if commit s \<noteq> [] then
        [[''git'', ''fetch''], [''git'', ''checkout'', commit s]]
      else [])"

definition git_download2 :: "'w env \<Rightarrow> 'a git_scheme \<Rightarrow> string \<Rightarrow> string \<Rightarrow> ('w, unit) io" where
  "git_download2 E s dir tg =
     (let program = download_repository (io_seq (map (execute E dir) (git_commands s tg)))
      in if str_find ''github.com'' (url s) = None then program
         else
           case github_archive s tg of (u, name) \<Rightarrow>
             let fn = (if name = [] then [] else path_join E dir name)
             in (\<lambda>w. case download_and_unpack E u fn dir 0 w of
                  (Inr _, w) \<Rightarrow> (Inr (), w)
                | (Inl e, w) \<Rightarrow>
                    if \<not> is_exception e then (Inl e, w)
                    else if file_exists E fn w then io_bind (remove_file E fn) (\<lambda>_. program) w
                    else program w))"

definition git_download1 :: "'w env \<Rightarrow> 'a git_scheme \<Rightarrow> string \<Rightarrow> ('w, unit) io" where
  "git_download1 E s dir =
     io_catch (git_download2 E s dir (tag s)) (\<lambda>e.
       if \<not> try_v_tag_prefix s then io_throw e
       else if tag s = [] then io_throw (Runtime_error ''empty tag, but try_v_tag_prefix is specified'')
       else git_download2 E s dir (''v'' @ tag s))"

definition hg_commands :: "hg \<Rightarrow> string list list" where
  "hg_commands s =
     [''hg'', ''clone'', url s] #
     (if tag s \<noteq> [] then [[''hg'', ''update'', tag s]]
      else if branch s \<noteq> [] then [[''hg'', ''update'', branch s]]
      else if commit s \<noteq> [] then [[''hg'', ''update'', commit s]]
      else if revision s \<noteq> - 1 then [[''hg'', ''update'', to_string (revision s)]]
      else [])"

definition bzr_commands :: "bzr \<Rightarrow> string list list" where
  "bzr_commands s =
     [''bzr'', ''branch'', url s] #
     (if bzr_tag s \<noteq> [] then [[''bzr'', ''update'', ''-r'', ''tag:'' @ bzr_tag s]]
      else if bzr_revision s \<noteq> - 1 then [[''bzr'', ''update'', ''-r'', to_string (bzr_revision s)]]
      else [])"

definition fossil_commands :: "git \<Rightarrow> string list list" where
  "fossil_commands s =
     [[''fossil'', ''clone'', url s, ''temp.fossil''], [''fossil'', ''open'', ''temp.fossil'']] @
     (if tag s \<noteq> [] then [[''fossil'', ''update'', tag s]]
      else if branch s \<noteq> [] then [[''fossil'', ''update'', branch s]]
      else if commit s \<noteq> [] then [[''fossil'', ''update'', commit s]]
      else [])"

definition cvs_commands :: "cvs \<Rightarrow> string list list" where
  "cvs_commands s =
     [''cvs'', url s, ''co'', cvs_module s] #
     (if cvs_tag s \<noteq> [] then [[''cvs'', ''update'', ''-r'', cvs_tag s]]
      else if cvs_branch s \<noteq> [] then [[''cvs'', ''update'', ''-r'', cvs_branch s]]
      else if cvs_revision s \<noteq> [] then [[''cvs'', ''update'', ''-r'', cvs_revision s]]
      else [])"

definition svn_commands :: "svn \<Rightarrow> string list list" where
  "svn_commands s =
     [if svn_tag s \<noteq> [] then [''svn'', ''checkout'', url s @ ''/tags/'' @ svn_tag s]
      else if svn_branch s \<noteq> [] then [''svn'', ''checkout'', url s @ ''/branches/'' @ svn_branch s]
      else if svn_revision s \<noteq> - 1 then [''svn'', ''checkout'', ''-r'', to_string (svn_revision s), url s]
      else [''svn'', ''checkout'', url s @ ''/trunk'']]"

definition run_commands :: "'w env \<Rightarrow> string \<Rightarrow> string list list \<Rightarrow> ('w, unit) io" where
  "run_commands E dir cs = download_repository (io_seq (map (execute E dir) cs))"

fun download1 :: "'w env \<Rightarrow> source \<Rightarrow> string \<Rightarrow> ('w, unit) io" where
  "download1 E EmptySource dir = io_return ()"
| "download1 E (Git s) dir = git_download1 E s dir"
| "download1 E (Mercurial s) dir = run_commands E dir (hg_commands s)"
| "download1 E (Bazaar s) dir = run_commands E dir (bzr_commands s)"
| "download1 E (Fossil s) dir = run_commands E dir (fossil_commands s)"
| "download1 E (Cvs s) dir = run_commands E dir (cvs_commands s)"
| "download1 E (Svn s) dir = run_commands E dir (svn_commands s)"
| "download1 E (RemoteFile s) dir = download_and_unpack E (url s) (path_join E dir (file_name E (url s))) dir 0"
| "download1 E (RemoteFiles us) dir =
     io_seq (map (\<lambda>u. download_file_checked E u (path_join E dir (file_name E u)) 0) us)"

text \<open>The regular expression \<open>-d:([a-z0-9_-]+):([a-z0-9_-]+)@(\S*):(\S*)\<close> of the URLs of \<open>Cvs\<close>.\<close>

definition cvs_word_char :: "char \<Rightarrow> bool" where
  "cvs_word_char c \<longleftrightarrow> (97 \<le> (of_char c :: nat) \<and> (of_char c :: nat) \<le> 122) \<or> is_digit c \<or> c = CHR ''_'' \<or> c = CHR ''-''"

definition match_cvs_word :: "char \<Rightarrow> string \<Rightarrow> string option" where
  "match_cvs_word stop s =
     (let w = takeWhile cvs_word_char s; r = drop (length w) s
      in if w = [] \<or> r = [] \<or> hd r \<noteq> stop then None else Some (tl r))"

definition valid_cvs_url :: "string \<Rightarrow> bool" where
  "valid_cvs_url u \<longleftrightarrow> prefix ''-d:'' u \<and>
     (case match_cvs_word (CHR '':'') (drop 3 u) of
        None \<Rightarrow> False
      | Some r \<Rightarrow>
          (case match_cvs_word (CHR ''@'') r of
             None \<Rightarrow> False
           | Some r \<Rightarrow> list_all (\<lambda>c. \<not> is_space c) r \<and> CHR '':'' \<in> set r))"

definition cvs_check_url :: "cvs \<Rightarrow> unit result" where
  [simp]: "cvs_check_url s = (if valid_cvs_url (url s) then Inr () else Inl (Runtime_error (''Invalid cvs url: '' @ url s)))"

fun check_all :: "string list \<Rightarrow> unit result" where
  "check_all [] = Inr ()"
| "check_all (u # us) = bind_result (check_source_url u) (\<lambda>_. check_all us)"

fun check_url :: "source \<Rightarrow> unit result" where
  "check_url EmptySource = Inr ()"
| "check_url (Git s) = check_source_url (url s)"
| "check_url (Mercurial s) = check_source_url (url s)"
| "check_url (Bazaar s) = check_source_url (url s)"
| "check_url (Fossil s) = check_source_url (url s)"
| "check_url (Cvs s) = cvs_check_url s"
| "check_url (Svn s) = check_source_url (url s)"
| "check_url (RemoteFile s) = check_source_url (url s)"
| "check_url (RemoteFiles us) = check_all us"

definition download :: "'w env \<Rightarrow> source \<Rightarrow> string \<Rightarrow> ('w, unit) io" where
  "download E s dir =
     io_bind (lift_result (check_url s)) (\<lambda>_.
     io_bind (create_directories E dir) (\<lambda>_. download1 E s dir))"

section \<open>Documents hold the sources\<close>

lemma type_roundtrip: "type_from_string (type_to_string t) = Inr t"
  by (cases t) (simp_all add: type_from_string_def)

text \<open>
  What survives: the way of downloading is not stored; a revision of \<open>Mercurial\<close> must be
  there, a set of files must not be empty.
\<close>

fun forget :: "source \<Rightarrow> source" where
  "forget (Git s) = Git (s\<lparr>try_v_tag_prefix := False\<rparr>)"
| "forget (Mercurial s) = Mercurial (s\<lparr>try_v_tag_prefix := False\<rparr>)"
| "forget (Fossil s) = Fossil (s\<lparr>try_v_tag_prefix := False\<rparr>)"
| "forget s = s"

fun loadable :: "source \<Rightarrow> bool" where
  "loadable (Mercurial s) \<longleftrightarrow> revision s \<noteq> - 1"
| "loadable (RemoteFiles us) \<longleftrightarrow> us \<noteq> [] \<and> string_set us = us"
| "loadable s \<longleftrightarrow> True"

context document
begin

definition node :: "'n \<Rightarrow> bool" where
  "node n \<longleftrightarrow> n = new_doc D \<or> doc_is_map D n"

lemma node_new: "node (new_doc D)"
  by (simp add: node_def)

lemma node_set: "node n \<Longrightarrow> node (doc_set D k v n)"
  by (simp add: node_def map_set)

lemma node_find: "node n \<Longrightarrow> doc_find D (doc_set D k v n) k' = (if k' = k then Some v else doc_find D n k')"
  by (simp add: node_def find_set)

lemma node_not_empty: "node n \<Longrightarrow> node (add_not_empty D k x n)"
  by (simp add: add_not_empty_def node_set)

lemma node_not_minus_one: "node n \<Longrightarrow> node (add_not_minus_one D k i n)"
  by (simp add: add_not_minus_one_def node_set)

lemma get_not_empty:
  "node n \<Longrightarrow> get_string_member D (add_not_empty D k x n) k' y =
     (if k' = k \<and> x \<noteq> [] then Inr x else get_string_member D n k' y)"
  by (simp add: add_not_empty_def get_string_member_def node_find of_string)

lemma get_not_minus_one:
  "node n \<Longrightarrow> k' \<noteq> k \<Longrightarrow> get_string_member D (add_not_minus_one D k i n) k' y = get_string_member D n k' y"
  by (simp add: add_not_minus_one_def get_string_member_def node_find)

lemma get_int_not_minus_one:
  "node n \<Longrightarrow> get_int_member D (add_not_minus_one D k i n) k (- 1) = (if i = - 1 then get_int_member D n k (- 1) else Inr i)"
  by (simp add: add_not_minus_one_def get_int_member_def node_find of_int)

lemma get_int_not_empty:
  "node n \<Longrightarrow> k' \<noteq> k \<Longrightarrow> get_int_member D (add_not_empty D k x n) k' i = get_int_member D n k' i"
  by (simp add: add_not_empty_def get_int_member_def node_find)

lemma find_not_minus_one:
  "node n \<Longrightarrow> i \<noteq> - 1 \<Longrightarrow> doc_find D (add_not_minus_one D k i n) k = Some (doc_of_int D i)"
  by (simp add: add_not_minus_one_def node_find)

lemma save_url:
  "node (save_url_json D s (new_doc D))"
  "get_string_member D (save_url_json D s (new_doc D)) k [] = Inr (if k = ''url'' then url s else [])"
  "get_int_member D (save_url_json D s (new_doc D)) k (- 1) = (if k = ''url'' then doc_to_int D (doc_of_string D (url s)) else Inr (- 1))"
  by (simp_all add: save_url_json_def node_set node_new get_string_member_def get_int_member_def node_find of_string find_new)

lemmas member_simps = node_not_empty node_not_minus_one get_not_empty get_not_minus_one get_int_not_minus_one
  get_int_not_empty find_not_minus_one save_url of_int

lemma load_save_git:
  "load_git D (save_git_json D s (new_doc D)) = Inr (git.truncate s\<lparr>try_v_tag_prefix := False\<rparr>)"
  by (auto simp: load_git_def load_source_url_def save_git_json_def member_simps git.defs)

lemma load_save_hg:
  "revision s \<noteq> - 1 \<Longrightarrow>
     load_hg D (add_not_minus_one D ''revision'' (revision s) (save_git_json D s (new_doc D))) = Inr (s\<lparr>try_v_tag_prefix := False\<rparr>)"
  by (auto simp: load_hg_def load_git_def load_source_url_def save_git_json_def member_simps git.defs)

lemma items_pushes:
  assumes "node j" and "doc_find D j k = None \<and> vs = [] \<or> (\<exists>n. doc_find D j k = Some n \<and> doc_items D n = Some vs)"
  shows "us = [] \<and> vs = [] \<or> (\<exists>n. doc_find D (foldl (\<lambda>j u. push_member D k u j) j us) k = Some n
     \<and> doc_items D n = Some (vs @ map (doc_of_string D) us))"
  using assms
proof (induction us arbitrary: j vs)
  case (Cons u us)
  let ?j = "push_member D k u j"
  have "node ?j"
    using Cons.prems by (simp add: push_member_def node_set)
  moreover have "\<exists>n. doc_find D ?j k = Some n \<and> doc_items D n = Some (vs @ [doc_of_string D u])"
    using Cons.prems by (auto simp: push_member_def node_find items_push [where vs = "[]", simplified] items_push)
  ultimately show ?case
    using Cons.IH [of ?j "vs @ [doc_of_string D u]"] by auto
qed auto

lemma load_save_files:
  assumes "us \<noteq> []"
  shows "load_files_json D (foldl (\<lambda>j u. push_member D ''url'' u j) (new_doc D) us) = Inr (string_set us)"
proof -
  have "map_result (doc_to_string D) (map (doc_of_string D) us) = Inr us"
    by (induction us) (simp_all add: of_string)
  with assms items_pushes [of "new_doc D" "''url''" "[]" us] show ?thesis
    by (auto simp: load_files_json_def node_new find_new)
qed

lemma load_save:
  assumes "check_valid s = Inr ()" and "loadable s"
  shows "load_json D (save_json D s (new_doc D)) = Inr (forget s)"
proof -
  have "load_as (load_files_json D) D (get_type s) (save1_json D s (new_doc D)) = Inr (forget s)"
  proof (cases s)
    case (Git g)
    with assms show ?thesis
      by (simp add: load_save_git checked_def git_check_valid_def git.defs)
  next
    case (Fossil g)
    with assms show ?thesis
      by (simp add: load_save_git checked_def git_check_valid_def git.defs)
  next
    case (Mercurial h)
    with assms show ?thesis
      by (simp add: load_save_hg checked_def hg_check_valid_def)
  next
    case (Bazaar b)
    with assms show ?thesis
      by (auto simp: load_bzr_def load_source_url_def member_simps checked_def bzr_check_valid_def)
  next
    case (Cvs c)
    with assms show ?thesis
      by (auto simp: load_cvs_def load_source_url_def member_simps checked_def cvs_check_valid_def)
  next
    case (Svn v)
    with assms show ?thesis
      by (auto simp: load_svn_def load_source_url_def member_simps checked_def svn_check_valid_def)
  qed (use assms in \<open>auto simp: load_source_url_def member_simps load_save_files\<close>)
  then show ?thesis
    by (simp add: load_json_def save_json_def find_new size_set first_set map_set get_string_def type_roundtrip)
qed

text \<open>What the code loses: \<open>Hg\<close> without a revision, and files in YAML.\<close>

lemma hg_without_revision:
  "revision s = - 1 \<Longrightarrow> load_json D (save_json D (Mercurial s) (new_doc D)) = Inl Undefined"
proof -
  assume "revision s = - 1"
  moreover have "load_hg D (save_git_json D s (new_doc D)) = Inl Undefined"
  proof -
    have "doc_find D (save_git_json D s (new_doc D)) ''revision'' = None"
      by (simp add: save_git_json_def add_not_empty_def node_find node_set node_new find_new save_url_json_def)
    then show ?thesis
      by (simp add: load_hg_def load_save_git)
  qed
  ultimately show ?thesis
    by (simp add: load_json_def save_json_def find_new size_set first_set map_set get_string_def type_from_string_def
        add_not_minus_one_def)
qed

lemma files_in_yaml:
  assumes "us \<noteq> []" and "\<And>n. doc_is_map D n \<Longrightarrow> \<not> is_scalar n"
  shows "load_yaml D is_scalar (save_yaml D (RemoteFiles us) (new_doc D)) = Inr (RemoteFiles [])"
proof -
  have "\<exists>n. foldl (\<lambda>n u. Some (push_member D ''files'' u (case n of None \<Rightarrow> new_doc D | Some n \<Rightarrow> n))) m us = Some n \<and> doc_is_map D n"
    if "us \<noteq> []" "m = None \<or> (\<exists>n. m = Some n \<and> doc_is_map D n)" for us m
    using that
  proof (induction us arbitrary: m)
    case (Cons u us)
    let ?m = "push_member D ''files'' u (case m of None \<Rightarrow> new_doc D | Some n \<Rightarrow> n)"
    have "doc_is_map D ?m"
      using Cons.prems(2) by (auto simp: push_member_def map_set)
    then show ?case
      using Cons.IH [of "Some ?m"] by (cases us) auto
  qed simp
  from this [of us None] assms show ?thesis
    by (auto simp: load_yaml_def save_yaml_def find_new size_set first_set map_set get_string_def type_from_string_def
        load_files_yaml_def items_map)
qed

end

subsection \<open>Trees\<close>

text \<open>A document: trees of strings, numbers, sequences and maps, as JSON values are.\<close>

datatype tree = Null | Text string | Numeral int | Sequence "tree list" | Members "(string \<times> tree) list"

fun tree_members :: "tree \<Rightarrow> (string \<times> tree) list" where
  "tree_members (Members ms) = ms"
| "tree_members t = []"

fun tree_items :: "tree \<Rightarrow> tree list option" where
  "tree_items (Sequence ts) = Some ts"
| "tree_items t = None"

definition tree_doc :: "tree doc" where
  "tree_doc =
     \<lparr>new_doc = Null,
      doc_size = (\<lambda>t. length (tree_members t)),
      doc_is_map = (\<lambda>t. case t of Members ms \<Rightarrow> True | _ \<Rightarrow> False),
      doc_first = (\<lambda>t. hd (tree_members t)),
      doc_find = (\<lambda>t k. map_of (tree_members t) k),
      doc_set = (\<lambda>k v t. Members (AList.update k v (tree_members t))),
      doc_push = (\<lambda>t v. Sequence (case tree_items t of None \<Rightarrow> [v] | Some ts \<Rightarrow> ts @ [v])),
      doc_items = tree_items,
      doc_of_string = Text,
      doc_to_string = (\<lambda>t. case t of Text s \<Rightarrow> Inr s | _ \<Rightarrow> Inl (Runtime_error ''type must be string'')),
      doc_of_int = Numeral,
      doc_to_int = (\<lambda>t. case t of Numeral i \<Rightarrow> Inr i | _ \<Rightarrow> Inl (Runtime_error ''type must be number''))\<rparr>"

interpretation tree: document tree_doc
  by unfold_locales (auto simp: tree_doc_def update_conv split: tree.splits)

text \<open>
  C10: A valid source written to a JSON document and read back is the same source, for every
  document library with the laws of \<open>document\<close>, except for the two cases below and for
  the way of downloading tags, which is not stored.
\<close>

theorem source_json_roundtrip:
  assumes "document D" and "check_valid s = Inr ()" and "loadable s"
  shows "load_json D (save_json D s (new_doc D)) = Inr (forget s)"
  using document.load_save [OF assms] .

lemma source_json_roundtrip_witness:
  "load_json tree_doc (save_json tree_doc (RemoteFile \<lparr>url = ''http://a/b''\<rparr>) Null) = Inr (RemoteFile \<lparr>url = ''http://a/b''\<rparr>)"
  using source_json_roundtrip [OF tree.document_axioms, of "RemoteFile \<lparr>url = ''http://a/b''\<rparr>"]
  by (simp add: tree_doc_def)

text \<open>
  What documents do not keep. A Mercurial source without a revision is written without
  one, and reading it evaluates the member \<open>revision\<close> that nothing has set. A set of files
  is written to YAML one level deeper than it is read from, and comes back empty.
\<close>

theorem source_documents_lossy:
  assumes "document D"
  shows "(revision h = - 1 \<longrightarrow> load_json D (save_json D (Mercurial h) (new_doc D)) = Inl Undefined)
    \<and> (us \<noteq> [] \<longrightarrow> load_yaml D (\<lambda>n. \<not> doc_is_map D n \<and> doc_items D n = None) (save_yaml D (RemoteFiles us) (new_doc D))
         = Inr (RemoteFiles []))"
  using document.hg_without_revision [OF assms, of h]
    document.files_in_yaml [OF assms, of us "\<lambda>n. \<not> doc_is_map D n \<and> doc_items D n = None"]
  by simp

lemma source_documents_lossy_witness:
  "load_json tree_doc (save_json tree_doc
     (Mercurial \<lparr>url = ''http://a'', tag = ''1'', branch = [], commit = [], try_v_tag_prefix = False, revision = - 1\<rparr>) Null) = Inl Undefined
   \<and> load_yaml tree_doc (\<lambda>n. \<not> doc_is_map tree_doc n \<and> doc_items tree_doc n = None)
        (save_yaml tree_doc (RemoteFiles [''http://a'']) Null) = Inr (RemoteFiles [])"
proof -
  have "new_doc tree_doc = Null"
    by (simp add: tree_doc_def)
  then show ?thesis
    using source_documents_lossy [OF tree.document_axioms, of
        "\<lparr>url = ''http://a'', tag = ''1'', branch = [], commit = [], try_v_tag_prefix = False, revision = - 1\<rparr>" "[''http://a'']"]
    by (simp only: hg.simps simp_thms list.distinct)
qed

section \<open>Printing tells sources apart\<close>

definition quoted :: "string \<Rightarrow> string \<Rightarrow> string" where
  "quoted k v = CHR 0x22 # k @ CHR 0x22 # '': '' @ v"

definition git_lines :: "'a git_scheme \<Rightarrow> string list" where
  "git_lines s = quoted ''url'' (url s) #
     (if tag s \<noteq> [] then [quoted ''tag'' (tag s)]
      else if branch s \<noteq> [] then [quoted ''branch'' (branch s)]
      else if commit s \<noteq> [] then [quoted ''commit'' (commit s)] else [])"

fun print_lines :: "source \<Rightarrow> string list" where
  "print_lines EmptySource = []"
| "print_lines (Git s) = git_lines s"
| "print_lines (Mercurial s) = git_lines s @ (if revision s \<noteq> - 1 then [quoted ''revision'' (to_string (revision s))] else [])"
| "print_lines (Bazaar s) = quoted ''url'' (url s) #
     (if bzr_tag s \<noteq> [] then [quoted ''tag'' (bzr_tag s)]
      else if bzr_revision s \<noteq> - 1 then [quoted ''revision'' (to_string (bzr_revision s))] else [])"
| "print_lines (Fossil s) = git_lines s"
| "print_lines (Cvs s) = quoted ''url'' (url s) #
     (if cvs_tag s \<noteq> [] then [quoted ''tag'' (cvs_tag s)]
      else if cvs_branch s \<noteq> [] then [quoted ''branch'' (cvs_branch s)]
      else if cvs_revision s \<noteq> [] then [quoted ''revision'' (cvs_revision s)] else []) @
     (if cvs_module s \<noteq> [] then [quoted ''module'' (cvs_module s)] else [])"
| "print_lines (Svn s) = quoted ''url'' (url s) #
     (if svn_tag s \<noteq> [] then [quoted ''tag'' (svn_tag s)]
      else if svn_branch s \<noteq> [] then [quoted ''branch'' (svn_branch s)]
      else if svn_revision s \<noteq> - 1 then [quoted ''revision'' (to_string (svn_revision s))] else [])"
| "print_lines (RemoteFile s) = [quoted ''url'' (url s)]"
| "print_lines (RemoteFiles us) = map (\<lambda>u. ''url: '' @ u) us"

lemma print1_lines: "print1 s = concat (map (\<lambda>l. l @ [NL]) (print_lines s))"
  by (cases s) (auto simp: print_git_def git_lines_def string_print_def quoted_def print_not_empty_def print_not_minus_one_def comp_def)

fun source_strings :: "source \<Rightarrow> string list" where
  "source_strings EmptySource = []"
| "source_strings (Git s) = [url s, tag s, branch s, commit s]"
| "source_strings (Mercurial s) = [url s, tag s, branch s, commit s]"
| "source_strings (Bazaar s) = [url s, bzr_tag s]"
| "source_strings (Fossil s) = [url s, tag s, branch s, commit s]"
| "source_strings (Cvs s) = [url s, cvs_tag s, cvs_branch s, cvs_revision s, cvs_module s]"
| "source_strings (Svn s) = [url s, svn_tag s, svn_branch s]"
| "source_strings (RemoteFile s) = [url s]"
| "source_strings (RemoteFiles us) = us"

definition one_line :: "string \<Rightarrow> bool" where
  "one_line l \<longleftrightarrow> NL \<notin> set l"

lemma split_at_newline: "one_line a \<Longrightarrow> one_line a' \<Longrightarrow> a @ NL # b = a' @ NL # b' \<Longrightarrow> a = a' \<and> b = b'"
  by (induction a arbitrary: a') (auto simp: one_line_def Cons_eq_append_conv)

lemma lines_unique:
  "list_all one_line ls \<Longrightarrow> list_all one_line ls' \<Longrightarrow>
     concat (map (\<lambda>l. l @ [NL]) ls) = concat (map (\<lambda>l. l @ [NL]) ls') \<Longrightarrow> ls = ls'"
proof (induction ls arbitrary: ls')
  case Nil
  then show ?case by (cases ls') auto
next
  case (Cons l ls)
  then obtain l' ls'' where "ls' = l' # ls''"
    by (cases ls') auto
  with Cons split_at_newline [of l l'] show ?case
    by auto
qed

lemma quoted_inject:
  "quoted k v = quoted k v' \<longleftrightarrow> v = v'"
  by (simp add: quoted_def)

lemma quoted_names:
  "quoted ''tag'' v \<noteq> quoted ''branch'' v'" "quoted ''tag'' v \<noteq> quoted ''commit'' v'" "quoted ''tag'' v \<noteq> quoted ''revision'' v'"
  "quoted ''branch'' v \<noteq> quoted ''commit'' v'" "quoted ''branch'' v \<noteq> quoted ''revision'' v'"
  "quoted ''commit'' v \<noteq> quoted ''revision'' v'"
  by (simp_all add: quoted_def)

lemmas quoted_simps = quoted_inject quoted_names quoted_names [symmetric] to_string_inject

lemma one_line_quoted: "one_line (quoted k v) \<longleftrightarrow> one_line k \<and> one_line v"
  by (auto simp: one_line_def quoted_def NL_char)

lemma one_line_to_string: "one_line (to_string i)"
  using nat_to_string_digits [of NL] by (auto simp: one_line_def to_string_def NL_char is_digit_def)

lemma one_line_names:
  "one_line ''url''" "one_line ''tag''" "one_line ''branch''" "one_line ''commit''" "one_line ''revision''" "one_line ''module''"
  "one_line (''url: '' @ u) \<longleftrightarrow> one_line u"
  by (auto simp: one_line_def NL_char)

lemma print_lines_one_line: "list_all one_line (source_strings s) \<Longrightarrow> list_all one_line (print_lines s)"
  by (cases s) (auto simp: git_lines_def one_line_quoted one_line_names one_line_to_string one_line_names(7) [simplified] list.pred_map comp_def)

lemma check_one_valid: "check_one name as = Inr () \<longleftrightarrow> check_not_empty as = 1"
  by (auto simp: check_one_def Let_def)

text \<open>Member by member; a valid source has exactly one of its alternatives.\<close>

lemma git_valid_cases:
  "git_check_valid n g = Inr () \<Longrightarrow>
     tag g \<noteq> [] \<and> branch g = [] \<and> commit g = [] \<or> tag g = [] \<and> branch g \<noteq> [] \<and> commit g = []
     \<or> tag g = [] \<and> branch g = [] \<and> commit g \<noteq> []"
  by (simp add: git_check_valid_def check_one_valid split: if_split_asm)

lemma hg_valid_cases:
  "hg_check_valid g = Inr () \<Longrightarrow>
     tag g \<noteq> [] \<and> branch g = [] \<and> commit g = [] \<and> revision g = - 1 \<or> tag g = [] \<and> branch g \<noteq> [] \<and> commit g = [] \<and> revision g = - 1
     \<or> tag g = [] \<and> branch g = [] \<and> commit g \<noteq> [] \<and> revision g = - 1 \<or> tag g = [] \<and> branch g = [] \<and> commit g = [] \<and> revision g \<noteq> - 1"
  by (simp add: hg_check_valid_def check_one_valid split: if_split_asm)

lemma bzr_valid_cases:
  "bzr_check_valid g = Inr () \<Longrightarrow> bzr_tag g \<noteq> [] \<and> bzr_revision g = - 1 \<or> bzr_tag g = [] \<and> bzr_revision g \<noteq> - 1"
  by (simp add: bzr_check_valid_def check_one_valid split: if_split_asm)

lemma cvs_valid_cases:
  "cvs_check_valid g = Inr () \<Longrightarrow> cvs_module g \<noteq> [] \<and>
     (cvs_tag g \<noteq> [] \<and> cvs_branch g = [] \<and> cvs_revision g = [] \<or> cvs_tag g = [] \<and> cvs_branch g \<noteq> [] \<and> cvs_revision g = []
      \<or> cvs_tag g = [] \<and> cvs_branch g = [] \<and> cvs_revision g \<noteq> [])"
  by (simp add: cvs_check_valid_def check_one_valid split: if_split_asm)

lemma svn_valid_cases:
  "svn_check_valid g = Inr () \<Longrightarrow>
     svn_tag g \<noteq> [] \<and> svn_branch g = [] \<and> svn_revision g = - 1 \<or> svn_tag g = [] \<and> svn_branch g \<noteq> [] \<and> svn_revision g = - 1
     \<or> svn_tag g = [] \<and> svn_branch g = [] \<and> svn_revision g \<noteq> - 1"
  by (simp add: svn_check_valid_def check_one_valid split: if_split_asm)

lemma git_unique:
  assumes "git_lines g = git_lines g'" "git_check_valid n g = Inr ()" "git_check_valid n g' = Inr ()"
  shows "url g = url g' \<and> tag g = tag g' \<and> branch g = branch g' \<and> commit g = commit g'"
  using assms(1) git_valid_cases [OF assms(2)] git_valid_cases [OF assms(3)]
  by (elim disjE) (simp_all add: git_lines_def quoted_simps)

lemma hg_unique:
  assumes "print_lines (Mercurial g) = print_lines (Mercurial g')" "hg_check_valid g = Inr ()" "hg_check_valid g' = Inr ()"
  shows "url g = url g' \<and> tag g = tag g' \<and> branch g = branch g' \<and> commit g = commit g' \<and> revision g = revision g'"
  using assms(1) hg_valid_cases [OF assms(2)] hg_valid_cases [OF assms(3)]
  by (elim disjE) (simp_all add: git_lines_def quoted_simps)

lemma bzr_unique:
  assumes "print_lines (Bazaar g) = print_lines (Bazaar g')" "bzr_check_valid g = Inr ()" "bzr_check_valid g' = Inr ()"
  shows "url g = url g' \<and> bzr_tag g = bzr_tag g' \<and> bzr_revision g = bzr_revision g'"
  using assms(1) bzr_valid_cases [OF assms(2)] bzr_valid_cases [OF assms(3)]
  by (elim disjE) (simp_all add: quoted_simps)

lemma cvs_unique:
  assumes "print_lines (Cvs g) = print_lines (Cvs g')" "cvs_check_valid g = Inr ()" "cvs_check_valid g' = Inr ()"
  shows "url g = url g' \<and> cvs_tag g = cvs_tag g' \<and> cvs_branch g = cvs_branch g' \<and> cvs_revision g = cvs_revision g'
    \<and> cvs_module g = cvs_module g'"
  using assms(1) cvs_valid_cases [OF assms(2)] cvs_valid_cases [OF assms(3)]
  by (elim conjE disjE) (simp_all add: quoted_simps)

lemma svn_unique:
  assumes "print_lines (Svn g) = print_lines (Svn g')" "svn_check_valid g = Inr ()" "svn_check_valid g' = Inr ()"
  shows "url g = url g' \<and> svn_tag g = svn_tag g' \<and> svn_branch g = svn_branch g' \<and> svn_revision g = svn_revision g'"
  using assms(1) svn_valid_cases [OF assms(2)] svn_valid_cases [OF assms(3)]
  by (elim disjE) (simp_all add: quoted_simps)

lemma try_forgotten: "g\<lparr>try_v_tag_prefix := False\<rparr> = g \<longleftrightarrow> \<not> try_v_tag_prefix g"
  by (cases g) simp

lemma print_lines_unique:
  assumes "get_type s = get_type s'" "print_lines s = print_lines s'"
    and "check_valid s = Inr ()" "check_valid s' = Inr ()" "forget s = s" "forget s' = s'"
  shows "s = s'"
proof (cases s)
  case EmptySource
  with assms(1) show ?thesis by (cases s') simp_all
next
  case (Git g)
  with assms(1) obtain g' where g': "s' = Git g'" by (cases s') simp_all
  have "url g = url g' \<and> tag g = tag g' \<and> branch g = branch g' \<and> commit g = commit g'"
    by (rule git_unique [of g g' "''git''"]) (use Git g' assms in simp_all)
  moreover have "\<not> try_v_tag_prefix g \<and> \<not> try_v_tag_prefix g'"
    using assms(5,6) unfolding Git g' by (simp add: try_forgotten)
  ultimately show ?thesis
    unfolding Git g' by (cases g; cases g') simp
next
  case (Fossil g)
  with assms(1) obtain g' where g': "s' = Fossil g'" by (cases s') simp_all
  have "url g = url g' \<and> tag g = tag g' \<and> branch g = branch g' \<and> commit g = commit g'"
    by (rule git_unique [of g g' "''git''"]) (use Fossil g' assms in simp_all)
  moreover have "\<not> try_v_tag_prefix g \<and> \<not> try_v_tag_prefix g'"
    using assms(5,6) unfolding Fossil g' by (simp add: try_forgotten)
  ultimately show ?thesis
    unfolding Fossil g' by (cases g; cases g') simp
next
  case (Mercurial g)
  with assms(1) obtain g' where g': "s' = Mercurial g'" by (cases s') simp_all
  have "url g = url g' \<and> tag g = tag g' \<and> branch g = branch g' \<and> commit g = commit g' \<and> revision g = revision g'"
    by (rule hg_unique) (use Mercurial g' assms in simp_all)
  moreover have "\<not> try_v_tag_prefix g \<and> \<not> try_v_tag_prefix g'"
    using assms(5,6) unfolding Mercurial g' by (simp add: try_forgotten)
  ultimately show ?thesis
    unfolding Mercurial g' by (cases g; cases g') simp
next
  case (Bazaar g)
  with assms(1) obtain g' where g': "s' = Bazaar g'" by (cases s') simp_all
  have "url g = url g' \<and> bzr_tag g = bzr_tag g' \<and> bzr_revision g = bzr_revision g'"
    by (rule bzr_unique) (use Bazaar g' assms in simp_all)
  then show ?thesis
    unfolding Bazaar g' by (cases g; cases g') simp
next
  case (Cvs g)
  with assms(1) obtain g' where g': "s' = Cvs g'" by (cases s') simp_all
  have "url g = url g' \<and> cvs_tag g = cvs_tag g' \<and> cvs_branch g = cvs_branch g' \<and> cvs_revision g = cvs_revision g'
      \<and> cvs_module g = cvs_module g'"
    by (rule cvs_unique) (use Cvs g' assms in simp_all)
  then show ?thesis
    unfolding Cvs g' by (cases g; cases g') simp
next
  case (Svn g)
  with assms(1) obtain g' where g': "s' = Svn g'" by (cases s') simp_all
  have "url g = url g' \<and> svn_tag g = svn_tag g' \<and> svn_branch g = svn_branch g' \<and> svn_revision g = svn_revision g'"
    by (rule svn_unique) (use Svn g' assms in simp_all)
  then show ?thesis
    unfolding Svn g' by (cases g; cases g') simp
next
  case (RemoteFile g)
  with assms(1) obtain g' where "s' = RemoteFile g'" by (cases s') simp_all
  with RemoteFile assms(2) show ?thesis
    by (cases g; cases g') (simp add: quoted_simps)
next
  case (RemoteFiles us)
  with assms(1) obtain us' where "s' = RemoteFiles us'" by (cases s') simp_all
  with RemoteFiles assms(2) show ?thesis
    by (simp add: inj_map_eq_map inj_def)
qed

lemma type_one_line: "one_line (type_to_string t @ '':'')"
  by (cases t) (auto simp: one_line_def NL_char)

lemma type_to_string_inject: "type_to_string t = type_to_string t' \<longleftrightarrow> t = t'"
  by (cases t; cases t') simp_all

text \<open>
  C36: What is printed, and so what is hashed, tells valid sources apart: two valid sources
  that print the same are the same, if no member contains a newline (and the way of
  downloading tags, which is not printed, is the default).
\<close>

theorem print_unique:
  assumes "print_source s = print_source s'"
    and "check_valid s = Inr ()" "check_valid s' = Inr ()" "forget s = s" "forget s' = s'"
    and "list_all one_line (source_strings s)" "list_all one_line (source_strings s')"
  shows "s = s'"
proof -
  have "(get_string s @ '':'') @ NL # print1 s = (get_string s' @ '':'') @ NL # print1 s'"
    using assms(1) by (simp add: print_source_def)
  from split_at_newline [OF _ _ this] have "get_string s = get_string s'" "print1 s = print1 s'"
    by (auto simp: get_string_def type_one_line)
  moreover from this have "print_lines s = print_lines s'"
    using lines_unique [OF print_lines_one_line [OF assms(6)] print_lines_one_line [OF assms(7)]] by (simp add: print1_lines)
  ultimately show ?thesis
    using print_lines_unique [of s s'] assms(2-5) by (simp add: get_string_def type_to_string_inject)
qed

lemma print_unique_witness:
  "Bazaar \<lparr>url = ''http://a'', bzr_tag = [], bzr_revision = 4\<rparr> = Bazaar \<lparr>url = ''http://a'', bzr_tag = [], bzr_revision = 4\<rparr>"
  by (rule print_unique) (simp_all add: bzr_check_valid_def check_one_def one_line_def NL_char)

section \<open>What a download does\<close>

lemma keeps_tries: "keeps I f \<Longrightarrow> keeps I (download_tries n eptr f)"
proof (induction n arbitrary: eptr)
  case (Suc n)
  then show ?case
    by (fastforce simp: keeps_def Let_def split: prod.splits sum.splits option.splits)
qed (simp add: keeps_def)

lemma keeps_checked:
  assumes "\<And>fn m. valid_source_url u \<Longrightarrow> keeps I (download_file E u fn m)"
  shows "keeps I (download_file_checked E u fn m)"
proof (cases "valid_source_url u")
  case True
  with assms show ?thesis
    unfolding download_file_checked_def by (intro keeps_bind keeps_pure)
next
  case False
  then show ?thesis
    by (simp add: download_file_checked_def check_source_url_def keeps_def io_bind_def lift_result_def)
qed

definition archive_commands :: "'a git_scheme \<Rightarrow> string list list" where
  "archive_commands s = git_commands s (tag s) @ git_commands s (''v'' @ tag s)"

fun commands :: "source \<Rightarrow> string list list" where
  "commands (Git s) = archive_commands s"
| "commands (Mercurial s) = hg_commands s"
| "commands (Bazaar s) = bzr_commands s"
| "commands (Fossil s) = fossil_commands s"
| "commands (Cvs s) = cvs_commands s"
| "commands (Svn s) = svn_commands s"
| "commands s = []"

text \<open>An environment keeps a property if only its allowed operations are used.\<close>

definition env_keeps :: "('w \<Rightarrow> bool) \<Rightarrow> 'w env \<Rightarrow> string \<Rightarrow> string list list \<Rightarrow> bool" where
  "env_keeps I E dir cs \<longleftrightarrow>
     keeps I (create_directories E dir) \<and> (\<forall>u fn m. valid_source_url u \<longrightarrow> keeps I (download_file E u fn m))
     \<and> (\<forall>fn. keeps I (unpack_file E fn dir)) \<and> (\<forall>fn. keeps I (remove_file E fn)) \<and> (\<forall>fn w. I w \<longrightarrow> I (remove_quiet E fn w))
     \<and> (\<forall>c\<in>set cs. keeps I (execute E dir c))"

lemma keeps_unpack: "env_keeps I E dir cs \<Longrightarrow> keeps I (download_and_unpack E u fn dir m)"
  unfolding download_and_unpack_def Let_def
proof (intro keeps_bind keeps_checked)
  assume E: "env_keeps I E dir cs"
  then show "keeps I (\<lambda>w. case unpack_file E (if is_absolute E fn then fn else path_join E dir fn) dir w of
      (r, w) \<Rightarrow> (r, remove_quiet E (if is_absolute E fn then fn else path_join E dir fn) w))"
    unfolding keeps_def env_keeps_def by (auto split: prod.splits) (metis snd_conv)+
qed (auto simp: env_keeps_def)

lemma keeps_run: "env_keeps I E dir cs \<Longrightarrow> set cs' \<subseteq> set cs \<Longrightarrow> keeps I (download_repository (io_seq (map (execute E dir) cs')))"
  unfolding download_repository_def by (intro keeps_tries keeps_seq) (auto simp: env_keeps_def)

lemma keeps_git2:
  assumes "env_keeps I E dir cs" "set (git_commands s tg) \<subseteq> set cs"
  shows "keeps I (git_download2 E s dir tg)"
proof -
  let ?P = "download_repository (io_seq (map (execute E dir) (git_commands s tg)))"
  have P: "keeps I ?P" and rm: "keeps I (io_bind (remove_file E fn) (\<lambda>_. ?P))"
    and un: "keeps I (download_and_unpack E u fn dir 0)" for u fn
    using assms by (auto intro!: keeps_run keeps_unpack keeps_bind simp: env_keeps_def)
  obtain u name where a: "github_archive s tg = (u, name)"
    by fastforce
  define fn where "fn = (if name = [] then [] else path_join E dir name)"
  have "keeps I (\<lambda>w. case download_and_unpack E u fn dir 0 w of
      (Inr x, w) \<Rightarrow> (Inr (), w)
    | (Inl e, w) \<Rightarrow> if \<not> is_exception e then (Inl e, w)
        else if file_exists E fn w then io_bind (remove_file E fn) (\<lambda>_. ?P) w else ?P w)"
    unfolding keeps_def
  proof (intro allI impI)
    fix w
    assume "I w"
    obtain r w' where r: "download_and_unpack E u fn dir 0 w = (r, w')"
      by fastforce
    with un [of u fn] \<open>I w\<close> have "I w'"
      by (auto simp: keeps_def dest: spec [of _ w])
    with P rm [of fn] show "I (snd (case download_and_unpack E u fn dir 0 w of
      (Inr x, w) \<Rightarrow> (Inr (), w)
    | (Inl e, w) \<Rightarrow> if \<not> is_exception e then (Inl e, w)
        else if file_exists E fn w then io_bind (remove_file E fn) (\<lambda>_. ?P) w else ?P w))"
      unfolding r keeps_def by (auto split: sum.splits)
  qed
  then have "keeps I (if str_find ''github.com'' (url s) = None then ?P
      else (\<lambda>w. case download_and_unpack E u fn dir 0 w of
        (Inr x, w) \<Rightarrow> (Inr (), w)
      | (Inl e, w) \<Rightarrow> if \<not> is_exception e then (Inl e, w)
          else if file_exists E fn w then io_bind (remove_file E fn) (\<lambda>_. ?P) w else ?P w))"
    using P by simp
  then show ?thesis
    unfolding git_download2_def a Let_def prod.case fn_def .
qed

lemma keeps_git1:
  assumes "env_keeps I E dir (archive_commands s)"
  shows "keeps I (git_download1 E s dir)"
  unfolding git_download1_def
  by (intro keeps_catch) (auto intro!: keeps_git2 [OF assms] keeps_pure simp: archive_commands_def)

lemma keeps_download1: "env_keeps I E dir (commands s) \<Longrightarrow> keeps I (download1 E s dir)"
proof (cases s)
  case (RemoteFile x)
  then show "env_keeps I E dir (commands s) \<Longrightarrow> keeps I (download1 E s dir)"
    by (simp add: keeps_unpack)
qed (auto intro!: keeps_pure keeps_git1 keeps_seq keeps_checked keeps_run simp: run_commands_def env_keeps_def)

text \<open>
  C35: A download does nothing at all, not even create the directory, when a URL of the
  source is refused; otherwise it uses the network only with URLs that pass the check, the
  archives it makes up from tags and branches included, and runs only the commands listed
  for the source: any property of the world these operations keep is kept.
\<close>

theorem download_contained:
  assumes "env_keeps I E dir (commands s)" and "I w"
  shows "I (snd (download E s dir w)) \<and> (\<forall>e. check_url s = Inl e \<longrightarrow> download E s dir w = (Inl e, w))"
proof
  have "keeps I (download E s dir)"
    unfolding download_def using assms(1) by (intro keeps_bind keeps_pure keeps_download1) (auto simp: env_keeps_def)
  with assms(2) show "I (snd (download E s dir w))"
    by (simp add: keeps_def)
qed (simp add: download_def lift_result_def io_bind_def)

definition idle_env :: "bool env" where
  "idle_env =
     \<lparr>create_directories = (\<lambda>d. io_return ()), download_file = (\<lambda>u fn m. io_return ()), unpack_file = (\<lambda>fn d. io_return ()),
      remove_file = (\<lambda>fn. io_return ()), remove_quiet = (\<lambda>fn w. w), file_exists = (\<lambda>fn w. False),
      execute = (\<lambda>d c. io_return ()), path_join = (\<lambda>a b. a @ CHR ''/'' # b), file_name = (\<lambda>u. u), is_absolute = (\<lambda>p. True)\<rparr>"

lemma download_contained_witness:
  "snd (download idle_env (RemoteFile \<lparr>url = ''file:///etc''\<rparr>) ''d'' True)
   \<and> download idle_env (RemoteFile \<lparr>url = ''file:///etc''\<rparr>) ''d'' True = (Inl (Runtime_error ''Bad source url: file:///etc''), True)"
proof -
  have "env_keeps (\<lambda>w. w) idle_env ''d'' (commands (RemoteFile \<lparr>url = ''file:///etc''\<rparr>))"
    by (simp add: env_keeps_def keeps_def idle_env_def io_return_def)
  from download_contained [OF this, of True] show ?thesis
    by (simp add: check_source_url_def valid_source_url_def is_url_def)
qed

text \<open>
  What the checks let through: a newline in a URL, and tags and branches that begin like
  options of the programs they are passed to.
\<close>

lemma newline_in_url: "valid_source_url (''http://a'' @ [NL])"
  by code_simp

lemma tag_as_option:
  "let s = \<lparr>url = ''http://a'', tag = ''--config=alias.update=!x'', branch = [], commit = [], try_v_tag_prefix = False, revision = - 1\<rparr>
   in check_valid (Mercurial s) = Inr () \<and> check_url (Mercurial s) = Inr ()
      \<and> hg_commands s = [[''hg'', ''clone'', ''http://a''], [''hg'', ''update'', ''--config=alias.update=!x'']]"
  by code_simp

text \<open>A relative directory is put before the file name twice.\<close>

lemma relative_directory:
  "\<not> is_absolute E (path_join E dir (file_name E (url s))) \<Longrightarrow>
     download1 E (RemoteFile s) dir w =
     io_bind (download_file_checked E (url s) (path_join E dir (path_join E dir (file_name E (url s)))) 0)
       (\<lambda>_ w. case unpack_file E (path_join E dir (path_join E dir (file_name E (url s)))) dir w of
          (r, w) \<Rightarrow> (r, remove_quiet E (path_join E dir (path_join E dir (file_name E (url s)))) w)) w"
  by (simp add: download_and_unpack_def Let_def)

end
