(* ===== verification/Cron.thy ===== *)
theory Cron
  imports Prelude
begin

text \<open>
  The scheduler of \<open>cron.h\<close>: a map from time points to tasks, a thread that sleeps until the
  first one is due and hands it to an executor, and tasks that repeat or skip their first
  turns. Time points are the clock's ticks, nanoseconds in 64 bits.

  \<^item> the map never overwrites, so a second task at an occupied time is lost;
  \<^item> a task fires only when it is due, once if it does not repeat, and otherwise with at least
    its period between two turns;
  \<^item> a task pushed with the default arguments skips its only turn and never runs;
  \<^item> the thread reads the first element of an empty map after the last task, and sleeps past a
    task that was pushed before the one it waits for.
\<close>

section \<open>Tasks and their times\<close>

record repeat =
  rep_day :: int
  rep_hour :: int
  rep_min :: int
  rep_second :: int

definition need_repeat :: "repeat \<Rightarrow> bool" where
  "need_repeat r \<longleftrightarrow> rep_second r > 0 \<or> rep_min r > 0 \<or> rep_hour r > 0 \<or> rep_day r > 0"

text \<open>
  The members are 32-bit integers and \<open>24 * day\<close> is computed in them; the sum of the durations
  is in seconds, and adding it to a time point converts it to ticks.
\<close>

definition period_seconds :: "repeat \<Rightarrow> int" where
  "period_seconds r = (24 * rep_day r + rep_hour r) * 3600 + rep_min r * 60 + rep_second r"

definition period :: "repeat \<Rightarrow> int" where
  "period r = period_seconds r * 1000000000"

definition next_repeat :: "repeat \<Rightarrow> int \<Rightarrow> int result" where
  "next_repeat r start =
     (if 24 * rep_day r < - int32_max - 1 \<or> 24 * rep_day r > int32_max then Inl Undefined
      else if period r < int64_min \<or> period r > int64_max then Inl Undefined
      else if start + period r < int64_min \<or> start + period r > int64_max then Inl Undefined
      else Inr (start + period r))"

record 'a cron_task =
  ct_task :: 'a
  ct_repeat :: repeat
  ct_skip :: int

section \<open>The thread\<close>

text \<open>
  \<open>Top\<close> is the loop condition, \<open>Waiting\<close> the wait for a first task, \<open>Sleeping d\<close> the timed wait
  with the deadline \<open>d\<close>, \<open>Broken\<close> what follows an access to the first element of an empty
  map or an overflow. \<open>fired\<close> logs what is pushed to the executor: the time the task was due,
  the reading of the clock and the task.
\<close>

datatype cron_pc = Top | Waiting | Sleeping int | Ended | Broken

record 'a cron =
  cron_tasks :: "(int \<times> 'a cron_task) list"
  cron_done :: bool
  cron_pc :: cron_pc
  fired :: "(int \<times> int \<times> 'a) list"

definition new_cron :: "'a cron" where
  "new_cron = \<lparr>cron_tasks = [], cron_done = False, cron_pc = Top, fired = []\<rparr>"

definition push_cron :: "int \<Rightarrow> 'a \<Rightarrow> repeat \<Rightarrow> int \<Rightarrow> 'a cron \<Rightarrow> 'a cron" where
  "push_cron p t r k s =
     s\<lparr>cron_tasks := emplace p \<lparr>ct_task = t, ct_repeat = r, ct_skip = k\<rparr> (cron_tasks s)\<rparr>"

text \<open>The two-argument \<open>push\<close>, with the default \<open>skip = 1\<close> of the other one.\<close>

definition no_repeat :: repeat where
  "no_repeat = \<lparr>rep_day = 0, rep_hour = 0, rep_min = 0, rep_second = 0\<rparr>"

definition push_default :: "int \<Rightarrow> 'a \<Rightarrow> 'a cron \<Rightarrow> 'a cron" where
  "push_default p t s = push_cron p t no_repeat 1 s"

definition stop_cron :: "'a cron \<Rightarrow> 'a cron" where
  "stop_cron s = s\<lparr>cron_done := True\<rparr>"

text \<open>The end of the body: the map must not be empty when its first time is taken.\<close>

definition go_to_sleep :: "'a cron \<Rightarrow> 'a cron" where
  "go_to_sleep s =
     (if cron_tasks s \<noteq> [] \<or> \<not> cron_done s then
        s\<lparr>cron_pc := (case cron_tasks s of [] \<Rightarrow> Broken | (p, _) # _ \<Rightarrow> Sleeping p)\<rparr>
      else s\<lparr>cron_pc := Top\<rparr>)"

text \<open>
  The body under the lock, with a first task. \<open>now\<close> and \<open>now2\<close> are the two readings of the
  clock, \<open>accepted\<close> says whether the executor took the task or threw an exception.
\<close>

definition run_first :: "int \<Rightarrow> bool \<Rightarrow> int \<Rightarrow> int \<Rightarrow> 'a cron_task \<Rightarrow> 'a cron \<Rightarrow> 'a cron" where
  "run_first now accepted now2 p t s =
     (let fire = ct_skip t \<le> 0;
          t' = (if fire then t else t\<lparr>ct_skip := ct_skip t - 1\<rparr>)
      in case (if need_repeat (ct_repeat t')
               then bind_result (next_repeat (ct_repeat t') now2) (\<lambda>p2. Inr (emplace p2 t' (cron_tasks s)))
               else Inr (cron_tasks s)) of
           Inl e \<Rightarrow> s\<lparr>cron_pc := Broken\<rparr>
         | Inr q \<Rightarrow>
             if fire \<and> \<not> accepted then s\<lparr>cron_tasks := q, cron_pc := Top\<rparr>
             else go_to_sleep (s\<lparr>cron_tasks := q, fired := fired s @ (if fire then [(p, now, ct_task t)] else [])\<rparr>))"

definition cron_body :: "int \<Rightarrow> bool \<Rightarrow> int \<Rightarrow> 'a cron \<Rightarrow> 'a cron" where
  "cron_body now accepted now2 s =
     (case cron_tasks s of
        [] \<Rightarrow> s\<lparr>cron_pc := Broken\<rparr>
      | (p, t) # q \<Rightarrow> if p \<le> now then run_first now accepted now2 p t (s\<lparr>cron_tasks := q\<rparr>) else go_to_sleep s)"

text \<open>
  The thread runs at a reading \<open>now\<close> of the clock: after a notification, at the deadline, or
  spuriously. A wait goes on unless its predicate holds; the timed wait also ends at the
  deadline it was started with.
\<close>

definition wake_cron :: "int \<Rightarrow> bool \<Rightarrow> int \<Rightarrow> 'a cron \<Rightarrow> 'a cron" where
  "wake_cron now accepted now2 s =
     (case cron_pc s of
        Top \<Rightarrow>
          if cron_done s then s\<lparr>cron_pc := Ended\<rparr>
          else if cron_tasks s = [] then s\<lparr>cron_pc := Waiting\<rparr>
          else cron_body now accepted now2 s
      | Waiting \<Rightarrow>
          if cron_done s then s\<lparr>cron_pc := Ended\<rparr>
          else if cron_tasks s = [] then s
          else cron_body now accepted now2 s
      | Sleeping d \<Rightarrow>
          (case cron_tasks s of
             [] \<Rightarrow> s\<lparr>cron_pc := Broken\<rparr>
           | (p, _) # _ \<Rightarrow> if p \<le> now \<or> cron_done s \<or> d \<le> now then s\<lparr>cron_pc := Top\<rparr> else s)
      | _ \<Rightarrow> s)"

datatype 'a cron_event =
    Push_event int 'a repeat int
  | Stop_event
  | Wake_event int bool int

fun cron_step :: "'a cron_event \<Rightarrow> 'a cron \<Rightarrow> 'a cron" where
  "cron_step (Push_event p t r k) s = push_cron p t r k s"
| "cron_step Stop_event s = stop_cron s"
| "cron_step (Wake_event now accepted now2) s = wake_cron now accepted now2 s"

definition run_cron :: "'a cron_event list \<Rightarrow> 'a cron" where
  "run_cron es = foldl (\<lambda>s e. cron_step e s) new_cron es"

lemma run_cron_simps [simp]:
  "run_cron [] = new_cron" "run_cron (es @ [e]) = cron_step e (run_cron es)"
  by (simp_all add: run_cron_def)

section \<open>What a step can do\<close>

lemma run_first_log:
  "fired (run_first now a now2 p t s) = fired s
   \<or> ct_skip t \<le> 0 \<and> fired (run_first now a now2 p t s) = fired s @ [(p, now, ct_task t)]"
  by (auto simp: run_first_def go_to_sleep_def Let_def split: sum.splits list.splits)

lemma next_repeat_Inr: "next_repeat r n = Inr p \<Longrightarrow> p = n + period r"
  by (auto simp: next_repeat_def split: if_splits)

lemma run_first_tasks:
  obtains "cron_tasks (run_first now a now2 p t s) = cron_tasks s"
  | t' where "need_repeat (ct_repeat t)" "ct_task t' = ct_task t" "ct_repeat t' = ct_repeat t"
    "cron_tasks (run_first now a now2 p t s) = emplace (now2 + period (ct_repeat t)) t' (cron_tasks s)"
proof -
  let ?t = "if ct_skip t \<le> 0 then t else t\<lparr>ct_skip := ct_skip t - 1\<rparr>"
  have "cron_tasks (run_first now a now2 p t s) = cron_tasks s \<or>
    need_repeat (ct_repeat t) \<and>
      cron_tasks (run_first now a now2 p t s) = emplace (now2 + period (ct_repeat t)) ?t (cron_tasks s)"
    by (auto simp: run_first_def go_to_sleep_def Let_def bind_result_Inr_iff dest!: next_repeat_Inr
        split: sum.splits list.splits if_splits)
  then show thesis
    using that(1) that(2) [of ?t] by auto
qed

lemma go_to_sleep_fields [simp]:
  "cron_tasks (go_to_sleep s) = cron_tasks s" "fired (go_to_sleep s) = fired s"
  by (simp_all add: go_to_sleep_def)

lemma wake_cron_cases:
  obtains "cron_tasks (wake_cron now a now2 s) = cron_tasks s" "fired (wake_cron now a now2 s) = fired s"
  | p t q where "cron_tasks s = (p, t) # q" "p \<le> now"
    "wake_cron now a now2 s = run_first now a now2 p t (s\<lparr>cron_tasks := q\<rparr>)"
proof -
  have "cron_tasks (cron_body now a now2 s) = cron_tasks s \<and> fired (cron_body now a now2 s) = fired s \<or>
      (\<exists>p t q. cron_tasks s = (p, t) # q \<and> p \<le> now \<and>
        cron_body now a now2 s = run_first now a now2 p t (s\<lparr>cron_tasks := q\<rparr>))"
    by (auto simp: cron_body_def split: list.splits prod.splits)
  moreover have "wake_cron now a now2 s = cron_body now a now2 s \<or>
      cron_tasks (wake_cron now a now2 s) = cron_tasks s \<and> fired (wake_cron now a now2 s) = fired s"
    by (auto simp: wake_cron_def split: cron_pc.splits list.splits)
  ultimately show thesis using that by auto
qed

section \<open>Every turn is due, and turns are a period apart\<close>

text \<open>
  The events of a history in which the task \<open>t\<close> is always pushed with the repetition \<open>rep t\<close>
  and the second reading of the clock in a turn is not before the first.
\<close>

fun regular :: "('a \<Rightarrow> repeat) \<Rightarrow> 'a cron_event \<Rightarrow> bool" where
  "regular rep (Push_event p t r k) \<longleftrightarrow> r = rep t"
| "regular rep Stop_event \<longleftrightarrow> True"
| "regular rep (Wake_event now a now2) \<longleftrightarrow> now \<le> now2"

fun pushed_by :: "'a cron_event \<Rightarrow> 'a list" where
  "pushed_by (Push_event p t r k) = [t]"
| "pushed_by _ = []"

definition after_period :: "('a \<Rightarrow> repeat) \<Rightarrow> int \<times> int \<times> 'a \<Rightarrow> int \<times> int \<times> 'a \<Rightarrow> bool" where
  "after_period rep x y \<longleftrightarrow>
     (case x of (_, n, t) \<Rightarrow> case y of (p, _, t') \<Rightarrow> t = t' \<longrightarrow> need_repeat (rep t) \<and> n + period (rep t) \<le> p)"

definition cron_inv :: "('a \<Rightarrow> repeat) \<Rightarrow> 'a set \<Rightarrow> 'a cron \<Rightarrow> bool" where
  "cron_inv rep S s \<longleftrightarrow>
     sorted_keys (cron_tasks s)
     \<and> distinct (map (\<lambda>x. ct_task (snd x)) (cron_tasks s))
     \<and> (\<forall>(p, c)\<in>set (cron_tasks s). ct_task c \<in> S \<and> ct_repeat c = rep (ct_task c)
          \<and> (\<forall>x\<in>set (fired s). after_period rep x (p, p, ct_task c)))
     \<and> (\<forall>(p, n, t)\<in>set (fired s). t \<in> S \<and> p \<le> n)
     \<and> sorted_wrt (after_period rep) (fired s)"

lemma cron_inv_new: "cron_inv rep S new_cron"
  by (simp add: cron_inv_def new_cron_def)

lemma cron_inv_mono: "cron_inv rep S s \<Longrightarrow> S \<subseteq> T \<Longrightarrow> cron_inv rep T s"
  by (fastforce simp: cron_inv_def)

lemma cron_inv_same:
  "cron_inv rep S s \<Longrightarrow> cron_tasks s' = cron_tasks s \<Longrightarrow> fired s' = fired s \<Longrightarrow> cron_inv rep S s'"
  by (simp add: cron_inv_def)

lemma cron_inv_emplace:
  assumes "cron_inv rep S s" "ct_task c \<notin> (\<lambda>x. ct_task (snd x)) ` set (cron_tasks s)"
    "ct_task c \<in> S" "ct_repeat c = rep (ct_task c)" "\<forall>x\<in>set (fired s). after_period rep x (p, p, ct_task c)"
    "cron_tasks s' = emplace p c (cron_tasks s)" "fired s' = fired s"
  shows "cron_inv rep S s'"
  using assms sorted_emplace [of "cron_tasks s" p c] distinct_emplace [of ct_task "cron_tasks s" c p]
    set_emplace [of p c "cron_tasks s"]
  unfolding cron_inv_def by fastforce

lemma cron_inv_push:
  assumes "cron_inv rep S s" "t \<notin> S"
  shows "cron_inv rep (insert t S) (push_cron p t (rep t) k s)"
proof (rule cron_inv_emplace [OF cron_inv_mono [OF assms(1)]])
  show "ct_task \<lparr>ct_task = t, ct_repeat = rep t, ct_skip = k\<rparr> \<notin> (\<lambda>x. ct_task (snd x)) ` set (cron_tasks s)"
    "\<forall>x\<in>set (fired s). after_period rep x (p, p, ct_task \<lparr>ct_task = t, ct_repeat = rep t, ct_skip = k\<rparr>)"
    using assms by (auto simp: cron_inv_def after_period_def)
qed (auto simp: push_cron_def)

text \<open>Taking the first task out, with or without logging its turn, and putting it back.\<close>

lemma cron_inv_take:
  assumes "cron_inv rep S s" "cron_tasks s = (p, c) # q" "p \<le> now"
    "fired s' = fired s \<or> fired s' = fired s @ [(p, now, ct_task c)]" "cron_tasks s' = q"
  shows "cron_inv rep S s'"
proof -
  have inv: "sorted_keys ((p, c) # q)" "distinct (map (\<lambda>x. ct_task (snd x)) ((p, c) # q))"
    "\<forall>(p', c')\<in>set ((p, c) # q). ct_task c' \<in> S \<and> ct_repeat c' = rep (ct_task c')
       \<and> (\<forall>x\<in>set (fired s). after_period rep x (p', p', ct_task c'))"
    "\<forall>(p, n, t)\<in>set (fired s). t \<in> S \<and> p \<le> n" "sorted_wrt (after_period rep) (fired s)"
    using assms(1) unfolding cron_inv_def assms(2) by blast+
  have after: "after_period rep (p, now, ct_task c) (p', p', ct_task c')" if "(p', c') \<in> set q" for p' c'
    using inv(2) that by (force simp: after_period_def)
  have due: "\<forall>x\<in>set (fired s). after_period rep x (p, now, ct_task c)"
    using inv(3) by (auto simp: after_period_def)
  show ?thesis
    unfolding cron_inv_def assms(5)
  proof (intro conjI)
    show "\<forall>(p', c')\<in>set q. ct_task c' \<in> S \<and> ct_repeat c' = rep (ct_task c')
       \<and> (\<forall>x\<in>set (fired s'). after_period rep x (p', p', ct_task c'))"
    proof clarify
      fix p' c'
      assume q: "(p', c') \<in> set q"
      then have "ct_task c' \<in> S \<and> ct_repeat c' = rep (ct_task c')
          \<and> (\<forall>x\<in>set (fired s). after_period rep x (p', p', ct_task c'))"
        using bspec [OF inv(3), of "(p', c')"] by simp
      then show "ct_task c' \<in> S \<and> ct_repeat c' = rep (ct_task c')
          \<and> (\<forall>x\<in>set (fired s'). after_period rep x (p', p', ct_task c'))"
        using assms(4) after [OF q] by auto
    qed
    show "\<forall>(p, n, t)\<in>set (fired s'). t \<in> S \<and> p \<le> n"
      using inv(3,4) assms(3,4) by auto
    show "sorted_wrt (after_period rep) (fired s')"
      using inv(5) due assms(4) by (auto simp: sorted_wrt_append)
  qed (use inv(1,2) in auto)
qed

lemma cron_inv_wake:
  assumes "cron_inv rep S s" "now \<le> now2" and period: "\<And>t. 0 \<le> period (rep t)"
  shows "cron_inv rep S (wake_cron now a now2 s)"
proof (rule wake_cron_cases [of now a now2 s])
  fix p c q
  assume q: "cron_tasks s = (p, c) # q" "p \<le> now"
    "wake_cron now a now2 s = run_first now a now2 p c (s\<lparr>cron_tasks := q\<rparr>)"
  let ?s = "wake_cron now a now2 s"
  have log: "fired ?s = fired s \<or> fired ?s = fired s @ [(p, now, ct_task c)]"
    using run_first_log [of now a now2 p c "s\<lparr>cron_tasks := q\<rparr>"] q(3) by auto
  have taken: "cron_inv rep S (?s\<lparr>cron_tasks := q\<rparr>)"
    by (rule cron_inv_take [OF assms(1) q(1,2)]) (use log in auto)
  show ?thesis
  proof (rule run_first_tasks [of now a now2 p c "s\<lparr>cron_tasks := q\<rparr>"])
    assume "cron_tasks (run_first now a now2 p c (s\<lparr>cron_tasks := q\<rparr>)) = cron_tasks (s\<lparr>cron_tasks := q\<rparr>)"
    then show ?thesis
      by (intro cron_inv_same [OF taken]) (simp_all add: q(3))
  next
    fix c'
    assume c': "need_repeat (ct_repeat c)" "ct_task c' = ct_task c" "ct_repeat c' = ct_repeat c"
      "cron_tasks (run_first now a now2 p c (s\<lparr>cron_tasks := q\<rparr>)) =
         emplace (now2 + period (ct_repeat c)) c' (cron_tasks (s\<lparr>cron_tasks := q\<rparr>))"
    have c: "ct_task c \<in> S" "ct_repeat c = rep (ct_task c)"
      "ct_task c \<notin> (\<lambda>x. ct_task (snd x)) ` set q"
      "\<forall>x\<in>set (fired s). after_period rep x (p, p, ct_task c)"
      using assms(1) q(1) by (auto simp: cron_inv_def)
    show ?thesis
    proof (rule cron_inv_emplace [OF taken])
      show "\<forall>x\<in>set (fired (?s\<lparr>cron_tasks := q\<rparr>)).
          after_period rep x (now2 + period (ct_repeat c), now2 + period (ct_repeat c), ct_task c')"
      proof
        fix x
        assume "x \<in> set (fired (?s\<lparr>cron_tasks := q\<rparr>))"
        with log have "x \<in> set (fired s) \<or> x = (p, now, ct_task c)" by auto
        then show "after_period rep x (now2 + period (ct_repeat c), now2 + period (ct_repeat c), ct_task c')"
          using c(2,4) c'(1,2) q(2) assms(2) period [of "ct_task c"] by (cases x) (fastforce simp: after_period_def)
      qed
    qed (use c c' q(3) in auto)
  qed
qed (auto intro: cron_inv_same [OF assms(1)])

lemma run_cron_inv:
  "distinct (concat (map pushed_by es)) \<Longrightarrow> \<forall>e\<in>set es. regular rep e \<Longrightarrow> \<forall>t. 0 \<le> period (rep t) \<Longrightarrow>
    cron_inv rep (set (concat (map pushed_by es))) (run_cron es)"
proof (induction es rule: rev_induct)
  case (snoc e es)
  then have IH: "cron_inv rep (set (concat (map pushed_by es))) (run_cron es)" by simp
  show ?case
  proof (cases e)
    case (Push_event p t r k)
    then show ?thesis
      using snoc.prems cron_inv_push [OF IH, of t p k] by simp
  next
    case Stop_event
    then show ?thesis
      using cron_inv_same [OF IH, of "stop_cron (run_cron es)"] by (simp add: stop_cron_def)
  next
    case (Wake_event now a now2)
    then show ?thesis
      using snoc.prems cron_inv_wake [OF IH, of now now2 a] by simp
  qed
qed (simp add: cron_inv_new)

text \<open>
  C12: However tasks are pushed and whenever the thread runs, no task fires before it is due,
  a task without repetition fires at most once, and between a turn of a repeating task and
  its next one lies at least its period, counted from the reading of the clock at the turn.
  The map's times stay strictly sorted.
\<close>

theorem cron_turns_spaced:
  assumes "distinct (concat (map pushed_by es))" and "\<forall>e\<in>set es. regular rep e"
    and "\<forall>t. 0 \<le> period (rep t)"
  shows "sorted_keys (cron_tasks (run_cron es))
    \<and> (\<forall>(p, n, t)\<in>set (fired (run_cron es)). p \<le> n)
    \<and> sorted_wrt (\<lambda>(_, n, t) (p, _, t'). t = t' \<longrightarrow> need_repeat (rep t) \<and> n + period (rep t) \<le> p)
        (fired (run_cron es))"
proof -
  have "after_period rep = (\<lambda>(_, n, t) (p, _, t'). t = t' \<longrightarrow> need_repeat (rep t) \<and> n + period (rep t) \<le> p)"
    by (auto simp: fun_eq_iff after_period_def)
  then show ?thesis
    using run_cron_inv [OF assms] by (auto simp: cron_inv_def)
qed

text \<open>A task every hour that skips no turn, with the thread running at three times.\<close>

definition hourly :: repeat where
  "hourly = \<lparr>rep_day = 0, rep_hour = 1, rep_min = 0, rep_second = 0\<rparr>"

definition hourly_history :: "nat cron_event list" where
  "hourly_history = [Push_event 5 0 hourly 0, Wake_event 7 True 8, Wake_event 3600000000008 True 3600000000008,
     Wake_event 3600000000009 True 3600000000010]"

lemma cron_turns_spaced_witness:
  "fired (run_cron hourly_history) = [(5, 7, 0), (3600000000008, 3600000000009, 0)]
   \<and> (7 :: int) + period hourly \<le> 3600000000008"
proof -
  have f: "fired (run_cron hourly_history) = [(5, 7, 0), (3600000000008, 3600000000009, 0)]"
    by code_simp
  have "distinct (concat (map pushed_by hourly_history))" "\<forall>e\<in>set hourly_history. regular (\<lambda>_. hourly) e"
    by (simp_all add: hourly_history_def)
  from cron_turns_spaced [OF this] show ?thesis
    by (simp add: f period_def period_seconds_def hourly_def)
qed

section \<open>Tasks that never run\<close>

definition skipped_once :: "'a cron_event \<Rightarrow> bool" where
  "skipped_once e = (case e of Push_event p t r k \<Rightarrow> \<not> need_repeat r \<and> 0 < k | _ \<Rightarrow> True)"

definition no_turn_left :: "'a cron \<Rightarrow> bool" where
  "no_turn_left s \<longleftrightarrow> fired s = []
     \<and> (\<forall>(p, c)\<in>set (cron_tasks s). \<not> need_repeat (ct_repeat c) \<and> 0 < ct_skip c)"

lemma no_turn_left_step: "no_turn_left s \<Longrightarrow> skipped_once e \<Longrightarrow> no_turn_left (cron_step e s)"
proof (cases e)
  case (Push_event p t r k)
  moreover assume "no_turn_left s" "skipped_once e"
  ultimately show ?thesis
    using set_emplace [of p "\<lparr>ct_task = t, ct_repeat = r, ct_skip = k\<rparr>" "cron_tasks s"]
    by (fastforce simp: no_turn_left_def skipped_once_def push_cron_def)
next
  case (Wake_event now a now2)
  moreover assume s: "no_turn_left s"
  moreover have "no_turn_left (wake_cron now a now2 s)"
  proof (rule wake_cron_cases [of now a now2 s])
    fix p c q
    assume q: "cron_tasks s = (p, c) # q"
      "wake_cron now a now2 s = run_first now a now2 p c (s\<lparr>cron_tasks := q\<rparr>)"
    have c: "\<not> need_repeat (ct_repeat c)" "0 < ct_skip c" "no_turn_left (s\<lparr>cron_tasks := q\<rparr>)"
      using s q(1) by (auto simp: no_turn_left_def)
    have "cron_tasks (run_first now a now2 p c (s\<lparr>cron_tasks := q\<rparr>)) = q"
      by (rule run_first_tasks [of now a now2 p c "s\<lparr>cron_tasks := q\<rparr>"]) (use c(1) in simp_all)
    then show ?thesis
      using c run_first_log [of now a now2 p c "s\<lparr>cron_tasks := q\<rparr>"]
      by (simp add: q(2) no_turn_left_def)
  qed (use s in \<open>simp add: no_turn_left_def\<close>)
  ultimately show ?thesis by simp
qed (simp add: no_turn_left_def stop_cron_def)

lemma run_cron_no_turn: "\<forall>e\<in>set es. skipped_once e \<Longrightarrow> no_turn_left (run_cron es)"
proof (induction es rule: rev_induct)
  case Nil
  show ?case by (simp add: no_turn_left_def new_cron_def)
next
  case (snoc e es)
  then show ?case by (simp add: no_turn_left_step)
qed

text \<open>
  What the scheduler loses. A task that is pushed with the default arguments (no
  repetition, one turn to skip) never runs, whatever else happens, if all tasks are of this
  kind. A task pushed at a time that is taken is discarded. A task pushed before the one the
  thread sleeps for does not shorten the sleep: after its notification the thread sleeps on
  until the old deadline. When the only task leaves the map, the thread reads the first
  element of the empty map.
\<close>

theorem cron_loses_tasks:
  "((\<forall>e\<in>set es. skipped_once e) \<longrightarrow> fired (run_cron es) = [])
   \<and> push_default p t s = cron_step (Push_event p t no_repeat 1) s \<and> skipped_once (Push_event p t no_repeat 1)
   \<and> (sorted_keys (cron_tasks s) \<and> p \<in> fst ` set (cron_tasks s) \<longrightarrow> push_cron p t r k s = s)
   \<and> (cron_pc s = Sleeping d \<and> \<not> cron_done s \<and> (\<forall>(p', _)\<in>set (cron_tasks s). d \<le> p') \<and> now < p \<and> p < d
      \<longrightarrow> cron_pc (wake_cron now a now2 (push_cron p t r k s)) = Sleeping d
        \<and> fst (hd (cron_tasks (wake_cron now a now2 (push_cron p t r k s)))) = p)
   \<and> (cron_tasks s = [(p, c)] \<and> cron_pc s = Top \<and> \<not> cron_done s \<and> p \<le> now
      \<and> \<not> need_repeat (ct_repeat c) \<and> (ct_skip c \<le> 0 \<longrightarrow> a) \<longrightarrow> cron_pc (wake_cron now a now2 s) = Broken)"
proof (intro conjI impI)
  assume "\<forall>e\<in>set es. skipped_once e"
  then show "fired (run_cron es) = []"
    using run_cron_no_turn [of es] by (simp add: no_turn_left_def)
next
  show "push_default p t s = cron_step (Push_event p t no_repeat 1) s" by (simp add: push_default_def)
  show "skipped_once (Push_event p t no_repeat 1)"
    by (simp add: skipped_once_def no_repeat_def need_repeat_def)
next
  assume "sorted_keys (cron_tasks s) \<and> p \<in> fst ` set (cron_tasks s)"
  then show "push_cron p t r k s = s" by (simp add: push_cron_def emplace_occupied)
next
  assume early: "cron_pc s = Sleeping d \<and> \<not> cron_done s \<and> (\<forall>(p', _)\<in>set (cron_tasks s). d \<le> p') \<and> now < p \<and> p < d"
  then have "wake_cron now a now2 (push_cron p t r k s) = push_cron p t r k s"
    "fst (hd (cron_tasks (push_cron p t r k s))) = p"
    by (cases "cron_tasks s"; auto simp: push_cron_def wake_cron_def)+
  then show "cron_pc (wake_cron now a now2 (push_cron p t r k s)) = Sleeping d"
    "fst (hd (cron_tasks (wake_cron now a now2 (push_cron p t r k s)))) = p"
    using early by (simp_all add: push_cron_def)
next
  assume "cron_tasks s = [(p, c)] \<and> cron_pc s = Top \<and> \<not> cron_done s \<and> p \<le> now
      \<and> \<not> need_repeat (ct_repeat c) \<and> (ct_skip c \<le> 0 \<longrightarrow> a)"
  then show "cron_pc (wake_cron now a now2 s) = Broken"
    by (auto simp: wake_cron_def cron_body_def run_first_def go_to_sleep_def Let_def)
qed

text \<open>A default push that runs out, and an early push while the thread sleeps until 100.\<close>

lemma cron_loses_tasks_witness:
  "fired (run_cron [Push_event 1 (0 :: nat) no_repeat 1, Wake_event 2 True 2]) = []
   \<and> cron_pc (wake_cron 10 True 10 (push_cron 50 (1 :: nat) no_repeat 0
        (run_cron [Push_event 100 0 no_repeat 0, Wake_event 1 True 1]))) = Sleeping 100"
proof (rule conjI)
  let ?es = "[Push_event 1 (0 :: nat) no_repeat 1, Wake_event 2 True 2]"
  have "\<forall>e\<in>set ?es. skipped_once e"
    by (simp add: skipped_once_def no_repeat_def need_repeat_def)
  then show "fired (run_cron ?es) = []"
    using conjunct1 [OF cron_loses_tasks [where es = ?es]] by simp
next
  let ?s = "run_cron [Push_event 100 (0 :: nat) no_repeat 0, Wake_event 1 True 1]"
  have s: "cron_pc ?s = Sleeping 100" "\<not> cron_done ?s" "\<forall>(p, _)\<in>set (cron_tasks ?s). 100 \<le> p"
    by (simp_all add: run_cron_def new_cron_def push_cron_def wake_cron_def cron_body_def go_to_sleep_def)
  show "cron_pc (wake_cron 10 True 10 (push_cron 50 1 no_repeat 0 ?s)) = Sleeping 100"
    using cron_loses_tasks [of _ 50 1 ?s no_repeat 0 100 10 True 10] s by auto
qed

end
