(* ===== verification/FileSystem.thy ===== *)
theory FileSystem
  imports Effects
begin

text \<open>
  The files of filesystem.h: opening with a missing directory, reading with an offset,
  byte order marks, writing, appending and prepending, and the lexical test of a path below
  a root. The platform's file system is a map from paths to regular files and directories;
  links, permissions and a full disk are left out. Paths in the file system are lists of
  names from the root.
\<close>

section \<open>The platform\<close>

datatype fs_entry = Regular string | Directory

type_synonym fs_path = "string list"
type_synonym fs = "fs_path \<rightharpoonup> fs_entry"

definition entry_at :: "fs \<Rightarrow> fs_path \<Rightarrow> fs_entry option" where
  "entry_at w p = (if p = [] then Some Directory else w p)"

definition fs_exists :: "fs \<Rightarrow> fs_path \<Rightarrow> bool" where
  "fs_exists w p \<longleftrightarrow> entry_at w p \<noteq> None"

definition is_regular :: "fs \<Rightarrow> fs_path \<Rightarrow> bool" where
  "is_regular w p \<longleftrightarrow> (case entry_at w p of Some (Regular _) \<Rightarrow> True | _ \<Rightarrow> False)"

definition is_directory :: "fs \<Rightarrow> fs_path \<Rightarrow> bool" where
  "is_directory w p \<longleftrightarrow> entry_at w p = Some Directory"

definition parent_path :: "fs_path \<Rightarrow> fs_path" where
  "parent_path p = butlast p"

text \<open>\<open>fs::filesystem_error\<close>, which is a \<open>std::runtime_error\<close>; its text is the library's.\<close>

definition filesystem_error :: cpp_error where
  "filesystem_error = Runtime_error ''filesystem error''"

definition file_size :: "fs_path \<Rightarrow> (fs, nat) io" where
  "file_size p w = (case entry_at w p of
     Some (Regular c) \<Rightarrow> (Inr (length c), w)
   | _ \<Rightarrow> (Inl filesystem_error, w))"

definition with_directories :: "fs_path \<Rightarrow> fs \<Rightarrow> fs" where
  "with_directories p w = (\<lambda>q. if q \<noteq> [] \<and> prefix q p then Some Directory else w q)"

definition create_directories :: "fs_path \<Rightarrow> (fs, unit) io" where
  "create_directories p w =
     (if list_ex (is_regular w) (prefixes p) then (Inl filesystem_error, w)
      else (Inr (), with_directories p w))"

text \<open>
  \<open>fopen\<close> with the modes rb, wb and ab. POSIX opens a directory for reading (the reads fail);
  a file is created only in an existing directory.
\<close>

datatype open_mode = Read_mode | Write_mode | Append_mode

fun fopen :: "open_mode \<Rightarrow> fs_path \<Rightarrow> fs \<Rightarrow> fs option" where
  "fopen Read_mode p w = (if fs_exists w p then Some w else None)"
| "fopen Write_mode p w =
     (if is_directory w p \<or> \<not> is_directory w (parent_path p) then None else Some (w(p \<mapsto> Regular [])))"
| "fopen Append_mode p w =
     (if is_directory w p \<or> \<not> is_directory w (parent_path p) then None
      else if is_regular w p then Some w else Some (w(p \<mapsto> Regular [])))"

definition fwrite :: "fs_path \<Rightarrow> string \<Rightarrow> fs \<Rightarrow> fs" where
  "fwrite p s w = (case w p of Some (Regular c) \<Rightarrow> w(p \<mapsto> Regular (c @ s)) | _ \<Rightarrow> w)"

section \<open>Opening\<close>

text \<open>The message of the error also names the file, the mode and errno.\<close>

definition cannot_open :: cpp_error where
  "cannot_open = Runtime_error ''Cannot open file''"

definition fopen_checked :: "open_mode \<Rightarrow> fs_path \<Rightarrow> (fs, unit) io" where
  "fopen_checked m p w = (case fopen m p w of
     Some w \<Rightarrow> (Inr (), w)
   | None \<Rightarrow>
       if m = Read_mode then (Inl cannot_open, w)
       else io_bind (create_directories (parent_path p))
         (\<lambda>_ w. case fopen m p w of Some w \<Rightarrow> (Inr (), w) | None \<Rightarrow> (Inl cannot_open, w)) w)"

definition create_file :: "fs_path \<Rightarrow> (fs, unit) io" where
  "create_file p = io_bind (create_directories (parent_path p))
     (\<lambda>_ w. case fopen Write_mode p w of Some w \<Rightarrow> (Inr (), w) | None \<Rightarrow> (Inl Undefined, w))"

section \<open>Reading\<close>

definition bytes_of :: "fs_entry option \<Rightarrow> string" where
  "bytes_of e = (case e of Some (Regular c) \<Rightarrow> c | _ \<Rightarrow> [])"

text \<open>
  The string is resized to the count before the bytes are read into it, so that it keeps zero
  bytes behind the end of the file. The count defaults to the size less the offset, modulo
  \<open>2 ^ 64\<close>; \<open>resize\<close> refuses what is over the greatest size of a string. \<open>fseek\<close> fails for an
  offset that is negative as a \<open>long\<close>, and reading then starts at the front.
\<close>

definition read_at :: "string \<Rightarrow> 64 word \<Rightarrow> nat \<Rightarrow> string" where
  "read_at c offset n =
     (let s = take n (drop (if sint offset < 0 then 0 else unat offset) c)
      in s @ replicate (n - length s) CHR 0x00)"

definition read_count :: "64 word \<Rightarrow> fs_path \<Rightarrow> (fs, nat) io" where
  "read_count offset p = io_bind (file_size p) (\<lambda>n. io_return (unat (of_nat n - offset)))"

definition read_file :: "fs_path \<Rightarrow> 64 word \<Rightarrow> nat option \<Rightarrow> (fs, string) io" where
  "read_file p offset count =
     io_bind (fopen_checked Read_mode p) (\<lambda>_.
     io_bind (case count of None \<Rightarrow> read_count offset p | Some n \<Rightarrow> io_return n) (\<lambda>n w.
       if 2 ^ 63 \<le> n then (Inl Length_error, w)
       else (Inr (read_at (bytes_of (entry_at w p)) offset n), w)))"

definition boms :: "string list" where
  "boms = [
     [CHR 0xEF, CHR 0xBB, CHR 0xBF],
     [CHR 0xFE, CHR 0xFF], [CHR 0xFF, CHR 0xFE],
     [CHR 0x00, CHR 0x00, CHR 0xFE, CHR 0xFF], [CHR 0xFF, CHR 0xFE, CHR 0x00, CHR 0x00],
     [CHR 0x2B, CHR 0x2F, CHR 0x76, CHR 0x38], [CHR 0x2B, CHR 0x2F, CHR 0x76, CHR 0x39], [CHR 0x2B, CHR 0x2F, CHR 0x76, CHR 0x2B], [CHR 0x2B, CHR 0x2F, CHR 0x76, CHR 0x2F],
     [CHR 0x2B, CHR 0x2F, CHR 0x76, CHR 0x38, CHR 0x2D],
     [CHR 0xF7, CHR 0x64, CHR 0x4C],
     [CHR 0xDD, CHR 0x73, CHR 0x66, CHR 0x73],
     [CHR 0x0E, CHR 0xFE, CHR 0xFF],
     [CHR 0xFB, CHR 0xEE, CHR 0x28],
     [CHR 0x84, CHR 0x31, CHR 0x95, CHR 0x33]]"

definition find_bom :: "string \<Rightarrow> string option" where
  "find_bom s = find (\<lambda>b. length b \<le> length s \<and> take (length b) s = b) boms"

definition read_file_without_bom :: "fs_path \<Rightarrow> 64 word \<Rightarrow> nat option \<Rightarrow> (fs, string) io" where
  "read_file_without_bom p after count =
     io_bind (read_file p 0 (Some (foldr max (map length boms) 0))) (\<lambda>s.
       case find_bom s of
         Some b \<Rightarrow> read_file p (of_nat (length b) + after) count
       | None \<Rightarrow> read_file p after count)"

section \<open>Writing\<close>

definition write_file1 :: "fs_path \<Rightarrow> string \<Rightarrow> open_mode \<Rightarrow> (fs, unit) io" where
  "write_file1 p s m =
     io_bind (create_directories (parent_path p)) (\<lambda>_.
     io_bind (fopen_checked m p) (\<lambda>_ w. (Inr (), fwrite p s w)))"

definition write_file :: "fs_path \<Rightarrow> string \<Rightarrow> (fs, unit) io" where
  "write_file p s = write_file1 p s Write_mode"

definition write_file_if_different :: "fs_path \<Rightarrow> string \<Rightarrow> (fs, bool) io" where
  "write_file_if_different p s w =
     (if fs_exists w p then
        io_bind (read_file p 0 None) (\<lambda>s2.
          if s = s2 then io_return False else io_bind (write_file p s) (\<lambda>_. io_return True)) w
      else io_bind (write_file p s) (\<lambda>_. io_return True) w)"

definition write_file_if_not_exists :: "fs_path \<Rightarrow> string \<Rightarrow> (fs, unit) io" where
  "write_file_if_not_exists p s w = (if fs_exists w p then (Inr (), w) else write_file p s w)"

definition prepend_file :: "fs_path \<Rightarrow> string \<Rightarrow> (fs, unit) io" where
  "prepend_file p s = io_bind (read_file p 0 None) (\<lambda>s2. write_file p (s @ s2))"

definition append_file :: "fs_path \<Rightarrow> string \<Rightarrow> (fs, unit) io" where
  "append_file p s = write_file1 p s Append_mode"

definition write_lines :: "fs_path \<Rightarrow> string list \<Rightarrow> (fs, unit) io" where
  "write_lines p ls = write_file p (concat (map (\<lambda>s. s @ [NL]) ls))"

section \<open>Paths as texts\<close>

definition toupper :: "char \<Rightarrow> char" where
  "toupper c = (if 97 \<le> (of_char c :: nat) \<and> (of_char c :: nat) \<le> 122 then char_of ((of_char c :: nat) - 32) else c)"

fun set_uppercase_disk :: "string \<Rightarrow> string" where
  "set_uppercase_disk (c # d # s) = (if d = CHR '':'' then toupper c # d # s else c # d # s)"
| "set_uppercase_disk s = s"

text \<open>
  On POSIX \<open>normalize_string\<close> expands to nothing: backslashes stay, only the letter before a
  colon is changed.
\<close>

definition normalize_path :: "string \<Rightarrow> string" where
  "normalize_path p = (if p = [] then [] else set_uppercase_disk p)"

definition is_under_root_by_prefix_path :: "string \<Rightarrow> string \<Rightarrow> bool" where
  "is_under_root_by_prefix_path p root_dir \<longleftrightarrow>
     str_find (normalize_path root_dir) (normalize_path p) = Some 0
   \<and> str_find ''..'' (normalize_path p) = None"

section \<open>What is written is read back\<close>

lemma entry_at_root [simp]: "entry_at w [] = Some Directory"
  by (simp add: entry_at_def)

lemma is_directory_root [simp]: "is_directory w []"
  by (simp add: is_directory_def)

lemma with_directories_same: "is_directory (with_directories p w) p"
  by (simp add: is_directory_def entry_at_def with_directories_def)

lemma with_directories_other: "\<not> prefix q p \<Longrightarrow> with_directories p w q = w q"
  by (simp add: with_directories_def)

lemma with_directories_below: "p \<noteq> [] \<Longrightarrow> with_directories (butlast p) w p = w p"
proof -
  assume "p \<noteq> []"
  then have "\<not> prefix p (butlast p)" by (metis butlast_conv_take nat_less_le prefix_length_le length_butlast diff_Suc_less length_greater_0_conv not_less One_nat_def)
  then show ?thesis by (rule with_directories_other)
qed

text \<open>The paths where a file can be written.\<close>

definition writable :: "fs \<Rightarrow> fs_path \<Rightarrow> bool" where
  "writable w p \<longleftrightarrow> p \<noteq> [] \<and> w p \<noteq> Some Directory \<and> \<not> list_ex (is_regular w) (prefixes (butlast p))"

lemma write_mode_result:
  assumes "writable w p" "m \<noteq> Read_mode"
  shows "write_file1 p s m w =
    (Inr (), (with_directories (butlast p) w)(p \<mapsto> Regular ((if m = Append_mode then bytes_of (w p) else []) @ s)))"
proof -
  let ?w = "with_directories (butlast p) w"
  have p: "p \<noteq> []" and w: "?w p = w p" "w p \<noteq> Some Directory" and d: "is_directory ?w (parent_path p)"
    and c: "create_directories (parent_path p) w = (Inr (), ?w)"
    using assms by (auto simp: writable_def with_directories_below with_directories_same parent_path_def create_directories_def)
  have "\<exists>w'. fopen m p ?w = Some w' \<and>
      w' p = Some (Regular (if m = Append_mode then bytes_of (w p) else [])) \<and> w'(p := None) = ?w(p := None)"
    using p w d assms(2)
    by (cases m) (auto simp: is_directory_def is_regular_def entry_at_def bytes_of_def split: option.splits fs_entry.splits)
  then obtain w' where o: "fopen m p ?w = Some w'"
    and w': "w' p = Some (Regular (if m = Append_mode then bytes_of (w p) else []))" "w'(p := None) = ?w(p := None)" by blast
  have "fwrite p s w' = ?w(p \<mapsto> Regular ((if m = Append_mode then bytes_of (w p) else []) @ s))"
    using w' by (auto simp: fwrite_def fun_eq_iff split: if_splits)
  with o c show ?thesis
    by (simp add: write_file1_def io_bind_cases(2) fopen_checked_def)
qed

lemma write_refused:
  assumes "\<not> writable w p" "m \<noteq> Read_mode"
  shows "fst (write_file1 p s m w) \<in> {Inl filesystem_error, Inl cannot_open}"
proof (cases "list_ex (is_regular w) (prefixes (butlast p))")
  case True
  then show ?thesis by (simp add: write_file1_def io_bind_def create_directories_def parent_path_def)
next
  case False
  let ?w = "with_directories (butlast p) w"
  have d: "is_directory ?w p"
    using assms(1) False with_directories_below [of p w] by (auto simp: writable_def is_directory_def entry_at_def)
  then have n: "fopen m p ?w = None" using assms(2) by (cases m) auto
  moreover have "create_directories (butlast p) w = (Inr (), ?w)" using False by (simp add: create_directories_def)
  moreover have "fst (fopen_checked m p ?w) \<in> {Inl filesystem_error, Inl cannot_open}"
  proof (cases "create_directories (parent_path p) ?w")
    case (Pair r w2)
    have "fopen m p w2 = None" if "r = Inr ()"
    proof -
      have "w2 = with_directories (butlast p) ?w" using that Pair by (simp add: create_directories_def parent_path_def split: if_splits)
      then have "w2 = ?w" by (auto simp: with_directories_def)
      then show ?thesis using n by simp
    qed
    moreover have "r = Inr () \<or> r = Inl filesystem_error"
      using Pair by (auto simp: create_directories_def split: if_splits)
    ultimately show ?thesis using n Pair assms(2) by (auto simp: fopen_checked_def io_bind_def)
  qed
  ultimately show ?thesis
    by (auto simp: write_file1_def parent_path_def io_bind_def split: prod.splits sum.splits)
qed

lemma read_at_whole: "read_at c 0 (length c) = c"
  by (simp add: read_at_def)

lemma read_file_regular:
  assumes "p \<noteq> []" "w p = Some (Regular c)" "length c < 2 ^ 63"
  shows "read_file p 0 None w = (Inr c, w)"
proof -
  have "unat (of_nat (length c) :: 64 word) = length c"
    using assms(3) by (simp add: unsigned_of_nat take_bit_eq_mod)
  then show ?thesis
    using assms read_at_whole [of c]
    by (simp add: read_file_def io_bind_def fopen_checked_def fs_exists_def entry_at_def read_count_def file_size_def bytes_of_def)
qed

text \<open>
  C32: Writing a file. It succeeds exactly where no name on the way is a file and the path is no
  directory; then the missing directories exist, the file reads back as what was written, and
  nothing else has changed.
\<close>

theorem written_file:
  assumes "length s < 2 ^ 63"
  shows "if writable w p then
       (\<exists>w'. write_file p s w = (Inr (), w') \<and> read_file p 0 None w' = (Inr s, w')
          \<and> (\<forall>q. q \<noteq> [] \<longrightarrow> strict_prefix q p \<longrightarrow> is_directory w' q)
          \<and> (\<forall>q. \<not> prefix q p \<longrightarrow> w' q = w q))
     else fst (write_file p s w) \<in> {Inl filesystem_error, Inl cannot_open}"
proof (cases "writable w p")
  case True
  let ?w = "(with_directories (butlast p) w)(p \<mapsto> Regular s)"
  have p: "p \<noteq> []" using True by (simp add: writable_def)
  have "write_file p s w = (Inr (), ?w)"
    using write_mode_result [OF True, of Write_mode s] by (simp add: write_file_def)
  moreover have "read_file p 0 None ?w = (Inr s, ?w)" using p assms by (intro read_file_regular) auto
  moreover have "is_directory ?w q" if "q \<noteq> []" "strict_prefix q p" for q
    using that p prefix_snoc [of q "butlast p" "last p"] by (auto simp: is_directory_def entry_at_def with_directories_def)
  moreover have "?w q = w q" if "\<not> prefix q p" for q
    using that p by (auto simp: with_directories_def intro: prefix_order.trans [OF _ prefixI] dest: prefix_order.trans
        [OF _ prefixI [of p "butlast p" "[last p]"]])
  ultimately show ?thesis using True by (metis (no_types, lifting))
qed (use write_refused [of w p Write_mode s] in \<open>simp add: write_file_def\<close>)

lemma written_file_witness:
  "(\<exists>w'. write_file [''a'', ''b''] ''xy'' Map.empty = (Inr (), w') \<and> read_file [''a'', ''b''] 0 None w' = (Inr ''xy'', w'))
   \<and> fst (write_file [''a'', ''b''] ''xy'' [[''a''] \<mapsto> Regular []]) \<in> {Inl filesystem_error, Inl cannot_open}"
proof -
  have "writable Map.empty [''a'', ''b'']" "\<not> writable [[''a''] \<mapsto> Regular []] [''a'', ''b'']"
    by (simp_all add: writable_def is_regular_def entry_at_def)
  then show ?thesis
    using written_file [of "''xy''" Map.empty "[''a'', ''b'']"] written_file [of "''xy''" "[[''a''] \<mapsto> Regular []]" "[''a'', ''b'']"]
    by simp blast
qed

section \<open>Updates\<close>

lemma write_file_writable:
  "writable w p \<Longrightarrow> write_file p s w = (Inr (), (with_directories (butlast p) w)(p \<mapsto> Regular s))"
  using write_mode_result [of w p Write_mode s] by (simp add: write_file_def)

lemma fs_exists_at: "p \<noteq> [] \<Longrightarrow> fs_exists w p \<longleftrightarrow> w p \<noteq> None"
  by (simp add: fs_exists_def entry_at_def)

text \<open>
  Writing only what differs leaves the whole file system as it was when the file already holds
  the text, and otherwise is the same as writing; the result says which. Appending and
  prepending put the text on either side of what is there, and writing only a new file never
  touches an old one.
\<close>

lemma file_updates:
  assumes "writable w p" "length c < 2 ^ 63"
  shows "w p = Some (Regular c) \<Longrightarrow> write_file_if_different p s w =
      (if s = c then (Inr False, w) else (Inr True, snd (write_file p s w)))"
    and "w p = None \<Longrightarrow> write_file_if_different p s w = (Inr True, snd (write_file p s w))"
    and "w p = Some (Regular c) \<Longrightarrow> append_file p s w = write_file p (c @ s) w"
    and "w p = Some (Regular c) \<Longrightarrow> prepend_file p s w = write_file p (s @ c) w"
    and "w p = Some (Regular c) \<Longrightarrow> write_file_if_not_exists p s w = (Inr (), w)"
proof -
  have p: "p \<noteq> []" using assms(1) by (simp add: writable_def)
  note e = fs_exists_at [OF p]
  note r = read_file_regular [OF p _ assms(2)]
  show "w p = Some (Regular c) \<Longrightarrow> write_file_if_different p s w =
      (if s = c then (Inr False, w) else (Inr True, snd (write_file p s w)))"
    using e r by (simp add: write_file_if_different_def io_bind_def write_file_writable [OF assms(1)])
  show "w p = None \<Longrightarrow> write_file_if_different p s w = (Inr True, snd (write_file p s w))"
    using e by (simp add: write_file_if_different_def io_bind_def write_file_writable [OF assms(1)])
  show "w p = Some (Regular c) \<Longrightarrow> append_file p s w = write_file p (c @ s) w"
    using write_mode_result [OF assms(1), of Append_mode s]
    by (simp add: append_file_def write_file_writable [OF assms(1)] bytes_of_def)
  show "w p = Some (Regular c) \<Longrightarrow> prepend_file p s w = write_file p (s @ c) w"
    using r by (simp add: prepend_file_def io_bind_def write_file_writable [OF assms(1)])
  show "w p = Some (Regular c) \<Longrightarrow> write_file_if_not_exists p s w = (Inr (), w)"
    using e by (simp add: write_file_if_not_exists_def)
qed

section \<open>Byte order marks\<close>

text \<open>The marks that are never found, because a shorter one is found before them.\<close>

definition hidden_boms :: "string list" where
  "hidden_boms = [[CHR 0xFF, CHR 0xFE, CHR 0x00, CHR 0x00], [CHR 0x2B, CHR 0x2F, CHR 0x76, CHR 0x38, CHR 0x2D]]"

lemma boms_before:
  "list_all (\<lambda>b. list_all (\<lambda>b'. \<not> prefix b' b \<and> \<not> prefix b b') (takeWhile (\<lambda>x. x \<noteq> b) boms))
     (filter (\<lambda>b. b \<notin> set hidden_boms) boms)"
  by (simp add: boms_def hidden_boms_def)

lemma bom_length: "list_all (\<lambda>b. length b \<le> 5) boms" "foldr max (map length boms) 0 = 5"
  by (simp_all add: boms_def)

lemma find_append: "find P (xs @ ys) = (case find P xs of None \<Rightarrow> find P ys | Some y \<Rightarrow> Some y)"
  by (induction xs) auto

lemma dropWhile_found: "b \<in> set xs \<Longrightarrow> dropWhile (\<lambda>x. x \<noteq> b) xs = b # tl (dropWhile (\<lambda>x. x \<noteq> b) xs)"
  by (induction xs) auto

lemma find_bom_visible:
  assumes b: "b \<in> set boms" "b \<notin> set hidden_boms" and s: "prefix b s"
  shows "find_bom s = Some b"
proof -
  let ?P = "\<lambda>b. length b \<le> length s \<and> take (length b) s = b"
  have P: "?P b' \<longleftrightarrow> prefix b' s" for b'
  proof
    assume "?P b'"
    then show "prefix b' s" by (metis take_is_prefix)
  qed (auto simp: prefix_def)
  have "\<not> prefix b' s" if "b' \<in> set (takeWhile (\<lambda>x. x \<noteq> b) boms)" for b'
  proof -
    have "b \<in> set (filter (\<lambda>b. b \<notin> set hidden_boms) boms)" using b by simp
    from boms_before [unfolded list_all_iff, rule_format, OF this that] show ?thesis
      using prefix_same_cases [OF _ s, of b'] by blast
  qed
  then have n: "find ?P (takeWhile (\<lambda>x. x \<noteq> b) boms) = None"
    unfolding find_None_iff P by blast
  have "find ?P boms = find ?P (takeWhile (\<lambda>x. x \<noteq> b) boms @ b # tl (dropWhile (\<lambda>x. x \<noteq> b) boms))"
    by (simp only: dropWhile_found [OF b(1), symmetric] takeWhile_dropWhile_id)
  also have "\<dots> = Some b" using s P [of b] by (simp only: find_append n option.case find.simps if_True)
  finally show ?thesis by (simp only: find_bom_def)
qed

lemma read_behind:
  assumes "p \<noteq> []" "w p = Some (Regular (b @ t))" "length (b @ t) < 2 ^ 63"
  shows "read_file p (of_nat (length b)) None w = (Inr t, w)"
proof -
  let ?o = "of_nat (length b) :: 64 word"
  have o: "unat ?o = length b"
    using assms(3) by (simp add: unsigned_of_nat take_bit_eq_mod)
  have "unat (of_nat (length (b @ t)) - ?o) = length t"
    using assms(3) by (simp add: unsigned_of_nat take_bit_eq_mod)
  moreover have "0 \<le> sint ?o"
    using assms(3) by (simp add: sint_uint signed_take_bit_eq_if_positive bit_iff_odd unsigned_of_nat o uint_nat take_bit_nat_eq_self)
  ultimately show ?thesis
    using assms o
    by (simp add: read_file_def io_bind_def fopen_checked_def fs_exists_def entry_at_def read_count_def file_size_def
        bytes_of_def read_at_def)
qed

text \<open>
  Reading without the byte order mark. Every mark but the two hidden ones is removed from any
  text behind it. A mark of UTF-32 (little endian) is taken for one of UTF-16, and two zero
  bytes stay in front of the text.
\<close>

lemma without_bom:
  assumes p: "p \<noteq> []" and b: "b \<in> set boms" "b \<notin> set hidden_boms"
    and w: "w p = Some (Regular (b @ t))" "length (b @ t) < 2 ^ 63"
  shows "read_file_without_bom p 0 None w = (Inr t, w)"
proof -
  have l: "length b \<le> 5" using bom_length(1) b(1) by (simp add: list_all_iff)
  then have "prefix b (read_at (b @ t) 0 5)"
    by (simp add: read_at_def Let_def take_Cons' prefix_def)
  then have "find_bom (read_at (b @ t) 0 5) = Some b" by (rule find_bom_visible [OF b])
  then show ?thesis
    using p w read_behind [where p = p and w = w and b = b and t = t]
    by (simp add: read_file_without_bom_def bom_length(2) io_bind_def read_file_def [of p 0] fopen_checked_def fs_exists_def
        entry_at_def bytes_of_def)
qed

lemma utf32_bom_stays:
  assumes "p \<noteq> []" "w p = Some (Regular (CHR 0xFF # CHR 0xFE # CHR 0x00 # CHR 0x00 # t))" "length t < 2 ^ 62"
  shows "read_file_without_bom p 0 None w = (Inr (CHR 0x00 # CHR 0x00 # t), w)"
  using without_bom [of p "[CHR 0xFF, CHR 0xFE]" w "CHR 0x00 # CHR 0x00 # t"] assms
  by (simp add: boms_def hidden_boms_def)

section \<open>Below a root\<close>

text \<open>The names on the way of a path text: empty ones and dots do not move.\<close>

fun names_of :: "string \<Rightarrow> string \<Rightarrow> string list" where
  "names_of a [] = (if a = [] \<or> a = ''.'' then [] else [a])"
| "names_of a (c # s) = (if c = CHR ''/'' then names_of a [] @ names_of [] s else names_of (a @ [c]) s)"

lemma names_of_append: "names_of a (s @ CHR ''/'' # t) = names_of a (s @ ''/'') @ names_of [] t"
  by (induction a s rule: names_of.induct) auto

lemma names_of_sublist: "x \<in> set (names_of a s) \<Longrightarrow> sublist x (a @ s)"
proof (induction a s rule: names_of.induct)
  case (2 a c s)
  show ?case
  proof (cases "c = CHR ''/''")
    case True
    with "2.prems" consider "x = a" | "x \<in> set (names_of [] s)" by (auto split: if_splits)
    then show ?thesis
    proof cases
      case 2
      then have "sublist x s" using "2.IH"(2) True by simp
      then show ?thesis by (auto simp: sublist_def) (metis append_Cons append_assoc)
    qed simp
  next
    case False
    then show ?thesis using 2 by auto
  qed
qed (auto split: if_splits)

lemma str_find_sublist: "str_find pat s = None \<longleftrightarrow> \<not> sublist pat s"
  by (induction s) (auto simp: sublist_Cons_right)

lemma str_find_prefix: "str_find pat s = Some 0 \<longleftrightarrow> prefix pat s"
  by (cases s) auto

text \<open>
  The lexical test of a path below a root. If the root is written with a slash at its end,
  a path that passes has the names of the root as its first names and goes nowhere up. Without
  the slash the test also passes for the siblings whose names begin with the name of the root.
\<close>

theorem under_root_contained:
  assumes "is_under_root_by_prefix_path p root_dir" "root_dir \<noteq> []" "last root_dir = CHR ''/''"
  shows "prefix (names_of [] (normalize_path root_dir)) (names_of [] (normalize_path p))
    \<and> ''..'' \<notin> set (names_of [] (normalize_path p))
    \<and> is_under_root_by_prefix_path ''/srv/data-old/x'' ''/srv/data''"
proof -
  let ?r = "normalize_path root_dir" and ?p = "normalize_path p"
  have "?r \<noteq> [] \<and> last ?r = CHR ''/''"
    using assms(2,3) by (cases root_dir rule: set_uppercase_disk.cases) (auto simp: normalize_path_def)
  then obtain r where r: "?r = r @ ''/''" by (metis append_butlast_last_id)
  moreover obtain t where t: "?p = ?r @ t"
    using assms(1) by (auto simp: is_under_root_by_prefix_path_def str_find_prefix prefix_def)
  ultimately have "names_of [] ?p = names_of [] ?r @ names_of [] t"
    using names_of_append [of "[]" r t] by simp
  moreover have "''..'' \<notin> set (names_of [] ?p)"
    using assms(1) names_of_sublist [of "''..''" "[]" ?p]
    by (auto simp: is_under_root_by_prefix_path_def str_find_sublist)
  moreover have "is_under_root_by_prefix_path ''/srv/data-old/x'' ''/srv/data''" by code_simp
  ultimately show ?thesis by simp
qed

lemma under_root_contained_witness:
  "prefix (names_of [] ''/srv/data/'') (names_of [] ''/srv/data/a/b'')"
proof -
  have "is_under_root_by_prefix_path ''/srv/data/a/b'' ''/srv/data/''" by code_simp
  from under_root_contained [OF this] show ?thesis by (simp add: normalize_path_def)
qed

text \<open>On POSIX the normalized path of a file whose name has a colon at the second place is another file.\<close>

lemma normalize_path_changes: "normalize_path ''a:b'' = ''A:b'' \<and> normalize_path [CHR ''d'', CHR 0x5C, CHR ''f''] = [CHR ''d'', CHR 0x5C, CHR ''f'']"
  by code_simp

end
