(* ===== verification/FileIterator.thy ===== *)
theory FileIterator
  imports FileSystem
begin

text \<open>
  file_iterator.h: several files read block by block side by side, and the comparison of two
  files and of two lists of files. A stream has a position and the end-of-file flag, which is
  set by a read that gets less than it asked for.
\<close>

section \<open>Streams\<close>

record file_stream =
  stream_bytes :: string
  stream_pos :: nat
  at_eof :: bool

definition stream_read :: "nat \<Rightarrow> file_stream \<Rightarrow> string \<times> file_stream" where
  "stream_read n st =
     (let s = take n (drop (stream_pos st) (stream_bytes st))
      in (s, st\<lparr>stream_pos := stream_pos st + length s, at_eof := at_eof st \<or> length s < n\<rparr>))"

section \<open>The iterator\<close>

definition iter_buffer_size :: nat where
  "iter_buffer_size = 8192"

record iter_file =
  ifile :: file_stream
  isize :: nat
  buf :: string
  iread :: nat

definition open_one :: "fs_path \<Rightarrow> (fs, iter_file) io" where
  "open_one p = io_bind (file_size p) (\<lambda>n. io_bind (fopen_checked Read_mode p) (\<lambda>_ w.
     (Inr \<lparr>ifile = \<lparr>stream_bytes = bytes_of (entry_at w p), stream_pos = 0, at_eof = False\<rparr>,
           isize = n, buf = [], iread = 0\<rparr>, w)))"

fun open_all :: "fs_path list \<Rightarrow> (fs, iter_file list) io" where
  "open_all [] = io_return []"
| "open_all (p # ps) = io_bind (open_one p) (\<lambda>f. io_bind (open_all ps) (\<lambda>fs. io_return (f # fs)))"

definition file_iterator :: "fs_path list \<Rightarrow> (fs, iter_file list) io" where
  "file_iterator ps = (if ps = [] then io_throw (Runtime_error ''Provide at least one file'') else open_all ps)"

definition is_same_size :: "iter_file list \<Rightarrow> bool" where
  "is_same_size fs \<longleftrightarrow> (\<forall>f\<in>set fs. isize f = isize (hd fs))"

definition is_same_read_size :: "iter_file list \<Rightarrow> bool" where
  "is_same_read_size fs \<longleftrightarrow> (\<forall>f\<in>set fs. iread f = iread (hd fs))"

text \<open>A block goes to the front of the buffer; what an earlier block left behind it stays.\<close>

definition read_block :: "iter_file \<Rightarrow> iter_file" where
  "read_block f = (case stream_read iter_buffer_size (ifile f) of (s, st) \<Rightarrow>
     f\<lparr>ifile := st, buf := s @ drop (length s) (buf f), iread := length s\<rparr>)"

definition unread :: "file_stream \<Rightarrow> nat" where
  "unread st = (if at_eof st then 0 else Suc (length (stream_bytes st) - stream_pos st))"

lemma unread_read_block: "\<not> at_eof (ifile f) \<Longrightarrow> unread (ifile (read_block f)) < unread (ifile f)"
  by (auto simp: unread_def read_block_def stream_read_def Let_def iter_buffer_size_def)

text \<open>The callback gets the whole buffers and the number of bytes; it can stop the loop.\<close>

function iterate_loop :: "(string list \<Rightarrow> nat \<Rightarrow> 's \<Rightarrow> bool \<times> 's) \<Rightarrow> iter_file list \<Rightarrow> 's \<Rightarrow> bool \<times> 's" where
  "iterate_loop g fs st =
     (if fs = [] \<or> list_ex (\<lambda>f. at_eof (ifile f)) fs then (True, st)
      else let fs' = map read_block fs
        in if \<not> is_same_read_size fs' then (False, st)
           else case g (map buf fs') (iread (hd fs')) st of
               (False, st') \<Rightarrow> (False, st')
             | (True, st') \<Rightarrow> iterate_loop g fs' st')"
  by pat_completeness auto
termination
  by (relation "measure (\<lambda>(g, fs, st). unread (ifile (hd fs)))")
    (auto simp: list_ex_iff hd_map intro: unread_read_block)

declare iterate_loop.simps [simp del]

text \<open>Without files the loop would not end; the constructor refuses that.\<close>

definition iterate :: "(string list \<Rightarrow> nat \<Rightarrow> 's \<Rightarrow> bool \<times> 's) \<Rightarrow> iter_file list \<Rightarrow> 's \<Rightarrow> (bool \<times> 's) result" where
  "iterate g fs st =
     (if fs = [] then Inl Undefined
      else if \<not> is_same_size fs then Inr (False, st)
      else Inr (iterate_loop g (map (\<lambda>f. f\<lparr>buf := replicate iter_buffer_size CHR 0x00\<rparr>) fs) st))"

definition compare_files :: "fs_path \<Rightarrow> fs_path \<Rightarrow> (fs, bool) io" where
  "compare_files p q =
     io_bind (file_iterator [p, q]) (\<lambda>fs.
     lift_result (bind_result (iterate (\<lambda>bufs n u. (take n (bufs ! 0) = take n (bufs ! 1), u)) fs ())
       (\<lambda>r. Inr (fst r))))"

text \<open>
  The directories are given by the regular files below them, in the order of the
  traversal; the names are not compared.
\<close>

fun compare_all :: "fs_path list \<Rightarrow> fs_path list \<Rightarrow> (fs, bool) io" where
  "compare_all (p # ps) (q # qs) =
     io_bind (compare_files p q) (\<lambda>b. if b then compare_all ps qs else io_return False)"
| "compare_all _ _ = io_return True"

definition compare_dirs :: "(fs \<Rightarrow> fs_path \<Rightarrow> fs_path list) \<Rightarrow> fs_path \<Rightarrow> fs_path \<Rightarrow> (fs, bool) io" where
  "compare_dirs traverse p q w =
     (let files1 = traverse w p; files2 = traverse w q
      in if files1 = [] \<or> files2 = [] \<or> length files1 \<noteq> length files2 then (Inr False, w)
         else compare_all files1 files2 w)"

section \<open>Blocks\<close>

text \<open>The blocks that the callback sees, and a loop over them that can stop.\<close>

function blocks :: "string list \<Rightarrow> string list list" where
  "blocks cs = map (take iter_buffer_size) cs #
     (if cs = [] \<or> length (hd cs) < iter_buffer_size then [] else blocks (map (drop iter_buffer_size) cs))"
  by pat_completeness auto
termination
  by (relation "measure (\<lambda>cs. length (hd cs))") (auto simp: hd_map iter_buffer_size_def)

declare blocks.simps [simp del]

fun run_blocks :: "('b \<Rightarrow> 's \<Rightarrow> bool \<times> 's) \<Rightarrow> 'b list \<Rightarrow> 's \<Rightarrow> bool \<times> 's" where
  "run_blocks g [] st = (True, st)"
| "run_blocks g (b # bs) st = (case g b st of (False, st') \<Rightarrow> (False, st') | (True, st') \<Rightarrow> run_blocks g bs st')"

definition rest_of :: "iter_file \<Rightarrow> string" where
  "rest_of f = drop (stream_pos (ifile f)) (stream_bytes (ifile f))"

lemma read_block_views:
  "iread (read_block f) = length (take iter_buffer_size (rest_of f))"
  "take (iread (read_block f)) (buf (read_block f)) = take iter_buffer_size (rest_of f)"
  "rest_of (read_block f) = drop iter_buffer_size (rest_of f)"
  "at_eof (ifile (read_block f)) \<longleftrightarrow> at_eof (ifile f) \<or> length (rest_of f) < iter_buffer_size"
  by (auto simp: read_block_def stream_read_def rest_of_def Let_def add.commute min_def)

lemma iterate_loop_blocks:
  assumes g: "\<And>bufs n st. length bufs = k \<Longrightarrow> g bufs n st = h (map (take n) bufs) st"
  shows "length fs = k \<Longrightarrow> fs \<noteq> [] \<Longrightarrow> \<forall>f\<in>set fs. \<not> at_eof (ifile f) \<Longrightarrow> \<forall>f\<in>set fs. length (rest_of f) = n \<Longrightarrow>
    iterate_loop g fs st = run_blocks h (blocks (map rest_of fs)) st"
proof (induction n arbitrary: fs st rule: less_induct)
  case (less n)
  let ?fs = "map read_block fs" and ?b = "map (take iter_buffer_size \<circ> rest_of) fs"
  note prems = less.prems(2-4)
  have len: "iread f = min n iter_buffer_size" if "f \<in> set ?fs" for f
    using that prems(3) by (auto simp: read_block_views(1))
  have hd: "hd ?fs \<in> set ?fs" using prems(1) by (cases fs) auto
  have same: "is_same_read_size ?fs" using len hd by (auto simp: is_same_read_size_def)
  have bufs: "g (map buf ?fs) (iread (hd ?fs)) st = h ?b st"
  proof -
    have "map (take (iread (hd ?fs))) (map buf ?fs) = ?b"
    proof (rule nth_equalityI)
      fix i assume "i < length (map (take (iread (hd ?fs))) (map buf ?fs))"
      then have i: "i < length fs" by simp
      then have "iread (hd ?fs) = iread (read_block (fs ! i))" using len [OF hd] len [of "read_block (fs ! i)"] by simp
      then show "map (take (iread (hd ?fs))) (map buf ?fs) ! i = ?b ! i"
        using i read_block_views(2) [of "fs ! i"] by simp
    qed simp
    moreover have "g (map buf ?fs) (iread (hd ?fs)) st = h (map (take (iread (hd ?fs))) (map buf ?fs)) st"
      using less.prems(1) by (intro g) simp
    ultimately show ?thesis by (simp only:)
  qed
  have step: "iterate_loop g fs st =
      (case h ?b st of (False, st') \<Rightarrow> (False, st') | (True, st') \<Rightarrow> iterate_loop g ?fs st')"
    using prems(1,2) same bufs by (subst iterate_loop.simps) (auto simp: list_ex_iff Let_def)
  have first: "length (hd (map rest_of fs)) = n" using prems(1,3) by (cases fs) auto
  have unfold: "run_blocks h (blocks (map rest_of fs)) st = (case h ?b st of (False, st') \<Rightarrow> (False, st')
      | (True, st') \<Rightarrow> run_blocks h (if n < iter_buffer_size then [] else blocks (map (drop iter_buffer_size \<circ> rest_of) fs)) st')"
    unfolding blocks.simps [of "map rest_of fs"] map_map using first prems(1) by simp
  have "iterate_loop g ?fs st' = run_blocks h (if n < iter_buffer_size then [] else blocks (map (drop iter_buffer_size \<circ> rest_of) fs)) st'" for st'
  proof (cases "n < iter_buffer_size")
    case True
    then have "list_ex (\<lambda>f. at_eof (ifile f)) ?fs"
      using prems(1,3) by (cases fs) (auto simp: read_block_views(4))
    then show ?thesis using True by (subst iterate_loop.simps) simp
  next
    case False
    have "iterate_loop g ?fs st' = run_blocks h (blocks (map rest_of ?fs)) st'"
      using less.prems False
      by (intro less.IH [of "n - iter_buffer_size"]) (auto simp: read_block_views iter_buffer_size_def)
    moreover have "map rest_of ?fs = map (drop iter_buffer_size \<circ> rest_of) fs"
      by (simp add: comp_def read_block_views(3))
    ultimately show ?thesis using False by (simp only: if_False)
  qed
  then show ?case by (simp only: step unfold)
qed

lemma open_one_regular:
  "p \<noteq> [] \<Longrightarrow> w p = Some (Regular c) \<Longrightarrow> open_one p w =
    (Inr \<lparr>ifile = \<lparr>stream_bytes = c, stream_pos = 0, at_eof = False\<rparr>, isize = length c, buf = [], iread = 0\<rparr>, w)"
  by (simp add: open_one_def io_bind_def file_size_def entry_at_def fopen_checked_def fs_exists_def bytes_of_def)

lemma open_all_regular:
  "list_all2 (\<lambda>p c. p \<noteq> [] \<and> w p = Some (Regular c)) ps cs \<Longrightarrow>
    open_all ps w = (Inr (map (\<lambda>c. \<lparr>ifile = \<lparr>stream_bytes = c, stream_pos = 0, at_eof = False\<rparr>,
      isize = length c, buf = [], iread = 0\<rparr>) cs), w)"
  by (induction ps cs rule: list_all2_induct) (simp_all add: io_bind_def open_one_regular)

text \<open>
  Iterating over files of the same size hands their blocks side by side to the callback, the
  last of them shorter than the buffer and maybe empty; files of different sizes are refused
  without a block being read.
\<close>

lemma iterate_files:
  assumes "list_all2 (\<lambda>p c. p \<noteq> [] \<and> w p = Some (Regular c)) ps cs" "ps \<noteq> []"
    and g: "\<And>bufs n st. length bufs = length cs \<Longrightarrow> g bufs n st = h (map (take n) bufs) st"
  shows "io_bind (file_iterator ps) (\<lambda>fs. lift_result (iterate g fs st)) w =
    (Inr (if \<forall>c\<in>set cs. length c = length (hd cs) then run_blocks h (blocks cs) st else (False, st)), w)"
proof -
  let ?f = "\<lambda>c. \<lparr>ifile = \<lparr>stream_bytes = c, stream_pos = 0, at_eof = False\<rparr>, isize = length c, buf = [], iread = 0\<rparr>"
  let ?fs = "map (\<lambda>f. f\<lparr>buf := replicate iter_buffer_size CHR 0x00\<rparr>) (map ?f cs)"
  have cs: "cs \<noteq> []" using assms(1,2) by auto
  have o: "file_iterator ps w = (Inr (map ?f cs), w)"
    using open_all_regular [OF assms(1)] assms(2) by (simp add: file_iterator_def)
  define S where "S \<longleftrightarrow> (\<forall>c\<in>set cs. length c = length (hd cs))"
  have s: "is_same_size (map ?f cs) \<longleftrightarrow> S"
    using cs by (auto simp: S_def is_same_size_def hd_map)
  have "iterate_loop g ?fs st = run_blocks h (blocks (map rest_of ?fs)) st" if S
  proof (rule iterate_loop_blocks [where n = "length (hd cs)" and k = "length cs"])
    show "g bufs n st = h (map (take n) bufs) st" if "length bufs = length cs" for bufs n st
      using that by (rule g)
    show "\<forall>f\<in>set ?fs. length (rest_of f) = length (hd cs)"
      unfolding rest_of_def set_map ball_simps image_iff using that by (simp add: S_def)
  qed (use cs in \<open>simp_all\<close>)
  moreover have "map rest_of ?fs = cs" by (simp add: rest_of_def comp_def)
  ultimately have "iterate g (map ?f cs) st =
      Inr (if S then run_blocks h (blocks cs) st else (False, st))"
    using cs by (simp add: iterate_def s)
  then show ?thesis unfolding io_bind_def o lift_result_def S_def by simp
qed

lemma run_blocks_compare:
  "length c = length d \<Longrightarrow> run_blocks (\<lambda>bs u. (bs ! 0 = bs ! 1, u)) (blocks [c, d]) () = (c = d, ())"
proof (induction "length c" arbitrary: c d rule: less_induct)
  case less
  show ?case
  proof (cases "length c < iter_buffer_size")
    case True
    with less.prems show ?thesis by (subst blocks.simps) (cases "c = d"; simp)
  next
    case False
    then have "run_blocks (\<lambda>bs u. (bs ! 0 = bs ! 1, u)) (blocks [drop iter_buffer_size c, drop iter_buffer_size d]) () =
        (drop iter_buffer_size c = drop iter_buffer_size d, ())"
      using less.prems by (intro less.hyps) (auto simp: iter_buffer_size_def)
    moreover have "c = d \<longleftrightarrow> take iter_buffer_size c = take iter_buffer_size d \<and> drop iter_buffer_size c = drop iter_buffer_size d"
      by (metis append_take_drop_id)
    ultimately show ?thesis
      using False by (subst blocks.simps) (cases "take iter_buffer_size c = take iter_buffer_size d"; simp)
  qed
qed

text \<open>Two files compare equal exactly when their contents are the same.\<close>

theorem compare_files_equal:
  assumes "p \<noteq> []" "q \<noteq> []" "w p = Some (Regular c)" "w q = Some (Regular d)"
  shows "compare_files p q w = (Inr (c = d), w)"
proof -
  let ?g = "\<lambda>bufs n (u :: unit). (take n (bufs ! 0) = take n (bufs ! 1), u)"
  have "io_bind (file_iterator [p, q]) (\<lambda>fs. lift_result (iterate ?g fs ())) w =
      (Inr (if \<forall>x\<in>set [c, d]. length x = length (hd [c, d])
        then run_blocks (\<lambda>bs u. (bs ! 0 = bs ! 1, u)) (blocks [c, d]) () else (False, ())), w)"
    using assms by (intro iterate_files) auto
  then show ?thesis
    using run_blocks_compare [of c d]
    by (auto simp: compare_files_def io_bind_def lift_result_def bind_result_def split: prod.splits sum.splits if_splits)
qed

lemma compare_files_equal_witness:
  "fst (compare_files [''a''] [''b''] [[''a''] \<mapsto> Regular ''xy'', [''b''] \<mapsto> Regular ''xz'']) = Inr False"
  using compare_files_equal [of "[''a'']" "[''b'']" "[[''a''] \<mapsto> Regular ''xy'', [''b''] \<mapsto> Regular ''xz'']" "''xy''" "''xz''"]
  by simp

end
