(* ===== verification/Conversions.thy ===== *)
theory Conversions
  imports Prelude
begin

text \<open>The conversions of the standard library from texts to integers.\<close>

text \<open>
  \<open>std::stoi\<close>, \<open>std::stoll\<close> and \<open>std::stoull\<close> on any text: leading white space, a sign, and as many
  digits as there are. \<open>stoull\<close> negates modulo \<open>2^64\<close>.
\<close>

definition invalid_argument :: "string \<Rightarrow> cpp_error" where
  "invalid_argument f = Logic_error f"

definition signed_digits :: "string \<Rightarrow> (bool \<times> string)" where
  "signed_digits s =
     (let t = dropWhile is_space s
      in if t \<noteq> [] \<and> (hd t = CHR ''-'' \<or> hd t = CHR ''+'') then (hd t = CHR ''-'', takeWhile is_digit (tl t))
         else (False, takeWhile is_digit t))"

definition std_sto :: "string \<Rightarrow> int \<Rightarrow> int \<Rightarrow> string \<Rightarrow> int result" where
  "std_sto f lo hi s =
     (case signed_digits s of (neg, d) \<Rightarrow>
        let n = (if neg then - int (digits_value d) else int (digits_value d))
        in if d = [] then Inl (invalid_argument f)
           else if n < lo \<or> n > hi then Inl Out_of_range
           else Inr n)"

definition std_stoi :: "string \<Rightarrow> int result" where
  "std_stoi = std_sto ''stoi'' (- int32_max - 1) int32_max"

definition std_stoll :: "string \<Rightarrow> int result" where
  "std_stoll = std_sto ''stoll'' int64_min int64_max"

definition std_stoull :: "string \<Rightarrow> int result" where
  "std_stoull s = bind_result (std_sto ''stoull'' (- (2 ^ 64) + 1) (2 ^ 64 - 1) s) (\<lambda>n. Inr (n mod 2 ^ 64))"

lemma std_sto_range: "std_sto f lo hi s = Inr n \<Longrightarrow> lo \<le> n \<and> n \<le> hi"
  by (auto simp: std_sto_def Let_def split: prod.splits if_splits)

lemma std_sto_to_string_append:
  assumes "lo \<le> n" "n \<le> hi" "rest = [] \<or> \<not> is_digit (hd rest)"
  shows "std_sto f lo hi (to_string n @ rest) = Inr n"
proof -
  have digits: "takeWhile is_digit (nat_to_string m @ rest) = nat_to_string m" for m
  proof -
    have "takeWhile is_digit (nat_to_string m @ rest) = nat_to_string m @ takeWhile is_digit rest"
      using nat_to_string_digits by (intro takeWhile_append2) blast
    then show ?thesis using assms(3) by (cases rest) auto
  qed
  have hd: "is_digit (hd (nat_to_string m))" for m
    by (rule nat_to_string_digits [OF hd_in_set]) simp
  have no_space: "dropWhile is_space (nat_to_string m @ rest) = nat_to_string m @ rest" for m
    using hd [of m] is_digit_not_special(3) by (cases "nat_to_string m") auto
  have no_sign: "hd (nat_to_string m) \<noteq> CHR ''-''" "hd (nat_to_string m) \<noteq> CHR ''+''" for m
    using hd [of m] by (auto simp: is_digit_def)
  have "\<not> is_space (CHR ''-'')" by (simp add: is_space_def)
  then show ?thesis
    using assms(1,2)
    by (cases "n < 0") (simp_all add: std_sto_def signed_digits_def to_string_def digits no_space no_sign)
qed

lemmas std_sto_to_string = std_sto_to_string_append [where rest = "[]", simplified]

end
