(* ===== verification/Hash.thy ===== *)
theory Hash
  imports FileIterator Conversions "HOL-Library.Multiset"
begin

text \<open>
  The hashes of hash.h, hash.cpp and hasher.cpp. A digest (of OpenSSL or rhash) is a parameter: the
  function on a whole text and the context with its updates; \<open>digest_law\<close> says that the context
  computes the function of the concatenation of what it was given.
\<close>

unbundle bit_operations_syntax

section \<open>Hexadecimal texts\<close>

definition alnum :: string where
  "alnum = ''0123456789abcdefghijklmnopqrstuvwxyzABCDEFGHIJKLMNOPQRSTUVWXYZ''"

definition bytes_to_string :: "string \<Rightarrow> string" where
  "bytes_to_string s = concat (map (\<lambda>c. [alnum ! (of_char c div 16), alnum ! (of_char c mod 16)]) s)"

text \<open>The value of a digit, an \<open>int\<close>; \<open>char\<close> is signed. Nothing is refused.\<close>

definition char_int :: "char \<Rightarrow> int" where
  "char_int c = (if (of_char c :: int) < 128 then of_char c else of_char c - 256)"

definition get_num :: "char \<Rightarrow> int" where
  "get_num c = (if char_int c > 57 then char_int c - 97 + 10 else char_int c - 48)"

fun bytes_loop :: "string \<Rightarrow> string" where
  "bytes_loop (a # b # s) = char_of (nat ((push_bit 4 (get_num a) OR get_num b) mod 256)) # bytes_loop s"
| "bytes_loop s = []"

definition bytes_of_string :: "string \<Rightarrow> string result" where
  "bytes_of_string s = (if odd (length s) then Inl (Runtime_error ''bad bytes string'') else Inr (bytes_loop s))"

text \<open>\<open>bytes_strict<sz>\<close>; the message also has the sizes.\<close>

definition bytes_strict :: "nat \<Rightarrow> string \<Rightarrow> string result" where
  "bytes_strict sz s = bind_result (bytes_of_string s) (\<lambda>b.
     if length b \<noteq> sz then Inl (Logic_error ''bad bytes size'') else Inr b)"

lemma get_num_alnum:
  "list_all (\<lambda>n. get_num (alnum ! n) = int n \<and> alnum ! n \<notin> set ''$_'') [0..<16]"
  by code_simp

lemma get_num_hex: "n < 16 \<Longrightarrow> get_num (alnum ! n) = int n"
  and hex_char: "n < 16 \<Longrightarrow> alnum ! n \<noteq> CHR ''$'' \<and> alnum ! n \<noteq> CHR ''_''"
  using get_num_alnum by (auto simp: list_all_iff)

lemma hex_or: "list_all (\<lambda>h. list_all (\<lambda>l. push_bit 4 (int h) OR int l = int (h * 16 + l)) [0..<16]) [0..<16]"
  by code_simp

lemma hex_byte:
  "char_of (nat ((push_bit 4 (get_num (alnum ! (of_char c div 16))) OR get_num (alnum ! (of_char c mod 16))) mod 256)) = c"
proof -
  let ?n = "of_char c :: nat"
  have n: "?n < 256" by simp
  then have "?n div 16 < 16" "?n mod 16 < 16" by (simp_all add: less_mult_imp_div_less)
  then have "push_bit 4 (get_num (alnum ! (?n div 16))) OR get_num (alnum ! (?n mod 16)) = int ?n"
  proof -
    have "push_bit 4 (int (?n div 16)) OR int (?n mod 16) = int (?n div 16 * 16 + ?n mod 16)"
      using hex_or \<open>?n div 16 < 16\<close> \<open>?n mod 16 < 16\<close> unfolding list_all_iff set_upt by fastforce
    then show ?thesis
      using \<open>?n div 16 < 16\<close> \<open>?n mod 16 < 16\<close> by (simp only: get_num_hex div_mult_mod_eq)
  qed
  then show ?thesis using n by (simp add: zmod_int [symmetric])
qed

lemma bytes_to_string_views:
  "length (bytes_to_string s) = 2 * length s"
  "c \<in> set (bytes_to_string s) \<Longrightarrow> c \<noteq> CHR ''$'' \<and> c \<noteq> CHR ''_''"
proof -
  show "length (bytes_to_string s) = 2 * length s"
    by (induction s) (auto simp: bytes_to_string_def)
  show "c \<in> set (bytes_to_string s) \<Longrightarrow> c \<noteq> CHR ''$'' \<and> c \<noteq> CHR ''_''"
    using hex_char by (auto simp: bytes_to_string_def less_mult_imp_div_less)
qed

text \<open>Bytes written in hexadecimal are read back, and a size that is asked for is checked.\<close>

theorem hex_roundtrip:
  "bytes_of_string (bytes_to_string s) = Inr s
   \<and> bytes_strict n (bytes_to_string s) = (if length s = n then Inr s else Inl (Logic_error ''bad bytes size''))"
proof -
  have "bytes_loop (bytes_to_string s) = s"
    by (induction s) (simp_all add: bytes_to_string_def hex_byte del: of_char_of)
  then show ?thesis
    by (simp add: bytes_of_string_def bytes_to_string_views bytes_strict_def)
qed

text \<open>A digit in upper case is taken for another number, and other characters are taken as well.\<close>

lemma upper_case_hex: "bytes_of_string ''0A'' = Inr [CHR 0xEA] \<and> bytes_of_string ''::'' = Inr [CHR 0xF3]"
  by code_simp

section \<open>Digests\<close>

record 'c digest =
  digest_of :: "string \<Rightarrow> string"
  ctx_init :: 'c
  ctx_update :: "'c \<Rightarrow> string \<Rightarrow> 'c"
  ctx_final :: "'c \<Rightarrow> string"

definition digest_law :: "'c digest \<Rightarrow> bool" where
  "digest_law D \<longleftrightarrow> (\<forall>bs. ctx_final D (foldl (ctx_update D) (ctx_init D) bs) = digest_of D (concat bs))"

record ('c, 'd, 'e) digests =
  sha2 :: "'c digest"
  sha3 :: "'d digest"
  blake2b :: "'e digest"

definition sha256 :: "('c, 'd, 'e) digests \<Rightarrow> string \<Rightarrow> string" where
  "sha256 D s = bytes_to_string (digest_of (sha2 D) s)"

definition sha3_256 :: "('c, 'd, 'e) digests \<Rightarrow> string \<Rightarrow> string" where
  "sha3_256 D s = bytes_to_string (digest_of (sha3 D) s)"

definition blake2b_512 :: "('c, 'd, 'e) digests \<Rightarrow> string \<Rightarrow> string" where
  "blake2b_512 D s = bytes_to_string (digest_of (blake2b D) s)"

definition sha256_file :: "('c, 'd, 'e) digests \<Rightarrow> fs_path \<Rightarrow> (fs, string) io" where
  "sha256_file D p = io_bind (read_file p 0 None) (\<lambda>s. io_return (sha256 D s))"

section \<open>File hashes\<close>

text \<open>The types of the two hashes, as numbers; the prefix that is saved is always that of blake2b and sha3.\<close>

definition sha2_256_type :: int where "sha2_256_type = 1"
definition sha3_256_type :: int where "sha3_256_type = 2"
definition blake2b_512_type :: int where "blake2b_512_type = 3"

definition substr :: "string \<Rightarrow> nat \<Rightarrow> nat option \<Rightarrow> string" where
  "substr s i n = (case n of None \<Rightarrow> drop i s | Some n \<Rightarrow> take n (drop i s))"

definition load_strong_hash_prefix :: "string \<Rightarrow> (int \<times> int) result" where
  "load_strong_hash_prefix h =
     (case str_find ''$'' h of
        None \<Rightarrow> Inr (sha3_256_type, sha2_256_type)
      | Some p \<Rightarrow>
          (let u = str_find ''_'' h
           in bind_result (std_stoi (substr h 0 u)) (\<lambda>f.
              bind_result (std_stoi (substr h (case u of None \<Rightarrow> 0 | Some u \<Rightarrow> Suc u) (Some p))) (\<lambda>s.
              Inr (f, s)))))"

definition save_strong_hash_prefix :: "int \<Rightarrow> int \<Rightarrow> string" where
  "save_strong_hash_prefix h1 h2 = to_string blake2b_512_type @ ''_'' @ to_string sha3_256_type @ ''$''"

definition strong_file_hash :: "('c, 'd, 'e) digests \<Rightarrow> string \<Rightarrow> string" where
  "strong_file_hash D data =
     (let sz = to_string (int (length data)); f = data @ sz
      in sha3_256 D (sha256 D f @ sha3_256 D f @ sz))"

definition strong_file_hash_blake2b_sha3 :: "('c, 'd, 'e) digests \<Rightarrow> string \<Rightarrow> string" where
  "strong_file_hash_blake2b_sha3 D data =
     (let sz = to_string (int (length data)); f = data @ sz
      in save_strong_hash_prefix blake2b_512_type sha3_256_type
         @ blake2b_512 D (sha3_256 D f @ blake2b_512 D f @ sz))"

text \<open>Two contexts are fed from the blocks of the file, then the size. An iteration that fails is an error.\<close>

definition hash_file :: "'c digest \<Rightarrow> 'd digest \<Rightarrow> string \<Rightarrow> fs_path \<Rightarrow> (fs, string \<times> string \<times> string) io" where
  "hash_file A B msg p =
     io_bind (file_iterator [p]) (\<lambda>fs. lift_result (
     bind_result (iterate (\<lambda>bufs n (a, b). (True, ctx_update A a (take n (bufs ! 0)), ctx_update B b (take n (bufs ! 0))))
         fs (ctx_init A, ctx_init B)) (\<lambda>(ok, a, b).
       let sz = to_string (int (isize (hd fs)));
           h1 = ctx_final A (ctx_update A a sz);
           h2 = ctx_final B (ctx_update B b sz)
       in if \<not> ok then Inl (Runtime_error msg) else Inr (bytes_to_string h1, bytes_to_string h2, sz))))"

definition strong_file_hash_file :: "('c, 'd, 'e) digests \<Rightarrow> fs_path \<Rightarrow> (fs, string) io" where
  "strong_file_hash_file D p =
     io_bind (hash_file (sha2 D) (sha3 D) ''Error during strong_file_hash()'' p)
       (\<lambda>(p1, p2, sz). io_return (sha3_256 D (p1 @ p2 @ sz)))"

definition strong_file_hash_file_blake2b_sha3 :: "('c, 'd, 'e) digests \<Rightarrow> fs_path \<Rightarrow> (fs, string) io" where
  "strong_file_hash_file_blake2b_sha3 D p =
     io_bind (hash_file (sha3 D) (blake2b D) ''Error during strong_file_hash_blake2b_sha3()'' p)
       (\<lambda>(p1, p2, sz). io_return (save_strong_hash_prefix blake2b_512_type sha3_256_type @ blake2b_512 D (p1 @ p2 @ sz)))"

definition get_strong_file_hash :: "('c, 'd, 'e) digests \<Rightarrow> fs_path \<Rightarrow> string \<Rightarrow> (fs, string) io" where
  "get_strong_file_hash D p h =
     io_bind (lift_result (load_strong_hash_prefix h)) (\<lambda>(f, s).
       if f = sha3_256_type \<and> s = sha2_256_type then strong_file_hash_file D p
       else if f = blake2b_512_type \<and> s = sha3_256_type then strong_file_hash_file_blake2b_sha3 D p
       else io_throw (Runtime_error ''Unknown hash type(s)''))"

definition check_strong_file_hash :: "('c, 'd, 'e) digests \<Rightarrow> fs_path \<Rightarrow> string \<Rightarrow> (fs, bool) io" where
  "check_strong_file_hash D p h =
     io_bind (lift_result (load_strong_hash_prefix h)) (\<lambda>(f, s).
       if f = sha3_256_type \<and> s = sha2_256_type then io_bind (strong_file_hash_file D p) (\<lambda>x. io_return (h = x))
       else if f = blake2b_512_type \<and> s = sha3_256_type then
         io_bind (strong_file_hash_file_blake2b_sha3 D p) (\<lambda>x. io_return (h = x))
       else io_throw (Runtime_error ''Unknown hash type(s)''))"

section \<open>Hashing a file is hashing its content\<close>

lemma concat_blocks: "concat (map hd (blocks [c])) = c"
proof (induction "length c" arbitrary: c rule: less_induct)
  case less
  show ?case
  proof (cases "length c < iter_buffer_size")
    case False
    then have "concat (map hd (blocks [drop iter_buffer_size c])) = drop iter_buffer_size c"
      by (intro less) (auto simp: iter_buffer_size_def)
    then show ?thesis using False by (subst blocks.simps) simp
  qed (subst blocks.simps, simp)
qed

lemma run_blocks_update:
  "run_blocks (\<lambda>bs (a, b). (True, ctx_update A a (bs ! 0), ctx_update B b (bs ! 0))) bs (a, b) =
    (True, foldl (ctx_update A) a (map (\<lambda>b. b ! 0) bs), foldl (ctx_update B) b (map (\<lambda>b. b ! 0) bs))"
  by (induction bs arbitrary: a b) auto

lemma blocks_nonempty: "cs \<noteq> [] \<Longrightarrow> b \<in> set (blocks cs) \<Longrightarrow> b \<noteq> []"
proof (induction cs rule: blocks.induct)
  case (1 cs)
  then show ?case by (subst (asm) (2) blocks.simps) (auto split: if_splits)
qed

lemma hash_file_content:
  assumes "digest_law A" "digest_law B" "p \<noteq> []" "w p = Some (Regular c)"
  shows "hash_file A B msg p w =
    (let sz = to_string (int (length c)) in
     (Inr (bytes_to_string (digest_of A (c @ sz)), bytes_to_string (digest_of B (c @ sz)), sz), w))"
proof -
  let ?g = "\<lambda>bufs n (a, b). (True, ctx_update A a (take n (bufs ! 0)), ctx_update B b (take n (bufs ! 0)))"
  let ?h = "\<lambda>bs (a, b). (True, ctx_update A a (bs ! 0), ctx_update B b (bs ! 0))"
  have it: "io_bind (file_iterator [p]) (\<lambda>fs. lift_result (iterate ?g fs (ctx_init A, ctx_init B))) w =
      (Inr (if \<forall>x\<in>set [c]. length x = length (hd [c]) then run_blocks ?h (blocks [c]) (ctx_init A, ctx_init B)
        else (False, ctx_init A, ctx_init B)), w)"
    using assms(3,4) by (intro iterate_files) auto
  have hd: "map (\<lambda>b. b ! 0) (blocks [c]) = map hd (blocks [c])"
    using blocks_nonempty [of "[c]"] by (auto simp: hd_conv_nth)
  have upd: "ctx_final D (ctx_update D (foldl (ctx_update D) (ctx_init D) (map hd (blocks [c]))) t) = digest_of D (c @ t)"
    if "digest_law D" for D :: "'z digest" and t
    using that [unfolded digest_law_def, rule_format, of "map hd (blocks [c]) @ [t]"] by (simp add: concat_blocks)
  have o: "file_iterator [p] w =
      (Inr [\<lparr>ifile = \<lparr>stream_bytes = c, stream_pos = 0, at_eof = False\<rparr>, isize = length c, buf = [], iread = 0\<rparr>], w)"
    using open_all_regular [of w "[p]" "[c]"] assms(3,4) by (simp add: file_iterator_def)
  then have "iterate ?g [\<lparr>ifile = \<lparr>stream_bytes = c, stream_pos = 0, at_eof = False\<rparr>, isize = length c, buf = [], iread = 0\<rparr>]
      (ctx_init A, ctx_init B) = Inr (True, foldl (ctx_update A) (ctx_init A) (map hd (blocks [c])),
        foldl (ctx_update B) (ctx_init B) (map hd (blocks [c])))"
    using it by (simp add: io_bind_def lift_result_def run_blocks_update hd)
  then show ?thesis
    using o upd [OF assms(1)] upd [OF assms(2)] by (simp add: hash_file_def io_bind_def lift_result_def Let_def)
qed

lemma load_prefix_plain: "load_strong_hash_prefix (bytes_to_string s) = Inr (sha3_256_type, sha2_256_type)"
proof -
  have "str_find ''$'' (bytes_to_string s) = None"
    using bytes_to_string_views(2) by (auto simp: str_find_None_single)
  then show ?thesis by (simp add: load_strong_hash_prefix_def)
qed

lemma saved_prefix: "save_strong_hash_prefix h1 h2 = ''3_2$''"
proof -
  have "to_string 3 @ ''_'' @ to_string 2 @ ''$'' = ''3_2$''" by code_simp
  then show ?thesis by (simp add: save_strong_hash_prefix_def blake2b_512_type_def sha3_256_type_def)
qed

lemma load_prefix_saved:
  "load_strong_hash_prefix (save_strong_hash_prefix h1 h2 @ s) = Inr (blake2b_512_type, sha3_256_type)"
proof -
  have d: "''3'' = to_string 3" "''2'' = to_string 2" by code_simp+
  have "std_stoi ''3'' = Inr 3"
    unfolding d std_stoi_def by (intro std_sto_to_string) (simp_all add: int32_max_def)
  moreover have "std_stoi (''2'' @ CHR ''$'' # take (Suc 0) s) = Inr 2"
    unfolding d std_stoi_def by (intro std_sto_to_string_append) (simp_all add: int32_max_def is_digit_def)
  ultimately show ?thesis
    unfolding saved_prefix
    by (simp add: load_strong_hash_prefix_def substr_def numeral_3_eq_3 blake2b_512_type_def sha3_256_type_def)
qed

text \<open>
  C23: The hash of a file. Read block by block, a file has the hash that the text of its content
  has, in both formats. A hash is accepted for the file exactly if it is the hash of its content
  in one of the two formats; the format is told by the text of the hash.
\<close>

theorem file_hash_checked:
  assumes "digest_law (sha2 D)" "digest_law (sha3 D)" "digest_law (blake2b D)" "p \<noteq> []" "w p = Some (Regular c)"
  shows "strong_file_hash_file D p w = (Inr (strong_file_hash D c), w)
    \<and> strong_file_hash_file_blake2b_sha3 D p w = (Inr (strong_file_hash_blake2b_sha3 D c), w)
    \<and> (check_strong_file_hash D p h w = (Inr True, w) \<longleftrightarrow>
        h = strong_file_hash D c \<or> h = strong_file_hash_blake2b_sha3 D c)"
proof -
  have a: "strong_file_hash_file D p w = (Inr (strong_file_hash D c), w)"
    using hash_file_content [OF assms(1,2,4), of w c, OF assms(5)]
    by (simp add: strong_file_hash_file_def strong_file_hash_def io_bind_def Let_def sha256_def sha3_256_def)
  moreover have b: "strong_file_hash_file_blake2b_sha3 D p w = (Inr (strong_file_hash_blake2b_sha3 D c), w)"
    using hash_file_content [OF assms(2,3,4), of w c, OF assms(5)]
    by (simp add: strong_file_hash_file_blake2b_sha3_def strong_file_hash_blake2b_sha3_def io_bind_def Let_def
        blake2b_512_def sha3_256_def)
  moreover have "load_strong_hash_prefix (strong_file_hash D c) = Inr (sha3_256_type, sha2_256_type)"
    by (simp add: strong_file_hash_def Let_def sha3_256_def load_prefix_plain)
  moreover have "load_strong_hash_prefix (strong_file_hash_blake2b_sha3 D c) = Inr (blake2b_512_type, sha3_256_type)"
    by (simp add: strong_file_hash_blake2b_sha3_def Let_def load_prefix_saved)
  ultimately have "check_strong_file_hash D p h w = (Inr True, w)"
    if "h = strong_file_hash D c \<or> h = strong_file_hash_blake2b_sha3 D c"
    using that by (auto simp: check_strong_file_hash_def io_bind_def lift_result_def sha3_256_type_def blake2b_512_type_def)
  moreover have "h = strong_file_hash D c \<or> h = strong_file_hash_blake2b_sha3 D c"
    if "check_strong_file_hash D p h w = (Inr True, w)"
    using that a b
    by (auto simp: check_strong_file_hash_def io_bind_def lift_result_def io_throw_def split: sum.splits if_splits)
  ultimately show ?thesis using a b by blast
qed

text \<open>A digest that obeys the law.\<close>

definition last_byte :: "string digest" where
  "last_byte = \<lparr>digest_of = (\<lambda>s. if s = [] then ''e'' else [last s]), ctx_init = [], ctx_update = (@),
     ctx_final = (\<lambda>s. if s = [] then ''e'' else [last s])\<rparr>"

lemma last_byte_law: "digest_law last_byte"
proof -
  have "foldl (@) s bs = s @ concat bs" for s :: string and bs by (induction bs arbitrary: s) auto
  then show ?thesis by (simp add: digest_law_def last_byte_def)
qed

lemma file_hash_checked_witness:
  "check_strong_file_hash \<lparr>sha2 = last_byte, sha3 = last_byte, blake2b = last_byte\<rparr> [''a'']
     (strong_file_hash_blake2b_sha3 \<lparr>sha2 = last_byte, sha3 = last_byte, blake2b = last_byte\<rparr> ''xy'')
     [[''a''] \<mapsto> Regular ''xy''] = (Inr True, [[''a''] \<mapsto> Regular ''xy''])"
  using file_hash_checked [of "\<lparr>sha2 = last_byte, sha3 = last_byte, blake2b = last_byte\<rparr>" "[''a'']"
      "[[''a''] \<mapsto> Regular ''xy'']" "''xy''"] last_byte_law by simp

section \<open>The hasher\<close>

text \<open>
  hasher.cpp; the state is the text of the hash. \<open>split\<close> at white space and \<open>trim\<close> are the functions
  of Boost. A path is appended as its text.
\<close>

definition do_hash :: "('c, 'd, 'e) digests \<Rightarrow> string \<Rightarrow> string" where
  "do_hash D h = sha256 D h"

definition hash_bool :: "('c, 'd, 'e) digests \<Rightarrow> bool \<Rightarrow> string \<Rightarrow> string" where
  "hash_bool D b h = do_hash D (h @ (if b then ''1'' else ''0''))"

definition hash_string ::
  "('c, 'd, 'e) digests \<Rightarrow> (string \<Rightarrow> string list) \<Rightarrow> (string \<Rightarrow> string) \<Rightarrow> string \<Rightarrow> string \<Rightarrow> string" where
  "hash_string D split trim v h =
     do_hash D (h @ concat (sort (filter (\<lambda>s. s \<noteq> []) (map trim (split (trim v))))))"

definition hash_path :: "('c, 'd, 'e) digests \<Rightarrow> string \<Rightarrow> string \<Rightarrow> string" where
  "hash_path D v h = do_hash D (h @ v)"

text \<open>What Boost promises: the parts between the separators, and no white space at either end.\<close>

definition split_space_law :: "(string \<Rightarrow> string list) \<Rightarrow> bool" where
  "split_space_law split \<longleftrightarrow>
     (\<forall>x. (\<forall>c\<in>set x. \<not> is_space c) \<longrightarrow> split x = [x])
     \<and> (\<forall>x c s. (\<forall>c\<in>set x. \<not> is_space c) \<longrightarrow> is_space c \<longrightarrow> split (x @ c # s) = x # split s)"

definition trim_law :: "(string \<Rightarrow> string) \<Rightarrow> bool" where
  "trim_law trim \<longleftrightarrow> (\<forall>a s b. list_all is_space a \<longrightarrow> list_all is_space b \<longrightarrow>
     s = [] \<or> \<not> is_space (hd s) \<and> \<not> is_space (last s) \<longrightarrow> trim (a @ s @ b) = s)"

text \<open>The words of a text.\<close>

fun words_from :: "string \<Rightarrow> string \<Rightarrow> string list" where
  "words_from a [] = (if a = [] then [] else [a])"
| "words_from a (c # s) = (if is_space c then words_from a [] @ words_from [] s else words_from (a @ [c]) s)"

lemma words_from_plain: "\<forall>c\<in>set x. \<not> is_space c \<Longrightarrow> words_from a (x @ s) = words_from (a @ x) s"
  by (induction x arbitrary: a) auto

lemma words_from_spaces: "list_all is_space g \<Longrightarrow> words_from [] (g @ s) = words_from [] s"
  by (induction g) auto

lemma words_from_end: "list_all is_space g \<Longrightarrow> words_from a (s @ g) = words_from a s"
proof (induction a s rule: words_from.induct)
  case (1 a)
  then show ?case using words_from_spaces [of "tl g" "[]"] by (cases g) auto
qed auto

lemma split_words:
  assumes "split_space_law split" "trim_law trim"
  shows "filter (\<lambda>s. s \<noteq> []) (map trim (split s)) = words_from [] s"
proof (induction s rule: length_induct)
  case (1 s)
  have plain: "trim x = x" if "\<forall>c\<in>set x. \<not> is_space c" for x
    using assms(2) [unfolded trim_law_def, rule_format, of "[]" "[]" x] that by (cases "x = []") auto
  let ?x = "takeWhile (\<lambda>c. \<not> is_space c) s"
  have x: "\<forall>c\<in>set ?x. \<not> is_space c" by (auto dest: set_takeWhileD)
  show ?case
  proof (cases "dropWhile (\<lambda>c. \<not> is_space c) s")
    case Nil
    then have "?x = s" by (metis append_Nil2 takeWhile_dropWhile_id)
    then show ?thesis
      using x plain assms(1) words_from_plain [of s "[]" "[]"] by (auto simp: split_space_law_def)
  next
    case (Cons c t)
    then have s: "s = ?x @ c # t" and c: "is_space c"
      by (metis takeWhile_dropWhile_id, metis hd_dropWhile list.distinct(1) list.sel(1))
    have "length t < length s" by (subst s) simp
    then have "filter (\<lambda>s. s \<noteq> []) (map trim (split t)) = words_from [] t" using 1 by blast
    moreover have "split s = ?x # split t"
      using assms(1) x c s unfolding split_space_law_def by metis
    moreover have "words_from [] s = words_from ?x [] @ words_from [] t"
      using words_from_plain [OF x, of "[]" "c # t"] c s by simp
    ultimately show ?thesis using plain [OF x] by simp
  qed
qed

text \<open>
  A text is hashed by its words in sorted order: spacing and order do not matter. Nothing
  separates the words, so that other words with the same letters give the same hash.
\<close>

lemma hash_string_words:
  assumes "split_space_law split" "trim_law trim"
  shows "hash_string D split trim v h = do_hash D (h @ concat (sort (words_from [] v)))"
    and "mset (words_from [] v) = mset (words_from [] v') \<Longrightarrow> hash_string D split trim v h = hash_string D split trim v' h"
    and "hash_string D split trim ''ab c'' h = hash_string D split trim ''a bc'' h"
proof -
  have words: "words_from [] (trim v) = words_from [] v" for v
  proof -
    let ?a = "takeWhile is_space v" and ?r = "dropWhile is_space v"
    let ?s = "rev (dropWhile is_space (rev ?r))" and ?b = "rev (takeWhile is_space (rev ?r))"
    have r: "?r = ?s @ ?b" by (metis rev_append rev_rev_ident takeWhile_dropWhile_id)
    then have v: "v = ?a @ ?s @ ?b" by (metis takeWhile_dropWhile_id)
    have sp: "list_all is_space ?a" "list_all is_space ?b" by (auto simp: list_all_iff dest: set_takeWhileD)
    have "?s = [] \<or> \<not> is_space (hd ?s) \<and> \<not> is_space (last ?s)"
    proof (cases "?s = []")
      case False
      then have "dropWhile is_space (rev ?r) \<noteq> []" by (metis rev.simps(1))
      from hd_dropWhile [OF this] this have "\<not> is_space (last ?s)" by (simp only: last_rev not_False_eq_True)
      moreover have "hd ?r = hd ?s" using r False by (metis hd_append2)
      moreover have "?r \<noteq> []" using False by (metis dropWhile.simps(1) rev.simps(1))
      ultimately show ?thesis using hd_dropWhile by metis
    qed simp
    then have "trim v = ?s"
      using assms(2) [unfolded trim_law_def, rule_format, OF sp] v by metis
    moreover have "words_from [] v = words_from [] ?s"
      using words_from_spaces [OF sp(1), of "?s @ ?b"] words_from_end [OF sp(2), of "[]" ?s] v by simp
    ultimately show ?thesis by simp
  qed
  show w: "hash_string D split trim v h = do_hash D (h @ concat (sort (words_from [] v)))" for v
    by (simp add: hash_string_def split_words [OF assms] words)
  show "mset (words_from [] v) = mset (words_from [] v') \<Longrightarrow> hash_string D split trim v h = hash_string D split trim v' h"
    unfolding w by (metis mset_sort sorted_list_of_multiset_mset)
  have "concat (sort (words_from [] ''ab c'')) = concat (sort (words_from [] ''a bc''))" by code_simp
  then show "hash_string D split trim ''ab c'' h = hash_string D split trim ''a bc'' h" by (simp only: w)
qed

end
