(* ===== verification/Schema.thy ===== *)
theory Schema
  imports FileSystem Conversions
begin

text \<open>
  Database schemas (db.h, schema_manager.h): typed values under keys, creating a schema or
  bringing it to the latest version in a transaction, and schemas kept in a directory. The
  database itself is a record of operations; \<open>database_law\<close> says what it promises about
  transactions.
\<close>

section \<open>Values\<close>

record 'w database =
  execute :: "string \<Rightarrow> ('w, unit) io"
  get_value_by_key :: "string \<Rightarrow> ('w, string option) io"
  set_value_by_key :: "string \<Rightarrow> string \<Rightarrow> ('w, unit) io"

definition key_start :: "char \<Rightarrow> bool" where
  "key_start c \<longleftrightarrow> c = CHR ''_'' \<or> is_alnum c \<and> \<not> is_digit c"

definition check_key :: "string \<Rightarrow> unit result" where
  "check_key k =
     (if k \<noteq> [] \<and> key_start (hd k) \<and> list_all (\<lambda>c. key_start c \<or> is_digit c) (tl k) then Inr ()
      else Inl (Runtime_error ''bad key''))"

definition get_int :: "'w database \<Rightarrow> string \<Rightarrow> ('w, int option) io" where
  "get_int D k = io_bind (lift_result (check_key k)) (\<lambda>_.
     io_bind (get_value_by_key D k) (\<lambda>v. case v of
       None \<Rightarrow> io_return None
     | Some s \<Rightarrow> lift_result (bind_result (std_stoi s) (\<lambda>n. Inr (Some n)))))"

definition set_string :: "'w database \<Rightarrow> string \<Rightarrow> string \<Rightarrow> ('w, unit) io" where
  "set_string D k s = io_bind (lift_result (check_key k)) (\<lambda>_. set_value_by_key D k s)"

definition set_int :: "'w database \<Rightarrow> string \<Rightarrow> int \<Rightarrow> ('w, unit) io" where
  "set_int D k n = io_bind (lift_result (check_key k)) (\<lambda>_. set_value_by_key D k (to_string n))"

text \<open>A value with a default, which is stored when there is none.\<close>

definition get_int_default :: "'w database \<Rightarrow> string \<Rightarrow> int \<Rightarrow> ('w, int) io" where
  "get_int_default D k d = io_bind (lift_result (check_key k)) (\<lambda>_.
     io_bind (get_value_by_key D k) (\<lambda>v. case v of
       None \<Rightarrow> io_bind (set_int D k d) (\<lambda>_. io_return d)
     | Some s \<Rightarrow> lift_result (std_stoi s)))"

section \<open>Schema managers\<close>

definition version_column :: string where "version_column = ''version''"
definition default_schema_filename :: string where "default_schema_filename = ''schema.sql''"
definition default_diffs_prefix :: string where "default_diffs_prefix = ''patch_''"

text \<open>The virtual functions of a manager; reading them can fail.\<close>

record schema_manager =
  latest_schema :: "string result"
  diff_sql_size :: "nat result"
  diff_sql :: "nat \<Rightarrow> string result"

definition create_schema :: "'w database \<Rightarrow> schema_manager \<Rightarrow> ('w, unit) io" where
  "create_schema D M =
     io_bind (execute D ''BEGIN'') (\<lambda>_.
     io_bind (lift_result (latest_schema M)) (\<lambda>s.
     io_bind (execute D s) (\<lambda>_.
     io_bind (lift_result (diff_sql_size M)) (\<lambda>n.
     io_bind (set_int D version_column (int n)) (\<lambda>_.
     execute D ''COMMIT'')))))"

fun run_diffs :: "'w database \<Rightarrow> schema_manager \<Rightarrow> nat list \<Rightarrow> ('w, unit) io" where
  "run_diffs D M [] = io_return ()"
| "run_diffs D M (i # is) =
     io_bind (lift_result (diff_sql M i)) (\<lambda>s. io_bind (execute D s) (\<lambda>_. run_diffs D M is))"

text \<open>
  A scope guard: unless the body dismissed it (the result says so), its action runs when the
  body is left, also by an exception; an exception of the action is swallowed.
\<close>

definition scope_exit :: "('w, unit) io \<Rightarrow> ('w, bool) io \<Rightarrow> ('w, unit) io" where
  "scope_exit guard body w =
     (case body w of
        (Inr True, w) \<Rightarrow> (Inr (), w)
      | (Inr False, w) \<Rightarrow> (Inr (), snd (guard w))
      | (Inl e, w) \<Rightarrow> (Inl e, if is_exception e then snd (guard w) else w))"

text \<open>The number of the version is cast to an unsigned one of 64 bits; an absent value is an exception.\<close>

definition update_schema :: "'w database \<Rightarrow> schema_manager \<Rightarrow> ('w, unit) io" where
  "update_schema D M =
     io_bind (execute D ''BEGIN'') (\<lambda>_.
     scope_exit (execute D ''ROLLBACK'') (
       io_bind (get_int D version_column) (\<lambda>v. case v of
         None \<Rightarrow> io_throw (Logic_error ''bad optional access'')
       | Some v \<Rightarrow>
           (let v = nat (v mod 2 ^ 64)
            in io_bind (lift_result (diff_sql_size M)) (\<lambda>sz.
               if sz \<le> v then io_return False
               else io_bind (run_diffs D M [v..<sz]) (\<lambda>_.
                    io_bind (set_int D version_column (int sz)) (\<lambda>_.
                    io_bind (execute D ''COMMIT'') (\<lambda>_. io_return True))))))))"

definition create_or_update :: "'w database \<Rightarrow> schema_manager \<Rightarrow> ('w, unit) io" where
  "create_or_update D M =
     io_bind (get_int D version_column) (\<lambda>v.
       if v = None \<or> v = Some (- 1) then create_schema D M
       else io_bind (lift_result (diff_sql_size M)) (\<lambda>n.
         if n \<noteq> 0 then update_schema D M else io_return ()))"

text \<open>\<open>StringDatabaseSchemaManager\<close>; an index out of range does not occur.\<close>

record string_manager =
  schema_text :: string
  diff_sqls :: "string list"

definition string_schema_manager :: "string_manager \<Rightarrow> schema_manager" where
  "string_schema_manager m =
     \<lparr>latest_schema = Inr (schema_text m), diff_sql_size = Inr (length (diff_sqls m)),
      diff_sql = (\<lambda>i. if i < length (diff_sqls m) then Inr (diff_sqls m ! i) else Inl Undefined)\<rparr>"

text \<open>\<open>createOrUpdateSchema\<close> with a text; \<open>split\<close> is \<open>pystring::split\<close> at \<open>%split\<close>.\<close>

definition create_or_update_schema ::
  "(string \<Rightarrow> string list) \<Rightarrow> 'w database \<Rightarrow> string \<Rightarrow> bool \<Rightarrow> ('w, unit) io" where
  "create_or_update_schema split D s split_schema_for_patches =
     create_or_update D (string_schema_manager
       (if split_schema_for_patches then \<lparr>schema_text = hd (split s), diff_sqls = tl (split s)\<rparr>
        else \<lparr>schema_text = s, diff_sqls = []\<rparr>))"

section \<open>Schemas in a directory\<close>

text \<open>
  \<open>FileDatabaseSchemaManager\<close>: the mask makes a file name from an index (\<open>snprintf\<close>); the names in
  a directory come from the platform.
\<close>

record file_manager =
  schema_filename :: fs_path
  diffs_dir :: fs_path
  diffs_mask :: "nat \<Rightarrow> string"

definition default_diffs_mask :: "nat \<Rightarrow> string" where
  "default_diffs_mask i =
     (let s = nat_to_string i in default_diffs_prefix @ replicate (6 - length s) CHR ''0'' @ s @ ''.sql'')"

definition diff_sql_filename :: "file_manager \<Rightarrow> nat \<Rightarrow> fs_path" where
  "diff_sql_filename m i = diffs_dir m @ [diffs_mask m i]"

definition file_diff_sql_size :: "(fs \<Rightarrow> fs_path \<Rightarrow> string list) \<Rightarrow> file_manager \<Rightarrow> fs \<Rightarrow> nat result" where
  "file_diff_sql_size listing m w =
     (if \<not> is_directory w (diffs_dir m) then Inl filesystem_error
      else Inr (length (filter (\<lambda>n. is_regular w (diffs_dir m @ [n]) \<and> str_find default_diffs_prefix n = Some 0)
       (listing w (diffs_dir m)))))"

definition file_schema_manager :: "(fs \<Rightarrow> fs_path \<Rightarrow> string list) \<Rightarrow> file_manager \<Rightarrow> fs \<Rightarrow> schema_manager" where
  "file_schema_manager listing m w =
     \<lparr>latest_schema = fst (read_file (schema_filename m) 0 None w),
      diff_sql_size = file_diff_sql_size listing m w,
      diff_sql = (\<lambda>i. fst (read_file (diff_sql_filename m i) 0 None w))\<rparr>"

fun read_diffs :: "file_manager \<Rightarrow> nat list \<Rightarrow> (fs, string list) io" where
  "read_diffs m [] = io_return []"
| "read_diffs m (i # is) = io_bind (read_file (diff_sql_filename m i) 0 None)
     (\<lambda>s. io_bind (read_diffs m is) (\<lambda>ss. io_return (s # ss)))"

definition read_manager :: "(fs \<Rightarrow> fs_path \<Rightarrow> string list) \<Rightarrow> file_manager \<Rightarrow> (fs, string_manager) io" where
  "read_manager listing m =
     io_bind (read_file (schema_filename m) 0 None) (\<lambda>s w.
     io_bind (lift_result (file_diff_sql_size listing m w)) (\<lambda>n.
     io_bind (read_diffs m [0..<n])
       (\<lambda>ds. io_return \<lparr>schema_text = s, diff_sqls = ds\<rparr>)) w)"

definition remove_all_from_dir :: "(fs \<Rightarrow> fs_path \<Rightarrow> string list) \<Rightarrow> fs_path \<Rightarrow> fs \<Rightarrow> fs" where
  "remove_all_from_dir listing d w =
     (let ns = listing w d in (\<lambda>q. if \<exists>n\<in>set ns. prefix (d @ [n]) q then None else w q))"

fun write_diffs :: "file_manager \<Rightarrow> nat \<Rightarrow> string list \<Rightarrow> (fs, unit) io" where
  "write_diffs m i [] = io_return ()"
| "write_diffs m i (d # ds) = io_bind (write_file (diff_sql_filename m i) d) (\<lambda>_. write_diffs m (Suc i) ds)"

definition new_file_manager :: "fs_path \<Rightarrow> file_manager" where
  "new_file_manager dir =
     \<lparr>schema_filename = dir @ [default_schema_filename], diffs_dir = dir, diffs_mask = default_diffs_mask\<rparr>"

text \<open>The iteration over what is no directory throws, as it does above.\<close>

definition write_manager :: "(fs \<Rightarrow> fs_path \<Rightarrow> string list) \<Rightarrow> fs_path \<Rightarrow> string_manager \<Rightarrow> (fs, file_manager) io" where
  "write_manager listing dir m w =
     io_bind
       (\<lambda>w. if fs_exists w dir
            then if is_directory w dir then (Inr (), remove_all_from_dir listing dir w) else (Inl filesystem_error, w)
            else create_directories dir w)
       (\<lambda>_. io_bind (write_file (dir @ [default_schema_filename]) (schema_text m))
       (\<lambda>_. io_bind (write_diffs (new_file_manager dir) 0 (diff_sqls m))
       (\<lambda>_. io_return (new_file_manager dir)))) w"

section \<open>What a database promises\<close>

text \<open>
  \<open>view\<close> views a database as the data that are committed and the data of the open transaction. A
  statement without transaction control (\<open>plain\<close>) has its effect on the current data or fails and
  has none; a commit can fail and leaves the transaction open.
\<close>

record 's semantics =
  effect :: "string \<Rightarrow> 's \<Rightarrow> 's option"
  look :: "string \<Rightarrow> 's \<Rightarrow> string option"
  put :: "string \<Rightarrow> string \<Rightarrow> 's \<Rightarrow> 's"
  plain :: "string \<Rightarrow> bool"

definition current :: "'s \<times> 's option \<Rightarrow> 's" where
  "current a = (case a of (d, None) \<Rightarrow> d | (_, Some x) \<Rightarrow> x)"

definition with_current :: "'s \<times> 's option \<Rightarrow> 's \<Rightarrow> 's \<times> 's option" where
  "with_current a x = (case a of (_, None) \<Rightarrow> (x, None) | (d, Some _) \<Rightarrow> (d, Some x))"

definition database_law :: "'w database \<Rightarrow> ('w \<Rightarrow> 's \<times> 's option) \<Rightarrow> 's semantics \<Rightarrow> bool" where
  "database_law D view S \<longleftrightarrow>
     (\<forall>w d. view w = (d, None) \<longrightarrow> (\<exists>w'. execute D ''BEGIN'' w = (Inr (), w') \<and> view w' = (d, Some d)))
   \<and> (\<forall>w d x. view w = (d, Some x) \<longrightarrow> (\<exists>w'. execute D ''ROLLBACK'' w = (Inr (), w') \<and> view w' = (d, None)))
   \<and> (\<forall>w d x. view w = (d, Some x) \<longrightarrow>
        (\<exists>w'. execute D ''COMMIT'' w = (Inr (), w') \<and> view w' = (x, None))
      \<or> (\<exists>e w'. execute D ''COMMIT'' w = (Inl e, w') \<and> is_exception e \<and> view w' = (d, Some x)))
   \<and> (\<forall>w s. plain S s \<longrightarrow> (case effect S s (current (view w)) of
        Some x \<Rightarrow> \<exists>w'. execute D s w = (Inr (), w') \<and> view w' = with_current (view w) x
      | None \<Rightarrow> \<exists>e w'. execute D s w = (Inl e, w') \<and> is_exception e \<and> view w' = view w))
   \<and> (\<forall>w. \<exists>w'. get_value_by_key D version_column w = (Inr (look S version_column (current (view w))), w') \<and> view w' = view w)
   \<and> (\<forall>w s. \<exists>w'. set_value_by_key D version_column s w = (Inr (), w')
        \<and> view w' = with_current (view w) (put S version_column s (current (view w))))
   \<and> (\<forall>s x. look S version_column (put S version_column s x) = Some s)"

section \<open>The version of a database\<close>

definition stored_version :: "'s semantics \<Rightarrow> 's \<Rightarrow> int option result" where
  "stored_version S x = (case look S version_column x of
     None \<Rightarrow> Inr None | Some s \<Rightarrow> bind_result (std_stoi s) (\<lambda>n. Inr (Some n)))"

fun effects :: "'s semantics \<Rightarrow> string list \<Rightarrow> 's \<Rightarrow> 's option" where
  "effects S [] x = Some x"
| "effects S (s # ss) x = (case effect S s x of None \<Rightarrow> None | Some x \<Rightarrow> effects S ss x)"

text \<open>
  The specification of a migration: a fresh database gets the latest schema, an older one the
  patches from its version on, and the number of patches is its version afterwards.
\<close>

definition migrate :: "'s semantics \<Rightarrow> string_manager \<Rightarrow> 's \<Rightarrow> 's option" where
  "migrate S m d =
     (let n = length (diff_sqls m); stamp = put S version_column (to_string (int n))
      in case stored_version S d of
           Inl _ \<Rightarrow> None
         | Inr v \<Rightarrow>
             if v = None \<or> v = Some (- 1) then map_option stamp (effect S (schema_text m) d)
             else if the v < 0 \<or> int n \<le> the v then Some d
             else map_option stamp (effects S (drop (nat (the v)) (diff_sqls m)) d))"

lemma check_version_column: "check_key version_column = Inr ()"
  by code_simp

lemmas io_unfold = io_bind_def lift_result_def io_throw_def bind_result_def check_version_column

lemma law_parts:
  assumes "database_law D view S"
  shows law_begin: "view w = (d, None) \<Longrightarrow> \<exists>w'. execute D ''BEGIN'' w = (Inr (), w') \<and> view w' = (d, Some d)"
    and law_rollback: "view w = (d, Some x) \<Longrightarrow> \<exists>w'. execute D ''ROLLBACK'' w = (Inr (), w') \<and> view w' = (d, None)"
    and law_commit: "view w = (d, Some x) \<Longrightarrow> (\<exists>w'. execute D ''COMMIT'' w = (Inr (), w') \<and> view w' = (x, None))
      \<or> (\<exists>e w'. execute D ''COMMIT'' w = (Inl e, w') \<and> is_exception e \<and> view w' = (d, Some x))"
    and law_statement: "plain S s \<Longrightarrow> case effect S s (current (view w)) of
        Some x \<Rightarrow> \<exists>w'. execute D s w = (Inr (), w') \<and> view w' = with_current (view w) x
      | None \<Rightarrow> \<exists>e w'. execute D s w = (Inl e, w') \<and> is_exception e \<and> view w' = view w"
    and law_get_value: "\<exists>w'. get_value_by_key D version_column w = (Inr (look S version_column (current (view w))), w')
      \<and> view w' = view w"
    and law_set_value: "\<exists>w'. set_value_by_key D version_column s w = (Inr (), w')
      \<and> view w' = with_current (view w) (put S version_column s (current (view w)))"
    and law_look: "look S version_column (put S version_column s y) = Some s"
proof -
  note l1 = assms [unfolded database_law_def]
  note l2 = l1 [THEN conjunct2] note l3 = l2 [THEN conjunct2] note l4 = l3 [THEN conjunct2]
  note l5 = l4 [THEN conjunct2] note l6 = l5 [THEN conjunct2]
  show "view w = (d, None) \<Longrightarrow> \<exists>w'. execute D ''BEGIN'' w = (Inr (), w') \<and> view w' = (d, Some d)"
    by (rule l1 [THEN conjunct1, rule_format])
  show "view w = (d, Some x) \<Longrightarrow> \<exists>w'. execute D ''ROLLBACK'' w = (Inr (), w') \<and> view w' = (d, None)"
    by (rule l2 [THEN conjunct1, rule_format])
  show "view w = (d, Some x) \<Longrightarrow> (\<exists>w'. execute D ''COMMIT'' w = (Inr (), w') \<and> view w' = (x, None))
      \<or> (\<exists>e w'. execute D ''COMMIT'' w = (Inl e, w') \<and> is_exception e \<and> view w' = (d, Some x))"
    by (rule l3 [THEN conjunct1, rule_format])
  show "plain S s \<Longrightarrow> case effect S s (current (view w)) of
        Some x \<Rightarrow> \<exists>w'. execute D s w = (Inr (), w') \<and> view w' = with_current (view w) x
      | None \<Rightarrow> \<exists>e w'. execute D s w = (Inl e, w') \<and> is_exception e \<and> view w' = view w"
    by (rule l4 [THEN conjunct1, rule_format])
qed (use assms in \<open>simp_all add: database_law_def\<close>)

lemma law_get:
  assumes "database_law D view S"
  obtains w' where "get_int D version_column w = (stored_version S (current (view w)), w')" "view w' = view w"
proof -
  from law_get_value [OF assms, of w] obtain w'
    where "get_value_by_key D version_column w = (Inr (look S version_column (current (view w))), w')"
      and w': "view w' = view w" by blast
  then have "get_int D version_column w = (stored_version S (current (view w)), w')"
    by (auto simp: get_int_def io_unfold stored_version_def split: option.splits sum.splits)
  then show ?thesis using w' that by blast
qed

lemma law_set:
  assumes "database_law D view S"
  obtains w' where "set_int D version_column n w = (Inr (), w')"
    "view w' = with_current (view w) (put S version_column (to_string n) (current (view w)))"
  using law_set_value [OF assms, of "to_string n" w] that by (auto simp: set_int_def io_unfold)

lemma law_run_diffs:
  assumes "database_law D view S" "\<forall>i\<in>set is. i < length (diff_sqls m)" "\<forall>s\<in>set (diff_sqls m). plain S s"
  shows "view w = (d, Some x) \<Longrightarrow> (case effects S (map ((!) (diff_sqls m)) is) x of
      Some y \<Rightarrow> \<exists>w'. run_diffs D (string_schema_manager m) is w = (Inr (), w') \<and> view w' = (d, Some y)
    | None \<Rightarrow> \<exists>e w' y. run_diffs D (string_schema_manager m) is w = (Inl e, w') \<and> is_exception e \<and> view w' = (d, Some y))"
  using assms(2)
proof (induction "is" arbitrary: w x)
  case (Cons i "is")
  let ?s = "diff_sqls m ! i"
  have i: "i < length (diff_sqls m)" "plain S ?s" using Cons.prems assms(3) by auto
  from law_statement [OF assms(1) i(2), of w] have e: "case effect S ?s x of
        Some x \<Rightarrow> \<exists>w'. execute D ?s w = (Inr (), w') \<and> view w' = (d, Some x)
      | None \<Rightarrow> \<exists>e w'. execute D ?s w = (Inl e, w') \<and> is_exception e \<and> view w' = (d, Some x)"
    using Cons.prems(1) by (cases "effect S ?s x") (simp_all add: current_def with_current_def)
  show ?case
  proof (cases "effect S ?s x")
    case None
    then show ?thesis using e i(1) by (auto simp: string_schema_manager_def io_unfold)
  next
    case (Some y)
    then obtain w' where w': "execute D ?s w = (Inr (), w')" "view w' = (d, Some y)" using e by auto
    with Cons.IH [OF w'(2)] Cons.prems(2) show ?thesis
      using Some i(1) by (auto simp: string_schema_manager_def io_unfold split: option.splits)
  qed
qed (simp add: io_return_def)

abbreviation stamp :: "'s semantics \<Rightarrow> string_manager \<Rightarrow> 's \<Rightarrow> 's" where
  "stamp S m \<equiv> put S version_column (to_string (int (length (diff_sqls m))))"

abbreviation manager_ok :: "'s semantics \<Rightarrow> string_manager \<Rightarrow> bool" where
  "manager_ok S m \<equiv> plain S (schema_text m) \<and> (\<forall>s\<in>set (diff_sqls m). plain S s) \<and> length (diff_sqls m) < 2 ^ 31"

lemma create_result:
  assumes law: "database_law D view S" and m: "manager_ok S m" and w: "view w = (d, None)"
  shows "case effect S (schema_text m) d of
      None \<Rightarrow> \<exists>e w'. create_schema D (string_schema_manager m) w = (Inl e, w') \<and> view w' = (d, Some d)
    | Some x \<Rightarrow> (\<exists>w'. create_schema D (string_schema_manager m) w = (Inr (), w') \<and> view w' = (stamp S m x, None))
        \<or> (\<exists>e w'. create_schema D (string_schema_manager m) w = (Inl e, w') \<and> view w' = (d, Some (stamp S m x)))"
proof -
  obtain w1 where w1: "execute D ''BEGIN'' w = (Inr (), w1)" "view w1 = (d, Some d)"
    using law_begin [OF law w] by blast
  note st = law_statement [OF law m [THEN conjunct1], of w1]
  show ?thesis
  proof (cases "effect S (schema_text m) d")
    case None
    then show ?thesis using st w1 by (auto simp: create_schema_def string_schema_manager_def io_unfold current_def)
  next
    case (Some x)
    then obtain w2 where w2: "execute D (schema_text m) w1 = (Inr (), w2)" "view w2 = (d, Some x)"
      using st w1 by (auto simp: current_def with_current_def)
    obtain w3 where w3: "set_int D version_column (int (length (diff_sqls m))) w2 = (Inr (), w3)"
        "view w3 = (d, Some (stamp S m x))"
      using law_set [OF law, of "int (length (diff_sqls m))" w2] w2(2) by (auto simp: current_def with_current_def)
    show ?thesis
      using law_commit [OF law w3(2)] Some w1(1) w2(1) w3(1)
      by (auto simp: create_schema_def string_schema_manager_def io_unfold)
  qed
qed

lemma drop_nth: "map ((!) xs) [k..<length xs] = drop k xs"
  by (metis drop_map drop_upt map_nth add_0)

lemma update_result:
  assumes law: "database_law D view S" and m: "manager_ok S m" and w: "view w = (d, None)"
    and v: "stored_version S d = Inr (Some v)"
  defines "k \<equiv> nat (v mod 2 ^ 64)" and "M \<equiv> string_schema_manager m"
  shows "if length (diff_sqls m) \<le> k then \<exists>w'. update_schema D M w = (Inr (), w') \<and> view w' = (d, None)
    else case effects S (drop k (diff_sqls m)) d of
      None \<Rightarrow> \<exists>e w'. update_schema D M w = (Inl e, w') \<and> view w' = (d, None)
    | Some x \<Rightarrow> (\<exists>w'. update_schema D M w = (Inr (), w') \<and> view w' = (stamp S m x, None))
        \<or> (\<exists>e w'. update_schema D M w = (Inl e, w') \<and> view w' = (d, None))"
proof -
  let ?n = "length (diff_sqls m)"
  obtain w1 where w1: "execute D ''BEGIN'' w = (Inr (), w1)" "view w1 = (d, Some d)"
    using law_begin [OF law w] by blast
  obtain w2 where w2: "get_int D version_column w1 = (Inr (Some v), w2)" "view w2 = (d, Some d)"
    using law_get [OF law, of w1] w1(2) v by (auto simp: current_def)
  have size: "diff_sql_size M = Inr ?n" by (simp add: M_def string_schema_manager_def)
  have undone: "view (snd (execute D ''ROLLBACK'' u)) = (d, None)" if "view u = (d, Some y)" for u y
    using law_rollback [OF law that] by auto
  have kk: "nat (v mod 18446744073709551616) = k" by (simp add: k_def)
  note unfold = update_schema_def scope_exit_def io_unfold size w1(1) w2(1) Let_def kk
  show ?thesis
  proof (cases "?n \<le> k")
    case True
    then show ?thesis using undone [OF w2(2)] by (simp add: unfold)
  next
    case False
    have idx: "\<forall>i\<in>set [k..<?n]. i < ?n" by simp
    have diffs: "case effects S (drop k (diff_sqls m)) d of
        Some y \<Rightarrow> \<exists>w'. run_diffs D M [k..<?n] w2 = (Inr (), w') \<and> view w' = (d, Some y)
      | None \<Rightarrow> \<exists>e w' y. run_diffs D M [k..<?n] w2 = (Inl e, w') \<and> is_exception e \<and> view w' = (d, Some y)"
      using law_run_diffs [OF law idx m [THEN conjunct2, THEN conjunct1] w2(2)] unfolding drop_nth M_def .
    show ?thesis
    proof (cases "effects S (drop k (diff_sqls m)) d")
      case None
      then obtain e w3 y where "run_diffs D M [k..<?n] w2 = (Inl e, w3)" "is_exception e" "view w3 = (d, Some y)"
        using diffs by auto
      then show ?thesis using None False undone by (simp add: unfold)
    next
      case (Some x)
      then obtain w3 where w3: "run_diffs D M [k..<?n] w2 = (Inr (), w3)" "view w3 = (d, Some x)"
        using diffs by auto
      obtain w4 where w4: "set_int D version_column (int ?n) w3 = (Inr (), w4)" "view w4 = (d, Some (stamp S m x))"
        using law_set [OF law, of "int ?n" w3] w3(2) by (auto simp: current_def with_current_def)
      from law_commit [OF law w4(2)] show ?thesis
      proof (elim disjE exE conjE)
        fix w5 assume "execute D ''COMMIT'' w4 = (Inr (), w5)" "view w5 = (stamp S m x, None)"
        then show ?thesis using Some False w3(1) w4(1) by (simp add: unfold)
      next
        fix e w5 assume "execute D ''COMMIT'' w4 = (Inl e, w5)" "is_exception e" "view w5 = (d, Some (stamp S m x))"
        then show ?thesis using Some False w3(1) w4(1) undone by (simp add: unfold)
      qed
    qed
  qed
qed

definition is_fresh :: "'s semantics \<Rightarrow> 's \<Rightarrow> bool" where
  "is_fresh S d \<longleftrightarrow> stored_version S d \<in> {Inr None, Inr (Some (- 1))}"

text \<open>What a run gives, as a relation of the result and the view afterwards.\<close>

definition run_outcome :: "'s semantics \<Rightarrow> string_manager \<Rightarrow> 's \<Rightarrow> unit result \<Rightarrow> 's \<times> 's option \<Rightarrow> bool" where
  "run_outcome S m d r a \<longleftrightarrow>
     (case r of
        Inr _ \<Rightarrow> migrate S m d = Some (fst a) \<and> snd a = None
      | Inl _ \<Rightarrow> fst a = d \<and> (if is_fresh S d then effect S (schema_text m) d = None \<longrightarrow> snd a = Some d else snd a = None))"

definition up_to_date :: "'s semantics \<Rightarrow> string_manager \<Rightarrow> 's \<Rightarrow> bool" where
  "up_to_date S m d \<longleftrightarrow> (case stored_version S d of
     Inr (Some v) \<Rightarrow> v \<noteq> - 1 \<and> (v < 0 \<or> int (length (diff_sqls m)) \<le> v) | _ \<Rightarrow> False)"

lemma create_or_update_step:
  assumes law: "database_law D view S" and m: "manager_ok S m" and w: "view w = (d, None)"
  shows "\<exists>r w'. create_or_update D (string_schema_manager m) w = (r, w') \<and> run_outcome S m d r (view w')
    \<and> (up_to_date S m d \<longrightarrow> r = Inr ())"
proof -
  let ?M = "string_schema_manager m" and ?n = "length (diff_sqls m)"
  obtain w1 where w1: "get_int D version_column w = (stored_version S d, w1)" "view w1 = (d, None)"
    using law_get [OF law, of w] w by (auto simp: current_def)
  have size: "diff_sql_size ?M = Inr ?n" by (simp add: string_schema_manager_def)
  note unfolds = create_or_update_def io_unfold w1(1)
  show ?thesis
  proof (cases "stored_version S d")
    case (Inl e)
    then show ?thesis using w1(2) by (simp add: unfolds run_outcome_def is_fresh_def up_to_date_def)
  next
    case v: (Inr v)
    show ?thesis
    proof (cases "v = None \<or> v = Some (- 1)")
      case True
      then have f: "is_fresh S d" "\<not> up_to_date S m d" using v by (auto simp: is_fresh_def up_to_date_def)
      have eq: "create_or_update D ?M w = create_schema D ?M w1" using v True by (auto simp: unfolds)
      have "migrate S m d = map_option (stamp S m) (effect S (schema_text m) d)"
        using v True by (auto simp: migrate_def Let_def)
      then show ?thesis
        using create_result [OF law m w1(2)] f unfolding eq
        by (auto simp: run_outcome_def split: option.splits)
    next
      case False
      then obtain k where k: "v = Some k" "k \<noteq> - 1" by auto
      have f: "\<not> is_fresh S d" and u: "up_to_date S m d \<longleftrightarrow> k < 0 \<or> int ?n \<le> k"
        using v k by (auto simp: is_fresh_def up_to_date_def)
      have mig: "migrate S m d = (if k < 0 \<or> int ?n \<le> k then Some d
          else map_option (stamp S m) (effects S (drop (nat k) (diff_sqls m)) d))"
        using v k by (simp add: migrate_def Let_def)
      show ?thesis
      proof (cases "?n = 0")
        case True
        then have "k < 0 \<or> int ?n \<le> k" by linarith
        then show ?thesis using v k True w1(2) mig by (simp add: unfolds size run_outcome_def)
      next
        case False
        have eq: "create_or_update D ?M w = update_schema D ?M w1" using v k False by (simp add: unfolds size)
        have range: "- int32_max - 1 \<le> k" "k \<le> int32_max"
          using v k(1) std_sto_range [of "''stoi''" "- int32_max - 1" int32_max _ k]
          by (auto simp: stored_version_def bind_result_Inr_iff std_stoi_def split: option.splits)
        have km: "k mod 2 ^ 64 = (if k < 0 then k + 2 ^ 64 else k)"
        proof (cases "k < 0")
          case True
          have "k mod 2 ^ 64 = (k + 2 ^ 64) mod 2 ^ 64" by simp
          also have "\<dots> = k + 2 ^ 64"
            using range True by (intro mod_pos_pos_trivial) (simp_all add: int32_max_def)
          finally show ?thesis using True by simp
        qed (use range in \<open>simp add: int32_max_def\<close>)
        have c: "?n \<le> nat (k mod 2 ^ 64) \<longleftrightarrow> k < 0 \<or> int ?n \<le> k"
          and e: "0 \<le> k \<Longrightarrow> nat (k mod 2 ^ 64) = nat k"
          using range m [THEN conjunct2, THEN conjunct2] unfolding km by (auto simp: int32_max_def)
        show ?thesis
          using update_result [OF law m w1(2)] v k(1) f c e mig u unfolding eq
          by (auto simp: run_outcome_def split: option.splits if_splits)
      qed
    qed
  qed
qed

lemma version_of_stamp:
  assumes "database_law D view S" "manager_ok S m"
  shows "stored_version S (stamp S m x) = Inr (Some (int (length (diff_sqls m))))"
proof -
  have "std_stoi (to_string (int (length (diff_sqls m)))) = Inr (int (length (diff_sqls m)))"
    using assms(2) unfolding std_stoi_def by (intro std_sto_to_string) (simp_all add: int32_max_def)
  then show ?thesis by (simp add: stored_version_def law_look [OF assms(1)])
qed

lemma migrate_up_to_date:
  assumes "database_law D view S" "manager_ok S m"
  shows "migrate S m d = Some x \<Longrightarrow> up_to_date S m x" and "up_to_date S m x \<Longrightarrow> migrate S m x = Some x"
  using version_of_stamp [OF assms]
  by (auto simp: migrate_def up_to_date_def Let_def split: sum.splits option.splits if_splits)

text \<open>
  C19: Bringing a database to its schema. A run that succeeds leaves the database committed in
  the state the specification gives: the latest schema for a fresh database, the patches from the
  stored version on in their order for an older one, nothing for a newer one, and the number of
  patches as its version; running it again changes nothing. A run that fails has committed
  nothing. The transaction of an update is always closed; that of a failed creation stays open.
\<close>

theorem schema_migration:
  assumes law: "database_law D view S" and m: "manager_ok S m" and w: "view w = (d, None)"
    and run: "create_or_update D (string_schema_manager m) w = (r, w')"
  shows "case r of
      Inr _ \<Rightarrow> migrate S m d = Some (fst (view w')) \<and> snd (view w') = None
        \<and> (\<exists>w2. create_or_update D (string_schema_manager m) w' = (Inr (), w2) \<and> view w2 = view w')
    | Inl _ \<Rightarrow> fst (view w') = d
        \<and> (if is_fresh S d then effect S (schema_text m) d = None \<longrightarrow> snd (view w') = Some d else snd (view w') = None)"
proof -
  have out: "run_outcome S m d r (view w')"
    using create_or_update_step [OF law m w] run by auto
  show ?thesis
  proof (cases r)
    case (Inr u)
    with out have x: "migrate S m d = Some (fst (view w'))" "view w' = (fst (view w'), None)"
      by (auto simp: run_outcome_def prod_eq_iff)
    have up: "up_to_date S m (fst (view w'))" using migrate_up_to_date(1) [OF law m x(1)] .
    obtain r2 w2 where r2: "create_or_update D (string_schema_manager m) w' = (r2, w2)"
        "run_outcome S m (fst (view w')) r2 (view w2)" "up_to_date S m (fst (view w')) \<longrightarrow> r2 = Inr ()"
      using create_or_update_step [OF law m x(2)] by blast
    have "view w2 = view w'"
      using r2(2,3) up migrate_up_to_date(2) [OF law m up] x(2) by (auto simp: run_outcome_def prod_eq_iff)
    then show ?thesis using Inr x r2(1,3) up by (auto simp: prod_eq_iff)
  qed (use out in \<open>simp add: run_outcome_def\<close>)
qed

text \<open>A database in memory: the statements that were executed, and the version.\<close>

type_synonym memory = "string list \<times> string option"

definition memory_semantics :: "memory semantics" where
  "memory_semantics =
     \<lparr>effect = (\<lambda>s (l, v). if s = ''bad'' then None else Some (l @ [s], v)), look = (\<lambda>k (l, v). v),
      put = (\<lambda>k s (l, v). (l, Some s)), plain = (\<lambda>s. s \<notin> {''BEGIN'', ''COMMIT'', ''ROLLBACK''})\<rparr>"

definition memory_database :: "(memory \<times> memory option) database" where
  "memory_database =
     \<lparr>execute = (\<lambda>s a.
        if s = ''BEGIN'' then (Inr (), (fst a, Some (current a)))
        else if s = ''ROLLBACK'' then (Inr (), (fst a, None))
        else if s = ''COMMIT'' then (Inr (), (current a, None))
        else case effect memory_semantics s (current a) of
            None \<Rightarrow> (Inl (Runtime_error ''db error''), a)
          | Some x \<Rightarrow> (Inr (), with_current a x)),
      get_value_by_key = (\<lambda>k a. (Inr (snd (current a)), a)),
      set_value_by_key = (\<lambda>k s a. (Inr (), with_current a (fst (current a), Some s)))\<rparr>"

lemma memory_database_law: "database_law memory_database (\<lambda>a. a) memory_semantics"
  unfolding database_law_def
  by (intro conjI allI impI)
    (auto simp: memory_database_def memory_semantics_def current_def with_current_def is_exception_def split: option.splits)

lemma schema_migration_witness:
  "snd (create_or_update memory_database (string_schema_manager \<lparr>schema_text = ''ab'', diff_sqls = [''a'', ''b'']\<rparr>)
     (([''a''], Some ''1''), None)) = (([''a'', ''b''], Some ''2''), None)"
proof -
  let ?m = "\<lparr>schema_text = ''ab'', diff_sqls = [''a'', ''b'']\<rparr>" and ?w = "(([''a''], Some ''1''), None)"
  have m: "manager_ok memory_semantics ?m" by (simp add: memory_semantics_def)
  have v: "stored_version memory_semantics ([''a''], Some ''1'') = Inr (Some 1)" "to_string (int 2) = ''2''"
    by code_simp+
  have "fst (create_or_update memory_database (string_schema_manager ?m) ?w) = Inr ()" by code_simp
  then obtain w' where run: "create_or_update memory_database (string_schema_manager ?m) ?w = (Inr (), w')"
    by (cases "create_or_update memory_database (string_schema_manager ?m) ?w") simp
  from schema_migration [OF memory_database_law m _ run, of "([''a''], Some ''1'')"]
  have "migrate memory_semantics ?m ([''a''], Some ''1'') = Some (fst w')" "snd w' = None" by simp_all
  then have "w' = (([''a'', ''b''], Some ''2''), None)"
    using v by (simp add: migrate_def memory_semantics_def Let_def prod_eq_iff numeral_2_eq_2)
  with run show ?thesis by simp
qed

section \<open>A schema in a directory is read back\<close>

definition listing_law :: "(fs \<Rightarrow> fs_path \<Rightarrow> string list) \<Rightarrow> bool" where
  "listing_law listing \<longleftrightarrow> (\<forall>w d. finite {n. w (d @ [n]) \<noteq> None} \<longrightarrow>
     set (listing w d) = {n. w (d @ [n]) \<noteq> None} \<and> distinct (listing w d))"

text \<open>Every entry of the file system is in a directory.\<close>

definition fs_ok :: "fs \<Rightarrow> bool" where
  "fs_ok w \<longleftrightarrow> (\<forall>p n. w (p @ [n]) \<noteq> None \<longrightarrow> is_directory w p)"

lemma fs_ok_prefix: "fs_ok w \<Longrightarrow> w (p @ q @ [n]) \<noteq> None \<Longrightarrow> is_directory w p"
proof (induction q arbitrary: n rule: rev_induct)
  case Nil
  then show ?case unfolding fs_ok_def by (metis append_Nil)
next
  case (snoc m q)
  then have "is_directory w (p @ q @ [m])" unfolding fs_ok_def by (metis append_assoc)
  then have "w (p @ q @ [m]) \<noteq> None" by (simp add: is_directory_def entry_at_def)
  with snoc show ?case by blast
qed

definition dir_ready :: "fs_path \<Rightarrow> fs \<Rightarrow> bool" where
  "dir_ready d w \<longleftrightarrow> (\<forall>q. q \<noteq> [] \<longrightarrow> prefix q d \<longrightarrow> w q = Some Directory)"

lemma write_in_dir:
  assumes "dir_ready d w" "w (d @ [n]) \<noteq> Some Directory"
  shows "write_file (d @ [n]) s w = (Inr (), w(d @ [n] \<mapsto> Regular s)) \<and> dir_ready d (w(d @ [n] \<mapsto> Regular s))"
proof -
  have same: "with_directories d w = w" using assms(1) by (auto simp: with_directories_def dir_ready_def fun_eq_iff)
  have "\<not> list_ex (is_regular w) (prefixes d)"
    using assms(1) by (auto simp: list_ex_iff is_regular_def entry_at_def dir_ready_def)
  then have "writable w (d @ [n])" using assms(2) by (simp add: writable_def)
  then show ?thesis
    using write_file_writable [of w "d @ [n]" s] same assms(1) by (auto simp: dir_ready_def)
qed

lemma digits_value_zeros: "digits_value (replicate k CHR ''0'' @ s) = digits_value s"
proof -
  have "foldl (\<lambda>a c. 10 * a + digit_value c) 0 (replicate k CHR ''0'') = 0"
    by (induction k) (simp_all add: digit_value_def)
  then show ?thesis by (simp add: digits_value_def)
qed

lemma default_mask_inj: "default_diffs_mask i = default_diffs_mask j \<Longrightarrow> i = j"
proof -
  assume "default_diffs_mask i = default_diffs_mask j"
  then have "replicate (6 - length (nat_to_string i)) CHR ''0'' @ nat_to_string i =
      replicate (6 - length (nat_to_string j)) CHR ''0'' @ nat_to_string j"
    unfolding default_diffs_mask_def Let_def append_assoc [symmetric] append_same_eq by simp
  then show "i = j" by (metis digits_value_nat_to_string digits_value_zeros)
qed

lemma default_mask_prefix: "str_find default_diffs_prefix (default_diffs_mask i) = Some 0"
  "default_diffs_mask i \<noteq> default_schema_filename" "str_find default_diffs_prefix default_schema_filename \<noteq> Some 0"
  by (simp_all add: str_find_prefix default_diffs_mask_def default_diffs_prefix_def default_schema_filename_def Let_def)

lemma write_diffs_result:
  assumes "\<And>i. w (d @ [default_diffs_mask i]) \<noteq> Some Directory" "dir_ready d w"
  shows "\<exists>w'. write_diffs (new_file_manager d) k ds w = (Inr (), w') \<and> dir_ready d w'
    \<and> (\<forall>i<length ds. w' (d @ [default_diffs_mask (k + i)]) = Some (Regular (ds ! i)))
    \<and> (\<forall>q. (\<forall>i<length ds. q \<noteq> d @ [default_diffs_mask (k + i)]) \<longrightarrow> w' q = w q)"
  using assms
proof (induction ds arbitrary: k w)
  case (Cons s ds)
  let ?p = "d @ [default_diffs_mask k]"
  let ?w = "w(?p \<mapsto> Regular s)"
  have w: "write_file ?p s w = (Inr (), ?w)" "dir_ready d ?w" using write_in_dir Cons.prems by blast+
  have "\<And>i. ?w (d @ [default_diffs_mask i]) \<noteq> Some Directory" using Cons.prems by auto
  from Cons.IH [OF this w(2), of "Suc k"] obtain w'
    where w': "write_diffs (new_file_manager d) (Suc k) ds ?w = (Inr (), w')" "dir_ready d w'"
      "\<forall>i<length ds. w' (d @ [default_diffs_mask (Suc k + i)]) = Some (Regular (ds ! i))"
      "\<forall>q. (\<forall>i<length ds. q \<noteq> d @ [default_diffs_mask (Suc k + i)]) \<longrightarrow> w' q = ?w q" by blast
  have "w' ?p = Some (Regular s)"
  proof -
    have "\<forall>i<length ds. ?p \<noteq> d @ [default_diffs_mask (Suc k + i)]"
    proof (intro allI impI notI)
      fix i assume "?p = d @ [default_diffs_mask (Suc k + i)]"
      then have "k = Suc k + i" by (intro default_mask_inj) simp
      then show False by simp
    qed
    then show ?thesis using w'(4) by simp
  qed
  moreover have "w' q = w q" if "\<forall>i<length (s # ds). q \<noteq> d @ [default_diffs_mask (k + i)]" for q
  proof -
    have "q \<noteq> ?p" using that by fastforce
    moreover have "\<forall>i<length ds. q \<noteq> d @ [default_diffs_mask (Suc k + i)]" using that by fastforce
    ultimately show ?thesis using w'(4) by simp
  qed
  ultimately show ?case
    using w w' by (auto simp: io_bind_def diff_sql_filename_def new_file_manager_def nth_Cons' less_Suc_eq_0_disj)
qed (auto simp: io_return_def)

lemma read_diffs_result:
  assumes "\<forall>i\<in>set is. w (d @ [default_diffs_mask i]) = Some (Regular (ds ! i)) \<and> length (ds ! i) < 2 ^ 63"
  shows "read_diffs (new_file_manager d) is w = (Inr (map ((!) ds) is), w)"
  using assms
proof (induction "is")
  case (Cons i "is")
  then have "read_file (d @ [default_diffs_mask i]) 0 None w = (Inr (ds ! i), w)"
    by (intro read_file_regular) auto
  with Cons show ?case by (simp add: io_bind_def diff_sql_filename_def new_file_manager_def)
qed (simp add: io_return_def)

lemma cleared_directory:
  assumes law: "listing_law listing" and ok: "fs_ok w" and fin: "finite {n. w (d @ [n]) \<noteq> None}" and d: "is_directory w d"
  shows "dir_ready d (remove_all_from_dir listing d w)" "remove_all_from_dir listing d w (d @ [n]) = None"
proof -
  have ls: "set (listing w d) = {n. w (d @ [n]) \<noteq> None}" using law fin by (simp add: listing_law_def)
  then show "remove_all_from_dir listing d w (d @ [n]) = None"
    by (auto simp: remove_all_from_dir_def Let_def)
  have up: "w q = Some Directory" if q: "q \<noteq> []" "prefix q d" for q
  proof (cases "q = d")
    case False
    then obtain r where r: "d = q @ r" "r \<noteq> []" using q(2) by (auto simp: prefix_def)
    have "w (q @ butlast r @ [last r]) \<noteq> None"
      using d q(1) r by (simp add: is_directory_def entry_at_def)
    from fs_ok_prefix [OF ok this] show ?thesis using q(1) by (simp add: is_directory_def entry_at_def)
  qed (use d q(1) in \<open>simp add: is_directory_def entry_at_def\<close>)
  have "\<not> prefix (d @ [n]) q" if "prefix q d" for n q
    using that by (metis append_prefixD prefix_order.antisym_conv prefix_length_le length_append_singleton Suc_n_not_le_n)
  then show "dir_ready d (remove_all_from_dir listing d w)"
    using up by (auto simp: dir_ready_def remove_all_from_dir_def Let_def)
qed

lemma manager_directory:
  assumes law: "listing_law listing" and ok: "fs_ok w" and fin: "finite {n. w (dir @ [n]) \<noteq> None}"
    and written: "write_manager listing dir m w = (Inr fm, w')"
  obtains w1 where "dir_ready dir w1" "\<And>n. w1 (dir @ [n]) = None"
    "io_bind (write_file (dir @ [default_schema_filename]) (schema_text m)) (\<lambda>_. io_bind (write_diffs (new_file_manager dir) 0 (diff_sqls m))
       (\<lambda>_. io_return (new_file_manager dir))) w1 = (Inr fm, w')"
proof (cases "fs_exists w dir")
  case True
  then have d: "is_directory w dir" using written by (auto simp: write_manager_def io_bind_def split: if_splits)
  show ?thesis
    using that [OF cleared_directory [OF law ok fin d]] written True d by (simp add: write_manager_def io_bind_def)
next
  case False
  have c: "create_directories dir w = (Inr (), with_directories dir w)"
    using written False by (auto simp: write_manager_def io_bind_def create_directories_def split: if_splits)
  have "w (dir @ [n]) = None" for n
  proof (rule ccontr)
    assume "w (dir @ [n]) \<noteq> None"
    then have "is_directory w dir" using ok unfolding fs_ok_def by blast
    then show False using False by (simp add: fs_exists_def is_directory_def)
  qed
  then have "with_directories dir w (dir @ [n]) = None" for n
    using with_directories_other [of "dir @ [n]" dir w] by simp
  moreover have "dir_ready dir (with_directories dir w)" by (simp add: dir_ready_def with_directories_def)
  ultimately show ?thesis using that c written False by (simp add: write_manager_def io_bind_def)
qed

text \<open>In a directory of the schema and of numbered patches, the patches are counted.\<close>

lemma counted_patches:
  assumes law: "listing_law listing" and names: "{x. w (dir @ [x]) \<noteq> None} = insert default_schema_filename (default_diffs_mask ` {..<n})"
    and files: "\<And>i. i < n \<Longrightarrow> is_regular w (dir @ [default_diffs_mask i])" and dir: "is_directory w dir"
  shows "file_diff_sql_size listing (new_file_manager dir) w = Inr n"
proof -
  let ?p = "\<lambda>n. is_regular w (dir @ [n]) \<and> str_find default_diffs_prefix n = Some 0"
  have ls: "set (listing w dir) = {n. w (dir @ [n]) \<noteq> None}" "distinct (listing w dir)"
    using law names unfolding listing_law_def by (metis finite_imageI finite_insert finite_lessThan)+
  have "set (filter ?p (listing w dir)) = default_diffs_mask ` {..<n}"
    using default_mask_prefix files unfolding set_filter ls(1) [unfolded names] by auto
  moreover have "distinct (filter ?p (listing w dir))" using ls(2) by simp
  ultimately have "length (filter ?p (listing w dir)) = card (default_diffs_mask ` {..<n})"
    using distinct_card by metis
  also have "\<dots> = n" using default_mask_inj by (simp add: card_image inj_on_def)
  finally show ?thesis using dir by (simp add: file_diff_sql_size_def new_file_manager_def)
qed

text \<open>
  A schema written to a directory and read from it again is the same schema, with its
  patches in their order, whatever the directory held before.
\<close>

theorem written_schema_read:
  assumes law: "listing_law listing" and ok: "fs_ok w" and fin: "finite {n. w (dir @ [n]) \<noteq> None}"
    and small: "length (schema_text m) < 2 ^ 63" "\<forall>s\<in>set (diff_sqls m). length s < 2 ^ 63"
    and written: "write_manager listing dir m w = (Inr fm, w')"
  shows "read_manager listing fm w' = (Inr m, w')"
proof -
  let ?ds = "diff_sqls m" and ?n = "length (diff_sqls m)" and ?s = "dir @ [default_schema_filename]"
  obtain w1 where w1: "dir_ready dir w1" "\<And>n. w1 (dir @ [n]) = None"
    and rest: "io_bind (write_file ?s (schema_text m)) (\<lambda>_. io_bind (write_diffs (new_file_manager dir) 0 ?ds)
       (\<lambda>_. io_return (new_file_manager dir))) w1 = (Inr fm, w')"
    using manager_directory [OF law ok fin written] by blast
  let ?w2 = "w1(?s \<mapsto> Regular (schema_text m))"
  have w2: "write_file ?s (schema_text m) w1 = (Inr (), ?w2)" "dir_ready dir ?w2"
    using write_in_dir [of dir w1 default_schema_filename "schema_text m"] w1 by auto
  have "\<And>i. ?w2 (dir @ [default_diffs_mask i]) \<noteq> Some Directory" using w1(2) by simp
  from write_diffs_result [OF this w2(2), of 0 ?ds] obtain w3
    where w3: "write_diffs (new_file_manager dir) 0 ?ds ?w2 = (Inr (), w3)" "dir_ready dir w3"
      and at: "\<forall>i<?n. w3 (dir @ [default_diffs_mask i]) = Some (Regular (?ds ! i))"
      and other: "\<forall>q. (\<forall>i<?n. q \<noteq> dir @ [default_diffs_mask i]) \<longrightarrow> w3 q = ?w2 q" by auto
  have fm: "fm = new_file_manager dir" "w' = w3" using rest w2(1) w3(1) by (simp_all add: io_bind_def)
  have s: "w3 ?s = Some (Regular (schema_text m))"
    using other [rule_format, of ?s] default_mask_prefix(2) by (metis fun_upd_same last_snoc)
  have "n = default_schema_filename \<or> n \<in> default_diffs_mask ` {..<?n}" if "w3 (dir @ [n]) = Some e" for n e
  proof (rule disjCI, rule ccontr)
    assume "n \<notin> default_diffs_mask ` {..<?n}" and n: "n \<noteq> default_schema_filename"
    then have "w3 (dir @ [n]) = ?w2 (dir @ [n])" by (intro other [rule_format]) auto
    then show False using that n w1(2) by simp
  qed
  then have names: "{n. w3 (dir @ [n]) \<noteq> None} = insert default_schema_filename (default_diffs_mask ` {..<?n})"
    using at s by auto
  have "file_diff_sql_size listing fm w3 = Inr ?n" unfolding fm
    using at w3(2) by (intro counted_patches [OF law names])
      (auto simp: is_regular_def entry_at_def dir_ready_def is_directory_def)
  moreover have "read_diffs fm [0..<?n] w3 = (Inr ?ds, w3)"
    using read_diffs_result [of "[0..<?n]" w3 dir ?ds] at small(2) by (simp add: fm map_nth)
  moreover have "read_file (schema_filename fm) 0 None w3 = (Inr (schema_text m), w3)"
    using read_file_regular [of ?s w3, OF _ s small(1)] by (simp add: fm new_file_manager_def)
  ultimately show ?thesis by (simp add: read_manager_def io_bind_def lift_result_def fm(2))
qed

text \<open>A listing that obeys the law: the names in order.\<close>

definition sorted_listing :: "fs \<Rightarrow> fs_path \<Rightarrow> string list" where
  "sorted_listing w d = sorted_list_of_set {n. w (d @ [n]) \<noteq> None}"

lemma sorted_listing_law: "listing_law sorted_listing"
  by (simp add: listing_law_def sorted_listing_def)

lemma written_schema_read_witness:
  "\<exists>w'. write_manager sorted_listing [''a'', ''b''] \<lparr>schema_text = ''ab'', diff_sqls = [''a'', ''b'']\<rparr> Map.empty
       = (Inr (new_file_manager [''a'', ''b'']), w')
     \<and> read_manager sorted_listing (new_file_manager [''a'', ''b'']) w' = (Inr \<lparr>schema_text = ''ab'', diff_sqls = [''a'', ''b'']\<rparr>, w')"
proof -
  let ?d = "[''a'', ''b'']" and ?m = "\<lparr>schema_text = ''ab'', diff_sqls = [''a'', ''b'']\<rparr>"
  let ?w1 = "with_directories ?d Map.empty"
  let ?w2 = "?w1(?d @ [default_schema_filename] \<mapsto> Regular ''ab'')"
  have r: "dir_ready ?d ?w1" by (simp add: dir_ready_def with_directories_def)
  have e: "?w1 (?d @ [n]) = None" for n by (simp add: with_directories_def)
  have c: "create_directories ?d Map.empty = (Inr (), ?w1)" "\<not> fs_exists Map.empty ?d"
    by (simp_all add: create_directories_def is_regular_def entry_at_def fs_exists_def)
  have w2: "write_file (?d @ [default_schema_filename]) ''ab'' ?w1 = (Inr (), ?w2)" "dir_ready ?d ?w2"
    using write_in_dir [OF r] e by auto
  have "\<And>i. ?w2 (?d @ [default_diffs_mask i]) \<noteq> Some Directory" using e by simp
  from write_diffs_result [OF this w2(2), of 0 "[''a'', ''b'']"] obtain w3
    where w3: "write_diffs (new_file_manager ?d) 0 [''a'', ''b''] ?w2 = (Inr (), w3)" by blast
  have w: "write_manager sorted_listing ?d ?m Map.empty = (Inr (new_file_manager ?d), w3)"
    using c w2(1) w3 by (simp add: write_manager_def io_bind_def)
  moreover have "read_manager sorted_listing (new_file_manager ?d) w3 = (Inr ?m, w3)"
    by (rule written_schema_read [OF sorted_listing_law _ _ _ _ w]) (simp_all add: fs_ok_def)
  ultimately show ?thesis by blast
qed

end
