(* ===== verification/Makefile.thy ===== *)
theory Makefile
  imports FileSystem "HOL-Library.Multiset"
begin

text \<open>
  The reader of automake files of makefile.h: assignments, appended lists, rules, conditionals,
  included files, and references between variables.

  A pointer into the text is the rest of the text; at its end it reads the terminating zero, and
  a scan that goes on behind it is undefined. \<open>split\<close> is \<open>split_string\<close> at blanks, tabs and
  backslashes: the trimmed parts that are not empty (the splitting and trimming are Boost's).
\<close>

section \<open>State\<close>

record if_desc =
  if_current :: bool
  if_branch :: bool
  else_branch :: bool

definition if_active :: "if_desc \<Rightarrow> bool" where
  "if_active d = (if if_current d then if_branch d else else_branch d)"

definition switch_to_else :: "if_desc \<Rightarrow> if_desc" where
  "switch_to_else d = d\<lparr>if_current := False\<rparr>"

type_synonym variables = "(string \<times> string list) list"

record makefile =
  variables :: variables
  current_fn :: fs_path
  if_stack :: "if_desc list"

definition variable_at :: "string \<Rightarrow> variables \<Rightarrow> string list" where
  "variable_at k vs = (case map_of vs k of None \<Rightarrow> [] | Some l \<Rightarrow> l)"

definition contains_variable :: "string \<Rightarrow> variables \<Rightarrow> bool" where
  "contains_variable k vs \<longleftrightarrow> map_of vs k \<noteq> None"

definition set_variable :: "string \<Rightarrow> string list \<Rightarrow> variables \<Rightarrow> variables" where
  "set_variable k l vs = map_at k [] (\<lambda>_. l) vs"

definition append_variable :: "string \<Rightarrow> string list \<Rightarrow> variables \<Rightarrow> variables" where
  "append_variable k l vs = map_at k [] (\<lambda>x. x @ l) vs"

section \<open>Scanning\<close>

fun eat_space :: "string \<Rightarrow> string" where
  "eat_space [] = []"
| "eat_space (c # s) = (if is_space c \<and> c \<noteq> NL then eat_space s else c # s)"

fun eat_token :: "string \<Rightarrow> (string \<times> string) result" where
  "eat_token [] = Inl Undefined"
| "eat_token (c # s) =
     (if c = CHR '':'' \<or> is_space c \<or> c = CHR ''+'' \<or> c = CHR ''='' then Inr ([], c # s)
      else bind_result (eat_token s) (\<lambda>(t, r). Inr (c # t, r)))"

fun eat_until :: "char \<Rightarrow> string \<Rightarrow> (string \<times> string) result" where
  "eat_until d [] = Inl Undefined"
| "eat_until d (c # s) = (if c = d then Inr ([], c # s) else bind_result (eat_until d s) (\<lambda>(t, r). Inr (c # t, r)))"

definition eat_line :: "string \<Rightarrow> (string \<times> string) result" where
  "eat_line p = bind_result (eat_until NL p) (\<lambda>(t, r). Inr (t, tl r))"

lemma eat_space_length: "length (eat_space p) \<le> length p"
  by (induction p) auto

lemma eat_token_length: "eat_token p = Inr (t, r) \<Longrightarrow> length r \<le> length p"
  by (induction p arbitrary: t r) (auto simp: bind_result_Inr_iff split: if_splits)

lemma eat_until_split: "eat_until d p = Inr (t, r) \<Longrightarrow> p = t @ r \<and> r \<noteq> [] \<and> hd r = d \<and> d \<notin> set t"
  by (induction p arbitrary: t r) (fastforce simp: bind_result_Inr_iff split: if_splits)+

lemma eat_line_split: "eat_line p = Inr (t, r) \<longleftrightarrow> p = t @ NL # r \<and> NL \<notin> set t"
proof
  assume "eat_line p = Inr (t, r)"
  then show "p = t @ NL # r \<and> NL \<notin> set t"
    using eat_until_split by (fastforce simp: eat_line_def bind_result_Inr_iff neq_Nil_conv)
next
  have "NL \<notin> set t \<Longrightarrow> eat_until NL (t @ NL # r) = Inr (t, NL # r)" by (induction t) auto
  then show "p = t @ NL # r \<and> NL \<notin> set t \<Longrightarrow> eat_line p = Inr (t, r)" by (simp add: eat_line_def)
qed

lemma eat_line_length: "eat_line p = Inr (t, r) \<Longrightarrow> length r < length p"
  by (simp add: eat_line_split)

function eat_commands_loop :: "string \<Rightarrow> (string list \<times> string) result" where
  "eat_commands_loop p =
     (case p of c # q \<Rightarrow>
        if c = CHR 0x09 then bind_result (eat_line q) (\<lambda>(l, r).
          bind_result (eat_commands_loop r) (\<lambda>(ls, r). Inr (l # ls, r)))
        else Inr ([], p)
      | [] \<Rightarrow> Inr ([], p))"
  by pat_completeness auto
termination
  by (relation "measure length") (auto dest: eat_line_length)

definition eat_commands :: "string \<Rightarrow> (string list \<times> string) result" where
  "eat_commands p = bind_result (eat_line p) (\<lambda>(_, r). eat_commands_loop r)"

text \<open>The text of a list: lines up to one that is empty or does not end in a backslash.\<close>

function list_text :: "string \<Rightarrow> (string \<times> string) result" where
  "list_text p = bind_result (eat_line p) (\<lambda>(l, r).
     if l = [] \<or> last l \<noteq> CHR 0x5C then Inr (l @ [NL], r)
     else bind_result (list_text r) (\<lambda>(t, r). Inr (l @ NL # t, r)))"
  by pat_completeness auto
termination
  by (relation "measure length") (auto dest: eat_line_length)

declare eat_commands_loop.simps [simp del] list_text.simps [simp del]

definition eat_list :: "(string \<Rightarrow> string list) \<Rightarrow> string \<Rightarrow> (string list \<times> string) result" where
  "eat_list split p = bind_result (list_text p) (\<lambda>(t, r). Inr (split t, r))"

lemma eat_commands_loop_length: "eat_commands_loop p = Inr (ls, r) \<Longrightarrow> length r \<le> length p"
proof (induction p arbitrary: ls r rule: eat_commands_loop.induct)
  case (1 p)
  from "1.prems" [unfolded eat_commands_loop.simps [of p]] "1.IH" show ?case
    by (fastforce simp: bind_result_Inr_iff split: list.splits if_splits dest: eat_line_length)
qed

lemma list_text_length: "list_text p = Inr (t, r) \<Longrightarrow> length r < length p"
proof (induction p arbitrary: t r rule: list_text.induct)
  case (1 p)
  from "1.prems" [unfolded list_text.simps [of p]] "1.IH" show ?case
    by (fastforce simp: bind_result_Inr_iff split: if_splits dest: eat_line_length)
qed

section \<open>Records\<close>

definition parse_cond :: "makefile \<Rightarrow> bool" where
  "parse_cond m \<longleftrightarrow> if_stack m = [] \<or> if_active (last (if_stack m))"

definition push_if :: "bool \<Rightarrow> makefile \<Rightarrow> makefile" where
  "push_if b m = m\<lparr>if_stack := if_stack m @
     [\<lparr>if_current = True, if_branch = b \<and> parse_cond m, else_branch = \<not> (b \<and> parse_cond m) \<and> parse_cond m\<rparr>]\<rparr>"

definition record_if :: "string \<Rightarrow> makefile \<Rightarrow> (makefile \<times> string) result" where
  "record_if p m =
     (let p = eat_space p
      in if p \<noteq> [] \<and> hd p = CHR ''!'' then
           bind_result (eat_line (tl p)) (\<lambda>(c, r). Inr (push_if (\<not> contains_variable c (variables m)) m, r))
         else bind_result (eat_line p) (\<lambda>(c, r). Inr (push_if (contains_variable c (variables m)) m, r)))"

definition record_else :: "string \<Rightarrow> makefile \<Rightarrow> (makefile \<times> string) result" where
  "record_else p m =
     (if if_stack m = [] then Inl Undefined
      else bind_result (eat_line p) (\<lambda>(_, r).
        Inr (m\<lparr>if_stack := butlast (if_stack m) @ [switch_to_else (last (if_stack m))]\<rparr>, r)))"

definition record_endif :: "string \<Rightarrow> makefile \<Rightarrow> (makefile \<times> string) result" where
  "record_endif p m =
     (if if_stack m = [] then Inl Undefined
      else bind_result (eat_line p) (\<lambda>(_, r). Inr (m\<lparr>if_stack := butlast (if_stack m)\<rparr>, r)))"

definition record_variable :: "(string \<Rightarrow> string list) \<Rightarrow> string \<Rightarrow> string \<Rightarrow> makefile \<Rightarrow> (makefile \<times> string) result" where
  "record_variable split t p m =
     (case eat_space p of
        c # q \<Rightarrow>
          if c = CHR ''='' then
            bind_result (eat_list split (eat_space q)) (\<lambda>(l, r). Inr (m\<lparr>variables := set_variable t l (variables m)\<rparr>, r))
          else if c = CHR '':'' then
            bind_result (eat_commands (c # q)) (\<lambda>(l, r). Inr (m\<lparr>variables := set_variable t l (variables m)\<rparr>, r))
          else if c = CHR ''+'' \<and> q \<noteq> [] \<and> hd q = CHR ''='' then
            bind_result (eat_list split (eat_space (tl q)))
              (\<lambda>(l, r). Inr (m\<lparr>variables := append_variable t l (variables m)\<rparr>, r))
          else Inl (Runtime_error ''unimplemented: unexpected symbol'')
      | [] \<Rightarrow> Inl (Runtime_error ''unimplemented: unexpected symbol''))"

text \<open>
  One record. \<open>inc\<close> loads an included file, given by its text and the state; the carriage return
  that the code skips is a blank already eaten.
\<close>

definition next_record ::
  "(string \<Rightarrow> string list) \<Rightarrow> (string \<Rightarrow> makefile \<Rightarrow> makefile result) \<Rightarrow> string \<Rightarrow> makefile \<Rightarrow> (makefile \<times> string) result" where
  "next_record split inc p m =
     (let p = eat_space p
      in if p \<noteq> [] \<and> (hd p = CHR ''#'' \<or> hd p = NL) then bind_result (eat_line p) (\<lambda>(_, r). Inr (m, r))
         else bind_result (eat_token p) (\<lambda>(t, p).
           if prefix ''if'' t then record_if p m
           else if prefix ''else'' t then record_else p m
           else if prefix ''endif'' t then record_endif p m
           else if if_stack m \<noteq> [] \<and> \<not> if_active (last (if_stack m)) then
             bind_result (eat_line p) (\<lambda>(_, r). Inr (m, r))
           else if prefix ''include'' t then
             bind_result (eat_line (eat_space p)) (\<lambda>(f, r). bind_result (inc f m) (\<lambda>m. Inr (m, r)))
           else record_variable split t p m))"

lemma record_length [dest]:
  "record_if p m = Inr (m', r) \<Longrightarrow> length r < length p"
  "record_else p m = Inr (m', r) \<Longrightarrow> length r < length p"
  "record_endif p m = Inr (m', r) \<Longrightarrow> length r < length p"
proof -
  show "record_if p m = Inr (m', r) \<Longrightarrow> length r < length p"
    using eat_space_length [of p] by (auto simp: record_if_def Let_def bind_result_Inr_iff dest!: eat_line_length split: if_splits)
qed (auto simp: record_else_def record_endif_def bind_result_Inr_iff dest!: eat_line_length split: if_splits)

lemma record_variable_length: "record_variable split t p m = Inr (m', r) \<Longrightarrow> length r < length p"
proof -
  assume r: "record_variable split t p m = Inr (m', r)"
  then obtain c q where p: "eat_space p = c # q" by (cases "eat_space p") (auto simp: record_variable_def)
  then have "length q < length p" using eat_space_length [of p] by simp
  moreover have "length r < length (c # q)"
    using r p eat_space_length [of q] eat_space_length [of "tl q"]
    by (auto simp: record_variable_def eat_list_def eat_commands_def bind_result_Inr_iff split: if_splits
        dest!: list_text_length eat_commands_loop_length eat_line_length)
  ultimately show ?thesis by simp
qed

lemma next_record_length:
  assumes "next_record split inc p m = Inr (m', r)"
  shows "length r < length p"
proof (cases "eat_space p \<noteq> [] \<and> (hd (eat_space p) = CHR ''#'' \<or> hd (eat_space p) = NL)")
  case True
  then have "length r < length (eat_space p)"
    using assms by (auto simp: next_record_def Let_def bind_result_Inr_iff dest: eat_line_length)
  then show ?thesis using eat_space_length [of p] by simp
next
  case False
  then obtain t q where q: "eat_token (eat_space p) = Inr (t, q)"
    using assms by (auto simp: next_record_def Let_def bind_result_Inr_iff)
  have "record_if q m = Inr (m', r) \<or> record_else q m = Inr (m', r) \<or> record_endif q m = Inr (m', r)
      \<or> (\<exists>l. eat_line q = Inr (l, r)) \<or> (\<exists>l. eat_line (eat_space q) = Inr (l, r))
      \<or> record_variable split t q m = Inr (m', r)"
    using assms q False by (auto simp: next_record_def Let_def bind_result_Inr_iff split: if_splits)
  then have "length r < length q"
    using record_length [of q m m' r] record_variable_length [of split t q m m' r] eat_space_length [of q]
    by (auto dest!: eat_line_length)
  then show ?thesis using eat_token_length [OF q] eat_space_length [of p] by simp
qed

section \<open>Files\<close>

function load_text ::
  "(string \<Rightarrow> string list) \<Rightarrow> (string \<Rightarrow> makefile \<Rightarrow> makefile result) \<Rightarrow> string \<Rightarrow> makefile \<Rightarrow> makefile result" where
  "load_text split inc p m =
     (if p = [] then Inr m
      else bind_result (next_record split inc p m) (\<lambda>(m, r). load_text split inc r m))"
  by pat_completeness auto
termination
  by (relation "measure (\<lambda>(split, inc, p, m). length p)") (auto dest: next_record_length)

declare load_text.simps [simp del]

text \<open>
  References between variables: an element \<open>$(k)\<close> is replaced by the elements of \<open>k\<close>, each put at
  the front of those before it; a variable that is missing is created. A variable that
  refers to itself changes the list it iterates over, which is undefined; a cycle of other
  variables does not end, and the function is then undefined.
\<close>

definition reference :: "string \<Rightarrow> string option" where
  "reference l = (if prefix ''$('' l \<and> suffix '')'' l then Some (take (length l - 3) (drop 2 l)) else None)"

partial_function (option) resolve_list :: "string \<Rightarrow> nat \<Rightarrow> variables \<Rightarrow> variables result option" where
  [code]: "resolve_list key i vs =
     (let lst = variable_at key vs
      in if i \<ge> length lst then Some (Inr vs)
         else case reference (lst ! i) of
             None \<Rightarrow> resolve_list key (Suc i) vs
           | Some k \<Rightarrow>
               if k = key then Some (Inl Undefined)
               else let vs = map_at k [] (\<lambda>x. x) vs
                 in resolve_list key i
                     (set_variable key (take i lst @ rev (variable_at k vs) @ drop (Suc i) lst) vs))"

fun resolve_keys :: "string list \<Rightarrow> variables \<Rightarrow> variables result option" where
  "resolve_keys [] vs = Some (Inr vs)"
| "resolve_keys (k # ks) vs = (case resolve_list k 0 vs of
     None \<Rightarrow> None | Some (Inl e) \<Rightarrow> Some (Inl e) | Some (Inr vs) \<Rightarrow> resolve_keys ks vs)"

text \<open>The variables that the loop creates have empty lists, so that going over them changes nothing.\<close>

definition resolve_variables :: "makefile \<Rightarrow> makefile result" where
  "resolve_variables m = (case resolve_keys (map fst (variables m)) (variables m) of
     None \<Rightarrow> Inl Diverges
   | Some r \<Rightarrow> bind_result r (\<lambda>vs. Inr (m\<lparr>variables := vs\<rparr>)))"

text \<open>
  Loading a file, with a bound on the depth of includes: a file that includes itself does not
  end. \<open>crlf\<close> replaces the pairs of carriage return and line feed, \<open>join\<close> appends the text of a
  path to a path; both are not code of this repository.
\<close>

record make_env =
  split_list :: "string \<Rightarrow> string list"
  crlf :: "string \<Rightarrow> string"
  path_append :: "fs_path \<Rightarrow> string \<Rightarrow> fs_path"
  files :: fs

fun load_makefile :: "make_env \<Rightarrow> nat \<Rightarrow> fs_path \<Rightarrow> makefile \<Rightarrow> makefile result" where
  "load_makefile E 0 fn m = Inl Diverges"
| "load_makefile E (Suc n) fn m =
     bind_result (fst (read_file fn 0 None (files E))) (\<lambda>s.
     bind_result (load_text (split_list E)
         (\<lambda>f m. load_makefile E n (path_append E (parent_path (current_fn m)) f) m) (crlf E s) m)
       resolve_variables)"

fun load_defs :: "make_env \<Rightarrow> nat \<Rightarrow> string list \<Rightarrow> makefile \<Rightarrow> makefile result" where
  "load_defs E n [] m = Inr m"
| "load_defs E n (d # ds) m = bind_result
     (load_text (split_list E) (\<lambda>f m. load_makefile E n (path_append E (parent_path (current_fn m)) f) m) (d @ [NL]) m)
     (load_defs E n ds)"

text \<open>The constructor; the current file is restored when it is left.\<close>

definition makefile_am :: "make_env \<Rightarrow> nat \<Rightarrow> fs_path \<Rightarrow> string list \<Rightarrow> makefile result" where
  "makefile_am E n fn defs =
     bind_result (load_defs E n defs \<lparr>variables = [], current_fn = [], if_stack = []\<rparr>) (\<lambda>m.
     bind_result (resolve_variables m) (\<lambda>m.
     bind_result (load_makefile E n fn (m\<lparr>current_fn := fn\<rparr>)) (\<lambda>m. Inr (m\<lparr>current_fn := []\<rparr>))))"

section \<open>References between variables\<close>

text \<open>
  A ranking of the names witnesses that no variable refers to itself, directly or through others.
\<close>

definition ranked :: "(string \<Rightarrow> nat) \<Rightarrow> variables \<Rightarrow> bool" where
  "ranked rank vs \<longleftrightarrow> (\<forall>k. \<forall>l\<in>set (variable_at k vs). \<forall>k'. reference l = Some k' \<longrightarrow> rank k' < rank k)"

text \<open>What a list and a name stand for when every reference is followed, \<open>n\<close> levels deep.\<close>

definition words_of :: "(string \<Rightarrow> string multiset) \<Rightarrow> string list \<Rightarrow> string multiset" where
  "words_of f ls = (\<Sum>l\<leftarrow>ls. case reference l of None \<Rightarrow> {#l#} | Some k \<Rightarrow> f k)"

fun expand :: "nat \<Rightarrow> variables \<Rightarrow> string \<Rightarrow> string multiset" where
  "expand 0 vs k = {#}"
| "expand (Suc n) vs k = words_of (expand n vs) (variable_at k vs)"

lemma words_of_simps [simp]:
  "words_of f [] = {#}" "words_of f (ls @ ls') = words_of f ls + words_of f ls'"
  "words_of f (l # ls) = (case reference l of None \<Rightarrow> {#l#} | Some k \<Rightarrow> f k) + words_of f ls"
  "words_of f (rev ls) = words_of f ls"
proof -
  show "words_of f (rev ls) = words_of f ls"
    by (simp add: words_of_def rev_map [symmetric] sum_list_rev)
qed (simp_all add: words_of_def)

lemma words_of_cong:
  "(\<And>l k. l \<in> set ls \<Longrightarrow> reference l = Some k \<Longrightarrow> f k = g k) \<Longrightarrow> words_of f ls = words_of g ls"
proof (induction ls)
  case (Cons a ls)
  then have "words_of f ls = words_of g ls" by (intro Cons.IH) auto
  then show ?case using Cons.prems [of a] by (cases "reference a") auto
qed simp

lemma words_of_plain: "\<forall>l\<in>set ls. reference l = None \<Longrightarrow> words_of f ls = mset ls"
  by (induction ls) auto

lemma expand_enough: "ranked rank vs \<Longrightarrow> rank k < n \<Longrightarrow> rank k < n' \<Longrightarrow> expand n vs k = expand n' vs k"
proof (induction n arbitrary: k n')
  case (Suc n)
  then obtain p where p: "n' = Suc p" by (cases n') auto
  have "words_of (expand n vs) (variable_at k vs) = words_of (expand p vs) (variable_at k vs)"
  proof (rule words_of_cong)
    fix l k' assume "l \<in> set (variable_at k vs)" "reference l = Some k'"
    then have "rank k' < rank k" using Suc.prems(1) unfolding ranked_def by blast
    then show "expand n vs k' = expand p vs k'" using Suc.prems p by (intro Suc.IH) auto
  qed
  then show ?case using p by simp
qed simp

lemma variable_at_simps [simp]:
  "sorted_keys vs \<Longrightarrow> variable_at k (set_variable k' l vs) = (if k = k' then l else variable_at k vs)"
  "sorted_keys vs \<Longrightarrow> variable_at k (map_at k' [] (\<lambda>x. x) vs) = variable_at k vs"
  "sorted_keys vs \<Longrightarrow> variable_at k (append_variable k' l vs) = variable_at k vs @ (if k = k' then l else [])"
  by (auto simp: variable_at_def set_variable_def append_variable_def map_of_map_at split: option.splits)

lemma sorted_variables [simp]:
  "sorted_keys vs \<Longrightarrow> sorted_keys (set_variable k l vs)"
  "sorted_keys vs \<Longrightarrow> sorted_keys (append_variable k l vs)"
  by (simp_all add: set_variable_def append_variable_def sorted_map_at)

text \<open>The elements still to be looked at, by their ranks.\<close>

definition todo :: "(string \<Rightarrow> nat) \<Rightarrow> string \<Rightarrow> nat \<Rightarrow> variables \<Rightarrow> nat multiset" where
  "todo rank key i vs =
     mset (map (\<lambda>l. case reference l of None \<Rightarrow> 0 | Some k \<Rightarrow> Suc (rank k)) (drop i (variable_at key vs)))"

lemma todo_literal:
  "i < length (variable_at key vs) \<Longrightarrow> (todo rank key (Suc i) vs, todo rank key i vs) \<in> mult less_than"
proof -
  assume i: "i < length (variable_at key vs)"
  let ?r = "\<lambda>l. case reference l of None \<Rightarrow> 0 | Some k \<Rightarrow> Suc (rank k)"
  have "todo rank key i vs = todo rank key (Suc i) vs + {#?r (variable_at key vs ! i)#}"
    using i by (simp add: todo_def Cons_nth_drop_Suc [symmetric])
  then show ?thesis using one_step_implies_mult [of "{#?r (variable_at key vs ! i)#}" "{#}" less_than "todo rank key (Suc i) vs"]
    by simp
qed

lemma todo_reference:
  assumes "sorted_keys vs" "ranked rank vs" "i < length (variable_at key vs)" "reference (variable_at key vs ! i) = Some k"
  shows "(todo rank key i (set_variable key (take i (variable_at key vs) @ rev (variable_at k vs) @ drop (Suc i) (variable_at key vs)) vs),
    todo rank key i vs) \<in> mult less_than"
proof -
  let ?r = "\<lambda>l. case reference l of None \<Rightarrow> 0 | Some k \<Rightarrow> Suc (rank k)"
  let ?new = "mset (map ?r (variable_at k vs))"
  have old: "todo rank key i vs = todo rank key (Suc i) vs + {#Suc (rank k)#}"
    using assms(3,4) by (simp add: todo_def Cons_nth_drop_Suc [symmetric])
  have new: "todo rank key i (set_variable key (take i (variable_at key vs) @ rev (variable_at k vs) @ drop (Suc i) (variable_at key vs)) vs)
      = todo rank key (Suc i) vs + ?new"
    using assms(1,3) by (simp add: todo_def rev_map [symmetric])
  have "\<forall>x\<in>#?new. (x, Suc (rank k)) \<in> less_than"
    using assms(2) by (auto simp: ranked_def split: option.splits)
  then show ?thesis
    unfolding old new by (intro one_step_implies_mult) auto
qed

lemma ranked_reference:
  assumes "sorted_keys vs" "ranked rank vs" "i < length (variable_at key vs)" "reference (variable_at key vs ! i) = Some k"
  shows "k \<noteq> key"
    and "ranked rank (set_variable key (take i (variable_at key vs) @ rev (variable_at k vs) @ drop (Suc i) (variable_at key vs)) vs)"
proof -
  have k: "rank k < rank key" using assms(2-4) nth_mem unfolding ranked_def by blast
  then show "k \<noteq> key" by auto
  have sub: "set (take i (variable_at key vs)) \<subseteq> set (variable_at key vs)" "set (drop (Suc i) (variable_at key vs)) \<subseteq> set (variable_at key vs)"
    by (simp_all add: set_take_subset set_drop_subset)
  show "ranked rank (set_variable key (take i (variable_at key vs) @ rev (variable_at k vs) @ drop (Suc i) (variable_at key vs)) vs)"
    unfolding ranked_def
  proof (intro allI ballI impI)
    fix k1 l k'
    assume l: "l \<in> set (variable_at k1 (set_variable key (take i (variable_at key vs) @ rev (variable_at k vs) @ drop (Suc i) (variable_at key vs)) vs))"
      and ref: "reference l = Some k'"
    then have "l \<in> set (variable_at k1 vs) \<or> k1 = key \<and> l \<in> set (variable_at k vs)"
      using assms(1) sub by (auto split: if_splits)
    then show "rank k' < rank k1"
      using assms(2) ref k unfolding ranked_def by (metis order.strict_trans)
  qed
qed

lemma resolve_list_result:
  assumes "sorted_keys vs" "ranked rank vs" "\<forall>l\<in>set (take i (variable_at key vs)). reference l = None"
    and "\<forall>k. words_of f (variable_at k vs) = f k"
  shows "\<exists>vs'. resolve_list key i vs = Some (Inr vs') \<and> sorted_keys vs' \<and> ranked rank vs'
    \<and> (\<forall>l\<in>set (variable_at key vs'). reference l = None)
    \<and> (\<forall>k. k \<noteq> key \<longrightarrow> variable_at k vs' = variable_at k vs)
    \<and> (\<forall>k. words_of f (variable_at k vs') = f k)"
  using assms
proof (induction "todo rank key i vs" arbitrary: i vs rule: wf_induct_rule [OF wf_mult [OF wf_less_than]])
  case (1 i vs)
  let ?l = "variable_at key vs"
  show ?case
  proof (cases "i < length ?l")
    case False
    then show ?thesis using 1 by (subst resolve_list.simps) simp
  next
    case i: True
    show ?thesis
    proof (cases "reference (?l ! i)")
      case None
      then have "\<forall>l\<in>set (take (Suc i) ?l). reference l = None"
        using 1(4) i by (auto simp: take_Suc_conv_app_nth)
      from 1(1) [OF todo_literal [OF i] 1(2,3) this 1(5)] show ?thesis
        using None i by (subst resolve_list.simps) simp
    next
      case (Some k)
      define vs0 where "vs0 = map_at k [] (\<lambda>x. x) vs"
      have v0: "variable_at k1 vs0 = variable_at k1 vs" for k1 using 1(2) by (simp add: vs0_def)
      have s0: "sorted_keys vs0" using 1(2) by (simp add: vs0_def sorted_map_at)
      have r0: "ranked rank vs0" using 1(3) by (simp add: ranked_def v0)
      have i0: "i < length (variable_at key vs0)" "reference (variable_at key vs0 ! i) = Some k" using i Some by (simp_all add: v0)
      define vs1 where "vs1 = set_variable key (take i ?l @ rev (variable_at k vs) @ drop (Suc i) ?l) vs0"
      have v1: "variable_at k1 vs1 = (if k1 = key then take i ?l @ rev (variable_at k vs) @ drop (Suc i) ?l else variable_at k1 vs)" for k1
        using s0 by (simp add: vs1_def v0)
      have k: "k \<noteq> key" and r1: "ranked rank vs1"
        using ranked_reference [OF s0 r0 i0] by (simp_all add: vs1_def v0)
      have less: "(todo rank key i vs1, todo rank key i vs) \<in> mult less_than"
        using todo_reference [OF s0 r0 i0] by (simp add: vs1_def v0 todo_def)
      have "words_of f ?l = words_of f (take i ?l) + f k + words_of f (drop (Suc i) ?l)"
        using Some i by (subst id_take_nth_drop [OF i]) (simp del: append_take_drop_id add: add.assoc)
      then have w1: "\<forall>k. words_of f (variable_at k vs1) = f k"
        using 1(5) by (auto simp: v1 add.assoc)
      have t1: "\<forall>l\<in>set (take i (variable_at key vs1)). reference l = None" using 1(4) i by (simp add: v1)
      have s1: "sorted_keys vs1" using s0 by (simp add: vs1_def)
      have step: "resolve_list key i vs = resolve_list key i vs1"
        using i Some k by (subst resolve_list.simps) (simp add: vs1_def vs0_def [symmetric] v0 Let_def)
      from 1(1) [OF less s1 r1 t1 w1] show ?thesis unfolding step by (auto simp: v1)
    qed
  qed
qed

lemma resolve_keys_result:
  assumes "sorted_keys vs" "ranked rank vs" "\<forall>k. words_of f (variable_at k vs) = f k"
  shows "\<exists>vs'. resolve_keys ks vs = Some (Inr vs') \<and> sorted_keys vs'
    \<and> (\<forall>k\<in>set ks. \<forall>l\<in>set (variable_at k vs'). reference l = None)
    \<and> (\<forall>k. k \<notin> set ks \<longrightarrow> variable_at k vs' = variable_at k vs)
    \<and> (\<forall>k. words_of f (variable_at k vs') = f k)"
  using assms
proof (induction ks arbitrary: vs)
  case (Cons k ks)
  obtain vs1 where v1: "resolve_list k 0 vs = Some (Inr vs1)" "sorted_keys vs1" "ranked rank vs1"
      "\<forall>l\<in>set (variable_at k vs1). reference l = None" "\<forall>k'. k' \<noteq> k \<longrightarrow> variable_at k' vs1 = variable_at k' vs"
      "\<forall>k. words_of f (variable_at k vs1) = f k"
    using resolve_list_result [OF Cons.prems(1,2) _ Cons.prems(3), of 0 k] by auto
  obtain vs2 where v2: "resolve_keys ks vs1 = Some (Inr vs2)" "sorted_keys vs2"
      "\<forall>k\<in>set ks. \<forall>l\<in>set (variable_at k vs2). reference l = None"
      "\<forall>k. k \<notin> set ks \<longrightarrow> variable_at k vs2 = variable_at k vs1" "\<forall>k. words_of f (variable_at k vs2) = f k"
    using Cons.IH [OF v1(2,3,6)] by blast
  have "reference l = None" if "l \<in> set (variable_at k vs2)" for l
    using that v1(4) v2(3,4) by (cases "k \<in> set ks") auto
  then show ?case using v1(1,5) v2 by auto
qed simp

text \<open>
  C24: References between the variables of a makefile. If no variable refers to itself, directly or
  through others, resolving ends, no reference is left, and every variable has the words that
  its definition stands for, each as often (their order is not kept).
\<close>

theorem resolve_ends:
  assumes "sorted_keys (variables m)" "ranked rank (variables m)"
  shows "\<exists>m'. resolve_variables m = Inr m'
    \<and> (\<forall>k. (\<forall>l\<in>set (variable_at k (variables m')). reference l = None)
        \<and> mset (variable_at k (variables m')) = expand (Suc (rank k)) (variables m) k)"
proof -
  let ?vs = "variables m"
  let ?f = "\<lambda>k. expand (Suc (rank k)) ?vs k"
  have f: "\<forall>k. words_of ?f (variable_at k ?vs) = ?f k"
  proof
    fix k
    have "words_of ?f (variable_at k ?vs) = words_of (expand (rank k) ?vs) (variable_at k ?vs)"
    proof (rule words_of_cong)
      fix l k' assume "l \<in> set (variable_at k ?vs)" "reference l = Some k'"
      then have "rank k' < rank k" using assms(2) unfolding ranked_def by blast
      then show "?f k' = expand (rank k) ?vs k'" using assms(2) by (intro expand_enough) auto
    qed
    then show "words_of ?f (variable_at k ?vs) = ?f k" by simp
  qed
  obtain vs' where v: "resolve_keys (map fst ?vs) ?vs = Some (Inr vs')"
      "\<forall>k\<in>set (map fst ?vs). \<forall>l\<in>set (variable_at k vs'). reference l = None"
      "\<forall>k. k \<notin> set (map fst ?vs) \<longrightarrow> variable_at k vs' = variable_at k ?vs"
      "\<forall>k. words_of ?f (variable_at k vs') = ?f k"
    using resolve_keys_result [OF assms f, of "map fst ?vs"] by blast
  have plain: "\<forall>l\<in>set (variable_at k vs'). reference l = None" for k
  proof (cases "k \<in> set (map fst ?vs)")
    case False
    then have "map_of ?vs k = None" by (simp add: map_of_eq_None_iff)
    then show ?thesis using v(3) False by (simp add: variable_at_def)
  qed (use v(2) in blast)
  have "mset (variable_at k vs') = ?f k" for k
    using v(4) words_of_plain [OF plain [of k], of ?f] by metis
  with plain v(1) show ?thesis by (simp add: resolve_variables_def)
qed

lemma resolve_ends_witness:
  "\<exists>m'. resolve_variables \<lparr>variables = [(''A'', [''x'', ''$(B)'']), (''B'', [''y'', ''z''])], current_fn = [], if_stack = []\<rparr> = Inr m'
    \<and> mset (variable_at ''A'' (variables m')) = {#''x'', ''y'', ''z''#}"
proof -
  let ?m = "\<lparr>variables = [(''A'', [''x'', ''$(B)'']), (''B'', [''y'', ''z''])], current_fn = [], if_stack = []\<rparr>"
  let ?r = "\<lambda>k. if k = ''A'' then 1 else 0 :: nat"
  have r: "reference ''x'' = None" "reference ''y'' = None" "reference ''z'' = None" "reference ''$(B)'' = Some ''B''"
    by code_simp+
  have "sorted_keys (variables ?m)" by (simp add: less_list_code less_char_def)
  moreover have "ranked ?r (variables ?m)" using r by (auto simp: ranked_def variable_at_def split: if_splits)
  ultimately obtain m' where "resolve_variables ?m = Inr m'"
      "mset (variable_at ''A'' (variables m')) = expand (Suc (?r ''A'')) (variables ?m) ''A''"
    using resolve_ends by blast
  moreover have "expand (Suc (?r ''A'')) (variables ?m) ''A'' = {#''x'', ''y'', ''z''#}"
    using r by (simp add: variable_at_def)
  ultimately show ?thesis by metis
qed

text \<open>The words of a variable are put in reverse order; a cycle that the variable is not on does not end.\<close>

lemma resolve_reverses:
  "resolve_list ''B'' 0 [(''A'', [''x'', ''y'']), (''B'', [''$(A)''])] = Some (Inr [(''A'', [''x'', ''y'']), (''B'', [''y'', ''x''])])"
  by code_simp

lemma resolve_cycle:
  "resolve_list ''A'' 0 [(''A'', [''$(B)'']), (''B'', [''$(B)''])] = None"
proof -
  let ?vs = "[(''A'', [''$(B)'']), (''B'', [''$(B)''])]"
  have r: "reference ''$(B)'' = Some ''B''" by code_simp
  have same: "set_variable ''A'' [''$(B)''] (map_at ''B'' [] (\<lambda>x. x) ?vs) = ?vs" by code_simp
  have "\<not> (k = ''A'' \<and> i = 0 \<and> vs = ?vs)" if "resolve_list k i vs = Some y" for k i vs y
  proof (rule resolve_list.raw_induct [where P = "\<lambda>k i vs y. \<not> (k = ''A'' \<and> i = 0 \<and> vs = ?vs)", OF _ that], goal_cases)
    case (1 f k i vs y)
    show ?case
    proof
      assume a: "k = ''A'' \<and> i = 0 \<and> vs = ?vs"
      with 1(2) r same have "f ''A'' 0 ?vs = Some y"
        by (simp add: Let_def variable_at_def)
      then show False using 1(1) by blast
    qed
  qed
  then show ?thesis by fastforce
qed

section \<open>Conditionals\<close>

text \<open>A makefile as a tree, its text, and what it does to the variables.\<close>

datatype item =
    Set_item string "string list"
  | Add_item string "string list"
  | If_item bool string "item list" "item list"

fun print_item :: "item \<Rightarrow> string" where
  "print_item (Set_item n ws) = n @ '' = '' @ join '' '' ws @ [NL]"
| "print_item (Add_item n ws) = n @ '' += '' @ join '' '' ws @ [NL]"
| "print_item (If_item neg c as bs) =
     ''if '' @ (if neg then ''!'' else []) @ c @ [NL] @ concat (map print_item as)
     @ ''else'' @ [NL] @ concat (map print_item bs) @ ''endif'' @ [NL]"

fun eval_item :: "item \<Rightarrow> variables \<Rightarrow> variables" where
  "eval_item (Set_item n ws) vs = set_variable n ws vs"
| "eval_item (Add_item n ws) vs = append_variable n ws vs"
| "eval_item (If_item neg c as bs) vs =
     (if contains_variable c vs \<noteq> neg then fold eval_item as vs else fold eval_item bs vs)"

definition name_ok :: "string \<Rightarrow> bool" where
  "name_ok n \<longleftrightarrow> n \<noteq> [] \<and> hd n \<noteq> CHR ''#'' \<and> list_all (\<lambda>c. \<not> is_space c \<and> c \<notin> set '':+='') n
     \<and> \<not> prefix ''if'' n \<and> \<not> prefix ''else'' n \<and> \<not> prefix ''endif'' n \<and> \<not> prefix ''include'' n"

definition word_ok :: "string \<Rightarrow> bool" where
  "word_ok w \<longleftrightarrow> w \<noteq> [] \<and> list_all (\<lambda>c. \<not> is_space c \<and> c \<noteq> CHR 0x5C) w"

definition cond_ok :: "string \<Rightarrow> bool" where
  "cond_ok c \<longleftrightarrow> NL \<notin> set c \<and> (c = [] \<or> hd c \<noteq> CHR ''!'' \<and> \<not> is_space (hd c))"

fun item_ok :: "item \<Rightarrow> bool" where
  "item_ok (Set_item n ws) \<longleftrightarrow> name_ok n \<and> list_all word_ok ws"
| "item_ok (Add_item n ws) \<longleftrightarrow> name_ok n \<and> list_all word_ok ws"
| "item_ok (If_item neg c as bs) \<longleftrightarrow> cond_ok c \<and> list_all item_ok as \<and> list_all item_ok bs"

text \<open>What the splitter does with words that are separated by blanks.\<close>

definition word_split :: "(string \<Rightarrow> string list) \<Rightarrow> bool" where
  "word_split split \<longleftrightarrow> (\<forall>ws. list_all word_ok ws \<longrightarrow> split (join '' '' ws @ [NL]) = ws)"

lemma space_chars: "is_space (CHR '' '')" "is_space NL" "CHR '' '' \<noteq> NL" "\<not> is_space (CHR ''='')" "\<not> is_space (CHR ''+'')"
  by (simp_all add: NL_char, simp_all add: is_space_def)

lemma eat_space_stop: "s = [] \<or> \<not> is_space (hd s) \<or> hd s = NL \<Longrightarrow> eat_space s = s"
  by (cases s) auto

lemma eat_token_stop:
  "list_all (\<lambda>c. \<not> is_space c \<and> c \<notin> set '':+='') t \<Longrightarrow> c = CHR '':'' \<or> is_space c \<or> c = CHR ''+'' \<or> c = CHR ''='' \<Longrightarrow>
    eat_token (t @ c # s) = Inr (t, c # s)"
  by (induction t) auto

lemma eat_line_text: "NL \<notin> set t \<Longrightarrow> eat_line (t @ NL # r) = Inr (t, r)"
  by (simp add: eat_line_split)

lemma words_line:
  assumes "list_all word_ok ws"
  shows "NL \<notin> set (join '' '' ws)" "join '' '' ws = [] \<or> \<not> is_space (hd (join '' '' ws)) \<and> last (join '' '' ws) \<noteq> CHR 0x5C"
proof -
  have w: "NL \<notin> set w \<and> w \<noteq> [] \<and> \<not> is_space (hd w) \<and> last w \<noteq> CHR 0x5C" if "word_ok w" for w
    using that space_chars(2) unfolding word_ok_def list_all_iff by (metis hd_in_set last_in_set)
  show "NL \<notin> set (join '' '' ws)"
    using set_join [of "'' ''" ws] assms w by (auto simp: list_all_iff NL_char)
  show "join '' '' ws = [] \<or> \<not> is_space (hd (join '' '' ws)) \<and> last (join '' '' ws) \<noteq> CHR 0x5C"
    using assms
  proof (induction ws rule: induct_list012)
    case (3 x y zs)
    then have "join '' '' (y # zs) \<noteq> []" using w [of y] by (simp add: join_eq_Nil_iff)
    with 3 w [of x] show ?case by simp
  qed (use w in auto)
qed

lemma eat_list_words:
  assumes "word_split split" "list_all word_ok ws"
  shows "eat_list split (eat_space (CHR '' '' # join '' '' ws @ NL # r)) = Inr (ws, r)"
proof -
  have "eat_space (CHR '' '' # join '' '' ws @ NL # r) = join '' '' ws @ NL # r"
    using words_line [OF assms(2)] space_chars by (cases "join '' '' ws = []") (auto intro: eat_space_stop)
  moreover have "list_text (join '' '' ws @ NL # r) = Inr (join '' '' ws @ [NL], r)"
    using words_line [OF assms(2)] by (subst list_text.simps) (auto simp: eat_line_text)
  ultimately show ?thesis using assms by (simp add: eat_list_def word_split_def)
qed

lemma name_head: "name_ok n \<Longrightarrow> n \<noteq> [] \<and> \<not> is_space (hd n) \<and> hd n \<noteq> CHR ''#'' \<and> hd n \<noteq> NL"
  using space_chars(2) unfolding name_ok_def list_all_iff by (metis hd_in_set)

lemma next_variable:
  assumes "name_ok n" "c = CHR '' ''"
  shows "next_record split inc (n @ c # s) m =
    (if parse_cond m then record_variable split n (c # s) m
     else bind_result (eat_line (c # s)) (\<lambda>(_, r). Inr (m, r)))"
proof -
  have h: "eat_space (n @ c # s) = n @ c # s" using name_head [OF assms(1)] by (intro eat_space_stop) simp
  have t: "eat_token (n @ c # s) = Inr (n, c # s)"
    using assms space_chars(1) by (intro eat_token_stop) (auto simp: name_ok_def)
  show ?thesis
    using name_head [OF assms(1)] assms(1)
    by (auto simp: next_record_def h t name_ok_def parse_cond_def)
qed

lemma load_text_next:
  "next_record split inc p m = Inr (m', r) \<Longrightarrow> load_text split inc p m = load_text split inc r m'"
proof -
  assume n: "next_record split inc p m = Inr (m', r)"
  then have "p \<noteq> []" using next_record_length by fastforce
  with n show ?thesis by (subst load_text.simps) simp
qed

lemma load_assignments:
  assumes "word_split split" "name_ok n" "list_all word_ok ws"
  shows "load_text split inc (n @ '' = '' @ join '' '' ws @ NL # r) m =
      load_text split inc r (if parse_cond m then m\<lparr>variables := set_variable n ws (variables m)\<rparr> else m)"
    and "load_text split inc (n @ '' += '' @ join '' '' ws @ NL # r) m =
      load_text split inc r (if parse_cond m then m\<lparr>variables := append_variable n ws (variables m)\<rparr> else m)"
proof -
  have l: "eat_line ('' = '' @ join '' '' ws @ NL # r) = Inr ('' = '' @ join '' '' ws, r)"
    "eat_line ('' += '' @ join '' '' ws @ NL # r) = Inr ('' += '' @ join '' '' ws, r)"
    using words_line(1) [OF assms(3)] eat_line_text [of "'' = '' @ join '' '' ws" r] eat_line_text [of "'' += '' @ join '' '' ws" r]
    by (simp_all add: NL_char)
  show "load_text split inc (n @ '' = '' @ join '' '' ws @ NL # r) m =
      load_text split inc r (if parse_cond m then m\<lparr>variables := set_variable n ws (variables m)\<rparr> else m)"
    using next_variable [OF assms(2) refl, of split inc "''= '' @ join '' '' ws @ NL # r" m] l(1)
      eat_list_words [OF assms(1,3), of r] space_chars
    by (intro load_text_next) (simp add: record_variable_def)
  show "load_text split inc (n @ '' += '' @ join '' '' ws @ NL # r) m =
      load_text split inc r (if parse_cond m then m\<lparr>variables := append_variable n ws (variables m)\<rparr> else m)"
    using next_variable [OF assms(2) refl, of split inc "''+= '' @ join '' '' ws @ NL # r" m] l(2)
      eat_list_words [OF assms(1,3), of r] space_chars
    by (intro load_text_next) (simp add: record_variable_def)
qed

lemma load_if:
  assumes "cond_ok c"
  shows "load_text split inc (''if '' @ (if neg then ''!'' else []) @ c @ NL # r) m =
    load_text split inc r (push_if (contains_variable c (variables m) \<noteq> neg) m)"
proof (intro load_text_next)
  have h: "eat_space (''if '' @ s) = ''if '' @ s" for s by (intro eat_space_stop) (simp add: is_space_def)
  have t: "eat_token (''if '' @ s) = Inr (''if'', CHR '' '' # s)" for s
    using eat_token_stop [of "''if''" "CHR '' ''" s] by (simp add: is_space_def)
  have s: "eat_space (CHR '' '' # (if neg then ''!'' else []) @ c @ NL # r) = (if neg then ''!'' else []) @ c @ NL # r"
    using assms space_chars by (cases c) (auto simp: cond_ok_def is_space_def)
  have l: "eat_line (c @ NL # r) = Inr (c, r)" using assms by (intro eat_line_text) (simp add: cond_ok_def)
  have n: "\<not> (\<not> neg \<and> hd (c @ NL # r) = CHR ''!'')" using assms by (cases c) (auto simp: cond_ok_def NL_char)
  have "record_if (CHR '' '' # (if neg then ''!'' else []) @ c @ NL # r) m
      = Inr (push_if (contains_variable c (variables m) \<noteq> neg) m, r)"
    unfolding record_if_def s using l n by (cases neg) simp_all
  then show "next_record split inc (''if '' @ (if neg then ''!'' else []) @ c @ NL # r) m
      = Inr (push_if (contains_variable c (variables m) \<noteq> neg) m, r)"
    using h [of "(if neg then ''!'' else []) @ c @ NL # r"] t [of "(if neg then ''!'' else []) @ c @ NL # r"]
    by (simp add: next_record_def NL_char)
qed

lemma load_word_line:
  assumes "w = ''else'' \<or> w = ''endif''" "if_stack m \<noteq> []"
  shows "load_text split inc (w @ NL # r) m = load_text split inc r (m\<lparr>if_stack := butlast (if_stack m) @
    (if w = ''else'' then [switch_to_else (last (if_stack m))] else [])\<rparr>)"
proof (intro load_text_next)
  have "eat_space (w @ NL # r) = w @ NL # r" using assms(1) by (intro eat_space_stop) (auto simp: is_space_def)
  moreover have "eat_token (w @ NL # r) = Inr (w, NL # r)"
    using assms(1) space_chars(2) by (intro eat_token_stop) (auto simp: is_space_def)
  moreover have "eat_line (NL # r) = Inr ([], r)" using eat_line_text [of "[]" r] by simp
  ultimately show "next_record split inc (w @ NL # r) m = Inr (m\<lparr>if_stack := butlast (if_stack m) @
      (if w = ''else'' then [switch_to_else (last (if_stack m))] else [])\<rparr>, r)"
    using assms by (auto simp: next_record_def record_else_def record_endif_def NL_char)
qed

definition loaded_items :: "item list \<Rightarrow> makefile \<Rightarrow> makefile" where
  "loaded_items its m = (if parse_cond m then m\<lparr>variables := fold eval_item its (variables m)\<rparr> else m)"

lemma loaded_items_simps [simp]: "loaded_items [] m = m" "if_stack (loaded_items its m) = if_stack m"
  by (auto simp: loaded_items_def)

lemma loaded_items_Cons: "loaded_items its (loaded_items [it] m) = loaded_items (it # its) m"
  by (auto simp: loaded_items_def parse_cond_def)

lemma load_item_list:
  assumes "\<And>it r m. it \<in> set its \<Longrightarrow> load_text split inc (print_item it @ r) m = load_text split inc r (loaded_items [it] m)"
  shows "load_text split inc (concat (map print_item its) @ r) m = load_text split inc r (loaded_items its m)"
  using assms
proof (induction its arbitrary: m)
  case (Cons it its)
  then show ?case using Cons.prems [of it "concat (map print_item its) @ r" m]
    by (simp add: loaded_items_Cons)
qed simp

lemma conditional_state:
  assumes "b = (contains_variable c (variables m) \<noteq> neg)"
    and "m1 = loaded_items as (push_if b m)"
    and "m2 = loaded_items bs (m1\<lparr>if_stack := butlast (if_stack m1) @ [switch_to_else (last (if_stack m1))]\<rparr>)"
  shows "m2\<lparr>if_stack := butlast (if_stack m2)\<rparr> = loaded_items [If_item neg c as bs] m"
  using assms by (auto simp: loaded_items_def push_if_def parse_cond_def if_active_def switch_to_else_def)

lemma load_item:
  assumes "word_split split" "item_ok it"
  shows "load_text split inc (print_item it @ r) m = load_text split inc r (loaded_items [it] m)"
  using assms(2)
proof (induction it arbitrary: r m)
  case (If_item neg c as bs)
  note step = load_item_list [where split = split and inc = inc]
  define m1 where "m1 = loaded_items as (push_if (contains_variable c (variables m) \<noteq> neg) m)"
  define m2 where "m2 = loaded_items bs (m1\<lparr>if_stack := butlast (if_stack m1) @ [switch_to_else (last (if_stack m1))]\<rparr>)"
  have ne: "if_stack m1 \<noteq> []" "if_stack m2 \<noteq> []" by (simp_all add: m1_def m2_def push_if_def)
  have a: "load_text split inc (concat (map print_item as) @ r) m = load_text split inc r (loaded_items as m)" for r m
    using If_item by (intro step) (auto simp: list_all_iff)
  have b: "load_text split inc (concat (map print_item bs) @ r) m = load_text split inc r (loaded_items bs m)" for r m
    using If_item by (intro step) (auto simp: list_all_iff)
  let ?e = "''endif'' @ NL # r"
  let ?b = "concat (map print_item bs) @ ?e"
  let ?a = "concat (map print_item as) @ ''else'' @ NL # ?b"
  have "load_text split inc (print_item (If_item neg c as bs) @ r) m = load_text split inc ?a
      (push_if (contains_variable c (variables m) \<noteq> neg) m)"
    using load_if [of c split inc neg ?a m] If_item.prems by simp
  also have "\<dots> = load_text split inc (''else'' @ NL # ?b) m1" unfolding a m1_def by simp
  also have "\<dots> = load_text split inc ?e m2"
    using load_word_line [of "''else''" m1 split inc ?b] ne(1) b by (simp add: m2_def)
  also have "\<dots> = load_text split inc r (loaded_items [If_item neg c as bs] m)"
    using load_word_line [of "''endif''" m2 split inc r] ne(2) conditional_state [OF refl m1_def m2_def] by simp
  finally show ?case .
qed (simp_all add: loaded_items_def load_assignments [OF assms(1), simplified])

text \<open>
  C40: loading the text of a makefile of assignments, appended lists and nested conditionals,
  followed by any other text, is loading the other text in the state in which the variables are
  those that the makefile means: each conditional takes one branch, chosen by the variables set
  when it is reached, and nothing happens at all inside a branch that is not taken.
\<close>

theorem conditionals_select:
  assumes "word_split split" "list_all item_ok its"
  shows "load_text split inc (concat (map print_item its) @ r) m = load_text split inc r
    (if parse_cond m then m\<lparr>variables := fold eval_item its (variables m)\<rparr> else m)"
  using load_item_list [of its split inc r m] load_item [OF assms(1)] assms(2)
  by (simp add: list_all_iff loaded_items_def)

text \<open>A splitter with the assumed behaviour, for the concrete instance.\<close>

fun blank_words :: "string \<Rightarrow> string \<Rightarrow> string list" where
  "blank_words acc [] = (if acc = [] then [] else [acc])"
| "blank_words acc (c # s) =
     (if is_space c \<or> c = CHR 0x5C then (if acc = [] then [] else [acc]) @ blank_words [] s
      else blank_words (acc @ [c]) s)"

lemma blank_words_word: "list_all (\<lambda>c. \<not> is_space c \<and> c \<noteq> CHR 0x5C) w \<Longrightarrow> blank_words acc (w @ s) = blank_words (acc @ w) s"
  by (induction w arbitrary: acc) auto

lemma blank_words_split: "word_split (blank_words [])"
  unfolding word_split_def
proof (intro allI impI)
  fix ws :: "string list"
  show "list_all word_ok ws \<Longrightarrow> blank_words [] (join '' '' ws @ [NL]) = ws"
  proof (induction ws rule: induct_list012)
    case (3 x y zs)
    then have "blank_words [] (x @ CHR '' '' # join '' '' (y # zs) @ [NL]) = x # y # zs"
      using blank_words_word [of x "[]"] by (simp add: word_ok_def space_chars)
    then show ?case by simp
  next
    case (2 x)
    then show ?case using blank_words_word [of x "[]"] by (simp add: word_ok_def space_chars)
  qed (simp add: space_chars)
qed

theorem conditionals_select_witness:
  "load_text (blank_words []) (\<lambda>_. Inr)
      (concat (map print_item [Set_item ''A'' [''x''], If_item True ''A'' [Set_item ''B'' []] [Add_item ''A'' [''y'']]]) @ [])
      \<lparr>variables = [], current_fn = [], if_stack = []\<rparr>
    = Inr \<lparr>variables = [(''A'', [''x'', ''y''])], current_fn = [], if_stack = []\<rparr>"
proof -
  have i: "list_all item_ok [Set_item ''A'' [''x''], If_item True ''A'' [Set_item ''B'' []] [Add_item ''A'' [''y'']]]"
    by code_simp
  have e: "fold eval_item [Set_item ''A'' [''x''], If_item True ''A'' [Set_item ''B'' []] [Add_item ''A'' [''y'']]] []
      = [(''A'', [''x'', ''y''])]"
    by code_simp
  show ?thesis
    unfolding conditionals_select [OF blank_words_split i] by (subst load_text.simps) (simp add: parse_cond_def e [simplified])
qed

end
