(* ===== verification/VersionSets.thy ===== *)
theory VersionSets
  imports Version
begin

text \<open>
  The containers of versions of version_helpers.h and their iterators over the releases. A
  container is the list of its elements in the order of the base container; a position in it
  stands for a base iterator, the length for its end. \<open>key\<close> is the version of an element: the
  element itself in a set, the first component of a pair in a map. The reverse operations are
  those of the reversed list.
\<close>

record release_iterator =
  here :: nat
  last_place :: nat

definition same_place :: "release_iterator \<Rightarrow> release_iterator \<Rightarrow> bool" where
  "same_place a b \<longleftrightarrow> here a = here b"

definition release_at :: "('e \<Rightarrow> version) \<Rightarrow> 'e list \<Rightarrow> nat \<Rightarrow> bool" where
  "release_at key xs i \<longleftrightarrow> is_release (key (xs ! i))"

text \<open>The step of the iterator; a base iterator at its end cannot be moved.\<close>

function move_to_next :: "('e \<Rightarrow> version) \<Rightarrow> 'e list \<Rightarrow> release_iterator \<Rightarrow> release_iterator result" where
  "move_to_next key xs it =
     (if length xs \<le> here it then Inl Undefined
      else let it = it\<lparr>here := Suc (here it)\<rparr>
        in if here it = last_place it then Inr it
           else if length xs \<le> here it then Inl Undefined
           else if release_at key xs (here it) then Inr it
           else move_to_next key xs it)"
  by pat_completeness auto
termination
  by (relation "measure (\<lambda>(key, xs, it). length xs - here it)") auto

declare move_to_next.simps [simp del]

lemma move_to_next_greater: "move_to_next key xs i = Inr j \<Longrightarrow> here i < here j"
proof (induction key xs i rule: move_to_next.induct)
  case (1 key xs it)
  from "1.prems" [unfolded move_to_next.simps [of key xs it]] "1.IH" show ?case
    by (auto simp: Let_def split: if_splits)
qed

definition begin_releases :: "('e \<Rightarrow> version) \<Rightarrow> 'e list \<Rightarrow> release_iterator" where
  "begin_releases key xs =
     \<lparr>here = length (takeWhile (\<lambda>e. \<not> is_release (key e)) xs), last_place = length xs\<rparr>"

definition end_releases :: "'e list \<Rightarrow> release_iterator" where
  "end_releases xs = \<lparr>here = length xs, last_place = length xs\<rparr>"

definition empty_releases :: "('e \<Rightarrow> version) \<Rightarrow> 'e list \<Rightarrow> bool" where
  "empty_releases key xs \<longleftrightarrow> same_place (begin_releases key xs) (end_releases xs)"

definition rbegin_releases :: "('e \<Rightarrow> version) \<Rightarrow> 'e list \<Rightarrow> release_iterator" where
  "rbegin_releases key xs = begin_releases key (rev xs)"

definition rend_releases :: "'e list \<Rightarrow> release_iterator" where
  "rend_releases xs = end_releases (rev xs)"

text \<open>The elements that a loop from one iterator to another sees.\<close>

function visit :: "('e \<Rightarrow> version) \<Rightarrow> 'e list \<Rightarrow> release_iterator \<Rightarrow> release_iterator \<Rightarrow> 'e list result" where
  "visit key xs i e =
     (if same_place i e then Inr []
      else if length xs \<le> here i then Inl Undefined
      else bind_result (move_to_next key xs i) (\<lambda>j.
        bind_result (visit key xs j e) (\<lambda>es. Inr (xs ! here i # es))))"
  by pat_completeness auto
termination
  by (relation "measure (\<lambda>(key, xs, i, e). length xs - here i)") (auto dest: move_to_next_greater)

declare visit.simps [simp del]

text \<open>A range-based loop over \<open>releases()\<close> and one over the reverse iterators.\<close>

definition releases :: "('e \<Rightarrow> version) \<Rightarrow> 'e list \<Rightarrow> 'e list result" where
  "releases key xs = visit key xs (begin_releases key xs) (end_releases xs)"

definition reverse_releases :: "('e \<Rightarrow> version) \<Rightarrow> 'e list \<Rightarrow> 'e list result" where
  "reverse_releases key xs = visit key (rev xs) (rbegin_releases key xs) (rend_releases xs)"

section \<open>What is visited\<close>

lemma move_to_next_drop:
  assumes "i < length xs"
  shows "move_to_next key xs \<lparr>here = i, last_place = length xs\<rparr> =
    Inr \<lparr>here = Suc i + length (takeWhile (\<lambda>e. \<not> is_release (key e)) (drop (Suc i) xs)), last_place = length xs\<rparr>"
  using assms
proof (induction "length xs - i" arbitrary: i)
  case (Suc n)
  show ?case
  proof (cases "Suc i = length xs")
    case True
    with Suc.prems show ?thesis by (subst move_to_next.simps) simp
  next
    case False
    with Suc.prems have lt: "Suc i < length xs" by simp
    have d: "drop (Suc i) xs = xs ! Suc i # drop (Suc (Suc i)) xs" using lt by (simp add: Cons_nth_drop_Suc)
    show ?thesis
    proof (cases "is_release (key (xs ! Suc i))")
      case True
      with lt show ?thesis by (subst move_to_next.simps) (simp add: release_at_def d)
    next
      case nr: False
      have "move_to_next key xs \<lparr>here = i, last_place = length xs\<rparr> = move_to_next key xs \<lparr>here = Suc i, last_place = length xs\<rparr>"
        using lt nr Suc.prems by (subst move_to_next.simps) (simp add: release_at_def)
      with Suc.hyps(1) [of "Suc i"] Suc.hyps(2) lt nr show ?thesis by (simp add: d)
    qed
  qed
qed simp

lemma visit_end: "visit key xs \<lparr>here = length xs, last_place = length xs\<rparr> (end_releases xs) = Inr []"
  by (subst visit.simps) (simp add: same_place_def end_releases_def)

lemma visit_from:
  assumes "i = j + length (takeWhile (\<lambda>e. \<not> is_release (key e)) (drop j xs))" "j \<le> length xs"
  shows "visit key xs \<lparr>here = i, last_place = length xs\<rparr> (end_releases xs) = Inr (filter (\<lambda>e. is_release (key e)) (drop j xs))"
  using assms
proof (induction "length xs - j" arbitrary: i j rule: less_induct)
  case less
  define t where "t = takeWhile (\<lambda>e. \<not> is_release (key e)) (drop j xs)"
  have split: "drop j xs = t @ drop i xs"
    using takeWhile_dropWhile_id [of "\<lambda>e. \<not> is_release (key e)" "drop j xs"] less.prems
    by (simp add: t_def dropWhile_eq_drop add.commute)
  have none: "filter (\<lambda>e. is_release (key e)) t = []" by (auto simp: t_def filter_empty_conv dest: set_takeWhileD)
  have le: "i \<le> length xs"
    using less.prems length_takeWhile_le [of "\<lambda>e. \<not> is_release (key e)" "drop j xs"] by simp
  show ?case
  proof (cases "i = length xs")
    case True
    then show ?thesis using split none by (simp add: visit_end)
  next
    case False
    with le have lt: "i < length xs" by simp
    have d: "drop i xs = xs ! i # drop (Suc i) xs" using lt by (simp add: Cons_nth_drop_Suc)
    have r: "is_release (key (xs ! i))"
      using nth_length_takeWhile [of "\<lambda>e. \<not> is_release (key e)" "drop j xs"] lt less.prems by simp
    let ?k = "Suc i + length (takeWhile (\<lambda>e. \<not> is_release (key e)) (drop (Suc i) xs))"
    have "visit key xs \<lparr>here = ?k, last_place = length xs\<rparr> (end_releases xs)
        = Inr (filter (\<lambda>e. is_release (key e)) (drop (Suc i) xs))"
      using lt less.prems by (intro less.hyps) auto
    then show ?thesis
      using lt r split none by (subst visit.simps) (simp add: move_to_next_drop same_place_def end_releases_def d)
  qed
qed

lemma visit_releases: "visit key xs (begin_releases key xs) (end_releases xs) = Inr (filter (\<lambda>e. is_release (key e)) xs)"
  using visit_from [of _ 0 key xs] by (simp add: begin_releases_def)

lemma first_release:
  "\<not> empty_releases key xs \<Longrightarrow>
    find (\<lambda>e. is_release (key e)) xs = Some (xs ! here (begin_releases key xs))"
proof (induction xs)
  case (Cons x xs)
  then show ?case
    by (cases "is_release (key x)") (auto simp: empty_releases_def same_place_def begin_releases_def end_releases_def)
qed (simp add: empty_releases_def same_place_def begin_releases_def end_releases_def)

lemma empty_releases_iff: "empty_releases key xs \<longleftrightarrow> (\<forall>e\<in>set xs. \<not> is_release (key e))"
proof -
  have "length (takeWhile P xs) = length xs \<longleftrightarrow> (\<forall>x\<in>set xs. P x)" for P :: "'a \<Rightarrow> bool"
    by (metis takeWhile_eq_all_conv takeWhile_eq_take take_all_iff order_refl length_take min.idem nth_length_takeWhile
        length_takeWhile_le le_neq_implies_less nth_mem)
  then show ?thesis by (simp add: empty_releases_def same_place_def begin_releases_def end_releases_def)
qed

text \<open>
  A loop over \<open>releases()\<close> of a container sees exactly its releases, in order and once each, and
  a loop over the reverse iterators sees them in the opposite order; no step is undefined. In a
  container that is ordered by \<open>operator<\<close> without equal versions, the first element of the
  reverse iteration is the greatest release.
\<close>

theorem releases_visited:
  "releases key xs = Inr (filter (\<lambda>e. is_release (key e)) xs)
   \<and> reverse_releases key xs = Inr (rev (filter (\<lambda>e. is_release (key e)) xs))
   \<and> (empty_releases key xs \<longleftrightarrow> \<not> (\<exists>e. e \<in> set xs \<and> is_release (key e)))
   \<and> (sorted_wrt version_lt (map key xs) \<and> e \<in> set xs \<and> is_release (key e) \<longrightarrow>
       (let g = rev xs ! here (rbegin_releases key xs)
        in g \<in> set xs \<and> is_release (key g) \<and> (e = g \<or> version_lt (key e) (key g))))"
proof (intro conjI impI)
  show "releases key xs = Inr (filter (\<lambda>e. is_release (key e)) xs)"
    by (simp add: releases_def visit_releases)
  show "reverse_releases key xs = Inr (rev (filter (\<lambda>e. is_release (key e)) xs))"
    by (simp add: reverse_releases_def rbegin_releases_def rend_releases_def visit_releases rev_filter)
  show "empty_releases key xs \<longleftrightarrow> \<not> (\<exists>e. e \<in> set xs \<and> is_release (key e))"
    by (auto simp: empty_releases_iff)
next
  assume a: "sorted_wrt version_lt (map key xs) \<and> e \<in> set xs \<and> is_release (key e)"
  let ?g = "rev xs ! here (rbegin_releases key xs)"
  have "\<not> empty_releases key (rev xs)" using a by (auto simp: empty_releases_iff)
  then have f: "find (\<lambda>e. is_release (key e)) (rev xs) = Some ?g"
    unfolding rbegin_releases_def by (rule first_release)
  then obtain i where i: "i < length xs" "is_release (key ?g)" "?g = rev xs ! i" "\<forall>j<i. \<not> is_release (key (rev xs ! j))"
    by (auto simp: find_Some_iff)
  obtain j where j: "j < length xs" "e = rev xs ! j" using a by (metis in_set_conv_nth length_rev set_rev)
  then have ij: "i \<le> j" using a i(4) by (metis not_le)
  have "e = ?g \<or> version_lt (key e) (key ?g)"
  proof (cases "i = j")
    case False
    have "length xs - Suc j < length xs - Suc i" using False ij j(1) by simp
    then have "version_lt (map key xs ! (length xs - Suc j)) (map key xs ! (length xs - Suc i))"
      using sorted_wrt_nth_less [of version_lt "map key xs" "length xs - Suc j" "length xs - Suc i"] a i(1) by simp
    then show ?thesis using i(1,3) j by (simp add: rev_nth)
  qed (use i j in simp)
  then show "let g = ?g in g \<in> set xs \<and> is_release (key g) \<and> (e = g \<or> version_lt (key e) (key g))"
    using i by (auto simp: rev_nth Let_def)
qed

lemma releases_visited_witness:
  "let xs = [mk_version [1], (mk_version [2])\<lparr>vextra := Extra [EStr ''beta'']\<rparr>]; g = rev xs ! here (rbegin_releases id xs)
   in g \<in> set xs \<and> is_release g \<and> (mk_version [1] = g \<or> version_lt (mk_version [1]) g)"
proof -
  let ?xs = "[mk_version [1], (mk_version [2])\<lparr>vextra := Extra [EStr ''beta'']\<rparr>]"
  have "sorted_wrt version_lt (map id ?xs) \<and> mk_version [1] \<in> set ?xs \<and> is_release (id (mk_version [1]))" by code_simp
  then show ?thesis using releases_visited [of id ?xs "mk_version [1]"] by (simp add: Let_def)
qed

end
