(* ===== verification/Storage.thy ===== *)
theory Storage
  imports FileSystem "HOL-Library.Word"
begin

text \<open>
  The storage of files by their hashes of storage.h: a directory with a file for every hash, one
  file with an index of records, and \<open>file_storage\<close> over either of them, which relies on a
  contract that is a locale here. \<open>std::hash\<close> of strings is a parameter.
\<close>

text \<open>The operations that \<open>file_storage\<close> calls on its template argument.\<close>

record ('w, 'h) physical_ops =
  ps_contains :: "'h \<Rightarrow> ('w, bool) io"
  ps_add :: "fs_path \<Rightarrow> ('w, 'h) io"
  ps_remove :: "'h \<Rightarrow> ('w, unit) io"
  ps_get_hash :: "fs_path \<Rightarrow> ('w, 'h) io"

section \<open>The storage over a physical one\<close>

definition storage_contains :: "('w, 'h) physical_ops \<Rightarrow> 'h \<Rightarrow> ('w, bool) io" where
  "storage_contains P h = ps_contains P h"

definition storage_add :: "('w, 'h) physical_ops \<Rightarrow> fs_path \<Rightarrow> ('w, 'h) io" where
  "storage_add P fn = io_bind (ps_get_hash P fn) (\<lambda>h. io_bind (storage_contains P h) (\<lambda>b.
     io_bind (if b then io_return () else io_bind (ps_add P fn) (\<lambda>_. io_return ())) (\<lambda>_. io_return h)))"

definition storage_remove :: "('w, 'h) physical_ops \<Rightarrow> 'h \<Rightarrow> ('w, unit) io" where
  "storage_remove P h = ps_remove P h"

fun storage_add_r :: "('w, 'h) physical_ops \<Rightarrow> fs_path list \<Rightarrow> ('w, unit) io" where
  "storage_add_r P [] = io_return ()"
| "storage_add_r P (fn # fns) = io_bind (storage_add P fn) (\<lambda>_. storage_add_r P fns)"

section \<open>A directory of files\<close>

type_synonym hash_type = "64 word"

definition contents_hash :: "(string \<Rightarrow> hash_type) \<Rightarrow> fs_path \<Rightarrow> (fs, hash_type) io" where
  "contents_hash H fn = io_bind (read_file fn 0 None) (\<lambda>s. io_return (H s))"

definition make_path :: "fs_path \<Rightarrow> hash_type \<Rightarrow> fs_path" where
  "make_path root h = root @ [to_string (uint h)]"

text \<open>\<open>fs::copy_file\<close> without options: the source is a file and the target does not exist.\<close>

definition copy_file :: "fs_path \<Rightarrow> fs_path \<Rightarrow> (fs, unit) io" where
  "copy_file p q w = (case entry_at w p of
     Some (Regular c) \<Rightarrow>
       if fs_exists w q \<or> \<not> is_directory w (parent_path q) then (Inl filesystem_error, w)
       else (Inr (), w(q \<mapsto> Regular c))
   | _ \<Rightarrow> (Inl filesystem_error, w))"

text \<open>\<open>fs::remove\<close>: a file, an empty directory, or nothing; \<open>listing\<close> gives the names in a directory.\<close>

definition fs_remove :: "(fs \<Rightarrow> fs_path \<Rightarrow> string list) \<Rightarrow> fs_path \<Rightarrow> (fs, unit) io" where
  "fs_remove listing p w =
     (if is_directory w p \<and> (p = [] \<or> listing w p \<noteq> []) then (Inl filesystem_error, w) else (Inr (), w(p := None)))"

definition directory_contains :: "fs_path \<Rightarrow> hash_type \<Rightarrow> (fs, bool) io" where
  "directory_contains root h w = (Inr (fs_exists w (make_path root h)), w)"

definition directory_add :: "(string \<Rightarrow> hash_type) \<Rightarrow> fs_path \<Rightarrow> fs_path \<Rightarrow> (fs, hash_type) io" where
  "directory_add H root fn = io_bind (contents_hash H fn) (\<lambda>h. io_bind (directory_contains root h) (\<lambda>b.
     io_bind (if b then io_return () else copy_file fn (make_path root h)) (\<lambda>_. io_return h)))"

definition physical_file_storage ::
  "(string \<Rightarrow> hash_type) \<Rightarrow> (fs \<Rightarrow> fs_path \<Rightarrow> string list) \<Rightarrow> fs_path \<Rightarrow> (fs, hash_type) physical_ops" where
  "physical_file_storage H listing root =
     \<lparr>ps_contains = directory_contains root, ps_add = directory_add H root,
      ps_remove = (\<lambda>h. fs_remove listing (make_path root h)), ps_get_hash = contents_hash H\<rparr>"

definition open_directory_storage :: "fs_path \<Rightarrow> (fs, unit) io" where
  "open_directory_storage root = create_directories root"

text \<open>The objects that an iteration gives, as pairs of path and hash text.\<close>

definition directory_objects :: "(fs \<Rightarrow> fs_path \<Rightarrow> string list) \<Rightarrow> fs_path \<Rightarrow> fs \<Rightarrow> (fs_path \<times> string) list" where
  "directory_objects listing root w = map (\<lambda>n. (root @ [n], n)) (listing w root)"

section \<open>One file with an index\<close>

text \<open>
  Both streams are opened for appending and stand at the end between the operations; no other
  stream writes the two files. A record is written as it is in memory: three numbers of eight
  bytes, the lowest byte first.
\<close>

record stored_record =
  rec_hash :: hash_type
  rec_pos :: "64 word"
  rec_size :: "64 word"

definition word_bytes :: "64 word \<Rightarrow> string" where
  "word_bytes w = map (\<lambda>i. char_of (unat w div 256 ^ i)) [0..<8]"

fun bytes_nat :: "string \<Rightarrow> nat" where
  "bytes_nat [] = 0"
| "bytes_nat (c # s) = of_char c + 256 * bytes_nat s"

definition record_bytes :: "stored_record \<Rightarrow> string" where
  "record_bytes r = word_bytes (rec_hash r) @ word_bytes (rec_pos r) @ word_bytes (rec_size r)"

definition record_size :: nat where
  "record_size = 24"

text \<open>The bytes of a stream from a place, into memory that was zero.\<close>

definition fread_at :: "string \<Rightarrow> nat \<Rightarrow> nat \<Rightarrow> string" where
  "fread_at s k n = take n (drop k s) @ replicate (n - length (drop k s)) CHR 0x00"

definition record_at :: "string \<Rightarrow> nat \<Rightarrow> stored_record" where
  "record_at idx k =
     (let b = fread_at idx k record_size
      in \<lparr>rec_hash = of_nat (bytes_nat (take 8 b)), rec_pos = of_nat (bytes_nat (take 8 (drop 8 b))),
          rec_size = of_nat (bytes_nat (drop 16 b))\<rparr>)"

definition index_path :: "fs_path \<Rightarrow> fs_path" where
  "index_path name = butlast name @ [last name @ ''.idx'']"

definition contents :: "fs \<Rightarrow> fs_path \<Rightarrow> string" where
  "contents w p = bytes_of (entry_at w p)"

definition open_storage_file :: "fs_path \<Rightarrow> (fs, unit) io" where
  "open_storage_file p w = (case fopen Append_mode p w of
     Some w \<Rightarrow> (Inr (), w)
   | None \<Rightarrow> (Inl (Runtime_error ''cannot open storage file''), w))"

definition open_single_file :: "fs_path \<Rightarrow> (fs, unit) io" where
  "open_single_file name = io_bind (open_storage_file name) (\<lambda>_. open_storage_file (index_path name))"

text \<open>
  The search through the records; the iterator's offset is an unsigned of 32 bits and the
  loop ends where it equals the size of the index. Behind the end the records read are zero.
\<close>

partial_function (option) find_record :: "hash_type \<Rightarrow> string \<Rightarrow> 32 word \<Rightarrow> bool option" where
  [code]: "find_record h idx off =
     (if unat off = length idx then Some False
      else if h = rec_hash (record_at idx (unat off)) then Some True
      else find_record h idx (off + of_nat record_size))"

definition single_contains :: "fs_path \<Rightarrow> hash_type \<Rightarrow> (fs, bool) io" where
  "single_contains name h w = (case find_record h (contents w (index_path name)) 0 of
     None \<Rightarrow> (Inl Diverges, w)
   | Some b \<Rightarrow> (Inr b, w))"

definition single_add :: "(string \<Rightarrow> hash_type) \<Rightarrow> fs_path \<Rightarrow> fs_path \<Rightarrow> (fs, hash_type) io" where
  "single_add H name fn = io_bind (read_file fn 0 None) (\<lambda>s. io_bind (contents_hash H fn) (\<lambda>h w.
     let r = \<lparr>rec_hash = h, rec_pos = of_nat (length (contents w name)), rec_size = of_nat (length s)\<rparr>
     in (Inr h, fwrite (index_path name) (record_bytes r) (fwrite name s w))))"

definition single_file_storage :: "(string \<Rightarrow> hash_type) \<Rightarrow> fs_path \<Rightarrow> (fs, hash_type) physical_ops" where
  "single_file_storage H name =
     \<lparr>ps_contains = single_contains name, ps_add = single_add H name,
      ps_remove = (\<lambda>_. io_return ()), ps_get_hash = contents_hash H\<rparr>"

text \<open>
  Copying out a record: a position that is negative as a \<open>long\<close> is refused by \<open>fseek\<close>, and the
  stream stays at its end; the target is used without a test.
\<close>

definition single_copy :: "fs_path \<Rightarrow> stored_record \<Rightarrow> fs_path \<Rightarrow> (fs, unit) io" where
  "single_copy name r fn w =
     (if 2 ^ 63 \<le> unat (rec_size r) then (Inl Length_error, w)
      else
        let c = contents w name;
            b = fread_at c (if sint (rec_pos r) < 0 then length c else unat (rec_pos r)) (unat (rec_size r))
        in case fopen Write_mode fn w of
             None \<Rightarrow> (Inl Undefined, w)
           | Some w \<Rightarrow> (Inr (), fwrite fn b w))"

section \<open>The contract of a physical storage\<close>

text \<open>
  \<open>stored\<close> is what the storage keeps under every hash, \<open>outside\<close> the contents of the files outside it,
  \<open>room w n b\<close> says that \<open>n\<close> more files of \<open>b\<close> bytes together can be stored.
\<close>

locale physical_storage =
  fixes P :: "('w, 'h) physical_ops" and H :: "string \<Rightarrow> 'h" and inv :: "'w \<Rightarrow> bool"
    and stored :: "'w \<Rightarrow> 'h \<Rightarrow> string option" and outside :: "'w \<Rightarrow> fs_path \<Rightarrow> string option"
    and room :: "'w \<Rightarrow> nat \<Rightarrow> nat \<Rightarrow> bool"
  assumes contains_law: "inv w \<Longrightarrow> ps_contains P h w = (Inr (stored w h \<noteq> None), w)"
    and hash_law: "inv w \<Longrightarrow> outside w fn = Some c \<Longrightarrow> ps_get_hash P fn w = (Inr (H c), w)"
    and add_law: "inv w \<Longrightarrow> outside w fn = Some c \<Longrightarrow> stored w (H c) = None \<Longrightarrow> room w (Suc n) (length c + b) \<Longrightarrow>
      \<exists>w'. ps_add P fn w = (Inr (H c), w') \<and> inv w' \<and> stored w' = (stored w)(H c \<mapsto> c) \<and> outside w' = outside w \<and> room w' n b"
    and room_law: "room w (Suc n) (length c + b) \<Longrightarrow> room w n b"
begin

text \<open>What is kept after a content was added: the content first seen for its hash.\<close>

definition with_content :: "string \<Rightarrow> ('h \<Rightarrow> string option) \<Rightarrow> 'h \<Rightarrow> string option" where
  "with_content c m = (if m (H c) = None then m(H c \<mapsto> c) else m)"

lemma storage_add_stored:
  assumes "inv w" "outside w fn = Some c" "room w (Suc n) (length c + b)"
  shows "\<exists>w'. storage_add P fn w = (Inr (H c), w') \<and> inv w' \<and> stored w' = with_content c (stored w)
    \<and> outside w' = outside w \<and> room w' n b"
proof (cases "stored w (H c) = None")
  case True
  then obtain w' where "ps_add P fn w = (Inr (H c), w')" "inv w'" "stored w' = (stored w)(H c \<mapsto> c)"
    "outside w' = outside w" "room w' n b"
    using add_law [OF assms(1,2) _ assms(3)] by blast
  with True show ?thesis
    using contains_law [OF assms(1)] hash_law [OF assms(1,2)]
    by (simp add: storage_add_def storage_contains_def io_bind_def with_content_def)
next
  case False
  then show ?thesis
    using contains_law [OF assms(1)] hash_law [OF assms(1,2)] assms(1) room_law [OF assms(3)]
    by (auto simp: storage_add_def storage_contains_def io_bind_cases(2) with_content_def)
qed

lemma storage_add_r_stored:
  assumes "inv w" "list_all2 (\<lambda>fn c. outside w fn = Some c) fns cs" "room w (length cs) (sum_list (map length cs))"
  shows "\<exists>w'. storage_add_r P fns w = (Inr (), w') \<and> inv w' \<and> stored w' = fold with_content cs (stored w) \<and> outside w' = outside w"
  using assms
proof (induction fns arbitrary: w cs)
  case (Cons fn fns)
  then obtain c ds where cs: "cs = c # ds" by (cases cs) auto
  then obtain w1 where w1: "storage_add P fn w = (Inr (H c), w1)" "inv w1" "stored w1 = with_content c (stored w)"
    "outside w1 = outside w" "room w1 (length ds) (sum_list (map length ds))"
    using storage_add_stored [of w fn c "length ds" "sum_list (map length ds)"] Cons.prems by auto
  with Cons.IH [of w1 ds] Cons.prems(2) cs show ?case by (simp add: io_bind_cases(2))
qed simp

lemma with_content_one: "m h = Some d \<Longrightarrow> with_content c m h = Some d"
  by (auto simp: with_content_def)

lemma with_content_keeps: "m h = Some d \<Longrightarrow> fold with_content cs m h = Some d"
  by (induction cs arbitrary: m) (simp_all add: with_content_one)

lemma with_content_dom: "dom (fold with_content cs m) = dom m \<union> H ` set cs"
  by (induction cs arbitrary: m) (auto simp: with_content_def dom_def split: if_splits)

text \<open>A content whose hash is new and no other content's is kept.\<close>

lemma with_content_own:
  assumes "c \<in> set cs" "m (H c) = None" "\<And>d. d \<in> set cs \<Longrightarrow> H d = H c \<Longrightarrow> d = c"
  shows "fold with_content cs m (H c) = Some c"
  using assms
proof (induction cs arbitrary: m)
  case (Cons d ds)
  show ?case
  proof (cases "H d = H c")
    case True
    then have "d = c" using Cons.prems(3) by simp
    then have "with_content d m (H c) = Some c" using Cons.prems(2) by (simp add: with_content_def)
    then show ?thesis by (simp add: with_content_keeps)
  next
    case False
    then have "with_content d m (H c) = None" using Cons.prems(2) by (simp add: with_content_def)
    then show ?thesis using Cons False by auto
  qed
qed simp

theorem added_contents:
  assumes "inv w" "list_all2 (\<lambda>fn c. outside w fn = Some c) fns cs" "room w (length cs) (sum_list (map length cs))"
  shows "\<exists>w'. storage_add_r P fns w = (Inr (), w') \<and> inv w' \<and> outside w' = outside w
    \<and> (\<forall>h. storage_contains P h w' = (Inr (stored w h \<noteq> None \<or> h \<in> H ` set cs), w'))
    \<and> (\<forall>h d. stored w h = Some d \<longrightarrow> stored w' h = Some d)
    \<and> (\<forall>c\<in>set cs. stored w (H c) = None \<and> (\<forall>d\<in>set cs. H d = H c \<longrightarrow> d = c) \<longrightarrow> stored w' (H c) = Some c)"
proof -
  obtain w' where w': "storage_add_r P fns w = (Inr (), w')" "inv w'" "stored w' = fold with_content cs (stored w)" "outside w' = outside w"
    using storage_add_r_stored [OF assms] by blast
  have "stored w' h \<noteq> None \<longleftrightarrow> stored w h \<noteq> None \<or> h \<in> H ` set cs" for h
    using with_content_dom [of cs "stored w"] w'(3) by (auto simp: set_eq_iff domIff)
  with w' show ?thesis
    using contains_law [OF w'(2)] by (fastforce simp: storage_contains_def with_content_keeps intro: with_content_own)
qed

end

section \<open>The directory obeys it\<close>

definition directory_inv :: "fs_path \<Rightarrow> fs \<Rightarrow> bool" where
  "directory_inv root w \<longleftrightarrow> is_directory w root \<and> (\<forall>h. w (make_path root h) \<noteq> Some Directory)"

definition directory_stored :: "fs_path \<Rightarrow> fs \<Rightarrow> hash_type \<Rightarrow> string option" where
  "directory_stored root w h = (case w (make_path root h) of Some (Regular c) \<Rightarrow> Some c | _ \<Rightarrow> None)"

text \<open>The files in memory range that are not in the storage.\<close>

definition file_outside :: "(fs_path \<Rightarrow> bool) \<Rightarrow> fs \<Rightarrow> fs_path \<Rightarrow> string option" where
  "file_outside ours w p = (case entry_at w p of
     Some (Regular c) \<Rightarrow> if \<not> ours p \<and> length c < 2 ^ 63 then Some c else None
   | _ \<Rightarrow> None)"

lemma file_outside_read:
  assumes "file_outside ours w p = Some c"
  shows "read_file p 0 None w = (Inr c, w)" "contents_hash H p w = (Inr (H c), w)" "entry_at w p = Some (Regular c)" "\<not> ours p" "p \<noteq> []"
    "length c < 2 ^ 63"
proof -
  have e: "entry_at w p = Some (Regular c)" "\<not> ours p" "length c < 2 ^ 63"
    using assms by (auto simp: file_outside_def split: option.splits fs_entry.splits if_splits)
  then have "p \<noteq> []" "w p = Some (Regular c)" by (auto simp: entry_at_def split: if_splits)
  then show r: "read_file p 0 None w = (Inr c, w)" using e by (intro read_file_regular)
  show "contents_hash H p w = (Inr (H c), w)" using r by (simp add: contents_hash_def io_bind_cases(2))
qed (use assms in \<open>auto simp: file_outside_def entry_at_def split: option.splits fs_entry.splits if_splits\<close>)

lemma file_outside_update: "ours q \<Longrightarrow> q \<noteq> [] \<Longrightarrow> file_outside ours (w(q := e)) = file_outside ours w"
  by (auto simp: file_outside_def entry_at_def fun_eq_iff split: option.splits fs_entry.splits)

lemma make_path_simps [simp]:
  "make_path root h \<noteq> []" "parent_path (make_path root h) = root" "make_path root g = make_path root h \<longleftrightarrow> g = h"
  "prefix root (make_path root h)" "make_path root h \<noteq> root"
  by (simp_all add: make_path_def parent_path_def to_string_inject word_uint_eq_iff)

lemma directory_exists: "directory_inv root w \<Longrightarrow> fs_exists w (make_path root h) \<longleftrightarrow> directory_stored root w h \<noteq> None"
  by (auto simp: directory_inv_def directory_stored_def fs_exists_at split: option.splits fs_entry.splits)

lemma directory_update:
  assumes "directory_inv root w"
  shows "directory_inv root (w(make_path root h \<mapsto> Regular c))"
    "directory_stored root (w(make_path root h \<mapsto> Regular c)) = (directory_stored root w)(h \<mapsto> c)"
  using assms make_path_simps(5) [of root h]
  by (auto simp: directory_inv_def directory_stored_def is_directory_def entry_at_def fun_eq_iff
      simp del: make_path_simps(5) split: if_splits)

interpretation directory: physical_storage "physical_file_storage H listing root" H "directory_inv root"
  "directory_stored root" "file_outside (prefix root)" "\<lambda>_ _ _. True" for H listing root
proof
  fix w h
  assume "directory_inv root w"
  then show "ps_contains (physical_file_storage H listing root) h w = (Inr (directory_stored root w h \<noteq> None), w)"
    by (simp add: physical_file_storage_def directory_contains_def directory_exists)
next
  fix w fn c
  assume i: "directory_inv root w" and f: "file_outside (prefix root) w fn = Some c"
  show "ps_get_hash (physical_file_storage H listing root) fn w = (Inr (H c), w)"
    by (simp add: physical_file_storage_def file_outside_read(2) [OF f])
  fix n b
  assume s: "directory_stored root w (H c) = None"
  let ?w = "w(make_path root (H c) \<mapsto> Regular c)"
  have e: "\<not> fs_exists w (make_path root (H c))" using directory_exists [OF i] s by simp
  have "directory_add H root fn w = (Inr (H c), ?w)"
    using e i file_outside_read [OF f]
    by (simp add: directory_add_def io_bind_def directory_contains_def copy_file_def directory_inv_def)
  then show "\<exists>w'. ps_add (physical_file_storage H listing root) fn w = (Inr (H c), w') \<and> directory_inv root w'
      \<and> directory_stored root w' = (directory_stored root w)(H c \<mapsto> c)
      \<and> file_outside (prefix root) w' = file_outside (prefix root) w \<and> True"
    using directory_update [OF i] file_outside_update [of "prefix root" "make_path root (H c)" w]
    by (simp add: physical_file_storage_def)
qed simp

section \<open>The file with an index obeys it\<close>

lemma bytes_nat_digits: "bytes_nat (map (\<lambda>i. char_of (n div 256 ^ i)) [0..<k]) = n mod 256 ^ k"
proof (induction k arbitrary: n)
  case (Suc k)
  have "bytes_nat (map (\<lambda>i. char_of (n div 256 ^ i)) [0..<Suc k])
      = n mod 256 + 256 * bytes_nat (map (\<lambda>i. char_of (n div 256 div 256 ^ i)) [0..<k])"
    by (simp add: upt_conv_Cons map_Suc_upt [symmetric] comp_def div_mult2_eq del: upt_Suc map_Suc_upt)
  then show ?case using Suc.IH [of "n div 256"] by (simp add: mod_mult2_eq)
qed simp

lemma word_bytes_simps [simp]: "length (word_bytes w) = 8" "of_nat (bytes_nat (word_bytes w)) = w"
proof -
  have "bytes_nat (word_bytes w) = unat w mod 256 ^ 8"
    unfolding word_bytes_def by (rule bytes_nat_digits)
  also have "\<dots> = unat w" using unsigned_less [of w, where ?'a = nat] by simp
  finally show "of_nat (bytes_nat (word_bytes w)) = w" by simp
qed (simp add: word_bytes_def)

lemma record_bytes_length [simp]: "length (record_bytes r) = record_size"
  by (simp add: record_bytes_def record_size_def)

definition records_of :: "string \<Rightarrow> stored_record list" where
  "records_of idx = map (\<lambda>k. record_at idx (record_size * k)) [0..<length idx div record_size]"

lemma record_at_append: "k + record_size \<le> length idx \<Longrightarrow> record_at (idx @ s) k = record_at idx k"
  by (simp add: record_at_def fread_at_def)

lemma record_at_last: "record_at (idx @ record_bytes r) (length idx) = r"
  by (simp add: record_at_def fread_at_def record_size_def) (simp add: record_bytes_def)

lemma records_of_append:
  assumes "record_size dvd length idx"
  shows "records_of (idx @ record_bytes r) = records_of idx @ [r]"
proof -
  have n: "length (idx @ record_bytes r) div record_size = Suc (length idx div record_size)"
    by (simp add: record_size_def)
  have "map (\<lambda>k. record_at (idx @ record_bytes r) (record_size * k)) [0..<length idx div record_size] = records_of idx"
    unfolding records_of_def using assms by (auto simp: record_size_def intro!: record_at_append elim!: dvdE)
  then show ?thesis
    using assms unfolding records_of_def n by (simp add: record_at_last)
qed

lemma find_record_from:
  assumes "record_size dvd length idx" "length idx < 2 ^ 32" "record_size * k \<le> length idx"
  shows "find_record h idx (of_nat (record_size * k)) = Some (h \<in> rec_hash ` set (drop k (records_of idx)))"
  using assms(3)
proof (induction "length idx div record_size - k" arbitrary: k)
  case 0
  then have "record_size * k = length idx" using assms(1) by (auto simp: record_size_def elim!: dvdE)
  moreover have "drop k (records_of idx) = []" using 0 by (simp add: records_of_def)
  ultimately show ?case
    using assms(2) by (subst find_record.simps) (simp add: unsigned_of_nat take_bit_eq_mod del: of_nat_mult)
next
  case (Suc n)
  then have lt: "k < length (records_of idx)" by (simp add: records_of_def)
  have le: "record_size * Suc k \<le> length idx" using lt assms(1) by (auto simp: records_of_def record_size_def elim!: dvdE)
  have u: "unat (of_nat (record_size * k) :: 32 word) = record_size * k" "record_size * k \<noteq> length idx"
    using le assms(2) by (simp_all add: unsigned_of_nat take_bit_eq_mod record_size_def del: of_nat_mult)
  have r: "records_of idx ! k = record_at idx (record_size * k)" using lt by (simp add: records_of_def)
  have nx: "(of_nat (record_size * k) + of_nat record_size :: 32 word) = of_nat (record_size * Suc k)" by simp
  have "find_record h idx (of_nat (record_size * Suc k)) = Some (h \<in> rec_hash ` set (drop (Suc k) (records_of idx)))"
    using Suc.hyps(2) le by (intro Suc.hyps(1)) simp
  then show ?case
    using u lt r [symmetric] by (subst find_record.simps) (simp add: nx Cons_nth_drop_Suc [symmetric] del: of_nat_mult mult_Suc_right)
qed

definition single_inv :: "fs_path \<Rightarrow> fs \<Rightarrow> bool" where
  "single_inv name w \<longleftrightarrow> is_regular w name \<and> is_regular w (index_path name)
     \<and> record_size dvd length (contents w (index_path name)) \<and> length (contents w (index_path name)) < 2 ^ 32
     \<and> length (contents w name) < 2 ^ 63
     \<and> (\<forall>r\<in>set (records_of (contents w (index_path name))). unat (rec_pos r) + unat (rec_size r) \<le> length (contents w name))"

definition record_content :: "string \<Rightarrow> stored_record \<Rightarrow> string" where
  "record_content c r = take (unat (rec_size r)) (drop (unat (rec_pos r)) c)"

definition single_stored :: "fs_path \<Rightarrow> fs \<Rightarrow> hash_type \<Rightarrow> string option" where
  "single_stored name w h =
     map_option (record_content (contents w name)) (find (\<lambda>r. rec_hash r = h) (records_of (contents w (index_path name))))"

definition ours :: "fs_path \<Rightarrow> fs_path \<Rightarrow> bool" where
  "ours name p \<longleftrightarrow> p = name \<or> p = index_path name"

definition single_room :: "fs_path \<Rightarrow> fs \<Rightarrow> nat \<Rightarrow> nat \<Rightarrow> bool" where
  "single_room name w n b \<longleftrightarrow>
     length (contents w (index_path name)) + record_size * n < 2 ^ 32 \<and> length (contents w name) + b < 2 ^ 63"

lemma index_path_simps [simp]: "index_path name \<noteq> []" "name \<noteq> [] \<Longrightarrow> index_path name \<noteq> name"
proof -
  show "name \<noteq> [] \<Longrightarrow> index_path name \<noteq> name"
    by (cases name rule: rev_cases) (simp_all add: index_path_def)
qed (simp add: index_path_def)

lemma is_regular_at: "is_regular w p \<longleftrightarrow> p \<noteq> [] \<and> w p = Some (Regular (contents w p))"
  by (auto simp: is_regular_def entry_at_def contents_def bytes_of_def split: option.splits fs_entry.splits)

lemma single_contains_stored:
  assumes "single_inv name w"
  shows "single_contains name h w = (Inr (single_stored name w h \<noteq> None), w)"
proof -
  have "find_record h (contents w (index_path name)) 0
      = Some (h \<in> rec_hash ` set (records_of (contents w (index_path name))))"
    using find_record_from [of "contents w (index_path name)" 0 h] assms by (simp add: single_inv_def)
  moreover have "find (\<lambda>r. rec_hash r = h) rs \<noteq> None \<longleftrightarrow> h \<in> rec_hash ` set rs" for rs
    by (auto simp: find_None_iff)
  then have "find (\<lambda>r. rec_hash r = h) (records_of (contents w (index_path name))) \<noteq> None \<longleftrightarrow>
      h \<in> rec_hash ` set (records_of (contents w (index_path name)))" .
  ultimately show ?thesis by (simp add: single_contains_def single_stored_def)
qed

lemma appended_files:
  assumes "single_inv name w" "w' = fwrite (index_path name) t (fwrite name s w)"
  shows "contents w' name = contents w name @ s" "contents w' (index_path name) = contents w (index_path name) @ t"
    "is_regular w' name" "is_regular w' (index_path name)" "\<And>p. \<not> ours name p \<Longrightarrow> w' p = w p"
proof -
  have r: "name \<noteq> []" "w name = Some (Regular (contents w name))"
    "w (index_path name) = Some (Regular (contents w (index_path name)))"
    using assms(1) by (auto simp: single_inv_def is_regular_at)
  have w': "w' = w(name \<mapsto> Regular (contents w name @ s), index_path name \<mapsto> Regular (contents w (index_path name) @ t))"
    using r index_path_simps [of name] by (simp add: assms(2) fwrite_def)
  show "contents w' name = contents w name @ s" "contents w' (index_path name) = contents w (index_path name) @ t"
    "is_regular w' name" "is_regular w' (index_path name)" "\<And>p. \<not> ours name p \<Longrightarrow> w' p = w p"
    using r index_path_simps(1) index_path_simps(2) [OF r(1)] index_path_simps(2) [OF r(1), symmetric]
    by (auto simp: w' contents_def is_regular_def entry_at_def bytes_of_def ours_def)
qed

lemma single_add_stored:
  assumes i: "single_inv name w" and f: "file_outside (ours name) w fn = Some c" and s: "single_stored name w (H c) = None"
    and room: "single_room name w (Suc n) (length c + b)"
  shows "\<exists>w'. single_add H name fn w = (Inr (H c), w') \<and> single_inv name w' \<and> single_stored name w' = (single_stored name w)(H c \<mapsto> c)
    \<and> file_outside (ours name) w' = file_outside (ours name) w \<and> single_room name w' n b"
proof -
  let ?d = "contents w name" and ?i = "contents w (index_path name)"
  let ?r = "\<lparr>rec_hash = H c, rec_pos = of_nat (length ?d), rec_size = of_nat (length c)\<rparr>"
  define w' where "w' = fwrite (index_path name) (record_bytes ?r) (fwrite name c w)"
  note a = appended_files [OF i w'_def]
  have len: "length ?d + length c < 2 ^ 63" "length ?i + record_size < 2 ^ 32" "record_size dvd length ?i"
    using room i by (auto simp: single_room_def single_inv_def record_size_def)
  have u: "unat (rec_pos ?r) = length ?d" "unat (rec_size ?r) = length c"
    using len(1) by (simp_all add: unsigned_of_nat take_bit_eq_mod)
  have recs: "records_of (contents w' (index_path name)) = records_of ?i @ [?r]" using len(3) by (simp add: a records_of_append)
  have old: "unat (rec_pos r) + unat (rec_size r) \<le> length ?d" if "r \<in> set (records_of ?i)" for r
    using that i by (auto simp: single_inv_def)
  have inv: "single_inv name w'"
    unfolding single_inv_def recs using a(1,2,3,4) len u old by (auto simp: trans_le_add1)
  have keep: "record_content (contents w' name) r = record_content ?d r" if "r \<in> set (records_of ?i)" for r
    using old [OF that] by (simp add: record_content_def a)
  have new: "record_content (contents w' name) ?r = c" unfolding record_content_def u a by simp
  have "single_stored name w' h = ((single_stored name w)(H c \<mapsto> c)) h" for h
  proof (cases "find (\<lambda>r. rec_hash r = h) (records_of ?i)")
    case None
    then show ?thesis using new by (simp add: single_stored_def recs find_append)
  next
    case (Some r)
    then have "h \<noteq> H c" using s by (auto simp: single_stored_def)
    moreover have "r \<in> set (records_of ?i)" using Some by (auto simp: find_Some_iff)
    ultimately show ?thesis using Some keep by (simp add: single_stored_def recs find_append)
  qed
  moreover have "file_outside (ours name) w' = file_outside (ours name) w"
    using a(5) by (auto simp: file_outside_def entry_at_def fun_eq_iff split: option.splits fs_entry.splits)
  moreover have "single_room name w' n b" using room by (simp add: single_room_def a)
  moreover have "single_add H name fn w = (Inr (H c), w')"
    by (simp add: single_add_def io_bind_def file_outside_read [OF f] w'_def Let_def)
  ultimately show ?thesis using inv by blast
qed

interpretation single: physical_storage "single_file_storage H name" H "single_inv name"
  "single_stored name" "file_outside (ours name)" "single_room name" for H name
proof
  show "single_inv name w \<Longrightarrow> ps_contains (single_file_storage H name) h w = (Inr (single_stored name w h \<noteq> None), w)" for w h
    by (simp add: single_file_storage_def single_contains_stored)
  show "file_outside (ours name) w fn = Some c \<Longrightarrow> ps_get_hash (single_file_storage H name) fn w = (Inr (H c), w)" for w fn c
    by (simp add: single_file_storage_def file_outside_read(2))
  show "single_room name w (Suc n) (length c + b) \<Longrightarrow> single_room name w n b" for w n c b
    by (simp add: single_room_def)
qed (simp add: single_file_storage_def single_add_stored)

lemma fread_at_inside: "k + n \<le> length s \<Longrightarrow> fread_at s k n = take n (drop k s)"
  by (simp add: fread_at_def)

lemma single_copy_content:
  assumes i: "single_inv name w" and r: "r \<in> set (records_of (contents w (index_path name)))"
    and fn: "fn \<noteq> []" "w fn \<noteq> Some Directory" "is_directory w (parent_path fn)"
  shows "single_copy name r fn w = (Inr (), w(fn \<mapsto> Regular (record_content (contents w name) r)))"
proof -
  have le: "unat (rec_pos r) + unat (rec_size r) \<le> length (contents w name)" "length (contents w name) < 2 ^ 63"
    using i r by (auto simp: single_inv_def)
  then have "unat (rec_pos r) < 2 ^ 63" by (rule le_less_trans [OF add_leD1])
  then have "uint (rec_pos r) < 2 ^ 63" unfolding uint_nat by (metis of_nat_less_iff of_nat_numeral of_nat_power)
  then have "sint (rec_pos r) = uint (rec_pos r)"
    by (simp add: sint_uint signed_take_bit_int_eq_self_iff) (insert uint_ge_0 [of "rec_pos r"], linarith)
  then have "0 \<le> sint (rec_pos r)" by simp
  then show ?thesis
    using le fn by (simp add: single_copy_def Let_def fread_at_inside record_content_def fwrite_def is_directory_def entry_at_def)
qed

section \<open>Both storages\<close>

text \<open>
  Adding files to the storage over a directory. It succeeds; afterwards the storage contains
  exactly the hashes it contained before and those of the added contents, the contents it had
  are unchanged, a content whose hash was new and is no other's is kept under it, and the files
  outside of the storage are as before.
\<close>

theorem directory_storage_adds:
  assumes "directory_inv root w" "list_all2 (\<lambda>fn c. file_outside (prefix root) w fn = Some c) fns cs"
  shows "\<exists>w'. storage_add_r (physical_file_storage H listing root) fns w = (Inr (), w') \<and> directory_inv root w'
    \<and> file_outside (prefix root) w' = file_outside (prefix root) w
    \<and> (\<forall>h. storage_contains (physical_file_storage H listing root) h w'
          = (Inr (directory_stored root w h \<noteq> None \<or> h \<in> H ` set cs), w'))
    \<and> (\<forall>h d. directory_stored root w h = Some d \<longrightarrow> directory_stored root w' h = Some d)
    \<and> (\<forall>c\<in>set cs. directory_stored root w (H c) = None \<and> (\<forall>d\<in>set cs. H d = H c \<longrightarrow> d = c) \<longrightarrow>
          directory_stored root w' (H c) = Some c)"
  by (rule directory.added_contents [OF assms TrueI])

text \<open>
  The storage in one file with an index, as long as the index stays below four gigabytes and
  the file below the range of a file offset. Files that are added are contained afterwards, with
  everything that was, and a content whose hash was new and is no other's has a record in the
  index whose copy writes this content to any path that can be written.
\<close>

theorem single_storage_copies:
  assumes "single_inv name w" "list_all2 (\<lambda>fn c. file_outside (ours name) w fn = Some c) fns cs"
    and "single_room name w (length cs) (sum_list (map length cs))"
  shows "\<exists>w'. storage_add_r (single_file_storage H name) fns w = (Inr (), w') \<and> single_inv name w'
    \<and> (\<forall>h. storage_contains (single_file_storage H name) h w' = (Inr (single_stored name w h \<noteq> None \<or> h \<in> H ` set cs), w'))
    \<and> (\<forall>c\<in>set cs. single_stored name w (H c) = None \<and> (\<forall>d\<in>set cs. H d = H c \<longrightarrow> d = c) \<longrightarrow>
         (\<exists>r\<in>set (records_of (contents w' (index_path name))). rec_hash r = H c
           \<and> (\<forall>fn. fn \<noteq> [] \<and> w' fn \<noteq> Some Directory \<and> is_directory w' (parent_path fn) \<longrightarrow>
                 single_copy name r fn w' = (Inr (), w'(fn \<mapsto> Regular c)))))"
proof -
  obtain w' where w': "storage_add_r (single_file_storage H name) fns w = (Inr (), w')" "single_inv name w'"
    "\<forall>h. storage_contains (single_file_storage H name) h w' = (Inr (single_stored name w h \<noteq> None \<or> h \<in> H ` set cs), w')"
    "\<forall>c\<in>set cs. single_stored name w (H c) = None \<and> (\<forall>d\<in>set cs. H d = H c \<longrightarrow> d = c) \<longrightarrow> single_stored name w' (H c) = Some c"
    using single.added_contents [OF assms] by blast
  have "\<exists>r\<in>set (records_of (contents w' (index_path name))). rec_hash r = H c
           \<and> (\<forall>fn. fn \<noteq> [] \<and> w' fn \<noteq> Some Directory \<and> is_directory w' (parent_path fn) \<longrightarrow>
                 single_copy name r fn w' = (Inr (), w'(fn \<mapsto> Regular c)))"
    if "single_stored name w' (H c) = Some c" for c
  proof -
    from that obtain r where r: "find (\<lambda>r. rec_hash r = H c) (records_of (contents w' (index_path name))) = Some r"
      "record_content (contents w' name) r = c" by (auto simp: single_stored_def)
    then have "r \<in> set (records_of (contents w' (index_path name)))" "rec_hash r = H c" by (auto simp: find_Some_iff)
    with r(2) single_copy_content [OF w'(2)] show ?thesis by blast
  qed
  with w' show ?thesis by blast
qed

lemma directory_storage_adds_witness:
  "let w = [[''s''] \<mapsto> Directory, [''a''] \<mapsto> Regular ''xy'']; P = physical_file_storage (\<lambda>s. of_nat (length s)) (\<lambda>_ _. []) [''s'']
   in \<exists>w'. storage_add_r P [[''a''], [''a'']] w = (Inr (), w') \<and> storage_contains P 2 w' = (Inr True, w')
        \<and> storage_contains P 3 w' = (Inr False, w') \<and> directory_stored [''s''] w' 2 = Some ''xy''"
proof -
  let ?w = "[[''s''] \<mapsto> Directory, [''a''] \<mapsto> Regular ''xy''] :: fs"
  have inv: "directory_inv [''s''] ?w" by (simp add: directory_inv_def is_directory_def entry_at_def make_path_def)
  have fs: "list_all2 (\<lambda>fn c. file_outside (prefix [''s'']) ?w fn = Some c) [[''a''], [''a'']] [''xy'', ''xy'']"
    by (simp add: file_outside_def entry_at_def)
  have none: "directory_stored [''s''] ?w h = None" for h by (simp add: directory_stored_def make_path_def)
  show ?thesis
    using directory_storage_adds [OF inv fs, of "\<lambda>s. of_nat (length s)" "\<lambda>_ _. []"] by (auto simp: Let_def none)
qed

lemma single_storage_copies_witness:
  "let w = [[''f''] \<mapsto> Regular [], [''f.idx''] \<mapsto> Regular [], [''a''] \<mapsto> Regular ''xy'']; P = single_file_storage (\<lambda>s. of_nat (length s)) [''f'']
   in \<exists>w'. storage_add_r P [[''a''], [''a'']] w = (Inr (), w') \<and> storage_contains P 2 w' = (Inr True, w')
        \<and> storage_contains P 3 w' = (Inr False, w')"
proof -
  let ?w = "[[''f''] \<mapsto> Regular [], [''f.idx''] \<mapsto> Regular [], [''a''] \<mapsto> Regular ''xy''] :: fs"
  have inv: "single_inv [''f''] ?w"
    by (simp add: single_inv_def is_regular_def entry_at_def index_path_def contents_def bytes_of_def records_of_def)
  have fs: "list_all2 (\<lambda>fn c. file_outside (ours [''f'']) ?w fn = Some c) [[''a''], [''a'']] [''xy'', ''xy'']"
    by (simp add: file_outside_def entry_at_def ours_def index_path_def)
  have room: "single_room [''f''] ?w (length [''xy'', ''xy'']) (sum_list (map length [''xy'', ''xy'']))"
    by (simp add: single_room_def contents_def entry_at_def bytes_of_def index_path_def record_size_def)
  have none: "single_stored [''f''] ?w h = None" for h
    by (simp add: single_stored_def records_of_def contents_def entry_at_def bytes_of_def index_path_def)
  show ?thesis
    using single_storage_copies [OF inv fs room, of "\<lambda>s. of_nat (length s)"] by (auto simp: Let_def none)
qed

text \<open>A hash is removed from the directory; the file with an index keeps it.\<close>

lemma removed_hash:
  assumes "directory_inv root w"
  shows "storage_remove (physical_file_storage H listing root) h w = (Inr (), w(make_path root h := None))"
    "directory_stored root (w(make_path root h := None)) = (directory_stored root w)(h := None)"
    "storage_remove (single_file_storage H name) h w = (Inr (), w)"
proof -
  have "\<not> is_directory w (make_path root h)" using assms by (simp add: directory_inv_def is_directory_def entry_at_def)
  then show "storage_remove (physical_file_storage H listing root) h w = (Inr (), w(make_path root h := None))"
    by (simp add: storage_remove_def physical_file_storage_def fs_remove_def)
  show "directory_stored root (w(make_path root h := None)) = (directory_stored root w)(h := None)"
    by (auto simp: directory_stored_def fun_eq_iff)
qed (simp add: storage_remove_def single_file_storage_def)

text \<open>
  With an index of four gigabytes or more the offset never equals its size, and the search for a
  hash that is nowhere does not end.
\<close>

lemma long_index_endless:
  assumes "2 ^ 32 \<le> length idx" "\<And>k. rec_hash (record_at idx k) \<noteq> h"
  shows "find_record h idx off = None"
proof -
  have "\<not> (g = h \<and> i = idx)" if "find_record g i off = Some y" for g i off y
  proof (rule find_record.raw_induct [where P = "\<lambda>g i off y. \<not> (g = h \<and> i = idx)", OF _ that], goal_cases)
    case (1 f g i off y)
    have "unat off < 2 ^ 32" using unsigned_less [of off, where ?'a = nat] by simp
    then have ne: "unat off \<noteq> length idx" using assms(1) by simp
    then show ?case using 1 assms(2) by (auto split: if_splits)
  qed
  then show ?thesis by fastforce
qed

end
