(* ===== verification/Lock.thy ===== *)
theory Lock
  imports FileSystem
begin

text \<open>
  Locks between processes of lock.h: the lock file beside a file, scoped locks, and
  \<open>single_process_job\<close>, which runs a function in one process while the others wait for it. The
  lock of Boost is a parameter with the documented behaviour of the platform's file locks, which
  belong to processes. Tasks are the calls, a step relation interleaves them.
\<close>

section \<open>The lock file\<close>

definition lock_file :: "fs_path \<Rightarrow> fs_path" where
  "lock_file fn = parent_path fn @ [last fn @ ''.lock'']"

definition prepare_lock_file :: "fs_path \<Rightarrow> (fs, fs_path) io" where
  "prepare_lock_file fn =
     io_bind (create_directories (parent_path fn)) (\<lambda>_ w.
     io_bind (if fs_exists w (lock_file fn) then io_return () else create_file (lock_file fn))
       (\<lambda>_. io_return (lock_file fn)) w)"

section \<open>Scoped locks\<close>

text \<open>A blocking call is one that can go on when the attempt succeeds.\<close>

record 'l lock_ops =
  try_lock_op :: "nat \<Rightarrow> 'l \<Rightarrow> bool \<times> 'l"
  try_sharable_op :: "nat \<Rightarrow> 'l \<Rightarrow> bool \<times> 'l"
  unlock_op :: "nat \<Rightarrow> 'l \<Rightarrow> 'l"
  unlock_sharable_op :: "nat \<Rightarrow> 'l \<Rightarrow> 'l"

record scoped_lock =
  locked :: bool

definition deferred_lock :: scoped_lock where
  "deferred_lock = \<lparr>locked = False\<rparr>"

definition scoped_try_lock :: "'l lock_ops \<Rightarrow> nat \<Rightarrow> scoped_lock \<Rightarrow> 'l \<Rightarrow> bool \<times> scoped_lock \<times> 'l" where
  "scoped_try_lock L p k l = (case try_lock_op L p l of (b, l) \<Rightarrow> (b, k\<lparr>locked := b\<rparr>, l))"

text \<open>None while the call blocks.\<close>

definition scoped_lock_wait :: "'l lock_ops \<Rightarrow> nat \<Rightarrow> scoped_lock \<Rightarrow> 'l \<Rightarrow> (scoped_lock \<times> 'l) option" where
  "scoped_lock_wait L p k l = (case try_lock_op L p l of (b, l) \<Rightarrow> if b then Some (k\<lparr>locked := True\<rparr>, l) else None)"

definition scoped_sharable_wait :: "'l lock_ops \<Rightarrow> nat \<Rightarrow> 'l \<Rightarrow> 'l option" where
  "scoped_sharable_wait L p l = (case try_sharable_op L p l of (b, l) \<Rightarrow> if b then Some l else None)"

definition scoped_release :: "'l lock_ops \<Rightarrow> nat \<Rightarrow> scoped_lock \<Rightarrow> 'l \<Rightarrow> 'l" where
  "scoped_release L p k l = (if locked k then unlock_op L p l else l)"

section \<open>Tasks\<close>

text \<open>Calls of \<open>single_process_job\<close>, of \<open>try_single_process_job\<close>, and scopes of a shared lock.\<close>

datatype task_kind = Job | Try_job | Shared

datatype place =
    Start | Opened | Again | Waiting
  | Running scoped_lock | Waited scoped_lock | Reading
  | Returned (ran: bool) | Threw (ran: bool)

record 'l lock_system =
  places :: "nat \<Rightarrow> place"
  platform_lock :: 'l
  disk :: fs

definition at :: "nat \<Rightarrow> place \<Rightarrow> 'l lock_system \<Rightarrow> 'l lock_system" where
  "at i p s = s\<lparr>places := (places s)(i := p)\<rparr>"

text \<open>
  The steps of task \<open>i\<close> in process \<open>proc i\<close>. The constructor of a scoped lock prepares the lock file and may
  throw; then the job tries the lock; the function ends or throws; the destructors release.
\<close>

inductive lock_step :: "'l lock_ops \<Rightarrow> (nat \<Rightarrow> task_kind) \<Rightarrow> (nat \<Rightarrow> nat) \<Rightarrow> fs_path \<Rightarrow> 'l lock_system \<Rightarrow> 'l lock_system \<Rightarrow> bool"
  for L kind proc fn where
  prepare_fails: "places s i = Start \<or> places s i = Again \<Longrightarrow> prepare_lock_file fn (disk s) = (Inl e, d) \<Longrightarrow>
    lock_step L kind proc fn s (at i (Threw False) (s\<lparr>disk := d\<rparr>))"
| prepare_deferred: "places s i = Start \<Longrightarrow> kind i \<noteq> Shared \<Longrightarrow> prepare_lock_file fn (disk s) = (Inr f, d) \<Longrightarrow>
    lock_step L kind proc fn s (at i Opened (s\<lparr>disk := d\<rparr>))"
| prepare_locking: "places s i = Start \<and> kind i = Shared \<or> places s i = Again \<Longrightarrow> prepare_lock_file fn (disk s) = (Inr f, d) \<Longrightarrow>
    lock_step L kind proc fn s (at i Waiting (s\<lparr>disk := d\<rparr>))"
| try_taken: "places s i = Opened \<Longrightarrow> scoped_try_lock L (proc i) deferred_lock (platform_lock s) = (True, k, l) \<Longrightarrow>
    lock_step L kind proc fn s (at i (Running k) (s\<lparr>platform_lock := l\<rparr>))"
| try_refused: "places s i = Opened \<Longrightarrow> scoped_try_lock L (proc i) deferred_lock (platform_lock s) = (False, k, l) \<Longrightarrow>
    lock_step L kind proc fn s (at i (if kind i = Job then Again else Returned False)
      (s\<lparr>platform_lock := scoped_release L (proc i) k l\<rparr>))"
| run_ends: "places s i = Running k \<Longrightarrow> p = Returned True \<or> p = Threw True \<Longrightarrow>
    lock_step L kind proc fn s (at i p (s\<lparr>platform_lock := scoped_release L (proc i) k (platform_lock s)\<rparr>))"
| lock_granted: "places s i = Waiting \<Longrightarrow> kind i \<noteq> Shared \<Longrightarrow> scoped_lock_wait L (proc i) deferred_lock (platform_lock s) = Some (k, l) \<Longrightarrow>
    lock_step L kind proc fn s (at i (Waited k) (s\<lparr>platform_lock := l\<rparr>))"
| wait_ends: "places s i = Waited k \<Longrightarrow>
    lock_step L kind proc fn s (at i (Returned False) (s\<lparr>platform_lock := scoped_release L (proc i) k (platform_lock s)\<rparr>))"
| sharable_granted: "places s i = Waiting \<Longrightarrow> kind i = Shared \<Longrightarrow> scoped_sharable_wait L (proc i) (platform_lock s) = Some l \<Longrightarrow>
    lock_step L kind proc fn s (at i Reading (s\<lparr>platform_lock := l\<rparr>))"
| sharable_ends: "places s i = Reading \<Longrightarrow>
    lock_step L kind proc fn s (at i (Returned True) (s\<lparr>platform_lock := unlock_sharable_op L (proc i) (platform_lock s)\<rparr>))"

inductive reachable_lock :: "'l lock_ops \<Rightarrow> (nat \<Rightarrow> task_kind) \<Rightarrow> (nat \<Rightarrow> nat) \<Rightarrow> fs_path \<Rightarrow> 'l lock_system \<Rightarrow> 'l lock_system \<Rightarrow> bool"
  for L kind proc fn s0 where
  initially: "reachable_lock L kind proc fn s0 s0"
| further: "reachable_lock L kind proc fn s0 s \<Longrightarrow> lock_step L kind proc fn s s' \<Longrightarrow> reachable_lock L kind proc fn s0 s'"

section \<open>What the platform's lock promises\<close>

text \<open>
  \<open>excl\<close> and \<open>shared\<close> are the processes that hold the lock. A process gets it if no other process is
  in its way; what it held before is replaced.
\<close>

definition lock_law :: "'l lock_ops \<Rightarrow> ('l \<Rightarrow> nat set) \<Rightarrow> ('l \<Rightarrow> nat set) \<Rightarrow> bool" where
  "lock_law L excl shared \<longleftrightarrow> (\<forall>p l.
     (case try_lock_op L p l of (b, l') \<Rightarrow> b = (excl l \<union> shared l \<subseteq> {p})
        \<and> (if b then excl l' = {p} \<and> shared l' = {} else excl l' = excl l \<and> shared l' = shared l))
     \<and> (case try_sharable_op L p l of (b, l') \<Rightarrow> b = (excl l \<subseteq> {p})
        \<and> (if b then excl l' = {} \<and> shared l' = insert p (shared l) else excl l' = excl l \<and> shared l' = shared l))
     \<and> excl (unlock_op L p l) = excl l - {p} \<and> shared (unlock_op L p l) = shared l - {p}
     \<and> excl (unlock_sharable_op L p l) = excl l - {p} \<and> shared (unlock_sharable_op L p l) = shared l - {p})"

lemma lock_law_try:
  "lock_law L excl shared \<Longrightarrow> try_lock_op L p l = (b, l') \<Longrightarrow>
    b = (excl l \<union> shared l \<subseteq> {p}) \<and> excl l' = (if b then {p} else excl l) \<and> shared l' = (if b then {} else shared l)"
  unfolding lock_law_def by (drule spec [of _ p], drule spec [of _ l]) (auto split: if_splits)

lemma lock_law_sharable:
  "lock_law L excl shared \<Longrightarrow> try_sharable_op L p l = (b, l') \<Longrightarrow>
    b = (excl l \<subseteq> {p}) \<and> excl l' = (if b then {} else excl l) \<and> shared l' = (if b then insert p (shared l) else shared l)"
  unfolding lock_law_def by (drule spec [of _ p], drule spec [of _ l]) (auto split: if_splits)

lemma lock_law_unlock:
  assumes "lock_law L excl shared"
  shows "excl (unlock_op L p l) = excl l - {p}" "shared (unlock_op L p l) = shared l - {p}"
    "excl (unlock_sharable_op L p l) = excl l - {p}" "shared (unlock_sharable_op L p l) = shared l - {p}"
  using assms unfolding lock_law_def by (metis (no_types, lifting))+

section \<open>Who holds the lock\<close>

definition holds :: "place \<Rightarrow> bool" where
  "holds p \<longleftrightarrow> (\<exists>k. (p = Running k \<or> p = Waited k) \<and> locked k)"

definition unlocked_scope :: "place \<Rightarrow> bool" where
  "unlocked_scope p \<longleftrightarrow> (\<exists>k. (p = Running k \<or> p = Waited k) \<and> \<not> locked k)"

text \<open>The invariant of tasks in different processes.\<close>

definition lock_inv :: "('l \<Rightarrow> nat set) \<Rightarrow> ('l \<Rightarrow> nat set) \<Rightarrow> (nat \<Rightarrow> nat) \<Rightarrow> 'l lock_system \<Rightarrow> bool" where
  "lock_inv excl shared proc s \<longleftrightarrow>
     excl (platform_lock s) = proc ` {i. holds (places s i)}
     \<and> shared (platform_lock s) = proc ` {i. places s i = Reading}
     \<and> (\<forall>i. \<not> unlocked_scope (places s i))
     \<and> (\<forall>i j. holds (places s i) \<and> (holds (places s j) \<or> places s j = Reading) \<longrightarrow> i = j)"

lemma at_simps [simp]:
  "places (at i p s) j = (if j = i then p else places s j)" "platform_lock (at i p s) = platform_lock s" "disk (at i p s) = disk s"
  by (simp_all add: at_def)

lemma holds_simps [simp]:
  "\<not> holds Start" "\<not> holds Opened" "\<not> holds Again" "\<not> holds Waiting" "\<not> holds Reading" "\<not> holds (Returned b)" "\<not> holds (Threw b)"
  "holds (Running k) \<longleftrightarrow> locked k" "holds (Waited k) \<longleftrightarrow> locked k"
  "\<not> unlocked_scope Start" "\<not> unlocked_scope Opened" "\<not> unlocked_scope Again" "\<not> unlocked_scope Waiting" "\<not> unlocked_scope Reading"
  "\<not> unlocked_scope (Returned b)" "\<not> unlocked_scope (Threw b)"
  "unlocked_scope (Running k) \<longleftrightarrow> \<not> locked k" "unlocked_scope (Waited k) \<longleftrightarrow> \<not> locked k"
  by (simp_all add: holds_def unlocked_scope_def)

lemma lock_inv_quiet:
  assumes "lock_inv excl shared proc s" "\<not> holds (places s i)" "places s i \<noteq> Reading"
    and "\<not> holds p" "\<not> unlocked_scope p" "p \<noteq> Reading"
    and "excl (platform_lock s') = excl (platform_lock s)" "shared (platform_lock s') = shared (platform_lock s)"
    and "places s' = places s"
  shows "lock_inv excl shared proc (at i p s')"
proof -
  have "{j. holds (places (at i p s') j)} = {j. holds (places s j)}"
    "{j. places (at i p s') j = Reading} = {j. places s j = Reading}"
    using assms by auto
  with assms show ?thesis by (simp add: lock_inv_def)
qed

lemma lock_inv_grant:
  assumes "lock_inv excl shared proc s" "inj proc" "excl (platform_lock s) \<union> shared (platform_lock s) \<subseteq> {proc i}"
    and "holds p" "\<not> unlocked_scope p" "\<not> holds (places s i)" "places s i \<noteq> Reading"
    and "excl (platform_lock s') = {proc i}" "shared (platform_lock s') = {}" "places s' = places s"
  shows "lock_inv excl shared proc (at i p s')"
proof -
  have n: "\<not> holds (places s j)" "places s j \<noteq> Reading" for j
    using assms(1,2,3,6,7) by (auto simp: lock_inv_def dest: injD)
  then have "{j. holds (places (at i p s') j)} = {i}" "{j. places (at i p s') j = Reading} = {}"
    using assms(4,10) by (auto simp: holds_def)
  with assms n show ?thesis by (auto simp: lock_inv_def holds_def)
qed

lemma lock_inv_release:
  assumes "lock_inv excl shared proc s" "inj proc" "holds (places s i) \<or> places s i = Reading"
    and "\<not> holds p" "\<not> unlocked_scope p" "p \<noteq> Reading"
    and "excl (platform_lock s') = excl (platform_lock s) - {proc i}" "shared (platform_lock s') = shared (platform_lock s) - {proc i}"
    and "places s' = places s"
  shows "lock_inv excl shared proc (at i p s')"
proof -
  have d: "proc ` {j. P j} - {proc i} = proc ` {j. P j \<and> j \<noteq> i}" for P using assms(2) by (auto dest: injD)
  have "{j. holds (places (at i p s') j)} = {j. holds (places s j) \<and> j \<noteq> i}"
    "{j. places (at i p s') j = Reading} = {j. places s j = Reading \<and> j \<noteq> i}"
    using assms by auto
  with assms show ?thesis by (simp add: lock_inv_def d)
qed

lemma lock_inv_share:
  assumes "lock_inv excl shared proc s" "inj proc" "excl (platform_lock s) \<subseteq> {proc i}"
    and "\<not> holds (places s i)" "places s i \<noteq> Reading"
    and "excl (platform_lock s') = {}" "shared (platform_lock s') = insert (proc i) (shared (platform_lock s))" "places s' = places s"
  shows "lock_inv excl shared proc (at i Reading s')"
proof -
  have n: "\<not> holds (places s j)" for j
    using assms(1,2,3,4) by (auto simp: lock_inv_def dest: injD)
  have "{j. places (at i Reading s') j = Reading} = insert i {j. places s j = Reading}" using assms(8) by auto
  moreover have "{j. holds (places (at i Reading s') j)} = {}" using n assms(8) by auto
  ultimately show ?thesis using assms n by (auto simp: lock_inv_def)
qed

lemma lock_inv_locked: "lock_inv excl shared proc s \<Longrightarrow> places s i = Running k \<or> places s i = Waited k \<Longrightarrow> locked k"
  unfolding lock_inv_def unlocked_scope_def by blast

lemma lock_inv_step:
  assumes law: "lock_law L excl shared" and inj: "inj proc" and inv: "lock_inv excl shared proc s"
    and step: "lock_step L kind proc fn s s'"
  shows "lock_inv excl shared proc s'"
  using step
proof cases
  case (try_taken i k l)
  then have t: "try_lock_op L (proc i) (platform_lock s) = (True, l)" "locked k"
    by (auto simp: scoped_try_lock_def split: prod.splits)
  have "lock_inv excl shared proc (at i (Running k) (s\<lparr>platform_lock := l\<rparr>))"
    by (rule lock_inv_grant [OF inv inj]) (use lock_law_try [OF law t(1)] try_taken(2) t(2) in simp_all)
  then show ?thesis by (simp add: try_taken(1))
next
  case (try_refused i k l)
  then have t: "try_lock_op L (proc i) (platform_lock s) = (False, l)" "\<not> locked k"
    by (auto simp: scoped_try_lock_def split: prod.splits)
  show ?thesis unfolding try_refused(1)
    by (rule lock_inv_quiet [OF inv]) (use lock_law_try [OF law t(1)] try_refused(2) t(2) in \<open>simp_all add: scoped_release_def\<close>)
next
  case (run_ends i k p)
  have k: "locked k" using lock_inv_locked [OF inv] run_ends(2) by blast
  show ?thesis unfolding run_ends(1)
    by (rule lock_inv_release [OF inv inj]) (use run_ends(2,3) k lock_law_unlock [OF law] in \<open>auto simp: scoped_release_def\<close>)
next
  case (lock_granted i k l)
  then have t: "try_lock_op L (proc i) (platform_lock s) = (True, l)" "locked k"
    by (auto simp: scoped_lock_wait_def split: prod.splits if_splits)
  show ?thesis unfolding lock_granted(1)
    by (rule lock_inv_grant [OF inv inj]) (use lock_law_try [OF law t(1)] lock_granted(2) t(2) in simp_all)
next
  case (wait_ends i k)
  have k: "locked k" using lock_inv_locked [OF inv] wait_ends(2) by blast
  show ?thesis unfolding wait_ends(1)
    by (rule lock_inv_release [OF inv inj]) (use wait_ends(2) k lock_law_unlock [OF law] in \<open>auto simp: scoped_release_def\<close>)
next
  case (sharable_granted i l)
  then have t: "try_sharable_op L (proc i) (platform_lock s) = (True, l)"
    by (auto simp: scoped_sharable_wait_def split: prod.splits if_splits)
  show ?thesis unfolding sharable_granted(1)
    by (rule lock_inv_share [OF inv inj]) (use lock_law_sharable [OF law t] sharable_granted(2) in auto)
next
  case (sharable_ends i)
  show ?thesis unfolding sharable_ends(1)
    by (rule lock_inv_release [OF inv inj]) (use sharable_ends(2) lock_law_unlock [OF law] in auto)
next
  case (prepare_fails i e d)
  then show ?thesis unfolding prepare_fails(1) by (intro lock_inv_quiet [OF inv]) auto
next
  case (prepare_deferred i f d)
  then show ?thesis unfolding prepare_deferred(1) by (intro lock_inv_quiet [OF inv]) auto
next
  case (prepare_locking i f d)
  then show ?thesis unfolding prepare_locking(1) by (intro lock_inv_quiet [OF inv]) auto
qed

text \<open>Without shared scopes a job waits only for a process that runs the function.\<close>

definition waits :: "place \<Rightarrow> bool" where
  "waits p \<longleftrightarrow> p = Again \<or> p = Waiting"

definition has_waited :: "task_kind \<Rightarrow> place \<Rightarrow> bool" where
  "has_waited t p \<longleftrightarrow> (\<exists>k. p = Waited k) \<or> p = Returned False \<and> t = Job"

definition has_run :: "'l lock_system \<Rightarrow> bool" where
  "has_run s \<longleftrightarrow> (\<exists>j. places s j = Returned True \<or> places s j = Threw True)"

definition has_started :: "'l lock_system \<Rightarrow> bool" where
  "has_started s \<longleftrightarrow> has_run s \<or> (\<exists>j k. places s j = Running k)"

definition wait_inv :: "(nat \<Rightarrow> task_kind) \<Rightarrow> 'l lock_system \<Rightarrow> bool" where
  "wait_inv kind s \<longleftrightarrow> (\<forall>i. places s i \<noteq> Reading)
     \<and> (\<forall>i. waits (places s i) \<longrightarrow> has_started s) \<and> (\<forall>i. has_waited (kind i) (places s i) \<longrightarrow> has_run s)"

lemma has_run_at:
  assumes "has_run s" "\<And>b. places s i \<noteq> Returned b \<and> places s i \<noteq> Threw b" "places s' = places s"
  shows "has_run (at i p s')"
proof -
  obtain j where "places s j = Returned True \<or> places s j = Threw True" using assms(1) by (auto simp: has_run_def)
  then show ?thesis unfolding has_run_def using assms(2,3) by (intro exI [of _ j]) auto
qed

lemma wait_inv_at:
  assumes "wait_inv kind s" "\<And>b. places s i \<noteq> Returned b \<and> places s i \<noteq> Threw b" "places s' = places s" "p \<noteq> Reading"
    and "\<And>k. places s i = Running k \<Longrightarrow> p = Returned True \<or> p = Threw True"
    and "waits p \<Longrightarrow> has_started s" "has_waited (kind i) p \<Longrightarrow> has_run s"
  shows "wait_inv kind (at i p s')"
proof -
  have r: "has_run (at i p s')" if "has_run s" using has_run_at [OF that assms(2,3)] .
  have "has_started (at i p s')" if st: "has_started s"
  proof (cases "has_run s")
    case False
    then obtain j k where j: "places s j = Running k" using st by (auto simp: has_started_def)
    show ?thesis
    proof (cases "j = i")
      case True
      then have "has_run (at i p s')" unfolding has_run_def using assms(5) j by (intro exI [of _ i]) auto
      then show ?thesis by (simp add: has_started_def)
    next
      case False
      then show ?thesis unfolding has_started_def using j assms(3) by (intro disjI2 exI [of _ j] exI [of _ k]) simp
    qed
  qed (use r in \<open>simp add: has_started_def\<close>)
  with r assms show ?thesis by (auto simp: wait_inv_def)
qed

lemma wait_inv_step:
  assumes law: "lock_law L excl shared" and inj: "inj proc" and inv: "lock_inv excl shared proc s"
    and kinds: "\<And>i. kind i \<noteq> Shared" and w: "wait_inv kind s" and step: "lock_step L kind proc fn s s'"
  shows "wait_inv kind s'"
  using step
proof cases
  case (try_refused i k l)
  then have t: "try_lock_op L (proc i) (platform_lock s) = (False, l)"
    by (auto simp: scoped_try_lock_def split: prod.splits)
  have "shared (platform_lock s) = {}" using inv w by (simp add: lock_inv_def wait_inv_def)
  then obtain j where "holds (places s j)" using lock_law_try [OF law t] inv by (auto simp: lock_inv_def)
  then have "has_started s" using w by (auto simp: holds_def has_started_def wait_inv_def has_waited_def)
  then show ?thesis unfolding try_refused(1)
    by (intro wait_inv_at [OF w]) (use try_refused(2) in \<open>auto simp: has_waited_def split: if_splits\<close>)
next
  case (lock_granted i k l)
  then have t: "try_lock_op L (proc i) (platform_lock s) = (True, l)" "locked k"
    by (auto simp: scoped_lock_wait_def split: prod.splits if_splits)
  have "\<not> holds (places s j)" for j
  proof
    assume h: "holds (places s j)"
    then have "proc j \<in> excl (platform_lock s)" using inv by (simp add: lock_inv_def)
    then have "proc j = proc i" using lock_law_try [OF law t(1)] by auto
    then have "j = i" using inj by (rule injD [rotated])
    then show False using h lock_granted(2) by simp
  qed
  then have "places s j \<noteq> Running m" for j m using lock_inv_locked [OF inv, of j m] by (metis holds_simps(8))
  then have "has_run s" using w lock_granted(2) by (auto simp: wait_inv_def waits_def has_started_def)
  then show ?thesis unfolding lock_granted(1)
    by (intro wait_inv_at [OF w]) (use lock_granted(2) in \<open>auto simp: waits_def\<close>)
next
  case (run_ends i k p)
  then show ?thesis unfolding run_ends(1) by (intro wait_inv_at [OF w]) (auto simp: waits_def has_waited_def)
next
  case (wait_ends i k)
  then have "has_run s" using w by (auto simp: wait_inv_def has_waited_def)
  then show ?thesis unfolding wait_ends(1) by (intro wait_inv_at [OF w]) (use wait_ends(2) in \<open>auto simp: waits_def\<close>)
next
  case (prepare_fails i e d)
  then show ?thesis unfolding prepare_fails(1) by (intro wait_inv_at [OF w]) (auto simp: waits_def has_waited_def)
next
  case (prepare_deferred i f d)
  then show ?thesis unfolding prepare_deferred(1) by (intro wait_inv_at [OF w]) (auto simp: waits_def has_waited_def)
next
  case (prepare_locking i f d)
  then have "places s i = Again" using kinds by auto
  moreover from this have "has_started s" using w by (auto simp: wait_inv_def waits_def)
  ultimately show ?thesis unfolding prepare_locking(1) by (intro wait_inv_at [OF w]) (auto simp: has_waited_def)
next
  case (try_taken i k l)
  then show ?thesis unfolding try_taken(1) by (intro wait_inv_at [OF w]) (auto simp: waits_def has_waited_def)
qed (use kinds w in \<open>auto simp: wait_inv_def\<close>)

section \<open>The jobs\<close>

definition fresh_system :: "('l \<Rightarrow> nat set) \<Rightarrow> ('l \<Rightarrow> nat set) \<Rightarrow> 'l lock_system \<Rightarrow> bool" where
  "fresh_system excl shared s \<longleftrightarrow> places s = (\<lambda>_. Start) \<and> excl (platform_lock s) = {} \<and> shared (platform_lock s) = {}"

lemma reachable_lock_inv:
  assumes "lock_law L excl shared" "inj proc" "fresh_system excl shared s0" "reachable_lock L kind proc fn s0 s"
  shows "lock_inv excl shared proc s"
  using assms(4)
proof induction
  case initially
  then show ?case using assms(3) by (simp add: fresh_system_def lock_inv_def)
next
  case (further s s')
  then show ?case using lock_inv_step [OF assms(1,2)] by blast
qed

lemma reachable_wait_inv:
  assumes "lock_law L excl shared" "inj proc" "fresh_system excl shared s0" "reachable_lock L kind proc fn s0 s" "\<And>i. kind i \<noteq> Shared"
  shows "wait_inv kind s"
  using assms(4)
proof induction
  case initially
  then show ?case using assms(3) by (simp add: fresh_system_def wait_inv_def waits_def has_waited_def)
next
  case (further s s')
  show ?case
    using further wait_inv_step [OF assms(1,2) reachable_lock_inv [OF assms(1-3)]] assms(5) by blast
qed

definition runs :: "place \<Rightarrow> bool" where
  "runs p \<longleftrightarrow> (\<exists>k. p = Running k)"

lemma runs_holds: "lock_inv excl shared proc s \<Longrightarrow> runs (places s i) \<Longrightarrow> holds (places s i)"
  using lock_inv_locked [of excl shared proc s i] by (auto simp: runs_def)

text \<open>
  Jobs of different processes on one file. While one of them runs its function no other does,
  and no shared scope is open. If there are no shared scopes, a call of \<open>single_process_job\<close> that
  returns without having run its function returns only after another call has run it to its end
  or exception.
\<close>

theorem jobs_exclude:
  assumes "lock_law L excl shared" "inj proc" "fresh_system excl shared s0" "reachable_lock L kind proc fn s0 s"
  shows "(runs (places s i) \<and> (runs (places s j) \<or> places s j = Reading) \<longrightarrow> i = j)
    \<and> ((\<forall>i. kind i \<noteq> Shared) \<and> kind i = Job \<and> places s i = Returned False \<longrightarrow>
        (\<exists>j. j \<noteq> i \<and> (places s j = Returned True \<or> places s j = Threw True)))"
proof (intro conjI impI)
  note inv = reachable_lock_inv [OF assms]
  assume "runs (places s i) \<and> (runs (places s j) \<or> places s j = Reading)"
  then have "holds (places s i)" "holds (places s j) \<or> places s j = Reading"
    using runs_holds [OF inv] by blast+
  then show "i = j" using inv unfolding lock_inv_def by blast
next
  assume a: "(\<forall>i. kind i \<noteq> Shared) \<and> kind i = Job \<and> places s i = Returned False"
  then have "wait_inv kind s" by (intro reachable_wait_inv [OF assms]) simp
  moreover have "has_waited (kind i) (places s i)" using a by (simp add: has_waited_def)
  ultimately obtain j where "places s j = Returned True \<or> places s j = Threw True"
    unfolding wait_inv_def has_run_def by blast
  with a show "\<exists>j. j \<noteq> i \<and> (places s j = Returned True \<or> places s j = Threw True)" by (intro exI [of _ j]) auto
qed

lemma prepare_step:
  "places s i = Start \<or> places s i = Again \<Longrightarrow> \<exists>s'. lock_step L kind proc fn s s'"
proof -
  assume p: "places s i = Start \<or> places s i = Again"
  obtain r d where r: "prepare_lock_file fn (disk s) = (r, d)" by fastforce
  show ?thesis
  proof (cases r)
    case (Inl e)
    then show ?thesis using prepare_fails p r by blast
  next
    case (Inr f)
    then show ?thesis using prepare_deferred [of s i kind fn f d L proc] prepare_locking [of s i kind fn f d L proc] p r by blast
  qed
qed

lemma active_step:
  assumes "places s j \<in> {Running k, Waited k, Reading, Start, Again, Opened}"
  shows "\<exists>s'. lock_step L kind proc fn s s'"
proof -
  from assms consider "places s j = Running k" | "places s j = Waited k" | "places s j = Reading"
    | "places s j = Start \<or> places s j = Again" | "places s j = Opened" by blast
  then show ?thesis
  proof cases
    case 1
    from run_ends [of s j k "Returned True" L kind proc fn, OF 1] show ?thesis by (intro exI) simp
  next
    case 2
    from wait_ends [of s j k L kind proc fn, OF 2] show ?thesis by (rule exI)
  next
    case 3
    from sharable_ends [of s j L kind proc fn, OF 3] show ?thesis by (rule exI)
  next
    case 4
    then show ?thesis by (rule prepare_step)
  next
    case 5
    obtain b k l where t: "scoped_try_lock L (proc j) deferred_lock (platform_lock s) = (b, k, l)"
      by (cases "scoped_try_lock L (proc j) deferred_lock (platform_lock s)") blast
    show ?thesis
    proof (cases b)
      case True
      with t have "scoped_try_lock L (proc j) deferred_lock (platform_lock s) = (True, k, l)" by simp
      from try_taken [of s j L proc k l kind fn, OF 5 this] show ?thesis by (rule exI)
    next
      case False
      with t have "scoped_try_lock L (proc j) deferred_lock (platform_lock s) = (False, k, l)" by simp
      from try_refused [of s j L proc k l kind fn, OF 5 this] show ?thesis by (rule exI)
    qed
  qed
qed

lemma waiting_step:
  assumes "lock_law L excl shared" "excl (platform_lock s) = {}" "shared (platform_lock s) = {}" and w: "places s i = Waiting"
  shows "\<exists>s'. lock_step L kind proc fn s s'"
proof (cases "kind i = Shared")
  case True
  obtain b l where t: "try_sharable_op L (proc i) (platform_lock s) = (b, l)" by fastforce
  then have "b" using lock_law_sharable [OF assms(1) t] assms by simp
  then have "scoped_sharable_wait L (proc i) (platform_lock s) = Some l" using t by (simp add: scoped_sharable_wait_def)
  from sharable_granted [of s i kind L proc l fn, OF w True this] show ?thesis by (rule exI)
next
  case False
  obtain b l where t: "try_lock_op L (proc i) (platform_lock s) = (b, l)" by fastforce
  then have "b" using lock_law_try [OF assms(1) t] assms by simp
  then have "scoped_lock_wait L (proc i) deferred_lock (platform_lock s) = Some (\<lparr>locked = True\<rparr>, l)"
    using t by (simp add: scoped_lock_wait_def deferred_lock_def)
  from lock_granted [of s i kind L proc _ l fn, OF w False this] show ?thesis by (rule exI)
qed

text \<open>
  No deadlock: from every state that jobs and shared scopes of different processes reach, as
  long as some call has not come to its end, some call can take a step.
\<close>

theorem jobs_go_on:
  assumes "lock_law L excl shared" "inj proc" "fresh_system excl shared s0" "reachable_lock L kind proc fn s0 s"
    and "\<not> (\<exists>b. places s i = Returned b \<or> places s i = Threw b)"
  shows "\<exists>s'. lock_step L kind proc fn s s'"
proof (cases "\<exists>j k. places s j \<in> {Running k, Waited k, Reading, Start, Again, Opened}")
  case True
  then obtain j k where "places s j \<in> {Running k, Waited k, Reading, Start, Again, Opened}" by blast
  then show ?thesis by (rule active_step)
next
  case False
  then have "\<not> holds (places s j)" "places s j \<noteq> Reading" for j by (auto simp: holds_def)
  then have free: "excl (platform_lock s) = {}" "shared (platform_lock s) = {}"
    using reachable_lock_inv [OF assms(1-4)] by (auto simp: lock_inv_def)
  have "places s i = Waiting" using False assms(5) by (cases "places s i") blast+
  with waiting_step [OF assms(1) free] show ?thesis by blast
qed

text \<open>A lock with the promised behaviour, and a run of two jobs of which the second waits.\<close>

definition table_lock :: "(nat option \<times> nat list) lock_ops" where
  "table_lock =
     \<lparr>try_lock_op = (\<lambda>p (e, r). if (e = None \<or> e = Some p) \<and> list_all (\<lambda>q. q = p) r then (True, (Some p, [])) else (False, (e, r))),
      try_sharable_op = (\<lambda>p (e, r). if e = None \<or> e = Some p then (True, (None, p # r)) else (False, (e, r))),
      unlock_op = (\<lambda>p (e, r). (if e = Some p then None else e, filter (\<lambda>q. q \<noteq> p) r)),
      unlock_sharable_op = (\<lambda>p (e, r). (if e = Some p then None else e, filter (\<lambda>q. q \<noteq> p) r))\<rparr>"

lemma table_lock_law: "lock_law table_lock (\<lambda>(e, r). set_option e) (\<lambda>(e, r). set r)"
  unfolding lock_law_def
proof (intro allI)
  fix p :: nat and l :: "nat option \<times> nat list"
  obtain e r where l: "l = (e, r)" by fastforce
  show "(case try_lock_op table_lock p l of (b, l') \<Rightarrow> b = ((case l of (e, r) \<Rightarrow> set_option e) \<union> (case l of (e, r) \<Rightarrow> set r) \<subseteq> {p})
        \<and> (if b then (case l' of (e, r) \<Rightarrow> set_option e) = {p} \<and> (case l' of (e, r) \<Rightarrow> set r) = {}
            else (case l' of (e, r) \<Rightarrow> set_option e) = (case l of (e, r) \<Rightarrow> set_option e) \<and> (case l' of (e, r) \<Rightarrow> set r) = (case l of (e, r) \<Rightarrow> set r)))
     \<and> (case try_sharable_op table_lock p l of (b, l') \<Rightarrow> b = ((case l of (e, r) \<Rightarrow> set_option e) \<subseteq> {p})
        \<and> (if b then (case l' of (e, r) \<Rightarrow> set_option e) = {} \<and> (case l' of (e, r) \<Rightarrow> set r) = insert p (case l of (e, r) \<Rightarrow> set r)
            else (case l' of (e, r) \<Rightarrow> set_option e) = (case l of (e, r) \<Rightarrow> set_option e) \<and> (case l' of (e, r) \<Rightarrow> set r) = (case l of (e, r) \<Rightarrow> set r)))
     \<and> (case unlock_op table_lock p l of (e, r) \<Rightarrow> set_option e) = (case l of (e, r) \<Rightarrow> set_option e) - {p}
     \<and> (case unlock_op table_lock p l of (e, r) \<Rightarrow> set r) = (case l of (e, r) \<Rightarrow> set r) - {p}
     \<and> (case unlock_sharable_op table_lock p l of (e, r) \<Rightarrow> set_option e) = (case l of (e, r) \<Rightarrow> set_option e) - {p}
     \<and> (case unlock_sharable_op table_lock p l of (e, r) \<Rightarrow> set r) = (case l of (e, r) \<Rightarrow> set r) - {p}"
    by (cases e) (auto simp: table_lock_def l list_all_iff)
qed

definition table_start :: "(nat option \<times> nat list) lock_system" where
  "table_start = \<lparr>places = (\<lambda>_. Start), platform_lock = (None, []), disk = [[''a.lock''] \<mapsto> Regular []]\<rparr>"

lemma table_prepare: "prepare_lock_file [''a''] [[''a.lock''] \<mapsto> Regular []] = (Inr [''a.lock''], [[''a.lock''] \<mapsto> Regular []])"
  by (simp add: prepare_lock_file_def io_bind_def create_directories_def parent_path_def lock_file_def fs_exists_def entry_at_def
      is_regular_def with_directories_def)

lemma table_fresh: "fresh_system (\<lambda>(e, r). set_option e) (\<lambda>(e, r). set r) table_start"
  by (simp add: fresh_system_def table_start_def)

lemmas table_simps = table_lock_def table_start_def scoped_try_lock_def scoped_lock_wait_def scoped_release_def deferred_lock_def

text \<open>The second job finds the lock taken, waits, and returns without having run its function.\<close>

lemma table_run:
  "\<exists>s. reachable_lock table_lock (\<lambda>_. Job) id [''a''] table_start s \<and> places s 0 = Returned True \<and> places s 1 = Returned False"
proof -
  let ?R = "reachable_lock table_lock (\<lambda>_. Job) id [''a''] table_start"
  let ?step = "lock_step table_lock (\<lambda>_. Job) id [''a'']"
  let ?w = "[[''a.lock''] \<mapsto> Regular []] :: fs" and ?k = "\<lparr>locked = True\<rparr>"
  let ?s1 = "at 0 Opened (table_start\<lparr>disk := ?w\<rparr>)"
  let ?s2 = "at 1 Opened (?s1\<lparr>disk := ?w\<rparr>)"
  let ?s3 = "at 0 (Running ?k) (?s2\<lparr>platform_lock := (Some 0, [])\<rparr>)"
  let ?s4 = "at 1 Again (?s3\<lparr>platform_lock := (Some 0, [])\<rparr>)"
  let ?s5 = "at 1 Waiting (?s4\<lparr>disk := ?w\<rparr>)"
  let ?s6 = "at 0 (Returned True) (?s5\<lparr>platform_lock := (None, [])\<rparr>)"
  let ?s7 = "at 1 (Waited ?k) (?s6\<lparr>platform_lock := (Some 1, [])\<rparr>)"
  let ?s8 = "at 1 (Returned False) (?s7\<lparr>platform_lock := (None, [])\<rparr>)"
  have "?step table_start ?s1" by (rule prepare_deferred) (simp_all add: table_start_def table_prepare)
  then have 1: "?R ?s1" by (rule further [OF initially])
  have "?step ?s1 ?s2" by (rule prepare_deferred) (simp_all add: table_start_def table_prepare)
  with 1 have 2: "?R ?s2" by (rule further)
  have "?step ?s2 ?s3" by (rule try_taken) (simp_all add: table_simps)
  with 2 have 3: "?R ?s3" by (rule further)
  have "?step ?s3 ?s4"
    using try_refused [of ?s3 1 table_lock id deferred_lock "(Some 0, [])" "\<lambda>_. Job" "[''a'']"] by (simp add: table_simps)
  with 3 have 4: "?R ?s4" by (rule further)
  have "?step ?s4 ?s5" by (rule prepare_locking) (simp_all add: table_start_def table_prepare)
  with 4 have 5: "?R ?s5" by (rule further)
  have "?step ?s5 ?s6"
    using run_ends [of ?s5 0 ?k "Returned True" table_lock "\<lambda>_. Job" id "[''a'']"] by (simp add: table_simps)
  with 5 have 6: "?R ?s6" by (rule further)
  have "?step ?s6 ?s7" by (rule lock_granted) (simp_all add: table_simps)
  with 6 have 7: "?R ?s7" by (rule further)
  have "?step ?s7 ?s8"
    using wait_ends [of ?s7 1 ?k table_lock "\<lambda>_. Job" id "[''a'']"] by (simp add: table_simps)
  with 7 have "?R ?s8" by (rule further)
  then show ?thesis by (intro exI [of _ ?s8]) simp
qed

lemma jobs_exclude_witness:
  "\<exists>s. reachable_lock table_lock (\<lambda>_. Job) id [''a''] table_start s \<and> places s 1 = Returned False
    \<and> (\<exists>j. j \<noteq> 1 \<and> (places s j = Returned True \<or> places s j = Threw True))"
proof -
  obtain s where s: "reachable_lock table_lock (\<lambda>_. Job) id [''a''] table_start s" "places s 1 = Returned False"
    using table_run by blast
  have "\<exists>j. j \<noteq> 1 \<and> (places s j = Returned True \<or> places s j = Threw True)"
    using jobs_exclude [OF table_lock_law _ table_fresh s(1), of 1 1] s(2) by simp
  with s show ?thesis by blast
qed

lemma jobs_go_on_witness: "\<exists>s'. lock_step table_lock (\<lambda>_. Job) id [''a''] table_start s'"
  using jobs_go_on [OF table_lock_law _ table_fresh initially, of id 0 "\<lambda>_. Job" "[''a'']"] by (simp add: table_start_def)

text \<open>The lock is the process's: two threads of one process run the function at the same time.\<close>

lemma threads_not_excluded:
  "\<exists>s. reachable_lock table_lock (\<lambda>_. Job) (\<lambda>_. 0) [''a''] table_start s \<and> runs (places s 0) \<and> runs (places s 1)"
proof -
  let ?R = "reachable_lock table_lock (\<lambda>_. Job) (\<lambda>_. 0) [''a''] table_start"
  let ?step = "lock_step table_lock (\<lambda>_. Job) (\<lambda>_. 0) [''a'']"
  let ?w = "[[''a.lock''] \<mapsto> Regular []] :: fs" and ?k = "\<lparr>locked = True\<rparr>"
  let ?s1 = "at 0 Opened (table_start\<lparr>disk := ?w\<rparr>)"
  let ?s2 = "at 0 (Running ?k) (?s1\<lparr>platform_lock := (Some 0, [])\<rparr>)"
  let ?s3 = "at 1 Opened (?s2\<lparr>disk := ?w\<rparr>)"
  let ?s4 = "at 1 (Running ?k) (?s3\<lparr>platform_lock := (Some 0, [])\<rparr>)"
  have "?step table_start ?s1" by (rule prepare_deferred) (simp_all add: table_start_def table_prepare)
  then have 1: "?R ?s1" by (rule further [OF initially])
  have "?step ?s1 ?s2" by (rule try_taken) (simp_all add: table_simps)
  with 1 have 2: "?R ?s2" by (rule further)
  have "?step ?s2 ?s3" by (rule prepare_deferred) (simp_all add: table_start_def table_prepare)
  with 2 have 3: "?R ?s3" by (rule further)
  have "?step ?s3 ?s4" by (rule try_taken) (simp_all add: table_simps)
  with 3 have "?R ?s4" by (rule further)
  then show ?thesis by (intro exI [of _ ?s4]) (simp add: runs_def)
qed

end
