(* ===== verification/Pack.thy ===== *)
theory Pack
  imports FileSystem
begin

text \<open>
  Packing and unpacking of archives (pack.h). libarchive is a parameter: the bytes of an archive
  for a list of entries, and what a reader returns for them. Paths of files are lists of names
  from the root; the names of entries are texts.
\<close>

section \<open>Paths\<close>

fun is_under_root_loop :: "fs \<Rightarrow> nat \<Rightarrow> fs_path \<Rightarrow> fs_path \<Rightarrow> bool" where
  "is_under_root_loop w 0 p r = False"
| "is_under_root_loop w (Suc n) p r = (if p = [] then False else if p = r \<and> fs_exists w r then True else is_under_root_loop w n (parent_path p) r)"

text \<open>The test for a path that exists; the root path itself is never reached.\<close>

definition is_under_root :: "fs_path \<Rightarrow> fs_path \<Rightarrow> (fs, bool) io" where
  "is_under_root p r w = (if \<not> fs_exists w p then (Inl filesystem_error, w) else (Inr (is_under_root_loop w (length p) p r), w))"

text \<open>\<open>fs::relative\<close> of paths without links.\<close>

fun relative_names :: "fs_path \<Rightarrow> fs_path \<Rightarrow> string list" where
  "relative_names (a # p) (b # r) = (if a = b then relative_names p r else replicate (length (b # r)) ''..'' @ (a # p))"
| "relative_names p r = replicate (length r) ''..'' @ p"

definition relative :: "fs_path \<Rightarrow> fs_path \<Rightarrow> string" where
  "relative p r = (if p = r then ''.'' else join ''/'' (relative_names p r))"

text \<open>\<open>operator/\<close> of path texts.\<close>

definition append_path :: "string \<Rightarrow> string \<Rightarrow> string" where
  "append_path a b = (if prefix ''/'' b then b else if a = [] \<or> last a = CHR ''/'' then a @ b else a @ ''/'' @ b)"

section \<open>Packing\<close>

definition prepare_one :: "fs_path \<Rightarrow> string \<Rightarrow> string \<Rightarrow> fs_path \<Rightarrow> fs \<Rightarrow> (fs_path \<times> string) list" where
  "prepare_one root_dir dir_prefix file_prefix f w =
     (if \<not> fs_exists w f then [(f, [])]
      else
        let r = relative f root_dir
        in if str_find ''..'' r \<noteq> None \<and> fst (is_under_root f root_dir w) \<noteq> Inr True then []
           else
             let r = (if file_prefix \<noteq> [] then file_prefix @ r else r);
                 r = (if dir_prefix \<noteq> [] then append_path dir_prefix r else r)
             in [(f, r)])"

definition prepare_files :: "fs_path list \<Rightarrow> fs_path \<Rightarrow> string \<Rightarrow> string \<Rightarrow> fs \<Rightarrow> (fs_path \<times> string) list" where
  "prepare_files files root_dir dir_prefix file_prefix w =
     concat (map (\<lambda>f. prepare_one root_dir dir_prefix file_prefix f w) files)"

text \<open>The entries that are written, and what a reader gives back: blocks of data, perhaps with an error behind them.\<close>

datatype file_kind = Regular_file | Directory_file | Other_file

record written_entry =
  wname :: string
  wkind :: file_kind
  wdata :: string

record read_entry =
  pathname :: "string option"
  kind :: file_kind
  data_blocks :: "string list"
  data_error :: bool

datatype archive_item = Retry | Header bool read_entry | Fatal

record archive_lib =
  format_by_ext :: "string \<Rightarrow> bool"
  write_archive :: "string \<Rightarrow> written_entry list \<Rightarrow> string"
  read_archive :: "string \<Rightarrow> archive_item list option"

definition archive_error :: cpp_error where
  "archive_error = Runtime_error ''archive error''"

text \<open>The entry of one file, or the message that it is missing.\<close>

definition pack_one :: "fs \<Rightarrow> fs_path \<times> string \<Rightarrow> written_entry list \<times> string option" where
  "pack_one w p = (case p of (f, n) \<Rightarrow> (case entry_at w f of
     None \<Rightarrow> ([], Some (''Missing file: '' @ ''/'' @ join ''/'' f))
   | Some (Regular c) \<Rightarrow> ([\<lparr>wname = n, wkind = Regular_file, wdata = c\<rparr>], None)
   | Some Directory \<Rightarrow> ([\<lparr>wname = n, wkind = Directory_file, wdata = []\<rparr>], None)))"

text \<open>The result, the last message, and the archive as a file.\<close>

definition pack_files :: "archive_lib \<Rightarrow> fs_path \<Rightarrow> (fs_path \<times> string) list \<Rightarrow> (fs, bool \<times> string option) io" where
  "pack_files A archive files w =
     (if \<not> format_by_ext A (last archive) then (Inl archive_error, w)
      else case fopen Write_mode archive w of
        None \<Rightarrow> (Inl archive_error, w)
      | Some w \<Rightarrow>
          let es = concat (map (fst \<circ> pack_one w) files); ms = List.map_filter (snd \<circ> pack_one w) files
          in (Inr (ms = [], if ms = [] then None else Some (last ms)),
              w(archive \<mapsto> Regular (write_archive A (last archive) es))))"

definition pack_root :: "archive_lib \<Rightarrow> fs_path \<Rightarrow> fs_path list \<Rightarrow> fs_path \<Rightarrow> (fs, bool \<times> string option) io" where
  "pack_root A archive files root_dir w = pack_files A archive (prepare_files files root_dir [] [] w) w"

section \<open>Unpacking\<close>

text \<open>The parts of a path text between slashes; the last one is the file name.\<close>

fun path_parts :: "string \<Rightarrow> string \<Rightarrow> string list" where
  "path_parts a [] = [a]"
| "path_parts a (c # s) = (if c = CHR ''/'' then a # path_parts [] s else path_parts (a @ [c]) s)"

fun resolve :: "fs_path \<Rightarrow> string list \<Rightarrow> fs_path" where
  "resolve p [] = p"
| "resolve p (c # cs) = resolve (if c = ''..'' then butlast p else if c = [] \<or> c = ''.'' then p else p @ [c]) cs"

text \<open>Every directory on the way is created, also one that the way leaves again.\<close>

fun make_way :: "fs_path \<Rightarrow> string list \<Rightarrow> (fs, unit) io" where
  "make_way p [] = create_directories p"
| "make_way p (c # cs) = io_bind (create_directories p) (\<lambda>_. make_way (resolve p [c]) cs)"

definition way_base :: "fs_path \<Rightarrow> string \<Rightarrow> fs_path" where
  "way_base dest fn = (if prefix ''/'' fn then [] else dest)"

definition unpack_data :: "fs_path \<Rightarrow> read_entry \<Rightarrow> (fs, unit) io" where
  "unpack_data f e = io_bind (fopen_checked Write_mode f) (\<lambda>_ w.
     (if data_error e then Inl archive_error else Inr (), foldl (\<lambda>w b. fwrite f b w) w (data_blocks e)))"

definition unpack_entry :: "fs_path \<Rightarrow> read_entry \<Rightarrow> (fs, fs_path set) io" where
  "unpack_entry dest e =
     (case pathname e of
        Some fn \<Rightarrow>
          if kind e \<noteq> Regular_file then io_return {}
          else
            let b = way_base dest fn; ps = path_parts [] fn; dir = resolve b (butlast ps); n = last ps
            in io_bind (make_way b (butlast ps)) (\<lambda>_.
                 if n = ''.'' \<or> n = ''..'' then io_return {}
                 else if n = [] then io_throw cannot_open
                 else io_bind (unpack_data (dir @ [n]) e) (\<lambda>_. io_return {b @ filter (\<lambda>p. p \<noteq> []) ps}))
      | None \<Rightarrow> io_return {})"

fun unpack_items :: "fs_path \<Rightarrow> archive_item list \<Rightarrow> fs_path set \<Rightarrow> (fs, fs_path set) io" where
  "unpack_items dest [] fs = io_return fs"
| "unpack_items dest (Retry # is) fs = unpack_items dest is fs"
| "unpack_items dest (Fatal # is) fs = io_throw archive_error"
| "unpack_items dest (Header _ e # is) fs = io_bind (unpack_entry dest e) (\<lambda>gs. unpack_items dest is (fs \<union> gs))"

definition unpack_file :: "archive_lib \<Rightarrow> fs_path \<Rightarrow> fs_path \<Rightarrow> (fs, fs_path set) io" where
  "unpack_file A archive dest_dir w =
     io_bind (if fs_exists w dest_dir then io_return () else create_directories dest_dir) (\<lambda>_ w.
       case entry_at w archive of
         Some (Regular c) \<Rightarrow> (case read_archive A c of
             None \<Rightarrow> (Inl archive_error, w)
           | Some is \<Rightarrow> unpack_items dest_dir is {} w)
       | _ \<Rightarrow> (Inl archive_error, w)) w"

section \<open>Staying below the destination\<close>

definition safe_name :: "string \<Rightarrow> bool" where
  "safe_name fn \<longleftrightarrow> \<not> prefix ''/'' fn \<and> ''..'' \<notin> set (path_parts [] fn)"

fun safe_item :: "archive_item \<Rightarrow> bool" where
  "safe_item (Header _ e) \<longleftrightarrow> (case pathname e of Some fn \<Rightarrow> safe_name fn | None \<Rightarrow> True)"
| "safe_item _ \<longleftrightarrow> True"

text \<open>The two file systems differ at most below a directory and on the way to it.\<close>

definition only_below :: "fs_path \<Rightarrow> fs \<Rightarrow> fs \<Rightarrow> bool" where
  "only_below d w w' \<longleftrightarrow> (\<forall>q. \<not> prefix d q \<and> \<not> prefix q d \<longrightarrow> w' q = w q)"

lemma only_below_refl [simp]: "only_below d w w"
  by (simp add: only_below_def)

lemma only_below_trans: "only_below d w w' \<Longrightarrow> only_below d w' w'' \<Longrightarrow> only_below d w w''"
  by (simp add: only_below_def)

lemma only_below_bind:
  "only_below d w (snd (m w)) \<Longrightarrow> (\<And>x w'. only_below d w' (snd (f x w'))) \<Longrightarrow> only_below d w (snd (io_bind m f w))"
  by (cases "m w"; cases "fst (m w)") (auto simp: io_bind_def intro: only_below_trans)

lemma only_below_directories: "prefix d p \<Longrightarrow> only_below d w (snd (create_directories p w))"
  by (auto simp: create_directories_def only_below_def with_directories_def dest: prefix_same_cases)

lemma only_below_fopen: "prefix d p \<Longrightarrow> p \<noteq> d \<Longrightarrow> only_below d w (snd (fopen_checked m p w))"
proof -
  assume p: "prefix d p" "p \<noteq> d"
  have o: "only_below d w w'" if "fopen m p w = Some w'" for w w'
    using that p by (cases m) (auto simp: only_below_def split: if_splits)
  have "prefix d (parent_path p)" using p by (metis parent_path_def prefix_snoc append_butlast_last_id prefix_bot.extremum_uniqueI)
  note only_below_directories [OF this, of w]
  then show ?thesis
    by (auto simp: fopen_checked_def io_bind_def split: option.splits prod.splits sum.splits
        intro: o only_below_trans)
qed

lemma resolve_below: "''..'' \<notin> set cs \<Longrightarrow> prefix d p \<Longrightarrow> prefix d (resolve p cs)"
  by (induction p cs rule: resolve.induct) auto

lemma only_below_way: "''..'' \<notin> set cs \<Longrightarrow> prefix d p \<Longrightarrow> only_below d w (snd (make_way p cs w))"
proof (induction p cs arbitrary: w rule: make_way.induct)
  case (2 p c cs)
  then have "prefix d (resolve p [c])" by (intro resolve_below) auto
  then show ?case using 2 by (auto intro!: only_below_bind only_below_directories)
qed (simp add: only_below_directories)

lemma only_below_writes: "prefix d f \<Longrightarrow> only_below d w (foldl (\<lambda>w b. fwrite f b w) w bs)"
proof (induction bs arbitrary: w)
  case (Cons b bs)
  have "only_below d w (fwrite f b w)"
    using Cons.prems by (auto simp: fwrite_def only_below_def split: option.splits fs_entry.splits)
  with Cons show ?case by (auto intro: only_below_trans)
qed simp

lemma path_parts_nonempty [simp]: "path_parts a s \<noteq> []"
  by (induction a s rule: path_parts.induct) auto

lemma only_below_data: "prefix d f \<Longrightarrow> f \<noteq> d \<Longrightarrow> only_below d w (snd (unpack_data f e w))"
  unfolding unpack_data_def by (intro only_below_bind only_below_fopen) (auto intro: only_below_writes)

lemma only_below_entry:
  assumes "safe_item (Header b e)"
  shows "only_below dest w (snd (unpack_entry dest e w))"
proof (cases "pathname e")
  case (Some fn)
  then have safe: "\<not> prefix ''/'' fn" "''..'' \<notin> set (path_parts [] fn)" using assms by (simp_all add: safe_name_def)
  then have up: "''..'' \<notin> set (butlast (path_parts [] fn))" by (meson in_set_butlastD)
  then have "prefix dest (resolve dest (butlast (path_parts [] fn)) @ [n])" for n
    using resolve_below [OF up prefix_order.refl, of dest] by (auto simp: prefix_def)
  moreover have "resolve dest (butlast (path_parts [] fn)) @ [n] \<noteq> dest" for n
    using resolve_below [OF up prefix_order.refl, of dest] by (auto simp: prefix_def)
  moreover note only_below_way [OF up prefix_order.refl, of dest]
  ultimately show ?thesis
    using Some safe(1)
    by (auto simp: unpack_entry_def Let_def way_base_def io_throw_def intro!: only_below_bind only_below_data)
qed (simp add: unpack_entry_def)

lemma unpack_entry_files:
  assumes "safe_item (Header b e)" "fst (unpack_entry dest e w) = Inr gs" "g \<in> gs"
  shows "prefix dest g \<and> ''..'' \<notin> set (drop (length dest) g)"
proof (cases "pathname e")
  case (Some fn)
  then have safe: "\<not> prefix ''/'' fn" "''..'' \<notin> set (path_parts [] fn)" using assms by (simp_all add: safe_name_def)
  then have "g = dest @ filter (\<lambda>p. p \<noteq> []) (path_parts [] fn)"
    using assms(2,3) Some
    by (auto simp: unpack_entry_def Let_def way_base_def io_bind_def io_throw_def split: if_splits prod.splits sum.splits)
  with safe(2) show ?thesis by simp
qed (use assms in \<open>simp add: unpack_entry_def\<close>)

lemma only_below_items:
  assumes "list_all safe_item is"
  shows "only_below dest w (snd (unpack_items dest is fs w))"
    "fst (unpack_items dest is fs w) = Inr gs \<Longrightarrow> g \<in> gs \<Longrightarrow> g \<in> fs \<or> prefix dest g \<and> ''..'' \<notin> set (drop (length dest) g)"
  using assms
proof (induction dest "is" fs arbitrary: w rule: unpack_items.induct)
  case (4 dest b e "is" fs)
  {
    case 1
    then show ?case using 4 only_below_entry [of b e dest w] by (auto intro!: only_below_bind)
  next
    case 2
    then obtain hs where "fst (unpack_entry dest e w) = Inr hs"
      "fst (unpack_items dest is (fs \<union> hs) (snd (unpack_entry dest e w))) = Inr gs"
      by (auto simp: io_bind_def split: prod.splits sum.splits)
    with 4(2) [of hs] 2 unpack_entry_files [of b e dest w hs g] show ?case by auto
  }
qed (auto simp: io_throw_def)

text \<open>
  Unpacking into a directory. If no name of an entry is absolute or has a part \<open>..\<close>, nothing is
  changed except below the directory and on the way to it, whether unpacking succeeds or fails,
  and the paths it returns are below the directory. Nothing enforces the condition: an archive
  with the name \<open>../x\<close> writes beside the directory, and one with \<open>/x\<close> at the root.
\<close>

theorem unpack_contained:
  assumes "\<And>c is. entry_at w archive = Some (Regular c) \<Longrightarrow> read_archive A c = Some is \<Longrightarrow> list_all safe_item is"
  shows "only_below dest w (snd (unpack_file A archive dest w))
    \<and> (\<forall>files g. fst (unpack_file A archive dest w) = Inr files \<and> g \<in> files \<longrightarrow>
         prefix dest g \<and> ''..'' \<notin> set (drop (length dest) g))"
proof -
  let ?m = "if fs_exists w dest then io_return () else create_directories dest"
  obtain r w1 where m: "?m w = (r, w1)" by (cases "?m w")
  have b: "only_below dest w w1" using m only_below_directories [of dest dest w] by (auto split: if_splits)
  have same: "entry_at w archive = Some (Regular c)" if "entry_at w1 archive = Some (Regular c)" "r = Inr ()" for c
    using m that by (auto simp: create_directories_def with_directories_def entry_at_def split: if_splits)
  show ?thesis
  proof (cases "r = Inr () \<and> (\<exists>c is. entry_at w1 archive = Some (Regular c) \<and> read_archive A c = Some is)")
    case True
    then obtain c "is" where c: "r = Inr ()" "entry_at w1 archive = Some (Regular c)" "read_archive A c = Some is" by blast
    then have u: "unpack_file A archive dest w = unpack_items dest is {} w1"
      using m by (simp add: unpack_file_def io_bind_def)
    have safe: "list_all safe_item is" using assms [OF same [OF c(2,1)] c(3)] .
    show ?thesis unfolding u
      using only_below_items(1) [OF safe, of dest w1 "{}"] only_below_items(2) [where dest = dest and fs = "{}" and w = w1, OF safe] only_below_trans [OF b]
      by blast
  next
    case False
    then have "unpack_file A archive dest w = (case r of Inl e \<Rightarrow> (Inl e, w1) | Inr _ \<Rightarrow> (Inl archive_error, w1))"
      using m by (cases r) (auto simp: unpack_file_def io_bind_def split: option.splits fs_entry.splits)
    with b show ?thesis by (auto split: sum.splits)
  qed
qed

text \<open>A name that goes up leaves the directory.\<close>

definition one_entry :: "string \<Rightarrow> archive_lib" where
  "one_entry n = \<lparr>format_by_ext = (\<lambda>_. True), write_archive = (\<lambda>_ _. []),
     read_archive = (\<lambda>_. Some [Header False \<lparr>pathname = Some n, kind = Regular_file, data_blocks = [''hi''], data_error = False\<rparr>])\<rparr>"

lemma unpack_escapes:
  "snd (unpack_file (one_entry ''../x'') [''a''] [''d''] [[''a''] \<mapsto> Regular []]) [''x''] = Some (Regular ''hi'')"
  "snd (unpack_file (one_entry ''/x'') [''a''] [''d''] [[''a''] \<mapsto> Regular []]) [''x''] = Some (Regular ''hi'')"
  by code_simp+

lemma unpack_contained_witness:
  "only_below [''d''] [[''a''] \<mapsto> Regular []] (snd (unpack_file (one_entry ''b/x'') [''a''] [''d''] [[''a''] \<mapsto> Regular []]))"
proof -
  have "list_all safe_item is" if "read_archive (one_entry ''b/x'') c = Some is" for c "is"
    using that by (auto simp: one_entry_def safe_name_def)
  from unpack_contained [of "[[''a''] \<mapsto> Regular []]" "[''a'']" "one_entry ''b/x''" "[''d'']", OF this] show ?thesis by simp
qed

section \<open>What is packed is unpacked\<close>

definition plain :: "string list \<Rightarrow> bool" where
  "plain ps \<longleftrightarrow> list_all (\<lambda>p. p \<noteq> [] \<and> p \<noteq> ''.'' \<and> p \<noteq> ''..'' \<and> CHR ''/'' \<notin> set p) ps"

lemma path_parts_part: "CHR ''/'' \<notin> set p \<Longrightarrow> path_parts a p = [a @ p]"
  "CHR ''/'' \<notin> set p \<Longrightarrow> path_parts a (p @ CHR ''/'' # s) = (a @ p) # path_parts [] s"
  by (induction p arbitrary: a) auto

lemma path_parts_join: "ps \<noteq> [] \<Longrightarrow> plain ps \<Longrightarrow> path_parts [] (join ''/'' ps) = ps"
proof (induction ps rule: induct_list012)
  case (3 x y zs)
  then show ?case using path_parts_part(2) [of x "[]" "join ''/'' (y # zs)"] by (simp add: plain_def)
qed (simp_all add: plain_def path_parts_part)

lemma join_relative: "ps \<noteq> [] \<Longrightarrow> plain ps \<Longrightarrow> \<not> prefix ''/'' (join ''/'' ps)"
proof (induction ps rule: induct_list012)
  case (3 x y zs)
  then show ?case by (cases x) (auto simp: plain_def)
next
  case (2 x)
  then show ?case by (cases x) (auto simp: plain_def)
qed simp

lemma resolve_plain: "plain ps \<Longrightarrow> resolve b ps = b @ ps"
  by (induction ps arbitrary: b) (auto simp: plain_def)

lemma make_way_plain:
  "plain ps \<Longrightarrow> \<not> list_ex (is_regular w) (prefixes (b @ ps)) \<Longrightarrow> make_way b ps w = (Inr (), with_directories (b @ ps) w)"
proof (induction ps arbitrary: b w)
  case (Cons p ps)
  have r: "\<not> is_regular w q" if "prefix q (b @ p # ps)" for q using Cons.prems(2) that by (auto simp: list_ex_iff)
  then have c: "create_directories b w = (Inr (), with_directories b w)"
    by (auto simp: create_directories_def list_ex_iff)
  have "is_regular (with_directories b w) q \<Longrightarrow> is_regular w q" for q
    by (auto simp: is_regular_def entry_at_def with_directories_def split: if_splits)
  then have "\<not> is_regular (with_directories b w) q" if "prefix q (b @ p # ps)" for q using that r by blast
  then have "make_way (b @ [p]) ps (with_directories b w) = (Inr (), with_directories ((b @ [p]) @ ps) (with_directories b w))"
    using Cons.prems(1) by (intro Cons.IH) (auto simp: plain_def list_ex_iff)
  moreover have "with_directories (b @ p # ps) (with_directories b w) = with_directories (b @ p # ps) w"
    by (auto simp: with_directories_def fun_eq_iff)
  ultimately show ?case using c resolve_plain [of "[p]" b] Cons.prems(1) by (simp add: io_bind_def plain_def)
qed (simp add: create_directories_def)

lemma writes_concat:
  "w f = Some (Regular c) \<Longrightarrow> foldl (\<lambda>w b. fwrite f b w) w bs = w(f \<mapsto> Regular (c @ concat bs))"
proof (induction bs arbitrary: w c)
  case (Cons b bs)
  have "fwrite f b w = w(f \<mapsto> Regular (c @ b))" using Cons.prems by (simp add: fwrite_def)
  moreover note Cons.IH [of "w(f \<mapsto> Regular (c @ b))" "c @ b", OF fun_upd_same]
  ultimately show ?case by (simp del: fun_upd_apply)
qed (simp add: fun_upd_idem)

definition same_entry :: "written_entry \<Rightarrow> archive_item \<Rightarrow> bool" where
  "same_entry e it \<longleftrightarrow> (\<exists>b r. it = Header b r \<and> pathname r = Some (wname e) \<and> kind r = wkind e
     \<and> concat (data_blocks r) = wdata e \<and> \<not> data_error r)"

text \<open>The archive library reads back the entries it wrote.\<close>

definition reads_back :: "archive_lib \<Rightarrow> string \<Rightarrow> written_entry list \<Rightarrow> bool" where
  "reads_back A fn es \<longleftrightarrow> (\<exists>is. read_archive A (write_archive A fn es) = Some is \<and> list_all2 same_entry es is)"

lemma unpack_plain:
  assumes "ps \<noteq> []" "plain ps" "writable w (dest @ ps)" "pathname r = Some (join ''/'' ps)" "kind r = Regular_file" "\<not> data_error r"
  shows "unpack_entry dest r w =
    (Inr {dest @ ps}, (with_directories (butlast (dest @ ps)) w)(dest @ ps \<mapsto> Regular (concat (data_blocks r))))"
proof -
  let ?t = "dest @ ps" and ?w = "with_directories (butlast (dest @ ps)) w"
  have parts: "path_parts [] (join ''/'' ps) = ps" "\<not> prefix ''/'' (join ''/'' ps)" using assms(1,2) path_parts_join join_relative by auto
  have bl: "plain (butlast ps)" "dest @ butlast ps = butlast ?t" "butlast ?t @ [last ps] = ?t"
    using assms(1,2) by (auto simp: plain_def list_all_iff butlast_append dest: in_set_butlastD)
  have n: "last ps \<noteq> ''.'' \<and> last ps \<noteq> ''..'' \<and> last ps \<noteq> []" using assms(1,2) by (auto simp: plain_def list_all_iff)
  have w: "make_way dest (butlast ps) w = (Inr (), ?w)"
    using make_way_plain [OF bl(1), of w dest] assms(3) bl(2) by (simp add: writable_def)
  have "?w ?t = w ?t" using assms(1) by (intro with_directories_below) simp
  then have d: "\<not> is_directory ?w ?t" "is_directory ?w (parent_path ?t)"
    using assms(1,3) with_directories_same [of "butlast ?t" w] by (auto simp: writable_def is_directory_def entry_at_def parent_path_def)
  then have "unpack_data ?t r ?w = (Inr (), ?w(?t \<mapsto> Regular (concat (data_blocks r))))"
    using assms(6) writes_concat [of "?w(?t \<mapsto> Regular [])" ?t "[]"] by (simp add: unpack_data_def io_bind_def fopen_checked_def)
  moreover have "filter (\<lambda>p. p \<noteq> []) ps = ps" using assms(2) by (simp add: plain_def filter_id_conv list_all_iff)
  ultimately show ?thesis
    using assms(4,5) parts w n resolve_plain [OF bl(1), of dest] bl(2,3)
    by (simp add: unpack_entry_def Let_def way_base_def io_bind_def)
qed

lemma written_apart:
  assumes "\<not> prefix t u" "\<not> prefix u t" "w' = (with_directories (butlast t) w)(t \<mapsto> e)"
  shows "w' u = w u" "writable w u \<Longrightarrow> writable w' u"
proof -
  have "\<not> prefix u (butlast t)" using assms(2) by (metis append_butlast_last_id butlast.simps(1) prefix_prefix)
  then show u: "w' u = w u" using assms by (auto simp: with_directories_other)
  have "is_regular w q" if "is_regular w' q" "prefix q (butlast u)" for q
  proof -
    have "q \<noteq> t" using that(2) assms(1) by (metis append_butlast_last_id butlast.simps(1) prefix_prefix)
    then show ?thesis using that(1) by (auto simp: assms(3) is_regular_def entry_at_def with_directories_def split: if_splits)
  qed
  then show "writable w u \<Longrightarrow> writable w' u" using u by (auto simp: writable_def list_ex_iff)
qed

definition apart :: "string list \<Rightarrow> string list \<Rightarrow> bool" where
  "apart ps qs \<longleftrightarrow> \<not> prefix ps qs \<and> \<not> prefix qs ps"

lemma unpack_items_plain:
  assumes "list_all2 same_entry (map (\<lambda>(ps, c). \<lparr>wname = join ''/'' ps, wkind = Regular_file, wdata = c\<rparr>) es) is"
    and "sorted_wrt apart (map fst es)" "\<forall>(ps, c)\<in>set es. ps \<noteq> [] \<and> plain ps \<and> writable w (dest @ ps)"
  shows "\<exists>w'. unpack_items dest is fs w = (Inr (fs \<union> (\<lambda>(ps, c). dest @ ps) ` set es), w')
    \<and> (\<forall>(ps, c)\<in>set es. w' (dest @ ps) = Some (Regular c))
    \<and> (\<forall>u. (\<forall>(ps, c)\<in>set es. apart (dest @ ps) u) \<longrightarrow> w' u = w u)"
  using assms
proof (induction es arbitrary: "is" fs w)
  case (Cons e es)
  obtain ps c where e: "e = (ps, c)" by fastforce
  obtain it its where its: "is = it # its"
    "same_entry \<lparr>wname = join ''/'' ps, wkind = Regular_file, wdata = c\<rparr> it"
    "list_all2 same_entry (map (\<lambda>(ps, c). \<lparr>wname = join ''/'' ps, wkind = Regular_file, wdata = c\<rparr>) es) its"
    using Cons.prems(1) e by (auto simp: list_all2_Cons1)
  obtain b r where r: "it = Header b r" "pathname r = Some (join ''/'' ps)" "kind r = Regular_file"
    "concat (data_blocks r) = c" "\<not> data_error r" using its(2) by (auto simp: same_entry_def)
  have ps: "ps \<noteq> []" "plain ps" "writable w (dest @ ps)" using Cons.prems(3) e by auto
  define w1 where "w1 = (with_directories (butlast (dest @ ps)) w)(dest @ ps \<mapsto> Regular c)"
  have u: "unpack_entry dest r w = (Inr {dest @ ps}, w1)"
    using unpack_plain [OF ps r(2,3,5)] r(4) by (simp add: w1_def)
  have ap: "\<not> prefix (dest @ ps) (dest @ qs) \<and> \<not> prefix (dest @ qs) (dest @ ps)" if "(qs, d) \<in> set es" for qs d
    using Cons.prems(2) that e by (fastforce simp: apart_def)
  have "\<forall>(qs, d)\<in>set es. qs \<noteq> [] \<and> plain qs \<and> writable w1 (dest @ qs)"
    using Cons.prems(3) written_apart(2) [OF _ _ w1_def] ap by fastforce
  then obtain w' where w': "unpack_items dest its (fs \<union> {dest @ ps}) w1 = (Inr (fs \<union> {dest @ ps} \<union> (\<lambda>(ps, c). dest @ ps) ` set es), w')"
    "\<forall>(ps, c)\<in>set es. w' (dest @ ps) = Some (Regular c)"
    "\<forall>u. (\<forall>(ps, c)\<in>set es. apart (dest @ ps) u) \<longrightarrow> w' u = w1 u"
    using Cons.IH [OF its(3), of w1 "fs \<union> {dest @ ps}"] Cons.prems(2) by auto
  have "w' (dest @ ps) = w1 (dest @ ps)"
    using ap by (intro w'(3) [rule_format]) (auto simp: apart_def)
  then have "w' (dest @ ps) = Some (Regular c)" by (simp add: w1_def)
  moreover have "w' v = w v" if "\<forall>(ps, c)\<in>set (e # es). apart (dest @ ps) v" for v
  proof -
    have "w' v = w1 v" using that by (intro w'(3) [rule_format]) auto
    also have "\<dots> = w v" using that e by (intro written_apart(1) [OF _ _ w1_def]) (auto simp: apart_def)
    finally show ?thesis .
  qed
  ultimately show ?case using w' u by (simp add: its(1) r(1) io_bind_def e insert_commute)
qed simp

lemma concat_singletons: "\<forall>x\<in>set xs. g x = [h x] \<Longrightarrow> concat (map g xs) = map h xs"
  by (induction xs) auto

lemma writable_keeps:
  "writable w t \<Longrightarrow> w' t = w t \<Longrightarrow> (\<And>q. prefix q (butlast t) \<Longrightarrow> is_regular w' q \<Longrightarrow> is_regular w q) \<Longrightarrow> writable w' t"
  by (auto simp: writable_def list_ex_iff)

lemma is_regular_keeps: "w' q = w q \<Longrightarrow> is_regular w' q = is_regular w q"
  by (simp add: is_regular_def entry_at_def)

lemma is_regular_with_directories: "is_regular (with_directories d w) q \<Longrightarrow> is_regular w q"
  by (auto simp: is_regular_def entry_at_def with_directories_def split: if_splits)

lemma pack_regular:
  assumes "\<forall>(f, ps, c)\<in>set es. f \<noteq> archive \<and> f \<noteq> [] \<and> w f = Some (Regular c)"
    and "format_by_ext A (last archive)" "fopen Write_mode archive w = Some w1"
  shows "pack_files A archive (map (\<lambda>(f, ps, c). (f, join ''/'' ps)) es) w
    = (Inr (True, None), w1(archive \<mapsto> Regular (write_archive A (last archive)
        (map (\<lambda>(f, ps, c). \<lparr>wname = join ''/'' ps, wkind = Regular_file, wdata = c\<rparr>) es))))"
proof -
  have w1: "w1 f = w f" if "f \<noteq> archive" for f using assms(3) that by (auto split: if_splits)
  have "concat (map (fst \<circ> pack_one w1) (map (\<lambda>(f, ps, c). (f, join ''/'' ps)) es))
      = map (\<lambda>(f, ps, c). \<lparr>wname = join ''/'' ps, wkind = Regular_file, wdata = c\<rparr>) es"
    unfolding map_map using assms(1) w1 by (intro concat_singletons) (auto simp: pack_one_def entry_at_def)
  moreover have "List.map_filter (snd \<circ> pack_one w1) (map (\<lambda>(f, ps, c). (f, join ''/'' ps)) es) = []"
    using assms(1) w1 by (auto simp: List.map_filter_def filter_empty_conv pack_one_def entry_at_def)
  ultimately show ?thesis using assms(2,3) by (simp add: pack_files_def Let_def)
qed

text \<open>
  Files packed into an archive under plain relative names, none of which is on the way to
  another, are unpacked: if the library reads back the entries that it wrote and the places in the
  destination can be written, unpacking succeeds, returns the places of the files and leaves their
  contents there.
\<close>

theorem packed_files_unpacked:
  assumes "\<forall>(f, ps, c)\<in>set es. f \<noteq> archive \<and> f \<noteq> [] \<and> w f = Some (Regular c)"
    and "format_by_ext A (last archive)" "fopen Write_mode archive w = Some w1"
    and "reads_back A (last archive) (map (\<lambda>(f, ps, c). \<lparr>wname = join ''/'' ps, wkind = Regular_file, wdata = c\<rparr>) es)"
    and "sorted_wrt apart (map (\<lambda>(f, ps, c). ps) es)" "\<not> list_ex (is_regular w) (prefixes dest)" "\<not> prefix archive dest"
    and "\<forall>(f, ps, c)\<in>set es. ps \<noteq> [] \<and> plain ps \<and> writable w (dest @ ps) \<and> \<not> prefix archive (dest @ ps)"
  shows "\<exists>w2 w3. pack_files A archive (map (\<lambda>(f, ps, c). (f, join ''/'' ps)) es) w = (Inr (True, None), w2)
    \<and> unpack_file A archive dest w2 = (Inr ((\<lambda>(f, ps, c). dest @ ps) ` set es), w3)
    \<and> (\<forall>(f, ps, c)\<in>set es. w3 (dest @ ps) = Some (Regular c))"
proof -
  let ?es = "map (\<lambda>(f, ps, c). \<lparr>wname = join ''/'' ps, wkind = Regular_file, wdata = c\<rparr>) es"
  let ?b = "write_archive A (last archive) ?es"
  define w2 where "w2 = w1(archive \<mapsto> Regular ?b)"
  have pack: "pack_files A archive (map (\<lambda>(f, ps, c). (f, join ''/'' ps)) es) w = (Inr (True, None), w2)"
    unfolding w2_def by (rule pack_regular [OF assms(1-3)])
  have same: "w2 q = w q" if "q \<noteq> archive" for q using assms(3) that by (auto simp: w2_def split: if_splits)
  have reg: "is_regular w2 q \<Longrightarrow> is_regular w q" if "q \<noteq> archive" for q
    using is_regular_keeps [of w2 q w] same [OF that] by simp
  define w4 where "w4 = (if fs_exists w2 dest then w2 else with_directories dest w2)"
  have "\<not> list_ex (is_regular w2) (prefixes dest)" using assms(6,7) reg by (auto simp: list_ex_iff)
  then have m: "(if fs_exists w2 dest then io_return () else create_directories dest) w2 = (Inr (), w4)"
    by (simp add: create_directories_def w4_def)
  obtain "is" where i: "read_archive A ?b = Some is" "list_all2 same_entry ?es is" using assms(4) by (auto simp: reads_back_def)
  have a4: "entry_at w4 archive = Some (Regular ?b)"
    using assms(7) by (auto simp: entry_at_def with_directories_def w4_def w2_def)
  have "writable w4 (dest @ ps)" if "writable w (dest @ ps)" "\<not> prefix archive (dest @ ps)" "ps \<noteq> []" for ps
  proof -
    have ne: "q \<noteq> archive" if "prefix q (butlast (dest @ ps))" for q
      using that \<open>\<not> prefix archive (dest @ ps)\<close> by (metis append_butlast_last_id butlast.simps(1) prefix_prefix)
    have "w2 (dest @ ps) = w (dest @ ps)" using that(2) by (intro same) auto
    then have "writable w2 (dest @ ps)"
      by (rule writable_keeps [OF that(1)]) (use ne reg in blast)
    then show ?thesis
      using that(3) is_regular_with_directories with_directories_other [of "dest @ ps" dest w2]
      by (auto simp: w4_def intro: writable_keeps)
  qed
  then have "\<forall>(ps, c)\<in>set (map snd es). ps \<noteq> [] \<and> plain ps \<and> writable w4 (dest @ ps)" using assms(8) by fastforce
  then obtain w3 where w3: "unpack_items dest is {} w4 = (Inr ({} \<union> (\<lambda>(ps, c). dest @ ps) ` set (map snd es)), w3)"
    "\<forall>(ps, c)\<in>set (map snd es). w3 (dest @ ps) = Some (Regular c)"
    using unpack_items_plain [of "map snd es" "is" w4 dest "{}"] i(2) assms(5) by (auto simp: comp_def split_def)
  have "unpack_file A archive dest w2 = (Inr ((\<lambda>(f, ps, c). dest @ ps) ` set es), w3)"
    using m a4 i(1) w3(1) by (simp add: unpack_file_def io_bind_def image_image split_def)
  then show ?thesis using pack w3(2) by (intro exI [of _ w2] exI [of _ w3]) (auto simp: split_def)
qed

text \<open>A library that has one archive.\<close>

lemma packed_files_unpacked_witness:
  "\<exists>w2 w3. pack_files (one_entry ''b/x'') [''a''] [([''f''], ''b/x'')] [[''f''] \<mapsto> Regular ''hi''] = (Inr (True, None), w2)
    \<and> unpack_file (one_entry ''b/x'') [''a''] [''d''] w2 = (Inr {[''d'', ''b'', ''x'']}, w3)
    \<and> w3 [''d'', ''b'', ''x''] = Some (Regular ''hi'')"
proof -
  let ?es = "[([''f''], [''b'', ''x''], ''hi'')]" and ?w = "[[''f''] \<mapsto> Regular ''hi''] :: fs"
  have "\<exists>w2 w3. pack_files (one_entry ''b/x'') [''a''] (map (\<lambda>(f, ps, c). (f, join ''/'' ps)) ?es) ?w = (Inr (True, None), w2)
    \<and> unpack_file (one_entry ''b/x'') [''a''] [''d''] w2 = (Inr ((\<lambda>(f, ps, c). [''d''] @ ps) ` set ?es), w3)
    \<and> (\<forall>(f, ps, c)\<in>set ?es. w3 ([''d''] @ ps) = Some (Regular c))"
    by (rule packed_files_unpacked)
      (simp_all add: one_entry_def reads_back_def same_entry_def plain_def writable_def is_regular_def is_directory_def entry_at_def parent_path_def, rule exI [of _ False], simp)
  then show ?thesis by simp
qed

end
