(* ===== verification/EditDistance.thy ===== *)
theory EditDistance
  imports Prelude "HOL-Library.Word"
begin

text \<open>
  \<open>edit_distance\<close> of deploy.h: the table of the distances between the prefixes of two strings,
  filled in place with unsigned numbers of 32 bits. Its result is the least number of insertions,
  deletions and replacements of one character that turn one string into the other.
\<close>

section \<open>The program\<close>

type_synonym table = "32 word list list"

definition cell :: "table \<Rightarrow> nat \<Rightarrow> nat \<Rightarrow> 32 word" where
  "cell d i j = d ! i ! j"

definition set_cell :: "nat \<Rightarrow> nat \<Rightarrow> 32 word \<Rightarrow> table \<Rightarrow> table" where
  "set_cell i j v d = d[i := (d ! i)[j := v]]"

definition distance_step :: "string \<Rightarrow> string \<Rightarrow> nat \<Rightarrow> nat \<Rightarrow> table \<Rightarrow> table" where
  "distance_step s1 s2 i j d = set_cell i j
     (min (min (cell d (i - 1) j + 1) (cell d i (j - 1) + 1))
       (cell d (i - 1) (j - 1) + (if s1 ! (i - 1) = s2 ! (j - 1) then 0 else 1))) d"

definition first_table :: "nat \<Rightarrow> nat \<Rightarrow> table" where
  "first_table m n =
     (let d = replicate (m + 1) (replicate (n + 1) 0);
          d = set_cell 0 0 0 d;
          d = fold (\<lambda>i. set_cell i 0 (of_nat i)) [1..<m + 1] d
      in fold (\<lambda>i. set_cell 0 i (of_nat i)) [1..<n + 1] d)"

text \<open>With a length that no unsigned number exceeds the loops do not end.\<close>

definition edit_distance :: "string \<Rightarrow> string \<Rightarrow> 32 word result" where
  "edit_distance s1 s2 =
     (let m = length s1; n = length s2
      in if 2 ^ 32 - 1 \<le> m \<or> 2 ^ 32 - 1 \<le> n then Inl Diverges
         else Inr (cell (fold (\<lambda>i d. fold (distance_step s1 s2 i) [1..<n + 1] d) [1..<m + 1] (first_table m n)) m n))"

section \<open>Edits\<close>

inductive edit :: "string \<Rightarrow> string \<Rightarrow> bool" where
  insert_char: "edit (u @ v) (u @ c # v)"
| delete_char: "edit (u @ c # v) (u @ v)"
| replace_char: "edit (u @ c # v) (u @ e # v)"

text \<open>Alignments of two strings and their costs.\<close>

inductive align :: "string \<Rightarrow> string \<Rightarrow> nat \<Rightarrow> bool" where
  align_Nil: "align [] [] 0"
| align_delete: "align xs ys n \<Longrightarrow> align (x # xs) ys (Suc n)"
| align_insert: "align xs ys n \<Longrightarrow> align xs (y # ys) (Suc n)"
| align_pair: "align xs ys n \<Longrightarrow> align (x # xs) (y # ys) (n + (if x = y then 0 else 1))"

fun lev :: "string \<Rightarrow> string \<Rightarrow> nat" where
  "lev [] ys = length ys"
| "lev xs [] = length xs"
| "lev (x # xs) (y # ys) = min (min (lev xs (y # ys) + 1) (lev (x # xs) ys + 1)) (lev xs ys + (if x = y then 0 else 1))"

lemma lev_Nil [simp]: "lev xs [] = length xs"
  by (cases xs) auto

lemma align_lower: "align xs ys n \<Longrightarrow> lev xs ys \<le> n"
proof (induction rule: align.induct)
  case (align_delete xs ys n x)
  show ?case using align_delete.IH by (cases ys) auto
next
  case (align_insert xs ys n y)
  show ?case using align_insert.IH by (cases xs) auto
qed auto

lemma align_Nil_length: "align [] ys (length ys)" "align ys [] (length ys)"
  by (induction ys) (auto intro: align.intros)

lemma align_lev: "align xs ys (lev xs ys)"
proof (induction xs ys rule: lev.induct)
  case (3 x xs y ys)
  have "align (x # xs) (y # ys) (lev xs (y # ys) + 1)" using align_delete [OF 3(1)] by simp
  moreover have "align (x # xs) (y # ys) (lev (x # xs) ys + 1)" using align_insert [OF 3(2)] by simp
  moreover have "align (x # xs) (y # ys) (lev xs ys + (if x = y then 0 else 1))" by (rule align_pair [OF 3(3)])
  ultimately show ?case unfolding lev.simps min_def by presburger
qed (simp_all add: align_Nil_length align_Nil_length(2) [of "_ # _", simplified])

lemma edit_Cons: "edit a b \<Longrightarrow> edit (x # a) (x # b)"
  by (induction rule: edit.induct) (metis append_Cons edit.intros)+

lemma edits_Cons: "(edit ^^ n) a b \<Longrightarrow> (edit ^^ n) (x # a) (x # b)"
proof (induction n arbitrary: b)
  case (Suc n)
  then show ?case by (auto intro: edit_Cons)
qed simp

lemma align_edits: "align xs ys n \<Longrightarrow> (edit ^^ n) xs ys"
proof (induction rule: align.induct)
  case (align_delete xs ys n x)
  have "edit (x # xs) xs" using delete_char [of "[]" x xs] by simp
  then show ?case using align_delete.IH by (rule relpowp_Suc_I2)
next
  case (align_insert xs ys n y)
  have "edit ys (y # ys)" using insert_char [of "[]" ys y] by simp
  with align_insert.IH show ?case by (rule relpowp_Suc_I)
next
  case (align_pair xs ys n x y)
  have y: "(edit ^^ n) (y # xs) (y # ys)" using align_pair.IH by (rule edits_Cons)
  show ?case
  proof (cases "x = y")
    case False
    have "edit (x # xs) (y # xs)" using replace_char [of "[]" x xs y] by simp
    from relpowp_Suc_I2 [OF this y] False show ?thesis by simp
  qed (use y in simp)
qed simp

text \<open>One edit of the first string changes the cost of the best alignment by at most one.\<close>

lemma align_drop: "align (c # v) z n \<Longrightarrow> \<exists>m\<le>Suc n. align v z m"
proof (induction "c # v" z n rule: align.induct)
  case (align_delete ys n)
  then show ?case by (intro exI [of _ n]) auto
next
  case (align_insert ys n y)
  then obtain m where "m \<le> Suc n" "align v ys m" by blast
  then show ?case by (intro exI [of _ "Suc m"]) (auto intro: align.align_insert)
next
  case (align_pair ys n y)
  then show ?case by (intro exI [of _ "Suc n"]) (auto intro: align.align_insert)
qed

lemma align_replace: "align (c # v) z n \<Longrightarrow> \<exists>m\<le>Suc n. align (e # v) z m"
proof (induction "c # v" z n rule: align.induct)
  case (align_delete ys n)
  then show ?case by (intro exI [of _ "Suc n"]) (auto intro: align.align_delete)
next
  case (align_insert ys n y)
  then obtain m where "m \<le> Suc n" "align (e # v) ys m" by blast
  then show ?case by (intro exI [of _ "Suc m"]) (auto intro: align.align_insert)
next
  case (align_pair ys n y)
  show ?case
    using align.align_pair [OF align_pair(1), of e y] by (intro exI [of _ "n + (if e = y then 0 else 1)"]) auto
qed

lemma align_context:
  assumes "\<And>z n. align a z n \<Longrightarrow> \<exists>m\<le>Suc n. align b z m"
  shows "align (u @ a) z n \<Longrightarrow> \<exists>m\<le>Suc n. align (u @ b) z m"
proof (induction u arbitrary: z n)
  case (Cons x u)
  from Cons.prems show ?case
  proof (induction "(x # u) @ a" z n rule: align.induct)
    case (align_delete xs ys n y)
    then obtain m where "m \<le> Suc n" "align (u @ b) ys m" using Cons.IH [of ys n] by auto
    then show ?case using align_delete by (intro exI [of _ "Suc m"]) (auto intro: align.align_delete)
  next
    case (align_insert ys n y)
    then obtain m where "m \<le> Suc n" "align ((x # u) @ b) ys m" by blast
    then show ?case by (intro exI [of _ "Suc m"]) (auto intro: align.align_insert)
  next
    case (align_pair xs ys n y y')
    then obtain m where "m \<le> Suc n" "align (u @ b) ys m" using Cons.IH [of ys n] by auto
    then show ?case using align_pair align.align_pair [of "u @ b" ys m x y']
      by (intro exI [of _ "m + (if x = y' then 0 else 1)"]) auto
  qed simp
qed (use assms in simp)

lemma align_edit: "edit a b \<Longrightarrow> align b z n \<Longrightarrow> \<exists>m\<le>Suc n. align a z m"
proof (induction rule: edit.induct)
  case (insert_char u v c)
  then show ?case by (intro align_context [of "c # v" v u, OF align_drop])
next
  case (delete_char u c v)
  have "\<exists>m\<le>Suc n. align (c # v) z m" if "align v z n" for z n
    using align_delete [OF that] by blast
  from align_context [of v "c # v", OF this] delete_char show ?case by blast
next
  case (replace_char u c v e)
  then show ?case by (intro align_context [of "e # v" "c # v" u, OF align_replace])
qed

lemma edits_align: "(edit ^^ n) a b \<Longrightarrow> align b z k \<Longrightarrow> \<exists>m\<le>n + k. align a z m"
proof (induction n arbitrary: b k)
  case (Suc n)
  then obtain c where c: "(edit ^^ n) a c" "edit c b" by auto
  obtain m where "m \<le> Suc k" "align c z m" using align_edit [OF c(2) Suc.prems(2)] by blast
  with Suc.IH [OF c(1)] obtain m' where "m' \<le> n + m" "align a z m'" by blast
  with \<open>m \<le> Suc k\<close> show ?case by (intro exI [of _ m']) auto
qed auto

lemma align_self: "align a a 0"
  by (induction a) (auto intro: align.intros(1) align_pair [where n = 0 and x = y and y = y for y, simplified])

lemma lev_least: "(edit ^^ lev a b) a b \<and> (\<forall>m. (edit ^^ m) a b \<longrightarrow> lev a b \<le> m)"
  using align_edits [OF align_lev] edits_align [OF _ align_self] align_lower by fastforce

lemma edit_rev: "edit a b \<Longrightarrow> edit (rev a) (rev b)"
proof (induction rule: edit.induct)
  case (insert_char u v c)
  show ?case using edit.insert_char [of "rev v" "rev u" c] by simp
next
  case (delete_char u c v)
  show ?case using edit.delete_char [of "rev v" c "rev u"] by simp
next
  case (replace_char u c v e)
  show ?case using edit.replace_char [of "rev v" c "rev u" e] by simp
qed

lemma edits_rev: "(edit ^^ n) a b \<Longrightarrow> (edit ^^ n) (rev a) (rev b)"
  by (induction n arbitrary: b) (auto intro: edit_rev)

lemma lev_rev: "lev (rev a) (rev b) = lev a b"
proof (rule antisym)
  show "lev (rev a) (rev b) \<le> lev a b" using lev_least edits_rev by blast
  have "(edit ^^ lev (rev a) (rev b)) a b" using edits_rev [of _ "rev a" "rev b"] lev_least by fastforce
  then show "lev a b \<le> lev (rev a) (rev b)" using lev_least by blast
qed

lemma lev_bound: "lev xs ys \<le> max (length xs) (length ys)"
  by (induction xs ys rule: lev.induct) (auto simp: min_def max_def)

section \<open>The table\<close>

definition prefix_distance :: "string \<Rightarrow> string \<Rightarrow> nat \<Rightarrow> nat \<Rightarrow> nat" where
  "prefix_distance s1 s2 i j = lev (rev (take i s1)) (rev (take j s2))"

lemma prefix_distance_step:
  assumes "0 < i" "i \<le> length s1" "0 < j" "j \<le> length s2"
  shows "prefix_distance s1 s2 i j = min (min (prefix_distance s1 s2 (i - 1) j + 1) (prefix_distance s1 s2 i (j - 1) + 1))
    (prefix_distance s1 s2 (i - 1) (j - 1) + (if s1 ! (i - 1) = s2 ! (j - 1) then 0 else 1))"
proof -
  have "rev (take (Suc k) xs) = xs ! k # rev (take k xs)" if "k < length xs" for k and xs :: string
    using that by (simp add: take_Suc_conv_app_nth)
  from this [of "i - 1" s1] this [of "j - 1" s2] assms show ?thesis by (simp add: prefix_distance_def)
qed

lemma prefix_distance_edge:
  "i \<le> length s1 \<Longrightarrow> prefix_distance s1 s2 i 0 = i" "j \<le> length s2 \<Longrightarrow> prefix_distance s1 s2 0 j = j"
  by (simp_all add: prefix_distance_def)

lemma prefix_distance_small:
  assumes "length s1 < 2 ^ 32 - 1" "length s2 < 2 ^ 32 - 1"
  shows "prefix_distance s1 s2 i j < 2 ^ 32 - 1"
  using lev_bound [of "rev (take i s1)" "rev (take j s2)"] assms
  by (auto simp: prefix_distance_def max_def min_def split: if_splits)

lemma of_nat_min: "a < 2 ^ 32 \<Longrightarrow> b < 2 ^ 32 \<Longrightarrow> min (of_nat a :: 32 word) (of_nat b) = of_nat (min a b)"
  by (auto simp: min_def word_le_nat_alt unsigned_of_nat take_bit_nat_eq_self)

definition dims :: "nat \<Rightarrow> nat \<Rightarrow> table \<Rightarrow> bool" where
  "dims m n d \<longleftrightarrow> length d = Suc m \<and> (\<forall>i\<le>m. length (d ! i) = Suc n)"

lemma dims_set_cell: "dims m n d \<Longrightarrow> i \<le> m \<Longrightarrow> dims m n (set_cell i j v d)"
  by (auto simp: dims_def set_cell_def nth_list_update)

lemma cell_set_cell:
  "dims m n d \<Longrightarrow> i \<le> m \<Longrightarrow> j \<le> n \<Longrightarrow> cell (set_cell i j v d) a b = (if a = i \<and> b = j then v else cell d a b)"
  by (auto simp: dims_def set_cell_def cell_def nth_list_update)

text \<open>The cells of the edges, of the rows before \<open>i\<close> and of the row \<open>i\<close> before \<open>j\<close> are right.\<close>

definition filled :: "string \<Rightarrow> string \<Rightarrow> nat \<Rightarrow> nat \<Rightarrow> table \<Rightarrow> bool" where
  "filled s1 s2 i j d \<longleftrightarrow> dims (length s1) (length s2) d
     \<and> (\<forall>a\<le>length s1. \<forall>b\<le>length s2. a = 0 \<or> b = 0 \<or> a < i \<or> a = i \<and> b < j \<longrightarrow> cell d a b = of_nat (prefix_distance s1 s2 a b))"

lemma filled_step:
  assumes small: "length s1 < 2 ^ 32 - 1" "length s2 < 2 ^ 32 - 1"
    and f: "filled s1 s2 i j d" and i: "0 < i" "i \<le> length s1" and j: "0 < j" "j \<le> length s2"
  shows "filled s1 s2 i (Suc j) (distance_step s1 s2 i j d)"
proof -
  let ?p = "prefix_distance s1 s2"
  have d: "dims (length s1) (length s2) d" using f by (simp add: filled_def)
  have c: "cell d (i - 1) j = of_nat (?p (i - 1) j)" "cell d i (j - 1) = of_nat (?p i (j - 1))"
    "cell d (i - 1) (j - 1) = of_nat (?p (i - 1) (j - 1))"
    using f i j by (auto simp: filled_def)
  define P Q R where "P = ?p (i - 1) j + 1" and "Q = ?p i (j - 1) + 1"
    and "R = ?p (i - 1) (j - 1) + (if s1 ! (i - 1) = s2 ! (j - 1) then 0 else 1)"
  have lt: "P < 2 ^ 32" "Q < 2 ^ 32" "R < 2 ^ 32"
    using prefix_distance_small [OF small, of "i - 1" j] prefix_distance_small [OF small, of i "j - 1"]
      prefix_distance_small [OF small, of "i - 1" "j - 1"] by (auto simp: P_def Q_def R_def)
  have "min (min (of_nat P) (of_nat Q)) (of_nat R) = (of_nat (min (min P Q) R) :: 32 word)"
    using of_nat_min [OF lt(1,2)] of_nat_min [of "min P Q" R] lt by simp
  moreover have "?p i j = min (min P Q) R" unfolding P_def Q_def R_def by (rule prefix_distance_step [OF i j])
  moreover have "of_nat P = cell d (i - 1) j + 1" "of_nat Q = cell d i (j - 1) + 1"
    "of_nat R = cell d (i - 1) (j - 1) + (if s1 ! (i - 1) = s2 ! (j - 1) then 0 else 1)"
    unfolding c P_def Q_def R_def by simp_all
  ultimately have "distance_step s1 s2 i j d = set_cell i j (of_nat (?p i j)) d" by (simp add: distance_step_def)
  moreover have "cell (set_cell i j (of_nat (?p i j)) d) a b = of_nat (?p a b)"
    if "a \<le> length s1" "b \<le> length s2" "a = 0 \<or> b = 0 \<or> a < i \<or> a = i \<and> b < Suc j" for a b
  proof (cases "a = i \<and> b = j")
    case False
    then have "a = 0 \<or> b = 0 \<or> a < i \<or> a = i \<and> b < j" using that(3) by auto
    then have "cell d a b = of_nat (?p a b)" using f that(1,2) unfolding filled_def by blast
    with False d i j show ?thesis by (simp add: cell_set_cell)
  qed (use d i j in \<open>simp add: cell_set_cell\<close>)
  ultimately show ?thesis using dims_set_cell [OF d i(2)] unfolding filled_def by simp
qed

lemma fold_upt_Suc: "fold f [1..<Suc (Suc k)] d = f (Suc k) (fold f [1..<Suc k] d)"
  by simp

lemma filled_next_row: "filled s1 s2 i (Suc (length s2)) d \<Longrightarrow> filled s1 s2 (Suc i) 1 d"
proof -
  assume f: "filled s1 s2 i (Suc (length s2)) d"
  have "cell d a b = of_nat (prefix_distance s1 s2 a b)"
    if "a \<le> length s1" "b \<le> length s2" "a = 0 \<or> b = 0 \<or> a < Suc i \<or> a = Suc i \<and> b < 1" for a b
  proof -
    have "a = 0 \<or> b = 0 \<or> a < i \<or> a = i \<and> b < Suc (length s2)" using that by auto
    with f that(1,2) show ?thesis unfolding filled_def by blast
  qed
  with f show ?thesis unfolding filled_def by blast
qed

lemma filled_row:
  assumes "length s1 < 2 ^ 32 - 1" "length s2 < 2 ^ 32 - 1" "filled s1 s2 i 1 d" "0 < i" "i \<le> length s1" "k \<le> length s2"
  shows "filled s1 s2 i (Suc k) (fold (distance_step s1 s2 i) [1..<Suc k] d)"
  using assms(6)
proof (induction k)
  case (Suc k)
  have "filled s1 s2 i (Suc (Suc k)) (distance_step s1 s2 i (Suc k) (fold (distance_step s1 s2 i) [1..<Suc k] d))"
    using Suc by (intro filled_step [OF assms(1,2) _ assms(4,5)]) (auto simp del: upt_Suc)
  then show ?case unfolding fold_upt_Suc .
qed (use assms(3) in simp)

lemma filled_rows:
  assumes "length s1 < 2 ^ 32 - 1" "length s2 < 2 ^ 32 - 1" "filled s1 s2 1 1 d" "k \<le> length s1"
  shows "filled s1 s2 (Suc k) 1 (fold (\<lambda>i d. fold (distance_step s1 s2 i) [1..<length s2 + 1] d) [1..<Suc k] d)"
  using assms(4)
proof (induction k)
  case (Suc k)
  let ?d = "fold (\<lambda>i d. fold (distance_step s1 s2 i) [1..<length s2 + 1] d) [1..<Suc k] d"
  have "filled s1 s2 (Suc k) (Suc (length s2)) (fold (distance_step s1 s2 (Suc k)) [1..<Suc (length s2)] ?d)"
    using Suc by (intro filled_row [OF assms(1,2)]) (auto simp del: upt_Suc)
  from filled_next_row [OF this] show ?case unfolding fold_upt_Suc by simp
qed (use assms(3) in simp)

lemma column_edge:
  assumes "dims m n d" "k \<le> m"
  shows "dims m n (fold (\<lambda>i. set_cell i 0 (of_nat i)) [1..<Suc k] d)
    \<and> (\<forall>a b. cell (fold (\<lambda>i. set_cell i 0 (of_nat i)) [1..<Suc k] d) a b = (if b = 0 \<and> 0 < a \<and> a \<le> k then of_nat a else cell d a b))"
  using assms(2) by (induction k) (use assms(1) in \<open>auto simp: dims_set_cell cell_set_cell le_Suc_eq\<close>)

lemma row_edge:
  assumes "dims m n d" "k \<le> n"
  shows "dims m n (fold (\<lambda>i. set_cell 0 i (of_nat i)) [1..<Suc k] d)
    \<and> (\<forall>a b. cell (fold (\<lambda>i. set_cell 0 i (of_nat i)) [1..<Suc k] d) a b = (if a = 0 \<and> 0 < b \<and> b \<le> k then of_nat b else cell d a b))"
  using assms(2) by (induction k) (use assms(1) in \<open>auto simp: dims_set_cell cell_set_cell le_Suc_eq\<close>)

lemma filled_first: "filled s1 s2 1 1 (first_table (length s1) (length s2))"
proof -
  let ?m = "length s1" and ?n = "length s2"
  let ?d = "set_cell 0 0 0 (replicate (?m + 1) (replicate (?n + 1) 0))"
  have "dims ?m ?n (replicate (?m + 1) (replicate (?n + 1) 0))" by (simp add: dims_def nth_Cons' del: replicate_Suc)
  then have d: "dims ?m ?n ?d" "cell ?d 0 0 = 0" by (simp_all add: dims_set_cell cell_set_cell del: replicate_Suc)
  note c = column_edge [OF d(1) order.refl]
  note r = row_edge [OF conjunct1 [OF c] order.refl]
  have "cell (first_table ?m ?n) a 0 = of_nat a" if "a \<le> ?m" for a
    using c r d(2) that by (cases a) (simp_all add: first_table_def Let_def del: replicate_Suc upt_Suc)
  moreover have "cell (first_table ?m ?n) 0 b = of_nat b" if "b \<le> ?n" for b
    using c r d(2) that by (cases b) (simp_all add: first_table_def Let_def del: replicate_Suc upt_Suc)
  ultimately show ?thesis
    using r by (auto simp: filled_def prefix_distance_edge first_table_def Let_def simp del: replicate_Suc upt_Suc)
qed

text \<open>
  C26: The result is the edit distance: the first string is turned into the second by so many
  insertions, deletions and replacements of one character, and by no fewer. Strings whose length
  is the greatest unsigned number or more make the loops endless.
\<close>

theorem edit_distance_least:
  "if length s1 < 2 ^ 32 - 1 \<and> length s2 < 2 ^ 32 - 1 then
       (\<exists>n. edit_distance s1 s2 = Inr (of_nat n) \<and> n < 2 ^ 32 \<and> (edit ^^ n) s1 s2 \<and> (\<forall>m. (edit ^^ m) s1 s2 \<longrightarrow> n \<le> m))
   else edit_distance s1 s2 = Inl Diverges"
proof (cases "length s1 < 2 ^ 32 - 1 \<and> length s2 < 2 ^ 32 - 1")
  case True
  let ?d = "fold (\<lambda>i d. fold (distance_step s1 s2 i) [1..<length s2 + 1] d) [1..<Suc (length s1)] (first_table (length s1) (length s2))"
  have "filled s1 s2 (Suc (length s1)) 1 ?d" using True by (intro filled_rows filled_first) auto
  then have "cell ?d (length s1) (length s2) = of_nat (prefix_distance s1 s2 (length s1) (length s2))" by (simp add: filled_def)
  then have "edit_distance s1 s2 = Inr (of_nat (lev s1 s2))"
    using True by (simp add: edit_distance_def Let_def prefix_distance_def lev_rev)
  moreover have "lev s1 s2 < 2 ^ 32" using lev_bound [of s1 s2] True by (auto simp: max_def split: if_splits)
  ultimately show ?thesis using lev_least [of s1 s2] True by auto
next
  case False
  then show ?thesis by (auto simp: edit_distance_def Let_def not_less)
qed

lemma edit_distance_least_witness:
  "\<exists>n. edit_distance ''kitten'' ''sitting'' = Inr (of_nat n) \<and> n < 2 ^ 32 \<and> (edit ^^ n) ''kitten'' ''sitting''"
proof -
  have "if length ''kitten'' < 2 ^ 32 - 1 \<and> length ''sitting'' < 2 ^ 32 - 1 then
       (\<exists>n. edit_distance ''kitten'' ''sitting'' = Inr (of_nat n) \<and> n < 2 ^ 32 \<and> (edit ^^ n) ''kitten'' ''sitting''
          \<and> (\<forall>m. (edit ^^ m) ''kitten'' ''sitting'' \<longrightarrow> n \<le> m))
     else edit_distance ''kitten'' ''sitting'' = Inl Diverges" by (rule edit_distance_least)
  then show ?thesis by auto
qed

end
