(* ===== verification/RemoteUser.thy ===== *)
theory RemoteUser
  imports Effects
begin

text \<open>
  The users of remote servers of deploy.h: finding out what a user may do, and the ssh commands
  that run a program as the user, with sudo, or as another user. The address of the server and the
  key are parameters, as are the answers of the server.
\<close>

section \<open>Connections\<close>

record ssh_options =
  pseudo_tty :: bool
  force_pseudo_tty :: bool
  password_auth_no :: bool

definition default_ssh_options :: ssh_options where
  "default_ssh_options = \<lparr>pseudo_tty = False, force_pseudo_tty = False, password_auth_no = True\<rparr>"

record server =
  server_port :: "string option"
  key_file :: string
  server_ip :: string

definition connection_args :: "server \<Rightarrow> ssh_options \<Rightarrow> string list" where
  "connection_args s opts =
     [''ssh'']
     @ (if pseudo_tty opts then ''-t'' # (if force_pseudo_tty opts then [''-t''] else []) else [])
     @ [''-o'', ''StrictHostKeyChecking=accept-new'', ''-o'', ''ConnectionAttempts=10'',
        ''-o'', ''ServerAliveInterval=60'', ''-o'', ''ServerAliveCountMax=999'']
     @ (if password_auth_no opts then [''-o'', ''PasswordAuthentication=no''] else [])
     @ (case server_port s of Some p \<Rightarrow> [''-p'', p] | None \<Rightarrow> [])
     @ [''-i'', key_file s]"

definition connection_string :: "server \<Rightarrow> ssh_options \<Rightarrow> string" where
  "connection_string s opts = join '' '' (connection_args s opts)"

definition server_string :: "server \<Rightarrow> string \<Rightarrow> string" where
  "server_string s username = username @ ''@'' @ server_ip s"

section \<open>Users\<close>

text \<open>Of the user that \<open>main_user\<close> points to, the name and the password are used.\<close>

record account =
  account_name :: string
  account_password :: string

record user = account +
  ssh_access :: bool
  can_sudo :: bool
  sudo_nopasswd :: bool
  force_sudo_with_pass :: bool
  sudo_mode :: bool
  main_user :: "account option"
  custom_options :: "ssh_options option"
  cwd :: string

definition is_root :: "user \<Rightarrow> bool" where
  "is_root u \<longleftrightarrow> account_name u = ''root''"

definition sudo_mode_with_password :: "user \<Rightarrow> bool" where
  "sudo_mode_with_password u =
     (if force_sudo_with_pass u then True
      else if sudo_nopasswd u then False
      else is_root u \<or> (case main_user u of Some m \<Rightarrow> account_name u \<noteq> account_name m | None \<Rightarrow> False))"

definition login_account :: "user \<Rightarrow> account" where
  "login_account u = (case main_user u of Some m \<Rightarrow> m | None \<Rightarrow> account.truncate u)"

text \<open>A command with its standard input; \<open>script\<close> is what is written to the server before.\<close>

record remote_command =
  command_words :: "string list"
  stdin_text :: string
  run_script :: "string option"

definition script_file :: string where
  "script_file = ''/tmp/run.sh''"

definition quoted_arg :: "string \<Rightarrow> string" where
  "quoted_arg a = [CHR 0x22] @ a @ [CHR 0x22] @ '' ''"

definition script_text :: "string \<Rightarrow> string list \<Rightarrow> string" where
  "script_text dir args =
     ''#!/bin/bash'' @ [NL] @ ''cd '' @ [CHR 0x22] @ dir @ [CHR 0x22] @ '' && '' @ concat (map quoted_arg args)"

definition command_options :: "user \<Rightarrow> ssh_options" where
  "command_options u = (case custom_options u of
     Some opts \<Rightarrow> opts
   | None \<Rightarrow>
       let no = \<not> sudo_mode u \<or> \<not> sudo_mode_with_password u
       in \<lparr>pseudo_tty = no, force_pseudo_tty = no, password_auth_no = no\<rparr>)"

definition sudo_prefix :: "user \<Rightarrow> string list" where
  "sudo_prefix u =
     (if sudo_mode u \<and> \<not> is_root u then
        (case main_user u of Some _ \<Rightarrow> [''sudo'', ''-u'', account_name u] | None \<Rightarrow> [''sudo''])
        @ (if sudo_mode_with_password u then [''-S''] else [])
      else [])"

definition create_command :: "server \<Rightarrow> user \<Rightarrow> string list \<Rightarrow> remote_command result" where
  "create_command s u args =
     (let c = \<lparr>command_words = connection_args s (command_options u)
                 @ [server_string s (account_name (login_account u)), ''--''] @ sudo_prefix u
                 @ (if cwd u = [] then args else [script_file]),
              stdin_text = [], run_script = (if cwd u = [] then None else Some (script_text (cwd u) args))\<rparr>
      in if sudo_mode u \<and> sudo_mode_with_password u then
           if account_password (login_account u) = [] then Inl (Runtime_error ''password is required for sudo command'')
           else Inr (c\<lparr>stdin_text := account_password (login_account u)\<rparr>)
         else Inr c)"

text \<open>\<open>run\<close> is \<open>run_command_raw\<close>: the exit code and the error output.\<close>

definition command_raw :: "(remote_command \<Rightarrow> ('w, int \<times> string) io) \<Rightarrow> server \<Rightarrow> user \<Rightarrow> string list \<Rightarrow> ('w, int \<times> string) io" where
  "command_raw run s u args = io_bind (lift_result (create_command s u args)) run"

text \<open>The second half of \<open>init\<close>, in which the options are set for a moment.\<close>

definition probe_sudo :: "(remote_command \<Rightarrow> ('w, int \<times> string) io) \<Rightarrow> server \<Rightarrow> user \<Rightarrow> ('w, user) io" where
  "probe_sudo run s u =
     io_bind (command_raw run s u [''sudo'', ''-v'']) (\<lambda>(code, err).
       let u = u\<lparr>can_sudo := code = 0\<rparr>
       in if \<not> can_sudo u \<and> account_password u \<noteq> [] then
            io_bind (command_raw run s (u\<lparr>sudo_mode := True, force_sudo_with_pass := True\<rparr>) [''sudo'', ''-v'']) (\<lambda>(code, err).
              io_return (u\<lparr>can_sudo := code = 0, force_sudo_with_pass := code = 0 \<or> force_sudo_with_pass u\<rparr>))
          else if can_sudo u then
            io_bind (command_raw run s u [''sudo'', ''test'', ''0'']) (\<lambda>(code, err).
              let u = u\<lparr>sudo_nopasswd := code = 0\<rparr>
              in if \<not> sudo_nopasswd u \<and> str_find ''sudo: a password is required'' err \<noteq> None then
                   io_throw (Runtime_error (''user '' @ account_name u @ '' cannot sudo. missing password?''))
                 else io_return u)
          else io_return u)"

definition init_user :: "(remote_command \<Rightarrow> ('w, int \<times> string) io) \<Rightarrow> server \<Rightarrow> user \<Rightarrow> ('w, user) io" where
  "init_user run s u =
     (if ssh_access u then io_return u
      else io_bind (command_raw run s u [''test'', ''0'']) (\<lambda>(code, err).
        let u = u\<lparr>ssh_access := code = 0\<rparr>
        in if \<not> ssh_access u then io_return u
           else io_bind (probe_sudo run s (u\<lparr>custom_options := Some default_ssh_options\<rparr>))
             (\<lambda>v. io_return (v\<lparr>custom_options := custom_options u\<rparr>))))"

definition fresh_user :: "string \<Rightarrow> string \<Rightarrow> user" where
  "fresh_user name password =
     \<lparr>account_name = name, account_password = password, ssh_access = False, can_sudo = False, sudo_nopasswd = False,
      force_sudo_with_pass = False, sudo_mode = False, main_user = None, custom_options = None, cwd = []\<rparr>"

definition new_user :: "(remote_command \<Rightarrow> ('w, int \<times> string) io) \<Rightarrow> server \<Rightarrow> string \<Rightarrow> string \<Rightarrow> ('w, user) io" where
  "new_user run s name password = init_user run s (fresh_user name password)"

definition cannot_sudo :: "user \<Rightarrow> cpp_error" where
  "cannot_sudo u = Runtime_error (''user '' @ account_name u @ '' cannot sudo'')"

definition sudo :: "user \<Rightarrow> user result" where
  "sudo u = (if can_sudo u then Inr (u\<lparr>sudo_mode := True\<rparr>) else Inl (cannot_sudo u))"

definition login_with_sudo :: "string \<Rightarrow> user \<Rightarrow> user result" where
  "login_with_sudo name u =
     (if can_sudo u then
        Inr (u\<lparr>account_name := name, account_password := [], sudo_mode := True, main_user := Some (account.truncate u)\<rparr>)
      else Inl (cannot_sudo u))"

section \<open>What a user may do\<close>

text \<open>
  The answers of a server to the probes of one user: whether the user can log in, and the rule of
  sudo. A password is read from the standard input when sudo is called with \<open>-S\<close>.
\<close>

datatype sudo_rule = No_sudo | Free_sudo | Password_sudo string

fun sudo_allows :: "sudo_rule \<Rightarrow> string \<Rightarrow> bool" where
  "sudo_allows No_sudo p = False"
| "sudo_allows Free_sudo p = True"
| "sudo_allows (Password_sudo q) p = (p = q)"

definition answers :: "server \<Rightarrow> string \<Rightarrow> bool \<Rightarrow> sudo_rule \<Rightarrow> (remote_command \<Rightarrow> ('w, int \<times> string) io) \<Rightarrow> bool" where
  "answers s name login rule run \<longleftrightarrow> (\<forall>opts w p.
     (\<exists>err. run \<lparr>command_words = connection_args s opts @ [server_string s name, ''--'', ''test'', ''0''], stdin_text = [], run_script = None\<rparr> w
       = (Inr (if login then 0 else 255, err), w))
     \<and> (\<exists>err. run \<lparr>command_words = connection_args s opts @ [server_string s name, ''--'', ''sudo'', ''-v''], stdin_text = [], run_script = None\<rparr> w
       = (Inr (if rule = Free_sudo then 0 else 1, err), w))
     \<and> (\<exists>err. run \<lparr>command_words = connection_args s opts @ [server_string s name, ''--'', ''sudo'', ''test'', ''0''], stdin_text = [], run_script = None\<rparr> w
       = (Inr (if rule = Free_sudo then 0 else 1, err), w))
     \<and> (\<exists>err. run \<lparr>command_words = connection_args s opts @ [server_string s name, ''--'', ''sudo'', ''-S'', ''sudo'', ''-v''], stdin_text = p, run_script = None\<rparr> w
       = (Inr (if sudo_allows rule p then 0 else 1, err), w)))"

lemma command_raw_plain:
  assumes "\<not> sudo_mode u" "main_user u = None" "cwd u = []"
  shows "command_raw run s u args = run \<lparr>command_words = connection_args s (command_options u)
    @ [server_string s (account_name u), ''--''] @ args, stdin_text = [], run_script = None\<rparr>"
  using assms by (simp add: command_raw_def create_command_def Let_def sudo_prefix_def login_account_def account.defs
      io_bind_def lift_result_def fun_eq_iff)

lemma command_raw_password:
  assumes "sudo_mode u" "force_sudo_with_pass u" "main_user u = None" "cwd u = []" "\<not> is_root u" "account_password u \<noteq> []"
  shows "command_raw run s u args = run \<lparr>command_words = connection_args s (command_options u)
    @ [server_string s (account_name u), ''--'', ''sudo'', ''-S''] @ args, stdin_text = account_password u, run_script = None\<rparr>"
  using assms by (simp add: command_raw_def create_command_def Let_def sudo_prefix_def sudo_mode_with_password_def login_account_def
      account.defs io_bind_def lift_result_def fun_eq_iff)

text \<open>What the constructor finds out about a user who is not root.\<close>

definition known_user :: "string \<Rightarrow> string \<Rightarrow> bool \<Rightarrow> sudo_rule \<Rightarrow> user" where
  "known_user name pw login rule = (fresh_user name pw)
     \<lparr>ssh_access := login,
      can_sudo := login \<and> (rule = Free_sudo \<or> pw \<noteq> [] \<and> sudo_allows rule pw),
      sudo_nopasswd := login \<and> rule = Free_sudo,
      force_sudo_with_pass := login \<and> rule \<noteq> Free_sudo \<and> pw \<noteq> [] \<and> sudo_allows rule pw\<rparr>"

lemma probe_result:
  assumes a: "answers s name True rule run" and root: "name \<noteq> ''root''"
    and u: "u = (fresh_user name pw)\<lparr>ssh_access := True, custom_options := Some opts\<rparr>"
  shows "probe_sudo run s u w = (Inr ((known_user name pw True rule)\<lparr>custom_options := Some opts\<rparr>), w)"
proof -
  have o: "command_options u = opts" "\<And>v. command_options (u\<lparr>can_sudo := v\<rparr>) = opts"
    "\<And>v. command_options (u\<lparr>can_sudo := v, sudo_mode := True, force_sudo_with_pass := True\<rparr>) = opts"
    by (simp_all add: u command_options_def)
  have p: "\<not> sudo_mode u" "main_user u = None" "cwd u = []" "account_name u = name" "account_password u = pw"
    by (simp_all add: u fresh_user_def)
  obtain e1 where 1: "command_raw run s u [''sudo'', ''-v''] w = (Inr (if rule = Free_sudo then 0 else 1, e1), w)"
    using a p by (fastforce simp: command_raw_plain o answers_def)
  obtain e2 where 2: "pw \<noteq> [] \<Longrightarrow> command_raw run s (u\<lparr>can_sudo := False, sudo_mode := True, force_sudo_with_pass := True\<rparr>) [''sudo'', ''-v''] w
      = (Inr (if sudo_allows rule pw then 0 else 1, e2), w)"
    using a p root by (fastforce simp: command_raw_password is_root_def o answers_def)
  obtain e3 where 3: "command_raw run s (u\<lparr>can_sudo := True\<rparr>) [''sudo'', ''test'', ''0''] w = (Inr (if rule = Free_sudo then 0 else 1, e3), w)"
    using a p by (fastforce simp: command_raw_plain o answers_def)
  show ?thesis
    using 1 2 3 p by (auto simp: probe_sudo_def io_bind_def Let_def known_user_def u fresh_user_def)
qed

lemma new_user_known:
  assumes "answers s name login rule run" "name \<noteq> ''root''"
  shows "new_user run s name pw w = (Inr (known_user name pw login rule), w)"
proof -
  let ?u = "fresh_user name pw"
  have p: "\<not> sudo_mode ?u" "main_user ?u = None" "cwd ?u = []" "account_name ?u = name" "\<not> ssh_access ?u"
    by (simp_all add: fresh_user_def)
  obtain e where "command_raw run s ?u [''test'', ''0''] w = (Inr (if login then 0 else 255, e), w)"
    using assms(1) p by (fastforce simp: command_raw_plain answers_def)
  moreover have "login \<Longrightarrow> probe_sudo run s (?u\<lparr>ssh_access := True, custom_options := Some default_ssh_options\<rparr>) w
      = (Inr ((known_user name pw True rule)\<lparr>custom_options := Some default_ssh_options\<rparr>), w)"
    using assms by (intro probe_result) auto
  ultimately show ?thesis
    using p(5) by (cases login) (simp_all add: new_user_def init_user_def io_bind_def known_user_def fresh_user_def)
qed

text \<open>
  Constructing a user who is not root, on a server whose rule of sudo is free, refuses, or asks
  for a password. The user can use sudo exactly if the rule is free or the given password is the
  right one; the commands of \<open>sudo()\<close> and of a login as another user who is not root then call sudo,
  and the password is sent, to a sudo that reads it, exactly if the rule asks for it. Commands
  without sudo get no password.
\<close>

theorem sudo_commands:
  assumes "answers s name login rule run" "name \<noteq> ''root''" "other \<noteq> ''root''"
  shows "\<exists>u. new_user run s name pw w = (Inr u, w)
    \<and> (can_sudo u \<longleftrightarrow> login \<and> (rule = Free_sudo \<or> pw \<noteq> [] \<and> rule = Password_sudo pw))
    \<and> (\<exists>opts. create_command s u args = Inr \<lparr>command_words = connection_args s opts @ [server_string s name, ''--''] @ args,
          stdin_text = [], run_script = None\<rparr>)
    \<and> (\<forall>v prefix. can_sudo u \<and> (sudo u = Inr v \<and> prefix = [''sudo''] \<or> login_with_sudo other u = Inr v \<and> other \<noteq> name \<and> prefix = [''sudo'', ''-u'', other]) \<longrightarrow>
         (\<exists>opts. create_command s v args = Inr
           \<lparr>command_words = connection_args s opts @ [server_string s name, ''--''] @ prefix @ (if rule = Free_sudo then [] else [''-S'']) @ args,
            stdin_text = (if rule = Free_sudo then [] else pw), run_script = None\<rparr>))"
proof (intro exI [of _ "known_user name pw login rule"] conjI allI impI)
  let ?u = "known_user name pw login rule"
  show "new_user run s name pw w = (Inr ?u, w)" using assms(1,2) by (rule new_user_known)
  show can: "can_sudo ?u \<longleftrightarrow> login \<and> (rule = Free_sudo \<or> pw \<noteq> [] \<and> rule = Password_sudo pw)"
    by (cases rule) (auto simp: known_user_def)
  show "\<exists>opts. create_command s ?u args = Inr \<lparr>command_words = connection_args s opts @ [server_string s name, ''--''] @ args,
      stdin_text = [], run_script = None\<rparr>"
    by (intro exI [of _ "command_options ?u"])
      (simp add: create_command_def Let_def sudo_prefix_def login_account_def known_user_def fresh_user_def account.defs)
  fix v prefix
  assume v: "can_sudo ?u \<and> (sudo ?u = Inr v \<and> prefix = [''sudo''] \<or> login_with_sudo other ?u = Inr v \<and> other \<noteq> name \<and> prefix = [''sudo'', ''-u'', other])"
  then have "sudo_mode v" "\<not> is_root v" "cwd v = []" "sudo_mode_with_password v \<longleftrightarrow> rule \<noteq> Free_sudo"
    "account_name (login_account v) = name" "account_password (login_account v) = pw" "rule \<noteq> Free_sudo \<longrightarrow> pw \<noteq> []"
    "sudo_prefix v = prefix @ (if rule = Free_sudo then [] else [''-S''])"
    using can assms(2,3)
    by (auto simp: sudo_def login_with_sudo_def known_user_def fresh_user_def is_root_def sudo_mode_with_password_def
        login_account_def account.defs sudo_prefix_def split: if_splits)
  then show "\<exists>opts. create_command s v args = Inr
      \<lparr>command_words = connection_args s opts @ [server_string s name, ''--''] @ prefix @ (if rule = Free_sudo then [] else [''-S'']) @ args,
       stdin_text = (if rule = Free_sudo then [] else pw), run_script = None\<rparr>"
    by (auto simp: create_command_def Let_def)
qed

text \<open>
  A login as root calls no sudo: the command runs as the user who logs in, and the password, if the
  rule asks for one, is the input of the command itself.
\<close>

lemma root_login_without_sudo:
  assumes "login_with_sudo ''root'' u = Inr v" "cwd u = []"
  shows "create_command s v args = (if sudo_mode_with_password v \<and> account_password u = [] then Inl (Runtime_error ''password is required for sudo command'')
    else Inr \<lparr>command_words = connection_args s (command_options v) @ [server_string s (account_name u), ''--''] @ args,
      stdin_text = (if sudo_mode_with_password v then account_password u else []), run_script = None\<rparr>)"
  using assms by (auto simp: login_with_sudo_def create_command_def Let_def sudo_prefix_def is_root_def login_account_def account.defs split: if_splits)

text \<open>The arguments of a script are put between quotation marks as they are.\<close>

lemma script_not_escaped: "script_text ''/'' [[CHR 0x22] @ ''; reboot; '' @ [CHR 0x22]]
  = ''#!/bin/bash'' @ [NL] @ ''cd '' @ [CHR 0x22] @ ''/'' @ [CHR 0x22] @ '' && '' @ [CHR 0x22, CHR 0x22] @ ''; reboot; '' @ [CHR 0x22, CHR 0x22] @ '' ''"
  by (simp add: script_text_def quoted_arg_def)

text \<open>A server with the assumed answers.\<close>

definition test_server :: server where
  "test_server = \<lparr>server_port = Some ''22'', key_file = ''id_rsa'', server_ip = ''10.0.0.1''\<rparr>"

definition test_run :: "sudo_rule \<Rightarrow> remote_command \<Rightarrow> (unit, int \<times> string) io" where
  "test_run rule c w =
     (let cmd = tl (dropWhile (\<lambda>x. x \<noteq> ''--'') (command_words c));
          ok = (if cmd = [''test'', ''0''] then True
                else if cmd = [''sudo'', ''-S'', ''sudo'', ''-v''] then sudo_allows rule (stdin_text c)
                else rule = Free_sudo)
      in (Inr (if ok then 0 else 1, []), w))"

lemma test_answers: "answers test_server ''me'' True rule (test_run rule)"
proof -
  have n: "\<forall>x\<in>set (connection_args test_server opts). x \<noteq> ''--''" for opts
    by (auto simp: connection_args_def test_server_def)
  have d: "tl (dropWhile (\<lambda>x. x \<noteq> ''--'') (connection_args test_server opts @ [server_string test_server ''me'', ''--''] @ cmd)) = cmd" for opts cmd
    using n [of opts] by (simp add: dropWhile_append2 server_string_def test_server_def)
  show ?thesis
    unfolding answers_def test_run_def Let_def remote_command.simps
    using d [of _ "[''test'', ''0'']"] d [of _ "[''sudo'', ''-v'']"] d [of _ "[''sudo'', ''test'', ''0'']"] d [of _ "[''sudo'', ''-S'', ''sudo'', ''-v'']"]
    by simp
qed

lemma sudo_commands_witness:
  "\<exists>u v opts. new_user (test_run (Password_sudo ''pw'')) test_server ''me'' ''pw'' () = (Inr u, ()) \<and> login_with_sudo ''you'' u = Inr v
    \<and> create_command test_server v [''ls''] = Inr
        \<lparr>command_words = connection_args test_server opts @ [''me@10.0.0.1'', ''--'', ''sudo'', ''-u'', ''you'', ''-S'', ''ls''],
         stdin_text = ''pw'', run_script = None\<rparr>"
proof -
  obtain u where u: "new_user (test_run (Password_sudo ''pw'')) test_server ''me'' ''pw'' () = (Inr u, ())" "can_sudo u"
    "\<forall>v prefix. can_sudo u \<and> (sudo u = Inr v \<and> prefix = [''sudo''] \<or> login_with_sudo ''you'' u = Inr v \<and> ''you'' \<noteq> ''me'' \<and> prefix = [''sudo'', ''-u'', ''you'']) \<longrightarrow>
         (\<exists>opts. create_command test_server v [''ls''] = Inr
           \<lparr>command_words = connection_args test_server opts @ [server_string test_server ''me'', ''--''] @ prefix @ [''-S''] @ [''ls''],
            stdin_text = ''pw'', run_script = None\<rparr>)"
    using sudo_commands [OF test_answers [of "Password_sudo ''pw''"], of "''you''" "''pw''" "()" "[''ls'']"] by auto
  obtain v where v: "login_with_sudo ''you'' u = Inr v" using u(2) by (simp add: login_with_sudo_def)
  with u(2,3) have "\<exists>opts. create_command test_server v [''ls''] = Inr
      \<lparr>command_words = connection_args test_server opts @ [server_string test_server ''me'', ''--''] @ [''sudo'', ''-u'', ''you''] @ [''-S''] @ [''ls''],
       stdin_text = ''pw'', run_script = None\<rparr>" by blast
  with u(1) v show ?thesis by (simp add: server_string_def test_server_def)
qed

end
