(* ===== verification/SettingPath.thy ===== *)
theory SettingPath
  imports Prelude
begin

text \<open>
  The paths of settings (\<open>settings.cpp\<close>): printing a path with its parts quoted where needed,
  and parsing one with the scanner of \<open>path.ll\<close> and the grammar of \<open>path.yy\<close>. The message of a
  syntax error, which the generated parser composes, is a parameter.

  \<^item> printing and parsing are inverse on parts that are bare words, or that contain no quotation
    mark, no backslash and no zero byte;
  \<^item> a printed part with one of these, or an empty part, is read back differently or not at all;
  \<^item> the scanner and the parser agree with the cases of the repository's test.
\<close>

section \<open>Characters\<close>

definition is_cntrl :: "char \<Rightarrow> bool" where
  "is_cntrl c \<longleftrightarrow> (of_char c :: nat) < 32 \<or> (of_char c :: nat) = 127"

definition is_blank :: "char \<Rightarrow> bool" where
  "is_blank c \<longleftrightarrow> c = CHR '' '' \<or> (of_char c :: nat) = 9"

definition is_xdigit :: "char \<Rightarrow> bool" where
  "is_xdigit c \<longleftrightarrow> is_digit c
     \<or> (65 \<le> (of_char c :: nat) \<and> (of_char c :: nat) \<le> 70)
     \<or> (97 \<le> (of_char c :: nat) \<and> (of_char c :: nat) \<le> 102)"

definition bare_char :: "char \<Rightarrow> bool" where
  "bare_char c \<longleftrightarrow> is_alnum c \<or> c = CHR ''_'' \<or> c = CHR ''-''"

definition quote_char :: char where "quote_char = CHR 0x22"
definition apostrophe :: char where "apostrophe = CHR 0x27"
definition backslash :: char where "backslash = CHR 0x5C"

lemma special_codes [char_simps]:
  "of_char quote_char = (34 :: nat)" "of_char apostrophe = (39 :: nat)" "of_char backslash = (92 :: nat)"
  "of_char (CHR ''.'') = (46 :: nat)" "of_char (CHR ''_'') = (95 :: nat)" "of_char (CHR ''-'') = (45 :: nat)"
  "of_char (CHR '' '') = (32 :: nat)"
  by (simp_all add: quote_char_def apostrophe_def backslash_def)

lemma bare_char_codes: "bare_char c \<longleftrightarrow> is_alnum c \<or> (of_char c :: nat) = 95 \<or> (of_char c :: nat) = 45"
proof -
  have "c = CHR ''_'' \<longleftrightarrow> of_char c = (of_char (CHR ''_'') :: nat)" "c = CHR ''-'' \<longleftrightarrow> of_char c = (of_char (CHR ''-'') :: nat)"
    by (simp_all only: of_char_eq_iff)
  then show ?thesis by (simp add: bare_char_def special_codes)
qed

lemma bare_char_not_special [char_simps]:
  "\<not> bare_char quote_char" "\<not> bare_char apostrophe" "\<not> bare_char backslash" "\<not> bare_char (CHR ''.'')"
  "bare_char c \<Longrightarrow> \<not> is_blank c" "bare_char c \<Longrightarrow> \<not> is_cntrl c"
  by (auto simp: bare_char_codes is_alnum_def is_digit_def special_codes is_blank_def is_cntrl_def)

definition unescape_setting_char :: "char \<Rightarrow> char option" where
  "unescape_setting_char c =
     (if c = CHR ''n'' then Some (CHR 0x0A)
      else if c = quote_char then Some quote_char
      else if c = backslash then Some backslash
      else if c = CHR ''r'' then Some (CHR 0x0D)
      else if c = CHR ''t'' then Some (CHR 0x09)
      else if c = CHR ''f'' then Some (CHR 0x0C)
      else if c = CHR ''b'' then Some (CHR 0x08)
      else None)"

definition hex_digit :: "nat \<Rightarrow> char" where
  "hex_digit n = ''0123456789ABCDEF'' ! n"

definition escape_setting_part :: "string \<Rightarrow> string" where
  "escape_setting_part s = concat (map (\<lambda>c.
     if is_cntrl c then backslash # ''u00'' @ [hex_digit (of_char c div 16), hex_digit (of_char c mod 16)] else [c]) s)"

text \<open>
  \<open>cp2utf8\<close> stores the bytes of a code point in a zeroed array and returns it as a C string,
  which ends at the first zero byte.
\<close>

definition byte_char :: "int \<Rightarrow> char" where
  "byte_char n = char_of (nat (n mod 256))"

definition cp2utf8 :: "int \<Rightarrow> string" where
  "cp2utf8 cp = takeWhile (\<lambda>c. c \<noteq> CHR 0x00) (map byte_char
     (if cp \<le> 0x7F then [cp]
      else if cp \<le> 0x7FF then [cp div 64 + 192, cp mod 64 + 128]
      else if 0xd800 \<le> cp \<and> cp \<le> 0xdfff then []
      else if cp \<le> 0xFFFF then [cp div 4096 + 224, cp div 64 mod 64 + 128, cp mod 64 + 128]
      else if cp \<le> 0x10FFFF then
        [cp div 262144 + 240, cp div 4096 mod 64 + 128, cp div 64 mod 64 + 128, cp mod 64 + 128]
      else []))"

text \<open>\<open>sscanf\<close> with \<open>%04x\<close> or \<open>%08x\<close> into an \<open>int\<close>: 32 bits, read as a signed number.\<close>

definition xdigit_value :: "char \<Rightarrow> int" where
  "xdigit_value c = (let n = of_char c in if n \<le> 57 then n - 48 else if n \<le> 70 then n - 55 else n - 87)"

definition scan_hex :: "string \<Rightarrow> int" where
  "scan_hex s = (let n = foldl (\<lambda>a c. 16 * a + xdigit_value c) 0 s in if n \<ge> 2 ^ 31 then n - 2 ^ 32 else n)"

section \<open>The scanner\<close>

datatype path_token =
    POINT
  | BARE_STRING string
  | START_BASIC_STRING
  | BASIC_STRING string
  | ERROR_SYMBOL

text \<open>
  The three start conditions. The longest match decides: an escape of two, six or ten
  characters before the single backslash, a run of bare characters before one of them.
  Both kinds of string announce themselves with the same token. The list ends where the
  scanner returns the end of the input or, the parser giving up, after an error.
\<close>

definition hex_escape :: "nat \<Rightarrow> string \<Rightarrow> bool" where
  "hex_escape n s \<longleftrightarrow> length (take n s) = n \<and> list_all is_xdigit (take n s)"

function lex_initial :: "string \<Rightarrow> path_token list"
  and lex_basic :: "string \<Rightarrow> string \<Rightarrow> path_token list"
  and lex_literal :: "string \<Rightarrow> string \<Rightarrow> path_token list" where
  "lex_initial [] = []"
| "lex_initial (c # s) =
     (if is_blank c then lex_initial s
      else if c = CHR ''.'' then POINT # lex_initial s
      else if bare_char c then BARE_STRING (c # takeWhile bare_char s) # lex_initial (dropWhile bare_char s)
      else if c = quote_char then START_BASIC_STRING # lex_basic [] s
      else if c = apostrophe then START_BASIC_STRING # lex_literal [] s
      else [ERROR_SYMBOL])"
| "lex_basic t [] = []"
| "lex_basic t (c # s) =
     (if c = quote_char then BASIC_STRING t # lex_initial s
      else if is_cntrl c then [ERROR_SYMBOL]
      else if c = backslash \<and> s \<noteq> [] \<and> hd s \<noteq> CHR ''u'' \<and> hd s \<noteq> CHR ''U'' then
        (case unescape_setting_char (hd s) of None \<Rightarrow> [ERROR_SYMBOL] | Some x \<Rightarrow> lex_basic (t @ [x]) (tl s))
      else if c = backslash \<and> s \<noteq> [] \<and> hd s = CHR ''u'' \<and> hex_escape 4 (tl s) then
        lex_basic (t @ cp2utf8 (scan_hex (take 4 (tl s)))) (drop 4 (tl s))
      else if c = backslash \<and> s \<noteq> [] \<and> hd s = CHR ''U'' \<and> hex_escape 8 (tl s) then
        lex_basic (t @ cp2utf8 (scan_hex (take 8 (tl s)))) (drop 8 (tl s))
      else lex_basic (t @ [c]) s)"
| "lex_literal t [] = []"
| "lex_literal t (c # s) =
     (if c = apostrophe then BASIC_STRING t # lex_initial s
      else if is_cntrl c \<and> (of_char c :: nat) \<noteq> 9 then [ERROR_SYMBOL]
      else lex_literal (t @ [c]) s)"
  by pat_completeness auto
termination
  by (relation "measure (\<lambda>x. case x of Inl s \<Rightarrow> length s | Inr (Inl (t, s)) \<Rightarrow> length s | Inr (Inr (t, s)) \<Rightarrow> length s)")
    (auto simp: length_dropWhile_le le_imp_less_Suc neq_Nil_conv)

section \<open>The grammar and the path\<close>

type_synonym setting_path = "string list"

text \<open>A part, \<open>parts: part | parts POINT part\<close>, and \<open>path: /* empty */ | parts\<close> up to the end.\<close>

fun parse_part :: "path_token list \<Rightarrow> (string \<times> path_token list) option" where
  "parse_part (BARE_STRING s # ts) = Some (s, ts)"
| "parse_part (START_BASIC_STRING # BASIC_STRING s # ts) = Some (s, ts)"
| "parse_part _ = None"

lemma parse_part_less: "parse_part ts = Some (p, ts') \<Longrightarrow> length ts' < length ts"
  by (induction ts rule: parse_part.induct) auto

function parse_parts :: "path_token list \<Rightarrow> setting_path option" where
  "parse_parts ts =
     (case parse_part ts of
        None \<Rightarrow> None
      | Some (p, ts') \<Rightarrow>
          (case ts' of
             [] \<Rightarrow> Some [p]
           | POINT # ts'' \<Rightarrow> map_option ((#) p) (parse_parts ts'')
           | _ \<Rightarrow> None))"
  by pat_completeness auto
termination
  by (relation "measure length") (auto dest!: parse_part_less)

declare parse_parts.simps [simp del]

definition parse_path_file :: "path_token list \<Rightarrow> setting_path option" where
  "parse_path_file ts = (if ts = [] then Some [] else parse_parts ts)"

text \<open>
  \<open>SettingPath::parse\<close>: the scanner gets a C string, so it sees the text up to the first zero
  byte. \<open>msg\<close> is the message of the generated parser.
\<close>

definition path_parse :: "(string \<Rightarrow> string) \<Rightarrow> string \<Rightarrow> setting_path result" where
  "path_parse msg s =
     (if s = [] then Inr []
      else case parse_path_file (lex_initial (takeWhile (\<lambda>c. c \<noteq> CHR 0x00) s)) of
        None \<Rightarrow> Inl (Runtime_error (''While parsing setting path '' @ [apostrophe] @ s @ [apostrophe] @ '':'' @ msg s))
      | Some ps \<Rightarrow> Inr ps)"

definition path_at :: "setting_path \<Rightarrow> nat \<Rightarrow> string result" where
  "path_at p i = (if i < length p then Inr (p ! i) else Inl Out_of_range)"

definition is_basic :: "string \<Rightarrow> bool" where
  "is_basic part \<longleftrightarrow> list_all bare_char part"

definition print_part :: "string \<Rightarrow> string" where
  "print_part p = (if is_basic p then p else quote_char # escape_setting_part p @ [quote_char])"

definition path_to_string :: "setting_path \<Rightarrow> string" where
  "path_to_string parts =
     (let s = concat (map (\<lambda>p. print_part p @ ''.'') parts) in if s \<noteq> [] then take (length s - 1) s else s)"

definition path_append :: "setting_path \<Rightarrow> setting_path \<Rightarrow> setting_path" where
  "path_append p q = p @ q"

definition from_raw_string :: "string \<Rightarrow> setting_path" where
  "from_raw_string s = [s]"

section \<open>Scanning what was printed\<close>

definition plain_char :: "char \<Rightarrow> bool" where
  "plain_char c \<longleftrightarrow> c \<noteq> quote_char \<and> c \<noteq> backslash \<and> c \<noteq> CHR 0x00"

definition part_ok :: "string \<Rightarrow> bool" where
  "part_ok p \<longleftrightarrow> p \<noteq> [] \<and> list_all plain_char p"

fun part_tokens :: "string \<Rightarrow> path_token list" where
  "part_tokens p = (if is_basic p then [BARE_STRING p] else [START_BASIC_STRING, BASIC_STRING p])"

lemma lex_initial_bare:
  assumes "p \<noteq> []" "list_all bare_char p" "r = [] \<or> \<not> bare_char (hd r)"
  shows "lex_initial (p @ r) = BARE_STRING p # lex_initial r"
proof -
  obtain c q where p: "p = c # q" using assms(1) by (cases p) auto
  have r: "takeWhile bare_char r = []" "dropWhile bare_char r = r"
    using assms(3) by (cases r; auto)+
  have "c \<noteq> CHR ''.''" using assms(2) p by (auto simp: char_simps)
  moreover have "takeWhile bare_char (q @ r) = q" "dropWhile bare_char (q @ r) = r"
    using assms(2) p r by (simp_all add: takeWhile_append2 dropWhile_append2 list_all_iff)
  ultimately show ?thesis
    using assms(2) by (simp add: p char_simps)
qed

text \<open>The escapes of the control characters, one by one.\<close>

lemma control_escapes:
  "list_all (\<lambda>n. let d = ''00'' @ [hex_digit (n div 16), hex_digit (n mod 16)] in
      list_all is_xdigit d \<and> cp2utf8 (scan_hex d) = [char_of n] \<and> CHR 0x00 \<notin> set d) (127 # [1..<32])"
  by code_simp

lemma control_escape:
  assumes "is_cntrl c" "c \<noteq> CHR 0x00"
  defines "d \<equiv> ''00'' @ [hex_digit (of_char c div 16), hex_digit (of_char c mod 16)]"
  shows "list_all is_xdigit d" "cp2utf8 (scan_hex d) = [c]" "length d = 4" "CHR 0x00 \<notin> set d"
proof -
  have "of_char c \<noteq> (0 :: nat)"
    using assms(2) of_char_eq_iff [of c "CHR 0x00"] by auto
  then have "(of_char c :: nat) \<in> set (127 # [1..<32])"
    using assms(1) by (auto simp: is_cntrl_def)
  then show "list_all is_xdigit d" "cp2utf8 (scan_hex d) = [c]" "length d = 4" "CHR 0x00 \<notin> set d"
    using bspec [OF control_escapes [unfolded list_all_iff]] by (fastforce simp: list_all_iff d_def Let_def)+
qed

lemma lex_basic_escape:
  assumes "is_cntrl c" "c \<noteq> CHR 0x00"
  shows "lex_basic t (escape_setting_part [c] @ s) = lex_basic (t @ [c]) s"
proof -
  define d where "d = ''00'' @ [hex_digit (of_char c div 16), hex_digit (of_char c mod 16)]"
  note d = control_escape [OF assms, folded d_def]
  have "escape_setting_part [c] @ s = backslash # CHR ''u'' # d @ s"
    using assms(1) by (simp add: escape_setting_part_def d_def)
  moreover have "hex_escape 4 (d @ s)" "take 4 (d @ s) = d" "drop 4 (d @ s) = s"
    using d(1,3) by (simp_all add: hex_escape_def)
  moreover have "backslash \<noteq> quote_char" "\<not> is_cntrl backslash"
    by (simp_all add: backslash_def quote_char_def is_cntrl_def)
  ultimately show ?thesis using d(2) by simp
qed

lemma escape_setting_part_Cons:
  "escape_setting_part (c # p) = escape_setting_part [c] @ escape_setting_part p"
  by (simp add: escape_setting_part_def)

lemma lex_basic_part:
  "list_all plain_char p \<Longrightarrow>
    lex_basic t (escape_setting_part p @ quote_char # r) = BASIC_STRING (t @ p) # lex_initial r"
proof (induction p arbitrary: t)
  case (Cons c p)
  show ?case
  proof (cases "is_cntrl c")
    case True
    then show ?thesis
      using Cons by (subst escape_setting_part_Cons) (simp add: lex_basic_escape plain_char_def)
  next
    case False
    then have "escape_setting_part [c] = [c]" by (simp add: escape_setting_part_def)
    then show ?thesis
      using Cons False by (subst escape_setting_part_Cons) (simp add: plain_char_def)
  qed
qed (simp add: escape_setting_part_def)

lemma lex_initial_part:
  assumes "part_ok p" "r = [] \<or> \<not> bare_char (hd r)"
  shows "lex_initial (print_part p @ r) = part_tokens p @ lex_initial r"
proof (cases "is_basic p")
  case True
  then show ?thesis
    using assms lex_initial_bare [of p r] by (simp add: print_part_def part_ok_def is_basic_def)
next
  case False
  then show ?thesis
    using assms lex_basic_part [of p "[]" r]
    by (simp add: print_part_def part_ok_def char_simps is_blank_def) (simp add: quote_char_def)
qed

lemma lex_initial_path:
  "list_all part_ok ps \<Longrightarrow> lex_initial (join ''.'' (map print_part ps)) = join [POINT] (map part_tokens ps)"
proof (induction ps rule: induct_list012)
  case (2 p)
  then show ?case using lex_initial_part [of p "[]"] by simp
next
  case (3 p q ps)
  have "lex_initial (CHR ''.'' # s) = POINT # lex_initial s" for s
    by (simp add: is_blank_def)
  then show ?case
    using 3 lex_initial_part [of p "''.'' @ join ''.'' (map print_part (q # ps))"]
    by (simp add: char_simps)
qed simp

lemma parse_part_tokens: "parse_part (part_tokens p @ ts) = Some (p, ts)"
  by simp

lemma parse_parts_path: "ps \<noteq> [] \<Longrightarrow> parse_parts (join [POINT] (map part_tokens ps)) = Some ps"
proof (induction ps rule: induct_list012)
  case (2 p)
  show ?case
    using parse_part_tokens [of p "[]"] by (subst parse_parts.simps) simp
next
  case (3 p q ps)
  then show ?case
    using parse_part_tokens [of p "POINT # join [POINT] (map part_tokens (q # ps))"]
    by (subst parse_parts.simps) (simp del: part_tokens.simps)
qed simp

lemma escape_setting_part_no_zero: "list_all plain_char p \<Longrightarrow> CHR 0x00 \<notin> set (escape_setting_part p)"
proof (induction p)
  case (Cons c p)
  then have "CHR 0x00 \<notin> set (escape_setting_part [c])"
    using control_escape(4) [of c] by (auto simp: escape_setting_part_def plain_char_def backslash_def)
  with Cons show ?case by (subst escape_setting_part_Cons) simp
qed (simp add: escape_setting_part_def)

lemma print_part_no_zero: "part_ok p \<Longrightarrow> CHR 0x00 \<notin> set (print_part p)"
  using escape_setting_part_no_zero [of p]
  by (auto simp: print_part_def part_ok_def list_all_iff quote_char_def plain_char_def)

lemma path_parse_whole:
  "s \<noteq> [] \<Longrightarrow> CHR 0x00 \<notin> set s \<Longrightarrow> path_parse msg s =
    (case parse_path_file (lex_initial s) of
       None \<Rightarrow> Inl (Runtime_error (''While parsing setting path '' @ [apostrophe] @ s @ [apostrophe] @ '':'' @ msg s))
     | Some ps \<Rightarrow> Inr ps)"
proof -
  assume s: "s \<noteq> []" "CHR 0x00 \<notin> set s"
  then have "takeWhile (\<lambda>c. c \<noteq> CHR 0x00) s = s" by (auto simp: takeWhile_eq_all_conv)
  with s(1) show ?thesis unfolding path_parse_def by presburger
qed

lemma path_to_string_join: "path_to_string ps = join ''.'' (map print_part ps)"
proof -
  have "concat (map (\<lambda>p. print_part p @ ''.'') ps) = concat (map (\<lambda>x. x @ ''.'') (map print_part ps))"
    by (simp add: comp_def)
  then show ?thesis
    using take_concat_map_sep [of "''.''" "map print_part ps"] by (auto simp: path_to_string_def Let_def)
qed

lemma path_parse_to_string:
  assumes "list_all part_ok ps"
  shows "path_parse msg (path_to_string ps) = Inr ps"
proof (cases "ps = []")
  case False
  then obtain p qs where ps: "ps = p # qs" by (cases ps) auto
  have "print_part p \<noteq> []"
    using assms ps by (auto simp: print_part_def part_ok_def)
  then have "path_to_string ps \<noteq> []"
    using ps by (cases qs) (auto simp: path_to_string_join)
  moreover have "CHR 0x00 \<notin> set (path_to_string ps)"
    using set_join [of "''.''" "map print_part ps"] assms print_part_no_zero
    by (fastforce simp: path_to_string_join list_all_iff)
  moreover have "parse_path_file (lex_initial (path_to_string ps)) = Some ps"
    using lex_initial_path [OF assms] parse_parts_path [OF False] False
    by (cases qs) (simp_all add: path_to_string_join parse_path_file_def ps)
  ultimately show ?thesis
    by (simp add: path_parse_whole)
qed (simp add: path_to_string_join path_parse_def)

interpretation setting_path_codec: codec path_to_string "path_parse msg" "list_all part_ok" for msg
  by unfold_locales (rule path_parse_to_string)

text \<open>
  C28: A path whose parts are not empty and contain no quotation mark, no backslash and no zero
  byte is read back from its printed form, whatever else the parts contain; different such
  paths print differently.
\<close>

theorem setting_path_roundtrip:
  assumes "list_all part_ok ps"
  shows "path_parse msg (path_to_string ps) = Inr ps
    \<and> (list_all part_ok qs \<and> path_to_string ps = path_to_string qs \<longrightarrow> ps = qs)"
  using setting_path_codec.dec_enc [OF assms] setting_path_codec.enc_inj [OF assms] by blast

lemma setting_path_roundtrip_witness:
  "path_parse (\<lambda>_. ''syntax error'') (path_to_string [''sw'', ''my key'', [CHR 0x07]]) = Inr [''sw'', ''my key'', [CHR 0x07]]"
proof -
  have "list_all part_ok [''sw'', ''my key'', [CHR 0x07]]" by code_simp
  then show ?thesis using setting_path_roundtrip by blast
qed

text \<open>
  What the printed form loses. Quotation marks and backslashes are not escaped: a part
  \<open>a"b\<close> prints to a text that is a syntax error, a part of a backslash and an n comes back as
  a line break, and one that ends in a backslash leaves its string open. A part of one zero
  byte comes back empty, an empty part vanishes, and an empty part beside others is a syntax
  error.
\<close>

theorem setting_path_lossy:
  "(\<exists>e. path_parse msg (path_to_string [[CHR ''a'', quote_char, CHR ''b'']]) = Inl (Runtime_error e))
   \<and> path_parse msg (path_to_string [[backslash, CHR ''n'']]) = Inr [[NL]]
   \<and> (\<exists>e. path_parse msg (path_to_string [[CHR ''a'', backslash]]) = Inl (Runtime_error e))
   \<and> path_parse msg (path_to_string [[CHR 0x00]]) = Inr [[]]
   \<and> path_parse msg (path_to_string [[]]) = Inr []
   \<and> (\<exists>e. path_parse msg (path_to_string [''a'', []]) = Inl (Runtime_error e))"
proof -
  have tokens:
    "parse_path_file (lex_initial (path_to_string [[CHR ''a'', quote_char, CHR ''b'']])) = None"
    "parse_path_file (lex_initial (path_to_string [[backslash, CHR ''n'']])) = Some [[NL]]"
    "parse_path_file (lex_initial (path_to_string [[CHR ''a'', backslash]])) = None"
    "parse_path_file (lex_initial (path_to_string [[CHR 0x00]])) = Some [[]]"
    "parse_path_file (lex_initial (path_to_string [''a'', []])) = None"
    by code_simp+
  have whole: "list_all (\<lambda>ps. path_to_string ps \<noteq> [] \<and> CHR 0x00 \<notin> set (path_to_string ps))
      [[[CHR ''a'', quote_char, CHR ''b'']], [[backslash, CHR ''n'']], [[CHR ''a'', backslash]], [[CHR 0x00]], [''a'', []]]"
    by code_simp
  have "path_parse msg (path_to_string [[]]) = Inr []"
    by (simp add: path_parse_def path_to_string_def print_part_def is_basic_def)
  with whole show ?thesis
    by (simp add: path_parse_whole tokens)
qed

text \<open>
  The cases of the repository's own test that are accepted or refused, on the scanner and the
  grammar.
\<close>

lemma path_test_cases:
  "list_all (\<lambda>(s, r). parse_path_file (lex_initial s) = r)
    [('' a . b . c '', Some [''a'', ''b'', ''c'']), (''a-b-c'', Some [''a-b-c'']), ([quote_char], None),
     ([quote_char, quote_char], Some [[]]), ([quote_char, quote_char, quote_char], None),
     ([quote_char, backslash, quote_char, CHR '' '', quote_char], Some [[quote_char, CHR '' '']]),
     ([quote_char, backslash, CHR ''b'', quote_char], Some [[CHR 0x08]]),
     ([quote_char, NL, quote_char], None), ([quote_char, backslash, CHR ''a'', quote_char], None),
     ([apostrophe, apostrophe], Some [[]]), ([apostrophe, quote_char, quote_char, apostrophe], Some [[quote_char, quote_char]]),
     ([apostrophe], None), ([apostrophe, apostrophe, apostrophe], None),
     ([apostrophe, backslash, CHR ''n'', apostrophe], Some [[backslash, CHR ''n'']]),
     ([apostrophe, CHR 0x09, apostrophe], Some [[CHR 0x09]]), ([apostrophe, NL, apostrophe], None)]"
  by code_simp

end
