(* ===== verification/Settings.thy ===== *)
theory Settings
  imports SettingPath Conversions
begin

text \<open>
  Typed settings (\<open>settings.h\<close>, \<open>settings.cpp\<close>, the actions of \<open>settings.yy\<close>, the integer literals of
  \<open>settings.ll\<close>): single settings that hold a text until a type is asked for, maps of them under
  paths, loading from a YAML tree, and the three layers local, user and system.

  Parameters: the conversions of floating-point numbers, the width of \<open>int64_t\<close> among the
  integer types of the platform, the file system and the parser of settings files.
\<close>

section \<open>Values and their types\<close>

datatype cpp_type =
    T_char | T_uchar | T_short | T_ushort | T_int | T_uint | T_long | T_ulong | T_llong | T_ullong
  | T_float | T_double | T_bool | T_string

datatype 'd payload = Number int | Real 'd | Bool bool | String string

text \<open>A \<open>std::any\<close> with a value: its type and the value.\<close>

type_synonym 'd any = "cpp_type \<times> 'd payload"

text \<open>
  What the platform gives: the conversions of real numbers and whether \<open>int64_t\<close> is \<open>long\<close> (as on
  64-bit Linux) or \<open>long long\<close>.
\<close>

record 'd platform =
  stof :: "string \<Rightarrow> 'd result"
  stod :: "string \<Rightarrow> 'd result"
  real_to_string :: "'d \<Rightarrow> string"
  lp64 :: bool

definition int64_type :: "'d platform \<Rightarrow> cpp_type" where
  "int64_type P = (if lp64 P then T_long else T_llong)"

definition uint64_type :: "'d platform \<Rightarrow> cpp_type" where
  "uint64_type P = (if lp64 P then T_ulong else T_ullong)"

text \<open>
  \<open>parser<U>::fromString\<close>. The specializations return what the conversion function returns, so
  the type of the \<open>std::any\<close> is that function's result type. \<open>None\<close>: there is no such parser.
\<close>

definition parser_from_string :: "'d platform \<Rightarrow> cpp_type \<Rightarrow> string \<Rightarrow> 'd any result option" where
  "parser_from_string P u s =
     (if u \<in> {T_char, T_uchar, T_short, T_ushort, T_int, T_uint} then
        Some (bind_result (std_stoi s) (\<lambda>n. Inr (T_int, Number n)))
      else if u = int64_type P then Some (bind_result (std_stoll s) (\<lambda>n. Inr (T_llong, Number n)))
      else if u = uint64_type P then Some (bind_result (std_stoull s) (\<lambda>n. Inr (T_ullong, Number n)))
      else if u = T_float then Some (bind_result (stof P s) (\<lambda>x. Inr (T_float, Real x)))
      else if u = T_double then Some (bind_result (stod P s) (\<lambda>x. Inr (T_double, Real x)))
      else if u = T_bool then Some (Inr (T_bool, Bool (s = ''true'' \<or> s = ''1'')))
      else if u = T_string then Some (Inr (T_string, String s))
      else None)"

text \<open>\<open>std::any_cast<U>\<close> of the value, and \<open>parser<U>::toString\<close>, which casts to \<open>U\<close>.\<close>

definition any_cast :: "cpp_type \<Rightarrow> 'd any option \<Rightarrow> 'd payload option" where
  "any_cast u a = (case a of Some (t, x) \<Rightarrow> if t = u then Some x else None | None \<Rightarrow> None)"

definition bad_any_cast :: cpp_error where
  "bad_any_cast = Logic_error ''bad any_cast''"

definition payload_to_string :: "'d platform \<Rightarrow> 'd payload \<Rightarrow> string" where
  "payload_to_string P x =
     (case x of Number n \<Rightarrow> to_string n | Real r \<Rightarrow> real_to_string P r | Bool b \<Rightarrow> to_string (if b then 1 else 0) | String s \<Rightarrow> s)"

definition parser_to_string :: "'d platform \<Rightarrow> cpp_type \<Rightarrow> 'd any option \<Rightarrow> string result" where
  "parser_to_string P u a = (case any_cast u a of None \<Rightarrow> Inl bad_any_cast | Some x \<Rightarrow> Inr (payload_to_string P x))"

section \<open>A setting\<close>

record 'd setting =
  representation :: string
  parser :: "cpp_type option"
  svalue :: "'d any option"
  default_value :: "'d any option"
  saveable :: bool
  excluded :: "string set"

definition new_setting :: "'d setting" where
  "new_setting = \<lparr>representation = [], parser = None, svalue = None, default_value = None, saveable = True, excluded = {}\<rparr>"

text \<open>\<open>Setting::toString\<close>; without a representation the parser must have been set.\<close>

definition setting_to_string :: "'d platform \<Rightarrow> 'd setting \<Rightarrow> string result" where
  "setting_to_string P s =
     (if representation s \<noteq> [] then Inr (representation s)
      else case parser s of None \<Rightarrow> Inl Undefined | Some u \<Rightarrow> parser_to_string P u (svalue s))"

text \<open>Assigning a value of the type \<open>u\<close>.\<close>

definition setting_assign :: "cpp_type \<Rightarrow> 'd payload \<Rightarrow> 'd setting \<Rightarrow> 'd setting" where
  "setting_assign u x s = s\<lparr>representation := [], svalue := Some (u, x), parser := Some u\<rparr>"

text \<open>
  \<open>convert<U>\<close>, with the state also after an exception. A type without a parser does not compile;
  here it is \<open>Unimplemented\<close>.
\<close>

definition convert :: "'d platform \<Rightarrow> cpp_type \<Rightarrow> 'd setting \<Rightarrow> unit result \<times> 'd setting" where
  "convert P u s =
     (if representation s = [] then (Inr (), s)
      else if representation s \<in> excluded s then
        (Inl (Runtime_error (''Setting value is prohibited: '' @ [apostrophe] @ representation s @ [apostrophe])), s)
      else let s' = s\<lparr>parser := Some u\<rparr>
        in case parser_from_string P u (representation s) of
             None \<Rightarrow> (Inl Unimplemented, s')
           | Some (Inl e) \<Rightarrow> (Inl e, s')
           | Some (Inr a) \<Rightarrow> (Inr (), s'\<lparr>svalue := Some a, representation := []\<rparr>))"

definition setting_as :: "'d platform \<Rightarrow> cpp_type \<Rightarrow> 'd setting \<Rightarrow> 'd payload result \<times> 'd setting" where
  "setting_as P u s =
     (case convert P u s of
        (Inl e, s') \<Rightarrow> (Inl e, s')
      | (Inr _, s') \<Rightarrow>
          (case any_cast u (svalue s') of
             Some x \<Rightarrow> (Inr x, s')
           | None \<Rightarrow> (Inl (Runtime_error ''Bad any_cast''), s')))"

text \<open>Comparison with a value of the type \<open>u\<close> casts the value, whatever the representation is.\<close>

definition setting_eq :: "cpp_type \<Rightarrow> 'd payload \<Rightarrow> 'd setting \<Rightarrow> bool result" where
  "setting_eq u x s = (case any_cast u (svalue s) of None \<Rightarrow> Inl bad_any_cast | Some y \<Rightarrow> Inr (y = x))"

definition setting_neq :: "cpp_type \<Rightarrow> 'd payload \<Rightarrow> 'd setting \<Rightarrow> bool result" where
  "setting_neq u x s = bind_result (setting_eq u x s) (\<lambda>b. Inr (\<not> b))"

section \<open>Declared settings\<close>

text \<open>
  \<open>setting<DataType>::init\<close> applies the modifiers in their order, converts the representation and
  falls back to the default value of the type. \<open>do_not_save\<close>, \<open>init\<close> and \<open>must_not_be\<close> are the
  modifiers; the name has chosen the entry \<open>s\<close> and set its type before.
\<close>

datatype 'd modifier = Do_not_save | Init "'d payload" | Must_not_be string

definition set_initial_value :: "cpp_type \<Rightarrow> 'd payload \<Rightarrow> 'd setting \<Rightarrow> 'd setting" where
  "set_initial_value u x s = s\<lparr>svalue := Some (u, x), default_value := Some (u, x)\<rparr>"

fun apply_modifier :: "cpp_type \<Rightarrow> 'd modifier \<Rightarrow> 'd setting \<Rightarrow> 'd setting" where
  "apply_modifier u Do_not_save s = s\<lparr>saveable := False\<rparr>"
| "apply_modifier u (Init x) s = set_initial_value u x s"
| "apply_modifier u (Must_not_be r) s = s\<lparr>excluded := insert r (excluded s)\<rparr>"

definition set_type :: "cpp_type \<Rightarrow> 'd setting \<Rightarrow> 'd setting" where
  "set_type u s = s\<lparr>parser := Some u\<rparr>"

definition init_setting ::
  "'d platform \<Rightarrow> cpp_type \<Rightarrow> 'd payload \<Rightarrow> 'd modifier list \<Rightarrow> 'd setting \<Rightarrow> unit result \<times> 'd setting" where
  "init_setting P u x0 ms s =
     (case convert P u (fold (apply_modifier u) ms (set_type u s)) of
        (Inl e, s') \<Rightarrow> (Inl e, s')
      | (Inr _, s') \<Rightarrow> (Inr (), if svalue s' = None then set_initial_value u x0 s' else s'))"

section \<open>Types are respected\<close>

text \<open>The values a type has, with the ranges of the 32-bit and 64-bit integers.\<close>

fun has_type :: "'d any \<Rightarrow> bool" where
  "has_type (u, Number n) \<longleftrightarrow>
     (u = T_char \<and> - 128 \<le> n \<and> n \<le> 127) \<or> (u = T_uchar \<and> 0 \<le> n \<and> n \<le> 255)
     \<or> (u = T_short \<and> - 32768 \<le> n \<and> n \<le> 32767) \<or> (u = T_ushort \<and> 0 \<le> n \<and> n \<le> 65535)
     \<or> (u = T_int \<and> - int32_max - 1 \<le> n \<and> n \<le> int32_max) \<or> (u = T_uint \<and> 0 \<le> n \<and> n < 2 ^ 32)
     \<or> (u = T_long \<and> int64_min \<le> n \<and> n \<le> int64_max) \<or> (u = T_ulong \<and> 0 \<le> n \<and> n < 2 ^ 64)
     \<or> (u = T_llong \<and> int64_min \<le> n \<and> n \<le> int64_max) \<or> (u = T_ullong \<and> 0 \<le> n \<and> n < 2 ^ 64)"
| "has_type (u, Real r) \<longleftrightarrow> u = T_float \<or> u = T_double"
| "has_type (u, Bool b) \<longleftrightarrow> u = T_bool"
| "has_type (u, String s) \<longleftrightarrow> u = T_string"

definition setting_typed :: "'d setting \<Rightarrow> bool" where
  "setting_typed s \<longleftrightarrow> (\<forall>a. svalue s = Some a \<longrightarrow> has_type a) \<and> (\<forall>a. default_value s = Some a \<longrightarrow> has_type a)"

lemma parser_from_string_typed: "parser_from_string P u r = Some (Inr a) \<Longrightarrow> has_type a"
  by (auto simp: parser_from_string_def bind_result_Inr_iff std_stoi_def std_stoll_def std_stoull_def
      dest!: std_sto_range split: if_splits)

text \<open>The type that the parser's value has.\<close>

lemma parser_from_string_type:
  assumes "parser_from_string P u r = Some (Inr (t, x))"
  shows "t = (if u \<in> {T_char, T_uchar, T_short, T_ushort, T_int, T_uint} then T_int
    else if u = int64_type P then T_llong else if u = uint64_type P then T_ullong else u)"
  using assms by (auto simp: parser_from_string_def bind_result_Inr_iff split: if_splits)

text \<open>The types whose texts are never converted to a value of the type itself.\<close>

definition never_converted :: "'d platform \<Rightarrow> cpp_type set" where
  "never_converted P = {T_char, T_uchar, T_short, T_ushort, T_uint} \<union> (if lp64 P then {T_long, T_ulong} else {})"

lemma convert_typed: "convert P u s = (r, s') \<Longrightarrow> setting_typed s \<Longrightarrow> setting_typed s'"
  by (auto simp: convert_def setting_typed_def Let_def dest: parser_from_string_typed
      split: if_splits option.splits sum.splits)

lemma setting_as_typed: "setting_as P u s = (r, s') \<Longrightarrow> setting_typed s \<Longrightarrow> setting_typed s'"
  by (auto simp: setting_as_def dest: convert_typed split: prod.splits sum.splits option.splits)

lemma setting_as_value: "setting_as P u s = (Inr x, s') \<Longrightarrow> svalue s' = Some (u, x) \<and> representation s' = []"
  by (auto simp: setting_as_def convert_def any_cast_def Let_def
      split: prod.splits sum.splits option.splits if_splits)

lemma never_converted_type:
  "u \<in> never_converted P \<Longrightarrow> parser_from_string P u r = Some (Inr (t, x)) \<Longrightarrow> t \<noteq> u"
  by (auto simp: never_converted_def int64_type_def uint64_type_def dest!: parser_from_string_type
      split: if_splits)

lemma never_converted_fails:
  assumes "u \<in> never_converted P" "representation s \<noteq> []"
  shows "setting_as P u s \<noteq> (Inr x, s')"
proof
  assume "setting_as P u s = (Inr x, s')"
  then obtain a where "parser_from_string P u (representation s) = Some (Inr a)" "any_cast u (Some a) = Some x"
    using assms(2)
    by (auto simp: setting_as_def convert_def Let_def split: prod.splits sum.splits option.splits if_splits)
  then show False
    using never_converted_type [OF assms(1)] by (cases a) (auto simp: any_cast_def split: if_splits)
qed

text \<open>
  C31: What a setting answers is of the type that was asked for and in its range, and its value
  keeps being of the type stored with it. But a text is never turned into a \<open>char\<close>, \<open>short\<close>,
  \<open>unsigned\<close> or, where \<open>int64_t\<close> is \<open>long\<close>, a 64-bit integer: the parser of these types stores
  the \<open>int\<close> or \<open>long long\<close> of the conversion function, which the cast then refuses.
\<close>

theorem setting_as_types:
  assumes "setting_typed s"
  shows "(setting_as P u s = (r, s') \<longrightarrow> setting_typed s')
    \<and> (setting_as P u s = (Inr x, s') \<longrightarrow> svalue s' = Some (u, x) \<and> has_type (u, x) \<and> representation s' = [])
    \<and> (u \<in> never_converted P \<and> representation s \<noteq> [] \<longrightarrow> setting_as P u s \<noteq> (Inr x, s'))"
  using setting_as_typed [of P u s r s'] setting_as_typed [of P u s "Inr x" s'] setting_as_value [of P u s x s']
    never_converted_fails [of u P s x s'] assms
  by (auto simp: setting_typed_def)

definition linux :: "nat platform" where
  "linux = \<lparr>stof = (\<lambda>_. Inr 0), stod = (\<lambda>_. Inr 0), real_to_string = to_string \<circ> int, lp64 = True\<rparr>"

lemma setting_as_types_witness:
  "fst (setting_as linux T_int (new_setting\<lparr>representation := ''42''\<rparr>)) = Inr (Number 42)
   \<and> has_type (T_int, Number 42 :: nat payload)
   \<and> fst (setting_as linux T_long (new_setting\<lparr>representation := ''42''\<rparr>)) \<noteq> Inr (Number 42)"
proof -
  let ?s = "new_setting\<lparr>representation := ''42''\<rparr> :: nat setting"
  have s: "setting_typed ?s" "representation ?s \<noteq> []" "T_long \<in> never_converted linux"
    by (simp_all add: setting_typed_def new_setting_def never_converted_def linux_def)
  obtain r s' where as: "setting_as linux T_int ?s = (r, s')" by fastforce
  obtain r2 s2 where as2: "setting_as linux T_long ?s = (r2, s2)" by fastforce
  have "fst (setting_as linux T_int ?s) = Inr (Number 42)" by code_simp
  then show ?thesis
    using setting_as_types [OF s(1), of linux T_int r s' "Number 42"] s(2,3) as as2
      setting_as_types [OF s(1), of linux T_long r2 s2 "Number 42"] by auto
qed

section \<open>Texts of values\<close>

text \<open>The values whose text is read back: numbers of the type that the conversion returns, truth values and texts.\<close>

definition text_type :: "cpp_type \<Rightarrow> bool" where
  "text_type u \<longleftrightarrow> u = T_int \<or> u = T_bool \<or> u = T_string"

text \<open>
  A setting of type \<open>int\<close>, \<open>bool\<close> or \<open>std::string\<close> that was assigned a value prints a text;
  a setting loaded from this text answers the value, unless the text is empty or prohibited.
\<close>

theorem setting_text_roundtrip:
  assumes "has_type (u, x)" "text_type u"
  shows "\<exists>t. setting_to_string P (setting_assign u x s) = Inr t
    \<and> (t \<noteq> [] \<and> t \<notin> excluded s' \<longrightarrow> fst (setting_as P u (s'\<lparr>representation := t\<rparr>)) = Inr x)"
proof -
  define t where "t = payload_to_string P x"
  have "setting_to_string P (setting_assign u x s) = Inr t"
    by (simp add: setting_to_string_def setting_assign_def parser_to_string_def any_cast_def t_def)
  moreover have "parser_from_string P u t = Some (Inr (u, x))"
  proof (cases x)
    case (Number n)
    then have "u = T_int" "- int32_max - 1 \<le> n" "n \<le> int32_max"
      using assms by (auto simp: text_type_def)
    then show ?thesis
      by (simp add: Number t_def payload_to_string_def parser_from_string_def std_stoi_def std_sto_to_string)
  next
    case (Bool b)
    have "to_string 1 = ''1''" "to_string 0 = ''0''" by code_simp+
    then show ?thesis
      using assms Bool
      by (simp add: t_def payload_to_string_def parser_from_string_def int64_type_def uint64_type_def)
  next
    case (Real d)
    then show ?thesis using assms by (auto simp: text_type_def)
  next
    case (String r)
    then show ?thesis
      using assms by (simp add: t_def payload_to_string_def parser_from_string_def int64_type_def uint64_type_def)
  qed
  ultimately show ?thesis
    by (intro exI [of _ t]) (simp add: setting_as_def convert_def any_cast_def Let_def)
qed

lemma setting_text_roundtrip_witness:
  "fst (setting_as linux T_int (new_setting\<lparr>representation := ''-7''\<rparr>)) = Inr (Number (- 7))"
proof -
  obtain t where t: "setting_to_string linux (setting_assign T_int (Number (- 7)) new_setting) = Inr t"
    "t \<noteq> [] \<and> t \<notin> excluded (new_setting :: nat setting) \<longrightarrow>
      fst (setting_as linux T_int (new_setting\<lparr>representation := t\<rparr>)) = Inr (Number (- 7))"
    using setting_text_roundtrip [of T_int "Number (- 7)" linux new_setting new_setting]
    by (auto simp: text_type_def int32_max_def)
  have "setting_to_string linux (setting_assign T_int (Number (- 7)) new_setting) = Inr ''-7''" by code_simp
  with t show ?thesis by (simp add: new_setting_def)
qed

text \<open>An empty text is no text: a string setting that was saved as the empty string has no value.\<close>

lemma empty_text_lost:
  "setting_to_string P (setting_assign T_string (String []) s) = Inr []
   \<and> (svalue s' = None \<longrightarrow> fst (setting_as P T_string (s'\<lparr>representation := []\<rparr>)) = Inl (Runtime_error ''Bad any_cast''))"
  by (simp add: setting_to_string_def setting_assign_def parser_to_string_def any_cast_def payload_to_string_def
      setting_as_def convert_def)

section \<open>What a declaration sets\<close>

definition inits :: "'d modifier list \<Rightarrow> 'd payload list" where
  "inits ms = concat (map (\<lambda>m. case m of Init x \<Rightarrow> [x] | _ \<Rightarrow> []) ms)"

definition exclusions :: "'d modifier list \<Rightarrow> string set" where
  "exclusions ms = {r. Must_not_be r \<in> set ms}"

lemma exclusions_Cons:
  "exclusions (m # ms) = (case m of Must_not_be r \<Rightarrow> {r} | _ \<Rightarrow> {}) \<union> exclusions ms"
  by (cases m) (auto simp: exclusions_def)

lemma fold_modifiers:
  "fold (apply_modifier u) ms s =
     s\<lparr>svalue := (if inits ms = [] then svalue s else Some (u, last (inits ms))),
       default_value := (if inits ms = [] then default_value s else Some (u, last (inits ms))),
       saveable := (saveable s \<and> Do_not_save \<notin> set ms), excluded := excluded s \<union> exclusions ms\<rparr>"
proof (induction ms arbitrary: s)
  case (Cons m ms)
  have "inits (m # ms) = (case m of Init x \<Rightarrow> [x] | _ \<Rightarrow> []) @ inits ms"
    by (simp add: inits_def)
  then show ?case
    using Cons by (cases m) (simp_all add: set_initial_value_def exclusions_Cons)
qed (simp add: inits_def exclusions_def)

text \<open>
  Declaring a setting. A text from a file wins and is converted; without one an initial
  value wins, even over a value that was loaded before; otherwise the loaded value stays, and
  the default value of the type is the last resort. A prohibited text is an exception, and a
  declaration with \<open>do_not_save\<close> keeps the setting out of the saved ones.
\<close>

theorem declared_setting_value:
  assumes "init_setting P u x0 ms s = (r, s')" and "u \<in> {T_int, T_bool, T_string}"
  shows "(representation s \<noteq> [] \<and> representation s \<in> excluded s \<union> exclusions ms \<longrightarrow> (\<exists>e. r = Inl (Runtime_error e)))
    \<and> (representation s \<noteq> [] \<and> r = Inr () \<longrightarrow>
         parser_from_string P u (representation s) = Some (Inr (the (svalue s'))) \<and> svalue s' \<noteq> None)
    \<and> (representation s = [] \<longrightarrow> r = Inr () \<and> svalue s' =
         (if inits ms \<noteq> [] then Some (u, last (inits ms)) else if svalue s \<noteq> None then svalue s else Some (u, x0)))
    \<and> saveable s' = (saveable s \<and> Do_not_save \<notin> set ms)"
proof -
  have P: "parser_from_string P u t \<noteq> None" for t
    using assms(2) by (auto simp: parser_from_string_def)
  show ?thesis
    using assms(1) P [of "representation s"]
    by (auto simp: init_setting_def fold_modifiers convert_def set_type_def set_initial_value_def Let_def
        split: if_splits option.splits sum.splits prod.splits)
qed

lemma declared_setting_value_witness:
  "svalue (snd (init_setting linux T_int (Number 0) [Init (Number 5)] (setting_assign T_int (Number 9) new_setting)))
     = Some (T_int, Number 5)"
proof -
  obtain r s' where "init_setting linux T_int (Number 0) [Init (Number 5)] (setting_assign T_int (Number 9) new_setting) = (r, s')"
    by fastforce
  then show ?thesis
    using declared_setting_value [of linux T_int "Number 0" "[Init (Number 5)]" "setting_assign T_int (Number 9) new_setting" r s']
    by (simp add: setting_assign_def inits_def)
qed

end
