(* ===== verification/SettingsStore.thy ===== *)
theory SettingsStore
  imports Settings
begin

text \<open>
  Maps of settings (\<open>Settings\<close> of \<open>settings.h\<close> and \<open>settings.cpp\<close>): access under a prefix, loading
  from a YAML tree, saving, and \<open>SettingStorage\<close> with its layers local, user and system, each
  loaded once.

  A YAML document is given by what the code looks at: scalars, mappings with their entries in
  order, sequences and null. Writing a value into a YAML node, reading and parsing files and
  asking whether they exist are parameters.
\<close>

section \<open>Maps of settings\<close>

record 'd settings =
  sprefix :: setting_path
  entries :: "(setting_path \<times> 'd setting) list"

definition no_settings :: "'d settings" where
  "no_settings = \<lparr>sprefix = [], entries = []\<rparr>"

definition settings_clear :: "'d settings \<Rightarrow> 'd settings" where
  "settings_clear S = S\<lparr>entries := []\<rparr>"

text \<open>\<open>operator[]\<close> creates the entry; \<open>f\<close> is what the caller does with the reference.\<close>

definition settings_at :: "setting_path \<Rightarrow> ('d setting \<Rightarrow> 'd setting) \<Rightarrow> 'd settings \<Rightarrow> 'd settings" where
  "settings_at k f S = S\<lparr>entries := map_at (path_append (sprefix S) k) new_setting f (entries S)\<rparr>"

definition settings_at_string ::
  "(string \<Rightarrow> string) \<Rightarrow> string \<Rightarrow> ('d setting \<Rightarrow> 'd setting) \<Rightarrow> 'd settings \<Rightarrow> 'd settings result" where
  "settings_at_string msg k f S = bind_result (path_parse msg k) (\<lambda>p. Inr (settings_at p f S))"

definition settings_find :: "'d settings \<Rightarrow> setting_path \<Rightarrow> 'd setting result" where
  "settings_find S k =
     (case map_of (entries S) (path_append (sprefix S) k) of
        Some s \<Rightarrow> Inr s
      | None \<Rightarrow> Inl (Runtime_error (''No such setting: '' @ path_to_string k)))"

definition settings_find_string :: "(string \<Rightarrow> string) \<Rightarrow> 'd settings \<Rightarrow> string \<Rightarrow> 'd setting result" where
  "settings_find_string msg S k =
     bind_result (path_parse msg k) (\<lambda>p.
       case map_of (entries S) (path_append (sprefix S) p) of
         Some s \<Rightarrow> Inr s
       | None \<Rightarrow> Inl (Runtime_error (''No such setting: '' @ k)))"

definition has_saveable_items :: "'d settings \<Rightarrow> bool" where
  "has_saveable_items S \<longleftrightarrow> length (filter (\<lambda>(k, s). saveable s) (entries S)) \<noteq> 0"

section \<open>Loading a YAML tree\<close>

datatype yaml = Scalar string | Mapping "(string \<times> yaml) list" | Sequence | Null_node

fun load_entries :: "setting_path \<Rightarrow> (string \<times> yaml) list \<Rightarrow> 'd settings \<Rightarrow> unit result \<times> 'd settings" where
  "load_entries p [] S = (Inr (), S)"
| "load_entries p ((k, Scalar t) # kvs) S =
     load_entries p kvs (settings_at (path_append p (from_raw_string k)) (\<lambda>s. s\<lparr>representation := t\<rparr>) S)"
| "load_entries p ((k, Mapping m) # kvs) S =
     (case load_entries (path_append p (from_raw_string k)) m S of
        (Inl e, S') \<Rightarrow> (Inl e, S')
      | (Inr _, S') \<Rightarrow> load_entries p kvs S')"
| "load_entries p ((k, Sequence) # kvs) S = (Inl (Runtime_error ''sequences are not supported''), S)"
| "load_entries p ((k, Null_node) # kvs) S = (Inl (Runtime_error ''sequences are not supported''), S)"

definition load_yaml_tree :: "setting_path \<Rightarrow> yaml \<Rightarrow> 'd settings \<Rightarrow> unit result \<times> 'd settings" where
  "load_yaml_tree p y S = (case y of Mapping kvs \<Rightarrow> load_entries p kvs S | _ \<Rightarrow> (Inr (), S))"

section \<open>Files\<close>

text \<open>\<open>path::extension\<close> of a generic path: from the last dot of the file name, if it is not its first character.\<close>

definition file_name :: "string \<Rightarrow> string" where
  "file_name fn = rev (takeWhile (\<lambda>c. c \<noteq> CHR ''/'') (rev fn))"

definition file_extension :: "string \<Rightarrow> string" where
  "file_extension fn =
     (let f = file_name fn; e = takeWhile (\<lambda>c. c \<noteq> CHR ''.'') (rev f)
      in if CHR ''.'' \<notin> set f \<or> length e + 1 = length f \<or> f = ''..'' then [] else CHR ''.'' # rev e)"

definition is_yaml_file :: "string \<Rightarrow> bool" where
  "is_yaml_file fn \<longleftrightarrow> file_extension fn \<in> {''.yml'', ''.yaml'', ''.settings''} \<or> fn = ''.settings''"

text \<open>
  The outside: which files exist, the tree of a YAML file, the entries that the parser of
  settings files returns, whether directories can be made, and the entry of a value in a YAML
  node of the type \<open>'n\<close>.
\<close>

record ('d, 'n) settings_env =
  platform :: "'d platform"
  fs_exists :: "string \<Rightarrow> bool"
  yaml_file :: "string \<Rightarrow> yaml result"
  parsed_file :: "string \<Rightarrow> (setting_path \<times> 'd setting) list result"
  make_directories :: "string \<Rightarrow> bool"
  new_node :: 'n
  put_node :: "'n \<Rightarrow> setting_path \<Rightarrow> string \<Rightarrow> 'n"

definition load_file :: "('d, 'n) settings_env \<Rightarrow> string \<Rightarrow> 'd settings \<Rightarrow> unit result \<times> 'd settings" where
  "load_file E fn S =
     (if is_yaml_file fn then
        (case yaml_file E fn of Inl e \<Rightarrow> (Inl e, S) | Inr y \<Rightarrow> load_yaml_tree [] y S)
      else
        (case parsed_file E fn of Inl e \<Rightarrow> (Inl e, S) | Inr m \<Rightarrow> (Inr (), S\<lparr>entries := m\<rparr>)))"

fun dump_entries :: "('d, 'n) settings_env \<Rightarrow> (setting_path \<times> 'd setting) list \<Rightarrow> 'n \<Rightarrow> 'n result" where
  "dump_entries E [] n = Inr n"
| "dump_entries E ((k, s) # q) n =
     (if \<not> saveable s then dump_entries E q n
      else bind_result (setting_to_string (platform E) s) (\<lambda>t. dump_entries E q (put_node E n k t)))"

definition dump_yaml :: "('d, 'n) settings_env \<Rightarrow> 'd settings \<Rightarrow> 'n \<Rightarrow> 'n result" where
  "dump_yaml E S n = dump_entries E (entries S) n"

text \<open>\<open>save\<close>: what is written to the file, if anything; the other format is not implemented.\<close>

definition save_settings :: "('d, 'n) settings_env \<Rightarrow> string \<Rightarrow> 'd settings \<Rightarrow> 'n option result" where
  "save_settings E fn S =
     (if \<not> has_saveable_items S \<or> fn = [] then Inr None
      else if is_yaml_file fn then bind_result (dump_yaml E S (new_node E)) (\<lambda>n. Inr (Some n))
      else Inl (Runtime_error ''not implemented''))"

section \<open>The layers\<close>

text \<open>
  \<open>SettingStorage\<close> holds three maps and two file names. The flags of \<open>RUN_ONCE\<close> are static
  variables of \<open>get\<close>: there is one set for all storages. A flag is set before its block runs.
\<close>

record 'd setting_storage =
  system_config :: string
  user_config :: string
  local_settings :: "'d settings"
  user_settings :: "'d settings"
  system_settings :: "'d settings"

record once_flags =
  once_local :: bool
  once_user :: bool
  once_system :: bool

record ('d, 'n) world =
  flags :: once_flags
  storage :: "'d setting_storage"
  written :: "(string \<times> 'n) list"

definition get_system :: "('d, 'n) settings_env \<Rightarrow> ('d, 'n) world \<Rightarrow> unit result \<times> ('d, 'n) world" where
  "get_system E w =
     (if once_system (flags w) then (Inr (), w)
      else let w = w\<lparr>flags := (flags w)\<lparr>once_system := True\<rparr>\<rparr>; fn = system_config (storage w)
        in if fs_exists E fn
           then case load_file E fn (system_settings (storage w)) of
             (r, S) \<Rightarrow> (r, w\<lparr>storage := (storage w)\<lparr>system_settings := S\<rparr>\<rparr>)
           else (Inr (), w))"

definition get_user :: "('d, 'n) settings_env \<Rightarrow> ('d, 'n) world \<Rightarrow> unit result \<times> ('d, 'n) world" where
  "get_user E w =
     (if once_user (flags w) then (Inr (), w)
      else case get_system E (w\<lparr>flags := (flags w)\<lparr>once_user := True\<rparr>\<rparr>) of
        (Inl e, w) \<Rightarrow> (Inl e, w)
      | (Inr _, w) \<Rightarrow>
          let w = w\<lparr>storage := (storage w)\<lparr>user_settings := system_settings (storage w)\<rparr>\<rparr>; fn = user_config (storage w)
          in if fn = [] then (Inr (), w)
             else if fs_exists E fn
             then case load_file E fn (user_settings (storage w)) of
               (r, S) \<Rightarrow> (r, w\<lparr>storage := (storage w)\<lparr>user_settings := S\<rparr>\<rparr>)
             else if \<not> has_saveable_items (system_settings (storage w)) then (Inr (), w)
             else if \<not> make_directories E fn then (Inl (Runtime_error ''create_directories''), w)
             else case save_settings E fn (system_settings (storage w)) of
               Inl e \<Rightarrow> (Inl e, w)
             | Inr None \<Rightarrow> (Inr (), w)
             | Inr (Some n) \<Rightarrow> (Inr (), w\<lparr>written := written w @ [(fn, n)]\<rparr>))"

definition get_local :: "('d, 'n) settings_env \<Rightarrow> ('d, 'n) world \<Rightarrow> unit result \<times> ('d, 'n) world" where
  "get_local E w =
     (if once_local (flags w) then (Inr (), w)
      else case get_user E (w\<lparr>flags := (flags w)\<lparr>once_local := True\<rparr>\<rparr>) of
        (Inl e, w) \<Rightarrow> (Inl e, w)
      | (Inr _, w) \<Rightarrow> (Inr (), w\<lparr>storage := (storage w)\<lparr>local_settings := user_settings (storage w)\<rparr>\<rparr>))"

text \<open>\<open>get\<close> by the number of the \<open>SettingsType\<close>; the result refers to the layer of that number.\<close>

definition get_storage :: "('d, 'n) settings_env \<Rightarrow> int \<Rightarrow> ('d, 'n) world \<Rightarrow> unit result \<times> ('d, 'n) world" where
  "get_storage E ty w =
     (if ty < 0 \<or> ty \<ge> 3 then (Inl (Runtime_error ''No such settings storage''), w)
      else if ty = 0 then get_local E w
      else if ty = 1 then get_user E w
      else get_system E w)"

definition clear_local_settings :: "('d, 'n) settings_env \<Rightarrow> ('d, 'n) world \<Rightarrow> unit result \<times> ('d, 'n) world" where
  "clear_local_settings E w =
     (case get_user E w of
        (Inl e, w) \<Rightarrow> (Inl e, w)
      | (Inr _, w) \<Rightarrow>
          (case get_local E w of
             (Inl e, w) \<Rightarrow> (Inl e, w)
           | (Inr _, w) \<Rightarrow> (Inr (), w\<lparr>storage := (storage w)\<lparr>local_settings := user_settings (storage w)\<rparr>\<rparr>)))"

section \<open>What a YAML tree sets\<close>

text \<open>The scalars with their paths, in the order of the document, and the trees without sequences and nulls in mappings.\<close>

fun yaml_leaves :: "setting_path \<Rightarrow> (string \<times> yaml) list \<Rightarrow> (setting_path \<times> string) list" where
  "yaml_leaves p [] = []"
| "yaml_leaves p ((k, Scalar t) # kvs) = (p @ [k], t) # yaml_leaves p kvs"
| "yaml_leaves p ((k, Mapping m) # kvs) = yaml_leaves (p @ [k]) m @ yaml_leaves p kvs"
| "yaml_leaves p (_ # kvs) = yaml_leaves p kvs"

fun no_sequences :: "(string \<times> yaml) list \<Rightarrow> bool" where
  "no_sequences [] \<longleftrightarrow> True"
| "no_sequences ((k, Scalar t) # kvs) \<longleftrightarrow> no_sequences kvs"
| "no_sequences ((k, Mapping m) # kvs) \<longleftrightarrow> no_sequences m \<and> no_sequences kvs"
| "no_sequences (_ # kvs) \<longleftrightarrow> False"

definition set_text :: "setting_path \<times> string \<Rightarrow> 'd settings \<Rightarrow> 'd settings" where
  "set_text x S = (case x of (q, t) \<Rightarrow> settings_at q (\<lambda>s. s\<lparr>representation := t\<rparr>) S)"

lemma set_text_pair: "set_text (q, t) S = settings_at q (\<lambda>s. s\<lparr>representation := t\<rparr>) S"
  by (simp add: set_text_def)

lemma load_entries_leaves:
  "if no_sequences kvs then load_entries p kvs S = (Inr (), fold set_text (yaml_leaves p kvs) S)
   else (\<exists>S'. load_entries p kvs S = (Inl (Runtime_error ''sequences are not supported''), S'))"
proof (induction p kvs S rule: load_entries.induct)
  case (2 p k t kvs S)
  then show ?case by (simp add: path_append_def from_raw_string_def set_text_pair split: if_splits)
next
  case (3 p k m kvs S)
  show ?case
  proof (cases "no_sequences m")
    case True
    with "3.IH"(1) have "load_entries (p @ [k]) m S = (Inr (), fold set_text (yaml_leaves (p @ [k]) m) S)"
      by (simp add: path_append_def from_raw_string_def)
    with "3.IH"(2) True show ?thesis
      by (simp add: path_append_def from_raw_string_def)
  next
    case False
    with "3.IH"(1) show ?thesis
      by (auto simp: path_append_def from_raw_string_def)
  qed
qed simp_all

lemma sprefix_set_text [simp]: "sprefix (set_text x S) = sprefix S"
  by (simp add: set_text_def settings_at_def split: prod.splits)

lemma fold_set_text:
  "sorted_keys (entries S) \<Longrightarrow> sorted_keys (entries (fold set_text L S)) \<and> sprefix (fold set_text L S) = sprefix S
   \<and> map_of (entries (fold set_text L S)) (sprefix S @ q) =
       (case map_of (rev L) q of
          None \<Rightarrow> map_of (entries S) (sprefix S @ q)
        | Some t \<Rightarrow> Some ((case map_of (entries S) (sprefix S @ q) of Some s \<Rightarrow> s | None \<Rightarrow> new_setting)\<lparr>representation := t\<rparr>))"
proof (induction L arbitrary: S)
  case (Cons x L)
  obtain r t where x: "x = (r, t)" by (cases x)
  have sorted: "sorted_keys (entries (set_text x S))"
    using Cons.prems by (simp add: set_text_def settings_at_def sorted_map_at x)
  have "map_of (entries (set_text x S)) (sprefix S @ q) =
      (if q = r then Some ((case map_of (entries S) (sprefix S @ q) of Some s \<Rightarrow> s | None \<Rightarrow> new_setting)\<lparr>representation := t\<rparr>)
       else map_of (entries S) (sprefix S @ q))"
    using Cons.prems by (auto simp: set_text_def settings_at_def path_append_def map_of_map_at x)
  then show ?case
    using Cons.IH [OF sorted] by (auto simp: x map_add_def split: option.splits)
qed simp

text \<open>
  C22: Loading a YAML tree sets the text of exactly the settings at its scalars, below the prefix
  of the map; of several scalars at one path the last one counts, values that were loaded
  before stay in the setting, and all other settings are as before. A sequence or a null inside
  a mapping is an exception; a document that is no mapping is ignored.
\<close>

theorem yaml_load_values:
  assumes "sorted_keys (entries S)" "load_yaml_tree [] y S = (r, S')"
  shows "case y of
      Mapping kvs \<Rightarrow>
        (if no_sequences kvs then r = Inr () else r = Inl (Runtime_error ''sequences are not supported''))
        \<and> (no_sequences kvs \<longrightarrow> map_of (entries S') (sprefix S @ q) =
            (case map_of (rev (yaml_leaves [] kvs)) q of
               None \<Rightarrow> map_of (entries S) (sprefix S @ q)
             | Some t \<Rightarrow> Some ((case map_of (entries S) (sprefix S @ q) of Some s \<Rightarrow> s | None \<Rightarrow> new_setting)\<lparr>representation := t\<rparr>)))
    | _ \<Rightarrow> r = Inr () \<and> S' = S"
proof (cases y)
  case (Mapping kvs)
  then show ?thesis
    using assms(2) load_entries_leaves [of kvs "[]" S] fold_set_text [OF assms(1), of "yaml_leaves [] kvs" q]
    by (cases "no_sequences kvs") (auto simp: load_yaml_tree_def)
qed (use assms(2) in \<open>simp_all add: load_yaml_tree_def\<close>)

lemma yaml_load_values_witness:
  "map_of (entries (snd (load_yaml_tree [] (Mapping [(''a'', Mapping [(''b'', Scalar ''1''), (''b'', Scalar ''2'')])])
      (no_settings :: nat settings)))) [''a'', ''b''] = Some (new_setting\<lparr>representation := ''2''\<rparr>)"
proof -
  let ?y = "Mapping [(''a'', Mapping [(''b'', Scalar ''1''), (''b'', Scalar ''2'')])]"
  obtain r S' where l: "load_yaml_tree [] ?y (no_settings :: nat settings) = (r, S')" by fastforce
  have "sorted_keys (entries (no_settings :: nat settings))" by (simp add: no_settings_def)
  from yaml_load_values [OF this l, of "[''a'', ''b'']"] l show ?thesis
    by (simp add: no_settings_def)
qed

section \<open>The layers are loaded once\<close>

definition once_flag :: "int \<Rightarrow> once_flags \<Rightarrow> bool" where
  "once_flag ty f \<longleftrightarrow> (if ty = 0 then once_local f else if ty = 1 then once_user f else once_system f)"

lemma get_system_flags:
  "get_system E w = (r, w') \<Longrightarrow> flags w' = (flags w)\<lparr>once_system := True\<rparr>"
  by (auto simp: get_system_def Let_def split: if_splits prod.splits)

lemma get_user_flags: "get_user E w = (r, w') \<Longrightarrow> once_user (flags w') \<and> once_local (flags w') = once_local (flags w)"
  by (auto simp: get_user_def Let_def dest!: get_system_flags
      split: if_splits prod.splits sum.splits option.splits)

lemma get_local_flags: "get_local E w = (r, w') \<Longrightarrow> once_local (flags w')"
  by (auto simp: get_local_def dest!: get_user_flags split: if_splits prod.splits sum.splits)

lemma get_storage_flags:
  "get_storage E ty w = (r, w') \<Longrightarrow> 0 \<le> ty \<Longrightarrow> ty < 3 \<Longrightarrow> once_flag ty (flags w')"
  by (auto simp: get_storage_def once_flag_def split: if_splits
      dest: get_local_flags get_user_flags get_system_flags)

lemma get_storage_again:
  "once_flag ty (flags w) \<Longrightarrow> 0 \<le> ty \<Longrightarrow> ty < 3 \<Longrightarrow> get_storage E ty w = (Inr (), w)"
  by (auto simp: get_storage_def once_flag_def get_local_def get_user_def get_system_def split: if_splits)

text \<open>
  A layer is loaded at the first access only. Every later access returns it as it is,
  whatever happened to the files in between; this also hides an exception of the first access,
  and it leaves the layers of a second storage empty, since the flags are shared by all of them.
\<close>

theorem storage_loads_once:
  assumes "0 \<le> ty" "ty < 3" and "get_storage E ty w = (r, w')"
  shows "get_storage E' ty w' = (Inr (), w') \<and> get_storage E' ty (w'\<lparr>storage := st\<rparr>) = (Inr (), w'\<lparr>storage := st\<rparr>)"
  using get_storage_again [of ty w' E'] get_storage_again [of ty "w'\<lparr>storage := st\<rparr>" E']
    get_storage_flags [OF assms(3,1,2)] assms(1,2) by simp

text \<open>An environment with one user file, and the world at the start of the program.\<close>

definition one_file :: "(nat, nat) settings_env" where
  "one_file = \<lparr>platform = linux, fs_exists = (\<lambda>fn. fn = ''user.yml''),
     yaml_file = (\<lambda>_. Inr (Mapping [(''a'', Scalar ''1'')])), parsed_file = (\<lambda>_. Inr []),
     make_directories = (\<lambda>_. True), new_node = 0, put_node = (\<lambda>n _ _. n)\<rparr>"

definition new_world :: "string \<Rightarrow> string \<Rightarrow> (nat, nat) world" where
  "new_world sys usr = \<lparr>flags = \<lparr>once_local = False, once_user = False, once_system = False\<rparr>,
     storage = \<lparr>system_config = sys, user_config = usr, local_settings = no_settings, user_settings = no_settings,
       system_settings = no_settings\<rparr>, written = []\<rparr>"

lemma storage_loads_once_witness:
  "get_storage one_file 1 (snd (get_storage one_file 1 (new_world [] ''user.yml'')))
     = (Inr (), snd (get_storage one_file 1 (new_world [] ''user.yml'')))"
proof -
  obtain r w' where "get_storage one_file 1 (new_world [] ''user.yml'') = (r, w')" by fastforce
  with storage_loads_once [OF _ _ this, of one_file] show ?thesis by simp
qed

text \<open>
  At the first access to the local settings, with both files present, the system file is
  loaded into the system layer, the user file on top of a copy of it, and the local layer is a
  copy of the result. Nothing is written. Without a user file the user and the local layer are
  the system layer, and its saveable settings are written to the user file.
\<close>

theorem storage_layers:
  assumes "get_local E w = (Inr (), w')" and "flags w = \<lparr>once_local = False, once_user = False, once_system = False\<rparr>"
    and "fs_exists E (system_config (storage w))" "user_config (storage w) \<noteq> []"
  shows "load_file E (system_config (storage w)) (system_settings (storage w)) = (Inr (), system_settings (storage w'))
    \<and> local_settings (storage w') = user_settings (storage w')
    \<and> (if fs_exists E (user_config (storage w))
       then load_file E (user_config (storage w)) (system_settings (storage w')) = (Inr (), user_settings (storage w'))
         \<and> written w' = written w
       else user_settings (storage w') = system_settings (storage w')
         \<and> (has_saveable_items (system_settings (storage w')) \<longrightarrow>
              (\<exists>n. save_settings E (user_config (storage w)) (system_settings (storage w')) = Inr (Some n)
                \<and> written w' = written w @ [(user_config (storage w), n)])))"
  using assms
  by (auto simp: get_local_def get_user_def get_system_def save_settings_def Let_def bind_result_Inr_iff
      split: prod.splits sum.splits option.splits if_splits)

lemma storage_layers_witness:
  "local_settings (storage (snd (get_local one_file (new_world ''user.yml'' ''user.yml''))))
     = user_settings (storage (snd (get_local one_file (new_world ''user.yml'' ''user.yml''))))"
proof -
  have ok: "get_local one_file (new_world ''user.yml'' ''user.yml'') =
      (Inr (), snd (get_local one_file (new_world ''user.yml'' ''user.yml'')))"
    by (simp add: get_local_def get_user_def get_system_def Let_def new_world_def one_file_def load_file_def
        load_yaml_tree_def no_settings_def split: prod.splits)
  show ?thesis
    using storage_layers [OF ok] by (simp add: new_world_def one_file_def)
qed

end
