(* ===== verification/SettingsFile.thy ===== *)
theory SettingsFile
  imports SettingsStore
begin

text \<open>
  Files of settings: the actions of the grammar \<open>settings.yy\<close> on the items of a file, and the
  conversion of integer literals, \<open>str2int\<close> of \<open>settings.ll\<close>. The scanner's start conditions and
  the parser generated from the grammar are not modelled; the items are what it reduces.

  \<^item> the map of a file takes every path from its first item;
  \<^item> inside a table, the settings of an inline table carry the table's key twice;
  \<^item> which integer literals are read as their value, and which end in an exception.
\<close>

section \<open>Items and values\<close>

datatype 'd file_value = Text string | Truth bool | Integer int | Float 'd | Array

text \<open>\<open>value\<close>: an integer that fits is an \<open>int\<close>, another one an \<open>int64_t\<close>; an array is dropped.\<close>

definition value_setting :: "'d platform \<Rightarrow> 'd file_value \<Rightarrow> 'd setting" where
  "value_setting P v =
     (case v of
        Text s \<Rightarrow> setting_assign T_string (String s) new_setting
      | Truth b \<Rightarrow> setting_assign T_bool (Bool b) new_setting
      | Integer n \<Rightarrow>
          if n > int32_max \<or> n < - int32_max - 1 then setting_assign (int64_type P) (Number n) new_setting
          else setting_assign T_int (Number n) new_setting
      | Float d \<Rightarrow> setting_assign T_double (Real d) new_setting
      | Array \<Rightarrow> new_setting)"

datatype 'd file_item =
    Key_value setting_path "'d file_value"
  | Key_inline setting_path "'d file_item list"
  | Table setting_path

text \<open>
  The actions, from left to right with the driver's \<open>table_key\<close>. A setting is a map of one
  entry, \<open>settings\<close> inserts the maps of its items into one another, and an inline table puts the
  table's key and its own key before the keys of its entries.
\<close>

definition insert_all :: "('k::linorder \<times> 'v) list \<Rightarrow> ('k \<times> 'v) list \<Rightarrow> ('k \<times> 'v) list" where
  "insert_all m acc = foldl (\<lambda>a (k, v). emplace k v a) acc m"

fun act_item :: "'d platform \<Rightarrow> 'd file_item \<Rightarrow> setting_path \<Rightarrow> (setting_path \<times> 'd setting) list \<times> setting_path"
  and act_items ::
    "'d platform \<Rightarrow> 'd file_item list \<Rightarrow> setting_path \<Rightarrow> (setting_path \<times> 'd setting) list \<Rightarrow>
     (setting_path \<times> 'd setting) list \<times> setting_path" where
  "act_item P (Key_value k v) tk = (emplace (path_append tk k) (value_setting P v) [], tk)"
| "act_item P (Key_inline k is) tk =
     (case act_items P is tk [] of
        (m, tk') \<Rightarrow> (insert_all (map (\<lambda>(k', v). (path_append (path_append tk' k) k', v)) m) [], tk'))"
| "act_item P (Table k) tk = ([], k)"
| "act_items P [] tk acc = (acc, tk)"
| "act_items P (i # is) tk acc =
     (case act_item P i tk of (m, tk') \<Rightarrow> act_items P is tk' (insert_all m acc))"

definition file_map :: "'d platform \<Rightarrow> 'd file_item list \<Rightarrow> (setting_path \<times> 'd setting) list" where
  "file_map P is = fst (act_items P is [] [])"

text \<open>\<open>Settings::load\<close> of a text, whose items the parser \<open>parse\<close> found.\<close>

definition load_string ::
  "'d platform \<Rightarrow> (string \<Rightarrow> 'd file_item list result) \<Rightarrow> string \<Rightarrow> 'd settings \<Rightarrow> 'd settings result" where
  "load_string P parse s S = bind_result (parse s) (\<lambda>is. Inr (S\<lparr>entries := file_map P is\<rparr>))"

section \<open>What a file says\<close>

text \<open>The entries in the order of the file, and the table key after it.\<close>

fun item_entries :: "'d platform \<Rightarrow> 'd file_item \<Rightarrow> setting_path \<Rightarrow> (setting_path \<times> 'd setting) list \<times> setting_path"
  and items_entries :: "'d platform \<Rightarrow> 'd file_item list \<Rightarrow> setting_path \<Rightarrow> (setting_path \<times> 'd setting) list \<times> setting_path" where
  "item_entries P (Key_value k v) tk = ([(tk @ k, value_setting P v)], tk)"
| "item_entries P (Key_inline k is) tk =
     (case items_entries P is tk of (m, tk') \<Rightarrow> (map (\<lambda>(k', v). (tk' @ k @ k', v)) m, tk'))"
| "item_entries P (Table k) tk = ([], k)"
| "items_entries P [] tk = ([], tk)"
| "items_entries P (i # is) tk =
     (case item_entries P i tk of (m, tk') \<Rightarrow> case items_entries P is tk' of (m', tk'') \<Rightarrow> (m @ m', tk''))"

lemma insert_all_map:
  "sorted_keys acc \<Longrightarrow> sorted_keys (insert_all m acc) \<and> map_of (insert_all m acc) = map_of m ++ map_of acc"
proof (induction m arbitrary: acc)
  case (Cons x m)
  obtain k v where x: "x = (k, v)" by (cases x)
  have "sorted_keys (insert_all m (emplace k v acc)) \<and>
      map_of (insert_all m (emplace k v acc)) = map_of m ++ map_of (emplace k v acc)"
    by (rule Cons.IH [OF sorted_emplace [OF Cons.prems]])
  moreover have "map_of m ++ map_of (emplace k v acc) = (map_of m)(k \<mapsto> v) ++ map_of acc"
    unfolding map_of_emplace [OF Cons.prems]
    by (rule ext) (auto simp: map_add_def split: option.split)
  ultimately show ?case by (simp add: insert_all_def x fun_upd_def)
qed (simp add: insert_all_def)

lemma map_of_map_key:
  "inj f \<Longrightarrow> map_of (map (\<lambda>(k, v). (f k, v)) m) = map_of (map (\<lambda>(k, v). (f k, v)) m') \<longleftrightarrow> map_of m = map_of m'"
proof -
  assume f: "inj f"
  have at: "map_of (map (\<lambda>(k, v). (f k, v)) m) (f q) = map_of m q" for m q
    using f by (induction m) (auto dest: injD)
  have out: "r \<notin> range f \<Longrightarrow> map_of (map (\<lambda>(k, v). (f k, v)) m) r = None" for m r
    by (induction m) auto
  show ?thesis
  proof
    assume "map_of (map (\<lambda>(k, v). (f k, v)) m) = map_of (map (\<lambda>(k, v). (f k, v)) m')"
    then show "map_of m = map_of m'" by (metis at ext)
  next
    assume "map_of m = map_of m'"
    then show "map_of (map (\<lambda>(k, v). (f k, v)) m) = map_of (map (\<lambda>(k, v). (f k, v)) m')"
      by (intro ext) (metis at out rangeE)
  qed
qed

lemma act_items_entries:
  shows "\<exists>m. act_item P i tk = (m, snd (item_entries P i tk)) \<and> sorted_keys m \<and> map_of m = map_of (fst (item_entries P i tk))"
    and "sorted_keys acc \<Longrightarrow> \<exists>m. act_items P is tk acc = (m, snd (items_entries P is tk)) \<and> sorted_keys m
      \<and> map_of m = map_of (fst (items_entries P is tk)) ++ map_of acc"
proof (induction P i tk and P "is" tk acc rule: act_item_act_items.induct)
  case (2 P k "is" tk)
  then obtain m where m: "act_items P is tk [] = (m, snd (items_entries P is tk))"
    "map_of m = map_of (fst (items_entries P is tk))"
    by auto
  let ?f = "\<lambda>k'. snd (items_entries P is tk) @ k @ k'"
  have "inj ?f" by (rule injI) simp
  then have "map_of (map (\<lambda>(k', v). (?f k', v)) m) = map_of (map (\<lambda>(k', v). (?f k', v)) (fst (items_entries P is tk)))"
    using m(2) by (simp only: map_of_map_key)
  with insert_all_map [of "[]" "map (\<lambda>(k', v). (?f k', v)) m"] show ?case
    by (simp add: m(1) path_append_def split: prod.splits)
next
  case (5 P i "is" tk acc)
  from "5.IH"(1) obtain m where m: "act_item P i tk = (m, snd (item_entries P i tk))"
    "map_of m = map_of (fst (item_entries P i tk))" by blast
  have sorted: "sorted_keys (insert_all m acc)" and keys: "map_of (insert_all m acc) = map_of m ++ map_of acc"
    using insert_all_map [OF "5.prems", of m] by blast+
  from "5.IH"(2) [OF m(1) [symmetric] sorted] show ?case
    by (simp add: m keys split_beta)
qed (auto simp: path_append_def)

text \<open>
  A file of settings gives the map in which every path has the value of its first item,
  where an item counts below the last table header before it. An entry of an inline table
  inside a table comes out below the table's key twice.
\<close>

theorem settings_file_values:
  "sorted_keys (file_map P is) \<and> map_of (file_map P is) = map_of (fst (items_entries P is []))
   \<and> map_of (file_map P [Table t, Key_inline a [Key_value b v]]) = [t @ a @ t @ b \<mapsto> value_setting P v]"
proof -
  have "sorted_keys (file_map P is) \<and> map_of (file_map P is) = map_of (fst (items_entries P is []))" for "is"
    using act_items_entries(2) [of "[]" P "is" "[]"] by (auto simp: file_map_def)
  then show ?thesis by simp
qed

section \<open>Integer literals\<close>

definition remove_delims :: "string \<Rightarrow> string" where
  "remove_delims s = filter is_xdigit s"

text \<open>
  \<open>std::stoll\<close> with a base on the texts that it gets here, which begin with neither white space,
  a sign nor \<open>0x\<close>: the digits at the front.
\<close>

definition base_digit :: "int \<Rightarrow> char \<Rightarrow> bool" where
  "base_digit b c \<longleftrightarrow> is_xdigit c \<and> xdigit_value c < b"

definition base_value :: "int \<Rightarrow> string \<Rightarrow> int" where
  "base_value b s = foldl (\<lambda>a c. b * a + xdigit_value c) 0 s"

definition stoll_base :: "int \<Rightarrow> string \<Rightarrow> int result" where
  "stoll_base b s =
     (let d = takeWhile (base_digit b) s
      in if d = [] then Inl (invalid_argument ''stoll'')
         else if base_value b d > int64_max then Inl Out_of_range
         else Inr (base_value b d))"

definition str2int :: "string \<Rightarrow> int \<Rightarrow> bool \<Rightarrow> int result" where
  "str2int s base has_delims =
     (let sign = (if hd s = CHR ''-'' \<or> hd s = CHR ''+'' then 1 else 0);
          o_prefix = (if sign = 1 then if s ! 2 = CHR ''o'' then 1 else 0 else if s ! 1 = CHR ''0'' then 1 else 0)
      in bind_result
           (if base = 10 then stoll_base 10 (remove_delims s)
            else if base = 16 then stoll_base 16 (remove_delims (drop (2 + sign) s))
            else if base = 8 then
              if has_delims then stoll_base 8 (remove_delims (drop (1 + sign + o_prefix) s))
              else stoll_base 8 (drop (1 + sign + o_prefix) s)
            else if has_delims then stoll_base 2 (remove_delims (drop (2 + sign) s))
            else stoll_base 2 (drop (2 + sign) s))
           (\<lambda>v. Inr (if hd s = CHR ''-'' then - v else v)))"

definition literal_sign :: "string \<Rightarrow> bool" where
  "literal_sign sg \<longleftrightarrow> sg \<in> {[], ''-'', ''+''}"

definition signed :: "string \<Rightarrow> int \<Rightarrow> int" where
  "signed sg n = (if sg = ''-'' then - n else n)"

definition digits_in :: "int \<Rightarrow> string \<Rightarrow> bool" where
  "digits_in b d \<longleftrightarrow> d \<noteq> [] \<and> list_all (base_digit b) d"

lemma stoll_base_digits:
  assumes "digits_in b d" "base_value b d \<le> int64_max" "r = [] \<or> \<not> base_digit b (hd r)"
  shows "stoll_base b (d @ r) = Inr (base_value b d)"
proof -
  have "takeWhile (base_digit b) (d @ r) = d"
    using assms(1,3) by (cases r) (auto simp: digits_in_def list_all_iff takeWhile_append2)
  then show ?thesis using assms(1,2) by (simp add: stoll_base_def digits_in_def)
qed

lemma base_value_zero: "base_value b (CHR ''0'' # d) = base_value b d"
  by (simp add: base_value_def xdigit_value_def)

text \<open>
  The integer literals without delimiters, in binary and octal notation, with trailing blanks.
  A binary literal is its value. An octal literal is its value with a sign, and without one if
  it does not start with the letter \<open>o\<close> and is not \<open>00\<close>: these two end in an exception, because
  the prefix without a sign is looked for with a zero in place of the letter.
\<close>

theorem integer_literals:
  assumes "literal_sign sg" and "r = [] \<or> is_blank (hd r)"
  shows "(digits_in 2 d \<and> base_value 2 d \<le> int64_max \<longrightarrow> str2int (sg @ ''0b'' @ d @ r) 2 False = Inr (signed sg (base_value 2 d)))
    \<and> (digits_in 8 d \<and> base_value 8 d \<le> int64_max \<longrightarrow>
         str2int (sg @ ''0'' @ d @ r) 8 False =
           (if sg = [] \<and> d = ''0'' then Inl (invalid_argument ''stoll'') else Inr (signed sg (base_value 8 d)))
       \<and> str2int (sg @ ''0o'' @ d @ r) 8 False =
           (if sg = [] then Inl (invalid_argument ''stoll'') else Inr (signed sg (base_value 8 d))))"
proof -
  have blank: "r = [] \<or> \<not> base_digit b (hd r)" for b
    using assms(2) by (auto simp: is_blank_def base_digit_def is_xdigit_def is_digit_def)
  have o: "\<not> base_digit 8 (CHR ''o'')"
    by (simp add: base_digit_def is_xdigit_def is_digit_def)
  note stoll = stoll_base_digits [OF _ _ blank]
  show ?thesis
  proof (intro conjI impI)
    assume d: "digits_in 2 d \<and> base_value 2 d \<le> int64_max"
    then show "str2int (sg @ ''0b'' @ d @ r) 2 False = Inr (signed sg (base_value 2 d))"
      using assms(1) stoll [of 2 d]
      by (auto simp: str2int_def literal_sign_def signed_def)
  next
    assume d: "digits_in 8 d \<and> base_value 8 d \<le> int64_max"
    then obtain c d' where c: "d = c # d'" by (cases d) (auto simp: digits_in_def)
    have "c \<noteq> CHR ''o''" using d c o by (auto simp: digits_in_def)
    moreover have "stoll_base 8 (d' @ r) = (if d' = [] then Inl (invalid_argument ''stoll'') else Inr (base_value 8 d))"
      if "c = CHR ''0''"
    proof (cases "d' = []")
      case True
      have "takeWhile (base_digit 8) r = []" using blank [of 8] by (cases r) auto
      then show ?thesis using True by (simp add: stoll_base_def)
    next
      case False
      then show ?thesis
        using d c that stoll [of 8 d'] base_value_zero [of 8 d'] by (simp add: digits_in_def)
    qed
    ultimately show "str2int (sg @ ''0'' @ d @ r) 8 False =
        (if sg = [] \<and> d = ''0'' then Inl (invalid_argument ''stoll'') else Inr (signed sg (base_value 8 d)))"
      using assms(1) d c stoll [of 8 d] by (auto simp: str2int_def literal_sign_def signed_def)
  next
    assume d: "digits_in 8 d \<and> base_value 8 d \<le> int64_max"
    have "stoll_base 8 (CHR ''o'' # d @ r) = Inl (invalid_argument ''stoll'')"
      using o by (simp add: stoll_base_def)
    then show "str2int (sg @ ''0o'' @ d @ r) 8 False =
        (if sg = [] then Inl (invalid_argument ''stoll'') else Inr (signed sg (base_value 8 d)))"
      using assms(1) d stoll [of 8 d] by (auto simp: str2int_def literal_sign_def signed_def)
  qed
qed

lemma integer_literals_witness:
  "str2int ''-0b101 '' 2 False = Inr (- 5) \<and> str2int ''017'' 8 False = Inr 15
   \<and> str2int ''0o17'' 8 False = Inl (invalid_argument ''stoll'')"
proof -
  have d: "digits_in 2 ''101''" "digits_in 8 ''17''" "base_value 2 ''101'' = 5" "base_value 8 ''17'' = 15"
    by code_simp+
  show ?thesis
    using integer_literals [of "''-''" "'' ''" "''101''"] integer_literals [of "[]" "[]" "''17''"] d
    by (simp add: literal_sign_def signed_def is_blank_def int64_max_def)
qed

end
