(* ===== verification/Arguments.thy ===== *)
theory Arguments
  imports Prelude
begin

text \<open>
  The arguments of a command (\<open>argument.h\<close>): quoting, positions with their order, and the list
  of arguments. \<open>boost::replace_all\<close> is a parameter; \<open>replaces_chars\<close> states what it does with a
  pattern of one character.

  \<^item> an argument that is escaped and quoted is read back as it was; quoting alone is ambiguous;
  \<^item> the order of positions is a strict weak order, the lexicographic order of the positions
    padded with zeros;
  \<^item> which arguments the operations of the list leave, and in which order.
\<close>

section \<open>Quoting\<close>

datatype quote_type = Quote_none | Quote_simple | Quote_escape | Quote_simple_and_escape

definition dquote :: char where "dquote = CHR 0x22"
definition bslash :: char where "bslash = CHR 0x5C"

lemma bslash_dquote [simp]: "bslash \<noteq> dquote" "dquote \<noteq> bslash"
  by (simp_all add: bslash_def dquote_def)

definition quote_simple :: "string \<Rightarrow> string" where
  "quote_simple s = (if s \<noteq> [] \<and> hd s = dquote then s else dquote # s @ [dquote])"

definition quote_escape :: "(string \<Rightarrow> string \<Rightarrow> string \<Rightarrow> string) \<Rightarrow> string \<Rightarrow> string" where
  "quote_escape replace_all s = replace_all (replace_all s [bslash] [bslash, bslash]) [dquote] [bslash, dquote]"

definition quote :: "(string \<Rightarrow> string \<Rightarrow> string \<Rightarrow> string) \<Rightarrow> quote_type \<Rightarrow> string \<Rightarrow> string" where
  "quote replace_all q s =
     (case q of
        Quote_none \<Rightarrow> s
      | Quote_simple \<Rightarrow> quote_simple s
      | Quote_escape \<Rightarrow> quote_escape replace_all s
      | Quote_simple_and_escape \<Rightarrow> quote_simple (quote_escape replace_all s))"

text \<open>\<open>boost::replace_all\<close> with a pattern of one character: every occurrence is replaced.\<close>

definition replace_char :: "string \<Rightarrow> char \<Rightarrow> string \<Rightarrow> string" where
  "replace_char s c r = concat (map (\<lambda>x. if x = c then r else [x]) s)"

definition replaces_chars :: "(string \<Rightarrow> string \<Rightarrow> string \<Rightarrow> string) \<Rightarrow> bool" where
  "replaces_chars f \<longleftrightarrow> (\<forall>s c r. f s [c] r = replace_char s c r)"

text \<open>A reader of quoted arguments: between quotation marks, a backslash takes the next character as it is.\<close>

fun read_quoted :: "string \<Rightarrow> (string \<times> string) option" where
  "read_quoted [] = None"
| "read_quoted (c # s) =
     (if c = dquote then Some ([], s)
      else if c = bslash then
        (case s of [] \<Rightarrow> None | d # s' \<Rightarrow> map_option (\<lambda>(t, r). (d # t, r)) (read_quoted s'))
      else map_option (\<lambda>(t, r). (c # t, r)) (read_quoted s))"

fun read_argument :: "string \<Rightarrow> (string \<times> string) option" where
  "read_argument [] = None"
| "read_argument (c # s) = (if c = dquote then read_quoted s else None)"

definition escape_char :: "char \<Rightarrow> string" where
  "escape_char c = (if c = bslash \<or> c = dquote then [bslash, c] else [c])"

lemma quote_escape_chars:
  assumes "replaces_chars f"
  shows "quote_escape f s = concat (map escape_char s)"
proof (induction s)
  case (Cons c s)
  then show ?case
    using assms by (auto simp: quote_escape_def replaces_chars_def replace_char_def escape_char_def)
qed (use assms in \<open>simp add: quote_escape_def replaces_chars_def replace_char_def\<close>)

lemma read_quoted_escape: "read_quoted (concat (map escape_char s) @ dquote # r) = Some (s, r)"
  by (induction s) (auto simp: escape_char_def)

lemma quote_simple_escaped:
  "quote_simple (concat (map escape_char s)) = dquote # concat (map escape_char s) @ [dquote]"
  by (cases s) (auto simp: escape_char_def quote_simple_def)

interpretation argument_codec: codec "\<lambda>s. quote_simple (concat (map escape_char s))"
  "\<lambda>t. case read_argument t of Some (s, []) \<Rightarrow> Inr s | _ \<Rightarrow> Inl Undefined" "\<lambda>_. True"
proof unfold_locales
  fix s
  show "(case read_argument (quote_simple (concat (map escape_char s))) of Some (s, []) \<Rightarrow> Inr s | _ \<Rightarrow> Inl Undefined) = Inr s"
    by (simp add: quote_simple_escaped read_quoted_escape)
qed

text \<open>
  An argument that is escaped and quoted is read back as it was, also when it begins with a
  quotation mark, and different arguments are written differently. Quoting alone, which is
  what printing a command uses, writes an argument and the same argument in quotation marks alike.
\<close>

theorem quote_readable:
  assumes "replaces_chars f"
  shows "read_argument (quote f Quote_simple_and_escape s @ r) = Some (s, r)
    \<and> (quote f Quote_simple_and_escape s = quote f Quote_simple_and_escape t \<longrightarrow> s = t)
    \<and> (s = [] \<or> hd s \<noteq> dquote \<longrightarrow> quote f Quote_simple s = quote f Quote_simple (dquote # s @ [dquote]))"
proof -
  have e: "quote f Quote_simple_and_escape u = quote_simple (concat (map escape_char u))" for u
    using quote_escape_chars [OF assms] by (simp add: quote_def)
  show ?thesis
    using argument_codec.enc_inj [of s t]
    by (auto simp: e quote_simple_escaped read_quoted_escape) (auto simp: quote_def quote_simple_def)
qed

lemma quote_readable_witness:
  "read_argument (quote (\<lambda>s p r. replace_char s (hd p) r) Quote_simple_and_escape [CHR ''a'', bslash, dquote])
     = Some ([CHR ''a'', bslash, dquote], [])"
proof -
  have "replaces_chars (\<lambda>s p r. replace_char s (hd p) r)" by (simp add: replaces_chars_def)
  from quote_readable [OF this, of _ "[]"] show ?thesis by simp
qed

section \<open>Positions\<close>

type_synonym position = "int list"

fun first_nonzero :: "int list \<Rightarrow> int" where
  "first_nonzero [] = 0"
| "first_nonzero (x # xs) = (if x \<noteq> 0 then x else first_nonzero xs)"

text \<open>The two loops over the rest of the longer position decide by its first element that is not zero.\<close>

fun position_compare :: "position \<Rightarrow> position \<Rightarrow> bool" where
  "position_compare [] [] = False"
| "position_compare [] (y # ys) = (first_nonzero (y # ys) > 0)"
| "position_compare (x # xs) [] = (first_nonzero (x # xs) < 0)"
| "position_compare (x # xs) (y # ys) = (if x < y then True else if x > y then False else position_compare xs ys)"

definition position_lt :: "position \<Rightarrow> position \<Rightarrow> bool" where
  "position_lt p q = (if length p = length q then p < q else position_compare p q)"

definition pad :: "nat \<Rightarrow> position \<Rightarrow> position" where
  "pad n p = p @ replicate (n - length p) 0"

lemma pad_simps [simp]: "pad 0 p = p" "pad (Suc n) (x # p) = x # pad n p" "pad (Suc n) [] = 0 # pad n []"
  by (simp_all add: pad_def)

lemma zero_less_iff: "length p \<le> n \<Longrightarrow> pad n [] < pad n p \<longleftrightarrow> first_nonzero p > 0"
proof (induction n arbitrary: p)
  case (Suc n)
  then show ?case by (cases p) auto
qed simp

lemma less_zero_iff: "length p \<le> n \<Longrightarrow> pad n p < pad n [] \<longleftrightarrow> first_nonzero p < 0"
proof (induction n arbitrary: p)
  case (Suc n)
  then show ?case by (cases p) auto
qed simp

lemma position_compare_pad:
  "length p \<le> n \<Longrightarrow> length q \<le> n \<Longrightarrow> position_compare p q \<longleftrightarrow> pad n p < pad n q"
proof (induction p q arbitrary: n rule: position_compare.induct)
  case (2 y ys)
  then show ?case using zero_less_iff [of "y # ys" n] by (simp del: first_nonzero.simps)
next
  case (3 x xs)
  then show ?case using less_zero_iff [of "x # xs" n] by (simp del: first_nonzero.simps)
next
  case (4 x xs y ys)
  then show ?case by (cases n) auto
qed simp

lemma position_lt_pad:
  assumes "length p \<le> n" "length q \<le> n"
  shows "position_lt p q \<longleftrightarrow> pad n p < pad n q"
proof (cases "length p = length q")
  case True
  have "(u @ z < v @ z) = (u < v)" if "length u = length v" for u v z :: "int list"
    using that by (induction u v rule: list_induct2) auto
  with True show ?thesis by (simp add: position_lt_def pad_def)
qed (simp add: position_lt_def position_compare_pad [OF assms])

definition position_eq :: "position \<Rightarrow> position \<Rightarrow> bool" where
  "position_eq p q \<longleftrightarrow> \<not> position_lt p q \<and> \<not> position_lt q p"

lemma position_pads:
  "length p \<le> n \<Longrightarrow> length q \<le> n \<Longrightarrow> position_eq p q \<longleftrightarrow> pad n p = pad n q"
  by (auto simp: position_eq_def position_lt_pad)

interpretation position_order: weak_order position_lt position_eq
proof unfold_locales
  fix x y z :: position
  define n where "n = max (length x) (max (length y) (length z))"
  have n: "length x \<le> n" "length y \<le> n" "length z \<le> n"
    by (simp_all add: n_def)
  note pads = position_lt_pad [OF n(1,2)] position_lt_pad [OF n(2,1)] position_lt_pad [OF n(2,3)] position_lt_pad [OF n(1,3)]
    position_pads [OF n(1,2)] position_pads [OF n(2,1)] position_pads [OF n(2,3)] position_pads [OF n(1,3)] position_pads [OF n(1,1)]
  show "position_eq x x" "position_eq x y \<Longrightarrow> position_eq y x" "position_eq x y \<Longrightarrow> position_eq y z \<Longrightarrow> position_eq x z"
    "position_lt x y \<Longrightarrow> \<not> position_eq x y" "position_lt x y \<Longrightarrow> \<not> position_lt y x"
    "position_lt x y \<Longrightarrow> position_lt y z \<Longrightarrow> position_lt x z" "position_lt x y \<Longrightarrow> position_eq y z \<Longrightarrow> position_lt x z"
    "position_eq x y \<Longrightarrow> position_lt y z \<Longrightarrow> position_lt x z" "position_lt x y \<or> position_eq x y \<or> position_lt y x"
    unfolding pads by (auto intro: less_trans)
qed

text \<open>
  The order of positions is the lexicographic order of the positions padded with zeros to a
  common length, although positions of equal length are compared directly and others by
  loops. It is a strict weak order, as sorting by it requires, and positions that differ in
  trailing zeros are equivalent.
\<close>

theorem position_order_lexicographic:
  "(length p \<le> n \<and> length q \<le> n \<longrightarrow> (position_lt p q \<longleftrightarrow> pad n p < pad n q))
   \<and> \<not> position_lt p p \<and> (position_lt p q \<and> position_lt q r \<longrightarrow> position_lt p r)
   \<and> (\<not> position_lt q p \<and> \<not> position_lt r q \<longrightarrow> \<not> position_lt r p)
   \<and> \<not> position_lt p (p @ replicate k 0) \<and> \<not> position_lt (p @ replicate k 0) p"
proof -
  have "pad (length p + k) p = pad (length p + k) (p @ replicate k 0)"
    by (simp add: pad_def)
  then have "\<not> position_lt p (p @ replicate k 0)" "\<not> position_lt (p @ replicate k 0) p"
    by (simp_all add: position_lt_pad [of _ "length p + k"])
  then show ?thesis
    using position_lt_pad [of p n q] position_order.lt_irrefl [of p] position_order.lt_trans [of p q r]
      position_order.le_trans [of q p r]
    by blast
qed

lemma position_order_lexicographic_witness:
  "position_lt [1, 2, 3, 0, -1] [1, 2, 3] \<and> position_lt [1, 2, 3] [1, 2, 3, 1] \<and> position_lt [1, 2, 3, 0, -1] [1, 2, 3, 1]"
proof -
  have "position_lt [1, 2, 3, 0, -1] [1, 2, 3]" "position_lt [1, 2, 3] [1, 2, 3, 1]" by code_simp+
  then show ?thesis
    using position_order_lexicographic [of "[1, 2, 3, 0, -1]" 5 "[1, 2, 3]" "[1, 2, 3, 1]"] by blast
qed

section \<open>The list of arguments\<close>

text \<open>
  \<open>SimpleArgument\<close> with its flag and \<open>SimplePositionalArgument\<close>. The list is a deque of owned
  arguments; cloning an argument copies it.
\<close>

datatype argument = Simple string bool | Positional string bool position

fun argument_to_string :: "argument \<Rightarrow> string" where
  "argument_to_string (Simple a f) = a"
| "argument_to_string (Positional a f p) = a"

fun get_position :: "argument \<Rightarrow> position" where
  "get_position (Simple a f) = []"
| "get_position (Positional a f p) = p"

fun clone :: "argument \<Rightarrow> argument" where
  "clone (Simple a f) = Simple a f"
| "clone (Positional a f p) = Positional a f p"

type_synonym arguments = "argument list"

definition arg :: "string \<Rightarrow> argument" where
  "arg s = Simple s True"

definition push_back_arg :: "argument \<Rightarrow> arguments \<Rightarrow> arguments" where
  "push_back_arg a as = as @ [a]"

definition push_back_args :: "arguments \<Rightarrow> arguments \<Rightarrow> arguments" where
  "push_back_args bs as = foldl (\<lambda>as a. push_back_arg (clone a) as) as bs"

definition push_front_arg :: "argument \<Rightarrow> arguments \<Rightarrow> arguments" where
  "push_front_arg a as = a # as"

definition push_front_args :: "arguments \<Rightarrow> arguments \<Rightarrow> arguments" where
  "push_front_args bs as = foldl (\<lambda>as a. push_front_arg (clone a) as) as bs"

definition arguments_of_strings :: "string list \<Rightarrow> arguments" where
  "arguments_of_strings l = foldl (\<lambda>as e. push_back_arg (arg e) as) [] l"

definition copy_arguments :: "arguments \<Rightarrow> arguments" where
  "copy_arguments rhs = foldl (\<lambda>as e. push_back_arg (clone e) as) [] rhs"

fun erase_arg :: "string \<Rightarrow> arguments \<Rightarrow> nat \<times> arguments" where
  "erase_arg v [] = (0, [])"
| "erase_arg v (a # as) =
     (case erase_arg v as of (n, as') \<Rightarrow> if argument_to_string a = v then (Suc n, as') else (n, a # as'))"

text \<open>\<open>operator[]\<close> of the deque, unchecked.\<close>

definition argument_at :: "arguments \<Rightarrow> int \<Rightarrow> argument result" where
  "argument_at as i = (if 0 \<le> i \<and> nat i < length as then Inr (as ! nat i) else Inl Undefined)"

lemma clone_id [simp]: "clone a = a"
  by (cases a) simp_all

lemma foldl_push_back: "foldl (\<lambda>as e. push_back_arg (f e) as) as xs = as @ map f xs"
  by (induction xs arbitrary: as) (simp_all add: push_back_arg_def)

lemma argument_lists:
  "push_back_args bs as = as @ bs" "push_front_args bs as = rev bs @ as"
  "arguments_of_strings l = map arg l" "copy_arguments bs = bs"
  "erase_arg v as = (length (filter (\<lambda>a. argument_to_string a = v) as), filter (\<lambda>a. argument_to_string a \<noteq> v) as)"
proof -
  show "push_back_args bs as = as @ bs" for as
    by (induction bs arbitrary: as) (simp_all add: push_back_args_def push_back_arg_def)
  show "push_front_args bs as = rev bs @ as" for as
    by (induction bs arbitrary: as) (simp_all add: push_front_args_def push_front_arg_def)
  show "arguments_of_strings l = map arg l" "copy_arguments bs = bs"
    by (simp_all add: arguments_of_strings_def copy_arguments_def foldl_push_back foldl_push_back [of "\<lambda>e. e"])
  show "erase_arg v as = (length (filter (\<lambda>a. argument_to_string a = v) as), filter (\<lambda>a. argument_to_string a \<noteq> v) as)"
    by (induction as) auto
qed

end
