(* ===== verification/Command.thy ===== *)
theory Command
  imports Arguments
begin

text \<open>
  Commands and pipelines (\<open>command.h\<close>, \<open>command.cpp\<close>): the program and its arguments, the chain
  of piped commands, what executing it reports, and the list variables of the environment.
  Commands live in a store, a list indexed by their addresses; \<open>prev\<close> and \<open>next\<close> are pointers.

  Parameters: the file system's part in finding a program, and the processes: with which codes
  they exit and what they print. Following a chain of pointers takes as many steps as there are
  commands at most, unless it is cyclic; then the code does not return.
\<close>

section \<open>Commands\<close>

record command =
  cmd_arguments :: arguments
  environment :: "(string \<times> string) list"
  working_directory :: string
  exit_code :: "int option"
  out_text :: string
  err_text :: string
  out_inherit :: bool
  err_inherit :: bool
  inherit :: bool
  detached :: bool
  prev_command :: "nat option"
  next_command :: "nat option"
  program_set :: bool
  errors :: "string list"

definition new_command :: command where
  "new_command = \<lparr>cmd_arguments = [], environment = [], working_directory = [], exit_code = None, out_text = [],
     err_text = [], out_inherit = False, err_inherit = False, inherit = False, detached = False, prev_command = None,
     next_command = None, program_set = False, errors = []\<rparr>"

type_synonym store = "command list"

record command_env =
  normalize_path :: "string \<Rightarrow> string"
  regular_file :: "string \<Rightarrow> bool"
  is_absolute :: "string \<Rightarrow> bool"
  absolute :: "string \<Rightarrow> string"
  search_path :: "string \<Rightarrow> string"
  current_path :: string
  getenv :: "string \<Rightarrow> string option"

definition resolve_executable :: "command_env \<Rightarrow> string \<Rightarrow> string" where
  "resolve_executable E p =
     (if regular_file E p then if is_absolute E p then p else absolute E p else search_path E p)"

fun resolve_first :: "command_env \<Rightarrow> string list \<Rightarrow> string" where
  "resolve_first E [] = []"
| "resolve_first E (p # ps) = (let e = resolve_executable E p in if e \<noteq> [] then e else resolve_first E ps)"

definition set_program :: "command_env \<Rightarrow> string \<Rightarrow> command \<Rightarrow> command result" where
  "set_program E p c =
     (let np = normalize_path E p
      in if program_set c then
           (case cmd_arguments c of [] \<Rightarrow> Inl Undefined | _ # as \<Rightarrow> Inr (c\<lparr>cmd_arguments := arg np # as\<rparr>))
         else Inr (c\<lparr>cmd_arguments := push_front_arg (arg np) (cmd_arguments c), program_set := True\<rparr>))"

definition get_program :: "command \<Rightarrow> string result" where
  "get_program c =
     (if \<not> program_set c \<and> cmd_arguments c = [] then Inl (Runtime_error ''program is not set'')
      else bind_result (argument_at (cmd_arguments c) 0) (\<lambda>a. Inr (takeWhile (\<lambda>x. x \<noteq> CHR 0x00) (argument_to_string a))))"

definition set_arguments :: "arguments \<Rightarrow> command \<Rightarrow> command" where
  "set_arguments as c = c\<lparr>cmd_arguments := copy_arguments as\<rparr>"

section \<open>Chains\<close>

definition append_pipe_command :: "nat \<Rightarrow> nat \<Rightarrow> store \<Rightarrow> store" where
  "append_pipe_command c c2 h =
     (let h = h[c := (h ! c)\<lparr>next_command := Some c2\<rparr>] in h[c2 := (h ! c2)\<lparr>prev_command := Some c\<rparr>])"

text \<open>\<open>operator|\<close> returns its left operand.\<close>

definition pipe :: "nat \<Rightarrow> nat \<Rightarrow> store \<Rightarrow> nat \<times> store" where
  "pipe c c2 h = (c, append_pipe_command c c2 h)"

fun first_from :: "nat \<Rightarrow> store \<Rightarrow> nat \<Rightarrow> nat result" where
  "first_from 0 h c = Inl Diverges"
| "first_from (Suc n) h c = (case prev_command (h ! c) of None \<Rightarrow> Inr c | Some p \<Rightarrow> first_from n h p)"

fun rest_from :: "nat \<Rightarrow> store \<Rightarrow> nat option \<Rightarrow> nat list result" where
  "rest_from n h None = Inr []"
| "rest_from 0 h (Some p) = Inl Diverges"
| "rest_from (Suc n) h (Some p) = bind_result (rest_from n h (next_command (h ! p))) (\<lambda>ps. Inr (p # ps))"

text \<open>The command that a call on \<open>c\<close> is handed to, and the chain of this command.\<close>

definition first_of :: "store \<Rightarrow> nat \<Rightarrow> nat result" where
  "first_of h c = first_from (length h) h c"

definition chain_of :: "store \<Rightarrow> nat \<Rightarrow> nat list result" where
  "chain_of h f = bind_result (rest_from (length h) h (next_command (h ! f))) (\<lambda>ps. Inr (f # ps))"

text \<open>\<open>getFirstCommand\<close> starts with the previous command: the first one has none.\<close>

definition get_first_command :: "store \<Rightarrow> nat \<Rightarrow> nat option result" where
  "get_first_command h c =
     (case prev_command (h ! c) of None \<Rightarrow> Inr None | Some p \<Rightarrow> bind_result (first_from (length h) h p) (\<lambda>f. Inr (Some f)))"

definition print_one :: "command \<Rightarrow> string" where
  "print_one c =
     (let s = concat (map (\<lambda>a. quote_simple (argument_to_string a) @ '' '') (cmd_arguments c))
      in if s \<noteq> [] then take (length s - 1) s else s)"

definition print_command :: "store \<Rightarrow> nat \<Rightarrow> string result" where
  "print_command h c =
     bind_result (first_of h c) (\<lambda>f. bind_result (rest_from (length h) h (next_command (h ! f))) (\<lambda>ps.
       Inr (foldl (\<lambda>s p. s @ '' | '' @ print_one (h ! p)) (print_one (h ! f)) ps)))"

definition get_error :: "store \<Rightarrow> nat \<Rightarrow> string result" where
  "get_error h c =
     bind_result (print_command h c) (\<lambda>s. Inr (foldl (\<lambda>m e. m @ '', '' @ e) (''command failed: '' @ s) (errors (h ! c))))"

section \<open>Execution\<close>

text \<open>
  \<open>preExecute\<close>. \<open>ec\<close> is the value of the error code that the caller passed, if any; the code for a
  program that cannot be found is \<open>ENOENT\<close>.
\<close>

definition enoent :: int where "enoent = 2"

definition ec_set :: "int option \<Rightarrow> bool" where
  "ec_set ec \<longleftrightarrow> ec \<noteq> None \<and> ec \<noteq> Some 0"

definition pre_execute :: "command_env \<Rightarrow> int option \<Rightarrow> command \<Rightarrow> (int option \<times> command) result" where
  "pre_execute E ec c =
     bind_result (get_program c) (\<lambda>g.
       let p = resolve_executable E g; e = ''Cannot resolve executable: '' @ g
       in if p = [] then
            if ec = None then Inl (Runtime_error e) else Inr (Some enoent, c\<lparr>err_text := e\<rparr>)
          else bind_result (set_program E p (c\<lparr>program_set := True\<rparr>)) (\<lambda>c. Inr (ec,
            c\<lparr>working_directory := (if working_directory c = [] then current_path E else working_directory c),
              out_inherit := out_inherit c \<or> inherit c, err_inherit := err_inherit c \<or> inherit c\<rparr>)))"

text \<open>Preparing the commands of a chain in their order, with those prepared so far.\<close>

fun pre_chain ::
  "command_env \<Rightarrow> nat \<Rightarrow> int option \<Rightarrow> nat list \<Rightarrow> nat option \<Rightarrow> store \<Rightarrow> (int option \<times> nat list) result \<times> store" where
  "pre_chain E n ec cs None h = (Inr (ec, cs), h)"
| "pre_chain E 0 ec cs (Some p) h = (Inl Diverges, h)"
| "pre_chain E (Suc n) ec cs (Some p) h =
     (case pre_execute E ec (h ! p) of
        Inl e \<Rightarrow> (Inl e, h)
      | Inr (ec', c) \<Rightarrow>
          if ec_set ec' then (Inr (ec', cs), h[p := c])
          else pre_chain E n ec' (cs @ [p]) (next_command (h ! p)) (h[p := c]))"

text \<open>
  The processes: the code each one exits with, if it does, what it adds to the captured texts,
  and the errors of the event loop, which go to the first command.
\<close>

record run =
  exits :: "nat \<Rightarrow> int option"
  prints :: "nat \<Rightarrow> string \<times> string"
  loop_errors :: "string list"

definition finish_command :: "run \<Rightarrow> nat \<Rightarrow> command \<Rightarrow> command" where
  "finish_command R p c =
     c\<lparr>exit_code := (case exits R p of None \<Rightarrow> exit_code c | Some n \<Rightarrow> Some n),
       out_text := out_text c @ fst (prints R p), err_text := err_text c @ snd (prints R p)\<rparr>"

definition add_errors :: "string list \<Rightarrow> command \<Rightarrow> command" where
  "add_errors es c = c\<lparr>errors := errors c @ es\<rparr>"

definition execute2 ::
  "command_env \<Rightarrow> run \<Rightarrow> int option \<Rightarrow> nat \<Rightarrow> store \<Rightarrow> (int option \<times> nat list) result \<times> store" where
  "execute2 E R ec f h =
     (case pre_chain E (length h) ec [] (Some f) h of
        (Inl e, h) \<Rightarrow> (Inl e, h)
      | (Inr (ec, cs), h) \<Rightarrow>
          if ec_set ec then (Inr (ec, cs), h)
          else let h = fold (\<lambda>p h. h[p := finish_command R p (h ! p)]) cs h
            in (Inr (ec, cs), h[f := add_errors (loop_errors R) (h ! f)]))"

definition exit_code_string :: "int \<Rightarrow> string" where
  "exit_code_string n = ''exit code = '' @ to_string n"

definition int_cast :: "int \<Rightarrow> int" where
  "int_cast n = (n + 2 ^ 31) mod 2 ^ 32 - 2 ^ 31"

definition prepend_error :: "string \<Rightarrow> command \<Rightarrow> command" where
  "prepend_error e c = c\<lparr>errors := e # errors c\<rparr>"

definition succeeded :: "command \<Rightarrow> bool" where
  "succeeded c \<longleftrightarrow> exit_code c = Some 0"

text \<open>The first command of the chain that did not exit with 0 sets the error code.\<close>

fun report_code :: "store \<Rightarrow> nat \<Rightarrow> nat list \<Rightarrow> int \<times> store" where
  "report_code h f [] = (0, h)"
| "report_code h f (c # cs) =
     (case exit_code (h ! c) of
        None \<Rightarrow> (1, h)
      | Some n \<Rightarrow>
          if n = 0 then report_code h f cs
          else (int_cast n, h[f := prepend_error (exit_code_string (int_cast n)) (h ! f)]))"

definition execute1 ::
  "command_env \<Rightarrow> run \<Rightarrow> int option \<Rightarrow> nat \<Rightarrow> store \<Rightarrow> unit result \<times> int option \<times> store" where
  "execute1 E R ec c h =
     (case first_of h c of
        Inl e \<Rightarrow> (Inl e, ec, h)
      | Inr f \<Rightarrow>
          (case execute2 E R ec f h of
             (Inl e, h) \<Rightarrow> (Inl e, ec, h)
           | (Inr (ec, cs), h) \<Rightarrow>
               if ec_set ec then (Inr (), ec, h)
               else if list_all (\<lambda>p. succeeded (h ! p)) cs then (Inr (), ec, h)
               else if detached (h ! f) then (Inr (), ec, h)
               else if ec \<noteq> None then (case report_code h f cs of (n, h) \<Rightarrow> (Inr (), Some n, h))
               else let h = (case exit_code (h ! f) of
                      None \<Rightarrow> h
                    | Some n \<Rightarrow> h[f := prepend_error (exit_code_string (int_cast n)) (h ! f)])
                 in (case get_error h f of Inl e \<Rightarrow> (Inl e, ec, h) | Inr m \<Rightarrow> (Inl (Runtime_error m), ec, h))))"

text \<open>The static \<open>execute\<close> functions: a command of their own, with a program or with arguments only.\<close>

definition execute_program ::
  "command_env \<Rightarrow> run \<Rightarrow> string \<Rightarrow> arguments \<Rightarrow> int option \<Rightarrow> unit result \<times> int option \<times> store" where
  "execute_program E R p as ec =
     (case set_program E p new_command of
        Inl e \<Rightarrow> (Inl e, ec, [])
      | Inr c \<Rightarrow> execute1 E R ec 0 [c\<lparr>cmd_arguments := push_back_args as (cmd_arguments c)\<rparr>])"

definition execute_arguments :: "command_env \<Rightarrow> run \<Rightarrow> arguments \<Rightarrow> int option \<Rightarrow> unit result \<times> int option \<times> store" where
  "execute_arguments E R as ec = execute1 E R ec 0 [new_command\<lparr>cmd_arguments := copy_arguments as\<rparr>]"

section \<open>List variables of the environment\<close>

text \<open>\<open>split\<close> is \<open>split_string\<close> at the delimiter: the trimmed parts that are not empty.\<close>

definition path_delim :: string where "path_delim = '':''"

definition add_value :: "string \<Rightarrow> string \<Rightarrow> string" where
  "add_value v e = (if e \<noteq> [] then e @ path_delim else e) @ v"

definition append_environment_array_value ::
  "(string \<Rightarrow> string list) \<Rightarrow> string \<Rightarrow> string \<Rightarrow> bool \<Rightarrow> command \<Rightarrow> command" where
  "append_environment_array_value split k v unique c =
     c\<lparr>environment := map_at k [] (\<lambda>e.
       if \<not> unique then add_value v e
       else let vals = split e in fold (\<lambda>x e. if x \<in> set vals then e else add_value x e) (split v) e) (environment c)\<rparr>"

definition add_path_directory :: "(string \<Rightarrow> string list) \<Rightarrow> command_env \<Rightarrow> string \<Rightarrow> command \<Rightarrow> command result" where
  "add_path_directory split E p c =
     bind_result
       (if map_of (environment c) ''PATH'' = None \<or> map_of (environment c) ''PATH'' = Some [] then
          (case getenv E ''PATH'' of
             None \<Rightarrow> Inl (Runtime_error ''getenv() failed'')
           | Some e \<Rightarrow> Inr (c\<lparr>environment := map_at ''PATH'' [] (\<lambda>_. e) (environment c)\<rparr>))
        else Inr c)
       (\<lambda>c. Inr (append_environment_array_value split ''PATH'' p True c))"

section \<open>Piping commands one after another\<close>

fun connect :: "nat list \<Rightarrow> store \<Rightarrow> store" where
  "connect (a # b # cs) h = connect (b # cs) (append_pipe_command a b h)"
| "connect _ h = h"

text \<open>\<open>is\<close> is a chain: every command points to its neighbours.\<close>

definition linked :: "store \<Rightarrow> nat list \<Rightarrow> bool" where
  "linked h is \<longleftrightarrow> (\<forall>j<length is.
     next_command (h ! (is ! j)) = (if Suc j < length is then Some (is ! Suc j) else None)
     \<and> prev_command (h ! (is ! j)) = (if j = 0 then None else Some (is ! (j - 1))))"

lemma rest_from_linked:
  "linked h is \<Longrightarrow> j < length is \<Longrightarrow> length is - j \<le> n \<Longrightarrow> rest_from n h (Some (is ! j)) = Inr (drop j is)"
proof (induction n arbitrary: j)
  case (Suc n)
  then have "next_command (h ! (is ! j)) = (if Suc j < length is then Some (is ! Suc j) else None)"
    by (simp add: linked_def)
  moreover have "drop j is = is ! j # drop (Suc j) is"
    using Suc.prems(2) by (simp add: Cons_nth_drop_Suc)
  ultimately show ?case using Suc by auto
qed simp

lemma first_from_linked: "linked h is \<Longrightarrow> j < length is \<Longrightarrow> j < n \<Longrightarrow> first_from n h (is ! j) = Inr (is ! 0)"
proof (induction n arbitrary: j)
  case (Suc n)
  then have "prev_command (h ! (is ! j)) = (if j = 0 then None else Some (is ! (j - 1)))"
    by (simp add: linked_def)
  with Suc show ?case by auto
qed simp

lemma distinct_length_le: "distinct is \<Longrightarrow> set is \<subseteq> {..<n} \<Longrightarrow> length is \<le> (n :: nat)"
  using card_mono [of "{..<n}" "set is"] by (simp add: distinct_card)

lemma chain_linked:
  assumes "linked h is" "distinct is" "set is \<subseteq> {..<length h}" "j < length is"
  shows "first_of h (is ! j) = Inr (is ! 0)" "chain_of h (is ! 0) = Inr is"
    "rest_from (length h) h (next_command (h ! (is ! 0))) = Inr (drop 1 is)"
proof -
  have len: "length is \<le> length h" by (rule distinct_length_le [OF assms(2,3)])
  then show "first_of h (is ! j) = Inr (is ! 0)"
    using first_from_linked [OF assms(1,4), of "length h"] assms(4) by (simp add: first_of_def)
  have "next_command (h ! (is ! 0)) = (if 1 < length is then Some (is ! 1) else None)"
    using assms(1) gr_implies_not0 [OF assms(4)] by (simp add: linked_def)
  then show rest: "rest_from (length h) h (next_command (h ! (is ! 0))) = Inr (drop 1 is)"
    using rest_from_linked [OF assms(1), of 1 "length h"] len by auto
  then show "chain_of h (is ! 0) = Inr is"
    using assms(4) by (cases "is") (simp_all add: chain_of_def)
qed

lemma print_linked:
  assumes "linked h is" "distinct is" "set is \<subseteq> {..<length h}" "j < length is"
  shows "print_command h (is ! j) = Inr (join '' | '' (map (\<lambda>i. print_one (h ! i)) is))"
proof -
  have fold: "foldl (\<lambda>s p. s @ '' | '' @ print_one (h ! p)) t ps = join '' | '' (t # map (\<lambda>i. print_one (h ! i)) ps)" for t ps
  proof (induction ps arbitrary: t)
    case (Cons p ps)
    show ?case unfolding foldl_Cons Cons.IH by (cases ps) simp_all
  qed simp
  obtain i qs where "is": "is = i # qs" using assms(4) by (cases "is") auto
  show ?thesis
    using chain_linked(1,3) [OF assms] unfolding print_command_def "is"
    by (simp only: bind_result_simps nth_Cons_0 One_nat_def drop_Suc_Cons drop_0 fold list.map)
qed

text \<open>Fields of a command in an updated store.\<close>

lemma field_update: "F c = F (h ! p) \<Longrightarrow> F (h[p := c] ! i) = F (h ! i)"
  by (cases "p < length h \<and> i = p") (auto simp: nth_list_update not_less list_update_beyond)

lemma append_pipe_fields [simp]:
  "print_one (append_pipe_command a b h ! i) = print_one (h ! i)" "length (append_pipe_command a b h) = length h"
  by (simp_all add: append_pipe_command_def Let_def print_one_def field_update [where F = cmd_arguments])

lemma append_pipe_links:
  "a < length h \<Longrightarrow> b < length h \<Longrightarrow> a \<noteq> b \<Longrightarrow>
    next_command (append_pipe_command a b h ! i) = (if i = a then Some b else next_command (h ! i))"
  "a < length h \<Longrightarrow> b < length h \<Longrightarrow> a \<noteq> b \<Longrightarrow>
    prev_command (append_pipe_command a b h ! i) = (if i = b then Some a else prev_command (h ! i))"
  by (auto simp: append_pipe_command_def Let_def nth_list_update)

lemma connect_links:
  "distinct is \<Longrightarrow> set is \<subseteq> {..<length h} \<Longrightarrow>
    (\<forall>i. print_one (connect is h ! i) = print_one (h ! i)) \<and> length (connect is h) = length h
    \<and> (\<forall>i. i \<notin> set (butlast is) \<longrightarrow> next_command (connect is h ! i) = next_command (h ! i))
    \<and> (\<forall>i. i \<notin> set (tl is) \<longrightarrow> prev_command (connect is h ! i) = prev_command (h ! i))
    \<and> (\<forall>j. Suc j < length is \<longrightarrow> next_command (connect is h ! (is ! j)) = Some (is ! Suc j)
          \<and> prev_command (connect is h ! (is ! Suc j)) = Some (is ! j))"
proof (induction "is" h rule: connect.induct)
  case (1 a b cs h)
  let ?h = "append_pipe_command a b h"
  have ab: "a < length h" "b < length h" "a \<noteq> b" "a \<notin> set cs" "b \<notin> set cs" using "1.prems" by auto
  have IH: "\<forall>i. print_one (connect (b # cs) ?h ! i) = print_one (?h ! i)" "length (connect (b # cs) ?h) = length ?h"
    "\<And>i. i \<notin> set (butlast (b # cs)) \<Longrightarrow> next_command (connect (b # cs) ?h ! i) = next_command (?h ! i)"
    "\<And>i. i \<notin> set cs \<Longrightarrow> prev_command (connect (b # cs) ?h ! i) = prev_command (?h ! i)"
    "\<And>j. Suc j < length (b # cs) \<Longrightarrow> next_command (connect (b # cs) ?h ! ((b # cs) ! j)) = Some ((b # cs) ! Suc j)
          \<and> prev_command (connect (b # cs) ?h ! ((b # cs) ! Suc j)) = Some ((b # cs) ! j)"
    using 1 by simp_all
  have a: "a \<notin> set (butlast (b # cs))" using ab by (auto dest: in_set_butlastD)
  show ?case
  proof (intro conjI allI impI)
    fix j
    assume j: "Suc j < length (a # b # cs)"
    show "next_command (connect (a # b # cs) h ! ((a # b # cs) ! j)) = Some ((a # b # cs) ! Suc j)"
      using IH(3) [OF a] IH(5) [of "j - 1"] j append_pipe_links(1) [OF ab(1-3)] by (cases j) auto
    show "prev_command (connect (a # b # cs) h ! ((a # b # cs) ! Suc j)) = Some ((a # b # cs) ! j)"
      using IH(4) [OF ab(5)] IH(5) [of "j - 1"] j append_pipe_links(2) [OF ab(1-3)] by (cases j) auto
  qed (use IH append_pipe_links [OF ab(1-3)] in auto)
qed auto

lemma connect_linked:
  assumes "distinct is" "set is \<subseteq> {..<length h}" "\<forall>i\<in>set is. next_command (h ! i) = None \<and> prev_command (h ! i) = None"
  shows "linked (connect is h) is"
proof -
  note links = connect_links [OF assms(1,2)]
  show ?thesis
    unfolding linked_def
  proof (intro allI impI conjI)
    fix j
    assume j: "j < length is"
    show "next_command (connect is h ! (is ! j)) = (if Suc j < length is then Some (is ! Suc j) else None)"
    proof (cases "Suc j < length is")
      case False
      with j have "j = length is - 1" "is \<noteq> []" by auto
      then have "is ! j = last is" "is \<noteq> []" by (simp_all add: last_conv_nth)
      then have "is ! j \<notin> set (butlast is)"
        using assms(1) by (metis append_butlast_last_id distinct_append disjoint_iff list.set_intros(1))
      then show ?thesis using links assms(3) j False by simp
    qed (use links in simp)
    show "prev_command (connect is h ! (is ! j)) = (if j = 0 then None else Some (is ! (j - 1)))"
    proof (cases j)
      case 0
      then have "is ! j \<notin> set (tl is)" using j assms(1) by (cases "is") auto
      then show ?thesis using links assms(3) j 0 by simp
    qed (use links j in simp)
  qed
qed

text \<open>
  C38: Commands that are piped pairwise, each into the next, form one chain: every one of them
  hands its calls to the first, the chain of the first is all of them in order, and every one
  prints all of them. But the operator returns its left operand, so that in \<open>a | b | c\<close> the third
  command replaces the second, which still believes to follow the first; and the first
  command of a chain does not find itself as the first.
\<close>

theorem pipeline_chain:
  assumes "distinct is" "set is \<subseteq> {..<length h}" "\<forall>i\<in>set is. next_command (h ! i) = None \<and> prev_command (h ! i) = None"
    and "j < length is"
  shows "first_of (connect is h) (is ! j) = Inr (is ! 0)
    \<and> chain_of (connect is h) (is ! 0) = Inr is
    \<and> print_command (connect is h) (is ! j) = Inr (join '' | '' (map (\<lambda>i. print_one (h ! i)) is))
    \<and> get_first_command (connect is h) (is ! j) = Inr (if j = 0 then None else Some (is ! 0))
    \<and> (is = [a, b, c] \<longrightarrow> (case pipe a b h of (r, h1) \<Rightarrow> case pipe r c h1 of (_, h2) \<Rightarrow>
        chain_of h2 a = Inr [a, c] \<and> prev_command (h2 ! b) = Some a))"
proof -
  have L: "linked (connect is h) is" by (rule connect_linked [OF assms(1-3)])
  have len: "length (connect is h) = length h" "\<forall>i. print_one (connect is h ! i) = print_one (h ! i)"
    using connect_links [OF assms(1,2)] by blast+
  have rng: "set is \<subseteq> {..<length (connect is h)}" using assms(2) len(1) by simp
  have first: "get_first_command (connect is h) (is ! j) = Inr (if j = 0 then None else Some (is ! 0))"
  proof (cases j)
    case (Suc k)
    then have "prev_command (connect is h ! (is ! j)) = Some (is ! k)"
      using L assms(4) by (simp add: linked_def)
    moreover have "first_from (length (connect is h)) (connect is h) (is ! k) = Inr (is ! 0)"
      using chain_linked(1) [OF L assms(1) rng, of k] assms(4) Suc by (simp add: first_of_def)
    ultimately show ?thesis using Suc by (simp add: get_first_command_def)
  qed (use L assms(4) in \<open>simp add: get_first_command_def linked_def\<close>)
  have lost: "chain_of h2 a = Inr [a, c] \<and> prev_command (h2 ! b) = Some a"
    if abc: "is = [a, b, c]" and h2: "h2 = append_pipe_command a c (append_pipe_command a b h)" for h2
  proof -
    have ne: "a < length h" "b < length h" "c < length h" "a \<noteq> b" "a \<noteq> c" "b \<noteq> c"
      "next_command (h ! c) = None"
      using abc assms by auto
    have "next_command (h2 ! i) = (if i = a then Some c else next_command (h ! i))"
      "prev_command (h2 ! i) = (if i = c then Some a else if i = b then Some a else prev_command (h ! i))" for i
      using ne by (simp_all add: h2 append_pipe_links)
    moreover obtain n where "length h2 = Suc n" using ne h2 by (cases "length h2") auto
    ultimately show ?thesis using ne by (simp add: chain_of_def)
  qed
  show ?thesis
    using chain_linked(1,2) [OF L assms(1) rng assms(4)] print_linked [OF L assms(1) rng assms(4)] len first lost
    by (simp add: pipe_def)
qed

lemma pipeline_chain_witness:
  "print_command (connect [0, 1] [new_command\<lparr>cmd_arguments := [arg ''a'']\<rparr>, new_command\<lparr>cmd_arguments := [arg ''b'']\<rparr>]) 1
     = Inr ([dquote] @ ''a'' @ [dquote] @ '' | '' @ [dquote] @ ''b'' @ [dquote])"
proof -
  let ?h = "[new_command\<lparr>cmd_arguments := [arg ''a'']\<rparr>, new_command\<lparr>cmd_arguments := [arg ''b'']\<rparr>]"
  have "\<forall>i\<in>set [0, 1 :: nat]. next_command (?h ! i) = None \<and> prev_command (?h ! i) = None"
    by (simp add: new_command_def)
  moreover have "print_one (?h ! 0) = [dquote] @ ''a'' @ [dquote]" "print_one (?h ! 1) = [dquote] @ ''b'' @ [dquote]"
    by code_simp+
  ultimately show ?thesis
    using pipeline_chain [of "[0, 1]" ?h 1] by simp
qed

section \<open>What an execution reports\<close>

text \<open>Preparing a command changes neither its links, its exit code nor whether it is detached.\<close>

lemma set_program_fields:
  "set_program E p c = Inr c' \<Longrightarrow> next_command c' = next_command c \<and> prev_command c' = prev_command c
     \<and> exit_code c' = exit_code c \<and> detached c' = detached c"
  by (auto simp: set_program_def Let_def split: if_splits list.splits)

lemma pre_execute_fields:
  "pre_execute E ec c = Inr (ec', c') \<Longrightarrow> next_command c' = next_command c \<and> prev_command c' = prev_command c
     \<and> exit_code c' = exit_code c \<and> detached c' = detached c \<and> (ec' = ec \<or> ec \<noteq> None \<and> ec' = Some enoent)"
proof -
  assume run: "pre_execute E ec c = Inr (ec', c')"
  then obtain g where g: "get_program c = Inr g"
    by (auto simp: pre_execute_def bind_result_Inr_iff)
  show ?thesis
  proof (cases "resolve_executable E g = []")
    case True
    with run g show ?thesis by (cases ec) (auto simp: pre_execute_def Let_def)
  next
    case False
    with run g obtain c1 where "set_program E (resolve_executable E g) (c\<lparr>program_set := True\<rparr>) = Inr c1"
      by (auto simp: pre_execute_def bind_result_Inr_iff Let_def)
    with run g False show ?thesis
      by (auto simp: pre_execute_def Let_def dest!: set_program_fields)
  qed
qed

lemma rest_from_cong: "(\<And>i. next_command (h' ! i) = next_command (h ! i)) \<Longrightarrow> rest_from n h' q = rest_from n h q"
  by (induction n h q rule: rest_from.induct) auto

lemma pre_chain_prepared:
  assumes "pre_chain E n ec cs q h = (Inr (ec', cs'), h')" "\<not> ec_set ec'" "\<not> ec_set ec \<or> q \<noteq> None"
  shows "\<exists>ps. rest_from n h q = Inr ps \<and> cs' = cs @ ps \<and> ec' = ec \<and> length h' = length h
    \<and> (\<forall>i. next_command (h' ! i) = next_command (h ! i) \<and> prev_command (h' ! i) = prev_command (h ! i)
        \<and> exit_code (h' ! i) = exit_code (h ! i) \<and> detached (h' ! i) = detached (h ! i))"
  using assms
proof (induction E n ec cs q h rule: pre_chain.induct)
  case (3 E n ec cs p h)
  obtain ec1 c where c: "pre_execute E ec (h ! p) = Inr (ec1, c)"
    using "3.prems"(1) by (auto split: sum.splits)
  note fields = pre_execute_fields [OF c]
  have "\<not> ec_set ec1"
    using "3.prems"(1,2) c by (auto split: if_splits)
  then have "pre_chain E n ec1 (cs @ [p]) (next_command (h ! p)) (h[p := c]) = (Inr (ec', cs'), h')" "ec1 = ec"
    using "3.prems"(1) c fields by (auto simp: ec_set_def enoent_def)
  with "3.IH" [OF c refl \<open>\<not> ec_set ec1\<close>] "3.prems"(2) \<open>\<not> ec_set ec1\<close> obtain ps where
    ps: "rest_from n (h[p := c]) (next_command (h ! p)) = Inr ps" "cs' = cs @ p # ps" "ec' = ec" "length h' = length h"
      "\<forall>i. next_command (h' ! i) = next_command (h[p := c] ! i) \<and> prev_command (h' ! i) = prev_command (h[p := c] ! i)
        \<and> exit_code (h' ! i) = exit_code (h[p := c] ! i) \<and> detached (h' ! i) = detached (h[p := c] ! i)"
    by auto
  have same: "next_command (h[p := c] ! i) = next_command (h ! i)" "prev_command (h[p := c] ! i) = prev_command (h ! i)"
    "exit_code (h[p := c] ! i) = exit_code (h ! i)" "detached (h[p := c] ! i) = detached (h ! i)" for i
    using fields by (auto intro!: field_update)
  have "rest_from n h (next_command (h ! p)) = Inr ps"
    using ps(1) rest_from_cong [of "h[p := c]" h] same(1) by simp
  with ps same show ?case by simp
qed simp_all

lemma fold_update:
  "distinct cs \<Longrightarrow> length (fold (\<lambda>p h. h[p := g p (h ! p)]) cs h) = length h
    \<and> fold (\<lambda>p h. h[p := g p (h ! p)]) cs h ! i = (if i \<in> set cs \<and> i < length h then g i (h ! i) else h ! i)"
proof (induction cs arbitrary: h)
  case (Cons p cs)
  then show ?case by (cases "p < length h") (auto simp: nth_list_update not_less list_update_beyond)
qed simp

lemma execute2_done:
  assumes "execute2 E R ec f h = (Inr (ec', cs'), h')" "\<not> ec_set ec'"
    and "chain_of h f = Inr cs" "distinct cs" "set cs \<subseteq> {..<length h}"
  shows "cs' = cs \<and> ec' = ec \<and> detached (h' ! f) = detached (h ! f) \<and>
    (\<forall>p\<in>set cs. exit_code (h' ! p) = (case exits R p of None \<Rightarrow> exit_code (h ! p) | Some n \<Rightarrow> Some n))"
proof -
  obtain h1 where h1: "pre_chain E (length h) ec [] (Some f) h = (Inr (ec', cs'), h1)"
    and h': "h' = (let h = fold (\<lambda>p h. h[p := finish_command R p (h ! p)]) cs' h1 in h[f := add_errors (loop_errors R) (h ! f)])"
    using assms(1,2) by (auto simp: execute2_def Let_def split: prod.splits sum.splits if_splits)
  obtain ps where ps: "rest_from (length h) h (Some f) = Inr ps" "cs' = ps" "ec' = ec" "length h1 = length h"
    "\<forall>i. exit_code (h1 ! i) = exit_code (h ! i) \<and> detached (h1 ! i) = detached (h ! i)"
    using pre_chain_prepared [OF h1 assms(2)] by auto
  have cs: "cs' = cs"
  proof -
    obtain qs where qs: "rest_from (length h) h (next_command (h ! f)) = Inr qs" "cs = f # qs"
      using assms(3) by (auto simp: chain_of_def bind_result_Inr_iff)
    obtain n where n: "length h = Suc n" using assms(5) qs(2) by (cases "length h") auto
    then obtain rs where rs: "rest_from n h (next_command (h ! f)) = Inr rs" "ps = f # rs"
      using ps(1) by (auto simp: bind_result_Inr_iff)
    have "rest_from m h q = Inr xs \<Longrightarrow> rest_from (Suc m) h q = Inr xs" for m q xs
      by (induction m h q arbitrary: xs rule: rest_from.induct) (auto simp: bind_result_Inr_iff)
    from this [OF rs(1)] show ?thesis using qs rs(2) n ps(2) by simp
  qed
  define h2 where "h2 = fold (\<lambda>p h. h[p := finish_command R p (h ! p)]) cs h1"
  have h2: "h2 ! i = (if i \<in> set cs \<and> i < length h then finish_command R i (h1 ! i) else h1 ! i)" for i
    using fold_update [OF assms(4), of "finish_command R" h1] ps(4) by (simp add: h2_def)
  have "exit_code (h' ! i) = exit_code (h2 ! i)" "detached (h' ! i) = detached (h2 ! i)" for i
    unfolding h' cs Let_def h2_def [symmetric] by (rule field_update, simp add: add_errors_def)+
  moreover have "exit_code (h2 ! p) = (case exits R p of None \<Rightarrow> exit_code (h ! p) | Some n \<Rightarrow> Some n)" if "p \<in> set cs" for p
  proof -
    have "p < length h" using that assms(5) by auto
    then show ?thesis using that ps(5) by (simp add: h2 finish_command_def split: option.split)
  qed
  moreover have "detached (h2 ! f) = detached (h ! f)"
    using ps(5) by (simp add: h2 finish_command_def)
  ultimately show ?thesis
    using cs ps(3) by simp
qed

lemma report_code_find:
  "fst (report_code h f cs) =
     (case find (\<lambda>p. exit_code (h ! p) \<noteq> Some 0) cs of
        None \<Rightarrow> 0
      | Some p \<Rightarrow> (case exit_code (h ! p) of None \<Rightarrow> 1 | Some n \<Rightarrow> int_cast n))"
  by (induction h f cs rule: report_code.induct) (auto split: option.splits)

lemma int_cast_id: "- (2 ^ 31) \<le> n \<Longrightarrow> n < 2 ^ 31 \<Longrightarrow> int_cast n = n"
  by (simp add: int_cast_def)

lemma find_cong_set: "(\<And>x. x \<in> set xs \<Longrightarrow> P x = Q x) \<Longrightarrow> find P xs = find Q xs"
  by (induction xs) auto

lemma pre_chain_stops:
  "pre_chain E n ec cs q h = (Inr (ec', cs'), h') \<Longrightarrow>
    (ec' = ec \<or> ec' = Some enoent) \<and> (\<forall>i. exit_code (h' ! i) = exit_code (h ! i))"
proof (induction E n ec cs q h rule: pre_chain.induct)
  case (3 E n ec cs p h)
  obtain ec1 c where c: "pre_execute E ec (h ! p) = Inr (ec1, c)"
    using "3.prems" by (auto split: sum.splits)
  have exit: "exit_code (h[p := c] ! i) = exit_code (h ! i)" for i
    using pre_execute_fields [OF c] by (intro field_update) simp
  show ?case
  proof (cases "ec_set ec1")
    case True
    then show ?thesis using "3.prems" c exit pre_execute_fields [OF c] by auto
  next
    case False
    then have "ec1 = ec" using pre_execute_fields [OF c] by (auto simp: ec_set_def enoent_def)
    then show ?thesis using "3.IH" [OF c refl False] "3.prems" c False exit by auto
  qed
qed auto

lemma execute2_stops:
  "execute2 E R ec f h = (Inr (ec', cs'), h') \<Longrightarrow> ec_set ec' \<Longrightarrow>
    (ec' = ec \<or> ec' = Some enoent) \<and> (\<forall>i. exit_code (h' ! i) = exit_code (h ! i))"
  by (auto simp: execute2_def Let_def dest!: pre_chain_stops split: prod.splits sum.splits if_splits)

text \<open>The part of an execution after all commands were started.\<close>

lemma execute1_ran:
  assumes "execute1 E R ec c h = (r, ec', h')" "first_of h c = Inr f"
    and x2: "execute2 E R ec f h = (Inr (ec2, cs2), h2)" "\<not> ec_set ec2"
    and "chain_of h f = Inr cs" "distinct cs" "set cs \<subseteq> {..<length h}" "\<forall>p\<in>set cs. exit_code (h ! p) = None"
    and range: "\<forall>p n. exits R p = Some n \<longrightarrow> - (2 ^ 31) \<le> n \<and> n < 2 ^ 31"
  shows "\<not> ec_set ec \<and> (r = Inr () \<and> \<not> ec_set ec' \<longrightarrow> detached (h ! f) \<or> (\<forall>p\<in>set cs. exits R p = Some 0))
    \<and> (r = Inr () \<and> ec_set ec' \<longrightarrow>
        (\<exists>p. find (\<lambda>p. exits R p \<noteq> Some 0) cs = Some p \<and> ec' = Some (case exits R p of None \<Rightarrow> 1 | Some n \<Rightarrow> n)))"
proof -
  note ran = execute2_done [OF x2 assms(5-7)]
  have exit: "exit_code (h2 ! p) = exits R p" if "p \<in> set cs" for p
    using ran assms(8) that by (auto split: option.splits)
  have cs: "cs2 = cs" "ec2 = ec" "detached (h2 ! f) = detached (h ! f)" "\<not> ec_set ec"
    using ran x2(2) by auto
  have all: "list_all (\<lambda>p. succeeded (h2 ! p)) cs \<longleftrightarrow> (\<forall>p\<in>set cs. exits R p = Some 0)"
    using exit by (simp add: list_all_iff succeeded_def)
  have run: "execute1 E R ec c h =
      (if list_all (\<lambda>p. succeeded (h2 ! p)) cs then (Inr (), ec, h2)
       else if detached (h2 ! f) then (Inr (), ec, h2)
       else if ec \<noteq> None then (case report_code h2 f cs of (n, h) \<Rightarrow> (Inr (), Some n, h))
       else let h = (case exit_code (h2 ! f) of
              None \<Rightarrow> h2
            | Some n \<Rightarrow> h2[f := prepend_error (exit_code_string (int_cast n)) (h2 ! f)])
         in (case get_error h f of Inl e \<Rightarrow> (Inl e, ec, h) | Inr m \<Rightarrow> (Inl (Runtime_error m), ec, h)))"
    using assms(2) x2 cs by (simp add: execute1_def)
  show ?thesis
  proof (cases "list_all (\<lambda>p. succeeded (h2 ! p)) cs \<or> detached (h2 ! f)")
    case True
    then have "(r, ec', h') = (Inr (), ec, h2)" using run [unfolded assms(1)] by (simp split: if_splits)
    then show ?thesis using True all cs by auto
  next
    case False
    show ?thesis
    proof (cases ec)
      case None
      then have "r \<noteq> Inr ()" using run assms(1) False by (auto simp: Let_def split: sum.splits)
      then show ?thesis using cs by simp
    next
      case (Some n)
      have find: "find (\<lambda>p. exit_code (h2 ! p) \<noteq> Some 0) cs = find (\<lambda>p. exits R p \<noteq> Some 0) cs"
        by (rule find_cong_set) (simp add: exit)
      obtain p where p: "find (\<lambda>p. exits R p \<noteq> Some 0) cs = Some p"
        using False all by (cases "find (\<lambda>p. exits R p \<noteq> Some 0) cs") (auto simp: find_None_iff)
      then have p': "p \<in> set cs" "exits R p \<noteq> Some 0"
        by (auto simp: find_Some_iff in_set_conv_nth)
      define code where "code = (case exits R p of None \<Rightarrow> 1 | Some n \<Rightarrow> n)"
      have "fst (report_code h2 f cs) = code"
        using p exit [OF p'(1)] range int_cast_id
        by (auto simp: report_code_find find code_def split: option.splits)
      then have "ec' = Some code" "r = Inr ()"
        using run assms(1) False Some by (auto split: prod.splits)
      moreover have "code \<noteq> 0" using p'(2) by (auto simp: code_def split: option.splits)
      ultimately show ?thesis using p cs by (auto simp: ec_set_def code_def)
    qed
  qed
qed

text \<open>
  C11: An execution does not hide a failure. Of a chain of commands that have not run before: if
  a call returns without an exception and without an error code, then every command of the
  chain exited with 0, or the first one is detached; the error code it sets is the exit code
  of the first command that failed, or 1 if that one never exited. With an error code that is
  set already, nothing runs.
\<close>

theorem execute_reports_failures:
  assumes "execute1 E R ec c h = (r, ec', h')" "first_of h c = Inr f" "chain_of h f = Inr cs"
    and "distinct cs" "set cs \<subseteq> {..<length h}" "\<forall>p\<in>set cs. exit_code (h ! p) = None"
    and "\<forall>p n. exits R p = Some n \<longrightarrow> - (2 ^ 31) \<le> n \<and> n < 2 ^ 31"
  shows "(r = Inr () \<and> \<not> ec_set ec' \<longrightarrow> detached (h ! f) \<or> (\<forall>p\<in>set cs. exits R p = Some 0))
    \<and> (r = Inr () \<and> \<not> ec_set ec \<and> ec_set ec' \<and> ec' \<noteq> Some enoent \<longrightarrow>
         (\<exists>p. find (\<lambda>p. exits R p \<noteq> Some 0) cs = Some p \<and> ec' = Some (case exits R p of None \<Rightarrow> 1 | Some n \<Rightarrow> n)))
    \<and> (ec_set ec \<and> r = Inr () \<longrightarrow> ec_set ec' \<and> (\<forall>i. exit_code (h' ! i) = exit_code (h ! i)))"
proof -
  obtain r2 h2 where x2: "execute2 E R ec f h = (r2, h2)" by fastforce
  show ?thesis
  proof (cases r2)
    case (Inl e)
    then show ?thesis using assms(1,2) x2 by (auto simp: execute1_def)
  next
    case (Inr y)
    then obtain ec2 cs2 where y: "r2 = Inr (ec2, cs2)" by (cases y) auto
    show ?thesis
    proof (cases "ec_set ec2")
      case True
      then have "r = Inr ()" "ec' = ec2" "h' = h2"
        using assms(1,2) x2 y by (auto simp: execute1_def)
      then show ?thesis using True execute2_stops [OF x2 [unfolded y] True] by auto
    next
      case False
      then show ?thesis
        using execute1_ran [OF assms(1,2) x2 [unfolded y] False assms(3-7)] by blast
    qed
  qed
qed

text \<open>Two piped programs of which the second fails, and what stays hidden with an exit code of an earlier run.\<close>

definition any_program :: command_env where
  "any_program = \<lparr>normalize_path = (\<lambda>p. p), regular_file = (\<lambda>_. True), is_absolute = (\<lambda>_. True), absolute = (\<lambda>p. p),
     search_path = (\<lambda>p. p), current_path = ''/'', getenv = (\<lambda>_. None)\<rparr>"

definition exits_with :: "int option list \<Rightarrow> run" where
  "exits_with l = \<lparr>exits = (\<lambda>p. if p < length l then l ! p else None), prints = (\<lambda>_. ([], [])), loop_errors = []\<rparr>"

definition two_commands :: store where
  "two_commands = connect [0, 1] [new_command\<lparr>cmd_arguments := [arg ''a'']\<rparr>, new_command\<lparr>cmd_arguments := [arg ''b'']\<rparr>]"

lemma execute_reports_failures_witness:
  "fst (snd (execute1 any_program (exits_with [Some 0, Some 3]) (Some 0) 0 two_commands)) = Some 3"
proof -
  let ?x = "execute1 any_program (exits_with [Some 0, Some 3]) (Some 0) 0 two_commands"
  obtain r ec' h' where x: "?x = (r, ec', h')" by (cases ?x) auto
  have f: "first_of two_commands 0 = Inr 0" "chain_of two_commands 0 = Inr [0, 1]" "length two_commands = 2"
    "exit_code (two_commands ! 0) = None" "exit_code (two_commands ! 1) = None"
    by code_simp+
  have range: "\<forall>p n. exits (exits_with [Some 0, Some 3]) p = Some n \<longrightarrow> - (2 ^ 31) \<le> n \<and> n < 2 ^ 31"
    by (auto simp: exits_with_def nth_Cons split: if_splits nat.splits)
  have res: "fst ?x = Inr ()" "ec_set (fst (snd ?x))" "fst (snd ?x) \<noteq> Some enoent" by code_simp+
  have fresh: "distinct [0, 1 :: nat]" "set [0, 1] \<subseteq> {..<length two_commands}"
    "\<forall>p\<in>set [0, 1]. exit_code (two_commands ! p) = None"
    using f(3-5) by auto
  show ?thesis
    using execute_reports_failures [OF x f(1,2) fresh range] res x by (auto simp: exits_with_def ec_set_def)
qed

text \<open>An exit code of an earlier run counts again when a process of the next run does not start.\<close>

lemma stale_exit_code:
  "fst (execute1 any_program (exits_with [None]) None 0
     [new_command\<lparr>cmd_arguments := [arg ''a''], exit_code := Some 0\<rparr>]) = Inr ()"
  by code_simp

text \<open>Without an error code, the message names the code of the first command, also when another one failed.\<close>

lemma first_exit_code_reported:
  "fst (execute1 any_program (exits_with [Some 0, Some 3]) None 0 two_commands) =
     Inl (Runtime_error (''command failed: '' @ [dquote] @ ''a'' @ [dquote] @ '' | '' @ [dquote] @ ''b'' @ [dquote]
       @ '', exit code = 0''))"
  by code_simp

section \<open>Values of list variables\<close>

text \<open>
  What \<open>split\<close> does with texts of parts that are not empty, contain no delimiter and neither
  begin nor end with white space.
\<close>

definition list_part :: "string \<Rightarrow> bool" where
  "list_part x \<longleftrightarrow> x \<noteq> [] \<and> CHR '':'' \<notin> set x \<and> \<not> is_space (hd x) \<and> \<not> is_space (last x)"

definition split_law :: "(string \<Rightarrow> string list) \<Rightarrow> bool" where
  "split_law split \<longleftrightarrow> (\<forall>xs. list_all list_part xs \<longrightarrow> split (join path_delim xs) = xs)"

lemma add_value_join: "list_all list_part xs \<Longrightarrow> add_value x (join path_delim xs) = join path_delim (xs @ [x])"
proof (induction xs rule: induct_list012)
  case (3 a b xs)
  then have "join path_delim (b # xs) \<noteq> []"
    by (auto simp: join_eq_Nil_iff path_delim_def list_part_def)
  with 3 show ?case by (auto simp: add_value_def list_part_def)
qed (auto simp: add_value_def list_part_def)

lemma fold_add_value:
  "list_all list_part xs \<Longrightarrow> list_all list_part ys \<Longrightarrow>
    fold (\<lambda>x e. if x \<in> S then e else add_value x e) ys (join path_delim xs)
      = join path_delim (xs @ filter (\<lambda>y. y \<notin> S) ys)"
proof (induction ys arbitrary: xs)
  case (Cons y ys)
  show ?case
  proof (cases "y \<in> S")
    case False
    with Cons show ?thesis using Cons.IH [of "xs @ [y]"] by (simp add: add_value_join)
  qed (use Cons in simp)
qed simp

text \<open>
  Adding values to a list variable of the environment without duplicates keeps the values
  that are there in their order and puts the new ones behind them; the other variables are as
  before, the result is again a list of values, and adding the same values again changes nothing.
\<close>

theorem append_environment_values:
  assumes "split_law split" "sorted_keys (environment c)"
    and "(case map_of (environment c) k of None \<Rightarrow> [] | Some e \<Rightarrow> e) = join path_delim xs"
    and "list_all list_part xs" "list_all list_part ys"
  shows "map_of (environment (append_environment_array_value split k (join path_delim ys) True c)) =
      (map_of (environment c))(k \<mapsto> join path_delim (xs @ filter (\<lambda>y. y \<notin> set xs) ys))
    \<and> split (join path_delim (xs @ filter (\<lambda>y. y \<notin> set xs) ys)) = xs @ filter (\<lambda>y. y \<notin> set xs) ys
    \<and> map_of (environment (append_environment_array_value split k (join path_delim ys) True
          (append_environment_array_value split k (join path_delim ys) True c))) =
        map_of (environment (append_environment_array_value split k (join path_delim ys) True c))"
proof -
  let ?zs = "xs @ filter (\<lambda>y. y \<notin> set xs) ys" and ?add = "append_environment_array_value split k (join path_delim ys) True"
  have zs: "list_all list_part ?zs" using assms(4,5) by (auto simp: list_all_iff)
  have add: "map_of (environment (?add c)) = (map_of (environment c))(k \<mapsto> join path_delim (us @ filter (\<lambda>y. y \<notin> set us) ys))"
    if "sorted_keys (environment c)" "(case map_of (environment c) k of None \<Rightarrow> [] | Some e \<Rightarrow> e) = join path_delim us"
      "list_all list_part us" for us c
  proof -
    have "split (join path_delim us) = us" "split (join path_delim ys) = ys"
      using assms(1,5) that(3) by (simp_all add: split_law_def)
    then show ?thesis
      using that by (simp add: append_environment_array_value_def map_of_map_at fold_add_value [OF that(3) assms(5)] Let_def)
  qed
  have sorted: "sorted_keys (environment (?add c))"
    using assms(2) by (simp add: append_environment_array_value_def sorted_map_at)
  have "filter (\<lambda>y. y \<notin> set ?zs) ys = []" by (auto simp: filter_empty_conv)
  then show ?thesis
    using add [OF assms(2,3,4)] add [OF sorted _ zs] zs assms(1) by (simp add: split_law_def)
qed

text \<open>A splitter that obeys the law.\<close>

fun split_at_colons :: "string \<Rightarrow> string list" where
  "split_at_colons [] = [[]]"
| "split_at_colons (c # s) =
     (if c = CHR '':'' then [] # split_at_colons s
      else case split_at_colons s of x # xs \<Rightarrow> (c # x) # xs | [] \<Rightarrow> [[c]])"

lemma split_at_colons_part: "CHR '':'' \<notin> set x \<Longrightarrow> split_at_colons x = [x]"
  by (induction x) auto

lemma split_at_colons_append: "CHR '':'' \<notin> set x \<Longrightarrow> split_at_colons (x @ CHR '':'' # s) = x # split_at_colons s"
  by (induction x) auto

lemma split_at_colons_join: "list_all list_part xs \<Longrightarrow> xs \<noteq> [] \<Longrightarrow> split_at_colons (join path_delim xs) = xs"
  by (induction xs rule: induct_list012)
    (simp_all add: split_at_colons_part split_at_colons_append list_part_def path_delim_def)

lemma split_law_colons: "split_law (\<lambda>s. filter (\<lambda>x. x \<noteq> []) (split_at_colons s))"
  unfolding split_law_def
proof (intro allI impI)
  fix xs
  assume xs: "list_all list_part xs"
  then have "filter (\<lambda>x. x \<noteq> []) xs = xs" by (auto simp: list_all_iff list_part_def filter_id_conv)
  with xs show "filter (\<lambda>x. x \<noteq> []) (split_at_colons (join path_delim xs)) = xs"
    using split_at_colons_join [of xs] by (cases "xs = []") auto
qed

lemma append_environment_values_witness:
  "map_of (environment (append_environment_array_value (\<lambda>s. filter (\<lambda>x. x \<noteq> []) (split_at_colons s)) ''PATH'' ''/a:/b'' True
     (new_command\<lparr>environment := [(''PATH'', ''/c:/b'')]\<rparr>))) = [''PATH'' \<mapsto> ''/c:/b:/a'']"
proof -
  have "sorted_keys (environment (new_command\<lparr>environment := [(''PATH'', ''/c:/b'')]\<rparr>))"
    "(case map_of (environment (new_command\<lparr>environment := [(''PATH'', ''/c:/b'')]\<rparr>)) ''PATH'' of None \<Rightarrow> [] | Some e \<Rightarrow> e)
       = join path_delim [''/c'', ''/b'']"
    "list_all list_part [''/c'', ''/b'']" "list_all list_part [''/a'', ''/b'']"
    by code_simp+
  from append_environment_values [OF split_law_colons this] show ?thesis
    by (simp add: path_delim_def)
qed

end
