(* ===== verification/UvCommand.thy ===== *)
theory UvCommand
  imports Command
begin

text \<open>
  How a command becomes a process (\<open>uv_command.cpp\<close>): where its three standard streams go, and the
  environment it gets. Calls of libuv (opening a file, starting the process, reading and
  writing pipes) are left out; the descriptor of an opened file is a parameter.

  \<^item> setting up the streams never fails, and the last of ignoring, capturing, a file and inheriting
    that applies decides; a pipe between processes goes before all of them;
  \<^item> a command with variables of its own gets the whole current environment as well, also when
    it was told not to inherit it.
\<close>

section \<open>Standard streams\<close>

datatype stdio_type = Stdio_empty | Stdio_ignore | Stdio_capture | Stdio_file | Stdio_inherit | Stdio_between

fun priority :: "stdio_type \<Rightarrow> nat" where
  "priority Stdio_empty = 0"
| "priority Stdio_ignore = 1"
| "priority Stdio_capture = 2"
| "priority Stdio_file = 3"
| "priority Stdio_inherit = 4"
| "priority Stdio_between = 5"

datatype open_flag = O_APPEND | O_CREAT | O_TRUNC | O_WRONLY | O_RDONLY

record io_data =
  io_type :: stdio_type
  io_fd :: int
  io_out :: bool

definition set_type_io :: "stdio_type \<Rightarrow> io_data \<Rightarrow> io_data result" where
  "set_type_io t d =
     (if priority t < priority (io_type d) then
        Inl (Logic_error (''cannot downgrade stdio type from '' @ to_string (int (priority (io_type d))) @ '' to ''
          @ to_string (int (priority t))))
      else Inr (d\<lparr>io_type := t\<rparr>))"

definition clear_io :: "stdio_type \<Rightarrow> io_data \<Rightarrow> io_data result" where
  "clear_io t d = bind_result (set_type_io t d) (\<lambda>d. Inr (d\<lparr>io_out := True, io_fd := -1\<rparr>))"

definition new_io :: io_data where
  "new_io = \<lparr>io_type = Stdio_empty, io_fd = -1, io_out = True\<rparr>"

definition set_ignore :: "int \<Rightarrow> io_data \<Rightarrow> io_data result" where
  "set_ignore fd d = bind_result (clear_io Stdio_ignore d) (\<lambda>d. Inr (d\<lparr>io_fd := fd\<rparr>))"

definition set_capture :: "int \<Rightarrow> string \<Rightarrow> bool \<Rightarrow> io_data \<Rightarrow> io_data result" where
  "set_capture fd dst_text out d =
     (if \<not> out \<and> dst_text = [] then Inr d
      else bind_result (clear_io Stdio_capture d) (\<lambda>d. Inr (d\<lparr>io_out := out, io_fd := fd\<rparr>)))"

definition open_flags :: "bool \<Rightarrow> bool \<Rightarrow> open_flag set" where
  "open_flags out app = (if out then (if app then {O_APPEND} else {O_CREAT, O_TRUNC}) \<union> {O_WRONLY} else {O_RDONLY})"

definition set_redirect ::
  "(string \<Rightarrow> open_flag set \<Rightarrow> int) \<Rightarrow> string \<Rightarrow> bool \<Rightarrow> bool \<Rightarrow> io_data \<Rightarrow> io_data result" where
  "set_redirect open_file f out app d =
     (if f = [] then Inr d
      else bind_result (clear_io Stdio_file d) (\<lambda>d. Inr (d\<lparr>io_out := out, io_fd := open_file f (open_flags out app)\<rparr>)))"

definition set_inherit :: "int \<Rightarrow> io_data \<Rightarrow> io_data result" where
  "set_inherit fd d = bind_result (clear_io Stdio_inherit d) (\<lambda>d. Inr (d\<lparr>io_fd := fd\<rparr>))"

text \<open>Both ends of a pipe between two processes.\<close>

definition redirect_pipe :: "bool \<Rightarrow> io_data \<Rightarrow> io_data result" where
  "redirect_pipe out d = bind_result (clear_io Stdio_between d) (\<lambda>d. Inr (d\<lparr>io_out := out\<rparr>))"

record std_stream =
  str_text :: string
  str_file :: string
  str_inherit :: bool
  str_append :: bool

definition input_io :: "(string \<Rightarrow> open_flag set \<Rightarrow> int) \<Rightarrow> bool \<Rightarrow> std_stream \<Rightarrow> io_data result" where
  "input_io open_file inh s =
     bind_result (set_ignore 0 new_io) (\<lambda>d.
     bind_result (set_capture 0 (str_text s) False d) (\<lambda>d.
     bind_result (set_redirect open_file (str_file s) False False d) (\<lambda>d.
       if inh \<or> str_inherit s then set_inherit 0 d else Inr d)))"

definition output_io :: "(string \<Rightarrow> open_flag set \<Rightarrow> int) \<Rightarrow> bool \<Rightarrow> int \<Rightarrow> std_stream \<Rightarrow> io_data result" where
  "output_io open_file inh n s =
     bind_result (set_capture n (str_text s) True new_io) (\<lambda>d.
     bind_result (set_redirect open_file (str_file s) True (str_append s) d) (\<lambda>d.
       if inh \<or> str_inherit s then set_inherit n d else Inr d))"

text \<open>What libuv is told; a detached process or one with its own console gets a zeroed container.\<close>

datatype child_stdio = Child_ignore | Child_fd int | Child_stream | Child_pipe bool

fun child_stdio_of :: "bool \<Rightarrow> io_data \<Rightarrow> child_stdio" where
  "child_stdio_of det d =
     (if det then Child_ignore
      else case io_type d of
        Stdio_inherit \<Rightarrow> Child_fd (io_fd d)
      | Stdio_file \<Rightarrow> Child_fd (io_fd d)
      | Stdio_between \<Rightarrow> if io_out d then Child_pipe True else Child_stream
      | Stdio_capture \<Rightarrow> Child_pipe (io_out d)
      | Stdio_empty \<Rightarrow> Child_ignore
      | Stdio_ignore \<Rightarrow> Child_ignore)"

lemmas io_defs = input_io_def output_io_def set_ignore_def set_capture_def set_redirect_def set_inherit_def
  redirect_pipe_def clear_io_def set_type_io_def new_io_def

text \<open>
  Setting up the streams of a process never fails. The input is inherited if the command or
  the std_stream says so, else read from the file, else fed with the text, else ignored; an output
  is inherited, else written to its file, else captured. A pipe to another process can be set
  on all of them and goes first. A detached process gets nothing.
\<close>

theorem stdio_choice:
  "\<exists>i p. input_io open_file inh s = Inr i \<and> output_io open_file inh n t = Inr p
    \<and> child_stdio_of False i =
        (if inh \<or> str_inherit s then Child_fd 0
         else if str_file s \<noteq> [] then Child_fd (open_file (str_file s) {O_RDONLY})
         else if str_text s \<noteq> [] then Child_pipe False else Child_ignore)
    \<and> child_stdio_of False p =
        (if inh \<or> str_inherit t then Child_fd n
         else if str_file t \<noteq> [] then Child_fd (open_file (str_file t)
           (if str_append t then {O_APPEND, O_WRONLY} else {O_CREAT, O_TRUNC, O_WRONLY}))
         else Child_pipe True)
    \<and> (\<exists>p' i'. redirect_pipe True p = Inr p' \<and> redirect_pipe False i = Inr i'
         \<and> child_stdio_of False p' = Child_pipe True \<and> child_stdio_of False i' = Child_stream)
    \<and> child_stdio_of True i = Child_ignore \<and> child_stdio_of True p = Child_ignore"
  by (cases "inh"; cases "str_inherit s"; cases "str_inherit t"; cases "str_file s = []"; cases "str_file t = []")
    (auto simp: io_defs open_flags_def insert_commute)

section \<open>The environment\<close>

text \<open>An entry \<open>name=value\<close>; without the sign, the whole text is both.\<close>

definition split_variable :: "string \<Rightarrow> string \<times> string" where
  "split_variable s =
     (case str_find ''='' s of None \<Rightarrow> (s, s) | Some i \<Rightarrow> (take i s, drop (i + 1) s))"

definition assign_variable :: "string \<times> string \<Rightarrow> (string \<times> string) list \<Rightarrow> (string \<times> string) list" where
  "assign_variable kv m = (case kv of (k, v) \<Rightarrow> map_at k [] (\<lambda>_. v) m)"

text \<open>\<open>None\<close>: the process inherits the environment as it is.\<close>

definition child_environment :: "string list \<Rightarrow> (string \<times> string) list \<Rightarrow> bool \<Rightarrow> string list option" where
  "child_environment environ own inherit_current =
     (let m = (if own \<noteq> [] then fold assign_variable (map split_variable environ) [] else []);
          m = fold assign_variable own m;
          data = map (\<lambda>(k, v). k @ ''='' @ v) m
      in if data \<noteq> [] \<or> \<not> inherit_current then Some data else None)"

lemma fold_assign_variable:
  "sorted_keys m \<Longrightarrow> sorted_keys (fold assign_variable l m) \<and> map_of (fold assign_variable l m) = map_of m ++ map_of (rev l)"
proof (induction l arbitrary: m)
  case (Cons kv l)
  obtain k v where kv: "kv = (k, v)" by (cases kv)
  have "sorted_keys (map_at k [] (\<lambda>_. v) m)" by (rule sorted_map_at [OF Cons.prems])
  moreover have "map_of (map_at k [] (\<lambda>_. v) m) ++ map_of (rev l) = map_of m ++ map_of (rev (kv # l))"
    unfolding map_of_map_at [OF Cons.prems] by (rule ext) (auto simp: kv map_add_def split: option.split)
  ultimately show ?case
    using Cons.IH [of "map_at k [] (\<lambda>_. v) m"] by (simp add: kv assign_variable_def)
qed simp

text \<open>
  The variables a process gets: those of the command over those of the current environment,
  even if the command is not to inherit it; only without own variables does this flag count.
\<close>

lemma child_environment_variables:
  "own \<noteq> [] \<Longrightarrow> \<exists>m. child_environment environ own inherit_current = Some (map (\<lambda>(k, v). k @ ''='' @ v) m)
     \<and> sorted_keys m \<and> map_of m = map_of (rev (map split_variable environ)) ++ map_of (rev own)"
  "child_environment environ [] True = None" "child_environment environ [] False = Some []"
proof -
  assume own: "own \<noteq> []"
  define m where "m = fold assign_variable own (fold assign_variable (map split_variable environ) [])"
  have m1: "sorted_keys (fold assign_variable (map split_variable environ) [])"
    "map_of (fold assign_variable (map split_variable environ) []) = map_of (rev (map split_variable environ))"
    using fold_assign_variable [of "[]" "map split_variable environ"] by simp_all
  have m: "sorted_keys m" "map_of m = map_of (rev (map split_variable environ)) ++ map_of (rev own)"
    using fold_assign_variable [OF m1(1), of own] m1(2) by (simp_all add: m_def)
  have "m \<noteq> []"
  proof
    assume "m = []"
    then have "map_of (rev own) = Map.empty" using m(2) by (metis map_add_None map_of.simps(1) ext)
    then show False using own by (simp add: map_of_eq_empty_iff)
  qed
  then have "child_environment environ own inherit_current = Some (map (\<lambda>(k, v). k @ ''='' @ v) m)"
    using own by (simp add: child_environment_def Let_def m_def)
  with m show "\<exists>m. child_environment environ own inherit_current = Some (map (\<lambda>(k, v). k @ ''='' @ v) m)
     \<and> sorted_keys m \<and> map_of m = map_of (rev (map split_variable environ)) ++ map_of (rev own)" by blast
qed (simp_all add: child_environment_def)

end
