(* ===== verification/CommandTokens.thy ===== *)
theory CommandTokens
  imports Arguments
begin

text \<open>
  Splitting a command line into arguments (\<open>TokenizeGNUCommandLine\<close>, \<open>TokenizeWindowsCommandLine\<close>,
  \<open>tokenizeConfigFile\<close> of \<open>CommandLine.cpp\<close>) and expanding response files (\<open>ExpandResponseFiles\<close>,
  \<open>readConfigFile\<close>). An argument list is a list of \<open>string option\<close>; \<open>None\<close> is the null pointer
  that marks the end of a line. The index into the source is the text that is left; an argument
  is its characters, the terminating zero is not part of it.

  \<^item> arguments that are escaped and quoted as \<open>argument.h\<close> does are read back by the GNU rules,
    and arguments written by the rules of Windows by the Windows rules;
  \<^item> a configuration file is its lines, without comments, each split on its own;
  \<^item> the expansion of response files ends, and no unexpanded name is left when it succeeds.
\<close>

section \<open>The GNU rules\<close>

definition is_whitespace :: "char \<Rightarrow> bool" where
  "is_whitespace c \<longleftrightarrow> c = CHR '' '' \<or> c = CHR 0x09 \<or> c = CHR 0x0D \<or> c = NL"

definition squote :: char where "squote = CHR 0x27"

definition is_quote :: "char \<Rightarrow> bool" where
  "is_quote c \<longleftrightarrow> c = dquote \<or> c = squote"

type_synonym arguments = "string option list"

text \<open>Runs of whitespace: the marks of the line ends in it, and the rest.\<close>

definition end_marks :: "bool \<Rightarrow> string \<Rightarrow> arguments" where
  "end_marks mark s = (if mark then map (\<lambda>_. None) (filter (\<lambda>c. c = NL) (takeWhile is_whitespace s)) else [])"

definition skip_whitespace :: "string \<Rightarrow> string" where
  "skip_whitespace s = dropWhile is_whitespace s"

text \<open>The inside of a quoted string: the token and the text behind the closing quote, if there is one.\<close>

fun quoted_part :: "char \<Rightarrow> string \<Rightarrow> string \<Rightarrow> string \<times> string option" where
  "quoted_part q tok [] = (tok, None)"
| "quoted_part q tok (c # s) =
     (if c = q then (tok, Some s)
      else if c = bslash \<and> s \<noteq> [] then quoted_part q (tok @ [hd s]) (tl s)
      else quoted_part q (tok @ [c]) s)"

definition flush_token :: "bool \<Rightarrow> string \<Rightarrow> arguments" where
  "flush_token mark tok = (if tok \<noteq> [] then [Some tok] else []) @ (if mark then [None] else [])"

lemma quoted_part_shorter: "quoted_part q tok s = (t, Some r) \<Longrightarrow> length r < length s"
proof (induction q tok s rule: quoted_part.induct)
  case (2 q tok c s)
  then show ?case by (cases s) (auto split: if_splits)
qed simp

lemma skip_whitespace_le: "length (skip_whitespace s) \<le> length s"
  by (simp add: skip_whitespace_def length_dropWhile_le)

function tokenize_gnu :: "bool \<Rightarrow> string \<Rightarrow> string \<Rightarrow> arguments" where
  "tokenize_gnu mark tok src =
     (if tok = [] then end_marks mark src else []) @
     (case (if tok = [] then skip_whitespace src else src) of
        [] \<Rightarrow> flush_token mark tok
      | c # s \<Rightarrow>
          if c = bslash \<and> s \<noteq> [] then tokenize_gnu mark (tok @ [hd s]) (tl s)
          else if is_quote c then
            (case quoted_part c tok s of
               (tok', None) \<Rightarrow> flush_token mark tok'
             | (tok', Some r) \<Rightarrow> tokenize_gnu mark tok' r)
          else if is_whitespace c then (if tok \<noteq> [] then [Some tok] else []) @ tokenize_gnu mark [] s
          else tokenize_gnu mark (tok @ [c]) s)"
  by pat_completeness auto
termination
proof (relation "measure (\<lambda>(mark, tok, src). length src)", goal_cases)
  case (2 mark tok src c s)
  then show ?case using skip_whitespace_le [of src] by (cases s) (auto split: if_splits)
next
  case (3 mark tok src c s q tok' r)
  then have "length r < length s" using quoted_part_shorter by metis
  with 3 show ?case using skip_whitespace_le [of src] by (auto split: if_splits)
next
  case (4 mark tok src c s)
  then show ?case using skip_whitespace_le [of src] by (auto split: if_splits)
next
  case (5 mark tok src c s)
  then show ?case using skip_whitespace_le [of src] by (auto split: if_splits)
qed simp

declare tokenize_gnu.simps [simp del]

definition TokenizeGNUCommandLine :: "bool \<Rightarrow> string \<Rightarrow> arguments" where
  "TokenizeGNUCommandLine mark src = tokenize_gnu mark [] src"

lemma whitespace_simps [simp]:
  "\<not> is_whitespace bslash" "\<not> is_whitespace dquote" "is_whitespace CHR '' ''" "is_whitespace NL"
  "is_quote dquote" "\<not> is_quote bslash" "\<not> is_whitespace squote" "is_quote squote" "bslash \<noteq> squote" "squote \<noteq> bslash"
  "squote \<noteq> dquote" "dquote \<noteq> squote"
  "bslash \<noteq> NL" "NL \<noteq> bslash" "dquote \<noteq> NL" "NL \<noteq> dquote"
  by (simp_all add: is_whitespace_def is_quote_def bslash_def dquote_def squote_def NL_char)

text \<open>One step from the inside of a token, and the start of a token.\<close>

lemma tokenize_gnu_in:
  "tok \<noteq> [] \<Longrightarrow> tokenize_gnu mark tok [] = flush_token mark tok"
  "tok \<noteq> [] \<Longrightarrow> is_whitespace c \<Longrightarrow> tokenize_gnu mark tok (c # s) = Some tok # tokenize_gnu mark [] s"
  "tok \<noteq> [] \<Longrightarrow> tokenize_gnu mark tok (bslash # c # s) = tokenize_gnu mark (tok @ [c]) s"
  "tok \<noteq> [] \<Longrightarrow> c \<noteq> bslash \<Longrightarrow> \<not> is_quote c \<Longrightarrow> \<not> is_whitespace c \<Longrightarrow>
     tokenize_gnu mark tok (c # s) = tokenize_gnu mark (tok @ [c]) s"
  by (subst tokenize_gnu.simps; force simp: is_quote_def)+

lemma tokenize_gnu_quoted:
  "\<not> is_whitespace q \<Longrightarrow> is_quote q \<Longrightarrow> quoted_part q tok s = (tok', Some r) \<Longrightarrow>
     tokenize_gnu mark tok (q # s) = tokenize_gnu mark tok' r"
  by (subst tokenize_gnu.simps) (auto simp: end_marks_def skip_whitespace_def is_quote_def)

lemma tokenize_gnu_empty: "tokenize_gnu mark [] [] = (if mark then [None] else [])"
  by (subst tokenize_gnu.simps) (auto simp: end_marks_def skip_whitespace_def flush_token_def)

lemma tokenize_gnu_space: "tokenize_gnu False [] (c # s) = tokenize_gnu False [] s" if "is_whitespace c"
  by (subst (1 2) tokenize_gnu.simps) (simp add: that end_marks_def skip_whitespace_def)

lemma quoted_part_escape:
  "quoted_part dquote tok (concat (map escape_char s) @ dquote # r) = (tok @ s, Some r)"
  by (induction s arbitrary: tok) (auto simp: escape_char_def)

definition quoted_argument :: "string \<Rightarrow> string" where
  "quoted_argument s = dquote # concat (map escape_char s) @ [dquote]"

lemma tokenize_gnu_argument:
  "tokenize_gnu mark tok (quoted_argument s @ r) = tokenize_gnu mark (tok @ s) r"
  unfolding quoted_argument_def
  by (simp add: tokenize_gnu_quoted [OF _ _ quoted_part_escape])

lemma tokenize_gnu_arguments:
  "[] \<notin> set ss \<Longrightarrow> tokenize_gnu False [] (join '' '' (map quoted_argument ss)) = map Some ss"
proof (induction ss)
  case (Cons s ss)
  show ?case
  proof (cases ss)
    case Nil
    then show ?thesis
      using Cons.prems tokenize_gnu_argument [of False "[]" s "[]"]
      by (simp add: tokenize_gnu_in flush_token_def)
  next
    case (Cons t ts)
    have "s \<noteq> []" using Cons.prems by auto
    with Cons show ?thesis
      using Cons.IH Cons.prems tokenize_gnu_argument [of False "[]" s "'' '' @ join '' '' (map quoted_argument ss)"]
      by (simp add: tokenize_gnu_in join_Cons)
  qed
qed (simp add: tokenize_gnu_empty)

section \<open>The rules of Windows\<close>

text \<open>
  \<open>parseBackslash\<close> on a text that begins with backslashes: what it appends to the token, and the
  text behind the last character that is used up.
\<close>

definition parse_backslash :: "string \<Rightarrow> string \<times> string" where
  "parse_backslash s =
     (let n = length (takeWhile (\<lambda>c. c = bslash) s); r = dropWhile (\<lambda>c. c = bslash) s
      in if r \<noteq> [] \<and> hd r = dquote then
           (if even n then (replicate (n div 2) bslash, r) else (replicate (n div 2) bslash @ [dquote], tl r))
         else (replicate n bslash, r))"

datatype token_state = Tok_init | Tok_unquoted | Tok_quoted

lemma parse_backslash_shorter:
  assumes "(a, r) = parse_backslash (bslash # s)"
  shows "length r < Suc (length s)"
proof -
  have "length (snd (parse_backslash (bslash # s))) \<le> length s"
    by (simp add: parse_backslash_def Let_def length_dropWhile_le le_diff_conv le_SucI)
  with assms [symmetric] show ?thesis by simp
qed

function tokenize_windows :: "bool \<Rightarrow> token_state \<Rightarrow> string \<Rightarrow> string \<Rightarrow> arguments" where
  "tokenize_windows mark st tok [] = flush_token mark tok"
| "tokenize_windows mark Tok_init tok (c # s) =
     (if is_whitespace c then (if mark \<and> c = NL then [None] else []) @ tokenize_windows mark Tok_init tok s
      else if c = dquote then tokenize_windows mark Tok_quoted tok s
      else if c = bslash then
        (case parse_backslash (c # s) of (a, r) \<Rightarrow> tokenize_windows mark Tok_unquoted (tok @ a) r)
      else tokenize_windows mark Tok_unquoted (tok @ [c]) s)"
| "tokenize_windows mark Tok_unquoted tok (c # s) =
     (if is_whitespace c then
        Some tok # (if mark \<and> c = NL then [None] else []) @ tokenize_windows mark Tok_init [] s
      else if c = dquote then tokenize_windows mark Tok_quoted tok s
      else if c = bslash then
        (case parse_backslash (c # s) of (a, r) \<Rightarrow> tokenize_windows mark Tok_unquoted (tok @ a) r)
      else tokenize_windows mark Tok_unquoted (tok @ [c]) s)"
| "tokenize_windows mark Tok_quoted tok (c # s) =
     (if c = dquote then tokenize_windows mark Tok_unquoted tok s
      else if c = bslash then
        (case parse_backslash (c # s) of (a, r) \<Rightarrow> tokenize_windows mark Tok_quoted (tok @ a) r)
      else tokenize_windows mark Tok_quoted (tok @ [c]) s)"
  by pat_completeness auto
termination
  by (relation "measure (\<lambda>(mark, st, tok, src). length src)") (auto dest: parse_backslash_shorter)

definition TokenizeWindowsCommandLine :: "bool \<Rightarrow> string \<Rightarrow> arguments" where
  "TokenizeWindowsCommandLine mark src = tokenize_windows mark Tok_init [] src"

text \<open>
  The rules of Windows for writing an argument in quotes: backslashes are doubled in front of a
  quotation mark and of the closing one, and are written as they are elsewhere.
\<close>

fun windows_escape :: "nat \<Rightarrow> string \<Rightarrow> string" where
  "windows_escape n [] = replicate (2 * n) bslash"
| "windows_escape n (c # s) =
     (if c = bslash then windows_escape (Suc n) s
      else if c = dquote then replicate (2 * n + 1) bslash @ dquote # windows_escape 0 s
      else replicate n bslash @ c # windows_escape 0 s)"

definition windows_argument :: "string \<Rightarrow> string" where
  "windows_argument s = dquote # windows_escape 0 s @ [dquote]"

lemma takeWhile_bslash:
  "c \<noteq> bslash \<Longrightarrow> takeWhile (\<lambda>c. c = bslash) (replicate n bslash @ c # s) = replicate n bslash"
  "c \<noteq> bslash \<Longrightarrow> dropWhile (\<lambda>c. c = bslash) (replicate n bslash @ c # s) = c # s"
  by (induction n) auto

lemma tokenize_windows_bslashes:
  assumes "c \<noteq> bslash"
  shows "tokenize_windows mark Tok_quoted tok (replicate n bslash @ c # s) =
    (if c = dquote then
       if even n then tokenize_windows mark Tok_unquoted (tok @ replicate (n div 2) bslash) s
       else tokenize_windows mark Tok_quoted (tok @ replicate (n div 2) bslash @ [dquote]) s
     else tokenize_windows mark Tok_quoted (tok @ replicate n bslash @ [c]) s)"
proof (cases n)
  case (Suc m)
  have "parse_backslash (replicate n bslash @ c # s) =
      (if c = dquote then
         if even n then (replicate (n div 2) bslash, c # s) else (replicate (n div 2) bslash @ [dquote], s)
       else (replicate n bslash, c # s))"
    by (simp add: parse_backslash_def takeWhile_bslash [OF assms] Let_def)
  with Suc assms show ?thesis by simp
qed (use assms in auto)

lemma tokenize_windows_escape:
  "tokenize_windows mark Tok_quoted tok (windows_escape n s @ dquote # r) =
     tokenize_windows mark Tok_unquoted (tok @ replicate n bslash @ s) r"
proof (induction n s arbitrary: tok rule: windows_escape.induct)
  case (1 n)
  then show ?case by (simp add: tokenize_windows_bslashes)
next
  case (2 n c s)
  consider "c = bslash" | "c = dquote" | "c \<noteq> bslash" "c \<noteq> dquote" by blast
  then show ?case
  proof cases
    case 1
    then show ?thesis using "2.IH"(1) [of tok] by (simp add: replicate_app_Cons_same)
  next
    case 2
    then show ?thesis
      using "2.IH"(2) [of "tok @ replicate n bslash @ [dquote]"] tokenize_windows_bslashes [of dquote mark tok "2 * n + 1"]
      by simp
  next
    case 3
    then show ?thesis
      using "2.IH"(3) [of "tok @ replicate n bslash @ [c]"] by (simp add: tokenize_windows_bslashes)
  qed
qed

lemma tokenize_windows_argument:
  "tokenize_windows mark Tok_init [] (windows_argument s @ r) = tokenize_windows mark Tok_unquoted s r"
  using tokenize_windows_escape [of mark "[]" 0 s r] by (simp add: windows_argument_def)

lemma tokenize_windows_arguments:
  "(\<forall>ts. ss \<noteq> ts @ [[]]) \<Longrightarrow> tokenize_windows False Tok_init [] (join '' '' (map windows_argument ss)) = map Some ss"
proof (induction ss)
  case (Cons s ss)
  show ?case
  proof (cases ss)
    case Nil
    then show ?thesis
      using Cons.prems tokenize_windows_argument [of False s "[]"] by (auto simp: flush_token_def)
  next
    case (Cons t ts)
    have "\<forall>us. ss \<noteq> us @ [[]]" using Cons.prems append_Cons by metis
    then have "tokenize_windows False Tok_init [] (join '' '' (map windows_argument ss)) = map Some ss"
      by (rule Cons.IH)
    then show ?thesis
      using tokenize_windows_argument [of False s "CHR '' '' # join '' '' (map windows_argument ss)"] Cons
      by simp
  qed
qed (simp add: flush_token_def)

section \<open>Configuration files\<close>

text \<open>The logical line at the front, continuations joined, and the rest, which begins with the line end.\<close>

fun config_line :: "string \<Rightarrow> string \<times> string" where
  "config_line [] = ([], [])"
| "config_line (c # s) =
     (if c = bslash then
        (case s of
           [] \<Rightarrow> ([c], [])
         | d # s' \<Rightarrow>
             if d = NL then config_line s'
             else if d = CHR 0x0D \<and> s' \<noteq> [] \<and> hd s' = NL then config_line (tl s')
             else (case config_line s' of (l, r) \<Rightarrow> (c # d # l, r)))
      else if c = NL then ([], c # s)
      else (case config_line s of (l, r) \<Rightarrow> (c # l, r)))"

lemma config_line_le: "length (snd (config_line s)) \<le> length s"
proof (induction s rule: config_line.induct)
  case (2 c s)
  show ?case
  proof (cases "c = bslash")
    case True
    with 2 show ?thesis by (cases s; simp add: split_beta le_SucI; linarith)
  next
    case False
    with 2 show ?thesis by (simp add: split_beta le_SucI)
  qed
qed simp

lemma config_line_less:
  assumes "\<not> is_whitespace c" "(l, r) = config_line (c # s)"
  shows "length r < Suc (length s)"
proof -
  have "length (snd (config_line (c # s))) \<le> length s"
  proof (cases "c = bslash")
    case True
    then show ?thesis
      using config_line_le [of "tl s"] config_line_le [of "tl (tl s)"]
      by (cases s) (simp_all add: split_beta le_SucI)
  next
    case False
    then show ?thesis using config_line_le [of s] assms(1) by (auto simp: split_beta)
  qed
  with assms(2) [symmetric] show ?thesis by simp
qed

function tokenizeConfigFile :: "bool \<Rightarrow> string \<Rightarrow> arguments" where
  "tokenizeConfigFile mark [] = []"
| "tokenizeConfigFile mark (c # s) =
     (if is_whitespace c then tokenizeConfigFile mark (dropWhile is_whitespace s)
      else if c = CHR ''#'' then tokenizeConfigFile mark (dropWhile (\<lambda>c. c \<noteq> NL) s)
      else (case config_line (c # s) of (l, r) \<Rightarrow> TokenizeGNUCommandLine mark l @ tokenizeConfigFile mark r))"
  by pat_completeness auto
termination
  by (relation "measure (\<lambda>(mark, s). length s)")
    (auto simp: le_imp_less_Suc length_dropWhile_le dest: config_line_less)

declare tokenizeConfigFile.simps [simp del]

text \<open>A line without continuations, and what it stands for.\<close>

definition config_items :: "bool \<Rightarrow> string \<Rightarrow> arguments" where
  "config_items mark l = (case skip_whitespace l of
     [] \<Rightarrow> []
   | c # s \<Rightarrow> if c = CHR ''#'' then [] else TokenizeGNUCommandLine mark (c # s))"

lemma config_line_plain:
  "bslash \<notin> set l \<Longrightarrow> NL \<notin> set l \<Longrightarrow> config_line (l @ NL # r) = (l, NL # r)"
  by (induction l) auto

lemma tokenizeConfigFile_skip: "tokenizeConfigFile mark (dropWhile is_whitespace s) = tokenizeConfigFile mark s"
  by (cases s) (auto simp: tokenizeConfigFile.simps)

lemma dropWhile_not_NL: "NL \<notin> set l \<Longrightarrow> dropWhile (\<lambda>c. c \<noteq> NL) (l @ NL # r) = NL # r"
  by (induction l) auto

lemma tokenizeConfigFile_NL: "tokenizeConfigFile mark (NL # r) = tokenizeConfigFile mark r"
  by (simp add: tokenizeConfigFile.simps(2) tokenizeConfigFile_skip)

lemma dropWhile_ws_line:
  "dropWhile is_whitespace (l @ NL # r) =
     (if skip_whitespace l = [] then dropWhile is_whitespace r else skip_whitespace l @ NL # r)"
  by (induction l) (auto simp: skip_whitespace_def)

lemma set_skip_whitespace: "set (skip_whitespace l) \<subseteq> set l"
  unfolding skip_whitespace_def using set_dropWhileD by fast

lemma skip_whitespace_hd: "skip_whitespace l = c # s \<Longrightarrow> \<not> is_whitespace c"
  unfolding skip_whitespace_def by (metis dropWhile_eq_Cons_conv)

lemma tokenizeConfigFile_line:
  assumes "bslash \<notin> set l" "NL \<notin> set l"
  shows "tokenizeConfigFile mark (l @ NL # r) = config_items mark l @ tokenizeConfigFile mark r"
proof (cases "skip_whitespace l")
  case Nil
  then show ?thesis
    by (subst tokenizeConfigFile_skip [symmetric])
      (simp add: dropWhile_ws_line config_items_def tokenizeConfigFile_skip)
next
  case (Cons c s)
  have s: "NL \<notin> set (c # s)" "bslash \<notin> set (c # s)"
    using assms set_skip_whitespace [of l] unfolding Cons by auto
  have "tokenizeConfigFile mark (l @ NL # r) = tokenizeConfigFile mark ((c # s) @ NL # r)"
    by (subst tokenizeConfigFile_skip [symmetric]) (simp add: dropWhile_ws_line Cons)
  also have "\<dots> = config_items mark l @ tokenizeConfigFile mark (NL # r)"
    using s skip_whitespace_hd [OF Cons] config_line_plain [OF s(2,1), of r]
    by (auto simp: tokenizeConfigFile.simps(2) config_items_def Cons dropWhile_not_NL)
  finally show ?thesis by (simp add: tokenizeConfigFile_NL)
qed

lemma config_line_continued:
  "bslash \<notin> set l \<Longrightarrow> NL \<notin> set l \<Longrightarrow> config_line (l @ bslash # NL # s) = (l @ fst (config_line s), snd (config_line s))"
  by (induction l) (auto simp: split_beta)

section \<open>Response files\<close>

text \<open>
  The outside: reading a file, what LLVM says of byte order marks of UTF-16 and of paths, the
  working directory, and \<open>load\<close> of the local settings, which acts on the settings \<open>'w\<close>.
\<close>

record 'w response_env =
  response_file :: "string \<Rightarrow> string option"
  utf16_mark :: "string \<Rightarrow> bool"
  from_utf16 :: "string \<Rightarrow> string option"
  relative_path :: "string \<Rightarrow> bool"
  directory_of :: "string \<Rightarrow> string"
  add_paths :: "string \<Rightarrow> string \<Rightarrow> string \<Rightarrow> string"
  working_directory :: string
  load_settings :: "string \<Rightarrow> 'w \<Rightarrow> unit result \<times> 'w"

definition hasUTF8ByteOrderMark :: "string \<Rightarrow> bool" where
  "hasUTF8ByteOrderMark s \<longleftrightarrow> length s \<ge> 3 \<and> s ! 0 = CHR 0xEF \<and> s ! 1 = CHR 0xBB \<and> s ! 2 = CHR 0xBF"

text \<open>The name of a nested response file, relative to the file that includes it.\<close>

definition nested_name :: "'w response_env \<Rightarrow> string \<Rightarrow> string \<Rightarrow> string" where
  "nested_name E fname a =
     (if a \<noteq> [] \<and> hd a = CHR ''@'' \<and> relative_path E (tl a) then
        add_paths E (CHR ''@'' # (if relative_path E fname then working_directory E else [])) (directory_of E fname) (tl a)
      else a)"

text \<open>The new arguments are appended to \<open>args\<close>; the loop over the names runs over all of them. No value: \<open>false\<close>.\<close>

definition ExpandResponseFile ::
  "'w response_env \<Rightarrow> (bool \<Rightarrow> string \<Rightarrow> arguments) \<Rightarrow> bool \<Rightarrow> bool \<Rightarrow> string \<Rightarrow> arguments \<Rightarrow> arguments option" where
  "ExpandResponseFile E tokenizer mark relative fname args =
     (case response_file E fname of
        None \<Rightarrow> None
      | Some s \<Rightarrow>
          (case (if utf16_mark E s then from_utf16 E s
                 else if hasUTF8ByteOrderMark s then Some (drop 3 s) else Some s) of
             None \<Rightarrow> None
           | Some s \<Rightarrow>
               let args = args @ tokenizer mark s
               in Some (if relative then map (map_option (nested_name E fname)) args else args)))"

text \<open>
  The loop: the arguments before the index, those from it on, the number of the files so far,
  and whether every file was expanded.
\<close>

function expand_loop ::
  "'w response_env \<Rightarrow> (bool \<Rightarrow> string \<Rightarrow> arguments) \<Rightarrow> bool \<Rightarrow> bool \<Rightarrow> nat \<Rightarrow> bool \<Rightarrow> arguments \<Rightarrow> arguments \<Rightarrow> 'w \<Rightarrow>
     (bool \<times> arguments) result \<times> 'w" where
  "expand_loop E tk mark rel files ok before [] w = (Inr (ok, before), w)"
| "expand_loop E tk mark rel files ok before (None # args) w =
     expand_loop E tk mark rel files ok (before @ [None]) args w"
| "expand_loop E tk mark rel files ok before (Some a # args) w =
     (if a = [] \<or> hd a \<noteq> CHR ''@'' then expand_loop E tk mark rel files ok (before @ [Some a]) args w
      else if prefix ''@@'' a then
        (case load_settings E (drop 2 a) w of
           (Inl e, w) \<Rightarrow> (Inl e, w)
         | (Inr _, w) \<Rightarrow> expand_loop E tk mark rel files ok before args w)
      else if files > 20 then (Inr (False, before @ Some a # args), w)
      else (case ExpandResponseFile E tk mark rel (tl a) [] of
          None \<Rightarrow> expand_loop E tk mark rel (Suc files) False (before @ [Some a]) args w
        | Some new \<Rightarrow> expand_loop E tk mark rel (Suc files) ok before (new @ args) w))"
  by pat_completeness auto
termination
  by (relation "measures [\<lambda>(E, tk, mark, rel, files, ok, before, args, w). 21 - files,
      \<lambda>(E, tk, mark, rel, files, ok, before, args, w). length args]") auto

declare expand_loop.simps [simp del]

definition ExpandResponseFiles ::
  "'w response_env \<Rightarrow> (bool \<Rightarrow> string \<Rightarrow> arguments) \<Rightarrow> bool \<Rightarrow> bool \<Rightarrow> arguments \<Rightarrow> 'w \<Rightarrow> (bool \<times> arguments) result \<times> 'w" where
  "ExpandResponseFiles E tk mark rel args w = expand_loop E tk mark rel 0 True [] args w"

definition readConfigFile :: "'w response_env \<Rightarrow> string \<Rightarrow> arguments \<Rightarrow> 'w \<Rightarrow> (bool \<times> arguments) result \<times> 'w" where
  "readConfigFile E fname args w =
     (case ExpandResponseFile E tokenizeConfigFile False True fname args of
        None \<Rightarrow> (Inr (False, args), w)
      | Some args \<Rightarrow> ExpandResponseFiles E tokenizeConfigFile False True args w)"

text \<open>An argument that names a file to expand.\<close>

definition response_argument :: "string option \<Rightarrow> bool" where
  "response_argument a \<longleftrightarrow> (\<exists>s. a = Some (CHR ''@'' # s))"

lemma response_argument_Some: "response_argument (Some a) \<longleftrightarrow> a \<noteq> [] \<and> hd a = CHR ''@''"
  by (cases a) (auto simp: response_argument_def)

lemma response_argument_None [simp]: "\<not> response_argument None"
  by (simp add: response_argument_def)

lemma expand_loop_done:
  assumes "expand_loop E tk mark rel files ok before args w = (Inr (True, out), w')"
    "list_all (\<lambda>a. \<not> response_argument a) before \<or> \<not> ok"
  shows "list_all (\<lambda>a. \<not> response_argument a) out"
  using assms
proof (induction E tk mark rel files ok before args w rule: expand_loop.induct)
  case (3 E tk mark rel files ok before a args w)
  consider "\<not> response_argument (Some a)" | "response_argument (Some a)" "prefix ''@@'' a"
    | "response_argument (Some a)" "\<not> prefix ''@@'' a" by blast
  then show ?case
  proof cases
    case 1
    then show ?thesis
      using "3.IH"(1) "3.prems" by (simp add: expand_loop.simps(3) response_argument_Some)
  next
    case 2
    then show ?thesis
      using "3.IH"(2) "3.prems"
      by (auto simp: expand_loop.simps(3) response_argument_Some split: prod.splits sum.splits)
  next
    case 3
    then show ?thesis
      using "3.IH"(3,4) "3.prems"
      by (auto simp: expand_loop.simps(3) response_argument_Some split: option.splits if_splits)
  qed
qed (auto simp: expand_loop.simps)

lemma expand_plain:
  "list_all (\<lambda>a. \<not> response_argument a) args \<Longrightarrow>
     expand_loop E tk mark rel files ok before (args @ rest) w = expand_loop E tk mark rel files ok (before @ args) rest w"
proof (induction args arbitrary: before)
  case (Cons a args)
  then show ?case by (cases a) (auto simp: expand_loop.simps response_argument_Some)
qed simp

section \<open>Properties\<close>

text \<open>
  Arguments that the quoting of a command writes are read back by the GNU rules: a line of
  arguments that are escaped, quoted and separated by spaces splits into these arguments, and so
  does a response file of them in the place of its name. None of the arguments may be empty:
  the splitting drops an empty argument also when it is quoted.
\<close>

theorem gnu_arguments_roundtrip:
  assumes "replaces_chars f" "[] \<notin> set ss" "list_all (\<lambda>s. hd s \<noteq> CHR ''@'') ss"
    "response_file E fname = Some (join '' '' (map (quote f Quote_simple_and_escape) ss))"
    "fname \<noteq> []" "hd fname \<noteq> CHR ''@''" "\<not> utf16_mark E (join '' '' (map (quote f Quote_simple_and_escape) ss))"
  shows "TokenizeGNUCommandLine False (join '' '' (map (quote f Quote_simple_and_escape) ss)) = map Some ss
    \<and> ExpandResponseFiles E TokenizeGNUCommandLine False False [Some ''prog'', Some (CHR ''@'' # fname), Some ''last''] w
      = (Inr (True, Some ''prog'' # map Some ss @ [Some ''last'']), w)
    \<and> TokenizeGNUCommandLine False (quote f Quote_simple_and_escape []) = []"
proof -
  let ?t = "join '' '' (map (quote f Quote_simple_and_escape) ss)"
  have q: "quote f Quote_simple_and_escape = quoted_argument"
    by (rule ext) (simp add: quote_def quote_escape_chars [OF assms(1)] quote_simple_escaped quoted_argument_def)
  have gnu: "TokenizeGNUCommandLine False ?t = map Some ss"
    using tokenize_gnu_arguments [OF assms(2)] by (simp add: TokenizeGNUCommandLine_def q)
  have empty: "TokenizeGNUCommandLine False (quoted_argument []) = []"
    using tokenize_gnu_argument [of False "[]" "[]" "[]"]
    by (simp add: TokenizeGNUCommandLine_def tokenize_gnu_empty)
  have "\<not> hasUTF8ByteOrderMark ?t"
    by (cases ss rule: remdups_adj.cases)
      (auto simp: hasUTF8ByteOrderMark_def q quoted_argument_def dquote_def join_Cons)
  then have read: "ExpandResponseFile E TokenizeGNUCommandLine False False fname [] = Some (map Some ss)"
    using assms(4,7) gnu by (simp add: ExpandResponseFile_def)
  have plain: "list_all (\<lambda>a. \<not> response_argument a) (map Some ss @ [Some ''last''])"
    using assms(3) by (auto simp: list_all_iff response_argument_Some)
  have "expand_loop E TokenizeGNUCommandLine False False 0 True [] [Some ''prog'', Some (CHR ''@'' # fname), Some ''last''] w
      = expand_loop E TokenizeGNUCommandLine False False 1 True [Some ''prog''] ((map Some ss @ [Some ''last'']) @ []) w"
    using assms(5,6) read by (cases fname) (simp_all add: expand_loop.simps)
  also have "\<dots> = (Inr (True, Some ''prog'' # map Some ss @ [Some ''last'']), w)"
    by (subst expand_plain [OF plain]) (simp add: expand_loop.simps)
  finally show ?thesis using gnu empty by (simp add: ExpandResponseFiles_def q)
qed

lemma gnu_arguments_roundtrip_witness:
  "TokenizeGNUCommandLine False [dquote, CHR ''a'', CHR '' '', bslash, dquote, dquote, CHR '' '', dquote, CHR ''b'', dquote]
     = [Some [CHR ''a'', CHR '' '', dquote], Some ''b'']"
proof -
  define f where "f = (\<lambda>s p r. replace_char s (hd p) r)"
  define ss where "ss = [[CHR ''a'', CHR '' '', dquote], ''b'']"
  let ?t = "join '' '' (map (quote f Quote_simple_and_escape) ss)"
  let ?E = "\<lparr>response_file = \<lambda>_. Some ?t, utf16_mark = \<lambda>_. False, from_utf16 = Some, relative_path = \<lambda>_. True,
    directory_of = \<lambda>_. [], add_paths = \<lambda>x y z. x @ z, working_directory = [], load_settings = \<lambda>_ w. (Inr (), w)\<rparr>"
  have f: "replaces_chars f" by (simp add: replaces_chars_def f_def)
  have "?t = [dquote, CHR ''a'', CHR '' '', bslash, dquote, dquote, CHR '' '', dquote, CHR ''b'', dquote]"
    by (simp add: ss_def quote_def quote_escape_chars [OF f]) (simp add: escape_char_def quote_simple_def dquote_def bslash_def)
  with gnu_arguments_roundtrip [OF f, of ss ?E "''f''" "()"] show ?thesis
    by (simp add: ss_def dquote_def)
qed

text \<open>
  C30: Arguments written by the rules of Windows, in quotation marks, with the backslashes doubled
  that stand before a quotation mark, are read back by the Windows rules, empty ones included, but
  an empty argument at the end of the line is lost.
\<close>

theorem windows_arguments_roundtrip:
  "TokenizeWindowsCommandLine False (join '' '' (map windows_argument ss)) =
    map Some (if ss \<noteq> [] \<and> last ss = [] then butlast ss else ss)"
proof (cases "ss \<noteq> [] \<and> last ss = []")
  case False
  then have "\<forall>ts. ss \<noteq> ts @ [[]]" by auto
  with False tokenize_windows_arguments show ?thesis by (auto simp: TokenizeWindowsCommandLine_def)
next
  case True
  then obtain ts where ss: "ss = ts @ [[]]" by (metis append_butlast_last_id)
  have "tokenize_windows False Tok_init [] (join '' '' (map windows_argument ss)) = map Some ts"
    unfolding ss
  proof (induction ts)
    case Nil
    then show ?case
      using tokenize_windows_argument [of False "[]" "[]"] by (simp add: flush_token_def)
  next
    case (Cons t ts)
    then show ?case
      using tokenize_windows_argument [of False t "CHR '' '' # join '' '' (map windows_argument (ts @ [[]]))"]
      by (simp add: join_Cons)
  qed
  with True show ?thesis by (simp add: TokenizeWindowsCommandLine_def ss)
qed

text \<open>
  The expansion of response files ends whatever the files hold, and where it succeeds, no
  argument begins with an at sign any more; a file that includes itself is given up after twenty-one files.
\<close>

theorem expanded_response_files:
  assumes "ExpandResponseFiles E tk mark rel args w = (r, w')"
  shows "(\<exists>out. r = Inr (True, out) \<and> list_all (\<lambda>a. \<not> response_argument a) out)
    \<or> (\<exists>out. r = Inr (False, out))
    \<or> (\<exists>e fn v v'. r = Inl e \<and> load_settings E fn v = (Inl e, v'))"
proof -
  have raised: "\<exists>fn v v'. load_settings E fn v = (Inl e, v')"
    if "expand_loop E tk mark rel files ok before args w = (Inl e, w')" for files ok before e w'
    using that
  proof (induction E tk mark rel files ok before args w rule: expand_loop.induct)
    case (3 E tk mark rel files ok before a args w)
    then show ?case by (auto simp: expand_loop.simps(3) split: if_splits prod.splits sum.splits option.splits)
  qed (auto simp: expand_loop.simps)
  show ?thesis
  proof (cases r)
    case (Inl e)
    then show ?thesis using raised [of 0 True "[]" e w'] assms by (simp add: ExpandResponseFiles_def)
  next
    case (Inr x)
    then obtain ok out where "r = Inr (ok, out)" by (cases x) auto
    then show ?thesis
      using expand_loop_done [of E tk mark rel 0 True "[]" args w out w'] assms
      by (cases ok) (auto simp: ExpandResponseFiles_def)
  qed
qed

definition self_including :: "unit response_env" where
  "self_including = \<lparr>response_file = \<lambda>_. Some ''x @f'', utf16_mark = \<lambda>_. False, from_utf16 = Some,
     relative_path = \<lambda>_. True, directory_of = \<lambda>_. [], add_paths = \<lambda>x y z. x @ z, working_directory = [],
     load_settings = \<lambda>_ w. (Inr (), w)\<rparr>"

lemma expanded_response_files_witness:
  "ExpandResponseFiles self_including TokenizeGNUCommandLine False False [Some ''@f''] () =
      (Inr (False, replicate 21 (Some ''x'') @ [Some ''@f'']), ())
   \<and> \<not> (\<exists>out. (Inr (False, replicate 21 (Some ''x'') @ [Some ''@f'']) :: (bool \<times> arguments) result) = Inr (True, out))"
proof -
  have r: "ExpandResponseFiles self_including TokenizeGNUCommandLine False False [Some ''@f''] () =
      (Inr (False, replicate 21 (Some ''x'') @ [Some ''@f'']), ())"
    by code_simp
  from expanded_response_files [OF r] r show ?thesis by simp
qed

text \<open>
  A configuration file without backslashes is its lines: blank lines and lines that begin with
  a hash sign, possibly after spaces, give nothing, and every other line is split on its own. A
  backslash at the end of a line joins it with the next one before the line is split.
\<close>

theorem config_file_lines:
  assumes "list_all (\<lambda>l. bslash \<notin> set l \<and> NL \<notin> set l) (l # m # ls)"
    "l \<noteq> []" "\<not> is_whitespace (hd l)" "hd l \<noteq> CHR ''#''"
  shows "tokenizeConfigFile mark (concat (map (\<lambda>l. l @ [NL]) ls)) = concat (map (config_items mark) ls)
    \<and> tokenizeConfigFile mark (l @ bslash # NL # m @ NL # r) =
        TokenizeGNUCommandLine mark (l @ m) @ tokenizeConfigFile mark r"
proof
  have "list_all (\<lambda>l. bslash \<notin> set l \<and> NL \<notin> set l) ls" using assms(1) by simp
  then show "tokenizeConfigFile mark (concat (map (\<lambda>l. l @ [NL]) ls)) = concat (map (config_items mark) ls)"
    by (induction ls) (simp_all add: tokenizeConfigFile.simps(1) tokenizeConfigFile_line)
next
  have lm: "bslash \<notin> set l" "NL \<notin> set l" "bslash \<notin> set m" "NL \<notin> set m" using assms(1) by simp_all
  obtain c s where l: "l = c # s" using assms(2) by (cases l) auto
  have "config_line (l @ bslash # NL # m @ NL # r) = (l @ m, NL # r)"
    by (simp add: config_line_continued [OF lm(1,2)] config_line_plain [OF lm(3,4)])
  then have "tokenizeConfigFile mark (l @ bslash # NL # m @ NL # r) =
      TokenizeGNUCommandLine mark (l @ m) @ tokenizeConfigFile mark (NL # r)"
    using assms(3,4) by (simp add: l tokenizeConfigFile.simps(2) del: config_line.simps)
  then show "tokenizeConfigFile mark (l @ bslash # NL # m @ NL # r) =
      TokenizeGNUCommandLine mark (l @ m) @ tokenizeConfigFile mark r"
    by (simp add: tokenizeConfigFile_NL)
qed

lemma config_file_lines_witness:
  "tokenizeConfigFile False (''-a'' @ [bslash, NL] @ ''b'' @ [NL]) = [Some ''-ab'']
   \<and> tokenizeConfigFile False (concat (map (\<lambda>l. l @ [NL]) [''# c'', '' x y''])) = [Some ''x'', Some ''y'']"
proof -
  have "config_items False ''# c'' = []" "config_items False '' x y'' = [Some ''x'', Some ''y'']"
    "TokenizeGNUCommandLine False ''-ab'' = [Some ''-ab'']"
    by code_simp+
  with config_file_lines [of "''-a''" "''b''" "[''# c'', '' x y'']" False "[]"] show ?thesis
    by (simp add: bslash_def NL_char is_whitespace_def tokenizeConfigFile.simps(1))
qed

text \<open>
  The GNU rules lose the mark of a line end that follows an argument, the Windows rules keep it,
  and they lose an empty argument at the end.
\<close>

lemma line_end_marks:
  "TokenizeGNUCommandLine True (''a'' @ NL # ''b'') = [Some ''a'', Some ''b'', None]"
  "TokenizeWindowsCommandLine True (''a'' @ NL # ''b'') = [Some ''a'', None, Some ''b'', None]"
  "TokenizeWindowsCommandLine False (''a '' @ [dquote, dquote]) = [Some ''a'']"
  by code_simp+

end
