(* ===== verification/CommandOptions.thy ===== *)
theory CommandOptions
  imports CommandTokens
begin

text \<open>
  The options of a program (\<open>CommandLine.h\<close>, \<open>CommandLine.cpp\<close>): options, subcommands, and the parser
  that registers them. Pointers to options and subcommands are indices; the top-level subcommand
  is 0 and the one that stands for all subcommands is 1. The maps from names to options are
  association lists, whose order stands for the order of iteration, which the source leaves
  open. Assertions are not checked, as in a release build.

  \<^item> every option name of all subcommands stands for the same option in each registered one,
    whatever is added in which order;
  \<^item> a second registration of a name ends the program, and keeps the first.
\<close>

section \<open>Options\<close>

datatype num_occurrences = Occ_optional | Occ_zero_or_more | Occ_required | Occ_one_or_more | Occ_consume_after

datatype value_expected = Value_optional | Value_required | Value_disallowed

datatype option_hidden = Not_hidden | Hidden_option | Really_hidden

datatype formatting = Fmt_normal | Fmt_positional | Fmt_prefix | Fmt_grouping

datatype int_type = Int_32 | Uint_32 | Int_64 | Uint_64

text \<open>The parsers of values; the generic one maps names, each with a number and a description.\<close>

datatype opt_parser =
    Parser_bool
  | Parser_bool_or_default
  | Parser_int int_type
  | Parser_double
  | Parser_float
  | Parser_string
  | Parser_char
  | Parser_path
  | Parser_values "(string \<times> nat \<times> string) list"

datatype 'd opt_value =
    Bool_value bool
  | Int_value int
  | Real_value 'd
  | String_value string
  | Char_value char
  | Enum_value nat

text \<open>
  What an occurrence does: a scalar, a list, a set of bits, the name of another option, or an
  option whose value prints something and ends the program.
\<close>

datatype opt_kind =
    Scalar_opt opt_parser
  | List_opt opt_parser
  | Bits_opt "(string \<times> nat \<times> string) list"
  | Alias_opt nat
  | Printer_opt

record 'd cl_option =
  opt_kind :: opt_kind
  arg_str :: string
  help_str :: string
  value_str :: string
  occ_flag :: num_occurrences
  value_flag :: "value_expected option"
  hidden_flag :: option_hidden
  formatting_flag :: formatting
  comma_separated :: bool
  positional_eats_args :: bool
  sink_flag :: bool
  space_separated :: bool
  additional_vals :: nat
  in_subs :: "nat list"
  opt_category :: nat
  num_occ :: nat
  opt_position :: nat
  opt_value :: "'d opt_value option"
  opt_values :: "'d opt_value list"
  opt_bits :: "32 word"
  opt_positions :: "nat list"

definition has_arg_str :: "'d cl_option \<Rightarrow> bool" where
  "has_arg_str p \<longleftrightarrow> arg_str p \<noteq> []"

definition is_positional :: "'d cl_option \<Rightarrow> bool" where
  "is_positional p \<longleftrightarrow> formatting_flag p = Fmt_positional"

definition is_consume_after :: "'d cl_option \<Rightarrow> bool" where
  "is_consume_after p \<longleftrightarrow> occ_flag p = Occ_consume_after"

section \<open>Subcommands and the parser\<close>

record subcommand =
  sub_name :: string
  sub_description :: string
  positional_opts :: "nat list"
  sink_opts :: "nat list"
  options_map :: "(string \<times> nat) list"
  consume_after_opt :: "nat option"

definition new_subcommand :: "string \<Rightarrow> string \<Rightarrow> subcommand" where
  "new_subcommand n d = \<lparr>sub_name = n, sub_description = d, positional_opts = [], sink_opts = [],
     options_map = [], consume_after_opt = None\<rparr>"

text \<open>
  The parser with the options and subcommands it points to, what was written to the error stream
  and to the stream that the caller of a parse gives, and the settings \<open>'w\<close> of the program.
\<close>

record ('d, 'w) cl_state =
  opts :: "'d cl_option list"
  subcommands :: "nat \<Rightarrow> subcommand"
  registered_subs :: "nat list"
  program_name :: string
  program_overview :: string
  more_help :: "string list"
  active_sub :: "nat option"
  ignore_duplicates :: bool
  errors_text :: string
  given_text :: string
  settings_of :: 'w

definition top_level_sub :: nat where "top_level_sub = 0"

definition all_subs :: nat where "all_subs = 1"

text \<open>The end of the program, or of the parse by an exception, undefined behaviour or an endless run.\<close>

datatype cl_end = Exits nat | Fatal string | Throws cpp_error

type_synonym ('s, 'a) cl = "'s \<Rightarrow> (cl_end + 'a) \<times> 's"

definition cl_return :: "'a \<Rightarrow> ('s, 'a) cl" where
  "cl_return x = (\<lambda>s. (Inr x, s))"

definition cl_end_with :: "cl_end \<Rightarrow> ('s, 'a) cl" where
  "cl_end_with e = (\<lambda>s. (Inl e, s))"

definition cl_bind :: "('s, 'a) cl \<Rightarrow> ('a \<Rightarrow> ('s, 'b) cl) \<Rightarrow> ('s, 'b) cl" where
  "cl_bind m f = (\<lambda>s. case m s of (Inl e, s) \<Rightarrow> (Inl e, s) | (Inr x, s) \<Rightarrow> f x s)"

fun cl_each :: "('a \<Rightarrow> ('s, unit) cl) \<Rightarrow> 'a list \<Rightarrow> ('s, unit) cl" where
  "cl_each f [] = cl_return ()"
| "cl_each f (x # xs) = cl_bind (f x) (\<lambda>_. cl_each f xs)"

definition on_sub :: "nat \<Rightarrow> (subcommand \<Rightarrow> subcommand) \<Rightarrow> ('d, 'w) cl_state \<Rightarrow> ('d, 'w) cl_state" where
  "on_sub i f st = st\<lparr>subcommands := (subcommands st)(i := f (subcommands st i))\<rparr>"

definition write_error :: "string \<Rightarrow> ('d, 'w) cl_state \<Rightarrow> ('d, 'w) cl_state" where
  "write_error t st = st\<lparr>errors_text := errors_text st @ t\<rparr>"

text \<open>\<open>Option::error\<close>: the text; no name stands for the name of the option.\<close>

definition error_text :: "('d, 'w) cl_state \<Rightarrow> nat \<Rightarrow> string option \<Rightarrow> string \<Rightarrow> string" where
  "error_text st i name msg =
     (let p = opts st ! i; n = (case name of None \<Rightarrow> arg_str p | Some n \<Rightarrow> n)
      in (if n = [] then help_str p else program_name st @ '': for the -'' @ n) @ '' option: '' @ msg @ [NL])"

definition option_error :: "nat \<Rightarrow> string option \<Rightarrow> string \<Rightarrow> ('d, 'w) cl_state \<Rightarrow> ('d, 'w) cl_state" where
  "option_error i name msg st = write_error (error_text st i name msg) st"

text \<open>Messages for the stream of the caller, if it gave one, and messages left out if errors are ignored.\<close>

definition write_given :: "bool \<Rightarrow> string \<Rightarrow> ('d, 'w) cl_state \<Rightarrow> ('d, 'w) cl_state" where
  "write_given g t st = (if g then st\<lparr>given_text := given_text st @ t\<rparr> else write_error t st)"

definition quiet_error :: "bool \<Rightarrow> nat \<Rightarrow> string \<Rightarrow> ('d, 'w) cl_state \<Rightarrow> ('d, 'w) cl_state" where
  "quiet_error ignore i msg st = (if ignore then st else option_error i None msg st)"

section \<open>Registering options\<close>

definition insert_option :: "string \<Rightarrow> nat \<Rightarrow> (string \<times> nat) list \<Rightarrow> (string \<times> nat) list" where
  "insert_option n i m = (if map_of m n = None then m @ [(n, i)] else m)"

definition in_quotes :: "string \<Rightarrow> string" where
  "in_quotes s = squote # s @ [squote]"

definition inconsistent :: cl_end where
  "inconsistent = Fatal ''inconsistency in registered CommandLine options''"

text \<open>Entering a name for an option; no value if the name is taken and duplicates are errors.\<close>

definition enter_name :: "string \<Rightarrow> string \<Rightarrow> nat \<Rightarrow> nat \<Rightarrow> ('d, 'w) cl_state \<Rightarrow> bool \<times> ('d, 'w) cl_state" where
  "enter_name shown n i sc st =
     (if map_of (options_map (subcommands st sc)) n \<noteq> None \<and> \<not> ignore_duplicates st then
        (False, write_error (program_name st @ '': CommandLine Error: Option '' @ in_quotes shown @ '' registered more than once!'' @ [NL]) st)
      else (True, on_sub sc (options_map_update (insert_option n i)) st))"

text \<open>\<open>addLiteralOption\<close> for one subcommand, for a subcommand that may stand for all, and for those of the option.\<close>

definition add_literal_one :: "nat \<Rightarrow> string \<Rightarrow> nat \<Rightarrow> ('d, 'w) cl_state \<Rightarrow> (cl_end + unit) \<times> ('d, 'w) cl_state" where
  "add_literal_one i n sc st =
     (if has_arg_str (opts st ! i) then (Inr (), st)
      else case enter_name n n i sc st of
        (False, st) \<Rightarrow> (Inl inconsistent, st)
      | (True, st) \<Rightarrow> (Inr (), st))"

definition other_subs :: "nat \<Rightarrow> ('d, 'w) cl_state \<Rightarrow> nat list" where
  "other_subs sc st = (if sc = all_subs then filter (\<lambda>s. s \<noteq> sc) (registered_subs st) else [])"

definition add_literal_sub :: "nat \<Rightarrow> string \<Rightarrow> nat \<Rightarrow> ('d, 'w) cl_state \<Rightarrow> (cl_end + unit) \<times> ('d, 'w) cl_state" where
  "add_literal_sub i n sc st =
     cl_bind (add_literal_one i n sc) (\<lambda>_. cl_each (add_literal_one i n) (other_subs sc st)) st"

definition subs_of :: "'d cl_option \<Rightarrow> nat list" where
  "subs_of p = (if in_subs p = [] then [top_level_sub] else in_subs p)"

definition addLiteralOption :: "nat \<Rightarrow> string \<Rightarrow> ('d, 'w) cl_state \<Rightarrow> (cl_end + unit) \<times> ('d, 'w) cl_state" where
  "addLiteralOption i n st = cl_each (add_literal_sub i n) (subs_of (opts st ! i)) st"

text \<open>\<open>addOption\<close>: the name, then the place among the positional options, the sinks, or behind all.\<close>

definition enter_place :: "nat \<Rightarrow> nat \<Rightarrow> ('d, 'w) cl_state \<Rightarrow> bool \<times> ('d, 'w) cl_state" where
  "enter_place i sc st =
     (let p = opts st ! i in
      if is_positional p then (True, on_sub sc (positional_opts_update (\<lambda>l. l @ [i])) st)
      else if sink_flag p then (True, on_sub sc (sink_opts_update (\<lambda>l. l @ [i])) st)
      else if is_consume_after p then
        (let twice = consume_after_opt (subcommands st sc) \<noteq> None;
             st = (if twice then option_error i None ''Cannot specify more than one option with cl::ConsumeAfter!'' st else st)
         in (\<not> twice, on_sub sc (consume_after_opt_update (\<lambda>_. Some i)) st))
      else (True, st))"

definition add_option_one :: "nat \<Rightarrow> nat \<Rightarrow> ('d, 'w) cl_state \<Rightarrow> (cl_end + unit) \<times> ('d, 'w) cl_state" where
  "add_option_one i sc st =
     (let p = opts st ! i in
      case (if has_arg_str p then enter_name (arg_str p) (arg_str p) i sc st else (True, st)) of
        (ok, st) \<Rightarrow> (case enter_place i sc st of
          (ok', st) \<Rightarrow> if ok \<and> ok' then (Inr (), st) else (Inl inconsistent, st)))"

definition add_option_sub :: "nat \<Rightarrow> nat \<Rightarrow> ('d, 'w) cl_state \<Rightarrow> (cl_end + unit) \<times> ('d, 'w) cl_state" where
  "add_option_sub i sc st = cl_bind (add_option_one i sc) (\<lambda>_. cl_each (add_option_one i) (other_subs sc st)) st"

definition addOption :: "nat \<Rightarrow> ('d, 'w) cl_state \<Rightarrow> (cl_end + unit) \<times> ('d, 'w) cl_state" where
  "addOption i st = cl_each (add_option_sub i) (subs_of (opts st ! i)) st"

text \<open>The names of an option that has none of its own: those of the values of its generic parser.\<close>

definition extra_names :: "'d cl_option \<Rightarrow> string list" where
  "extra_names p =
     (if has_arg_str p then []
      else case opt_kind p of
        Scalar_opt (Parser_values vs) \<Rightarrow> map fst vs
      | List_opt (Parser_values vs) \<Rightarrow> map fst vs
      | Bits_opt vs \<Rightarrow> map fst vs
      | _ \<Rightarrow> [])"

definition option_names :: "'d cl_option \<Rightarrow> string list" where
  "option_names p = extra_names p @ (if has_arg_str p then [arg_str p] else [])"

definition erase_names :: "string list \<Rightarrow> (string \<times> nat) list \<Rightarrow> (string \<times> nat) list" where
  "erase_names ns m = filter (\<lambda>(n, _). n \<notin> set ns) m"

definition remove_option_sub :: "nat \<Rightarrow> nat \<Rightarrow> ('d, 'w) cl_state \<Rightarrow> ('d, 'w) cl_state" where
  "remove_option_sub i sc st =
     (let p = opts st ! i; st = on_sub sc (options_map_update (erase_names (option_names p))) st in
      if is_positional p then on_sub sc (positional_opts_update (remove1 i)) st
      else if sink_flag p then on_sub sc (sink_opts_update (remove1 i)) st
      else if consume_after_opt (subcommands st sc) = Some i then on_sub sc (consume_after_opt_update (\<lambda>_. None)) st
      else st)"

definition removeOption :: "nat \<Rightarrow> ('d, 'w) cl_state \<Rightarrow> ('d, 'w) cl_state" where
  "removeOption i st =
     (let p = opts st ! i in
      fold (remove_option_sub i)
        (if in_subs p = [] then [top_level_sub]
         else if all_subs \<in> set (in_subs p) then registered_subs st else in_subs p) st)"

definition has_options_sub :: "subcommand \<Rightarrow> bool" where
  "has_options_sub s \<longleftrightarrow> options_map s \<noteq> [] \<or> positional_opts s \<noteq> [] \<or> consume_after_opt s \<noteq> None"

definition hasOptions :: "('d, 'w) cl_state \<Rightarrow> bool" where
  "hasOptions st \<longleftrightarrow> list_ex (\<lambda>s. has_options_sub (subcommands st s)) (registered_subs st)"

text \<open>\<open>setArgStr\<close> of a registered option: the new name is entered, then the old one erased.\<close>

definition update_arg_str_sub :: "nat \<Rightarrow> string \<Rightarrow> nat \<Rightarrow> ('d, 'w) cl_state \<Rightarrow> (cl_end + unit) \<times> ('d, 'w) cl_state" where
  "update_arg_str_sub i n sc st =
     (case enter_name (arg_str (opts st ! i)) n i sc st of
        (False, st) \<Rightarrow> (Inl inconsistent, st)
      | (True, st) \<Rightarrow> (Inr (), on_sub sc (options_map_update (erase_names [arg_str (opts st ! i)])) st))"

definition on_option :: "nat \<Rightarrow> ('d cl_option \<Rightarrow> 'd cl_option) \<Rightarrow> ('d, 'w) cl_state \<Rightarrow> ('d, 'w) cl_state" where
  "on_option i f st = st\<lparr>opts := (opts st)[i := f (opts st ! i)]\<rparr>"

definition setArgStr :: "nat \<Rightarrow> bool \<Rightarrow> string \<Rightarrow> ('d, 'w) cl_state \<Rightarrow> (cl_end + unit) \<times> ('d, 'w) cl_state" where
  "setArgStr i fully_initialized n st =
     (case (if fully_initialized then cl_each (update_arg_str_sub i n) (subs_of (opts st ! i)) st else (Inr (), st)) of
        (Inl e, st) \<Rightarrow> (Inl e, st)
      | (Inr _, st) \<Rightarrow> (Inr (), on_option i (arg_str_update (\<lambda>_. n)) st))"

text \<open>A new subcommand gets the named options of all subcommands.\<close>

definition add_known :: "nat \<Rightarrow> string \<times> nat \<Rightarrow> ('d, 'w) cl_state \<Rightarrow> (cl_end + unit) \<times> ('d, 'w) cl_state" where
  "add_known sc e st =
     (case e of (n, i) \<Rightarrow>
        let p = opts st ! i in
        if is_positional p \<or> sink_flag p \<or> is_consume_after p \<or> has_arg_str p then add_option_one i sc st
        else add_literal_one i n sc st)"

definition registerSubCommand :: "nat \<Rightarrow> ('d, 'w) cl_state \<Rightarrow> (cl_end + unit) \<times> ('d, 'w) cl_state" where
  "registerSubCommand sc st =
     (let st = st\<lparr>registered_subs := List.insert sc (registered_subs st)\<rparr> in
      if sc \<noteq> all_subs then cl_each (add_known sc) (options_map (subcommands st all_subs)) st else (Inr (), st))"

definition unregisterSubCommand :: "nat \<Rightarrow> ('d, 'w) cl_state \<Rightarrow> ('d, 'w) cl_state" where
  "unregisterSubCommand sc st = st\<lparr>registered_subs := removeAll sc (registered_subs st)\<rparr>"

definition reset_subcommand :: "subcommand \<Rightarrow> subcommand" where
  "reset_subcommand s = s\<lparr>positional_opts := [], sink_opts := [], options_map := [], consume_after_opt := None\<rparr>"

definition ResetAllOptionOccurrences :: "('d, 'w) cl_state \<Rightarrow> ('d, 'w) cl_state" where
  "ResetAllOptionOccurrences st =
     fold (\<lambda>i. on_option i (num_occ_update (\<lambda>_. 0)))
       (concat (map (\<lambda>s. map snd (options_map (subcommands st s))) (registered_subs st))) st"

definition reset_parser :: "('d, 'w) cl_state \<Rightarrow> (cl_end + unit) \<times> ('d, 'w) cl_state" where
  "reset_parser st =
     (let st = ResetAllOptionOccurrences (st\<lparr>active_sub := None, program_name := [], program_overview := [], more_help := []\<rparr>);
          st = st\<lparr>registered_subs := []\<rparr>;
          st = on_sub all_subs reset_subcommand (on_sub top_level_sub reset_subcommand st)
      in cl_bind (registerSubCommand top_level_sub) (\<lambda>_. registerSubCommand all_subs) st)"

section \<open>Names of all subcommands\<close>

definition names_of :: "('d, 'w) cl_state \<Rightarrow> nat \<Rightarrow> string set" where
  "names_of st sc = dom (map_of (options_map (subcommands st sc)))"

text \<open>What a registration leaves alone, and the names \<open>N\<close> it enters for an option and the subcommands \<open>S\<close>.\<close>

definition enters :: "nat \<Rightarrow> string set \<Rightarrow> nat set \<Rightarrow> ('d, 'w) cl_state \<Rightarrow> ('d, 'w) cl_state \<Rightarrow> bool" where
  "enters i N S st st' \<longleftrightarrow> opts st' = opts st \<and> registered_subs st' = registered_subs st
     \<and> ignore_duplicates st' = ignore_duplicates st
     \<and> (\<not> ignore_duplicates st \<longrightarrow> (\<forall>sc\<in>S. \<forall>n\<in>N. map_of (options_map (subcommands st' sc)) n = Some i))
     \<and> (\<forall>sc. map_of (options_map (subcommands st sc)) \<subseteq>\<^sub>m map_of (options_map (subcommands st' sc))
            \<and> names_of st' sc = names_of st sc \<union> (if sc \<in> S then N else {})
            \<and> set (options_map (subcommands st' sc)) \<subseteq> set (options_map (subcommands st sc)) \<union> (if sc \<in> S then N \<times> {i} else {}))"

lemma enters_none: "enters i N {} st st" "enters i {} S st st"
  by (simp_all add: enters_def)

lemma enters_trans:
  assumes "enters i N S st st1" "enters i N T st1 st2"
  shows "enters i N (S \<union> T) st st2"
  unfolding enters_def
proof (intro conjI allI)
  fix sc
  show "map_of (options_map (subcommands st sc)) \<subseteq>\<^sub>m map_of (options_map (subcommands st2 sc))"
    using assms map_le_trans unfolding enters_def by blast
  show "\<not> ignore_duplicates st \<longrightarrow> (\<forall>sc\<in>S \<union> T. \<forall>n\<in>N. map_of (options_map (subcommands st2 sc)) n = Some i)"
  proof (intro impI ballI)
    fix sc n
    assume "\<not> ignore_duplicates st" "sc \<in> S \<union> T" "n \<in> N"
    then have "map_of (options_map (subcommands st1 sc)) n = Some i \<or> map_of (options_map (subcommands st2 sc)) n = Some i"
      using assms unfolding enters_def by auto
    moreover have "map_of (options_map (subcommands st1 sc)) \<subseteq>\<^sub>m map_of (options_map (subcommands st2 sc))"
      using assms(2) unfolding enters_def by blast
    ultimately show "map_of (options_map (subcommands st2 sc)) n = Some i"
      by (fastforce simp: map_le_def dom_def)
  qed
  show "names_of st2 sc = names_of st sc \<union> (if sc \<in> S \<union> T then N else {})"
    using assms unfolding enters_def by auto
  show "set (options_map (subcommands st2 sc)) \<subseteq>
      set (options_map (subcommands st sc)) \<union> (if sc \<in> S \<union> T then N \<times> {i} else {})"
  proof -
    have "set (options_map (subcommands st1 sc)) \<subseteq> set (options_map (subcommands st sc)) \<union> (if sc \<in> S then N \<times> {i} else {})"
      "set (options_map (subcommands st2 sc)) \<subseteq> set (options_map (subcommands st1 sc)) \<union> (if sc \<in> T then N \<times> {i} else {})"
      using assms unfolding enters_def by blast+
    then show ?thesis by (auto split: if_splits)
  qed
qed (use assms in \<open>simp_all add: enters_def\<close>)

lemma on_sub_apply: "subcommands (on_sub sc f st) s = (if s = sc then f (subcommands st s) else subcommands st s)"
  "opts (on_sub sc f st) = opts st" "registered_subs (on_sub sc f st) = registered_subs st"
  "ignore_duplicates (on_sub sc f st) = ignore_duplicates st"
  by (simp_all add: on_sub_def)

lemma option_error_apply [simp]:
  "subcommands (option_error i n m st) = subcommands st" "opts (option_error i n m st) = opts st"
  "registered_subs (option_error i n m st) = registered_subs st"
  "ignore_duplicates (option_error i n m st) = ignore_duplicates st"
  by (simp_all add: option_error_def write_error_def)

lemma map_of_insert_option: "map_of (insert_option n i m) = (if map_of m n = None then (map_of m)(n \<mapsto> i) else map_of m)"
  by (auto simp: insert_option_def map_add_def fun_eq_iff split: option.splits)

lemma set_insert_option: "set (insert_option n i m) \<subseteq> insert (n, i) (set m)"
  by (auto simp: insert_option_def)

lemma enter_name_enters: "enter_name shown n i sc st = (True, st') \<Longrightarrow> enters i {n} {sc} st st'"
  by (auto simp: enter_name_def enters_def names_of_def on_sub_apply map_of_insert_option map_le_def
      dest: subsetD [OF set_insert_option] split: if_splits)

lemma enter_place_enters: "enter_place i sc st = (ok, st') \<Longrightarrow> enters i N {} st st'"
  by (auto simp: enter_place_def enters_def names_of_def on_sub_apply Let_def split: if_splits)

lemma add_literal_one_enters:
  "add_literal_one i n sc st = (Inr (), st') \<Longrightarrow> enters i (if has_arg_str (opts st ! i) then {} else {n}) {sc} st st'"
  by (auto simp: add_literal_one_def enters_none enter_name_enters split: if_splits prod.splits bool.splits)

definition own_name :: "'d cl_option \<Rightarrow> string set" where
  "own_name p = (if has_arg_str p then {arg_str p} else {})"

lemma add_option_one_enters:
  assumes "add_option_one i sc st = (Inr (), st')"
  shows "enters i (own_name (opts st ! i)) {sc} st st'"
proof -
  let ?p = "opts st ! i"
  obtain ok st1 where e: "(if has_arg_str ?p then enter_name (arg_str ?p) (arg_str ?p) i sc st else (True, st)) = (ok, st1)"
    by fastforce
  obtain ok' st2 where f: "enter_place i sc st1 = (ok', st2)" by fastforce
  have "ok" "st2 = st'" using assms e f by (auto simp: add_option_one_def Let_def split: if_splits)
  then have "enters i (own_name ?p) {sc} st st1"
    using e enter_name_enters by (fastforce simp: own_name_def enters_none split: if_splits)
  from enters_trans [OF this enter_place_enters [OF f]] show ?thesis
    using \<open>st2 = st'\<close> by simp
qed

lemma cl_each_enters:
  assumes "\<And>x st st'. opts st = ps \<Longrightarrow> f x st = (Inr (), st') \<Longrightarrow> enters i N {x} st st'"
  shows "cl_each f xs st = (Inr (), st') \<Longrightarrow> opts st = ps \<Longrightarrow> enters i N (set xs) st st'"
proof (induction xs arbitrary: st)
  case (Cons x xs)
  then obtain st1 where s: "f x st = (Inr (), st1)" "cl_each f xs st1 = (Inr (), st')"
    by (auto simp: cl_bind_def split: prod.splits sum.splits)
  have "enters i N {x} st st1" using assms s(1) Cons.prems by blast
  moreover from this have "enters i N (set xs) st1 st'" using Cons.IH s(2) Cons.prems by (simp add: enters_def)
  ultimately show ?case using enters_trans [of i N "{x}"] by simp
qed (simp add: cl_return_def enters_none)

text \<open>
  \<open>known_everywhere\<close>: every registered subcommand knows the names of all subcommands, for the same option.
  \<open>entries_ok\<close>: those names belong to named options, or are the names of values of plain options.
\<close>

definition known_everywhere :: "('d, 'w) cl_state \<Rightarrow> bool" where
  "known_everywhere st \<longleftrightarrow> (\<forall>sc\<in>set (registered_subs st).
     map_of (options_map (subcommands st all_subs)) \<subseteq>\<^sub>m map_of (options_map (subcommands st sc)))"

definition plain_option :: "'d cl_option \<Rightarrow> bool" where
  "plain_option p \<longleftrightarrow> \<not> is_positional p \<and> \<not> sink_flag p \<and> \<not> is_consume_after p"

definition entry_ok :: "'d cl_option list \<Rightarrow> nat \<Rightarrow> string \<Rightarrow> bool" where
  "entry_ok ps i n \<longleftrightarrow> (if has_arg_str (ps ! i) then n = arg_str (ps ! i) else plain_option (ps ! i))"

definition entries_ok :: "('d, 'w) cl_state \<Rightarrow> bool" where
  "entries_ok st \<longleftrightarrow> (\<forall>(n, i)\<in>set (options_map (subcommands st all_subs)). entry_ok (opts st) i n)"

lemma enters_known:
  assumes "known_everywhere st" "\<not> ignore_duplicates st" "enters i N S st st'"
    "all_subs \<in> S \<longrightarrow> set (registered_subs st) \<subseteq> S"
  shows "known_everywhere st'"
  unfolding known_everywhere_def map_le_def
proof (intro ballI)
  fix sc n
  let ?m = "\<lambda>st s. map_of (options_map (subcommands st s))"
  assume "sc \<in> set (registered_subs st')" and n: "n \<in> dom (?m st' all_subs)"
  then have sc: "sc \<in> set (registered_subs st)" using assms(3) by (simp add: enters_def)
  have le: "?m st s \<subseteq>\<^sub>m ?m st' s" for s using assms(3) by (simp add: enters_def)
  show "?m st' all_subs n = ?m st' sc n"
  proof (cases "?m st all_subs n")
    case (Some j)
    then have "?m st sc n = Some j"
      using assms(1) sc unfolding known_everywhere_def by (fastforce simp: map_le_def dom_def)
    then show ?thesis using Some le [of all_subs] le [of sc] by (force simp: map_le_def dom_def)
  next
    case None
    moreover have "names_of st' all_subs = names_of st all_subs \<union> (if all_subs \<in> S then N else {})"
      using assms(3) by (simp add: enters_def)
    ultimately have "n \<in> N" "all_subs \<in> S"
      using n by (auto simp: names_of_def split: if_splits)
    then have "?m st' all_subs n = Some i" "?m st' sc n = Some i"
      using assms(2-4) sc by (auto simp: enters_def)
    then show ?thesis by simp
  qed
qed

lemma add_sub_known:
  assumes "cl_bind (f sc) (\<lambda>_. cl_each f (other_subs sc st)) st = (Inr (), st')"
    "\<And>x u u'. opts u = opts st \<Longrightarrow> f x u = (Inr (), u') \<Longrightarrow> enters i N {x} u u'"
    "known_everywhere st" "\<not> ignore_duplicates st"
  shows "known_everywhere st' \<and> (\<exists>S. sc \<in> S \<and> enters i N S st st')"
proof -
  obtain st1 where s: "f sc st = (Inr (), st1)" "cl_each f (other_subs sc st) st1 = (Inr (), st')"
    using assms(1) by (auto simp: cl_bind_def split: prod.splits sum.splits)
  have 1: "enters i N {sc} st st1" using assms(2) s(1) by blast
  have "opts st1 = opts st" using 1 by (simp add: enters_def)
  from cl_each_enters [where ps = "opts st" and f = f and N = N and i = i, OF assms(2) s(2) this]
  have 2: "enters i N (set (other_subs sc st)) st1 st'" by blast
  have S: "enters i N ({sc} \<union> set (other_subs sc st)) st st'" by (rule enters_trans [OF 1 2])
  have "known_everywhere st'"
    by (rule enters_known [OF assms(3,4) S]) (auto simp: other_subs_def)
  with S show ?thesis by blast
qed

lemma add_each_known:
  assumes "\<And>x u u'. opts u = ps \<Longrightarrow> f x u = (Inr (), u') \<Longrightarrow> known_everywhere u \<Longrightarrow> \<not> ignore_duplicates u \<Longrightarrow>
      known_everywhere u' \<and> (\<exists>S. x \<in> S \<and> enters i N S u u')"
  shows "cl_each f xs st = (Inr (), st') \<Longrightarrow> opts st = ps \<Longrightarrow> known_everywhere st \<Longrightarrow> \<not> ignore_duplicates st \<Longrightarrow>
      known_everywhere st' \<and> (\<exists>S. set xs \<subseteq> S \<and> enters i N S st st')"
proof (induction xs arbitrary: st)
  case (Cons x xs)
  then obtain st1 where s: "f x st = (Inr (), st1)" "cl_each f xs st1 = (Inr (), st')"
    by (auto simp: cl_bind_def split: prod.splits sum.splits)
  with assms Cons.prems obtain S where S: "known_everywhere st1" "x \<in> S" "enters i N S st st1" by metis
  have "opts st1 = ps" "\<not> ignore_duplicates st1" using S(3) Cons.prems(2,4) by (simp_all add: enters_def)
  with Cons.IH [OF s(2)] S(1) obtain T where T: "known_everywhere st'" "set xs \<subseteq> T" "enters i N T st1 st'" by blast
  have "enters i N (S \<union> T) st st'" by (rule enters_trans [OF S(3) T(3)])
  with S(2) T(1,2) show ?case by (intro conjI exI [of _ "S \<union> T"]) auto
qed (auto simp: cl_return_def intro: enters_none)

lemma addOption_known:
  assumes "addOption i st = (Inr (), st')" "known_everywhere st" "\<not> ignore_duplicates st"
  shows "known_everywhere st' \<and> (\<exists>S. set (subs_of (opts st ! i)) \<subseteq> S \<and> enters i (own_name (opts st ! i)) S st st')"
proof (rule add_each_known [where ps = "opts st" and f = "add_option_sub i" and xs = "subs_of (opts st ! i)"])
  fix sc and u u' :: "('a, 'b) cl_state"
  assume u: "opts u = opts st" "add_option_sub i sc u = (Inr (), u')" "known_everywhere u" "\<not> ignore_duplicates u"
  show "known_everywhere u' \<and> (\<exists>S. sc \<in> S \<and> enters i (own_name (opts st ! i)) S u u')"
    by (rule add_sub_known [where f = "add_option_one i" and sc = sc and st = u])
      (use u add_option_one_enters in \<open>fastforce simp: add_option_sub_def\<close>)+
qed (use assms in \<open>simp_all add: addOption_def\<close>)

lemma addLiteralOption_known:
  assumes "addLiteralOption i n st = (Inr (), st')" "known_everywhere st" "\<not> ignore_duplicates st"
  shows "known_everywhere st' \<and> (\<exists>S. set (subs_of (opts st ! i)) \<subseteq> S
    \<and> enters i (if has_arg_str (opts st ! i) then {} else {n}) S st st')"
proof (rule add_each_known [where ps = "opts st" and f = "add_literal_sub i n" and xs = "subs_of (opts st ! i)"])
  fix sc and u u' :: "('a, 'b) cl_state"
  assume u: "opts u = opts st" "add_literal_sub i n sc u = (Inr (), u')" "known_everywhere u" "\<not> ignore_duplicates u"
  show "known_everywhere u' \<and> (\<exists>S. sc \<in> S \<and> enters i (if has_arg_str (opts st ! i) then {} else {n}) S u u')"
    by (rule add_sub_known [where f = "add_literal_one i n" and sc = sc and st = u])
      (use u add_literal_one_enters in \<open>fastforce simp: add_literal_sub_def\<close>)+
qed (use assms in \<open>simp_all add: addLiteralOption_def\<close>)

lemma entries_ok_enters:
  assumes "entries_ok st" "enters i N S st st'"
    "\<And>n. n \<in> N \<Longrightarrow> entry_ok (opts st) i n"
  shows "entries_ok st'"
proof -
  have "set (options_map (subcommands st' all_subs)) \<subseteq> set (options_map (subcommands st all_subs)) \<union> N \<times> {i}"
  proof -
    have "set (options_map (subcommands st' all_subs)) \<subseteq>
        set (options_map (subcommands st all_subs)) \<union> (if all_subs \<in> S then N \<times> {i} else {})"
      using assms(2) unfolding enters_def by blast
    then show ?thesis by (auto split: if_splits)
  qed
  moreover have "opts st' = opts st" using assms(2) by (simp add: enters_def)
  ultimately show ?thesis using assms(1,3) unfolding entries_ok_def by fastforce
qed

lemma add_known_enters:
  assumes "add_known sc (n, i) st = (Inr (), st')"
    "entry_ok (opts st) i n"
  shows "enters i {n} {sc} st st'"
  using assms add_option_one_enters [of i sc st st'] add_literal_one_enters [of i n sc st st']
  by (auto simp: add_known_def entry_ok_def plain_option_def own_name_def Let_def split: if_splits)

lemma add_known_each:
  assumes "cl_each (add_known sc) es st = (Inr (), st')" "sc \<noteq> all_subs" "\<not> ignore_duplicates st"
    "\<forall>(n, i)\<in>set es. entry_ok (opts st) i n"
  shows "opts st' = opts st \<and> registered_subs st' = registered_subs st \<and> \<not> ignore_duplicates st'
    \<and> (\<forall>s. map_of (options_map (subcommands st s)) \<subseteq>\<^sub>m map_of (options_map (subcommands st' s)))
    \<and> names_of st' all_subs = names_of st all_subs
    \<and> set (options_map (subcommands st' all_subs)) \<subseteq> set (options_map (subcommands st all_subs))
    \<and> (\<forall>(n, i)\<in>set es. map_of (options_map (subcommands st' sc)) n = Some i)"
  using assms
proof (induction es arbitrary: st)
  case (Cons e es)
  obtain n i where e: "e = (n, i)" by (cases e)
  from Cons.prems(1) obtain st1 where s: "add_known sc e st = (Inr (), st1)" "cl_each (add_known sc) es st1 = (Inr (), st')"
    by (auto simp: cl_bind_def split: prod.splits sum.splits)
  have "enters i {n} {sc} st st1" using s(1) Cons.prems(4) by (intro add_known_enters) (auto simp: e)
  then have 1: "opts st1 = opts st" "registered_subs st1 = registered_subs st" "\<not> ignore_duplicates st1"
    "\<And>s. map_of (options_map (subcommands st s)) \<subseteq>\<^sub>m map_of (options_map (subcommands st1 s))"
    "map_of (options_map (subcommands st1 sc)) n = Some i" "names_of st1 all_subs = names_of st all_subs"
    "set (options_map (subcommands st1 all_subs)) \<subseteq> set (options_map (subcommands st all_subs))"
    using Cons.prems(2,3) by (auto simp: enters_def split: if_splits)
  have 2: "opts st' = opts st1 \<and> registered_subs st' = registered_subs st1 \<and> \<not> ignore_duplicates st'
    \<and> (\<forall>s. map_of (options_map (subcommands st1 s)) \<subseteq>\<^sub>m map_of (options_map (subcommands st' s)))
    \<and> names_of st' all_subs = names_of st1 all_subs
    \<and> set (options_map (subcommands st' all_subs)) \<subseteq> set (options_map (subcommands st1 all_subs))
    \<and> (\<forall>(n, i)\<in>set es. map_of (options_map (subcommands st' sc)) n = Some i)"
    using Cons.prems(4) by (intro Cons.IH [OF s(2) Cons.prems(2) 1(3)]) (auto simp: 1(1))
  then have "map_of (options_map (subcommands st1 sc)) \<subseteq>\<^sub>m map_of (options_map (subcommands st' sc))" by simp
  then have n: "map_of (options_map (subcommands st' sc)) n = Some i" using 1(5) by (fastforce simp: map_le_def dom_def)
  have "map_of (options_map (subcommands st s)) \<subseteq>\<^sub>m map_of (options_map (subcommands st' s))" for s
    by (rule map_le_trans [OF 1(4)]) (simp add: 2)
  moreover have "set (options_map (subcommands st' all_subs)) \<subseteq> set (options_map (subcommands st all_subs))"
    using 1(7) 2 by blast
  moreover have "\<forall>(n, i)\<in>set es. map_of (options_map (subcommands st' sc)) n = Some i" "opts st' = opts st"
    "registered_subs st' = registered_subs st" "names_of st' all_subs = names_of st all_subs" "\<not> ignore_duplicates st'"
    using 2 1(1,2,6) by simp_all
  ultimately show ?case using n by (simp add: e)
qed (simp add: cl_return_def)

lemma registerSubCommand_known:
  assumes "registerSubCommand sc st = (Inr (), st')" "known_everywhere st" "\<not> ignore_duplicates st" "entries_ok st"
  shows "known_everywhere st' \<and> \<not> ignore_duplicates st' \<and> entries_ok st' \<and> opts st' = opts st
    \<and> (\<forall>s. map_of (options_map (subcommands st s)) \<subseteq>\<^sub>m map_of (options_map (subcommands st' s)))"
proof (cases "sc = all_subs")
  case True
  then have st': "st' = st\<lparr>registered_subs := List.insert sc (registered_subs st)\<rparr>"
    using assms(1) by (simp add: registerSubCommand_def)
  moreover have "entries_ok st' = entries_ok st" by (simp add: st' entries_ok_def)
  ultimately show ?thesis using assms(2-4) True by (simp add: known_everywhere_def st')
next
  case False
  let ?st = "st\<lparr>registered_subs := List.insert sc (registered_subs st)\<rparr>"
  let ?m = "\<lambda>st s. map_of (options_map (subcommands st s))"
  have "cl_each (add_known sc) (options_map (subcommands st all_subs)) ?st = (Inr (), st')"
    using assms(1) False by (simp add: registerSubCommand_def)
  from add_known_each [OF this False] assms(3,4)
  have e: "opts st' = opts st" "registered_subs st' = List.insert sc (registered_subs st)" "\<not> ignore_duplicates st'"
    "\<forall>s. ?m st s \<subseteq>\<^sub>m ?m st' s"
    "names_of st' all_subs = names_of st all_subs"
    "set (options_map (subcommands st' all_subs)) \<subseteq> set (options_map (subcommands st all_subs))"
    "\<forall>(n, i)\<in>set (options_map (subcommands st all_subs)). ?m st' sc n = Some i"
    by (auto simp: entries_ok_def names_of_def)
  have all: "?m st' all_subs = ?m st all_subs"
    using e(4,5) by (intro map_le_antisym) (auto simp: names_of_def map_le_def)
  have "?m st all_subs \<subseteq>\<^sub>m ?m st' sc"
    unfolding map_le_def
  proof
    fix n
    assume "n \<in> dom (?m st all_subs)"
    then obtain i where i: "?m st all_subs n = Some i" by blast
    from map_of_SomeD [OF this] e(7) have "?m st' sc n = Some i" by fast
    with i show "?m st all_subs n = ?m st' sc n" by simp
  qed
  moreover have "?m st all_subs \<subseteq>\<^sub>m ?m st' s" if "s \<in> set (registered_subs st)" for s
    using assms(2) that e(4) map_le_trans unfolding known_everywhere_def by blast
  ultimately have "known_everywhere st'"
    unfolding known_everywhere_def all e(2) by simp
  moreover have "entries_ok st'" using assms(4) e(1,6) unfolding entries_ok_def by auto
  ultimately show ?thesis using e(1,3,4) by simp
qed

datatype registration = Add_option nat | Add_literal nat string | Register_sub nat

definition registration_step :: "registration \<Rightarrow> ('d, 'w) cl_state \<Rightarrow> (cl_end + unit) \<times> ('d, 'w) cl_state" where
  "registration_step r = (case r of
     Add_option i \<Rightarrow> addOption i
   | Add_literal i n \<Rightarrow> addLiteralOption i n
   | Register_sub sc \<Rightarrow> registerSubCommand sc)"

definition literal_plain :: "'d cl_option list \<Rightarrow> registration \<Rightarrow> bool" where
  "literal_plain ps r = (case r of Add_literal i n \<Rightarrow> plain_option (ps ! i) | _ \<Rightarrow> True)"

text \<open>The names that a registration enters, with the option and its subcommands.\<close>

definition registered_names :: "'d cl_option list \<Rightarrow> registration \<Rightarrow> (nat \<times> string) set" where
  "registered_names ps r = (case r of
     Add_option i \<Rightarrow> {i} \<times> own_name (ps ! i)
   | Add_literal i n \<Rightarrow> if has_arg_str (ps ! i) then {} else {(i, n)}
   | Register_sub sc \<Rightarrow> {})"

lemma registration_step_known:
  assumes "registration_step r st = (Inr (), st')" "known_everywhere st" "\<not> ignore_duplicates st" "entries_ok st"
    "literal_plain (opts st) r"
  shows "known_everywhere st' \<and> \<not> ignore_duplicates st' \<and> entries_ok st' \<and> opts st' = opts st
    \<and> (\<forall>s. map_of (options_map (subcommands st s)) \<subseteq>\<^sub>m map_of (options_map (subcommands st' s)))
    \<and> (\<forall>(i, n)\<in>registered_names (opts st) r. \<forall>sc\<in>set (subs_of (opts st ! i)).
        map_of (options_map (subcommands st' sc)) n = Some i)"
proof (cases r)
  case (Add_option i)
  with assms(1) have "addOption i st = (Inr (), st')" by (simp add: registration_step_def)
  from addOption_known [OF this assms(2,3)] obtain S where S: "known_everywhere st'" "set (subs_of (opts st ! i)) \<subseteq> S"
    "enters i (own_name (opts st ! i)) S st st'"
    by blast
  have "entries_ok st'" by (rule entries_ok_enters [OF assms(4) S(3)]) (auto simp: own_name_def entry_ok_def split: if_splits)
  with S assms(3) Add_option show ?thesis by (auto simp: enters_def registered_names_def)
next
  case (Add_literal i n)
  with assms(1) have "addLiteralOption i n st = (Inr (), st')" by (simp add: registration_step_def)
  from addLiteralOption_known [OF this assms(2,3)] obtain S where S: "known_everywhere st'"
    "set (subs_of (opts st ! i)) \<subseteq> S" "enters i (if has_arg_str (opts st ! i) then {} else {n}) S st st'"
    by blast
  have "entries_ok st'"
    by (rule entries_ok_enters [OF assms(4) S(3)]) (use assms(5) Add_literal in \<open>auto simp: literal_plain_def entry_ok_def split: if_splits\<close>)
  with S assms(3) Add_literal show ?thesis by (auto simp: enters_def registered_names_def)
next
  case (Register_sub sc)
  with assms registerSubCommand_known show ?thesis by (simp add: registration_step_def registered_names_def)
qed

text \<open>
  C25: Whatever options, names of values and subcommands are registered, in whatever order, as
  long as no registration ends the program, a name that is taken is an error, and names of values
  belong to options that are not positional, sink or \<open>ConsumeAfter\<close> options: every option name of all
  subcommands stands for the same option in every registered subcommand, also the names that
  were entered before the subcommand was registered; a name keeps the option that it was first
  registered for; and the name of a registered option, or of one of its values, stands for it in
  each of its subcommands.
\<close>

theorem names_known_everywhere:
  assumes "cl_each registration_step rs st = (Inr (), st')" "known_everywhere st" "\<not> ignore_duplicates st" "entries_ok st"
    "list_all (literal_plain (opts st)) rs"
  shows "(\<forall>sc\<in>set (registered_subs st').
        map_of (options_map (subcommands st' all_subs)) \<subseteq>\<^sub>m map_of (options_map (subcommands st' sc)))
    \<and> (\<forall>sc. map_of (options_map (subcommands st sc)) \<subseteq>\<^sub>m map_of (options_map (subcommands st' sc)))
    \<and> (\<forall>r\<in>set rs. \<forall>(i, n)\<in>registered_names (opts st) r. \<forall>sc\<in>set (subs_of (opts st ! i)).
        map_of (options_map (subcommands st' sc)) n = Some i)"
  using assms
proof (induction rs arbitrary: st)
  case (Cons r rs)
  then obtain st1 where s: "registration_step r st = (Inr (), st1)" "cl_each registration_step rs st1 = (Inr (), st')"
    by (auto simp: cl_bind_def split: prod.splits sum.splits)
  with registration_step_known [OF s(1)] Cons.prems have 1: "known_everywhere st1" "\<not> ignore_duplicates st1"
    "entries_ok st1" "opts st1 = opts st"
    "\<And>s. map_of (options_map (subcommands st s)) \<subseteq>\<^sub>m map_of (options_map (subcommands st1 s))"
    "\<And>i n sc. (i, n) \<in> registered_names (opts st) r \<Longrightarrow> sc \<in> set (subs_of (opts st ! i)) \<Longrightarrow>
        map_of (options_map (subcommands st1 sc)) n = Some i"
    by auto
  note IH = Cons.IH [OF s(2) 1(1-3)]
  have le: "map_of (options_map (subcommands st1 sc)) \<subseteq>\<^sub>m map_of (options_map (subcommands st' sc))" for sc
    using IH 1(4) Cons.prems(5) by simp
  have "map_of (options_map (subcommands st' sc)) n = Some i"
    if "(i, n) \<in> registered_names (opts st) r" "sc \<in> set (subs_of (opts st ! i))" for i n sc
    using 1(6) [OF that] le [of sc] by (fastforce simp: map_le_def dom_def)
  moreover have "map_of (options_map (subcommands st sc)) \<subseteq>\<^sub>m map_of (options_map (subcommands st' sc))" for sc
    by (rule map_le_trans [OF 1(5) le])
  ultimately show ?case using IH 1(4) Cons.prems(5) by auto
qed (simp add: cl_return_def known_everywhere_def)

definition new_option :: "opt_kind \<Rightarrow> string \<Rightarrow> num_occurrences \<Rightarrow> formatting \<Rightarrow> 'd cl_option" where
  "new_option k n occ f = \<lparr>opt_kind = k, arg_str = n, help_str = [], value_str = [], occ_flag = occ, value_flag = None,
     hidden_flag = Not_hidden, formatting_flag = f, comma_separated = False, positional_eats_args = False,
     sink_flag = False, space_separated = False, additional_vals = 0, in_subs = [], opt_category = 0, num_occ = 0,
     opt_position = 0, opt_value = None, opt_values = [], opt_bits = 0, opt_positions = []\<rparr>"

definition new_parser :: "'d cl_option list \<Rightarrow> 'w \<Rightarrow> ('d, 'w) cl_state" where
  "new_parser ps w = \<lparr>opts = ps, subcommands = \<lambda>_. new_subcommand [] [], registered_subs = [top_level_sub, all_subs],
     program_name = [], program_overview = [], more_help = [], active_sub = None, ignore_duplicates = False,
     errors_text = [], given_text = [], settings_of = w\<rparr>"

lemma new_parser_ok: "known_everywhere (new_parser ps w)" "entries_ok (new_parser ps w)" "\<not> ignore_duplicates (new_parser ps w)"
  by (simp_all add: known_everywhere_def entries_ok_def names_of_def new_parser_def new_subcommand_def)

definition help_everywhere :: "(nat, unit) cl_state" where
  "help_everywhere = new_parser [(new_option (Scalar_opt Parser_bool) ''help'' Occ_optional Fmt_normal)\<lparr>in_subs := [all_subs]\<rparr>] ()"

lemma names_known_everywhere_witness:
  "map_of (options_map (subcommands (snd (cl_each registration_step [Add_option 0, Register_sub 2] help_everywhere)) 2)) ''help''
     = Some 0"
proof -
  let ?st' = "snd (cl_each registration_step [Add_option 0, Register_sub 2] help_everywhere)"
  have r: "cl_each registration_step [Add_option 0, Register_sub 2] help_everywhere = (Inr (), ?st')"
    by (rule prod_eqI) (code_simp, simp)
  have "known_everywhere help_everywhere" "\<not> ignore_duplicates help_everywhere" "entries_ok help_everywhere"
    by (simp_all add: help_everywhere_def new_parser_ok)
  moreover have "list_all (literal_plain (opts help_everywhere)) [Add_option 0, Register_sub 2]"
    by (simp add: literal_plain_def)
  ultimately have known: "\<forall>sc\<in>set (registered_subs ?st').
        map_of (options_map (subcommands ?st' all_subs)) \<subseteq>\<^sub>m map_of (options_map (subcommands ?st' sc))"
    and entered: "\<forall>(i, n)\<in>registered_names (opts help_everywhere) (Add_option 0). \<forall>sc\<in>set (subs_of (opts help_everywhere ! i)).
        map_of (options_map (subcommands ?st' sc)) n = Some i"
    using names_known_everywhere [OF r] by simp_all
  have "map_of (options_map (subcommands ?st' all_subs)) ''help'' = Some 0"
    using entered by (simp add: registered_names_def help_everywhere_def new_parser_def new_option_def own_name_def
      has_arg_str_def subs_of_def)
  moreover have "2 \<in> set (registered_subs ?st')" by code_simp
  ultimately show ?thesis using known by (fastforce simp: map_le_def dom_def)
qed

text \<open>A positional option without a name is in no map, so that a subcommand registered after it does not get it.\<close>

lemma late_subcommand:
  "let p = (new_option (Scalar_opt Parser_string) [] Occ_required Fmt_positional)\<lparr>in_subs := [all_subs]\<rparr>;
       st = snd (cl_each registration_step [Register_sub 2, Add_option 0, Register_sub 3] (new_parser [p] ())) in
   positional_opts (subcommands st 2) = [0] \<and> positional_opts (subcommands st 3) = []"
  by code_simp

text \<open>Renaming an option of all subcommands does not rename it in them.\<close>

lemma renamed_only_there:
  "let st = snd (cl_each registration_step [Register_sub 2, Add_option 0] help_everywhere);
       st = snd (setArgStr 0 True ''usage'' st) in
   map_of (options_map (subcommands st all_subs)) ''usage'' = Some 0
   \<and> map_of (options_map (subcommands st 2)) ''usage'' = None \<and> map_of (options_map (subcommands st 2)) ''help'' = Some 0"
  by code_simp

end
