(* ===== verification/CommandValues.thy ===== *)
theory CommandValues
  imports CommandOptions
begin

text \<open>
  The occurrence of an option on a command line (\<open>CommandLine.h\<close>, \<open>CommandLine.cpp\<close>): the parsers of
  values, \<open>handleOccurrence\<close> of the kinds of options, \<open>addOccurrence\<close> with its limits,
  \<open>ProvideOption\<close> with the values it takes from the following arguments, the lookup of names
  with prefixed and grouped options, and the nearest name. LLVM's conversions of numbers, its
  bounded edit distance and the last component of a path are parameters.
\<close>

record ('d, 'w) cl_env =
  response_of :: "'w response_env"
  on_windows :: bool
  as_integer :: "int_type \<Rightarrow> string \<Rightarrow> int option"
  to_float :: "string \<Rightarrow> 'd option"
  to_single :: "'d \<Rightarrow> 'd"
  bounded_distance :: "string \<Rightarrow> string \<Rightarrow> nat \<Rightarrow> nat"
  path_filename :: "string \<Rightarrow> string"

section \<open>Values\<close>

text \<open>The parsers of values: the message of an error or the value.\<close>

definition parse_truth :: "string \<Rightarrow> string + 'd opt_value" where
  "parse_truth a =
     (if a \<in> {[], ''true'', ''TRUE'', ''True'', ''1''} then Inr (Bool_value True)
      else if a \<in> {''false'', ''FALSE'', ''False'', ''0''} then Inr (Bool_value False)
      else Inl (in_quotes a @ '' is invalid value for boolean argument! Try 0 or 1''))"

definition parse_named :: "(string \<times> nat \<times> string) list \<Rightarrow> string \<Rightarrow> string + 'd opt_value" where
  "parse_named vs a = (case map_of vs a of
     None \<Rightarrow> Inl (''Cannot find option named '' @ in_quotes a @ ''!'')
   | Some (n, _) \<Rightarrow> Inr (Enum_value n))"

fun parse_value :: "('d, 'w) cl_env \<Rightarrow> opt_parser \<Rightarrow> bool \<Rightarrow> string \<Rightarrow> string \<Rightarrow> cl_end + (string + 'd opt_value)" where
  "parse_value E Parser_bool named name a = Inr (parse_truth a)"
| "parse_value E Parser_bool_or_default named name a = Inr (parse_truth a)"
| "parse_value E (Parser_int t) named name a = Inr (case as_integer E t a of
     None \<Rightarrow> Inl (in_quotes a @ (if t = Int_32 then '' value invalid for integer argument!'' else '' value invalid for uint argument!''))
   | Some n \<Rightarrow> Inr (Int_value n))"
| "parse_value E Parser_double named name a = Inr (case to_float E a of
     None \<Rightarrow> Inl (in_quotes a @ '' value invalid for floating point argument!'')
   | Some x \<Rightarrow> Inr (Real_value x))"
| "parse_value E Parser_float named name a = Inr (case to_float E a of
     None \<Rightarrow> Inl (in_quotes a @ '' value invalid for floating point argument!'')
   | Some x \<Rightarrow> Inr (Real_value (to_single E x)))"
| "parse_value E Parser_string named name a = Inr (Inr (String_value a))"
| "parse_value E Parser_char named name a = (if a = [] then Inl (Throws Undefined) else Inr (Inr (Char_value (hd a))))"
| "parse_value E Parser_path named name a = Inr (Inr (String_value (takeWhile (\<lambda>c. c \<noteq> CHR 0x00) a)))"
| "parse_value E (Parser_values vs) named name a = Inr (parse_named vs (if named then a else name))"

definition parser_of :: "opt_kind \<Rightarrow> opt_parser" where
  "parser_of k = (case k of Scalar_opt r \<Rightarrow> r | List_opt r \<Rightarrow> r | Bits_opt vs \<Rightarrow> Parser_values vs | _ \<Rightarrow> Parser_bool)"

text \<open>\<open>handleOccurrence\<close> of the kinds of options: \<open>True\<close> is an error.\<close>

definition store_value :: "nat \<Rightarrow> nat \<Rightarrow> 'd opt_value \<Rightarrow> ('d, 'w) cl_state \<Rightarrow> (cl_end + bool) \<times> ('d, 'w) cl_state" where
  "store_value i pos v st =
     (case opt_kind (opts st ! i) of
        List_opt _ \<Rightarrow> (Inr False, on_option i (\<lambda>p. p\<lparr>opt_values := opt_values p @ [v], opt_position := pos,
          opt_positions := opt_positions p @ [pos]\<rparr>) st)
      | Bits_opt _ \<Rightarrow>
          (case v of
             Enum_value n \<Rightarrow>
               if n < 32 then (Inr False, on_option i (\<lambda>p. p\<lparr>opt_bits := or (opt_bits p) (push_bit n 1), opt_position := pos,
                 opt_positions := opt_positions p @ [pos]\<rparr>) st)
               else (Inl (Throws Undefined), st)
           | _ \<Rightarrow> (Inl (Throws Undefined), st))
      | Printer_opt \<Rightarrow> if v = Bool_value True then (Inl (Exits 0), st) else (Inr False, on_option i (opt_position_update (\<lambda>_. pos)) st)
      | _ \<Rightarrow> (Inr False, on_option i (\<lambda>p. p\<lparr>opt_value := Some v, opt_position := pos\<rparr>) st))"

definition handle_occurrence ::
  "('d, 'w) cl_env \<Rightarrow> nat \<Rightarrow> nat \<Rightarrow> string \<Rightarrow> string \<Rightarrow> ('d, 'w) cl_state \<Rightarrow> (cl_end + bool) \<times> ('d, 'w) cl_state" where
  "handle_occurrence E i pos name a st =
     (let p = opts st ! i in
      case parse_value E (parser_of (opt_kind p)) (has_arg_str p) name a of
        Inl e \<Rightarrow> (Inl e, st)
      | Inr (Inl msg) \<Rightarrow> (Inr True, option_error i None msg st)
      | Inr (Inr v) \<Rightarrow> store_value i pos v st)"

text \<open>The option an alias stands for, through a chain of aliases; an endless chain has no value.\<close>

fun alias_target :: "'d cl_option list \<Rightarrow> nat \<Rightarrow> nat \<Rightarrow> nat option" where
  "alias_target ps 0 i = None"
| "alias_target ps (Suc n) i = (case opt_kind (ps ! i) of Alias_opt t \<Rightarrow> alias_target ps n t | _ \<Rightarrow> Some i)"

definition default_value_flag :: "'d cl_option \<Rightarrow> value_expected" where
  "default_value_flag p = (case parser_of (opt_kind p) of
     Parser_bool \<Rightarrow> Value_optional
   | Parser_bool_or_default \<Rightarrow> Value_optional
   | Parser_values _ \<Rightarrow> if has_arg_str p then Value_required else Value_disallowed
   | _ \<Rightarrow> Value_required)"

fun value_expected_flag :: "'d cl_option list \<Rightarrow> nat \<Rightarrow> nat \<Rightarrow> value_expected option" where
  "value_expected_flag ps 0 i = None"
| "value_expected_flag ps (Suc n) i =
     (case value_flag (ps ! i) of
        Some v \<Rightarrow> Some v
      | None \<Rightarrow> (case opt_kind (ps ! i) of
          Alias_opt t \<Rightarrow> value_expected_flag ps n t
        | _ \<Rightarrow> Some (default_value_flag (ps ! i))))"

text \<open>\<open>addOccurrence\<close>, of an alias for its target under the name of that.\<close>

definition count_ok :: "'d cl_option \<Rightarrow> string option" where
  "count_ok p =
     (if occ_flag p = Occ_optional \<and> num_occ p > 1 then Some ''may only occur zero or one times!''
      else if occ_flag p = Occ_required \<and> num_occ p > 1 then Some ''must occur exactly one time!''
      else None)"

definition add_occurrence ::
  "('d, 'w) cl_env \<Rightarrow> nat \<Rightarrow> nat \<Rightarrow> string \<Rightarrow> string \<Rightarrow> bool \<Rightarrow> ('d, 'w) cl_state \<Rightarrow> (cl_end + bool) \<times> ('d, 'w) cl_state" where
  "add_occurrence E i pos name a multi st =
     (case alias_target (opts st) (Suc (length (opts st))) i of
        None \<Rightarrow> (Inl (Throws Diverges), st)
      | Some t \<Rightarrow>
          let name = (if t = i then name else arg_str (opts st ! t));
              st = (if multi then st else on_option t (num_occ_update Suc) st)
          in case count_ok (opts st ! t) of
               Some msg \<Rightarrow> (Inr True, option_error t (Some name) msg st)
             | None \<Rightarrow> handle_occurrence E t pos name a st)"

section \<open>An option with its value\<close>

text \<open>\<open>CommaSeparateAndAddOccurrence\<close>: the pieces between the commas, up to the first error.\<close>

fun comma_pieces :: "string \<Rightarrow> string list" where
  "comma_pieces [] = [[]]"
| "comma_pieces (c # s) =
     (if c = CHR '','' then [] # comma_pieces s
      else case comma_pieces s of [] \<Rightarrow> [[c]] | p # ps \<Rightarrow> (c # p) # ps)"

lemma comma_pieces_not_Nil: "comma_pieces a \<noteq> []"
  by (cases a) (auto split: list.splits)

fun add_occurrences ::
  "('d, 'w) cl_env \<Rightarrow> nat \<Rightarrow> nat \<Rightarrow> string \<Rightarrow> string list \<Rightarrow> bool \<Rightarrow> ('d, 'w) cl_state \<Rightarrow> (cl_end + bool) \<times> ('d, 'w) cl_state" where
  "add_occurrences E i pos name [] multi st = (Inr False, st)"
| "add_occurrences E i pos name (a # as) multi st =
     (case add_occurrence E i pos name a multi st of
        (Inr False, st) \<Rightarrow> add_occurrences E i pos name as multi st
      | r \<Rightarrow> r)"

definition separate_and_add ::
  "('d, 'w) cl_env \<Rightarrow> nat \<Rightarrow> nat \<Rightarrow> string \<Rightarrow> string \<Rightarrow> bool \<Rightarrow> ('d, 'w) cl_state \<Rightarrow> (cl_end + bool) \<times> ('d, 'w) cl_state" where
  "separate_and_add E i pos name a multi st =
     add_occurrences E i pos name (if comma_separated (opts st ! i) then comma_pieces a else [a]) multi st"

definition starts_dash :: "string \<Rightarrow> bool" where
  "starts_dash a \<longleftrightarrow> a \<noteq> [] \<and> hd a = CHR ''-''"

text \<open>Arguments up to the next one that begins with a dash; no argument at all is an access through a null pointer.\<close>

fun space_values ::
  "('d, 'w) cl_env \<Rightarrow> nat \<Rightarrow> string \<Rightarrow> nat \<Rightarrow> string list \<Rightarrow> bool \<Rightarrow> ('d, 'w) cl_state \<Rightarrow> (cl_end + bool \<times> nat) \<times> ('d, 'w) cl_state" where
  "space_values E i name pos [] failed st = (Inl (Throws Undefined), st)"
| "space_values E i name pos (a # as) failed st =
     (case add_occurrence E i pos name a False st of
        (Inl e, st) \<Rightarrow> (Inl e, st)
      | (Inr b, st) \<Rightarrow>
          if as = [] \<or> starts_dash (hd as) then (Inr (failed \<or> b, pos), st)
          else space_values E i name (Suc pos) as (failed \<or> b) st)"

fun more_values ::
  "('d, 'w) cl_env \<Rightarrow> string list \<Rightarrow> nat \<Rightarrow> string \<Rightarrow> nat \<Rightarrow> bool \<Rightarrow> nat \<Rightarrow> ('d, 'w) cl_state \<Rightarrow> (cl_end + bool \<times> nat) \<times> ('d, 'w) cl_state" where
  "more_values E argv i name 0 multi pos st = (Inr (False, pos), st)"
| "more_values E argv i name (Suc n) multi pos st =
     (if pos + 1 \<ge> length argv then (Inr (True, pos), option_error i None ''not enough values!'' st)
      else case separate_and_add E i (pos + 1) name (argv ! (pos + 1)) multi st of
          (Inl e, st) \<Rightarrow> (Inl e, st)
        | (Inr True, st) \<Rightarrow> (Inr (True, pos + 1), st)
        | (Inr False, st) \<Rightarrow> more_values E argv i name n True (pos + 1) st)"

definition provide_values ::
  "('d, 'w) cl_env \<Rightarrow> string list \<Rightarrow> nat \<Rightarrow> string \<Rightarrow> string option \<Rightarrow> nat \<Rightarrow> ('d, 'w) cl_state \<Rightarrow> (cl_end + bool \<times> nat) \<times> ('d, 'w) cl_state" where
  "provide_values E argv i name v pos st =
     (let n = additional_vals (opts st ! i) in
      if n = 0 \<and> space_separated (opts st ! i) then space_values E i name pos (drop pos argv) False st
      else if n \<noteq> 0 \<and> v = None then more_values E argv i name n False pos st
      else case separate_and_add E i pos name (case v of None \<Rightarrow> [] | Some a \<Rightarrow> a) False st of
          (Inl e, st) \<Rightarrow> (Inl e, st)
        | (Inr b, st) \<Rightarrow>
            if n = 0 \<or> b then (Inr (b, pos), st) else more_values E argv i name (n - 1) True pos st)"

definition provide_option ::
  "('d, 'w) cl_env \<Rightarrow> string list \<Rightarrow> nat \<Rightarrow> string \<Rightarrow> string option \<Rightarrow> nat \<Rightarrow> ('d, 'w) cl_state \<Rightarrow> (cl_end + bool \<times> nat) \<times> ('d, 'w) cl_state" where
  "provide_option E argv i name v pos st =
     (case value_expected_flag (opts st) (Suc (length (opts st))) i of
        None \<Rightarrow> (Inl (Throws Diverges), st)
      | Some Value_required \<Rightarrow>
          if v \<noteq> None then provide_values E argv i name v pos st
          else if pos + 1 \<ge> length argv then (Inr (True, pos), option_error i None ''requires a value!'' st)
          else provide_values E argv i name (Some (argv ! (pos + 1))) (pos + 1) st
      | Some Value_disallowed \<Rightarrow>
          if additional_vals (opts st ! i) > 0 then
            (Inr (True, pos), option_error i None ''multi-valued option specified with ValueDisallowed modifier!'' st)
          else (case v of
              Some a \<Rightarrow> (Inr (True, pos), option_error i None (''does not allow a value! '' @ in_quotes a @ '' specified.'') st)
            | None \<Rightarrow> provide_values E argv i name v pos st)
      | Some Value_optional \<Rightarrow> provide_values E argv i name v pos st)"

definition provide_positional ::
  "('d, 'w) cl_env \<Rightarrow> nat \<Rightarrow> string \<Rightarrow> nat \<Rightarrow> ('d, 'w) cl_state \<Rightarrow> (cl_end + bool) \<times> ('d, 'w) cl_state" where
  "provide_positional E i a pos st =
     (case provide_option E [] i (arg_str (opts st ! i)) (Some a) pos st of
        (Inl e, st) \<Rightarrow> (Inl e, st)
      | (Inr (b, _), st) \<Rightarrow> (Inr b, st))"

section \<open>Looking names up\<close>

text \<open>\<open>LookupOption\<close>: the option, its name in the argument, and the value behind an equals sign.\<close>

definition lookup_option :: "(string \<times> nat) list \<Rightarrow> string \<Rightarrow> (nat \<times> string \<times> string option) option" where
  "lookup_option m a =
     (if a = [] then None
      else let n = takeWhile (\<lambda>c. c \<noteq> CHR ''='') a in
        if n = a then map_option (\<lambda>i. (i, a, None)) (map_of m a)
        else map_option (\<lambda>i. (i, n, Some (drop (Suc (length n)) a))) (map_of m n))"

definition lookup_sub :: "('d, 'w) cl_state \<Rightarrow> string \<Rightarrow> nat" where
  "lookup_sub st n =
     (if n = [] then top_level_sub
      else case find (\<lambda>s. s \<noteq> all_subs \<and> sub_name (subcommands st s) \<noteq> [] \<and> sub_name (subcommands st s) = n) (registered_subs st) of
        Some s \<Rightarrow> s
      | None \<Rightarrow> top_level_sub)"

text \<open>\<open>LookupNearestOption\<close>: the best option so far, its distance and its name.\<close>

definition split_equals :: "string \<Rightarrow> string \<times> string" where
  "split_equals a = (let n = takeWhile (\<lambda>c. c \<noteq> CHR ''='') a in (n, drop (Suc (length n)) a))"

definition nearest_step ::
  "(string \<Rightarrow> string \<Rightarrow> nat \<Rightarrow> nat) \<Rightarrow> string \<Rightarrow> nat \<times> bool \<times> string \<Rightarrow> (nat \<times> nat \<times> string) option \<Rightarrow> (nat \<times> nat \<times> string) option" where
  "nearest_step dist a x best =
     (case x of (i, permit, name) \<Rightarrow>
        let (l, r) = split_equals a;
            d = dist name (if permit then l else a) (case best of None \<Rightarrow> 0 | Some (_, bd, _) \<Rightarrow> bd)
        in if best = None \<or> d < fst (snd (the best)) then
             Some (i, d, if r = [] \<or> \<not> permit then name else name @ ''='' @ r)
           else best)"

text \<open>The names that are compared, in the order of the map; a chain of aliases without end is compared as permitting a value.\<close>

definition candidates :: "'d cl_option list \<Rightarrow> (string \<times> nat) list \<Rightarrow> (nat \<times> bool \<times> string) list" where
  "candidates ps m = concat (map (\<lambda>(_, i). map (\<lambda>n. (i, value_expected_flag ps (Suc (length ps)) i \<noteq> Some Value_disallowed, n))
     (option_names (ps ! i))) m)"

definition lookup_nearest ::
  "(string \<Rightarrow> string \<Rightarrow> nat \<Rightarrow> nat) \<Rightarrow> 'd cl_option list \<Rightarrow> (string \<times> nat) list \<Rightarrow> string \<Rightarrow> (nat \<times> nat \<times> string) option" where
  "lookup_nearest dist ps m a = (if a = [] then None else fold (nearest_step dist a) (candidates ps m) None)"

text \<open>\<open>getOptionPred\<close>: the longest prefix that is a name, if its option satisfies the predicate.\<close>

function longest_name :: "(string \<times> nat) list \<Rightarrow> string \<Rightarrow> (nat \<times> nat) option" where
  "longest_name m n = (case map_of m n of
     Some i \<Rightarrow> Some (i, length n)
   | None \<Rightarrow> if length n > 1 then longest_name m (butlast n) else None)"
  by pat_completeness auto
termination
  by (relation "measure (\<lambda>(m, n). length n)") auto

declare longest_name.simps [simp del]

definition option_pred :: "('d cl_option \<Rightarrow> bool) \<Rightarrow> 'd cl_option list \<Rightarrow> (string \<times> nat) list \<Rightarrow> string \<Rightarrow> (nat \<times> nat) option" where
  "option_pred P ps m n = (case longest_name m n of
     Some (i, k) \<Rightarrow> if P (ps ! i) then Some (i, k) else None
   | None \<Rightarrow> None)"

definition is_grouping :: "'d cl_option \<Rightarrow> bool" where
  "is_grouping p \<longleftrightarrow> formatting_flag p = Fmt_grouping"

definition is_prefixed_or_grouping :: "'d cl_option \<Rightarrow> bool" where
  "is_prefixed_or_grouping p \<longleftrightarrow> is_grouping p \<or> formatting_flag p = Fmt_prefix"

lemma longest_name_length: "longest_name m n = Some (i, k) \<Longrightarrow> k \<le> length n \<and> (n \<noteq> [] \<longrightarrow> k \<noteq> 0)"
proof (induction m n rule: longest_name.induct)
  case (1 m n)
  show ?case
  proof (cases "map_of m n")
    case None
    then have n: "length n > 1" "longest_name m (butlast n) = Some (i, k)"
      using "1.prems" by (auto simp: longest_name.simps [of m n] split: if_splits)
    from "1.IH" [OF None n] n(1) show ?thesis by (cases n rule: rev_cases) auto
  next
    case (Some j)
    then show ?thesis using "1.prems" by (auto simp: longest_name.simps [of m n])
  qed
qed

lemma option_pred_length: "option_pred P ps m n = Some (i, k) \<Longrightarrow> k \<le> length n \<and> (n \<noteq> [] \<longrightarrow> k \<noteq> 0)"
  using longest_name_length [of m n] by (auto simp: option_pred_def split: option.splits prod.splits if_splits)

text \<open>
  Grouped options: each but the last is provided without a value. The result is the last option
  with what is left of the argument; no option if the rest is not the name of one.
\<close>

function group_options ::
  "('d, 'w) cl_env \<Rightarrow> (string \<times> nat) list \<Rightarrow> nat \<Rightarrow> nat \<Rightarrow> string \<Rightarrow> bool \<Rightarrow> ('d, 'w) cl_state \<Rightarrow>
     (cl_end + nat option \<times> string \<times> bool) \<times> ('d, 'w) cl_state" where
  "group_options E m i k a failed st =
     (case provide_option E [] i (take k a) None 0 st of
        (Inl e, st) \<Rightarrow> (Inl e, st)
      | (Inr (b, _), st) \<Rightarrow>
          (case option_pred is_grouping (opts st) m (drop k a) of
             None \<Rightarrow> (Inr (None, drop k a, failed \<or> b), st)
           | Some (j, l) \<Rightarrow>
               if l \<noteq> length (drop k a) then group_options E m j l (drop k a) (failed \<or> b) st
               else (Inr (Some j, drop k a, failed \<or> b), st)))"
  by pat_completeness auto
termination
proof (relation "measure (\<lambda>(E, m, i, k, a, failed, st). 2 * length a + (if k = 0 then 1 else 0))", goal_cases)
  case (2 E m i k a failed st r st1 x b y z j l)
  then have "l \<le> length (drop k a) \<and> (drop k a \<noteq> [] \<longrightarrow> l \<noteq> 0)" using option_pred_length by blast
  then show ?case using 2 by (cases "k = 0") (auto simp: not_le)
qed simp

declare group_options.simps [simp del]

text \<open>\<open>HandlePrefixedOrGroupedOption\<close>: the option, the name, the value, and whether there was an error.\<close>

definition prefixed_or_grouped ::
  "('d, 'w) cl_env \<Rightarrow> (string \<times> nat) list \<Rightarrow> string \<Rightarrow> ('d, 'w) cl_state \<Rightarrow>
     (cl_end + nat option \<times> string \<times> string option \<times> bool) \<times> ('d, 'w) cl_state" where
  "prefixed_or_grouped E m a st =
     (if length a = 1 then (Inr (None, a, None, False), st)
      else case option_pred is_prefixed_or_grouping (opts st) m a of
        None \<Rightarrow> (Inr (None, a, None, False), st)
      | Some (i, k) \<Rightarrow>
          if formatting_flag (opts st ! i) = Fmt_prefix then (Inr (Some i, take k a, Some (drop k a), False), st)
          else case group_options E m i k a False st of
              (Inl e, st) \<Rightarrow> (Inl e, st)
            | (Inr (j, rest, failed), st) \<Rightarrow> (Inr (j, rest, None, failed), st))"

section \<open>What a parse changes\<close>

text \<open>
  The part of an option that is set up by the program. The states behind a state that agree with it on that part
  and on the names, where no option has lost an occurrence.
\<close>

definition set_up :: "'d cl_option \<Rightarrow> 'd cl_option" where
  "set_up p = p\<lparr>num_occ := 0, opt_position := 0, opt_value := None, opt_values := [], opt_bits := 0, opt_positions := []\<rparr>"

definition same_options :: "('d, 'w) cl_state \<Rightarrow> ('d, 'w) cl_state \<Rightarrow> bool" where
  "same_options st st' \<longleftrightarrow> map set_up (opts st') = map set_up (opts st) \<and> subcommands st' = subcommands st
     \<and> registered_subs st' = registered_subs st \<and> (\<forall>j. num_occ (opts st ! j) \<le> num_occ (opts st' ! j))"

lemma same_refl [simp]: "same_options st st"
  by (simp add: same_options_def)

lemma same_trans: "same_options st st1 \<Longrightarrow> same_options st1 st2 \<Longrightarrow> same_options st st2"
  by (auto simp: same_options_def intro: le_trans)

lemma same_texts [simp]:
  "same_options st (st'\<lparr>more_help := h\<rparr>) \<longleftrightarrow> same_options st st'"
  "same_options st (st'\<lparr>program_name := n, program_overview := v\<rparr>) \<longleftrightarrow> same_options st st'"
  "same_options st (st'\<lparr>active_sub := a\<rparr>) \<longleftrightarrow> same_options st st'"
  "same_options st (st'\<lparr>settings_of := w\<rparr>) \<longleftrightarrow> same_options st st'"
  "same_options st (write_error x st') \<longleftrightarrow> same_options st st'"
  "same_options st (option_error i m' m st') \<longleftrightarrow> same_options st st'"
  "same_options st (write_given g x st') \<longleftrightarrow> same_options st st'"
  "same_options st (quiet_error ig i m st') \<longleftrightarrow> same_options st st'"
  by (simp_all add: same_options_def write_error_def option_error_def write_given_def quiet_error_def)

lemma same_on_option:
  "(\<And>p. set_up (f p) = set_up p) \<Longrightarrow> (\<And>p. num_occ p \<le> num_occ (f p)) \<Longrightarrow> same_options st (on_option i f st)"
proof -
  assume f: "\<And>p. set_up (f p) = set_up p" "\<And>p. num_occ p \<le> num_occ (f p)"
  have "num_occ (opts st ! j) \<le> num_occ (opts (on_option i f st) ! j)" for j
    using f(2) by (cases "i < length (opts st)"; cases "j = i") (simp_all add: on_option_def list_update_beyond)
  with f(1) show ?thesis
    by (cases "i < length (opts st)") (auto simp: same_options_def on_option_def map_update list_update_same_conv
        intro!: nth_equalityI simp: nth_list_update)
qed

lemma same_store [simp]:
  "same_options st (on_option i (num_occ_update Suc) st)"
  "same_options st (on_option i (opt_position_update f) st)"
  by (rule same_on_option; simp add: set_up_def)+

lemma store_value_same: "store_value i pos v st = (r, st') \<Longrightarrow> same_options st st'"
  by (auto simp: store_value_def set_up_def intro!: same_on_option
      split: opt_kind.splits opt_value.splits if_splits)

lemma handle_occurrence_same: "handle_occurrence E i pos name a st = (r, st') \<Longrightarrow> same_options st st'"
  by (auto simp: handle_occurrence_def Let_def split: sum.splits dest: store_value_same)

lemma add_occurrence_same: "add_occurrence E i pos name a multi st = (r, st') \<Longrightarrow> same_options st st'"
  by (auto simp: add_occurrence_def Let_def split: option.splits if_splits
      dest!: handle_occurrence_same intro: same_trans [OF same_store(1)])

lemma add_occurrences_same: "add_occurrences E i pos name as multi st = (r, st') \<Longrightarrow> same_options st st'"
  by (induction as arbitrary: st) (auto split: prod.splits sum.splits bool.splits dest!: add_occurrence_same intro: same_trans)

lemma separate_and_add_same: "separate_and_add E i pos name a multi st = (r, st') \<Longrightarrow> same_options st st'"
  by (auto simp: separate_and_add_def dest: add_occurrences_same)

lemma space_values_same: "space_values E i name pos as failed st = (r, st') \<Longrightarrow> same_options st st'"
proof (induction E i name pos as failed st rule: space_values.induct)
  case (2 E i name pos a as failed st)
  show ?case
  proof (cases "add_occurrence E i pos name a False st")
    case (Pair x st1)
    then show ?thesis
      using "2.prems" "2.IH" [OF Pair [symmetric]] add_occurrence_same [OF Pair] same_trans
      by (cases x) (auto split: if_splits)
  qed
qed simp

lemma more_values_same: "more_values E argv i name n multi pos st = (r, st') \<Longrightarrow> same_options st st'"
proof (induction n arbitrary: multi pos st)
  case (Suc n)
  show ?case
  proof (cases "separate_and_add E i (pos + 1) name (argv ! (pos + 1)) multi st")
    case (Pair x st1)
    then show ?thesis
      using Suc.prems Suc.IH [of True "pos + 1" st1] separate_and_add_same [OF Pair] same_trans
      by (auto split: if_splits sum.splits bool.splits)
  qed
qed simp

lemma provide_values_same:
  assumes "provide_values E argv i name v pos st = (r, st')"
  shows "same_options st st'"
proof (cases "separate_and_add E i pos name (case v of None \<Rightarrow> [] | Some a \<Rightarrow> a) False st")
  case (Pair x st1)
  then show ?thesis
    using assms separate_and_add_same [OF Pair] same_trans
    by (auto simp: provide_values_def Let_def split: if_splits sum.splits dest: space_values_same more_values_same)
qed

lemma provide_option_same: "provide_option E argv i name v pos st = (r, st') \<Longrightarrow> same_options st st'"
  by (auto simp: provide_option_def split: option.splits value_expected.splits if_splits dest: provide_values_same)

lemma provide_positional_same: "provide_positional E i a pos st = (r, st') \<Longrightarrow> same_options st st'"
  by (auto simp: provide_positional_def split: prod.splits sum.splits dest: provide_option_same)

lemma same_flags:
  assumes "same_options st st'"
  shows "i < length (opts st) \<Longrightarrow> occ_flag (opts st' ! i) = occ_flag (opts st ! i)" "length (opts st') = length (opts st)"
proof -
  have "set_up (opts st' ! i) = set_up (opts st ! i)" if "i < length (opts st)"
    using assms that unfolding same_options_def by (metis length_map nth_map)
  moreover have "occ_flag (set_up p) = occ_flag p" for p :: "'c cl_option" by (simp add: set_up_def)
  ultimately show "i < length (opts st) \<Longrightarrow> occ_flag (opts st' ! i) = occ_flag (opts st ! i)" by metis
  show "length (opts st') = length (opts st)" using assms unfolding same_options_def by (metis length_map)
qed

definition keeps_options :: "(('d, 'w) cl_state, 'a) cl \<Rightarrow> bool" where
  "keeps_options m \<longleftrightarrow> (\<forall>st. same_options st (snd (m st)))"

lemma keeps_optionsI: "(\<And>st r st'. m st = (r, st') \<Longrightarrow> same_options st st') \<Longrightarrow> keeps_options m"
  unfolding keeps_options_def by (metis prod.collapse)

lemma keeps_optionsD: "keeps_options m \<Longrightarrow> m st = (r, st') \<Longrightarrow> same_options st st'"
  unfolding keeps_options_def by (metis snd_conv)

lemma keeps_bind_options:
  assumes "keeps_options m" "\<And>x. keeps_options (f x)"
  shows "keeps_options (cl_bind m f)"
proof (rule keeps_optionsI)
  fix st st' r
  assume r: "cl_bind m f st = (r, st')"
  obtain x st1 where m: "m st = (x, st1)" by fastforce
  show "same_options st st'"
    using r m keeps_optionsD [OF assms(1) m] same_trans [OF _ keeps_optionsD [OF assms(2)]]
    by (cases x) (auto simp: cl_bind_def)
qed

lemma keeps_simple [simp]:
  "keeps_options (cl_return x)" "keeps_options (cl_end_with e)"
  by (simp_all add: keeps_options_def cl_return_def cl_end_with_def)

lemma keeps_each_options: "(\<And>x. keeps_options (f x)) \<Longrightarrow> keeps_options (cl_each f xs)"
  by (induction xs) (auto intro: keeps_bind_options)

lemma keeps_occurrences: "keeps_options (add_occurrence E i pos name a multi)" "keeps_options (provide_positional E i a pos)"
  by (rule keeps_optionsI, erule add_occurrence_same, rule keeps_optionsI, erule provide_positional_same)

lemma group_options_same: "group_options E m i k a failed st = (r, st') \<Longrightarrow> same_options st st'"
proof (induction E m i k a failed st rule: group_options.induct)
  case (1 E m i k a failed st)
  obtain x st1 where p: "provide_option E [] i (take k a) None 0 st = (x, st1)" by fastforce
  note same = provide_option_same [OF p]
  show ?case
  proof (cases x)
    case (Inl e)
    then show ?thesis using "1.prems" p same by (auto simp: group_options.simps)
  next
    case (Inr y)
    obtain b j where y: "y = (b, j)" by (cases y)
    show ?thesis
      using "1.prems" "1.IH" [OF p [symmetric] Inr y [symmetric]] p same Inr y same_trans [OF same]
      by (subst (asm) group_options.simps) (auto split: option.splits prod.splits if_splits)
  qed
qed

lemma prefixed_or_grouped_same: "prefixed_or_grouped E m a st = (r, st') \<Longrightarrow> same_options st st'"
  by (auto simp: prefixed_or_grouped_def split: if_splits option.splits prod.splits sum.splits dest: group_options_same)

section \<open>The nearest name\<close>

text \<open>The documented law of the bounded edit distance: beyond the bound the value is one more than it; 0 is no bound.\<close>

definition bounded_law :: "(string \<Rightarrow> string \<Rightarrow> nat) \<Rightarrow> (string \<Rightarrow> string \<Rightarrow> nat \<Rightarrow> nat) \<Rightarrow> bool" where
  "bounded_law D dist \<longleftrightarrow> (\<forall>n a m. dist n a m = (if m = 0 \<or> D n a \<le> m then D n a else Suc m))"

definition candidate_distance :: "(string \<Rightarrow> string \<Rightarrow> nat) \<Rightarrow> string \<Rightarrow> nat \<times> bool \<times> string \<Rightarrow> nat" where
  "candidate_distance D a x = D (snd (snd x)) (if fst (snd x) then fst (split_equals a) else a)"

definition nearest_of ::
  "(string \<Rightarrow> string \<Rightarrow> nat) \<Rightarrow> string \<Rightarrow> (nat \<times> bool \<times> string) set \<Rightarrow> (nat \<times> nat \<times> string) option \<Rightarrow> bool" where
  "nearest_of D a X best \<longleftrightarrow> (case best of
     None \<Rightarrow> X = {}
   | Some (i, d, s) \<Rightarrow> (\<exists>x\<in>X. fst x = i \<and> candidate_distance D a x = d) \<and> (\<forall>x\<in>X. d \<le> candidate_distance D a x))"

lemma nearest_step_least:
  assumes "bounded_law D dist" "nearest_of D a X best"
  shows "nearest_of D a (insert x X) (nearest_step dist a x best)"
proof -
  obtain j permit name where x: "x = (j, permit, name)" by (cases x)
  let ?c = "candidate_distance D a x"
  have d: "dist name (if permit then fst (split_equals a) else a) m = (if m = 0 \<or> ?c \<le> m then ?c else Suc m)" for m
    using assms(1) by (simp add: bounded_law_def candidate_distance_def x)
  show ?thesis
  proof (cases best)
    case None
    then show ?thesis using assms(2) d [of 0] by (auto simp: nearest_of_def nearest_step_def x split_beta)
  next
    case (Some b)
    obtain i bd s where b: "b = (i, bd, s)" by (cases b)
    have "\<exists>s'. nearest_step dist a x best = (if ?c < bd then Some (j, ?c, s') else best)"
      using d [of bd] by (auto simp: nearest_step_def x Some b split_beta)
    then show ?thesis using assms(2) by (fastforce simp: nearest_of_def Some b x)
  qed
qed

lemma fold_nearest_least:
  assumes "bounded_law D dist"
  shows "nearest_of D a X best \<Longrightarrow> nearest_of D a (X \<union> set xs) (fold (nearest_step dist a) xs best)"
proof (induction xs arbitrary: best X)
  case (Cons x xs)
  from Cons.IH [OF nearest_step_least [OF assms Cons.prems, of x]] show ?case by simp
qed simp

section \<open>Named values\<close>

text \<open>
  An option that is no alias and does not refuse values has an occurrence when a positional value was
  provided to it, even if that ended with an error.
\<close>

definition takes_value :: "'d cl_option \<Rightarrow> bool" where
  "takes_value p \<longleftrightarrow> (case opt_kind p of Alias_opt _ \<Rightarrow> False | _ \<Rightarrow> True)
     \<and> (case value_flag p of Some f \<Rightarrow> f | None \<Rightarrow> default_value_flag p) \<noteq> Value_disallowed"

lemma takes_value_set_up [simp]: "takes_value (set_up p) = takes_value p"
proof -
  have "default_value_flag (set_up p) = default_value_flag p"
    by (simp add: set_up_def default_value_flag_def has_arg_str_def cong: opt_parser.case_cong)
  moreover have "opt_kind (set_up p) = opt_kind p" "value_flag (set_up p) = value_flag p"
    by (simp_all add: set_up_def)
  ultimately show ?thesis by (cases "value_flag p") (simp_all add: takes_value_def)
qed

lemma same_takes_value:
  assumes "same_options st st'" "i < length (opts st)"
  shows "takes_value (opts st' ! i) = takes_value (opts st ! i)"
proof -
  have "set_up (opts st' ! i) = set_up (opts st ! i)"
    using assms unfolding same_options_def by (metis length_map nth_map)
  then show ?thesis using takes_value_set_up by metis
qed

lemma same_counts: "same_options st st' \<Longrightarrow> num_occ (opts st ! i) \<noteq> 0 \<Longrightarrow> num_occ (opts st' ! i) \<noteq> 0"
  unfolding same_options_def by (metis le_zero_eq)

lemma add_occurrence_counted:
  assumes "add_occurrence E i pos name a False st = (Inr b, st')" "i < length (opts st)" "\<forall>t. opt_kind (opts st ! i) \<noteq> Alias_opt t"
  shows "num_occ (opts st' ! i) \<noteq> 0"
proof -
  let ?st = "on_option i (num_occ_update Suc) st"
  have t: "alias_target (opts st) (Suc (length (opts st))) i = Some i"
    using assms(3) by (simp split: opt_kind.splits)
  have "same_options ?st st'"
    using assms(1) unfolding add_occurrence_def t
    by (auto simp: Let_def split: option.splits dest: handle_occurrence_same)
  moreover have "num_occ (opts ?st ! i) \<noteq> 0" using assms(2) by (simp add: on_option_def)
  ultimately show ?thesis by (rule same_counts)
qed

lemma provide_positional_counted:
  assumes "provide_positional E i a pos st = (Inr b, st')" "i < length (opts st)" "takes_value (opts st ! i)"
  shows "num_occ (opts st' ! i) \<noteq> 0"
proof -
  let ?p = "opts st ! i" and ?n = "arg_str (opts st ! i)"
  have k: "\<forall>t. opt_kind ?p \<noteq> Alias_opt t" using assms(3) by (auto simp: takes_value_def)
  then have "value_expected_flag (opts st) (Suc (length (opts st))) i =
      Some (case value_flag ?p of Some f \<Rightarrow> f | None \<Rightarrow> default_value_flag ?p)"
    by (simp split: option.splits opt_kind.splits)
  then obtain j where v: "provide_values E [] i ?n (Some a) pos st = (Inr (b, j), st')"
    using assms(1,3) by (auto simp: provide_positional_def provide_option_def takes_value_def
        split: value_expected.splits prod.splits sum.splits)
  obtain c as where as: "(if comma_separated ?p then comma_pieces a else [a]) = c # as"
    by (cases "if comma_separated ?p then comma_pieces a else [a]") (auto split: if_splits simp: comma_pieces_not_Nil)
  obtain x st1 where s: "separate_and_add E i pos ?n a False st = (x, st1)" by fastforce
  have x: "\<exists>c. x = Inr c" "same_options st1 st'"
    using v s by (auto simp: provide_values_def Let_def split: if_splits sum.splits dest: more_values_same)
  obtain y st2 where o: "add_occurrence E i pos ?n c False st = (y, st2)" by fastforce
  then have y: "\<exists>c. y = Inr c" "same_options st2 st1"
    using s x(1) as by (auto simp: separate_and_add_def split: sum.splits bool.splits dest: add_occurrences_same)
  then have "num_occ (opts st2 ! i) \<noteq> 0" using add_occurrence_counted o assms(2) k by blast
  then show ?thesis using same_counts [OF same_trans [OF y(2) x(2)]] by blast
qed

text \<open>A plain option with a text, and an argument that gives it a value.\<close>

definition text_option :: "'d cl_option \<Rightarrow> bool" where
  "text_option p \<longleftrightarrow> opt_kind p = Scalar_opt Parser_string \<and> value_flag p = None \<and> occ_flag p = Occ_optional \<and> num_occ p = 0
     \<and> formatting_flag p = Fmt_normal \<and> \<not> comma_separated p \<and> \<not> space_separated p \<and> additional_vals p = 0
     \<and> arg_str p \<noteq> [] \<and> hd (arg_str p) \<noteq> CHR ''-'' \<and> CHR ''='' \<notin> set (arg_str p)"

definition value_argument :: "'d cl_option \<Rightarrow> string \<Rightarrow> string" where
  "value_argument p v = CHR ''-'' # arg_str p @ CHR ''='' # v"

definition with_value :: "string \<Rightarrow> nat \<Rightarrow> 'd cl_option \<Rightarrow> 'd cl_option" where
  "with_value v pos p = p\<lparr>num_occ := 1, opt_value := Some (String_value v), opt_position := pos\<rparr>"

lemma on_option_twice: "i < length (opts st) \<Longrightarrow> on_option i f (on_option i g st) = on_option i (\<lambda>p. f (g p)) st"
  by (simp add: on_option_def)

lemma opts_on_option: "opts (on_option i f st) = (opts st)[i := f (opts st ! i)]"
  by (simp add: on_option_def)

lemma on_option_cong: "f (opts st ! i) = g (opts st ! i) \<Longrightarrow> on_option i f st = on_option i g st"
  by (simp add: on_option_def)

lemma first_occurrence: "num_occ p = 0 \<Longrightarrow> num_occ_update Suc p = p\<lparr>num_occ := 1\<rparr>"
  by (cases p) simp

lemma provide_text:
  assumes "text_option (opts st ! i)" "i < length (opts st)"
  shows "provide_option E argv i name (Some v) pos st = (Inr (False, pos), on_option i (with_value v pos) st)"
proof -
  have "on_option i (\<lambda>p. num_occ_update Suc p\<lparr>opt_value := Some (String_value v), opt_position := pos\<rparr>) st =
      on_option i (with_value v pos) st"
    using assms by (intro on_option_cong) (simp add: text_option_def first_occurrence with_value_def)
  then have "add_occurrence E i pos name v False st = (Inr False, on_option i (with_value v pos) st)"
    using assms by (simp add: add_occurrence_def text_option_def Let_def count_ok_def opts_on_option handle_occurrence_def
        store_value_def parser_of_def on_option_twice)
  then show ?thesis
    using assms by (simp add: provide_option_def text_option_def default_value_flag_def parser_of_def
        provide_values_def separate_and_add_def)
qed

text \<open>
  The name that is suggested for an unknown option is a nearest one: no name of the subcommand has a
  smaller edit distance to the argument, where the value behind an equals sign counts only for options
  that take none. There is a suggestion whenever there is a name.
\<close>

theorem nearest_option:
  assumes "bounded_law D dist" "a \<noteq> []"
  shows "case lookup_nearest dist ps m a of
      None \<Rightarrow> candidates ps m = []
    | Some (i, d, s) \<Rightarrow> (\<exists>x\<in>set (candidates ps m). fst x = i \<and> candidate_distance D a x = d)
        \<and> (\<forall>x\<in>set (candidates ps m). d \<le> candidate_distance D a x)"
  using fold_nearest_least [OF assms(1), of a "{}" None "candidates ps m"] assms(2)
  by (auto simp: lookup_nearest_def nearest_of_def split: option.splits prod.splits)

definition two_options :: "nat cl_option list" where
  "two_options = [new_option (Scalar_opt Parser_string) ''out'' Occ_optional Fmt_normal,
     new_option (Scalar_opt Parser_bool) ''v'' Occ_optional Fmt_normal]"

lemma nearest_option_witness:
  "lookup_nearest (\<lambda>n a m. if n = a then 0 else 1) two_options [(''v'', 1), (''out'', 0)] ''out=x'' = Some (0, 0, ''out=x'')
   \<and> candidate_distance (\<lambda>n a. if n = a then 0 else 1) ''out=x'' (0, True, ''out'') = 0"
proof -
  let ?dist = "\<lambda>n a (m :: nat). if n = (a :: string) then 0 else 1 :: nat"
  have law: "bounded_law (\<lambda>n a. if n = a then 0 else 1) ?dist" by (simp add: bounded_law_def)
  have r: "lookup_nearest ?dist two_options [(''v'', 1), (''out'', 0)] ''out=x'' = Some (0, 0, ''out=x'')" by code_simp
  have c: "candidates two_options [(''v'', 1), (''out'', 0)] = [(1, True, ''v''), (0, True, ''out'')]" by code_simp
  from nearest_option [OF law, of "''out=x''" two_options "[(''v'', 1), (''out'', 0)]"] r c
  show ?thesis by (auto simp: candidate_distance_def split_equals_def)
qed

end
