(* ===== verification/CommandLine.thy ===== *)
theory CommandLine
  imports CommandValues
begin

text \<open>
  Parsing a command line (\<open>ParseCommandLineOptions\<close> of \<open>CommandLine.cpp\<close>): the loop over the
  arguments, the distribution of the positional arguments, the checks behind it, and the restart
  at the name of a subcommand.

  \<^item> named values reach their options, positional arguments are distributed in order;
  \<^item> a parse changes nothing but the occurrences of options; what its result says of errors;
  \<^item> the restarts end.
\<close>

section \<open>The loop over the arguments\<close>

text \<open>
  The fixed parts of a parse: whether the caller gave a stream for messages, and the subcommand.
  The state of the loop: the positional arguments with their indices, the positional option that was named
  last, whether \<open>--\<close> was seen, and whether there was an error.
\<close>

record parse_params =
  stream_given :: bool
  chosen_sub :: nat
  required_count :: nat

record loop_state =
  positional_vals :: "(string \<times> nat) list"
  active_positional :: "nat option"
  dash_dash :: bool
  error_parsing :: bool

datatype loop_next = Continue loop_state nat | Finish loop_state | Nested_sub nat

definition positional_argument :: "string \<Rightarrow> bool" where
  "positional_argument a \<longleftrightarrow> \<not> starts_dash a \<or> length a = 1"

definition strip_dashes :: "string \<Rightarrow> string" where
  "strip_dashes a = dropWhile (\<lambda>c. c = CHR ''-'') (tl a)"

text \<open>An argument that no option takes: a message, or the sinks.\<close>

definition unknown_argument ::
  "('d, 'w) cl_env \<Rightarrow> parse_params \<Rightarrow> string list \<Rightarrow> nat \<Rightarrow> (nat \<times> nat \<times> string) option \<Rightarrow> loop_state \<Rightarrow> ('d, 'w) cl_state \<Rightarrow>
     (cl_end + loop_next) \<times> ('d, 'w) cl_state" where
  "unknown_argument E P argv i nearest L st =
     (let sinks = sink_opts (subcommands st (chosen_sub P)); a = argv ! i in
      if sinks = [] then
        (Inr (Continue (L\<lparr>error_parsing := True\<rparr>) i),
         write_given (stream_given P)
           (program_name st @ '': Unknown command line argument '' @ in_quotes a @ ''. Try: '' @ in_quotes (argv ! 0 @ '' --help'') @ [NL]
            @ (case nearest of None \<Rightarrow> []
               | Some (_, _, n) \<Rightarrow> program_name st @ '': Did you mean '' @ in_quotes (CHR ''-'' # n) @ ''?'' @ [NL])) st)
      else
        (case cl_each (\<lambda>s. cl_bind (add_occurrence E s i [] a False) (\<lambda>_. cl_return ())) sinks st of
           (Inl e, st) \<Rightarrow> (Inl e, st)
         | (Inr _, st) \<Rightarrow> (Inr (Continue L i), st)))"

text \<open>An argument that an option takes; a positional option that is named becomes the active one.\<close>

definition handle_named ::
  "('d, 'w) cl_env \<Rightarrow> parse_params \<Rightarrow> string list \<Rightarrow> nat \<Rightarrow> nat \<Rightarrow> string \<Rightarrow> string option \<Rightarrow> loop_state \<Rightarrow> ('d, 'w) cl_state \<Rightarrow>
     (cl_end + loop_next) \<times> ('d, 'w) cl_state" where
  "handle_named E P argv i h name v L st =
     (let p = opts st ! h in
      if is_positional p then
        (if positional_eats_args p \<and> v \<noteq> None \<and> v \<noteq> Some [] then
           (Inr (Continue (L\<lparr>error_parsing := True, active_positional := Some h\<rparr>) i),
            write_given (stream_given P) (error_text st h None (''This argument does not take a value.'' @ [NL, CHR 0x09] @
              ''Instead, it consumes any positional arguments until the next recognized option.'')) st)
         else (Inr (Continue (L\<lparr>active_positional := Some h\<rparr>) i), st))
      else (case provide_option E argv h name v i st of
          (Inl e, st) \<Rightarrow> (Inl e, st)
        | (Inr (b, j), st) \<Rightarrow> (Inr (Continue (L\<lparr>error_parsing := error_parsing L \<or> b\<rparr>) j), st)))"

definition to_active ::
  "('d, 'w) cl_env \<Rightarrow> nat \<Rightarrow> string list \<Rightarrow> nat \<Rightarrow> loop_state \<Rightarrow> ('d, 'w) cl_state \<Rightarrow> (cl_end + loop_next) \<times> ('d, 'w) cl_state" where
  "to_active E o' argv i L st =
     (case provide_positional E o' (argv ! i) i st of
        (Inl e, st) \<Rightarrow> (Inl e, st)
      | (Inr _, st) \<Rightarrow> (Inr (Continue L i), st))"

text \<open>A positional argument: for the active option, kept for later, the name of a subcommand, or unknown.\<close>

definition positional_step ::
  "('d, 'w) cl_env \<Rightarrow> parse_params \<Rightarrow> string list \<Rightarrow> nat \<Rightarrow> loop_state \<Rightarrow> ('d, 'w) cl_state \<Rightarrow> (cl_end + loop_next) \<times> ('d, 'w) cl_state" where
  "positional_step E P argv i L st =
     (let s = subcommands st (chosen_sub P) in
      case active_positional L of
        Some o' \<Rightarrow> to_active E o' argv i L st
      | None \<Rightarrow>
          if positional_opts s \<noteq> [] then
            (let vs = positional_vals L @ [(argv ! i, i)] in
             if length vs \<ge> required_count P \<and> consume_after_opt s \<noteq> None then
               (Inr (Finish (L\<lparr>positional_vals := vs @ map (\<lambda>j. (argv ! j, j)) [Suc i..<length argv]\<rparr>)), st)
             else (Inr (Continue (L\<lparr>positional_vals := vs\<rparr>) i), st))
          else if lookup_sub st (argv ! i) \<noteq> top_level_sub then (Inr (Nested_sub i), st)
          else unknown_argument E P argv i None L st)"

text \<open>An argument that begins with a dash.\<close>

definition dash_step ::
  "('d, 'w) cl_env \<Rightarrow> parse_params \<Rightarrow> string list \<Rightarrow> nat \<Rightarrow> loop_state \<Rightarrow> ('d, 'w) cl_state \<Rightarrow> (cl_end + loop_next) \<times> ('d, 'w) cl_state" where
  "dash_step E P argv i L st =
     (let s = subcommands st (chosen_sub P); a = strip_dashes (argv ! i) in
      case lookup_option (options_map s) a of
        Some (h, name, v) \<Rightarrow> handle_named E P argv i h name v L st
      | None \<Rightarrow>
          (case prefixed_or_grouped E (options_map s) a st of
             (Inl e, st) \<Rightarrow> (Inl e, st)
           | (Inr (Some h, name, v, failed), st) \<Rightarrow>
               handle_named E P argv i h name v (L\<lparr>error_parsing := error_parsing L \<or> failed\<rparr>) st
           | (Inr (None, rest, v, failed), st) \<Rightarrow>
               unknown_argument E P argv i
                 (if sink_opts s = [] then lookup_nearest (bounded_distance E) (opts st) (options_map s) rest else None)
                 (L\<lparr>error_parsing := error_parsing L \<or> failed\<rparr>) st))"

definition eating_step ::
  "('d, 'w) cl_env \<Rightarrow> parse_params \<Rightarrow> nat \<Rightarrow> string list \<Rightarrow> nat \<Rightarrow> loop_state \<Rightarrow> ('d, 'w) cl_state \<Rightarrow> (cl_end + loop_next) \<times> ('d, 'w) cl_state" where
  "eating_step E P o' argv i L st =
     (case lookup_option (options_map (subcommands st (chosen_sub P))) (strip_dashes (argv ! i)) of
        Some (h, name, v) \<Rightarrow>
          if is_positional (opts st ! h) then handle_named E P argv i h name v L st else to_active E o' argv i L st
      | None \<Rightarrow> to_active E o' argv i L st)"

definition loop_step ::
  "('d, 'w) cl_env \<Rightarrow> parse_params \<Rightarrow> string list \<Rightarrow> nat \<Rightarrow> loop_state \<Rightarrow> ('d, 'w) cl_state \<Rightarrow> (cl_end + loop_next) \<times> ('d, 'w) cl_state" where
  "loop_step E P argv i L st =
     (if positional_argument (argv ! i) \<or> dash_dash L then positional_step E P argv i L st
      else if argv ! i = ''--'' then (Inr (Continue (L\<lparr>dash_dash := True\<rparr>) i), st)
      else case active_positional L of
          Some o' \<Rightarrow> if positional_eats_args (opts st ! o') then eating_step E P o' argv i L st else dash_step E P argv i L st
        | None \<Rightarrow> dash_step E P argv i L st)"

text \<open>The index never goes back, so that the loop ends.\<close>

lemma space_values_index: "space_values E i name pos as failed st = (Inr (b, j), st') \<Longrightarrow> pos \<le> j"
proof (induction E i name pos as failed st rule: space_values.induct)
  case (2 E i name pos a as failed st)
  show ?case
  proof (cases "add_occurrence E i pos name a False st")
    case (Pair r st1)
    then show ?thesis
      using "2.prems" "2.IH" [OF Pair [symmetric]] by (cases r) (auto split: if_splits dest: Suc_leD)
  qed
qed simp

lemma more_values_index: "more_values E argv i name n multi pos st = (Inr (b, j), st') \<Longrightarrow> pos \<le> j"
proof (induction n arbitrary: multi pos st)
  case (Suc n)
  show ?case
  proof (cases "separate_and_add E i (pos + 1) name (argv ! (pos + 1)) multi st")
    case (Pair r st1)
    then show ?thesis
      using Suc.prems Suc.IH [of True "pos + 1" st1] by (auto split: if_splits sum.splits bool.splits)
  qed
qed simp

lemma provide_values_index: "provide_values E argv i name v pos st = (Inr (b, j), st') \<Longrightarrow> pos \<le> j"
  by (auto simp: provide_values_def Let_def split: if_splits prod.splits sum.splits
      dest: space_values_index more_values_index)

lemma provide_option_index: "provide_option E argv i name v pos st = (Inr (b, j), st') \<Longrightarrow> pos \<le> j"
  by (auto simp: provide_option_def split: if_splits option.splits value_expected.splits
      dest!: provide_values_index)

lemma handle_named_index: "handle_named E P argv i h name v L st = (Inr (Continue L' j), st') \<Longrightarrow> i \<le> j"
  by (auto simp: handle_named_def Let_def split: if_splits prod.splits sum.splits dest: provide_option_index)

lemma unknown_argument_index: "unknown_argument E P argv i d L st = (Inr (Continue L' j), st') \<Longrightarrow> i \<le> j"
  by (auto simp: unknown_argument_def Let_def split: if_splits prod.splits sum.splits)

lemma to_active_index: "to_active E o' argv i L st = (Inr (Continue L' j), st') \<Longrightarrow> i \<le> j"
  by (auto simp: to_active_def split: prod.splits sum.splits)

lemma loop_step_index: "loop_step E P argv i L st = (Inr (Continue L' j), st') \<Longrightarrow> i \<le> j"
  by (auto simp: loop_step_def positional_step_def dash_step_def eating_step_def Let_def
      split: if_splits prod.splits sum.splits option.splits
      dest: handle_named_index unknown_argument_index to_active_index)

function parse_loop ::
  "('d, 'w) cl_env \<Rightarrow> parse_params \<Rightarrow> string list \<Rightarrow> nat \<Rightarrow> loop_state \<Rightarrow> ('d, 'w) cl_state \<Rightarrow> (cl_end + loop_next) \<times> ('d, 'w) cl_state" where
  "parse_loop E P argv i L st =
     (if i \<ge> length argv then (Inr (Finish L), st)
      else case loop_step E P argv i L st of
          (Inl e, st) \<Rightarrow> (Inl e, st)
        | (Inr (Continue L j), st) \<Rightarrow> parse_loop E P argv (Suc j) L st
        | (Inr r, st) \<Rightarrow> (Inr r, st))"
  by pat_completeness auto
termination
  by (relation "measure (\<lambda>(E, P, argv, i, L, st). length argv - i)") (auto dest!: loop_step_index [OF sym])

declare parse_loop.simps [simp del]

section \<open>Positional options\<close>

definition requires_value :: "'d cl_option \<Rightarrow> bool" where
  "requires_value p \<longleftrightarrow> occ_flag p = Occ_required \<or> occ_flag p = Occ_one_or_more"

definition eats_unbounded :: "'d cl_option \<Rightarrow> bool" where
  "eats_unbounded p \<longleftrightarrow> occ_flag p = Occ_zero_or_more \<or> occ_flag p = Occ_one_or_more"

text \<open>
  The check before the loop: how many positional options require a value, whether one of them takes any
  number of values, and whether there was an error. Messages of options are left out if errors are ignored.
\<close>

fun check_positionals ::
  "bool \<Rightarrow> bool \<Rightarrow> bool \<Rightarrow> nat \<Rightarrow> nat list \<Rightarrow> nat \<times> bool \<times> bool \<Rightarrow> ('d, 'w) cl_state \<Rightarrow> (nat \<times> bool \<times> bool) \<times> ('d, 'w) cl_state" where
  "check_positionals given ignore consume all_opts [] acc st = (acc, st)"
| "check_positionals given ignore consume all_opts (i # is) (req, unbounded, failed) st =
     (let p = opts st ! i; unbounded' = (unbounded \<or> eats_unbounded p) in
      if requires_value p then check_positionals given ignore consume all_opts is (Suc req, unbounded', failed) st
      else if consume then
        (if all_opts > 1 then
           check_positionals given ignore consume all_opts is (req, unbounded', True)
             (quiet_error ignore i (''error - this positional option will never be matched, '' @
               ''because it does not Require a value, and a cl::ConsumeAfter option is active!'') st)
         else check_positionals given ignore consume all_opts is (req, unbounded', failed) st)
      else if unbounded \<and> \<not> has_arg_str p then
        check_positionals given ignore consume all_opts is (req, unbounded', True)
          (write_given given (program_name st @ '': CommandLine Error: Option '' @ in_quotes (arg_str p) @ '' is all messed up!''
             @ [NL] @ nat_to_string all_opts)
           (quiet_error ignore i (''error - option can never match, because another positional argument will match an '' @
             ''unbounded number of values, and this option does not require a value!'') st))
      else check_positionals given ignore consume all_opts is (req, unbounded', failed) st)"

text \<open>
  Values for the positional options from the front, when there is no option behind them: the
  number of values that later options require is kept back. The result of an occurrence is dropped.
\<close>

definition give_value ::
  "('d, 'w) cl_env \<Rightarrow> nat \<Rightarrow> string \<times> nat \<Rightarrow> ('d, 'w) cl_state \<Rightarrow> (cl_end + unit) \<times> ('d, 'w) cl_state" where
  "give_value E i x = cl_bind (provide_positional E i (fst x) (snd x)) (\<lambda>_. cl_return ())"

fun give_more ::
  "('d, 'w) cl_env \<Rightarrow> nat \<Rightarrow> nat \<Rightarrow> (string \<times> nat) list \<Rightarrow> ('d, 'w) cl_state \<Rightarrow> (cl_end + (string \<times> nat) list) \<times> ('d, 'w) cl_state" where
  "give_more E i keep [] st = (Inr [], st)"
| "give_more E i keep (x # xs) st =
     (if length (x # xs) > keep then
        (case occ_flag (opts st ! i) of
           Occ_optional \<Rightarrow> cl_bind (give_value E i x) (\<lambda>_. cl_return xs) st
         | Occ_zero_or_more \<Rightarrow> cl_bind (give_value E i x) (\<lambda>_. give_more E i keep xs) st
         | Occ_one_or_more \<Rightarrow> cl_bind (give_value E i x) (\<lambda>_. give_more E i keep xs) st
         | _ \<Rightarrow> (Inl (Throws Undefined), st))
      else (Inr (x # xs), st))"

fun give_positionals ::
  "('d, 'w) cl_env \<Rightarrow> nat list \<Rightarrow> nat \<Rightarrow> (string \<times> nat) list \<Rightarrow> ('d, 'w) cl_state \<Rightarrow> (cl_end + unit) \<times> ('d, 'w) cl_state" where
  "give_positionals E [] req xs st = (Inr (), st)"
| "give_positionals E (i # is) req xs st =
     (if requires_value (opts st ! i) then
        (case xs of
           [] \<Rightarrow> (Inl (Throws Undefined), st)
         | x # xs \<Rightarrow> cl_bind (give_value E i x) (\<lambda>_ st.
             if occ_flag (opts st ! i) = Occ_required then give_positionals E is (req - 1) xs st
             else cl_bind (give_more E i (req - 1) xs) (\<lambda>xs. give_positionals E is (req - 1) xs) st) st)
      else cl_bind (give_more E i req xs) (\<lambda>xs. give_positionals E is req xs) st)"

text \<open>
  With an option behind them: the options from the second on that require a value get one each, a single
  option that does not gets the first, and the rest is for the option behind. Errors count here.
\<close>

definition give_counted ::
  "('d, 'w) cl_env \<Rightarrow> nat \<Rightarrow> string \<times> nat \<Rightarrow> bool \<Rightarrow> ('d, 'w) cl_state \<Rightarrow> (cl_end + bool) \<times> ('d, 'w) cl_state" where
  "give_counted E i x failed = cl_bind (provide_positional E i (fst x) (snd x)) (\<lambda>b. cl_return (failed \<or> b))"

fun give_required ::
  "('d, 'w) cl_env \<Rightarrow> nat list \<Rightarrow> (string \<times> nat) list \<Rightarrow> bool \<Rightarrow> ('d, 'w) cl_state \<Rightarrow>
     (cl_end + bool \<times> (string \<times> nat) list) \<times> ('d, 'w) cl_state" where
  "give_required E [] xs failed st = (Inr (failed, xs), st)"
| "give_required E (i # is) xs failed st =
     (if requires_value (opts st ! i) then
        (case xs of
           [] \<Rightarrow> (Inl (Throws Undefined), st)
         | x # xs \<Rightarrow> cl_bind (give_counted E i x failed) (\<lambda>failed. give_required E is xs failed) st)
      else give_required E is xs failed st)"

fun give_rest ::
  "('d, 'w) cl_env \<Rightarrow> nat \<Rightarrow> (string \<times> nat) list \<Rightarrow> bool \<Rightarrow> ('d, 'w) cl_state \<Rightarrow> (cl_end + bool) \<times> ('d, 'w) cl_state" where
  "give_rest E c [] failed st = (Inr failed, st)"
| "give_rest E c (x # xs) failed st = cl_bind (give_counted E c x failed) (\<lambda>failed. give_rest E c xs failed) st"

definition give_consume_after ::
  "('d, 'w) cl_env \<Rightarrow> nat list \<Rightarrow> nat \<Rightarrow> (string \<times> nat) list \<Rightarrow> ('d, 'w) cl_state \<Rightarrow> (cl_end + bool) \<times> ('d, 'w) cl_state" where
  "give_consume_after E is c xs st =
     cl_bind (if is = [] then cl_end_with (Throws Undefined) else give_required E (tl is) xs False) (\<lambda>(failed, ys).
       case (is, ys) of
         ([i], y # ys) \<Rightarrow> cl_bind (give_counted E i y failed) (\<lambda>failed. give_rest E c ys failed)
       | _ \<Rightarrow> give_rest E c ys failed) st"

section \<open>The parse\<close>

text \<open>The check behind the loop: options that must be given.\<close>

definition missing_options :: "('d, 'w) cl_state \<Rightarrow> nat \<Rightarrow> nat list" where
  "missing_options st sc = filter (\<lambda>i. requires_value (opts st ! i) \<and> num_occ (opts st ! i) = 0)
     (map snd (options_map (subcommands st sc)))"

definition too_few :: "string list \<Rightarrow> nat \<Rightarrow> ('d, 'w) cl_state \<Rightarrow> string" where
  "too_few argv n st = program_name st @ '': Not enough positional command line arguments specified!'' @ [NL]
     @ ''Must specify at least '' @ nat_to_string n @ '' positional argument'' @ (if n > 1 then ''s'' else [])
     @ '': See: '' @ argv ! 0 @ '' --help'' @ [NL]"

definition too_many :: "string list \<Rightarrow> nat \<Rightarrow> ('d, 'w) cl_state \<Rightarrow> string" where
  "too_many argv n st = program_name st @ '': Too many positional arguments specified!'' @ [NL]
     @ ''Can specify at most '' @ nat_to_string n @ '' positional arguments: See: '' @ argv ! 0 @ '' --help'' @ [NL]"

text \<open>Behind the loop: the positional arguments, and whether there was an error.\<close>

definition assign_positionals ::
  "('d, 'w) cl_env \<Rightarrow> parse_params \<Rightarrow> bool \<Rightarrow> string list \<Rightarrow> loop_state \<Rightarrow> ('d, 'w) cl_state \<Rightarrow> (cl_end + bool) \<times> ('d, 'w) cl_state" where
  "assign_positionals E P unlimited argv L st =
     (let s = subcommands st (chosen_sub P); vs = positional_vals L in
      if required_count P > length vs then (Inr True, write_given (stream_given P) (too_few argv (required_count P) st) st)
      else if \<not> unlimited \<and> length vs > length (positional_opts s) then
        (Inr True, write_given (stream_given P) (too_many argv (length (positional_opts s)) st) st)
      else case consume_after_opt s of
          None \<Rightarrow> cl_bind (give_positionals E (positional_opts s) (required_count P) vs) (\<lambda>_. cl_return (error_parsing L)) st
        | Some c \<Rightarrow> cl_bind (give_consume_after E (positional_opts s) c vs) (\<lambda>b. cl_return (error_parsing L \<or> b)) st)"

definition finish_parse ::
  "('d, 'w) cl_env \<Rightarrow> parse_params \<Rightarrow> bool \<Rightarrow> bool \<Rightarrow> string list \<Rightarrow> loop_state \<Rightarrow> ('d, 'w) cl_state \<Rightarrow> (cl_end + bool) \<times> ('d, 'w) cl_state" where
  "finish_parse E P ignore unlimited argv L st =
     (case assign_positionals E P unlimited argv L st of
        (Inl e, st) \<Rightarrow> (Inl e, st)
      | (Inr failed, st) \<Rightarrow>
          let missing = missing_options st (chosen_sub P);
              st = fold (\<lambda>i. option_error i None ''must be specified at least once!'') missing st;
              failed = (failed \<or> missing \<noteq> []);
              st = st\<lparr>more_help := []\<rparr>
          in if failed \<and> \<not> ignore then (Inl (Exits 1), st) else (Inr (\<not> failed), st))"

text \<open>
  The parse for a subcommand. The value is the result, or the index of the name of another
  subcommand with the expanded arguments, from which the parse starts again.
\<close>

definition parse_sub ::
  "('d, 'w) cl_env \<Rightarrow> bool \<Rightarrow> bool \<Rightarrow> string list \<Rightarrow> nat \<Rightarrow> nat \<Rightarrow> ('d, 'w) cl_state \<Rightarrow>
     (cl_end + bool + nat \<times> string list) \<times> ('d, 'w) cl_state" where
  "parse_sub E given ignore argv sc first st =
     (let s = subcommands st sc; consume = (consume_after_opt s \<noteq> None) in
      case check_positionals given ignore consume (length (positional_opts s)) (positional_opts s) (0, False, False) st of
        ((req, unbounded, failed), st) \<Rightarrow>
          let P = \<lparr>stream_given = given, chosen_sub = sc, required_count = req\<rparr>;
              unlimited = (positional_opts s \<noteq> [] \<and> (unbounded \<or> consume))
          in case parse_loop E P argv first
               \<lparr>positional_vals = [], active_positional = None, dash_dash = False, error_parsing = failed\<rparr> st of
               (Inl e, st) \<Rightarrow> (Inl e, st)
             | (Inr (Nested_sub i), st) \<Rightarrow> (Inr (Inr (i, argv)), st)
             | (Inr (Continue L _), st) \<Rightarrow> (Inl (Throws Undefined), st)
             | (Inr (Finish L), st) \<Rightarrow>
                 (case finish_parse E P ignore unlimited argv L st of
                    (Inl e, st) \<Rightarrow> (Inl e, st)
                  | (Inr b, st) \<Rightarrow> (Inr (Inl b), st)))"

definition parse_arguments ::
  "('d, 'w) cl_env \<Rightarrow> bool \<Rightarrow> bool \<Rightarrow> string list \<Rightarrow> string \<Rightarrow> nat \<Rightarrow> ('d, 'w) cl_state \<Rightarrow>
     (cl_end + bool + nat \<times> string list) \<times> ('d, 'w) cl_state" where
  "parse_arguments E given ignore argv overview first st =
     (if argv = [] \<or> (length argv \<ge> 2 \<and> first \<ge> length argv) then (Inl (Throws Undefined), st)
      else
        let st = st\<lparr>program_name := path_filename E (argv ! 0), program_overview := overview\<rparr>;
            sc = (if length argv \<ge> 2 \<and> \<not> starts_dash (argv ! first) then lookup_sub st (argv ! first) else top_level_sub)
        in parse_sub E given ignore argv sc (if sc \<noteq> top_level_sub then Suc first else first) (st\<lparr>active_sub := Some sc\<rparr>))"

definition parse_once ::
  "('d, 'w) cl_env \<Rightarrow> bool \<Rightarrow> bool \<Rightarrow> string list \<Rightarrow> string \<Rightarrow> nat \<Rightarrow> ('d, 'w) cl_state \<Rightarrow>
     (cl_end + bool + nat \<times> string list) \<times> ('d, 'w) cl_state" where
  "parse_once E given ignore argv overview first st =
     (case ExpandResponseFiles (response_of E)
         (if on_windows E then TokenizeWindowsCommandLine else TokenizeGNUCommandLine) False False (map Some argv) (settings_of st) of
        (Inl e, w) \<Rightarrow> (Inl (Throws e), st\<lparr>settings_of := w\<rparr>)
      | (Inr (_, expanded), w) \<Rightarrow>
          parse_arguments E given ignore (map the expanded) overview first (st\<lparr>settings_of := w\<rparr>))"

text \<open>
  The name of a subcommand among the arguments starts the parse again behind it. The stream is
  then always given, so that errors are ignored; what went wrong before is forgotten. The
  fuel bounds the number of such names.
\<close>

fun parse_from ::
  "nat \<Rightarrow> ('d, 'w) cl_env \<Rightarrow> bool \<Rightarrow> bool \<Rightarrow> string list \<Rightarrow> string \<Rightarrow> nat \<Rightarrow> ('d, 'w) cl_state \<Rightarrow> (cl_end + bool) \<times> ('d, 'w) cl_state" where
  "parse_from 0 E given ignore argv overview first st = (Inl (Throws Diverges), st)"
| "parse_from (Suc n) E given ignore argv overview first st =
     (case parse_once E given ignore argv overview first st of
        (Inl e, st) \<Rightarrow> (Inl e, st)
      | (Inr (Inl b), st) \<Rightarrow> (Inr b, st)
      | (Inr (Inr (i, argv)), st) \<Rightarrow> parse_from n E given True argv overview i st)"

definition ParseCommandLineOptions ::
  "nat \<Rightarrow> ('d, 'w) cl_env \<Rightarrow> bool \<Rightarrow> string list \<Rightarrow> string \<Rightarrow> ('d, 'w) cl_state \<Rightarrow> (cl_end + bool) \<times> ('d, 'w) cl_state" where
  "ParseCommandLineOptions n E given argv overview st =
     (case parse_from n E given given argv overview 1 st of
        (Inl e, st) \<Rightarrow> (Inl e, st)
      | (Inr b, st) \<Rightarrow> (Inr b, st\<lparr>ignore_duplicates := True\<rparr>))"

text \<open>\<open>ParseEnvironmentOptions\<close>: the arguments are those of an environment variable.\<close>

definition ParseEnvironmentOptions ::
  "nat \<Rightarrow> ('d, 'w) cl_env \<Rightarrow> string \<Rightarrow> string option \<Rightarrow> string \<Rightarrow> ('d, 'w) cl_state \<Rightarrow> (cl_end + unit) \<times> ('d, 'w) cl_state" where
  "ParseEnvironmentOptions n E prog value overview st =
     (case value of
        None \<Rightarrow> (Inr (), st)
      | Some s \<Rightarrow> cl_bind (ParseCommandLineOptions n E False (prog # map the (TokenizeGNUCommandLine False s)) overview)
          (\<lambda>_. cl_return ()) st)"

section \<open>What a parse changes\<close>

lemma give_value_same: "give_value E i x st = (r, st') \<Longrightarrow> same_options st st'"
  by (auto simp: give_value_def cl_bind_def cl_return_def split: prod.splits sum.splits dest: provide_positional_same)

lemma keeps_provide: "keeps_options (add_occurrence E i pos name a multi)" "keeps_options (provide_positional E i a pos)"
  "keeps_options (give_value E i x)" "keeps_options (give_counted E i x failed)"
  by (simp_all add: give_value_def give_counted_def keeps_bind_options keeps_occurrences)

lemma unknown_argument_same: "unknown_argument E P argv i d L st = (r, st') \<Longrightarrow> same_options st st'"
  using keeps_optionsD [OF keeps_each_options [OF keeps_bind_options [OF keeps_provide(1) keeps_simple(1)]]]
  by (auto simp: unknown_argument_def Let_def split: if_splits prod.splits sum.splits)

lemma handle_named_same: "handle_named E P argv i h name v L st = (r, st') \<Longrightarrow> same_options st st'"
  by (auto simp: handle_named_def Let_def split: if_splits prod.splits sum.splits dest: provide_option_same)

lemma to_active_same: "to_active E o' argv i L st = (r, st') \<Longrightarrow> same_options st st'"
  by (auto simp: to_active_def split: prod.splits sum.splits dest: provide_positional_same)

lemma dash_step_same:
  assumes "dash_step E P argv i L st = (r, st')"
  shows "same_options st st'"
proof -
  let ?m = "options_map (subcommands st (chosen_sub P))" and ?a = "strip_dashes (argv ! i)"
  show ?thesis
  proof (cases "lookup_option ?m ?a")
    case (Some x)
    then show ?thesis
      using assms by (cases x) (auto simp: dash_step_def Let_def dest: handle_named_same)
  next
    case None
    obtain x st1 where p: "prefixed_or_grouped E ?m ?a st = (x, st1)" by fastforce
    note same = prefixed_or_grouped_same [OF p]
    show ?thesis
    proof (cases x)
      case (Inl e)
      then show ?thesis using assms None p same by (simp add: dash_step_def Let_def)
    next
      case (Inr y)
      obtain h rest v failed where "y = (h, rest, v, failed)" by (cases y)
      then show ?thesis
        using assms None p Inr same_trans [OF same]
        by (cases h) (auto simp: dash_step_def Let_def dest: handle_named_same unknown_argument_same)
    qed
  qed
qed

lemma loop_step_same:
  assumes "loop_step E P argv i L st = (r, st')"
  shows "same_options st st'"
proof -
  have "same_options st st'" if "positional_step E P argv i L st = (r, st')"
    using that by (auto simp: positional_step_def Let_def split: option.splits if_splits
        dest: to_active_same unknown_argument_same)
  moreover have "same_options st st'" if "eating_step E P o' argv i L st = (r, st')" for o'
    using that by (auto simp: eating_step_def split: option.splits prod.splits if_splits
        dest: to_active_same handle_named_same)
  ultimately show ?thesis
    using assms by (auto simp: loop_step_def split: if_splits option.splits dest: dash_step_same)
qed

lemma parse_loop_same: "parse_loop E P argv i L st = (r, st') \<Longrightarrow> same_options st st'"
proof (induction E P argv i L st rule: parse_loop.induct)
  case (1 E P argv i L st)
  obtain x st1 where s: "loop_step E P argv i L st = (x, st1)" by fastforce
  show ?case
  proof (cases "i < length argv")
    case True
    show ?thesis
    proof (cases x)
      case (Inl e)
      then show ?thesis
        using "1.prems" s True loop_step_same [OF s] by (auto simp: parse_loop.simps [of E P argv i])
    next
      case (Inr n)
      show ?thesis
      proof (cases n)
        case (Continue L' j)
        have "parse_loop E P argv (Suc j) L' st1 = (r, st')"
          using "1.prems" s Inr Continue True by (simp add: parse_loop.simps [of E P argv i])
        moreover have "\<not> length argv \<le> i" using True by simp
        ultimately have "same_options st1 st'" using "1.IH" [OF _ s [symmetric] Inr Continue] by blast
        then show ?thesis using loop_step_same [OF s] same_trans by blast
      qed (use "1.prems" s Inr True loop_step_same [OF s] in \<open>auto simp: parse_loop.simps [of E P argv i]\<close>)
    qed
  qed (use "1.prems" in \<open>simp add: parse_loop.simps [of E P argv i]\<close>)
qed

lemma check_positionals_from:
  "check_positionals given ignore consume n is acc st = (acc', st') \<Longrightarrow> same_options st0 st \<Longrightarrow> same_options st0 st'"
proof (induction "is" arbitrary: acc st consume ignore given)
  case (Cons i "is")
  obtain req unbounded failed where acc: "acc = (req, unbounded, failed)" by (cases acc)
  show ?case
    using Cons.prems by (auto simp: acc Let_def split: if_splits dest!: Cons.IH)
qed simp

lemmas check_positionals_same = check_positionals_from [OF _ same_refl]

lemma give_more_keeps: "keeps_options (give_more E i keep xs)"
proof (induction xs)
  case (Cons x xs)
  have m: "keeps_options (cl_bind (give_value E i x) (\<lambda>_. give_more E i keep xs))"
    "keeps_options (cl_bind (give_value E i x) (\<lambda>_. cl_return xs))"
    by (intro keeps_bind_options keeps_provide keeps_simple Cons.IH)+
  show ?case
    by (rule keeps_optionsI)
      (auto split: if_splits num_occurrences.splits dest: keeps_optionsD [OF m(1)] keeps_optionsD [OF m(2)])
qed (simp add: keeps_options_def)

lemma give_positionals_keeps: "keeps_options (give_positionals E is req xs)"
proof (induction "is" arbitrary: req xs)
  case (Cons i "is")
  have more: "keeps_options (cl_bind (give_more E i k ys) (\<lambda>ys. give_positionals E is l ys))" for k l ys
    by (intro keeps_bind_options give_more_keeps Cons.IH)
  have "keeps_options (\<lambda>st. if occ_flag (opts st ! i) = Occ_required then give_positionals E is (req - 1) ys st
      else cl_bind (give_more E i (req - 1) ys) (\<lambda>ys. give_positionals E is (req - 1) ys) st)" for ys
    using Cons.IH more unfolding keeps_options_def by simp
  from keeps_bind_options [OF keeps_provide(3) this] more show ?case
    unfolding keeps_options_def by (auto split: list.splits)
qed (simp add: keeps_options_def)

lemma give_required_keeps: "keeps_options (give_required E is xs failed)"
proof (induction "is" arbitrary: xs failed)
  case (Cons i "is")
  have "keeps_options (cl_bind (give_counted E i x failed) (\<lambda>failed. give_required E is ys failed))" for x ys
    by (intro keeps_bind_options keeps_provide Cons.IH)
  with Cons.IH show ?case
    unfolding keeps_options_def by (auto split: list.splits)
qed (simp add: keeps_options_def)

lemma give_rest_keeps: "keeps_options (give_rest E c xs failed)"
proof (induction xs arbitrary: failed)
  case (Cons x xs)
  have "keeps_options (cl_bind (give_counted E c x failed) (\<lambda>failed. give_rest E c xs failed))"
    by (intro keeps_bind_options keeps_provide Cons.IH)
  then show ?case unfolding keeps_options_def by simp
qed (simp add: keeps_options_def)

lemma give_consume_after_keeps: "keeps_options (give_consume_after E is c xs)"
proof -
  have "keeps_options (give_consume_after E is c xs) = keeps_options
     (cl_bind (if is = [] then cl_end_with (Throws Undefined) else give_required E (tl is) xs False) (\<lambda>(failed, ys).
       case (is, ys) of
         ([i], y # ys) \<Rightarrow> cl_bind (give_counted E i y failed) (\<lambda>failed. give_rest E c ys failed)
       | _ \<Rightarrow> give_rest E c ys failed))"
    by (simp add: keeps_options_def give_consume_after_def)
  also have "\<dots>"
    by (intro keeps_bind_options)
      (auto split: list.splits intro!: keeps_bind_options give_required_keeps give_rest_keeps keeps_provide)
  finally show ?thesis by simp
qed

lemma assign_positionals_same:
  assumes "assign_positionals E P unlimited argv L st = (r, st')"
  shows "same_options st st'"
proof -
  have 1: "keeps_options (cl_bind (give_positionals E is n vs) (\<lambda>_. cl_return b))" for "is" n vs b
    by (intro keeps_bind_options give_positionals_keeps keeps_simple)
  have 2: "keeps_options (cl_bind (give_consume_after E is c vs) (\<lambda>b'. cl_return (b \<or> b')))" for "is" c vs b
    by (intro keeps_bind_options give_consume_after_keeps keeps_simple)
  show ?thesis
    using assms by (auto simp: assign_positionals_def Let_def split: if_splits option.splits
        dest: keeps_optionsD [OF 1] keeps_optionsD [OF 2])
qed

lemma fold_errors_same: "same_options st (fold (\<lambda>i. option_error i None m) is st') \<longleftrightarrow> same_options st st'"
  by (induction "is" arbitrary: st') simp_all

lemma finish_parse_same: "finish_parse E P ignore unlimited argv L st = (r, st') \<Longrightarrow> same_options st st'"
  by (auto simp: finish_parse_def Let_def fold_errors_same split: prod.splits sum.splits if_splits
      dest!: assign_positionals_same)

lemma parse_sub_same:
  assumes "parse_sub E given ignore argv sc first st = (r, st')"
  shows "same_options st st'"
proof -
  let ?s = "subcommands st sc"
  let ?c = "consume_after_opt ?s \<noteq> None"
  obtain req unbounded failed st1 where c: "check_positionals given ignore ?c (length (positional_opts ?s))
      (positional_opts ?s) (0, False, False) st = ((req, unbounded, failed), st1)" by (metis prod.collapse)
  let ?P = "\<lparr>stream_given = given, chosen_sub = sc, required_count = req\<rparr>"
  obtain x st2 where l: "parse_loop E ?P argv first
      \<lparr>positional_vals = [], active_positional = None, dash_dash = False, error_parsing = failed\<rparr> st1 = (x, st2)" by fastforce
  have 2: "same_options st st2" using check_positionals_same [OF c] parse_loop_same [OF l] same_trans by blast
  show ?thesis
  proof (cases x)
    case (Inl e)
    then show ?thesis using assms c l 2 by (auto simp: parse_sub_def Let_def)
  next
    case (Inr y)
    then show ?thesis
      using assms c l 2 same_trans [OF 2]
      by (cases y) (auto simp: parse_sub_def Let_def split: prod.splits sum.splits dest: finish_parse_same)
  qed
qed

lemma parse_once_same:
  assumes "parse_once E given ignore argv overview first st = (r, st')"
  shows "same_options st st'"
proof -
  have arguments: "same_options st st'" if "parse_arguments E given ignore argv overview first st = (r, st')" for argv st
    using that parse_sub_same by (fastforce simp: parse_arguments_def Let_def same_options_def split: if_splits)
  show ?thesis
    using assms by (auto simp: parse_once_def same_options_def split: prod.splits sum.splits
        dest!: arguments [unfolded same_options_def])
qed

lemma parse_from_same: "parse_from n E given ignore argv overview first st = (r, st') \<Longrightarrow> same_options st st'"
proof (induction n arbitrary: ignore argv first st)
  case (Suc n)
  obtain x st1 where x: "parse_once E given ignore argv overview first st = (x, st1)" by fastforce
  show ?case
    using Suc.prems x Suc.IH [of True _ _ st1] same_trans [OF parse_once_same [OF x]] parse_once_same [OF x]
    by (auto split: sum.splits prod.splits)
qed simp

section \<open>Required positional options\<close>

text \<open>The options of a list that must have a value and take one have an occurrence.\<close>

definition filled :: "nat list \<Rightarrow> ('d, 'w) cl_state \<Rightarrow> bool" where
  "filled is st \<longleftrightarrow> (\<forall>i\<in>set is. requires_value (opts st ! i) \<and> takes_value (opts st ! i) \<longrightarrow> num_occ (opts st ! i) \<noteq> 0)"

definition in_range :: "nat list \<Rightarrow> ('d, 'w) cl_state \<Rightarrow> bool" where
  "in_range is st \<longleftrightarrow> (\<forall>i\<in>set is. i < length (opts st))"

lemma requires_value_same:
  "same_options st st' \<Longrightarrow> i < length (opts st) \<Longrightarrow> requires_value (opts st' ! i) = requires_value (opts st ! i)"
  by (simp add: requires_value_def same_flags(1))

lemma in_range_same: "same_options st st' \<Longrightarrow> in_range is st' = in_range is st"
  by (simp add: in_range_def same_flags(2))

lemma filled_same: "same_options st st' \<Longrightarrow> in_range is st \<Longrightarrow> filled is st \<Longrightarrow> filled is st'"
  by (auto simp: filled_def in_range_def requires_value_same same_takes_value dest: same_counts)

lemma filled_Nil [simp]: "filled [] st" "in_range [] st"
  by (simp_all add: filled_def in_range_def)

lemma filled_ConsI: "filled [i] st \<Longrightarrow> filled is st \<Longrightarrow> filled (i # is) st"
  by (auto simp: filled_def)

lemma in_range_Cons: "in_range (i # is) st \<longleftrightarrow> i < length (opts st) \<and> in_range is st"
  by (auto simp: in_range_def)

lemma provide_positional_filled: "provide_positional E i a pos st = (Inr b, st') \<Longrightarrow> i < length (opts st) \<Longrightarrow> filled [i] st'"
  using provide_positional_counted [of E i a pos st b st'] provide_positional_same [of E i a pos st "Inr b" st']
  by (auto simp: filled_def same_takes_value)

lemma give_value_filled: "give_value E i x st = (Inr u, st') \<Longrightarrow> i < length (opts st) \<Longrightarrow> filled [i] st'"
  by (auto simp: give_value_def cl_bind_def cl_return_def split: prod.splits sum.splits dest: provide_positional_filled)

lemma give_counted_filled: "give_counted E i x failed st = (Inr u, st') \<Longrightarrow> i < length (opts st) \<Longrightarrow> filled [i] st'"
  by (auto simp: give_counted_def cl_bind_def cl_return_def split: prod.splits sum.splits dest: provide_positional_filled)

lemma cl_bind_Inr:
  "cl_bind m f st = (Inr y, st') \<Longrightarrow> \<exists>x st1. m st = (Inr x, st1) \<and> f x st1 = (Inr y, st')"
  by (auto simp: cl_bind_def split: prod.splits sum.splits)

lemma give_positionals_filled:
  "give_positionals E is req xs st = (Inr u, st') \<Longrightarrow> in_range is st \<Longrightarrow> filled is st'"
proof (induction "is" arbitrary: req xs st)
  case (Cons i "is")
  note range = Cons.prems(2) [unfolded in_range_Cons]
  have rest: "filled is st'" if "cl_bind (give_more E i k ys) (\<lambda>zs. give_positionals E is l zs) st1 = (Inr u, st')"
    "in_range is st1" for k l ys st1
    using cl_bind_Inr [OF that(1)] that(2) Cons.IH in_range_same keeps_optionsD [OF give_more_keeps] by blast
  show ?case
  proof (cases "requires_value (opts st ! i)")
    case True
    then obtain x ys st1 where g: "give_value E i x st = (Inr (), st1)"
      and r: "(if occ_flag (opts st1 ! i) = Occ_required then give_positionals E is (req - 1) ys st1
        else cl_bind (give_more E i (req - 1) ys) (\<lambda>zs. give_positionals E is (req - 1) zs) st1) = (Inr u, st')"
      using Cons.prems(1) by (auto split: list.splits dest!: cl_bind_Inr)
    note same = give_value_same [OF g]
    have "in_range is st1" using range in_range_same [OF same] by simp
    then have "filled is st'" using r Cons.IH rest by (auto split: if_splits)
    moreover have "same_options st1 st'"
      using r keeps_optionsD [OF give_positionals_keeps] keeps_optionsD [OF keeps_bind_options [OF give_more_keeps give_positionals_keeps]]
      by (auto split: if_splits)
    from filled_same [OF this _ give_value_filled [OF g]] have "filled [i] st'"
      using range same_flags(2) [OF same] by (simp add: in_range_def)
    ultimately show ?thesis by (rule filled_ConsI [rotated])
  next
    case False
    then have "filled is st'" using Cons.prems(1) rest range by auto
    moreover have "same_options st st'" using Cons.prems(1) keeps_optionsD [OF give_positionals_keeps] by blast
    then have "filled [i] st'" using False range by (simp add: filled_def requires_value_same)
    ultimately show ?thesis by (rule filled_ConsI [rotated])
  qed
qed simp

lemma give_required_filled:
  "give_required E is xs failed st = (Inr u, st') \<Longrightarrow> in_range is st \<Longrightarrow> filled is st'"
proof (induction "is" arbitrary: xs failed st)
  case (Cons i "is")
  note range = Cons.prems(2) [unfolded in_range_Cons]
  have all: "same_options st st'" using Cons.prems(1) keeps_optionsD [OF give_required_keeps] by blast
  show ?case
  proof (cases "requires_value (opts st ! i)")
    case True
    then obtain x ys b st1 where g: "give_counted E i x failed st = (Inr b, st1)"
      and r: "give_required E is ys b st1 = (Inr u, st')"
      using Cons.prems(1) by (auto split: list.splits dest!: cl_bind_Inr)
    have same: "same_options st st1" using g keeps_optionsD [OF keeps_provide(4)] by blast
    have "filled is st'" using r Cons.IH range in_range_same [OF same] by blast
    moreover have "same_options st1 st'" using r keeps_optionsD [OF give_required_keeps] by blast
    from filled_same [OF this _ give_counted_filled [OF g]] have "filled [i] st'"
      using range same_flags(2) [OF same] by (simp add: in_range_def)
    ultimately show ?thesis by (rule filled_ConsI [rotated])
  next
    case False
    then have "filled is st'" using Cons range by auto
    moreover have "filled [i] st'" using False range all by (simp add: filled_def requires_value_same)
    ultimately show ?thesis by (rule filled_ConsI [rotated])
  qed
qed simp

text \<open>With an option behind them, the first of several gets nothing; a single one gets the first value, if there is one.\<close>

lemma give_consume_after_filled:
  assumes "give_consume_after E is c xs st = (Inr u, st')" "in_range is st" "length is = 1 \<longrightarrow> xs \<noteq> []"
  shows "filled (if length is = 1 then is else tl is) st'"
proof -
  obtain i is' where i: "is = i # is'"
    using assms(1) by (cases "is") (auto simp: give_consume_after_def cl_bind_def cl_end_with_def)
  obtain failed ys st1 where g: "give_required E is' xs False st = (Inr (failed, ys), st1)"
    and r: "(case (is, ys) of ([i], y # ys) \<Rightarrow> cl_bind (give_counted E i y failed) (\<lambda>failed. give_rest E c ys failed)
       | _ \<Rightarrow> give_rest E c ys failed) st1 = (Inr u, st')"
    using assms(1) i by (auto simp: give_consume_after_def dest!: cl_bind_Inr)
  have same: "same_options st st1" using g keeps_optionsD [OF give_required_keeps] by blast
  show ?thesis
  proof (cases is')
    case Nil
    then have "ys = xs" "xs \<noteq> []" using g assms(3) i by auto
    then obtain y zs where "ys = y # zs" by (cases ys) auto
    then obtain b st2 where b: "give_counted E i y failed st1 = (Inr b, st2)" "give_rest E c zs b st2 = (Inr u, st')"
      using r i Nil by (auto dest!: cl_bind_Inr)
    have 2: "same_options st1 st2" using b(1) keeps_optionsD [OF keeps_provide(4)] by blast
    have l: "i < length (opts st1)" "i < length (opts st2)"
      using assms(2) i same_flags(2) [OF same] same_flags(2) [OF 2] by (simp_all add: in_range_def)
    have "filled [i] st'"
      by (rule filled_same [OF keeps_optionsD [OF give_rest_keeps b(2)] _ give_counted_filled [OF b(1) l(1)]])
        (simp add: in_range_def l)
    then show ?thesis using Nil i by simp
  next
    case (Cons j js)
    have "filled is' st1" "in_range is' st1"
      using give_required_filled [OF g] assms(2) i in_range_same [OF same] by (simp_all add: in_range_Cons)
    moreover have "same_options st1 st'" using r i Cons keeps_optionsD [OF give_rest_keeps] by (auto split: list.splits)
    ultimately show ?thesis using filled_same i Cons by auto
  qed
qed

lemma check_positionals_required:
  "check_positionals given ignore consume n is acc st = (acc', st') \<Longrightarrow>
     opts st' = opts st \<and> fst acc' = fst acc + length (filter (\<lambda>i. requires_value (opts st ! i)) is)"
proof (induction "is" arbitrary: given ignore consume acc st)
  case (Cons i "is")
  obtain req unbounded failed where acc: "acc = (req, unbounded, failed)" by (cases acc)
  have [simp]: "opts (quiet_error ig j m s) = opts s" "opts (write_given g t s) = opts s" for ig j m g t and s :: "('a, 'b) cl_state"
    by (simp_all add: quiet_error_def write_given_def write_error_def)
  show ?case
    using Cons.prems by (auto simp: acc Let_def split: if_splits dest!: Cons.IH)
qed simp

text \<open>The positional options that have a value after a parse without an error.\<close>

definition served :: "subcommand \<Rightarrow> nat list" where
  "served s = (if consume_after_opt s \<noteq> None \<and> length (positional_opts s) \<noteq> 1 then tl (positional_opts s) else positional_opts s)"

lemma assign_positionals_filled:
  assumes "assign_positionals E P unlimited argv L st = (Inr False, st')"
    "in_range (positional_opts (subcommands st (chosen_sub P))) st"
    "required_count P = length (filter (\<lambda>i. requires_value (opts st ! i)) (positional_opts (subcommands st (chosen_sub P))))"
  shows "filled (served (subcommands st (chosen_sub P))) st'"
proof -
  let ?s = "subcommands st (chosen_sub P)"
  have n: "required_count P \<le> length (positional_vals L)"
    using assms(1) by (auto simp: assign_positionals_def Let_def split: if_splits)
  show ?thesis
  proof (cases "consume_after_opt ?s")
    case None
    then obtain u where "give_positionals E (positional_opts ?s) (required_count P) (positional_vals L) st = (Inr u, st')"
      using assms(1) by (auto simp: assign_positionals_def Let_def cl_return_def split: if_splits dest!: cl_bind_Inr)
    from give_positionals_filled [OF this assms(2)] None show ?thesis by (simp add: served_def)
  next
    case (Some c)
    then obtain b where g: "give_consume_after E (positional_opts ?s) c (positional_vals L) st = (Inr b, st')"
      using assms(1) by (auto simp: assign_positionals_def Let_def cl_return_def split: if_splits dest!: cl_bind_Inr)
    show ?thesis
    proof (cases "length (positional_opts ?s) = 1 \<and> positional_vals L = []")
      case False
      then show ?thesis using give_consume_after_filled [OF g assms(2)] Some by (auto simp: served_def split: if_splits)
    next
      case True
      then obtain i where i: "positional_opts ?s = [i]" by (cases "positional_opts ?s") auto
      have "\<not> requires_value (opts st ! i)" using n assms(3) True i by (auto split: if_splits)
      moreover have "same_options st st'" using assms(1) assign_positionals_same by blast
      ultimately show ?thesis
        using assms(2) i Some by (simp add: served_def filled_def in_range_def requires_value_same)
    qed
  qed
qed

section \<open>A small program\<close>

text \<open>
  Options for examples: a number, a required file, a list of names; a subcommand \<open>build\<close>. Numbers are
  those of one digit.
\<close>

definition small_env :: "(nat, unit) cl_env" where
  "small_env = \<lparr>response_of = self_including, on_windows = False,
     as_integer = \<lambda>t a. if length a = 1 \<and> is_digit (hd a) then Some (int (digit_value (hd a))) else None,
     to_float = \<lambda>_. None, to_single = id, bounded_distance = \<lambda>a b m. if a = b then 0 else 1,
     path_filename = id\<rparr>"

definition small_program :: "(nat, unit) cl_state" where
  "small_program =
     (let st = new_parser [new_option (Scalar_opt (Parser_int Int_32)) ''n'' Occ_optional Fmt_normal,
            (new_option (Scalar_opt Parser_string) ''out'' Occ_required Fmt_normal)\<lparr>in_subs := [2]\<rparr>] ();
          st = on_sub 2 (\<lambda>_. new_subcommand ''build'' []) st
      in snd (cl_each registration_step [Register_sub 2, Add_option 0, Add_option 1] st))"

definition copy_program :: "(nat, unit) cl_state" where
  "copy_program = snd (cl_each registration_step [Add_option 0, Add_option 1]
     (new_parser [new_option (List_opt Parser_string) [] Occ_one_or_more Fmt_positional,
        new_option (Scalar_opt Parser_string) [] Occ_required Fmt_positional] ()))"

lemma parse_sub_finished:
  assumes "parse_sub E given ignore argv sc first st = (Inr (Inl b), st')"
  shows "\<exists>P unlimited L st1. finish_parse E P ignore unlimited argv L st1 = (Inr b, st') \<and> chosen_sub P = sc
    \<and> same_options st st1
    \<and> required_count P = length (filter (\<lambda>i. requires_value (opts st ! i)) (positional_opts (subcommands st sc)))"
proof -
  let ?s = "subcommands st sc"
  let ?c = "consume_after_opt ?s \<noteq> None"
  obtain req unbounded failed st0 where c: "check_positionals given ignore ?c (length (positional_opts ?s))
      (positional_opts ?s) (0, False, False) st = ((req, unbounded, failed), st0)" by (metis prod.collapse)
  let ?P = "\<lparr>stream_given = given, chosen_sub = sc, required_count = req\<rparr>"
  obtain L st1 where l: "parse_loop E ?P argv first
      \<lparr>positional_vals = [], active_positional = None, dash_dash = False, error_parsing = failed\<rparr> st0 = (Inr (Finish L), st1)"
    and f: "finish_parse E ?P ignore (positional_opts ?s \<noteq> [] \<and> (unbounded \<or> ?c)) argv L st1 = (Inr b, st')"
    using assms c by (auto simp: parse_sub_def Let_def split: prod.splits sum.splits loop_next.splits)
  have "same_options st st1" using check_positionals_same [OF c] parse_loop_same [OF l] same_trans by blast
  then show ?thesis using f check_positionals_required [OF c] by (intro exI [of _ ?P] exI conjI) auto
qed

lemma filter_requires_same:
  "same_options st st1 \<Longrightarrow> \<forall>i\<in>set is. i < length (opts st) \<Longrightarrow>
     filter (\<lambda>i. requires_value (opts st1 ! i)) is = filter (\<lambda>i. requires_value (opts st ! i)) is"
  by (auto intro!: filter_cong simp: requires_value_same)

lemma served_nth:
  "filled (served s) st \<Longrightarrow> j < length (positional_opts s) \<Longrightarrow>
    \<not> (j = 0 \<and> length (positional_opts s) > 1 \<and> consume_after_opt s \<noteq> None) \<Longrightarrow>
    requires_value (opts st ! (positional_opts s ! j)) \<Longrightarrow> takes_value (opts st ! (positional_opts s ! j)) \<Longrightarrow>
    num_occ (opts st ! (positional_opts s ! j)) \<noteq> 0"
proof -
  assume a: "filled (served s) st" "j < length (positional_opts s)"
    "\<not> (j = 0 \<and> length (positional_opts s) > 1 \<and> consume_after_opt s \<noteq> None)"
    "requires_value (opts st ! (positional_opts s ! j))" "takes_value (opts st ! (positional_opts s ! j))"
  have "positional_opts s ! j \<in> set (served s)"
    using a(2,3) by (cases "positional_opts s"; cases j) (auto simp: served_def)
  then show "num_occ (opts st ! (positional_opts s ! j)) \<noteq> 0" using a(1,4,5) by (auto simp: filled_def)
qed

section \<open>Restarts end\<close>

lemma positional_step_nested:
  "positional_step E P argv i L st = (Inr (Nested_sub j), st') \<Longrightarrow> j = i \<and> st' = st \<and> lookup_sub st (argv ! i) \<noteq> top_level_sub"
  by (auto simp: positional_step_def Let_def to_active_def unknown_argument_def
      split: if_splits option.splits prod.splits sum.splits)

lemma loop_step_nested:
  assumes "loop_step E P argv i L st = (Inr (Nested_sub j), st')"
  shows "j = i \<and> st' = st \<and> lookup_sub st (argv ! i) \<noteq> top_level_sub"
proof -
  have named: "handle_named E P argv i h name v L st \<noteq> (Inr (Nested_sub j), st')" for h name v L st
    by (auto simp: handle_named_def Let_def split: if_splits prod.splits sum.splits)
  have unknown: "unknown_argument E P argv i d L st \<noteq> (Inr (Nested_sub j), st')" for d L st
    by (auto simp: unknown_argument_def Let_def split: if_splits prod.splits sum.splits)
  have active: "to_active E o' argv i L st \<noteq> (Inr (Nested_sub j), st')" for o'
    by (auto simp: to_active_def split: prod.splits sum.splits)
  show ?thesis
    using assms positional_step_nested [of E P argv i L st j st']
    by (auto simp: loop_step_def dash_step_def eating_step_def named unknown active Let_def
        split: if_splits option.splits prod.splits sum.splits)
qed

lemma parse_loop_nested:
  "parse_loop E P argv i L st = (Inr (Nested_sub j), st') \<Longrightarrow> i \<le> j \<and> j < length argv \<and> lookup_sub st' (argv ! j) \<noteq> top_level_sub"
proof (induction E P argv i L st rule: parse_loop.induct)
  case (1 E P argv i L st)
  obtain x st1 where s: "loop_step E P argv i L st = (x, st1)" by fastforce
  have i: "\<not> length argv \<le> i" using "1.prems" by (auto simp: parse_loop.simps [of E P argv i] split: if_splits)
  obtain n where x: "x = Inr n"
    using "1.prems" s i by (cases x) (auto simp: parse_loop.simps [of E P argv i])
  show ?case
  proof (cases n)
    case (Continue L' k)
    have "parse_loop E P argv (Suc k) L' st1 = (Inr (Nested_sub j), st')"
      using "1.prems" s x Continue i by (simp add: parse_loop.simps [of E P argv i])
    with "1.IH" [OF i s [symmetric] x Continue] loop_step_index [of E P argv i L st L' k st1] s x Continue
    show ?thesis by simp
  next
    case (Nested_sub k)
    then have "k = j" "st' = st1" using "1.prems" s x i by (auto simp: parse_loop.simps [of E P argv i])
    with loop_step_nested [of E P argv i L st k st1] s x Nested_sub i show ?thesis by simp
  qed (use "1.prems" s x i in \<open>simp add: parse_loop.simps [of E P argv i]\<close>)
qed

lemma lookup_sub_same: "same_options st st' \<Longrightarrow> lookup_sub st' n = lookup_sub st n"
  by (simp add: same_options_def lookup_sub_def)

lemma parse_sub_nested:
  assumes "parse_sub E given ignore argv sc first st = (Inr (Inr (i, argv')), st')"
  shows "argv' = argv \<and> first \<le> i \<and> i < length argv \<and> lookup_sub st (argv ! i) \<noteq> top_level_sub"
proof -
  obtain P L st1 where "parse_loop E P argv first L st1 = (Inr (Nested_sub i), st')" and "argv' = argv"
    using assms by (fastforce simp: parse_sub_def Let_def split: prod.splits sum.splits loop_next.splits)
  with parse_loop_nested lookup_sub_same [OF parse_sub_same [OF assms]] show ?thesis by metis
qed

text \<open>Arguments without response files are not changed; names of subcommands do not begin with a dash.\<close>

definition no_response_files :: "string list \<Rightarrow> bool" where
  "no_response_files argv \<longleftrightarrow> list_all (\<lambda>a. \<not> response_argument (Some a)) argv"

definition subs_without_dash :: "('d, 'w) cl_state \<Rightarrow> bool" where
  "subs_without_dash st \<longleftrightarrow> list_all (\<lambda>s. \<not> starts_dash (sub_name (subcommands st s))) (registered_subs st)"

lemma parse_once_plain:
  assumes "no_response_files argv"
  shows "parse_once E given ignore argv overview first st = parse_arguments E given ignore argv overview first st"
proof -
  have "list_all (\<lambda>a. \<not> response_argument a) (map Some argv)"
    using assms by (simp add: no_response_files_def list_all_iff)
  from expand_plain [OF this, of "response_of E" _ False False 0 True "[]" "[]" "settings_of st"]
  show ?thesis by (simp add: parse_once_def ExpandResponseFiles_def expand_loop.simps comp_def)
qed

lemma lookup_sub_dash: "subs_without_dash st \<Longrightarrow> starts_dash n \<Longrightarrow> lookup_sub st n = top_level_sub"
  by (auto simp: subs_without_dash_def list_all_iff lookup_sub_def find_Some_iff split: option.splits)

lemma parse_once_nested:
  assumes "parse_once E given ignore argv overview first st = (Inr (Inr (i, argv')), st')" "no_response_files argv"
    "subs_without_dash st" "0 < first"
  shows "argv' = argv \<and> first \<le> i \<and> i < length argv \<and> lookup_sub st' (argv ! i) \<noteq> top_level_sub
    \<and> (lookup_sub st (argv ! first) \<noteq> top_level_sub \<longrightarrow> first < i) \<and> subs_without_dash st'"
proof -
  let ?st = "st\<lparr>program_name := path_filename E (argv ! 0), program_overview := overview\<rparr>"
  define sc where "sc = (if length argv \<ge> 2 \<and> \<not> starts_dash (argv ! first) then lookup_sub ?st (argv ! first) else top_level_sub)"
  have p: "parse_sub E given ignore argv sc (if sc \<noteq> top_level_sub then Suc first else first) (?st\<lparr>active_sub := Some sc\<rparr>) =
      (Inr (Inr (i, argv')), st')"
    using assms(1) by (auto simp: parse_once_plain [OF assms(2)] parse_arguments_def Let_def sc_def split: if_splits)
  have same: "same_options st st'" by (rule parse_once_same [OF assms(1)])
  have l: "lookup_sub ?st n = lookup_sub st n" "lookup_sub (?st\<lparr>active_sub := Some sc\<rparr>) n = lookup_sub st n" for n
    by (simp_all add: lookup_sub_def)
  have i: "argv' = argv" "(if sc \<noteq> top_level_sub then Suc first else first) \<le> i" "i < length argv"
    "lookup_sub st (argv ! i) \<noteq> top_level_sub"
    using parse_sub_nested [OF p] by (simp_all add: l)
  have "first < i" if "lookup_sub st (argv ! first) \<noteq> top_level_sub"
  proof -
    have "\<not> starts_dash (argv ! first)" using lookup_sub_dash [OF assms(3)] that by blast
    moreover have "2 \<le> length argv" using i(2,3) assms(4) by (simp split: if_splits)
    ultimately have "sc \<noteq> top_level_sub" using that by (simp add: sc_def l)
    then show ?thesis using i(2) by simp
  qed
  moreover have "subs_without_dash st'" using same assms(3) by (simp add: subs_without_dash_def same_options_def)
  ultimately show ?thesis using i lookup_sub_same [OF same] by (auto split: if_splits)
qed

lemma parse_from_fuel:
  assumes "no_response_files argv" "subs_without_dash st" "0 < first"
    "length argv - first < n" "length argv - first < m"
    "lookup_sub st (argv ! first) \<noteq> top_level_sub"
  shows "parse_from n E given ignore argv overview first st = parse_from m E given ignore argv overview first st"
  using assms(2-)
proof (induction n arbitrary: m ignore first st)
  case (Suc n)
  obtain m' where m: "m = Suc m'" using Suc.prems(4) by (cases m) auto
  obtain x st1 where x: "parse_once E given ignore argv overview first st = (x, st1)" by fastforce
  show ?case
  proof (cases "\<exists>i argv'. x = Inr (Inr (i, argv'))")
    case True
    then obtain i argv' where xi: "x = Inr (Inr (i, argv'))" by blast
    from parse_once_nested [OF x [unfolded xi] assms(1) Suc.prems(1,2)] Suc.prems
    have i: "argv' = argv" "first < i" "i < length argv" "lookup_sub st1 (argv ! i) \<noteq> top_level_sub" "subs_without_dash st1"
      by auto
    have "parse_from n E given True argv overview i st1 = parse_from m' E given True argv overview i st1"
      using i Suc.prems m by (intro Suc.IH) auto
    then show ?thesis using x xi i m by simp
  next
    case False
    then show ?thesis using x m by (auto split: sum.splits prod.splits)
  qed
qed simp

section \<open>The distribution of positional arguments\<close>

text \<open>
  How many values every positional option gets: from their flags, the number of options that
  require a value, and the number of values.
\<close>

fun value_counts :: "num_occurrences list \<Rightarrow> nat \<Rightarrow> nat \<Rightarrow> nat list" where
  "value_counts [] req n = []"
| "value_counts (f # fs) req n =
     (if f = Occ_required then 1 # value_counts fs (req - 1) (n - 1)
      else if f = Occ_one_or_more then (n - (req - 1)) # value_counts fs (req - 1) (req - 1)
      else if f = Occ_zero_or_more then (n - req) # value_counts fs req req
      else if n > req then 1 # value_counts fs req (n - 1)
      else 0 # value_counts fs req n)"

definition required_flags :: "num_occurrences list \<Rightarrow> nat" where
  "required_flags fs = length (filter (\<lambda>f. f = Occ_required \<or> f = Occ_one_or_more) fs)"

lemma required_flags_simps [simp]:
  "required_flags [] = 0"
  "required_flags (f # fs) = (if f = Occ_required \<or> f = Occ_one_or_more then Suc (required_flags fs) else required_flags fs)"
  "required_flags fs \<le> length fs"
  by (simp_all add: required_flags_def)

lemma value_counts_bounds:
  "req = required_flags fs \<Longrightarrow> req \<le> n \<Longrightarrow> length (value_counts fs req n) = length fs
    \<and> list_all2 (\<lambda>f k. (f = Occ_required \<longrightarrow> k = 1) \<and> (f = Occ_one_or_more \<longrightarrow> 1 \<le> k) \<and> (f = Occ_optional \<longrightarrow> k \<le> 1))
        fs (value_counts fs req n)"
  by (induction fs req n rule: value_counts.induct) auto

lemma value_counts_sum:
  "req = required_flags fs \<Longrightarrow> req \<le> n \<Longrightarrow> n \<le> length fs \<or> Occ_zero_or_more \<in> set fs \<or> Occ_one_or_more \<in> set fs \<Longrightarrow>
    sum_list (value_counts fs req n) = n"
proof (induction fs req n rule: value_counts.induct)
  case (2 f fs req n)
  have le: "required_flags fs \<le> length fs" by simp
  have "sum_list (value_counts (f # fs) req n) = n" if f: "f = Occ_optional \<or> f = Occ_consume_after"
  proof (cases "n > req")
    case True
    with 2 f have "required_flags fs \<le> n - Suc 0"
      "n - Suc 0 \<le> length fs \<or> Occ_zero_or_more \<in> set fs \<or> Occ_one_or_more \<in> set fs" by auto
    with 2 f True show ?thesis by auto
  qed (use 2 f le in auto)
  moreover have "sum_list (value_counts (f # fs) req n) = n" if f: "f = Occ_required"
  proof -
    from 2 f have "required_flags fs \<le> n - Suc 0"
      "n - Suc 0 \<le> length fs \<or> Occ_zero_or_more \<in> set fs \<or> Occ_one_or_more \<in> set fs" by auto
    with 2 f show ?thesis by auto
  qed
  ultimately show ?case using 2 le by (cases f) auto
qed simp

lemma cl_bind_cong_state:
  "(\<And>x st1. m st = (Inr x, st1) \<Longrightarrow> f x st1 = g x st1) \<Longrightarrow> cl_bind m f st = cl_bind m g st"
  by (auto simp: cl_bind_def split: prod.splits sum.splits)

lemma cl_bind_assoc: "cl_bind (cl_bind m f) g = cl_bind m (\<lambda>x. cl_bind (f x) g)"
  by (auto simp: cl_bind_def split: prod.splits sum.splits)

lemma cl_bind_return [simp]: "cl_bind (cl_return x) f = f x" "cl_bind m (\<lambda>x. cl_return x) = m"
  by (auto simp: cl_bind_def cl_return_def split: prod.splits sum.splits)

lemma cl_each_append: "cl_each f (xs @ ys) = cl_bind (cl_each f xs) (\<lambda>_. cl_each f ys)"
  by (induction xs) (simp_all add: cl_bind_assoc)

definition give_pair :: "('d, 'w) cl_env \<Rightarrow> nat \<times> string \<times> nat \<Rightarrow> ('d, 'w) cl_state \<Rightarrow> (cl_end + unit) \<times> ('d, 'w) cl_state" where
  "give_pair E x = give_value E (fst x) (snd x)"

lemma give_pair_apply [simp]: "give_pair E (i, x) = give_value E i x"
  by (simp add: give_pair_def)

lemma give_more_all:
  assumes "same_options st0 st" "i < length (opts st0)" "keep \<le> length xs"
    "occ_flag (opts st0 ! i) = Occ_zero_or_more \<or> occ_flag (opts st0 ! i) = Occ_one_or_more"
  shows "give_more E i keep xs st =
    cl_bind (cl_each (give_pair E) (zip (replicate (length xs - keep) i) xs)) (\<lambda>_. cl_return (drop (length xs - keep) xs)) st"
  using assms
proof (induction xs arbitrary: st)
  case Nil
  then show ?case by (simp add: cl_return_def cl_bind_def)
next
  case (Cons x xs)
  have flag: "occ_flag (opts st ! i) = occ_flag (opts st0 ! i)" using same_flags Cons.prems by blast
  show ?case
  proof (cases "keep = Suc (length xs)")
    case True
    then show ?thesis by (simp add: cl_return_def cl_bind_def)
  next
    case False
    then have keep: "keep \<le> length xs" using Cons.prems by simp
    have "give_more E i keep (x # xs) st = cl_bind (give_value E i x) (\<lambda>_. give_more E i keep xs) st"
      using flag Cons.prems(4) keep by auto
    also have "\<dots> = cl_bind (give_value E i x) (\<lambda>_.
        cl_bind (cl_each (give_pair E) (zip (replicate (length xs - keep) i) xs)) (\<lambda>_. cl_return (drop (length xs - keep) xs))) st"
    proof (rule cl_bind_cong_state)
      fix u st1
      assume "give_value E i x st = (Inr u, st1)"
      then have "same_options st0 st1" using give_value_same same_trans Cons.prems(1) by blast
      then show "give_more E i keep xs st1 = cl_bind (cl_each (give_pair E) (zip (replicate (length xs - keep) i) xs))
          (\<lambda>_. cl_return (drop (length xs - keep) xs)) st1"
        using Cons.prems(2,4) keep by (intro Cons.IH)
    qed
    finally show ?thesis using keep by (simp add: Suc_diff_le cl_bind_assoc)
  qed
qed

lemma give_pairs_same: "cl_each (give_pair E) xs st = (r, st') \<Longrightarrow> same_options st st'"
  by (rule keeps_optionsD [OF keeps_each_options]) (auto simp: give_pair_def keeps_provide)

definition value_plan :: "num_occurrences list \<Rightarrow> nat list \<Rightarrow> nat \<Rightarrow> 'v list \<Rightarrow> (nat \<times> 'v) list" where
  "value_plan fs is req xs = zip (concat (map2 replicate (value_counts fs req (length xs)) is)) xs"

lemma give_more_then:
  assumes "same_options st0 st" "i < length (opts st0)" "keep \<le> length ys"
    "occ_flag (opts st0 ! i) = Occ_zero_or_more \<or> occ_flag (opts st0 ! i) = Occ_one_or_more"
    and rest: "\<And>zs st. same_options st0 st \<Longrightarrow> length zs = keep \<Longrightarrow>
      give_positionals E is keep zs st = cl_each (give_pair E) (zip R zs) st"
  shows "cl_bind (give_more E i keep ys) (\<lambda>zs. give_positionals E is keep zs) st =
    cl_each (give_pair E) (zip (replicate (length ys - keep) i @ R) ys) st"
proof -
  let ?k = "length ys - keep"
  have "cl_bind (give_more E i keep ys) (\<lambda>zs. give_positionals E is keep zs) st =
      cl_bind (cl_bind (cl_each (give_pair E) (zip (replicate ?k i) ys)) (\<lambda>_. cl_return (drop ?k ys))) (\<lambda>zs. give_positionals E is keep zs) st"
    unfolding cl_bind_def [of _ "\<lambda>zs. give_positionals E is keep zs"] give_more_all [OF assms(1-4)] ..
  also have "\<dots> = cl_bind (cl_each (give_pair E) (zip (replicate ?k i) ys)) (\<lambda>_. give_positionals E is keep (drop ?k ys)) st"
    by (simp add: cl_bind_assoc)
  also have "\<dots> = cl_bind (cl_each (give_pair E) (zip (replicate ?k i) ys)) (\<lambda>_. cl_each (give_pair E) (zip R (drop ?k ys))) st"
    using assms(1,3) by (intro cl_bind_cong_state rest) (auto dest: give_pairs_same intro: same_trans)
  also have "\<dots> = cl_each (give_pair E) (zip (replicate ?k i) (take ?k ys) @ zip R (drop ?k ys)) st"
  proof -
    have "zip (replicate ?k i) ys = zip (replicate ?k i) (take ?k ys)" by (rule nth_equalityI) auto
    then show ?thesis by (simp add: cl_each_append)
  qed
  also have "zip (replicate ?k i) (take ?k ys) @ zip R (drop ?k ys) = zip (replicate ?k i @ R) ys"
    by (simp add: zip_append1)
  finally show ?thesis .
qed

lemma give_positionals_plan:
  assumes "same_options st0 st" "\<forall>i\<in>set is. i < length (opts st0) \<and> occ_flag (opts st0 ! i) \<noteq> Occ_consume_after"
    "req = required_flags (map (\<lambda>i. occ_flag (opts st0 ! i)) is)" "req \<le> length xs"
  shows "give_positionals E is req xs st =
    cl_each (give_pair E) (value_plan (map (\<lambda>i. occ_flag (opts st0 ! i)) is) is req xs) st"
  using assms
proof (induction "is" arbitrary: req xs st)
  case Nil
  then show ?case by (simp add: value_plan_def cl_return_def)
next
  case (Cons i "is")
  let ?F = "\<lambda>i. occ_flag (opts st0 ! i)"
  let ?R = "\<lambda>req n. concat (map2 replicate (value_counts (map ?F is) req n) is)"
  have i: "i < length (opts st0)" "?F i \<noteq> Occ_consume_after" using Cons.prems(2) by auto
  have flag: "occ_flag (opts st1 ! i) = ?F i" if "same_options st0 st1" for st1 using same_flags(1) [OF that i(1)] .
  have rest: "give_positionals E is k zs st1 = cl_each (give_pair E) (zip (?R k (length zs)) zs) st1"
    if "same_options st0 st1" "k = required_flags (map ?F is)" "k \<le> length zs" for k zs st1
    using Cons.IH [OF that(1) _ that(2,3)] Cons.prems(2) by (simp add: value_plan_def)
  have given: "same_options st0 st1" if "give_value E i x st = (r, st1)" for x r st1
    using give_value_same [OF that] same_trans Cons.prems(1) by blast
  show ?case
  proof (cases "?F i")
    case Occ_required
    then obtain x ys where xs: "xs = x # ys" using Cons.prems(3,4) by (cases xs) auto
    have k: "req - 1 = required_flags (map ?F is)" "req - 1 \<le> length ys"
      using Cons.prems(3,4) Occ_required by (auto simp: xs)
    have "give_positionals E (i # is) req xs st = cl_bind (give_value E i x) (\<lambda>_ st.
        if occ_flag (opts st ! i) = Occ_required then give_positionals E is (req - 1) ys st
        else cl_bind (give_more E i (req - 1) ys) (\<lambda>zs. give_positionals E is (req - 1) zs) st) st"
      using flag [OF Cons.prems(1)] Occ_required by (simp add: requires_value_def xs)
    also have "\<dots> = cl_bind (give_value E i x) (\<lambda>_. cl_each (give_pair E) (zip (?R (req - 1) (length ys)) ys)) st"
    proof (rule cl_bind_cong_state)
      fix u st1
      assume "give_value E i x st = (Inr u, st1)"
      then have s: "same_options st0 st1" by (rule given)
      show "(if occ_flag (opts st1 ! i) = Occ_required then give_positionals E is (req - 1) ys st1
          else cl_bind (give_more E i (req - 1) ys) (\<lambda>zs. give_positionals E is (req - 1) zs) st1) =
          cl_each (give_pair E) (zip (?R (req - 1) (length ys)) ys) st1"
        unfolding flag [OF s] Occ_required using rest [OF s k] by simp
    qed
    finally have "give_positionals E (i # is) req xs st =
        cl_bind (give_value E i x) (\<lambda>_. cl_each (give_pair E) (zip (?R (req - 1) (length ys)) ys)) st" .
    then show ?thesis using Occ_required by (simp add: value_plan_def xs)
  next
    case Occ_one_or_more
    then obtain x ys where xs: "xs = x # ys" using Cons.prems(3,4) by (cases xs) auto
    have k: "req - 1 = required_flags (map ?F is)" "req - 1 \<le> length ys" "0 < req"
      using Cons.prems(3,4) Occ_one_or_more by (auto simp: xs)
    have "give_positionals E (i # is) req xs st = cl_bind (give_value E i x) (\<lambda>_ st.
        if occ_flag (opts st ! i) = Occ_required then give_positionals E is (req - 1) ys st
        else cl_bind (give_more E i (req - 1) ys) (\<lambda>zs. give_positionals E is (req - 1) zs) st) st"
      using flag [OF Cons.prems(1)] Occ_one_or_more by (simp add: requires_value_def xs)
    also have "\<dots> = cl_bind (give_value E i x)
        (\<lambda>_. cl_each (give_pair E) (zip (replicate (length ys - (req - 1)) i @ ?R (req - 1) (req - 1)) ys)) st"
    proof (rule cl_bind_cong_state)
      fix u st1
      assume "give_value E i x st = (Inr u, st1)"
      then have s: "same_options st0 st1" by (rule given)
      have "cl_bind (give_more E i (req - 1) ys) (\<lambda>zs. give_positionals E is (req - 1) zs) st1 =
          cl_each (give_pair E) (zip (replicate (length ys - (req - 1)) i @ ?R (req - 1) (req - 1)) ys) st1"
        by (rule give_more_then [OF s i(1) k(2)]) (use Occ_one_or_more rest [OF _ k(1)] in auto)
      then show "(if occ_flag (opts st1 ! i) = Occ_required then give_positionals E is (req - 1) ys st1
          else cl_bind (give_more E i (req - 1) ys) (\<lambda>zs. give_positionals E is (req - 1) zs) st1) =
          cl_each (give_pair E) (zip (replicate (length ys - (req - 1)) i @ ?R (req - 1) (req - 1)) ys) st1"
        unfolding flag [OF s] Occ_one_or_more by simp
    qed
    finally have "give_positionals E (i # is) req xs st = cl_bind (give_value E i x)
        (\<lambda>_. cl_each (give_pair E) (zip (replicate (length ys - (req - 1)) i @ ?R (req - 1) (req - 1)) ys)) st" .
    then show ?thesis using Occ_one_or_more k(2,3)
      by (cases req) (simp_all add: value_plan_def xs Suc_diff_le del: give_positionals.simps)
  next
    case Occ_zero_or_more
    have k: "req = required_flags (map ?F is)" using Cons.prems(3) Occ_zero_or_more by simp
    have "give_positionals E (i # is) req xs st = cl_each (give_pair E) (zip (replicate (length xs - req) i @ ?R req req) xs) st"
    proof -
      have "cl_bind (give_more E i req xs) (\<lambda>zs. give_positionals E is req zs) st =
          cl_each (give_pair E) (zip (replicate (length xs - req) i @ ?R req req) xs) st"
        by (rule give_more_then [OF Cons.prems(1) i(1) Cons.prems(4)]) (use Occ_zero_or_more rest [OF _ k] in auto)
      then show ?thesis using flag [OF Cons.prems(1)] Occ_zero_or_more by (simp add: requires_value_def)
    qed
    then show ?thesis using Occ_zero_or_more by (simp add: value_plan_def)
  next
    case Occ_optional
    have k: "req = required_flags (map ?F is)" using Cons.prems(3) Occ_optional by simp
    show ?thesis
    proof (cases "length xs > req")
      case True
      then obtain x ys where xs: "xs = x # ys" by (cases xs) auto
      have "give_positionals E (i # is) req xs st = cl_bind (give_value E i x) (\<lambda>_. cl_each (give_pair E) (zip (?R req (length ys)) ys)) st"
      proof -
        have "give_positionals E (i # is) req xs st = cl_bind (give_value E i x) (\<lambda>_. give_positionals E is req ys) st"
          using flag [OF Cons.prems(1)] Occ_optional True
          by (simp add: requires_value_def xs) (simp add: cl_bind_def cl_return_def split: prod.splits sum.splits)
        also have "\<dots> = cl_bind (give_value E i x) (\<lambda>_. cl_each (give_pair E) (zip (?R req (length ys)) ys)) st"
          using True by (intro cl_bind_cong_state rest [OF given k]) (auto simp: xs)
        finally show ?thesis .
      qed
      then show ?thesis using Occ_optional True by (simp add: value_plan_def xs)
    next
      case False
      then have "length xs = req" using Cons.prems(4) by simp
      moreover have "give_more E i req xs st = (Inr xs, st)" using False by (cases xs) auto
      ultimately show ?thesis
        using flag [OF Cons.prems(1)] Occ_optional rest [OF Cons.prems(1) k] False
        by (simp add: requires_value_def value_plan_def cl_bind_def)
    qed
  qed (use i(2) in simp)
qed

section \<open>Named values in the loop\<close>

lemma loop_step_value:
  assumes "text_option (opts st ! i)" "i < length (opts st)" "argv ! k = value_argument (opts st ! i) v"
    "map_of (options_map (subcommands st (chosen_sub P))) (arg_str (opts st ! i)) = Some i"
    "active_positional L = None" "\<not> dash_dash L"
  shows "loop_step E P argv k L st = (Inr (Continue L k), on_option i (with_value v k) st)"
proof -
  let ?n = "arg_str (opts st ! i)"
  obtain c n where n: "?n = c # n" "c \<noteq> CHR ''-''" using assms(1) by (cases ?n) (auto simp: text_option_def)
  have eq: "takeWhile (\<lambda>c. c \<noteq> CHR ''='') (?n @ CHR ''='' # v) = ?n"
    using assms(1) by (subst takeWhile_append2) (auto simp: text_option_def)
  have "strip_dashes (argv ! k) = ?n @ CHR ''='' # v" by (simp add: strip_dashes_def assms(3) value_argument_def n)
  moreover have "lookup_option (options_map (subcommands st (chosen_sub P))) (?n @ CHR ''='' # v) = Some (i, ?n, Some v)"
    by (simp add: lookup_option_def eq assms(4) Let_def)
  moreover have "\<not> positional_argument (argv ! k)" "argv ! k \<noteq> ''--''"
    by (simp_all add: assms(3) value_argument_def positional_argument_def starts_dash_def n)
  moreover have "\<not> is_positional (opts st ! i)" using assms(1) by (simp add: text_option_def is_positional_def)
  ultimately show ?thesis
    using assms(5,6) provide_text [OF assms(1,2), of E argv ?n v k]
    by (simp add: loop_step_def dash_step_def handle_named_def Let_def)
qed

lemma parse_loop_values:
  assumes "drop k argv = map (\<lambda>(i, v). value_argument (opts st ! i) v) nvs"
    "\<forall>(i, v)\<in>set nvs. text_option (opts st ! i) \<and> i < length (opts st)
       \<and> map_of (options_map (subcommands st (chosen_sub P))) (arg_str (opts st ! i)) = Some i"
    "distinct (map fst nvs)" "active_positional L = None" "\<not> dash_dash L"
  shows "\<exists>st'. parse_loop E P argv k L st = (Inr (Finish L), st')
    \<and> (\<forall>(i, v)\<in>set nvs. opt_value (opts st' ! i) = Some (String_value v))
    \<and> (\<forall>j. j \<notin> fst ` set nvs \<longrightarrow> opts st' ! j = opts st ! j)"
  using assms
proof (induction nvs arbitrary: k st)
  case Nil
  then show ?case by (simp add: parse_loop.simps [of E P argv k])
next
  case (Cons x nvs)
  obtain i v where x: "x = (i, v)" by (cases x)
  let ?st = "on_option i (with_value v k) st"
  have k: "k < length argv" using Cons.prems(1) by (cases "k < length argv") auto
  then have arg: "argv ! k = value_argument (opts st ! i) v" "drop (Suc k) argv = map (\<lambda>(i, v). value_argument (opts st ! i) v) nvs"
    using Cons.prems(1) by (simp_all add: x Cons_nth_drop_Suc [symmetric])
  have other: "opts ?st ! j = opts st ! j" if "j \<noteq> i" for j using that by (simp add: opts_on_option)
  have ne: "j \<noteq> i" if "(j, w) \<in> set nvs" for j w using Cons.prems(3) that by (force simp: x)
  have "drop (Suc k) argv = map (\<lambda>(i, v). value_argument (opts ?st ! i) v) nvs"
    unfolding arg(2) by (rule map_cong) (auto simp: other ne)
  moreover have "\<forall>(j, w)\<in>set nvs. text_option (opts ?st ! j) \<and> j < length (opts ?st)
      \<and> map_of (options_map (subcommands ?st (chosen_sub P))) (arg_str (opts ?st ! j)) = Some j"
  proof clarify
    fix j w
    assume m: "(j, w) \<in> set nvs"
    have "opts ?st ! j = opts st ! j" using other ne [OF m] by blast
    moreover have "length (opts ?st) = length (opts st)" "subcommands ?st = subcommands st" by (simp_all add: on_option_def)
    ultimately show "text_option (opts ?st ! j) \<and> j < length (opts ?st)
        \<and> map_of (options_map (subcommands ?st (chosen_sub P))) (arg_str (opts ?st ! j)) = Some j"
      using Cons.prems(2) m by auto
  qed
  moreover have "distinct (map fst nvs)" using Cons.prems(3) by simp
  ultimately obtain st' where st': "parse_loop E P argv (Suc k) L ?st = (Inr (Finish L), st')"
    "\<forall>(i, v)\<in>set nvs. opt_value (opts st' ! i) = Some (String_value v)"
    "\<forall>j. j \<notin> fst ` set nvs \<longrightarrow> opts st' ! j = opts ?st ! j"
    using Cons.IH Cons.prems(4,5) by blast
  have i: "text_option (opts st ! i)" "i < length (opts st)"
    "map_of (options_map (subcommands st (chosen_sub P))) (arg_str (opts st ! i)) = Some i"
    using Cons.prems(2) by (auto simp: x)
  have "parse_loop E P argv k L st = (Inr (Finish L), st')"
    using k loop_step_value [OF i(1,2) arg(1) i(3) Cons.prems(4,5)] st'(1) by (simp add: parse_loop.simps [of E P argv k])
  moreover have "opt_value (opts st' ! i) = Some (String_value v)"
    using st'(3) Cons.prems(3) i(2) by (simp add: x opts_on_option with_value_def)
  moreover have "\<forall>j. j \<notin> fst ` set (x # nvs) \<longrightarrow> opts st' ! j = opts st ! j"
    using st'(3) other by (auto simp: x)
  ultimately show ?case using st'(2) by (auto simp: x)
qed

section \<open>Properties\<close>

text \<open>
  A parse changes nothing but the occurrences of options: how an option is declared, the
  names and lists of the subcommands and the registered subcommands are as before, also when the
  parse ends the program or throws.
\<close>

theorem parse_keeps_options:
  assumes "ParseCommandLineOptions n E given argv overview st = (r, st')"
  shows "map set_up (opts st') = map set_up (opts st) \<and> subcommands st' = subcommands st
    \<and> registered_subs st' = registered_subs st"
proof -
  obtain x st1 where x: "parse_from n E given given argv overview 1 st = (x, st1)" by fastforce
  have "same_options st st1" by (rule parse_from_same [OF x])
  then show ?thesis
    using assms x by (cases x) (auto simp: ParseCommandLineOptions_def same_options_def)
qed

lemma parse_keeps_options_witness:
  "map set_up (opts (snd (ParseCommandLineOptions 3 small_env False [''prog'', ''build'', ''-out=a''] [] small_program)))
     = map set_up (opts small_program)"
proof -
  obtain r st' where "ParseCommandLineOptions 3 small_env False [''prog'', ''build'', ''-out=a''] [] small_program = (r, st')"
    by fastforce
  from parse_keeps_options [OF this] this show ?thesis by simp
qed



text \<open>
  Errors in front of the name of a subcommand are forgotten when the parse starts again, and
  behind it errors no longer end the program.
\<close>

lemma errors_before_subcommand:
  "fst (ParseCommandLineOptions 3 small_env False [''prog'', ''-x'', ''build'', ''-out=a''] [] small_program) = Inr True"
  "fst (ParseCommandLineOptions 3 small_env False [''prog'', ''-n=1'', ''build'', ''-x''] [] small_program) = Inr False"
  "fst (ParseCommandLineOptions 3 small_env False [''prog'', ''build'', ''-x''] [] small_program) = Inl (Exits 1)"
  by code_simp+

text \<open>
  Without response files a parse ends: it starts again at most once for every argument, so that
  fuel for as many restarts as there are arguments gives the same result as any larger fuel. No
  name of a subcommand may begin with a dash.
\<close>

theorem parse_restarts_end:
  assumes "no_response_files argv" "subs_without_dash st" "length argv < n"
  shows "ParseCommandLineOptions n E given argv overview st =
    ParseCommandLineOptions (Suc (length argv)) E given argv overview st"
proof -
  obtain n' where n: "n = Suc n'" using assms(3) by (cases n) auto
  obtain x st1 where x: "parse_once E given given argv overview 1 st = (x, st1)" by fastforce
  have "parse_from n E given given argv overview 1 st = parse_from (Suc (length argv)) E given given argv overview 1 st"
  proof (cases "\<exists>i argv'. x = Inr (Inr (i, argv'))")
    case True
    then obtain i argv' where xi: "x = Inr (Inr (i, argv'))" by blast
    from parse_once_nested [OF x [unfolded xi] assms(1,2)]
    have i: "argv' = argv" "1 \<le> i" "i < length argv" "lookup_sub st1 (argv ! i) \<noteq> top_level_sub" "subs_without_dash st1" by auto
    have "parse_from n' E given True argv overview i st1 = parse_from (length argv) E given True argv overview i st1"
      using i assms(3) n by (intro parse_from_fuel [OF assms(1)]) auto
    then show ?thesis using x xi i n by simp
  next
    case False
    then show ?thesis using x n by (auto split: sum.splits prod.splits)
  qed
  then show ?thesis by (simp add: ParseCommandLineOptions_def)
qed

lemma parse_restarts_end_witness:
  "fst (ParseCommandLineOptions 9 small_env False [''prog'', ''-n=1'', ''build'', ''-out=a''] [] small_program) = Inr True"
proof -
  have "no_response_files [''prog'', ''-n=1'', ''build'', ''-out=a'']" "subs_without_dash small_program"
    by (simp add: no_response_files_def response_argument_Some) code_simp
  from parse_restarts_end [OF this, of 9 small_env False "[]"]
  have "ParseCommandLineOptions 9 small_env False [''prog'', ''-n=1'', ''build'', ''-out=a''] [] small_program =
      ParseCommandLineOptions 5 small_env False [''prog'', ''-n=1'', ''build'', ''-out=a''] [] small_program" by (simp add: eval_nat_numeral)
  moreover have "fst (ParseCommandLineOptions 5 small_env False [''prog'', ''-n=1'', ''build'', ''-out=a''] [] small_program) = Inr True"
    by code_simp
  ultimately show ?thesis by simp
qed

text \<open>
  With an option behind the positional ones, the first of several required ones gets no value; a wrong value of
  a positional option is reported, but the parse returns true; a list of values separated
  by spaces that begins with an equals sign takes the whole argument.
\<close>

definition run_program :: "(nat, unit) cl_state" where
  "run_program = snd (cl_each registration_step [Add_option 0, Add_option 1, Add_option 2]
     (new_parser [new_option (Scalar_opt Parser_string) [] Occ_required Fmt_positional,
        new_option (Scalar_opt Parser_string) [] Occ_required Fmt_positional,
        new_option (List_opt Parser_string) [] Occ_consume_after Fmt_normal] ()))"

definition number_program :: "(nat, unit) cl_state" where
  "number_program = snd (cl_each registration_step [Add_option 0, Add_option 1]
     (new_parser [new_option (Scalar_opt (Parser_int Int_32)) [] Occ_required Fmt_positional,
        (new_option (List_opt Parser_string) ''f'' Occ_zero_or_more Fmt_normal)\<lparr>space_separated := True\<rparr>] ()))"

lemma first_required_skipped:
  "let r = ParseCommandLineOptions 1 small_env False [''prog'', ''x'', ''y'', ''z''] [] run_program in
   fst r = Inr True \<and> map num_occ (opts (snd r)) = [0, 1, 2] \<and> opt_values (opts (snd r) ! 2) = [String_value ''y'', String_value ''z'']"
  by code_simp

lemma positional_error_ignored:
  "let r = ParseCommandLineOptions 1 small_env False [''prog'', ''x''] [] number_program in
   fst r = Inr True \<and> errors_text (snd r) \<noteq> [] \<and> opt_value (opts (snd r) ! 0) = None"
  by code_simp

lemma space_separated_equals:
  "let r = ParseCommandLineOptions 1 small_env False [''prog'', ''1'', ''-f=a'', ''b''] [] number_program in
   opt_values (opts (snd r) ! 1) = [String_value ''-f=a'', String_value ''b'']"
  by code_simp

text \<open>
  C3: A command line of named values \<open>-name=value\<close> gives every named option its value and leaves
  the other options as they are, and the parse succeeds. The program has no positional
  options, no sinks and no required option, and each option is named at most once.
\<close>

theorem named_values:
  assumes "no_response_files (prog # map (\<lambda>(i, v). value_argument (opts st ! i) v) nvs)" "distinct (map fst nvs)"
    "\<forall>(i, v)\<in>set nvs. text_option (opts st ! i) \<and> i < length (opts st)
       \<and> map_of (options_map (subcommands st top_level_sub)) (arg_str (opts st ! i)) = Some i"
    "positional_opts (subcommands st top_level_sub) = []" "consume_after_opt (subcommands st top_level_sub) = None"
    "\<forall>(n, i)\<in>set (options_map (subcommands st top_level_sub)). i < length (opts st) \<and> \<not> requires_value (opts st ! i)"
  shows "\<exists>st'. ParseCommandLineOptions 1 E given (prog # map (\<lambda>(i, v). value_argument (opts st ! i) v) nvs) overview st = (Inr True, st')
    \<and> (\<forall>(i, v)\<in>set nvs. opt_value (opts st' ! i) = Some (String_value v))
    \<and> (\<forall>j. j \<notin> fst ` set nvs \<longrightarrow> opts st' ! j = opts st ! j)"
proof -
  let ?argv = "prog # map (\<lambda>(i, v). value_argument (opts st ! i) v) nvs"
  let ?st = "st\<lparr>program_name := path_filename E prog, program_overview := overview, active_sub := Some top_level_sub\<rparr>"
  let ?P = "\<lparr>stream_given = given, chosen_sub = top_level_sub, required_count = 0\<rparr>"
  let ?L = "\<lparr>positional_vals = [], active_positional = None, dash_dash = False, error_parsing = False\<rparr>"
  obtain st' where st': "parse_loop E ?P ?argv 1 ?L ?st = (Inr (Finish ?L), st')"
    "\<forall>(i, v)\<in>set nvs. opt_value (opts st' ! i) = Some (String_value v)"
    "\<forall>j. j \<notin> fst ` set nvs \<longrightarrow> opts st' ! j = opts st ! j"
    using parse_loop_values [of 1 ?argv ?st nvs ?P ?L E] assms(2,3) by (auto simp: case_prod_beta)
  have same: "same_options st st'" using parse_loop_same [OF st'(1)] by (simp add: same_options_def)
  have subs: "subcommands st' = subcommands st" using same by (simp add: same_options_def)
  have "missing_options st' top_level_sub = []"
    using assms(6) same_flags(1) [OF same] by (fastforce simp: missing_options_def filter_empty_conv subs requires_value_def)
  then have finish: "finish_parse E ?P given False ?argv ?L st' = (Inr True, st'\<lparr>more_help := []\<rparr>)"
    using assms(4,5) by (simp add: finish_parse_def assign_positionals_def subs Let_def cl_return_def cl_bind_def)
  have "starts_dash (value_argument (opts st ! i) v)" for i v by (simp add: value_argument_def starts_dash_def)
  then have "nvs \<noteq> [] \<longrightarrow> starts_dash (?argv ! 1)" by (cases nvs) (auto simp: case_prod_beta)
  then have "parse_once E given given ?argv overview 1 st = (Inr (Inl True), st'\<lparr>more_help := []\<rparr>)"
    using st'(1) finish assms(4,5)
    by (auto simp: parse_once_plain [OF assms(1)] parse_arguments_def parse_sub_def Let_def Suc_le_eq)
  then show ?thesis using st'(2,3) by (simp add: ParseCommandLineOptions_def)
qed

lemma named_values_witness:
  "opt_value (opts (snd (ParseCommandLineOptions 1 small_env False [''prog'', ''-o=a=b''] []
     (snd (addOption 0 (new_parser [new_option (Scalar_opt Parser_string) ''o'' Occ_optional Fmt_normal] ()))))) ! 0)
   = Some (String_value ''a=b'')"
proof -
  let ?st = "snd (addOption 0 (new_parser [new_option (Scalar_opt Parser_string) ''o'' Occ_optional Fmt_normal] ())) :: (nat, unit) cl_state"
  have s: "subcommands ?st top_level_sub = (new_subcommand [] [])\<lparr>options_map := [(''o'', 0)]\<rparr>"
    "opts ?st = [new_option (Scalar_opt Parser_string) ''o'' Occ_optional Fmt_normal]" by code_simp+
  then have o: "text_option (opts ?st ! 0)" "\<not> requires_value (opts ?st ! 0)" "arg_str (opts ?st ! 0) = ''o''"
    by (simp_all add: text_option_def requires_value_def new_option_def)
  have v: "value_argument (new_option (Scalar_opt Parser_string) ''o'' Occ_optional Fmt_normal) ''a=b'' = ''-o=a=b''"
    by (simp add: value_argument_def new_option_def)
  have "\<exists>st'. ParseCommandLineOptions 1 small_env False
      (''prog'' # map (\<lambda>(i, v). value_argument (opts ?st ! i) v) [(0, ''a=b'')]) [] ?st = (Inr True, st')
    \<and> (\<forall>(i, v)\<in>set [(0, ''a=b'')]. opt_value (opts st' ! i) = Some (String_value v))
    \<and> (\<forall>j. j \<notin> fst ` set [(0, ''a=b'')] \<longrightarrow> opts st' ! j = opts ?st ! j)"
    using o by (intro named_values)
      (auto simp: v no_response_files_def response_argument_Some s new_subcommand_def)
  then show ?thesis by (auto simp: v s(2))
qed

text \<open>
  With response files, or a subcommand named by a dash, this fails: a file that names a subcommand and itself makes the command line
  grow at every restart, and the dash is found again at the same place.
\<close>

lemma restarts_go_on:
  "fst (ParseCommandLineOptions 4 (small_env\<lparr>response_of := (response_of small_env)\<lparr>response_file := \<lambda>_. Some ''build @f''\<rparr>\<rparr>)
     False [''prog'', ''@f''] [] small_program) = Inl (Throws Diverges)"
  "fst (ParseCommandLineOptions 4 small_env False [''prog'', ''-''] []
     (on_sub 2 (\<lambda>s. s\<lparr>sub_name := ''-''\<rparr>) small_program)) = Inl (Throws Diverges)"
  by code_simp+

end
