(* ===== verification/Positionals.thy ===== *)
theory Positionals
  imports CommandLine
begin

text \<open>
  A whole command line of positional arguments: the values of the positional options behind the
  parse, for programs without a \<open>ConsumeAfter\<close> option whose positional options are texts.
\<close>

section \<open>Values of one option\<close>

text \<open>How a positional option for texts is set up, and what it was given.\<close>

definition text_positional :: "'d cl_option \<Rightarrow> bool" where
  "text_positional p \<longleftrightarrow>
     (opt_kind p = List_opt Parser_string \<and> occ_flag p \<noteq> Occ_consume_after
      \<or> opt_kind p = Scalar_opt Parser_string \<and> (occ_flag p = Occ_optional \<or> occ_flag p = Occ_required))
     \<and> value_flag p = None \<and> \<not> comma_separated p \<and> \<not> space_separated p \<and> additional_vals p = 0"

definition given_values :: "'d cl_option \<Rightarrow> 'd opt_value list" where
  "given_values p = (case opt_kind p of
     List_opt _ \<Rightarrow> opt_values p
   | _ \<Rightarrow> (case opt_value p of None \<Rightarrow> [] | Some v \<Rightarrow> [v]))"

definition repeatable :: "'d cl_option \<Rightarrow> bool" where
  "repeatable p \<longleftrightarrow> occ_flag p = Occ_zero_or_more \<or> occ_flag p = Occ_one_or_more"

definition with_text :: "string \<Rightarrow> nat \<Rightarrow> 'd cl_option \<Rightarrow> 'd cl_option" where
  "with_text a pos p = (case opt_kind p of
     List_opt _ \<Rightarrow> p\<lparr>num_occ := Suc (num_occ p), opt_values := opt_values p @ [String_value a], opt_position := pos,
       opt_positions := opt_positions p @ [pos]\<rparr>
   | _ \<Rightarrow> p\<lparr>num_occ := Suc (num_occ p), opt_value := Some (String_value a), opt_position := pos\<rparr>)"

lemma with_text_kept:
  assumes "text_positional p"
  shows "text_positional (with_text a pos p)" "repeatable (with_text a pos p) = repeatable p"
    "repeatable p \<Longrightarrow> given_values (with_text a pos p) = given_values p @ [String_value a]"
    "given_values p = [] \<Longrightarrow> given_values (with_text a pos p) = [String_value a]"
  using assms by (auto simp: text_positional_def with_text_def repeatable_def given_values_def split: option.splits)

lemma give_text:
  assumes "i < length (opts st)" "text_positional (opts st ! i)" "repeatable (opts st ! i) \<or> num_occ (opts st ! i) = 0"
  shows "give_value E i (a, pos) st = (Inr (), on_option i (with_text a pos) st)"
proof -
  let ?p = "opts st ! i" and ?st = "on_option i (num_occ_update Suc) st"
  have k: "(\<exists>r. opt_kind ?p = List_opt r) \<or> (\<exists>r. opt_kind ?p = Scalar_opt r)" "parser_of (opt_kind ?p) = Parser_string"
    using assms(2) by (auto simp: text_positional_def parser_of_def)
  have p: "opts ?st ! i = num_occ_update Suc ?p" using assms(1) by (simp add: on_option_def)
  have c: "count_ok (opts ?st ! i) = None"
    using assms(2,3) by (auto simp: p count_ok_def repeatable_def)
  have h: "handle_occurrence E i pos n a ?st = store_value i pos (String_value a) ?st" for n
    by (simp add: handle_occurrence_def p k(2) Let_def)
  have "store_value i pos (String_value a) ?st = (Inr False, on_option i (with_text a pos) st)"
    using k(1) assms(1) by (auto simp: store_value_def p on_option_twice with_text_def intro!: on_option_cong)
  then have "add_occurrence E i pos n a False st = (Inr False, on_option i (with_text a pos) st)" for n
    using k(1) c h by (auto simp: add_occurrence_def Let_def)
  then have "provide_option E [] i n (Some a) pos st = (Inr (False, pos), on_option i (with_text a pos) st)" for n
    using k assms(2) by (auto simp: provide_option_def text_positional_def default_value_flag_def provide_values_def
        separate_and_add_def Let_def)
  then show ?thesis by (simp add: give_value_def provide_positional_def cl_bind_def cl_return_def)
qed

lemma cl_bind_done: "m st = (Inr x, st1) \<Longrightarrow> cl_bind m f st = f x st1"
  by (simp add: cl_bind_def)

text \<open>Several values: any number for an option that may be repeated, at most one for another.\<close>

lemma give_texts:
  assumes "i < length (opts st)" "text_positional (opts st ! i)"
    "repeatable (opts st ! i) \<or> length xs \<le> 1 \<and> num_occ (opts st ! i) = 0 \<and> given_values (opts st ! i) = []"
  shows "\<exists>st'. cl_each (give_pair E) (map (Pair i) xs) st = (Inr (), st') \<and> length (opts st') = length (opts st)
    \<and> given_values (opts st' ! i) = given_values (opts st ! i) @ map (\<lambda>x. String_value (fst x)) xs
    \<and> (\<forall>j. j \<noteq> i \<longrightarrow> opts st' ! j = opts st ! j)"
  using assms
proof (induction xs arbitrary: st)
  case (Cons x xs)
  let ?st = "on_option i (with_text (fst x) (snd x)) st"
  have p: "opts ?st ! i = with_text (fst x) (snd x) (opts st ! i)" "length (opts ?st) = length (opts st)"
    "\<forall>j. j \<noteq> i \<longrightarrow> opts ?st ! j = opts st ! j"
    using Cons.prems(1) by (simp_all add: on_option_def)
  note kept = with_text_kept [OF Cons.prems(2), of "fst x" "snd x"]
  have g: "give_pair E (i, x) st = (Inr (), ?st)"
    using give_text [OF Cons.prems(1,2), of E "fst x" "snd x"] Cons.prems(3) by auto
  have v: "given_values (opts ?st ! i) = given_values (opts st ! i) @ [String_value (fst x)]"
    using kept(3,4) Cons.prems(3) by (auto simp: p)
  show ?case
  proof (cases xs)
    case Nil
    then show ?thesis using g v p by (simp add: cl_bind_done cl_return_def)
  next
    case xs: (Cons y ys)
    then have r: "repeatable (opts st ! i)" using Cons.prems(3) by auto
    from Cons.IH [of ?st] obtain st' where "cl_each (give_pair E) (map (Pair i) xs) ?st = (Inr (), st')"
      "length (opts st') = length (opts ?st)"
      "given_values (opts st' ! i) = given_values (opts ?st ! i) @ map (\<lambda>x. String_value (fst x)) xs"
      "\<forall>j. j \<noteq> i \<longrightarrow> opts st' ! j = opts ?st ! j"
      using Cons.prems(1) kept(1,2) r p(1,2) by auto
    then show ?thesis using g v p(2,3) by (intro exI [of _ st']) (simp add: cl_bind_done)
  qed
qed (simp add: cl_return_def)

section \<open>Values of all options\<close>

lemma zip_replicate_append:
  assumes "k \<le> length xs"
  shows "zip (replicate k i @ R) xs = map (Pair i) (take k xs) @ zip R (drop k xs)"
  using assms by (simp add: zip_append1 zip_replicate1)

lemma give_all_texts:
  assumes "distinct ps" "\<forall>i\<in>set ps. i < length (opts st) \<and> text_positional (opts st ! i)
      \<and> num_occ (opts st ! i) = 0 \<and> given_values (opts st ! i) = []"
    "list_all2 (\<lambda>i k. repeatable (opts st ! i) \<or> k \<le> 1) ps ks" "sum_list ks = length xs"
  shows "\<exists>st'. cl_each (give_pair E) (zip (concat (map2 replicate ks ps)) xs) st = (Inr (), st')
    \<and> (\<forall>j<length ps. given_values (opts st' ! (ps ! j)) =
        map (\<lambda>x. String_value (fst x)) (take (ks ! j) (drop (sum_list (take j ks)) xs)))
    \<and> (\<forall>i. i \<notin> set ps \<longrightarrow> opts st' ! i = opts st ! i)"
  using assms
proof (induction ps arbitrary: ks xs st)
  case Nil
  then show ?case by (simp add: cl_return_def)
next
  case (Cons i ps)
  obtain k ks' where ks: "ks = k # ks'" using Cons.prems(3) by (cases ks) auto
  have k: "repeatable (opts st ! i) \<or> k \<le> 1" "k \<le> length xs" "sum_list ks' = length (drop k xs)"
    using Cons.prems(3,4) by (auto simp: ks)
  have len: "length (take k xs) = k" using k(2) by simp
  obtain st1 where 1: "cl_each (give_pair E) (map (Pair i) (take k xs)) st = (Inr (), st1)" "length (opts st1) = length (opts st)"
    "given_values (opts st1 ! i) = map (\<lambda>x. String_value (fst x)) (take k xs)" "\<forall>j. j \<noteq> i \<longrightarrow> opts st1 ! j = opts st ! j"
    using give_texts [of i st "take k xs" E] Cons.prems(2) k(1) unfolding len by auto
  have "\<forall>j\<in>set ps. j < length (opts st1) \<and> text_positional (opts st1 ! j)
      \<and> num_occ (opts st1 ! j) = 0 \<and> given_values (opts st1 ! j) = []"
    "list_all2 (\<lambda>j k. repeatable (opts st1 ! j) \<or> k \<le> 1) ps ks'"
  proof -
    have other: "opts st1 ! j = opts st ! j" if "j \<in> set ps" for j
      using that Cons.prems(1) 1(4) by auto
    show "\<forall>j\<in>set ps. j < length (opts st1) \<and> text_positional (opts st1 ! j)
        \<and> num_occ (opts st1 ! j) = 0 \<and> given_values (opts st1 ! j) = []"
      using Cons.prems(2) 1(2) other by simp
    have "list_all2 (\<lambda>j k. repeatable (opts st ! j) \<or> k \<le> 1) ps ks'"
      using Cons.prems(3) by (simp add: ks)
    then show "list_all2 (\<lambda>j k. repeatable (opts st1 ! j) \<or> k \<le> 1) ps ks'"
      by (rule list.rel_mono_strong) (simp add: other)
  qed
  with Cons.IH [of st1 ks' "drop k xs"] Cons.prems(1) k(3) obtain st' where
    st': "cl_each (give_pair E) (zip (concat (map2 replicate ks' ps)) (drop k xs)) st1 = (Inr (), st')"
    "\<forall>j<length ps. given_values (opts st' ! (ps ! j)) =
        map (\<lambda>x. String_value (fst x)) (take (ks' ! j) (drop (sum_list (take j ks')) (drop k xs)))"
    "\<forall>j. j \<notin> set ps \<longrightarrow> opts st' ! j = opts st1 ! j"
    by auto
  have "cl_each (give_pair E) (zip (concat (map2 replicate ks (i # ps))) xs) st = (Inr (), st')"
    using 1(1) st'(1) by (simp add: ks zip_replicate_append [OF k(2)] cl_each_append cl_bind_done)
  moreover have "given_values (opts st' ! ((i # ps) ! j)) =
      map (\<lambda>x. String_value (fst x)) (take (ks ! j) (drop (sum_list (take j ks)) xs))" if "j < length (i # ps)" for j
    using that st'(2,3) 1(3) Cons.prems(1) by (cases j) (auto simp: ks ac_simps)
  moreover have "opts st' ! j = opts st ! j" if "j \<notin> set (i # ps)" for j
    using that st'(3) 1(4) by auto
  ultimately show ?case by blast
qed

section \<open>The parse\<close>

lemma parse_loop_positionals:
  assumes "\<forall>j. k \<le> j \<and> j < length argv \<longrightarrow> positional_argument (argv ! j)" "active_positional L = None"
    "positional_opts (subcommands st (chosen_sub P)) \<noteq> []" "consume_after_opt (subcommands st (chosen_sub P)) = None"
  shows "parse_loop E P argv k L st =
    (Inr (Finish (L\<lparr>positional_vals := positional_vals L @ map (\<lambda>j. (argv ! j, j)) [k..<length argv]\<rparr>)), st)"
  using assms(1,2)
proof (induction "length argv - k" arbitrary: k L)
  case 0
  then show ?case by (simp add: parse_loop.simps [of E P argv k])
next
  case (Suc n)
  then have k: "k < length argv" by simp
  let ?L = "L\<lparr>positional_vals := positional_vals L @ [(argv ! k, k)]\<rparr>"
  have "loop_step E P argv k L st = (Inr (Continue ?L k), st)"
    using Suc.prems k assms(3,4) by (simp add: loop_step_def positional_step_def Let_def)
  moreover have "parse_loop E P argv (Suc k) ?L st = (Inr (Finish (?L\<lparr>positional_vals := positional_vals ?L
      @ map (\<lambda>j. (argv ! j, j)) [Suc k..<length argv]\<rparr>)), st)"
    using Suc.hyps(2) Suc.prems by (intro Suc.hyps(1)) auto
  moreover have "[k..<length argv] = k # [Suc k..<length argv]" using k by (rule upt_conv_Cons)
  ultimately show ?case using k by (subst parse_loop.simps) simp
qed

lemma check_positionals_fine:
  assumes "sorted_wrt (\<lambda>i j. eats_unbounded (opts st ! i) \<longrightarrow> requires_value (opts st ! j) \<or> has_arg_str (opts st ! j)) ps"
    "unbounded \<longrightarrow> (\<forall>j\<in>set ps. requires_value (opts st ! j) \<or> has_arg_str (opts st ! j))"
  shows "check_positionals given ignore False n ps (req, unbounded, False) st =
    ((req + required_flags (map (\<lambda>i. occ_flag (opts st ! i)) ps), unbounded \<or> (\<exists>i\<in>set ps. eats_unbounded (opts st ! i)), False), st)"
  using assms
proof (induction ps arbitrary: req unbounded)
  case (Cons i ps)
  have "check_positionals given ignore False n (i # ps) (req, unbounded, False) st =
      check_positionals given ignore False n ps
        (if requires_value (opts st ! i) then Suc req else req, unbounded \<or> eats_unbounded (opts st ! i), False) st"
    using Cons.prems(2) by auto
  also have "\<dots> = (((if requires_value (opts st ! i) then Suc req else req) + required_flags (map (\<lambda>i. occ_flag (opts st ! i)) ps),
      (unbounded \<or> eats_unbounded (opts st ! i)) \<or> (\<exists>i\<in>set ps. eats_unbounded (opts st ! i)), False), st)"
    using Cons.prems by (subst Cons.IH) auto
  finally show ?case by (auto simp: requires_value_def)
qed simp

text \<open>The number of values of each option respects its flag.\<close>

definition allowed_count :: "num_occurrences \<Rightarrow> nat \<Rightarrow> bool" where
  "allowed_count f k \<longleftrightarrow> (f = Occ_required \<longrightarrow> k = 1) \<and> (f = Occ_one_or_more \<longrightarrow> 1 \<le> k) \<and> (f = Occ_optional \<longrightarrow> k \<le> 1)"

lemma allowed_count_repeatable:
  "text_positional p \<Longrightarrow> allowed_count (occ_flag p) k \<Longrightarrow> repeatable p \<or> k \<le> 1"
  by (cases "occ_flag p") (auto simp: allowed_count_def repeatable_def text_positional_def)

lemma give_positionals_values:
  assumes "distinct ps" "\<forall>i\<in>set ps. i < length (opts st) \<and> text_positional (opts st ! i)
      \<and> num_occ (opts st ! i) = 0 \<and> given_values (opts st ! i) = []"
    "fs = map (\<lambda>i. occ_flag (opts st ! i)) ps" "required_flags fs \<le> length xs"
    "length xs \<le> length ps \<or> Occ_zero_or_more \<in> set fs \<or> Occ_one_or_more \<in> set fs"
  shows "\<exists>ks st'. give_positionals E ps (required_flags fs) xs st = (Inr (), st')
    \<and> sum_list ks = length xs \<and> list_all2 allowed_count fs ks
    \<and> (\<forall>j<length ps. given_values (opts st' ! (ps ! j)) =
        map (\<lambda>x. String_value (fst x)) (take (ks ! j) (drop (sum_list (take j ks)) xs)))
    \<and> (\<forall>i. i \<notin> set ps \<longrightarrow> opts st' ! i = opts st ! i)"
proof -
  let ?ks = "value_counts fs (required_flags fs) (length xs)"
  have flags: "\<forall>i\<in>set ps. i < length (opts st) \<and> occ_flag (opts st ! i) \<noteq> Occ_consume_after"
    using assms(2) by (auto simp: text_positional_def)
  have counts: "list_all2 allowed_count fs ?ks"
    using value_counts_bounds [OF refl assms(4)] by (simp add: allowed_count_def [abs_def])
  then have "list_all2 (\<lambda>i k. allowed_count (occ_flag (opts st ! i)) k) ps ?ks"
    unfolding assms(3) list_all2_map1 .
  then have "list_all2 (\<lambda>i k. repeatable (opts st ! i) \<or> k \<le> 1) ps ?ks"
    by (rule list.rel_mono_strong) (use assms(2) allowed_count_repeatable in blast)
  moreover have sum: "sum_list ?ks = length xs" using value_counts_sum assms(3-5) by simp
  moreover have "give_positionals E ps (required_flags fs) xs st = cl_each (give_pair E) (zip (concat (map2 replicate ?ks ps)) xs) st"
    using give_positionals_plan [OF same_refl flags, of "required_flags fs" xs E] assms(3,4) by (simp add: value_plan_def)
  ultimately show ?thesis
    using give_all_texts [OF assms(1,2), of ?ks xs E] counts by metis
qed

lemma text_positional_takes: "text_positional p \<Longrightarrow> takes_value p"
  by (auto simp: text_positional_def takes_value_def default_value_flag_def parser_of_def)

lemma texts_of:
  "map fst xs = args \<Longrightarrow> map (\<lambda>x. String_value (fst x)) (take k (drop l xs)) = map String_value (take k (drop l args))"
  by (auto simp: take_map drop_map)

lemma filled_missing:
  assumes "filled ps st'" "\<forall>i\<in>set ps. takes_value (opts st' ! i)"
    "\<forall>(n, i)\<in>set (options_map (subcommands st' sc)). i \<in> set ps \<or> \<not> requires_value (opts st' ! i)"
  shows "missing_options st' sc = []"
  using assms by (fastforce simp: missing_options_def filter_empty_conv filled_def)

text \<open>
  C9: A command line of positional arguments only, none with a dash in front or the name of a response file and the
  first not the name of a subcommand, for a program without a \<open>ConsumeAfter\<close> option, whose
  positional options are texts that can all be matched, and which requires no other option. If
  there are as many arguments as options are required, and not more than there are options unless one of them
  may be repeated, the parse succeeds: the arguments go to the positional options in order, each to
  one of them, a required option gets exactly one, one that may be repeated but is required at
  least one, an optional one at most one, and no other option is changed.
\<close>

theorem positional_distribution:
  assumes "no_response_files (prog # args)" "\<forall>a\<in>set args. positional_argument a"
    "args \<noteq> [] \<longrightarrow> lookup_sub st (hd args) = top_level_sub"
    "ps = positional_opts (subcommands st top_level_sub)" "ps \<noteq> []" "distinct ps"
    "consume_after_opt (subcommands st top_level_sub) = None"
    "\<forall>i\<in>set ps. i < length (opts st) \<and> text_positional (opts st ! i) \<and> num_occ (opts st ! i) = 0 \<and> given_values (opts st ! i) = []"
    "sorted_wrt (\<lambda>i j. eats_unbounded (opts st ! i) \<longrightarrow> requires_value (opts st ! j) \<or> has_arg_str (opts st ! j)) ps"
    "\<forall>(n, i)\<in>set (options_map (subcommands st top_level_sub)). i < length (opts st) \<and> (i \<in> set ps \<or> \<not> requires_value (opts st ! i))"
    "fs = map (\<lambda>i. occ_flag (opts st ! i)) ps" "required_flags fs \<le> length args"
    "length args \<le> length ps \<or> Occ_zero_or_more \<in> set fs \<or> Occ_one_or_more \<in> set fs"
  shows "\<exists>ks st'. ParseCommandLineOptions 1 E given (prog # args) overview st = (Inr True, st')
    \<and> sum_list ks = length args \<and> list_all2 allowed_count fs ks
    \<and> (\<forall>j<length ps. given_values (opts st' ! (ps ! j)) =
        map String_value (take (ks ! j) (drop (sum_list (take j ks)) args)))
    \<and> (\<forall>i. i \<notin> set ps \<longrightarrow> opts st' ! i = opts st ! i)"
proof -
  let ?argv = "prog # args" and ?s = "subcommands st top_level_sub"
  let ?st = "st\<lparr>program_name := path_filename E prog, program_overview := overview, active_sub := Some top_level_sub\<rparr>"
  define xs where "xs = map (\<lambda>j. (?argv ! j, j)) [1..<length ?argv]"
  let ?P = "\<lparr>stream_given = given, chosen_sub = top_level_sub, required_count = required_flags fs\<rparr>"
  let ?L = "\<lparr>positional_vals = xs, active_positional = None, dash_dash = False, error_parsing = False\<rparr>"
  let ?u = "\<exists>i\<in>set ps. eats_unbounded (opts st ! i)"
  have xs: "map fst xs = args" "length xs = length args"
    unfolding xs_def by (rule nth_equalityI, auto simp del: upt_Suc)
  have check: "check_positionals given given False (length ps) ps (0, False, False) ?st = ((required_flags fs, ?u, False), ?st)"
    using check_positionals_fine [of ?st ps False given given "length ps" 0] assms(9,11) by simp
  have pos: "positional_argument (?argv ! j)" if "1 \<le> j \<and> j < length ?argv" for j
    using that assms(2) by (cases j) auto
  have loop: "parse_loop E ?P ?argv 1 (?L\<lparr>positional_vals := []\<rparr>) ?st = (Inr (Finish ?L), ?st)"
    using parse_loop_positionals [of 1 ?argv "?L\<lparr>positional_vals := []\<rparr>" ?st ?P E] pos assms(4,5,7) unfolding xs_def by (simp del: upt_Suc)
  obtain ks st1 where g: "give_positionals E ps (required_flags fs) xs ?st = (Inr (), st1)"
    "sum_list ks = length args" "list_all2 allowed_count fs ks"
    "\<forall>j<length ps. given_values (opts st1 ! (ps ! j)) =
        map (\<lambda>x. String_value (fst x)) (take (ks ! j) (drop (sum_list (take j ks)) xs))"
    "\<forall>i. i \<notin> set ps \<longrightarrow> opts st1 ! i = opts st ! i"
    using give_positionals_values [of ps ?st fs xs E] assms(6,8,11-13) xs(2) by auto
  have u: "?u \<longleftrightarrow> Occ_zero_or_more \<in> set fs \<or> Occ_one_or_more \<in> set fs"
    unfolding assms(11) set_map image_iff eats_unbounded_def by metis
  have assign: "assign_positionals E ?P (ps \<noteq> [] \<and> (?u \<or> False)) ?argv ?L ?st = (Inr False, st1)"
    using assms(4,5,7,12,13) u g(1) xs(2) by (auto simp: assign_positionals_def Let_def cl_bind_def cl_return_def)
  have same: "same_options ?st st1" using keeps_optionsD [OF give_positionals_keeps g(1)] .
  have range: "in_range ps ?st" using assms(8) by (simp add: in_range_def)
  have takes: "\<forall>i\<in>set ps. takes_value (opts st1 ! i)"
    using assms(8) same_takes_value [OF same] by (auto simp: text_positional_takes)
  have req: "requires_value (opts st1 ! i) = requires_value (opts st ! i)" if "i < length (opts st)" for i
    using requires_value_same [OF same] that by simp
  have "subcommands st1 = subcommands st" using same by (simp add: same_options_def)
  then have "missing_options st1 top_level_sub = []"
    using filled_missing [OF give_positionals_filled [OF g(1) range] takes, of top_level_sub] assms(10) req by fastforce
  with assign have "finish_parse E ?P given (ps \<noteq> [] \<and> (?u \<or> False)) ?argv ?L ?st = (Inr True, st1\<lparr>more_help := []\<rparr>)"
    by (simp add: finish_parse_def)
  then have "parse_sub E given given ?argv top_level_sub 1 ?st = (Inr (Inl True), st1\<lparr>more_help := []\<rparr>)"
    using check loop assms(4,7) by (simp add: parse_sub_def Let_def)
  moreover have "lookup_sub (st\<lparr>program_name := n, program_overview := v\<rparr>) a = lookup_sub st a" for n v a
    by (simp add: lookup_sub_def)
  ultimately have "parse_once E given given ?argv overview 1 st = (Inr (Inl True), st1\<lparr>more_help := []\<rparr>)"
    unfolding parse_once_plain [OF assms(1)] using assms(3) by (cases args) (auto simp: parse_arguments_def Let_def)
  then have "ParseCommandLineOptions 1 E given ?argv overview st = (Inr True, st1\<lparr>more_help := [], ignore_duplicates := True\<rparr>)"
    by (simp add: ParseCommandLineOptions_def)
  then show ?thesis using g(2-5)
    by (intro exI [of _ ks] exI [of _ "st1\<lparr>more_help := [], ignore_duplicates := True\<rparr>"]) (simp add: texts_of [OF xs(1)])
qed

lemma positional_distribution_witness:
  "\<exists>st' ks. ParseCommandLineOptions 1 small_env False [''prog'', ''a'', ''b'', ''c''] [] copy_program = (Inr True, st')
    \<and> sum_list ks = 3 \<and> list_all2 allowed_count [Occ_one_or_more, Occ_required] ks
    \<and> given_values (opts st' ! 0) = map String_value (take (ks ! 0) [''a'', ''b'', ''c''])"
proof -
  have s: "positional_opts (subcommands copy_program top_level_sub) = [0, 1]" "length (opts copy_program) = 2"
    "consume_after_opt (subcommands copy_program top_level_sub) = None"
    "occ_flag (opts copy_program ! 0) = Occ_one_or_more" "occ_flag (opts copy_program ! 1) = Occ_required"
    "text_positional (opts copy_program ! 0)" "text_positional (opts copy_program ! 1)"
    "num_occ (opts copy_program ! 0) = 0" "num_occ (opts copy_program ! 1) = 0"
    "given_values (opts copy_program ! 0) = []" "given_values (opts copy_program ! 1) = []"
    "options_map (subcommands copy_program top_level_sub) = []"
    "lookup_sub copy_program ''a'' = top_level_sub" "requires_value (opts copy_program ! 1)"
    by code_simp+
  have n: "no_response_files [''prog'', ''a'', ''b'', ''c'']"
    by (simp add: no_response_files_def response_argument_Some)
  have "\<exists>ks st'. ParseCommandLineOptions 1 small_env False (''prog'' # [''a'', ''b'', ''c'']) [] copy_program = (Inr True, st')
    \<and> sum_list ks = length [''a'', ''b'', ''c''] \<and> list_all2 allowed_count [Occ_one_or_more, Occ_required] ks
    \<and> (\<forall>j<length [0 :: nat, 1]. given_values (opts st' ! ([0 :: nat, 1] ! j)) =
        map String_value (take (ks ! j) (drop (sum_list (take j ks)) [''a'', ''b'', ''c''])))
    \<and> (\<forall>i. i \<notin> set [0 :: nat, 1] \<longrightarrow> opts st' ! i = opts copy_program ! i)"
    by (intro positional_distribution) (simp_all add: n s s [unfolded One_nat_def] positional_argument_def starts_dash_def)
  then obtain ks st' where w: "ParseCommandLineOptions 1 small_env False [''prog'', ''a'', ''b'', ''c''] [] copy_program = (Inr True, st')"
    "sum_list ks = length [''a'', ''b'', ''c'']" "list_all2 allowed_count [Occ_one_or_more, Occ_required] ks"
    "\<forall>j<length [0 :: nat, 1]. given_values (opts st' ! ([0 :: nat, 1] ! j)) =
        map String_value (take (ks ! j) (drop (sum_list (take j ks)) [''a'', ''b'', ''c'']))"
    by (elim exE conjE) (rule that)
  have "given_values (opts st' ! 0) = map String_value (take (ks ! 0) [''a'', ''b'', ''c''])"
    using w(4) [THEN spec, of 0] by simp
  then show ?thesis using w(1-3) by (intro exI [of _ st'] exI [of _ ks]) simp
qed

end
