(* ===== verification/VersionOne.thy ===== *)
theory VersionOne
  imports VersionParse VersionOps VersionFormat
begin

text \<open>
  The first generation of \<open>primitives::version::Version\<close> (version1/version.h, version.cpp,
  version.rl): a version has at least three numbers, an extra part, and possibly the name of a
  branch. Its order, its text, its increments; where the two generations agree and where not.
\<close>

section \<open>Versions and branches\<close>

record version1 =
  v1_numbers :: "int list"
  v1_extra :: "extra_value list"
  v1_branch :: string

definition minimum_level :: int where
  "minimum_level = 3"

definition check_level :: "int \<Rightarrow> int result" where
  "check_level l =
     (if l \<le> 0 then Inl (Runtime_error (''Bad version level (<= 0): '' @ to_string l))
      else Inr (max l minimum_level))"

text \<open>\<open>setFirstVersion\<close>: a version of zeros only becomes the first one.\<close>

definition first_numbers :: "int list \<Rightarrow> int list" where
  "first_numbers ns = (if list_all (\<lambda>n. n = 0) ns then ns[length ns - 1 := 1] else ns)"

text \<open>The default constructor and the one from a list of numbers.\<close>

definition default_numbers :: "int list" where
  "default_numbers = resize_numbers (nat (minimum_level - 1)) [] @ [1]"

definition generic_numbers :: "int list \<Rightarrow> int \<Rightarrow> int list result" where
  "generic_numbers ns level =
     (if list_ex (\<lambda>n. n < 0) ns then Inl (Runtime_error ''Version number cannot be less than 0'')
      else bind_result (check_level level) (\<lambda>l.
        Inr (first_numbers (if int (length ns) < l then resize_numbers (nat l) ns else ns))))"

definition v1_default :: version1 where
  "v1_default = \<lparr>v1_numbers = default_numbers, v1_extra = [], v1_branch = []\<rparr>"

definition v1_of_numbers :: "int list \<Rightarrow> version1 result" where
  "v1_of_numbers ns =
     bind_result (generic_numbers ns minimum_level) (\<lambda>ms. Inr (v1_default\<lparr>v1_numbers := ms\<rparr>))"

definition v1_level :: "version1 \<Rightarrow> int" where
  "v1_level v = int (length (v1_numbers v))"

definition v1_real_level :: "version1 \<Rightarrow> int" where
  "v1_real_level v = int (real_level_loop (rev (v1_numbers v)) (length (v1_numbers v)))"

definition v1_set_level :: "int \<Rightarrow> int \<Rightarrow> version1 \<Rightarrow> version1 result" where
  "v1_set_level level n v =
     (if level < 0 then Inl Length_error
      else Inr (v\<lparr>v1_numbers := take (nat level) (v1_numbers v)
                                @ replicate (nat level - length (v1_numbers v)) n\<rparr>))"

definition v1_fill :: "int \<Rightarrow> version1 \<Rightarrow> version1" where
  "v1_fill n v = v\<lparr>v1_numbers := map (\<lambda>_. n) (v1_numbers v)\<rparr>"

text \<open>Here levels start at zero, and a level below zero reads in front of the array.\<close>

definition v1_get :: "version1 \<Rightarrow> int \<Rightarrow> int result" where
  "v1_get v level =
     (if v1_level v \<le> level then Inr 0
      else if level < 0 then Inl Undefined
      else Inr (v1_numbers v ! nat level))"

definition v1_major :: "version1 \<Rightarrow> int result" where
  "v1_major v = v1_get v 0"

definition v1_minor :: "version1 \<Rightarrow> int result" where
  "v1_minor v = v1_get v 1"

definition v1_patch :: "version1 \<Rightarrow> int result" where
  "v1_patch v = v1_get v 2"

definition v1_tweak :: "version1 \<Rightarrow> int result" where
  "v1_tweak v = v1_get v 3"

definition v1_is_version :: "version1 \<Rightarrow> bool" where
  "v1_is_version v \<longleftrightarrow> v1_branch v = []"

definition v1_is_branch :: "version1 \<Rightarrow> bool" where
  "v1_is_branch v \<longleftrightarrow> \<not> v1_is_version v"

definition v1_has_extra :: "version1 \<Rightarrow> bool" where
  "v1_has_extra v \<longleftrightarrow> v1_extra v \<noteq> []"

definition v1_is_pre_release :: "version1 \<Rightarrow> bool" where
  "v1_is_pre_release v = v1_has_extra v"

definition v1_is_release :: "version1 \<Rightarrow> bool" where
  "v1_is_release v \<longleftrightarrow> \<not> v1_is_pre_release v"

fun common_level :: "int list \<Rightarrow> int list \<Rightarrow> int" where
  "common_level (m # ms) (n # ns) = (if m \<noteq> n then 0 else common_level ms ns + 1)"
| "common_level _ _ = 0"

definition v1_matching_level :: "version1 \<Rightarrow> version1 \<Rightarrow> int" where
  "v1_matching_level v w =
     (if v1_is_branch v \<or> v1_is_branch w then 0 else common_level (v1_numbers v) (v1_numbers w))"

definition v1_min :: "int \<Rightarrow> version1 result" where
  "v1_min level = bind_result (check_level level) (\<lambda>l.
     Inr (v1_default\<lparr>v1_numbers := resize_numbers (nat l - 1) [] @ [1]\<rparr>))"

definition v1_max :: "int \<Rightarrow> version1 result" where
  "v1_max level = bind_result (check_level level) (\<lambda>l.
     Inr (v1_fill max_number (v1_default\<lparr>v1_numbers := resize_numbers (nat l) []\<rparr>)))"

definition v1_min_like :: "version1 \<Rightarrow> version1 result" where
  "v1_min_like v = v1_min (v1_level v)"

definition v1_max_like :: "version1 \<Rightarrow> version1 result" where
  "v1_max_like v = v1_max (v1_level v)"

section \<open>Comparison\<close>

text \<open>
  The numbers and the extra part are compared as a tuple of references. Until C++17 a tuple
  compares its parts by their \<open>operator<\<close>, that is \<open>Extra::operator<\<close>, which puts the empty
  extra part above the others. Since C++20 a tuple compares by \<open>operator<=>\<close> where the parts
  have one: \<open>Extra\<close> is derived from a vector and inherits that of vectors, which puts the empty
  one first. The standard is a parameter; the build of the repository selects C++23.
\<close>

datatype standard = Until_17 | Since_20

definition extra1_less :: "extra_value list \<Rightarrow> extra_value list \<Rightarrow> bool" where
  "extra1_less l r =
     (if l = [] \<and> r = [] then False
      else if r = [] then True
      else if l = [] then False
      else l < r)"

fun tuple_less :: "standard \<Rightarrow> int list \<times> extra_value list \<Rightarrow> int list \<times> extra_value list \<Rightarrow> bool" where
  "tuple_less s (ns, e) (ms, f) \<longleftrightarrow>
     ns < ms \<or> ns = ms \<and> (case s of Until_17 \<Rightarrow> extra1_less e f | Since_20 \<Rightarrow> e < f)"

definition v1_cmp ::
  "version1 \<Rightarrow> version1 \<Rightarrow> (int list \<times> extra_value list \<Rightarrow> int list \<times> extra_value list \<Rightarrow> bool) \<Rightarrow> bool" where
  "v1_cmp v w f =
     (if length (v1_numbers v) \<noteq> length (v1_numbers w) then
        let sz = max (length (v1_numbers v)) (length (v1_numbers w))
        in f (resize_numbers sz (v1_numbers v), v1_extra v) (resize_numbers sz (v1_numbers w), v1_extra w)
      else f (v1_numbers v, v1_extra v) (v1_numbers w, v1_extra w))"

definition v1_lt :: "standard \<Rightarrow> version1 \<Rightarrow> version1 \<Rightarrow> bool" where
  "v1_lt s v w =
     (if v1_is_branch v \<and> v1_is_branch w then v1_branch v < v1_branch w
      else if v1_is_branch v \<or> v1_is_branch w then \<not> v1_branch v < v1_branch w
      else v1_cmp v w (tuple_less s))"

definition v1_gt :: "standard \<Rightarrow> version1 \<Rightarrow> version1 \<Rightarrow> bool" where
  "v1_gt s v w =
     (if v1_is_branch v \<and> v1_is_branch w then v1_branch v > v1_branch w
      else if v1_is_branch v \<or> v1_is_branch w then \<not> v1_branch v > v1_branch w
      else v1_cmp v w (\<lambda>a b. tuple_less s b a))"

definition v1_le :: "standard \<Rightarrow> version1 \<Rightarrow> version1 \<Rightarrow> bool" where
  "v1_le s v w =
     (if v1_is_branch v \<and> v1_is_branch w then v1_branch v \<le> v1_branch w
      else if v1_is_branch v \<or> v1_is_branch w then \<not> v1_branch v \<le> v1_branch w
      else v1_cmp v w (\<lambda>a b. \<not> tuple_less s b a))"

definition v1_ge :: "standard \<Rightarrow> version1 \<Rightarrow> version1 \<Rightarrow> bool" where
  "v1_ge s v w =
     (if v1_is_branch v \<and> v1_is_branch w then v1_branch v \<ge> v1_branch w
      else if v1_is_branch v \<or> v1_is_branch w then \<not> v1_branch v \<ge> v1_branch w
      else v1_cmp v w (\<lambda>a b. \<not> tuple_less s a b))"

definition v1_eq :: "version1 \<Rightarrow> version1 \<Rightarrow> bool" where
  "v1_eq v w =
     (if v1_is_branch v \<or> v1_is_branch w then v1_branch v = v1_branch w
      else v1_cmp v w (=))"

definition v1_ne :: "version1 \<Rightarrow> version1 \<Rightarrow> bool" where
  "v1_ne v w \<longleftrightarrow> \<not> v1_eq v w"

section \<open>Text\<close>

definition v1_print :: "string \<Rightarrow> int \<Rightarrow> version1 \<Rightarrow> string" where
  "v1_print delim level v =
     (let ns = v1_numbers v;
          u = nat (min level (v1_level v));
          s = concat (map (\<lambda>n. to_string n @ delim) (take u ns))
            @ concat (replicate (nat level - u) (to_string 0 @ delim))
      in if s \<noteq> [] then take (length s - length delim) s else s)"

definition v1_print_extra :: "version1 \<Rightarrow> string" where
  "v1_print_extra v =
     (let s = concat (map (\<lambda>e. extra_value_print e @ ''.'') (v1_extra v))
      in if s \<noteq> [] then take (length s - 1) s else s)"

definition v1_to_string_level :: "string \<Rightarrow> int \<Rightarrow> version1 \<Rightarrow> string" where
  "v1_to_string_level delim level v =
     (if v1_branch v \<noteq> [] then v1_branch v
      else v1_print delim level v @ (if v1_extra v \<noteq> [] then ''-'' @ v1_print_extra v else []))"

definition v1_to_string :: "version1 \<Rightarrow> string" where
  "v1_to_string v = v1_to_string_level ''.'' (v1_level v) v"

definition v1_to_string_like :: "string \<Rightarrow> version1 \<Rightarrow> version1 \<Rightarrow> string" where
  "v1_to_string_like delim w v = v1_to_string_level delim (v1_level w) v"

definition v1_hash :: "(string \<Rightarrow> 'h) \<Rightarrow> ('h \<Rightarrow> int \<Rightarrow> 'h) \<Rightarrow> 'h \<Rightarrow> version1 \<Rightarrow> 'h" where
  "v1_hash string_hash hash_combine zero v =
     (if v1_is_branch v then string_hash (v1_branch v)
      else foldl hash_combine zero (v1_numbers v))"

text \<open>
  The machine \<open>Version\<close>. \<open>ADD_PART\<close> puts a number at the next place and makes room for it. The
  extra part is read as in the second generation, by \<open>std::from_chars\<close>; a text that starts with
  a letter or an underscore is the name of a branch.
\<close>

definition add_part :: "int list \<Rightarrow> nat \<Rightarrow> int \<Rightarrow> int list" where
  "add_part ns i n = (if length ns \<le> i then resize_numbers (length ns + 1) ns else ns)[i := n]"

fun part_start :: "string \<Rightarrow> int list \<Rightarrow> nat \<Rightarrow> (bool \<times> int list \<times> extra_value list) result"
  and part_rest :: "string \<Rightarrow> string \<Rightarrow> int list \<Rightarrow> nat \<Rightarrow> (bool \<times> int list \<times> extra_value list) result" where
  "part_start [] ns i = Inr (False, ns, [])"
| "part_start (c # s) ns i = (if is_digit c then part_rest s [c] ns i else Inr (False, ns, []))"
| "part_rest [] buf ns i = bind_result (stoll buf) (\<lambda>n. Inr (True, add_part ns i n, []))"
| "part_rest (c # s) buf ns i =
     (if is_digit c then part_rest s (buf @ [c]) ns i
      else if c = CHR ''.'' then bind_result (stoll buf) (\<lambda>n. part_start s (add_part ns i n) (i + 1))
      else if c = CHR ''-'' then bind_result (stoll buf) (\<lambda>n.
        Inr (case extra_start s [] of (ok, es) \<Rightarrow> (ok, add_part ns i n, es)))
      else Inr (False, ns, []))"

definition branch_char :: "char \<Rightarrow> bool" where
  "branch_char c \<longleftrightarrow> is_alnum c \<or> c = CHR ''_'' \<or> c = CHR ''-''"

definition branch_start :: "char \<Rightarrow> bool" where
  "branch_start c \<longleftrightarrow> (is_alnum c \<and> \<not> is_digit c) \<or> c = CHR ''_''"

definition v1_parse :: "version1 \<Rightarrow> string \<Rightarrow> (bool \<times> version1) result" where
  "v1_parse v s =
     (if length s > 8192 then Inr (False, v)
      else if s \<noteq> [] \<and> branch_start (hd s) then
        let ok = list_all branch_char s
        in Inr (ok, v\<lparr>v1_numbers := first_numbers (v1_numbers v), v1_branch := if ok then s else v1_branch v\<rparr>)
      else bind_result (part_start s (v1_numbers v) 0) (\<lambda>(ok, ns, es).
        Inr (ok, v\<lparr>v1_numbers := first_numbers ns, v1_extra := v1_extra v @ es\<rparr>)))"

text \<open>
  The machine \<open>VersionExtra\<close> converts a part by \<open>std::stoll\<close>, which reads the digits in front and
  ignores what follows them; it is a string only if there are no digits or too many.
\<close>

definition add_extra_stoll :: "string \<Rightarrow> extra_value" where
  "add_extra_stoll s =
     (let ds = takeWhile is_digit s
      in if ds \<noteq> [] \<and> int (digits_value ds) \<le> int64_max then ENum (int (digits_value ds)) else EStr s)"

fun extra1_start :: "string \<Rightarrow> extra_value list \<Rightarrow> bool \<times> extra_value list"
  and extra1_rest :: "string \<Rightarrow> string \<Rightarrow> extra_value list \<Rightarrow> bool \<times> extra_value list" where
  "extra1_start [] vs = (False, vs)"
| "extra1_start (c # s) vs = (if extra_char c then extra1_rest s [c] vs else (False, vs))"
| "extra1_rest [] buf vs = (True, vs @ [add_extra_stoll buf])"
| "extra1_rest (c # s) buf vs =
     (if extra_char c then extra1_rest s (buf @ [c]) vs
      else if c = CHR ''.'' then extra1_start s (vs @ [add_extra_stoll buf])
      else (False, vs))"

definition v1_parse_extra :: "extra_value list \<Rightarrow> string \<Rightarrow> bool \<times> extra_value list" where
  "v1_parse_extra es s = (if length s > 8192 then (False, es) else extra1_start s es)"

section \<open>Constructors\<close>

definition v1_of_string :: "(string \<Rightarrow> string) \<Rightarrow> string \<Rightarrow> version1 result" where
  "v1_of_string strip s =
     bind_result (v1_parse (v1_default\<lparr>v1_numbers := resize_numbers (nat minimum_level) []\<rparr>) (strip s))
       (\<lambda>(ok, v).
         if \<not> ok then Inl (Runtime_error (''Invalid version: '' @ s))
         else if v1_is_branch v \<and> length (v1_branch v) > 200 then
           Inl (Runtime_error (''Invalid version: '' @ s @ '', branch must have size <= 200''))
         else Inr v)"

definition v1_of_strings :: "(string \<Rightarrow> string) \<Rightarrow> string \<Rightarrow> string \<Rightarrow> version1 result" where
  "v1_of_strings strip v e = v1_of_string strip (v @ ''-'' @ e)"

definition v1_set_extra :: "version1 \<Rightarrow> extra_value list \<Rightarrow> version1" where
  "v1_set_extra v e = v\<lparr>v1_extra := e\<rparr>"

definition v1_add_extra :: "(string \<Rightarrow> string) \<Rightarrow> version1 \<Rightarrow> string \<Rightarrow> version1 result" where
  "v1_add_extra strip v e =
     (case v1_parse_extra (v1_extra v) (strip e) of
        (True, es) \<Rightarrow> Inr (v\<lparr>v1_extra := es\<rparr>)
      | (False, _) \<Rightarrow> Inl (Runtime_error (''Invalid version extra: '' @ e)))"

definition v1_of_numbers_string :: "(string \<Rightarrow> string) \<Rightarrow> int list \<Rightarrow> string \<Rightarrow> version1 result" where
  "v1_of_numbers_string strip ns e = bind_result (v1_of_numbers ns) (\<lambda>v. v1_add_extra strip v e)"

text \<open>
  \<open>checkExtra\<close> parses every part again, all into one version; \<open>std::any_of\<close> stops at the first part
  that is a number or does not parse.
\<close>

fun bad_extra :: "extra_value list \<Rightarrow> extra_value list \<Rightarrow> bool \<times> extra_value list" where
  "bad_extra [] acc = (False, acc)"
| "bad_extra (ENum n # es) acc = (True, acc)"
| "bad_extra (EStr s # es) acc =
     (case v1_parse_extra acc s of (ok, acc') \<Rightarrow> if \<not> ok then (True, acc') else bad_extra es acc')"

definition check_extra :: "version1 \<Rightarrow> unit result" where
  "check_extra v =
     (case bad_extra (v1_extra v) [] of (c, es) \<Rightarrow>
        if c \<or> es \<noteq> v1_extra v then Inl (Runtime_error (''Invalid version: '' @ v1_to_string v)) else Inr ())"

definition v1_checked_extra :: "version1 \<Rightarrow> extra_value list \<Rightarrow> version1 result" where
  "v1_checked_extra v e = bind_result (check_extra (v\<lparr>v1_extra := e\<rparr>)) (\<lambda>_. Inr (v\<lparr>v1_extra := e\<rparr>))"

definition v1_of_extra :: "extra_value list \<Rightarrow> version1 result" where
  "v1_of_extra e = v1_checked_extra v1_default e"

definition v1_of_numbers_extra :: "int list \<Rightarrow> extra_value list \<Rightarrow> version1 result" where
  "v1_of_numbers_extra ns e = bind_result (v1_of_numbers ns) (\<lambda>v. v1_checked_extra v e)"

section \<open>Increment and decrement\<close>

text \<open>
  The loops start at the number of the level and walk towards the first one. A level that is not
  positive starts in front of the array.
\<close>

definition change_at :: "(int list \<Rightarrow> int list result) \<Rightarrow> int \<Rightarrow> version1 \<Rightarrow> version1 result" where
  "change_at loop l v =
     bind_result (if l > v1_level v then v1_set_level l 0 v else Inr v) (\<lambda>v.
       if l \<le> 0 then Inl Undefined
       else bind_result (loop (rev (take (nat l) (v1_numbers v)))) (\<lambda>r.
         Inr (v\<lparr>v1_numbers := rev r @ drop (nat l) (v1_numbers v)\<rparr>)))"

definition v1_decrement_at :: "int \<Rightarrow> version1 \<Rightarrow> version1 result" where
  "v1_decrement_at l v =
     bind_result (v1_min_like v) (\<lambda>m. if v1_eq v m then Inr v else change_at dec_loop l v)"

definition v1_increment_at :: "int \<Rightarrow> version1 \<Rightarrow> version1 result" where
  "v1_increment_at l v =
     bind_result (v1_max_like v) (\<lambda>m. if v1_eq v m then Inr v else change_at inc_loop l v)"

definition v1_decrement :: "version1 \<Rightarrow> version1 result" where
  "v1_decrement v = v1_decrement_at (v1_level v) v"

definition v1_increment :: "version1 \<Rightarrow> version1 result" where
  "v1_increment v = v1_increment_at (v1_level v) v"

definition v1_next_at :: "int \<Rightarrow> version1 \<Rightarrow> version1 result" where
  "v1_next_at l v = v1_increment_at l v"

definition v1_previous_at :: "int \<Rightarrow> version1 \<Rightarrow> version1 result" where
  "v1_previous_at l v = v1_decrement_at l v"

definition v1_next :: "version1 \<Rightarrow> version1 result" where
  "v1_next v = v1_next_at (v1_level v) v"

definition v1_previous :: "version1 \<Rightarrow> version1 result" where
  "v1_previous v = v1_previous_at (v1_level v) v"

text \<open>The operators: the prefix ones return the new version, the postfix ones the old.\<close>

definition v1_pre_inc :: "version1 \<Rightarrow> (version1 \<times> version1) result" where
  "v1_pre_inc v = bind_result (v1_increment v) (\<lambda>w. Inr (w, w))"

definition v1_post_inc :: "version1 \<Rightarrow> (version1 \<times> version1) result" where
  "v1_post_inc v = bind_result (v1_increment v) (\<lambda>w. Inr (v, w))"

definition v1_pre_dec :: "version1 \<Rightarrow> (version1 \<times> version1) result" where
  "v1_pre_dec v = bind_result (v1_decrement v) (\<lambda>w. Inr (w, w))"

definition v1_post_dec :: "version1 \<Rightarrow> (version1 \<times> version1) result" where
  "v1_post_dec v = bind_result (v1_decrement v) (\<lambda>w. Inr (v, w))"

section \<open>Formatting\<close>

definition v1_optional_number :: "version1 \<Rightarrow> nat \<Rightarrow> int option" where
  "v1_optional_number v level =
     (if level > length (v1_numbers v) then None
      else if list_ex (\<lambda>n. n \<noteq> 0) (drop (level - 1) (v1_numbers v)) then Some (v1_numbers v ! (level - 1))
      else None)"

definition v1_optional_number_int :: "version1 \<Rightarrow> nat \<Rightarrow> int" where
  "v1_optional_number_int v level = (case v1_optional_number v level of Some n \<Rightarrow> n | None \<Rightarrow> 0)"

definition v1_format_args :: "version1 \<Rightarrow> (string \<times> fmt_arg) list result" where
  "v1_format_args v =
     bind_result (map_result (v1_get v) [0, 1, 2, 3]) (\<lambda>ns.
     let os = map (v1_optional_number v) [2, 3, 4];
         small = create_latin_replacements CHR ''a''; cap = create_latin_replacements_capital
     in bind_result (map_result cap ns) (\<lambda>caps.
        bind_result (map_result small ns) (\<lambda>smalls.
        bind_result (map_result (\<lambda>(on, n). optional_replacement on cap n) (zip os (tl ns))) (\<lambda>ocaps.
        bind_result (map_result (\<lambda>(on, n). optional_replacement on small n) (zip os (tl ns))) (\<lambda>osmalls.
        Inr (zip [''M'', ''m'', ''p'', ''t''] (map FInt ns)
             @ zip [''ML'', ''mL'', ''pL'', ''tL''] (map FStr caps)
             @ zip [''Ml'', ''ml'', ''pl'', ''tl''] (map FStr smalls)
             @ zip [''mo'', ''po'', ''to''] (map (FStr \<circ> get_optional) os)
             @ zip [''mLo'', ''pLo'', ''tLo''] (map FStr ocaps)
             @ zip [''mlo'', ''plo'', ''tlo''] (map FStr osmalls)
             @ [(''e'', FStr (v1_print_extra v)), (''b'', FStr (v1_branch v)), (''v'', FStr (v1_to_string v)),
                (''Mm'', FStr (v1_to_string_level ''.'' 2 v)),
                (''v5'', FInt (v1_optional_number_int v 5)), (''v6'', FInt (v1_optional_number_int v 6))]))))))"

definition v1_format ::
  "(string \<Rightarrow> (string \<times> fmt_arg) list \<Rightarrow> string result) \<Rightarrow> version1 \<Rightarrow> string \<Rightarrow> string result" where
  "v1_format fmt v s = bind_result (v1_format_args v) (fmt s)"

section \<open>The order\<close>

text \<open>What a version of the first generation is in the second one, if it is no branch.\<close>

definition second_generation :: "version1 \<Rightarrow> version" where
  "second_generation v = \<lparr>numbers = v1_numbers v, vextra = Extra (v1_extra v)\<rparr>"

text \<open>Branches are below all versions; a key with both keeps the parts of the tuple apart.\<close>

definition v1_key :: "nat \<Rightarrow> version1 \<Rightarrow> bool \<times> string \<times> int list" where
  "v1_key n v =
     (if v1_is_branch v then (False, v1_branch v, []) else (True, [], resize_numbers n (v1_numbers v)))"

definition key_extra :: "version1 \<Rightarrow> extra_value list" where
  "key_extra v = (if v1_is_branch v then [] else v1_extra v)"

fun extra_order :: "standard \<Rightarrow> extra_value list \<Rightarrow> extra_value list \<Rightarrow> bool" where
  "extra_order Until_17 e f \<longleftrightarrow> Extra e < Extra f"
| "extra_order Since_20 e f \<longleftrightarrow> e < f"

lemma extra_order_code: "(case s of Until_17 \<Rightarrow> extra1_less e f | Since_20 \<Rightarrow> e < f) \<longleftrightarrow> extra_order s e f"
  by (cases s) (simp_all add: extra1_less_def less_extra_def extra_less_def)

lemma extra_order_laws:
  "\<not> extra_order s e e"
  "extra_order s e f \<Longrightarrow> extra_order s f g \<Longrightarrow> extra_order s e g"
  "extra_order s e f \<or> e = f \<or> extra_order s f e"
  by (cases s; force)+

lemma resize_less_extend:
  assumes "length xs \<le> m" "length ys \<le> m" "m \<le> n"
  shows "resize_numbers n xs < resize_numbers n ys \<longleftrightarrow> resize_numbers m xs < resize_numbers m ys"
    "resize_numbers n xs = resize_numbers n ys \<longleftrightarrow> resize_numbers m xs = resize_numbers m ys"
  using assms by (auto simp: resize_extend [of _ m n] lex_append_same)

lemma v1_cmp_resize:
  "v1_cmp v w f =
     (let n = max (length (v1_numbers v)) (length (v1_numbers w))
      in f (resize_numbers n (v1_numbers v), v1_extra v) (resize_numbers n (v1_numbers w), v1_extra w))"
  by (auto simp: v1_cmp_def Let_def)

lemma tuple_less_key:
  assumes "length (v1_numbers v) \<le> n" "length (v1_numbers w) \<le> n"
  shows "v1_cmp v w (tuple_less s) \<longleftrightarrow>
      resize_numbers n (v1_numbers v) < resize_numbers n (v1_numbers w)
      \<or> resize_numbers n (v1_numbers v) = resize_numbers n (v1_numbers w) \<and> extra_order s (v1_extra v) (v1_extra w)"
    "v1_cmp v w (=) \<longleftrightarrow>
      resize_numbers n (v1_numbers v) = resize_numbers n (v1_numbers w) \<and> v1_extra v = v1_extra w"
  using assms resize_less_extend [of "v1_numbers v" "max (length (v1_numbers v)) (length (v1_numbers w))" "v1_numbers w" n]
  by (simp_all add: v1_cmp_resize Let_def extra_order_code)

lemma Nil_less: "[] < (xs :: 'a :: order list) \<longleftrightarrow> xs \<noteq> []"
  by (cases xs) auto

lemma v1_lt_key:
  assumes "length (v1_numbers v) \<le> n" "length (v1_numbers w) \<le> n"
  shows "v1_lt s v w \<longleftrightarrow>
    v1_key n v < v1_key n w \<or> v1_key n v = v1_key n w \<and> extra_order s (key_extra v) (key_extra w)"
  using tuple_less_key(1) [OF assms] extra_order_laws(1) [of s "[]"]
  by (auto simp: v1_lt_def v1_key_def key_extra_def v1_is_branch_def v1_is_version_def less_prod_def' Nil_less)

lemma v1_eq_key:
  assumes "length (v1_numbers v) \<le> n" "length (v1_numbers w) \<le> n"
  shows "v1_eq v w \<longleftrightarrow> v1_key n v = v1_key n w \<and> key_extra v = key_extra w"
  using tuple_less_key(2) [OF assms]
  by (auto simp: v1_eq_def v1_key_def key_extra_def v1_is_branch_def v1_is_version_def)

interpretation v1o: weak_order "v1_lt s" v1_eq for s
proof
  fix x y z :: version1
  define n where "n = max (length (v1_numbers x)) (max (length (v1_numbers y)) (length (v1_numbers z)))"
  have n: "length (v1_numbers x) \<le> n" "length (v1_numbers y) \<le> n" "length (v1_numbers z) \<le> n"
    by (simp_all add: n_def)
  note keys = v1_lt_key [where n = n and s = s] v1_eq_key [where n = n] n
  note laws = extra_order_laws [of s]
  show "v1_eq x x" by (simp add: keys)
  show "v1_eq x y \<Longrightarrow> v1_eq y x" by (simp add: keys)
  show "v1_eq x y \<Longrightarrow> v1_eq y z \<Longrightarrow> v1_eq x z" by (simp add: keys)
  show "v1_lt s x y \<Longrightarrow> \<not> v1_eq x y" using laws(1) by (auto simp: keys)
  show "v1_lt s x y \<Longrightarrow> \<not> v1_lt s y x"
    using laws(1) [of "key_extra x"] laws(2) [of "key_extra x" "key_extra y" "key_extra x"]
      less_asym [of "v1_key n x" "v1_key n y"] less_irrefl [of "v1_key n x"]
    unfolding keys(1) [OF n(1,2)] keys(1) [OF n(2,1)] by metis
  show "v1_lt s x y \<Longrightarrow> v1_lt s y z \<Longrightarrow> v1_lt s x z"
    using laws(2) [of "key_extra x" "key_extra y" "key_extra z"]
      less_trans [of "v1_key n x" "v1_key n y" "v1_key n z"]
    unfolding keys(1) [OF n(1,2)] keys(1) [OF n(2,3)] keys(1) [OF n(1,3)] by (metis (no_types))
  show "v1_lt s x y \<Longrightarrow> v1_eq y z \<Longrightarrow> v1_lt s x z" by (simp add: keys)
  show "v1_eq x y \<Longrightarrow> v1_lt s y z \<Longrightarrow> v1_lt s x z" by (simp add: keys)
  show "v1_lt s x y \<or> v1_eq x y \<or> v1_lt s y x"
    using laws(3) [of "key_extra x" "key_extra y"] less_linear [of "v1_key n x" "v1_key n y"]
    by (auto simp: keys)
qed

lemma v1_le_not_lt: "v1_le s v w \<longleftrightarrow> \<not> v1_lt s w v"
  by (auto simp: v1_le_def v1_lt_def v1_is_branch_def v1_is_version_def v1_cmp_resize Let_def max.commute not_less
      simp del: tuple_less.simps)

lemma v1_ge_not_lt: "v1_ge s v w \<longleftrightarrow> \<not> v1_lt s v w"
  by (auto simp: v1_ge_def v1_lt_def v1_is_branch_def v1_is_version_def v1_cmp_resize Let_def not_less
      simp del: tuple_less.simps)

lemma v1_gt_lt: "v1_gt s v w \<longleftrightarrow> v1_lt s w v"
  by (auto simp: v1_gt_def v1_lt_def v1_is_branch_def v1_is_version_def v1_cmp_resize Let_def max.commute
      simp del: tuple_less.simps)

text \<open>
  C16: The two generations compare versions without a branch alike, with one exception: since C++20
  the first one puts a release below its own pre-releases. Equality is the same in any case.
\<close>

theorem generations_agree:
  assumes "v1_is_version v" "v1_is_version w"
  shows "(v1_eq v w \<longleftrightarrow> version_eq (second_generation v) (second_generation w))
    \<and> (v1_lt Until_17 v w \<longleftrightarrow> version_lt (second_generation v) (second_generation w))
    \<and> (v1_lt Since_20 v w \<longleftrightarrow>
        (let n = max (length (v1_numbers v)) (length (v1_numbers w))
         in if resize_numbers n (v1_numbers v) = resize_numbers n (v1_numbers w)
               \<and> v1_is_release v \<noteq> v1_is_release w
            then v1_is_release v
            else version_lt (second_generation v) (second_generation w)))"
proof -
  define n where "n = max (length (v1_numbers v)) (length (v1_numbers w))"
  have n: "length (v1_numbers v) \<le> n" "length (v1_numbers w) \<le> n"
    "get_level (second_generation v) \<le> n" "get_level (second_generation w) \<le> n"
    by (simp_all add: n_def get_level_def second_generation_def)
  have lt: "v1_lt s v w \<longleftrightarrow> resize_numbers n (v1_numbers v) < resize_numbers n (v1_numbers w)
      \<or> resize_numbers n (v1_numbers v) = resize_numbers n (v1_numbers w) \<and> extra_order s (v1_extra v) (v1_extra w)" for s
    using tuple_less_key(1) [OF n(1,2), of s] assms by (simp add: v1_lt_def v1_is_branch_def)
  have eq: "v1_eq v w \<longleftrightarrow> resize_numbers n (v1_numbers v) = resize_numbers n (v1_numbers w) \<and> v1_extra v = v1_extra w"
    using tuple_less_key(2) [OF n(1,2)] assms by (simp add: v1_eq_def v1_is_branch_def)
  show ?thesis
    unfolding n_def [symmetric] Let_def lt eq version_lt_key [OF n(3,4)] version_eq_key [OF n(3,4)]
    by (auto simp: version_key_def second_generation_def less_prod_def' less_extra_def extra_less_def
        v1_is_release_def v1_is_pre_release_def v1_has_extra_def neq_Nil_conv)
qed

lemma generations_agree_witness:
  "\<not> version_lt (second_generation \<lparr>v1_numbers = [1, 2, 3], v1_extra = [], v1_branch = []\<rparr>)
        (second_generation \<lparr>v1_numbers = [1, 2, 3], v1_extra = [EStr ''rc''], v1_branch = []\<rparr>)
   \<and> v1_lt Since_20 \<lparr>v1_numbers = [1, 2, 3], v1_extra = [], v1_branch = []\<rparr>
        \<lparr>v1_numbers = [1, 2, 3], v1_extra = [EStr ''rc''], v1_branch = []\<rparr>"
  using generations_agree [of "\<lparr>v1_numbers = [1, 2, 3], v1_extra = [], v1_branch = []\<rparr>"
      "\<lparr>v1_numbers = [1, 2, 3], v1_extra = [EStr ''rc''], v1_branch = []\<rparr>"]
  by code_simp

text \<open>
  All comparison operators of the first generation follow one order, in which every branch is
  below every version and branches are ordered by name.
\<close>

lemma v1_order:
  "(v1_gt s v w \<longleftrightarrow> v1_lt s w v)
   \<and> (v1_le s v w \<longleftrightarrow> v1_lt s v w \<or> v1_eq v w)
   \<and> (v1_ge s v w \<longleftrightarrow> v1_lt s w v \<or> v1_eq w v)
   \<and> (v1_is_branch v \<and> v1_is_version w \<longrightarrow> v1_lt s v w)"
  using v1o.not_lt_iff [of s w v] v1o.not_lt_iff [of s v w] v1o.eq_sym
  by (auto simp: v1_gt_lt v1_le_not_lt v1_ge_not_lt v1_lt_def v1_is_branch_def v1_is_version_def Nil_less)

section \<open>Increment and decrement\<close>

lemma v1_limits:
  assumes "3 \<le> length (v1_numbers v)"
  shows "v1_max_like v = Inr (v1_default\<lparr>v1_numbers := replicate (length (v1_numbers v)) max_number\<rparr>)"
    "v1_min_like v = Inr (v1_default\<lparr>v1_numbers := replicate (length (v1_numbers v) - 1) 0 @ [1]\<rparr>)"
  using assms le_zero_eq [of 3]
  by (auto simp: v1_max_like_def v1_min_like_def v1_max_def v1_min_def v1_level_def check_level_def
      minimum_level_def v1_fill_def resize_numbers_def map_replicate_const max_def nat_diff_distrib)

lemma v1_eq_limit:
  assumes "v1_is_version v" "length ns = length (v1_numbers v)"
  shows "v1_eq v (v1_default\<lparr>v1_numbers := ns\<rparr>) \<longleftrightarrow> v1_numbers v = ns \<and> v1_extra v = []"
  using assms by (auto simp: v1_eq_def v1_is_branch_def v1_is_version_def v1_default_def v1_cmp_def)

lemma change_at_own_level:
  assumes "v1_numbers v \<noteq> []"
  shows "bind_result (change_at loop (v1_level v) v) (\<lambda>w. Inr (second_generation w))
    = bind_result (loop (rev (numbers (second_generation v))))
        (\<lambda>r. Inr (second_generation v\<lparr>numbers := rev r\<rparr>))"
  using assms
  by (cases "loop (rev (v1_numbers v))")
    (simp_all add: change_at_def v1_level_def second_generation_def)

lemma not_version_max:
  "v1_numbers v \<noteq> [] \<Longrightarrow> list_all number_ok (v1_numbers v) \<Longrightarrow>
     \<not> version_eq (second_generation v) version_max"
  by (rule version_ok_not_max) (simp add: version_ok_def second_generation_def)

lemma not_version_min:
  assumes "v1_numbers v \<noteq> []" "\<not> list_all (\<lambda>n. n = 0) (v1_numbers v)"
  shows "\<not> version_eq (second_generation v) version_min"
  using assms by (cases "v1_numbers v") (auto simp: version_min_def version_eq_singleton second_generation_def)

text \<open>
  C33: Counting is that of the second generation within the bounds of one level: the greatest version
  of a level stays what it is when it is incremented, and so does the least when it is decremented;
  every other version, with limits for its numbers, gets the successor or predecessor that the second
  generation computes (or runs out of the array with it).
\<close>

theorem generation_1_counting:
  assumes "v1_is_version v" "3 \<le> length (v1_numbers v)" "list_all number_ok (v1_numbers v)"
    "\<not> list_all (\<lambda>n. n = 0) (v1_numbers v)"
  shows "bind_result (v1_increment v) (\<lambda>w. Inr (second_generation w))
      = (if v1_numbers v = replicate (length (v1_numbers v)) max_number \<and> v1_extra v = []
         then Inr (second_generation v) else increment_version (second_generation v))
    \<and> bind_result (v1_decrement v) (\<lambda>w. Inr (second_generation w))
      = (if v1_numbers v = replicate (length (v1_numbers v) - 1) 0 @ [1] \<and> v1_extra v = []
         then Inr (second_generation v) else decrement_version (second_generation v))"
proof -
  have ne: "v1_numbers v \<noteq> []"
    using assms(2) by auto
  have len: "length (replicate (length (v1_numbers v)) max_number) = length (v1_numbers v)"
    "length (replicate (length (v1_numbers v) - 1) 0 @ [1 :: int]) = length (v1_numbers v)"
    using ne by (simp_all add: Suc_leI)
  have inc: "increment_version (second_generation v)
      = bind_result (change_at inc_loop (v1_level v) v) (\<lambda>w. Inr (second_generation w))"
    using not_version_max [OF ne assms(3)] by (simp add: increment_version_def change_at_own_level [OF ne])
  have dec: "decrement_version (second_generation v)
      = bind_result (change_at dec_loop (v1_level v) v) (\<lambda>w. Inr (second_generation w))"
    using not_version_min [OF ne assms(4)] by (simp add: decrement_version_def change_at_own_level [OF ne])
  show ?thesis
    unfolding inc dec v1_increment_def v1_increment_at_def v1_decrement_def v1_decrement_at_def
      v1_limits [OF assms(2)] bind_result_simps v1_eq_limit [OF assms(1) len(1)] v1_eq_limit [OF assms(1) len(2)]
    by (simp only: if_distrib [where f = "\<lambda>r. bind_result r f" for f] bind_result_simps)
qed

lemma generation_1_counting_witness:
  "bind_result (v1_increment \<lparr>v1_numbers = [1, 2, 999999999], v1_extra = [], v1_branch = []\<rparr>)
      (\<lambda>w. Inr (second_generation w)) = Inr (mk_version [1, 3, 0])"
proof -
  let ?v = "\<lparr>v1_numbers = [1, 2, 999999999], v1_extra = [], v1_branch = []\<rparr>"
  have "v1_is_version ?v" "3 \<le> length (v1_numbers ?v)" "list_all number_ok (v1_numbers ?v)"
    "\<not> list_all (\<lambda>n. n = 0) (v1_numbers ?v)" "v1_numbers ?v \<noteq> replicate (length (v1_numbers ?v)) max_number"
    "increment_version (second_generation ?v) = Inr (mk_version [1, 3, 0])"
    by code_simp+
  then show ?thesis
    using generation_1_counting [of ?v] by (simp add: max_number_def)
qed

text \<open>
  Operations that leave the array: a decrement at a level with zeros up to it, and an increment of
  the greatest numbers with an extra part.
\<close>

lemma v1_leaves_array:
  "v1_decrement_at 1 \<lparr>v1_numbers = [0, 1, 1], v1_extra = [], v1_branch = []\<rparr> = Inl Undefined"
  "v1_increment \<lparr>v1_numbers = [999999999, 999999999, 999999999], v1_extra = [EStr ''rc''], v1_branch = []\<rparr>
     = Inl Undefined"
  by code_simp+

section \<open>Constructors\<close>

text \<open>
  The text of an extra part means different things to the constructors: after a hyphen \<open>1rc\<close> is a
  string, as a separate argument it is the number one. A checked extra part must not contain a
  number, so that the parts a version was read with may be refused.
\<close>

lemma extra_part_readings:
  "v1_of_string strip_ws ''1-1rc'' = Inr \<lparr>v1_numbers = [1, 0, 0], v1_extra = [EStr ''1rc''], v1_branch = []\<rparr>"
  "v1_of_numbers_string strip_ws [1] ''1rc'' = Inr \<lparr>v1_numbers = [1, 0, 0], v1_extra = [ENum 1], v1_branch = []\<rparr>"
  "v1_of_numbers_extra [1] [EStr ''1rc''] = Inl (Runtime_error ''Invalid version: 1.0.0-1rc'')"
  "v1_of_numbers_extra [1] [EStr ''rc'', ENum 1] = Inl (Runtime_error ''Invalid version: 1.0.0-rc.1'')"
  "v1_of_numbers_extra [1] [EStr ''rc''] = Inr \<lparr>v1_numbers = [1, 0, 0], v1_extra = [EStr ''rc''], v1_branch = []\<rparr>"
  by code_simp+

text \<open>Versions of different levels can be equal and still have different hashes.\<close>

lemma v1_hash_of_equal_versions:
  "v1_eq \<lparr>v1_numbers = [1, 2, 3], v1_extra = [], v1_branch = []\<rparr>
      \<lparr>v1_numbers = [1, 2, 3, 0], v1_extra = [], v1_branch = []\<rparr>
   \<and> v1_hash (\<lambda>_. 0) (\<lambda>h n. 10 * h + nat n + 1) 0 \<lparr>v1_numbers = [1, 2, 3], v1_extra = [], v1_branch = []\<rparr>
     \<noteq> v1_hash (\<lambda>_. 0) (\<lambda>h n. 10 * h + nat n + 1) (0 :: nat)
         \<lparr>v1_numbers = [1, 2, 3, 0], v1_extra = [], v1_branch = []\<rparr>"
  by code_simp

section \<open>Versions: the parser undoes the printer\<close>

lemma first_numbers_id: "\<not> list_all (\<lambda>n. n = 0) ns \<Longrightarrow> first_numbers ns = ns"
  by (simp add: first_numbers_def)

lemma part_rest_digits:
  "list_all is_digit ds \<Longrightarrow> part_rest (ds @ s) buf ns i = part_rest s (buf @ ds) ns i"
  by (induction ds arbitrary: buf) auto

lemma part_start_digits:
  assumes "list_all is_digit ds" "ds \<noteq> []"
  shows "part_start (ds @ s) ns i = part_rest s ds ns i"
  using assms by (cases ds) (auto simp: part_rest_digits)

text \<open>The numbers that are read go over the ones that are there.\<close>

fun add_parts :: "int list \<Rightarrow> nat \<Rightarrow> int list \<Rightarrow> int list" where
  "add_parts ns i [] = ns"
| "add_parts ns i (n # ms) = add_parts (add_part ns i n) (i + 1) ms"

lemma add_part_place:
  "i \<le> length ns \<Longrightarrow> take (i + 1) (add_part ns i n) = take i ns @ [n]
     \<and> drop (i + 1) (add_part ns i n) = drop (i + 1) ns \<and> i + 1 \<le> length (add_part ns i n)"
  by (auto simp: add_part_def resize_numbers_def take_Suc_conv_app_nth nth_append list_update_append
      take_update_swap)

lemma add_parts_result:
  "i \<le> length ns \<Longrightarrow> add_parts ns i ms = take i ns @ ms @ drop (i + length ms) ns"
proof (induction ms arbitrary: ns i)
  case (Cons n ms)
  then show ?case
    using add_part_place [of i ns n] by simp (metis add_Suc drop_drop add.commute Suc_eq_plus1)
qed simp

lemma part_start_join:
  assumes "ms \<noteq> []" "list_all int64_nonneg ms"
  shows "part_start (join ''.'' (map to_string ms)) ns i = Inr (True, add_parts ns i ms, [])
    \<and> part_start (join ''.'' (map to_string ms) @ CHR ''-'' # e) ns i
      = Inr (fst (extra_start e []), add_parts ns i ms, snd (extra_start e []))"
  using assms
proof (induction ms arbitrary: ns i)
  case (Cons m ms)
  then have m: "list_all is_digit (to_string m)" "stoll (to_string m) = Inr m"
    by (auto simp: int64_nonneg_def to_string_digits stoll_to_string)
  show ?case
  proof (cases "ms = []")
    case True
    then show ?thesis
      using m part_start_digits [of "to_string m" "[]" ns i]
        part_start_digits [of "to_string m" "CHR ''-'' # e" ns i]
      by (simp add: is_digit_def split: prod.splits)
  next
    case False
    then have j: "join ''.'' (map to_string (m # ms)) @ t
        = to_string m @ CHR ''.'' # join ''.'' (map to_string ms) @ t" for t
      by (simp add: join_Cons)
    show ?thesis
      using m part_start_digits [of "to_string m" _ ns i] False Cons j [of "[]"]
      by (simp add: is_digit_def j)
  qed
qed simp

lemma v1_print_own_level: "v1_print ''.'' (v1_level v) v = join ''.'' (map to_string (v1_numbers v))"
  using take_concat_map_sep [of "''.''" "map to_string (v1_numbers v)"]
  by (simp add: v1_print_def v1_level_def Let_def comp_def)

lemma v1_print_extra_eq: "v1_print_extra v = extra_print (Extra (v1_extra v))"
  by (simp add: v1_print_extra_def extra_print_def)

definition v1_printable :: "version1 \<Rightarrow> bool" where
  "v1_printable v \<longleftrightarrow>
     (if v1_is_branch v then
        branch_start (hd (v1_branch v)) \<and> list_all branch_char (v1_branch v) \<and> length (v1_branch v) \<le> 200
        \<and> v1_numbers v = default_numbers \<and> v1_extra v = []
      else 3 \<le> length (v1_numbers v) \<and> list_all int64_nonneg (v1_numbers v)
        \<and> \<not> list_all (\<lambda>n. n = 0) (v1_numbers v)
        \<and> (v1_extra v = [] \<or> extra_canonical (Extra (v1_extra v)))
        \<and> length (v1_to_string v) \<le> 8192)"

lemma branch_char_not_space: "branch_char c \<Longrightarrow> \<not> is_space c"
  by (auto simp: branch_char_def is_alnum_def is_digit_def is_space_def)

lemma v1_read_branch:
  assumes "strip_law strip" "v1_printable v" "v1_is_branch v"
  shows "v1_of_string strip (v1_to_string v) = Inr v"
proof -
  have v: "v1_branch v \<noteq> []" "branch_start (hd (v1_branch v))" "list_all branch_char (v1_branch v)"
    "length (v1_branch v) \<le> 200" "v1_numbers v = default_numbers" "v1_extra v = []"
    using assms(2,3) by (auto simp: v1_printable_def v1_is_branch_def v1_is_version_def)
  have "strip (v1_branch v) = v1_branch v"
    using assms(1) v(3) by (auto intro!: strip_id dest: branch_char_not_space simp: list_all_iff)
  moreover have "v = \<lparr>v1_numbers = default_numbers, v1_extra = [], v1_branch = v1_branch v\<rparr>"
    using v(5,6) by simp
  moreover have "first_numbers (resize_numbers (nat minimum_level) []) = default_numbers"
    by code_simp
  ultimately show ?thesis
    using v(1-4)
    by (simp add: v1_to_string_def v1_to_string_level_def v1_of_string_def v1_parse_def v1_default_def)
qed

lemma to_string_start: "0 \<le> n \<Longrightarrow> to_string n @ s \<noteq> [] \<and> \<not> branch_start (hd (to_string n @ s))"
  using to_string_digits [of n] by (cases "to_string n") (auto simp: branch_start_def is_digit_def)

lemma numbers_start:
  assumes "ns \<noteq> []" "list_all int64_nonneg ns"
  shows "\<not> branch_start (hd (join ''.'' (map to_string ns) @ s))"
proof -
  obtain m ms where ns: "ns = m # ms" "0 \<le> m"
    using assms by (cases ns) (auto simp: int64_nonneg_def)
  have "\<exists>t. join ''.'' (map to_string ns) @ s = to_string m @ t"
    using ns(1) by (cases ms) (auto simp: join_Cons)
  then show ?thesis
    using to_string_start [OF ns(2)] by metis
qed

lemma v1_text_no_space:
  assumes "v1_printable v" "v1_is_version v" "c \<in> set (v1_to_string v)"
  shows "\<not> is_space c"
proof -
  have "c \<in> set (join ''.'' (map to_string (v1_numbers v))) \<Longrightarrow> \<not> is_space c"
    using version_numbers_chars [of "v1_numbers v" c] assms(1,2)
    by (auto simp: v1_printable_def v1_is_branch_def is_digit_not_special not_space_chars)
  moreover have "v1_extra v \<noteq> [] \<Longrightarrow> c \<in> set (v1_print_extra v) \<Longrightarrow> \<not> is_space c"
    using extra_print_no_space [of "Extra (v1_extra v)" c] assms(1,2)
    by (auto simp: v1_printable_def v1_is_branch_def v1_print_extra_eq)
  ultimately show ?thesis
    using assms(2,3)
    by (auto simp: v1_to_string_def v1_to_string_level_def v1_print_own_level v1_is_version_def not_space_chars
        split: if_splits)
qed

lemma v1_read_version:
  assumes "strip_law strip" "v1_printable v" "v1_is_version v"
  shows "v1_of_string strip (v1_to_string v) = Inr v"
proof -
  define ns where "ns = v1_numbers v"
  define t where "t = (if v1_extra v \<noteq> [] then CHR ''-'' # v1_print_extra v else [])"
  have v: "3 \<le> length ns" "ns \<noteq> []" "list_all int64_nonneg ns" "\<not> list_all (\<lambda>n. n = 0) ns"
    "v1_extra v = [] \<or> extra_canonical (Extra (v1_extra v))" "length (v1_to_string v) \<le> 8192"
    using assms(2,3) by (auto simp: v1_printable_def v1_is_branch_def ns_def)
  have printed: "v1_to_string v = join ''.'' (map to_string ns) @ t"
    using assms(3) by (simp add: v1_to_string_def v1_to_string_level_def v1_print_own_level v1_is_version_def
        ns_def t_def)
  have strip: "strip (v1_to_string v) = v1_to_string v"
    using assms v1_text_no_space by (auto intro!: strip_id)
  have "resize_numbers (nat minimum_level) [] = [0, 0, 0]"
    by code_simp
  then have parts: "add_parts (resize_numbers (nat minimum_level) []) 0 ns = ns"
    using v(1) by (simp add: add_parts_result)
  have "part_start (join ''.'' (map to_string ns) @ t) (resize_numbers (nat minimum_level) []) 0
      = Inr (True, ns, v1_extra v)"
  proof (cases "v1_extra v = []")
    case True
    then show ?thesis
      using part_start_join [OF v(2,3), of "resize_numbers (nat minimum_level) []" 0] parts by (simp add: t_def)
  next
    case False
    then have "extra_start (v1_print_extra v) [] = (True, v1_extra v)"
      using v(5) extra_start_join [of "v1_extra v" "[]"]
      by (simp add: v1_print_extra_eq extra_print_join extra_canonical_def)
    then show ?thesis
      using False part_start_join [OF v(2,3), of "resize_numbers (nat minimum_level) []" 0 "v1_print_extra v"] parts
      by (simp add: t_def)
  qed
  moreover have "v = \<lparr>v1_numbers = ns, v1_extra = v1_extra v, v1_branch = []\<rparr>"
    using assms(3) by (simp add: ns_def v1_is_version_def)
  ultimately show ?thesis
    using assms(3) strip v(6) numbers_start [OF v(2,3), of t] first_numbers_id [OF v(4)]
    by (simp add: v1_of_string_def v1_parse_def v1_default_def printed v1_is_branch_def v1_is_version_def)
qed

text \<open>
  C29: What the first generation prints it reads back, versions and branches: for a version with at
  least three numbers that are not all zero, and for the name of a branch of at most 200 characters.
\<close>

theorem generation_1_roundtrip:
  assumes "strip_law strip" "v1_printable v"
  shows "v1_of_string strip (v1_to_string v) = Inr v"
  using v1_read_branch [OF assms] v1_read_version [OF assms] by (auto simp: v1_is_branch_def)

lemma generation_1_roundtrip_witness:
  "v1_of_string strip_ws (v1_to_string \<lparr>v1_numbers = [1, 20, 0, 4], v1_extra = [EStr ''rc'', ENum 2], v1_branch = []\<rparr>)
     = Inr \<lparr>v1_numbers = [1, 20, 0, 4], v1_extra = [EStr ''rc'', ENum 2], v1_branch = []\<rparr>
   \<and> v1_of_string strip_ws (v1_to_string \<lparr>v1_numbers = [0, 0, 1], v1_extra = [], v1_branch = ''my-branch''\<rparr>)
     = Inr \<lparr>v1_numbers = [0, 0, 1], v1_extra = [], v1_branch = ''my-branch''\<rparr>"
proof (intro conjI generation_1_roundtrip [OF strip_law_strip_ws])
  show "v1_printable \<lparr>v1_numbers = [1, 20, 0, 4], v1_extra = [EStr ''rc'', ENum 2], v1_branch = []\<rparr>"
    by code_simp
  show "v1_printable \<lparr>v1_numbers = [0, 0, 1], v1_extra = [], v1_branch = ''my-branch''\<rparr>"
    by code_simp
qed

end
