(* ===== verification/RangeOne.thy ===== *)
theory RangeOne
  imports VersionOne VersionRange
begin

text \<open>
  The first generation of \<open>primitives::version::VersionRange\<close> (version1/version_range.h,
  version_range.cpp) and \<open>findBestMatch\<close> (version1/version_helpers.h): a range is a vector of closed
  intervals or the name of a branch. Union, intersection and what they contain; comparison with a
  version; printing. As in \<open>VersionOne\<close> the standard decides how versions compare.
\<close>

section \<open>Intervals\<close>

record pair1 =
  p1_first :: version1
  p1_second :: version1

definition mk_pair1 :: "version1 \<Rightarrow> version1 \<Rightarrow> pair1" where
  "mk_pair1 a b = \<lparr>p1_first = a, p1_second = b\<rparr>"

text \<open>\<open>std::max\<close> and \<open>std::min\<close>: of equal versions the first one.\<close>

definition std_max :: "standard \<Rightarrow> version1 \<Rightarrow> version1 \<Rightarrow> version1" where
  "std_max s a b = (if v1_lt s a b then b else a)"

definition std_min :: "standard \<Rightarrow> version1 \<Rightarrow> version1 \<Rightarrow> version1" where
  "std_min s a b = (if v1_lt s b a then b else a)"

definition pair1_is_branch :: "pair1 \<Rightarrow> bool" where
  "pair1_is_branch p \<longleftrightarrow> v1_is_branch (p1_first p) \<or> v1_is_branch (p1_second p)"

definition pair1_has :: "standard \<Rightarrow> pair1 \<Rightarrow> version1 \<Rightarrow> bool" where
  "pair1_has s p v \<longleftrightarrow> v1_le s (p1_first p) v \<and> v1_le s v (p1_second p)"

definition pair1_and :: "standard \<Rightarrow> pair1 \<Rightarrow> pair1 \<Rightarrow> pair1 option" where
  "pair1_and s p q =
     (if pair1_is_branch p then Some p
      else if pair1_is_branch q then Some q
      else
        let f = std_max s (p1_first p) (p1_first q); e = std_min s (p1_second p) (p1_second q)
        in if v1_gt s f e then None else Some (mk_pair1 f e))"

definition pair1_to_version :: "pair1 \<Rightarrow> version1 option" where
  "pair1_to_version p = (if v1_ne (p1_first p) (p1_second p) then None else Some (p1_first p))"

definition pair1_hash :: "(string \<Rightarrow> 'h) \<Rightarrow> ('h \<Rightarrow> 'h \<Rightarrow> 'h) \<Rightarrow> ('h \<Rightarrow> int \<Rightarrow> 'h) \<Rightarrow> 'h \<Rightarrow> pair1 \<Rightarrow> 'h" where
  "pair1_hash string_hash combine_hash hash_combine zero p =
     combine_hash (combine_hash zero (v1_hash string_hash hash_combine zero (p1_first p)))
       (v1_hash string_hash hash_combine zero (p1_second p))"

text \<open>
  \<open>RangePair::toString\<close>. The number of printed numbers depends on the representation; an upper end
  whose third or fourth number is the greatest one is printed as the version after it, excluded.
\<close>

definition lower_text :: "repr \<Rightarrow> int \<Rightarrow> version1 \<Rightarrow> version1 \<Rightarrow> string" where
  "lower_text t level mn f =
     (if v1_ne f mn
      then ''>='' @ v1_to_string_level ''.'' (if t = IndividualRealLevel then v1_real_level f else level) f
      else [])"

definition spaced :: "string \<Rightarrow> string" where
  "spaced s = (if s \<noteq> [] then s @ '' '' else s)"

definition below_text :: "repr \<Rightarrow> int \<Rightarrow> version1 \<Rightarrow> pair1 \<Rightarrow> string \<Rightarrow> string result" where
  "below_text t level mn p s =
     (if t = IndividualRealLevel then
        bind_result (v1_next_at (v1_real_level (p1_second p)) (p1_second p)) (\<lambda>nv.
          Inr (spaced s @ ''<'' @ v1_to_string_level ''.'' (v1_real_level nv) nv))
      else bind_result (v1_next_at level (p1_second p)) (\<lambda>nv.
        if t = SameRealLevel then
          let l = max (v1_real_level (p1_first p)) (v1_real_level nv)
          in Inr (spaced (lower_text t l mn (p1_first p)) @ ''<'' @ v1_to_string_level ''.'' l nv)
        else Inr (spaced s @ ''<'' @ v1_to_string_level ''.'' level nv)))"

definition pair1_to_string :: "repr \<Rightarrow> pair1 \<Rightarrow> string result" where
  "pair1_to_string t p =
     (let f = p1_first p; e = p1_second p;
          level = (if t = SameRealLevel then max (v1_real_level f) (v1_real_level e)
                   else max (v1_level f) (v1_level e))
      in if v1_is_branch f then Inr (v1_to_string f)
         else if v1_is_branch e then Inr (v1_to_string e)
         else if v1_eq f e then
           Inr (v1_to_string_level ''.'' (if t = IndividualRealLevel then v1_real_level f else level) f)
         else bind_result (v1_min_like f) (\<lambda>mn.
           let s = lower_text t level mn f;
               upto = spaced s @ ''<=''
                 @ v1_to_string_level ''.'' (if t = IndividualRealLevel then v1_real_level e else level) e
           in if \<not> list_ex (\<lambda>n. n = max_number) (v1_numbers e) then Inr upto
              else bind_result (v1_max_like e) (\<lambda>mx.
                if v1_eq e mx then Inr (if s = [] then ''*'' else s)
                else bind_result (v1_patch e) (\<lambda>pa. bind_result (v1_tweak e) (\<lambda>tw.
                  if pa = max_number \<or> tw = max_number then below_text t level mn p s
                  else Inr upto)))))"

section \<open>Ranges\<close>

record range1 =
  r1_pairs :: "pair1 list"
  r1_branch :: string

definition r1_is_branch :: "range1 \<Rightarrow> bool" where
  "r1_is_branch r \<longleftrightarrow> r1_branch r \<noteq> []"

definition r1_is_empty :: "range1 \<Rightarrow> bool" where
  "r1_is_empty r \<longleftrightarrow> r1_pairs r = [] \<and> \<not> r1_is_branch r"

definition r1_size :: "range1 \<Rightarrow> nat" where
  "r1_size r = length (r1_pairs r)"

definition r1_empty :: range1 where
  "r1_empty = \<lparr>r1_pairs = [], r1_branch = []\<rparr>"

text \<open>The constructors from two versions, from one and from a level.\<close>

definition r1_of_versions :: "standard \<Rightarrow> version1 \<Rightarrow> version1 \<Rightarrow> range1 result" where
  "r1_of_versions s a b =
     (if v1_is_branch a \<and> v1_is_branch b then
        if v1_ne a b then Inl (Runtime_error ''Cannot initialize version range from two different versions'')
        else Inr (r1_empty\<lparr>r1_branch := v1_to_string a\<rparr>)
      else if v1_is_branch a \<or> v1_is_branch b then
        Inl (Runtime_error ''Cannot initialize version range from branch and non-branch versions'')
      else if v1_gt s a b then Inr (r1_empty\<lparr>r1_pairs := [mk_pair1 b a]\<rparr>)
      else Inr (r1_empty\<lparr>r1_pairs := [mk_pair1 a b]\<rparr>))"

definition r1_of_version :: "standard \<Rightarrow> version1 \<Rightarrow> range1 result" where
  "r1_of_version s v = r1_of_versions s v v"

definition r1_of_level :: "standard \<Rightarrow> int \<Rightarrow> range1 result" where
  "r1_of_level s level =
     bind_result (v1_min level) (\<lambda>a. bind_result (v1_max level) (\<lambda>b. r1_of_versions s a b))"

definition r1_default :: "standard \<Rightarrow> range1 result" where
  "r1_default s = r1_of_level s minimum_level"

definition r1_full :: "range1 result" where
  "r1_full = bind_result (v1_min minimum_level) (\<lambda>a. bind_result (v1_max minimum_level) (\<lambda>b.
     Inr (r1_empty\<lparr>r1_pairs := [mk_pair1 a b]\<rparr>)))"

text \<open>The generated parser is a parameter: its error, or the range it has stored, if any.\<close>

definition r1_parse_into :: "(string \<Rightarrow> string + range1 option) \<Rightarrow> string \<Rightarrow> string + range1" where
  "r1_parse_into parser s =
     (if length s > 32 * 1024 then Inl ''Range string length must be less than 32K''
      else case parser s of
        Inl e \<Rightarrow> Inl e
      | Inr None \<Rightarrow> Inl ''parser error: empty result''
      | Inr (Some r) \<Rightarrow> Inr r)"

definition r1_of_string ::
  "(string \<Rightarrow> string + range1 option) \<Rightarrow> (string \<Rightarrow> string) \<Rightarrow> string \<Rightarrow> range1 result" where
  "r1_of_string parser strip s =
     (let i = strip s
      in if i = [] then r1_full
         else case r1_parse_into parser i of
           Inl e \<Rightarrow> Inl (Runtime_error (''Invalid version range: '' @ i @ '', error: '' @ e))
         | Inr r \<Rightarrow> Inr r)"

text \<open>
  \<open>VersionRange::parse\<close> starts with the default range, so that an empty text gives every version
  twice.
\<close>

definition r1_parse ::
  "standard \<Rightarrow> (string \<Rightarrow> string + range1 option) \<Rightarrow> (string \<Rightarrow> string) \<Rightarrow> string \<Rightarrow> range1 option result" where
  "r1_parse s parser strip t =
     (let i = strip t
      in if i = [] then bind_result (r1_default s) (\<lambda>d. bind_result r1_full (\<lambda>f.
           Inr (Some (d\<lparr>r1_pairs := r1_pairs d @ r1_pairs f\<rparr>))))
         else case r1_parse_into parser i of Inl e \<Rightarrow> Inr None | Inr r \<Rightarrow> Inr (Some r))"

definition r1_has :: "standard \<Rightarrow> range1 \<Rightarrow> version1 \<Rightarrow> bool" where
  "r1_has s r v =
     (if r1_is_branch r \<and> v1_is_branch v then r1_branch r = v1_branch v
      else if r1_is_branch r \<or> v1_is_branch v then False
      else list_ex (\<lambda>p. pair1_has s p v) (r1_pairs r))"

definition r1_to_version :: "(string \<Rightarrow> string) \<Rightarrow> range1 \<Rightarrow> version1 option result" where
  "r1_to_version strip r =
     (if r1_is_branch r then bind_result (v1_of_string strip (r1_branch r)) (\<lambda>v. Inr (Some v))
      else if r1_size r \<noteq> 1 then Inr None
      else Inr (pair1_to_version (hd (r1_pairs r))))"

definition r1_to_string_repr :: "repr \<Rightarrow> range1 \<Rightarrow> string result" where
  "r1_to_string_repr t r =
     (if r1_is_branch r then Inr (r1_branch r)
      else bind_result (map_result (pair1_to_string t) (r1_pairs r)) (\<lambda>ts.
        let s = concat (map (\<lambda>u. u @ '' || '') ts)
        in Inr (if s \<noteq> [] then take (length s - 4) s else s)))"

definition r1_to_string :: "range1 \<Rightarrow> string result" where
  "r1_to_string r = r1_to_string_repr SameDefaultLevel r"

text \<open>
  \<open>toStringV1\<close>: the numbers of the lower end of the first interval, without those that are free. An
  empty vector, or a version of fewer than three numbers, is read outside its bounds.
\<close>

definition r1_to_string_v1 :: "range1 \<Rightarrow> string result" where
  "r1_to_string_v1 r =
     (if r1_is_branch r then Inr (r1_branch r)
      else case r1_pairs r of
        [] \<Rightarrow> Inl Undefined
      | p # _ \<Rightarrow>
        bind_result (v1_min minimum_level) (\<lambda>mn. bind_result (v1_max minimum_level) (\<lambda>mx.
          let f = p1_first p; a = v1_numbers f; b = v1_numbers (p1_second p)
          in if v1_eq f mn \<and> v1_eq (p1_second p) mx then Inr ''*''
             else if length a < 3 \<or> length b < 3 then Inl Undefined
             else
               let free = ((v1_eq f mn \<and> a ! 2 = 1 \<or> v1_ne f mn \<and> a ! 2 = 0) \<and> b ! 2 = max_number);
                   n = (if free then [] else [a ! 2])
                     @ concat (map (\<lambda>i. if a ! i = 0 \<and> b ! i = max_number then [] else [a ! i]) [1, 0])
               in Inr (v1_to_string (v1_default\<lparr>v1_numbers := rev n\<rparr>)))))"

definition r1_hash :: "(string \<Rightarrow> 'h) \<Rightarrow> ('h \<Rightarrow> 'h \<Rightarrow> 'h) \<Rightarrow> ('h \<Rightarrow> int \<Rightarrow> 'h) \<Rightarrow> 'h \<Rightarrow> range1 \<Rightarrow> 'h" where
  "r1_hash string_hash combine_hash hash_combine zero r =
     (if r1_is_branch r then string_hash (r1_branch r)
      else foldl (\<lambda>h p. combine_hash h (pair1_hash string_hash combine_hash hash_combine zero p)) zero (r1_pairs r))"

text \<open>Vectors of intervals compare lexicographically, and so do intervals.\<close>

definition pair1_lt :: "standard \<Rightarrow> pair1 \<Rightarrow> pair1 \<Rightarrow> bool" where
  "pair1_lt s p q \<longleftrightarrow>
     v1_lt s (p1_first p) (p1_first q)
     \<or> \<not> v1_lt s (p1_first q) (p1_first p) \<and> v1_lt s (p1_second p) (p1_second q)"

fun pairs1_lt :: "standard \<Rightarrow> pair1 list \<Rightarrow> pair1 list \<Rightarrow> bool" where
  "pairs1_lt s _ [] \<longleftrightarrow> False"
| "pairs1_lt s [] (q # qs) \<longleftrightarrow> True"
| "pairs1_lt s (p # ps) (q # qs) \<longleftrightarrow> pair1_lt s p q \<or> \<not> pair1_lt s q p \<and> pairs1_lt s ps qs"

definition r1_lt :: "standard \<Rightarrow> range1 \<Rightarrow> range1 \<Rightarrow> bool" where
  "r1_lt s r r' =
     (if r1_is_branch r \<and> r1_is_branch r' then r1_branch r < r1_branch r'
      else if r1_is_branch r then False
      else if r1_is_branch r' then True
      else if r1_pairs r' = [] then False
      else if r1_pairs r = [] then True
      else pairs1_lt s (r1_pairs r) (r1_pairs r'))"

definition r1_eq :: "range1 \<Rightarrow> range1 \<Rightarrow> bool" where
  "r1_eq r r' \<longleftrightarrow>
     list_all2 (\<lambda>p q. v1_eq (p1_first p) (p1_first q) \<and> v1_eq (p1_second p) (p1_second q)) (r1_pairs r) (r1_pairs r')
     \<and> r1_branch r = r1_branch r'"

section \<open>Union and intersection\<close>

text \<open>
  \<open>operator|=(const RangePair \&)\<close>. \<open>or1_search\<close> is the loop while \<open>added\<close> is false; the insertion
  leaves it without setting \<open>added\<close>, and the interval is appended again. \<open>or1_merge\<close> is the loop
  afterwards, with the element before the iterator.
\<close>

fun or1_merge :: "standard \<Rightarrow> pair1 \<Rightarrow> pair1 list \<Rightarrow> pair1 list" where
  "or1_merge s prev [] = [prev]"
| "or1_merge s prev (i # is) =
     (if v1_lt s (p1_second prev) (p1_first i) then prev # i # is
      else or1_merge s (prev\<lparr>p1_second := std_max s (p1_second prev) (p1_second i)\<rparr>) is)"

definition joined :: "standard \<Rightarrow> pair1 \<Rightarrow> pair1 \<Rightarrow> pair1" where
  "joined s i p = mk_pair1 (std_min s (p1_first i) (p1_first p)) (std_max s (p1_second i) (p1_second p))"

fun or1_search :: "standard \<Rightarrow> pair1 list \<Rightarrow> pair1 \<Rightarrow> (pair1 list \<times> bool) result" where
  "or1_search s [] p = Inr ([], False)"
| "or1_search s (i # is) p =
     (if v1_lt s (p1_second i) (p1_first p) then
        bind_result (v1_increment (p1_second i)) (\<lambda>v.
          if v1_eq v (p1_first p) then Inr (or1_merge s (joined s i p) is, True)
          else bind_result (or1_search s is p) (\<lambda>(r, added). Inr (i # r, added)))
      else if v1_gt s (p1_first i) (p1_second p) then Inr (p # i # is, False)
      else Inr (or1_merge s (joined s i p) is, True))"

definition r1_or_pair :: "standard \<Rightarrow> range1 \<Rightarrow> pair1 \<Rightarrow> range1 result" where
  "r1_or_pair s r p =
     (if r1_is_branch r then Inl (Runtime_error ''Cannot |= with branch on LHS'')
      else if pair1_is_branch p then
        if \<not> r1_is_empty r then Inl (Runtime_error ''Cannot |= with branch on RHS'')
        else bind_result (pair1_to_string IndividualRealLevel p) (\<lambda>b. Inr \<lparr>r1_pairs = [], r1_branch = b\<rparr>)
      else bind_result (or1_search s (r1_pairs r) p) (\<lambda>(ps, added).
        Inr (r\<lparr>r1_pairs := if \<not> added then ps @ [p] else ps\<rparr>)))"

text \<open>\<open>operator&=(const RangePair \&)\<close> intersects all the intervals with each other.\<close>

fun and1_loop :: "standard \<Rightarrow> pair1 \<Rightarrow> pair1 list \<Rightarrow> pair1 option" where
  "and1_loop s p [] = Some p"
| "and1_loop s p (i # is) =
     (let f = std_max s (p1_first i) (p1_first p); e = std_min s (p1_second i) (p1_second p)
      in if v1_gt s f e then None else and1_loop s (mk_pair1 f e) is)"

definition r1_and_pair :: "standard \<Rightarrow> range1 \<Rightarrow> pair1 \<Rightarrow> range1 result" where
  "r1_and_pair s r p =
     (if r1_is_branch r then Inl (Runtime_error ''Cannot &= with branch on LHS'')
      else if pair1_is_branch p then
        if \<not> r1_is_empty r then Inl (Runtime_error ''Cannot &= with branch on RHS'')
        else bind_result (pair1_to_string IndividualRealLevel p) (\<lambda>b. Inr \<lparr>r1_pairs = [], r1_branch = b\<rparr>)
      else if r1_pairs r = [] then Inr r
      else Inr (r\<lparr>r1_pairs := case and1_loop s p (r1_pairs r) of None \<Rightarrow> [] | Some q \<Rightarrow> [q]\<rparr>))"

fun or1_pairs :: "standard \<Rightarrow> range1 \<Rightarrow> pair1 list \<Rightarrow> range1 result" where
  "or1_pairs s r [] = Inr r"
| "or1_pairs s r (p # ps) = bind_result (r1_or_pair s r p) (\<lambda>r'. or1_pairs s r' ps)"

definition r1_or :: "standard \<Rightarrow> range1 \<Rightarrow> range1 \<Rightarrow> range1 result" where
  "r1_or s r r' =
     (if r1_is_branch r then Inl (Runtime_error ''Cannot |= with branch on LHS'')
      else if r1_is_branch r' then
        if \<not> r1_is_empty r then Inl (Runtime_error ''Cannot |= with branch on RHS'')
        else bind_result (r1_to_string r') (\<lambda>b. Inr \<lparr>r1_pairs = [], r1_branch = b\<rparr>)
      else or1_pairs s r (r1_pairs r'))"

definition r1_and :: "standard \<Rightarrow> range1 \<Rightarrow> range1 \<Rightarrow> range1 result" where
  "r1_and s r r' =
     (if r1_is_branch r then Inl (Runtime_error ''Cannot &= with branch on LHS'')
      else if r1_is_branch r' then
        if \<not> r1_is_empty r then Inl (Runtime_error ''Cannot &= with branch on RHS'')
        else bind_result (r1_to_string r') (\<lambda>b. Inr \<lparr>r1_pairs = [], r1_branch = b\<rparr>)
      else or1_pairs s r1_empty
        (concat (map (\<lambda>p. concat (map (\<lambda>q. case pair1_and s p q of Some u \<Rightarrow> [u] | None \<Rightarrow> []) (r1_pairs r')))
          (r1_pairs r))))"

section \<open>Versions and ranges\<close>

text \<open>A comparison of a range with a version reads the name of a branch as a version.\<close>

definition r1_branch_version :: "(string \<Rightarrow> string) \<Rightarrow> range1 \<Rightarrow> (version1 \<Rightarrow> bool) \<Rightarrow> bool result" where
  "r1_branch_version strip r f = bind_result (v1_of_string strip (r1_branch r)) (\<lambda>b. Inr (f b))"

definition r1_below :: "standard \<Rightarrow> (string \<Rightarrow> string) \<Rightarrow> range1 \<Rightarrow> version1 \<Rightarrow> bool result" where
  "r1_below s strip r v =
     (if r1_is_empty r then Inr False
      else if r1_is_branch r then r1_branch_version strip r (\<lambda>b. v1_lt s b v)
      else Inr (v1_lt s (p1_second (last (r1_pairs r))) v))"

definition below_r1 :: "standard \<Rightarrow> (string \<Rightarrow> string) \<Rightarrow> version1 \<Rightarrow> range1 \<Rightarrow> bool result" where
  "below_r1 s strip v r =
     (if r1_is_empty r then Inr False
      else if r1_is_branch r then r1_branch_version strip r (\<lambda>b. v1_lt s v b)
      else Inr (v1_lt s v (p1_first (hd (r1_pairs r)))))"

definition r1_above :: "standard \<Rightarrow> (string \<Rightarrow> string) \<Rightarrow> range1 \<Rightarrow> version1 \<Rightarrow> bool result" where
  "r1_above s strip r v =
     (if r1_is_empty r then Inr False
      else if r1_is_branch r then r1_branch_version strip r (\<lambda>b. v1_gt s b v)
      else Inr (v1_gt s (p1_first (hd (r1_pairs r))) v))"

definition above_r1 :: "standard \<Rightarrow> (string \<Rightarrow> string) \<Rightarrow> version1 \<Rightarrow> range1 \<Rightarrow> bool result" where
  "above_r1 s strip v r =
     (if r1_is_empty r then Inr False
      else if r1_is_branch r then r1_branch_version strip r (\<lambda>b. v1_gt s v b)
      else Inr (v1_gt s v (p1_second (last (r1_pairs r)))))"

definition r1_is_outside :: "standard \<Rightarrow> (string \<Rightarrow> string) \<Rightarrow> range1 \<Rightarrow> version1 \<Rightarrow> bool result" where
  "r1_is_outside s strip r v =
     bind_result (r1_below s strip r v) (\<lambda>b. if b then Inr True else r1_above s strip r v)"

text \<open>The versions of a set, in ascending order.\<close>

definition r1_min_satisfying :: "standard \<Rightarrow> range1 \<Rightarrow> version1 list \<Rightarrow> version1 option" where
  "r1_min_satisfying s r vs = find (r1_has s r) vs"

definition r1_max_satisfying :: "standard \<Rightarrow> range1 \<Rightarrow> version1 list \<Rightarrow> version1 option" where
  "r1_max_satisfying s r vs = find (r1_has s r) (rev vs)"

text \<open>\<open>findBestMatch\<close>: the place of the first element with the greatest matching level, if it is positive.\<close>

fun best_match :: "('e \<Rightarrow> version1) \<Rightarrow> version1 \<Rightarrow> bool \<Rightarrow> 'e list \<Rightarrow> nat \<Rightarrow> int \<Rightarrow> nat option \<Rightarrow> nat option" where
  "best_match key what pre [] i m best = best"
| "best_match key what pre (e # es) i m best =
     (if \<not> pre \<and> v1_is_pre_release (key e) then best_match key what pre es (i + 1) m best
      else
        let l = v1_matching_level (key e) what
        in if l > m then best_match key what pre es (i + 1) l (Some i)
           else best_match key what pre es (i + 1) m best)"

definition find_best_match :: "('e \<Rightarrow> version1) \<Rightarrow> 'e list \<Rightarrow> version1 \<Rightarrow> bool \<Rightarrow> nat option" where
  "find_best_match key es what pre = best_match key what (v1_is_pre_release what \<or> pre) es 0 0 None"

section \<open>What a union contains\<close>

text \<open>Intervals that are not empty, in ascending order and apart.\<close>

definition pair1_ok :: "standard \<Rightarrow> pair1 \<Rightarrow> bool" where
  "pair1_ok s p \<longleftrightarrow> \<not> v1_lt s (p1_second p) (p1_first p)"

definition ascending :: "standard \<Rightarrow> pair1 list \<Rightarrow> bool" where
  "ascending s ps \<longleftrightarrow>
     list_all (pair1_ok s) ps \<and> sorted_wrt (\<lambda>p q. v1_lt s (p1_second p) (p1_first q)) ps"

definition pairs1_have :: "standard \<Rightarrow> pair1 list \<Rightarrow> version1 \<Rightarrow> bool" where
  "pairs1_have s ps v \<longleftrightarrow> list_ex (\<lambda>p. pair1_has s p v) ps"

text \<open>The versions between an interval and one that starts at the successor of its end.\<close>

definition in_gap :: "standard \<Rightarrow> pair1 list \<Rightarrow> pair1 \<Rightarrow> version1 \<Rightarrow> bool" where
  "in_gap s ps p v \<longleftrightarrow>
     list_ex (\<lambda>i. (case v1_increment (p1_second i) of Inr w \<Rightarrow> v1_eq w (p1_first p) | Inl _ \<Rightarrow> False)
       \<and> v1_lt s (p1_second i) v \<and> v1_lt s v (p1_first p)) ps"

lemma pair1_has_iff: "pair1_has s p v \<longleftrightarrow> \<not> v1_lt s v (p1_first p) \<and> \<not> v1_lt s (p1_second p) v"
  by (simp add: pair1_has_def v1_le_not_lt)

lemma pairs1_have_simps [simp]:
  "pairs1_have s [] v \<longleftrightarrow> False"
  "pairs1_have s (p # ps) v \<longleftrightarrow> pair1_has s p v \<or> pairs1_have s ps v"
  "pairs1_have s (ps @ qs) v \<longleftrightarrow> pairs1_have s ps v \<or> pairs1_have s qs v"
  by (simp_all add: pairs1_have_def)

lemma ascending_Cons:
  "ascending s (p # ps) \<longleftrightarrow>
     pair1_ok s p \<and> ascending s ps \<and> (\<forall>q\<in>set ps. v1_lt s (p1_second p) (p1_first q))"
  by (auto simp: ascending_def)

lemma p1_joined [simp]:
  "p1_first (joined s i p) = std_min s (p1_first i) (p1_first p)"
  "p1_second (joined s i p) = std_max s (p1_second i) (p1_second p)"
  by (simp_all add: joined_def mk_pair1_def)

lemma joined_has:
  assumes "pair1_ok s i" "pair1_ok s p" "\<not> v1_lt s (p1_second p) (p1_first i)"
  shows "pair1_has s (joined s i p) v \<longleftrightarrow> pair1_has s i v \<or> pair1_has s p v
    \<or> v1_lt s (p1_second i) v \<and> v1_lt s v (p1_first p)"
proof -
  obtain k :: "version1 \<Rightarrow> nat" where
    k: "\<And>x y. x \<in> {v, p1_first i, p1_second i, p1_first p, p1_second p} \<Longrightarrow>
          y \<in> {v, p1_first i, p1_second i, p1_first p, p1_second p} \<Longrightarrow> v1_lt s x y \<longleftrightarrow> k x < k y"
    by (rule v1o.rankedE [of "{v, p1_first i, p1_second i, p1_first p, p1_second p}" s]) simp_all
  then show ?thesis
    using assms by (auto simp: pair1_has_iff pair1_ok_def std_min_def std_max_def k)
qed

lemma or1_merge_has:
  assumes "pair1_ok s prev" "ascending s is" "\<forall>i\<in>set is. \<not> v1_lt s (p1_first i) (p1_first prev)"
  shows "pairs1_have s (or1_merge s prev is) v \<longleftrightarrow> pair1_has s prev v \<or> pairs1_have s is v"
  using assms
proof (induction "is" arbitrary: prev)
  case (Cons i "is")
  show ?case
  proof (cases "v1_lt s (p1_second prev) (p1_first i)")
    case False
    define u where "u = prev\<lparr>p1_second := std_max s (p1_second prev) (p1_second i)\<rparr>"
    have first: "\<not> v1_lt s (p1_first i) (p1_first prev)" and i: "pair1_ok s i"
      using Cons.prems by (auto simp: ascending_Cons)
    obtain k :: "version1 \<Rightarrow> nat" where
      k: "\<And>x y. x \<in> {v, p1_first prev, p1_second prev, p1_first i, p1_second i} \<Longrightarrow>
            y \<in> {v, p1_first prev, p1_second prev, p1_first i, p1_second i} \<Longrightarrow> v1_lt s x y \<longleftrightarrow> k x < k y"
      by (rule v1o.rankedE [of "{v, p1_first prev, p1_second prev, p1_first i, p1_second i}" s]) simp_all
    have "pair1_ok s u" "pair1_has s u v \<longleftrightarrow> pair1_has s prev v \<or> pair1_has s i v"
      using False first i Cons.prems(1) by (auto simp: u_def pair1_ok_def pair1_has_iff std_max_def k)
    then show ?thesis
      using Cons.IH [of u] Cons.prems False by (simp add: ascending_Cons u_def)
  qed simp
qed simp

lemma joined_ok: "pair1_ok s i \<Longrightarrow> pair1_ok s p \<Longrightarrow> pair1_ok s (joined s i p)"
  by (auto simp: pair1_ok_def std_min_def std_max_def intro: v1o.lt_trans dest: v1o.le_trans v1o.lt_asym)

text \<open>The first end of the joined interval is not above those of the intervals that follow.\<close>

lemma joined_first:
  assumes "ascending s (i # is)" "q \<in> set is"
  shows "\<not> v1_lt s (p1_first q) (p1_first (joined s i p))"
proof -
  have "\<not> v1_lt s (p1_second i) (p1_first i)" "v1_lt s (p1_second i) (p1_first q)"
    using assms by (auto simp: ascending_Cons pair1_ok_def)
  then have "v1_lt s (p1_first i) (p1_first q)"
    by (rule v1o.le_lt_trans)
  then show ?thesis
    by (auto simp: std_min_def dest: v1o.lt_asym v1o.lt_trans)
qed

lemma joined_merge_has:
  assumes "ascending s (i # is)" "pair1_ok s p" "\<not> v1_lt s (p1_second p) (p1_first i)"
  shows "pairs1_have s (or1_merge s (joined s i p) is) v \<longleftrightarrow>
    pairs1_have s (i # is) v \<or> pair1_has s p v \<or> v1_lt s (p1_second i) v \<and> v1_lt s v (p1_first p)"
  using assms or1_merge_has [of s "joined s i p" "is" v] joined_has [of s i p v] joined_ok [of s i p]
    joined_first [OF assms(1)]
  by (auto simp: ascending_Cons)

lemma after_pair:
  assumes "v1_lt s (p1_second i) (p1_first p)" "pair1_ok s i" "pair1_ok s p"
  shows "\<not> v1_lt s (p1_second p) (p1_first i)"
  using assms v1o.lt_le_trans v1o.lt_trans v1o.lt_asym unfolding pair1_ok_def by blast

lemma in_gap_Cons:
  "in_gap s (i # is) p v \<longleftrightarrow>
     (case v1_increment (p1_second i) of Inr w \<Rightarrow> v1_eq w (p1_first p) | Inl _ \<Rightarrow> False)
       \<and> v1_lt s (p1_second i) v \<and> v1_lt s v (p1_first p) \<or> in_gap s is p v"
  by (simp add: in_gap_def)

text \<open>Only an interval that ends in front of the new one has versions between them.\<close>

lemma no_gap:
  assumes "ascending s (i # is)" "\<not> v1_lt s (p1_second i) (p1_first p)"
  shows "\<not> in_gap s (i # is) p v"
proof -
  have "\<not> v1_lt s (p1_second q) (p1_first p)" if "q \<in> set (i # is)" for q
  proof (cases "q = i")
    case False
    then have "v1_lt s (p1_second i) (p1_first q)" "\<not> v1_lt s (p1_second q) (p1_first q)"
      using that assms(1) by (auto simp: ascending_Cons ascending_def list_all_iff pair1_ok_def)
    then have "v1_lt s (p1_second i) (p1_second q)"
      by (rule v1o.lt_le_trans)
    then show ?thesis
      using assms(2) by (blast intro: v1o.lt_trans)
  qed (use assms(2) in simp)
  then show ?thesis
    by (auto simp: in_gap_def list_ex_iff dest: v1o.lt_trans)
qed

text \<open>A gap behind a later interval is behind the first one, too.\<close>

lemma later_gap:
  assumes "ascending s (i # is)" "in_gap s is p v"
  shows "v1_lt s (p1_second i) v \<and> v1_lt s v (p1_first p)"
proof -
  obtain q where q: "q \<in> set is" "v1_lt s (p1_second q) v" "v1_lt s v (p1_first p)"
    using assms(2) by (auto simp: in_gap_def list_ex_iff)
  then have "v1_lt s (p1_second i) (p1_first q)" "\<not> v1_lt s (p1_second q) (p1_first q)"
    using assms(1) by (auto simp: ascending_Cons ascending_def list_all_iff pair1_ok_def)
  then have "v1_lt s (p1_second i) (p1_second q)"
    by (rule v1o.lt_le_trans)
  then show ?thesis
    using q by (blast intro: v1o.lt_trans)
qed

lemma or1_search_has:
  assumes "ascending s ps" "pair1_ok s p" "or1_search s ps p = Inr (qs, added)"
  shows "pairs1_have s (if \<not> added then qs @ [p] else qs) v \<longleftrightarrow>
    pairs1_have s ps v \<or> pair1_has s p v \<or> in_gap s ps p v"
  using assms
proof (induction ps arbitrary: qs added)
  case Nil
  then show ?case by (auto simp: in_gap_def)
next
  case (Cons i "is")
  show ?case
  proof (cases "v1_lt s (p1_second i) (p1_first p)")
    case True
    then obtain w where w: "v1_increment (p1_second i) = Inr w"
      using Cons.prems(3) by (cases "v1_increment (p1_second i)") auto
    have low: "\<not> v1_lt s (p1_second p) (p1_first i)"
      using after_pair [OF True _ Cons.prems(2)] Cons.prems(1) by (auto simp: ascending_Cons)
    show ?thesis
    proof (cases "v1_eq w (p1_first p)")
      case True
      then have "qs = or1_merge s (joined s i p) is" "added"
        using Cons.prems(3) \<open>v1_lt s (p1_second i) (p1_first p)\<close> w by auto
      then show ?thesis
        using joined_merge_has [OF Cons.prems(1,2) low, of v] later_gap [OF Cons.prems(1), of p v] True w
        by (auto simp: in_gap_Cons)
    next
      case False
      then obtain r where r: "or1_search s is p = Inr (r, added)" "qs = i # r"
        using Cons.prems(3) True w by (auto simp: bind_result_Inr_iff)
      then show ?thesis
        using Cons.IH [OF _ Cons.prems(2) r(1)] Cons.prems(1) False w
        by (auto simp: in_gap_Cons ascending_Cons)
    qed
  next
    case False
    note gap = no_gap [OF Cons.prems(1) False]
    show ?thesis
    proof (cases "v1_gt s (p1_first i) (p1_second p)")
      case True
      then show ?thesis
        using Cons.prems(3) False gap by auto
    next
      case meets: False
      then show ?thesis
        using Cons.prems(3) False gap joined_merge_has [OF Cons.prems(1,2), of v]
        by (auto simp: v1_gt_lt dest: v1o.lt_trans)
    qed
  qed
qed

lemma or1_search_returns:
  "\<forall>i\<in>set ps. \<exists>w. v1_increment (p1_second i) = Inr w \<Longrightarrow> \<exists>qs added. or1_search s ps p = Inr (qs, added)"
  by (induction ps) fastforce+

lemma r1_has_pairs:
  "\<not> r1_is_branch r \<Longrightarrow> v1_is_version v \<Longrightarrow> r1_has s r v \<longleftrightarrow> pairs1_have s (r1_pairs r) v"
  by (simp add: r1_has_def pairs1_have_def v1_is_branch_def)

text \<open>
  C27: The union of a range in ascending order with an interval exists, and it has the versions of
  both, and those between an interval of the range and the new one if the latter starts at the
  successor of the former's end: such intervals are merged, with the pre-releases and longer
  versions between them.
\<close>

theorem range_1_union:
  assumes "\<not> r1_is_branch r" "ascending s (r1_pairs r)" "\<not> pair1_is_branch p" "pair1_ok s p"
    "\<forall>i\<in>set (r1_pairs r). \<exists>w. v1_increment (p1_second i) = Inr w"
  shows "\<exists>r'. r1_or_pair s r p = Inr r' \<and> \<not> r1_is_branch r' \<and>
    (\<forall>v. v1_is_version v \<longrightarrow>
      (r1_has s r' v \<longleftrightarrow> r1_has s r v \<or> pair1_has s p v \<or> in_gap s (r1_pairs r) p v))"
proof -
  obtain qs added where search: "or1_search s (r1_pairs r) p = Inr (qs, added)"
    using or1_search_returns [OF assms(5)] by blast
  define r' where "r' = r\<lparr>r1_pairs := if \<not> added then qs @ [p] else qs\<rparr>"
  have "r1_or_pair s r p = Inr r'"
    using assms(1,3) search by (simp add: r1_or_pair_def r'_def)
  moreover have "\<not> r1_is_branch r'" "r1_pairs r' = (if \<not> added then qs @ [p] else qs)"
    using assms(1) by (simp_all add: r'_def r1_is_branch_def)
  ultimately show ?thesis
    using or1_search_has [OF assms(2,4) search] assms(1)
    by (intro exI [of _ r']) (simp add: r1_has_pairs)
qed

definition plain1 :: "int list \<Rightarrow> version1" where
  "plain1 ns = \<lparr>v1_numbers = ns, v1_extra = [], v1_branch = []\<rparr>"

definition plain_pair1 :: "int list \<Rightarrow> int list \<Rightarrow> pair1" where
  "plain_pair1 a b = mk_pair1 (plain1 a) (plain1 b)"

lemma range_1_union_witness:
  "\<exists>r'. r1_or_pair Until_17 (r1_empty\<lparr>r1_pairs := [plain_pair1 [1, 0, 0] [1, 0, 5]]\<rparr>)
      (plain_pair1 [1, 0, 6] [2, 0, 0]) = Inr r' \<and> r1_has Until_17 r' (plain1 [1, 0, 5, 7])"
proof -
  let ?r = "r1_empty\<lparr>r1_pairs := [plain_pair1 [1, 0, 0] [1, 0, 5]]\<rparr>"
  let ?p = "plain_pair1 [1, 0, 6] [2, 0, 0]"
  have "\<not> r1_is_branch ?r" "ascending Until_17 (r1_pairs ?r)" "\<not> pair1_is_branch ?p" "pair1_ok Until_17 ?p"
    "v1_increment (p1_second (plain_pair1 [1, 0, 0] [1, 0, 5])) = Inr (plain1 [1, 0, 6])"
    "v1_is_version (plain1 [1, 0, 5, 7])" "in_gap Until_17 (r1_pairs ?r) ?p (plain1 [1, 0, 5, 7])"
    by code_simp+
  then show ?thesis
    using range_1_union [of ?r Until_17 ?p] by auto
qed

text \<open>The intersection of two intervals is what both have.\<close>

lemma pair1_and_has:
  assumes "\<not> pair1_is_branch p" "\<not> pair1_is_branch q"
  shows "(case pair1_and s p q of Some u \<Rightarrow> pair1_has s u v | None \<Rightarrow> False) \<longleftrightarrow> pair1_has s p v \<and> pair1_has s q v"
proof -
  obtain k :: "version1 \<Rightarrow> nat" where
    k: "\<And>x y. x \<in> {v, p1_first p, p1_second p, p1_first q, p1_second q} \<Longrightarrow>
          y \<in> {v, p1_first p, p1_second p, p1_first q, p1_second q} \<Longrightarrow> v1_lt s x y \<longleftrightarrow> k x < k y"
    by (rule v1o.rankedE [of "{v, p1_first p, p1_second p, p1_first q, p1_second q}" s]) simp_all
  then show ?thesis
    using assms by (auto simp: pair1_and_def pair1_has_iff std_min_def std_max_def mk_pair1_def v1_gt_lt k Let_def)
qed

section \<open>What goes wrong\<close>

text \<open>
  An interval that is inserted in front of another one is appended, too. The vector is no longer in
  order, and a version of the range counts as outside of it.
\<close>

lemma union_appends_again:
  "r1_or_pair Until_17 (r1_empty\<lparr>r1_pairs := [plain_pair1 [5, 0, 0] [5, 0, 0]]\<rparr>) (plain_pair1 [1, 0, 0] [1, 0, 0])
     = Inr (r1_empty\<lparr>r1_pairs := [plain_pair1 [1, 0, 0] [1, 0, 0], plain_pair1 [5, 0, 0] [5, 0, 0],
                                plain_pair1 [1, 0, 0] [1, 0, 0]]\<rparr>)"
  "let r = r1_empty\<lparr>r1_pairs := [plain_pair1 [1, 0, 0] [1, 0, 0], plain_pair1 [5, 0, 0] [5, 0, 0],
                                plain_pair1 [1, 0, 0] [1, 0, 0]]\<rparr>
   in r1_has Until_17 r (plain1 [5, 0, 0]) \<and> r1_is_outside Until_17 strip_ws r (plain1 [5, 0, 0]) = Inr True"
  by code_simp+

text \<open>Intersecting with an interval treats a union as an intersection.\<close>

lemma intersection_of_all:
  "let r = r1_empty\<lparr>r1_pairs := [plain_pair1 [1, 0, 0] [1, 0, 0], plain_pair1 [5, 0, 0] [5, 0, 0]]\<rparr>;
       p = plain_pair1 [0, 0, 1] [9, 0, 0]
   in r1_has Until_17 r (plain1 [1, 0, 0]) \<and> pair1_has Until_17 p (plain1 [1, 0, 0])
     \<and> r1_and_pair Until_17 r p = Inr (r\<lparr>r1_pairs := []\<rparr>)"
  by code_simp

text \<open>An empty text gives the range of all versions to the constructor, and twice that to the parser.\<close>

lemma r1_full_value: "r1_full = Inr (r1_empty\<lparr>r1_pairs := [plain_pair1 [0, 0, 1] [999999999, 999999999, 999999999]]\<rparr>)"
  by code_simp

lemma r1_default_value: "r1_default s = r1_full"
  by (cases s; simp; code_simp)

lemma full_pair_text:
  "pair1_to_string SameDefaultLevel (plain_pair1 [0, 0, 1] [999999999, 999999999, 999999999]) = Inr ''*''"
proof -
  define f where "f = plain1 [0, 0, 1]"
  define e where "e = plain1 [999999999, 999999999, 999999999]"
  have facts: "\<not> v1_is_branch f" "\<not> v1_is_branch e" "\<not> v1_eq f e" "v1_min_like f = Inr f" "\<not> v1_ne f f"
    "list_ex (\<lambda>n. n = max_number) (v1_numbers e)" "v1_max_like e = Inr e" "v1_eq e e"
    unfolding f_def e_def by code_simp+
  have "plain_pair1 [0, 0, 1] [999999999, 999999999, 999999999] = \<lparr>p1_first = f, p1_second = e\<rparr>"
    by (simp add: plain_pair1_def mk_pair1_def f_def e_def)
  then show ?thesis
    using facts by (simp add: pair1_to_string_def lower_text_def)
qed

lemma empty_text_twice:
  "bind_result (r1_of_string parser strip_ws []) r1_to_string = Inr ''*''"
  "bind_result (r1_parse s parser strip_ws [])
     (\<lambda>r. case r of Some r \<Rightarrow> r1_to_string r | None \<Rightarrow> Inl Undefined) = Inr ''* || *''"
proof -
  have "strip_ws [] = []"
    by code_simp
  moreover have "r1_to_string (r1_empty\<lparr>r1_pairs := [plain_pair1 [0, 0, 1] [999999999, 999999999, 999999999]]\<rparr>) = Inr ''*''"
    "r1_to_string (r1_empty\<lparr>r1_pairs := [plain_pair1 [0, 0, 1] [999999999, 999999999, 999999999],
       plain_pair1 [0, 0, 1] [999999999, 999999999, 999999999]]\<rparr>) = Inr ''* || *''"
    by (simp_all add: r1_to_string_def r1_to_string_repr_def r1_is_branch_def r1_empty_def full_pair_text)
  ultimately show "bind_result (r1_of_string parser strip_ws []) r1_to_string = Inr ''*''"
    "bind_result (r1_parse s parser strip_ws [])
       (\<lambda>r. case r of Some r \<Rightarrow> r1_to_string r | None \<Rightarrow> Inl Undefined) = Inr ''* || *''"
    by (simp_all add: r1_of_string_def r1_parse_def r1_default_value r1_full_value)
qed

section \<open>The best match\<close>

text \<open>The candidates: a pre-release only if they are accepted.\<close>

definition candidate :: "('e \<Rightarrow> version1) \<Rightarrow> version1 \<Rightarrow> bool \<Rightarrow> 'e \<Rightarrow> bool" where
  "candidate key what pre e \<longleftrightarrow> v1_is_pre_release what \<or> pre \<or> v1_is_release (key e)"

text \<open>The element at place \<open>j\<close> has the greatest level, above \<open>m\<close>, and is the first one with it.\<close>

definition first_best :: "('e \<Rightarrow> int) \<Rightarrow> ('e \<Rightarrow> bool) \<Rightarrow> 'e list \<Rightarrow> int \<Rightarrow> nat \<Rightarrow> bool" where
  "first_best level cand es m j \<longleftrightarrow>
     j < length es \<and> cand (es ! j) \<and> m < level (es ! j)
     \<and> (\<forall>e\<in>set es. cand e \<longrightarrow> level e \<le> level (es ! j))
     \<and> (\<forall>k<j. cand (es ! k) \<longrightarrow> level (es ! k) < level (es ! j))"

lemma first_best_later:
  assumes "first_best level cand es m' j" "cand e \<longrightarrow> level e \<le> m'" "m \<le> m'"
  shows "first_best level cand (e # es) m (Suc j)"
  using assms by (auto simp: first_best_def less_Suc_eq_0_disj)

lemma first_best_here:
  assumes "\<forall>e\<in>set es. cand e \<longrightarrow> level e \<le> level e'" "cand e'" "m < level e'"
  shows "first_best level cand (e' # es) m 0"
  using assms by (auto simp: first_best_def)

lemma best_match_loop:
  fixes key :: "'e \<Rightarrow> version1" and pre :: bool and what :: version1
  defines "cand \<equiv> \<lambda>e :: 'e. pre \<or> v1_is_release (key e)"
    and "level \<equiv> \<lambda>e :: 'e. v1_matching_level (key e) what"
  shows "best_match key what pre es i m best = best \<and> (\<forall>e\<in>set es. cand e \<longrightarrow> level e \<le> m)
    \<or> (\<exists>j. best_match key what pre es i m best = Some (i + j) \<and> first_best level cand es m j)"
proof (induction es arbitrary: i m best)
  case (Cons e es)
  consider (skip) "\<not> cand e" | (less) "cand e" "level e \<le> m" | (greater) "cand e" "m < level e"
    by linarith
  then show ?case
  proof cases
    case skip
    then show ?thesis
      using Cons.IH [of "i + 1" m best] first_best_later [of level cand es m _ e m]
      by (fastforce simp: cand_def v1_is_release_def)
  next
    case less
    then show ?thesis
      using Cons.IH [of "i + 1" m best] first_best_later [of level cand es m _ e m]
      by (fastforce simp: cand_def level_def v1_is_release_def)
  next
    case greater
    then have "best_match key what pre (e # es) i m best = best_match key what pre es (i + 1) (level e) (Some i)"
      by (auto simp: cand_def level_def v1_is_release_def)
    then show ?thesis
      using Cons.IH [of "i + 1" "level e" "Some i"] greater first_best_here [of es cand level e m]
        first_best_later [of level cand es "level e" _ e m]
      by fastforce
  qed
qed simp

text \<open>
  \<open>findBestMatch\<close> finds the first of the versions that agree with the given one in most numbers,
  among the releases only unless pre-releases are asked for; it finds nothing exactly if none of
  these agrees in the first number.
\<close>

lemma find_best_match_best:
  "case find_best_match key es what pre of
     None \<Rightarrow> \<forall>e\<in>set es. candidate key what pre e \<longrightarrow> v1_matching_level (key e) what \<le> 0
   | Some j \<Rightarrow> first_best (\<lambda>e. v1_matching_level (key e) what) (candidate key what pre) es 0 j"
proof -
  have cand: "candidate key what pre = (\<lambda>e. (v1_is_pre_release what \<or> pre) \<or> v1_is_release (key e))"
    by (auto simp: candidate_def)
  show ?thesis
    unfolding find_best_match_def cand
    using best_match_loop [where key = key and what = what and pre = "v1_is_pre_release what \<or> pre"
        and es = es and i = 0 and m = 0 and best = None]
    by (auto split: option.splits)
qed

text \<open>A branch matches nothing, not even itself.\<close>

lemma branch_never_matched: "v1_is_branch what \<Longrightarrow> find_best_match key es what pre = None"
  using find_best_match_best [where key = key and es = es and what = what and pre = pre]
  by (auto simp: first_best_def v1_matching_level_def split: option.splits)

end
