(* ===== verification/SourceOne.thy ===== *)
theory SourceOne
  imports Source VersionOne
begin

text \<open>
  What the first generation of the package sources (source1/source.cpp) does in its own way: a version
  of the first generation is put into the texts of a source, downloads clean up after themselves
  differently, and the download of a Git tag tries four spellings and keeps the one it finds. The
  rest of the file is that of the second generation (\<open>Source\<close>).
\<close>

section \<open>Versions in the texts of a source\<close>

text \<open>
  \<open>applyVersion\<close>: the texts are formatted in place, one after the other. The URLs of \<open>RemoteFiles\<close> are
  the constant elements of a set, so that the overload that returns a text is called, and its result
  is dropped.
\<close>

definition apply1_git :: "(string \<Rightarrow> string result) \<Rightarrow> 'a git_scheme \<Rightarrow> 'a git_scheme result" where
  "apply1_git f s =
     bind_result (f (url s)) (\<lambda>u. bind_result (f (tag s)) (\<lambda>t. bind_result (f (branch s)) (\<lambda>b.
       Inr (s\<lparr>url := u, tag := t, branch := b\<rparr>))))"

definition apply1_bzr :: "(string \<Rightarrow> string result) \<Rightarrow> bzr \<Rightarrow> bzr result" where
  "apply1_bzr f s =
     bind_result (f (url s)) (\<lambda>u. bind_result (f (bzr_tag s)) (\<lambda>t. Inr (s\<lparr>url := u, bzr_tag := t\<rparr>)))"

definition apply1_cvs :: "(string \<Rightarrow> string result) \<Rightarrow> cvs \<Rightarrow> cvs result" where
  "apply1_cvs f s =
     bind_result (f (url s)) (\<lambda>u. bind_result (f (cvs_tag s)) (\<lambda>t. bind_result (f (cvs_branch s)) (\<lambda>b.
     bind_result (f (cvs_revision s)) (\<lambda>r.
       Inr (s\<lparr>url := u, cvs_tag := t, cvs_branch := b, cvs_revision := r\<rparr>)))))"

definition apply1_svn :: "(string \<Rightarrow> string result) \<Rightarrow> svn \<Rightarrow> svn result" where
  "apply1_svn f s =
     bind_result (f (url s)) (\<lambda>u. bind_result (f (svn_tag s)) (\<lambda>t. bind_result (f (svn_branch s)) (\<lambda>b.
       Inr (s\<lparr>url := u, svn_tag := t, svn_branch := b\<rparr>))))"

definition apply1_url :: "(string \<Rightarrow> string result) \<Rightarrow> source_url \<Rightarrow> source_url result" where
  "apply1_url f s = bind_result (f (url s)) (\<lambda>u. Inr (s\<lparr>url := u\<rparr>))"

definition apply1_files :: "(string \<Rightarrow> string result) \<Rightarrow> string list \<Rightarrow> string list result" where
  "apply1_files f us = bind_result (map_result f us) (\<lambda>_. Inr us)"

fun apply1_source :: "(string \<Rightarrow> string result) \<Rightarrow> source \<Rightarrow> source result" where
  "apply1_source f EmptySource = Inr EmptySource"
| "apply1_source f (Git s) = bind_result (apply1_git f s) (\<lambda>s. Inr (Git s))"
| "apply1_source f (Mercurial s) = bind_result (apply1_git f s) (\<lambda>s. Inr (Mercurial s))"
| "apply1_source f (Bazaar s) = bind_result (apply1_bzr f s) (\<lambda>s. Inr (Bazaar s))"
| "apply1_source f (Fossil s) = bind_result (apply1_git f s) (\<lambda>s. Inr (Fossil s))"
| "apply1_source f (Cvs s) = bind_result (apply1_cvs f s) (\<lambda>s. Inr (Cvs s))"
| "apply1_source f (Svn s) = bind_result (apply1_svn f s) (\<lambda>s. Inr (Svn s))"
| "apply1_source f (RemoteFile s) = bind_result (apply1_url f s) (\<lambda>s. Inr (RemoteFile s))"
| "apply1_source f (RemoteFiles us) = bind_result (apply1_files f us) (\<lambda>us. Inr (RemoteFiles us))"

definition apply_version1 ::
  "(string \<Rightarrow> (string \<times> fmt_arg) list \<Rightarrow> string result) \<Rightarrow> version1 \<Rightarrow> source \<Rightarrow> source result" where
  "apply_version1 fmt v s = apply1_source (v1_format fmt v) s"

section \<open>Downloads\<close>

text \<open>The archive is removed only after it has been unpacked.\<close>

definition download_and_unpack1 :: "'w env \<Rightarrow> string \<Rightarrow> string \<Rightarrow> string \<Rightarrow> int \<Rightarrow> ('w, unit) io" where
  "download_and_unpack1 E u fn unpack_dir max_size =
     (let fn = (if is_absolute E fn then fn else path_join E unpack_dir fn)
      in io_bind (download_file_checked E u fn max_size) (\<lambda>_.
         io_bind (unpack_file E fn unpack_dir) (\<lambda>_. remove_file E fn)))"

text \<open>\<open>downloadRepository\<close> with \<open>n\<close> tries left: after each failure the deleter runs, which may throw itself.\<close>

fun download_tries1 :: "nat \<Rightarrow> cpp_error option \<Rightarrow> ('w, unit) io \<Rightarrow> ('w, unit) io \<Rightarrow> ('w, unit) io" where
  "download_tries1 0 eptr f deleter w = (Inr (), w)"
| "download_tries1 (Suc n) eptr f deleter w =
     (case f w of
        (Inr _, w) \<Rightarrow> (Inr (), w)
      | (Inl e, w) \<Rightarrow>
          if \<not> is_exception e then (Inl e, w)
          else io_bind deleter (\<lambda>_ w.
            let eptr = (case eptr of None \<Rightarrow> e | Some e0 \<Rightarrow> e0)
            in if n = 0 then (Inl eptr, w) else download_tries1 n (Some eptr) f deleter w) w)"

definition download_repository1 :: "('w, unit) io \<Rightarrow> ('w, unit) io \<Rightarrow> ('w, unit) io" where
  "download_repository1 f deleter = download_tries1 3 None f deleter"

definition git1_download2 ::
  "'w env \<Rightarrow> (string \<Rightarrow> ('w, unit) io) \<Rightarrow> 'a git_scheme \<Rightarrow> string \<Rightarrow> string \<Rightarrow> ('w, unit) io" where
  "git1_download2 E remove_all s dir tg =
     (let program = download_repository1 (io_seq (map (execute E dir) (git_commands s tg)))
                      (remove_all (path_join E dir ''.git''))
      in if str_find ''github.com'' (url s) = None then program
         else
           case github_archive s tg of (u, name) \<Rightarrow>
             let fn = (if name = [] then [] else path_join E dir name)
             in (\<lambda>w. case download_and_unpack1 E u fn dir 0 w of
                  (Inr _, w) \<Rightarrow> (Inr (), w)
                | (Inl e, w) \<Rightarrow>
                    if \<not> is_exception e then (Inl e, w)
                    else if file_exists E fn w then io_bind (remove_file E fn) (\<lambda>_. program) w
                    else program w))"

text \<open>
  \<open>Git::download1\<close>: the tag; if that fails the tag with \<open>v\<close> in front; for a tag with \<open>.0\<close> at the end
  also without it, and that with \<open>v\<close> in front. The spelling that is found becomes the tag of the
  source. If nothing is found the first exception goes on.
\<close>

definition with_tag :: "'a git_scheme \<Rightarrow> string \<Rightarrow> ('w, unit) io \<Rightarrow> ('w, 'a git_scheme) io" where
  "with_tag s t m = io_bind m (\<lambda>_. io_return (s\<lparr>tag := t\<rparr>))"

definition git1_download1 ::
  "'w env \<Rightarrow> (string \<Rightarrow> ('w, unit) io) \<Rightarrow> 'a git_scheme \<Rightarrow> string \<Rightarrow> ('w, 'a git_scheme) io" where
  "git1_download1 E remove_all s dir =
     (let get = (\<lambda>t. with_tag s t (git1_download2 E remove_all s dir t))
      in io_catch (get (tag s)) (\<lambda>e.
        if \<not> try_v_tag_prefix s then io_throw e
        else if tag s = [] then io_throw (Runtime_error ''empty tag, but try_v_tag_prefix is specified'')
        else io_catch (get (''v'' @ tag s)) (\<lambda>_.
          if suffix ''.0'' (tag s) then
            let newtag = take (length (tag s) - 2) (tag s)
            in io_catch (get newtag) (\<lambda>_. io_catch (get (''v'' @ newtag)) (\<lambda>_. io_throw e))
          else io_throw e)))"

section \<open>Which tag is taken\<close>

text \<open>The spellings in the order in which they are tried.\<close>

definition tag_spellings :: "'a git_scheme \<Rightarrow> string list" where
  "tag_spellings s =
     tag s # (if \<not> try_v_tag_prefix s \<or> tag s = [] then []
              else (''v'' @ tag s) # (if suffix ''.0'' (tag s)
                then (let t = take (length (tag s) - 2) (tag s) in [t, ''v'' @ t]) else []))"

lemma with_tag_Inr: "with_tag s t m w = (Inr s', w') \<longleftrightarrow> m w = (Inr (), w') \<and> s' = s\<lparr>tag := t\<rparr>"
  by (auto simp: with_tag_def io_bind_Inr)

lemma io_catch_Inr:
  "io_catch m h w = (Inr x, w') \<longleftrightarrow>
     m w = (Inr x, w') \<or> (\<exists>e w1. m w = (Inl e, w1) \<and> is_exception e \<and> h e w1 = (Inr x, w'))"
  by (cases "m w") (auto simp: io_catch_def split: sum.splits)

text \<open>
  A download that succeeds leaves the source with the spelling of the tag that was downloaded,
  one of the spellings above; nothing else of the source changes.
\<close>

lemma downloaded_tag:
  assumes "git1_download1 E remove_all s dir w = (Inr s', w')"
  shows "s' = s\<lparr>tag := tag s'\<rparr> \<and> tag s' \<in> set (tag_spellings s)
    \<and> (\<exists>w1. git1_download2 E remove_all s dir (tag s') w1 = (Inr (), w'))"
  using assms
  by (auto simp: git1_download1_def Let_def io_catch_Inr with_tag_Inr io_throw_def tag_spellings_def
      split: if_splits)

text \<open>If every spelling fails, the exception of the first one is thrown.\<close>

lemma no_tag_downloaded:
  assumes "\<And>t w. t \<in> set (tag_spellings s) \<Longrightarrow>
      \<exists>w1. git1_download2 E remove_all s dir t w = (Inl (err t), w1) \<and> is_exception (err t)"
    "try_v_tag_prefix s" "tag s \<noteq> []"
  shows "\<exists>w1. git1_download1 E remove_all s dir w = (Inl (err (tag s)), w1)"
proof -
  have get: "\<exists>w1. with_tag s t (git1_download2 E remove_all s dir t) w = (Inl (err t), w1) \<and> is_exception (err t)"
    if "t \<in> set (tag_spellings s)" for t w
    using assms(1) [OF that, of w] by (auto simp: with_tag_def io_bind_def)
  have catch: "io_catch (with_tag s t (git1_download2 E remove_all s dir t)) h w
      = h (err t) (snd (with_tag s t (git1_download2 E remove_all s dir t) w))"
    if "t \<in> set (tag_spellings s)" for t h w
    using get [OF that, of w] by (auto simp: io_catch_def)
  show ?thesis
    using assms(2,3) catch [of "tag s"] catch [of "''v'' @ tag s"] catch [of "take (length (tag s) - 2) (tag s)"]
      catch [of "''v'' @ take (length (tag s) - 2) (tag s)"]
    by (auto simp: git1_download1_def Let_def tag_spellings_def io_throw_def)
qed

text \<open>The URLs of \<open>RemoteFiles\<close> stay as they are, whatever the version.\<close>

lemma remote_files_unchanged: "apply1_source f (RemoteFiles us) = Inr s \<Longrightarrow> s = RemoteFiles us"
  by (auto simp: apply1_files_def bind_result_Inr_iff)

text \<open>With a format that does not fail the other sources change as in the second generation.\<close>

lemma apply1_apply:
  assumes "\<forall>us. s \<noteq> RemoteFiles us"
  shows "apply1_source (\<lambda>t. Inr (f t)) s = Inr (apply_source f s)"
  using assms
  by (cases s) (simp_all add: apply1_git_def apply_git_def apply1_bzr_def apply1_cvs_def apply1_svn_def apply1_url_def)

end
