(* ===== verification/Yaml.thy ===== *)
theory Yaml
  imports Effects
begin

text \<open>
  Access to YAML documents and their merge (yaml.h). Nodes of yaml-cpp are references: the access
  functions only read them, so that a record of what they read is enough; the merge changes them, and
  its operations go through a store of nodes, so that two nodes may share their contents.
\<close>

section \<open>Nodes\<close>

datatype yaml_kind = Undefined_kind | Null_kind | Scalar_kind | Sequence_kind | Map_kind

record 'n yaml_lib =
  node_kind :: "'n \<Rightarrow> yaml_kind"
  node_member :: "'n \<Rightarrow> string \<Rightarrow> 'n result"
  node_elements :: "'n \<Rightarrow> 'n list"
  node_entries :: "'n \<Rightarrow> ('n \<times> 'n) list"
  node_text :: "'n \<Rightarrow> string result"

definition is_defined :: "'n yaml_lib \<Rightarrow> 'n \<Rightarrow> bool" where
  "is_defined Y n \<longleftrightarrow> node_kind Y n \<noteq> Undefined_kind"

section \<open>Access\<close>

definition must_be :: "string \<Rightarrow> string \<Rightarrow> 'a result" where
  "must_be key what = Inl (Runtime_error (CHR 0x27 # key @ CHR 0x27 # '' must be a '' @ what))"

text \<open>The conversion of a node to the type of the caller is \<open>conv\<close>.\<close>

definition get_scalar :: "'n yaml_lib \<Rightarrow> ('n \<Rightarrow> 't result) \<Rightarrow> 'n \<Rightarrow> string \<Rightarrow> 't \<Rightarrow> 't result" where
  "get_scalar Y conv node key dflt =
     bind_result (node_member Y node key) (\<lambda>n.
       if is_defined Y n then if node_kind Y n \<noteq> Scalar_kind then must_be key ''scalar'' else conv n
       else Inr dflt)"

definition get_scalar_f :: "'n yaml_lib \<Rightarrow> 'n \<Rightarrow> string \<Rightarrow> ('n \<Rightarrow> ('w, unit) io) \<Rightarrow> ('w, unit) io" where
  "get_scalar_f Y node key f =
     io_bind (lift_result (node_member Y node key)) (\<lambda>n.
       if is_defined Y n then if node_kind Y n \<noteq> Scalar_kind then lift_result (must_be key ''scalar'') else f n
       else io_return ())"

definition get_sequence :: "'n yaml_lib \<Rightarrow> ('n \<Rightarrow> 't result) \<Rightarrow> 'n \<Rightarrow> 't list result" where
  "get_sequence Y conv n =
     (if \<not> is_defined Y n then Inr []
      else if node_kind Y n = Scalar_kind then bind_result (conv n) (\<lambda>x. Inr [x])
      else if node_kind Y n = Sequence_kind then map_result conv (node_elements Y n)
      else Inr [])"

text \<open>The default is appended whether the sequence is there or not; an empty one is not.\<close>

definition get_sequence_at ::
  "'n yaml_lib \<Rightarrow> ('n \<Rightarrow> 't result) \<Rightarrow> ('t \<Rightarrow> bool) \<Rightarrow> 'n \<Rightarrow> string \<Rightarrow> 't \<Rightarrow> 't list result" where
  "get_sequence_at Y conv is_empty node key dflt =
     bind_result (node_member Y node key) (\<lambda>n.
       if is_defined Y n \<and> \<not> (node_kind Y n = Scalar_kind \<or> node_kind Y n = Sequence_kind) then must_be key ''sequence''
       else bind_result (get_sequence Y conv n) (\<lambda>xs. Inr (if \<not> is_empty dflt then xs @ [dflt] else xs)))"

text \<open>An ordered set is the sorted list of its elements. The default is the empty value here.\<close>

definition get_sequence_set :: "'n yaml_lib \<Rightarrow> ('n \<Rightarrow> 't::linorder result) \<Rightarrow> 'n \<Rightarrow> 't list result" where
  "get_sequence_set Y conv n = bind_result (get_sequence Y conv n) (\<lambda>xs. Inr (sort (remdups xs)))"

definition get_sequence_set_at ::
  "'n yaml_lib \<Rightarrow> ('n \<Rightarrow> 't result) \<Rightarrow> ('t \<Rightarrow> bool) \<Rightarrow> 't \<Rightarrow> ('t \<Rightarrow> 'u::linorder) \<Rightarrow> 'n \<Rightarrow> string \<Rightarrow> 'u list result" where
  "get_sequence_set_at Y conv is_empty none to_elem node key =
     bind_result (get_sequence_at Y conv is_empty node key none) (\<lambda>xs. Inr (sort (remdups (map to_elem xs))))"

definition get_sequence_unordered_set_at ::
  "'n yaml_lib \<Rightarrow> ('n \<Rightarrow> 't result) \<Rightarrow> ('t \<Rightarrow> bool) \<Rightarrow> 't \<Rightarrow> ('t \<Rightarrow> 'u) \<Rightarrow> 'n \<Rightarrow> string \<Rightarrow> 'u set result" where
  "get_sequence_unordered_set_at Y conv is_empty none to_elem node key =
     bind_result (get_sequence_at Y conv is_empty node key none) (\<lambda>xs. Inr (set (map to_elem xs)))"

definition get_sequence_and_iterate :: "'n yaml_lib \<Rightarrow> 'n \<Rightarrow> string \<Rightarrow> ('n \<Rightarrow> ('w, unit) io) \<Rightarrow> ('w, unit) io" where
  "get_sequence_and_iterate Y node key f =
     io_bind (lift_result (node_member Y node key)) (\<lambda>n.
       if \<not> is_defined Y n then io_return ()
       else if node_kind Y n = Scalar_kind then f n
       else if node_kind Y n = Sequence_kind then io_seq (map f (node_elements Y n))
       else lift_result (must_be key ''sequence''))"

definition get_map :: "'n yaml_lib \<Rightarrow> 'n \<Rightarrow> string \<Rightarrow> ('n \<Rightarrow> ('w, unit) io) \<Rightarrow> ('w, unit) io" where
  "get_map Y node key f =
     io_bind (lift_result (node_member Y node key)) (\<lambda>n.
       if \<not> is_defined Y n then io_return ()
       else if node_kind Y n \<noteq> Map_kind then lift_result (must_be key ''map'')
       else f n)"

definition get_map_and_iterate :: "'n yaml_lib \<Rightarrow> 'n \<Rightarrow> string \<Rightarrow> ('n \<times> 'n \<Rightarrow> ('w, unit) io) \<Rightarrow> ('w, unit) io" where
  "get_map_and_iterate Y node key f = get_map Y node key (\<lambda>n. io_seq (map f (node_entries Y n)))"

text \<open>\<open>emplace\<close> keeps an entry that is there.\<close>

fun emplace_entries :: "'n yaml_lib \<Rightarrow> ('n \<times> 'n) list \<Rightarrow> (string \<times> string) list \<Rightarrow> (string \<times> string) list result" where
  "emplace_entries Y [] data = Inr data"
| "emplace_entries Y ((k, v) # kvs) data =
     bind_result (node_text Y k) (\<lambda>s. bind_result (node_text Y v) (\<lambda>t. emplace_entries Y kvs (emplace s t data)))"

definition get_string_map :: "'n yaml_lib \<Rightarrow> 'n \<Rightarrow> string \<Rightarrow> (string \<times> string) list \<Rightarrow> (string \<times> string) list result" where
  "get_string_map Y node key data =
     bind_result (node_member Y node key) (\<lambda>n.
       if \<not> is_defined Y n then Inr data
       else if node_kind Y n \<noteq> Map_kind then must_be key ''map''
       else emplace_entries Y (node_entries Y n) data)"

definition get_variety ::
  "'n yaml_lib \<Rightarrow> 'n \<Rightarrow> string \<Rightarrow> ('n \<Rightarrow> ('w, unit) io) \<Rightarrow> ('n \<Rightarrow> ('w, unit) io) \<Rightarrow> ('n \<Rightarrow> ('w, unit) io) \<Rightarrow> ('w, unit) io" where
  "get_variety Y node key f_scalar f_seq f_map =
     io_bind (lift_result (node_member Y node key)) (\<lambda>n.
       case node_kind Y n of
         Scalar_kind \<Rightarrow> f_scalar n | Sequence_kind \<Rightarrow> f_seq n | Map_kind \<Rightarrow> f_map n | _ \<Rightarrow> io_return ())"

definition get_variety_and_iterate ::
  "'n yaml_lib \<Rightarrow> 'n \<Rightarrow> ('n \<Rightarrow> ('w, unit) io) \<Rightarrow> ('n \<times> 'n \<Rightarrow> ('w, unit) io) \<Rightarrow> ('w, unit) io" where
  "get_variety_and_iterate Y n f_scalar f_map =
     (case node_kind Y n of
        Scalar_kind \<Rightarrow> f_scalar n
      | Sequence_kind \<Rightarrow> io_seq (map f_scalar (node_elements Y n))
      | Map_kind \<Rightarrow> io_seq (map f_map (node_entries Y n))
      | _ \<Rightarrow> io_return ())"

definition get_variety_and_iterate_at ::
  "'n yaml_lib \<Rightarrow> 'n \<Rightarrow> string \<Rightarrow> ('n \<Rightarrow> ('w, unit) io) \<Rightarrow> ('n \<times> 'n \<Rightarrow> ('w, unit) io) \<Rightarrow> ('w, unit) io" where
  "get_variety_and_iterate_at Y node key f_scalar f_map =
     io_bind (lift_result (node_member Y node key)) (\<lambda>n. get_variety_and_iterate Y n f_scalar f_map)"

section \<open>Merging\<close>

text \<open>
  The operations of the merge on a store \<open>'s\<close> of nodes: \<open>read_nodes\<close> are the reading ones;
  \<open>assign_node\<close> is the assignment to a node, \<open>assign_member\<close> that to the node of a key, which is
  entered if it is not there; \<open>clone_entry\<close> is \<open>Clone\<close> of an entry of a map.
\<close>

datatype merge_scalars = ScalarsToSet | OverwriteScalars | DontTouchScalars

record ('n, 's) yaml_store =
  read_nodes :: "'s \<Rightarrow> 'n yaml_lib"
  new_node :: "('s, 'n) io"
  push_node :: "'n \<Rightarrow> 'n \<Rightarrow> ('s, unit) io"
  assign_node :: "'n \<Rightarrow> 'n \<Rightarrow> ('s, unit) io"
  assign_member :: "'n \<Rightarrow> string \<Rightarrow> 'n \<Rightarrow> ('s, unit) io"
  clone_node :: "'n \<Rightarrow> ('s, 'n) io"
  clone_entry :: "'n \<times> 'n \<Rightarrow> ('s, 'n) io"

definition reading :: "('n, 's) yaml_store \<Rightarrow> ('n yaml_lib \<Rightarrow> 'a) \<Rightarrow> ('s, 'a) io" where
  "reading Z f = (\<lambda>s. (Inr (f (read_nodes Z s)), s))"

definition reading_result :: "('n, 's) yaml_store \<Rightarrow> ('n yaml_lib \<Rightarrow> 'a result) \<Rightarrow> ('s, 'a) io" where
  "reading_result Z f = (\<lambda>s. (f (read_nodes Z s), s))"

text \<open>
  A value of the destination, the node \<open>t\<close>, meets one of the source, the second part of the entry \<open>e\<close>.
  For a sequence that meets a scalar the code clones the entry, not its second part. \<open>rec\<close> is the
  merge of two maps.
\<close>

definition merge_value ::
  "('n, 's) yaml_store \<Rightarrow> merge_scalars \<Rightarrow> ('n \<Rightarrow> 'n \<Rightarrow> ('s, unit) io) \<Rightarrow> 'n \<Rightarrow> 'n \<Rightarrow> string \<Rightarrow> 'n \<times> 'n \<Rightarrow> yaml_kind \<Rightarrow> 'n \<Rightarrow>
     ('s, unit) io" where
  "merge_value Z fl rec dst src sf e ff t =
     io_bind (reading Z (\<lambda>Y. node_kind Y t)) (\<lambda>ft.
       if ff = Scalar_kind \<and> ft = Scalar_kind then
         (case fl of
            ScalarsToSet \<Rightarrow>
              io_bind (new_node Z) (\<lambda>nn.
              io_bind (push_node Z nn t) (\<lambda>_.
              io_bind (push_node Z nn (snd e)) (\<lambda>_.
              assign_member Z dst sf nn)))
          | OverwriteScalars \<Rightarrow>
              io_bind (reading_result Z (\<lambda>Y. node_member Y src sf)) (\<lambda>m.
              io_bind (clone_node Z m) (\<lambda>nn.
              assign_member Z dst sf nn))
          | DontTouchScalars \<Rightarrow> io_return ())
       else if ff = Scalar_kind \<and> ft = Sequence_kind then push_node Z t (snd e)
       else if ff = Sequence_kind \<and> ft = Scalar_kind then
         io_bind (clone_entry Z e) (\<lambda>nn.
         io_bind (push_node Z nn t) (\<lambda>_.
         assign_member Z dst sf nn))
       else if ff = Sequence_kind \<and> ft = Sequence_kind then
         io_bind (reading Z (\<lambda>Y. node_elements Y (snd e))) (\<lambda>fvs.
         io_seq (map (\<lambda>fv. io_bind (clone_node Z fv) (push_node Z t)) fvs))
       else if ff = Map_kind \<and> ft = Map_kind then rec t (snd e)
       else lift_result (Inl (Runtime_error
         (''yaml merge: nodes ('' @ CHR 0x27 # sf @ CHR 0x27 # '') has incompatible types''))))"

text \<open>The loop over the entries of the destination for one entry of the source, with \<open>found\<close>.\<close>

fun merge_into ::
  "('n, 's) yaml_store \<Rightarrow> merge_scalars \<Rightarrow> ('n \<Rightarrow> 'n \<Rightarrow> ('s, unit) io) \<Rightarrow> 'n \<Rightarrow> 'n \<Rightarrow> string \<Rightarrow> 'n \<times> 'n \<Rightarrow> yaml_kind \<Rightarrow>
     ('n \<times> 'n) list \<Rightarrow> bool \<Rightarrow> ('s, bool) io" where
  "merge_into Z fl rec dst src sf e ff [] found = io_return found"
| "merge_into Z fl rec dst src sf e ff ((tk, tv) # ts) found =
     io_bind (reading_result Z (\<lambda>Y. node_text Y tk)) (\<lambda>st.
       if sf \<noteq> st then merge_into Z fl rec dst src sf e ff ts found
       else io_bind (merge_value Z fl rec dst src sf e ff tv) (\<lambda>_. merge_into Z fl rec dst src sf e ff ts True))"

fun merge_entries ::
  "('n, 's) yaml_store \<Rightarrow> merge_scalars \<Rightarrow> ('n \<Rightarrow> 'n \<Rightarrow> ('s, unit) io) \<Rightarrow> 'n \<Rightarrow> 'n \<Rightarrow> ('n \<times> 'n) list \<Rightarrow> ('s, unit) io" where
  "merge_entries Z fl rec dst src [] = io_return ()"
| "merge_entries Z fl rec dst src (e # es) =
     io_bind (reading_result Z (\<lambda>Y. node_text Y (fst e))) (\<lambda>sf.
     io_bind (reading Z (\<lambda>Y. (node_kind Y (snd e), node_entries Y dst))) (\<lambda>(ff, ts).
     io_bind (merge_into Z fl rec dst src sf e ff ts False) (\<lambda>found.
     io_bind (if \<not> found then io_bind (clone_node Z (snd e)) (assign_member Z dst sf) else io_return ()) (\<lambda>_.
     merge_entries Z fl rec dst src es))))"

text \<open>Nodes may contain themselves; the first argument bounds the depth of the calls.\<close>

fun yaml_merge :: "nat \<Rightarrow> ('n, 's) yaml_store \<Rightarrow> merge_scalars \<Rightarrow> 'n \<Rightarrow> 'n \<Rightarrow> ('s, unit) io" where
  "yaml_merge 0 Z fl dst src = lift_result (Inl Diverges)"
| "yaml_merge (Suc k) Z fl dst src =
     io_bind (reading Z (\<lambda>Y. (is_defined Y src, node_kind Y dst))) (\<lambda>(defined, ft).
       if \<not> defined then io_return ()
       else
         io_bind (if ft \<noteq> Map_kind then io_bind (new_node Z) (assign_node Z dst) else io_return ()) (\<lambda>_.
         io_bind (reading Z (\<lambda>Y. node_entries Y src)) (merge_entries Z fl (yaml_merge k Z fl) dst src)))"

section \<open>An instance\<close>

text \<open>
  A store as the documentation of yaml-cpp describes it. A node is an index, and refers to a cell, the contents;
  assigning to a node makes it refer to the cell of the other one, so that all
  sequences and maps with the node see the change. The empty node becomes a sequence or map when an element or
  member is put into it. \<open>Clone\<close> of an entry of a map is the empty node.
\<close>

datatype yaml_cell = Null_cell | Scalar_cell string | Sequence_cell "nat list" | Map_cell "(nat \<times> nat) list"

record node_store =
  cell_of :: "nat list"
  cells :: "yaml_cell list"

definition node_cell :: "node_store \<Rightarrow> nat \<Rightarrow> yaml_cell" where
  "node_cell s n = cells s ! (cell_of s ! n)"

definition set_cell :: "nat \<Rightarrow> yaml_cell \<Rightarrow> node_store \<Rightarrow> node_store" where
  "set_cell n c s = s\<lparr>cells := (cells s)[cell_of s ! n := c]\<rparr>"

definition add_node :: "yaml_cell \<Rightarrow> node_store \<Rightarrow> nat \<times> node_store" where
  "add_node c s = (length (cell_of s), s\<lparr>cell_of := cell_of s @ [length (cells s)], cells := cells s @ [c]\<rparr>)"

definition cell_members :: "node_store \<Rightarrow> nat \<Rightarrow> (nat \<times> nat) list" where
  "cell_members s n = (case node_cell s n of Map_cell kvs \<Rightarrow> kvs | _ \<Rightarrow> [])"

definition member_node :: "node_store \<Rightarrow> nat \<Rightarrow> string \<Rightarrow> nat option" where
  "member_node s n k = map_option snd (find (\<lambda>(i, _). node_cell s i = Scalar_cell k) (cell_members s n))"

definition read_store :: "node_store \<Rightarrow> nat yaml_lib" where
  "read_store s = \<lparr>
     node_kind = (\<lambda>n. if n < length (cell_of s) then (case node_cell s n of
        Null_cell \<Rightarrow> Null_kind | Scalar_cell _ \<Rightarrow> Scalar_kind | Sequence_cell _ \<Rightarrow> Sequence_kind | Map_cell _ \<Rightarrow> Map_kind)
        else Undefined_kind),
     node_member = (\<lambda>n k. Inr (case member_node s n k of Some i \<Rightarrow> i | None \<Rightarrow> length (cell_of s))),
     node_elements = (\<lambda>n. case node_cell s n of Sequence_cell xs \<Rightarrow> xs | _ \<Rightarrow> []),
     node_entries = cell_members s,
     node_text = (\<lambda>n. case node_cell s n of Scalar_cell t \<Rightarrow> Inr t | _ \<Rightarrow> Inl (Runtime_error ''bad conversion''))\<rparr>"

definition push_element :: "nat \<Rightarrow> nat \<Rightarrow> node_store \<Rightarrow> node_store" where
  "push_element n x s =
     (case node_cell s n of
        Null_cell \<Rightarrow> set_cell n (Sequence_cell [x]) s
      | Sequence_cell xs \<Rightarrow> set_cell n (Sequence_cell (xs @ [x])) s
      | _ \<Rightarrow> s)"

definition refer_to :: "nat \<Rightarrow> nat \<Rightarrow> node_store \<Rightarrow> node_store" where
  "refer_to n x s = s\<lparr>cell_of := (cell_of s)[n := cell_of s ! x]\<rparr>"

definition put_member :: "nat \<Rightarrow> string \<Rightarrow> nat \<Rightarrow> node_store \<Rightarrow> node_store" where
  "put_member n k x s =
     (case member_node s n k of
        Some i \<Rightarrow> refer_to i x s
      | None \<Rightarrow> (case add_node (Scalar_cell k) s of (i, s) \<Rightarrow> set_cell n (Map_cell (cell_members s n @ [(i, x)])) s))"

text \<open>A copy to a depth that is enough here.\<close>

fun copy_nodes :: "nat \<Rightarrow> nat \<Rightarrow> node_store \<Rightarrow> nat \<times> node_store" where
  "copy_nodes 0 n s = add_node Null_cell s"
| "copy_nodes (Suc d) n s =
     (case node_cell s n of
        Sequence_cell xs \<Rightarrow>
          (case fold (\<lambda>x (ys, s). case copy_nodes d x s of (y, s) \<Rightarrow> (ys @ [y], s)) xs ([], s) of
             (ys, s) \<Rightarrow> add_node (Sequence_cell ys) s)
      | Map_cell kvs \<Rightarrow>
          (case fold (\<lambda>(k, v) (ys, s). case copy_nodes d k s of (i, s) \<Rightarrow> case copy_nodes d v s of (j, s) \<Rightarrow> (ys @ [(i, j)], s))
              kvs ([], s) of
             (ys, s) \<Rightarrow> add_node (Map_cell ys) s)
      | c \<Rightarrow> add_node c s)"

definition yaml_nodes :: "(nat, node_store) yaml_store" where
  "yaml_nodes = \<lparr>
     read_nodes = read_store,
     new_node = (\<lambda>s. map_prod Inr id (add_node Null_cell s)),
     push_node = (\<lambda>n x s. (Inr (), push_element n x s)),
     assign_node = (\<lambda>n x s. (Inr (), refer_to n x s)),
     assign_member = (\<lambda>n k x s. (Inr (), put_member n k x s)),
     clone_node = (\<lambda>n s. map_prod Inr id (copy_nodes 9 n s)),
     clone_entry = (\<lambda>_ s. map_prod Inr id (add_node Null_cell s))\<rparr>"

section \<open>What surprises\<close>

text \<open>Two maps, the nodes 0 and 3, with the key \<open>a\<close>; their values are the nodes 2 and 5.\<close>

definition two_maps :: "yaml_cell \<Rightarrow> yaml_cell \<Rightarrow> yaml_cell list \<Rightarrow> node_store" where
  "two_maps c d cs = \<lparr>cell_of = [0 ..< 6 + length cs],
     cells = [Map_cell [(1, 2)], Scalar_cell ''a'', c, Map_cell [(4, 5)], Scalar_cell ''a'', d] @ cs\<rparr>"

definition merged_maps :: "merge_scalars \<Rightarrow> node_store \<Rightarrow> node_store" where
  "merged_maps fl s = snd (yaml_merge 9 yaml_nodes fl 0 3 s)"

text \<open>
  Two scalars. The new sequence has the node of the destination as its first element, and then that node
  is made to refer to the sequence, which thus contains itself; the scalar is lost.
\<close>

lemma sequence_contains_itself:
  "let s = merged_maps ScalarsToSet (two_maps (Scalar_cell ''1'') (Scalar_cell ''2'') [])
   in cell_members s 0 = [(1, 2)] \<and> node_cell s 2 = Sequence_cell [2, 5] \<and> Scalar_cell ''1'' \<notin> node_cell s ` {0..<7}"
  by code_simp

text \<open>With the other flags the destination gets a copy of the value of the source, or keeps its own.\<close>

lemma scalars_overwritten:
  "let s = merged_maps OverwriteScalars (two_maps (Scalar_cell ''1'') (Scalar_cell ''2'') [])
   in member_node s 0 ''a'' = Some 2 \<and> node_cell s 2 = Scalar_cell ''2''"
  "let s = merged_maps DontTouchScalars (two_maps (Scalar_cell ''1'') (Scalar_cell ''2'') [])
   in member_node s 0 ''a'' = Some 2 \<and> node_cell s 2 = Scalar_cell ''1''"
  by code_simp+

text \<open>
  A sequence of the source that meets a scalar: the elements are not copied, and the sequence contains
  itself only.
\<close>

lemma sequence_meets_scalar:
  "let s = merged_maps ScalarsToSet (two_maps (Scalar_cell ''1'') (Sequence_cell [6]) [Scalar_cell ''2''])
   in member_node s 0 ''a'' = Some 2 \<and> node_cell s 2 = Sequence_cell [2]"
  by code_simp

text \<open>Two sequences: copies of the elements are appended. A scalar is appended as the node it is, not as a copy.\<close>

lemma sequences_joined:
  "let s = merged_maps ScalarsToSet (two_maps (Sequence_cell [6]) (Sequence_cell [7]) [Scalar_cell ''1'', Scalar_cell ''2''])
   in node_cell s 2 = Sequence_cell [6, 8] \<and> node_cell s 8 = Scalar_cell ''2''"
  "let s = merged_maps ScalarsToSet (two_maps (Sequence_cell [6]) (Scalar_cell ''2'') [Scalar_cell ''1''])
   in node_cell s 2 = Sequence_cell [6, 5]"
  by code_simp+

text \<open>A destination that is no map is lost, also when the source has no members.\<close>

lemma destination_lost:
  "node_cell (snd (yaml_merge 1 yaml_nodes ScalarsToSet 0 1 \<lparr>cell_of = [0, 1], cells = [Scalar_cell ''1'', Scalar_cell ''2'']\<rparr>)) 0 = Null_cell"
  by code_simp

text \<open>The default value of a sequence is appended to one that is there.\<close>

lemma default_appended:
  "let Y = read_store (two_maps (Sequence_cell [6]) Null_cell [Scalar_cell ''-a''])
   in get_sequence_at Y (node_text Y) (\<lambda>s. s = []) 0 ''a'' ''-d'' = Inr [''-a'', ''-d'']"
  by code_simp

text \<open>A scalar or a sequence is read as the sequence of its conversions, and anything else is no sequence.\<close>

lemma get_sequence_at_cases:
  assumes "node_member Y node key = Inr n" "is_empty dflt"
  shows "get_sequence_at Y conv is_empty node key dflt =
    (case node_kind Y n of
       Scalar_kind \<Rightarrow> map_result conv [n]
     | Sequence_kind \<Rightarrow> map_result conv (node_elements Y n)
     | Undefined_kind \<Rightarrow> Inr []
     | _ \<Rightarrow> must_be key ''sequence'')"
proof -
  have "bind_result m (\<lambda>xs. Inr xs) = m" for m :: "'t result"
    by (cases m) simp_all
  then show ?thesis
    using assms by (cases "node_kind Y n") (simp_all add: get_sequence_at_def get_sequence_def is_defined_def must_be_def)
qed

end
