(* ===== verification/Xml.thy ===== *)
theory Xml
  imports Prelude
begin

text \<open>
  The walks through documents of libxml2 (xml.h): names and contents, the next element with a name, the
  first node with a text, removing elements and comments. What the code reads of a node is its type,
  name, content, children and the nodes after it, so a pointer to a node is the list of the node and
  the siblings behind it, and the null pointer is the empty list.
\<close>

section \<open>Nodes\<close>

datatype xml_type = Xml_element | Xml_text | Xml_comment | Xml_other

datatype xml_node =
  Node (xaddr: nat) (xtype: xml_type) (xname: "string option") (xcontent: "string option") (xchildren: "xml_node list")

type_synonym xml_pointer = "xml_node list"

definition null_error :: cpp_error where
  "null_error = Runtime_error ''nullptr''"

definition check_nullptr :: "xml_pointer \<Rightarrow> unit result" where
  "check_nullptr p = (if p = [] then Inl null_error else Inr ())"

definition node_name :: "xml_node \<Rightarrow> string result" where
  "node_name n = (case xname n of None \<Rightarrow> Inl null_error | Some s \<Rightarrow> Inr s)"

definition getName :: "xml_pointer \<Rightarrow> string result" where
  "getName p = bind_result (check_nullptr p) (\<lambda>_. node_name (hd p))"

fun getContent :: "xml_pointer \<Rightarrow> string result" where
  "getContent [] = Inl null_error"
| "getContent (Node a t nm ct cs # rest) =
     (if t = Xml_element then (if cs = [] then Inr [] else getContent cs)
      else if t = Xml_text then (case ct of None \<Rightarrow> Inl Undefined | Some s \<Rightarrow> Inr s)
      else Inl (Runtime_error ''unknown node type''))"

section \<open>Searching\<close>

text \<open>\<open>getNextRaw\<close>: the node itself, its children, then the siblings behind it.\<close>

fun getNextRaw :: "string \<Rightarrow> xml_pointer \<Rightarrow> xml_pointer option result" where
  "getNextRaw name [] = Inr None"
| "getNextRaw name (Node a t nm ct cs # rest) =
     bind_result (if t = Xml_element then bind_result (node_name (Node a t nm ct cs)) (\<lambda>s. Inr (s = name)) else Inr False)
       (\<lambda>found. if found then Inr (Some (Node a t nm ct cs # rest))
         else bind_result (getNextRaw name cs) (\<lambda>r.
           case r of Some p \<Rightarrow> Inr (Some p) | None \<Rightarrow> getNextRaw name rest))"

definition next_one :: "string \<Rightarrow> xml_pointer \<Rightarrow> xml_pointer result" where
  "next_one name p =
     bind_result (getName p) (\<lambda>s.
       if s = name then
         bind_result (getNextRaw name (xchildren (hd p))) (\<lambda>r.
           case r of Some q \<Rightarrow> Inr q
           | None \<Rightarrow> bind_result (getNextRaw name (tl p)) (\<lambda>r. Inr (case r of Some q \<Rightarrow> q | None \<Rightarrow> [])))
       else bind_result (getNextRaw name p) (\<lambda>r.
         case r of Some q \<Rightarrow> Inr q | None \<Rightarrow> Inl (Runtime_error (name @ '': not found''))))"

text \<open>
  \<open>getNext\<close> with a number of elements to skip. A negative number counts down through the whole range
  of \<open>int\<close>; the walk ends with an exception long before.
\<close>

fun skip_next :: "nat \<Rightarrow> string \<Rightarrow> xml_pointer \<Rightarrow> xml_pointer result" where
  "skip_next 0 name p = Inr p"
| "skip_next (Suc k) name p = bind_result (next_one name p) (skip_next k name)"

definition getNext :: "xml_pointer \<Rightarrow> string \<Rightarrow> int \<Rightarrow> xml_pointer result" where
  "getNext p name skip = bind_result (skip_next (nat (skip mod 2 ^ 32)) name p) (next_one name)"

fun findNodeWithText :: "xml_pointer \<Rightarrow> string \<Rightarrow> xml_pointer option" where
  "findNodeWithText [] s = None"
| "findNodeWithText (Node a t nm ct cs # rest) s =
     (if case ct of Some c \<Rightarrow> str_find s c \<noteq> None | None \<Rightarrow> False then Some (Node a t nm ct cs # rest)
      else case findNodeWithText cs s of Some p \<Rightarrow> Some p | None \<Rightarrow> findNodeWithText rest s)"

section \<open>Removing\<close>

text \<open>The nodes in document order, and their addresses.\<close>

fun document_order :: "xml_node list \<Rightarrow> xml_node list" where
  "document_order [] = []"
| "document_order (Node a t nm ct cs # rest) = Node a t nm ct cs # document_order cs @ document_order rest"

definition addresses :: "xml_node list \<Rightarrow> nat list" where
  "addresses ns = map xaddr (document_order ns)"

text \<open>\<open>removeNode\<close>: the node with the address is taken out of its place, with what is below it.\<close>

fun removeNode :: "nat \<Rightarrow> xml_node list \<Rightarrow> xml_node list" where
  "removeNode x [] = []"
| "removeNode x (Node a t nm ct cs # rest) =
     (if a = x then rest else Node a t nm ct (removeNode x cs) # removeNode x rest)"

lemma getNextRaw_in:
  "getNextRaw name p = Inr (Some q) \<Longrightarrow> q \<noteq> [] \<and> hd q \<in> set (document_order p)"
  by (induction p arbitrary: q rule: document_order.induct)
    (auto simp: bind_result_Inr_iff split: if_splits option.splits)

lemma removeNode_length: "length (document_order (removeNode x p)) \<le> length (document_order p)"
  by (induction x p rule: removeNode.induct) auto

lemma removeNode_shorter:
  "x \<in> set (addresses p) \<Longrightarrow> length (document_order (removeNode x p)) < length (document_order p)"
proof (induction x p rule: removeNode.induct)
  case (2 x a t nm ct cs rest)
  then show ?case
    using removeNode_length [of x cs] removeNode_length [of x rest] by (auto simp: addresses_def)
qed (simp add: addresses_def)

text \<open>
  \<open>removeTags\<close> looks for the tag again from the same node until there is none, and removes the node
  that was found. If that is the node it starts from, the next look reads freed memory.
\<close>

function removeTags :: "string \<Rightarrow> xml_pointer \<Rightarrow> xml_pointer result" where
  "removeTags tag p =
     bind_result (getNextRaw tag p) (\<lambda>r. case r of
         None \<Rightarrow> Inr p
       | Some q \<Rightarrow> if xaddr (hd q) = xaddr (hd p) then Inl Undefined else removeTags tag (removeNode (xaddr (hd q)) p))"
  by auto
termination
  by (relation "measure (\<lambda>(tag, p). length (document_order p))")
    (auto simp: addresses_def intro!: removeNode_shorter dest!: getNextRaw_in)

declare removeTags.simps [simp del]

text \<open>
  \<open>removeComments\<close> trims the content of the first node in place and goes through the children of each
  node; \<open>trim\<close> is the function of Boost.
\<close>

fun removeComments :: "(string \<Rightarrow> string) \<Rightarrow> xml_pointer \<Rightarrow> xml_pointer"
  and without_comments :: "(string \<Rightarrow> string) \<Rightarrow> xml_pointer \<Rightarrow> xml_pointer" where
  "removeComments trim [] = []"
| "removeComments trim (Node a t nm ct cs # rest) =
     (if t = Xml_comment then [] else [Node a t nm (map_option trim ct) (removeComments trim cs)])
     @ without_comments trim rest"
| "without_comments trim [] = []"
| "without_comments trim (Node a t nm ct cs # rest) =
     (if t = Xml_comment then [] else [Node a t nm ct (removeComments trim cs)]) @ without_comments trim rest"

section \<open>Search in document order\<close>

definition is_element :: "string \<Rightarrow> xml_node \<Rightarrow> bool" where
  "is_element name n \<longleftrightarrow> xtype n = Xml_element \<and> xname n = Some name"

text \<open>Every element has a name.\<close>

definition named :: "xml_node list \<Rightarrow> bool" where
  "named ns \<longleftrightarrow> (\<forall>n\<in>set (document_order ns). xtype n = Xml_element \<longrightarrow> xname n \<noteq> None)"

lemma named_simps [simp]:
  "named []"
  "named (Node a t nm ct cs # rest) \<longleftrightarrow> (t = Xml_element \<longrightarrow> nm \<noteq> None) \<and> named cs \<and> named rest"
  by (auto simp: named_def)

lemma document_order_head: "n # rest = p \<Longrightarrow> n \<in> set (document_order p)"
  by (cases n) auto

lemma find_SomeD: "find P xs = Some x \<Longrightarrow> x \<in> set xs \<and> P x"
  by (induction xs) (auto split: if_splits)

lemma find_tags_append: "find P (xs @ ys) = (case find P xs of Some x \<Rightarrow> Some x | None \<Rightarrow> find P ys)"
  by (induction xs) auto

lemma getNextRaw_order:
  "named p \<Longrightarrow> \<exists>r. getNextRaw name p = Inr r \<and> map_option hd r = find (is_element name) (document_order p)
     \<and> r \<noteq> Some []"
proof (induction name p rule: getNextRaw.induct)
  case (2 name a t nm ct cs rest)
  then have named: "named cs" "named rest" "t = Xml_element \<Longrightarrow> nm \<noteq> None"
    by auto
  show ?case
  proof (cases "is_element name (Node a t nm ct cs)")
    case True
    then show ?thesis
      by (auto simp: is_element_def node_name_def)
  next
    case False
    have step: "getNextRaw name (Node a t nm ct cs # rest)
        = bind_result (getNextRaw name cs) (\<lambda>r. case r of Some p \<Rightarrow> Inr (Some p) | None \<Rightarrow> getNextRaw name rest)"
      using False named(3) by (auto simp: is_element_def node_name_def split: option.splits)
    have head: "(if t = Xml_element then bind_result (node_name (Node a t nm ct cs)) (\<lambda>s. Inr (s = name)) else Inr False)
        = Inr False"
      using False named(3) by (auto simp: is_element_def node_name_def)
    from "2.IH"(1) [OF head] named obtain r where
      r: "getNextRaw name cs = Inr r" "map_option hd r = find (is_element name) (document_order cs)" "r \<noteq> Some []"
      by auto
    show ?thesis
    proof (cases r)
      case None
      with "2.IH"(2) [OF head _ r(1)] named obtain r' where
        "getNextRaw name rest = Inr r'" "map_option hd r' = find (is_element name) (document_order rest)"
        "r' \<noteq> Some []"
        by auto
      then show ?thesis
        using None False r unfolding step by (simp add: find_tags_append)
    next
      case (Some q)
      then show ?thesis
        using False r unfolding step by (auto simp: find_tags_append split: option.splits)
    qed
  qed
qed simp

text \<open>
  The search finds the first element with the name in document order, from the node on, below it and
  behind it; it throws only if an element has no name.
\<close>

lemma getNextRaw_first:
  assumes "named p"
  shows "bind_result (getNextRaw name p) (\<lambda>r. Inr (map_option hd r)) = Inr (find (is_element name) (document_order p))"
  using getNextRaw_order [OF assms, of name] by auto

section \<open>What is removed\<close>

text \<open>A document without the elements of a name, and without what is below them.\<close>

fun prune :: "string \<Rightarrow> xml_node list \<Rightarrow> xml_node list" where
  "prune name [] = []"
| "prune name (Node a t nm ct cs # rest) =
     (if t = Xml_element \<and> nm = Some name then prune name rest
      else Node a t nm ct (prune name cs) # prune name rest)"

lemma prune_none: "find (is_element name) (document_order ns) = None \<Longrightarrow> prune name ns = ns"
  by (induction name ns rule: prune.induct) (auto simp: is_element_def find_tags_append split: if_splits option.splits)

lemma addresses_simps [simp]:
  "addresses [] = []" "addresses (Node a t nm ct cs # rest) = a # addresses cs @ addresses rest"
  by (simp_all add: addresses_def)

lemma removeNode_other: "x \<notin> set (addresses ns) \<Longrightarrow> removeNode x ns = ns"
  by (induction x ns rule: removeNode.induct) auto

lemma addresses_removeNode:
  "set (addresses (removeNode x ns)) \<subseteq> set (addresses ns)
     \<and> (distinct (addresses ns) \<longrightarrow> distinct (addresses (removeNode x ns)))"
  by (induction x ns rule: removeNode.induct) auto

lemma named_removeNode: "named ns \<Longrightarrow> named (removeNode x ns)"
  by (induction x ns rule: removeNode.induct) auto

lemma in_addresses: "n \<in> set (document_order ns) \<Longrightarrow> xaddr n \<in> set (addresses ns)"
  by (simp add: addresses_def)

lemma prune_removeNode:
  "distinct (addresses ns) \<Longrightarrow> n \<in> set (document_order ns) \<Longrightarrow> is_element name n \<Longrightarrow>
     prune name (removeNode (xaddr n) ns) = prune name ns"
proof (induction name ns rule: prune.induct)
  case (2 name a t nm ct cs rest)
  consider "n = Node a t nm ct cs" | "n \<in> set (document_order cs)" | "n \<in> set (document_order rest)"
    using "2.prems"(2) by auto
  then show ?case
  proof cases
    case 1
    then show ?thesis using "2.prems"(3) by (simp add: is_element_def)
  next
    case below: 2
    then have x: "xaddr n \<noteq> a" "xaddr n \<notin> set (addresses rest)"
      using "2.prems"(1) in_addresses [OF below] by auto
    then show ?thesis
      using "2.IH"(2) [OF _ _ below "2.prems"(3)] "2.prems"(1) by (simp add: removeNode_other)
  next
    case behind: 3
    then have x: "xaddr n \<noteq> a" "xaddr n \<notin> set (addresses cs)"
      using "2.prems"(1) in_addresses [OF behind] by auto
    then show ?thesis
      using "2.IH"(1) [OF _ _ behind "2.prems"(3)] "2.IH"(3) [OF _ _ behind "2.prems"(3)] "2.prems"(1)
      by (auto simp: removeNode_other)
  qed
qed simp

lemma removeNode_head:
  "x \<noteq> xaddr n \<Longrightarrow> \<exists>n' rest'. removeNode x (n # rest) = n' # rest' \<and> xaddr n' = xaddr n
     \<and> is_element name n' = is_element name n"
  by (cases n) (auto simp: is_element_def)

lemma removeTags_prune_aux:
  "named p \<Longrightarrow> distinct (addresses p) \<Longrightarrow> p \<noteq> [] \<Longrightarrow> \<not> is_element tag (hd p) \<Longrightarrow>
     removeTags tag p = Inr (prune tag p)"
proof (induction tag p rule: removeTags.induct)
  case (1 tag p)
  obtain n rest where p: "p = n # rest"
    using "1.prems"(3) by (cases p) auto
  obtain r where r: "getNextRaw tag p = Inr r" "map_option hd r = find (is_element tag) (document_order p)"
    using getNextRaw_order [OF "1.prems"(1), of tag] by auto
  show ?case
  proof (cases r)
    case None
    then show ?thesis
      using r prune_none [of tag p] by (subst removeTags.simps) simp
  next
    case (Some q)
    let ?x = "xaddr (hd q)"
    have q: "hd q \<in> set (document_order p)" "is_element tag (hd q)"
      using r(2) Some find_SomeD [of "is_element tag" "document_order p" "hd q"] by auto
    have "hd q \<noteq> n" "n \<in> set (document_order p)"
      using q(2) "1.prems"(4) p by (auto intro: document_order_head)
    then have x: "?x \<noteq> xaddr n"
      using q(1) "1.prems"(2) by (auto simp: addresses_def distinct_map dest: inj_onD)
    obtain n' rest' where p': "removeNode ?x p = n' # rest'" "is_element tag n' = is_element tag n"
      using removeNode_head [OF x] p by blast
    have "removeTags tag (removeNode ?x p) = Inr (prune tag (removeNode ?x p))"
      using "1.IH" [OF r(1) Some] x p p' "1.prems" addresses_removeNode [of ?x p]
        named_removeNode [OF "1.prems"(1), of ?x]
      by auto
    moreover have "removeTags tag p = removeTags tag (removeNode ?x p)"
      using r(1) Some x p by (subst removeTags.simps) simp
    ultimately show ?thesis
      using prune_removeNode [OF "1.prems"(2) q] by simp
  qed
qed

text \<open>
  C39: Searching and removing again and again, each time the node that was found, \<open>removeTags\<close> takes away
  exactly the elements of the name, with what is below them, in the node, behind it and below it,
  if the node itself does not have the name. Every element has a name, and no two nodes are at the same address.
\<close>

theorem removeTags_prune:
  assumes "named p" "distinct (addresses p)" "p \<noteq> []" "\<not> is_element tag (hd p)"
  shows "removeTags tag p = Inr (prune tag p)
    \<and> find (is_element tag) (document_order (prune tag p)) = None"
proof
  show "removeTags tag p = Inr (prune tag p)"
    using assms by (rule removeTags_prune_aux)
  show "find (is_element tag) (document_order (prune tag p)) = None"
    by (induction tag p rule: prune.induct) (auto simp: is_element_def find_tags_append)
qed

lemma removeTags_prune_witness:
  "removeTags ''br'' [Node 1 Xml_element (Some ''p'') None
      [Node 2 Xml_text None (Some ''one'') [], Node 3 Xml_element (Some ''br'') None [], Node 4 Xml_text None (Some ''two'') []],
      Node 5 Xml_element (Some ''br'') None []]
    = Inr [Node 1 Xml_element (Some ''p'') None [Node 2 Xml_text None (Some ''one'') [], Node 4 Xml_text None (Some ''two'') []]]"
proof -
  let ?p = "[Node 1 Xml_element (Some ''p'') None
      [Node 2 Xml_text None (Some ''one'') [], Node 3 Xml_element (Some ''br'') None [], Node 4 Xml_text None (Some ''two'') []],
      Node 5 Xml_element (Some ''br'') None []]"
  have "named ?p" "distinct (addresses ?p)" "?p \<noteq> []" "\<not> is_element ''br'' (hd ?p)"
    by (simp_all add: is_element_def)
  then show ?thesis
    using removeTags_prune [of ?p "''br''"] by simp
qed

text \<open>The node itself is freed when it has the tag, and the loop goes on with it.\<close>

lemma removeTags_of_itself: "named (n # ns) \<Longrightarrow> is_element tag n \<Longrightarrow> removeTags tag (n # ns) = Inl Undefined"
  by (cases n; subst removeTags.simps) (auto simp: is_element_def node_name_def)

text \<open>\<open>removeComments\<close> leaves no comments, and all elements that are not below a comment, in their order.\<close>

lemma removeComments_none:
  "find (\<lambda>n. xtype n = Xml_comment) (document_order (removeComments trim p)) = None"
  "find (\<lambda>n. xtype n = Xml_comment) (document_order (without_comments trim p)) = None"
  by (induction trim p and trim p rule: removeComments_without_comments.induct) (auto simp: find_tags_append)

fun element_names :: "xml_node list \<Rightarrow> string option list" where
  "element_names [] = []"
| "element_names (Node a t nm ct cs # rest) =
     (if t = Xml_element then [nm] else []) @ (if t = Xml_comment then [] else element_names cs) @ element_names rest"

lemma removeComments_elements:
  "element_names (removeComments trim p) = element_names p"
  "element_names (without_comments trim p) = element_names p"
  by (induction trim p and trim p rule: removeComments_without_comments.induct) auto

end
