(* ===== verification/Spec2Isabelle.thy ===== *)
theory Spec2Isabelle
  imports RangeActions Emitter BinaryStream Crc32 BaseN Csv Patch Executor Futures Source Cron Hash Schema Makefile
    VersionSets Storage Lock Pack EditDistance RemoteUser SettingsFile UvCommand CommandTokens CommandLine
    Positionals RangeOne
    SourceOne Yaml Xml
begin

text \<open>
  A model of the C++ library collection "primitives" (the sources are under src/src) and the
  properties that make its parts correct. The collection is the base of a package manager:
  versions and version ranges name packages, sources say where their code comes from, commands
  run programs, an executor and a timer run tasks, settings configure programs, and small
  libraries (emitter, patch, csv, checksums, encodings, files) serve the others.

  Every operation is a function; a call that can fail returns a \<open>result\<close>, whose left side is an
  \<^typ>\<open>cpp_error\<close>: the exception that is thrown, \<open>Undefined\<close> for undefined behaviour and \<open>Diverges\<close>
  for a call that does not return. Calls that change a world return the result and the new
  world (theory \<open>Effects\<close>). Where a component relies on another by a contract, the contract is a
  locale that is interpreted on the definitions of the provider.

  The theories.

  \<^item> \<open>Prelude\<close>: results, decimal numerals, searching and joining strings, sorted association
  lists (\<open>std::map\<close>), weak orders. \<open>Effects\<close>: operations on a world. \<open>Conversions\<close>: texts to
  integers.

  \<^item> \<open>Version\<close>, \<open>VersionOps\<close>, \<open>VersionParse\<close>, \<open>VersionFormat\<close> (version.h, version.cpp, version.rl):
  versions of numbers and extra parts, the orders, increment and decrement with carries over
  numbers below 1000000000, the state machine of the parser and the printer, formats. The order
  is the lexicographic one on padded numbers; increment is the successor; a printed version
  parses to itself.

  \<^item> \<open>VersionRange\<close>, \<open>RangeActions\<close> (version_range.h, version_range.cpp, range.yy): sides,
  intervals, and ranges as vectors of intervals; the semantic actions of the range grammar. A
  version is in the union (intersection) of ranges if it is in one (both), under the conditions
  the code needs; adding an interval keeps the vector ordered and separated; the comparison,
  caret, tilde and star ranges mean what they say.

  \<^item> \<open>Emitter\<close>, \<open>BinaryStream\<close> (emitter.h): generated text with indentation; a byte buffer with
  64-bit offsets. Added emitters render as their lines; reads stay inside the buffer unless the
  offsets wrap around; what is written is read back.

  \<^item> \<open>Crc32\<close>, \<open>BaseN\<close> (crc32.h, base64.h, string.h of templates2): the table-driven checksum is
  the division by the polynomial and sees a changed byte; base64 is the encoding of RFC 4648
  and is decoded to its input.

  \<^item> \<open>Csv\<close> (csv.h): the tokenizer; it reads at most the terminating zero's successor, and a
  written line is read back.

  \<^item> \<open>Patch\<close> (patch.cpp): hunks of unified diffs; a diff of two texts applied to the first gives
  the second.

  \<^item> \<open>Executor\<close>, \<open>Futures\<close> (executor.h): the thread pool as a step relation on queues, workers,
  and the calls of \<open>push\<close>, \<open>wait\<close>, \<open>stop\<close> and of the wait for a future, each tied to the task that makes it, with
  atomic steps between locks; futures with callbacks. Tasks are neither lost nor run twice, a wait
  ends only when the work is done, and an executor that comes to rest has done its work unless a
  task is held up in one of its own calls; \<open>whenAll\<close> completes with its last future.

  \<^item> \<open>Cron\<close> (cron.h): the timer thread as a run over events; turns of a task are its period
  apart.

  \<^item> \<open>Source\<close> (source.h, source.cpp, parts of http.cpp and hash.cpp): package sources, their
  checks, documents, printed forms, hashes, and downloads by version control programs.

  \<^item> \<open>SettingPath\<close>, \<open>Settings\<close>, \<open>SettingsStore\<close>, \<open>SettingsFile\<close> (settings.h, settings.cpp, path.ll,
  path.yy, settings.yy): paths of settings, typed values, maps of settings and the layers of the
  storage, the actions of the settings grammar.

  \<^item> \<open>Arguments\<close>, \<open>Command\<close>, \<open>UvCommand\<close> (argument.h, command.h, command.cpp, uv_command.cpp):
  arguments with positions and quoting, commands and pipelines in a store of commands that
  point to each other, execution and its errors, the environment and standard streams of a
  process.

  \<^item> \<open>FileSystem\<close>, \<open>FileIterator\<close>, \<open>Hash\<close> (filesystem.h, file_iterator.h, hash.h, hash.cpp,
  hasher.cpp): reading and writing of files over a map from paths to entries, files read in
  blocks, file hashes over digests that are parameters. What is written is read back; a file
  read in blocks compares and hashes as its content.

  \<^item> \<open>Schema\<close> (db.h, schema_manager.h): creating and updating a database schema in a transaction,
  for any database that obeys a law of transactions, and schemas in a directory. A run does what
  the specification of a migration says or commits nothing.

  \<^item> \<open>Makefile\<close> (makefile.h): the reader of automake files as a scanner over the rest of the text.
  Nested conditionals take the branches their variables say; the resolution of references ends
  when a ranking of the names shows that there is no cycle, and keeps what every variable stands
  for up to the order of the words.

  \<^item> \<open>VersionSets\<close> (version_helpers.h): iterators over the releases of a container, which see the
  releases and nothing else.

  \<^item> \<open>Storage\<close> (storage.h): files stored by their hashes, over a directory or one file with an
  index; \<open>file_storage\<close> is proved against a contract that both obey.

  \<^item> \<open>Lock\<close> (lock.h): \<open>single_process_job\<close> and shared scopes as a step relation over the law of the
  platform's file lock. Processes exclude each other, nothing is stuck; threads of one process
  are not excluded.

  \<^item> \<open>Pack\<close> (pack.h): packing and unpacking with libarchive as a parameter. Files are unpacked
  as they were packed; names that do not go up stay below the destination, the others do not.

  \<^item> \<open>EditDistance\<close>, \<open>RemoteUser\<close> (deploy.h): the edit distance, which is the least number of edits of
  one character; users of remote servers and the ssh commands that run programs as them.

  \<^item> \<open>CommandTokens\<close> (CommandLine.cpp): splitting of command lines by the GNU and the Windows rules,
  configuration files, response files. What the quoting of a command writes is read back; the
  expansion of response files ends.

  \<^item> \<open>CommandOptions\<close>, \<open>CommandValues\<close>, \<open>CommandLine\<close>, \<open>Positionals\<close> (CommandLine.h, CommandLine.cpp, a fork of
  LLVM's library): registering options and subcommands, the occurrence of an option with its value, the
  parse of a command line. A name of all subcommands stands for the same option in each of them; named values
  reach their options, and so do positional arguments if no option takes the rest; what a
  result without error says; the parse changes nothing else, and its restarts at names of
  subcommands end.

  \<^item> \<open>VersionOne\<close>, \<open>RangeOne\<close> (version1/): the previous generation of the versions, with branches, and of
  their ranges, vectors of closed intervals; \<open>findBestMatch\<close>. Its order and its counting are related to
  those of the current generation; what is printed is read back; what a union contains.

  \<^item> \<open>SourceOne\<close> (source1/): what the previous generation of the package sources does differently: the
  spellings of a Git tag that are tried, cleaning up, versions in texts.

  \<^item> \<open>Yaml\<close> (yaml.h) and \<open>Xml\<close> (xml.h): access to documents of yaml-cpp and libxml2; the merge of YAML
  maps on a store of nodes that may share their contents, searches in document order, removal of
  elements, by their addresses, and of comments.

  Parameters. Code that is not under src/ is an argument of the definitions that use it: the
  Boost functions \<open>split\<close> and \<open>replace_all\<close>, the lock of the platform, the document libraries for JSON and YAML (a record
  of operations with the locale \<open>document\<close> of their laws; for the merge of YAML documents operations on a store of nodes), the cryptographic digest, the
  download and unpacking functions, the version control programs, the processes and their exit
  codes, the conversions of numbers and floating-point values, readings of the clock, and of LLVM
  the conversions of numbers, the bounded edit distance and the expansion of response files. The
  platform is POSIX.

  Bounds and termination. Numbers of versions and revisions are integers with the bounds of
  their C++ types as explicit conditions; offsets of streams and files and the round-robin
  counter of the executor are 64-bit words. Loops are structural recursions or functions with a
  measure; loops that may not end have the value \<open>Diverges\<close> or are step relations. Walks along the
  pointers of a chain of commands have as many steps as there are commands, which is enough for a
  chain without repetition (\<open>Command.pipeline_chain\<close> proves it for the chains that are built). The
  parse of a command line starts again at the name of a subcommand; \<open>ParseCommandLineOptions\<close> takes
  the number of restarts, and the number of arguments is enough without response files
  (\<open>CommandLine.parse_restarts_end\<close>).

  Not modelled. The Flex and Bison automata of the range and settings grammars (their actions
  are), the formatting library behind \<open>Version::format\<close>, real threads below the locks of the executor (memory
  order; a wait on a condition variable goes on when its predicate holds), transfers over the network, directory
  listings, logging, bindings of databases and of other services,
  Windows code, generators of the build, and of the command line library the printing of help and
  of option values and the saving of subcommands. The older generation source1 is modelled where it
  differs from the current one; of version1 the grammar of ranges is not modelled.
\<close>

end
